(* ===== verification/Prelude.thy ===== *)
theory Prelude imports Main begin

text \<open>
  Shared vocabulary of the development.  Positions, lengths and counts of the program are
  \<open>size_t\<close> values and are modelled by \<open>nat\<close>; \<open>npos\<close> is the reserved value
  \<open>size_t(-1)\<close> of a 64 bit platform.  The second half is a small theory of lists of half
  open ranges \<open>[a, b)\<close>: the set of positions they cover, the sortedness condition that the
  program's own \<open>verify()\<close> checks, and how both behave under append, update and shift.
\<close>

named_theorems range_simps "set and list equations of range lists"

section \<open>Machine constants\<close>

definition npos :: nat where
  "npos = 2 ^ 64 - 1"

section \<open>Lists of half open ranges\<close>

type_synonym range = "nat \<times> nat"

definition range_len :: "range \<Rightarrow> nat" where
  "range_len r = snd r - fst r"

definition range_total :: "range list \<Rightarrow> nat" where
  "range_total xs = sum_list (map range_len xs)"

definition covered :: "range list \<Rightarrow> nat set" where
  "covered xs = (\<Union>r\<in>set xs. {fst r..<snd r})"

definition before :: "range \<Rightarrow> range \<Rightarrow> bool" where
  "before r q \<longleftrightarrow> snd r < fst q"

definition ranges_ok :: "range list \<Rightarrow> bool" where
  "ranges_ok xs \<longleftrightarrow> sorted_wrt before xs \<and> (\<forall>r\<in>set xs. fst r < snd r)"

text \<open>The ranges that end at or before an index, and the rest.\<close>

definition lo :: "nat \<Rightarrow> range list \<Rightarrow> range list" where
  "lo i xs = takeWhile (\<lambda>r. snd r \<le> i) xs"

definition hi :: "nat \<Rightarrow> range list \<Rightarrow> range list" where
  "hi i xs = dropWhile (\<lambda>r. snd r \<le> i) xs"

definition move_range :: "int \<Rightarrow> range \<Rightarrow> range" where
  "move_range d r = (nat (int (fst r) + d), nat (int (snd r) + d))"

lemma range_total_simps [simp]:
  "range_total [] = 0"
  "range_total (r # xs) = range_len r + range_total xs"
  "range_total (xs @ ys) = range_total xs + range_total ys"
  by (simp_all add: range_total_def)

lemma covered_simps [simp]:
  "covered [] = {}"
  "covered (r # xs) = {fst r..<snd r} \<union> covered xs"
  "covered (xs @ ys) = covered xs \<union> covered ys"
  by (auto simp: covered_def)

lemma in_covered: "x \<in> covered xs \<longleftrightarrow> (\<exists>r\<in>set xs. fst r \<le> x \<and> x < snd r)"
  by (auto simp: covered_def)

lemma finite_covered [simp]: "finite (covered xs)"
  by (simp add: covered_def)

lemma ranges_ok_Nil [simp]: "ranges_ok []"
  by (simp add: ranges_ok_def)

lemma ranges_ok_Cons:
  "ranges_ok (r # xs) \<longleftrightarrow> fst r < snd r \<and> (\<forall>q\<in>set xs. snd r < fst q) \<and> ranges_ok xs"
  by (auto simp: ranges_ok_def before_def)

lemma ranges_ok_append:
  "ranges_ok (xs @ ys) \<longleftrightarrow>
     ranges_ok xs \<and> ranges_ok ys \<and> (\<forall>r\<in>set xs. \<forall>q\<in>set ys. snd r < fst q)"
  by (auto simp: ranges_ok_def sorted_wrt_append before_def)

lemma ranges_ok_single [simp]: "ranges_ok [r] \<longleftrightarrow> fst r < snd r"
  by (simp add: ranges_ok_Cons)

lemma ranges_ok_nonempty: "ranges_ok xs \<Longrightarrow> r \<in> set xs \<Longrightarrow> fst r < snd r"
  by (simp add: ranges_ok_def)

lemmas ranges_ok_iff = ranges_ok_Cons ranges_ok_append

lemma lo_hi [simp]: "lo i xs @ hi i xs = xs"
  by (simp add: lo_def hi_def)

lemma lo_le: "r \<in> set (lo i xs) \<Longrightarrow> snd r \<le> i"
  by (auto simp: lo_def dest: set_takeWhileD)

lemma hi_hd: "hi i xs = r # ys \<Longrightarrow> i < snd r"
  using hd_dropWhile[of "\<lambda>r. snd r \<le> i" xs] by (auto simp: hi_def)

lemma hi_gt: "ranges_ok xs \<Longrightarrow> r \<in> set (hi i xs) \<Longrightarrow> i < snd r"
proof -
  assume ok: "ranges_ok xs" and r: "r \<in> set (hi i xs)"
  from r obtain h t where h: "hi i xs = h # t" by (cases "hi i xs") auto
  have "ranges_ok (lo i xs @ h # t)" using ok h lo_hi[of i xs] by simp
  then have "ranges_ok (h # t)" by (simp add: ranges_ok_append)
  with r h hi_hd[OF h] show "i < snd r"
    by (auto simp: ranges_ok_Cons dest: ranges_ok_nonempty) (meson ranges_ok_nonempty less_trans)
qed

lemma lo_append_eq:
  assumes "\<forall>r\<in>set xs. snd r \<le> i" and "ys = [] \<or> i < snd (hd ys)"
  shows "lo i (xs @ ys) = xs" and "hi i (xs @ ys) = ys"
  using assms by (cases ys; auto simp: lo_def hi_def)+

lemma split_at_hi:
  assumes "ranges_ok (l @ r)" and "\<forall>q\<in>set l. snd q \<le> i" and "r = [] \<or> i < snd (hd r)"
    and "q \<in> set r"
  shows "i < snd q"
  using assms hi_gt[OF assms(1), of q i] lo_append_eq(2)[OF assms(2,3)] by simp

lemma covered_lo: "x \<in> covered (lo i xs) \<Longrightarrow> x < i"
  by (fastforce simp: in_covered dest: lo_le)

lemma covered_card: "ranges_ok xs \<Longrightarrow> card (covered xs) = range_total xs"
proof (induction xs)
  case (Cons r xs)
  have "{fst r..<snd r} \<inter> covered xs = {}"
    using Cons.prems by (fastforce simp: ranges_ok_Cons in_covered)
  with Cons show ?case
    by (simp add: card_Un_disjoint ranges_ok_Cons range_len_def)
qed simp

lemma covered_map_move:
  assumes "\<forall>r\<in>set xs. 0 \<le> int (fst r) + d"
  shows "covered (map (move_range d) xs) = (\<lambda>x. nat (int x + d)) ` covered xs"
proof -
  have *: "{nat (int a + d)..<nat (int b + d)} = (\<lambda>x. nat (int x + d)) ` {a..<b}"
    if "0 \<le> int a + d" for a b
  proof -
    have "x \<in> (\<lambda>x. nat (int x + d)) ` {a..<b}" if "x \<in> {nat (int a + d)..<nat (int b + d)}" for x
      using that \<open>0 \<le> int a + d\<close> by (intro image_eqI[where x = "nat (int x - d)"]) auto
    then show ?thesis using that by auto
  qed
  show ?thesis
    using assms by (induction xs) (auto simp: * move_range_def image_Un)
qed

lemma ranges_ok_map_move:
  assumes "ranges_ok xs" and "\<forall>r\<in>set xs. 0 \<le> int (fst r) + d"
  shows "ranges_ok (map (move_range d) xs)"
  using assms by (induction xs) (auto simp: ranges_ok_Cons move_range_def)

lemma sorted_bounds_hd: "ranges_ok xs \<Longrightarrow> r \<in> set xs \<Longrightarrow> fst (hd xs) \<le> fst r"
  by (cases xs) (force simp: ranges_ok_Cons)+

section \<open>Sets of positions under insertion and deletion\<close>

text \<open>
  The reference meaning of the shifting operations: \<open>close_gap i S\<close> deletes position
  \<open>i\<close> and moves the later ones down, \<open>open_gap i n S\<close> makes room for \<open>n\<close>
  positions at \<open>i\<close>.
\<close>

definition close_gap :: "nat \<Rightarrow> nat set \<Rightarrow> nat set" where
  "close_gap i S = {x \<in> S. x < i} \<union> (\<lambda>x. x - 1) ` {x \<in> S. i < x}"

definition open_gap :: "nat \<Rightarrow> nat \<Rightarrow> nat set \<Rightarrow> nat set" where
  "open_gap i n S = {x \<in> S. x < i} \<union> (\<lambda>x. x + n) ` {x \<in> S. i \<le> x}"

lemma gap_union [range_simps]:
  "close_gap i (A \<union> B) = close_gap i A \<union> close_gap i B"
  "open_gap i n (A \<union> B) = open_gap i n A \<union> open_gap i n B"
  by (auto simp: close_gap_def open_gap_def)

lemma gap_empty [simp]: "close_gap i {} = {}" "open_gap i n {} = {}"
  by (simp_all add: close_gap_def open_gap_def)

lemma gap_below:
  "\<forall>x\<in>A. x < i \<Longrightarrow> close_gap i A = A" "\<forall>x\<in>A. x < i \<Longrightarrow> open_gap i n A = A"
  by (auto simp: close_gap_def open_gap_def)

lemma gap_above:
  "\<forall>x\<in>A. i < x \<Longrightarrow> close_gap i A = (\<lambda>x. nat (int x + - 1)) ` A"
  "\<forall>x\<in>A. i \<le> x \<Longrightarrow> open_gap i n A = (\<lambda>x. nat (int x + int n)) ` A"
proof -
  assume a: "\<forall>x\<in>A. i < x"
  then have "{x \<in> A. x < i} = {}" "{x \<in> A. i < x} = A" by auto
  moreover have "(\<lambda>x. x - 1) ` A = (\<lambda>x. nat (int x + - 1)) ` A"
    by (rule image_cong) auto
  ultimately show "close_gap i A = (\<lambda>x. nat (int x + - 1)) ` A"
    unfolding close_gap_def by (metis sup_bot_left)
next
  assume "\<forall>x\<in>A. i \<le> x"
  then have "{x \<in> A. x < i} = {}" "{x \<in> A. i \<le> x} = A" by auto
  moreover have "(\<lambda>x. x + n) ` A = (\<lambda>x. nat (int x + int n)) ` A"
    by (rule image_cong) auto
  ultimately show "open_gap i n A = (\<lambda>x. nat (int x + int n)) ` A"
    unfolding open_gap_def by (metis sup_bot_left)
qed

lemma close_gap_interval: "a \<le> i \<Longrightarrow> i < b \<Longrightarrow> close_gap i {a..<b} = {a..<b - 1}"
proof -
  assume ab: "a \<le> i" "i < b"
  have "x \<in> close_gap i {a..<b}" if "x \<in> {a..<b - 1}" for x
  proof (cases "x < i")
    case False
    then have "x = Suc x - 1" "Suc x \<in> {y \<in> {a..<b}. i < y}" using that ab by auto
    then show ?thesis unfolding close_gap_def by blast
  qed (use that ab in \<open>auto simp: close_gap_def\<close>)
  then have "{a..<b - 1} \<subseteq> close_gap i {a..<b}" by blast
  moreover have "close_gap i {a..<b} \<subseteq> {a..<b - 1}" using ab by (auto simp: close_gap_def)
  ultimately show ?thesis by simp
qed

lemma open_gap_interval:
  "a \<le> i \<Longrightarrow> i < b \<Longrightarrow> open_gap i n {a..<b} = {a..<i} \<union> {i + n..<b + n}"
proof -
  assume ab: "a \<le> i" "i < b"
  have "x \<in> open_gap i n {a..<b}" if "x \<in> {i + n..<b + n}" for x
    using that ab by (auto simp: open_gap_def intro!: image_eqI[where x = "x - n"])
  then have "{i + n..<b + n} \<subseteq> open_gap i n {a..<b}" by blast
  moreover have "open_gap i n {a..<b} \<subseteq> {a..<i} \<union> {i + n..<b + n}" "{a..<i} \<subseteq> open_gap i n {a..<b}"
    using ab by (auto simp: open_gap_def)
  ultimately show ?thesis by blast
qed

lemma gap_covered_lo:
  "\<forall>r\<in>set l. snd r \<le> i \<Longrightarrow> close_gap i (covered l) = covered l"
  "\<forall>r\<in>set l. snd r \<le> i \<Longrightarrow> open_gap i n (covered l) = covered l"
  by (rule gap_below, fastforce simp: in_covered)+

lemma gap_covered_hi:
  "\<forall>r\<in>set xs. i < fst r \<Longrightarrow> close_gap i (covered xs) = covered (map (move_range (- 1)) xs)"
  "\<forall>r\<in>set xs. i \<le> fst r \<Longrightarrow> open_gap i n (covered xs) = covered (map (move_range (int n)) xs)"
proof -
  assume a: "\<forall>r\<in>set xs. i < fst r"
  then have "\<forall>r\<in>set xs. 0 \<le> int (fst r) + - 1" "\<forall>x\<in>covered xs. i < x"
    by (fastforce simp: in_covered)+
  then show "close_gap i (covered xs) = covered (map (move_range (- 1)) xs)"
    by (simp only: covered_map_move gap_above(1))
next
  assume "\<forall>r\<in>set xs. i \<le> fst r"
  then have "\<forall>r\<in>set xs. 0 \<le> int (fst r) + int n" "\<forall>x\<in>covered xs. i \<le> x"
    by (fastforce simp: in_covered)+
  then show "open_gap i n (covered xs) = covered (map (move_range (int n)) xs)"
    by (simp only: covered_map_move gap_above(2))
qed

text \<open>Positions of the complement: \<open>rank S j\<close> is the number of free positions below \<open>j\<close>.\<close>

definition rank :: "nat set \<Rightarrow> nat \<Rightarrow> nat" where
  "rank S j = j - card (S \<inter> {..<j})"

lemma card_below_le: "card (S \<inter> {..<j}) \<le> (j::nat)"
  using card_mono[of "{..<j}" "S \<inter> {..<j}"] by simp

lemma rank_card: "rank S j = card ({..<j} - S)"
  using card_Diff_subset_Int[of "{..<j}" S] by (simp add: rank_def Int_commute)

lemma rank_mono: "i \<le> j \<Longrightarrow> rank S i \<le> rank S j"
  unfolding rank_card by (rule card_mono) auto

lemma rank_strict: "i < j \<Longrightarrow> i \<notin> S \<Longrightarrow> rank S i < rank S j"
  unfolding rank_card by (rule psubset_card_mono) auto

lemma rank_inj: "i \<notin> S \<Longrightarrow> j \<notin> S \<Longrightarrow> rank S i = rank S j \<Longrightarrow> i = j"
  by (metis linorder_neqE_nat nat_less_le rank_strict)

lemma covered_below_split:
  assumes "ranges_ok (l @ r)" and "\<forall>q\<in>set l. snd q \<le> j" and "r = [] \<or> j \<le> fst (hd r)"
  shows "covered (l @ r) \<inter> {..<j} = covered l" and "card (covered (l @ r) \<inter> {..<j}) = range_total l"
proof -
  have "j \<le> fst q" if "q \<in> set r" for q
    using that assms(1,3) sorted_bounds_hd[of r q] by (cases r) (auto simp: ranges_ok_append)
  then show "covered (l @ r) \<inter> {..<j} = covered l"
    using assms(2) by (fastforce simp: in_covered)
  then show "card (covered (l @ r) \<inter> {..<j}) = range_total l"
    using assms(1) by (simp add: covered_card ranges_ok_append)
qed

section \<open>Lists\<close>

lemma nat_int_pred [simp]: "nat (int b - 1) = b - 1"
  by arith

lemma list_update_mid [simp]: "(xs @ y # ys)[length xs := z] = xs @ z # ys"
  by simp

lemma last_in_take: "p \<noteq> 0 \<Longrightarrow> p \<le> length xs \<Longrightarrow> xs ! (p - 1) = last (take p xs)"
  by (subst last_conv_nth) auto

lemma split_nth: "p < length xs \<Longrightarrow> xs = take p xs @ xs ! p # drop (Suc p) xs"
  by (rule id_take_nth_drop)

end
