(* ===== verification/ChunkedRanges.thy ===== *)
theory ChunkedRanges imports Prelude begin

text \<open>
  \<open>ChunkedRangeVector\<close> of index_set.hpp / index_set.cpp: ranges stored in chunks of at most
  \<open>max_size\<close> entries, each chunk caching its first and last position and the number of
  positions it holds.  An iterator is a pair (outer, inner) of indices into the chunk vector and
  into the chunk's data; \<open>end()\<close> is (number of chunks, 0), whose inner pointer is null in the
  code.  Mutating operations return the new chunk vector, and the new iterator where the code
  returns one.  The lemmas reduce every operation to the flat list of ranges and show that the
  cached fields stay right.
\<close>

section \<open>Data\<close>

record chunk =
  data :: "range list"
  chunk_begin :: nat
  chunk_end :: nat
  chunk_count :: nat

type_synonym crv = "chunk list"
type_synonym iter = "nat \<times> nat"

definition max_size :: nat where
  "max_size = 4096 div 16"

lemma max_size_pos: "2 \<le> max_size" and max_size_even: "max_size - max_size div 2 = max_size div 2"
  by (simp_all add: max_size_def)

section \<open>Iterators\<close>

definition it_end :: "crv \<Rightarrow> iter" where
  "it_end m = (length m, 0)"

definition it_begin :: "crv \<Rightarrow> iter" where
  "it_begin m = (if m = [] then it_end m else (0, 0))"

text \<open>\<open>it != end()\<close> fails; for an iterator into \<open>m\<close> this is equality with \<open>end()\<close>.\<close>

definition at_end :: "crv \<Rightarrow> iter \<Rightarrow> bool" where
  "at_end m it \<longleftrightarrow> length m \<le> fst it"

definition deref :: "crv \<Rightarrow> iter \<Rightarrow> range" where
  "deref m it = data (m ! fst it) ! snd it"

definition next_chunk :: "iter \<Rightarrow> iter" where
  "next_chunk it = (fst it + 1, 0)"

definition it_next :: "crv \<Rightarrow> iter \<Rightarrow> iter" where
  "it_next m it =
     (if length (data (m ! fst it)) \<le> snd it + 1 then next_chunk it else (fst it, snd it + 1))"

definition it_prev :: "crv \<Rightarrow> iter \<Rightarrow> iter" where
  "it_prev m it =
     (if at_end m it \<or> snd it = 0 then (fst it - 1, length (data (m ! (fst it - 1))) - 1)
      else (fst it, snd it - 1))"

section \<open>Mutation through an iterator\<close>

definition it_set :: "crv \<Rightarrow> iter \<Rightarrow> nat \<Rightarrow> nat \<Rightarrow> crv" where
  "it_set m it front back =
     (let c = m ! fst it; r = data c ! snd it
      in m[fst it := c\<lparr>
           chunk_count := chunk_count c - (snd r - fst r) + (back - front),
           chunk_begin := (if snd it = 0 then front else chunk_begin c),
           chunk_end := (if snd it = length (data c) - 1 then back else chunk_end c),
           data := (data c)[snd it := (front, back)]\<rparr>])"

definition it_adjust :: "crv \<Rightarrow> iter \<Rightarrow> int \<Rightarrow> int \<Rightarrow> crv" where
  "it_adjust m it front back =
     (let c = m ! fst it; r = data c ! snd it
      in m[fst it := c\<lparr>
           chunk_begin := (if snd it = 0 then nat (int (chunk_begin c) + front) else chunk_begin c),
           chunk_end := (if snd it = length (data c) - 1 then nat (int (chunk_end c) + back)
                         else chunk_end c),
           chunk_count := nat (int (chunk_count c) + (- front + back)),
           data := (data c)[snd it := (nat (int (fst r) + front), nat (int (snd r) + back))]\<rparr>])"

definition it_shift :: "crv \<Rightarrow> iter \<Rightarrow> int \<Rightarrow> crv" where
  "it_shift m it distance =
     (let c = m ! fst it; r = data c ! snd it
      in m[fst it := c\<lparr>
           chunk_begin := (if snd it = 0 then nat (int (chunk_begin c) + distance)
                           else chunk_begin c),
           chunk_end := (if snd it = length (data c) - 1 then nat (int (chunk_end c) + distance)
                         else chunk_end c),
           data := (data c)[snd it := move_range distance r]\<rparr>])"

section \<open>Insertion and removal of ranges\<close>

definition crv_push_back :: "crv \<Rightarrow> range \<Rightarrow> crv" where
  "crv_push_back m v =
     (if m \<noteq> [] \<and> length (data (last m)) < max_size
      then let c = last m
           in butlast m @ [c\<lparr>data := data c @ [v],
                              chunk_count := chunk_count c + (snd v - fst v),
                              chunk_end := snd v\<rparr>]
      else m @ [\<lparr>data = [v], chunk_begin = fst v, chunk_end = snd v,
                 chunk_count = snd v - fst v\<rparr>])"

definition ensure_space :: "crv \<Rightarrow> iter \<Rightarrow> crv \<times> iter" where
  "ensure_space m it =
     (let c = m ! fst it
      in if length (data c) + 1 \<le> max_size then (m, it)
         else
           let to_move = max_size div 2;
               kept = take (length (data c) - to_move) (data c);
               moved = drop (length (data c) - to_move) (data c);
               moved_count = sum_list (map (\<lambda>r. snd r - fst r) moved);
               prev = c\<lparr>data := kept, chunk_end := snd (last kept),
                        chunk_count := chunk_count c - moved_count\<rparr>;
               new_pos = \<lparr>data = moved, chunk_begin = fst (hd moved),
                          chunk_end = snd (last moved), chunk_count = moved_count\<rparr>;
               m' = take (fst it) m @ [prev, new_pos] @ drop (fst it + 1) m
           in (m', if to_move \<le> snd it then (fst it + 1, snd it - to_move) else it))"

definition crv_insert :: "crv \<Rightarrow> iter \<Rightarrow> range \<Rightarrow> crv \<times> iter" where
  "crv_insert m pos v =
     (if at_end m pos then (let m' = crv_push_back m v in (m', it_prev m' (it_end m')))
      else
        let (m', pos') = ensure_space m pos;
            c = m' ! fst pos';
            c' = c\<lparr>data := take (snd pos') (data c) @ [v] @ drop (snd pos') (data c),
                   chunk_count := chunk_count c + (snd v - fst v),
                   chunk_begin := min (chunk_begin c) (fst v),
                   chunk_end := max (chunk_end c) (snd v)\<rparr>
        in (m'[fst pos' := c'], pos'))"

definition crv_erase :: "crv \<Rightarrow> iter \<Rightarrow> crv \<times> iter" where
  "crv_erase m pos =
     (let c = m ! fst pos; r = data c ! snd pos;
          d = take (snd pos) (data c) @ drop (snd pos + 1) (data c)
      in if d = [] then (take (fst pos) m @ drop (fst pos + 1) m, (fst pos, 0))
         else
           (m[fst pos := c\<lparr>chunk_count := chunk_count c - (snd r - fst r), data := d,
                            chunk_begin := fst (hd d), chunk_end := snd (last d)\<rparr>],
            if snd pos < length d then pos else (fst pos + 1, 0)))"

section \<open>The code's own consistency check\<close>

fun verify_order :: "nat option \<Rightarrow> range list \<Rightarrow> bool" where
  "verify_order prev_end [] = True"
| "verify_order prev_end (r # rs) =
     (fst r < snd r \<and> (case prev_end of None \<Rightarrow> True | Some e \<Rightarrow> e < fst r) \<and>
      verify_order (Some (snd r)) rs)"

definition verify_chunk :: "chunk \<Rightarrow> bool" where
  "verify_chunk c \<longleftrightarrow>
     data c \<noteq> [] \<and> fst (hd (data c)) = chunk_begin c \<and> snd (last (data c)) = chunk_end c \<and>
     chunk_count c \<le> chunk_end c - chunk_begin c \<and>
     sum_list (map (\<lambda>r. snd r - fst r) (data c)) = chunk_count c"

definition flat :: "crv \<Rightarrow> range list" where
  "flat m = concat (map data m)"

definition verify :: "crv \<Rightarrow> bool" where
  "verify m \<longleftrightarrow> verify_order None (flat m) \<and> list_all verify_chunk m"

section \<open>Well-formedness\<close>

text \<open>
  \<open>chunk_ok\<close> is what one chunk must satisfy whatever its neighbours are; \<open>crv_wf\<close> adds the
  order of the flat range list and is what the code relies on.
\<close>

definition chunk_ok :: "chunk \<Rightarrow> bool" where
  "chunk_ok c \<longleftrightarrow>
     data c \<noteq> [] \<and> length (data c) \<le> max_size \<and> chunk_begin c = fst (hd (data c)) \<and>
     chunk_end c = snd (last (data c)) \<and> chunk_count c = range_total (data c)"

definition chunks_ok :: "crv \<Rightarrow> bool" where
  "chunks_ok m \<longleftrightarrow> (\<forall>c\<in>set m. chunk_ok c)"

definition crv_wf :: "crv \<Rightarrow> bool" where
  "crv_wf m \<longleftrightarrow> chunks_ok m \<and> ranges_ok (flat m)"

definition indices :: "crv \<Rightarrow> nat set" where
  "indices m = covered (flat m)"

text \<open>Valid iterators and the position they have in the flat list.\<close>

definition valid :: "crv \<Rightarrow> iter \<Rightarrow> bool" where
  "valid m it \<longleftrightarrow>
     (fst it < length m \<and> snd it < length (data (m ! fst it))) \<or> it = it_end m"

definition pos :: "crv \<Rightarrow> iter \<Rightarrow> nat" where
  "pos m it = length (flat (take (fst it) m)) + snd it"

section \<open>The flat view\<close>

lemma flat_simps [simp]:
  "flat [] = []" "flat (c # m) = data c @ flat m" "flat (m @ n) = flat m @ flat n"
  by (simp_all add: flat_def)

lemma length_flat: "length (flat m) = sum_list (map (length \<circ> data) m)"
  by (induction m) auto

lemma flat_split:
  "i < length m \<Longrightarrow> flat m = flat (take i m) @ data (m ! i) @ flat (drop (Suc i) m)"
  by (subst id_take_nth_drop[of i m]) simp_all

lemma chunks_ok_Nil [simp]: "chunks_ok []"
  by (simp add: chunks_ok_def)

lemma chunks_ok_simps [simp]:
  "chunks_ok (c # m) \<longleftrightarrow> chunk_ok c \<and> chunks_ok m"
  "chunks_ok (m @ n) \<longleftrightarrow> chunks_ok m \<and> chunks_ok n"
  by (auto simp: chunks_ok_def)

lemma chunks_ok_nth: "chunks_ok m \<Longrightarrow> i < length m \<Longrightarrow> chunk_ok (m ! i)"
  by (simp add: chunks_ok_def)

lemma chunks_ok_take_drop:
  "chunks_ok m \<Longrightarrow> chunks_ok (take i m)" "chunks_ok m \<Longrightarrow> chunks_ok (drop i m)"
  by (auto simp: chunks_ok_def dest: in_set_takeD in_set_dropD)

lemma chunks_ok_update: "chunks_ok m \<Longrightarrow> chunk_ok c \<Longrightarrow> chunks_ok (m[i := c])"
  by (auto simp: chunks_ok_def dest: set_update_subset_insert[THEN subsetD])

lemma chunk_ok_nonempty: "chunk_ok c \<Longrightarrow> data c \<noteq> []"
  by (simp add: chunk_ok_def)

lemma flat_Nil: "chunks_ok m \<Longrightarrow> flat m = [] \<longleftrightarrow> m = []"
  by (cases m) (auto dest: chunk_ok_nonempty)

lemma crv_wf_Nil [simp]: "crv_wf []"
  by (simp add: crv_wf_def)

lemma indices_Nil [simp]: "indices [] = {}"
  by (simp add: indices_def)

lemma crv_wf_empty_iff: "crv_wf m \<Longrightarrow> indices m = {} \<longleftrightarrow> m = []"
proof
  assume crv_wf: "crv_wf m" and "indices m = {}"
  then have "flat m = []"
    by (cases "flat m") (auto simp: crv_wf_def indices_def ranges_ok_Cons)
  with crv_wf show "m = []" by (simp add: crv_wf_def flat_Nil)
qed simp

section \<open>Iterators and positions\<close>

lemma valid_end [simp]: "valid m (it_end m)"
  by (simp add: valid_def)

lemma pos_end [simp]: "pos m (it_end m) = length (flat m)"
  by (simp add: pos_def it_end_def)

lemma at_end_end [simp]: "at_end m (it_end m)"
  by (simp add: at_end_def it_end_def)

lemma valid_at_end: "valid m it \<Longrightarrow> at_end m it \<longleftrightarrow> it = it_end m"
  by (auto simp: valid_def at_end_def it_end_def)

lemma valid_inner:
  "valid m it \<Longrightarrow> \<not> at_end m it \<Longrightarrow> fst it < length m \<and> snd it < length (data (m ! fst it))"
  by (auto simp: valid_def at_end_def it_end_def)

lemma deref_flat:
  assumes "valid m it" and "\<not> at_end m it"
  shows "pos m it < length (flat m)" and "deref m it = flat m ! pos m it"
  using valid_inner[OF assms] flat_split[of "fst it" m]
  by (auto simp: pos_def deref_def nth_append)

lemma at_end_pos:
  assumes "valid m it"
  shows "at_end m it \<longleftrightarrow> pos m it = length (flat m)"
  using deref_flat(1)[OF assms] valid_at_end[OF assms] by auto

lemma valid_begin [simp]: "chunks_ok m \<Longrightarrow> valid m (it_begin m)"
  by (cases m) (auto simp: valid_def it_begin_def it_end_def dest: chunk_ok_nonempty)

lemma pos_begin [simp]: "pos m (it_begin m) = 0"
  by (auto simp: pos_def it_begin_def it_end_def)

lemma begin_iff:
  assumes "chunks_ok m" and "valid m it"
  shows "it = it_begin m \<longleftrightarrow> pos m it = 0"
proof
  assume p: "pos m it = 0"
  then have "flat (take (fst it) m) = []" by (simp add: pos_def)
  with assms(1) have "take (fst it) m = []" by (simp add: flat_Nil chunks_ok_take_drop)
  with p assms(2) show "it = it_begin m"
    by (cases it) (auto simp: it_begin_def it_end_def pos_def valid_def)
qed auto

lemma pos_next_chunk:
  assumes "chunks_ok m" and "valid m it" and "\<not> at_end m it"
  shows "valid m (next_chunk it)"
    and "pos m (next_chunk it) = length (flat (take (fst it) m)) + length (data (m ! fst it))"
proof -
  from valid_inner[OF assms(2,3)] have f: "fst it < length m" by simp
  show "valid m (next_chunk it)"
    using f chunks_ok_nth[OF assms(1), of "fst it + 1"]
    by (auto simp: valid_def next_chunk_def it_end_def dest: chunk_ok_nonempty)
  show "pos m (next_chunk it) = length (flat (take (fst it) m)) + length (data (m ! fst it))"
    using f by (simp add: pos_def next_chunk_def take_Suc_conv_app_nth)
qed

lemma next_ok:
  assumes "chunks_ok m" and "valid m it" and "\<not> at_end m it"
  shows "valid m (it_next m it)" and "pos m (it_next m it) = Suc (pos m it)"
  using pos_next_chunk[OF assms] valid_inner[OF assms(2,3)]
  by (auto simp: it_next_def pos_def valid_def)

lemma prev_ok:
  assumes "chunks_ok m" and "valid m it" and "pos m it \<noteq> 0"
  shows "valid m (it_prev m it)" and "pos m (it_prev m it) = pos m it - 1"
    and "\<not> at_end m (it_prev m it)"
proof -
  show "valid m (it_prev m it)" "pos m (it_prev m it) = pos m it - 1"
    "\<not> at_end m (it_prev m it)"
  proof (atomize (full), cases "at_end m it \<or> snd it = 0")
    case True
    then have s: "snd it = 0" using assms(2) valid_at_end by (auto simp: it_end_def)
    obtain j where j: "fst it = Suc j" using assms(3) s by (cases "fst it") (auto simp: pos_def)
    have jl: "j < length m"
      using assms(2) j by (auto simp: valid_def it_end_def)
    have "data (m ! j) \<noteq> []" using chunks_ok_nth[OF assms(1) jl] by (rule chunk_ok_nonempty)
    then show "valid m (it_prev m it) \<and> pos m (it_prev m it) = pos m it - 1 \<and>
        \<not> at_end m (it_prev m it)"
      using True j jl s
      by (cases "data (m ! j)") (auto simp: valid_def it_prev_def pos_def at_end_def
          take_Suc_conv_app_nth)
  next
    case False
    with valid_inner[OF assms(2)]
    show "valid m (it_prev m it) \<and> pos m (it_prev m it) = pos m it - 1 \<and>
        \<not> at_end m (it_prev m it)"
      by (auto simp: it_prev_def valid_def pos_def at_end_def)
  qed
qed

section \<open>Updates that keep the shape\<close>

definition same_shape :: "crv \<Rightarrow> crv \<Rightarrow> bool" where
  "same_shape m m' \<longleftrightarrow> map (length \<circ> data) m' = map (length \<circ> data) m"

lemma same_shape_refl [simp]: "same_shape m m"
  by (simp add: same_shape_def)

lemma same_shape_trans: "same_shape a b \<Longrightarrow> same_shape b c \<Longrightarrow> same_shape a c"
  by (simp add: same_shape_def)

lemma same_shape_length: "same_shape m m' \<Longrightarrow> length m' = length m"
  unfolding same_shape_def by (metis length_map)

lemma same_shape_nth:
  "same_shape m m' \<Longrightarrow> i < length m \<Longrightarrow> length (data (m' ! i)) = length (data (m ! i))"
  unfolding same_shape_def by (metis comp_apply length_map nth_map)

lemma same_shape_pos: "same_shape m m' \<Longrightarrow> pos m' it = pos m it"
  unfolding same_shape_def pos_def length_flat by (metis take_map)

lemma same_shape_valid: "same_shape m m' \<Longrightarrow> valid m' it = valid m it"
  by (auto simp: valid_def it_end_def same_shape_length same_shape_nth)

lemma same_shape_at_end: "same_shape m m' \<Longrightarrow> at_end m' it = at_end m it"
  by (simp add: at_end_def same_shape_length)

lemma same_shape_flat: "same_shape m m' \<Longrightarrow> length (flat m') = length (flat m)"
  unfolding same_shape_def length_flat by metis

lemmas same_shape_simps =
  same_shape_pos same_shape_valid same_shape_at_end same_shape_flat same_shape_length

lemma flat_update:
  assumes "valid m it" and "\<not> at_end m it" and "data c = (data (m ! fst it))[snd it := v]"
  shows "flat (m[fst it := c]) = (flat m)[pos m it := v]" and "same_shape m (m[fst it := c])"
proof -
  from valid_inner[OF assms(1,2)] have f: "fst it < length m" "snd it < length (data (m ! fst it))"
    by auto
  show "flat (m[fst it := c]) = (flat m)[pos m it := v]"
    using f assms(3)
    by (subst flat_split[OF f(1)])
      (simp add: upd_conv_take_nth_drop[OF f(1)] pos_def list_update_append)
  show "same_shape m (m[fst it := c])"
    using f assms(3) by (auto simp: same_shape_def map_update intro: list_update_same_conv[THEN iffD2])
qed

lemma range_total_update:
  "i < length xs \<Longrightarrow> range_total (xs[i := v]) = range_total xs - range_len (xs ! i) + range_len v"
proof -
  assume i: "i < length xs"
  have "range_total xs = range_total (take i xs) + range_len (xs ! i) + range_total (drop (Suc i) xs)"
    by (subst id_take_nth_drop[OF i]) simp
  with i show ?thesis by (simp add: upd_conv_take_nth_drop)
qed

lemma range_total_member: "r \<in> set xs \<Longrightarrow> range_len r \<le> range_total xs"
  by (auto simp: range_total_def intro: member_le_sum_list)

lemma it_set_ok:
  assumes "chunks_ok m" and "valid m it" and "\<not> at_end m it"
  shows "chunks_ok (it_set m it f b)" and "flat (it_set m it f b) = (flat m)[pos m it := (f, b)]"
    and "same_shape m (it_set m it f b)"
proof -
  let ?c = "m ! fst it"
  from valid_inner[OF assms(2,3)] have v: "fst it < length m" "snd it < length (data ?c)" by auto
  note ok = chunks_ok_nth[OF assms(1) v(1)]
  have "chunk_ok (?c\<lparr>chunk_count := chunk_count ?c - (snd (data ?c ! snd it) - fst (data ?c ! snd it)) + (b - f),
     chunk_begin := if snd it = 0 then f else chunk_begin ?c,
     chunk_end := if snd it = length (data ?c) - 1 then b else chunk_end ?c,
     data := (data ?c)[snd it := (f, b)]\<rparr>)"
    using ok v by (auto simp: chunk_ok_def range_total_update range_len_def hd_conv_nth last_conv_nth
        nth_list_update)
  with assms(1) show "chunks_ok (it_set m it f b)"
    by (simp add: it_set_def Let_def chunks_ok_update)
  show "flat (it_set m it f b) = (flat m)[pos m it := (f, b)]" "same_shape m (it_set m it f b)"
    using flat_update[OF assms(2,3)] by (simp_all add: it_set_def Let_def)
qed

lemma adjust_eq_set:
  assumes "chunks_ok m" and "valid m it" and "\<not> at_end m it" and "deref m it = (f, s)"
    and "f \<le> s" and "0 \<le> int f + dx" and "int f + dx \<le> int s + dy"
  shows "it_adjust m it dx dy = it_set m it (nat (int f + dx)) (nat (int s + dy))"
proof -
  let ?c = "m ! fst it"
  from valid_inner[OF assms(2,3)] have v: "fst it < length m" "snd it < length (data ?c)" by auto
  note ok = chunks_ok_nth[OF assms(1) v(1)]
  have d: "data ?c ! snd it = (f, s)" using assms(4) by (simp add: deref_def)
  have "range_len (f, s) \<le> range_total (data ?c)"
    using v(2) d by (metis nth_mem range_total_member)
  then have count: "nat (int (chunk_count ?c) + (dy - dx)) =
      chunk_count ?c - (s - f) + (nat (int s + dy) - nat (int f + dx))"
    using ok assms(5-7) by (auto simp: chunk_ok_def range_len_def)
  have b: "snd it = 0 \<Longrightarrow> chunk_begin ?c = f"
    using ok d v by (simp add: chunk_ok_def hd_conv_nth)
  have e: "snd it = length (data ?c) - Suc 0 \<Longrightarrow> chunk_end ?c = s"
    using ok d v by (simp add: chunk_ok_def last_conv_nth)
  show ?thesis
    unfolding it_adjust_def it_set_def Let_def
    by (intro arg_cong[where f = "list_update m (fst it)"] chunk.equality)
      (simp_all add: d count b e)
qed

lemma shift_eq_set:
  assumes "chunks_ok m" and "valid m it" and "\<not> at_end m it" and "deref m it = r"
    and "fst r \<le> snd r" and "0 \<le> int (fst r) + d"
  shows "it_shift m it d = it_set m it (fst (move_range d r)) (snd (move_range d r))"
proof -
  let ?c = "m ! fst it"
  from valid_inner[OF assms(2,3)] have v: "fst it < length m" "snd it < length (data ?c)" by auto
  note ok = chunks_ok_nth[OF assms(1) v(1)]
  have dr: "data ?c ! snd it = r" using assms(4) by (simp add: deref_def)
  have "range_len r \<le> range_total (data ?c)"
    using v(2) dr by (metis nth_mem range_total_member)
  then have count: "chunk_count ?c =
      chunk_count ?c - (snd r - fst r) + (nat (int (snd r) + d) - nat (int (fst r) + d))"
    using ok assms(5,6) by (auto simp: chunk_ok_def range_len_def)
  have b: "snd it = 0 \<Longrightarrow> chunk_begin ?c = fst r"
    using ok dr v by (simp add: chunk_ok_def hd_conv_nth)
  have e: "snd it = length (data ?c) - Suc 0 \<Longrightarrow> chunk_end ?c = snd r"
    using ok dr v by (simp add: chunk_ok_def last_conv_nth)
  show ?thesis
    unfolding it_shift_def it_set_def Let_def
    by (intro arg_cong[where f = "list_update m (fst it)"] chunk.equality)
      (use count in \<open>simp_all add: dr b e move_range_def\<close>)
qed

section \<open>Insertion\<close>

lemma sorted_bounds:
  assumes "ranges_ok xs" and "r \<in> set xs"
  shows "fst (hd xs) \<le> fst r" and "snd r \<le> snd (last xs)"
proof -
  from assms show "fst (hd xs) \<le> fst r"
    by (cases xs) (force simp: ranges_ok_Cons)+
  from assms show "snd r \<le> snd (last xs)"
  proof (induction xs)
    case (Cons x xs)
    show ?case
    proof (cases "xs = []")
      case False
      then have "last xs \<in> set xs" by simp
      then have "snd x < fst (last xs)" "fst (last xs) < snd (last xs)"
        using Cons.prems(1) by (auto simp: ranges_ok_Cons dest: ranges_ok_nonempty)
      then have "snd x \<le> snd (last xs)" by simp
      with False Cons show ?thesis by (auto simp: ranges_ok_Cons)
    qed (use Cons.prems in simp)
  qed simp
qed

lemma push_back_ok:
  assumes "chunks_ok m"
  shows "chunks_ok (crv_push_back m v)" and "flat (crv_push_back m v) = flat m @ [v]"
proof -
  have m: "m \<noteq> [] \<Longrightarrow> m = butlast m @ [last m]" by simp
  then have "m \<noteq> [] \<Longrightarrow> flat m = flat (butlast m) @ data (last m) \<and> chunks_ok (butlast m) \<and> chunk_ok (last m)"
    using assms by (metis flat_simps append_Nil2 chunks_ok_simps)
  then show "chunks_ok (crv_push_back m v)" and "flat (crv_push_back m v) = flat m @ [v]"
    using assms max_size_pos
    by (auto simp: crv_push_back_def Let_def chunk_ok_def range_len_def)
qed

lemma ensure_space_ok:
  assumes "chunks_ok m" and "valid m it" and "\<not> at_end m it"
    and "ensure_space m it = (m', it')"
  shows "chunks_ok m'" and "flat m' = flat m" and "valid m' it'" and "pos m' it' = pos m it"
    and "\<not> at_end m' it'" and "length (data (m' ! fst it')) < max_size"
proof -
  let ?c = "m ! fst it"
  obtain h where h: "max_size div 2 = h" and hh: "max_size = h + h" "0 < h"
    by (simp add: max_size_def)
  from valid_inner[OF assms(2,3)] have v: "fst it < length m" "snd it < length (data ?c)" by auto
  note ok = chunks_ok_nth[OF assms(1) v(1)]
  have "chunks_ok m' \<and> flat m' = flat m \<and> valid m' it' \<and> pos m' it' = pos m it \<and>
    \<not> at_end m' it' \<and> length (data (m' ! fst it')) < max_size"
  proof (cases "length (data ?c) + 1 \<le> max_size")
    case True
    with assms show ?thesis by (auto simp: ensure_space_def Let_def)
  next
    case False
    then have len: "length (data ?c) = max_size" using ok by (simp add: chunk_ok_def)
    define k where "k = take h (data ?c)"
    define w where "w = drop h (data ?c)"
    have mh: "max_size - h = h" using hh(1) by simp
    have kw: "data ?c = k @ w" "length k = h" "length w = h" "k \<noteq> []" "w \<noteq> []"
      using len hh by (auto simp: k_def w_def)
    define c1 where "c1 = ?c\<lparr>data := k, chunk_end := snd (last k),
                        chunk_count := chunk_count ?c - range_total w\<rparr>"
    define c2 where "c2 = \<lparr>data = w, chunk_begin = fst (hd w),
                          chunk_end = snd (last w), chunk_count = range_total w\<rparr>"
    have m': "m' = take (fst it) m @ [c1, c2] @ drop (fst it + 1) m"
      and it': "it' = (if h \<le> snd it then (fst it + 1, snd it - h) else it)"
      using assms(4) False len
      by (auto simp: ensure_space_def h mh Let_def c1_def c2_def k_def w_def range_total_def
          range_len_def[abs_def])
    have "chunk_ok c1" "chunk_ok c2"
      using ok kw hh by (auto simp: chunk_ok_def c1_def c2_def)
    then have A: "chunks_ok m'" using assms(1) by (simp add: m' chunks_ok_take_drop)
    have B: "flat m' = flat m"
      by (simp add: m' flat_split[OF v(1)] kw(1) c1_def c2_def)
    have n: "m' ! fst it = c1" "m' ! Suc (fst it) = c2" "length m' = Suc (length m)"
      "take (fst it) m' = take (fst it) m" "take (Suc (fst it)) m' = take (fst it) m @ [c1]"
      using v by (auto simp: m' nth_append)
    show ?thesis
      using A B n v kw len hh
      by (auto simp: it' valid_def pos_def at_end_def c1_def c2_def)
  qed
  then show "chunks_ok m'" "flat m' = flat m" "valid m' it'" "pos m' it' = pos m it"
    "\<not> at_end m' it'" "length (data (m' ! fst it')) < max_size" by auto
qed

lemma chunk_insert_ok:
  assumes "chunk_ok c" and "length (data c) < max_size" and "i < length (data c)"
    and "ranges_ok (take i (data c) @ v # drop i (data c))"
  shows "chunk_ok (c\<lparr>data := take i (data c) @ [v] @ drop i (data c),
                     chunk_count := chunk_count c + (snd v - fst v),
                     chunk_begin := min (chunk_begin c) (fst v),
                     chunk_end := max (chunk_end c) (snd v)\<rparr>)"
proof -
  let ?d = "take i (data c) @ v # drop i (data c)"
  have ne: "data c \<noteq> []" "drop i (data c) \<noteq> []" using assms(3) by auto
  have "snd v \<le> snd (last ?d)" by (rule sorted_bounds(2)[OF assms(4)]) simp
  then have e: "max (snd (last (data c))) (snd v) = snd (last ?d)"
    using ne by (simp add: last_drop max_def)
  have "fst (hd ?d) \<le> fst v" by (rule sorted_bounds(1)[OF assms(4)]) simp
  moreover have "fst (hd ?d) \<le> fst (hd (data c))"
  proof (rule sorted_bounds(1)[OF assms(4)])
    show "hd (data c) \<in> set ?d"
      using ne by (metis Un_iff append_take_drop_id hd_in_set list.set_intros(2) set_append)
  qed
  ultimately have b: "min (fst (hd (data c))) (fst v) = fst (hd ?d)"
    using ne by (cases i; cases "data c") auto
  have t: "range_total (data c) = range_total (take i (data c)) + range_total (drop i (data c))"
    by (metis append_take_drop_id range_total_simps(3))
  show ?thesis
    using assms(1,2) b e t by (auto simp: chunk_ok_def range_len_def)
qed

lemma insert_ok:
  assumes "crv_wf m" and "valid m it" and "crv_insert m it v = (m', it')"
    and "ranges_ok (take (pos m it) (flat m) @ v # drop (pos m it) (flat m))"
  shows "crv_wf m'" and "flat m' = take (pos m it) (flat m) @ v # drop (pos m it) (flat m)"
    and "valid m' it'" and "pos m' it' = pos m it" and "\<not> at_end m' it'"
proof -
  have ok: "chunks_ok m" using assms(1) by (simp add: crv_wf_def)
  have "chunks_ok m' \<and> flat m' = take (pos m it) (flat m) @ v # drop (pos m it) (flat m) \<and>
    valid m' it' \<and> pos m' it' = pos m it \<and> \<not> at_end m' it'"
  proof (cases "at_end m it")
    case True
    then have p: "pos m it = length (flat m)" using at_end_pos[OF assms(2)] by simp
    have m': "m' = crv_push_back m v" "it' = it_prev m' (it_end m')"
      using assms(3) True by (auto simp: crv_insert_def Let_def)
    note pb = push_back_ok[OF ok, of v, folded m'(1)]
    show ?thesis
      using pb p prev_ok[OF pb(1) valid_end] by (simp add: m'(2))
  next
    case False
    obtain n jt where es: "ensure_space m it = (n, jt)" by (cases "ensure_space m it")
    note e = ensure_space_ok[OF ok assms(2) False es]
    let ?c = "n ! fst jt" and ?i = "snd jt"
    from valid_inner[OF e(3,5)] have v: "fst jt < length n" "?i < length (data ?c)" by auto
    have sp: "flat m = flat (take (fst jt) n) @ data ?c @ flat (drop (Suc (fst jt)) n)"
      using flat_split[OF v(1)] e(2) by simp
    have p: "pos m it = length (flat (take (fst jt) n)) + ?i" using e(4) by (simp add: pos_def)
    have tk: "take (pos m it) (flat m) = flat (take (fst jt) n) @ take ?i (data ?c)"
      "drop (pos m it) (flat m) = drop ?i (data ?c) @ flat (drop (Suc (fst jt)) n)"
      using v by (simp_all add: sp p)
    have "ranges_ok (take ?i (data ?c) @ v # drop ?i (data ?c))"
      using assms(4) by (auto simp: tk ranges_ok_iff)
    note c = chunk_insert_ok[OF chunks_ok_nth[OF e(1) v(1)] e(6) v(2) this]
    let ?c' = "?c\<lparr>data := take ?i (data ?c) @ [v] @ drop ?i (data ?c),
                     chunk_count := chunk_count ?c + (snd v - fst v),
                     chunk_begin := min (chunk_begin ?c) (fst v),
                     chunk_end := max (chunk_end ?c) (snd v)\<rparr>"
    have m': "m' = n[fst jt := ?c']" "it' = jt"
      using assms(3) False es by (auto simp: crv_insert_def Let_def)
    have u: "chunks_ok m'" "valid m' it'" "\<not> at_end m' it'"
      using v chunks_ok_update[OF e(1) c] by (auto simp: m' valid_def at_end_def)
    have "flat m' = flat (take (fst jt) n) @ take ?i (data ?c) @ v # drop ?i (data ?c) @
        flat (drop (Suc (fst jt)) n)" "pos m' it' = pos m it"
      using v by (simp_all add: m' upd_conv_take_nth_drop pos_def[of "_ @ _"] p)
    with u show ?thesis by (simp add: tk)
  qed
  then show "crv_wf m'" "flat m' = take (pos m it) (flat m) @ v # drop (pos m it) (flat m)"
    "valid m' it'" "pos m' it' = pos m it" "\<not> at_end m' it'"
    using assms(4) by (auto simp: crv_wf_def)
qed

section \<open>Removal\<close>

lemma erase_ok:
  assumes "chunks_ok m" and "valid m it" and "\<not> at_end m it" and "crv_erase m it = (m', it')"
  shows "chunks_ok m'" and "flat m' = take (pos m it) (flat m) @ drop (Suc (pos m it)) (flat m)"
    and "valid m' it'" and "pos m' it' = pos m it"
proof -
  let ?c = "m ! fst it" and ?i = "snd it"
  let ?d = "take ?i (data ?c) @ drop (?i + 1) (data ?c)"
  from valid_inner[OF assms(2,3)] have v: "fst it < length m" "?i < length (data ?c)" by auto
  note ok = chunks_ok_nth[OF assms(1) v(1)]
  have fl: "take (pos m it) (flat m) @ drop (Suc (pos m it)) (flat m) =
      flat (take (fst it) m) @ ?d @ flat (drop (Suc (fst it)) m)"
    using v by (simp add: flat_split[OF v(1)] pos_def)
  have "chunks_ok m' \<and> flat m' = flat (take (fst it) m) @ ?d @ flat (drop (Suc (fst it)) m) \<and>
    valid m' it' \<and> pos m' it' = pos m it"
  proof (cases "?d = []")
    case True
    then have m': "m' = take (fst it) m @ drop (fst it + 1) m" "it' = (fst it, 0)" and i0: "?i = 0"
      using assms(4) v by (auto simp: crv_erase_def Let_def)
    have "chunks_ok m'" using assms(1) by (simp add: m' chunks_ok_take_drop)
    moreover have "valid m' it'"
    proof (cases "fst it = length m'")
      case False
      then have "fst it < length m'" using v by (auto simp: m')
      with chunk_ok_nonempty[OF chunks_ok_nth[OF \<open>chunks_ok m'\<close> this]] show ?thesis
        by (simp add: valid_def m'(2))
    qed (simp add: m'(2) valid_def it_end_def)
    ultimately show ?thesis
      using v True i0 by (auto simp: m' pos_def min_def)
  next
    case False
    define c' where "c' = ?c\<lparr>chunk_count := chunk_count ?c - (snd (data ?c ! ?i) - fst (data ?c ! ?i)),
       data := ?d, chunk_begin := fst (hd ?d), chunk_end := snd (last ?d)\<rparr>"
    have m': "m' = m[fst it := c']" "it' = (if ?i < length ?d then it else (fst it + 1, 0))"
      using assms(4) False by (auto simp: crv_erase_def Let_def c'_def)
    have t: "range_total (data ?c) = range_total ?d + range_len (data ?c ! ?i)"
      by (subst id_take_nth_drop[OF v(2)]) simp
    have ld: "length ?d = length (data ?c) - 1" using v by simp
    have "chunk_ok c'"
      using ok False t v unfolding chunk_ok_def c'_def by (auto simp: range_len_def simp del: append_eq_append_conv)
    then have A: "chunks_ok m'" using assms(1) by (simp add: m' chunks_ok_update)
    have B: "flat m' = flat (take (fst it) m) @ ?d @ flat (drop (Suc (fst it)) m)"
      using v by (simp add: m' c'_def upd_conv_take_nth_drop)
    have "valid m' it' \<and> pos m' it' = pos m it"
    proof (cases "?i < length ?d")
      case True
      then show ?thesis using v by (auto simp: m' valid_def pos_def c'_def)
    next
      case False
      then have i: "?i = length (data ?c) - 1" using v ld by auto
      have "fst it + 1 < length m' \<Longrightarrow> data (m' ! (fst it + 1)) \<noteq> []"
        by (rule chunk_ok_nonempty[OF chunks_ok_nth[OF A]])
      then have "valid m' (fst it + 1, 0)" using v by (auto simp: valid_def it_end_def m')
      moreover have "pos m' (fst it + 1, 0) = pos m it"
        using v i by (simp add: pos_def m' c'_def take_Suc_conv_app_nth)
      ultimately show ?thesis using False by (simp add: m')
    qed
    with A B show ?thesis by simp
  qed
  with fl show "chunks_ok m'" "flat m' = take (pos m it) (flat m) @ drop (Suc (pos m it)) (flat m)"
    "valid m' it'" "pos m' it' = pos m it" by simp_all
qed

section \<open>The consistency check of the code\<close>

lemma verify_order_iff:
  "verify_order p xs \<longleftrightarrow> ranges_ok xs \<and> (\<forall>e r. p = Some e \<longrightarrow> r \<in> set xs \<longrightarrow> e < fst r)"
proof (induction p xs rule: verify_order.induct)
  case (2 p r rs)
  then show ?case by (cases p; cases r) (auto simp: ranges_ok_Cons dest: order.strict_trans)
qed simp

lemma range_total_bound:
  "ranges_ok xs \<Longrightarrow> xs \<noteq> [] \<Longrightarrow> range_total xs \<le> snd (last xs) - fst (hd xs)"
proof (induction xs)
  case (Cons r xs)
  then show ?case
  proof (cases "xs = []")
    case False
    then have "snd r < fst (hd xs)" "fst r < snd r" "range_total xs \<le> snd (last xs) - fst (hd xs)"
      using Cons by (auto simp: ranges_ok_Cons)
    moreover have "fst (hd xs) \<le> snd (last xs)"
      using sorted_bounds[of xs "last xs"] ranges_ok_nonempty[of xs "last xs"] Cons.prems False
      by (simp add: ranges_ok_Cons)
    ultimately show ?thesis using False by (simp add: range_len_def)
  qed (simp add: range_len_def)
qed simp

lemma ranges_ok_chunk: "ranges_ok (flat m) \<Longrightarrow> c \<in> set m \<Longrightarrow> ranges_ok (data c)"
  by (induction m) (auto simp: ranges_ok_append)

lemma range_total_alt: "range_total xs = sum_list (map (\<lambda>r. snd r - fst r) xs)"
  by (simp add: range_total_def range_len_def[abs_def])

lemma verify_iff:
  "crv_wf m \<longleftrightarrow> verify m \<and> (\<forall>c\<in>set m. length (data c) \<le> max_size)"
proof -
  have "ranges_ok (flat m) \<Longrightarrow> c \<in> set m \<Longrightarrow>
    chunk_ok c \<longleftrightarrow> verify_chunk c \<and> length (data c) \<le> max_size" for c
    using range_total_bound[OF ranges_ok_chunk]
    by (auto simp: chunk_ok_def verify_chunk_def range_total_alt[symmetric])
  then show ?thesis
    by (auto simp: crv_wf_def verify_def verify_order_iff chunks_ok_def list_all_iff)
qed

section \<open>Shifting everything from an iterator to the end\<close>

text \<open>The loop \<open>for (; it != end(); ++it) it.shift(d)\<close> of several operations.\<close>

function shift_from :: "crv \<Rightarrow> iter \<Rightarrow> int \<Rightarrow> crv" where
  "shift_from m it d =
     (if at_end m it then m
      else (let m' = it_shift m it d in shift_from m' (it_next m' it) d))"
  by pat_completeness auto
termination
  by (relation "measures [\<lambda>(m, it, d). length m - fst it,
        \<lambda>(m, it, d). length (data (m ! fst it)) - snd it]")
    (auto simp: at_end_def it_next_def next_chunk_def it_shift_def Let_def)

declare shift_from.simps [simp del]

lemma it_shift_ok:
  assumes "chunks_ok m" and "valid m it" and "\<not> at_end m it"
    and "fst (deref m it) \<le> snd (deref m it)" and "0 \<le> int (fst (deref m it)) + d"
  shows "chunks_ok (it_shift m it d)" and "same_shape m (it_shift m it d)"
    and "flat (it_shift m it d) = (flat m)[pos m it := move_range d (flat m ! pos m it)]"
  using it_set_ok[OF assms(1-3)] shift_eq_set[OF assms(1-3) refl assms(4,5)]
    deref_flat(2)[OF assms(2,3)] by simp_all

lemma shift_from_ok:
  assumes "chunks_ok m" and "valid m it"
    and "\<forall>r\<in>set (drop (pos m it) (flat m)). fst r \<le> snd r \<and> 0 \<le> int (fst r) + d"
  shows "chunks_ok (shift_from m it d) \<and> same_shape m (shift_from m it d) \<and>
    flat (shift_from m it d) =
      take (pos m it) (flat m) @ map (move_range d) (drop (pos m it) (flat m))"
  using assms
proof (induction m it d rule: shift_from.induct)
  case (1 m it d)
  show ?case
  proof (cases "at_end m it")
    case True
    then show ?thesis using 1(2-3) at_end_pos[of m it] by (simp add: shift_from.simps)
  next
    case False
    let ?p = "pos m it" and ?m = "it_shift m it d"
    note df = deref_flat[OF 1(3) False]
    have "deref m it \<in> set (drop ?p (flat m))"
      using df by (simp add: Cons_nth_drop_Suc[symmetric])
    with 1(4) have b: "fst (deref m it) \<le> snd (deref m it)" "0 \<le> int (fst (deref m it)) + d" by auto
    note s = it_shift_ok[OF 1(2,3) False b]
    have v: "valid ?m it" "\<not> at_end ?m it" "pos ?m it = ?p"
      using s(2) 1(3) False by (simp_all add: same_shape_simps)
    note n = next_ok[OF s(1) v(1,2)]
    have "chunks_ok (shift_from ?m (it_next ?m it) d) \<and> same_shape ?m (shift_from ?m (it_next ?m it) d) \<and>
      flat (shift_from ?m (it_next ?m it) d) =
      take (Suc ?p) (flat ?m) @ map (move_range d) (drop (Suc ?p) (flat ?m))"
      using 1(1)[OF False refl s(1) n(1)] n(2) v(3) 1(4) df(1)
      by (simp add: s(3) Cons_nth_drop_Suc[symmetric])
    then show ?thesis
      using s df(1) False same_shape_trans[OF s(2)]
      by (auto simp: shift_from.simps[of m it d] Let_def Cons_nth_drop_Suc[symmetric]
          take_Suc_conv_app_nth)
  qed
qed

section \<open>The operations at a split of the flat list\<close>

text \<open>
  The forms used by the operations of the index set: the iterator stands at a given split
  \<open>l @ r\<close> of the flat list.
\<close>

definition located :: "crv \<Rightarrow> iter \<Rightarrow> range list \<Rightarrow> range list \<Rightarrow> bool" where
  "located m it l r \<longleftrightarrow> chunks_ok m \<and> valid m it \<and> flat m = l @ r \<and> pos m it = length l"

lemma located_at_end: "located m it l r \<Longrightarrow> at_end m it \<longleftrightarrow> r = []"
  by (auto simp: located_def at_end_pos)

lemma located_deref: "located m it l (x # r) \<Longrightarrow> deref m it = x"
  using deref_flat(2)[of m it] located_at_end[of m it l "x # r"]
  by (auto simp: located_def nth_append)

lemma located_begin: "located m it l r \<Longrightarrow> it = it_begin m \<longleftrightarrow> l = []"
  by (auto simp: located_def begin_iff)

lemma located_next: "located m it l (x # r) \<Longrightarrow> located m (it_next m it) (l @ [x]) r"
  using next_ok[of m it] located_at_end[of m it l "x # r"] by (auto simp: located_def)

lemma located_prev: "located m it (l @ [x]) r \<Longrightarrow> located m (it_prev m it) l (x # r)"
  using prev_ok[of m it] by (auto simp: located_def)

lemma located_end: "chunks_ok m \<Longrightarrow> located m (it_end m) (flat m) []"
  by (simp add: located_def)

lemma located_it_begin: "chunks_ok m \<Longrightarrow> located m (it_begin m) [] (flat m)"
  by (simp add: located_def)

lemma located_same_shape:
  "located m jt l' r' \<Longrightarrow> same_shape m m' \<Longrightarrow> chunks_ok m' \<Longrightarrow> flat m' = l @ r \<Longrightarrow>
     length l = length l' \<Longrightarrow> located m' jt l r"
  by (simp add: located_def same_shape_simps)

lemma set_located:
  assumes "located m it l (x # r)"
  shows "located (it_set m it f b) it l ((f, b) # r)" and "same_shape m (it_set m it f b)"
  using it_set_ok[of m it f b] located_at_end[OF assms] assms
  by (auto simp: located_def same_shape_simps)

lemma adjust_located:
  assumes "located m it l ((f, s) # r)" and "f \<le> s" and "0 \<le> int f + dx"
    and "int f + dx \<le> int s + dy"
  shows "located (it_adjust m it dx dy) it l ((nat (int f + dx), nat (int s + dy)) # r)"
    and "same_shape m (it_adjust m it dx dy)"
  using adjust_eq_set[of m it f s dx dy] set_located[OF assms(1)]
    located_at_end[OF assms(1)] located_deref[OF assms(1)] assms
  by (auto simp: located_def)

lemma shift_located:
  assumes "located m it l (x # r)" and "fst x \<le> snd x" and "0 \<le> int (fst x) + d"
  shows "located (it_shift m it d) it l (move_range d x # r)"
  using shift_eq_set[of m it x d] set_located[OF assms(1)]
    located_at_end[OF assms(1)] located_deref[OF assms(1)] assms
  by (auto simp: located_def)

lemma shift_from_located:
  assumes "located m it l r" and "\<forall>x\<in>set r. fst x \<le> snd x \<and> 0 \<le> int (fst x) + d"
  shows "located (shift_from m it d) it l (map (move_range d) r)"
    and "same_shape m (shift_from m it d)"
  using shift_from_ok[of m it d] assms by (auto simp: located_def same_shape_simps)

lemma erase_located:
  assumes "located m it l (x # r)" and "crv_erase m it = (m', it')"
  shows "located m' it' l r"
  using erase_ok[of m it m' it'] located_at_end[OF assms(1)] assms by (auto simp: located_def)

lemma insert_located:
  assumes "located m it l r" and "crv_insert m it v = (m', it')" and "ranges_ok (l @ v # r)"
  shows "located m' it' l (v # r)"
proof -
  have "crv_wf m" using assms(1,3) by (auto simp: located_def crv_wf_def ranges_ok_iff)
  then show ?thesis using insert_ok[of m it v m' it'] assms by (auto simp: located_def crv_wf_def)
qed

lemma located_wf: "located m it l r \<Longrightarrow> crv_wf m \<longleftrightarrow> ranges_ok (l @ r)"
  by (simp add: located_def crv_wf_def)

lemma located_indices: "located m it l r \<Longrightarrow> indices m = covered l \<union> covered r"
  by (simp add: located_def indices_def)

end
