(* ===== verification/IndexSetOps.thy ===== *)
theory IndexSetOps imports ChunkedRanges begin

text \<open>
  The operations of \<open>IndexSet\<close> (index_set.cpp) that work on one index or one run of
  indexes: searching, adding, removing, inserting and erasing with the shift of the later
  positions, and the translation of positions.  Every operation is followed by its effect on
  \<open>indices\<close>, the set of positions the value stands for, and by the preservation of
  \<open>crv_wf\<close>.
\<close>

section \<open>Searching\<close>

text \<open>
  \<open>std::find_if\<close> over the chunks from the hint on, then \<open>std::lower_bound\<close> inside the
  chunk found; both return the first element that does not satisfy the condition.
\<close>

definition is_find_from :: "crv \<Rightarrow> nat \<Rightarrow> iter \<Rightarrow> iter" where
  "is_find_from m index hint =
     (let o' = fst hint + length (takeWhile (\<lambda>c. chunk_end c \<le> index) (drop (fst hint) m))
      in if length m \<le> o' then it_end m
         else if index < chunk_begin (m ! o') then (o', 0)
         else let start = (if o' = fst hint then snd hint else 0)
              in (o', start + length (takeWhile (\<lambda>r. snd r \<le> index) (drop start (data (m ! o'))))))"

definition is_find :: "crv \<Rightarrow> nat \<Rightarrow> iter" where
  "is_find m index = is_find_from m index (it_begin m)"

definition is_contains :: "crv \<Rightarrow> nat \<Rightarrow> bool" where
  "is_contains m index =
     (let it = is_find m index in \<not> at_end m it \<and> fst (deref m it) \<le> index)"

section \<open>Adding one index\<close>

definition do_add :: "crv \<Rightarrow> iter \<Rightarrow> nat \<Rightarrow> crv \<times> iter" where
  "do_add m it index =
     (let more_before = (it \<noteq> it_begin m); valid = (\<not> at_end m it)
      in if valid \<and> fst (deref m it) \<le> index \<and> index < snd (deref m it) then (m, it)
         else if more_before \<and> snd (deref m (it_prev m it)) = index then
           let prev = it_prev m it; m1 = it_adjust m prev 0 1
           in if valid \<and> snd (deref m1 prev) = fst (deref m1 it) then
                let m2 = it_adjust m1 prev 0 (int (snd (deref m1 it)) - int (fst (deref m1 it)));
                    (m3, it') = crv_erase m2 it
                in (m3, it_prev m3 it')
              else (m1, prev)
         else if valid \<and> fst (deref m it) = index + 1 then (it_adjust m it (-1) 0, it)
         else crv_insert m it (index, index + 1))"

definition is_add :: "crv \<Rightarrow> nat \<Rightarrow> crv" where
  "is_add m index = fst (do_add m (is_find m index) index)"

fun is_of_list :: "crv \<Rightarrow> nat list \<Rightarrow> crv" where
  "is_of_list m [] = m"
| "is_of_list m (v # vs) = is_of_list (is_add m v) vs"

section \<open>Erasing one index\<close>

definition do_erase :: "crv \<Rightarrow> iter \<Rightarrow> nat \<Rightarrow> crv" where
  "do_erase m it index =
     (let (m', it') =
        (if fst (deref m it) \<le> index then
           (if fst (deref m it) + 1 = snd (deref m it) then crv_erase m it
            else (let m1 = it_adjust m it 0 (-1) in (m1, it_next m1 it)))
         else if it \<noteq> it_begin m \<and> snd (deref m (it_prev m it)) + 1 = fst (deref m it) then
           crv_erase (it_adjust m (it_prev m it) 0
                        (int (snd (deref m it)) - int (fst (deref m it)))) it
         else (m, it))
      in shift_from m' it' (-1))"

definition is_erase_at :: "crv \<Rightarrow> nat \<Rightarrow> crv" where
  "is_erase_at m index =
     (let it = is_find m index in if at_end m it then m else do_erase m it index)"

text \<open>The two loops that walk whole chunks first and ranges afterwards.\<close>

function skip_chunks_sub :: "crv \<Rightarrow> iter \<Rightarrow> nat \<Rightarrow> nat \<Rightarrow> iter \<times> nat" where
  "skip_chunks_sub m it index shifted =
     (if \<not> at_end m it \<and> chunk_end (m ! fst it) \<le> index
      then skip_chunks_sub m (next_chunk it) index (shifted - chunk_count (m ! fst it))
      else (it, shifted))"
  by pat_completeness auto
termination
  by (relation "measure (\<lambda>(m, it, index, shifted). length m - fst it)")
    (auto simp: at_end_def next_chunk_def)

function skip_ranges_sub :: "crv \<Rightarrow> iter \<Rightarrow> nat \<Rightarrow> nat \<Rightarrow> iter \<times> nat" where
  "skip_ranges_sub m it index shifted =
     (if \<not> at_end m it \<and> snd (deref m it) \<le> index
      then skip_ranges_sub m (it_next m it) index
             (shifted - (snd (deref m it) - fst (deref m it)))
      else (it, shifted))"
  by pat_completeness auto
termination
  by (relation "measures [\<lambda>(m, it, index, shifted). length m - fst it,
        \<lambda>(m, it, index, shifted). length (data (m ! fst it)) - snd it]")
    (auto simp: at_end_def it_next_def next_chunk_def)

definition is_erase_or_unshift :: "crv \<Rightarrow> nat \<Rightarrow> crv \<times> nat" where
  "is_erase_or_unshift m index =
     (let (it1, shifted1) = skip_chunks_sub m (it_begin m) index index;
          (it, shifted) = skip_ranges_sub m it1 index shifted1
      in if at_end m it then (m, shifted)
         else (do_erase m it index, if fst (deref m it) \<le> index then npos else shifted))"

section \<open>Adding a shifted index\<close>

function skip_chunks_add :: "crv \<Rightarrow> iter \<Rightarrow> nat \<Rightarrow> iter \<times> nat" where
  "skip_chunks_add m it index =
     (if \<not> at_end m it \<and> chunk_end (m ! fst it) \<le> index
      then skip_chunks_add m (next_chunk it) (index + chunk_count (m ! fst it))
      else (it, index))"
  by pat_completeness auto
termination
  by (relation "measure (\<lambda>(m, it, index). length m - fst it)")
    (auto simp: at_end_def next_chunk_def)

function skip_ranges_add :: "crv \<Rightarrow> iter \<Rightarrow> nat \<Rightarrow> iter \<times> nat" where
  "skip_ranges_add m it index =
     (if \<not> at_end m it \<and> fst (deref m it) \<le> index
      then skip_ranges_add m (it_next m it) (index + (snd (deref m it) - fst (deref m it)))
      else (it, index))"
  by pat_completeness auto
termination
  by (relation "measures [\<lambda>(m, it, index). length m - fst it,
        \<lambda>(m, it, index). length (data (m ! fst it)) - snd it]")
    (auto simp: at_end_def it_next_def next_chunk_def)

definition is_add_shifted :: "crv \<Rightarrow> nat \<Rightarrow> crv \<times> nat" where
  "is_add_shifted m index =
     (let (it1, index1) = skip_chunks_add m (it_begin m) index;
          (it, index2) = skip_ranges_add m it1 index1
      in (fst (do_add m it index2), index2))"

text \<open>\<open>shift\<close> walks the flat list of ranges and stops at the first one after the index.\<close>

fun shift_ranges :: "range list \<Rightarrow> nat \<Rightarrow> nat" where
  "shift_ranges [] index = index"
| "shift_ranges (r # rs) index =
     (if index < fst r then index else shift_ranges rs (index + (snd r - fst r)))"

definition is_shift :: "crv \<Rightarrow> nat \<Rightarrow> nat" where
  "is_shift m index = shift_ranges (flat m) index"

section \<open>Inserting with a shift\<close>

fun add_run :: "crv \<Rightarrow> iter \<Rightarrow> nat \<Rightarrow> nat \<Rightarrow> crv" where
  "add_run m it index 0 = m"
| "add_run m it index (Suc k) =
     (let (m', it') = do_add m it index in add_run m' (it_next m' it') (index + 1) k)"

definition is_insert_at :: "crv \<Rightarrow> nat \<Rightarrow> nat \<Rightarrow> crv" where
  "is_insert_at m index cnt =
     (let it = is_find m index
      in if at_end m it then add_run m it index cnt
         else if fst (deref m it) \<le> index then
           (let m1 = it_adjust m it 0 (int cnt) in shift_from m1 (it_next m1 it) (int cnt))
         else
           (let m1 = it_shift m it (int cnt);
                m2 = shift_from m1 (it_next m1 it) (int cnt)
            in add_run m2 it index cnt))"

definition is_shift_for_insert_at :: "crv \<Rightarrow> nat \<Rightarrow> nat \<Rightarrow> crv" where
  "is_shift_for_insert_at m index cnt =
     (let it = is_find m index
      in if at_end m it then m
         else
           let m1 = shift_from m it (int cnt)
           in if fst (deref m1 it) < index + cnt then
                let old_second = snd (deref m1 it);
                    m2 = it_set m1 it (fst (deref m1 it) - cnt) index
                in fst (crv_insert m2 (it_next m2 it) (index + cnt, old_second))
              else m1)"

section \<open>Removing without a shift\<close>

text \<open>
  The loop of \<open>do_remove\<close>; every round removes at least one position from the set, so the
  number of positions left bounds the number of rounds (\<open>do_remove_fuel\<close>).
\<close>

fun do_remove :: "nat \<Rightarrow> crv \<Rightarrow> iter \<Rightarrow> nat \<Rightarrow> nat \<Rightarrow> (crv \<times> iter) option" where
  "do_remove 0 m it first last' = None"
| "do_remove (Suc fuel) m it0 first last' =
     (let it = is_find_from m first it0
      in if \<not> (\<not> at_end m it \<and> fst (deref m it) < last') then Some (m, it)
         else
           let first = max (fst (deref m it)) first; r = deref m it
           in if fst r < first \<and> last' < snd r then
                let m1 = it_set m it (fst r) first;
                    (m2, it1) = crv_insert m1 (it_next m1 it) (last', snd r)
                in do_remove fuel m2 (it_prev m2 it1) first last'
              else if first = fst r \<and> snd r \<le> last' then
                let (m1, it1) = crv_erase m it in do_remove fuel m1 it1 first last'
              else if first = fst r then do_remove fuel (it_set m it last' (snd r)) it first last'
              else do_remove fuel (it_set m it (fst r) first) it first last')"

definition remove_fuel :: "crv \<Rightarrow> nat" where
  "remove_fuel m = Suc (sum_list (map (\<lambda>r. snd r - fst r) (flat m)))"

definition is_remove :: "crv \<Rightarrow> nat \<Rightarrow> nat \<Rightarrow> crv" where
  "is_remove m index cnt =
     (case do_remove (remove_fuel m) m (is_find m index) index (index + cnt) of
        Some (m', it) \<Rightarrow> m' | None \<Rightarrow> m)"

section \<open>Counting\<close>

function count_rest_of_chunk :: "crv \<Rightarrow> iter \<Rightarrow> nat \<Rightarrow> nat \<Rightarrow> iter \<times> nat" where
  "count_rest_of_chunk m it end_index ret =
     (if \<not> at_end m it \<and> snd (deref m it) < end_index \<and> snd it \<noteq> 0
      then count_rest_of_chunk m (it_next m it) end_index
             (ret + (snd (deref m it) - fst (deref m it)))
      else (it, ret))"
  by pat_completeness auto
termination
  by (relation "measures [\<lambda>(m, it, end_index, ret). length m - fst it,
        \<lambda>(m, it, end_index, ret). length (data (m ! fst it)) - snd it]")
    (auto simp: at_end_def it_next_def next_chunk_def)

function count_chunks :: "crv \<Rightarrow> iter \<Rightarrow> nat \<Rightarrow> nat \<Rightarrow> iter \<times> nat" where
  "count_chunks m it end_index ret =
     (if \<not> at_end m it \<and> chunk_end (m ! fst it) \<le> end_index
      then count_chunks m (next_chunk it) end_index (ret + chunk_count (m ! fst it))
      else (it, ret))"
  by pat_completeness auto
termination
  by (relation "measure (\<lambda>(m, it, end_index, ret). length m - fst it)")
    (auto simp: at_end_def next_chunk_def)

function count_ranges :: "crv \<Rightarrow> iter \<Rightarrow> nat \<Rightarrow> nat \<Rightarrow> iter \<times> nat" where
  "count_ranges m it end_index ret =
     (if \<not> at_end m it \<and> snd (deref m it) \<le> end_index
      then count_ranges m (it_next m it) end_index
             (ret + (snd (deref m it) - fst (deref m it)))
      else (it, ret))"
  by pat_completeness auto
termination
  by (relation "measures [\<lambda>(m, it, end_index, ret). length m - fst it,
        \<lambda>(m, it, end_index, ret). length (data (m ! fst it)) - snd it]")
    (auto simp: at_end_def it_next_def next_chunk_def)

text \<open>The second half of \<open>count\<close>: complete chunks, complete ranges, the partial last range.\<close>

definition count_tail :: "crv \<Rightarrow> iter \<Rightarrow> nat \<Rightarrow> nat \<Rightarrow> nat" where
  "count_tail m it end_index ret =
     (let (it1, ret1) = count_chunks m it end_index ret;
          (it2, ret2) = count_ranges m it1 end_index ret1
      in if \<not> at_end m it2 \<and> fst (deref m it2) < end_index
         then ret2 + (end_index - fst (deref m it2)) else ret2)"

definition is_count :: "crv \<Rightarrow> nat \<Rightarrow> nat \<Rightarrow> nat" where
  "is_count m start_index end_index =
     (let it = is_find m start_index
      in if at_end m it \<or> end_index \<le> fst (deref m it) then 0
         else if end_index \<le> snd (deref m it) then
           min (snd (deref m it)) end_index - max (fst (deref m it)) start_index
         else if fst (deref m it) < start_index \<or> snd it \<noteq> 0 then
           let ret0 = snd (deref m it) - max (fst (deref m it)) start_index;
               (it1, ret1) = count_rest_of_chunk m (it_next m it) end_index ret0;
               ret2 = (if \<not> at_end m it1 \<and> fst (deref m it1) < end_index \<and> snd it1 \<noteq> 0
                       then ret1 + (end_index - fst (deref m it1)) else ret1)
           in if at_end m it1 \<or> end_index \<le> snd (deref m it1) then ret2
              else count_tail m it1 end_index ret2
         else count_tail m it end_index 0)"

definition is_unshift :: "crv \<Rightarrow> nat \<Rightarrow> nat" where
  "is_unshift m index = index - is_count m 0 index"

definition is_set :: "nat \<Rightarrow> crv" where
  "is_set len = (if len \<noteq> 0 then crv_push_back [] (0, len) else [])"

section \<open>Searching is correct\<close>

lemma chunk_end_bound:
  assumes "crv_wf m" and "c \<in> set m" and "r \<in> set (data c)"
  shows "snd r \<le> chunk_end c" and "chunk_begin c \<le> fst r"
proof -
  have "chunk_ok c" using assms(1,2) by (simp add: crv_wf_def chunks_ok_def)
  moreover have "ranges_ok (data c)"
    using assms(1,2) by (auto simp: crv_wf_def intro: ranges_ok_chunk)
  ultimately show "snd r \<le> chunk_end c" and "chunk_begin c \<le> fst r"
    using sorted_bounds[OF _ assms(3)] by (auto simp: chunk_ok_def)
qed

lemma find_from_ok:
  assumes crv_wf: "crv_wf m" and hint: "located m h l r" and before: "\<forall>q\<in>set l. snd q \<le> i"
  shows "located m (is_find_from m i h) (lo i (flat m)) (hi i (flat m))"
proof -
  have ok: "chunks_ok m" using crv_wf by (simp add: crv_wf_def)
  define b where "b = fst h"
  define k where "k = length (takeWhile (\<lambda>c. chunk_end c \<le> i) (drop b m))"
  define j where "j = b + k"
  have bl: "b \<le> length m" using hint by (auto simp: located_def valid_def it_end_def b_def)
  have l: "l = take (length (flat (take b m)) + snd h) (flat m)"
    using hint by (auto simp: located_def pos_def b_def)
  have pre: "\<forall>q\<in>set (flat (take j m)). snd q \<le> i"
  proof
    fix q assume "q \<in> set (flat (take j m))"
    moreover have "take j m = take b m @ takeWhile (\<lambda>c. chunk_end c \<le> i) (drop b m)"
      unfolding j_def k_def by (simp add: take_add takeWhile_eq_take[symmetric])
    ultimately consider "q \<in> set (flat (take b m))"
      | c where "c \<in> set (takeWhile (\<lambda>c. chunk_end c \<le> i) (drop b m))" "q \<in> set (data c)"
      by (auto simp: flat_def)
    then show "snd q \<le> i"
    proof cases
      case 1
      have "flat m = flat (take b m) @ flat (drop b m)"
        by (metis append_take_drop_id flat_simps(3))
      then have "set (flat (take b m)) \<subseteq> set l" unfolding l by auto
      with 1 before show ?thesis by auto
    next
      case 2
      then have "chunk_end c \<le> i" "c \<in> set m"
        by (auto dest: set_takeWhileD in_set_dropD)
      with chunk_end_bound(1)[OF crv_wf _ 2(2)] show ?thesis by (meson le_trans)
    qed
  qed
  show ?thesis
  proof (cases "length m \<le> j")
    case True
    then have "lo i (flat m) = flat m" "hi i (flat m) = []"
      using pre by (auto simp: lo_def hi_def)
    with True show ?thesis
      using located_end[OF ok] by (simp add: is_find_from_def j_def k_def b_def Let_def)
  next
    case False
    define c where "c = m ! j"
    have jc: "j < length m" "c \<in> set m" using False by (auto simp: c_def)
    have cok: "chunk_ok c" using ok jc by (simp add: chunks_ok_def)
    have "i < chunk_end c"
      using nth_length_takeWhile[of "\<lambda>c. chunk_end c \<le> i" "drop b m"] False
      by (simp add: c_def j_def k_def not_le)
    then have last: "\<not> snd (last (data c)) \<le> i" "last (data c) \<in> set (data c)"
      using cok by (auto simp: chunk_ok_def)
    have sp: "flat m = flat (take j m) @ data c @ flat (drop (Suc j) m)"
      unfolding c_def by (rule flat_split[OF jc(1)])
    have lo: "lo i (flat m) = flat (take j m) @ lo i (data c)"
      using pre last takeWhile_append1[of "last (data c)" "data c" "\<lambda>r. snd r \<le> i"]
      by (simp add: sp lo_def)
    have short: "length (lo i (data c)) < length (data c)"
      using last using takeWhile_append1[of "last (data c)" "data c" "\<lambda>r. snd r \<le> i" "[]"]
        length_takeWhile_le[of "\<lambda>r. snd r \<le> i" "data c"] takeWhile_eq_all_conv[of "\<lambda>r. snd r \<le> i" "data c"]
        takeWhile_eq_take[of "\<lambda>r. snd r \<le> i" "data c"]
      by (metis le_neq_implies_less lo_def take_all_iff le_refl)
    define s where "s = (if j = b then snd h else 0)"
    have s: "s \<le> length (data c)" "\<forall>q\<in>set (take s (data c)). snd q \<le> i"
    proof -
      show "s \<le> length (data c)"
        using hint jc by (auto simp: s_def located_def valid_def it_end_def b_def c_def)
      show "\<forall>q\<in>set (take s (data c)). snd q \<le> i"
      proof (cases "j = b")
        case True
        then have "take s (data c) = drop (length (flat (take b m))) l"
          using \<open>s \<le> length (data c)\<close> by (simp add: l sp s_def)
        then show ?thesis using before by (auto dest: in_set_dropD)
      qed (simp add: s_def)
    qed
    have "lo i (data c) = take s (data c) @ takeWhile (\<lambda>r. snd r \<le> i) (drop s (data c))"
      using s takeWhile_append2[of "take s (data c)" "\<lambda>r. snd r \<le> i" "drop s (data c)"]
      by (simp add: lo_def)
    then have llen: "length (lo i (data c)) = s + length (takeWhile (\<lambda>r. snd r \<le> i) (drop s (data c)))"
      using s(1) by simp
    have it: "is_find_from m i h = (j, length (lo i (data c)))"
    proof (cases "i < chunk_begin c")
      case True
      then have "i < snd q" if "q \<in> set (data c)" for q
        using chunk_end_bound(2)[OF crv_wf jc(2) that] ranges_ok_nonempty[OF _ that]
          ranges_ok_chunk[of m c] crv_wf jc(2) by (fastforce simp: crv_wf_def)
      then have "lo i (data c) = []"
        using cok by (cases "data c") (auto simp: lo_def chunk_ok_def not_le)
      with True False show ?thesis
        by (simp add: is_find_from_def j_def k_def b_def Let_def c_def)
    next
      case False
      with \<open>\<not> length m \<le> j\<close> show ?thesis
        unfolding is_find_from_def Let_def b_def[symmetric] k_def[symmetric] j_def[symmetric]
          c_def[symmetric] s_def[symmetric] llen by simp
    qed
    have "valid m (j, length (lo i (data c)))" using jc short by (simp add: valid_def c_def)
    moreover have "pos m (j, length (lo i (data c))) = length (lo i (flat m))"
      by (simp add: pos_def lo)
    ultimately show ?thesis by (simp add: it located_def ok)
  qed
qed

lemma find_ok:
  "crv_wf m \<Longrightarrow> located m (is_find m i) (lo i (flat m)) (hi i (flat m))"
  unfolding is_find_def by (rule find_from_ok) (auto simp: crv_wf_def intro: located_it_begin)

text \<open>What the split at an index says about membership.\<close>

lemma split_mem:
  assumes "ranges_ok (l @ r)" and "\<forall>q\<in>set l. snd q \<le> i" and "r = [] \<or> i < snd (hd r)"
  shows "i \<in> covered (l @ r) \<longleftrightarrow> r \<noteq> [] \<and> fst (hd r) \<le> i"
proof -
  have "i \<notin> covered l" using assms(2) by (fastforce simp: in_covered)
  moreover have "r = x # r' \<Longrightarrow> i \<in> covered r \<longleftrightarrow> fst x \<le> i" for x r'
    using assms(1,3) by (fastforce simp: ranges_ok_iff in_covered)
  ultimately show ?thesis by (cases r) auto
qed

lemma lo_hi_split: "ranges_ok xs \<Longrightarrow> hi i xs = [] \<or> i < snd (hd (hi i xs))"
  by (cases "hi i xs") (auto dest: hi_hd)

lemma is_contains_ok: "crv_wf m \<Longrightarrow> is_contains m i \<longleftrightarrow> i \<in> indices m"
proof -
  assume crv_wf: "crv_wf m"
  note f = find_ok[OF crv_wf, of i]
  have "i \<in> indices m \<longleftrightarrow> hi i (flat m) \<noteq> [] \<and> fst (hd (hi i (flat m))) \<le> i"
    using split_mem[of "lo i (flat m)" "hi i (flat m)" i] crv_wf lo_hi_split
    by (auto simp: indices_def crv_wf_def dest: lo_le)
  then show ?thesis
    using located_at_end[OF f] located_deref[of m _ "lo i (flat m)"] f
    by (cases "hi i (flat m)") (auto simp: is_contains_def Let_def)
qed

section \<open>Adding is correct\<close>

definition at_index :: "crv \<Rightarrow> iter \<Rightarrow> nat \<Rightarrow> bool" where
  "at_index m it i \<longleftrightarrow> (\<exists>l r. located m it l r \<and> ranges_ok (l @ r) \<and>
     (\<forall>q\<in>set l. snd q \<le> i) \<and> (r = [] \<or> i < snd (hd r)))"

lemma at_index_find: "crv_wf m \<Longrightarrow> at_index m (is_find m i) i"
  unfolding at_index_def using find_ok lo_hi_split
  by (intro exI[of _ "lo i (flat m)"] exI[of _ "hi i (flat m)"]) (auto simp: crv_wf_def dest: lo_le)

definition holds_index :: "crv \<Rightarrow> iter \<Rightarrow> nat \<Rightarrow> bool" where
  "holds_index m it i \<longleftrightarrow> (\<exists>l x r. located m it l (x # r) \<and> fst x \<le> i \<and> i < snd x)"

lemma do_add_ok:
  assumes "at_index m it i" and "do_add m it i = (m', it')"
  shows "crv_wf m' \<and> indices m' = insert i (indices m) \<and> holds_index m' it' i"
proof -
  obtain l r where lr: "located m it l r" and ok: "ranges_ok (l @ r)"
    and l: "\<forall>q\<in>set l. snd q \<le> i" and r: "r = [] \<or> i < snd (hd r)"
    using assms(1) by (auto simp: at_index_def)
  note ends = located_at_end[OF lr] located_begin[OF lr]
  note crv_wf = located_wf[OF lr]
  have result: ?thesis if "located m' it' l' (x # r')" "ranges_ok (l' @ x # r')" "fst x \<le> i" "i < snd x"
      "covered (l' @ x # r') = insert i (covered (l @ r))" for l' x r'
  proof -
    have "holds_index m' it' i" unfolding holds_index_def using that by blast
    with that show ?thesis
      using located_wf[OF that(1)] located_indices[OF that(1)] located_indices[OF lr] by auto
  qed
  show ?thesis
  proof (cases "r \<noteq> [] \<and> fst (hd r) \<le> i")
    case True
    then obtain x r' where rx: "r = x # r'" "fst x \<le> i" "i < snd x" using r by (cases r) auto
    then have "m' = m \<and> it' = it"
      using assms(2) ends located_deref[of m it l x r'] lr by (auto simp: do_add_def Let_def)
    with lr ok rx show ?thesis by (intro result[of l x r']) auto
  next
    case False
    show ?thesis
    proof (cases "l \<noteq> [] \<and> snd (last l) = i")
      case True
      then obtain l0 a where l0: "l = l0 @ [(a, i)]" by (metis append_butlast_last_id prod.collapse)
      have a: "a < i" using ok l0 by (auto simp: ranges_ok_iff)
      let ?p = "it_prev m it" and ?m1 = "it_adjust m (it_prev m it) 0 1"
      note p = located_prev[OF lr[unfolded l0]]
      have e1: "nat (int i + 1) = i + 1" by simp
      have m1: "located ?m1 ?p l0 ((a, i + 1) # r)" "same_shape m ?m1"
        using adjust_located[OF p less_imp_le[OF a], of 0 1] a by (simp_all add: e1)
      have it1: "located ?m1 it (l0 @ [(a, i + 1)]) r"
        by (rule located_same_shape[OF lr m1(2)]) (use m1(1) in \<open>auto simp: located_def e1 l0\<close>)
      have nomem: "\<not> (r \<noteq> [] \<and> fst (hd r) \<le> i)" by fact
      show ?thesis
      proof (cases "r \<noteq> [] \<and> fst (hd r) = i + 1")
        case True
        then obtain c r' where rc: "r = (i + 1, c) # r'" by (cases r) auto
        have c: "i + 1 < c" using ok rc by (auto simp: ranges_ok_iff)
        let ?m2 = "it_adjust ?m1 ?p 0 (int c - int (i + 1))"
        note m1' = m1(1)[unfolded rc]
        have m2: "located ?m2 ?p l0 ((a, c) # (i + 1, c) # r')" "same_shape ?m1 ?m2"
          using adjust_located[OF m1', of 0 "int c - int (i + 1)"] a c by (auto simp: nat_diff_distrib)
        have it2: "located ?m2 it (l0 @ [(a, c)]) ((i + 1, c) # r')"
          by (rule located_same_shape[OF it1 m2(2)]) (use m2(1) in \<open>auto simp: located_def\<close>)
        obtain m3 jt where er: "crv_erase ?m2 it = (m3, jt)" by (cases "crv_erase ?m2 it")
        have m3: "located m3 (it_prev m3 jt) l0 ((a, c) # r')"
          by (rule located_prev) (use erase_located[OF it2 er] in simp)
        have "m' = m3 \<and> it' = it_prev m3 jt"
          using assms(2) False ends located_deref[OF lr[unfolded rc]] located_deref[OF p]
            located_deref[OF m1'] located_deref[OF it1[unfolded rc]] er l0 rc
          by (auto simp: do_add_def Let_def)
        then show ?thesis
          using m3 ok a c by (intro result[of l0 "(a, c)" r'])
            (auto simp: l0 rc ranges_ok_iff)
      next
        case nojoin: False
        have "m' = ?m1 \<and> it' = ?p"
        proof (cases r)
          case Nil
          then show ?thesis using assms(2) ends located_deref[OF p] l0
            by (auto simp: do_add_def Let_def)
        next
          case (Cons x r')
          then show ?thesis
            using assms(2) ends located_deref[OF p] l0 nomem nojoin located_deref[of m it l x r'] lr
              located_deref[OF m1(1)] located_deref[of ?m1 it _ x r'] it1
            by (auto simp: do_add_def Let_def)
        qed
        moreover have "ranges_ok (l0 @ (a, i + 1) # r)"
          using ok a nomem nojoin by (cases r) (fastforce simp: l0 ranges_ok_iff)+
        ultimately show ?thesis
          using m1(1) a by (intro result[of l0 "(a, i + 1)" r]) (auto simp: l0 e1)
      qed
    next
      case nol: False
      have lt: "\<forall>q\<in>set l. snd q < i"
      proof
        fix q assume q: "q \<in> set l"
        then have "l \<noteq> []" "snd q \<le> snd (last l)" using ok sorted_bounds(2) by (auto simp: ranges_ok_append)
        moreover have "snd (last l) \<le> i" using l \<open>l \<noteq> []\<close> by simp
        ultimately show "snd q < i" using nol by auto
      qed
      have prev: "l \<noteq> [] \<Longrightarrow> snd (deref m (it_prev m it)) = snd (last l)"
        using located_deref[OF located_prev[of m it "butlast l" "last l" r]] lr by simp
      show ?thesis
      proof (cases "r \<noteq> [] \<and> fst (hd r) = i + 1")
        case True
        then obtain c r' where rc: "r = (i + 1, c) # r'" by (cases r) auto
        have c: "i + 1 < c" using ok rc by (auto simp: ranges_ok_iff)
        have "m' = it_adjust m it (-1) 0 \<and> it' = it"
          using assms(2) False ends prev nol located_deref[OF lr[unfolded rc]] rc
          by (auto simp: do_add_def Let_def)
        moreover have "located (it_adjust m it (-1) 0) it l ((i, c) # r')"
          using adjust_located(1)[OF lr[unfolded rc], of "-1" 0] c by simp
        ultimately show ?thesis
          using ok c lt by (intro result[of l "(i, c)" r']) (auto simp: rc ranges_ok_iff)
      next
        case no1: False
        have "crv_insert m it (i, i + 1) = (m', it')"
          using assms(2) False ends prev nol no1 located_deref[of m it l "hd r" "tl r"] lr
          by (cases r) (auto simp: do_add_def Let_def)
        moreover have "ranges_ok (l @ (i, i + 1) # r)"
          using ok False no1 lt by (cases r) (fastforce simp: ranges_ok_iff)+
        ultimately show ?thesis
          using insert_located[OF lr, of "(i, i + 1)"] by (intro result[of l "(i, i + 1)" r]) auto
      qed
    qed
  qed
qed

lemma is_add_ok: "crv_wf m \<Longrightarrow> crv_wf (is_add m i) \<and> indices (is_add m i) = insert i (indices m)"
  using do_add_ok[OF at_index_find, of m i] by (cases "do_add m (is_find m i) i") (auto simp: is_add_def)

end
