(* ===== verification/IndexSetLaws.thy ===== *)
theory IndexSetLaws imports IndexSetOps begin

text \<open>
  Effects of the shifting operations of \<open>IndexSet\<close> on the set of positions: erasing, position
  translation, adding shifted indexes, inserting, removing and counting.
\<close>

lemma at_index_cases:
  assumes "at_index m it i"
  obtains (atend) l where "located m it l []" "ranges_ok l" "\<forall>q\<in>set l. snd q \<le> i"
  | (inside) l a b r where "located m it l ((a, b) # r)" "ranges_ok (l @ (a, b) # r)"
      "\<forall>q\<in>set l. snd q \<le> i" "a \<le> i" "i < b" "\<forall>q\<in>set r. b < fst q"
  | (after) l a b r where "located m it l ((a, b) # r)" "ranges_ok (l @ (a, b) # r)"
      "\<forall>q\<in>set l. snd q \<le> i" "i < a" "a < b" "\<forall>q\<in>set r. b < fst q"
proof -
  obtain l r where lr: "located m it l r" "ranges_ok (l @ r)" "\<forall>q\<in>set l. snd q \<le> i"
    "r = [] \<or> i < snd (hd r)"
    using assms by (auto simp: at_index_def)
  show thesis
  proof (cases r)
    case Nil
    with lr that(1) show thesis by auto
  next
    case (Cons x r')
    then show thesis
      using lr that(2)[of l "fst x" "snd x" r'] that(3)[of l "fst x" "snd x" r']
      by (cases "fst x \<le> i") (auto simp: ranges_ok_iff not_le)
  qed
qed

lemma at_indexI:
  "located m it l r \<Longrightarrow> ranges_ok (l @ r) \<Longrightarrow> \<forall>q\<in>set l. snd q \<le> i \<Longrightarrow>
     r = [] \<or> i < snd (hd r) \<Longrightarrow> at_index m it i"
  unfolding at_index_def by blast

lemma at_index_wf: "at_index m it i \<Longrightarrow> crv_wf m"
  by (auto simp: at_index_def located_wf)

section \<open>Erasing\<close>

lemma shift_down_located:
  assumes "located m it l r" and "ranges_ok r" and "\<forall>q\<in>set r. i < fst q"
    and "ranges_ok l" and "\<forall>p\<in>set l. \<forall>q\<in>set r. snd p + 1 < fst q"
  shows "crv_wf (shift_from m it (-1))"
    and "indices (shift_from m it (-1)) = covered l \<union> close_gap i (covered r)"
proof -
  have ok: "\<forall>x\<in>set r. fst x \<le> snd x \<and> 0 \<le> int (fst x) + - 1"
    using assms(2,3) by (fastforce dest: ranges_ok_nonempty)
  note s = shift_from_located(1)[OF assms(1) ok]
  have "ranges_ok (map (move_range (- 1)) r)"
    using assms(2) ok by (intro ranges_ok_map_move) auto
  then have "ranges_ok (l @ map (move_range (- 1)) r)"
    using assms(4,5) by (fastforce simp: ranges_ok_append move_range_def)
  then show "crv_wf (shift_from m it (-1))" using located_wf[OF s] by simp
  show "indices (shift_from m it (-1)) = covered l \<union> close_gap i (covered r)"
    using located_indices[OF s] gap_covered_hi(1)[OF assms(3)] by simp
qed

lemma do_erase_ok:
  assumes "at_index m it i" and "\<not> at_end m it"
  shows "crv_wf (do_erase m it i) \<and> indices (do_erase m it i) = close_gap i (indices m)"
  using assms(1)
proof (cases rule: at_index_cases)
  case (atend l)
  with assms(2) show ?thesis by (simp add: located_at_end)
next
  case (inside l a b r)
  note d = located_deref[OF inside(1)] and ix = located_indices[OF inside(1)]
  have fr: "\<forall>q\<in>set r. i < fst q" using inside(5,6) by auto
  have ok: "ranges_ok l" "ranges_ok r" using inside(2) by (auto simp: ranges_ok_iff)
  have cl: "close_gap i (indices m) = covered l \<union> {a..<b - 1} \<union> close_gap i (covered r)"
    by (simp add: ix gap_union gap_covered_lo(1)[OF inside(3)] close_gap_interval[OF inside(4,5)]
        Un_assoc)
  show ?thesis
  proof (cases "a + 1 = b")
    case True
    obtain m' it' where er: "crv_erase m it = (m', it')" by (cases "crv_erase m it")
    have "do_erase m it i = shift_from m' it' (-1)"
      using inside(4) True d er by (simp add: do_erase_def)
    moreover have "\<forall>p\<in>set l. \<forall>q\<in>set r. snd p + 1 < fst q"
      using inside(2,6) True by (fastforce simp: ranges_ok_iff)
    ultimately show ?thesis
      using shift_down_located[OF erase_located[OF inside(1) er] ok(2) fr ok(1)] cl True by auto
  next
    case False
    let ?m1 = "it_adjust m it 0 (-1)"
    have ab: "a < b - 1" using inside(4,5) False by simp
    have m1: "located ?m1 it l ((a, b - 1) # r)"
      using adjust_located(1)[OF inside(1), of 0 "-1"] ab by (simp add: nat_diff_distrib)
    have "do_erase m it i = shift_from ?m1 (it_next ?m1 it) (-1)"
      using inside(4) False d by (simp add: do_erase_def Let_def)
    moreover have "ranges_ok (l @ [(a, b - 1)])" "\<forall>p\<in>set (l @ [(a, b - 1)]). \<forall>q\<in>set r. snd p + 1 < fst q"
      using inside(2,6) ab by (fastforce simp: ranges_ok_iff)+
    ultimately show ?thesis
      using shift_down_located[OF located_next[OF m1] ok(2) fr] cl by auto
  qed
next
  case (after l a b r)
  note d = located_deref[OF after(1)] and ix = located_indices[OF after(1)]
  have fr: "\<forall>q\<in>set ((a, b) # r). i < fst q" using after(4-6) by auto
  have ok: "ranges_ok l" "ranges_ok ((a, b) # r)" using after(2) by (auto simp: ranges_ok_append)
  have cl: "close_gap i (indices m) = covered l \<union> close_gap i (covered ((a, b) # r))"
    by (simp only: ix gap_union gap_covered_lo(1)[OF after(3)])
  show ?thesis
  proof (cases "l \<noteq> [] \<and> snd (last l) + 1 = a")
    case True
    then obtain l0 c e where l0: "l = l0 @ [(c, e)]" "e + 1 = a"
      by (metis append_butlast_last_id prod.collapse)
    have ce: "c < e" using after(2) l0 by (auto simp: ranges_ok_iff)
    note p = located_prev[OF after(1)[unfolded l0(1)]]
    let ?m1 = "it_adjust m (it_prev m it) 0 (int b - int a)"
    have nb: "nat (int e + (int b - int a)) = b - 1" using l0 after(5) by auto
    have m1: "located ?m1 (it_prev m it) l0 ((c, b - 1) # (a, b) # r)" "same_shape m ?m1"
      using adjust_located[OF p less_imp_le[OF ce], of 0 "int b - int a"] after(5) ce l0 nb by auto
    have it1: "located ?m1 it (l0 @ [(c, b - 1)]) ((a, b) # r)"
      by (rule located_same_shape[OF after(1) m1(2)]) (use m1(1) in \<open>auto simp: located_def l0\<close>)
    obtain m' it' where er: "crv_erase ?m1 it = (m', it')" by (cases "crv_erase ?m1 it")
    have "do_erase m it i = shift_from m' it' (-1)"
      using after(4) True d located_deref[OF p] located_begin[OF after(1)] er l0
      by (simp add: do_erase_def)
    moreover have "ranges_ok (l0 @ [(c, b - 1)])" "\<forall>p\<in>set (l0 @ [(c, b - 1)]). \<forall>q\<in>set r. snd p + 1 < fst q"
      using after(2,5,6) l0 ce by (fastforce simp: ranges_ok_iff)+
    moreover have "covered (l0 @ [(c, b - 1)]) \<union> close_gap i (covered r) =
        covered l \<union> close_gap i (covered ((a, b) # r))"
    proof -
      have "close_gap i {a..<b} = {a - 1..<b - 1}"
        using gap_covered_hi(1)[of "[(a, b)]" i] after(4) by (simp add: move_range_def)
      moreover have "a - 1 = e" using l0 by simp
      moreover have "{c..<b - 1} = {c..<e} \<union> {e..<b - 1}" using l0 ce after(5) by auto
      ultimately show ?thesis by (simp add: l0(1) gap_union Un_assoc)
    qed
    ultimately show ?thesis
      using shift_down_located[OF erase_located[OF it1 er], of i] ok(2) fr cl
      by (auto simp: ranges_ok_Cons)
  next
    case False
    have "do_erase m it i = shift_from m it (-1)"
      using after(4) False d located_begin[OF after(1)]
        located_deref[OF located_prev[of m it "butlast l" "last l"]] after(1)
      by (cases "l = []") (auto simp: do_erase_def Let_def)
    moreover have "snd p + 1 < fst q" if "p \<in> set l" "q \<in> set ((a, b) # r)" for p q
    proof -
      have "snd p \<le> snd (last l)" by (rule sorted_bounds(2)[OF ok(1) that(1)])
      moreover have "last l \<in> set l" using that(1) by (cases l) auto
      then have "snd (last l) < a" using after(2) by (auto simp: ranges_ok_append)
      moreover have "a \<le> fst q" using that(2) after(5,6) by auto
      ultimately show ?thesis using False that(1) by fastforce
    qed
    ultimately show ?thesis
      using shift_down_located[OF after(1) ok(2) fr ok(1)] cl by simp
  qed
qed

lemma close_gap_absent:
  assumes "crv_wf m" and "at_end m (is_find m i)"
  shows "close_gap i (indices m) = indices m" "i \<notin> indices m"
proof -
  have "hi i (flat m) = []" using located_at_end[OF find_ok[OF assms(1), of i]] assms(2) by simp
  then have "flat m = lo i (flat m)" using lo_hi[of i "flat m"] by simp
  then have "\<forall>q\<in>set (flat m). snd q \<le> i" by (metis lo_le)
  then show "close_gap i (indices m) = indices m" "i \<notin> indices m"
    by (auto simp: indices_def gap_covered_lo in_covered not_less)
qed

lemma is_erase_at_ok:
  "crv_wf m \<Longrightarrow> crv_wf (is_erase_at m i) \<and> indices (is_erase_at m i) = close_gap i (indices m)"
  using do_erase_ok[OF at_index_find, of m i] close_gap_absent[of m i]
  by (cases "at_end m (is_find m i)") (simp_all add: is_erase_at_def Let_def)

section \<open>Walking whole chunks\<close>

text \<open>
  One chunk step of the loops over chunks: an iterator at the start of a chunk, standing at a
  split of the flat list, moves over exactly that chunk's ranges.
\<close>

lemma chunk_step:
  assumes "located m it l r" and "r \<noteq> []" and "snd it = 0"
  obtains r' where "r = data (m ! fst it) @ r'" "located m (next_chunk it) (l @ data (m ! fst it)) r'"
    "chunk_ok (m ! fst it)" "m ! fst it \<in> set m"
proof -
  from assms(1) have l: "chunks_ok m" "valid m it" "flat m = l @ r" "pos m it = length l"
    by (auto simp: located_def)
  have ne: "\<not> at_end m it" using located_at_end[OF assms(1)] assms(2) by simp
  note v = valid_inner[OF l(2) ne]
  have sp: "flat m = flat (take (fst it) m) @ data (m ! fst it) @ flat (drop (Suc (fst it)) m)"
    using v by (intro flat_split) simp
  have ll: "l = flat (take (fst it) m)" "r = data (m ! fst it) @ flat (drop (Suc (fst it)) m)"
    using l(3,4) sp assms(3) by (simp_all add: pos_def append_eq_append_conv)
  have "located m (next_chunk it) (l @ data (m ! fst it)) (flat (drop (Suc (fst it)) m))"
    using pos_next_chunk[OF l(1,2) ne] l ll by (simp add: located_def)
  with that ll(2) v chunks_ok_nth[OF l(1)] show thesis by auto
qed

lemma chunk_end_last:
  assumes "chunk_ok c" and "ranges_ok (data c)" and "chunk_end c \<le> i" and "q \<in> set (data c)"
  shows "snd q \<le> i"
  using sorted_bounds(2)[OF assms(2,4)] assms(1,3) by (simp add: chunk_ok_def)

section \<open>Translating positions\<close>

lemma shift_ranges_split:
  "ranges_ok xs \<Longrightarrow> \<exists>l r. xs = l @ r \<and> shift_ranges xs i = i + range_total l \<and>
     (\<forall>q\<in>set l. snd q \<le> shift_ranges xs i) \<and> (r = [] \<or> shift_ranges xs i < fst (hd r))"
proof (induction xs i rule: shift_ranges.induct)
  case (1 index)
  show ?case by simp
next
  case (2 x rs i)
  show ?case
  proof (cases "i < fst x")
    case True
    then show ?thesis by (intro exI[of _ "[]"] exI[of _ "x # rs"]) simp
  next
    case False
    have ok: "ranges_ok rs" using 2(2) by (simp add: ranges_ok_Cons)
    obtain l r where "rs = l @ r" "shift_ranges rs (i + (snd x - fst x)) = i + (snd x - fst x) + range_total l"
      "\<forall>q\<in>set l. snd q \<le> shift_ranges rs (i + (snd x - fst x))"
      "r = [] \<or> shift_ranges rs (i + (snd x - fst x)) < fst (hd r)"
      using 2(1)[OF False ok] by blast
    with False 2(2) show ?thesis
      by (intro exI[of _ "x # l"] exI[of _ r]) (auto simp: range_len_def ranges_ok_Cons)
  qed
qed

lemma shift_ranges_unique:
  assumes "ranges_ok (l @ r)" and "\<forall>q\<in>set l. snd q \<le> i + range_total l"
    and "r = [] \<or> i + range_total l < fst (hd r)"
  shows "shift_ranges (l @ r) i = i + range_total l"
  using assms
proof (induction l arbitrary: i)
  case Nil
  then show ?case by (cases r) auto
next
  case (Cons x l)
  have "last (x # l) \<in> set (x # l)" by simp
  then have "snd (last (x # l)) \<le> i + range_total (x # l)" using Cons.prems(2) by blast
  moreover from Cons.prems(1) have ok: "ranges_ok (x # l)"
    by (simp only: append_Cons[symmetric] ranges_ok_append)
  then have "range_total (x # l) \<le> snd (last (x # l)) - fst x"
    using range_total_bound[OF ok] by simp
  moreover have "fst x < snd (last (x # l))"
    using sorted_bounds(2)[OF ok, of x] ranges_ok_nonempty[OF ok, of x] by fastforce
  ultimately have "\<not> i < fst x" by linarith
  then show ?case
    using Cons.IH[of "i + range_len x"] Cons.prems by (simp add: range_len_def ranges_ok_Cons add.assoc)
qed

lemma is_shift_ok:
  assumes "crv_wf m"
  shows "is_shift m i \<notin> indices m" and "rank (indices m) (is_shift m i) = i"
proof -
  let ?j = "is_shift m i"
  obtain l r where lr: "flat m = l @ r" "?j = i + range_total l" "\<forall>q\<in>set l. snd q \<le> ?j"
    "r = [] \<or> ?j < fst (hd r)"
    using shift_ranges_split[of "flat m" i] assms unfolding is_shift_def crv_wf_def by blast
  have ok: "ranges_ok (l @ r)" using assms lr(1) by (simp add: crv_wf_def)
  have "?j < fst q" if "q \<in> set r" for q
    using that lr(4) ok sorted_bounds_hd[of r q] by (cases r) (auto simp: ranges_ok_append)
  then show "?j \<notin> indices m"
    using lr(1,3) by (fastforce simp: indices_def in_covered)
  have "card (indices m \<inter> {..<?j}) = range_total l"
    using covered_below_split(2)[OF ok lr(3)] lr(1,4) by (auto simp: indices_def)
  then show "rank (indices m) ?j = i" using lr(2) by (simp add: rank_def)
qed

section \<open>The walking loops\<close>

lemma wf_chunk: "crv_wf m \<Longrightarrow> c \<in> set m \<Longrightarrow> chunk_ok c \<and> ranges_ok (data c)"
  by (auto simp: crv_wf_def chunks_ok_def intro: ranges_ok_chunk)

declare skip_chunks_add.simps [simp del] skip_ranges_add.simps [simp del]
  skip_chunks_sub.simps [simp del] skip_ranges_sub.simps [simp del]
  count_rest_of_chunk.simps [simp del] count_chunks.simps [simp del] count_ranges.simps [simp del]

lemma skip_chunks_add_ok:
  assumes "crv_wf m" and "located m it l r" and "snd it = 0"
    and "index = i + range_total l" and "\<forall>q\<in>set l. snd q \<le> index"
    and "skip_chunks_add m it index = (it', index')"
  shows "\<exists>l' r'. located m it' l' r' \<and> index' = i + range_total l' \<and> (\<forall>q\<in>set l'. snd q \<le> index')"
  using assms
proof (induction m it index arbitrary: l r rule: skip_chunks_add.induct)
  case (1 m it index)
  show ?case
  proof (cases "\<not> at_end m it \<and> chunk_end (m ! fst it) \<le> index")
    case True
    let ?c = "m ! fst it"
    have "r \<noteq> []" using True located_at_end[OF 1(3)] by simp
    then obtain r' where r': "located m (next_chunk it) (l @ data ?c) r'" "?c \<in> set m" "chunk_ok ?c"
      using chunk_step[OF 1(3) _ 1(4)] by blast
    have ok: "chunk_ok ?c" "ranges_ok (data ?c)" using wf_chunk[OF 1(2) r'(2)] by auto
    have "\<forall>q\<in>set (data ?c). snd q \<le> index" using chunk_end_last[OF ok] True by blast
    then have "\<forall>q\<in>set (l @ data ?c). snd q \<le> index + chunk_count ?c" using 1(6) by auto
    with 1(1)[OF True 1(2) r'(1)] 1(5,7) True ok(1) show ?thesis
      by (simp add: skip_chunks_add.simps[of m it] next_chunk_def chunk_ok_def)
  next
    case False
    with 1(3,5,6,7) show ?thesis
      by - (rule exI[of _ l], rule exI[of _ r], auto simp: skip_chunks_add.simps[of m it])
  qed
qed

lemma skip_ranges_add_ok:
  assumes "crv_wf m" and "located m it l r"
    and "index = i + range_total l" and "\<forall>q\<in>set l. snd q \<le> index"
    and "skip_ranges_add m it index = (it', index')"
  shows "\<exists>l' r'. located m it' l' r' \<and> index' = i + range_total l' \<and> (\<forall>q\<in>set l'. snd q \<le> index') \<and>
    (r' = [] \<or> index' < fst (hd r'))"
  using assms
proof (induction m it index arbitrary: l r rule: skip_ranges_add.induct)
  case (1 m it index)
  show ?case
  proof (cases "\<not> at_end m it \<and> fst (deref m it) \<le> index")
    case True
    then obtain x r' where r: "r = x # r'" using located_at_end[OF 1(3)] by (cases r) auto
    note d = located_deref[OF 1(3)[unfolded r]]
    have "\<forall>q\<in>set (l @ [x]). snd q \<le> index + (snd x - fst x)" using 1(5) True d by auto
    with 1(1)[OF True 1(2) located_next[OF 1(3)[unfolded r]]] 1(4,6) True d show ?thesis
      by (simp add: skip_ranges_add.simps[of m it] range_len_def)
  next
    case False
    have "r = [] \<or> index < fst (hd r)"
      using False located_at_end[OF 1(3)] located_deref[of m it l] 1(3) by (cases r) auto
    with False 1(3-6) show ?thesis
      by - (rule exI[of _ l], rule exI[of _ r], auto simp: skip_ranges_add.simps[of m it])
  qed
qed

lemma skip_chunks_sub_ok:
  assumes "crv_wf m" and "located m it l r" and "snd it = 0" and "\<forall>q\<in>set l. snd q \<le> index"
    and "skip_chunks_sub m it index (s - range_total l) = (it', s')"
  shows "\<exists>l' r'. located m it' l' r' \<and> s' = s - range_total l' \<and> (\<forall>q\<in>set l'. snd q \<le> index)"
  using assms
proof (induction m it index "s - range_total l" arbitrary: l r rule: skip_chunks_sub.induct)
  case (1 m it index)
  show ?case
  proof (cases "\<not> at_end m it \<and> chunk_end (m ! fst it) \<le> index")
    case True
    let ?c = "m ! fst it"
    have "r \<noteq> []" using True located_at_end[OF 1(3)] by simp
    then obtain r' where r': "located m (next_chunk it) (l @ data ?c) r'" "?c \<in> set m"
      using chunk_step[OF 1(3) _ 1(4)] by blast
    have ok: "chunk_ok ?c" "ranges_ok (data ?c)" using wf_chunk[OF 1(2) r'(2)] by auto
    have "\<forall>q\<in>set (l @ data ?c). snd q \<le> index" using chunk_end_last[OF ok] True 1(5) by auto
    with 1(1)[OF True _ 1(2) r'(1)] 1(6) True ok(1) show ?thesis
      by (simp add: skip_chunks_sub.simps[of m it] next_chunk_def chunk_ok_def)
  next
    case False
    with 1(3,5,6) show ?thesis
      by - (rule exI[of _ l], rule exI[of _ r], auto simp: skip_chunks_sub.simps[of m it])
  qed
qed

lemma skip_ranges_sub_ok:
  assumes "located m it l r" and "\<forall>q\<in>set l. snd q \<le> index"
    and "skip_ranges_sub m it index (s - range_total l) = (it', s')"
  shows "\<exists>l' r'. located m it' l' r' \<and> s' = s - range_total l' \<and> (\<forall>q\<in>set l'. snd q \<le> index) \<and>
    (r' = [] \<or> index < snd (hd r'))"
  using assms
proof (induction m it index "s - range_total l" arbitrary: l r rule: skip_ranges_sub.induct)
  case (1 m it index)
  show ?case
  proof (cases "\<not> at_end m it \<and> snd (deref m it) \<le> index")
    case True
    then obtain x r' where r: "r = x # r'" using located_at_end[OF 1(2)] by (cases r) auto
    note d = located_deref[OF 1(2)[unfolded r]]
    have "\<forall>q\<in>set (l @ [x]). snd q \<le> index" using 1(3) True d by auto
    with 1(1)[OF True _ located_next[OF 1(2)[unfolded r]]] 1(4) True d show ?thesis
      by (simp add: skip_ranges_sub.simps[of m it] range_len_def)
  next
    case False
    have "r = [] \<or> index < snd (hd r)"
      using False located_at_end[OF 1(2)] located_deref[of m it l] 1(2) by (cases r) auto
    with False 1(2-4) show ?thesis
      by - (rule exI[of _ l], rule exI[of _ r], auto simp: skip_ranges_sub.simps[of m it])
  qed
qed

section \<open>Adding a shifted index and erasing or unshifting\<close>

lemma is_add_shifted_ok:
  assumes "crv_wf m" and "is_add_shifted m i = (m', j)"
  shows "crv_wf m'" and "j = is_shift m i" and "indices m' = insert j (indices m)"
proof -
  obtain it1 i1 where s1: "skip_chunks_add m (it_begin m) i = (it1, i1)" by fastforce
  obtain it2 i2 where s2: "skip_ranges_add m it1 i1 = (it2, i2)" by fastforce
  have ok: "chunks_ok m" using assms(1) by (simp add: crv_wf_def)
  have b: "snd (it_begin m) = 0" by (simp add: it_begin_def it_end_def)
  obtain l1 r1 where "located m it1 l1 r1" "i1 = i + range_total l1" "\<forall>q\<in>set l1. snd q \<le> i1"
    using skip_chunks_add_ok[OF assms(1) located_it_begin[OF ok] b _ _ s1, of i] by auto
  from skip_ranges_add_ok[OF assms(1) this s2] obtain l r where
    lr: "located m it2 l r" "i2 = i + range_total l" "\<forall>q\<in>set l. snd q \<le> i2" "r = [] \<or> i2 < fst (hd r)"
    by blast
  have rok: "ranges_ok (l @ r)" using assms(1) located_wf[OF lr(1)] by simp
  have jm: "j = i2" "m' = fst (do_add m it2 i2)" using assms(2) s1 s2 by (auto simp: is_add_shifted_def)
  have "r = [] \<or> i2 < snd (hd r)"
    using lr(4) rok by (cases r) (auto simp: ranges_ok_iff)
  then have "at_index m it2 i2" unfolding at_index_def using lr rok by blast
  from do_add_ok[OF this] show "crv_wf m'" "indices m' = insert j (indices m)"
    by (cases "do_add m it2 i2"; simp add: jm)+
  show "j = is_shift m i"
    using shift_ranges_unique[OF rok, of i] lr by (simp add: jm is_shift_def located_def)
qed

lemma is_erase_or_unshift_ok:
  assumes "crv_wf m" and "is_erase_or_unshift m i = (m', j)"
  shows "crv_wf m'" and "indices m' = close_gap i (indices m)"
    and "j = (if i \<in> indices m then npos else rank (indices m) i)"
proof -
  obtain it1 s1 where e1: "skip_chunks_sub m (it_begin m) i i = (it1, s1)" by fastforce
  obtain it2 s2 where e2: "skip_ranges_sub m it1 i s1 = (it2, s2)" by fastforce
  have ok: "chunks_ok m" using assms(1) by (simp add: crv_wf_def)
  have b: "snd (it_begin m) = 0" by (simp add: it_begin_def it_end_def)
  obtain l1 r1 where l1: "located m it1 l1 r1" "s1 = i - range_total l1" "\<forall>q\<in>set l1. snd q \<le> i"
    using skip_chunks_sub_ok[OF assms(1) located_it_begin[OF ok] b, of i i it1 s1] e1 by auto
  from skip_ranges_sub_ok[OF l1(1,3), of i it2 s2] e2 l1(2) obtain l r where
    lr: "located m it2 l r" "s2 = i - range_total l" "\<forall>q\<in>set l. snd q \<le> i" "r = [] \<or> i < snd (hd r)"
    by blast
  have rok: "ranges_ok (l @ r)" using assms(1) located_wf[OF lr(1)] by simp
  have at: "at_index m it2 i" unfolding at_index_def using lr rok by blast
  have mem: "i \<in> indices m \<longleftrightarrow> r \<noteq> [] \<and> fst (hd r) \<le> i"
    using split_mem[OF rok lr(3,4)] lr(1) by (simp add: indices_def located_def)
  have rk: "rank (indices m) i = i - range_total l" if "i \<notin> indices m"
  proof -
    have "r = [] \<or> i \<le> fst (hd r)" using that mem by auto
    from covered_below_split(2)[OF rok lr(3) this] lr(1) show ?thesis
      by (simp add: rank_def indices_def located_def)
  qed
  have "crv_wf m' \<and> indices m' = close_gap i (indices m) \<and>
    j = (if i \<in> indices m then npos else rank (indices m) i)"
  proof (cases r)
    case Nil
    then have "m' = m" "j = s2" using assms(2) e1 e2 located_at_end[OF lr(1)]
      by (auto simp: is_erase_or_unshift_def)
    moreover have "close_gap i (indices m) = indices m"
      using gap_covered_lo(1)[OF lr(3)] lr(1) Nil by (simp add: indices_def located_def)
    ultimately show ?thesis using assms(1) mem rk Nil lr(2) by simp
  next
    case (Cons x r')
    then have ne: "\<not> at_end m it2" using located_at_end[OF lr(1)] by simp
    have d: "deref m it2 = x" using located_deref lr(1) Cons by blast
    have "m' = do_erase m it2 i" "j = (if fst x \<le> i then npos else s2)"
      using assms(2) e1 e2 ne d by (auto simp: is_erase_or_unshift_def)
    then show ?thesis using do_erase_ok[OF at ne] mem rk Cons lr(2) by simp
  qed
  then show "crv_wf m'" "indices m' = close_gap i (indices m)"
    "j = (if i \<in> indices m then npos else rank (indices m) i)" by auto
qed

section \<open>Inserting with a shift\<close>

lemma shift_up_located:
  assumes "located m it l r" and "ranges_ok (l @ r)"
  shows "located (shift_from m it (int n)) it l (map (move_range (int n)) r)"
    and "ranges_ok (l @ map (move_range (int n)) r)"
proof -
  have ok: "\<forall>x\<in>set r. fst x \<le> snd x \<and> 0 \<le> int (fst x) + int n"
    using assms(2) by (auto simp: ranges_ok_append dest: ranges_ok_nonempty)
  show "located (shift_from m it (int n)) it l (map (move_range (int n)) r)"
    by (rule shift_from_located(1)[OF assms(1) ok])
  show "ranges_ok (l @ map (move_range (int n)) r)"
    using assms(2) ranges_ok_map_move[of r "int n"]
    by (fastforce simp: ranges_ok_append move_range_def)
qed

lemma add_run_ok:
  assumes "at_index m it j" and "\<forall>y. j < y \<and> y < j + k \<longrightarrow> y \<notin> indices m"
  shows "crv_wf (add_run m it j k) \<and> indices (add_run m it j k) = indices m \<union> {j..<j + k}"
  using assms
proof (induction k arbitrary: m it j)
  case 0
  then show ?case by (simp add: at_index_wf)
next
  case Suck: (Suc k)
  obtain m' it' where d: "do_add m it j = (m', it')" by (cases "do_add m it j")
  from do_add_ok[OF Suck.prems(1) d] obtain l x r where
    m': "crv_wf m'" "indices m' = insert j (indices m)" "located m' it' l (x # r)" "fst x \<le> j" "j < snd x"
    by (auto simp: holds_index_def)
  have rok: "ranges_ok (l @ x # r)" using m'(1,3) by (simp add: located_wf)
  have un: "{j..<j + Suc k} = insert j {j + 1..<j + 1 + k}" by auto
  show ?case
  proof (cases k)
    case 0
    then show ?thesis using d m'(1,2) un by simp
  next
    case (Suc k')
    have "snd x = j + 1"
    proof (rule ccontr)
      assume "snd x \<noteq> j + 1"
      then have "j + 1 \<in> indices m'" using m'(3-5) by (auto simp: indices_def located_def)
      then show False using m'(2) Suck.prems(2) Suc by auto
    qed
    have "at_index m' (it_next m' it') (j + 1)"
    proof (rule at_indexI)
      show "located m' (it_next m' it') (l @ [x]) r" by (rule located_next[OF m'(3)])
      show "ranges_ok ((l @ [x]) @ r)" using rok by simp
      show "\<forall>q\<in>set (l @ [x]). snd q \<le> j + 1"
        using rok \<open>snd x = j + 1\<close> by (fastforce simp: ranges_ok_iff)
      show "r = [] \<or> j + 1 < snd (hd r)"
        using rok \<open>snd x = j + 1\<close> by (cases r) (auto simp: ranges_ok_iff)
    qed
    from Suck.IH[OF this] m'(2) Suck.prems(2) d un show ?thesis by auto
  qed
qed

lemma is_insert_at_ok:
  assumes "crv_wf m"
  shows "crv_wf (is_insert_at m i n)"
    and "indices (is_insert_at m i n) = open_gap i n (indices m) \<union> {i..<i + n}"
proof -
  let ?it = "is_find m i"
  have "crv_wf (is_insert_at m i n) \<and>
    indices (is_insert_at m i n) = open_gap i n (indices m) \<union> {i..<i + n}"
    using at_index_find[OF assms, of i]
  proof (cases rule: at_index_cases)
    case (atend l)
    have ix: "indices m = covered l" using located_indices[OF atend(1)] by simp
    have "\<forall>y. i < y \<and> y < i + n \<longrightarrow> y \<notin> indices m"
      using atend(3) by (fastforce simp: ix in_covered)
    with add_run_ok[OF at_index_find[OF assms]] gap_covered_lo(2)[OF atend(3)] located_at_end[OF atend(1)]
    show ?thesis by (simp add: is_insert_at_def Let_def ix)
  next
    case (inside l a b r)
    let ?m1 = "it_adjust m ?it 0 (int n)"
    have m1: "located ?m1 ?it l ((a, b + n) # r)"
      using adjust_located(1)[OF inside(1), of 0 "int n"] inside(4,5) by (simp add: nat_int_add)
    have "l @ (a, b) # r = (l @ [(a, b)]) @ r" by simp
    have eq: "is_insert_at m i n = shift_from ?m1 (it_next ?m1 ?it) (int n)"
      using located_deref[OF inside(1)] located_at_end[OF inside(1)] inside(4)
      by (simp add: is_insert_at_def Let_def)
    have nok: "\<forall>x\<in>set r. fst x \<le> snd x \<and> 0 \<le> int (fst x) + int n"
      using inside(2) by (auto simp: ranges_ok_iff dest: ranges_ok_nonempty)
    note s = shift_from_located(1)[OF located_next[OF m1] nok]
    have "ranges_ok (map (move_range (int n)) r)"
      using inside(2) by (intro ranges_ok_map_move) (auto simp: ranges_ok_iff)
    then have "ranges_ok ((l @ [(a, b + n)]) @ map (move_range (int n)) r)"
      using inside(2,4-6) by (fastforce simp: ranges_ok_iff move_range_def nat_int_add)
    moreover have fr: "\<forall>q\<in>set r. i \<le> fst q" using inside(5,6) by auto
    have "open_gap i n (indices m) \<union> {i..<i + n} =
        covered (l @ [(a, b + n)]) \<union> covered (map (move_range (int n)) r)"
      using inside(4,5) gap_covered_hi(2)[OF fr, of n] gap_covered_lo(2)[OF inside(3)]
      by (auto simp: located_indices[OF inside(1)] gap_union open_gap_interval)
    ultimately show ?thesis using located_wf[OF s] located_indices[OF s] eq by simp
  next
    case (after l a b r)
    let ?m1 = "it_shift m ?it (int n)"
    let ?r = "map (move_range (int n)) ((a, b) # r)"
    have eq: "is_insert_at m i n = add_run (shift_from m ?it (int n)) ?it i n"
      using located_deref[OF after(1)] located_at_end[OF after(1)] after(4)
      by (simp add: is_insert_at_def Let_def shift_from.simps[of m ?it])
    note s = shift_up_located[OF after(1,2), of n]
    have at: "at_index (shift_from m ?it (int n)) ?it i"
      using after(3-5) by (intro at_indexI[OF s]) (auto simp: move_range_def)
    have fr: "\<forall>q\<in>set ((a, b) # r). i \<le> fst q" using after(4-6) by auto
    have ix: "indices (shift_from m ?it (int n)) = open_gap i n (indices m)"
      using gap_covered_hi(2)[OF fr, of n] gap_covered_lo(2)[OF after(3)]
      by (simp only: located_indices[OF after(1)] located_indices[OF s(1)] gap_union)
    have "\<forall>y. i < y \<and> y < i + n \<longrightarrow> y \<notin> open_gap i n (indices m)"
      by (auto simp: open_gap_def)
    with add_run_ok[OF at, of n] ix eq show ?thesis by simp
  qed
  then show "crv_wf (is_insert_at m i n)"
    and "indices (is_insert_at m i n) = open_gap i n (indices m) \<union> {i..<i + n}" by auto
qed

lemma is_shift_for_insert_at_ok:
  assumes "crv_wf m" and "0 < n"
  shows "crv_wf (is_shift_for_insert_at m i n)"
    and "indices (is_shift_for_insert_at m i n) = open_gap i n (indices m)"
proof -
  let ?it = "is_find m i"
  have "crv_wf (is_shift_for_insert_at m i n) \<and>
    indices (is_shift_for_insert_at m i n) = open_gap i n (indices m)"
    using at_index_find[OF assms(1), of i]
  proof (cases rule: at_index_cases)
    case (atend l)
    then show ?thesis
      using assms gap_covered_lo(2)[OF atend(3)] located_at_end[OF atend(1)] located_indices[OF atend(1)]
      by (simp add: is_shift_for_insert_at_def Let_def)
  next
    case (inside l a b r)
    let ?m1 = "shift_from m ?it (int n)"
    let ?r = "map (move_range (int n)) r"
    have ne: "\<not> at_end m ?it" using located_at_end[OF inside(1)] by simp
    have fr: "\<forall>q\<in>set r. i \<le> fst q" using inside(5,6) by auto
    note s = shift_up_located[OF inside(1,2), of n]
    have s1: "located ?m1 ?it l ((a + n, b + n) # ?r)"
      using s(1) by (simp add: move_range_def nat_int_add)
    have og: "open_gap i n (indices m) = covered l \<union> ({a..<i} \<union> {i + n..<b + n}) \<union> covered ?r"
      using gap_covered_hi(2)[OF fr, of n] gap_covered_lo(2)[OF inside(3)]
      by (simp add: located_indices[OF inside(1)] gap_union open_gap_interval[OF inside(4,5)] Un_assoc)
    show ?thesis
    proof (cases "a < i")
      case True
      let ?m2 = "it_set ?m1 ?it a i"
      have m2: "located ?m2 ?it l ((a, i) # ?r)" by (rule set_located(1)[OF s1])
      obtain m3 jt where ins: "crv_insert ?m2 (it_next ?m2 ?it) (i + n, b + n) = (m3, jt)"
        by (cases "crv_insert ?m2 (it_next ?m2 ?it) (i + n, b + n)")
      have eq: "is_shift_for_insert_at m i n = m3"
        using ne True located_deref[OF s1] ins by (simp add: is_shift_for_insert_at_def Let_def)
      have rok: "ranges_ok ((l @ [(a, i)]) @ (i + n, b + n) # ?r)"
        using inside(2,5,6) True assms(2) s(2)
        by (fastforce simp: ranges_ok_iff move_range_def nat_int_add)
      note m3 = insert_located[OF located_next[OF m2] ins rok]
      show ?thesis using located_wf[OF m3] located_indices[OF m3] rok eq og by auto
    next
      case False
      then have ai: "a = i" using inside(4) by simp
      have "is_shift_for_insert_at m i n = ?m1"
        using ne False located_deref[OF s1] by (simp add: is_shift_for_insert_at_def Let_def)
      then show ?thesis
        using located_wf[OF s(1)] s(2) located_indices[OF s1] og ai by auto
    qed
  next
    case (after l a b r)
    let ?m1 = "shift_from m ?it (int n)"
    have ne: "\<not> at_end m ?it" using located_at_end[OF after(1)] by simp
    have fr: "\<forall>q\<in>set ((a, b) # r). i \<le> fst q" using after(4-6) by auto
    note s = shift_up_located[OF after(1,2), of n]
    have "fst (deref ?m1 ?it) = a + n"
      using located_deref[of ?m1 ?it l] s(1) by (simp add: move_range_def nat_int_add)
    then have "is_shift_for_insert_at m i n = ?m1"
      using ne after(4) by (simp add: is_shift_for_insert_at_def Let_def)
    then show ?thesis
      using located_wf[OF s(1)] s(2) gap_covered_hi(2)[OF fr, of n] gap_covered_lo(2)[OF after(3)]
      by (simp only: located_indices[OF s(1)] located_indices[OF after(1)] gap_union)
  qed
  then show "crv_wf (is_shift_for_insert_at m i n)"
    and "indices (is_shift_for_insert_at m i n) = open_gap i n (indices m)" by auto
qed

end
