(* ===== verification/IndexSetRemove.thy ===== *)
theory IndexSetRemove imports IndexSetLaws begin

text \<open>
  Removal without a shift (\<open>do_remove\<close>, with the proof that the fuel of the model is always
  enough), and \<open>count\<close>, which is exact when it starts at a chunk's first range and otherwise
  misses the part of a range that straddles \<open>end_index\<close> at the front of a later chunk.
\<close>

section \<open>Removing a run of positions\<close>

lemma remove_round:
  assumes wf: "crv_wf m" and f: "located m f l ((a, b) # r)" and l: "\<forall>q\<in>set l. snd q \<le> first"
    and ab: "first < b" "a < last'" "first < last'"
    and g: "g = max a first"
    and step: "(m', it') =
      (if a < g \<and> last' < b then
         (let (m2, it1) = crv_insert (it_set m f a g) (it_next (it_set m f a g) f) (last', b)
          in (m2, it_prev m2 it1))
       else if g = a \<and> b \<le> last' then crv_erase m f
       else if g = a then (it_set m f last' b, f)
       else (it_set m f a g, f))"
  shows "crv_wf m' \<and> (\<exists>l' r'. located m' it' l' r' \<and> (\<forall>q\<in>set l'. snd q \<le> g)) \<and>
    indices m' \<subseteq> indices m \<and> indices m - {g..<last'} \<subseteq> indices m' \<and> g \<notin> indices m'"
proof -
  have rok: "ranges_ok (l @ (a, b) # r)" using wf f by (simp add: located_wf)
  then have ok: "ranges_ok l" "ranges_ok r" "a < b" "\<forall>q\<in>set l. snd q < a" "\<forall>q\<in>set r. b < fst q"
    "\<forall>p\<in>set l. \<forall>q\<in>set r. snd p < fst q"
    by (auto simp: ranges_ok_iff)
  have gb: "a \<le> g" "g < b" "g < last'" using ok(3) ab g by auto
  have lg: "\<forall>q\<in>set l. snd q \<le> g" using l g by fastforce
  have gl: "g \<notin> covered l" "g \<notin> covered r" using lg ok(5) gb by (fastforce simp: in_covered)+
  have rl: "x \<in> covered r \<Longrightarrow> b < x" for x using ok(5) by (fastforce simp: in_covered)
  note ix = located_indices[OF f]
  consider (split) "a < g" "last' < b" | (erase) "g = a" "b \<le> last'"
    | (front) "g = a" "last' < b" | (tail) "a < g" "b \<le> last'" using gb(1) by linarith
  then show ?thesis
  proof cases
    case split
    let ?m1 = "it_set m f a g"
    have m1: "located ?m1 f l ((a, g) # r)" by (rule set_located(1)[OF f])
    obtain m2 it1 where ins: "crv_insert ?m1 (it_next ?m1 f) (last', b) = (m2, it1)"
      by (cases "crv_insert ?m1 (it_next ?m1 f) (last', b)")
    have rok2: "ranges_ok ((l @ [(a, g)]) @ (last', b) # r)"
      using ok split gb by (fastforce simp: ranges_ok_iff)
    note m2 = insert_located[OF located_next[OF m1] ins rok2]
    have m': "m' = m2" "it' = it_prev m2 it1" using step split ins by auto
    have "located m2 (it_prev m2 it1) l ((a, g) # (last', b) # r)"
      by (rule located_prev) (use m2 in simp)
    moreover have "crv_wf m2" using located_wf[OF m2] rok2 by simp
    ultimately show ?thesis
      using lg gl gb split located_indices[OF m2] ix unfolding m' by auto
  next
    case erase
    have er: "crv_erase m f = (m', it')" using step erase by simp
    note m' = erase_located[OF f er]
    have "crv_wf m'" using located_wf[OF m'] ok by (simp add: ranges_ok_append)
    then show ?thesis using m' lg gl erase located_indices[OF m'] ix by auto
  next
    case front
    have m': "m' = it_set m f last' b" "it' = f" using step front by auto
    note s = set_located(1)[OF f, of last' b]
    have "crv_wf m'" using located_wf[OF s] ok front gb by (auto simp: m' ranges_ok_iff)
    then show ?thesis using s lg gl gb front located_indices[OF s] ix unfolding m' by auto
  next
    case tail
    have m': "m' = it_set m f a g" "it' = f" using step tail gb by auto
    note s = set_located(1)[OF f, of a g]
    have "crv_wf m'" using located_wf[OF s] ok tail gb by (fastforce simp: m' ranges_ok_iff)
    then show ?thesis using s lg gl gb tail located_indices[OF s] ix unfolding m' by auto
  qed
qed

lemma do_remove_ok:
  assumes "crv_wf m" and "located m it l r" and "\<forall>q\<in>set l. snd q \<le> first" and "first < last'"
    and "card (indices m \<inter> {first..<last'}) < fuel"
  shows "\<exists>m' it' l' r'. do_remove fuel m it first last' = Some (m', it') \<and> crv_wf m' \<and>
    indices m' = indices m - {first..<last'} \<and> located m' it' l' r' \<and> (\<forall>q\<in>set l'. snd q \<le> last')"
  using assms
proof (induction fuel arbitrary: m it l r first)
  case (Suc fuel)
  let ?f = "is_find_from m first it"
  note f = find_from_ok[OF Suc.prems(1-3)]
  have fin: "finite (indices m)" by (simp add: indices_def)
  have below: "\<forall>q\<in>set (lo first (flat m)). snd q \<le> first" by (auto dest: lo_le)
  show ?case
  proof (cases "\<not> at_end m ?f \<and> fst (deref m ?f) < last'")
    case False
    have "indices m \<inter> {first..<last'} = {}"
    proof (cases "hi first (flat m)")
      case Nil
      then show ?thesis using below located_indices[OF f] by (fastforce simp: in_covered)
    next
      case (Cons x ys)
      then have "last' \<le> fst x" using False located_at_end[OF f] located_deref[of m ?f _ x ys] f by simp
      moreover have "ranges_ok (x # ys)"
        using Suc.prems(1) located_wf[OF f] Cons by (simp add: ranges_ok_append)
      ultimately have "\<forall>q\<in>set (x # ys). last' \<le> fst q" by (fastforce simp: ranges_ok_Cons)
      then show ?thesis using below located_indices[OF f] Cons by (fastforce simp: in_covered)
    qed
    then have "indices m - {first..<last'} = indices m" by blast
    moreover have "do_remove (Suc fuel) m it first last' = Some (m, ?f)"
      using False by (simp add: Let_def)
    moreover have "\<forall>q\<in>set (lo first (flat m)). snd q \<le> last'"
      using below Suc.prems(4) by fastforce
    ultimately show ?thesis using Suc.prems(1) f by auto
  next
    case True
    then obtain a b r1 where hi: "hi first (flat m) = (a, b) # r1"
      using located_at_end[OF f] by (cases "hi first (flat m)") auto
    note f1 = f[unfolded hi]
    note d = located_deref[OF f1]
    have b: "first < b" "a < last'" using hi_hd[OF hi] True d by auto
    define g where "g = max a first"
    define s where "s = (if a < g \<and> last' < b then
         (let (m2, it1) = crv_insert (it_set m ?f a g) (it_next (it_set m ?f a g) ?f) (last', b)
          in (m2, it_prev m2 it1))
       else if g = a \<and> b \<le> last' then crv_erase m ?f
       else if g = a then (it_set m ?f last' b, ?f)
       else (it_set m ?f a g, ?f))"
    obtain m' it' where mi: "s = (m', it')" by (cases s)
    from remove_round[OF Suc.prems(1) f1 below b Suc.prems(4) g_def mi[symmetric, unfolded s_def]]
    obtain l' r' where rd: "crv_wf m'" "located m' it' l' r'" "\<forall>q\<in>set l'. snd q \<le> g"
      "indices m' \<subseteq> indices m" "indices m - {g..<last'} \<subseteq> indices m'" "g \<notin> indices m'" by blast
    have ok: "a < b" "first \<le> g" "g < last'" "a \<le> g" "g < b"
      using b Suc.prems(1,4) located_wf[OF f1] by (auto simp: g_def ranges_ok_iff)
    have g: "g \<in> indices m" using located_indices[OF f1] ok by auto
    have gap: "x \<notin> indices m" if "first \<le> x" "x < g" for x
    proof -
      have "x \<notin> covered r1" "x < a"
        using that located_wf[OF f1] Suc.prems(1) ok(1) by (fastforce simp: ranges_ok_iff in_covered g_def)+
      moreover have "x \<notin> covered (lo first (flat m))" using below that by (fastforce simp: in_covered)
      ultimately show ?thesis using located_indices[OF f1] by auto
    qed
    have "indices m' \<inter> {g..<last'} \<subset> indices m \<inter> {first..<last'}"
    proof (rule psubsetI)
      show "indices m' \<inter> {g..<last'} \<subseteq> indices m \<inter> {first..<last'}"
        using rd(4) ok(2) by fastforce
      show "indices m' \<inter> {g..<last'} \<noteq> indices m \<inter> {first..<last'}"
        using g rd(6) ok(2,3) by (metis IntE IntI atLeastLessThan_iff)
    qed
    then have "card (indices m' \<inter> {g..<last'}) < card (indices m \<inter> {first..<last'})"
      by (rule psubset_card_mono[rotated]) (simp add: fin)
    then have "card (indices m' \<inter> {g..<last'}) < fuel" using Suc.prems(5) by linarith
    from Suc.IH[OF rd(1-3) ok(3) this] obtain m3 it3 l3 r3 where
      m3: "do_remove fuel m' it' g last' = Some (m3, it3)" "crv_wf m3"
      "indices m3 = indices m' - {g..<last'}" "located m3 it3 l3 r3" "\<forall>q\<in>set l3. snd q \<le> last'"
      by blast
    have "do_remove (Suc fuel) m it first last' = Some (m3, it3)"
      using True m3(1) mi d by (auto simp: s_def g_def Let_def split: prod.splits if_splits)
    moreover have "indices m3 = indices m - {first..<last'}"
      using m3(3) rd(4,5) gap ok(2) by (auto simp: not_le)
    ultimately show ?thesis using m3 by blast
  qed
qed simp

lemma remove_fuel_enough: "crv_wf m \<Longrightarrow> card (indices m \<inter> A) < remove_fuel m"
proof -
  assume "crv_wf m"
  then have "card (indices m) = range_total (flat m)"
    by (simp add: indices_def covered_card crv_wf_def)
  moreover have "card (indices m \<inter> A) \<le> card (indices m)"
    by (rule card_mono) (auto simp: indices_def)
  ultimately show ?thesis by (simp add: remove_fuel_def range_total_alt)
qed

lemma is_remove_ok:
  assumes "crv_wf m" and "0 < n"
  shows "crv_wf (is_remove m i n)" and "indices (is_remove m i n) = indices m - {i..<i + n}"
proof -
  have "\<forall>q\<in>set (lo i (flat m)). snd q \<le> i" by (auto dest: lo_le)
  from do_remove_ok[OF assms(1) find_ok[OF assms(1)] this _ remove_fuel_enough[OF assms(1)], of "i + n"]
  obtain m' it' where "do_remove (remove_fuel m) m (is_find m i) i (i + n) = Some (m', it')"
    "crv_wf m'" "indices m' = indices m - {i..<i + n}"
    using assms(2) by auto
  then show "crv_wf (is_remove m i n)" and "indices (is_remove m i n) = indices m - {i..<i + n}"
    by (simp_all add: is_remove_def)
qed

section \<open>Counting\<close>

lemma card_covered_below:
  assumes "ranges_ok (l @ r)" and "\<forall>q\<in>set l. snd q \<le> e" and "r = [] \<or> e \<le> snd (hd r)"
  shows "card (covered (l @ r) \<inter> {..<e}) = range_total l + (case r of [] \<Rightarrow> 0 | x # _ \<Rightarrow> e - fst x)"
proof (cases r)
  case Nil
  then show ?thesis using covered_below_split(2)[OF assms(1,2)] by simp
next
  case (Cons x ys)
  have l: "covered l \<inter> {..<e} = covered l" using assms(2) by (fastforce simp: in_covered)
  have "covered ys \<inter> {..<e} = {}"
    using assms(1,3) Cons by (fastforce simp: in_covered ranges_ok_iff)
  moreover have "{fst x..<snd x} \<inter> {..<e} = {fst x..<e}" using assms(3) Cons by auto
  ultimately have "covered (l @ r) \<inter> {..<e} = covered l \<union> {fst x..<e}" using l Cons by auto
  moreover have "covered l \<inter> {fst x..<e} = {}"
    using assms(1) Cons by (fastforce simp: in_covered ranges_ok_iff)
  ultimately show ?thesis
    using assms(1) Cons by (simp add: card_Un_disjoint covered_card ranges_ok_append)
qed

lemma count_chunks_ok:
  assumes "crv_wf m" and "located m it l r" and "snd it = 0"
    and "count_chunks m it e ret = (it', ret')"
  shows "\<exists>l' r'. r = l' @ r' \<and> located m it' (l @ l') r' \<and> ret' = ret + range_total l' \<and>
    (\<forall>q\<in>set l'. snd q \<le> e)"
  using assms
proof (induction m it e ret arbitrary: l r rule: count_chunks.induct)
  case (1 m it e ret)
  show ?case
  proof (cases "\<not> at_end m it \<and> chunk_end (m ! fst it) \<le> e")
    case True
    let ?c = "m ! fst it"
    have "r \<noteq> []" using True located_at_end[OF 1(3)] by simp
    then obtain r' where r': "r = data ?c @ r'" "located m (next_chunk it) (l @ data ?c) r'" "?c \<in> set m"
      using chunk_step[OF 1(3) _ 1(4)] by blast
    have ok: "chunk_ok ?c" "ranges_ok (data ?c)" using wf_chunk[OF 1(2) r'(3)] by auto
    have "\<forall>q\<in>set (data ?c). snd q \<le> e" using chunk_end_last[OF ok] True by blast
    moreover obtain l2 r2 where "r' = l2 @ r2" "located m it' ((l @ data ?c) @ l2) r2"
      "ret' = ret + range_total (data ?c) + range_total l2" "\<forall>q\<in>set l2. snd q \<le> e"
      using 1(1)[OF True 1(2) r'(2)] 1(5) True ok(1)
      by (auto simp: count_chunks.simps[of m it] next_chunk_def chunk_ok_def)
    ultimately show ?thesis using r'(1) by - (rule exI[of _ "data ?c @ l2"], auto)
  next
    case False
    with 1(3,5) show ?thesis by - (rule exI[of _ "[]"], auto simp: count_chunks.simps[of m it])
  qed
qed

lemma count_ranges_ok:
  assumes "located m it l r" and "count_ranges m it e ret = (it', ret')"
  shows "\<exists>l' r'. r = l' @ r' \<and> located m it' (l @ l') r' \<and> ret' = ret + range_total l' \<and>
    (\<forall>q\<in>set l'. snd q \<le> e) \<and> (r' = [] \<or> e < snd (hd r'))"
  using assms
proof (induction m it e ret arbitrary: l r rule: count_ranges.induct)
  case (1 m it e ret)
  show ?case
  proof (cases "\<not> at_end m it \<and> snd (deref m it) \<le> e")
    case True
    then obtain x r' where r: "r = x # r'" using located_at_end[OF 1(2)] by (cases r) auto
    note d = located_deref[OF 1(2)[unfolded r]]
    obtain l2 r2 where "r' = l2 @ r2" "located m it' ((l @ [x]) @ l2) r2"
      "ret' = ret + range_len x + range_total l2" "\<forall>q\<in>set l2. snd q \<le> e" "r2 = [] \<or> e < snd (hd r2)"
      using 1(1)[OF True located_next[OF 1(2)[unfolded r]]] 1(3) True d
      by (auto simp: count_ranges.simps[of m it] range_len_def)
    then show ?thesis using r d True by - (rule exI[of _ "x # l2"], auto)
  next
    case False
    have "r = [] \<or> e < snd (hd r)"
      using False located_at_end[OF 1(2)] located_deref[of m it l] 1(2) by (cases r) auto
    with False 1(2,3) show ?thesis
      by - (rule exI[of _ "[]"], auto simp: count_ranges.simps[of m it])
  qed
qed

lemma count_rest_ok:
  assumes "located m it l r" and "count_rest_of_chunk m it e ret = (it', ret')"
  shows "\<exists>l' r'. r = l' @ r' \<and> located m it' (l @ l') r' \<and> ret' = ret + range_total l' \<and>
    (\<forall>q\<in>set l'. snd q \<le> e) \<and> (r' = [] \<or> e \<le> snd (hd r') \<or> snd it' = 0)"
  using assms
proof (induction m it e ret arbitrary: l r rule: count_rest_of_chunk.induct)
  case (1 m it e ret)
  show ?case
  proof (cases "\<not> at_end m it \<and> snd (deref m it) < e \<and> snd it \<noteq> 0")
    case True
    then obtain x r' where r: "r = x # r'" using located_at_end[OF 1(2)] by (cases r) auto
    note d = located_deref[OF 1(2)[unfolded r]]
    obtain l2 r2 where "r' = l2 @ r2" "located m it' ((l @ [x]) @ l2) r2"
      "ret' = ret + range_len x + range_total l2" "\<forall>q\<in>set l2. snd q \<le> e"
      "r2 = [] \<or> e \<le> snd (hd r2) \<or> snd it' = 0"
      using 1(1)[OF True located_next[OF 1(2)[unfolded r]]] 1(3) True d
      by (auto simp: count_rest_of_chunk.simps[of m it] range_len_def)
    then show ?thesis using r d True by - (rule exI[of _ "x # l2"], auto)
  next
    case False
    have "r = [] \<or> e \<le> snd (hd r) \<or> snd it = 0"
      using False located_at_end[OF 1(2)] located_deref[of m it l] 1(2) by (cases r) auto
    with False 1(2,3) show ?thesis
      by - (rule exI[of _ "[]"], auto simp: count_rest_of_chunk.simps[of m it])
  qed
qed

lemma count_tail_ok:
  assumes "crv_wf m" and "located m it l r" and "snd it = 0"
  shows "count_tail m it e ret = ret + card (covered r \<inter> {..<e})"
proof -
  obtain it1 r1 where c: "count_chunks m it e ret = (it1, r1)" by fastforce
  obtain it2 r2 where d: "count_ranges m it1 e r1 = (it2, r2)" by fastforce
  from count_chunks_ok[OF assms c] obtain l1 s1 where 1: "r = l1 @ s1" "located m it1 (l @ l1) s1"
    "r1 = ret + range_total l1" "\<forall>q\<in>set l1. snd q \<le> e" by blast
  from count_ranges_ok[OF 1(2) d] obtain l2 s2 where 2: "s1 = l2 @ s2" "located m it2 ((l @ l1) @ l2) s2"
    "r2 = r1 + range_total l2" "\<forall>q\<in>set l2. snd q \<le> e" "s2 = [] \<or> e < snd (hd s2)" by blast
  have "ranges_ok ((l1 @ l2) @ s2)"
    using assms(1) located_wf[OF assms(2)] 1(1) 2(1) by (simp add: ranges_ok_append)
  moreover have "\<forall>q\<in>set (l1 @ l2). snd q \<le> e" using 1(4) 2(4) by auto
  ultimately have "card (covered r \<inter> {..<e}) =
      range_total (l1 @ l2) + (case s2 of [] \<Rightarrow> 0 | x # _ \<Rightarrow> e - fst x)"
    using card_covered_below[of "l1 @ l2" s2 e] 1(1) 2(1,5) by auto
  moreover have "count_tail m it e ret = r2 + (case s2 of [] \<Rightarrow> 0 | x # _ \<Rightarrow> e - fst x)"
    using located_at_end[OF 2(2)] located_deref[of m it2 "(l @ l1) @ l2"] 2(2)
    by (cases s2) (auto simp: count_tail_def c d)
  ultimately show ?thesis using 1(3) 2(3) by simp
qed

text \<open>
  A chunk whose first range contains \<open>e - 1\<close>; this is the shape that \<open>count\<close> gets wrong
  when it starts in the middle of an earlier chunk.
\<close>

definition straddles :: "crv \<Rightarrow> nat \<Rightarrow> bool" where
  "straddles m e \<longleftrightarrow> (\<exists>c\<in>set m. fst (hd (data c)) < e \<and> e \<le> snd (hd (data c)))"

lemma chunk_head:
  assumes "located m it l (x # r)" and "snd it = 0"
  shows "\<exists>c\<in>set m. hd (data c) = x"
proof -
  have "valid m it" "\<not> at_end m it" using assms(1) located_at_end[OF assms(1)] by (auto simp: located_def)
  from valid_inner[OF this] show ?thesis
    using located_deref[OF assms(1)] assms(2) by (intro bexI[of _ "m ! fst it"]) (auto simp: deref_def hd_conv_nth)
qed

lemma is_count_cases:
  assumes "crv_wf m"
  shows "is_count m s e \<le> card (indices m \<inter> {s..<e})"
    and "\<not> straddles m e \<Longrightarrow> is_count m s e = card (indices m \<inter> {s..<e})"
    and "snd (is_find m s) = 0 \<Longrightarrow> s \<le> fst (deref m (is_find m s)) \<Longrightarrow>
      is_count m s e = card (indices m \<inter> {s..<e})"
proof -
  let ?it = "is_find m s"
  define C where "C = card (indices m \<inter> {s..<e})"
  have "is_count m s e \<le> C \<and> (\<not> straddles m e \<longrightarrow> is_count m s e = C) \<and>
    (snd ?it = 0 \<longrightarrow> s \<le> fst (deref m ?it) \<longrightarrow> is_count m s e = C)"
  proof (cases "hi s (flat m)")
    case Nil
    have "C = 0"
      using located_indices[OF find_ok[OF assms, of s]] Nil by (auto simp: C_def in_covered dest!: lo_le)
    then show ?thesis
      using located_at_end[OF find_ok[OF assms, of s]] Nil by (simp add: is_count_def Let_def)
  next
    case (Cons x r)
    note f = find_ok[OF assms, of s, unfolded Cons]
    note d = located_deref[OF f] and ne = located_at_end[OF f]
    have rok: "ranges_ok (lo s (flat m) @ x # r)" using assms located_wf[OF f] by simp
    have sx: "s < snd x" "fst x < snd x" using hi_hd[OF Cons] rok by (auto simp: ranges_ok_iff)
    have rgt: "y \<in> covered r \<Longrightarrow> snd x < y" for y using rok by (fastforce simp: ranges_ok_iff in_covered)
    have split: "indices m \<inter> {s..<e} = ({max (fst x) s..<min (snd x) e}) \<union> (covered r \<inter> {..<e})"
      using located_indices[OF f] covered_lo[of _ s "flat m"] rgt sx by fastforce
    show ?thesis
    proof (cases "snd x < e")
      case False
      then have "covered r \<inter> {..<e} = {}" using rgt by fastforce
      then show ?thesis using split False ne d
        by (auto simp: is_count_def Let_def C_def min_absorb2 not_less)
    next
      case True
      have "{max (fst x) s..<snd x} \<inter> (covered r \<inter> {..<e}) = {}" using rgt by fastforce
      then have C: "C = (snd x - max (fst x) s) + card (covered r \<inter> {..<e})"
        using split True by (simp add: C_def card_Un_disjoint min_absorb1 less_imp_le)
      show ?thesis
      proof (cases "fst x < s \<or> snd ?it \<noteq> 0")
        case False
        then have "is_count m s e = count_tail m ?it e 0"
          using True ne d sx by (simp add: is_count_def Let_def)
        also have "\<dots> = card (covered (x # r) \<inter> {..<e})"
          using count_tail_ok[OF assms f] False by simp
        also have "covered (x # r) \<inter> {..<e} = indices m \<inter> {s..<e}"
          using split False True by auto
        finally show ?thesis by (simp add: C_def)
      next
        case mid: True
        let ?ret = "snd x - max (fst x) s"
        obtain it1 r1 where c: "count_rest_of_chunk m (it_next m ?it) e ?ret = (it1, r1)" by fastforce
        from count_rest_ok[OF located_next[OF f] c] obtain l2 s2 where
          2: "r = l2 @ s2" "located m it1 ((lo s (flat m) @ [x]) @ l2) s2" "r1 = ?ret + range_total l2"
          "\<forall>q\<in>set l2. snd q \<le> e" "s2 = [] \<or> e \<le> snd (hd s2) \<or> snd it1 = 0" by blast
        have rok2: "ranges_ok (l2 @ s2)" using rok 2(1) by (simp add: ranges_ok_iff)
        have nostart: "\<not> (snd ?it = 0 \<and> s \<le> fst (deref m ?it))" using mid d by auto
        have "is_count m s e = (let ret2 = (if \<not> at_end m it1 \<and> fst (deref m it1) < e \<and> snd it1 \<noteq> 0
                       then r1 + (e - fst (deref m it1)) else r1)
           in if at_end m it1 \<or> e \<le> snd (deref m it1) then ret2 else count_tail m it1 e ret2)"
          using True ne d sx mid c by (simp add: is_count_def Let_def)
        note eq = this
        show ?thesis
        proof (cases s2)
          case Nil
          then have "is_count m s e = r1" using eq located_at_end[OF 2(2)] by simp
          moreover have "card (covered r \<inter> {..<e}) = range_total l2"
            using card_covered_below[OF rok2 2(4)] 2(1) Nil by simp
          ultimately show ?thesis using C 2(3) by simp
        next
          case (Cons y s3)
          note dy = located_deref[OF 2(2)[unfolded Cons]]
          have ney: "\<not> at_end m it1" using located_at_end[OF 2(2)] Cons by simp
          show ?thesis
          proof (cases "e \<le> snd y")
            case True
            have cr: "card (covered r \<inter> {..<e}) = range_total l2 + (e - fst y)"
              using card_covered_below[OF rok2 2(4)] 2(1) Cons True by simp
            have "is_count m s e = (if fst y < e \<and> snd it1 \<noteq> 0 then r1 + (e - fst y) else r1)"
              using eq ney dy True by (simp add: Let_def)
            moreover have "straddles m e" if "fst y < e" "snd it1 = 0"
              using chunk_head[OF 2(2)[unfolded Cons] that(2)] that True unfolding straddles_def by blast
            moreover have "C = r1 + (e - fst y)" using C cr 2(3) by linarith
            ultimately show ?thesis
              using nostart by (cases "fst y < e"; cases "snd it1 = 0") auto
          next
            case False
            then have s0: "snd it1 = 0" using 2(5) Cons by simp
            have "is_count m s e = count_tail m it1 e r1"
              using eq ney dy False s0 by (simp add: Let_def)
            also have "\<dots> = r1 + card (covered s2 \<inter> {..<e})" by (rule count_tail_ok[OF assms 2(2) s0])
            also have "\<dots> = C"
            proof -
              have "covered l2 \<inter> (covered s2 \<inter> {..<e}) = {}"
                using rok2 by (fastforce simp: ranges_ok_append in_covered)
              moreover have "covered r \<inter> {..<e} = covered l2 \<union> (covered s2 \<inter> {..<e})"
                using 2(1,4) by (fastforce simp: in_covered)
              ultimately have "card (covered r \<inter> {..<e}) = range_total l2 + card (covered s2 \<inter> {..<e})"
                using rok2 by (simp add: card_Un_disjoint covered_card ranges_ok_append)
              then show ?thesis using C 2(3) by simp
            qed
            finally show ?thesis by simp
          qed
        qed
      qed
    qed
  qed
  then show "is_count m s e \<le> card (indices m \<inter> {s..<e})"
    and "\<not> straddles m e \<Longrightarrow> is_count m s e = card (indices m \<inter> {s..<e})"
    and "snd (is_find m s) = 0 \<Longrightarrow> s \<le> fst (deref m (is_find m s)) \<Longrightarrow>
      is_count m s e = card (indices m \<inter> {s..<e})" by (simp_all add: C_def)
qed

lemma find_zero: "crv_wf m \<Longrightarrow> is_find m 0 = it_begin m"
proof -
  assume wf: "crv_wf m"
  have "lo 0 (flat m) = []"
  proof (cases "flat m")
    case (Cons x xs)
    then have "0 < snd x" using wf ranges_ok_nonempty[of "flat m" x] by (simp add: crv_wf_def)
    with Cons show ?thesis by (simp add: lo_def)
  qed (simp add: lo_def)
  with located_begin[OF find_ok[OF wf, of 0]] show ?thesis by simp
qed

lemma is_count_zero: "crv_wf m \<Longrightarrow> is_count m 0 e = card (indices m \<inter> {..<e})"
  using is_count_cases(3)[of m 0 e] by (simp add: find_zero it_begin_def it_end_def lessThan_atLeast0)

lemma is_unshift_ok: "crv_wf m \<Longrightarrow> is_unshift m i = rank (indices m) i"
  by (simp add: is_unshift_def is_count_zero rank_def)

lemma is_unshift_shift: "crv_wf m \<Longrightarrow> is_unshift m (is_shift m i) = i"
  by (simp add: is_unshift_ok is_shift_ok)

lemma is_shift_unshift: "crv_wf m \<Longrightarrow> i \<notin> indices m \<Longrightarrow> is_shift m (is_unshift m i) = i"
  by (metis is_shift_ok is_unshift_ok rank_inj)

end
