(* ===== verification/IndexSetBulkLaws.thy ===== *)
theory IndexSetBulkLaws imports IndexSetBulk begin

text \<open>
  Correctness of the bulk operations.  Each merge loop pushes an explicit list of indexes into
  the builder; the builder turns a strictly increasing list into well-formed chunks.
\<close>

section \<open>The indexes in order\<close>

definition indexes_of :: "range list \<Rightarrow> nat list" where
  "indexes_of xs = concat (map (\<lambda>r. [fst r..<snd r]) xs)"

lemma indexes_of_simps [simp]:
  "indexes_of [] = []" "indexes_of (r # xs) = [fst r..<snd r] @ indexes_of xs"
  by (simp_all add: indexes_of_def)

lemma set_indexes_of [simp]: "set (indexes_of xs) = covered xs"
  by (induction xs) auto

lemma sorted_indexes_of: "ranges_ok xs \<Longrightarrow> sorted_wrt (<) (indexes_of xs)"
proof (induction xs)
  case (Cons r xs)
  then have "\<forall>x\<in>covered xs. snd r < x" by (fastforce simp: ranges_ok_Cons in_covered)
  with Cons show ?case by (auto simp: sorted_wrt_append ranges_ok_Cons)
qed simp

declare ii_collect.simps [simp del]

lemma ii_collect_ok:
  assumes "located m (fst p) l (x # r)" and "ranges_ok (l @ x # r)" and "fst x + snd p < snd x"
  shows "ii_collect m p = [fst x + snd p..<snd x] @ indexes_of r"
  using assms
proof (induction m p arbitrary: l x r rule: ii_collect.induct)
  case (1 m p)
  note d = located_deref[OF 1(2)]
  have ne: "\<not> at_end m (fst p)" using located_at_end[OF 1(2)] by simp
  have hd: "ii_collect m p = (fst x + snd p) # ii_collect m (ii_next m p)"
    using ne d by (subst ii_collect.simps) (simp add: ii_deref_def)
  show ?case
  proof (cases "fst x + snd p + 1 < snd x")
    case True
    then have n: "ii_next m p = (fst p, snd p + 1)" using d by (simp add: ii_next_def)
    have "ii_collect m (ii_next m p) = [fst x + (snd p + 1)..<snd x] @ indexes_of r"
      using 1(1)[OF ne, unfolded n fst_conv snd_conv, OF 1(2,3)] True by (simp add: n)
    with hd 1(4) show ?thesis by (simp add: upt_conv_Cons)
  next
    case False
    then have n: "ii_next m p = (it_next m (fst p), 0)" and last: "snd x = Suc (fst x + snd p)"
      using d 1(4) by (auto simp: ii_next_def)
    note nx = located_next[OF 1(2)]
    have "ii_collect m (ii_next m p) = indexes_of r"
    proof (cases r)
      case Nil
      then have "at_end m (it_next m (fst p))" using located_at_end[OF nx] by simp
      with n Nil show ?thesis by (subst ii_collect.simps) simp
    next
      case (Cons y s)
      have "ii_collect m (it_next m (fst p), 0) = [fst y + 0..<snd y] @ indexes_of s"
        using 1(1)[OF ne, unfolded n fst_conv snd_conv, of "l @ [x]" y s] nx 1(3) Cons
        by (simp add: ranges_ok_iff)
      with n Cons show ?thesis by simp
    qed
    with hd last show ?thesis by simp
  qed
qed

lemma as_indexes_eq: "crv_wf m \<Longrightarrow> as_indexes m = indexes_of (flat m)"
proof -
  assume wf: "crv_wf m"
  then have l: "located m (it_begin m) [] (flat m)" by (simp add: crv_wf_def located_it_begin)
  show ?thesis
  proof (cases "flat m")
    case Nil
    with located_at_end[OF l] show ?thesis by (simp add: as_indexes_def ii_collect.simps)
  next
    case (Cons x r)
    moreover have "ranges_ok (x # r)" using wf Cons by (simp add: crv_wf_def)
    ultimately show ?thesis
      using ii_collect_ok[of m "(it_begin m, 0)" "[]" x r] l
      by (simp add: as_indexes_def ranges_ok_Cons)
  qed
qed

lemma as_indexes_ok:
  "crv_wf m \<Longrightarrow> set (as_indexes m) = indices m" "crv_wf m \<Longrightarrow> sorted_wrt (<) (as_indexes m)"
  by (simp_all add: as_indexes_eq indices_def sorted_indexes_of crv_wf_def)

lemma as_indexes_Nil [simp]: "as_indexes [] = []"
  by (simp add: as_indexes_eq)

section \<open>The builder\<close>

definition merge_push :: "range list \<Rightarrow> range \<Rightarrow> range list" where
  "merge_push xs r =
     (if xs \<noteq> [] \<and> snd (last xs) = fst r then butlast xs @ [(fst (last xs), snd r)] else xs @ [r])"

lemma merge_push_ok:
  assumes "ranges_ok xs" and "fst r < snd r" and "\<forall>x\<in>covered xs. x < fst r"
  shows "ranges_ok (merge_push xs r)" and "covered (merge_push xs r) = covered xs \<union> {fst r..<snd r}"
    and "length (merge_push xs r) \<le> Suc (length xs)"
proof -
  show "length (merge_push xs r) \<le> Suc (length xs)" by (simp add: merge_push_def)
  have "ranges_ok (merge_push xs r) \<and> covered (merge_push xs r) = covered xs \<union> {fst r..<snd r}"
  proof (cases xs rule: rev_cases)
    case (snoc ys y)
    have y: "fst y < snd y" using assms(1) snoc by (simp add: ranges_ok_append)
    then have "snd y - 1 \<in> covered xs" using snoc by auto
    with assms(3) y have le: "snd y \<le> fst r" by fastforce
    have ys: "ranges_ok ys" "\<forall>q\<in>set ys. snd q < fst y" using assms(1) snoc by (simp_all add: ranges_ok_append)
    show ?thesis
    proof (cases "snd y = fst r")
      case True
      have "{fst y..<snd r} = {fst y..<snd y} \<union> {fst r..<snd r}" using True y assms(2) by auto
      then show ?thesis using True ys y assms(2) snoc by (auto simp: merge_push_def ranges_ok_append)
    next
      case False
      then have "snd y < fst r" using le by simp
      moreover have "snd q < fst r" if "q \<in> set ys" for q
        using ys(2) that y le by (meson less_le_trans less_trans)
      ultimately show ?thesis using False ys y assms(2) snoc by (auto simp: merge_push_def ranges_ok_iff)
    qed
  qed (use assms in \<open>simp add: merge_push_def\<close>)
  then show "ranges_ok (merge_push xs r)" and "covered (merge_push xs r) = covered xs \<union> {fst r..<snd r}"
    by auto
qed

definition chunk_fine :: "bool \<Rightarrow> chunk \<Rightarrow> bool" where
  "chunk_fine good c \<longleftrightarrow>
     data c \<noteq> [] \<and> length (data c) \<le> max_size \<and> chunk_begin c = fst (hd (data c)) \<and>
     (good \<longrightarrow> chunk_count c = range_total (data c))"

definition builder_rep :: "bool \<Rightarrow> builder \<Rightarrow> range list \<Rightarrow> bool" where
  "builder_rep good b xs \<longleftrightarrow> (\<exists>full cur rest.
     b_data b = full @ cur # rest \<and> b_outer_pos b = length full \<and>
     (\<forall>c\<in>set full. chunk_fine good c \<and> chunk_end c = snd (last (data c)) \<and> length (data c) = max_size) \<and>
     (if data cur = [] then full = [] else chunk_fine good cur) \<and>
     (\<forall>c\<in>set rest. data c = []) \<and> xs = flat full @ data cur)"

lemma builder_new_rep: "builder_rep good (builder_new m) []"
proof -
  let ?n = "sum_list (map (\<lambda>c. length (data c)) m) div max_size"
  have "b_data (builder_new m) = [] @ empty_chunk # replicate ?n empty_chunk"
    "b_outer_pos (builder_new m) = length []"
    by (simp_all add: builder_new_def Let_def)
  then show ?thesis unfolding builder_rep_def
    by - (rule exI[of _ "[]"], rule exI[of _ empty_chunk], rule exI[of _ "replicate ?n empty_chunk"],
        auto simp: empty_chunk_def)
qed

lemma builder_new_length: "length (b_data (builder_new m)) = length (flat m) div max_size + 1"
  by (simp add: builder_new_def Let_def length_flat comp_def)

lemma range_total_merge:
  "xs \<noteq> [] \<Longrightarrow> snd (last xs) = fst r \<Longrightarrow> fst (last xs) \<le> snd (last xs) \<Longrightarrow> fst r \<le> snd r \<Longrightarrow>
     range_total (butlast xs @ [(fst (last xs), snd r)]) = range_total xs + range_len r"
  by (cases xs rule: rev_cases) (auto simp: range_len_def)

lemma length_full: "\<forall>c\<in>set full. length (data c) = k \<Longrightarrow> length (flat full) = k * length full"
  by (induction full) auto

lemma builder_push_range_rep:
  assumes "builder_rep good b xs" and "fst r < snd r" and "ranges_ok xs"
    and "good \<Longrightarrow> range_len r = 1 \<or> length xs < max_size * length (b_data b)"
  shows "builder_rep good (builder_push_range b r) (merge_push xs r)"
    and "length (b_data b) \<le> length (b_data (builder_push_range b r))"
proof -
  obtain full cur rest where b: "b_data b = full @ cur # rest" "b_outer_pos b = length full"
    and full: "\<forall>c\<in>set full. chunk_fine good c \<and> chunk_end c = snd (last (data c)) \<and> length (data c) = max_size"
    and cur: "if data cur = [] then full = [] else chunk_fine good cur"
    and rest: "\<forall>c\<in>set rest. data c = []" and xs: "xs = flat full @ data cur"
    using assms(1) unfolding builder_rep_def by blast
  have beq: "b = \<lparr>b_data = full @ cur # rest, b_outer_pos = length full\<rparr>" using b by simp
  show "length (b_data b) \<le> length (b_data (builder_push_range b r))"
    by (simp add: builder_push_range_def Let_def beq)
  have rep: "builder_rep good (builder_push_range b r) (merge_push xs r)"
    if "builder_push_range b r = \<lparr>b_data = full @ c # rest, b_outer_pos = length full\<rparr>"
    "data c \<noteq> []" "chunk_fine good c" "merge_push xs r = flat full @ data c" for c
    using that full rest unfolding builder_rep_def
    by - (rule exI[of _ full], rule exI[of _ c], rule exI[of _ rest], simp)
  show "builder_rep good (builder_push_range b r) (merge_push xs r)"
  proof (cases "data cur = []")
    case True
    then show ?thesis using cur xs max_size_pos
      by (intro rep[of "cur\<lparr>data := [r], chunk_count := snd r - fst r, chunk_begin := fst r\<rparr>"])
        (auto simp: builder_push_range_def Let_def beq merge_push_def chunk_fine_def range_len_def)
  next
    case ne: False
    then have cf: "chunk_fine good cur" using cur by simp
    have lx: "last xs = last (data cur)" "butlast xs = flat full @ butlast (data cur)" "xs \<noteq> []"
      using xs ne by (simp_all add: butlast_append)
    have "fst (last xs) < snd (last xs)" using assms(3) lx(3) ranges_ok_nonempty last_in_set by blast
    then have lok: "fst (last (data cur)) \<le> snd (last (data cur))" using lx(1) by simp
    show ?thesis
    proof (cases "fst r = snd (last (data cur))")
      case True
      let ?d = "butlast (data cur) @ [(fst (last (data cur)), snd r)]"
      have "length ?d = length (data cur)" using ne by simp
      moreover have "fst (hd ?d) = fst (hd (data cur))"
        using ne by (cases "data cur") auto
      moreover have "range_total ?d = range_total (data cur) + (snd r - fst r)"
        using range_total_merge[OF ne True[symmetric] lok] assms(2) by (simp add: range_len_def)
      ultimately show ?thesis using cf ne True lx
        by (intro rep[of "cur\<lparr>data := ?d, chunk_count := chunk_count cur + (snd r - fst r)\<rparr>"])
          (auto simp: builder_push_range_def Let_def beq merge_push_def chunk_fine_def)
    next
      case nomerge: False
      then have mp: "merge_push xs r = xs @ [r]" using lx by (auto simp: merge_push_def)
      show ?thesis
      proof (cases "length (data cur) < max_size")
        case True
        then show ?thesis using cf ne nomerge mp xs
          by (intro rep[of "cur\<lparr>data := data cur @ [r], chunk_count := chunk_count cur + (snd r - fst r)\<rparr>"])
            (auto simp: builder_push_range_def Let_def beq chunk_fine_def range_len_def)
      next
        case False
        then have max: "length (data cur) = max_size" using cf by (simp add: chunk_fine_def)
        let ?cur = "cur\<lparr>chunk_end := snd (last (data cur))\<rparr>"
        have full': "\<forall>c\<in>set (full @ [?cur]). chunk_fine good c \<and> chunk_end c = snd (last (data c)) \<and>
            length (data c) = max_size"
          using full cf max by (auto simp: chunk_fine_def)
        have fl: "flat (full @ [?cur]) = xs" using xs by simp
        show ?thesis
        proof (cases rest)
          case Nil
          have "length xs = max_size * length (b_data b)"
            using xs b(1) Nil length_full[of full max_size] full max by simp
          then have one: "good \<Longrightarrow> range_len r = 1" using assms(4) by auto
          let ?new = "\<lparr>data = [r], chunk_begin = fst r, chunk_end = 0, chunk_count = 1\<rparr>"
          have "builder_push_range b r = \<lparr>b_data = (full @ [?cur]) @ ?new # [], b_outer_pos = length (full @ [?cur])\<rparr>"
            using ne nomerge False Nil by (simp add: builder_push_range_def Let_def beq)
          moreover have "chunk_fine good ?new" using one max_size_pos by (auto simp: chunk_fine_def)
          ultimately show ?thesis using full' fl mp unfolding builder_rep_def
            by - (rule exI[of _ "full @ [?cur]"], rule exI[of _ ?new], rule exI[of _ "[]"], simp)
        next
          case (Cons n rest')
          let ?new = "n\<lparr>data := data n @ [r], chunk_begin := fst r, chunk_count := snd r - fst r\<rparr>"
          have "builder_push_range b r = \<lparr>b_data = (full @ [?cur]) @ ?new # rest', b_outer_pos = length (full @ [?cur])\<rparr>"
            using ne nomerge False Cons
            by (simp add: builder_push_range_def Let_def beq list_update_append nth_append)
          moreover have "chunk_fine good ?new" "data ?new = [r]"
            using rest Cons max_size_pos by (auto simp: chunk_fine_def range_len_def)
          ultimately show ?thesis using full' fl mp rest Cons unfolding builder_rep_def
            by - (rule exI[of _ "full @ [?cur]"], rule exI[of _ ?new], rule exI[of _ "rest'"], simp)
        qed
      qed
    qed
  qed
qed

lemma builder_finalize_ok:
  assumes "builder_rep good b xs"
  shows "flat (builder_finalize b) = xs" and "good \<Longrightarrow> chunks_ok (builder_finalize b)"
proof -
  obtain full cur rest where b: "b_data b = full @ cur # rest" "b_outer_pos b = length full"
    and full: "\<forall>c\<in>set full. chunk_fine good c \<and> chunk_end c = snd (last (data c)) \<and> length (data c) = max_size"
    and cur: "if data cur = [] then full = [] else chunk_fine good cur"
    and xs: "xs = flat full @ data cur"
    using assms unfolding builder_rep_def by blast
  have fin: "builder_finalize b = (if data cur = [] then [] else full @ [cur\<lparr>chunk_end := snd (last (data cur))\<rparr>])"
    using b cur by (auto simp: builder_finalize_def Let_def butlast_append)
  then show "flat (builder_finalize b) = xs" using xs cur by auto
  show "chunks_ok (builder_finalize b)" if good
    using that full cur by (auto simp: fin chunks_ok_def chunk_fine_def chunk_ok_def)
qed

section \<open>Pushing a strictly increasing list of indexes\<close>

lemma foldl_push_ok:
  assumes "builder_rep good b xs" and "ranges_ok xs" and "sorted_wrt (<) js"
    and "\<forall>x\<in>covered xs. \<forall>j\<in>set js. x < j"
  shows "\<exists>ys. builder_rep good (foldl builder_push b js) ys \<and> ranges_ok ys \<and>
    covered ys = covered xs \<union> set js"
  using assms
proof (induction js arbitrary: b xs)
  case (Cons j js)
  have m: "ranges_ok (merge_push xs (j, j + 1))" "covered (merge_push xs (j, j + 1)) = covered xs \<union> {j}"
    using merge_push_ok[OF Cons.prems(2), of "(j, j + 1)"] Cons.prems(4) by auto
  have "builder_rep good (builder_push b j) (merge_push xs (j, j + 1))"
    using builder_push_range_rep(1)[OF Cons.prems(1) _ Cons.prems(2), of "(j, j + 1)"]
    by (simp add: builder_push_def range_len_def)
  from Cons.IH[OF this m(1)] m(2) Cons.prems(3,4) show ?case by auto
qed auto

lemma build_ok:
  assumes "sorted_wrt (<) js"
  shows "crv_wf (builder_finalize (foldl builder_push (builder_new m) js))"
    and "indices (builder_finalize (foldl builder_push (builder_new m) js)) = set js"
proof -
  obtain ys where "builder_rep True (foldl builder_push (builder_new m) js) ys" "ranges_ok ys"
    "covered ys = set js"
    using foldl_push_ok[OF builder_new_rep, of js True m] assms by auto
  with builder_finalize_ok[OF this(1)]
  show "crv_wf (builder_finalize (foldl builder_push (builder_new m) js))"
    and "indices (builder_finalize (foldl builder_push (builder_new m) js)) = set js"
    by (simp_all add: crv_wf_def indices_def)
qed

section \<open>Making room for and closing up many positions\<close>

text \<open>
  \<open>spread P S\<close> is where the elements of \<open>S\<close> end up when the positions \<open>P\<close> (given in
  the final numbering) are inserted, \<open>squeeze P S\<close> where they end up when \<open>P\<close> is
  deleted.
\<close>

definition spread :: "nat set \<Rightarrow> nat set \<Rightarrow> nat set" where
  "spread P S = {j. j \<notin> P \<and> rank P j \<in> S}"

definition squeeze :: "nat set \<Rightarrow> nat set \<Rightarrow> nat set" where
  "squeeze P S = rank P ` (S - P)"

lemma squeeze_spread: "finite P \<Longrightarrow> S \<subseteq> range (rank P) \<Longrightarrow> squeeze P (spread P S) \<subseteq> S"
  by (auto simp: squeeze_def spread_def)

lemma spread_squeeze: "spread P (squeeze P S) = S - P"
  by (auto simp: squeeze_def spread_def dest: rank_inj)

lemma spread_empty [simp]: "spread {} S = S" "spread P {} = {}"
  by (auto simp: spread_def rank_def)

lemma squeeze_empty [simp]: "squeeze {} S = S" "squeeze P {} = {}"
  by (auto simp: squeeze_def rank_def)

fun slot :: "nat \<Rightarrow> nat list \<Rightarrow> nat \<Rightarrow> nat" where
  "slot k [] x = x + k"
| "slot k (y # ys) x = (if x + k < y then x + k else slot (k + 1) ys x)"

lemma slot_ge: "x + k \<le> slot k ys x"
proof (induction ys arbitrary: k)
  case (Cons y ys)
  show ?case using Cons[of "k + 1"] by simp
qed simp

lemma slot_free:
  assumes "sorted_wrt (<) (as @ ys)" and "\<forall>y\<in>set as. y < x + length as"
  shows "slot (length as) ys x \<notin> set (as @ ys) \<and> rank (set (as @ ys)) (slot (length as) ys x) = x"
  using assms
proof (induction ys arbitrary: as)
  case Nil
  have "set as \<inter> {..<x + length as} = set as" using Nil(2) by auto
  moreover have "card (set as) = length as"
    using Nil(1) by (simp add: distinct_card strict_sorted_iff)
  ultimately show ?case using Nil by (auto simp: rank_def)
next
  case (Cons y ys)
  show ?case
  proof (cases "x + length as < y")
    case True
    have s: "\<forall>z\<in>set (y # ys). x + length as < z"
      using Cons.prems(1) True by (auto simp: sorted_wrt_append)
    then have "set (as @ y # ys) \<inter> {..<x + length as} = set as" using Cons.prems(2) by auto
    moreover have "card (set as) = length as"
      using Cons.prems(1) by (simp add: distinct_card strict_sorted_iff sorted_wrt_append)
    ultimately show ?thesis using True s Cons.prems(2) by (auto simp: rank_def)
  next
    case False
    then have "\<forall>z\<in>set (as @ [y]). z < x + length (as @ [y])" using Cons.prems(2) by auto
    with Cons.IH[of "as @ [y]"] Cons.prems(1) False show ?thesis by simp
  qed
qed

lemma spread_slot: "sorted_wrt (<) ys \<Longrightarrow> spread (set ys) S = slot 0 ys ` S"
proof -
  assume "sorted_wrt (<) ys"
  then have f: "slot 0 ys x \<notin> set ys" "rank (set ys) (slot 0 ys x) = x" for x
    using slot_free[of "[]" ys x] by simp_all
  have "j \<in> slot 0 ys ` S" if "j \<notin> set ys" "rank (set ys) j \<in> S" for j
    using that f[of "rank (set ys) j"] rank_inj by (metis imageI)
  with f show ?thesis by (auto simp: spread_def)
qed

text \<open>The lists of indexes the loops push.\<close>

fun insert_out :: "nat \<Rightarrow> nat list \<Rightarrow> nat list \<Rightarrow> nat list" where
  "insert_out k (x # xs) (y # ys) =
     (if x + k < y then (x + k) # insert_out k xs (y # ys) else y # insert_out (k + 1) (x # xs) ys)"
| "insert_out k (x # xs) [] = (x + k) # insert_out k xs []"
| "insert_out k [] ys = ys"

fun shift_out :: "nat \<Rightarrow> nat list \<Rightarrow> nat list \<Rightarrow> nat list" where
  "shift_out k (x # xs) (y # ys) =
     (if x + k < y then (x + k) # shift_out k xs (y # ys) else shift_out (k + 1) (x # xs) ys)"
| "shift_out k (x # xs) [] = (x + k) # shift_out k xs []"
| "shift_out k [] ys = []"

fun erase_out :: "nat \<Rightarrow> nat list \<Rightarrow> nat list \<Rightarrow> nat list" where
  "erase_out k (x # xs) (y # ys) =
     (if x < y then (x - k) # erase_out k xs (y # ys)
      else if x = y then erase_out (k + 1) xs ys else erase_out (k + 1) (x # xs) ys)"
| "erase_out k (x # xs) [] = (x - k) # erase_out k xs []"
| "erase_out k [] ys = []"

lemma insert_loop_out: "insert_loop k xs ys b = foldl builder_push b (insert_out k xs ys)"
proof (induction k xs ys b rule: insert_loop.induct)
  case (3 k y ys b)
  then show ?case by (cases ys) simp_all
qed simp_all

lemma shift_loop_out: "shift_loop k xs ys b = foldl builder_push b (shift_out k xs ys)"
  by (induction k xs ys b rule: shift_loop.induct) simp_all

lemma erase_loop_out: "erase_loop k xs ys b = foldl builder_push b (erase_out k xs ys)"
  by (induction k xs ys b rule: erase_loop.induct) simp_all

lemma slot_cons_ge: "\<not> x + k < y \<Longrightarrow> x \<le> x' \<Longrightarrow> slot k (y # ys) x' = slot (k + 1) ys x'"
  by simp

lemma insert_out_ok:
  assumes "sorted_wrt (<) xs" and "sorted_wrt (<) ys"
  shows "set (insert_out k xs ys) = set ys \<union> slot k ys ` set xs" and "sorted_wrt (<) (insert_out k xs ys)"
proof -
  have "set (insert_out k xs ys) = set ys \<union> slot k ys ` set xs \<and> sorted_wrt (<) (insert_out k xs ys)"
    using assms
  proof (induction k xs ys rule: insert_out.induct)
    case (1 k x xs y ys)
    show ?case
    proof (cases "x + k < y")
      case True
      have "x + k < slot k (y # ys) x'" if "x' \<in> set xs" for x'
        using 1(3) that slot_ge[of x' k "y # ys"] by auto
      with True 1(1)[OF True] 1(3,4) show ?thesis by fastforce
    next
      case False
      have "slot k (y # ys) x' = slot (k + 1) ys x'" if "x' \<in> set (x # xs)" for x'
        using False 1(3) that by (intro slot_cons_ge[of x]) auto
      then have im: "slot k (y # ys) ` set (x # xs) = slot (k + 1) ys ` set (x # xs)" by simp
      have gt: "y < slot (k + 1) ys x'" if "x' \<in> set (x # xs)" for x'
        using False 1(3) that slot_ge[of x' "k + 1" ys] by auto
      show ?thesis using 1(2)[OF False 1(3)] 1(4) gt False unfolding im by auto
    qed
  qed auto
  then show "set (insert_out k xs ys) = set ys \<union> slot k ys ` set xs"
    and "sorted_wrt (<) (insert_out k xs ys)" by simp_all
qed

lemma shift_out_ok:
  assumes "sorted_wrt (<) xs" and "sorted_wrt (<) ys"
  shows "set (shift_out k xs ys) = slot k ys ` set xs" and "sorted_wrt (<) (shift_out k xs ys)"
proof -
  have "set (shift_out k xs ys) = slot k ys ` set xs \<and> sorted_wrt (<) (shift_out k xs ys)"
    using assms
  proof (induction k xs ys rule: shift_out.induct)
    case (1 k x xs y ys)
    show ?case
    proof (cases "x + k < y")
      case True
      have "x + k < slot k (y # ys) x'" if "x' \<in> set xs" for x'
        using 1(3) that slot_ge[of x' k "y # ys"] by auto
      with True 1(1)[OF True] 1(3,4) show ?thesis by fastforce
    next
      case False
      have "slot k (y # ys) x' = slot (k + 1) ys x'" if "x' \<in> set (x # xs)" for x'
        using False 1(3) that by (intro slot_cons_ge[of x]) auto
      then have im: "slot k (y # ys) ` set (x # xs) = slot (k + 1) ys ` set (x # xs)" by simp
      show ?thesis using 1(2)[OF False 1(3)] 1(4) False unfolding im by auto
    qed
  qed auto
  then show "set (shift_out k xs ys) = slot k ys ` set xs" and "sorted_wrt (<) (shift_out k xs ys)"
    by simp_all
qed

lemma rank_consumed:
  assumes "sorted_wrt (<) (as @ ys)" and "\<forall>y\<in>set as. y < x" and "\<forall>y\<in>set ys. x \<le> y"
  shows "rank (set (as @ ys)) x = x - length as"
proof -
  have "set (as @ ys) \<inter> {..<x} = set as" using assms(2,3) by fastforce
  moreover have "card (set as) = length as"
    using assms(1) by (simp add: distinct_card strict_sorted_iff sorted_wrt_append)
  ultimately show ?thesis by (simp add: rank_def)
qed

lemma erase_out_ok:
  assumes "sorted_wrt (<) xs" and "sorted_wrt (<) (as @ ys)" and "\<forall>y\<in>set as. \<forall>x\<in>set xs. y < x"
  shows "erase_out (length as) xs ys = map (rank (set (as @ ys))) (filter (\<lambda>x. x \<notin> set (as @ ys)) xs)"
  using assms
proof (induction xs arbitrary: as ys)
  case (Cons x xs)
  note outer = Cons
  show ?case using Cons.prems
  proof (induction ys arbitrary: as)
    case Nil
    have "x \<notin> set as" using Nil by auto
    then show ?case using outer(1)[of as "[]"] Nil rank_consumed[of as "[]" x] by auto
  next
    case inner: (Cons y ys)
    consider "x < y" | "x = y" | "y < x" by linarith
    then show ?case
    proof cases
      case 1
      then have "\<forall>z\<in>set (y # ys). x < z" using inner(3) by (auto simp: sorted_wrt_append)
      moreover have "x \<notin> set as" using inner(4) by auto
      moreover have "rank (set (as @ y # ys)) x = x - length as"
        using calculation inner(3,4) by (intro rank_consumed) auto
      ultimately show ?thesis using 1 outer(1)[of as "y # ys"] inner(2-4) by auto
    next
      case 2
      then show ?thesis using outer(1)[of "as @ [y]" ys] inner(2-4) by auto
    next
      case 3
      moreover have "\<forall>z\<in>set xs. y < z" using 3 inner(2) by auto
      ultimately show ?thesis using inner(1)[of "as @ [y]"] inner(2-4) by auto
    qed
  qed
qed simp

lemma sorted_map_rank: "sorted_wrt (<) xs \<Longrightarrow> \<forall>x\<in>set xs. x \<notin> P \<Longrightarrow> sorted_wrt (<) (map (rank P) xs)"
  by (induction xs) (auto intro: rank_strict)

section \<open>The merge loops\<close>

text \<open>
  The representation invariant holds for a set whose chunks are empty exactly when the set is;
  so the shortcuts for empty operands agree with the loops.
\<close>

lemma is_insert_set_ok:
  assumes "crv_wf m" and "crv_wf p"
  shows "crv_wf (is_insert_set m p)"
    and "indices (is_insert_set m p) = indices p \<union> spread (indices p) (indices m)"
proof -
  note m = as_indexes_ok[OF assms(1)] and p = as_indexes_ok[OF assms(2)]
  show "crv_wf (is_insert_set m p)"
    using assms build_ok(1)[OF insert_out_ok(2)[OF m(2) p(2)]]
    by (simp add: is_insert_set_def insert_loop_out)
  show "indices (is_insert_set m p) = indices p \<union> spread (indices p) (indices m)"
    using build_ok(2)[OF insert_out_ok(2)[OF m(2) p(2)]] insert_out_ok(1)[OF m(2) p(2)]
      spread_slot[OF p(2)] m(1) p(1)
    by (simp add: is_insert_set_def insert_loop_out)
qed

lemma spread_above:
  assumes "\<forall>x\<in>S. \<forall>v\<in>V. x < v"
  shows "spread V S = S"
proof (cases "S = {}")
  case False
  have r: "rank V x = x" if "x \<in> S" for x
  proof -
    have "V \<inter> {..<x} = {}" using assms that by force
    then show ?thesis by (simp add: rank_def)
  qed
  have "j \<in> S" if "j \<notin> V" "rank V j \<in> S" for j
    using that assms r[of "rank V j"] rank_inj[of j V "rank V j"] by (metis less_irrefl)
  with r assms show ?thesis by (auto simp: spread_def)
qed simp

lemma chunk_ends_bound:
  assumes "crv_wf m" and "m \<noteq> []"
  shows "\<forall>x\<in>indices m. x < chunk_end (last m)" and "\<forall>x\<in>indices m. chunk_begin (hd m) \<le> x"
proof -
  obtain c cs where m: "m = c # cs" using assms(2) by (cases m) auto
  then have c: "chunk_ok c" "chunk_ok (last m)" using assms by (auto simp: crv_wf_def chunks_ok_def)
  have ok: "ranges_ok (flat m)" using assms(1) by (simp add: crv_wf_def)
  have ne: "data c \<noteq> []" "data (last m) \<noteq> []" using c chunk_ok_nonempty by auto
  have "fst (hd (flat m)) = chunk_begin c" using m c(1) ne by (simp add: chunk_ok_def)
  then show "\<forall>x\<in>indices m. chunk_begin (hd m) \<le> x"
    using sorted_bounds_hd[OF ok] m by (fastforce simp: indices_def in_covered)
  have "flat m = flat (butlast m) @ data (last m)"
    using assms(2) by (metis append_butlast_last_id append_Nil2 flat_simps)
  then have "last (flat m) = last (data (last m))" "flat m \<noteq> []" using ne by simp_all
  then have e: "snd (last (flat m)) = chunk_end (last m)" using c(2) by (simp add: chunk_ok_def)
  have "snd q \<le> snd (last (flat m))" if "q \<in> set (flat m)" for q
    using sorted_bounds(2)[OF ok that] .
  with e show "\<forall>x\<in>indices m. x < chunk_end (last m)"
    by (auto simp: indices_def in_covered) (meson less_le_trans)
qed

lemma is_shift_for_insert_set_ok:
  assumes "crv_wf m" and "crv_wf v"
  shows "crv_wf (is_shift_for_insert_set m v)"
    and "indices (is_shift_for_insert_set m v) = spread (indices v) (indices m)"
proof -
  note m = as_indexes_ok[OF assms(1)] and v = as_indexes_ok[OF assms(2)]
  show "crv_wf (is_shift_for_insert_set m v)"
    using assms build_ok(1)[OF shift_out_ok(2)[OF m(2) v(2)]]
    by (simp add: is_shift_for_insert_set_def shift_loop_out)
  have "spread (indices v) (indices m) = indices m"
    if "m \<noteq> []" "v \<noteq> []" "chunk_end (last m) \<le> chunk_begin (hd v)"
    using that chunk_ends_bound[OF assms(1)] chunk_ends_bound[OF assms(2)]
    by (intro spread_above) (meson less_le_trans order_trans)
  then show "indices (is_shift_for_insert_set m v) = spread (indices v) (indices m)"
    using build_ok(2)[OF shift_out_ok(2)[OF m(2) v(2)]] shift_out_ok(1)[OF m(2) v(2)]
      spread_slot[OF v(2)] m(1) v(1)
    by (auto simp: is_shift_for_insert_set_def shift_loop_out)
qed

lemma is_erase_set_ok:
  assumes "crv_wf m" and "crv_wf p"
  shows "crv_wf (is_erase_set m p)" and "indices (is_erase_set m p) = squeeze (indices p) (indices m)"
proof -
  note m = as_indexes_ok[OF assms(1)] and p = as_indexes_ok[OF assms(2)]
  let ?out = "erase_out 0 (as_indexes m) (as_indexes p)"
  have out: "?out = map (rank (indices p)) (filter (\<lambda>x. x \<notin> indices p) (as_indexes m))"
    using erase_out_ok[of "as_indexes m" "[]" "as_indexes p"] m p by simp
  then have srt: "sorted_wrt (<) ?out" "set ?out = squeeze (indices p) (indices m)"
    using m by (auto simp: squeeze_def intro!: sorted_map_rank sorted_wrt_filter)
  show "crv_wf (is_erase_set m p)"
    using assms build_ok(1)[OF srt(1)] by (simp add: is_erase_set_def erase_loop_out)
  show "indices (is_erase_set m p) = squeeze (indices p) (indices m)"
    using build_ok(2)[OF srt(1)] srt(2) by (auto simp: is_erase_set_def erase_loop_out)
qed

section \<open>Union and difference\<close>

lemma holds_index_split:
  assumes "holds_index m it i" and "crv_wf m" and "i < j"
  shows "\<exists>l r. located m it l r \<and> (\<forall>q\<in>set l. snd q \<le> j)"
proof -
  obtain l x r where l: "located m it l (x # r)" "fst x \<le> i" using assms(1) by (auto simp: holds_index_def)
  then have "ranges_ok (l @ x # r)" using assms(2) by (simp add: located_wf)
  then have "\<forall>q\<in>set l. snd q < fst x" by (auto simp: ranges_ok_iff)
  with l assms(3) show ?thesis by (meson le_less_trans less_imp_le less_le_trans)
qed

lemma at_index_find_from:
  assumes "crv_wf m" and "located m it l r" and "\<forall>q\<in>set l. snd q \<le> i"
  shows "at_index m (is_find_from m i it) i"
proof (rule at_indexI[OF find_from_ok[OF assms]])
  show "ranges_ok (lo i (flat m) @ hi i (flat m))" using assms(1) by (simp add: crv_wf_def)
  show "\<forall>q\<in>set (lo i (flat m)). snd q \<le> i" by (auto dest: lo_le)
  show "hi i (flat m) = [] \<or> i < snd (hd (hi i (flat m)))"
    using assms(1) by (intro lo_hi_split) (simp add: crv_wf_def)
qed

lemma add_all_ok:
  assumes "crv_wf m" and "located m it l r" and "\<forall>j\<in>set js. \<forall>q\<in>set l. snd q \<le> j"
    and "sorted_wrt (<) js"
  shows "crv_wf (add_all m it js) \<and> indices (add_all m it js) = indices m \<union> set js"
  using assms
proof (induction js arbitrary: m it l r)
  case (Cons j js)
  obtain m' it' where a: "do_add m (is_find_from m j it) j = (m', it')"
    by (cases "do_add m (is_find_from m j it) j")
  have "at_index m (is_find_from m j it) j"
    using at_index_find_from[OF Cons.prems(1,2)] Cons.prems(3) by simp
  from do_add_ok[OF this a] have m': "crv_wf m'" "indices m' = insert j (indices m)" "holds_index m' it' j"
    by simp_all
  show ?case
  proof (cases js)
    case Nil
    with a m' show ?thesis by simp
  next
    case (Cons k ks)
    have "j < k" using Cons.prems(4) Cons by simp
    then obtain l' r' where l': "located m' it' l' r'" "\<forall>q\<in>set l'. snd q \<le> k"
      using holds_index_split[OF m'(3,1)] by blast
    have "\<forall>i\<in>set js. k \<le> i" using Cons.prems(4) Cons by auto
    then have "\<forall>i\<in>set js. \<forall>q\<in>set l'. snd q \<le> i" using l'(2) order_trans by blast
    then have "crv_wf (add_all m' it' js) \<and> indices (add_all m' it' js) = indices m' \<union> set js"
      using Cons.prems(4) by (intro Cons.IH[OF m'(1) l'(1)]) auto
    with a m'(2) show ?thesis by simp
  qed
qed simp

lemma is_add_set_ok:
  assumes "crv_wf m" and "crv_wf other"
  shows "crv_wf (is_add_set m other)" and "indices (is_add_set m other) = indices m \<union> indices other"
  using add_all_ok[OF assms(1) located_it_begin] as_indexes_ok[OF assms(2)] assms(1)
  by (auto simp: is_add_set_def crv_wf_def)

lemma remove_ranges_ok:
  assumes "crv_wf m" and "located m it l r" and "ranges_ok rs" and "rs \<noteq> [] \<Longrightarrow> \<forall>q\<in>set l. snd q \<le> fst (hd rs)"
  shows "crv_wf (remove_ranges m it rs) \<and> indices (remove_ranges m it rs) = indices m - covered rs"
  using assms
proof (induction rs arbitrary: m it l r)
  case (Cons x rs)
  have x: "fst x < snd x" "ranges_ok rs" "\<forall>q\<in>set rs. snd x < fst q"
    using Cons.prems(3) by (simp_all add: ranges_ok_Cons)
  obtain m' it' l' r' where d: "do_remove (remove_fuel m) m it (fst x) (snd x) = Some (m', it')"
    "crv_wf m'" "indices m' = indices m - {fst x..<snd x}" "located m' it' l' r'"
    "\<forall>q\<in>set l'. snd q \<le> snd x"
    using do_remove_ok[OF Cons.prems(1,2) _ x(1) remove_fuel_enough[OF Cons.prems(1)]] Cons.prems(4)
    by (metis list.distinct(1) list.sel(1))
  show ?case
  proof (cases "r' = []")
    case True
    have "indices m' = covered l'" using located_indices[OF d(4)] True by simp
    then have "\<forall>i\<in>indices m'. i < snd x" using d(5) by (fastforce simp: in_covered)
    then have "indices m' \<inter> covered rs = {}" using x(3) by (fastforce simp: in_covered)
    then show ?thesis using d located_at_end[OF d(4)] True by auto
  next
    case False
    have "rs \<noteq> [] \<Longrightarrow> \<forall>q\<in>set l'. snd q \<le> fst (hd rs)"
      using d(5) x(3) by (metis hd_in_set le_trans less_imp_le)
    from Cons.IH[OF d(2,4) x(2) this] show ?thesis using d located_at_end[OF d(4)] False by auto
  qed
qed simp

lemma is_remove_set_ok:
  assumes "crv_wf m" and "crv_wf v"
  shows "crv_wf (is_remove_set m v)" and "indices (is_remove_set m v) = indices m - indices v"
  using remove_ranges_ok[OF assms(1) located_it_begin, of "flat v"] assms
  by (auto simp: is_remove_set_def crv_wf_def indices_def)

end
