(* ===== verification/IndexSetShiftedBy.thy ===== *)
theory IndexSetShiftedBy imports IndexSetBulkLaws begin

text \<open>
  \<open>add_shifted_by\<close>: the values that are not in \<open>shifted_by\<close> are squeezed by it, spread
  over this set and added.  The copy of the remaining ranges goes through the builder's general
  \<open>push_back\<close>, which caches a wrong count when a range longer than one starts a chunk beyond
  the ones allocated up front; the cached counts are right as long as no such chunk is needed.
\<close>

lemma push_range_mono: "length (b_data b) \<le> length (b_data (builder_push_range b r))"
  by (simp add: builder_push_range_def Let_def)

lemma push_mono: "length (b_data b) \<le> length (b_data (foldl builder_push b js))"
proof (induction js arbitrary: b)
  case (Cons j js)
  show ?case using Cons[of "builder_push b j"] push_range_mono[of b "(j, j + 1)"]
    by (simp add: builder_push_def)
qed simp

lemma push_one:
  assumes "builder_rep good b xs" and "ranges_ok xs" and "\<forall>x\<in>covered xs. x < j"
  shows "builder_rep good (builder_push b j) (merge_push xs (j, j + 1))"
  using builder_push_range_rep(1)[OF assms(1) _ assms(2), of "(j, j + 1)"]
  by (simp add: builder_push_def range_len_def)

lemma merge_push_extend: "merge_push (merge_push xs (a, b)) (b, c) = merge_push xs (a, c)"
  by (simp add: merge_push_def)

lemma push_run:
  assumes "builder_rep good b xs" and "ranges_ok xs" and "\<forall>x\<in>covered xs. x < a" and "a < up"
  shows "builder_rep good (foldl builder_push b [a..<up]) (merge_push xs (a, up))"
  using assms(4)
proof (induction up)
  case (Suc n)
  show ?case
  proof (cases "a < n")
    case True
    note m = merge_push_ok[OF assms(2), of "(a, n)"]
    have "\<forall>x\<in>covered (merge_push xs (a, n)). x < n" using m(2) assms(3) True by auto
    from push_one[OF Suc.IH[OF True] m(1) this] show ?thesis
      using True assms(3) by (simp add: merge_push_extend)
  next
    case False
    with Suc.prems have "n = a" by simp
    with push_one[OF assms(1-3)] show ?thesis by simp
  qed
qed simp

lemma push_ranges_ok:
  assumes "builder_rep good b xs" and "ranges_ok xs" and "ranges_ok rs"
    and "\<forall>x\<in>covered xs. \<forall>r\<in>set rs. x < fst r"
    and "good \<Longrightarrow> length xs + length rs \<le> max_size * length (b_data b)"
  shows "\<exists>ys. builder_rep good (foldl builder_push_range b rs) ys \<and> ranges_ok ys \<and>
    covered ys = covered xs \<union> covered rs"
  using assms
proof (induction rs arbitrary: b xs)
  case (Cons r rs)
  have r: "fst r < snd r" "ranges_ok rs" "\<forall>q\<in>set rs. snd r < fst q"
    using Cons.prems(3) by (simp_all add: ranges_ok_Cons)
  note m = merge_push_ok[OF Cons.prems(2) r(1)]
  have rep: "builder_rep good (builder_push_range b r) (merge_push xs r)"
  proof (rule builder_push_range_rep(1)[OF Cons.prems(1) r(1) Cons.prems(2)])
    show "range_len r = 1 \<or> length xs < max_size * length (b_data b)" if good
      using Cons.prems(5)[OF that] by simp
  qed
  have "max_size * length (b_data b) \<le> max_size * length (b_data (builder_push_range b r))"
    using push_range_mono by (rule mult_le_mono2)
  moreover have "length (merge_push xs r) \<le> Suc (length xs)" using m(3) Cons.prems(4) by simp
  ultimately have "length (merge_push xs r) + length rs
      \<le> max_size * length (b_data (builder_push_range b r))" if good
    using Cons.prems(5)[OF that] list.size(4)[of r rs] by linarith
  moreover have "\<forall>x\<in>covered (merge_push xs r). \<forall>q\<in>set rs. x < fst q"
    using m(2) Cons.prems(4) r(3) by fastforce
  ultimately have "\<exists>ys. builder_rep good (foldl builder_push_range (builder_push_range b r) rs) ys \<and>
      ranges_ok ys \<and> covered ys = covered (merge_push xs r) \<union> covered rs"
    using Cons.IH[OF rep m(1) r(2)] Cons.prems(4) by auto
  then show ?case using m(2) Cons.prems(4) by (auto simp: Un_assoc)
qed auto

lemma push_old_ok:
  assumes "push_old old v ns os b = (old', os', b')"
    and "builder_rep good b xs" and "ranges_ok xs" and "ranges_ok old" and "os = range_total l"
    and "\<forall>x\<in>covered xs. \<forall>r\<in>set old. x < fst r" and "\<forall>q\<in>set l. snd q \<le> v - ns + os"
  shows "\<exists>xs' l2. old = l2 @ old' \<and> os' = range_total (l @ l2) \<and> builder_rep good b' xs' \<and>
    ranges_ok xs' \<and> covered xs' = covered xs \<union> covered l2 \<and> length xs' \<le> length xs + length l2 \<and>
    length (b_data b) \<le> length (b_data b') \<and> (\<forall>q\<in>set (l @ l2). snd q \<le> v - ns + os') \<and>
    (\<forall>r\<in>set old'. v - ns + os' < fst r)"
  using assms
proof (induction old v ns os b arbitrary: xs l rule: push_old.induct)
  case (1 v ns os b)
  then show ?case by (intro exI[of _ xs] exI[of _ "[]"]) auto
next
  case (2 r rs v ns os b)
  have r: "fst r < snd r" "ranges_ok rs" "\<forall>q\<in>set rs. snd r < fst q"
    using 2(5) by (simp_all add: ranges_ok_Cons)
  show ?case
  proof (cases "fst r \<le> v - ns + os")
    case False
    then have "\<forall>q\<in>set (r # rs). v - ns + os < fst q" using r by auto
    moreover have "old' = r # rs" "os' = os" "b' = b" using 2(2) False by simp_all
    ultimately show ?thesis
      using 2(3-8) by - (rule exI[of _ xs], rule exI[of _ "[]"], simp)
  next
    case True
    let ?b = "foldl builder_push b [fst r..<snd r]" and ?xs = "merge_push xs r"
    have below: "\<forall>x\<in>covered xs. x < fst r" using 2(7) by simp
    note m = merge_push_ok[OF 2(4) r(1) below]
    have rep: "builder_rep good ?b ?xs" using push_run[OF 2(3,4) below r(1)] by simp
    have "push_old rs v ns (os + (snd r - fst r)) ?b = (old', os', b')" using 2(2) True by simp
    moreover have "os + (snd r - fst r) = range_total (l @ [r])" using 2(6) by (simp add: range_len_def)
    moreover have "\<forall>x\<in>covered ?xs. \<forall>q\<in>set rs. x < fst q" using m(2) 2(7) r(3) by fastforce
    moreover have "\<forall>q\<in>set (l @ [r]). snd q \<le> v - ns + (os + (snd r - fst r))"
      using 2(8) True r(1) by fastforce
    ultimately obtain xs' l2 where "rs = l2 @ old'" "os' = range_total ((l @ [r]) @ l2)"
      "builder_rep good b' xs'" "ranges_ok xs'" "covered xs' = covered ?xs \<union> covered l2"
      "length xs' \<le> length ?xs + length l2" "length (b_data ?b) \<le> length (b_data b')"
      "\<forall>q\<in>set ((l @ [r]) @ l2). snd q \<le> v - ns + os'" "\<forall>q\<in>set old'. v - ns + os' < fst q"
      using 2(1)[OF True _ rep m(1) r(2), of "l @ [r]"] by blast
    note res = this
    have "r # rs = (r # l2) @ old'" "os' = range_total (l @ r # l2)" using res(1,2) by simp_all
    moreover have "covered xs' = covered xs \<union> covered (r # l2)" using res(5) m(2) by (simp add: Un_assoc)
    moreover have "length xs' \<le> length xs + length (r # l2)" using res(6) m(3) by simp
    moreover have "length (b_data b) \<le> length (b_data b')" using res(7) push_mono order_trans by blast
    moreover have "\<forall>q\<in>set (l @ r # l2). snd q \<le> v - ns + os'" using res(8) by simp
    ultimately show ?thesis using res(3,4,9) by blast
  qed
qed

lemma skip_shifted_ok:
  assumes "skip_shifted sh v ns su = (sh', ns', su')" and "ns = range_total c"
    and "su = (if c = [] then 0 else snd (last c))" and "\<forall>s\<in>set c. fst s \<le> v"
  shows "\<exists>c2. sh = c2 @ sh' \<and> ns' = range_total (c @ c2) \<and>
    su' = (if c @ c2 = [] then 0 else snd (last (c @ c2))) \<and> (\<forall>s\<in>set (c @ c2). fst s \<le> v) \<and>
    (sh' = [] \<or> v < fst (hd sh'))"
  using assms
proof (induction sh v ns su arbitrary: c rule: skip_shifted.induct)
  case (2 s ss v ns su)
  show ?case
  proof (cases "fst s \<le> v")
    case True
    have "\<exists>c2. ss = c2 @ sh' \<and> ns' = range_total ((c @ [s]) @ c2) \<and>
      su' = (if (c @ [s]) @ c2 = [] then 0 else snd (last ((c @ [s]) @ c2))) \<and>
      (\<forall>s\<in>set ((c @ [s]) @ c2). fst s \<le> v) \<and> (sh' = [] \<or> v < fst (hd sh'))"
      using True 2(2-5) by (intro 2(1)[OF True, of "c @ [s]"]) (auto simp: range_len_def)
    then obtain c2 where "ss = c2 @ sh' \<and> ns' = range_total ((c @ [s]) @ c2) \<and>
      su' = (if (c @ [s]) @ c2 = [] then 0 else snd (last ((c @ [s]) @ c2))) \<and>
      (\<forall>s\<in>set ((c @ [s]) @ c2). fst s \<le> v) \<and> (sh' = [] \<or> v < fst (hd sh'))"
      by blast
    then show ?thesis by - (rule exI[of _ "s # c2"], simp)
  qed (use 2 in auto)
qed auto

lemma shifted_member:
  assumes "ranges_ok (c @ sh)" and "\<forall>s\<in>set c. fst s \<le> v" and "sh = [] \<or> v < fst (hd sh)"
  shows "v \<in> covered (c @ sh) \<longleftrightarrow> v < (if c = [] then 0 else snd (last c))"
    and "v \<notin> covered (c @ sh) \<Longrightarrow> rank (covered (c @ sh)) v = v - range_total c"
proof -
  have sh: "\<forall>s\<in>set sh. v < fst s"
    using assms(1,3) sorted_bounds_hd[of sh] by (auto simp: ranges_ok_append intro: less_le_trans)
  then have nsh: "v \<notin> covered sh" by (fastforce simp: in_covered)
  show mem: "v \<in> covered (c @ sh) \<longleftrightarrow> v < (if c = [] then 0 else snd (last c))"
  proof (cases c rule: rev_cases)
    case (snoc c' s)
    have "snd q < fst s" if "q \<in> set c'" for q
      using that assms(1) snoc by (auto simp: ranges_ok_iff)
    then have "v \<notin> covered c'" using assms(2) snoc by (fastforce simp: in_covered)
    then show ?thesis using snoc nsh assms(2) by auto
  qed (use nsh in simp)
  assume "v \<notin> covered (c @ sh)"
  then have "\<forall>s\<in>set c. snd s \<le> v" using assms(2) by (fastforce simp: in_covered)
  then show "rank (covered (c @ sh)) v = v - range_total c"
    using covered_below_split(2)[OF assms(1)] assms(3) by (auto simp: rank_def)
qed

lemma spread_insert:
  "t \<notin> S \<Longrightarrow> rank S t = k \<Longrightarrow> spread S (insert k Y) = insert t (spread S Y)"
  by (auto simp: spread_def dest: rank_inj)

lemma squeeze_insert: "squeeze B (insert v X) = (if v \<in> B then squeeze B X else insert (rank B v) (squeeze B X))"
  by (auto simp: squeeze_def insert_Diff_if)

text \<open>One value: where it goes and that it is beyond everything pushed so far.\<close>

lemma target_ok:
  assumes "ranges_ok (l @ old)" and "\<forall>q\<in>set l. snd q \<le> k + range_total l"
    and "\<forall>r\<in>set old. k + range_total l < fst r"
  shows "k + range_total l \<notin> covered (l @ old)"
    and "rank (covered (l @ old)) (k + range_total l) = k"
proof -
  show "k + range_total l \<notin> covered (l @ old)" using assms(2,3) by (fastforce simp: in_covered)
  have "old = [] \<or> k + range_total l \<le> fst (hd old)" using assms(3) by (cases old) auto
  then show "rank (covered (l @ old)) (k + range_total l) = k"
    using covered_below_split(2)[OF assms(1,2)] by (simp add: rank_def)
qed

lemma rank_less: "rank S i < rank S j \<Longrightarrow> i < j"
  using rank_mono[of j i S] by (meson leD not_le)

lemma shifted_by_loop_ok:
  assumes "sorted_wrt (<) vs" and "ranges_ok (c @ sh)" and "ranges_ok (l @ old)"
    and "ns = range_total c" and "su = (if c = [] then 0 else snd (last c))"
    and "\<forall>v\<in>set vs. \<forall>s\<in>set c. fst s \<le> v" and "os = range_total l"
    and "builder_rep good b xs" and "ranges_ok xs" and "covered xs = covered l \<union> T"
    and "\<forall>v\<in>set vs. v \<notin> covered (c @ sh) \<longrightarrow>
      (\<forall>x\<in>T. rank (covered (l @ old)) x < rank (covered (c @ sh)) v) \<and>
      (\<forall>q\<in>set l. snd q \<le> rank (covered (c @ sh)) v + range_total l)"
    and "\<forall>x\<in>T. \<forall>r\<in>set old. x < fst r"
    and "good \<Longrightarrow> length xs + length vs + length old \<le> max_size * length (b_data b)"
  shows "\<exists>ys. builder_rep good (shifted_by_loop vs old sh ns su os b) ys \<and> ranges_ok ys \<and>
    covered ys = covered (l @ old) \<union> T \<union> spread (covered (l @ old)) (squeeze (covered (c @ sh)) (set vs))"
  using assms
proof (induction vs arbitrary: c sh l old ns su os b xs T)
  case Nil
  have "\<forall>x\<in>covered l. \<forall>r\<in>set old. x < fst r"
    using Nil(3) by (fastforce simp: in_covered ranges_ok_append)
  then have "\<forall>x\<in>covered xs. \<forall>r\<in>set old. x < fst r" using Nil(10,12) by blast
  from push_ranges_ok[OF Nil(8,9) _ this] Nil(3,10,13) show ?case by (auto simp: ranges_ok_append)
next
  case (Cons v vs)
  obtain sh' ns' su' where sk: "skip_shifted sh v ns su = (sh', ns', su')"
    by (cases "skip_shifted sh v ns su")
  obtain c2 where c2: "sh = c2 @ sh'" "ns' = range_total (c @ c2)"
    "su' = (if c @ c2 = [] then 0 else snd (last (c @ c2)))" "\<forall>s\<in>set (c @ c2). fst s \<le> v"
    "sh' = [] \<or> v < fst (hd sh')"
    using skip_shifted_ok[OF sk Cons.prems(4,5)] Cons.prems(6) by auto
  let ?B = "covered (c @ sh)" and ?S = "covered (l @ old)"
  have Beq: "(c @ c2) @ sh' = c @ sh" using c2(1) by simp
  have okB: "ranges_ok ((c @ c2) @ sh')" using Cons.prems(2) Beq by simp
  note mem = shifted_member[OF okB c2(4,5), unfolded Beq]
  have later: "\<forall>w\<in>set vs. v < w" and srt: "sorted_wrt (<) vs" using Cons.prems(1) by simp_all
  have cl: "\<forall>w\<in>set vs. \<forall>s\<in>set (c @ c2). fst s \<le> w" using c2(4) later by (meson less_imp_le order_trans)
  show ?case
  proof (cases "v < su'")
    case True
    then have vB: "v \<in> ?B" using mem(1) c2(3) by simp
    have "\<exists>ys. builder_rep good (shifted_by_loop vs old sh' ns' su' os b) ys \<and> ranges_ok ys \<and>
      covered ys = ?S \<union> T \<union> spread ?S (squeeze (covered ((c @ c2) @ sh')) (set vs))"
      using Cons.prems(11-13) Beq
      by (intro Cons.IH[OF srt okB Cons.prems(3) c2(2,3) cl Cons.prems(7-10)]) auto
    then show ?thesis unfolding Beq using True sk vB by (simp add: squeeze_insert del: covered_simps)
  next
    case False
    then have vB: "v \<notin> ?B" using mem(1) c2(3) by simp
    have rk: "v - ns' = rank ?B v" using mem(2)[OF vB] c2(2) by simp
    obtain old' os' b' where po: "push_old old v ns' os b = (old', os', b')"
      by (cases "push_old old v ns' os b")
    have okold: "ranges_ok old" using Cons.prems(3) by (simp add: ranges_ok_append)
    have "\<forall>x\<in>covered l. \<forall>r\<in>set old. x < fst r"
      using Cons.prems(3) by (fastforce simp: in_covered ranges_ok_append)
    then have xo: "\<forall>x\<in>covered xs. \<forall>r\<in>set old. x < fst r" using Cons.prems(10,12) by blast
    have "\<forall>q\<in>set l. snd q \<le> v - ns' + os" using Cons.prems(7,11) vB rk by simp
    from push_old_ok[OF po Cons.prems(8,9) okold Cons.prems(7) xo this]
    obtain xs' l2 where p: "old = l2 @ old'" "os' = range_total (l @ l2)" "builder_rep good b' xs'"
      "ranges_ok xs'" "covered xs' = covered xs \<union> covered l2" "length xs' \<le> length xs + length l2"
      "length (b_data b) \<le> length (b_data b')" "\<forall>q\<in>set (l @ l2). snd q \<le> rank ?B v + os'"
      "\<forall>r\<in>set old'. rank ?B v + os' < fst r"
      unfolding rk by blast
    let ?t = "rank ?B v + os'" and ?l = "l @ l2"
    have Seq: "?l @ old' = l @ old" using p(1) by simp
    have okS: "ranges_ok (?l @ old')" using Cons.prems(3) Seq by simp
    note t = target_ok[OF okS p(8)[unfolded p(2)] p(9)[unfolded p(2)], folded p(2), unfolded Seq]
    have Tt: "\<forall>x\<in>T. x < ?t" using Cons.prems(11) vB t(2) by (auto intro: rank_less[of ?S])
    have "\<forall>x\<in>covered (l @ l2). x < ?t" using p(8) by (meson in_covered less_le_trans)
    then have xt: "\<forall>x\<in>covered xs'. x < ?t" using Tt p(5) Cons.prems(10) by auto
    note m = merge_push_ok[OF p(4), of "(?t, ?t + 1)", unfolded fst_conv snd_conv, OF less_add_one xt]
    note rep = push_one[OF p(3,4) xt]
    have rv: "rank ?B v < rank ?B w" if "w \<in> set vs" for w
      using that later vB by (intro rank_strict) auto
    have cov: "covered (merge_push xs' (?t, ?t + 1)) = covered ?l \<union> insert ?t T"
      using m(2) p(5) Cons.prems(10) by auto
    have a: "\<forall>w\<in>set vs. w \<notin> covered ((c @ c2) @ sh') \<longrightarrow>
      (\<forall>x\<in>insert ?t T. rank (covered (?l @ old')) x < rank (covered ((c @ c2) @ sh')) w) \<and>
      (\<forall>q\<in>set ?l. snd q \<le> rank (covered ((c @ c2) @ sh')) w + range_total ?l)"
    proof (intro ballI impI conjI)
      fix w x assume w: "w \<in> set vs" "w \<notin> covered ((c @ c2) @ sh')" and x: "x \<in> insert ?t T"
      show "rank (covered (?l @ old')) x < rank (covered ((c @ c2) @ sh')) w"
        unfolding Beq Seq using w x rv[OF w(1)] t(2) Cons.prems(11) Beq by auto
    next
      fix w q assume w: "w \<in> set vs" and q: "q \<in> set ?l"
      show "snd q \<le> rank (covered ((c @ c2) @ sh')) w + range_total ?l"
        unfolding Beq p(2)[symmetric] using bspec[OF p(8) q] rv[OF w] by simp
    qed
    have g: "length (merge_push xs' (?t, ?t + 1)) + length vs + length old'
        \<le> max_size * length (b_data (builder_push b' ?t))" if good
    proof -
      have "length (b_data b) \<le> length (b_data (builder_push b' ?t))"
        using p(7) push_range_mono[of b' "(?t, ?t + 1)"] by (simp add: builder_push_def)
      then have "max_size * length (b_data b) \<le> max_size * length (b_data (builder_push b' ?t))"
        by (rule mult_le_mono2)
      moreover have "length old = length l2 + length old'" using p(1) by simp
      ultimately show ?thesis
        using Cons.prems(13)[OF that] m(3) p(6) list.size(4)[of v vs] by linarith
    qed
    have o: "\<forall>x\<in>insert ?t T. \<forall>r\<in>set old'. x < fst r" using p(1,9) Cons.prems(12) by auto
    have "\<exists>ys. builder_rep good (shifted_by_loop vs old' sh' ns' su' os' (builder_push b' ?t)) ys \<and>
      ranges_ok ys \<and> covered ys = covered (?l @ old') \<union> insert ?t T \<union>
        spread (covered (?l @ old')) (squeeze (covered ((c @ c2) @ sh')) (set vs))"
      by (rule Cons.IH[OF srt okB okS c2(2,3) cl p(2) rep m(1) cov a o g])
    then show ?thesis unfolding Beq Seq
      using False sk po vB rk by (simp add: squeeze_insert spread_insert[OF t] del: covered_simps)
  qed
qed

lemma shifted_by_rep:
  assumes "crv_wf m" and "crv_wf s" and "crv_wf v"
    and "good \<Longrightarrow> length (flat m) mod max_size + card (indices v) \<le> max_size"
  shows "\<exists>ys. builder_rep good
      (shifted_by_loop (as_indexes v) (flat m) (flat s) 0 0 0 (builder_new m)) ys \<and> ranges_ok ys \<and>
    covered ys = indices m \<union> spread (indices m) (squeeze (indices s) (indices v))"
proof -
  note v = as_indexes_ok[OF assms(3)]
  have "length (as_indexes v) = card (indices v)"
    using v by (metis distinct_card strict_sorted_iff)
  moreover have "max_size * (length (flat m) div max_size + 1) = length (flat m) - length (flat m) mod max_size + max_size"
    by (simp add: algebra_simps minus_mod_eq_mult_div)
  moreover have "length (flat m) mod max_size \<le> length (flat m)" by simp
  ultimately have "good \<Longrightarrow> length ([] :: range list) + length (as_indexes v) + length (flat m)
      \<le> max_size * length (b_data (builder_new m))"
    using assms(4) unfolding builder_new_length by fastforce
  then show ?thesis
    using shifted_by_loop_ok[of "as_indexes v" "[]" "flat s" "[]" "flat m" 0 0 0 good "builder_new m" "[]" "{}"]
      builder_new_rep v assms(1,2)
    by (simp add: crv_wf_def indices_def)
qed

lemma is_add_shifted_by_indices:
  assumes "crv_wf m" and "crv_wf s" and "crv_wf v"
  shows "indices (is_add_shifted_by m s v) = indices m \<union> spread (indices m) (squeeze (indices s) (indices v))"
proof -
  obtain ys where "builder_rep False
      (shifted_by_loop (as_indexes v) (flat m) (flat s) 0 0 0 (builder_new m)) ys"
    "covered ys = indices m \<union> spread (indices m) (squeeze (indices s) (indices v))"
    using shifted_by_rep[OF assms, of False] by auto
  with builder_finalize_ok(1)[OF this(1)] show ?thesis
    by (auto simp: is_add_shifted_by_def indices_def[of "builder_finalize _"])
qed

lemma is_add_shifted_by_wf:
  assumes "crv_wf m" and "crv_wf s" and "crv_wf v"
    and "length (flat m) mod max_size + card (indices v) \<le> max_size"
  shows "crv_wf (is_add_shifted_by m s v)"
proof -
  obtain ys where "builder_rep True
      (shifted_by_loop (as_indexes v) (flat m) (flat s) 0 0 0 (builder_new m)) ys" "ranges_ok ys"
    using shifted_by_rep[OF assms(1-3), of True] assms(4) by auto
  with builder_finalize_ok[OF this(1)] assms(1) show ?thesis
    by (simp add: is_add_shifted_by_def crv_wf_def)
qed

end
