(* ===== verification/ChangeRel.thy ===== *)
theory ChangeRel imports IndexSetShiftedBy begin

text \<open>
  What a change set means.  Deleting the positions \<open>D\<close> of the old collection and inserting at
  the positions \<open>I\<close> of the new one keeps the other rows in their order; \<open>survives D I\<close>
  is the resulting relation between old and new positions.  This theory is the algebra of that
  relation: how it composes, and how it looks for the single steps the builder records.
\<close>

section \<open>Ranks\<close>

lemma rank_onto:
  assumes "finite S"
  obtains j where "j \<notin> S" and "rank S j = x"
proof -
  have "slot 0 (sorted_list_of_set S) x \<notin> S \<and> rank S (slot 0 (sorted_list_of_set S) x) = x"
    using slot_free[of "[]" "sorted_list_of_set S" x] assms by simp
  with that show thesis by blast
qed

lemma rank_le_iff: "i \<notin> S \<Longrightarrow> rank S i < rank S j \<longleftrightarrow> i < j"
  using rank_strict rank_less by blast

lemma inj_rank: "inj_on (rank S) (- S)"
  by (auto intro!: inj_onI dest: rank_inj)

lemma rank_spread:
  assumes "finite S"
  shows "rank (S \<union> spread S X) i = rank X (rank S i)"
proof -
  have "rank S ` ({..<i} - (S \<union> spread S X)) = {..<rank S i} - X"
  proof
    show "rank S ` ({..<i} - (S \<union> spread S X)) \<subseteq> {..<rank S i} - X"
      by (auto simp: spread_def rank_le_iff)
    show "{..<rank S i} - X \<subseteq> rank S ` ({..<i} - (S \<union> spread S X))"
    proof
      fix y assume y: "y \<in> {..<rank S i} - X"
      obtain j where j: "j \<notin> S" "rank S j = y" using rank_onto[OF assms] by blast
      with y have "j < i" by (auto intro: rank_less)
      with j y show "y \<in> rank S ` ({..<i} - (S \<union> spread S X))" by (auto simp: spread_def)
    qed
  qed
  moreover have "inj_on (rank S) ({..<i} - (S \<union> spread S X))"
    by (rule inj_on_subset[OF inj_rank]) auto
  ultimately show ?thesis unfolding rank_card[of "S \<union> spread S X"] rank_card[of X]
    by (metis card_image)
qed

lemma rank_squeeze:
  assumes "finite S"
  shows "rank (squeeze S X) (rank S j) = rank (S \<union> X) j"
proof -
  have "rank S ` ({..<j} - (S \<union> X)) = {..<rank S j} - squeeze S X"
  proof
    show "rank S ` ({..<j} - (S \<union> X)) \<subseteq> {..<rank S j} - squeeze S X"
      by (auto simp: squeeze_def rank_le_iff dest: rank_inj)
    show "{..<rank S j} - squeeze S X \<subseteq> rank S ` ({..<j} - (S \<union> X))"
    proof
      fix y assume y: "y \<in> {..<rank S j} - squeeze S X"
      obtain h where h: "h \<notin> S" "rank S h = y" using rank_onto[OF assms] by blast
      with y have "h < j" by (auto intro: rank_less)
      with h y show "y \<in> rank S ` ({..<j} - (S \<union> X))" by (auto simp: squeeze_def)
    qed
  qed
  moreover have "inj_on (rank S) ({..<j} - (S \<union> X))"
    by (rule inj_on_subset[OF inj_rank]) auto
  ultimately show ?thesis unfolding rank_card[of "S \<union> X"] rank_card[of "squeeze S X"]
    by (metis card_image)
qed

section \<open>Surviving rows\<close>

definition survives :: "nat set \<Rightarrow> nat set \<Rightarrow> (nat \<times> nat) set" where
  "survives D I = {(i, j). i \<notin> D \<and> j \<notin> I \<and> rank D i = rank I j}"

lemma survives_iff: "(i, j) \<in> survives D I \<longleftrightarrow> i \<notin> D \<and> j \<notin> I \<and> rank D i = rank I j"
  by (simp add: survives_def)

lemma survives_empty [simp]: "survives {} {} = Id"
  by (auto simp: survives_def rank_def)

lemma survives_left_unique: "(i, j) \<in> survives D I \<Longrightarrow> (i', j) \<in> survives D I \<Longrightarrow> i = i'"
  by (metis rank_inj survives_iff)

lemma survives_right_unique: "(i, j) \<in> survives D I \<Longrightarrow> (i, j') \<in> survives D I \<Longrightarrow> j = j'"
  by (metis rank_inj survives_iff)

lemma survives_total:
  assumes "finite I" and "i \<notin> D"
  obtains j where "(i, j) \<in> survives D I"
proof -
  obtain j where "j \<notin> I" "rank I j = rank D i" using rank_onto[OF assms(1)] by blast
  with assms(2) have "(i, j) \<in> survives D I" by (simp add: survives_iff)
  with that show thesis .
qed

lemma survives_onto:
  assumes "finite D" and "j \<notin> I"
  obtains i where "(i, j) \<in> survives D I"
proof -
  obtain i where "i \<notin> D" "rank D i = rank I j" using rank_onto[OF assms(1)] by blast
  with assms(2) have "(i, j) \<in> survives D I" by (simp add: survives_iff)
  with that show thesis .
qed

lemma survives_mono: "(i, j) \<in> survives D I \<Longrightarrow> (i', j') \<in> survives D I \<Longrightarrow> i < i' \<longleftrightarrow> j < j'"
  by (metis rank_le_iff survives_iff)

text \<open>
  The deletions and insertions of two change sets, one after the other.
\<close>

definition both_deletions :: "nat set \<Rightarrow> nat set \<Rightarrow> nat set \<Rightarrow> nat set" where
  "both_deletions D I D' = D \<union> spread D (squeeze I D')"

definition both_insertions :: "nat set \<Rightarrow> nat set \<Rightarrow> nat set \<Rightarrow> nat set" where
  "both_insertions I D' I' = I' \<union> spread I' (squeeze D' I)"

lemma both_deletions_survivor:
  "(i, j) \<in> survives D I \<Longrightarrow> i \<in> both_deletions D I D' \<longleftrightarrow> j \<in> D'"
proof -
  assume ij: "(i, j) \<in> survives D I"
  have "rank I j \<in> rank I ` (D' - I) \<longleftrightarrow> j \<in> D'"
    using ij inj_on_image_mem_iff[OF inj_rank, of j I "D' - I"] by (auto simp: survives_iff)
  with ij show ?thesis by (auto simp: both_deletions_def spread_def squeeze_def survives_iff)
qed

lemma both_insertions_survivor:
  "(j, k) \<in> survives D' I' \<Longrightarrow> k \<in> both_insertions I D' I' \<longleftrightarrow> j \<in> I"
proof -
  assume jk: "(j, k) \<in> survives D' I'"
  have "rank D' j \<in> rank D' ` (I - D') \<longleftrightarrow> j \<in> I"
    using jk inj_on_image_mem_iff[OF inj_rank, of j D' "I - D'"] by (auto simp: survives_iff)
  with jk show ?thesis by (auto simp: both_insertions_def spread_def squeeze_def survives_iff)
qed

lemma survives_compose:
  assumes "finite D" "finite I" "finite D'" "finite I'"
  shows "survives (both_deletions D I D') (both_insertions I D' I') = survives D I O survives D' I'"
proof -
  have rk: "rank (both_deletions D I D') i = rank (I \<union> D') j" if "(i, j) \<in> survives D I" for i j
    using that assms by (simp add: both_deletions_def rank_spread rank_squeeze survives_iff)
  have rk': "rank (both_insertions I D' I') k = rank (D' \<union> I) j" if "(j, k) \<in> survives D' I'" for j k
    using that rank_squeeze[OF assms(3), of I j]
    by (simp add: both_insertions_def rank_spread assms survives_iff)
  show ?thesis
  proof (intro set_eqI iffI; clarify)
    fix i k assume a: "(i, k) \<in> survives (both_deletions D I D') (both_insertions I D' I')"
    then have "i \<notin> D" "k \<notin> I'" by (auto simp: survives_iff both_deletions_def both_insertions_def)
    then obtain j j' where j: "(i, j) \<in> survives D I" "(j', k) \<in> survives D' I'"
      using survives_total survives_onto assms by meson
    have n: "j \<notin> I" "j' \<notin> D'" using j by (simp_all add: survives_iff)
    have "j \<notin> D'" "j' \<notin> I"
      using a both_deletions_survivor[OF j(1)] both_insertions_survivor[OF j(2)]
      by (simp_all add: survives_iff)
    moreover have "rank (I \<union> D') j = rank (I \<union> D') j'"
      using a rk[OF j(1)] rk'[OF j(2)] by (simp add: survives_iff Un_commute)
    ultimately have "j = j'" using n rank_inj[of j "I \<union> D'" j'] by simp
    with j show "(i, k) \<in> survives D I O survives D' I'" by blast
  next
    fix i j k assume j: "(i, j) \<in> survives D I" "(j, k) \<in> survives D' I'"
    then have "i \<notin> both_deletions D I D'" "k \<notin> both_insertions I D' I'"
      using both_deletions_survivor[OF j(1)] both_insertions_survivor[OF j(2)]
      by (auto simp: survives_iff)
    with rk[OF j(1)] rk'[OF j(2)]
    show "(i, k) \<in> survives (both_deletions D I D') (both_insertions I D' I')"
      by (simp add: survives_iff Un_commute)
  qed
qed

text \<open>
  Dropping a matching deletion and insertion makes the row a survivor and leaves the other
  survivors alone.
\<close>

lemma rank_remove: "finite S \<Longrightarrow> f \<in> S \<Longrightarrow> rank (S - {f}) i = rank S i + (if f < i then 1 else 0)"
proof -
  assume f: "finite S" "f \<in> S"
  show ?thesis
  proof (cases "f < i")
    case True
    then have "{..<i} - (S - {f}) = insert f ({..<i} - S)" using f by auto
    then show ?thesis using f True by (simp add: rank_card)
  next
    case False
    then have "{..<i} - (S - {f}) = {..<i} - S" by auto
    then show ?thesis using False by (simp add: rank_card)
  qed
qed

lemma survives_drop:
  assumes "finite D" and "finite I" and "f \<in> D" and "t \<in> I" and "rank D f = rank I t"
  shows "survives (D - {f}) (I - {t}) = insert (f, t) (survives D I)"
proof -
  have lt: "f < i \<longleftrightarrow> rank D f \<le> rank D i" if "i \<notin> D" for i
    using that assms(3) rank_mono[of f i D] rank_strict[of i f D] by (metis leD le_less_linear nat_less_le not_less_iff_gr_or_eq)
  have lt': "t < j \<longleftrightarrow> rank I t \<le> rank I j" if "j \<notin> I" for j
    using that assms(4) rank_mono[of t j I] rank_strict[of j t I] by (metis leD le_less_linear nat_less_le not_less_iff_gr_or_eq)
  have both: "(i, j) \<in> survives (D - {f}) (I - {t}) \<longleftrightarrow> (i, j) \<in> survives D I" if "i \<notin> D" "j \<notin> I" for i j
  proof -
    have "rank D i + (if f < i then 1 else 0) = rank I j + (if t < j then 1 else 0) \<longleftrightarrow> rank D i = rank I j"
      using lt[OF that(1)] lt'[OF that(2)] assms(5) by auto
    with that show ?thesis by (simp add: survives_iff rank_remove assms)
  qed
  have ft: "rank (D - {f}) f = rank (I - {t}) t" using assms by (simp add: rank_remove)
  then have m: "(f, t) \<in> survives (D - {f}) (I - {t})" by (simp add: survives_iff)
  show ?thesis
  proof (intro set_eqI iffI; clarify)
    fix i j assume a: "(i, j) \<in> survives (D - {f}) (I - {t})" and ne: "(i, j) \<notin> survives D I"
    then have "i = f \<or> j = t" using both[of i j] by (auto simp: survives_iff)
    then show "i = f \<and> j = t"
      using a m survives_left_unique survives_right_unique by blast
  next
    fix i j assume "(i, j) \<in> insert (f, t) (survives D I)"
    then consider "i = f" "j = t" | "(i, j) \<in> survives D I" by blast
    then show "(i, j) \<in> survives (D - {f}) (I - {t})"
    proof cases
      case 2
      then have "i \<notin> D" "j \<notin> I" by (simp_all add: survives_iff)
      with both 2 show ?thesis by blast
    qed (use m in simp)
  qed
qed

end
