(* ===== verification/PositionSet.thy ===== *)
theory PositionSet imports ChangeRel begin

text \<open>
  The contract a change set needs from its sets of positions, as a chain of locales: membership
  and the updates one row change makes, then the translations between old and new numbering,
  then the operations on whole sets.  The clients' facts are proved here from the laws alone;
  the interpretation on the chunked \<open>IndexSet\<close> discharges the laws.
\<close>

section \<open>Single steps as relations between positions\<close>

definition insert_step :: "nat \<Rightarrow> nat \<Rightarrow> (nat \<times> nat) set" where
  "insert_step i n = {(j, k). k = (if j < i then j else j + n)}"

definition erase_step :: "nat \<Rightarrow> (nat \<times> nat) set" where
  "erase_step i = {(j, k). j \<noteq> i \<and> k = (if j < i then j else j - 1)}"

definition move_step :: "nat \<Rightarrow> nat \<Rightarrow> (nat \<times> nat) set" where
  "move_step f t =
     {(j, k). if j = f then k = t
        else k = (if j < f then (if j < t then j else j + 1) else (if j \<le> t then j - 1 else j))}"

definition swap_step :: "nat \<Rightarrow> nat \<Rightarrow> (nat \<times> nat) set" where
  "swap_step a b = {(j, k). k = (if j = a then b else if j = b then a else j)}"

lemma rank_single [simp]: "rank {i} j = (if i < j then j - 1 else j)"
proof -
  have "{i} \<inter> {..<j} = (if i < j then {i} else {})" by auto
  then show ?thesis by (simp add: rank_def)
qed

lemma rank_interval: "j \<notin> {i..<i + n} \<Longrightarrow> rank {i..<i + n} j = (if j < i then j else j - n)"
proof -
  assume "j \<notin> {i..<i + n}"
  then have "{i..<i + n} \<inter> {..<j} = (if j < i then {} else {i..<i + n})" by auto
  then show ?thesis by (simp add: rank_def)
qed

lemma rank_none [simp]: "rank {} j = j"
  by (simp add: rank_def)

lemma survives_insert: "survives {} {i..<i + n} = insert_step i n"
proof (intro set_eqI; clarify)
  fix j k
  show "(j, k) \<in> survives {} {i..<i + n} \<longleftrightarrow> (j, k) \<in> insert_step i n"
    by (cases "k \<in> {i..<i + n}") (auto simp: survives_iff insert_step_def rank_interval split: if_splits)
qed

lemma survives_erase: "survives {i} {} = erase_step i"
  by (auto simp: survives_iff erase_step_def set_eq_iff)

lemma survives_move: "insert (f, t) (survives {f} {t}) = move_step f t"
proof (intro set_eqI; clarify)
  fix j k
  consider "j = f" | "j < f" "k = t" | "j < f" "k \<noteq> t" | "f < j" "k = t" | "f < j" "k \<noteq> t" by linarith
  then show "(j, k) \<in> insert (f, t) (survives {f} {t}) \<longleftrightarrow> (j, k) \<in> move_step f t"
    by cases (auto simp: survives_iff move_step_def)
qed

lemma squeeze_single: "squeeze {i} S = close_gap i S"
  by (auto simp: squeeze_def close_gap_def image_iff split: if_splits)

lemma spread_interval: "spread {i..<i + n} S = open_gap i n S"
proof (intro set_eqI)
  fix j
  consider "j < i" | "j \<in> {i..<i + n}" | "i + n \<le> j" by fastforce
  then show "j \<in> spread {i..<i + n} S \<longleftrightarrow> j \<in> open_gap i n S"
  proof cases
    case 3
    then have "j \<in> open_gap i n S \<longleftrightarrow> j - n \<in> S"
      by (auto simp: open_gap_def image_iff intro!: exI[of _ "j - n"])
    with 3 show ?thesis by (auto simp: spread_def rank_interval)
  qed (auto simp: spread_def open_gap_def rank_interval)
qed

lemma survives_image: "survives D I `` S = spread I (squeeze D S)"
proof (intro set_eqI iffI)
  fix k assume "k \<in> survives D I `` S"
  then obtain i where "i \<in> S - D" "k \<notin> I" "rank D i = rank I k" by (auto simp: survives_def)
  then show "k \<in> spread I (squeeze D S)" by (simp add: spread_def squeeze_def) (metis DiffI imageI)
next
  fix k assume "k \<in> spread I (squeeze D S)"
  then obtain i where "k \<notin> I" "i \<in> S" "i \<notin> D" "rank I k = rank D i"
    by (auto simp: spread_def squeeze_def)
  then show "k \<in> survives D I `` S" by (auto simp: survives_def intro: ImageI[of i])
qed

lemma step_image:
  "insert_step i n `` S = open_gap i n S"
  "erase_step i `` S = close_gap i S"
  by (simp_all flip: survives_insert survives_erase
      add: survives_image spread_interval squeeze_single)

lemma move_step_image:
  "move_step f t `` S = open_gap t 1 (close_gap f S) \<union> (if f \<in> S then {t} else {})"
proof -
  have "move_step f t `` S = survives {f} {t} `` S \<union> (if f \<in> S then {t} else {})"
    unfolding survives_move[symmetric] by auto
  then show ?thesis by (simp add: survives_image squeeze_single spread_interval[of t 1, simplified])
qed

definition over_step :: "nat \<Rightarrow> nat \<Rightarrow> (nat \<times> nat) set" where
  "over_step row last_row =
     {(j, k). j \<le> last_row \<and> j \<noteq> row \<and> k = (if j = last_row then row else j)}"

text \<open>Deleting one more row, given by its position in the new collection.\<close>

lemma both_deletions_insert:
  "(i, j) \<in> survives D I \<Longrightarrow> both_deletions D I (insert j X) = insert i (both_deletions D I X)"
  "j \<in> I \<Longrightarrow> both_deletions D I (insert j X) = both_deletions D I X"
  by (auto simp: both_deletions_def squeeze_insert survives_iff spread_insert[of i D "rank I j"])

lemma both_deletions_empty [simp]: "both_deletions D I {} = D"
  by (simp add: both_deletions_def)

lemma both_insertions_simps [simp]:
  "both_insertions I {} {} = I"
  "both_insertions I {i} {} = close_gap i I"
  "both_insertions I {} {i..<i + n} = {i..<i + n} \<union> open_gap i n I"
  by (simp_all add: both_insertions_def spread_interval squeeze_single)

lemma both_insertions_move:
  "both_insertions I {f} {t} = insert t (open_gap t 1 (close_gap f I))"
  by (simp add: both_insertions_def spread_interval[of t 1, simplified] squeeze_single)

section \<open>One row at a time\<close>

locale position_set =
  fixes inv :: "'s \<Rightarrow> bool" and elems :: "'s \<Rightarrow> nat set"
    and contains :: "'s \<Rightarrow> nat \<Rightarrow> bool" and add :: "'s \<Rightarrow> nat \<Rightarrow> 's"
    and remove :: "'s \<Rightarrow> nat \<Rightarrow> nat \<Rightarrow> 's" and erase_at :: "'s \<Rightarrow> nat \<Rightarrow> 's"
    and insert_at :: "'s \<Rightarrow> nat \<Rightarrow> nat \<Rightarrow> 's" and make_room :: "'s \<Rightarrow> nat \<Rightarrow> nat \<Rightarrow> 's"
  assumes finite_elems: "inv s \<Longrightarrow> finite (elems s)"
    and contains_law: "inv s \<Longrightarrow> contains s i \<longleftrightarrow> i \<in> elems s"
    and add_law: "inv s \<Longrightarrow> inv (add s i) \<and> elems (add s i) = insert i (elems s)"
    and remove_law: "inv s \<Longrightarrow> 0 < n \<Longrightarrow> inv (remove s i n) \<and> elems (remove s i n) = elems s - {i..<i + n}"
    and erase_at_law: "inv s \<Longrightarrow> inv (erase_at s i) \<and> elems (erase_at s i) = close_gap i (elems s)"
    and insert_at_law:
      "inv s \<Longrightarrow> inv (insert_at s i n) \<and> elems (insert_at s i n) = open_gap i n (elems s) \<union> {i..<i + n}"
    and make_room_law:
      "inv s \<Longrightarrow> 0 < n \<Longrightarrow> inv (make_room s i n) \<and> elems (make_room s i n) = open_gap i n (elems s)"
begin

lemmas laws = contains_law add_law remove_law erase_at_law insert_at_law make_room_law

lemma remove_one: "inv s \<Longrightarrow> inv (remove s i 1) \<and> elems (remove s i 1) = elems s - {i}"
  by (simp add: remove_law)

lemma insert_one:
  "inv s \<Longrightarrow> inv (insert_at s i 1) \<and> elems (insert_at s i 1) = insert i (open_gap i 1 (elems s))"
  by (simp add: insert_at_law)

text \<open>The marks of the rows follow the rows when one row moves.\<close>

lemma moved_marks:
  assumes "inv s" and "s' = (if contains s f then insert_at (erase_at s f) t 1
                             else make_room (erase_at s f) t 1)"
  shows "inv s' \<and> elems s' = move_step f t `` elems s"
  using assms by (auto simp: laws move_step_image)

lemma moved_over_marks:
  assumes "inv s" and "elems s \<subseteq> {..last_row}" and "row \<noteq> last_row"
    and "s' = (if contains s last_row then add (remove s last_row 1) row else remove s row 1)"
  shows "inv s' \<and> elems s' = over_step row last_row `` elems s"
proof -
  have "over_step row last_row `` elems s =
      (if last_row \<in> elems s then insert row (elems s - {last_row}) else elems s - {row})"
    using assms(2,3) by (auto simp: over_step_def Image_iff)
  with assms remove_one add_law contains_law show ?thesis by simp
qed

lemma swapped_marks:
  assumes "inv s" and "a \<noteq> b"
    and "s' = (if contains s a \<noteq> contains s b
               then if contains s a then add (remove s a 1) b else add (remove s b 1) a else s)"
  shows "inv s' \<and> elems s' = swap_step a b `` elems s"
proof -
  have "swap_step a b `` elems s =
      (if (a \<in> elems s) \<noteq> (b \<in> elems s)
       then if a \<in> elems s then insert b (elems s - {a}) else insert a (elems s - {b}) else elems s)"
    using assms(2) by (auto simp: swap_step_def Image_iff)
  with assms remove_one add_law contains_law show ?thesis by simp
qed

lemma erase_undoes_insert: "inv s \<Longrightarrow> elems (erase_at (insert_at s i 1) i) = elems s"
proof -
  assume "inv s"
  then have "elems (erase_at (insert_at s i 1) i) = close_gap i (insert i (open_gap i 1 (elems s)))"
    using insert_one[of s i] erase_at_law[of "insert_at s i 1" i] by simp
  also have "\<dots> = elems s"
  proof -
    let ?T = "insert i (open_gap i 1 (elems s))"
    have "{x \<in> ?T. x < i} = {x \<in> elems s. x < i}" "{x \<in> ?T. i < x} = Suc ` {x \<in> elems s. i \<le> x}"
      by (auto simp: open_gap_def)
    then have "close_gap i ?T = {x \<in> elems s. x < i} \<union> (\<lambda>x. x - 1) ` Suc ` {x \<in> elems s. i \<le> x}"
      unfolding close_gap_def by simp
    also have "(\<lambda>x. x - 1) ` Suc ` {x \<in> elems s. i \<le> x} = {x \<in> elems s. i \<le> x}"
      by (simp add: image_image)
    also have "{x \<in> elems s. x < i} \<union> {x \<in> elems s. i \<le> x} = elems s" by auto
    finally show ?thesis .
  qed
  finally show ?thesis .
qed

end

section \<open>Translating positions\<close>

locale numbered_set = position_set +
  fixes shift :: "'a \<Rightarrow> nat \<Rightarrow> nat" and unshift :: "'a \<Rightarrow> nat \<Rightarrow> nat"
    and add_shifted :: "'a \<Rightarrow> nat \<Rightarrow> 'a \<times> nat" and erase_or_unshift :: "'a \<Rightarrow> nat \<Rightarrow> 'a \<times> nat"
    and none :: nat
  assumes shift_law: "inv s \<Longrightarrow> shift s i \<notin> elems s \<and> rank (elems s) (shift s i) = i"
    and unshift_law: "inv s \<Longrightarrow> unshift s i = rank (elems s) i"
    and add_shifted_law: "inv s \<Longrightarrow> add_shifted s i = (s', j) \<Longrightarrow>
      inv s' \<and> j = shift s i \<and> elems s' = insert j (elems s)"
    and erase_or_unshift_law: "inv s \<Longrightarrow> erase_or_unshift s i = (s', j) \<Longrightarrow>
      inv s' \<and> elems s' = close_gap i (elems s) \<and>
      j = (if i \<in> elems s then none else rank (elems s) i)"
begin

lemma shift_unshift: "inv s \<Longrightarrow> i \<notin> elems s \<Longrightarrow> shift s (unshift s i) = i"
  using shift_law unshift_law rank_inj by metis

lemma unshift_shift: "inv s \<Longrightarrow> unshift s (shift s i) = i"
  using shift_law unshift_law by simp

lemma old_position:
  "inv d \<Longrightarrow> inv s \<Longrightarrow> j \<notin> elems s \<Longrightarrow> (shift d (unshift s j), j) \<in> survives (elems d) (elems s)"
  using shift_law[of d "unshift s j"] unshift_law[of s j] by (simp add: survives_iff)

lemma new_position:
  "inv d \<Longrightarrow> inv s \<Longrightarrow> i \<notin> elems d \<Longrightarrow> (i, shift s (unshift d i)) \<in> survives (elems d) (elems s)"
  using shift_law[of s "unshift d i"] unshift_law[of d i] by (simp add: survives_iff)

text \<open>Marking a row of the new collection as deleted from the old one.\<close>

lemma delete_row:
  assumes "inv d" and "inv s" and "j \<notin> elems s" and "add_shifted d (unshift s j) = (d', i)"
  shows "inv d'" and "(i, j) \<in> survives (elems d) (elems s)" and "elems d' = insert i (elems d)"
    and "elems d' = both_deletions (elems d) (elems s) {j}"
proof -
  note a = add_shifted_law[OF assms(1,4)]
  then show "inv d'" and s: "(i, j) \<in> survives (elems d) (elems s)" and e: "elems d' = insert i (elems d)"
    using old_position[OF assms(1-3)] by simp_all
  show "elems d' = both_deletions (elems d) (elems s) {j}"
    using e both_deletions_insert(1)[OF s, of "{}"] by simp
qed

text \<open>The position is below the reserved value, so the reserved value says "was inserted".\<close>

lemma erase_row:
  assumes "inv d" and "inv s" and "j < none" and "erase_or_unshift s j = (s', u)"
    and "d' = (if u \<noteq> none then fst (add_shifted d u) else d)"
  shows "inv s' \<and> inv d' \<and> elems s' = both_insertions (elems s) {j} {} \<and>
    elems d' = both_deletions (elems d) (elems s) {j}"
proof -
  note e = erase_or_unshift_law[OF assms(2,4)]
  have "inv d' \<and> elems d' = both_deletions (elems d) (elems s) {j}"
  proof (cases "j \<in> elems s")
    case True
    with e assms(1,5) show ?thesis by (simp add: both_deletions_insert(2))
  next
    case False
    have "rank (elems s) j < none" using assms(3) by (simp add: rank_def)
    then have "u \<noteq> none" "u = unshift s j" using e False unshift_law[OF assms(2)] by simp_all
    with assms(5) delete_row[OF assms(1,2) False, of "fst (add_shifted d u)" "snd (add_shifted d u)"]
    show ?thesis by simp
  qed
  with e show ?thesis by simp
qed

end

section \<open>Whole sets\<close>

locale merged_set = numbered_set +
  fixes add_set :: "'a \<Rightarrow> 'a \<Rightarrow> 'a" and remove_set :: "'a \<Rightarrow> 'a \<Rightarrow> 'a" and erase_set :: "'a \<Rightarrow> 'a \<Rightarrow> 'a"
    and insert_set :: "'a \<Rightarrow> 'a \<Rightarrow> 'a" and make_room_set :: "'a \<Rightarrow> 'a \<Rightarrow> 'a"
    and add_shifted_by :: "'a \<Rightarrow> 'a \<Rightarrow> 'a \<Rightarrow> 'a" and fits :: "'a \<Rightarrow> 'a \<Rightarrow> bool"
  assumes add_set_law: "inv s \<Longrightarrow> inv p \<Longrightarrow> inv (add_set s p) \<and> elems (add_set s p) = elems s \<union> elems p"
    and remove_set_law:
      "inv s \<Longrightarrow> inv p \<Longrightarrow> inv (remove_set s p) \<and> elems (remove_set s p) = elems s - elems p"
    and erase_set_law:
      "inv s \<Longrightarrow> inv p \<Longrightarrow> inv (erase_set s p) \<and> elems (erase_set s p) = squeeze (elems p) (elems s)"
    and insert_set_law: "inv s \<Longrightarrow> inv p \<Longrightarrow>
      inv (insert_set s p) \<and> elems (insert_set s p) = elems p \<union> spread (elems p) (elems s)"
    and make_room_set_law: "inv s \<Longrightarrow> inv p \<Longrightarrow>
      inv (make_room_set s p) \<and> elems (make_room_set s p) = spread (elems p) (elems s)"
    and add_shifted_by_law: "inv s \<Longrightarrow> inv p \<Longrightarrow> inv v \<Longrightarrow> fits s v \<Longrightarrow> inv (add_shifted_by s p v) \<and>
      elems (add_shifted_by s p v) = elems s \<union> spread (elems s) (squeeze (elems p) (elems v))"
begin

lemma merged_deletions:
  "inv d \<Longrightarrow> inv s \<Longrightarrow> inv d' \<Longrightarrow> fits d d' \<Longrightarrow>
     inv (add_shifted_by d s d') \<and>
     elems (add_shifted_by d s d') = both_deletions (elems d) (elems s) (elems d')"
  by (simp add: add_shifted_by_law both_deletions_def)

lemma merged_insertions:
  "inv s \<Longrightarrow> inv d' \<Longrightarrow> inv s' \<Longrightarrow>
     inv (insert_set (erase_set s d') s') \<and>
     elems (insert_set (erase_set s d') s') = both_insertions (elems s) (elems d') (elems s')"
  by (simp add: insert_set_law erase_set_law both_insertions_def)

lemma carried_marks:
  "inv m \<Longrightarrow> inv d \<Longrightarrow> inv s \<Longrightarrow>
     inv (make_room_set (erase_set m d) s) \<and>
     elems (make_room_set (erase_set m d) s) = survives (elems d) (elems s) `` elems m"
  by (simp add: make_room_set_law erase_set_law survives_image)

lemma erase_undoes_insert_set:
  assumes "inv s" and "inv p"
  shows "elems (erase_set (insert_set s p) p) = elems s"
proof -
  have "rank (elems p) j \<in> elems s" if "j \<in> spread (elems p) (elems s)" for j
    using that by (simp add: spread_def)
  moreover have "x \<in> rank (elems p) ` spread (elems p) (elems s)" if "x \<in> elems s" for x
    using that rank_onto[OF finite_elems[OF assms(2)], of x] by (auto simp: spread_def)
  moreover have "(elems p \<union> spread (elems p) (elems s)) - elems p = spread (elems p) (elems s)"
    by (auto simp: spread_def)
  ultimately show ?thesis
    using assms by (auto simp: erase_set_law insert_set_law squeeze_def)
qed

text \<open>
  Modified rows seen from both sides: as many in the old numbering as in the new one, related
  by the survivors.
\<close>

lemma both_sides:
  assumes "inv m" and "inv d" and "inv s"
  shows "card (elems (make_room_set (erase_set m s) d)) = card (elems (remove_set m s))"
    and "survives (elems d) (elems s) `` elems (make_room_set (erase_set m s) d) = elems (remove_set m s)"
proof -
  let ?old = "survives (elems s) (elems d) `` elems m"
  have old: "elems (make_room_set (erase_set m s) d) = ?old" using carried_marks assms by simp
  have conv: "(i, j) \<in> survives (elems d) (elems s) \<longleftrightarrow> (j, i) \<in> survives (elems s) (elems d)" for i j
    by (auto simp: survives_iff)
  have ex: "\<exists>i. (j, i) \<in> survives (elems s) (elems d)" if "j \<notin> elems s" for j
    using survives_total[OF finite_elems[OF assms(2)] that] by metis
  show im: "survives (elems d) (elems s) `` elems (make_room_set (erase_set m s) d) = elems (remove_set m s)"
  proof -
    have "survives (elems d) (elems s) `` ?old = elems m - elems s"
    proof (intro set_eqI iffI)
      fix k assume "k \<in> survives (elems d) (elems s) `` ?old"
      then obtain i j where "j \<in> elems m" "(j, i) \<in> survives (elems s) (elems d)"
        "(k, i) \<in> survives (elems s) (elems d)" using conv by blast
      moreover from this have "j = k" by (meson survives_left_unique)
      ultimately show "k \<in> elems m - elems s" by (simp add: survives_iff)
    next
      fix k assume k: "k \<in> elems m - elems s"
      then obtain i where "(k, i) \<in> survives (elems s) (elems d)" using ex by blast
      with k conv show "k \<in> survives (elems d) (elems s) `` ?old" by blast
    qed
    with old show ?thesis using assms(1,3) by (simp add: remove_set_law)
  qed
  have "\<exists>g. bij_betw g ?old (elems m - elems s)"
  proof
    let ?g = "\<lambda>i. THE j. (j, i) \<in> survives (elems s) (elems d)"
    have g: "?g i = j" if "(j, i) \<in> survives (elems s) (elems d)" for i j
      using that survives_left_unique by (intro the_equality) blast+
    show "bij_betw ?g ?old (elems m - elems s)"
    proof (rule bij_betwI')
      fix x y assume "x \<in> ?old" "y \<in> ?old"
      then show "(?g x = ?g y) = (x = y)" using g survives_right_unique by (metis ImageE)
    next
      fix x assume "x \<in> ?old"
      then show "?g x \<in> elems m - elems s" using g by (auto simp: survives_iff)
    next
      fix y assume "y \<in> elems m - elems s"
      then show "\<exists>x\<in>?old. y = ?g x" using ex[of y] g by (metis DiffE ImageI)
    qed
  qed
  then show "card (elems (make_room_set (erase_set m s) d)) = card (elems (remove_set m s))"
    using old assms(1,3) by (auto simp: remove_set_law bij_betw_same_card)
qed

end

section \<open>The chunked index set meets the contract\<close>

definition room_for :: "crv \<Rightarrow> crv \<Rightarrow> bool" where
  "room_for m vals \<longleftrightarrow>
     length (flat m) mod max_size + sum_list (map (\<lambda>r. snd r - fst r) (flat vals)) \<le> max_size"

lemma room_for_iff:
  "crv_wf v \<Longrightarrow> room_for m v \<longleftrightarrow> length (flat m) mod max_size + card (indices v) \<le> max_size"
  by (simp add: room_for_def indices_def covered_card crv_wf_def range_total_alt)

interpretation index_set: merged_set crv_wf indices is_contains is_add is_remove is_erase_at is_insert_at
  is_shift_for_insert_at is_shift is_unshift is_add_shifted is_erase_or_unshift npos
  is_add_set is_remove_set is_erase_set is_insert_set is_shift_for_insert_set is_add_shifted_by room_for
proof (unfold_locales, goal_cases)
  case 1 then show ?case by (simp add: indices_def)
next
  case 2 then show ?case by (rule is_contains_ok)
next
  case 3 then show ?case by (rule is_add_ok)
next
  case 4 then show ?case by (simp add: is_remove_ok)
next
  case 5 then show ?case by (rule is_erase_at_ok)
next
  case 6 then show ?case by (simp add: is_insert_at_ok)
next
  case 7 then show ?case by (simp add: is_shift_for_insert_at_ok)
next
  case 8 then show ?case by (simp add: is_shift_ok)
next
  case 9 then show ?case by (rule is_unshift_ok)
next
  case 10 then show ?case using is_add_shifted_ok by blast
next
  case 11 then show ?case using is_erase_or_unshift_ok by blast
next
  case 12 then show ?case by (simp add: is_add_set_ok)
next
  case 13 then show ?case by (simp add: is_remove_set_ok)
next
  case 14 then show ?case by (simp add: is_erase_set_ok)
next
  case 15 then show ?case by (simp add: is_insert_set_ok)
next
  case 16 then show ?case by (simp add: is_shift_for_insert_set_ok)
next
  case 17 then show ?case by (simp add: is_add_shifted_by_indices is_add_shifted_by_wf room_for_iff)
qed

end
