(* ===== verification/ChangeBuilder.thy ===== *)
theory ChangeBuilder imports IndexSetShiftedBy "HOL-Library.AList" begin

text \<open>
  \<open>CollectionChangeSet\<close> and \<open>CollectionChangeBuilder\<close>
  (\<open>impl/collection_change_builder.cpp\<close>): the state of a change set and every operation
  that updates it.  A \<open>Move\<close> is the pair of its \<open>from\<close> and \<open>to\<close>; the unordered map
  \<open>m_move_mapping\<close> is an association list from new to old positions with distinct keys,
  whose order stands for the unspecified iteration order.
\<close>

section \<open>State\<close>

type_synonym move = "nat \<times> nat"

record change_set =
  deletions :: crv
  insertions :: crv
  modifications :: crv
  modifications_new :: crv
  moves :: "move list"
  columns :: "crv list"

record change_builder = change_set +
  move_mapping :: "(nat \<times> nat) list"
  track_columns :: bool

definition cs_empty :: "'a change_set_scheme \<Rightarrow> bool" where
  "cs_empty c \<longleftrightarrow>
     deletions c = [] \<and> insertions c = [] \<and> modifications c = [] \<and> modifications_new c = [] \<and>
     moves c = []"

definition new_builder :: "crv \<Rightarrow> crv \<Rightarrow> crv \<Rightarrow> move list \<Rightarrow> change_builder" where
  "new_builder D I M ms =
     \<lparr>deletions = foldl is_add D (map fst ms), insertions = foldl is_add I (map snd ms),
      modifications = M, modifications_new = [], moves = ms, columns = [],
      move_mapping = [], track_columns = True\<rparr>"

definition for_each_col :: "(crv \<Rightarrow> crv) \<Rightarrow> change_builder \<Rightarrow> change_builder" where
  "for_each_col f b =
     b\<lparr>modifications := f (modifications b),
       columns := (if track_columns b then map f (columns b) else columns b)\<rparr>"

definition resize :: "nat \<Rightarrow> crv list \<Rightarrow> crv list" where
  "resize n cs = take n cs @ replicate (n - length cs) []"

definition modify :: "nat \<Rightarrow> nat \<Rightarrow> change_builder \<Rightarrow> change_builder" where
  "modify ndx col b =
     (let b1 = b\<lparr>modifications := is_add (modifications b) ndx\<rparr>
      in if \<not> track_columns b1 \<or> col = npos then b1
         else
           let cs = (if length (columns b1) \<le> col then resize (col + 1) (columns b1) else columns b1)
           in b1\<lparr>columns := cs[col := is_add (cs ! col) ndx]\<rparr>)"

section \<open>Inserting and erasing rows\<close>

definition shift_keys :: "nat \<Rightarrow> nat \<Rightarrow> (nat \<times> nat) list \<Rightarrow> (nat \<times> nat) list" where
  "shift_keys index count mapping =
     filter (\<lambda>p. fst p < index) mapping @
     map (\<lambda>p. (fst p + count, snd p)) (filter (\<lambda>p. index \<le> fst p) mapping)"

definition cb_insert :: "nat \<Rightarrow> nat \<Rightarrow> bool \<Rightarrow> change_builder \<Rightarrow> change_builder" where
  "cb_insert index count track_moves b =
     (let b1 = for_each_col (\<lambda>col. is_shift_for_insert_at col index count) b
      in if \<not> track_moves then b1
         else
           let b2 = b1\<lparr>insertions := is_insert_at (insertions b1) index count,
                       moves := map (\<lambda>m. if index \<le> snd m then (fst m, snd m + count) else m)
                                  (moves b1)\<rparr>
           in if move_mapping b2 = [] then b2
              else b2\<lparr>move_mapping := shift_keys index count (move_mapping b2)\<rparr>)"

fun erase_moves :: "nat \<Rightarrow> move list \<Rightarrow> move list" where
  "erase_moves index [] = []"
| "erase_moves index (m # ms) =
     (if snd m = index then erase_moves index ms
      else if index < snd m then (fst m, snd m - 1) # erase_moves index ms
      else m # erase_moves index ms)"

definition cb_erase :: "nat \<Rightarrow> change_builder \<Rightarrow> change_builder" where
  "cb_erase index b =
     (let b1 = for_each_col (\<lambda>col. is_erase_at col index) b;
          (I, unshifted) = is_erase_or_unshift (insertions b1) index;
          b2 = b1\<lparr>insertions := I\<rparr>;
          b3 = (if unshifted \<noteq> npos
                then b2\<lparr>deletions := fst (is_add_shifted (deletions b2) unshifted)\<rparr> else b2)
      in b3\<lparr>moves := erase_moves index (moves b3)\<rparr>)"

definition cb_clear :: "nat \<Rightarrow> change_builder \<Rightarrow> change_builder" where
  "cb_clear old_size b =
     (let size = (if old_size \<noteq> npos
                  then old_size + sum_list (map (\<lambda>r. snd r - fst r) (flat (deletions b)))
                       - sum_list (map (\<lambda>r. snd r - fst r) (flat (insertions b)))
                  else old_size)
      in b\<lparr>modifications := [], insertions := [], moves := [], move_mapping := [], columns := [],
           deletions := is_set size\<rparr>)"

section \<open>Moves in ordered collections\<close>

text \<open>
  The loop over \<open>moves\<close> threads the insertions, which change when the row was moved before.
\<close>

fun move_loop :: "nat \<Rightarrow> nat \<Rightarrow> move list \<Rightarrow> crv \<Rightarrow> bool \<Rightarrow> move list \<times> crv \<times> bool" where
  "move_loop src dst [] I upd = ([], I, upd)"
| "move_loop src dst (m # ms) I upd =
     (if snd m \<noteq> src then
        let m' = (if dst \<le> snd m \<and> snd m < src then (fst m, snd m + 1)
                  else if snd m \<le> dst \<and> src < snd m then (fst m, snd m - 1) else m);
            (ms', I', upd') = move_loop src dst ms I upd
        in (m' # ms', I', upd')
      else
        let (ms', I', upd') = move_loop src dst ms (is_insert_at (is_erase_at I src) dst 1) True
        in ((fst m, dst) # ms', I', upd'))"

definition move_col :: "nat \<Rightarrow> nat \<Rightarrow> crv \<Rightarrow> crv" where
  "move_col src dst col =
     (let modified = is_contains col src; col1 = is_erase_at col src
      in if modified then is_insert_at col1 dst 1 else is_shift_for_insert_at col1 dst 1)"

definition cb_move :: "nat \<Rightarrow> nat \<Rightarrow> change_builder \<Rightarrow> change_builder" where
  "cb_move src dst b =
     (let (ms, I, upd) = move_loop src dst (moves b) (insertions b) False;
          b1 = b\<lparr>moves := ms, insertions := I\<rparr>;
          b2 = (if upd then b1
                else
                  let (I1, shifted_from) = is_erase_or_unshift (insertions b1) src;
                      I2 = is_insert_at I1 dst 1
                  in if shifted_from \<noteq> npos then
                       let (D, s) = is_add_shifted (deletions b1) shifted_from
                       in b1\<lparr>insertions := I2, deletions := D, moves := moves b1 @ [(s, dst)]\<rparr>
                     else b1\<lparr>insertions := I2\<rparr>)
      in for_each_col (move_col src dst) b2)"

section \<open>Moves in unordered tables\<close>

definition move_over_col :: "nat \<Rightarrow> nat \<Rightarrow> crv \<Rightarrow> crv" where
  "move_over_col row_ndx last_row col =
     (if is_contains col last_row then is_add (is_remove col last_row 1) row_ndx
      else is_remove col row_ndx 1)"

definition last_end :: "crv \<Rightarrow> nat" where
  "last_end m = snd (deref m (it_prev m (it_end m)))"

definition move_over :: "nat \<Rightarrow> nat \<Rightarrow> bool \<Rightarrow> change_builder \<Rightarrow> change_builder" where
  "move_over row_ndx last_row track_moves b =
     (if row_ndx = last_row then
        let b1 = (if track_moves then
                    let (I, shifted_from) = is_erase_or_unshift (insertions b) row_ndx;
                        D = (if shifted_from \<noteq> npos
                             then fst (is_add_shifted (deletions b) shifted_from) else deletions b)
                    in b\<lparr>insertions := I, deletions := D,
                         move_mapping := AList.delete row_ndx (move_mapping b)\<rparr>
                  else b)
        in for_each_col (\<lambda>col. is_remove col row_ndx 1) b1
      else
        let b1 = for_each_col (move_over_col row_ndx last_row) b
        in if \<not> track_moves then b1
           else
             let row_is_insertion = is_contains (insertions b1) row_ndx;
                 last_is_insertion = (insertions b1 \<noteq> [] \<and> last_end (insertions b1) = last_row + 1);
                 (mm, last_was_already_moved) =
                   (if last_is_insertion then
                      (case map_of (move_mapping b1) last_row of
                         Some old \<Rightarrow>
                           (AList.delete last_row (AList.update row_ndx old (move_mapping b1)), True)
                       | None \<Rightarrow> (move_mapping b1, False))
                    else (move_mapping b1, False));
                 mm1 = (if row_is_insertion \<and> \<not> last_was_already_moved
                        then AList.delete row_ndx mm else mm);
                 b2 = b1\<lparr>move_mapping := mm1\<rparr>;
                 b3 = (if last_is_insertion
                       then b2\<lparr>insertions := is_remove (insertions b2) last_row 1\<rparr>
                       else if \<not> last_was_already_moved then
                         let (D, s) = is_add_shifted (deletions b2) (is_unshift (insertions b2) last_row)
                         in b2\<lparr>deletions := D, move_mapping := AList.update row_ndx s (move_mapping b2)\<rparr>
                       else b2)
             in if \<not> row_is_insertion then
                  b3\<lparr>deletions :=
                       fst (is_add_shifted (deletions b3) (is_unshift (insertions b3) row_ndx)),
                     insertions := is_add (insertions b3) row_ndx\<rparr>
                else b3)"

definition swap_col :: "nat \<Rightarrow> nat \<Rightarrow> crv \<Rightarrow> crv" where
  "swap_col ndx_1 ndx_2 col =
     (let row_1_modified = is_contains col ndx_1; row_2_modified = is_contains col ndx_2
      in if row_1_modified \<noteq> row_2_modified then
           if row_1_modified then is_add (is_remove col ndx_1 1) ndx_2
           else is_add (is_remove col ndx_2 1) ndx_1
         else col)"

text \<open>Record a move of \<open>src\<close> to \<open>dst\<close> unless \<open>src\<close> is a new insertion.\<close>

definition add_swap_move :: "nat \<Rightarrow> nat \<Rightarrow> change_builder \<Rightarrow> change_builder" where
  "add_swap_move src dst b =
     (if \<not> is_contains (insertions b) src then
        let (D, s) = is_add_shifted (deletions b) (is_unshift (insertions b) src)
        in b\<lparr>deletions := D, move_mapping := AList.update dst s (move_mapping b),
             insertions := is_add (insertions b) src\<rparr>
      else b)"

definition update_move :: "nat \<Rightarrow> nat \<Rightarrow> nat \<Rightarrow> change_builder \<Rightarrow> change_builder" where
  "update_move original ndx_1 ndx_2 b =
     add_swap_move ndx_1 ndx_2
       (b\<lparr>move_mapping := AList.update ndx_1 original (AList.delete ndx_2 (move_mapping b))\<rparr>)"

definition cb_swap :: "nat \<Rightarrow> nat \<Rightarrow> bool \<Rightarrow> change_builder \<Rightarrow> change_builder" where
  "cb_swap x y track_moves b =
     (let (ndx_1, ndx_2) = (if y < x then (y, x) else (x, y));
          b1 = for_each_col (swap_col ndx_1 ndx_2) b
      in if \<not> track_moves then b1
         else case (map_of (move_mapping b1) ndx_1, map_of (move_mapping b1) ndx_2) of
           (Some old_1, Some old_2) \<Rightarrow>
             b1\<lparr>move_mapping := AList.update ndx_2 old_1 (AList.update ndx_1 old_2 (move_mapping b1))\<rparr>
         | (Some old_1, None) \<Rightarrow> update_move old_1 ndx_2 ndx_1 b1
         | (None, Some old_2) \<Rightarrow> update_move old_2 ndx_1 ndx_2 b1
         | (None, None) \<Rightarrow> add_swap_move ndx_1 ndx_2 (add_swap_move ndx_2 ndx_1 b1))"

definition subsume :: "nat \<Rightarrow> nat \<Rightarrow> bool \<Rightarrow> change_builder \<Rightarrow> change_builder" where
  "subsume old_ndx new_ndx track_moves b =
     (let b1 = for_each_col (\<lambda>col. if is_contains col old_ndx then is_add col new_ndx else col) b
      in if \<not> track_moves then b1
         else case map_of (move_mapping b1) old_ndx of
           Some old \<Rightarrow>
             b1\<lparr>move_mapping := AList.delete old_ndx (AList.update new_ndx old (move_mapping b1))\<rparr>
         | None \<Rightarrow>
             if \<not> is_contains (insertions b1) old_ndx then
               b1\<lparr>move_mapping := AList.update new_ndx
                    (is_shift (deletions b1) (is_unshift (insertions b1) old_ndx)) (move_mapping b1)\<rparr>
             else b1)"

fun parse_moves :: "(nat \<times> nat) list \<Rightarrow> change_builder \<Rightarrow> change_builder" where
  "parse_moves [] b = b"
| "parse_moves (p # ps) b =
     (if fst p = snd p then
        parse_moves ps (b\<lparr>deletions := is_remove (deletions b) (snd p) 1,
                          insertions := is_remove (insertions b) (fst p) 1\<rparr>)
      else parse_moves ps (b\<lparr>moves := moves b @ [(snd p, fst p)]\<rparr>))"

definition parse_complete :: "change_builder \<Rightarrow> change_builder" where
  "parse_complete b =
     (let b1 = (parse_moves (move_mapping b) b)\<lparr>move_mapping := []\<rparr>
      in b1\<lparr>moves := sort_key fst (moves b1)\<rparr>)"

section \<open>Merging two change sets\<close>

fun clean_up :: "move list \<Rightarrow> crv \<Rightarrow> crv \<Rightarrow> move list \<times> crv \<times> crv" where
  "clean_up [] D I = ([], D, I)"
| "clean_up (m # ms) D I =
     (if fst m - is_count D 0 (fst m) \<noteq> snd m - is_count I 0 (snd m)
      then let (ms', D', I') = clean_up ms D I in (m # ms', D', I')
      else clean_up ms (is_remove D (fst m) 1) (is_remove I (snd m) 1))"

definition clean_up_stale_moves :: "change_builder \<Rightarrow> change_builder" where
  "clean_up_stale_moves b =
     (let (ms, D, I) = clean_up (moves b) (deletions b) (insertions b)
      in b\<lparr>moves := ms, deletions := D, insertions := I\<rparr>)"

definition each_col2 ::
  "(crv \<Rightarrow> crv \<Rightarrow> crv \<times> crv) \<Rightarrow> change_builder \<Rightarrow> change_builder \<Rightarrow> change_builder \<times> change_builder"
where
  "each_col2 f b c =
     (let (m, cm) = f (modifications b) (modifications c);
          b1 = b\<lparr>modifications := m\<rparr>; c1 = c\<lparr>modifications := cm\<rparr>
      in if track_columns b1 then
           let bc = (if length (columns b1) < length (columns c1)
                     then resize (length (columns c1)) (columns b1) else columns b1);
               cc = (if length (columns c1) < length (columns b1)
                     then resize (length (columns b1)) (columns c1) else columns c1);
               ps = map2 f bc cc
           in (b1\<lparr>columns := map fst ps\<rparr>, c1\<lparr>columns := map snd ps\<rparr>)
         else (b1, c1))"

definition carry_modified :: "move \<Rightarrow> crv \<Rightarrow> crv \<Rightarrow> crv \<times> crv" where
  "carry_modified m col other =
     (col, if is_contains col (fst m) then is_add other (snd m) else other)"

fun find_move :: "nat \<Rightarrow> move list \<Rightarrow> nat option" where
  "find_move to' [] = None"
| "find_move to' (m # ms) = (if to' = fst m then Some 0 else map_option Suc (find_move to' ms))"

fun update_old_moves ::
  "move list \<Rightarrow> change_builder \<Rightarrow> change_builder \<Rightarrow> move list \<times> change_builder \<times> change_builder"
where
  "update_old_moves [] b c = ([], b, c)"
| "update_old_moves (old # olds) b c =
     (case find_move (snd old) (moves c) of
        Some k \<Rightarrow>
          let m = moves c ! k;
              (b1, c1) = each_col2 (carry_modified m) b c;
              c2 = c1\<lparr>moves := butlast ((moves c1)[k := last (moves c1)])\<rparr>;
              (ms, b', c') = update_old_moves olds b1 c2
          in ((fst old, snd m) # ms, b', c')
      | None \<Rightarrow>
          if is_contains (deletions c) (snd old) then update_old_moves olds b c
          else
            let (ms, b', c') = update_old_moves olds b c
            in ((fst old, is_shift (insertions c) (is_unshift (deletions c) (snd old))) # ms, b', c'))"

fun carry_moves :: "move list \<Rightarrow> change_builder \<Rightarrow> change_builder \<Rightarrow> change_builder \<times> change_builder" where
  "carry_moves [] b c = (b, c)"
| "carry_moves (m # ms) b c =
     (let (b1, c1) = each_col2 (carry_modified m) b c in carry_moves ms b1 c1)"

definition cb_merge :: "change_builder \<Rightarrow> change_builder \<Rightarrow> change_builder" where
  "cb_merge b c =
     (if cs_empty c then b
      else if cs_empty b then c
      else
        let (b1, c1) =
              (if moves c \<noteq> [] \<or> deletions c \<noteq> [] \<or> insertions c \<noteq> [] then
                 let (ms, b', c') = update_old_moves (moves b) b c in (b'\<lparr>moves := ms\<rparr>, c')
               else (b, c));
            c2 = (if insertions b1 \<noteq> [] \<and> moves c1 \<noteq> []
                  then c1\<lparr>moves := filter (\<lambda>m. \<not> is_contains (insertions b1) (fst m)) (moves c1)\<rparr>
                  else c1);
            (b3, c3) = (if modifications b1 \<noteq> [] \<and> moves c2 \<noteq> []
                        then carry_moves (moves c2) b1 c2 else (b1, c2));
            c4 = (if deletions b3 \<noteq> [] \<or> insertions b3 \<noteq> []
                  then c3\<lparr>moves := map (\<lambda>m. (is_shift (deletions b3) (is_unshift (insertions b3) (fst m)),
                                             snd m)) (moves c3)\<rparr>
                  else c3);
            b4 = b3\<lparr>moves := moves b3 @ moves c4,
                    deletions := is_add_shifted_by (deletions b3) (insertions b3) (deletions c4),
                    insertions := is_insert_set (is_erase_set (insertions b3) (deletions c4))
                                    (insertions c4)\<rparr>;
            b5 = clean_up_stale_moves b4
        in fst (each_col2
             (\<lambda>col other.
                (is_add_set (is_shift_for_insert_set (is_erase_set col (deletions c4)) (insertions c4))
                   other, other)) b5 c4))"

section \<open>Columns and the final change set\<close>

definition std_rotate :: "nat \<Rightarrow> nat \<Rightarrow> nat \<Rightarrow> 'a list \<Rightarrow> 'a list" where
  "std_rotate first mid last' xs =
     take first xs @ drop mid (take last' xs) @ drop first (take mid xs) @ drop last' xs"

definition insert_column :: "nat \<Rightarrow> change_builder \<Rightarrow> change_builder" where
  "insert_column ndx b =
     (if ndx < length (columns b)
      then b\<lparr>columns := take ndx (columns b) @ [] # drop ndx (columns b)\<rparr> else b)"

definition move_column :: "nat \<Rightarrow> nat \<Rightarrow> change_builder \<Rightarrow> change_builder" where
  "move_column src dst b =
     (let n = length (columns b)
      in if n \<le> src \<and> n \<le> dst then b
         else
           let cs = (if n \<le> src \<or> n \<le> dst then resize (max src dst + 1) (columns b) else columns b)
           in b\<lparr>columns := (if src < dst then std_rotate src (src + 1) (dst + 1) cs
                            else std_rotate dst src (src + 1) cs)\<rparr>)"

definition finalize :: "change_builder \<Rightarrow> change_set" where
  "finalize b =
     (let in_old = is_shift_for_insert_set (is_erase_set (modifications b) (insertions b)) (deletions b);
          in_new = is_remove_set (modifications b) (insertions b)
      in \<lparr>deletions = deletions b, insertions = insertions b, modifications = in_old,
          modifications_new = in_new, moves = moves b, columns = columns b\<rparr>)"

definition cb_verify :: "change_builder \<Rightarrow> bool" where
  "cb_verify b \<longleftrightarrow>
     list_all (\<lambda>m. is_contains (deletions b) (fst m) \<and> is_contains (insertions b) (snd m)) (moves b)"

end
