(* ===== verification/ChangeBuilderLaws.thy ===== *)
theory ChangeBuilderLaws imports ChangeBuilder PositionSet "HOL-Library.Multiset" begin

text \<open>
  The meaning of a change builder is \<open>row_map\<close>, the relation between the positions of the
  old and the new collection that its deletions, insertions and moves describe.  Each operation
  composes that relation with the step it records, keeps the invariant the program's own
  \<open>verify\<close> checks, and carries the marks of modified rows and columns along.
\<close>

section \<open>Meaning and invariant\<close>

definition all_moves :: "change_builder \<Rightarrow> move list" where
  "all_moves b = moves b @ map prod.swap (move_mapping b)"

definition row_map :: "change_builder \<Rightarrow> (nat \<times> nat) set" where
  "row_map b = survives (indices (deletions b)) (indices (insertions b)) \<union> set (all_moves b)"

definition moves_ok :: "nat set \<Rightarrow> nat set \<Rightarrow> move list \<Rightarrow> bool" where
  "moves_ok D I ms \<longleftrightarrow> set ms \<subseteq> D \<times> I \<and> distinct (map fst ms) \<and> distinct (map snd ms)"

definition sets_ok :: "change_builder \<Rightarrow> bool" where
  "sets_ok b \<longleftrightarrow> crv_wf (deletions b) \<and> crv_wf (insertions b) \<and> crv_wf (modifications b) \<and>
     (\<forall>c\<in>set (columns b). crv_wf c)"

definition cb_ok :: "change_builder \<Rightarrow> bool" where
  "cb_ok b \<longleftrightarrow> sets_ok b \<and>
     moves_ok (indices (deletions b)) (indices (insertions b)) (all_moves b)"

definition marks :: "change_builder \<Rightarrow> nat set list" where
  "marks b = map indices (modifications b # columns b)"

abbreviation carried :: "(nat \<times> nat) set \<Rightarrow> change_builder \<Rightarrow> change_builder \<Rightarrow> bool" where
  "carried step b b' \<equiv> track_columns b \<longrightarrow> marks b' = map (Image step) (marks b)"

lemma verify_of_ok: "cb_ok b \<Longrightarrow> cb_verify b"
  by (auto simp: cb_ok_def sets_ok_def moves_ok_def all_moves_def cb_verify_def list_all_iff is_contains_ok)

lemma finite_indices [simp]: "finite (indices m)"
  by (simp add: indices_def)

lemma for_each_col_simps [simp]:
  "deletions (for_each_col f b) = deletions b" "insertions (for_each_col f b) = insertions b"
  "moves (for_each_col f b) = moves b" "move_mapping (for_each_col f b) = move_mapping b"
  "track_columns (for_each_col f b) = track_columns b"
  by (simp_all add: for_each_col_def)

lemma for_each_col_ok:
  assumes "sets_ok b" and "\<And>c. c \<in> set (modifications b # columns b) \<Longrightarrow> crv_wf c \<Longrightarrow>
    crv_wf (f c) \<and> indices (f c) = step `` indices c"
  shows "sets_ok (for_each_col f b)" and "carried step b (for_each_col f b)"
  using assms by (auto simp: sets_ok_def for_each_col_def marks_def)

lemma tracked_step:
  assumes "finite D" "finite I" "finite D'" "finite I'"
    and "set ms \<subseteq> D \<times> I" and "set ms' \<subseteq> D' \<times> I'"
    and "set nms = set ms O (survives D' I' \<union> set ms') \<union> survives D I O set ms'"
  shows "survives (both_deletions D I D') (both_insertions I D' I') \<union> set nms =
      (survives D I \<union> set ms) O (survives D' I' \<union> set ms')"
    and "set nms \<subseteq> both_deletions D I D' \<times> both_insertions I D' I'"
proof -
  show "survives (both_deletions D I D') (both_insertions I D' I') \<union> set nms =
      (survives D I \<union> set ms) O (survives D' I' \<union> set ms')"
    unfolding survives_compose[OF assms(1-4)] assms(7) by auto
  have 1: "D \<subseteq> both_deletions D I D'" "I' \<subseteq> both_insertions I D' I'"
    by (auto simp: both_deletions_def both_insertions_def)
  have "(i, k) \<in> both_deletions D I D' \<times> both_insertions I D' I'" if ik: "(i, k) \<in> set nms" for i k
  proof -
    consider j where "(i, j) \<in> set ms" "(j, k) \<in> survives D' I'" | j where "(i, j) \<in> set ms" "(j, k) \<in> set ms'"
      | j where "(i, j) \<in> survives D I" "(j, k) \<in> set ms'"
      using ik assms(7) by blast
    then show ?thesis
    proof cases
      case 1
      with both_insertions_survivor[OF 1(2), of I] assms(5) \<open>D \<subseteq> _\<close> show ?thesis by blast
    next
      case 2
      with assms(5,6) 1 show ?thesis by blast
    next
      case 3
      with both_deletions_survivor[OF 3(1), of D'] assms(6) \<open>I' \<subseteq> _\<close> show ?thesis by blast
    qed
  qed
  then show "set nms \<subseteq> both_deletions D I D' \<times> both_insertions I D' I'" by auto
qed

text \<open>The obligations of one operation that records the step with deletions \<open>D'\<close> etc.\<close>

lemma step_recorded:
  assumes "cb_ok b" and "sets_ok b'" and "finite D'" "finite I'" and "set ms' \<subseteq> D' \<times> I'"
    and "indices (deletions b') = both_deletions (indices (deletions b)) (indices (insertions b)) D'"
    and "indices (insertions b') = both_insertions (indices (insertions b)) D' I'"
    and "set (all_moves b') = set (all_moves b) O (survives D' I' \<union> set ms') \<union>
      survives (indices (deletions b)) (indices (insertions b)) O set ms'"
    and "distinct (map fst (all_moves b'))" and "distinct (map snd (all_moves b'))"
  shows "cb_ok b'" and "row_map b' = row_map b O (survives D' I' \<union> set ms')"
proof -
  have "set (all_moves b) \<subseteq> indices (deletions b) \<times> indices (insertions b)"
    using assms(1) by (simp add: cb_ok_def moves_ok_def)
  note t = tracked_step[OF finite_indices finite_indices assms(3,4) this assms(5,8)]
  show "cb_ok b'" using t(2) assms(2,6,7,9,10) by (simp add: cb_ok_def moves_ok_def)
  show "row_map b' = row_map b O (survives D' I' \<union> set ms')"
    using t(1) assms(6,7) by (simp add: row_map_def)
qed

section \<open>Following the moves through a step\<close>

lemma map_to_step:
  "set (map (\<lambda>m. (fst m, g (snd m))) ms) = set ms O {(j, k). k = g j}"
  by force

lemma map_to_distinct:
  assumes "distinct (map fst ms)" and "distinct (map snd ms)" and "inj_on g (set (map snd ms))"
  shows "distinct (map fst (map (\<lambda>m. (fst m, g (snd m))) ms))"
    and "distinct (map snd (map (\<lambda>m. (fst m, g (snd m))) ms))"
proof -
  show "distinct (map fst (map (\<lambda>m. (fst m, g (snd m))) ms))" using assms(1) by (simp add: comp_def)
  have "distinct (map g (map snd ms))" using assms(2,3) by (simp only: distinct_map)
  then show "distinct (map snd (map (\<lambda>m. (fst m, g (snd m))) ms))" by (simp add: comp_def)
qed

lemma mset_parts: "mset (filter P xs @ filter (\<lambda>x. \<not> P x) xs) = mset xs"
  by (induction xs) auto

lemma distinct_map_mset: "mset xs = mset ys \<Longrightarrow> distinct (map f xs) \<longleftrightarrow> distinct (map f ys)"
  by (rule mset_eq_imp_distinct_iff) simp

definition insert_to :: "nat \<Rightarrow> nat \<Rightarrow> nat \<Rightarrow> nat" where
  "insert_to i n j = (if j < i then j else j + n)"

lemma insert_step_graph: "insert_step i n = {(j, k). k = insert_to i n j}"
  by (simp add: insert_step_def insert_to_def)

lemma inj_insert_to: "inj_on (insert_to i n) A"
  by (auto simp: insert_to_def inj_on_def split: if_splits)

lemma shift_keys_eq:
  "map prod.swap (shift_keys i n mm) =
     map (\<lambda>m. (fst m, insert_to i n (snd m)))
       (filter (\<lambda>m. snd m < i) (map prod.swap mm) @ filter (\<lambda>m. \<not> snd m < i) (map prod.swap mm))"
  by (auto simp: shift_keys_def insert_to_def comp_def filter_map not_less)

lemma cb_insert_ok:
  assumes "cb_ok b" and "0 < n"
  shows "cb_ok (cb_insert i n True b)" and "row_map (cb_insert i n True b) = row_map b O insert_step i n"
    and "carried (insert_step i n) b (cb_insert i n True b)"
proof -
  let ?b1 = "for_each_col (\<lambda>col. is_shift_for_insert_at col i n) b" and ?b' = "cb_insert i n True b"
  let ?g = "\<lambda>m. (fst m, insert_to i n (snd m))"
  let ?D = "indices (deletions b)" and ?I = "indices (insertions b)"
  have col: "crv_wf c \<Longrightarrow> crv_wf (is_shift_for_insert_at c i n) \<and>
      indices (is_shift_for_insert_at c i n) = insert_step i n `` indices c" for c
    using assms(2) by (simp add: is_shift_for_insert_at_ok step_image)
  have s: "sets_ok b" using assms(1) by (simp add: cb_ok_def)
  note f = for_each_col_ok[of b "\<lambda>c. is_shift_for_insert_at c i n", OF s col]
  have b': "deletions ?b' = deletions b" "insertions ?b' = is_insert_at (insertions b) i n"
    "moves ?b' = map ?g (moves b)" "modifications ?b' = modifications ?b1" "columns ?b' = columns ?b1"
    "move_mapping ?b' = shift_keys i n (move_mapping b)"
    by (auto simp: cb_insert_def Let_def insert_to_def shift_keys_def split: if_splits intro!: map_cong)
  then show "carried (insert_step i n) b ?b'" using f(2) by (simp add: marks_def)
  have I': "crv_wf (is_insert_at (insertions b) i n)"
    "indices (is_insert_at (insertions b) i n) = both_insertions ?I {} {i..<i + n}"
    using s by (auto simp: sets_ok_def is_insert_at_ok)
  have so: "sets_ok ?b'" using f(1) I' b' s by (simp add: sets_ok_def)
  define l where "l = moves b @ filter (\<lambda>m. snd m < i) (map prod.swap (move_mapping b)) @
    filter (\<lambda>m. \<not> snd m < i) (map prod.swap (move_mapping b))"
  have am: "all_moves ?b' = map ?g l" by (simp add: all_moves_def b' shift_keys_eq l_def)
  have sl: "set l = set (all_moves b)" by (auto simp: l_def all_moves_def)
  have mo: "moves_ok ?D ?I (all_moves b)" using assms(1) by (simp add: cb_ok_def)
  have "mset l = mset (all_moves b)"
    unfolding l_def all_moves_def mset_append[of "moves b"] mset_parts ..
  then have dl: "distinct (map fst l)" "distinct (map snd l)"
    using mo distinct_map_mset[of l "all_moves b"] unfolding moves_ok_def by blast+
  have set: "set (map ?g l) = set (all_moves b) O (survives {} {i..<i + n} \<union> set [])
      \<union> survives ?D ?I O set []"
    using map_to_step[of "insert_to i n" l] sl by (simp add: survives_insert insert_step_graph)
  have d: "distinct (map fst (all_moves ?b'))" "distinct (map snd (all_moves ?b'))"
    unfolding am by (rule map_to_distinct[OF dl inj_insert_to])+
  have D': "indices (deletions ?b') = both_deletions ?D ?I {}" by (simp add: b')
  have I2: "indices (insertions ?b') = both_insertions ?I {} {i..<i + n}" using b'(2) I'(2) by simp
  note r = step_recorded[OF assms(1) so _ _ _ D' I2 set[folded am] d]
  from r show "cb_ok ?b'" by simp
  from r(2) show "row_map ?b' = row_map b O insert_step i n" by (simp add: survives_insert)
qed

section \<open>Erasing a row\<close>

lemma erase_moves_eq:
  "erase_moves i ms =
     map (\<lambda>m. (fst m, if snd m < i then snd m else snd m - 1)) (filter (\<lambda>m. snd m \<noteq> i) ms)"
  by (induction ms) auto

lemma all_moves_ordered [simp]: "move_mapping b = [] \<Longrightarrow> all_moves b = moves b"
  by (simp add: all_moves_def)

lemma cb_erase_ok:
  assumes "cb_ok b" and "move_mapping b = []" and "i < npos"
  shows "cb_ok (cb_erase i b)" and "row_map (cb_erase i b) = row_map b O erase_step i"
    and "carried (erase_step i) b (cb_erase i b)" and "move_mapping (cb_erase i b) = []"
proof -
  let ?b1 = "for_each_col (\<lambda>col. is_erase_at col i) b" and ?b' = "cb_erase i b"
  let ?D = "indices (deletions b)" and ?I = "indices (insertions b)"
  have col: "crv_wf c \<Longrightarrow> crv_wf (is_erase_at c i) \<and> indices (is_erase_at c i) = erase_step i `` indices c" for c
    by (simp add: is_erase_at_ok step_image)
  have s: "sets_ok b" using assms(1) by (simp add: cb_ok_def)
  note f = for_each_col_ok[of b "\<lambda>c. is_erase_at c i", OF s col]
  obtain I' u where e: "is_erase_or_unshift (insertions b) i = (I', u)"
    by (cases "is_erase_or_unshift (insertions b) i")
  define D' where "D' = (if u \<noteq> npos then fst (is_add_shifted (deletions b) u) else deletions b)"
  have wf: "crv_wf (deletions b)" "crv_wf (insertions b)" using s by (simp_all add: sets_ok_def)
  note er = index_set.erase_row[OF wf assms(3) e D'_def]
  have b': "deletions ?b' = D'" "insertions ?b' = I'" "moves ?b' = erase_moves i (moves b)"
    "modifications ?b' = modifications ?b1" "columns ?b' = columns ?b1" "move_mapping ?b' = move_mapping b"
    by (auto simp: cb_erase_def Let_def D'_def e for_each_col_def)
  then show "carried (erase_step i) b ?b'" using f(2) by (simp add: marks_def)
  have so: "sets_ok ?b'" using f(1) er b' by (simp add: sets_ok_def)
  have mo: "moves_ok ?D ?I (moves b)" using assms by (simp add: cb_ok_def)
  let ?l = "filter (\<lambda>m. snd m \<noteq> i) (moves b)"
  have dl: "distinct (map fst ?l)" "distinct (map snd ?l)"
    using mo by (simp_all add: moves_ok_def distinct_map_filter)
  have inj: "inj_on (\<lambda>j. if j < i then j else j - 1) (set (map snd ?l))"
    by (auto simp: inj_on_def split: if_splits)
  have set: "set (erase_moves i (moves b)) = set (moves b) O (survives {i} {} \<union> set [])
      \<union> survives ?D ?I O set []"
    by (force simp: erase_moves_eq survives_erase erase_step_def)
  show "move_mapping ?b' = []" using b'(6) assms(2) by simp
  have d: "distinct (map fst (moves ?b'))" "distinct (map snd (moves ?b'))"
    unfolding b'(3) erase_moves_eq by (rule map_to_distinct[OF dl inj])+
  have r: "cb_ok ?b'" "row_map ?b' = row_map b O (survives {i} {} \<union> set [])"
    using step_recorded[OF assms(1) so, of "{i}" "{}" "[]"] d set er b' assms(2) by simp_all
  from r show "cb_ok ?b'" by simp
  from r(2) show "row_map ?b' = row_map b O erase_step i" by (simp add: survives_erase)
qed

section \<open>Moving a row of an ordered collection\<close>

definition move_to :: "nat \<Rightarrow> nat \<Rightarrow> nat \<Rightarrow> nat" where
  "move_to src dst j =
     (if j = src then dst
      else if dst \<le> j \<and> j < src then j + 1 else if j \<le> dst \<and> src < j then j - 1 else j)"

lemma move_step_graph: "move_step src dst = {(j, k). k = move_to src dst j}"
  by (auto simp: move_step_def move_to_def split: if_splits)

lemma inj_move_to: "inj_on (move_to src dst) A"
  by (auto simp: move_to_def inj_on_def split: if_splits)

lemma move_loop_absent:
  "src \<notin> set (map snd ms) \<Longrightarrow>
     move_loop src dst ms I upd = (map (\<lambda>m. (fst m, move_to src dst (snd m))) ms, I, upd)"
  by (induction ms arbitrary: I upd) (auto simp: move_to_def Let_def)

lemma move_loop_present:
  "distinct (map snd ms) \<Longrightarrow> src \<in> set (map snd ms) \<Longrightarrow>
     move_loop src dst ms I upd =
       (map (\<lambda>m. (fst m, move_to src dst (snd m))) ms, is_insert_at (is_erase_at I src) dst 1, True)"
proof (induction ms arbitrary: I upd)
  case (Cons m ms)
  show ?case
  proof (cases "snd m = src")
    case True
    then have "src \<notin> set (map snd ms)" using Cons.prems(1) by auto
    from move_loop_absent[OF this] True show ?thesis by (simp add: move_to_def)
  next
    case False
    then have "src \<in> set (map snd ms)" "distinct (map snd ms)" using Cons.prems by auto
    from Cons.IH[OF this(2,1)] False show ?thesis by (auto simp: move_to_def Let_def)
  qed
qed simp

lemma move_col_ok:
  "crv_wf c \<Longrightarrow> crv_wf (move_col f t c) \<and> indices (move_col f t c) = move_step f t `` indices c"
  by (rule index_set.moved_marks) (simp_all add: move_col_def Let_def)

lemma both_moved:
  assumes "crv_wf I" and "crv_wf (is_erase_at I f)"
  shows "indices (is_insert_at (is_erase_at I f) t 1) = both_insertions (indices I) {f} {t}"
  using assms by (simp add: both_insertions_move is_erase_at_ok index_set.insert_one[simplified])

lemma cb_move_ok:
  assumes "cb_ok b" and "move_mapping b = []" and "src < npos"
  shows "cb_ok (cb_move src dst b)" and "row_map (cb_move src dst b) = row_map b O move_step src dst"
    and "carried (move_step src dst) b (cb_move src dst b)" and "move_mapping (cb_move src dst b) = []"
proof -
  let ?D = "indices (deletions b)" and ?I = "indices (insertions b)" and ?b' = "cb_move src dst b"
  let ?g = "map (\<lambda>m. (fst m, move_to src dst (snd m))) (moves b)"
  have s: "sets_ok b" and wf: "crv_wf (deletions b)" "crv_wf (insertions b)"
    using assms(1) by (simp_all add: cb_ok_def sets_ok_def)
  note f = for_each_col_ok[of _ "move_col src dst", OF _ move_col_ok]
  have mo: "moves_ok ?D ?I (moves b)" using assms by (simp add: cb_ok_def)
  then have dl: "distinct (map fst (moves b))" "distinct (map snd (moves b))" by (simp_all add: moves_ok_def)
  have dg: "distinct (map fst ?g)" "distinct (map snd ?g)"
    by (rule map_to_distinct[OF dl inj_move_to])+
  have sg: "set ?g = set (moves b) O move_step src dst"
    using map_to_step[of "move_to src dst" "moves b"] by (simp add: move_step_graph)
  have ms: "move_step src dst = survives {src} {dst} \<union> set [(src, dst)]"
    by (simp flip: survives_move)
  have main: "cb_ok ?b' \<and> row_map ?b' = row_map b O move_step src dst \<and>
      carried (move_step src dst) b ?b' \<and> move_mapping ?b' = []"
    if eq: "?b' = for_each_col (move_col src dst) (b\<lparr>moves := ms', insertions := I', deletions := D'\<rparr>)"
      and wf': "crv_wf D'" "crv_wf I'" and D': "indices D' = both_deletions ?D ?I {src}"
      and I': "indices I' = both_insertions ?I {src} {dst}"
      and set: "set ms' = set (moves b) O move_step src dst \<union> survives ?D ?I O {(src, dst)}"
      and d: "distinct (map fst ms')" "distinct (map snd ms')" for D' I' ms'
  proof -
    have upd: "deletions ?b' = D'" "insertions ?b' = I'" "moves ?b' = ms'" "move_mapping ?b' = []"
      "modifications ?b' = modifications (for_each_col (move_col src dst) b)"
      "columns ?b' = columns (for_each_col (move_col src dst) b)"
      unfolding eq by (simp_all add: for_each_col_def assms(2))
    have so: "sets_ok ?b'" using f(1)[OF s] upd wf' by (simp add: sets_ok_def)
    have "cb_ok ?b'" "row_map ?b' = row_map b O (survives {src} {dst} \<union> set [(src, dst)])"
      using step_recorded[OF assms(1) so, of "{src}" "{dst}" "[(src, dst)]"]
        upd D' I' set[unfolded ms] d assms(2) by simp_all
    moreover have "carried (move_step src dst) b ?b'" using f(2)[OF s] upd(5,6) by (simp add: marks_def)
    ultimately show ?thesis using upd(4) ms by simp
  qed
  have "cb_ok ?b' \<and> row_map ?b' = row_map b O move_step src dst \<and>
      carried (move_step src dst) b ?b' \<and> move_mapping ?b' = []"
  proof (cases "src \<in> set (map snd (moves b))")
    case True
    then have inI: "src \<in> ?I" using mo by (auto simp: moves_ok_def)
    have none: "survives ?D ?I O {(src, dst)} = {}" using inI by (auto simp: survives_iff)
    have b': "?b' = for_each_col (move_col src dst)
        (b\<lparr>moves := ?g, insertions := is_insert_at (is_erase_at (insertions b) src) dst 1,
           deletions := deletions b\<rparr>)"
      using move_loop_present[OF dl(2) True] by (simp add: cb_move_def Let_def)
    show ?thesis
    proof (rule main[OF b' wf(1)])
      show wI: "crv_wf (is_insert_at (is_erase_at (insertions b) src) dst 1)"
        using wf(2) by (simp add: is_erase_at_ok is_insert_at_ok)
      show "?D = both_deletions ?D ?I {src}" using both_deletions_insert(2)[OF inI, of ?D "{}"] by simp
      show "indices (is_insert_at (is_erase_at (insertions b) src) dst 1) = both_insertions ?I {src} {dst}"
        using wf(2) by (intro both_moved) (simp_all add: is_erase_at_ok)
      show "set ?g = set (moves b) O move_step src dst \<union> survives ?D ?I O {(src, dst)}"
        unfolding sg none by simp
    qed (rule dg)+
  next
    case False
    obtain I1 u where e: "is_erase_or_unshift (insertions b) src = (I1, u)"
      by (cases "is_erase_or_unshift (insertions b) src")
    note el = is_erase_or_unshift_ok[OF wf(2) e]
    define D' where "D' = (if u \<noteq> npos then fst (is_add_shifted (deletions b) u) else deletions b)"
    note er = index_set.erase_row[OF wf assms(3) e D'_def]
    have I2: "crv_wf (is_insert_at I1 dst 1)"
      "indices (is_insert_at I1 dst 1) = both_insertions ?I {src} {dst}"
      using el index_set.insert_one[OF el(1), of dst] by (simp_all add: both_insertions_move is_insert_at_ok)
    note ml = move_loop_absent[OF False]
    show ?thesis
    proof (cases "src \<in> ?I")
      case True
      then have u: "u = npos" using el(3) by simp
      have none: "survives ?D ?I O {(src, dst)} = {}" using True by (auto simp: survives_iff)
      have b': "?b' = for_each_col (move_col src dst) (b\<lparr>moves := ?g, insertions := is_insert_at I1 dst 1, deletions := D'\<rparr>)"
        using ml e u by (simp add: cb_move_def Let_def D'_def)
      have "set ?g = set (moves b) O move_step src dst \<union> survives ?D ?I O {(src, dst)}"
        unfolding sg none by simp
      from main[OF b' _ I2(1) _ I2(2) this dg] er show ?thesis by simp
    next
      case nI: False
      then have "u = rank ?I src" using el(3) by simp
      then have u: "u \<noteq> npos" "u = is_unshift (insertions b) src"
        using assms(3) is_unshift_ok[OF wf(2)] by (simp_all add: rank_def)
      obtain x where a: "is_add_shifted (deletions b) u = (D', x)"
        using u(1) by (cases "is_add_shifted (deletions b) u") (simp add: D'_def)
      note dr = index_set.delete_row[OF wf nI a[unfolded u(2)]]
      have comp: "survives ?D ?I O {(src, dst)} = {(x, dst)}"
        using dr(2) survives_left_unique by blast
      have b': "?b' = for_each_col (move_col src dst)
          (b\<lparr>moves := ?g @ [(x, dst)], insertions := is_insert_at I1 dst 1, deletions := D'\<rparr>)"
        using ml e u(1) a by (auto simp: cb_move_def Let_def intro!: arg_cong[of _ _ "for_each_col _"])
      have "x \<notin> ?D" using dr(2) by (simp add: survives_iff)
      then have x: "x \<notin> fst ` set (moves b)" using mo by (auto simp: moves_ok_def)
      have "dst \<notin> set (map snd ?g)"
        using False by (auto simp: move_to_def image_iff split: if_splits)
      then have d: "distinct (map fst (?g @ [(x, dst)]))" "distinct (map snd (?g @ [(x, dst)]))"
        using dg x by (auto simp: image_image)
      have "set (?g @ [(x, dst)]) = set (moves b) O move_step src dst \<union> survives ?D ?I O {(src, dst)}"
        unfolding set_append sg comp by simp
      from main[OF b' _ I2(1) _ I2(2) this d] er show ?thesis by simp
    qed
  qed
  then show "cb_ok ?b'" and "row_map ?b' = row_map b O move_step src dst"
    and "carried (move_step src dst) b ?b'" and "move_mapping ?b' = []" by simp_all
qed

section \<open>Clearing\<close>

lemma is_set_ok: "crv_wf (is_set n) \<and> indices (is_set n) = {..<n}"
proof (cases "n = 0")
  case False
  then have "crv_wf (crv_push_back [] (0, n))" "flat (crv_push_back [] (0, n)) = [(0, n)]"
    using push_back_ok[of "[]" "(0, n)"] by (simp_all add: crv_wf_def)
  with False show ?thesis by (auto simp: is_set_def indices_def)
qed (simp add: is_set_def)

lemma card_indices: "crv_wf m \<Longrightarrow> card (indices m) = sum_list (map (\<lambda>r. snd r - fst r) (flat m))"
  by (simp add: indices_def covered_card crv_wf_def range_total_alt)

lemma cb_clear_ok:
  assumes "cb_ok b" and "old_size \<noteq> npos"
  shows "cb_ok (cb_clear old_size b)"
    and "indices (deletions (cb_clear old_size b)) =
      {..<old_size + card (indices (deletions b)) - card (indices (insertions b))}"
  using assms is_set_ok
  by (simp_all add: cb_clear_def cb_ok_def sets_ok_def moves_ok_def all_moves_def card_indices)

section \<open>Moves that became no-ops\<close>

lemma moves_ok_remove:
  assumes "moves_ok D I ms" and "f \<notin> fst ` set ms" and "t \<notin> snd ` set ms"
  shows "moves_ok (D - {f}) (I - {t}) ms"
proof -
  have "m \<in> (D - {f}) \<times> (I - {t})" if m: "m \<in> set ms" for m
  proof -
    have "m \<in> D \<times> I" using assms(1) m by (auto simp: moves_ok_def)
    moreover have "fst m \<noteq> f" "snd m \<noteq> t" using assms(2,3) m by blast+
    ultimately show ?thesis by auto
  qed
  with assms(1) show ?thesis unfolding moves_ok_def by blast
qed

lemma moves_ok_Cons:
  "moves_ok D I ((f, t) # ms) \<longleftrightarrow>
     f \<in> D \<and> t \<in> I \<and> f \<notin> fst ` set ms \<and> t \<notin> snd ` set ms \<and> moves_ok D I ms"
  by (auto simp: moves_ok_def)

lemma moves_ok_mset: "mset ms = mset ms' \<Longrightarrow> moves_ok D I ms \<longleftrightarrow> moves_ok D I ms'"
  unfolding moves_ok_def 
  using distinct_map_mset[of ms ms' fst] distinct_map_mset[of ms ms' snd] mset_eq_setD[of ms ms'] by simp

lemma clean_up_ok:
  assumes "crv_wf D" and "crv_wf I" and "moves_ok (indices D) (indices I) ms"
    and "clean_up ms D I = (ms', D', I')"
  shows "crv_wf D' \<and> crv_wf I' \<and> set ms' \<subseteq> set ms \<and> moves_ok (indices D') (indices I') ms' \<and>
    indices D - fst ` set ms \<subseteq> indices D' \<and> indices I - snd ` set ms \<subseteq> indices I' \<and>
    survives (indices D') (indices I') \<union> set ms' = survives (indices D) (indices I) \<union> set ms"
  using assms
proof (induction ms arbitrary: D I ms')
  case (Cons m ms)
  obtain f t where m: "m = (f, t)" by (cases m)
  have mo: "moves_ok (indices D) (indices I) ms" "f \<in> indices D" "t \<in> indices I"
    "f \<notin> fst ` set ms" "t \<notin> snd ` set ms"
    using Cons.prems(3) m by (simp_all add: moves_ok_Cons)
  have cnt: "f - is_count D 0 f = rank (indices D) f" "t - is_count I 0 t = rank (indices I) t"
    using Cons.prems(1,2) by (simp_all add: is_count_zero rank_def)
  show ?case
  proof (cases "rank (indices D) f = rank (indices I) t")
    case False
    obtain ms1 where c: "clean_up ms D I = (ms1, D', I')" "ms' = m # ms1"
      using Cons.prems(4) False cnt m by (auto split: prod.splits)
    from Cons.IH[OF Cons.prems(1,2) mo(1) c(1)] mo c(2) m show ?thesis
      by (auto simp: moves_ok_def)
  next
    case True
    let ?D = "is_remove D f 1" and ?I = "is_remove I t 1"
    have r: "crv_wf ?D" "crv_wf ?I" "indices ?D = indices D - {f}" "indices ?I = indices I - {t}"
      using index_set.remove_one[OF Cons.prems(1)] index_set.remove_one[OF Cons.prems(2)] by simp_all
    have "moves_ok (indices ?D) (indices ?I) ms" using moves_ok_remove mo r by simp
    from Cons.IH[OF r(1,2) this] have "crv_wf D' \<and> crv_wf I' \<and> set ms' \<subseteq> set ms \<and>
      moves_ok (indices D') (indices I') ms' \<and> indices ?D - fst ` set ms \<subseteq> indices D' \<and>
      indices ?I - snd ` set ms \<subseteq> indices I' \<and>
      survives (indices D') (indices I') \<union> set ms' = survives (indices ?D) (indices ?I) \<union> set ms"
      using Cons.prems(4) True cnt m by (simp split: if_splits)
    moreover have "survives (indices ?D) (indices ?I) = insert (f, t) (survives (indices D) (indices I))"
      using survives_drop[OF _ _ mo(2,3) True] r by simp
    ultimately show ?thesis using m r by auto
  qed
qed simp

lemma clean_up_stale_moves_ok:
  assumes "cb_ok b" and "move_mapping b = []"
  shows "cb_ok (clean_up_stale_moves b)" and "row_map (clean_up_stale_moves b) = row_map b"
    and "move_mapping (clean_up_stale_moves b) = []"
    and "modifications (clean_up_stale_moves b) = modifications b"
    and "columns (clean_up_stale_moves b) = columns b"
proof -
  obtain ms D I where c: "clean_up (moves b) (deletions b) (insertions b) = (ms, D, I)"
    by (cases "clean_up (moves b) (deletions b) (insertions b)")
  have "crv_wf (deletions b)" "crv_wf (insertions b)"
    "moves_ok (indices (deletions b)) (indices (insertions b)) (moves b)"
    using assms by (simp_all add: cb_ok_def sets_ok_def)
  note r = clean_up_ok[OF this c]
  from r assms c show "cb_ok (clean_up_stale_moves b)" "row_map (clean_up_stale_moves b) = row_map b"
    by (simp_all add: clean_up_stale_moves_def cb_ok_def sets_ok_def row_map_def all_moves_def)
  show "move_mapping (clean_up_stale_moves b) = []"
    "modifications (clean_up_stale_moves b) = modifications b" "columns (clean_up_stale_moves b) = columns b"
    using assms(2) c by (simp_all add: clean_up_stale_moves_def)
qed

section \<open>The moves of an unordered table\<close>

lemma parse_moves_ok:
  assumes "sets_ok b"
    and "moves_ok (indices (deletions b)) (indices (insertions b)) (moves b @ map prod.swap ps)"
    and "\<forall>k. (k, k) \<in> set ps \<longrightarrow> rank (indices (deletions b)) k = rank (indices (insertions b)) k"
    and "r = parse_moves ps b"
  shows "sets_ok r \<and> moves_ok (indices (deletions r)) (indices (insertions r)) (moves r) \<and>
    survives (indices (deletions r)) (indices (insertions r)) \<union> set (moves r) =
      survives (indices (deletions b)) (indices (insertions b)) \<union> set (moves b @ map prod.swap ps)"
  using assms
proof (induction ps arbitrary: b)
  case (Cons p ps)
  obtain t f where p: "p = (t, f)" by (cases p)
  let ?D = "indices (deletions b)" and ?I = "indices (insertions b)"
  show ?case
  proof (cases "t = f")
    case False
    let ?b = "b\<lparr>moves := moves b @ [(f, t)]\<rparr>"
    have "r = parse_moves ps ?b" using Cons.prems(4) p False by simp
    moreover have "sets_ok ?b" using Cons.prems(1) by (simp add: sets_ok_def)
    ultimately show ?thesis using Cons.IH[of ?b] Cons.prems(2,3) p by simp
  next
    case True
    let ?b = "b\<lparr>deletions := is_remove (deletions b) f 1, insertions := is_remove (insertions b) f 1\<rparr>"
    have w: "crv_wf (deletions b)" "crv_wf (insertions b)" using Cons.prems(1) by (simp_all add: sets_ok_def)
    have ix: "indices (deletions ?b) = ?D - {f}" "indices (insertions ?b) = ?I - {f}" "sets_ok ?b"
      using index_set.remove_one[OF w(1)] index_set.remove_one[OF w(2)] Cons.prems(1) by (simp_all add: sets_ok_def)
    have "moves_ok ?D ?I ((f, f) # moves b @ map prod.swap ps)"
      using Cons.prems(2) p True
        moves_ok_mset[of "moves b @ map prod.swap (p # ps)" "(f, f) # moves b @ map prod.swap ps"]
      by simp
    then have mem: "f \<in> ?D" "f \<in> ?I" "f \<notin> fst ` set (moves b @ map prod.swap ps)"
      "f \<notin> snd ` set (moves b @ map prod.swap ps)" "moves_ok ?D ?I (moves b @ map prod.swap ps)"
      unfolding moves_ok_Cons by blast+
    then have mo: "moves_ok (?D - {f}) (?I - {f}) (moves b @ map prod.swap ps)"
      by (intro moves_ok_remove)
    have rk: "rank ?D f = rank ?I f" using Cons.prems(3) p True by simp
    have "rank (?D - {f}) k = rank (?I - {f}) k" if "(k, k) \<in> set ps" for k
      using that Cons.prems(3) mem(1,2) by (simp add: rank_remove)
    then have "sets_ok r \<and> moves_ok (indices (deletions r)) (indices (insertions r)) (moves r) \<and>
      survives (indices (deletions r)) (indices (insertions r)) \<union> set (moves r) =
        survives (?D - {f}) (?I - {f}) \<union> set (moves b @ map prod.swap ps)"
      using Cons.IH[of ?b] ix mo Cons.prems(4) p True by simp
    moreover have "survives (?D - {f}) (?I - {f}) = insert (f, f) (survives ?D ?I)"
      using survives_drop[OF _ _ mem(1,2) rk] by simp
    ultimately show ?thesis using p True by auto
  qed
qed simp

lemma parse_complete_ok:
  assumes "cb_ok b"
    and "\<forall>k. (k, k) \<in> set (move_mapping b) \<longrightarrow>
      rank (indices (deletions b)) k = rank (indices (insertions b)) k"
  shows "cb_ok (parse_complete b)" and "row_map (parse_complete b) = row_map b"
    and "move_mapping (parse_complete b) = []" and "sorted (map fst (moves (parse_complete b)))"
proof -
  let ?r = "parse_moves (move_mapping b) b"
  have "sets_ok b" "moves_ok (indices (deletions b)) (indices (insertions b))
      (moves b @ map prod.swap (move_mapping b))"
    using assms(1) by (simp_all add: cb_ok_def all_moves_def)
  note r = parse_moves_ok[OF this assms(2), of ?r]
  have ms: "mset (sort_key fst (moves ?r)) = mset (moves ?r)" by simp
  have "moves_ok (indices (deletions ?r)) (indices (insertions ?r)) (sort_key fst (moves ?r))"
    using r moves_ok_mset[OF ms] by simp
  with r show "cb_ok (parse_complete b)" "row_map (parse_complete b) = row_map b"
    by (simp_all add: parse_complete_def Let_def cb_ok_def row_map_def all_moves_def sets_ok_def)
  show "move_mapping (parse_complete b) = []" "sorted (map fst (moves (parse_complete b)))"
    by (simp_all add: parse_complete_def Let_def)
qed

section \<open>The final change set\<close>

lemma finalize_ok:
  assumes "cb_ok b"
  defines "c \<equiv> finalize b"
  shows "card (indices (modifications c)) = card (indices (modifications_new c))"
    and "indices (modifications_new c) = indices (modifications b) - indices (insertions b)"
    and "survives (indices (deletions c)) (indices (insertions c)) `` indices (modifications c) =
      indices (modifications_new c)"
proof -
  have w: "crv_wf (modifications b)" "crv_wf (deletions b)" "crv_wf (insertions b)"
    using assms(1) by (simp_all add: cb_ok_def sets_ok_def)
  show "card (indices (modifications c)) = card (indices (modifications_new c))"
    "survives (indices (deletions c)) (indices (insertions c)) `` indices (modifications c) =
      indices (modifications_new c)"
    using index_set.both_sides[OF w] by (simp_all add: c_def finalize_def)
  show "indices (modifications_new c) = indices (modifications b) - indices (insertions b)"
    using is_remove_set_ok(2)[OF w(1,3)] by (simp add: c_def finalize_def)
qed

end
