(* ===== verification/ChangeMerge.thy ===== *)
theory ChangeMerge imports ChangeBuilderLaws begin

text \<open>
  \<open>merge\<close>: the merged change set means the composition of the two row maps, and the marks
  of modified rows are carried through the second change set.  The marks of \<open>modifications\<close>
  and of every column are read uniformly by \<open>mark\<close>, with columns beyond the stored ones
  empty, so that resizing the column lists is invisible.
\<close>

section \<open>Marks of all columns\<close>

definition mark :: "change_builder \<Rightarrow> nat option \<Rightarrow> nat set" where
  "mark b x = (case x of None \<Rightarrow> indices (modifications b)
     | Some j \<Rightarrow> if j < length (columns b) then indices (columns b ! j) else {})"

lemma mark_rows [simp]:
  "mark (b\<lparr>moves := ms\<rparr>) x = mark b x" "mark (b\<lparr>deletions := D\<rparr>) x = mark b x"
  "mark (b\<lparr>insertions := I\<rparr>) x = mark b x"
  by (cases x; simp add: mark_def)+

definition tracked :: "change_builder \<Rightarrow> nat option \<Rightarrow> bool" where
  "tracked b x \<longleftrightarrow> x = None \<or> track_columns b"

definition same_rows :: "change_builder \<Rightarrow> change_builder \<Rightarrow> bool" where
  "same_rows b b' \<longleftrightarrow> deletions b' = deletions b \<and> insertions b' = insertions b \<and>
     moves b' = moves b \<and> move_mapping b' = move_mapping b \<and> track_columns b' = track_columns b"

lemma same_rows_refl [simp]: "same_rows b b"
  by (simp add: same_rows_def)

lemma same_rows_trans: "same_rows a b \<Longrightarrow> same_rows b c \<Longrightarrow> same_rows a c"
  by (simp add: same_rows_def)

lemma resize_ok: "\<forall>c\<in>set cs. crv_wf c \<Longrightarrow> \<forall>c\<in>set (resize n cs). crv_wf c"
  by (auto simp: resize_def dest: in_set_takeD)

lemma resize_length [simp]: "length (resize n cs) = n"
  by (simp add: resize_def)

lemma resize_self: "length cs = n \<Longrightarrow> resize n cs = cs"
  by (simp add: resize_def)

lemma resize_nth: "j < n \<Longrightarrow> resize n cs ! j = (if j < length cs then cs ! j else [])"
  by (auto simp: resize_def nth_append)

lemma each_col2_ok:
  assumes "each_col2 f b c = (b', c')" and "sets_ok b" and "sets_ok c"
    and law: "\<And>p q. crv_wf p \<Longrightarrow> crv_wf q \<Longrightarrow> crv_wf (fst (f p q)) \<and> crv_wf (snd (f p q)) \<and>
      indices (fst (f p q)) = F (indices p) (indices q) \<and> indices (snd (f p q)) = G (indices p) (indices q)"
    and zero: "F {} {} = {}" "G {} {} = {}"
  shows "sets_ok b'" and "sets_ok c'" and "same_rows b b'" and "same_rows c c'"
    and "tracked b x \<Longrightarrow> mark b' x = F (mark b x) (mark c x) \<and> mark c' x = G (mark b x) (mark c x)"
proof -
  let ?n = "max (length (columns b)) (length (columns c))"
  have "each_col2 f b c = (b\<lparr>modifications := fst (f (modifications b) (modifications c)),
      columns := (if track_columns b then map fst (map2 f (resize ?n (columns b)) (resize ?n (columns c)))
        else columns b)\<rparr>, c\<lparr>modifications := snd (f (modifications b) (modifications c)),
      columns := (if track_columns b then map snd (map2 f (resize ?n (columns b)) (resize ?n (columns c)))
        else columns c)\<rparr>)"
    by (cases "f (modifications b) (modifications c)"; cases "track_columns b")
      (auto simp: each_col2_def Let_def max_def resize_self simp del: map_map)
  then have b': "b' = b\<lparr>modifications := fst (f (modifications b) (modifications c)),
      columns := (if track_columns b then map fst (map2 f (resize ?n (columns b)) (resize ?n (columns c)))
        else columns b)\<rparr>"
    and c': "c' = c\<lparr>modifications := snd (f (modifications b) (modifications c)),
      columns := (if track_columns b then map snd (map2 f (resize ?n (columns b)) (resize ?n (columns c)))
        else columns c)\<rparr>"
    using assms(1) by simp_all
  have wf: "crv_wf (modifications b)" "crv_wf (modifications c)"
    "\<forall>c\<in>set (resize ?n (columns b)). crv_wf c" "\<forall>d\<in>set (resize ?n (columns c)). crv_wf d"
    using assms(2,3) resize_ok by (auto simp: sets_ok_def)
  have "crv_wf (fst (f p q)) \<and> crv_wf (snd (f p q))"
    if "(p, q) \<in> set (zip (resize ?n (columns b)) (resize ?n (columns c)))" for p q
    using law[of p q] wf(3,4) set_zip_leftD[OF that] set_zip_rightD[OF that] by blast
  then have "\<forall>c\<in>set (map fst (map2 f (resize ?n (columns b)) (resize ?n (columns c)))). crv_wf c"
    "\<forall>c\<in>set (map snd (map2 f (resize ?n (columns b)) (resize ?n (columns c)))). crv_wf c"
    by auto
  then show "sets_ok b'" "sets_ok c'"
    using assms(2,3) law[OF wf(1,2)] by (simp_all add: b' c' sets_ok_def)
  show "same_rows b b'" "same_rows c c'" by (simp_all add: b' c' same_rows_def)
  assume t: "tracked b x"
  show "mark b' x = F (mark b x) (mark c x) \<and> mark c' x = G (mark b x) (mark c x)"
  proof (cases x)
    case None
    with law[OF wf(1,2)] show ?thesis by (simp add: mark_def b' c')
  next
    case (Some j)
    then have tc: "track_columns b" using t by (simp add: tracked_def)
    show ?thesis
    proof (cases "j < ?n")
      case True
      have p: "crv_wf (resize ?n (columns b) ! j)" "crv_wf (resize ?n (columns c) ! j)"
        using wf(3,4) True by simp_all
      have "indices (resize ?n (columns b) ! j) = mark b x" "indices (resize ?n (columns c) ! j) = mark c x"
        using True Some by (simp_all add: mark_def resize_nth)
      with law[OF p] Some True tc show ?thesis by (simp add: mark_def b' c')
    next
      case False
      then have "\<not> j < length (columns b)" "\<not> j < length (columns c)" "\<not> j < ?n" by simp_all
      with Some tc zero show ?thesis by (simp add: mark_def b' c')
    qed
  qed
qed

lemma carry_modified_ok:
  assumes "each_col2 (carry_modified m) b c = (b', c')" and "sets_ok b" and "sets_ok c"
  shows "sets_ok b'" and "sets_ok c'" and "same_rows b b'" and "same_rows c c'"
    and "tracked b x \<Longrightarrow> mark b' x = mark b x \<and> mark c' x = mark c x \<union> {m} `` mark b x"
proof -
  have law: "crv_wf (fst (carry_modified m p q)) \<and> crv_wf (snd (carry_modified m p q)) \<and>
      indices (fst (carry_modified m p q)) = indices p \<and>
      indices (snd (carry_modified m p q)) = indices q \<union> {m} `` indices p"
    if "crv_wf p" "crv_wf q" for p q
    using that is_add_ok[OF that(2), of "snd m"] is_contains_ok[OF that(1), of "fst m"]
    by (cases m) (auto simp: carry_modified_def)
  note e = each_col2_ok[OF assms, of "\<lambda>p q. p" "\<lambda>p q. q \<union> {m} `` p", OF law]
  then show "sets_ok b'" "sets_ok c'" "same_rows b b'" "same_rows c c'" by simp_all
  show "tracked b x \<Longrightarrow> mark b' x = mark b x \<and> mark c' x = mark c x \<union> {m} `` mark b x"
    using e(5) by simp
qed

lemma carry_moves_ok:
  assumes "carry_moves ms b c = (b', c')" and "sets_ok b" and "sets_ok c"
  shows "sets_ok b' \<and> sets_ok c' \<and> same_rows b b' \<and> same_rows c c' \<and>
    (tracked b x \<longrightarrow> mark b' x = mark b x \<and> mark c' x = mark c x \<union> set ms `` mark b x)"
  using assms
proof (induction ms arbitrary: b c)
  case (Cons m ms)
  obtain b1 c1 where e: "each_col2 (carry_modified m) b c = (b1, c1)"
    by (cases "each_col2 (carry_modified m) b c")
  note k = carry_modified_ok[OF e Cons.prems(2,3)]
  have "tracked b1 x \<longleftrightarrow> tracked b x" using k(3) by (simp add: tracked_def same_rows_def)
  moreover have "set (m # ms) `` mark b x = {m} `` mark b x \<union> set ms `` mark b x" by auto
  moreover have "carry_moves ms b1 c1 = (b', c')" using Cons.prems(1) e by simp
  note Cons.IH[OF this k(1,2)]
  ultimately show ?case using k same_rows_trans by (auto simp del: Image_singleton)
qed auto

section \<open>The row map is a matching\<close>

lemma matching_unique:
  assumes "moves_ok D I ms"
  shows "(i, k) \<in> survives D I \<union> set ms \<Longrightarrow> (i', k) \<in> survives D I \<union> set ms \<Longrightarrow> i = i'"
    and "(i, k) \<in> survives D I \<union> set ms \<Longrightarrow> (i, k') \<in> survives D I \<union> set ms \<Longrightarrow> k = k'"
proof -
  have inj: "inj_on fst (set ms)" "inj_on snd (set ms)"
    using assms by (simp_all add: moves_ok_def distinct_map)
  have m: "i \<in> D \<and> k \<in> I" if "(i, k) \<in> set ms" for i k
    using that assms by (auto simp: moves_ok_def)
  have S: "(i, k) \<in> survives D I \<Longrightarrow> i \<notin> D \<and> k \<notin> I" for i k by (simp add: survives_iff)
  show "i = i'" if "(i, k) \<in> survives D I \<union> set ms" "(i', k) \<in> survives D I \<union> set ms"
    using that m S inj_onD[OF inj(2), of "(i, k)" "(i', k)"] survives_left_unique
    by (metis Pair_inject UnE snd_conv)
  show "k = k'" if "(i, k) \<in> survives D I \<union> set ms" "(i, k') \<in> survives D I \<union> set ms"
    using that m S inj_onD[OF inj(1), of "(i, k)" "(i, k')"] survives_right_unique
    by (metis Pair_inject UnE fst_conv)
qed

lemmas row_map_unique = matching_unique[of "indices (deletions b)" "indices (insertions b)" "all_moves b"
    for b, folded row_map_def]

section \<open>Old moves\<close>

lemma find_move_some: "find_move j ms = Some k \<Longrightarrow> k < length ms \<and> fst (ms ! k) = j"
  by (induction ms arbitrary: k) (auto split: if_splits)

lemma find_move_none: "find_move j ms = None \<Longrightarrow> j \<notin> fst ` set ms"
  by (induction ms) (auto split: if_splits)

lemma mset_swap_pop:
  assumes "k < length ms"
  shows "mset (butlast (ms[k := last ms])) = mset ms - {#ms ! k#}"
proof (cases ms rule: rev_cases)
  case (snoc ys y)
  show ?thesis
  proof (cases "k = length ys")
    case False
    then have k: "k < length ys" using assms snoc by simp
    then have "ys ! k \<in># mset ys" by simp
    with k snoc show ?thesis by (simp add: list_update_append butlast_append mset_update nth_append)
  qed (simp add: snoc)
qed (use assms in simp)

lemma swap_pop:
  assumes "k < length ms" and "distinct (map fst ms)" and "distinct (map snd ms)"
  shows "set (butlast (ms[k := last ms])) = set ms - {ms ! k}"
    and "distinct (map fst (butlast (ms[k := last ms])))" and "distinct (map snd (butlast (ms[k := last ms])))"
proof -
  let ?l = "butlast (ms[k := last ms])"
  have "mset ms = mset (ms ! k # ?l)" using assms(1) by (simp add: mset_swap_pop)
  from distinct_map_mset[OF this, of fst] distinct_map_mset[OF this, of snd] mset_eq_setD[OF this] assms(2,3)
  show "set ?l = set ms - {ms ! k}" "distinct (map fst ?l)" "distinct (map snd ?l)"
    by (auto simp: image_iff)
qed

text \<open>Everything \<open>update_old_moves\<close> promises, \<open>r\<close> being the result for the moves \<open>olds\<close>.\<close>

definition moves_updated ::
  "move list \<Rightarrow> change_builder \<Rightarrow> change_builder \<Rightarrow> move list \<times> change_builder \<times> change_builder \<Rightarrow> bool"
where
  "moves_updated olds b c r \<longleftrightarrow>
     (case r of (ms, b', c') \<Rightarrow>
        sets_ok b' \<and> sets_ok c' \<and> same_rows b b' \<and> same_rows (c\<lparr>moves := moves c'\<rparr>) c' \<and>
        moves_ok (indices (deletions c)) (indices (insertions c)) (moves c') \<and>
        set (moves c') = {m \<in> set (moves c). fst m \<notin> snd ` set olds} \<and>
        set ms = set olds O (survives (indices (deletions c)) (indices (insertions c)) \<union> set (moves c)) \<and>
        distinct (map fst ms) \<and> distinct (map snd ms) \<and>
        (\<forall>x. tracked b x \<longrightarrow> mark b' x = mark b x \<and>
           mark c' x = mark c x \<union> {m \<in> set (moves c). fst m \<in> snd ` set olds} `` mark b x))"

lemma relcomp_insert: "insert p A O R = {p} O R \<union> A O R"
  by auto

lemma relcomp_point: "{(f, j)} O R = (\<lambda>k. (f, k)) ` (R `` {j})"
  by auto

lemma update_old_moves_ok:
  assumes "sets_ok b" and "sets_ok c"
    and "moves_ok (indices (deletions c)) (indices (insertions c)) (moves c)"
    and "distinct (map fst olds)" and "distinct (map snd olds)"
  shows "moves_updated olds b c (update_old_moves olds b c)"
  using assms
proof (induction olds arbitrary: b c)
  case Nil
  then show ?case by (auto simp: moves_updated_def same_rows_def)
next
  case (Cons old olds)
  obtain f j where old: "old = (f, j)" by (cases old)
  let ?D = "indices (deletions c)" and ?I = "indices (insertions c)"
  let ?R = "survives ?D ?I \<union> set (moves c)"
  have w: "crv_wf (deletions c)" "crv_wf (insertions c)" using Cons.prems(2) by (simp_all add: sets_ok_def)
  have fresh: "f \<notin> fst ` set olds" "j \<notin> snd ` set olds" and dist: "distinct (map fst olds)" "distinct (map snd olds)"
    using Cons.prems(4,5) old by auto
  note uniq = matching_unique[OF Cons.prems(3)]
  have sub: "set (moves c) \<subseteq> ?D \<times> ?I" and dm: "distinct (map fst (moves c))" "distinct (map snd (moves c))"
    using Cons.prems(3) by (simp_all add: moves_ok_def)
  have addk: "distinct (map fst ((f, k) # ms)) \<and> distinct (map snd ((f, k) # ms)) \<and>
      set ((f, k) # ms) = set (old # olds) O ?R"
    if R: "(j, k) \<in> ?R" and ms: "set ms = set olds O ?R" and d: "distinct (map fst ms)" "distinct (map snd ms)"
    for k ms
  proof -
    have "fst ` (A O B) \<subseteq> fst ` A" for A :: "(nat \<times> nat) set" and B :: "(nat \<times> nat) set" by force
    then have "f \<notin> fst ` set ms" unfolding ms using fresh(1) by blast
    moreover have "k \<notin> snd ` set ms"
    proof
      assume "k \<in> snd ` set ms"
      then obtain i where "(i, k) \<in> set olds O ?R" using ms by force
      then obtain j' where "(i, j') \<in> set olds" "(j', k) \<in> ?R" by blast
      with uniq(1)[OF R, of j'] fresh(2) show False by force
    qed
    ultimately have "distinct (map fst ((f, k) # ms))" "distinct (map snd ((f, k) # ms))" using d by simp_all
    moreover have "?R `` {j} = {k}" using R uniq(2) by blast
    then have "{(f, j)} O ?R = {(f, k)}" unfolding relcomp_point by simp
    then have "set (old # olds) O ?R = insert (f, k) (set olds O ?R)"
      unfolding old list.set relcomp_insert[of _ "set olds"] by simp
    ultimately show ?thesis using ms by simp
  qed
  show ?case
  proof (cases "find_move j (moves c)")
    case (Some k)
    let ?m = "moves c ! k"
    note k = find_move_some[OF Some]
    obtain b1 c1 where e: "each_col2 (carry_modified ?m) b c = (b1, c1)"
      by (cases "each_col2 (carry_modified ?m) b c")
    note cm = carry_modified_ok[OF e Cons.prems(1,2)]
    let ?l = "butlast ((moves c1)[k := last (moves c1)])"
    let ?c2 = "c1\<lparr>moves := ?l\<rparr>"
    have c1: "moves c1 = moves c" "deletions c1 = deletions c" "insertions c1 = insertions c"
      using cm(4) by (simp_all add: same_rows_def)
    note sp = swap_pop[OF k[THEN conjunct1] dm, folded c1]
    have mk: "?m \<in> set (moves c)" using k by simp
    have "set ?l \<subseteq> ?D \<times> ?I" using sp(1) sub c1 by auto
    then have "moves_ok (indices (deletions ?c2)) (indices (insertions ?c2)) (moves ?c2)"
      using sp(2,3) c1 by (simp add: moves_ok_def)
    moreover have "sets_ok ?c2" using cm(2) by (simp add: sets_ok_def)
    ultimately have IH: "moves_updated olds b1 ?c2 (update_old_moves olds b1 ?c2)"
      using Cons.IH[OF cm(1)] dist by simp
    obtain ms b' c' where u: "update_old_moves olds b1 ?c2 = (ms, b', c')"
      by (cases "update_old_moves olds b1 ?c2")
    have res: "update_old_moves (old # olds) b c = ((f, snd ?m) # ms, b', c')"
      using old Some e u c1 by simp
    have fm: "fst ?m = j" using k by simp
    have me: "?m = (j, snd ?m)" using k by (cases ?m) auto
    have only: "m = ?m" if "m \<in> set (moves c)" "fst m = j" for m
      using that mk me uniq(2)[of j "snd m" "snd ?m"] by (cases m) auto
    note r = IH[unfolded moves_updated_def u prod.case]
    have setc': "set (moves c') = {m \<in> set (moves c). fst m \<notin> snd ` set (old # olds)}"
    proof -
      have "set (moves c') = {m \<in> set (moves c) - {?m}. fst m \<notin> snd ` set olds}"
        using r sp(1) c1 by simp
      also have "\<dots> = {m \<in> set (moves c). fst m \<notin> snd ` set (old # olds)}" (is "?A = ?B")
      proof (intro set_eqI iffI)
        fix m assume "m \<in> ?A"
        then show "m \<in> ?B" using only[of m] old by (cases "fst m = j") simp_all
      next
        fix m assume "m \<in> ?B"
        then show "m \<in> ?A" using fm old by (cases "m = ?m") simp_all
      qed
      finally show ?thesis .
    qed
    have "set ms = set olds O ?R"
    proof -
      have "set ms = set olds O (survives ?D ?I \<union> (set (moves c) - {?m}))" using r sp(1) c1 by simp
      also have "\<dots> = set olds O ?R"
      proof -
        have "(j', k') \<noteq> ?m" if "(i, j') \<in> set olds" for i j' k'
          using that fresh(2) fm by (metis fst_conv imageI snd_conv)
        then show ?thesis by blast
      qed
      finally show ?thesis .
    qed
    moreover have "(j, snd ?m) \<in> ?R" using mk me by simp
    moreover have "distinct (map fst ms)" "distinct (map snd ms)" using r by blast+
    ultimately have ak: "distinct (map fst ((f, snd ?m) # ms)) \<and> distinct (map snd ((f, snd ?m) # ms)) \<and>
      set ((f, snd ?m) # ms) = set (old # olds) O ?R" by (intro addk)
    have marks: "mark b' x = mark b x \<and>
        mark c' x = mark c x \<union> {m \<in> set (moves c). fst m \<in> snd ` set (old # olds)} `` mark b x"
      if "tracked b x" for x
    proof -
      have t: "tracked b1 x" using that cm(3) by (simp add: tracked_def same_rows_def)
      have c2: "mark ?c2 x = mark c1 x" by simp
      have split: "{m \<in> set (moves c). fst m \<in> snd ` set (old # olds)} =
          insert ?m {m \<in> set (moves c) - {?m}. fst m \<in> snd ` set olds}"
        (is "?A = ?B")
      proof (intro set_eqI iffI)
        fix m assume "m \<in> ?A"
        then show "m \<in> ?B" using only[of m] old by (cases "m = ?m") auto
      next
        fix m assume "m \<in> ?B"
        then show "m \<in> ?A" using fm mk old by (cases "m = ?m") simp_all
      qed
      have rx: "mark b' x = mark b1 x"
          "mark c' x = mark c1 x \<union> {m \<in> set (moves c) - {?m}. fst m \<in> snd ` set olds} `` mark b1 x"
      proof -
        have "mark b' x = mark b1 x \<and>
            mark c' x = mark ?c2 x \<union> {m \<in> set (moves ?c2). fst m \<in> snd ` set olds} `` mark b1 x"
          using r t by blast
        moreover have "set (moves ?c2) = set (moves c) - {?m}" using sp(1) c1 by simp
        ultimately show "mark b' x = mark b1 x"
          "mark c' x = mark c1 x \<union> {m \<in> set (moves c) - {?m}. fst m \<in> snd ` set olds} `` mark b1 x"
          using c2 by (simp_all only: simp_thms)
      qed
      have cx: "mark b1 x = mark b x" "mark c1 x = mark c x \<union> {?m} `` mark b x"
        using cm(5)[OF that] by blast+
      have ins: "insert p X `` B = {p} `` B \<union> X `` B" for p :: "nat \<times> nat" and X and B :: "nat set" by blast
      show ?thesis unfolding split rx cx ins[of ?m "{m \<in> set (moves c) - {?m}. fst m \<in> snd ` set olds}"]
        by (simp only: Un_assoc simp_thms)
    qed
    have "same_rows b b'" using r cm(3) same_rows_trans by blast
    moreover have "same_rows (c\<lparr>moves := moves c'\<rparr>) c'" using r cm(4) by (simp add: same_rows_def)
    moreover have "sets_ok b'" "sets_ok c'" "moves_ok ?D ?I (moves c')" using r c1 by simp_all
    ultimately show ?thesis
      unfolding res moves_updated_def prod.case using ak setc' marks by blast
  next
    case None
    have nm: "j \<notin> fst ` set (moves c)" using find_move_none[OF None] .
    obtain ms b' c' where u: "update_old_moves olds b c = (ms, b', c')" by (cases "update_old_moves olds b c")
    note r = Cons.IH[OF Cons.prems(1-3) dist, unfolded moves_updated_def u prod.case]
    have eqs: "{m \<in> set (moves c). fst m \<notin> snd ` set (old # olds)} = {m \<in> set (moves c). fst m \<notin> snd ` set olds}"
      "{m \<in> set (moves c). fst m \<in> snd ` set (old # olds)} = {m \<in> set (moves c). fst m \<in> snd ` set olds}"
      using nm old by auto
    show ?thesis
    proof (cases "j \<in> ?D")
      case True
      then have "?R `` {j} = {}" using nm by (force simp: survives_iff)
      then have "set (old # olds) O ?R = set olds O ?R"
        unfolding old list.set relcomp_insert[of _ "set olds"] relcomp_point by simp
      moreover have "update_old_moves (old # olds) b c = (ms, b', c')"
        using old None True w u by (simp add: is_contains_ok)
      ultimately show ?thesis using r eqs by (simp add: moves_updated_def)
    next
      case False
      let ?k = "is_shift (insertions c) (is_unshift (deletions c) j)"
      have "(j, ?k) \<in> ?R" using index_set.new_position[OF w False] by simp
      from addk[OF this] r have "distinct (map fst ((f, ?k) # ms)) \<and> distinct (map snd ((f, ?k) # ms)) \<and>
        set ((f, ?k) # ms) = set (old # olds) O ?R" by blast
      moreover have "update_old_moves (old # olds) b c = ((f, ?k) # ms, b', c')"
        using old None False w u by (simp add: is_contains_ok)
      ultimately show ?thesis using r eqs by (simp add: moves_updated_def)
    qed
  qed
qed

section \<open>The merge\<close>

definition cols_within :: "change_builder \<Rightarrow> bool" where
  "cols_within b \<longleftrightarrow> (\<forall>c\<in>set (columns b). indices c \<subseteq> indices (modifications b))"

lemma mark_within: "cols_within b \<Longrightarrow> mark b x \<subseteq> mark b None"
  by (auto simp: mark_def cols_within_def split: option.splits if_splits)

lemma source_moves:
  assumes "crv_wf D" and "crv_wf I"
  shows "(if D \<noteq> [] \<or> I \<noteq> []
      then c\<lparr>moves := map (\<lambda>m. (is_shift D (is_unshift I (fst m)), snd m)) (moves c)\<rparr> else c)
      = c\<lparr>moves := map (\<lambda>m. (is_shift D (is_unshift I (fst m)), snd m)) (moves c)\<rparr>"
proof (cases "D \<noteq> [] \<or> I \<noteq> []")
  case False
  have "is_shift [] x = x" for x using is_shift_ok(2)[of "[]" x] by simp
  moreover have "is_unshift [] x = x" for x by (simp add: is_unshift_ok)
  ultimately show ?thesis using False by simp
qed simp

text \<open>
  The carried marks: rows of this change set that survive the second one keep their mark, and
  so do rows the second one moved, unless they were inserted by this one.
\<close>

definition carried_marks :: "change_builder \<Rightarrow> change_builder \<Rightarrow> nat option \<Rightarrow> nat set" where
  "carried_marks b c x =
     survives (indices (deletions c)) (indices (insertions c)) `` mark b x \<union>
     {m \<in> set (moves c). fst m \<in> indices (insertions b) \<longrightarrow> fst m \<in> snd ` set (moves b)} `` mark b x"

definition merge_spec :: "change_builder \<Rightarrow> change_builder \<Rightarrow> change_builder \<Rightarrow> bool" where
  "merge_spec b c r \<longleftrightarrow> cb_ok r \<and> move_mapping r = [] \<and> row_map r = row_map b O row_map c \<and>
     (\<forall>x. tracked b x \<longrightarrow> mark r x = mark c x \<union> carried_marks b c x)"

lemma empty_row_map:
  assumes "cb_ok b" and "move_mapping b = []" and "cs_empty b" and "cols_within b"
  shows "row_map b = Id" and "mark b x = {}"
  using assms mark_within[OF assms(4), of x]
  by (simp_all add: cs_empty_def row_map_def mark_def all_moves_def)

text \<open>The stages of \<open>merge\<close>, each with the facts the next one needs.\<close>

lemma stage_old_moves:
  assumes "cb_ok b" and "cb_ok c" and "move_mapping b = []" and "move_mapping c = []"
  obtains ms b' c' where
    "(if moves c \<noteq> [] \<or> deletions c \<noteq> [] \<or> insertions c \<noteq> []
      then let (ms, b', c') = update_old_moves (moves b) b c in (b'\<lparr>moves := ms\<rparr>, c') else (b, c))
      = (b'\<lparr>moves := ms\<rparr>, c')"
    and "moves_updated (moves b) b c (ms, b', c')"
proof -
  have b: "sets_ok b" "sets_ok c" "moves_ok (indices (deletions c)) (indices (insertions c)) (moves c)"
    "distinct (map fst (moves b))" "distinct (map snd (moves b))"
    using assms by (simp_all add: cb_ok_def moves_ok_def)
  show thesis
  proof (cases "moves c \<noteq> [] \<or> deletions c \<noteq> [] \<or> insertions c \<noteq> []")
    case True
    obtain ms b' c' where u: "update_old_moves (moves b) b c = (ms, b', c')"
      by (cases "update_old_moves (moves b) b c")
    with update_old_moves_ok[OF b] have "moves_updated (moves b) b c (ms, b', c')" by simp
    with that True u show thesis by simp
  next
    case False
    then have "moves_updated (moves b) b c (moves b, b, c)"
      using b by (simp add: moves_updated_def moves_ok_def same_rows_def)
    with that[of "moves b" b c] False show thesis by simp
  qed
qed

lemma stage_carry:
  assumes "sets_ok b" and "sets_ok c" and "cols_within b \<or> \<not> track_columns b"
  obtains b' c' where
    "(if modifications b \<noteq> [] \<and> moves c \<noteq> [] then carry_moves (moves c) b c else (b, c)) = (b', c')"
    and "sets_ok b'" and "sets_ok c'" and "same_rows b b'" and "same_rows c c'"
    and "\<forall>x. tracked b x \<longrightarrow>
      mark b' x = mark b x \<and> mark c' x = mark c x \<union> set (moves c) `` mark b x"
proof (cases "modifications b \<noteq> [] \<and> moves c \<noteq> []")
  case True
  obtain b' c' where u: "carry_moves (moves c) b c = (b', c')" by (cases "carry_moves (moves c) b c")
  note k = carry_moves_ok[OF u assms(1,2)]
  show thesis by (rule that[of b' c']) (use True u k in auto)
next
  case False
  have "set (moves c) `` mark b x = {}" if "tracked b x" for x
  proof (cases "moves c = []")
    case ne: False
    then have "mark b None = {}" using False by (simp add: mark_def)
    then have "mark b x = {}"
      using that assms(3) mark_within[of b x] by (cases x) (auto simp: tracked_def)
    then show ?thesis by simp
  qed simp
  with that[of b c] False assms show thesis by simp
qed

lemma stage_rows:
  assumes "cb_ok b" and "cb_ok c" and "move_mapping b = []" and "move_mapping c = []"
    and "room_for (deletions b) (deletions c)"
    and ms: "set ms = set (moves b) O row_map c" "distinct (map fst ms)" "distinct (map snd ms)"
    and F: "set F = {m \<in> set (moves c). fst m \<notin> indices (insertions b)}"
      "distinct (map fst F)" "distinct (map snd F)"
    and b4: "b4 = b3\<lparr>moves := ms @ map (\<lambda>m. (is_shift (deletions b) (is_unshift (insertions b) (fst m)), snd m)) F,
        deletions := is_add_shifted_by (deletions b) (insertions b) (deletions c),
        insertions := is_insert_set (is_erase_set (insertions b) (deletions c)) (insertions c)\<rparr>"
    and b3: "sets_ok b3" "move_mapping b3 = []"
  shows "cb_ok b4" and "row_map b4 = row_map b O row_map c" and "move_mapping b4 = []"
proof -
  let ?D = "indices (deletions b)" and ?I = "indices (insertions b)"
  let ?src = "\<lambda>j. is_shift (deletions b) (is_unshift (insertions b) j)"
  let ?G = "map (\<lambda>m. (?src (fst m), snd m)) F"
  have w: "crv_wf (deletions b)" "crv_wf (insertions b)" "crv_wf (deletions c)" "crv_wf (insertions c)"
    using assms(1,2) by (simp_all add: cb_ok_def sets_ok_def)
  note dd = index_set.merged_deletions[OF w(1,2,3) assms(5)] and ii = index_set.merged_insertions[OF w(2,3,4)]
  have mb: "moves_ok ?D ?I (moves b)"
    and mc: "moves_ok (indices (deletions c)) (indices (insertions c)) (moves c)"
    using assms(1-4) by (simp_all add: cb_ok_def)
  have src: "(?src j, j) \<in> survives ?D ?I" if "j \<notin> ?I" for j
    using index_set.old_position[OF w(1,2) that] .
  have Fn: "fst m \<notin> ?I" if "m \<in> set F" for m using that F(1) by simp
  have setG: "set ?G = survives ?D ?I O set (moves c)"
  proof (intro set_eqI iffI; clarify)
    fix i k assume "(i, k) \<in> set ?G"
    then obtain j where "(j, k) \<in> set F" "i = ?src j" by auto
    then show "(i, k) \<in> survives ?D ?I O set (moves c)" using src Fn F(1) by force
  next
    fix i j k assume s: "(i, j) \<in> survives ?D ?I" and m: "(j, k) \<in> set (moves c)"
    then have "j \<notin> ?I" by (simp add: survives_iff)
    then have "(j, k) \<in> set F" "i = ?src j" using m F(1) survives_left_unique[OF s src] by auto
    then show "(i, k) \<in> set ?G" by force
  qed
  have dG: "distinct (map fst ?G)"
  proof -
    have "inj_on ?src (set (map fst F))"
    proof (rule inj_onI)
      fix j j' assume j: "j \<in> set (map fst F)" "j' \<in> set (map fst F)" "?src j = ?src j'"
      then have "j \<notin> ?I" "j' \<notin> ?I" using Fn by auto
      from src[OF this(1)] src[OF this(2)] j(3) survives_right_unique show "j = j'" by metis
    qed
    then have "distinct (map ?src (map fst F))" using F(2) by (simp only: distinct_map)
    then show ?thesis by (simp add: comp_def)
  qed
  have "i \<in> ?D" if "i \<in> fst ` set ms" for i using that ms(1) mb by (auto simp: moves_ok_def)
  moreover have "i \<notin> ?D" if "i \<in> fst ` set ?G" for i using that unfolding setG by (auto simp: survives_iff)
  ultimately have "fst ` set ms \<inter> fst ` set ?G = {}" by blast
  then have d1: "distinct (map fst (ms @ ?G))"
    using ms(2) dG unfolding map_append distinct_append set_map by blast
  have "snd ` set ms \<inter> snd ` set ?G = {}"
  proof (rule ccontr)
    assume "\<not> ?thesis"
    then obtain i i' k where k: "(i, k) \<in> set ms" "(i', k) \<in> set ?G" by force
    from k(1) ms(1) obtain j where j: "(i, j) \<in> set (moves b)" "(j, k) \<in> row_map c" by auto
    from k(2) setG obtain j' where j': "j' \<notin> ?I" "(j', k) \<in> set (moves c)" by (auto simp: survives_iff)
    then have "(j', k) \<in> row_map c" by (simp add: row_map_def assms(4))
    with j(2) mc have "j = j'" using row_map_unique(1)[of c] assms(4) by simp
    with j(1) j'(1) mb show False by (auto simp: moves_ok_def)
  qed
  moreover have "distinct (map snd ?G)" using F(3) by (simp add: comp_def)
  ultimately have d2: "distinct (map snd (ms @ ?G))"
    using ms(3) unfolding map_append distinct_append set_map by blast
  have am: "all_moves b4 = ms @ ?G" using b4 b3(2) by (simp add: all_moves_def)
  have so: "sets_ok b4" using b4 b3(1) dd ii by (simp add: sets_ok_def)
  have "set (all_moves b4) = set (all_moves b) O (survives (indices (deletions c)) (indices (insertions c))
      \<union> set (moves c)) \<union> survives ?D ?I O set (moves c)"
    unfolding am set_append setG ms(1) row_map_def using assms(3,4) by simp
  note r = step_recorded[OF assms(1) so _ _ _ _ _ this d1[folded am] d2[folded am]]
  show "cb_ok b4" using r(1) mc dd ii b4 by (simp add: moves_ok_def)
  show "row_map b4 = row_map b O row_map c"
    using r(2) mc dd ii b4 assms(4) by (simp add: moves_ok_def row_map_def[of c])
  show "move_mapping b4 = []" using b4 b3(2) by simp
qed

lemma filter_guard:
  "crv_wf I \<Longrightarrow>
     (if I \<noteq> [] \<and> moves c \<noteq> [] then c\<lparr>moves := filter (\<lambda>m. \<not> is_contains I (fst m)) (moves c)\<rparr> else c)
     = (c :: change_builder)\<lparr>moves := filter (\<lambda>m. fst m \<notin> indices I) (moves c)\<rparr>"
  by (auto simp: is_contains_ok)

lemma sets_ok_rows:
  "sets_ok b \<Longrightarrow> crv_wf D \<Longrightarrow> crv_wf I \<Longrightarrow> sets_ok (b\<lparr>moves := ms, deletions := D, insertions := I\<rparr>)"
  by (simp add: sets_ok_def)

lemma cb_merge_general:
  assumes ok: "cb_ok b" "cb_ok c" and mm: "move_mapping b = []" "move_mapping c = []"
    and room: "room_for (deletions b) (deletions c)" and cols: "cols_within b \<or> \<not> track_columns b"
    and ne: "\<not> cs_empty c" "\<not> cs_empty b"
  shows "merge_spec b c (cb_merge b c)"
proof -
  let ?S2 = "survives (indices (deletions c)) (indices (insertions c))"
  let ?I = "indices (insertions b)"
  obtain ms b' c' where st1: "(if moves c \<noteq> [] \<or> deletions c \<noteq> [] \<or> insertions c \<noteq> []
      then let (ms, b', c') = update_old_moves (moves b) b c in (b'\<lparr>moves := ms\<rparr>, c') else (b, c))
      = (b'\<lparr>moves := ms\<rparr>, c')" and mu: "moves_updated (moves b) b c (ms, b', c')"
    using stage_old_moves[OF ok mm] .
  let ?b1 = "b'\<lparr>moves := ms\<rparr>"
  let ?F = "filter (\<lambda>m. fst m \<notin> ?I) (moves c')"
  let ?c2 = "c'\<lparr>moves := ?F\<rparr>"
  note u = mu[unfolded moves_updated_def prod.case]
  have rows1: "deletions ?b1 = deletions b" "insertions ?b1 = insertions b" "move_mapping ?b1 = []"
    "track_columns ?b1 = track_columns b" "deletions c' = deletions c" "insertions c' = insertions c"
    using u mm by (simp_all add: same_rows_def)
  have so1: "sets_ok ?b1" "sets_ok ?c2" using u by (simp_all add: sets_ok_def)
  have mk1: "mark ?b1 x = mark b x"
      "mark ?c2 x = mark c x \<union> {m \<in> set (moves c). fst m \<in> snd ` set (moves b)} `` mark b x"
    if "tracked b x" for x
    using u that by simp_all
  have wfI: "crv_wf (insertions b)" "crv_wf (deletions b)" "crv_wf (deletions c)" "crv_wf (insertions c)"
    using ok by (simp_all add: cb_ok_def sets_ok_def)
  have cols1: "cols_within ?b1 \<or> \<not> track_columns ?b1"
  proof (cases "track_columns b")
    case True
    have "indices (columns ?b1 ! j) \<subseteq> indices (modifications ?b1)" if "j < length (columns ?b1)" for j
      using mk1(1)[of "Some j"] mk1(1)[of None] mark_within[of b "Some j"] cols True that
      by (simp add: tracked_def mark_def split: if_splits)
    then show ?thesis by (simp add: cols_within_def all_set_conv_all_nth)
  qed (simp add: rows1)
  obtain b3 c3 where st3: "(if modifications ?b1 \<noteq> [] \<and> moves ?c2 \<noteq> [] then carry_moves (moves ?c2) ?b1 ?c2
        else (?b1, ?c2)) = (b3, c3)"
    and so3: "sets_ok b3" "sets_ok c3" and rows3: "same_rows ?b1 b3" "same_rows ?c2 c3"
    and mk3: "\<forall>x. tracked ?b1 x \<longrightarrow>
      mark b3 x = mark ?b1 x \<and> mark c3 x = mark ?c2 x \<union> set (moves ?c2) `` mark ?b1 x"
    using stage_carry[OF so1 cols1] .
  let ?G = "map (\<lambda>m. (is_shift (deletions b) (is_unshift (insertions b) (fst m)), snd m)) ?F"
  let ?c4 = "c3\<lparr>moves := ?G\<rparr>"
  define b4 where "b4 = b3\<lparr>moves := ms @ ?G,
      deletions := is_add_shifted_by (deletions b) (insertions b) (deletions c),
      insertions := is_insert_set (is_erase_set (insertions b) (deletions c)) (insertions c)\<rparr>"
  have rc: "row_map c = ?S2 \<union> set (moves c)" using mm by (simp add: row_map_def)
  have mb: "snd ` set (moves b) \<subseteq> ?I" using ok(1) mm by (auto simp: cb_ok_def moves_ok_def)
  have "distinct (map fst ?F)" "distinct (map snd ?F)"
    using u by (simp_all add: moves_ok_def distinct_map_filter)
  moreover have setF: "set ?F = {m \<in> set (moves c). fst m \<notin> ?I}" using u mb by auto
  moreover have "set ms = set (moves b) O row_map c" "distinct (map fst ms)" "distinct (map snd ms)"
    using u rc by simp_all
  ultimately have b4: "cb_ok b4" "row_map b4 = row_map b O row_map c" "move_mapping b4 = []"
    using stage_rows[OF ok mm room _ _ _ _ _ _ b4_def so3(1)] rows3(1) rows1(3)
    by (simp_all add: same_rows_def)
  note cu = clean_up_stale_moves_ok[OF b4(1,3)]
  let ?f = "\<lambda>col other. (is_add_set (is_shift_for_insert_set (is_erase_set col (deletions c)) (insertions c))
    other, other)"
  obtain r r' where e: "each_col2 ?f (clean_up_stale_moves b4) ?c4 = (r, r')"
    by (cases "each_col2 ?f (clean_up_stale_moves b4) ?c4")
  have rows3': "deletions b3 = deletions b" "insertions b3 = insertions b" "moves b3 = ms"
    "deletions c3 = deletions c" "insertions c3 = insertions c" "moves c3 = ?F"
    using rows3 rows1 by (simp_all add: same_rows_def)
  have g2: "(if insertions ?b1 \<noteq> [] \<and> moves c' \<noteq> []
      then c'\<lparr>moves := filter (\<lambda>m. \<not> is_contains (insertions ?b1) (fst m)) (moves c')\<rparr> else c') = ?c2"
    unfolding rows1(2) by (rule filter_guard[OF wfI(1)])
  have g4: "(if deletions b3 \<noteq> [] \<or> insertions b3 \<noteq> []
      then c3\<lparr>moves := map (\<lambda>m. (is_shift (deletions b3) (is_unshift (insertions b3) (fst m)), snd m))
        (moves c3)\<rparr> else c3) = ?c4"
    using source_moves[OF wfI(2,1), of c3] unfolding rows3' .
  have result: "cb_merge b c = r"
    unfolding cb_merge_def if_not_P[OF ne(1)] if_not_P[OF ne(2)] st1
    unfolding Let_def prod.case g2
    unfolding st3 prod.case g4 using e by (simp add: b4_def rows3')
  have law: "crv_wf (fst (?f p q)) \<and> crv_wf (snd (?f p q)) \<and>
      indices (fst (?f p q)) = ?S2 `` indices p \<union> indices q \<and> indices (snd (?f p q)) = indices q"
    if "crv_wf p" "crv_wf q" for p q
    using index_set.carried_marks[OF that(1) wfI(3,4)] that(2) by (simp add: is_add_set_ok)
  have "sets_ok (clean_up_stale_moves b4)" "sets_ok ?c4"
    using cu(1) so3(2) by (simp_all add: cb_ok_def sets_ok_def)
  note e2 = each_col2_ok[OF e this, of "\<lambda>p q. ?S2 `` p \<union> q" "\<lambda>p q. q", OF law]
  have rr: "same_rows (clean_up_stale_moves b4) r" and sr: "sets_ok r" using e2(1,3) by simp_all
  have "cb_ok r" "row_map r = row_map (clean_up_stale_moves b4)" "move_mapping r = []"
    using rr sr cu(1,3) by (simp_all add: same_rows_def cb_ok_def row_map_def all_moves_def)
  moreover have "mark r x = mark c x \<union> carried_marks b c x" if t: "tracked b x" for x
  proof -
    have t1: "tracked ?b1 x" using t rows1(4) by (simp add: tracked_def)
    have tc: "track_columns (clean_up_stale_moves b4) = track_columns b"
      using rows3(1) rows1(4) by (simp add: clean_up_stale_moves_def b4_def same_rows_def split: prod.splits)
    have "mark (clean_up_stale_moves b4) x = mark b3 x"
      using cu(4,5) by (simp add: mark_def b4_def split: option.splits)
    then have mr: "mark r x = ?S2 `` mark b3 x \<union> mark c3 x"
      using e2(5)[of x] t tc by (simp add: tracked_def)
    have m3: "mark b3 x = mark b x" "mark c3 x = mark c x \<union>
        {m \<in> set (moves c). fst m \<in> snd ` set (moves b)} `` mark b x \<union> set ?F `` mark b x"
      using mp[OF spec[OF mk3] t1] mk1[OF t] by simp_all
    have "{m \<in> set (moves c). fst m \<in> snd ` set (moves b)} \<union> {m \<in> set (moves c). fst m \<notin> ?I} =
        {m \<in> set (moves c). fst m \<in> ?I \<longrightarrow> fst m \<in> snd ` set (moves b)}" using mb by blast
    then show ?thesis unfolding mr m3 setF carried_marks_def by blast
  qed
  ultimately show ?thesis using cu(2) b4(2) by (simp add: merge_spec_def result)
qed

lemma cb_merge_ok:
  assumes "cb_ok b" and "cb_ok c" and "move_mapping b = []" and "move_mapping c = []"
    and "room_for (deletions b) (deletions c)" and "cols_within b" and "cols_within c"
  shows "merge_spec b c (cb_merge b c)"
proof (cases "cs_empty b \<or> cs_empty c")
  case False
  then show ?thesis using cb_merge_general[OF assms(1-5)] assms(6) by simp
next
  case True
  note eb = empty_row_map[OF assms(1,3) _ assms(6)] and ec = empty_row_map[OF assms(2,4) _ assms(7)]
  show ?thesis
  proof (cases "cs_empty c")
    case c: True
    then have "carried_marks b c x = mark b x" for x by (auto simp: carried_marks_def cs_empty_def)
    with c ec assms(1,3) show ?thesis by (simp add: merge_spec_def cb_merge_def)
  next
    case False
    with True have "cs_empty b" by simp
    with False eb assms(2,4) show ?thesis by (simp add: merge_spec_def cb_merge_def carried_marks_def)
  qed
qed

end
