(* ===== verification/ChangeRowLaws.thy ===== *)
theory ChangeRowLaws imports ChangeMerge begin

text \<open>
  \<open>swap\<close> and \<open>move_over\<close>, the operations of unordered tables, which track moves in
  \<open>m_move_mapping\<close>.  The row map is read backwards as \<open>origin\<close>: the old position of the
  row now at a position, from the mapping if it has an entry and else as a survivor.
\<close>

section \<open>Origins\<close>

definition survivor :: "change_builder \<Rightarrow> nat \<Rightarrow> nat option" where
  "survivor b n =
     (if n \<in> indices (insertions b) then None
      else Some (is_shift (deletions b) (is_unshift (insertions b) n)))"

definition origin :: "change_builder \<Rightarrow> nat \<Rightarrow> nat option" where
  "origin b n = (case map_of (move_mapping b) n of Some i \<Rightarrow> Some i | None \<Rightarrow> survivor b n)"

lemma sets_ok_parts:
  "sets_ok b \<Longrightarrow> crv_wf (deletions b)" "sets_ok b \<Longrightarrow> crv_wf (insertions b)"
  by (simp_all add: sets_ok_def)

lemma survivor_iff:
  assumes "sets_ok b"
  shows "survivor b n = Some i \<longleftrightarrow> (i, n) \<in> survives (indices (deletions b)) (indices (insertions b))"
proof (cases "n \<in> indices (insertions b)")
  case False
  have "(is_shift (deletions b) (is_unshift (insertions b) n), n)
      \<in> survives (indices (deletions b)) (indices (insertions b))"
    using index_set.old_position[OF sets_ok_parts[OF assms] False] .
  with False survives_left_unique show ?thesis by (auto simp: survivor_def)
qed (simp add: survivor_def survives_iff)

lemma keys_distinct: "cb_ok b \<Longrightarrow> distinct (map fst (move_mapping b))"
  by (auto simp: cb_ok_def moves_ok_def all_moves_def comp_def prod.swap_def)

lemma mapping_sets:
  "cb_ok b \<Longrightarrow> map_of (move_mapping b) n = Some i \<Longrightarrow>
     n \<in> indices (insertions b) \<and> i \<in> indices (deletions b)"
  by (force simp: cb_ok_def moves_ok_def all_moves_def dest: map_of_SomeD)

lemma origin_iff:
  assumes "cb_ok b" and "moves b = []"
  shows "(i, n) \<in> row_map b \<longleftrightarrow> origin b n = Some i"
proof -
  have s: "sets_ok b" using assms(1) by (simp add: cb_ok_def)
  have "(i, n) \<in> set (all_moves b) \<longleftrightarrow> map_of (move_mapping b) n = Some i"
    using map_of_eq_Some_iff[OF keys_distinct[OF assms(1)]] assms(2) by (auto simp: all_moves_def)
  then show ?thesis
    using mapping_sets[OF assms(1), of n] survivor_iff[OF s, of n i]
    by (auto simp: row_map_def origin_def survivor_def split: option.splits)
qed

lemma rows_recorded:
  assumes "cb_ok b" and "moves b = []" and "sets_ok b'" and "moves b' = []"
    and "distinct (map fst (move_mapping b'))"
    and "\<And>n i. map_of (move_mapping b') n = Some i \<Longrightarrow>
      n \<in> indices (insertions b') \<and> i \<in> indices (deletions b') \<and> origin b (g n) = Some i"
    and "inj_on g (dom (map_of (move_mapping b')))"
  shows "cb_ok b'"
proof -
  let ?mm = "move_mapping b'"
  have m: "map_of ?mm n = Some i" if "(n, i) \<in> set ?mm" for n i
    using that assms(5) by simp
  have "inj_on snd (set ?mm)"
  proof (rule inj_onI)
    fix p q assume a: "p \<in> set ?mm" "q \<in> set ?mm" "snd p = snd q"
    obtain n i where p: "p = (n, i)" by (cases p)
    then obtain n' where q: "q = (n', i)" using a(3) by (cases q) simp
    have mm: "map_of ?mm n = Some i" "map_of ?mm n' = Some i" using m a(1,2) p q by blast+
    then have "(i, g n) \<in> row_map b" "(i, g n') \<in> row_map b"
      using assms(6) origin_iff[OF assms(1,2)] by blast+
    then have "g n = g n'" using row_map_unique(2)[of b] assms(1) by (simp add: cb_ok_def)
    moreover have "n \<in> dom (map_of ?mm)" "n' \<in> dom (map_of ?mm)" using mm by auto
    ultimately show "p = q" using assms(7) p q by (auto dest: inj_onD)
  qed
  then have "distinct (map snd ?mm)" using assms(5) by (simp add: distinct_map)
  moreover have "set (map prod.swap ?mm) \<subseteq> indices (deletions b') \<times> indices (insertions b')"
    using assms(6)[OF m] by auto
  ultimately show ?thesis
    using assms(3,4,5) by (simp add: cb_ok_def moves_ok_def all_moves_def comp_def)
qed

section \<open>Deleting a survivor\<close>

lemma survives_without:
  assumes "finite D" "finite I" and "(s, j) \<in> survives D I"
  shows "survives (insert s D) (insert j I) = survives D I - {(s, j)}"
proof -
  have sj: "s \<notin> D" "j \<notin> I" "rank D s = rank I j" using assms(3) by (simp_all add: survives_iff)
  have r: "rank (insert s D) s = rank D s" "rank (insert j I) j = rank I j"
    by (simp_all add: rank_def)
  have "survives (insert s D - {s}) (insert j I - {j}) =
      insert (s, j) (survives (insert s D) (insert j I))"
    by (rule survives_drop) (use assms sj r in simp_all)
  moreover have "(s, j) \<notin> survives (insert s D) (insert j I)" by (simp add: survives_iff)
  ultimately show ?thesis using sj by (auto simp: insert_Diff_if)
qed

lemma add_swap_move_none:
  "sets_ok b \<Longrightarrow> survivor b src = None \<Longrightarrow> add_swap_move src dst b = b"
  by (simp add: add_swap_move_def survivor_def is_contains_ok sets_ok_parts split: if_splits)

lemma add_swap_move_some:
  assumes "sets_ok b" and "survivor b src = Some s" and b'_def: "b' = add_swap_move src dst b"
  shows "sets_ok b'" and "survivor b' = (survivor b)(src := None)"
    and "move_mapping b' = AList.update dst s (move_mapping b)"
    and "indices (insertions b') = insert src (indices (insertions b))"
    and "indices (deletions b') = insert s (indices (deletions b))"
    and "modifications b' = modifications b" "columns b' = columns b" "moves b' = moves b"
    and "track_columns b' = track_columns b"
proof -
  note w = sets_ok_parts[OF assms(1)]
  have nI: "src \<notin> indices (insertions b)" using assms(2) by (auto simp: survivor_def)
  obtain D s' where a: "is_add_shifted (deletions b) (is_unshift (insertions b) src) = (D, s')"
    by (cases "is_add_shifted (deletions b) (is_unshift (insertions b) src)")
  note d = index_set.delete_row[OF w nI a]
  have s: "s' = s" using d(2) assms(2) survivor_iff[OF assms(1)] survives_left_unique by blast
  have b': "b' = b\<lparr>deletions := D, move_mapping := AList.update dst s (move_mapping b),
      insertions := is_add (insertions b) src\<rparr>"
    using nI a s w by (simp add: b'_def add_swap_move_def is_contains_ok)
  then show so: "sets_ok b'" using assms(1) d(1) by (simp add: sets_ok_def is_add_ok)
  show D: "indices (deletions b') = insert s (indices (deletions b))" using b' d(3) s by simp
  show I: "indices (insertions b') = insert src (indices (insertions b))" using b' w by (simp add: is_add_ok)
  show "move_mapping b' = AList.update dst s (move_mapping b)" "modifications b' = modifications b"
    "columns b' = columns b" "moves b' = moves b" "track_columns b' = track_columns b"
    by (simp_all add: b')
  show "survivor b' = (survivor b)(src := None)"
  proof
    fix n
    have eq: "survives (indices (deletions b')) (indices (insertions b')) =
        survives (indices (deletions b)) (indices (insertions b)) - {(s, src)}"
      using survives_without[OF _ _ d(2)] by (simp add: s D I)
    have "survivor b' n = Some i \<longleftrightarrow> ((survivor b)(src := None)) n = Some i" for i
    proof (cases "n = src")
      case True
      then show ?thesis by (simp add: survivor_def I)
    next
      case False
      then show ?thesis by (simp add: survivor_iff[OF so] survivor_iff[OF assms(1)] eq)
    qed
    then show "survivor b' n = ((survivor b)(src := None)) n" by (metis not_Some_eq)
  qed
qed

section \<open>Swapping two rows\<close>

lemmas alist_simps = update_conv' delete_conv' distinct_update distinct_delete

text \<open>
  What the steps of a row operation establish: frame, distinct keys, moves inside the
  deletions and insertions.
\<close>

definition rows_kept :: "change_builder \<Rightarrow> change_builder \<Rightarrow> bool" where
  "rows_kept b r \<longleftrightarrow> sets_ok r \<and> moves r = moves b \<and> modifications r = modifications b \<and>
     columns r = columns b \<and> track_columns r = track_columns b \<and> distinct (map fst (move_mapping r)) \<and>
     indices (insertions b) \<subseteq> indices (insertions r) \<and> indices (deletions b) \<subseteq> indices (deletions r)"

definition swap_to :: "nat \<Rightarrow> nat \<Rightarrow> nat \<Rightarrow> nat" where
  "swap_to x y n = (if n = x then y else if n = y then x else n)"

lemma swap_to_simps [simp]: "swap_to x y x = y" "swap_to x y y = x" "swap_to x y (swap_to x y n) = n"
  by (auto simp: swap_to_def)

lemma inj_swap_to: "inj_on (swap_to x y) A"
  by (rule inj_on_inverseI[where g = "swap_to x y"]) simp

lemma survivor_mapping [simp]: "survivor (b\<lparr>move_mapping := mm\<rparr>) = survivor b"
  by (simp add: fun_eq_iff survivor_def)

lemma sets_ok_mapping [simp]: "sets_ok (b\<lparr>move_mapping := mm\<rparr>) = sets_ok b"
  by (simp add: sets_ok_def)

text \<open>One recorded move and, for rows that are new insertions, none.\<close>

lemma add_swap_move_kept:
  assumes "sets_ok b" and "distinct (map fst (move_mapping b))" and "r = add_swap_move src dst b"
  shows "rows_kept b r \<and> survivor r = (survivor b)(src := None) \<and>
    map_of (move_mapping r) = (case survivor b src of None \<Rightarrow> map_of (move_mapping b)
       | Some s \<Rightarrow> (map_of (move_mapping b))(dst \<mapsto> s)) \<and>
    src \<in> indices (insertions r) \<and> (\<forall>s. survivor b src = Some s \<longrightarrow> s \<in> indices (deletions r))"
proof (cases "survivor b src")
  case None
  moreover have "src \<in> indices (insertions b)" using None by (simp add: survivor_def split: if_splits)
  moreover have "r = b" using add_swap_move_none[OF assms(1) None] assms(3) by simp
  ultimately show ?thesis using assms(1,2) by (simp add: rows_kept_def fun_upd_idem)
next
  case (Some s)
  note a = add_swap_move_some[OF assms(1) Some assms(3)]
  have "insertions r = insertions r" ..
  then show ?thesis using a assms(2) Some by (auto simp: rows_kept_def alist_simps)
qed

definition swap_rows :: "nat \<Rightarrow> nat \<Rightarrow> change_builder \<Rightarrow> change_builder" where
  "swap_rows x y b = (case (map_of (move_mapping b) x, map_of (move_mapping b) y) of
     (Some old_1, Some old_2) \<Rightarrow>
       b\<lparr>move_mapping := AList.update y old_1 (AList.update x old_2 (move_mapping b))\<rparr>
   | (Some old_1, None) \<Rightarrow> update_move old_1 y x b
   | (None, Some old_2) \<Rightarrow> update_move old_2 x y b
   | (None, None) \<Rightarrow> add_swap_move x y (add_swap_move y x b))"

lemma update_move_ok:
  assumes "cb_ok b" and "x \<noteq> y" and "map_of (move_mapping b) x = None"
    and "map_of (move_mapping b) y = Some old" and "r = update_move old x y b"
  shows "rows_kept b r" and "origin r n = origin b (swap_to x y n)"
    and "map_of (move_mapping r) n = Some i \<Longrightarrow> n \<in> indices (insertions r) \<and> i \<in> indices (deletions r)"
proof -
  let ?b = "b\<lparr>move_mapping := AList.update x old (AList.delete y (move_mapping b))\<rparr>"
  have s: "sets_ok ?b" using assms(1) by (simp add: cb_ok_def)
  have d: "distinct (map fst (move_mapping ?b))" using keys_distinct[OF assms(1)] by (simp add: alist_simps)
  have r: "r = add_swap_move x y ?b" by (simp add: assms(5) update_move_def)
  note k = add_swap_move_kept[OF s d r]
  note ms = mapping_sets[OF assms(1)]
  have sy: "survivor b y = None" using ms[OF assms(4)] by (simp add: survivor_def)
  from k show kept: "rows_kept b r" by (simp add: rows_kept_def)
  have mm: "map_of (move_mapping r) = (case survivor b x of None \<Rightarrow> (map_of (move_mapping b))(y := None, x \<mapsto> old)
      | Some s \<Rightarrow> (map_of (move_mapping b))(y := None, x \<mapsto> old, y \<mapsto> s))"
    using k by (simp add: alist_simps split: option.splits)
  have sr: "survivor r = (survivor b)(x := None)" using k by simp
  show "origin r n = origin b (swap_to x y n)"
    using sy assms(2-4) unfolding origin_def mm sr
    by (cases "survivor b x"; cases "map_of (move_mapping b) n") (auto simp: swap_to_def)
  show "n \<in> indices (insertions r) \<and> i \<in> indices (deletions r)" if "map_of (move_mapping r) n = Some i"
    using that k kept ms[OF assms(4)] ms[of n i] unfolding mm
    by (cases "survivor b x") (auto simp: rows_kept_def split: if_splits)
qed

lemma swap_rows_ok:
  assumes "cb_ok b" and "moves b = []" and "x \<noteq> y" and "r = swap_rows x y b"
  shows "rows_kept b r" and "origin r n = origin b (swap_to x y n)" and "cb_ok r"
proof -
  let ?mm = "map_of (move_mapping b)"
  note ms = mapping_sets[OF assms(1)] and kd = keys_distinct[OF assms(1)]
  have s: "sets_ok b" using assms(1) by (simp add: cb_ok_def)
  have "rows_kept b r \<and> (\<forall>n. origin r n = origin b (swap_to x y n)) \<and>
    (\<forall>n i. map_of (move_mapping r) n = Some i \<longrightarrow> n \<in> indices (insertions r) \<and> i \<in> indices (deletions r))"
  proof (cases "?mm x"; cases "?mm y")
    fix a c assume xy: "?mm x = Some a" "?mm y = Some c"
    then have r: "r = b\<lparr>move_mapping := AList.update y a (AList.update x c (move_mapping b))\<rparr>"
      using assms(4) by (simp add: swap_rows_def)
    show ?thesis using r xy ms s kd assms(3)
      by (auto simp: rows_kept_def alist_simps origin_def swap_to_def split: option.split)
  next
    fix a assume xy: "?mm x = Some a" "?mm y = None"
    then have r: "r = update_move a y x b" using assms(4) by (simp add: swap_rows_def)
    note u = update_move_ok[OF assms(1) assms(3)[symmetric] xy(2,1) r]
    have "swap_to y x n = swap_to x y n" for n using assms(3) by (auto simp: swap_to_def)
    with u show ?thesis by auto
  next
    fix c assume xy: "?mm x = None" "?mm y = Some c"
    then have r: "r = update_move c x y b" using assms(4) by (simp add: swap_rows_def)
    note u = update_move_ok[OF assms(1,3) xy r]
    then show ?thesis by auto
  next
    assume xy: "?mm x = None" "?mm y = None"
    define b2 where "b2 = add_swap_move y x b"
    have r: "r = add_swap_move x y b2" using assms(4) xy by (simp add: swap_rows_def b2_def)
    note k2 = add_swap_move_kept[OF s kd b2_def]
    have s2: "sets_ok b2" and kd2: "distinct (map fst (move_mapping b2))" using k2 by (simp_all add: rows_kept_def)
    note k = add_swap_move_kept[OF s2 kd2 r]
    have sx: "survivor b2 x = survivor b x" using k2 assms(3) by simp
    have kept: "rows_kept b r" using k k2 by (auto simp: rows_kept_def)
    have sr: "survivor r = (survivor b)(y := None, x := None)" using k k2 by simp
    have mm: "map_of (move_mapping b2) = (case survivor b y of None \<Rightarrow> ?mm | Some s \<Rightarrow> ?mm(x \<mapsto> s))"
      "map_of (move_mapping r) = (case survivor b x of None \<Rightarrow> map_of (move_mapping b2)
         | Some s \<Rightarrow> (map_of (move_mapping b2))(y \<mapsto> s))"
      using k k2 sx by simp_all
    have org: "origin r n = origin b (swap_to x y n)" for n
      using xy assms(3) unfolding origin_def sr mm
      by (cases "survivor b x"; cases "survivor b y"; cases "?mm n") (auto simp: swap_to_def)
    have "n \<in> indices (insertions r) \<and> i \<in> indices (deletions r)" if "map_of (move_mapping r) n = Some i" for n i
      using that k k2 sx ms[of n i] unfolding rows_kept_def
      by (cases "survivor b x"; cases "survivor b y") (auto split: if_splits)
    with kept org show ?thesis by blast
  qed
  then have k: "rows_kept b r" and o: "\<And>n. origin r n = origin b (swap_to x y n)"
    and m: "\<And>n i. map_of (move_mapping r) n = Some i \<Longrightarrow> n \<in> indices (insertions r) \<and> i \<in> indices (deletions r)"
    by blast+
  from k show "rows_kept b r" .
  from o show "origin r n = origin b (swap_to x y n)" .
  have "map_of (move_mapping r) n = Some i \<Longrightarrow> origin b (swap_to x y n) = Some i" for n i
    using o[of n] by (simp add: origin_def)
  with m have all: "map_of (move_mapping r) n = Some i \<Longrightarrow> n \<in> indices (insertions r) \<and>
      i \<in> indices (deletions r) \<and> origin b (swap_to x y n) = Some i" for n i
    by blast
  show "cb_ok r"
    by (rule rows_recorded[OF assms(1,2) _ _ _ all inj_swap_to])
      (use k assms(2) in \<open>simp_all add: rows_kept_def\<close>)
qed

lemma swap_col_ok:
  assumes "x \<noteq> y"
  shows "crv_wf c \<Longrightarrow> crv_wf (swap_col x y c) \<and> indices (swap_col x y c) = swap_step x y `` indices c"
  by (rule index_set.swapped_marks[of c x y]) (simp_all add: assms swap_col_def Let_def)

lemma for_each_col_rows:
  assumes "cb_ok b" and "sets_ok (for_each_col f b)"
  shows "cb_ok (for_each_col f b)" and "row_map (for_each_col f b) = row_map b"
  using assms by (simp_all add: cb_ok_def row_map_def all_moves_def)

lemma cb_swap_eq:
  "cb_swap x y True b = swap_rows (min x y) (max x y) (for_each_col (swap_col (min x y) (max x y)) b)"
  by (cases "y < x") (auto simp: cb_swap_def swap_rows_def Let_def min_def max_def split: option.split)

lemma cb_swap_ok:
  assumes "cb_ok b" and "moves b = []" and "x \<noteq> y"
  shows "cb_ok (cb_swap x y True b)" and "row_map (cb_swap x y True b) = row_map b O swap_step x y"
    and "carried (swap_step x y) b (cb_swap x y True b)" and "moves (cb_swap x y True b) = []"
proof -
  let ?x = "min x y" and ?y = "max x y"
  let ?b = "for_each_col (swap_col ?x ?y) b" and ?r = "cb_swap x y True b"
  have ne: "?x \<noteq> ?y" using assms(3) by (simp add: min_def max_def)
  have s: "sets_ok b" using assms(1) by (simp add: cb_ok_def)
  have f: "sets_ok ?b" "carried (swap_step ?x ?y) b ?b"
    by (rule for_each_col_ok[OF s], rule swap_col_ok[OF ne], assumption)+
  note fr = for_each_col_rows[OF assms(1) f(1)]
  note w = swap_rows_ok[OF fr(1) _ ne cb_swap_eq]
  have m: "moves ?b = []" using assms(2) by simp
  show ok: "cb_ok ?r" using w(3) m by simp
  show mv: "moves ?r = []" using w(1) m by (simp add: rows_kept_def)
  have st: "swap_step ?x ?y = swap_step x y" by (auto simp: swap_step_def min_def max_def)
  show "carried (swap_step x y) b ?r"
    using f(2) w(1)[OF m] unfolding st by (simp add: rows_kept_def marks_def)
  show "row_map ?r = row_map b O swap_step x y"
  proof (intro set_eqI; clarify)
    fix i n
    have "(i, n) \<in> row_map ?r \<longleftrightarrow> origin ?b (swap_to ?x ?y n) = Some i"
      using origin_iff[OF ok mv] w(2)[OF m] by simp
    also have "\<dots> \<longleftrightarrow> (i, swap_to ?x ?y n) \<in> row_map b"
      using origin_iff[OF fr(1) m] fr(2) by simp
    also have "\<dots> \<longleftrightarrow> (i, n) \<in> row_map b O swap_step ?x ?y"
    proof -
      have "(j, n) \<in> swap_step ?x ?y \<longleftrightarrow> j = swap_to ?x ?y n" for j
        by (auto simp: swap_step_def swap_to_def)
      then show ?thesis by auto
    qed
    finally show "(i, n) \<in> row_map ?r \<longleftrightarrow> (i, n) \<in> row_map b O swap_step x y" unfolding st .
  qed
qed

end
