(* ===== verification/ChangeMoveOver.thy ===== *)
theory ChangeMoveOver imports ChangeRowLaws begin

text \<open>
  \<open>move_over\<close>: the last row of an unordered table replaces the deleted one.  Positions from
  the old last row on are no rows afterwards, so the row map is compared below it.
\<close>

lemma last_end_eq:
  assumes "crv_wf m" and "m \<noteq> []"
  shows "last_end m = snd (last (flat m))"
proof -
  have ok: "chunks_ok m" using assms(1) by (simp add: crv_wf_def)
  then have "flat m \<noteq> []" using assms(2) flat_Nil by blast
  then obtain l x where f: "flat m = l @ [x]" by (cases "flat m" rule: rev_cases) auto
  have "located m (it_end m) (l @ [x]) []" using located_end[OF ok] f by simp
  from located_deref[OF located_prev[OF this]] f show ?thesis by (simp add: last_end_def)
qed

lemma last_end_member:
  assumes "crv_wf m" and "indices m \<subseteq> {..n}"
  shows "m \<noteq> [] \<and> last_end m = n + 1 \<longleftrightarrow> n \<in> indices m"
proof (cases "m = []")
  case False
  have ok: "ranges_ok (flat m)" "flat m \<noteq> []" using assms(1) False flat_Nil by (auto simp: crv_wf_def)
  then obtain l x where f: "flat m = l @ [x]" by (cases "flat m" rule: rev_cases) auto
  have x: "fst x < snd x" "\<forall>q\<in>set l. snd q < fst x" using ok(1) f by (simp_all add: ranges_ok_append)
  have "snd x - 1 \<in> indices m" using x(1) f by (auto simp: indices_def)
  then have le: "snd x \<le> n + 1" using assms(2) by auto
  have "n \<in> indices m \<longleftrightarrow> snd x = n + 1"
  proof
    assume "n \<in> indices m"
    then have "n \<in> covered l \<or> n < snd x" using f by (auto simp: indices_def)
    moreover have "n \<notin> covered l" if "snd x \<le> n" using that x by (fastforce simp: in_covered)
    ultimately show "snd x = n + 1" using le by (cases "n < snd x") auto
  next
    assume "snd x = n + 1"
    with \<open>snd x - 1 \<in> indices m\<close> show "n \<in> indices m" by simp
  qed
  then show ?thesis using last_end_eq[OF assms(1) False] f False by simp
qed simp

lemma drop_last_survives:
  assumes "finite D" "finite I" and "n < last_row"
    and "last_row \<in> I \<and> I' = I - {last_row} \<and> D' = D \<or>
      last_row \<notin> I \<and> I' = I \<and> D' = insert s D \<and> (s, last_row) \<in> survives D I"
  shows "(i, n) \<in> survives D' I' \<longleftrightarrow> (i, n) \<in> survives D I"
  using assms(4)
proof (elim disjE conjE)
  assume "last_row \<in> I" "I' = I - {last_row}" "D' = D"
  then show ?thesis using assms(2,3) by (simp add: survives_iff rank_remove)
next
  assume h: "I' = I" "D' = insert s D" "(s, last_row) \<in> survives D I"
  have s: "s \<notin> D" "rank D s = rank I last_row" "last_row \<notin> I" using h(3) by (simp_all add: survives_iff)
  have below: "rank (insert s D) i = rank D i" if "i \<le> s"
    using rank_remove[of "insert s D" s i] assms(1) s(1) that by simp
  show ?thesis
  proof
    assume a: "(i, n) \<in> survives D' I'"
    have "i \<noteq> s" using a h by (auto simp: survives_iff)
    moreover have "\<not> s < i"
    proof
      assume "s < i"
      then have "rank (insert s D) s \<le> rank (insert s D) i" by (intro rank_mono) simp
      moreover have "rank (insert s D) s = rank D s" by (simp add: rank_def)
      moreover have "rank I n < rank I last_row" using a h assms(3) by (auto simp: survives_iff intro: rank_strict)
      ultimately show False using a h s by (simp add: survives_iff)
    qed
    ultimately show "(i, n) \<in> survives D I" using a h below by (simp add: survives_iff)
  next
    assume a: "(i, n) \<in> survives D I"
    then have "i < s" using survives_mono[OF a h(3)] assms(3) by simp
    with a h below show "(i, n) \<in> survives D' I'" by (simp add: survives_iff)
  qed
qed

lemma drop_last_survivor:
  assumes "sets_ok b" and "sets_ok b'" and "n < last_row"
    and "last_row \<in> indices (insertions b) \<and> indices (insertions b') = indices (insertions b) - {last_row} \<and>
        indices (deletions b') = indices (deletions b) \<or>
      last_row \<notin> indices (insertions b) \<and> indices (insertions b') = indices (insertions b) \<and>
        indices (deletions b') = insert s (indices (deletions b)) \<and> survivor b last_row = Some s"
  shows "survivor b' n = survivor b n"
proof -
  have "(i, n) \<in> survives (indices (deletions b')) (indices (insertions b')) \<longleftrightarrow>
      (i, n) \<in> survives (indices (deletions b)) (indices (insertions b))" for i
    by (rule drop_last_survives[OF finite_indices finite_indices assms(3), where s = s])
      (use assms(4) in \<open>simp add: survivor_iff[OF assms(1)]\<close>)
  then have "survivor b' n = Some i \<longleftrightarrow> survivor b n = Some i" for i
    by (simp add: survivor_iff[OF assms(1)] survivor_iff[OF assms(2)])
  then show ?thesis by (metis not_Some_eq)
qed

lemma close_gap_top: "I \<subseteq> {..n} \<Longrightarrow> close_gap n I = I - {n}"
  by (auto simp: close_gap_def)

text \<open>What the rows part of \<open>move_over\<close> must establish.\<close>

lemma over_recorded:
  assumes "cb_ok b" and "moves b = []" and "indices (insertions b) \<subseteq> {..last_row}" and "row \<le> last_row"
    and r: "sets_ok r" "moves r = []" "distinct (map fst (move_mapping r))"
    and mm: "\<And>n. map_of (move_mapping r) n = (if n = last_row then None
        else if n = row then origin b last_row else map_of (move_mapping b) n)"
    and sv: "\<And>n. n < last_row \<Longrightarrow> survivor r n = (if n = row then None else survivor b n)"
    and I: "indices (insertions r) = indices (insertions b) - {last_row} \<union> ({row} - {last_row})"
    and D: "indices (deletions b) \<subseteq> indices (deletions r)"
      "\<And>s. survivor b last_row = Some s \<Longrightarrow> s \<in> indices (deletions r)"
  shows "cb_ok r"
    and "row_map r \<inter> UNIV \<times> {..<last_row} = row_map b O over_step row last_row"
proof -
  let ?g = "\<lambda>n. if n = row then last_row else n"
  have org: "origin r n = origin b (?g n)" if "n < last_row" for n
    using mm[of n] sv[OF that] that by (auto simp: origin_def split: option.split)
  note ms = mapping_sets[OF assms(1)]
  have dom: "n < last_row" if "map_of (move_mapping r) n = Some i" for n i
    using that mm[of n] ms[of n i] assms(3,4) by (fastforce split: if_splits)
  have Dr: "i \<in> indices (deletions r)" if "map_of (move_mapping r) n = Some i" for n i
    using that mm[of n] ms[of n i] ms[of last_row i] D
    by (auto simp: origin_def split: if_splits option.splits)
  have Ir: "n \<in> indices (insertions r)" if "map_of (move_mapping r) n = Some i" for n i
    using that mm[of n] ms[of n i] I by (auto split: if_splits)
  have all: "n \<in> indices (insertions r) \<and> i \<in> indices (deletions r) \<and> origin b (?g n) = Some i"
    if "map_of (move_mapping r) n = Some i" for n i
    using Ir[OF that] Dr[OF that] org[OF dom[OF that]] that by (simp add: origin_def)
  have inj: "inj_on ?g (dom (map_of (move_mapping r)))"
    using dom by (auto simp: inj_on_def split: if_splits)
  show ok: "cb_ok r" by (rule rows_recorded[OF assms(1,2) r all inj])
  show "row_map r \<inter> UNIV \<times> {..<last_row} = row_map b O over_step row last_row"
  proof (intro set_eqI; clarify)
    fix i n
    have "(j, n) \<in> over_step row last_row \<longleftrightarrow> n < last_row \<and> j = ?g n" for j
      using assms(4) by (auto simp: over_step_def)
    then have "(i, n) \<in> row_map b O over_step row last_row \<longleftrightarrow> n < last_row \<and> (i, ?g n) \<in> row_map b"
      by auto
    also have "\<dots> \<longleftrightarrow> n < last_row \<and> (i, n) \<in> row_map r"
      using org by (auto simp: origin_iff[OF assms(1,2)] origin_iff[OF ok r(2)])
    finally show "(i, n) \<in> row_map r \<inter> UNIV \<times> {..<last_row} \<longleftrightarrow> (i, n) \<in> row_map b O over_step row last_row"
      by auto
  qed
qed

lemma move_over_last_ok:
  assumes "cb_ok b" and "moves b = []" and "indices (insertions b) \<subseteq> {..n}" and "n < npos"
    and e: "is_erase_or_unshift (insertions b) n = (I', u)"
    and r: "r = b\<lparr>insertions := I',
      deletions := (if u \<noteq> npos then fst (is_add_shifted (deletions b) u) else deletions b),
      move_mapping := AList.delete n (move_mapping b)\<rparr>"
  shows "cb_ok r" and "row_map r \<inter> UNIV \<times> {..<n} = row_map b O over_step n n"
proof -
  have s: "sets_ok b" using assms(1) by (simp add: cb_ok_def)
  note er = index_set.erase_row[OF sets_ok_parts[OF s] assms(4) e refl]
  let ?D = "indices (deletions b)" and ?I = "indices (insertions b)"
  have I: "indices (insertions r) = ?I - {n}" using er close_gap_top[OF assms(3)] r by simp
  have D: "indices (deletions r) = both_deletions ?D ?I {n}" using er r by simp
  have rs: "sets_ok r" using s er r by (simp add: sets_ok_def)
  have cases: "n \<in> ?I \<and> indices (insertions r) = ?I - {n} \<and> indices (deletions r) = ?D \<or>
      n \<notin> ?I \<and> indices (insertions r) = ?I \<and> indices (deletions r) = insert (the (survivor b n)) ?D \<and>
        survivor b n = Some (the (survivor b n))"
  proof (cases "n \<in> ?I")
    case False
    then obtain x where x: "survivor b n = Some x" by (simp add: survivor_def)
    then have "(x, n) \<in> survives ?D ?I" by (simp add: survivor_iff[OF s])
    with False I D x both_deletions_insert(1)[of x n ?D ?I "{}"] show ?thesis by simp
  qed (use I D both_deletions_insert(2) in simp)
  have r': "moves r = []" "distinct (map fst (move_mapping r))"
    using assms(2) keys_distinct[OF assms(1)] r by (simp_all add: distinct_delete)
  have mm: "map_of (move_mapping r) k = (if k = n then None else if k = n then origin b n
      else map_of (move_mapping b) k)" for k
    using r by (simp add: delete_conv')
  have sv: "survivor r k = (if k = n then None else survivor b k)" if "k < n" for k
    using drop_last_survivor[OF s rs that cases] that by simp
  have I2: "indices (insertions r) = ?I - {n} \<union> ({n} - {n})" using I by simp
  have D1: "?D \<subseteq> indices (deletions r)" using cases by blast
  have none: "n \<in> ?I \<Longrightarrow> survivor b n = None" by (simp add: survivor_def)
  have D2: "x \<in> indices (deletions r)" if "survivor b n = Some x" for x
    using cases
  proof (elim disjE conjE)
    assume "n \<in> ?I"
    with none that show ?thesis by simp
  next
    assume "indices (deletions r) = insert (the (survivor b n)) ?D"
    with that show ?thesis by simp
  qed
  show "cb_ok r" "row_map r \<inter> UNIV \<times> {..<n} = row_map b O over_step n n"
    by (rule over_recorded[of b n n r, OF assms(1-3) order_refl rs r' mm sv I2 D1 D2]; assumption)+
qed

text \<open>The rows part of \<open>move_over\<close> for two different rows, as the code has it.\<close>

definition over_rows :: "nat \<Rightarrow> nat \<Rightarrow> change_builder \<Rightarrow> change_builder" where
  "over_rows row last_row b1 =
     (let row_is_insertion = is_contains (insertions b1) row;
          last_is_insertion = (insertions b1 \<noteq> [] \<and> last_end (insertions b1) = last_row + 1);
          (mm, last_was_already_moved) =
            (if last_is_insertion then
               (case map_of (move_mapping b1) last_row of
                  Some old \<Rightarrow> (AList.delete last_row (AList.update row old (move_mapping b1)), True)
                | None \<Rightarrow> (move_mapping b1, False))
             else (move_mapping b1, False));
          mm1 = (if row_is_insertion \<and> \<not> last_was_already_moved then AList.delete row mm else mm);
          b2 = b1\<lparr>move_mapping := mm1\<rparr>;
          b3 = (if last_is_insertion
                then b2\<lparr>insertions := is_remove (insertions b2) last_row 1\<rparr>
                else if \<not> last_was_already_moved then
                  let (D, s) = is_add_shifted (deletions b2) (is_unshift (insertions b2) last_row)
                  in b2\<lparr>deletions := D, move_mapping := AList.update row s (move_mapping b2)\<rparr>
                else b2)
      in if \<not> row_is_insertion then
           b3\<lparr>deletions := fst (is_add_shifted (deletions b3) (is_unshift (insertions b3) row)),
              insertions := is_add (insertions b3) row\<rparr>
         else b3)"

lemma move_over_eq:
  "move_over row last_row True b = (if row = last_row then
     for_each_col (\<lambda>col. is_remove col row 1)
       (let (I, u) = is_erase_or_unshift (insertions b) row
        in b\<lparr>insertions := I,
             deletions := (if u \<noteq> npos then fst (is_add_shifted (deletions b) u) else deletions b),
             move_mapping := AList.delete row (move_mapping b)\<rparr>)
   else over_rows row last_row (for_each_col (move_over_col row last_row) b))"
  by (simp add: move_over_def over_rows_def Let_def)

text \<open>The row that takes the deleted one's place leaves the end of the table.\<close>

lemma over_last_ok:
  assumes "cb_ok b" and "indices (insertions b) \<subseteq> {..last_row}" and "row < last_row"
    and last: "last_is_insertion = (last_row \<in> indices (insertions b))"
    and b3: "b3 = (let (mm, moved) =
            (if last_is_insertion then
               (case map_of (move_mapping b) last_row of
                  Some old \<Rightarrow> (AList.delete last_row (AList.update row old (move_mapping b)), True)
                | None \<Rightarrow> (move_mapping b, False))
             else (move_mapping b, False));
          mm1 = (if row \<in> indices (insertions b) \<and> \<not> moved then AList.delete row mm else mm);
          b2 = b\<lparr>move_mapping := mm1\<rparr>
        in if last_is_insertion then b2\<lparr>insertions := is_remove (insertions b2) last_row 1\<rparr>
           else if \<not> moved then
             let (D, s) = is_add_shifted (deletions b2) (is_unshift (insertions b2) last_row)
             in b2\<lparr>deletions := D, move_mapping := AList.update row s (move_mapping b2)\<rparr>
           else b2)"
  shows "sets_ok b3" and "distinct (map fst (move_mapping b3))" and "moves b3 = moves b"
    and "map_of (move_mapping b3) n = (if n = last_row then None else if n = row then origin b last_row
      else map_of (move_mapping b) n)"
    and "n < last_row \<Longrightarrow> survivor b3 n = survivor b n"
    and "indices (insertions b3) = indices (insertions b) - {last_row}"
    and "indices (deletions b) \<subseteq> indices (deletions b3)"
    and "\<And>s. survivor b last_row = Some s \<Longrightarrow> s \<in> indices (deletions b3)"
    and "modifications b3 = modifications b" and "columns b3 = columns b" and "track_columns b3 = track_columns b"
proof -
  let ?D = "indices (deletions b)" and ?I = "indices (insertions b)" and ?mm = "map_of (move_mapping b)"
  have s: "sets_ok b" using assms(1) by (simp add: cb_ok_def)
  note w = sets_ok_parts[OF s] and kd = keys_distinct[OF assms(1)] and ms = mapping_sets[OF assms(1)]
  have "sets_ok b3 \<and> distinct (map fst (move_mapping b3)) \<and> moves b3 = moves b \<and>
    (\<forall>n. map_of (move_mapping b3) n = (if n = last_row then None else if n = row then origin b last_row
      else ?mm n)) \<and> (\<forall>n<last_row. survivor b3 n = survivor b n) \<and>
    indices (insertions b3) = ?I - {last_row} \<and> ?D \<subseteq> indices (deletions b3) \<and>
    (\<forall>s. survivor b last_row = Some s \<longrightarrow> s \<in> indices (deletions b3)) \<and>
    modifications b3 = modifications b \<and> columns b3 = columns b \<and> track_columns b3 = track_columns b"
  proof (cases "last_row \<in> ?I")
    case True
    define mm1 where "mm1 = (case ?mm last_row of
        Some old \<Rightarrow> AList.delete last_row (AList.update row old (move_mapping b))
      | None \<Rightarrow> if row \<in> ?I then AList.delete row (move_mapping b) else move_mapping b)"
    have b3': "b3 = b\<lparr>move_mapping := mm1, insertions := is_remove (insertions b) last_row 1\<rparr>"
      using b3 last True by (simp add: mm1_def split: option.split)
    have rm: "crv_wf (is_remove (insertions b) last_row 1)"
      "indices (is_remove (insertions b) last_row 1) = ?I - {last_row}"
      using index_set.remove_one[OF w(2), of last_row] by simp_all
    have s3: "sets_ok b3" using s rm b3' by (simp add: sets_ok_def)
    have sl: "survivor b last_row = None" using True by (simp add: survivor_def)
    have m: "map_of mm1 n = (if n = last_row then None else if n = row then origin b last_row else ?mm n)" for n
    proof (cases "?mm last_row")
      case None
      have "?mm row = None" if "row \<notin> ?I" using that ms[of row] by (cases "?mm row") auto
      then show ?thesis using None sl assms(3) by (auto simp: mm1_def origin_def alist_simps)
    next
      case (Some old)
      then show ?thesis using assms(3) by (auto simp: mm1_def origin_def alist_simps)
    qed
    have dm: "distinct (map fst mm1)" using kd by (simp add: mm1_def alist_simps split: option.split)
    have "survivor b3 n = survivor b n" if "n < last_row" for n
      by (rule drop_last_survivor[OF s s3 that]) (use True rm(2) b3' in simp)
    with s3 dm m rm(2) b3' sl show ?thesis by simp
  next
    case False
    then obtain x where x: "survivor b last_row = Some x" by (simp add: survivor_def)
    obtain D s' where a: "is_add_shifted (deletions b) (is_unshift (insertions b) last_row) = (D, s')"
      by (cases "is_add_shifted (deletions b) (is_unshift (insertions b) last_row)")
    note d = index_set.delete_row[OF w False a]
    have sx: "s' = x" using d(2) x survivor_iff[OF s] survives_left_unique by blast
    define mm1 where "mm1 = AList.update row x
        (if row \<in> ?I then AList.delete row (move_mapping b) else move_mapping b)"
    have b3': "b3 = b\<lparr>deletions := D, move_mapping := mm1\<rparr>"
      using b3 last False a sx by (simp add: mm1_def)
    have s3: "sets_ok b3" using s d(1) b3' by (simp add: sets_ok_def)
    have mn: "?mm last_row = None" using False ms[of last_row] by (cases "?mm last_row") auto
    have m: "map_of mm1 n = (if n = last_row then None else if n = row then origin b last_row else ?mm n)" for n
      using assms(3) mn x by (auto simp: mm1_def origin_def alist_simps)
    have dm: "distinct (map fst mm1)" using kd by (simp add: mm1_def alist_simps)
    have "survivor b3 n = survivor b n" if "n < last_row" for n
      by (rule drop_last_survivor[OF s s3 that]) (use False d(3) b3' sx x in simp)
    with s3 dm m d(3) b3' sx x False show ?thesis by auto
  qed
  then show "sets_ok b3" and "distinct (map fst (move_mapping b3))" and "moves b3 = moves b"
    and "map_of (move_mapping b3) n = (if n = last_row then None else if n = row then origin b last_row
      else map_of (move_mapping b) n)"
    and "n < last_row \<Longrightarrow> survivor b3 n = survivor b n"
    and "indices (insertions b3) = indices (insertions b) - {last_row}"
    and "indices (deletions b) \<subseteq> indices (deletions b3)"
    and "\<And>s. survivor b last_row = Some s \<Longrightarrow> s \<in> indices (deletions b3)"
    and "modifications b3 = modifications b" and "columns b3 = columns b" and "track_columns b3 = track_columns b"
    by blast+
qed

lemma over_rows_ok:
  assumes "cb_ok b" and "moves b = []" and "indices (insertions b) \<subseteq> {..last_row}" and "row < last_row"
    and r: "r = over_rows row last_row b"
  shows "cb_ok r" and "row_map r \<inter> UNIV \<times> {..<last_row} = row_map b O over_step row last_row"
    and "modifications r = modifications b" and "columns r = columns b" and "track_columns r = track_columns b"
    and "moves r = []"
proof -
  let ?I = "indices (insertions b)"
  have s: "sets_ok b" using assms(1) by (simp add: cb_ok_def)
  note w = sets_ok_parts[OF s]
  define last_ins where "last_ins = (insertions b \<noteq> [] \<and> last_end (insertions b) = last_row + 1)"
  have li: "last_ins = (last_row \<in> ?I)" unfolding last_ins_def by (rule last_end_member[OF w(2) assms(3)])
  define b3 where "b3 = (let (mm, moved) =
            (if last_ins then
               (case map_of (move_mapping b) last_row of
                  Some old \<Rightarrow> (AList.delete last_row (AList.update row old (move_mapping b)), True)
                | None \<Rightarrow> (move_mapping b, False))
             else (move_mapping b, False));
          mm1 = (if row \<in> ?I \<and> \<not> moved then AList.delete row mm else mm);
          b2 = b\<lparr>move_mapping := mm1\<rparr>
        in if last_ins then b2\<lparr>insertions := is_remove (insertions b2) last_row 1\<rparr>
           else if \<not> moved then
             let (D, s) = is_add_shifted (deletions b2) (is_unshift (insertions b2) last_row)
             in b2\<lparr>deletions := D, move_mapping := AList.update row s (move_mapping b2)\<rparr>
           else b2)"
  note k = over_last_ok[OF assms(1,3,4) li b3_def]
  have r': "r = (if row \<notin> ?I then (add_swap_move row row b3)\<lparr>move_mapping := move_mapping b3\<rparr> else b3)"
  proof -
    have "r = (if row \<notin> ?I then
        b3\<lparr>deletions := fst (is_add_shifted (deletions b3) (is_unshift (insertions b3) row)),
           insertions := is_add (insertions b3) row\<rparr> else b3)"
      unfolding r over_rows_def b3_def last_ins_def Let_def by (simp add: is_contains_ok w(2) split: prod.split)
    moreover have "\<not> is_contains (insertions b3) row" if "row \<notin> ?I"
      using that k(6) is_contains_ok[OF sets_ok_parts(2)[OF k(1)]] by simp
    ultimately show ?thesis by (simp add: add_swap_move_def split: prod.split)
  qed
  note a = add_swap_move_kept[OF k(1,2) refl, of row row]
  have kept: "sets_ok r" "moves r = []" "distinct (map fst (move_mapping r))"
    using r' a k(1-3) assms(2) by (simp_all add: rows_kept_def split: if_splits)
  have mm: "map_of (move_mapping r) n = (if n = last_row then None
      else if n = row then origin b last_row else map_of (move_mapping b) n)" for n
    using r' k(4) by simp
  have sr: "survivor b3 row = (if row \<in> ?I then None else survivor b row)"
    using k(5)[OF assms(4)] by (simp add: survivor_def split: if_splits)
  have sv: "survivor r n = (if n = row then None else survivor b n)" if "n < last_row" for n
    using r' a k(5)[OF that] sr that by (auto split: if_splits)
  have I: "indices (insertions r) = ?I - {last_row} \<union> ({row} - {last_row})"
  proof (cases "row \<in> ?I")
    case False
    then obtain x where x: "survivor b3 row = Some x" using k(6) by (simp add: survivor_def)
    from add_swap_move_some(4)[OF k(1) x refl, of row] False r' k(6) assms(4) show ?thesis by auto
  qed (use r' k(6) assms(4) in auto)
  have D: "indices (deletions b) \<subseteq> indices (deletions r)"
    "survivor b last_row = Some x \<Longrightarrow> x \<in> indices (deletions r)" for x
    using r' a k(7) k(8)[of x] by (auto simp: rows_kept_def split: if_splits)
  show "cb_ok r" "row_map r \<inter> UNIV \<times> {..<last_row} = row_map b O over_step row last_row"
    by (rule over_recorded[of b last_row row r, OF assms(1-3) less_imp_le[OF assms(4)] kept mm sv I D]; assumption)+
  show "modifications r = modifications b" "columns r = columns b" "track_columns r = track_columns b"
    using r' a k(9-11) by (simp_all add: rows_kept_def split: if_splits)
  show "moves r = []" using kept(2) .
qed

lemma move_over_col_ok:
  assumes "row \<noteq> last_row" and "crv_wf c" and "indices c \<subseteq> {..last_row}"
  shows "crv_wf (move_over_col row last_row c) \<and>
    indices (move_over_col row last_row c) = over_step row last_row `` indices c"
  by (rule index_set.moved_over_marks[OF assms(2,3,1)]) (simp add: move_over_col_def)

lemma remove_last_ok:
  assumes "crv_wf c" and "indices c \<subseteq> {..n}"
  shows "crv_wf (is_remove c n 1) \<and> indices (is_remove c n 1) = over_step n n `` indices c"
proof -
  have "over_step n n `` indices c = indices c - {n}" using assms(2) by (auto simp: over_step_def Image_iff)
  then show ?thesis using index_set.remove_one[OF assms(1)] by simp
qed

definition within_table :: "nat \<Rightarrow> change_builder \<Rightarrow> bool" where
  "within_table last_row b \<longleftrightarrow> indices (insertions b) \<subseteq> {..last_row} \<and>
     (\<forall>c\<in>set (modifications b # columns b). indices c \<subseteq> {..last_row})"

lemma move_over_ok:
  assumes "cb_ok b" and "moves b = []" and "within_table last_row b" and "row \<le> last_row" and "last_row < npos"
  shows "cb_ok (move_over row last_row True b)"
    and "row_map (move_over row last_row True b) \<inter> UNIV \<times> {..<last_row} = row_map b O over_step row last_row"
    and "carried (over_step row last_row) b (move_over row last_row True b)"
    and "moves (move_over row last_row True b) = []"
proof -
  let ?r = "move_over row last_row True b"
  have s: "sets_ok b" using assms(1) by (simp add: cb_ok_def)
  have Ib: "indices (insertions b) \<subseteq> {..last_row}"
    and cb: "\<And>c. c \<in> set (modifications b # columns b) \<Longrightarrow> indices c \<subseteq> {..last_row}"
    using assms(3) by (auto simp: within_table_def)
  have "cb_ok ?r \<and> row_map ?r \<inter> UNIV \<times> {..<last_row} = row_map b O over_step row last_row \<and>
    carried (over_step row last_row) b ?r \<and> moves ?r = []"
  proof (cases "row = last_row")
    case True
    obtain I u where e: "is_erase_or_unshift (insertions b) last_row = (I, u)"
      by (cases "is_erase_or_unshift (insertions b) last_row")
    define b1 where "b1 = b\<lparr>insertions := I,
      deletions := (if u \<noteq> npos then fst (is_add_shifted (deletions b) u) else deletions b),
      move_mapping := AList.delete last_row (move_mapping b)\<rparr>"
    note m = move_over_last_ok[OF assms(1,2) Ib assms(5) e b1_def]
    have r: "?r = for_each_col (\<lambda>col. is_remove col last_row 1) b1"
      using True e by (simp add: move_over_eq b1_def)
    have b1: "modifications b1 = modifications b" "columns b1 = columns b" "track_columns b1 = track_columns b"
      "moves b1 = moves b"
      by (simp_all add: b1_def)
    have s1: "sets_ok b1" using m(1) by (simp add: cb_ok_def)
    have f: "sets_ok ?r" "carried (over_step last_row last_row) b1 ?r"
      unfolding r by (rule for_each_col_ok[OF s1], rule remove_last_ok, assumption, rule cb, simp add: b1)+
    have "carried (over_step row last_row) b ?r" using f(2) b1 True by (simp add: marks_def)
    moreover have "cb_ok ?r" "row_map ?r = row_map b1"
      using for_each_col_rows[OF m(1)] f(1) unfolding r by blast+
    ultimately show ?thesis using m(2) True r b1(4) assms(2) by simp
  next
    case False
    let ?b1 = "for_each_col (move_over_col row last_row) b"
    have r: "?r = over_rows row last_row ?b1" using False by (simp add: move_over_eq)
    have f: "sets_ok ?b1" "carried (over_step row last_row) b ?b1"
      by (rule for_each_col_ok[OF s], rule move_over_col_ok[OF False], assumption, rule cb, assumption)+
    note fr = for_each_col_rows[OF assms(1) f(1)]
    have lt: "row < last_row" using False assms(4) by simp
    note o = over_rows_ok[OF fr(1) _ _ lt r]
    have "moves ?b1 = []" "indices (insertions ?b1) \<subseteq> {..last_row}" using assms(2) Ib by simp_all
    note o = o[OF this]
    show ?thesis using o f(2) fr(2) by (simp add: marks_def)
  qed
  then show "cb_ok ?r" and "row_map ?r \<inter> UNIV \<times> {..<last_row} = row_map b O over_step row last_row"
    and "carried (over_step row last_row) b ?r" and "moves ?r = []"
    by blast+
qed

end
