(* ===== verification/IndexSetSpec.thy ===== *)
theory IndexSetSpec imports PositionSet begin

text \<open>
  The properties of \<open>IndexSet\<close>.  \<open>crv_wf\<close> is the representation invariant: the ranges
  are sorted, disjoint and not adjacent, no chunk is empty or too long, and the cached bounds
  and counts of every chunk are right.  \<open>indices\<close> is the set of positions represented.
\<close>

text \<open>A set of two chunks that the witnesses use.\<close>

definition sample :: crv where
  "sample = [\<lparr>data = [(1, 3), (5, 6)], chunk_begin = 1, chunk_end = 6, chunk_count = 3\<rparr>,
     \<lparr>data = [(8, 10)], chunk_begin = 8, chunk_end = 10, chunk_count = 2\<rparr>]"

definition sample_two :: crv where
  "sample_two = [\<lparr>data = [(2, 6)], chunk_begin = 2, chunk_end = 6, chunk_count = 4\<rparr>]"

lemma max_size_value: "max_size = 256"
  by (simp add: max_size_def)

lemma sample_wf [simp]: "crv_wf sample" "crv_wf sample_two"
  by (simp_all add: verify_iff sample_def sample_two_def verify_def verify_chunk_def max_size_value)

lemma sample_indices [simp]: "indices sample = {1, 2, 5, 8, 9}" "indices sample_two = {2, 3, 4, 5}"
  by (auto simp: indices_def sample_def sample_two_def)

lemma separate_insert:
  "{x \<in> insert a A. P x} = (if P a then insert a {x \<in> A. P x} else {x \<in> A. P x})" "{x \<in> {}. P x} = {}"
  by auto

section \<open>Single indexes\<close>

text \<open>\<open>contains\<close> decides membership, whatever the chunking of the set.\<close>

theorem contains_correct: "crv_wf m \<Longrightarrow> is_contains m i \<longleftrightarrow> i \<in> indices m"
  by (rule is_contains_ok)

theorem contains_correct_witness: "is_contains sample 5 \<and> \<not> is_contains sample 7"
  using contains_correct[of sample 5] contains_correct[of sample 7] by simp

text \<open>C36: \<open>add\<close> inserts exactly the index and re-establishes the representation invariant: it
  extends or joins neighbouring ranges, splits full chunks and keeps the cached data right.\<close>

theorem add_correct: "crv_wf m \<Longrightarrow> crv_wf (is_add m i) \<and> verify (is_add m i) \<and> indices (is_add m i) = insert i (indices m)"
  using is_add_ok[of m i] by (simp add: verify_iff)

theorem add_correct_witness: "verify (is_add sample 7) \<and> indices (is_add sample 7) = {1, 2, 5, 7, 8, 9}"
  using add_correct[of sample 7] by auto

text \<open>\<open>erase_at\<close> deletes a position and moves the later indexes down, joining ranges that
  become adjacent.\<close>

theorem erase_at_correct:
  "crv_wf m \<Longrightarrow> crv_wf (is_erase_at m i) \<and>
     indices (is_erase_at m i) = {x \<in> indices m. x < i} \<union> (\<lambda>x. x - 1) ` {x \<in> indices m. i < x}"
  using is_erase_at_ok[of m i] by (simp add: close_gap_def)

theorem erase_at_correct_witness: "indices (is_erase_at sample 4) = {1, 2} \<union> {4, 7, 8}"
  using erase_at_correct[of sample 4] unfolding sample_indices separate_insert by simp

text \<open>\<open>erase_or_unshift\<close> deletes a position like \<open>erase_at\<close> and returns \<open>npos\<close> for an
  index of the set and otherwise the number of free positions below it.\<close>

theorem erase_or_unshift_correct:
  "crv_wf m \<Longrightarrow> is_erase_or_unshift m i = (m', j) \<Longrightarrow>
     crv_wf m' \<and> indices m' = close_gap i (indices m) \<and>
     j = (if i \<in> indices m then npos else i - card (indices m \<inter> {..<i}))"
  using is_erase_or_unshift_ok[of m i m' j] by (simp add: rank_def)

theorem erase_or_unshift_correct_witness:
  "snd (is_erase_or_unshift sample 7) = 4 \<and> snd (is_erase_or_unshift sample 8) = npos"
proof -
  have c: "{Suc 0, 2, 5, 8, 9} \<inter> {..<7} = {1, 2, 5 :: nat}" by auto
  show ?thesis
    using erase_or_unshift_correct[of sample 7 "fst (is_erase_or_unshift sample 7)" "snd (is_erase_or_unshift sample 7)"]
      erase_or_unshift_correct[of sample 8 "fst (is_erase_or_unshift sample 8)" "snd (is_erase_or_unshift sample 8)"]
    by (simp add: c)
qed

text \<open>\<open>insert_at\<close> makes room for a run of positions and adds them.\<close>

theorem insert_at_correct:
  "crv_wf m \<Longrightarrow> crv_wf (is_insert_at m i n) \<and>
     indices (is_insert_at m i n) = open_gap i n (indices m) \<union> {i..<i + n}"
  by (simp add: is_insert_at_ok)

theorem insert_at_correct_witness: "indices (is_insert_at sample_two 4 3) = {2, 3} \<union> {7, 8} \<union> {4..<7}"
  using insert_at_correct[of sample_two 4 3] unfolding sample_indices open_gap_def separate_insert by simp

text \<open>\<open>shift_for_insert_at\<close> makes room for a non-empty run without adding it, splitting the
  range the run falls into.\<close>

theorem shift_for_insert_at_correct:
  "crv_wf m \<Longrightarrow> 0 < n \<Longrightarrow> crv_wf (is_shift_for_insert_at m i n) \<and>
     indices (is_shift_for_insert_at m i n) =
       {x \<in> indices m. x < i} \<union> (\<lambda>x. x + n) ` {x \<in> indices m. i \<le> x}"
  using is_shift_for_insert_at_ok[of m n i] by (simp add: open_gap_def)

theorem shift_for_insert_at_correct_witness: "indices (is_shift_for_insert_at sample_two 4 3) = {2, 3} \<union> {7, 8}"
  using shift_for_insert_at_correct[of sample_two 3 4] unfolding sample_indices separate_insert by simp

text \<open>The removal loop terminates and \<open>remove\<close> of a non-empty run takes exactly these
  positions out, whether it cuts, splits or drops ranges.\<close>

theorem remove_correct:
  assumes "crv_wf m" and "0 < n"
  shows "\<exists>m' it. do_remove (remove_fuel m) m (is_find m i) i (i + n) = Some (m', it) \<and>
    is_remove m i n = m' \<and> crv_wf m' \<and> indices m' = indices m - {i..<i + n}"
proof -
  have l: "\<forall>q\<in>set (lo i (flat m)). snd q \<le> i" by (auto dest: lo_le)
  obtain m' it where "do_remove (remove_fuel m) m (is_find m i) i (i + n) = Some (m', it)"
    using do_remove_ok[OF assms(1) find_ok[OF assms(1)] l _ remove_fuel_enough[OF assms(1)], of "i + n"] assms(2)
    by auto
  then show ?thesis using is_remove_ok[OF assms, of i] by (simp add: is_remove_def)
qed

theorem remove_correct_witness: "indices (is_remove sample 2 7) = {1, 9}"
proof -
  have "{Suc 0, 2, 5, 8, 9} - {2..<9} = {1, 9 :: nat}" by auto
  then show ?thesis using remove_correct[of sample 7 2] by auto
qed

section \<open>Positions relative to the set\<close>

text \<open>\<open>shift\<close> and \<open>unshift\<close> translate between the free positions and their numbering, and
  are inverse to each other.\<close>

theorem shift_unshift_inverse:
  "crv_wf m \<Longrightarrow> is_shift m i \<notin> indices m \<and> is_unshift m (is_shift m i) = i \<and>
     is_unshift m k = k - card (indices m \<inter> {..<k}) \<and>
     (k \<notin> indices m \<longrightarrow> is_shift m (is_unshift m k) = k)"
  by (simp add: is_shift_ok is_unshift_shift is_shift_unshift) (simp add: is_unshift_ok rank_def)

theorem shift_unshift_inverse_witness:
  "is_shift sample (is_unshift sample 7) = 7 \<and> is_shift sample 3 \<notin> indices sample"
proof -
  have "7 \<notin> indices sample" by simp
  with shift_unshift_inverse[OF sample_wf(1), of 3 7] show ?thesis by blast
qed

text \<open>\<open>add_shifted\<close> adds the free position with the given number and returns it.\<close>

theorem add_shifted_correct:
  "crv_wf m \<Longrightarrow> is_add_shifted m i = (m', j) \<Longrightarrow>
     crv_wf m' \<and> j \<notin> indices m \<and> j - card (indices m \<inter> {..<j}) = i \<and> indices m' = insert j (indices m)"
  using is_add_shifted_ok[of m i m' j] is_shift_ok[of m i] by (simp add: rank_def)

theorem add_shifted_correct_witness: "\<exists>m'. is_add_shifted sample 2 = (m', 4) \<and> 4 \<in> indices m'"
proof -
  have "snd (is_add_shifted sample 2) = 4" by code_simp
  then obtain m' where e: "is_add_shifted sample 2 = (m', 4)" by (cases "is_add_shifted sample 2") simp
  with add_shifted_correct[OF sample_wf(1) e] show ?thesis by blast
qed

text \<open>\<open>count\<close> never exceeds the number of indexes in the window, equals it when the window
  starts at 0, and equals it whenever the end does not fall into the first range of a chunk.\<close>

theorem count_correct:
  "crv_wf m \<Longrightarrow> is_count m s e \<le> card (indices m \<inter> {s..<e}) \<and>
     is_count m 0 e = card (indices m \<inter> {..<e}) \<and>
     (\<not> straddles m e \<longrightarrow> is_count m s e = card (indices m \<inter> {s..<e}))"
  using is_count_cases(1,2) is_count_zero by blast

theorem count_correct_witness: "is_count sample 2 6 = 2"
proof -
  have "\<not> straddles sample 6" by (simp add: straddles_def sample_def)
  moreover have "{Suc 0, 2, 5, 8, 9} \<inter> {2..<6} = {2, 5 :: nat}" by auto
  ultimately show ?thesis using count_correct[of sample 2 6] by simp
qed

text \<open>In the remaining case \<open>count\<close> can be too small: with the window starting inside a chunk
  and ending inside the first range of a later one, the partial range is left out.\<close>

theorem count_misses_partial_range:
  "crv_wf sample \<and> is_count sample 2 9 = 2 \<and> card (indices sample \<inter> {2..<9}) = 3"
proof -
  have "{Suc 0, 2, 5, 8, 9} \<inter> {2..<9} = {2, 5, 8 :: nat}" by auto
  then have "card (indices sample \<inter> {2..<9}) = 3" by simp
  moreover have "is_count sample 2 9 = 2" by code_simp
  ultimately show ?thesis by simp
qed

section \<open>Whole sets\<close>

text \<open>\<open>insert_at\<close> of a set of positions spreads the old indexes over the other positions in
  order, and \<open>erase_at\<close> of the same set gives the old set back.\<close>

theorem insert_erase_set_roundtrip:
  "crv_wf m \<Longrightarrow> crv_wf p \<Longrightarrow>
     crv_wf (is_insert_set m p) \<and>
     indices (is_insert_set m p) = indices p \<union> {j. j \<notin> indices p \<and> rank (indices p) j \<in> indices m} \<and>
     indices (is_erase_set (is_insert_set m p) p) = indices m"
  using index_set.erase_undoes_insert_set[of m p] by (simp add: is_insert_set_ok spread_def)

theorem insert_erase_set_roundtrip_witness:
  "indices (is_erase_set (is_insert_set sample sample_two) sample_two) = {1, 2, 5, 8, 9}"
  using insert_erase_set_roundtrip[of sample sample_two] by simp

text \<open>\<open>erase_at\<close> of a set deletes its positions and renumbers the rest, and
  \<open>shift_for_insert_at\<close> of the same set undoes the renumbering.\<close>

theorem erase_shift_set_roundtrip:
  "crv_wf m \<Longrightarrow> crv_wf p \<Longrightarrow>
     crv_wf (is_erase_set m p) \<and> indices (is_erase_set m p) = rank (indices p) ` (indices m - indices p) \<and>
     crv_wf (is_shift_for_insert_set (is_erase_set m p) p) \<and>
     indices (is_shift_for_insert_set (is_erase_set m p) p) = indices m - indices p"
  by (simp add: is_erase_set_ok is_shift_for_insert_set_ok spread_squeeze squeeze_def[symmetric])

theorem erase_shift_set_roundtrip_witness:
  "indices (is_shift_for_insert_set (is_erase_set sample sample_two) sample_two) = {1, 8, 9}"
  using erase_shift_set_roundtrip[of sample sample_two] by (simp add: insert_Diff_if)

text \<open>\<open>add\<close> and \<open>remove\<close> of a whole set are union and difference.\<close>

theorem add_remove_set_correct:
  "crv_wf m \<Longrightarrow> crv_wf p \<Longrightarrow>
     crv_wf (is_add_set m p) \<and> indices (is_add_set m p) = indices m \<union> indices p \<and>
     crv_wf (is_remove_set m p) \<and> indices (is_remove_set m p) = indices m - indices p"
  by (simp add: is_add_set_ok is_remove_set_ok)

theorem add_remove_set_correct_witness: "indices (is_remove_set sample sample_two) = {1, 8, 9}"
  using add_remove_set_correct[of sample sample_two] by (simp add: insert_Diff_if)

text \<open>C37: \<open>add_shifted_by\<close> adds the values that are not in \<open>shifted_by\<close>, renumbered by it and
  spread over the free positions; the cached counts stay right when the result needs no chunk
  beyond those allocated up front.\<close>

theorem add_shifted_by_correct:
  "crv_wf m \<Longrightarrow> crv_wf s \<Longrightarrow> crv_wf v \<Longrightarrow>
     indices (is_add_shifted_by m s v) =
       indices m \<union> {j. j \<notin> indices m \<and> rank (indices m) j \<in> rank (indices s) ` (indices v - indices s)} \<and>
     (length (flat m) mod max_size + card (indices v) \<le> max_size \<longrightarrow> crv_wf (is_add_shifted_by m s v))"
  using is_add_shifted_by_wf[of m s v] by (simp add: is_add_shifted_by_indices spread_def squeeze_def)

theorem add_shifted_by_correct_witness: "crv_wf (is_add_shifted_by sample sample_two sample)"
proof -
  have "length (flat sample) = 3" by (simp add: sample_def)
  then have "length (flat sample) mod max_size + card (indices sample) \<le> max_size"
    by (simp add: max_size_value)
  from mp[OF conjunct2[OF add_shifted_by_correct[OF sample_wf(1,2,1)]] this] show ?thesis .
qed

end
