(* ===== verification/ChangeSpec.thy ===== *)
theory ChangeSpec imports ChangeMoveOver begin

text \<open>
  The properties of the change builder.  \<open>row_map b\<close> relates the position of every row in the
  old collection to its position in the new one: the rows that survive the deletions and
  insertions in order, and the rows that moved.  \<open>cb_ok\<close> is the builder's invariant.
\<close>

text \<open>Builders the witnesses use.\<close>

definition fresh :: change_builder where
  "fresh = new_builder [] [] [] []"

definition two_inserted :: change_builder where
  "two_inserted = cb_insert 0 2 True fresh"

definition one_moved :: change_builder where
  "one_moved = cb_move 3 0 fresh"

lemma fresh_ok [simp]: "cb_ok fresh" "move_mapping fresh = []" "moves fresh = []" "columns fresh = []"
    "deletions fresh = []" "insertions fresh = []" "row_map fresh = Id" "track_columns fresh" "modifications fresh = []"
  by (simp_all add: fresh_def new_builder_def cb_ok_def sets_ok_def moves_ok_def all_moves_def row_map_def)

lemma small_positions [simp]: "3 < npos" "2 < npos" "0 < npos"
  by (simp_all add: npos_def)

lemma two_inserted_ok [simp]: "cb_ok two_inserted" "move_mapping two_inserted = []" "moves two_inserted = []"
    "columns two_inserted = []" "deletions two_inserted = []" "track_columns two_inserted"
    "row_map two_inserted = insert_step 0 2"
proof -
  note ok = cb_insert_ok[OF fresh_ok(1), of 2 0]
  show "cb_ok two_inserted" "row_map two_inserted = insert_step 0 2" using ok by (simp_all add: two_inserted_def)
  show "move_mapping two_inserted = []" "moves two_inserted = []" "columns two_inserted = []"
    "deletions two_inserted = []" "track_columns two_inserted"
    by (simp_all add: two_inserted_def cb_insert_def Let_def for_each_col_def)
qed

lemma one_moved_ok [simp]: "cb_ok one_moved" "move_mapping one_moved = []" "row_map one_moved = move_step 3 0"
    "columns one_moved = []"
proof -
  note ok = cb_move_ok[OF fresh_ok(1,2) small_positions(1), of 0]
  from ok show "cb_ok one_moved" "move_mapping one_moved = []" "row_map one_moved = move_step 3 0"
    by (simp_all add: one_moved_def)
  have "columns (for_each_col f b) = map f (columns b) \<or> columns (for_each_col f b) = columns b" for f b
    by (simp add: for_each_col_def)
  then show "columns one_moved = []"
    by (simp add: one_moved_def cb_move_def Let_def for_each_col_def split: prod.split)
qed

lemma no_columns [simp]: "columns b = [] \<Longrightarrow> cols_within b"
  by (simp add: cols_within_def)

lemma two_then_move:
  "room_for (deletions two_inserted) (deletions one_moved)"
proof -
  have "card (indices (deletions one_moved)) \<le> 1"
  proof -
    obtain I u where e: "is_erase_or_unshift [] 3 = (I, u)" by (cases "is_erase_or_unshift [] 3")
    have u: "u = 3" using is_erase_or_unshift_ok(3)[OF crv_wf_Nil e] by (simp add: rank_def)
    obtain D s where a: "is_add_shifted [] 3 = (D, s)" by (cases "is_add_shifted [] 3")
    have "3 \<noteq> npos" by (simp add: npos_def)
    then have "deletions one_moved = D" using e u a
      by (simp add: one_moved_def cb_move_def Let_def)
    then show ?thesis using is_add_shifted_ok(3)[OF crv_wf_Nil a] by simp
  qed
  moreover have "crv_wf (deletions one_moved)" using one_moved_ok(1) by (simp add: cb_ok_def sets_ok_def)
  ultimately show ?thesis using max_size_pos by (simp add: room_for_iff)
qed

section \<open>Merging\<close>



text \<open>Merging carries the marks of modified rows, for the rows and for every tracked column:
  marked in the merged set are the rows the second set marks, the rows the first one marks that
  survive the second, and those it moves unless the first one inserted them.\<close>

theorem merge_carries_marks:
  assumes "cb_ok b" and "cb_ok c" and "move_mapping b = []" and "move_mapping c = []"
    and "room_for (deletions b) (deletions c)" and "cols_within b" and "cols_within c"
    and "x = None \<or> track_columns b"
  shows "mark (cb_merge b c) x = mark c x \<union>
    survives (indices (deletions c)) (indices (insertions c)) `` mark b x \<union>
    {m \<in> set (moves c). fst m \<in> indices (insertions b) \<longrightarrow> fst m \<in> snd ` set (moves b)} `` mark b x"
proof -
  have "tracked b x" using assms(8) by (simp add: tracked_def)
  moreover have "\<forall>x. tracked b x \<longrightarrow> mark (cb_merge b c) x = mark c x \<union> carried_marks b c x"
    using cb_merge_ok[OF assms(1-7)] unfolding merge_spec_def by blast
  ultimately show ?thesis unfolding carried_marks_def Un_assoc by blast
qed

theorem merge_carries_marks_witness:
  "mark (cb_merge two_inserted one_moved) None \<supseteq> mark one_moved None"
  using merge_carries_marks[OF two_inserted_ok(1) one_moved_ok(1) two_inserted_ok(2) one_moved_ok(2)
      two_then_move, of None] by (simp add: le_supI1)

text \<open>Dropping moves that became no-ops together with their deletion and insertion does not
  change the meaning of the change set.\<close>

theorem clean_up_keeps_meaning:
  "cb_ok b \<Longrightarrow> move_mapping b = [] \<Longrightarrow>
     cb_ok (clean_up_stale_moves b) \<and> row_map (clean_up_stale_moves b) = row_map b \<and>
     cb_verify (clean_up_stale_moves b)"
  using clean_up_stale_moves_ok[of b] verify_of_ok by simp

theorem clean_up_keeps_meaning_witness: "row_map (clean_up_stale_moves one_moved) = move_step 3 0"
  using clean_up_keeps_meaning[of one_moved] by simp

section \<open>Ordered collections\<close>

text \<open>Recording an insertion composes the row map with the insertion, whether moves are kept
  as \<open>moves\<close> or in the mapping, and shifts the marks of all columns.\<close>

theorem insert_records:
  "cb_ok b \<Longrightarrow> 0 < n \<Longrightarrow>
     cb_ok (cb_insert i n True b) \<and>
     row_map (cb_insert i n True b) = row_map b O {(j, k). k = (if j < i then j else j + n)} \<and>
     carried (insert_step i n) b (cb_insert i n True b)"
  using cb_insert_ok[of b n i] by (simp add: insert_step_def)

theorem insert_records_witness: "(5, 8) \<in> row_map (cb_insert 4 3 True fresh)"
  using insert_records[of fresh 3 4] by simp

text \<open>Recording an erased row composes the row map with the deletion; a row inserted before is
  forgotten, any other one is added to the deletions, and moves to the row are dropped.\<close>

theorem erase_records:
  "cb_ok b \<Longrightarrow> move_mapping b = [] \<Longrightarrow> i < npos \<Longrightarrow>
     cb_ok (cb_erase i b) \<and>
     row_map (cb_erase i b) = row_map b O {(j, k). j \<noteq> i \<and> k = (if j < i then j else j - 1)} \<and>
     carried (erase_step i) b (cb_erase i b)"
  using cb_erase_ok[of b i] by (simp add: erase_step_def)

theorem erase_records_witness: "(1, 2) \<in> row_map (cb_erase 2 two_inserted)"
proof -
  have "row_map (cb_erase 2 two_inserted) =
      insert_step 0 2 O {(j, k). j \<noteq> 2 \<and> k = (if j < 2 then j else j - 1)}"
    using erase_records[of two_inserted 2] by simp
  moreover have "(1, 3) \<in> insert_step 0 2" by (simp add: insert_step_def)
  ultimately show ?thesis by auto
qed

text \<open>Recording a move composes the row map with the move: moves of other rows are adjusted,
  a row moved before keeps its original position, and new insertions get no move.\<close>

theorem move_records:
  "cb_ok b \<Longrightarrow> move_mapping b = [] \<Longrightarrow> src < npos \<Longrightarrow>
     cb_ok (cb_move src dst b) \<and> cb_verify (cb_move src dst b) \<and>
     row_map (cb_move src dst b) = row_map b O move_step src dst \<and>
     carried (move_step src dst) b (cb_move src dst b)"
  using cb_move_ok[of b src dst] verify_of_ok by simp

theorem move_records_witness: "(3, 2) \<in> row_map (cb_move 0 2 one_moved)"
proof -
  have "row_map (cb_move 0 2 one_moved) = move_step 3 0 O move_step 0 2"
    using move_records[of one_moved 0 2] by simp
  moreover have "(3, 0) \<in> move_step 3 0" "(0, 2) \<in> move_step 0 2" by (simp_all add: move_step_def)
  ultimately show ?thesis by blast
qed

section \<open>Unordered tables\<close>

text \<open>Recording a swap composes the row map with the exchange of the two rows, for all
  combinations of rows that were moved, inserted or neither.\<close>

theorem swap_records:
  "cb_ok b \<Longrightarrow> moves b = [] \<Longrightarrow> x \<noteq> y \<Longrightarrow>
     cb_ok (cb_swap x y True b) \<and>
     row_map (cb_swap x y True b) = row_map b O {(j, k). k = (if j = x then y else if j = y then x else j)} \<and>
     carried (swap_step x y) b (cb_swap x y True b)"
  using cb_swap_ok[of b x y] by (simp add: swap_step_def)

theorem swap_records_witness: "(1, 0) \<in> row_map (cb_swap 3 0 True two_inserted)"
proof -
  have "row_map (cb_swap 3 0 True two_inserted) =
      insert_step 0 2 O {(j, k). k = (if j = 3 then 0 else if j = 0 then 3 else j)}"
    using swap_records[of two_inserted 3 0] by simp
  moreover have "(1, 3) \<in> insert_step 0 2" by (simp add: insert_step_def)
  ultimately show ?thesis by auto
qed

text \<open>Recording \<open>move_over\<close>, the deletion of a row that the last row replaces, composes the
  row map with that step for the rows the table has left.\<close>

theorem move_over_records:
  "cb_ok b \<Longrightarrow> moves b = [] \<Longrightarrow> within_table last_row b \<Longrightarrow> row \<le> last_row \<Longrightarrow> last_row < npos \<Longrightarrow>
     cb_ok (move_over row last_row True b) \<and>
     row_map (move_over row last_row True b) \<inter> UNIV \<times> {..<last_row} = row_map b O over_step row last_row \<and>
     carried (over_step row last_row) b (move_over row last_row True b)"
  using move_over_ok[of b last_row row] by simp

theorem move_over_records_witness: "(3, 1) \<in> row_map (move_over 1 3 True fresh)"
proof -
  have "row_map (move_over 1 3 True fresh) \<inter> UNIV \<times> {..<3} = over_step 1 3"
    using move_over_records[of fresh 3 1] by (simp add: within_table_def)
  moreover have "(3, 1) \<in> over_step 1 3" by (simp add: over_step_def)
  ultimately show ?thesis by blast
qed

text \<open>\<open>parse_complete\<close> turns the mapping into moves sorted by their source, without changing
  the meaning, provided that entries mapping a row to itself are in place among the survivors.\<close>

theorem parse_complete_keeps_meaning:
  assumes "cb_ok b"
    and "\<forall>k. (k, k) \<in> set (move_mapping b) \<longrightarrow>
      rank (indices (deletions b)) k = rank (indices (insertions b)) k"
  shows "cb_ok (parse_complete b) \<and> cb_verify (parse_complete b) \<and>
    row_map (parse_complete b) = row_map b \<and> move_mapping (parse_complete b) = [] \<and>
    sorted (map fst (moves (parse_complete b)))"
  using parse_complete_ok[OF assms] verify_of_ok by simp

theorem parse_complete_keeps_meaning_witness: "row_map (parse_complete one_moved) = move_step 3 0"
  using parse_complete_keeps_meaning[of one_moved] by simp

section \<open>Clearing and the final change set\<close>

text \<open>After \<open>clear\<close> with the current size, the change set deletes exactly the rows of the old
  collection and records nothing else.\<close>

theorem clear_deletes_all:
  assumes "cb_ok b" and "size_now \<noteq> npos"
    and "card (indices (deletions b)) \<le> old_size" and "card (indices (insertions b)) \<le> size_now"
    and "old_size - card (indices (deletions b)) = size_now - card (indices (insertions b))"
  shows "cb_ok (cb_clear size_now b) \<and> indices (deletions (cb_clear size_now b)) = {..<old_size} \<and>
    insertions (cb_clear size_now b) = [] \<and> modifications (cb_clear size_now b) = [] \<and>
    all_moves (cb_clear size_now b) = [] \<and> columns (cb_clear size_now b) = []"
proof -
  have "size_now + card (indices (deletions b)) - card (indices (insertions b)) = old_size"
    using assms(3-5) by simp
  with cb_clear_ok[OF assms(1,2)] show ?thesis by (simp add: cb_clear_def all_moves_def)
qed

theorem clear_deletes_all_witness: "indices (deletions (cb_clear 2 fresh)) = {..<2}"
  using clear_deletes_all[of fresh 2 2] small_positions(2) by simp

text \<open>The final change set reports the same modified rows in both numberings: as many before as
  after, related by the survivors, and none of them an insertion.\<close>

theorem finalize_modifications:
  assumes "cb_ok b"
  shows "card (indices (modifications (finalize b))) = card (indices (modifications_new (finalize b))) \<and>
      indices (modifications_new (finalize b)) = indices (modifications b) - indices (insertions b) \<and>
      survives (indices (deletions b)) (indices (insertions b)) `` indices (modifications (finalize b)) =
        indices (modifications_new (finalize b))"
  using finalize_ok[OF assms] by (simp add: finalize_def Let_def)

theorem finalize_modifications_witness:
  "card (indices (modifications (finalize one_moved))) = card (indices (modifications_new (finalize one_moved)))"
  using finalize_modifications[OF one_moved_ok(1)] by blast

end
