(* ===== verification/ChangeCalc.thy ===== *)
theory ChangeCalc imports ChangeBuilder "HOL-Library.Product_Lexorder" begin

text \<open>
  The calculation of a change set from the old and the new row list of a query
  (\<open>CollectionChangeBuilder::calculate\<close>), with the longest-common-subsequence search for
  sorted queries and the linear scan for unsorted ones.  \<open>std::sort\<close> is the stable sort;
  \<open>npos\<close> is the sentinel the code uses for a deleted row, for "not found" and for "not yet
  computed".
\<close>

section \<open>Data\<close>

record row_info =
  row_index :: nat
  prev_tv_index :: nat
  tv_index :: nat
  shifted_tv_index :: nat

record lcs_row =
  lcs_row_index :: nat
  lcs_tv_index :: nat

record lcs_match =
  m_i :: nat
  m_j :: nat
  m_size :: nat
  m_modified :: nat

section \<open>Queries without a sort\<close>

fun moves_unsorted ::
  "row_info list \<Rightarrow> nat \<Rightarrow> crv \<Rightarrow> crv \<Rightarrow> change_builder \<Rightarrow> crv \<times> change_builder"
where
  "moves_unsorted [] expected cand removed cs = (removed, cs)"
| "moves_unsorted (row # rows) expected cand removed cs =
     (if shifted_tv_index row = expected then moves_unsorted rows (expected + 1) cand removed cs
      else if \<not> is_contains cand (row_index row)
      then moves_unsorted rows (shifted_tv_index row + 1) cand removed cs
      else
        let calc_expected = tv_index row - is_count (insertions cs) 0 (tv_index row)
                            + is_count removed 0 (prev_tv_index row)
        in if shifted_tv_index row = calc_expected
           then moves_unsorted rows (calc_expected + 1) cand removed cs
           else moves_unsorted rows expected cand (is_add removed (prev_tv_index row))
                  (cs\<lparr>moves := moves cs @ [(prev_tv_index row, tv_index row)],
                      insertions := is_add (insertions cs) (tv_index row)\<rparr>))"

definition calculate_moves_unsorted ::
  "row_info list \<Rightarrow> crv \<Rightarrow> crv \<Rightarrow> change_builder \<Rightarrow> crv \<times> change_builder" where
  "calculate_moves_unsorted rows removed cand cs = moves_unsorted rows 0 cand removed cs"

section \<open>The longest matching block\<close>

text \<open>The length of the matching block ending at \<open>b[j]\<close>.\<close>

fun block_length :: "(nat \<times> nat) list \<Rightarrow> nat \<Rightarrow> nat" where
  "block_length [] j = 1"
| "block_length (p # ps) j = (if fst p + 1 = j then snd p + 1 else block_length ps j)"

definition b_matches :: "lcs_row list \<Rightarrow> nat \<Rightarrow> nat \<Rightarrow> nat \<Rightarrow> nat list" where
  "b_matches b ai begin2 end2 =
     (let it = dropWhile (\<lambda>r. lcs_row_index r < ai) b;
          js = map lcs_tv_index (takeWhile (\<lambda>r. lcs_row_index r = ai) it)
      in filter (\<lambda>j. begin2 \<le> j) (takeWhile (\<lambda>j. j < begin2 \<or> j < end2) js))"

text \<open>\<open>j - size + 1\<close> in \<open>size_t\<close> arithmetic.\<close>

definition window_start :: "nat \<Rightarrow> nat \<Rightarrow> nat" where
  "window_start j len = (if len \<le> j + 1 then j + 1 - len else 2 ^ 64 + j + 1 - len)"

definition update_best :: "crv \<Rightarrow> nat \<Rightarrow> nat \<Rightarrow> nat \<Rightarrow> lcs_match \<Rightarrow> lcs_match" where
  "update_best modified i j len best =
     (if m_size best < len then
        \<lparr>m_i = i + 1 - len, m_j = j + 1 - len, m_size = len, m_modified = npos\<rparr>
      else if len = m_size best then
        let best1 = (if m_modified best = npos
                     then best\<lparr>m_modified := is_count modified (window_start (m_j best) len) (m_j best + 1)\<rparr>
                     else best);
            count = is_count modified (j + 1 - len) (j + 1)
        in if count < m_modified best1
           then \<lparr>m_i = i + 1 - len, m_j = j + 1 - len, m_size = len, m_modified = count\<rparr>
           else best1
      else best)"

fun scan_row ::
  "crv \<Rightarrow> (nat \<times> nat) list \<Rightarrow> nat \<Rightarrow> nat list \<Rightarrow> (nat \<times> nat) list \<Rightarrow> lcs_match \<Rightarrow> (nat \<times> nat) list \<times> lcs_match"
where
  "scan_row modified prev i [] cur best = (cur, best)"
| "scan_row modified prev i (j # js) cur best =
     (let size = block_length prev j
      in scan_row modified prev i js (cur @ [(j, size)]) (update_best modified i j size best))"

fun scan_rows ::
  "crv \<Rightarrow> lcs_row list \<Rightarrow> lcs_row list \<Rightarrow> nat \<Rightarrow> nat \<Rightarrow> nat list \<Rightarrow> (nat \<times> nat) list \<Rightarrow> lcs_match \<Rightarrow> lcs_match"
where
  "scan_rows modified a b begin2 end2 [] cur best = best"
| "scan_rows modified a b begin2 end2 (i # is) cur best =
     (let (cur', best') =
            scan_row modified cur i (b_matches b (lcs_row_index (a ! i)) begin2 end2) [] best
      in scan_rows modified a b begin2 end2 is cur' best')"

definition find_longest_match ::
  "crv \<Rightarrow> lcs_row list \<Rightarrow> lcs_row list \<Rightarrow> nat \<Rightarrow> nat \<Rightarrow> nat \<Rightarrow> nat \<Rightarrow> lcs_match" where
  "find_longest_match modified a b begin1 end1 begin2 end2 =
     scan_rows modified a b begin2 end2 [begin1..<end1] []
       \<lparr>m_i = begin1, m_j = begin2, m_size = 0, m_modified = 0\<rparr>"

text \<open>
  The block found starts in the searched rows of \<open>a\<close> whatever \<open>b\<close> holds: the lengths
  recorded for a row are at most the number of rows scanned.  The recursion below ends by this.
\<close>

definition lengths_upto :: "nat \<Rightarrow> (nat \<times> nat) list \<Rightarrow> bool" where
  "lengths_upto n cur \<longleftrightarrow> (\<forall>p\<in>set cur. 0 < snd p \<and> snd p \<le> n)"

lemma block_length_upto: "lengths_upto n prev \<Longrightarrow> 0 < block_length prev j \<and> block_length prev j \<le> n + 1"
  by (induction prev) (auto simp: lengths_upto_def)

definition in_rows :: "nat \<Rightarrow> nat \<Rightarrow> lcs_match \<Rightarrow> bool" where
  "in_rows begin1 end1 m \<longleftrightarrow> begin1 \<le> m_i m \<and> m_i m + m_size m \<le> end1"

lemma scan_row_bounds:
  assumes "lengths_upto (i - begin1) prev" and "lengths_upto (i - begin1 + 1) cur"
    and "in_rows begin1 end1 best" and "begin1 \<le> i" and "i < end1"
    and "scan_row modified prev i js cur best = (cur', best')"
  shows "lengths_upto (i - begin1 + 1) cur' \<and> in_rows begin1 end1 best'"
  using assms
proof (induction js arbitrary: cur best)
  case (Cons j js)
  note l = block_length_upto[OF Cons.prems(1), of j]
  have "lengths_upto (i - begin1 + 1) (cur @ [(j, block_length prev j)])"
    using Cons.prems(2) l by (simp add: lengths_upto_def)
  moreover have "in_rows begin1 end1 (update_best modified i j (block_length prev j) best)"
    using Cons.prems(3-5) l by (auto simp: update_best_def in_rows_def Let_def)
  ultimately show ?case using Cons.IH[OF Cons.prems(1) _ _ Cons.prems(4,5)] Cons.prems(6)
    by (simp add: Let_def)
qed simp

lemma scan_rows_bounds:
  assumes "is = [i..<end1]" and "begin1 \<le> i" and "lengths_upto (i - begin1) cur"
    and "in_rows begin1 end1 best"
  shows "in_rows begin1 end1 (scan_rows modified a b begin2 end2 is cur best)"
  using assms
proof (induction "is" arbitrary: i cur best)
  case (Cons k ks)
  have k: "k = i" "ks = [Suc i..<end1]" "i < end1"
    using Cons.prems(1)[symmetric] by (auto simp: upt_eq_Cons_conv)
  obtain cur' best' where s: "scan_row modified cur k (b_matches b (lcs_row_index (a ! k)) begin2 end2) [] best
      = (cur', best')"
    by (cases "scan_row modified cur k (b_matches b (lcs_row_index (a ! k)) begin2 end2) [] best")
  have "lengths_upto (i - begin1 + 1) []" by (simp add: lengths_upto_def)
  note r = scan_row_bounds[OF Cons.prems(3) this Cons.prems(4,2) k(3) s[unfolded k(1)]]
  then show ?case using Cons.IH[OF k(2), of cur' best'] s Cons.prems(2) k(1)
    by (simp add: Suc_diff_le)
qed simp

lemma find_longest_bounds:
  "begin1 \<le> end1 \<Longrightarrow> in_rows begin1 end1 (find_longest_match modified a b begin1 end1 begin2 end2)"
  unfolding find_longest_match_def
  by (rule scan_rows_bounds[OF refl]) (simp_all add: lengths_upto_def in_rows_def)

lemma find_longest_empty: "end1 \<le> begin1 \<Longrightarrow> m_size (find_longest_match modified a b begin1 end1 begin2 end2) = 0"
  by (simp add: find_longest_match_def)

section \<open>All matching blocks\<close>

function find_longest_matches ::
  "crv \<Rightarrow> lcs_row list \<Rightarrow> lcs_row list \<Rightarrow> nat \<Rightarrow> nat \<Rightarrow> nat \<Rightarrow> nat \<Rightarrow> lcs_match list" where
  "find_longest_matches modified a b begin1 end1 begin2 end2 =
     (let m = find_longest_match modified a b begin1 end1 begin2 end2
      in if m_size m = 0 then []
         else
           (if begin1 < m_i m \<and> begin2 < m_j m
            then find_longest_matches modified a b begin1 (m_i m) begin2 (m_j m) else []) @
           m #
           (if m_i m + m_size m < end2 \<and> m_j m + m_size m < end2
            then find_longest_matches modified a b (m_i m + m_size m) end1 (m_j m + m_size m) end2
            else []))"
  by pat_completeness auto
termination
proof (relation "measure (\<lambda>(modified, a, b, begin1, end1, begin2, end2). end1 - begin1)", simp)
  fix modified a b begin1 end1 begin2 end2 m
  assume m: "m = find_longest_match modified a b begin1 end1 begin2 end2" "m_size m \<noteq> 0"
  then have "begin1 < end1" using find_longest_empty[of end1 begin1] by (cases "begin1 < end1") auto
  then have "begin1 \<le> m_i m" "m_i m + m_size m \<le> end1"
    using find_longest_bounds[of begin1 end1] m(1) by (simp_all add: in_rows_def)
  then show "((modified, a, b, begin1, m_i m, begin2, m_j m), modified, a, b, begin1, end1, begin2, end2)
      \<in> measure (\<lambda>(modified, a, b, begin1, end1, begin2, end2). end1 - begin1)"
    and "((modified, a, b, m_i m + m_size m, end1, m_j m + m_size m, end2), modified, a, b, begin1, end1, begin2, end2)
      \<in> measure (\<lambda>(modified, a, b, begin1, end1, begin2, end2). end1 - begin1)"
    using m(2) \<open>begin1 < end1\<close> by auto
qed

declare find_longest_matches.simps [simp del]

definition longest_matches :: "crv \<Rightarrow> lcs_row list \<Rightarrow> lcs_row list \<Rightarrow> nat \<Rightarrow> lcs_match list" where
  "longest_matches modified a b start_index =
     find_longest_matches modified a b start_index (length a) start_index (length b) @
     [\<lparr>m_i = length a, m_j = length b, m_size = 0, m_modified = 0\<rparr>]"

section \<open>Queries with a sort\<close>

fun first_difference :: "lcs_row list \<Rightarrow> row_info list \<Rightarrow> nat \<Rightarrow> nat" where
  "first_difference (x # xs) (y # ys) i =
     (if lcs_row_index x \<noteq> row_index y then i else first_difference xs ys (i + 1))"
| "first_difference xs ys i = npos"

fun align :: "lcs_row list \<Rightarrow> row_info list \<Rightarrow> lcs_match list \<Rightarrow> nat \<Rightarrow> nat \<Rightarrow> crv \<Rightarrow> crv \<Rightarrow> crv \<times> crv" where
  "align a rows [] i j D I = (D, I)"
| "align a rows (m # ms) i j D I =
     align a rows ms (max i (m_i m) + m_size m) (max j (m_j m) + m_size m)
       (foldl is_add D (map (\<lambda>k. lcs_tv_index (a ! k)) [i..<m_i m]))
       (foldl is_add I (map (\<lambda>k. tv_index (rows ! k)) [j..<m_j m]))"

definition calculate_moves_sorted :: "row_info list \<Rightarrow> change_builder \<Rightarrow> change_builder" where
  "calculate_moves_sorted rows cs =
     (let a = sort_key (\<lambda>r. (lcs_tv_index r, lcs_row_index r))
                (map (\<lambda>row. \<lparr>lcs_row_index = row_index row, lcs_tv_index = prev_tv_index row\<rparr>) rows);
          first = first_difference a rows 0
      in if first = npos then cs
         else
           let b = sort_key (\<lambda>r. (lcs_row_index r, lcs_tv_index r))
                     (map (\<lambda>i. \<lparr>lcs_row_index = row_index (rows ! i), lcs_tv_index = i\<rparr>) [0..<length rows]);
               (D, I) = align a rows (longest_matches (modifications cs) a b first) first first
                          (deletions cs) (insertions cs)
           in cs\<lparr>deletions := D, insertions := I\<rparr>)"

section \<open>The calculation\<close>

fun collect_old :: "nat list \<Rightarrow> nat \<Rightarrow> nat \<Rightarrow> crv \<Rightarrow> row_info list \<times> crv" where
  "collect_old [] i deleted D = ([], D)"
| "collect_old (r # rs) i deleted D =
     (if r = npos then collect_old rs (i + 1) (deleted + 1) (is_add D i)
      else
        let (rows, D') = collect_old rs (i + 1) deleted D
        in (\<lparr>row_index = r, prev_tv_index = npos, tv_index = i, shifted_tv_index = i - deleted\<rparr> # rows, D'))"

definition collect_new :: "nat list \<Rightarrow> row_info list" where
  "collect_new rows =
     map (\<lambda>i. \<lparr>row_index = rows ! i, prev_tv_index = npos, tv_index = i, shifted_tv_index = 0\<rparr>)
       [0..<length rows]"

fun match_rows :: "row_info list \<Rightarrow> row_info list \<Rightarrow> crv \<Rightarrow> crv \<Rightarrow> row_info list \<times> crv \<times> crv" where
  "match_rows (old # olds) (new # news) removed ins =
     (if row_index old = row_index new then
        let (ns, R, I) = match_rows olds news removed ins
        in (new\<lparr>prev_tv_index := tv_index old, shifted_tv_index := shifted_tv_index old\<rparr> # ns, R, I)
      else if row_index old < row_index new then
        match_rows olds (new # news) (is_add removed (tv_index old)) ins
      else
        let (ns, R, I) = match_rows (old # olds) news removed (is_add ins (tv_index new))
        in (new # ns, R, I))"
| "match_rows olds [] removed ins = ([], foldl is_add removed (map tv_index olds), ins)"
| "match_rows [] news removed ins = (news, removed, foldl is_add ins (map tv_index news))"

definition calculate ::
  "nat list \<Rightarrow> nat list \<Rightarrow> (nat \<Rightarrow> bool) \<Rightarrow> crv option \<Rightarrow> change_builder" where
  "calculate prev_rows next_rows row_did_change move_candidates =
     (let (old_rows, D) = collect_old prev_rows 0 0 [];
          olds = sort_key row_index old_rows;
          news = sort_key row_index (collect_new next_rows);
          (matched, removed, I) = match_rows olds news [] [];
          rows = sort_key tv_index (filter (\<lambda>row. prev_tv_index row \<noteq> npos) matched);
          M = foldl is_add [] (map tv_index (filter (\<lambda>row. row_did_change (row_index row)) rows));
          ret = (new_builder [] [] [] [])\<lparr>deletions := D, insertions := I, modifications := M\<rparr>;
          (removed', ret') =
            (case move_candidates of
               Some cand \<Rightarrow> calculate_moves_unsorted rows removed cand ret
             | None \<Rightarrow> (removed, calculate_moves_sorted rows ret))
      in ret'\<lparr>deletions := is_add_set (deletions ret') removed'\<rparr>)"

text \<open>
  The check a debug build runs on its result: the deleted ranges are erased from the old list,
  last one first, and the inserted rows are taken from the new list.
\<close>

fun erase_ranges :: "range list \<Rightarrow> nat list \<Rightarrow> nat list" where
  "erase_ranges [] rows = rows"
| "erase_ranges (r # rs) rows =
     (let rows' = erase_ranges rs rows in take (fst r) rows' @ drop (snd r) rows')"

fun insert_rows :: "nat list \<Rightarrow> nat list \<Rightarrow> nat list \<Rightarrow> nat list" where
  "insert_rows nxt [] rows = rows"
| "insert_rows nxt (i # is) rows = insert_rows nxt is (take i rows @ nxt ! i # drop i rows)"

definition replay :: "change_builder \<Rightarrow> nat list \<Rightarrow> nat list \<Rightarrow> nat list" where
  "replay ret prev_rows next_rows =
     insert_rows next_rows (as_indexes (insertions ret)) (erase_ranges (flat (deletions ret)) prev_rows)"

end
