(* ===== verification/ChangeCalcMatch.thy ===== *)
theory ChangeCalcMatch imports ChangeCalc IndexSetBulkLaws begin

text \<open>
  The search for matching blocks.  \<open>xs\<close> and \<open>ys\<close> are the row indexes of the two
  sequences; the search finds a longest common block of a window, and the recursion a chain of
  blocks that increase in both sequences.
\<close>

section \<open>Runs\<close>

fun run :: "nat list \<Rightarrow> nat list \<Rightarrow> nat \<Rightarrow> nat \<Rightarrow> nat \<Rightarrow> nat \<Rightarrow> nat" where
  "run xs ys begin1 begin2 0 j =
     (if xs ! 0 = ys ! j \<and> begin2 \<le> j then 1 else 0)"
| "run xs ys begin1 begin2 (Suc i) j =
     (if xs ! Suc i = ys ! j \<and> begin2 \<le> j
      then (if Suc i \<le> begin1 \<or> j \<le> begin2 then 1 else run xs ys begin1 begin2 i (j - 1) + 1) else 0)"

lemma run_bounds:
  "begin1 \<le> i \<Longrightarrow> begin2 \<le> j \<Longrightarrow> run xs ys begin1 begin2 i j \<le> i + 1 - begin1 \<and>
     run xs ys begin1 begin2 i j \<le> j + 1 - begin2"
proof (induction i arbitrary: j)
  case (Suc i)
  show ?case
  proof (cases "Suc i \<le> begin1 \<or> j \<le> begin2")
    case False
    then have "begin1 \<le> i" "begin2 \<le> j - 1" by auto
    from Suc.IH[OF this] False show ?thesis by auto
  qed (use Suc.prems in auto)
qed auto

lemma run_block:
  "begin1 \<le> i \<Longrightarrow> begin2 \<le> j \<Longrightarrow> k < run xs ys begin1 begin2 i j \<Longrightarrow>
     xs ! (i - k) = ys ! (j - k)"
proof (induction i arbitrary: j k)
  case 0
  then show ?case by (auto split: if_splits)
next
  case (Suc i)
  show ?case
  proof (cases k)
    case 0
    with Suc.prems show ?thesis by (auto split: if_splits)
  next
    case (Suc k')
    then have c: "\<not> (Suc i \<le> begin1 \<or> j \<le> begin2)" "k' < run xs ys begin1 begin2 i (j - 1)"
      using Suc.prems(3) by (auto split: if_splits)
    then have "xs ! (i - k') = ys ! (j - 1 - k')" by (intro Suc.IH) auto
    with Suc show ?thesis by simp
  qed
qed

lemma run_longest:
  assumes "begin1 \<le> p" and "begin2 \<le> q" and "\<forall>k<Suc l. xs ! (p + k) = ys ! (q + k)"
  shows "Suc l \<le> run xs ys begin1 begin2 (p + l) (q + l)"
  using assms(3)
proof (induction l)
  case 0
  then show ?case using assms(1,2) by (cases p) auto
next
  case (Suc l)
  then have "Suc l \<le> run xs ys begin1 begin2 (p + l) (q + l)" by auto
  moreover have "xs ! Suc (p + l) = ys ! Suc (q + l)" using Suc.prems by auto
  ultimately show ?case using assms(1,2) by simp
qed

section \<open>The positions of a row\<close>

definition rows_sorted :: "lcs_row list \<Rightarrow> nat list \<Rightarrow> bool" where
  "rows_sorted b ys \<longleftrightarrow> sorted (map (\<lambda>r. (lcs_row_index r, lcs_tv_index r)) b) \<and>
     set (map (\<lambda>r. (lcs_row_index r, lcs_tv_index r)) b) = {(ys ! j, j) | j. j < length ys} \<and>
     distinct (map lcs_tv_index b)"

lemma take_equal_filter:
  "sorted (map f xs) \<Longrightarrow> \<forall>x\<in>set xs. v \<le> f x \<Longrightarrow> takeWhile (\<lambda>x. f x = v) xs = filter (\<lambda>x. f x = v) xs"
  for f :: "'a \<Rightarrow> 'b :: linorder"
proof (induction xs)
  case (Cons x xs)
  show ?case
  proof (cases "f x = v")
    case False
    then have "\<forall>y\<in>set xs. f y \<noteq> v" using Cons.prems by fastforce
    with False show ?thesis by (simp add: filter_empty_conv)
  qed (use Cons in auto)
qed simp

lemma take_drop_filter:
  "sorted (map f xs) \<Longrightarrow> takeWhile (\<lambda>x. f x = v) (dropWhile (\<lambda>x. f x < v) xs) = filter (\<lambda>x. f x = v) xs"
  for f :: "'a \<Rightarrow> 'b :: linorder"
proof (induction xs)
  case (Cons x xs)
  show ?case
  proof (cases "f x < v")
    case False
    then have "\<forall>y\<in>set (x # xs). v \<le> f y" using Cons.prems by fastforce
    from take_equal_filter[OF Cons.prems this] False show ?thesis by simp
  qed (use Cons in auto)
qed simp

lemma take_sorted: "sorted xs \<Longrightarrow> takeWhile (\<lambda>x. x < m) xs = filter (\<lambda>x. x < m) xs" for m :: nat
proof (induction xs)
  case (Cons x xs)
  show ?case
  proof (cases "x < m")
    case False
    then have "\<forall>y\<in>set xs. \<not> y < m" using Cons.prems by fastforce
    with False show ?thesis by (simp add: filter_empty_conv)
  qed (use Cons in auto)
qed simp

lemma sorted_fst: "sorted (map (\<lambda>r. (f r, g r)) b) \<Longrightarrow> sorted (map f b)"
  for f :: "'a \<Rightarrow> nat" and g :: "'a \<Rightarrow> nat"
  by (induction b) (auto simp: less_eq_prod_def)

lemma sorted_snd_filter:
  "sorted (map (\<lambda>r. (f r, g r)) b) \<Longrightarrow> sorted (map g (filter (\<lambda>r. f r = v) b))"
  for f :: "'a \<Rightarrow> nat" and g :: "'a \<Rightarrow> nat"
  by (induction b) (auto simp: less_eq_prod_def)

lemma b_matches_ok:
  assumes "rows_sorted b ys"
  shows "set (b_matches b v begin2 end2) = {j. begin2 \<le> j \<and> j < end2 \<and> j < length ys \<and> ys ! j = v}"
    and "distinct (b_matches b v begin2 end2)"
proof -
  let ?F = "filter (\<lambda>r. lcs_row_index r = v) b"
  let ?js = "map lcs_tv_index ?F"
  have s: "sorted (map (\<lambda>r. (lcs_row_index r, lcs_tv_index r)) b)"
    and st: "set (map (\<lambda>r. (lcs_row_index r, lcs_tv_index r)) b) = {(ys ! j, j) | j. j < length ys}"
    using assms by (simp_all add: rows_sorted_def)
  have eq: "b_matches b v begin2 end2 =
      filter (\<lambda>j. begin2 \<le> j) (takeWhile (\<lambda>j. j < begin2 \<or> j < end2) ?js)"
    unfolding b_matches_def Let_def take_drop_filter[OF sorted_fst[OF s]] ..
  have tw: "takeWhile (\<lambda>j. j < begin2 \<or> j < end2) ?js = filter (\<lambda>j. j < max begin2 end2) ?js"
    using take_sorted[OF sorted_snd_filter[OF s], of "max begin2 end2"] by (simp add: less_max_iff_disj)
  have js: "j \<in> set ?js \<longleftrightarrow> j < length ys \<and> ys ! j = v" for j
  proof -
    have "j \<in> set ?js \<longleftrightarrow> (v, j) \<in> set (map (\<lambda>r. (lcs_row_index r, lcs_tv_index r)) b)" by auto
    then show ?thesis unfolding st by auto
  qed
  show "set (b_matches b v begin2 end2) = {j. begin2 \<le> j \<and> j < end2 \<and> j < length ys \<and> ys ! j = v}"
    unfolding eq tw using js by auto
  have "distinct ?js" using assms by (auto simp: rows_sorted_def distinct_map_filter)
  then show "distinct (b_matches b v begin2 end2)" unfolding eq by (simp add: distinct_takeWhile)
qed

section \<open>Scanning\<close>

definition block_ok :: "nat list \<Rightarrow> nat list \<Rightarrow> nat \<Rightarrow> nat \<Rightarrow> nat \<Rightarrow> nat \<Rightarrow> lcs_match \<Rightarrow> bool" where
  "block_ok xs ys begin1 end1 begin2 end2 m \<longleftrightarrow>
     begin1 \<le> m_i m \<and> m_i m + m_size m \<le> end1 \<and> begin2 \<le> m_j m \<and> m_j m + m_size m \<le> end2 \<and>
     (\<forall>k<m_size m. xs ! (m_i m + k) = ys ! (m_j m + k))"

definition lengths_of ::
  "nat list \<Rightarrow> nat list \<Rightarrow> nat \<Rightarrow> nat \<Rightarrow> nat \<Rightarrow> nat \<Rightarrow> (nat \<times> nat) list \<Rightarrow> bool" where
  "lengths_of xs ys begin1 begin2 end2 i cur \<longleftrightarrow>
     (if i = begin1 then cur = []
      else distinct (map fst cur) \<and> set cur = {(j, run xs ys begin1 begin2 (i - 1) j) | j.
        begin2 \<le> j \<and> j < end2 \<and> j < length ys \<and> xs ! (i - 1) = ys ! j})"

lemma block_length_lookup:
  "distinct (map fst ps) \<Longrightarrow>
     block_length ps j = (case map_of ps (j - 1) of Some l \<Rightarrow> if 0 < j then l + 1 else 1 | None \<Rightarrow> 1)"
  by (induction ps) (auto split: option.splits if_splits)

lemma block_length_run:
  assumes "lengths_of xs ys begin1 begin2 end2 i prev" and "begin1 \<le> i"
    and "begin2 \<le> j" "j < end2" "j < length ys" "xs ! i = ys ! j"
  shows "block_length prev j = run xs ys begin1 begin2 i j"
proof (cases "i = begin1")
  case True
  then have "prev = []" using assms(1) by (simp add: lengths_of_def)
  with True assms show ?thesis by (cases i) auto
next
  case False
  then have d: "distinct (map fst prev)" and st: "set prev = {(j, run xs ys begin1 begin2 (i - 1) j) | j.
        begin2 \<le> j \<and> j < end2 \<and> j < length ys \<and> xs ! (i - 1) = ys ! j}"
    using assms(1) by (simp_all add: lengths_of_def)
  obtain i' where i: "i = Suc i'" "begin1 \<le> i'" using False assms(2) by (cases i) auto
  show ?thesis
  proof (cases "begin2 < j \<and> xs ! i' = ys ! (j - 1)")
    case True
    then have "(j - 1, run xs ys begin1 begin2 i' (j - 1)) \<in> set prev"
      unfolding st using assms(4,5) i by auto
    then have "map_of prev (j - 1) = Some (run xs ys begin1 begin2 i' (j - 1))" using d by simp
    with True i assms(6) show ?thesis by (simp add: block_length_lookup[OF d])
  next
    case not: False
    have "(j - 1, l) \<notin> set prev" if "0 < j" for l using not that i unfolding st by auto
    then have "map_of prev (j - 1) = None \<or> j = 0" by (cases "map_of prev (j - 1)") (auto dest: map_of_SomeD)
    then have "block_length prev j = 1" by (auto simp: block_length_lookup[OF d] split: option.splits)
    moreover have "run xs ys begin1 begin2 i' (j - 1) = 0" if "begin2 < j"
    proof -
      have "xs ! i' \<noteq> ys ! (j - 1)" using not that by simp
      then show ?thesis by (cases i') simp_all
    qed
    ultimately show ?thesis using i assms(3,6) by (cases "j \<le> begin2") simp_all
  qed
qed

lemma update_best_ok:
  assumes "block_ok xs ys begin1 end1 begin2 end2 best" and "begin1 \<le> i" "i < end1" "begin2 \<le> j" "j < end2"
    and "len = run xs ys begin1 begin2 i j"
  shows "block_ok xs ys begin1 end1 begin2 end2 (update_best modified i j len best)"
    and "m_size (update_best modified i j len best) = max (m_size best) len"
proof -
  have b: "len \<le> i + 1 - begin1" "len \<le> j + 1 - begin2"
    using run_bounds[OF assms(2,4)] assms(6) by simp_all
  have new: "block_ok xs ys begin1 end1 begin2 end2
      \<lparr>m_i = i + 1 - len, m_j = j + 1 - len, m_size = len, m_modified = c\<rparr>" for c
  proof -
    have "xs ! (i + 1 - len + k) = ys ! (j + 1 - len + k)" if "k < len" for k
    proof -
      have "xs ! (i - (len - 1 - k)) = ys ! (j - (len - 1 - k))"
        using that by (intro run_block[OF assms(2,4)]) (simp add: assms(6)[symmetric])
      moreover have "i - (len - 1 - k) = i + 1 - len + k" "j - (len - 1 - k) = j + 1 - len + k"
        using that b assms(2,4) by linarith+
      ultimately show ?thesis by metis
    qed
    with b assms(2-5) show ?thesis by (auto simp: block_ok_def)
  qed
  have old: "block_ok xs ys begin1 end1 begin2 end2 (best\<lparr>m_modified := c\<rparr>)" for c
    using assms(1) by (simp add: block_ok_def)
  show "block_ok xs ys begin1 end1 begin2 end2 (update_best modified i j len best)"
    using new old assms(1) by (auto simp: update_best_def Let_def)
  show "m_size (update_best modified i j len best) = max (m_size best) len"
    by (simp add: update_best_def Let_def)
qed

lemma scan_row_ok:
  assumes "lengths_of xs ys begin1 begin2 end2 i prev" and "begin1 \<le> i" "i < end1"
    and "\<forall>j\<in>set js. begin2 \<le> j \<and> j < end2 \<and> j < length ys \<and> xs ! i = ys ! j"
    and "block_ok xs ys begin1 end1 begin2 end2 best"
    and "scan_row modified prev i js cur best = (cur', best')"
  shows "cur' = cur @ map (\<lambda>j. (j, run xs ys begin1 begin2 i j)) js \<and>
    block_ok xs ys begin1 end1 begin2 end2 best' \<and> m_size best \<le> m_size best' \<and>
    (\<forall>j\<in>set js. run xs ys begin1 begin2 i j \<le> m_size best')"
  using assms(4-6)
proof (induction js arbitrary: cur best)
  case (Cons j js)
  have j: "begin2 \<le> j" "j < end2" "j < length ys" "xs ! i = ys ! j" using Cons.prems(1) by auto
  note l = block_length_run[OF assms(1,2) j]
  note u = update_best_ok[OF Cons.prems(2) assms(2,3) j(1,2) l, of modified]
  have "\<forall>j\<in>set js. begin2 \<le> j \<and> j < end2 \<and> j < length ys \<and> xs ! i = ys ! j"
    using Cons.prems(1) by (meson list.set_intros(2))
  note IH = Cons.IH[OF this u(1)]
  have "scan_row modified prev i js (cur @ [(j, run xs ys begin1 begin2 i j)])
      (update_best modified i j (block_length prev j) best) = (cur', best')"
    using Cons.prems(3) l by (simp add: Let_def)
  from IH[OF this] u(2) l show ?case by simp
qed simp

lemma scan_rows_ok:
  assumes "is = [i..<end1]" and "begin1 \<le> i" and "end1 \<le> length a" and "rows_sorted b ys"
    and "lengths_of (map lcs_row_index a) ys begin1 begin2 end2 i cur"
    and "block_ok (map lcs_row_index a) ys begin1 end1 begin2 end2 best"
    and "m = scan_rows modified a b begin2 end2 is cur best"
  shows "block_ok (map lcs_row_index a) ys begin1 end1 begin2 end2 m \<and> m_size best \<le> m_size m \<and>
    (\<forall>k\<in>set is. \<forall>j. begin2 \<le> j \<and> j < end2 \<and> j < length ys \<and> map lcs_row_index a ! k = ys ! j \<longrightarrow>
      run (map lcs_row_index a) ys begin1 begin2 k j \<le> m_size m)"
  using assms(1,2,5-7)
proof (induction "is" arbitrary: i cur best)
  case (Cons k ks)
  let ?xs = "map lcs_row_index a"
  let ?js = "b_matches b (lcs_row_index (a ! k)) begin2 end2"
  have k: "k = i" "ks = [Suc i..<end1]" "i < end1"
    using Cons.prems(1)[symmetric] by (auto simp: upt_eq_Cons_conv)
  obtain cur' best' where s: "scan_row modified cur i ?js [] best = (cur', best')"
    by (cases "scan_row modified cur i ?js [] best")
  have x: "lcs_row_index (a ! k) = ?xs ! i" using k assms(3) by simp
  have js: "set ?js = {j. begin2 \<le> j \<and> j < end2 \<and> j < length ys \<and> ys ! j = ?xs ! i}"
    and d: "distinct ?js" unfolding x by (rule b_matches_ok[OF assms(4)])+
  have "\<forall>j\<in>set ?js. begin2 \<le> j \<and> j < end2 \<and> j < length ys \<and> ?xs ! i = ys ! j"
    unfolding js by simp
  note r = scan_row_ok[OF Cons.prems(3,2) k(3) this Cons.prems(4) s]
  have "lengths_of ?xs ys begin1 begin2 end2 (Suc i) cur'"
    using r d js Cons.prems(2) by (auto simp: lengths_of_def comp_def)
  moreover have "block_ok ?xs ys begin1 end1 begin2 end2 best'" using r by simp
  moreover have "m = scan_rows modified a b begin2 end2 ks cur' best'" using Cons.prems(5) s k(1) by simp
  moreover have "begin1 \<le> Suc i" using Cons.prems(2) by simp
  ultimately have "block_ok ?xs ys begin1 end1 begin2 end2 m \<and> m_size best' \<le> m_size m \<and>
    (\<forall>k\<in>set ks. \<forall>j. begin2 \<le> j \<and> j < end2 \<and> j < length ys \<and> ?xs ! k = ys ! j \<longrightarrow>
      run ?xs ys begin1 begin2 k j \<le> m_size m)"
    using Cons.IH[OF k(2)] by blast
  moreover have "run ?xs ys begin1 begin2 k j \<le> m_size best'"
    if "begin2 \<le> j \<and> j < end2 \<and> j < length ys \<and> ?xs ! k = ys ! j" for j
    using that r js k(1) by auto
  ultimately show ?case using r by (auto intro: order_trans)
qed simp

definition common_block :: "nat list \<Rightarrow> nat list \<Rightarrow> nat \<Rightarrow> nat \<Rightarrow> nat \<Rightarrow> bool" where
  "common_block xs ys p q l \<longleftrightarrow> (\<forall>k<l. xs ! (p + k) = ys ! (q + k))"

lemma find_longest_ok:
  assumes "begin1 \<le> end1" "end1 \<le> length a" and "begin2 \<le> end2" "end2 \<le> length ys"
    and "rows_sorted b ys" and "m = find_longest_match modified a b begin1 end1 begin2 end2"
  shows "block_ok (map lcs_row_index a) ys begin1 end1 begin2 end2 m"
    and "begin1 \<le> p \<Longrightarrow> begin2 \<le> q \<Longrightarrow> p + l \<le> end1 \<Longrightarrow> q + l \<le> end2 \<Longrightarrow>
      common_block (map lcs_row_index a) ys p q l \<Longrightarrow> l \<le> m_size m"
proof -
  let ?xs = "map lcs_row_index a"
  have "lengths_of ?xs ys begin1 begin2 end2 begin1 []" by (simp add: lengths_of_def)
  moreover have "block_ok ?xs ys begin1 end1 begin2 end2 \<lparr>m_i = begin1, m_j = begin2, m_size = 0, m_modified = 0\<rparr>"
    using assms(1,3) by (simp add: block_ok_def)
  ultimately have r: "block_ok ?xs ys begin1 end1 begin2 end2 m \<and> 
    (\<forall>k\<in>set [begin1..<end1]. \<forall>j. begin2 \<le> j \<and> j < end2 \<and> j < length ys \<and> ?xs ! k = ys ! j \<longrightarrow>
      run ?xs ys begin1 begin2 k j \<le> m_size m)"
    using scan_rows_ok[OF refl le_refl assms(2,5), of begin1 begin2 end2 "[]" _ m modified] assms(6)
    unfolding find_longest_match_def by blast
  then show "block_ok ?xs ys begin1 end1 begin2 end2 m" by simp
  assume w: "begin1 \<le> p" "begin2 \<le> q" "p + l \<le> end1" "q + l \<le> end2" "common_block ?xs ys p q l"
  show "l \<le> m_size m"
  proof (cases l)
    case (Suc l')
    have e: "\<forall>k<Suc l'. ?xs ! (p + k) = ys ! (q + k)" using w(5) Suc by (simp add: common_block_def)
    have "Suc l' \<le> run ?xs ys begin1 begin2 (p + l') (q + l')" by (rule run_longest[OF w(1,2) e])
    moreover have "p + l' \<in> set [begin1..<end1]" "begin2 \<le> q + l'" "q + l' < end2" "q + l' < length ys"
      "?xs ! (p + l') = ys ! (q + l')" using w Suc assms(4) e by auto
    ultimately show ?thesis using r Suc by (meson order_trans)
  qed simp
qed

section \<open>Chains of blocks\<close>

fun chain :: "nat list \<Rightarrow> nat list \<Rightarrow> nat \<Rightarrow> nat \<Rightarrow> nat \<Rightarrow> nat \<Rightarrow> lcs_match list \<Rightarrow> bool" where
  "chain xs ys i j end1 end2 [] \<longleftrightarrow> i \<le> end1 \<and> j \<le> end2"
| "chain xs ys i j end1 end2 (m # ms) \<longleftrightarrow>
     i \<le> m_i m \<and> j \<le> m_j m \<and> common_block xs ys (m_i m) (m_j m) (m_size m) \<and>
     chain xs ys (m_i m + m_size m) (m_j m + m_size m) end1 end2 ms"

lemma chain_weaken:
  "chain xs ys i j end1 end2 ms \<Longrightarrow> i' \<le> i \<Longrightarrow> j' \<le> j \<Longrightarrow> end1 \<le> end1' \<Longrightarrow> end2 \<le> end2' \<Longrightarrow>
     chain xs ys i' j' end1' end2' ms"
  by (induction ms arbitrary: i j i' j') auto

lemma chain_append:
  "chain xs ys i j k l ms \<Longrightarrow> chain xs ys k l end1 end2 ns \<Longrightarrow> chain xs ys i j end1 end2 (ms @ ns)"
proof (induction ms arbitrary: i j)
  case Nil
  then show ?case using chain_weaken[of xs ys k l end1 end2 ns i j end1 end2] by simp
qed simp

lemma chain_order: "chain xs ys i j end1 end2 ms \<Longrightarrow> i \<le> end1 \<and> j \<le> end2"
  by (induction ms arbitrary: i j) fastforce+

lemma find_longest_matches_chain:
  "begin1 \<le> end1 \<Longrightarrow> end1 \<le> length a \<Longrightarrow> begin2 \<le> end2 \<Longrightarrow> end2 \<le> length ys \<Longrightarrow> rows_sorted b ys \<Longrightarrow>
     chain (map lcs_row_index a) ys begin1 begin2 end1 end2
       (find_longest_matches modified a b begin1 end1 begin2 end2)"
proof (induction modified a b begin1 end1 begin2 end2 rule: find_longest_matches.induct)
  case (1 modified a b begin1 end1 begin2 end2)
  let ?xs = "map lcs_row_index a"
  define m where "m = find_longest_match modified a b begin1 end1 begin2 end2"
  have m: "block_ok ?xs ys begin1 end1 begin2 end2 m"
    by (rule find_longest_ok(1)[OF 1(3-7) m_def])
  then have w: "begin1 \<le> m_i m" "m_i m + m_size m \<le> end1" "begin2 \<le> m_j m" "m_j m + m_size m \<le> end2"
    "common_block ?xs ys (m_i m) (m_j m) (m_size m)" by (auto simp: block_ok_def common_block_def)
  show ?case
  proof (cases "m_size m = 0")
    case True
    with 1(3,5) show ?thesis
      by (subst find_longest_matches.simps) (simp add: m_def[symmetric])
  next
    case False
    let ?L = "if begin1 < m_i m \<and> begin2 < m_j m
      then find_longest_matches modified a b begin1 (m_i m) begin2 (m_j m) else []"
    let ?R = "if m_i m + m_size m < end2 \<and> m_j m + m_size m < end2
      then find_longest_matches modified a b (m_i m + m_size m) end1 (m_j m + m_size m) end2 else []"
    have l: "chain ?xs ys begin1 begin2 (m_i m) (m_j m) ?L"
      using 1(1)[OF m_def False] w 1(4,6,7) by auto
    have "chain ?xs ys (m_i m + m_size m) (m_j m + m_size m) end1 end2 ?R"
      using 1(2)[OF m_def False] w 1(4,6,7) by auto
    with w(5) have "chain ?xs ys (m_i m) (m_j m) end1 end2 (m # ?R)" by simp
    from chain_append[OF l this] False show ?thesis
      by (subst find_longest_matches.simps) (simp add: m_def[symmetric])
  qed
qed

lemma longest_matches_chain:
  assumes "rows_sorted b ys" and "length b = length ys" and "s \<le> length a" "s \<le> length ys"
  shows "chain (map lcs_row_index a) ys s s (length a) (length ys) (longest_matches modified a b s)"
proof -
  let ?e = "\<lparr>m_i = length a, m_j = length ys, m_size = 0, m_modified = 0\<rparr>"
  have "chain (map lcs_row_index a) ys (length a) (length ys) (length a) (length ys) [?e]"
    by (simp add: common_block_def)
  from chain_append[OF find_longest_matches_chain this] assms show ?thesis
    by (simp add: longest_matches_def)
qed

lemma longest_matches_last: "last (longest_matches modified a b s) =
    \<lparr>m_i = length a, m_j = length b, m_size = 0, m_modified = 0\<rparr>"
  by (simp add: longest_matches_def)

section \<open>Alignment\<close>

text \<open>
  Aligning two sequences along a chain of blocks: the positions outside the blocks are deleted
  and inserted, and what remains of the two sequences is the same list of rows.
\<close>

section \<open>The positions that are kept\<close>

fun kept :: "lcs_match list \<Rightarrow> (nat \<times> nat) list" where
  "kept [] = []"
| "kept (m # ms) = map (\<lambda>k. (m_i m + k, m_j m + k)) [0..<m_size m] @ kept ms"

lemma kept_in:
  "chain xs ys i j end1 end2 ms \<Longrightarrow> p \<in> set (kept ms) \<Longrightarrow>
     i \<le> fst p \<and> fst p < end1 \<and> j \<le> snd p \<and> snd p < end2 \<and> xs ! fst p = ys ! snd p"
proof (induction ms arbitrary: i j)
  case (Cons m ms)
  have o: "m_i m + m_size m \<le> end1 \<and> m_j m + m_size m \<le> end2"
    using chain_order[of xs ys "m_i m + m_size m" "m_j m + m_size m" end1 end2 ms] Cons.prems(1) by simp
  show ?case
  proof (cases "p \<in> set (kept ms)")
    case True
    then show ?thesis using Cons.IH[of "m_i m + m_size m" "m_j m + m_size m"] Cons.prems(1) by auto
  next
    case False
    then show ?thesis using Cons.prems o by (auto simp: common_block_def)
  qed
qed simp

lemma kept_sorted:
  "chain xs ys i j end1 end2 ms \<Longrightarrow> sorted_wrt (<) (map fst (kept ms)) \<and> sorted_wrt (<) (map snd (kept ms))"
proof (induction ms arbitrary: i j)
  case (Cons m ms)
  have c: "chain xs ys (m_i m + m_size m) (m_j m + m_size m) end1 end2 ms" using Cons.prems by simp
  have "sorted_wrt (<) (map (\<lambda>k. c + k) [0..<l])" for c l :: nat
    by (simp add: sorted_wrt_map sorted_wrt_upt)
  then show ?case using Cons.IH[OF c] kept_in[OF c]
    by (fastforce simp: sorted_wrt_append comp_def)
qed simp

lemma kept_rows:
  "chain xs ys i j end1 end2 ms \<Longrightarrow> map (\<lambda>p. xs ! fst p) (kept ms) = map (\<lambda>p. ys ! snd p) (kept ms)"
  using kept_in by (metis (no_types, lifting) map_cong)

section \<open>Alignment\<close>

lemma foldl_add_ok:
  "crv_wf D \<Longrightarrow> crv_wf (foldl is_add D vs) \<and> indices (foldl is_add D vs) = indices D \<union> set vs"
  by (induction vs arbitrary: D) (auto simp: is_add_ok)

lemma align_ok:
  assumes "chain xs ys i j (length a) (length rows) ms" and "crv_wf D" "crv_wf I"
    and "align a rows ms i j D I = (D', I')"
    and "ms \<noteq> []" and "m_i (last ms) = length a" "m_j (last ms) = length rows" "m_size (last ms) = 0"
  shows "crv_wf D' \<and> crv_wf I' \<and>
    indices D' = indices D \<union> (\<lambda>k. lcs_tv_index (a ! k)) ` ({i..<length a} - fst ` set (kept ms)) \<and>
    indices I' = indices I \<union> (\<lambda>k. tv_index (rows ! k)) ` ({j..<length rows} - snd ` set (kept ms))"
  using assms
proof (induction ms arbitrary: i j D I)
  case (Cons m ms)
  let ?D = "foldl is_add D (map (\<lambda>k. lcs_tv_index (a ! k)) [i..<m_i m])"
  let ?I = "foldl is_add I (map (\<lambda>k. tv_index (rows ! k)) [j..<m_j m])"
  have c: "chain xs ys (m_i m + m_size m) (m_j m + m_size m) (length a) (length rows) ms"
    and ij: "i \<le> m_i m" "j \<le> m_j m" using Cons.prems(1) by simp_all
  have al: "align a rows ms (m_i m + m_size m) (m_j m + m_size m) ?D ?I = (D', I')"
    using Cons.prems(4) ij by (simp add: max_def)
  note D = foldl_add_ok[OF Cons.prems(2), of "map (\<lambda>k. lcs_tv_index (a ! k)) [i..<m_i m]"]
  note I = foldl_add_ok[OF Cons.prems(3), of "map (\<lambda>k. tv_index (rows ! k)) [j..<m_j m]"]
  have o: "m_i m + m_size m \<le> length a" "m_j m + m_size m \<le> length rows"
    using chain_order[OF c] by simp_all
  show ?case
  proof (cases "ms = []")
    case True
    then show ?thesis using Cons.prems(4,6-8) D I al by simp
  next
    case False
    have out: "\<And>p. p \<in> set (kept ms) \<Longrightarrow> m_i m + m_size m \<le> fst p \<and> m_j m + m_size m \<le> snd p"
      using kept_in[OF c] by blast
    have s1: "{i..<length a} - fst ` set (kept (m # ms)) =
        {i..<m_i m} \<union> ({m_i m + m_size m..<length a} - fst ` set (kept ms))"
      and s2: "{j..<length rows} - snd ` set (kept (m # ms)) =
        {j..<m_j m} \<union> ({m_j m + m_size m..<length rows} - snd ` set (kept ms))"
    proof -
      have f: "fst ` set (kept (m # ms)) = {m_i m..<m_i m + m_size m} \<union> fst ` set (kept ms)"
        "snd ` set (kept (m # ms)) = {m_j m..<m_j m + m_size m} \<union> snd ` set (kept ms)"
        by (simp_all add: image_Un image_comp comp_def add.commute)
      have l: "\<And>x. x \<in> fst ` set (kept ms) \<Longrightarrow> m_i m + m_size m \<le> x"
        "\<And>x. x \<in> snd ` set (kept ms) \<Longrightarrow> m_j m + m_size m \<le> x" using out by auto
      show "{i..<length a} - fst ` set (kept (m # ms)) =
        {i..<m_i m} \<union> ({m_i m + m_size m..<length a} - fst ` set (kept ms))"
        unfolding f using l(1) ij o by fastforce
      show "{j..<length rows} - snd ` set (kept (m # ms)) =
        {j..<m_j m} \<union> ({m_j m + m_size m..<length rows} - snd ` set (kept ms))"
        unfolding f using l(2) ij o by fastforce
    qed
    have "crv_wf ?D" "crv_wf ?I" using D I by simp_all
    note r = Cons.IH[OF c this al False]
    have "m_i (last ms) = length a" "m_j (last ms) = length rows" "m_size (last ms) = 0"
      using Cons.prems(6-8) False by simp_all
    from r[OF this] D I show ?thesis unfolding s1 s2 by (auto simp: image_Un)
  qed
qed simp

section \<open>What is left of a list\<close>

text \<open>\<open>remaining ps D\<close> is the list after the rows at the positions \<open>D\<close> are erased.\<close>

definition remaining :: "'a list \<Rightarrow> nat set \<Rightarrow> 'a list" where
  "remaining ps D = map (nth ps) (filter (\<lambda>i. i \<notin> D) [0..<length ps])"

lemma remaining_by:
  assumes "sorted_wrt (<) qs" and "set qs = {..<length ps} - D"
  shows "remaining ps D = map (nth ps) qs"
proof -
  have "filter (\<lambda>i. i \<notin> D) [0..<length ps] = qs"
    using assms by (intro sorted_distinct_set_unique) (auto simp: strict_sorted_iff sorted_wrt_filter)
  then show ?thesis by (simp add: remaining_def)
qed

text \<open>
  Two lists share the rows at the positions \<open>pa\<close> and \<open>pb\<close>; aligning those along a chain
  leaves the same rows in both.
\<close>

lemma aligned_rows:
  assumes "sorted_wrt (<) pa" "sorted_wrt (<) pb"
    and "set pa \<subseteq> {..<length prev}" "set pb \<subseteq> {..<length nxt}"
    and "map fst ks = is" "map snd ks = js" "sorted_wrt (<) is" "sorted_wrt (<) js"
    and "set is \<subseteq> {..<length pa}" "set js \<subseteq> {..<length pb}"
    and "\<And>p. p \<in> set ks \<Longrightarrow> prev ! (pa ! fst p) = nxt ! (pb ! snd p)"
    and "{..<length prev} - D = nth pa ` set is" and "{..<length nxt} - I = nth pb ` set js"
  shows "remaining prev D = remaining nxt I"
proof -
  have s: "sorted_wrt (<) (map (nth ps) qs)" if "sorted_wrt (<) ps" "sorted_wrt (<) qs" "set qs \<subseteq> {..<length ps}"
    for ps qs :: "nat list"
    using that unfolding sorted_wrt_map
    by (auto intro!: sorted_wrt_mono_rel[of qs "(<)"] dest: sorted_wrt_nth_less)
  have "remaining prev D = map (nth prev) (map (nth pa) is)"
    by (rule remaining_by[OF s[OF assms(1,7,9)]]) (simp add: assms(12))
  also have "\<dots> = map (nth nxt) (map (nth pb) js)"
    using assms(11) by (simp add: assms(5,6)[symmetric])
  also have "\<dots> = remaining nxt I"
    by (rule remaining_by[OF s[OF assms(2,8,10)], symmetric]) (simp add: assms(13))
  finally show ?thesis .
qed

end
