(* ===== verification/ChangeCalcLaws.thy ===== *)
theory ChangeCalcLaws imports ChangeCalcMatch ChangeRowLaws "HOL-Library.Multiset" begin

text \<open>
  The calculated change set transforms the old row list into the new one: what is left of the
  old list after the deletions is what is left of the new one without the insertions.
\<close>

section \<open>Sorting\<close>

lemma sort_key_by:
  assumes "\<And>x y. f x \<le> f y \<Longrightarrow> g x \<le> g y" and "sorted (map f xs)"
  shows "sorted (map g xs)"
  using assms(2) unfolding sorted_map by (rule sorted_wrt_mono_rel[rotated]) (rule assms(1))

lemma strict_by_tv:
  assumes "distinct (map lcs_tv_index xs)"
  shows "sorted_wrt (<) (map lcs_tv_index (sort_key (\<lambda>r. (lcs_tv_index r, lcs_row_index r)) xs))"
proof -
  let ?a = "sort_key (\<lambda>r. (lcs_tv_index r, lcs_row_index r)) xs"
  have "sorted (map lcs_tv_index ?a)"
    by (rule sort_key_by[of "\<lambda>r. (lcs_tv_index r, lcs_row_index r)"]) (auto simp: less_eq_prod_def)
  moreover have "mset (map lcs_tv_index ?a) = mset (map lcs_tv_index xs)" by simp
  then have "distinct (map lcs_tv_index ?a)" using assms by (metis mset_eq_imp_distinct_iff)
  ultimately show ?thesis by (simp add: strict_sorted_iff)
qed

lemma rows_sorted_b:
  "rows_sorted (sort_key (\<lambda>r. (lcs_row_index r, lcs_tv_index r))
      (map (\<lambda>i. \<lparr>lcs_row_index = row_index (rows ! i), lcs_tv_index = i\<rparr>) [0..<length rows]))
    (map row_index rows)"
proof -
  let ?f = "\<lambda>r. (lcs_row_index r, lcs_tv_index r)"
  let ?u = "map (\<lambda>i. \<lparr>lcs_row_index = row_index (rows ! i), lcs_tv_index = i\<rparr>) [0..<length rows]"
  have m: "mset (map lcs_tv_index (sort_key ?f ?u)) = mset (map lcs_tv_index ?u)"
    by (simp only: mset_map mset_sort)
  have "distinct (map lcs_tv_index ?u)" by (simp add: comp_def)
  then have d: "distinct (map lcs_tv_index (sort_key ?f ?u))"
    by (rule mset_eq_imp_distinct_iff[OF m, THEN iffD2])
  have st: "set (map ?f (sort_key ?f ?u)) = {(map row_index rows ! j, j) | j. j < length (map row_index rows)}"
  proof -
    have "set (map ?f (sort_key ?f ?u)) = ?f ` set ?u" by (simp only: set_map set_sort)
    also have "\<dots> = (\<lambda>i. (row_index (rows ! i), i)) ` {0..<length rows}"
      by (simp only: set_map set_upt image_image lcs_row.select_convs)
    also have "\<dots> = (\<lambda>i. (map row_index rows ! i, i)) ` {0..<length rows}"
      by (rule image_cong) simp_all
    also have "\<dots> = {(map row_index rows ! j, j) | j. j < length (map row_index rows)}"
      by (auto simp del: nth_map)
    finally show ?thesis .
  qed
  show ?thesis unfolding rows_sorted_def by (intro conjI st d sorted_sort_key)
qed

section \<open>The first difference\<close>

lemma first_difference_ok:
  assumes "length xs = length ys" and "i + length xs \<le> npos" and "f = first_difference xs ys i"
  shows "if f = npos then map lcs_row_index xs = map row_index ys
    else i \<le> f \<and> f < i + length xs \<and> (\<forall>k<f - i. lcs_row_index (xs ! k) = row_index (ys ! k))"
  using assms
proof (induction xs ys i rule: first_difference.induct)
  case (1 x xs y ys i)
  show ?case
  proof (cases "lcs_row_index x = row_index y")
    case True
    have r: "if f = npos then map lcs_row_index xs = map row_index ys
      else i + 1 \<le> f \<and> f < i + 1 + length xs \<and> (\<forall>k<f - (i + 1). lcs_row_index (xs ! k) = row_index (ys ! k))"
      using True 1 by simp
    show ?thesis
    proof (cases "f = npos")
      case False
      have "lcs_row_index ((x # xs) ! k) = row_index ((y # ys) ! k)" if "k < f - i" for k
        using r False True that by (cases k) auto
      with r False show ?thesis by auto
    qed (use r True in simp)
  qed (use 1 in auto)
qed auto

section \<open>Sorted queries\<close>

text \<open>The rows both lists hold, with their old and new positions.\<close>

definition paired :: "nat list \<Rightarrow> nat list \<Rightarrow> row_info list \<Rightarrow> bool" where
  "paired prev nxt rows \<longleftrightarrow> distinct (map prev_tv_index rows) \<and> distinct (map tv_index rows) \<and>
     (\<forall>r\<in>set rows. prev_tv_index r < length prev \<and> tv_index r < length nxt \<and>
        prev ! prev_tv_index r = row_index r \<and> nxt ! tv_index r = row_index r)"

lemma kept_leaves:
  assumes "nth pa ` {..<N} = S" and "inj_on (nth pa) {..<N}" and "X \<subseteq> {..<N}"
    and "U - D = S"
  shows "U - (D \<union> nth pa ` ({..<N} - X)) = nth pa ` X"
proof -
  have "U - (D \<union> nth pa ` ({..<N} - X)) = nth pa ` {..<N} - nth pa ` ({..<N} - X)" using assms(1,4) by blast
  also have "\<dots> = nth pa ` ({..<N} - ({..<N} - X))" using assms(2) by (simp add: inj_on_image_set_diff)
  also have "{..<N} - ({..<N} - X) = X" using assms(3) by blast
  finally show ?thesis .
qed

lemma nth_image_all: "nth xs ` {..<length xs} = set xs"
  by (auto simp: set_conv_nth)

lemma aligned_chain:
  assumes "sorted_wrt (<) pa" "sorted_wrt (<) pb" "set pa \<subseteq> {..<length prev}" "set pb \<subseteq> {..<length nxt}"
    and "chain (map (nth prev) pa) (map (nth nxt) pb) 0 0 (length pa) (length pb) ms"
    and "{..<length prev} - D = set pa" "{..<length nxt} - I = set pb"
  shows "remaining prev (D \<union> nth pa ` ({..<length pa} - fst ` set (kept ms))) =
    remaining nxt (I \<union> nth pb ` ({..<length pb} - snd ` set (kept ms)))"
proof (rule aligned_rows[OF assms(1-4) refl refl])
  note k = kept_in[OF assms(5)]
  show s: "sorted_wrt (<) (map fst (kept ms))" "sorted_wrt (<) (map snd (kept ms))"
    using kept_sorted[OF assms(5)] by simp_all
  show i: "set (map fst (kept ms)) \<subseteq> {..<length pa}" "set (map snd (kept ms)) \<subseteq> {..<length pb}"
    using k by auto
  show "prev ! (pa ! fst p) = nxt ! (pb ! snd p)" if "p \<in> set (kept ms)" for p
  proof -
    have "fst p < length pa" "snd p < length pb"
      and e: "map (nth prev) pa ! fst p = map (nth nxt) pb ! snd p" using k[OF that] by auto
    then show ?thesis by simp
  qed
  have inj: "inj_on (nth ps) {..<length ps}" if "sorted_wrt (<) ps" for ps :: "nat list"
    using that by (simp add: inj_on_nth strict_sorted_iff)
  show "{..<length prev} - (D \<union> nth pa ` ({..<length pa} - fst ` set (kept ms))) = nth pa ` set (map fst (kept ms))"
    using kept_leaves[OF nth_image_all inj[OF assms(1)] _ assms(6)] i(1) by simp
  show "{..<length nxt} - (I \<union> nth pb ` ({..<length pb} - snd ` set (kept ms))) = nth pb ` set (map snd (kept ms))"
    using kept_leaves[OF nth_image_all inj[OF assms(2)] _ assms(7)] i(2) by simp
qed

lemma moves_sorted_ok:
  assumes "paired prev nxt rows" and "sorted (map tv_index rows)" and "length rows \<le> npos"
    and "crv_wf (deletions cs)" "crv_wf (insertions cs)"
    and "{..<length prev} - (indices (deletions cs) \<union> R) = prev_tv_index ` set rows"
    and "{..<length nxt} - indices (insertions cs) = tv_index ` set rows"
  shows "\<exists>D I. calculate_moves_sorted rows cs = cs\<lparr>deletions := D, insertions := I\<rparr> \<and>
    crv_wf D \<and> crv_wf I \<and>
    indices (deletions cs) \<subseteq> indices D \<and> indices (insertions cs) \<subseteq> indices I \<and>
    indices D \<subseteq> indices (deletions cs) \<union> {..<length prev} \<and>
    indices I \<subseteq> indices (insertions cs) \<union> {..<length nxt} \<and>
    remaining prev (indices D \<union> R) = remaining nxt (indices I)"
proof -
  define a where "a = sort_key (\<lambda>r. (lcs_tv_index r, lcs_row_index r))
    (map (\<lambda>row. \<lparr>lcs_row_index = row_index row, lcs_tv_index = prev_tv_index row\<rparr>) rows)"
  define b where "b = sort_key (\<lambda>r. (lcs_row_index r, lcs_tv_index r))
    (map (\<lambda>i. \<lparr>lcs_row_index = row_index (rows ! i), lcs_tv_index = i\<rparr>) [0..<length rows])"
  define pa where "pa = map lcs_tv_index a"
  define pb where "pb = map tv_index rows"
  define first where "first = first_difference a rows 0"
  have len: "length a = length rows" "length b = length rows" "length pa = length rows" "length pb = length rows"
    by (simp_all add: a_def b_def pa_def pb_def)
  have set_a: "set a = (\<lambda>row. \<lparr>lcs_row_index = row_index row, lcs_tv_index = prev_tv_index row\<rparr>) ` set rows"
    by (simp add: a_def)
  have pa: "sorted_wrt (<) pa" unfolding pa_def a_def
    by (rule strict_by_tv) (use assms(1) in \<open>simp add: paired_def comp_def\<close>)
  have pb: "sorted_wrt (<) pb" using assms(1,2) by (simp add: pb_def strict_sorted_iff paired_def)
  have sets: "set pa = prev_tv_index ` set rows" "set pb = tv_index ` set rows"
    by (simp_all add: pa_def pb_def set_a image_comp comp_def)
  have within: "set pa \<subseteq> {..<length prev}" "set pb \<subseteq> {..<length nxt}"
    using assms(1) unfolding sets paired_def by auto
  have xs: "map lcs_row_index a = map (nth prev) pa" and ys: "map row_index rows = map (nth nxt) pb"
    using assms(1) by (auto simp: pa_def pb_def paired_def set_a)
  have rows_b: "rows_sorted b (map row_index rows)" unfolding b_def by (rule rows_sorted_b)
  note fd = first_difference_ok[OF len(1), of 0 first, folded first_def]
  have left: "{..<length prev} - (indices (deletions cs) \<union> R) = set pa"
    "{..<length nxt} - indices (insertions cs) = set pb" using assms(6,7) sets by simp_all
  show ?thesis
  proof (cases "first = npos")
    case True
    let ?m = "\<lparr>m_i = 0, m_j = 0, m_size = length rows, m_modified = 0\<rparr>"
    have eq: "map (nth prev) pa = map (nth nxt) pb" using fd True assms(3) len xs ys by simp
    then have "chain (map (nth prev) pa) (map (nth nxt) pb) 0 0 (length pa) (length pb) [?m]"
      using len by (simp add: common_block_def)
    from aligned_chain[OF pa pb within this left]
    have "remaining prev (indices (deletions cs) \<union> R) = remaining nxt (indices (insertions cs))"
      by (simp add: len image_comp comp_def lessThan_atLeast0)
    moreover have "calculate_moves_sorted rows cs = cs\<lparr>deletions := deletions cs, insertions := insertions cs\<rparr>"
      using True by (simp add: calculate_moves_sorted_def a_def[symmetric] first_def[symmetric] Let_def)
    ultimately show ?thesis using assms(4,5) by blast
  next
    case False
    let ?m = "\<lparr>m_i = 0, m_j = 0, m_size = first, m_modified = 0\<rparr>"
    let ?ms = "longest_matches (modifications cs) a b first"
    have f: "first < length rows" "\<forall>k<first. lcs_row_index (a ! k) = row_index (rows ! k)"
      using fd False assms(3) len by simp_all
    have c: "chain (map lcs_row_index a) (map row_index rows) first first (length a) (length rows) ?ms"
      using longest_matches_chain[OF rows_b, of first a] f(1) len by simp
    then have m: "chain (map (nth prev) pa) (map (nth nxt) pb) 0 0 (length pa) (length pb) (?m # ?ms)"
      unfolding xs[symmetric] ys[symmetric] using f len by (simp add: common_block_def)
    obtain D I where al: "align a rows ?ms first first (deletions cs) (insertions cs) = (D, I)"
      by (cases "align a rows ?ms first first (deletions cs) (insertions cs)")
    have last: "?ms \<noteq> []" "m_i (last ?ms) = length a" "m_j (last ?ms) = length rows" "m_size (last ?ms) = 0"
      using len by (simp_all add: longest_matches_last) (simp add: longest_matches_def)
    note r = align_ok[OF c assms(4,5) al last]
    have k: "{first..<length rows} - fst ` set (kept ?ms) = {..<length rows} - fst ` set (kept (?m # ?ms))"
      "{first..<length rows} - snd ` set (kept ?ms) = {..<length rows} - snd ` set (kept (?m # ?ms))"
      by (auto simp: image_Un image_comp comp_def)
    have D: "indices D = indices (deletions cs) \<union> nth pa ` ({..<length pa} - fst ` set (kept (?m # ?ms)))"
      and I: "indices I = indices (insertions cs) \<union> nth pb ` ({..<length pb} - snd ` set (kept (?m # ?ms)))"
      using r unfolding len k by (auto simp: pa_def pb_def len)
    have "remaining prev (indices D \<union> R) = remaining nxt (indices I)"
      using aligned_chain[OF pa pb within m left] D I by (simp add: Un_ac)
    moreover have "calculate_moves_sorted rows cs = cs\<lparr>deletions := D, insertions := I\<rparr>"
      using False al by (simp add: calculate_moves_sorted_def a_def[symmetric] b_def[symmetric]
        first_def[symmetric] Let_def)
    moreover have "nth pa ` ({..<length pa} - fst ` set (kept (?m # ?ms))) \<subseteq> {..<length prev}"
      "nth pb ` ({..<length pb} - snd ` set (kept (?m # ?ms))) \<subseteq> {..<length nxt}"
      using within by (auto simp: subset_iff)
    moreover have "indices D \<subseteq> indices (deletions cs) \<union> {..<length prev}"
      "indices I \<subseteq> indices (insertions cs) \<union> {..<length nxt}"
      unfolding D I using calculation(3,4) by (simp_all add: le_supI2)
    moreover have "indices (deletions cs) \<subseteq> indices D" "indices (insertions cs) \<subseteq> indices I"
      unfolding D I by simp_all
    moreover have "crv_wf D" "crv_wf I" using r by simp_all
    ultimately show ?thesis by (intro exI[of _ D] exI[of _ I] conjI)
  qed
qed

end
