(* ===== verification/ChangeCalcRows.thy ===== *)
theory ChangeCalcRows imports ChangeCalcLaws "HOL-Library.Sublist" begin

text \<open>
  From the two row lists to the rows they share, and back: replaying the calculated deletions
  and insertions on the old list gives the new one.
\<close>

section \<open>The old rows\<close>

lemma collect_old_ok:
  assumes "collect_old rs i deleted D = (rows, D')" and "crv_wf D"
  shows "crv_wf D' \<and> indices D' = indices D \<union> (\<lambda>k. i + k) ` {k. k < length rs \<and> rs ! k = npos} \<and>
    tv_index ` set rows = (\<lambda>k. i + k) ` {k. k < length rs \<and> rs ! k \<noteq> npos} \<and>
    distinct (map tv_index rows) \<and>
    (\<forall>r\<in>set rows. i \<le> tv_index r \<and> rs ! (tv_index r - i) = row_index r)"
  using assms
proof (induction rs arbitrary: i deleted D rows D')
  case (Cons r rs)
  have split: "(\<lambda>k. i + k) ` {k. k < length (r # rs) \<and> P ((r # rs) ! k)} =
      (if P r then {i} else {}) \<union> (\<lambda>k. i + 1 + k) ` {k. k < length rs \<and> P (rs ! k)}" for P
  proof -
    have "{k. k < length (r # rs) \<and> P ((r # rs) ! k)} =
        (if P r then {0} else {}) \<union> Suc ` {k. k < length rs \<and> P (rs ! k)}"
      by (auto simp: image_iff less_Suc_eq_0_disj)
    then show ?thesis by (auto simp: image_Un image_comp comp_def)
  qed
  show ?case
  proof (cases "r = npos")
    case True
    then have e: "collect_old rs (i + 1) (deleted + 1) (is_add D i) = (rows, D')" using Cons.prems(1) by simp
    have wf: "crv_wf (is_add D i)" using is_add_ok[OF Cons.prems(2)] by simp
    note IH = Cons.IH[OF e wf]
    have "(r # rs) ! (tv_index q - i) = rs ! (tv_index q - (i + 1))" if "q \<in> set rows" for q
    proof -
      have "i + 1 \<le> tv_index q" using IH that by blast
      then have "tv_index q - i = Suc (tv_index q - (i + 1))" by simp
      then show ?thesis by simp
    qed
    with IH is_add_ok[OF Cons.prems(2), of i] True show ?thesis
      unfolding split[of "\<lambda>x. x = npos"] split[of "\<lambda>x. x \<noteq> npos"] by (auto simp: Suc_le_lessD)
  next
    case False
    obtain rows' where e: "collect_old rs (i + 1) deleted D = (rows', D')"
      and rows: "rows = \<lparr>row_index = r, prev_tv_index = npos, tv_index = i, shifted_tv_index = i - deleted\<rparr> # rows'"
      using False Cons.prems(1) by (auto split: prod.splits)
    note IH = Cons.IH[OF e Cons.prems(2)]
    have below: "i + 1 \<le> tv_index q" if "q \<in> set rows'" for q using IH that by blast
    have "(r # rs) ! (tv_index q - i) = rs ! (tv_index q - (i + 1))" if "q \<in> set rows'" for q
    proof -
      have "tv_index q - i = Suc (tv_index q - (i + 1))" using below[OF that] by simp
      then show ?thesis by simp
    qed
    moreover have "i \<notin> tv_index ` set rows'" using below by fastforce
    ultimately show ?thesis using IH False rows below
      unfolding split[of "\<lambda>x. x = npos"] split[of "\<lambda>x. x \<noteq> npos"] by (auto simp: Suc_le_lessD)
  qed
qed simp

section \<open>Matching old and new rows\<close>

definition same_row :: "row_info \<Rightarrow> row_info list \<Rightarrow> row_info list \<Rightarrow> bool" where
  "same_row r olds news \<longleftrightarrow>
     (\<exists>old\<in>set olds. tv_index old = prev_tv_index r \<and> row_index old = row_index r) \<and>
     (\<exists>new\<in>set news. tv_index new = tv_index r \<and> row_index new = row_index r)"

definition known :: "row_info list \<Rightarrow> row_info list" where
  "known rows = filter (\<lambda>row. prev_tv_index row \<noteq> npos) rows"

lemma known_simps [simp]: "known [] = []"
    "known (r # rs) = (if prev_tv_index r \<noteq> npos then r # known rs else known rs)"
  by (simp_all add: known_def)

lemma same_row_more: "same_row r olds news \<Longrightarrow> set olds \<subseteq> set olds' \<Longrightarrow> set news \<subseteq> set news' \<Longrightarrow> same_row r olds' news'"
  unfolding same_row_def by blast

lemma match_rows_ok:
  assumes "distinct (map tv_index olds)" and "npos \<notin> tv_index ` set olds"
    and "distinct (map tv_index news)" and "\<forall>n\<in>set news. prev_tv_index n = npos"
    and "crv_wf R" "crv_wf I" and "match_rows olds news R I = (ns, R', I')"
  shows "crv_wf R' \<and> crv_wf I' \<and> (\<forall>r\<in>set (known ns). same_row r olds news) \<and>
    distinct (map prev_tv_index (known ns)) \<and> distinct (map tv_index (known ns)) \<and>
    indices R' = indices R \<union> (tv_index ` set olds - prev_tv_index ` set (known ns)) \<and>
    indices I' = indices I \<union> (tv_index ` set news - tv_index ` set (known ns))"
  using assms
proof (induction olds news R I arbitrary: ns R' I' rule: match_rows.induct)
  case (1 old olds new news R I)
  have d: "distinct (map tv_index olds)" "npos \<notin> tv_index ` set olds" "distinct (map tv_index news)"
    "\<forall>n\<in>set news. prev_tv_index n = npos" "tv_index old \<notin> tv_index ` set olds"
    "tv_index new \<notin> tv_index ` set news" "tv_index old \<noteq> npos" "prev_tv_index new = npos"
    using 1(4-7) by auto
  have prev: "prev_tv_index ` set rs \<subseteq> tv_index ` set xs \<and> tv_index ` set rs \<subseteq> tv_index ` set ys"
    if "\<forall>r\<in>set rs. same_row r xs ys" for rs xs ys
    using that by (auto simp: same_row_def image_iff) metis+
  consider "row_index old = row_index new" | "row_index old < row_index new" | "row_index new < row_index old"
    by (rule linorder_cases)
  then show ?case
  proof cases
    case eq: 1
    obtain ns1 where e: "match_rows olds news R I = (ns1, R', I')"
      and ns: "ns = new\<lparr>prev_tv_index := tv_index old, shifted_tv_index := shifted_tv_index old\<rparr> # ns1"
      using eq 1(10) by (auto split: prod.splits)
    note IH = 1(1)[OF eq d(1-4) 1(8,9) e]
    have same: "\<forall>r\<in>set (known ns1). same_row r olds news" using IH by blast
    note p = prev[OF same]
    have "same_row r (old # olds) (new # news)" if "r \<in> set (known ns)" for r
      using that same eq d(7) by (auto simp: ns same_row_def)
    moreover have "tv_index old \<notin> prev_tv_index ` set (known ns1)" "tv_index new \<notin> tv_index ` set (known ns1)"
      using p d(5,6) by blast+
    ultimately show ?thesis using IH d(5-7) by (simp add: ns)
  next
    case lt: 2
    have e: "match_rows olds (new # news) (is_add R (tv_index old)) I = (ns, R', I')"
      using lt 1(10) by simp
    have wf: "crv_wf (is_add R (tv_index old))" using is_add_ok[OF 1(8)] by simp
    have ne: "row_index old \<noteq> row_index new" using lt by simp
    note IH = 1(2)[OF ne lt d(1,2) 1(6,7) wf 1(9) e]
    have same: "\<forall>r\<in>set (known ns). same_row r olds (new # news)" using IH by blast
    have "tv_index old \<notin> prev_tv_index ` set (known ns)" using prev[OF same] d(5) by blast
    moreover have "same_row r (old # olds) (new # news)" if "r \<in> set (known ns)" for r
      using same that by (auto intro: same_row_more)
    ultimately show ?thesis using IH is_add_ok[OF 1(8), of "tv_index old"] by (simp add: insert_Diff_if)
  next
    case gt: 3
    obtain ns1 where e: "match_rows (old # olds) news R (is_add I (tv_index new)) = (ns1, R', I')"
      and ns: "ns = new # ns1" using gt 1(10) by (auto split: prod.splits)
    have wf: "crv_wf (is_add I (tv_index new))" using is_add_ok[OF 1(9)] by simp
    have ne: "row_index old \<noteq> row_index new" "\<not> row_index old < row_index new" using gt by simp_all
    note IH = 1(3)[OF ne 1(4,5) d(3,4) 1(8) wf e]
    have same: "\<forall>r\<in>set (known ns1). same_row r (old # olds) news" using IH by blast
    have "tv_index new \<notin> tv_index ` set (known ns1)" using prev[OF same] d(6) by blast
    moreover have "same_row r (old # olds) (new # news)" if "r \<in> set (known ns1)" for r
      using same that by (auto intro: same_row_more)
    ultimately show ?thesis using IH is_add_ok[OF 1(9), of "tv_index new"] d(8)
      by (simp add: ns insert_Diff_if)
  qed
next
  case (2 olds R I)
  then show ?case using foldl_add_ok[of R "map tv_index olds"] by simp
next
  case (3 v va R I)
  have "known (v # va) = []" using 3(4) by (auto simp: known_def filter_empty_conv)
  then show ?case using 3 foldl_add_ok[of I "map tv_index (v # va)"] by (auto simp del: known_simps)
qed

section \<open>The shared rows\<close>

definition shared_rows :: "nat list \<Rightarrow> nat list \<Rightarrow> row_info list \<times> crv \<times> crv \<times> crv" where
  "shared_rows prev_rows next_rows =
     (let (old_rows, D) = collect_old prev_rows 0 0 [];
          (matched, removed, I) =
            match_rows (sort_key row_index old_rows) (sort_key row_index (collect_new next_rows)) [] []
      in (sort_key tv_index (known matched), removed, D, I))"

lemma sort_key_mset: "mset (map f (sort_key g xs)) = mset (map f xs)"
  by (simp only: mset_map mset_sort)

lemma distinct_sort_map: "distinct (map f (sort_key g xs)) = distinct (map f xs)"
  by (rule mset_eq_imp_distinct_iff) (rule sort_key_mset)

lemma collect_new_ok:
  "tv_index ` set (collect_new rows) = {..<length rows}" "distinct (map tv_index (collect_new rows))"
  "n \<in> set (collect_new rows) \<Longrightarrow> prev_tv_index n = npos \<and> row_index n = rows ! tv_index n"
proof -
  have "tv_index ` set (collect_new rows) = (\<lambda>i. i) ` {0..<length rows}"
    by (simp only: collect_new_def set_map set_upt image_image row_info.select_convs)
  then show "tv_index ` set (collect_new rows) = {..<length rows}" by auto
qed (auto simp: collect_new_def comp_def)

lemma shared_rows_ok:
  assumes "shared_rows prev nxt = (rows, removed, D, I)" and "length prev \<le> npos"
  shows "paired prev nxt rows \<and> sorted (map tv_index rows)"
    and "crv_wf D \<and> crv_wf removed \<and> crv_wf I"
    and "{..<length prev} - (indices D \<union> indices removed) = prev_tv_index ` set rows"
    and "{..<length nxt} - indices I = tv_index ` set rows"
    and "indices D \<union> indices removed \<subseteq> {..<length prev}" and "indices I \<subseteq> {..<length nxt}"
proof -
  obtain old_rows where c: "collect_old prev 0 0 [] = (old_rows, D)"
    using assms(1) by (auto simp: shared_rows_def split: prod.splits)
  define olds where "olds = sort_key row_index old_rows"
  define news where "news = sort_key row_index (collect_new nxt)"
  obtain matched where m: "match_rows olds news [] [] = (matched, removed, I)"
    and rows: "rows = sort_key tv_index (known matched)"
    using assms(1) c by (auto simp: shared_rows_def olds_def news_def split: prod.splits)
  have old: "crv_wf D" "indices D = {k. k < length prev \<and> prev ! k = npos}"
    "tv_index ` set old_rows = {k. k < length prev \<and> prev ! k \<noteq> npos}" "distinct (map tv_index old_rows)"
    "\<forall>r\<in>set old_rows. prev ! tv_index r = row_index r"
    using collect_old_ok[OF c] by simp_all
  note new = collect_new_ok[where rows = nxt]
  have o: "distinct (map tv_index olds)" "npos \<notin> tv_index ` set olds"
    unfolding olds_def distinct_sort_map set_sort by (rule old(4)) (use old(3) assms(2) in auto)
  have n: "distinct (map tv_index news)" "\<forall>n\<in>set news. prev_tv_index n = npos"
    unfolding news_def distinct_sort_map set_sort by (rule new(2)) (use new(3) in auto)
  note r = match_rows_ok[OF o n crv_wf_Nil crv_wf_Nil m]
  have same: "\<forall>q\<in>set rows. same_row q old_rows (collect_new nxt)"
    using r by (simp add: rows olds_def news_def same_row_def)
  have each: "prev_tv_index q \<in> tv_index ` set old_rows \<and> tv_index q < length nxt \<and>
      prev ! prev_tv_index q = row_index q \<and> nxt ! tv_index q = row_index q" if q: "q \<in> set rows" for q
  proof -
    obtain old new where on: "old \<in> set old_rows" "tv_index old = prev_tv_index q" "row_index old = row_index q"
      "new \<in> set (collect_new nxt)" "tv_index new = tv_index q" "row_index new = row_index q"
      using same q unfolding same_row_def by blast
    have "tv_index new < length nxt" using on(4) new(1) by blast
    with on old(5) new(3)[OF on(4)] show ?thesis by (metis imageI)
  qed
  have rset: "set rows = set (known matched)" by (simp add: rows)
  show "paired prev nxt rows \<and> sorted (map tv_index rows)"
    using r each old(3) unfolding paired_def
    by (simp add: rows distinct_sort_map)
  show "crv_wf D \<and> crv_wf removed \<and> crv_wf I" using r old(1) by simp
  have rem: "indices removed = tv_index ` set old_rows - prev_tv_index ` set rows"
    and ins: "indices I = tv_index ` set (collect_new nxt) - tv_index ` set rows"
    using r by (simp_all add: rset olds_def news_def)
  have sub: "prev_tv_index ` set rows \<subseteq> tv_index ` set old_rows" "tv_index ` set rows \<subseteq> {..<length nxt}"
    using each by auto
  show "{..<length prev} - (indices D \<union> indices removed) = prev_tv_index ` set rows"
    using sub(1) unfolding rem old(2,3) by auto
  show "{..<length nxt} - indices I = tv_index ` set rows" using sub(2) unfolding ins new(1) by auto
  show "indices D \<union> indices removed \<subseteq> {..<length prev}" unfolding rem old(2,3) by auto
  show "indices I \<subseteq> {..<length nxt}" unfolding ins new(1) by auto
qed

lemma calculate_shared:
  fixes did :: "nat \<Rightarrow> bool"
  assumes "shared_rows prev nxt = (rows, removed, D, I)"
  defines "M \<equiv> foldl is_add [] (map tv_index (filter (\<lambda>row. did (row_index row)) rows))"
  defines "ret \<equiv> (new_builder [] [] [] [])\<lparr>deletions := D, insertions := I, modifications := M\<rparr>"
  shows "calculate prev nxt did None =
      (let r = calculate_moves_sorted rows ret in r\<lparr>deletions := is_add_set (deletions r) removed\<rparr>)"
    and "calculate prev nxt did (Some cand) =
      (let (removed', r) = calculate_moves_unsorted rows removed cand ret
       in r\<lparr>deletions := is_add_set (deletions r) removed'\<rparr>)"
  using assms(1) unfolding calculate_def shared_rows_def M_def ret_def known_def
  by (auto simp: Let_def split: prod.splits)

lemma modified_rows:
  assumes "paired prev nxt rows"
  shows "crv_wf (foldl is_add [] (map tv_index (filter (\<lambda>row. did (row_index row)) rows)))"
    and "indices (foldl is_add [] (map tv_index (filter (\<lambda>row. did (row_index row)) rows))) =
      {j \<in> tv_index ` set rows. did (nxt ! j)}"
  using foldl_add_ok[OF crv_wf_Nil, of "map tv_index (filter (\<lambda>row. did (row_index row)) rows)"] assms
  by (auto simp: paired_def)

section \<open>The sorted calculation\<close>

lemma calculate_sorted_ok:
  assumes "length prev \<le> npos" and "length nxt \<le> npos" and "r = calculate prev nxt did None"
  shows "cb_ok r" and "moves r = []"
    and "indices (deletions r) \<subseteq> {..<length prev}" and "indices (insertions r) \<subseteq> {..<length nxt}"
    and "remaining prev (indices (deletions r)) = remaining nxt (indices (insertions r))"
    and "indices (modifications r) \<supseteq> {j. j < length nxt \<and> j \<notin> indices (insertions r) \<and> did (nxt ! j)}"
    and "indices (modifications r) \<subseteq> {j. j < length nxt \<and> did (nxt ! j)}"
    and "move_mapping r = []"
proof -
  obtain rows removed D I where s: "shared_rows prev nxt = (rows, removed, D, I)"
    by (cases "shared_rows prev nxt")
  note sh = shared_rows_ok[OF s assms(1)]
  let ?M = "foldl is_add [] (map tv_index (filter (\<lambda>row. did (row_index row)) rows))"
  let ?ret = "(new_builder [] [] [] [])\<lparr>deletions := D, insertions := I, modifications := ?M\<rparr>"
  have p: "paired prev nxt rows" using sh(1) by simp
  note M = modified_rows[OF p, of did]
  have "length rows \<le> length nxt"
  proof -
    have "length rows = card (tv_index ` set rows)"
      using p by (metis distinct_card length_map paired_def set_map)
    also have "\<dots> \<le> card {..<length nxt}" by (rule card_mono) (use p in \<open>auto simp: paired_def\<close>)
    finally show ?thesis by simp
  qed
  then have len: "length rows \<le> npos" using assms(2) by simp
  obtain D' I' where e: "calculate_moves_sorted rows ?ret = ?ret\<lparr>deletions := D', insertions := I'\<rparr>"
    and wf: "crv_wf D'" "crv_wf I'" and sub: "indices D' \<subseteq> indices D \<union> {..<length prev}"
    "indices I' \<subseteq> indices I \<union> {..<length nxt}" and eq: "remaining prev (indices D' \<union> indices removed) = remaining nxt (indices I')"
    and more: "indices I \<subseteq> indices I'"
    using moves_sorted_ok[OF p _ len, of ?ret "indices removed"] sh by auto
  have wr: "crv_wf removed" using sh(2) by simp
  note add = is_add_set_ok[OF wf(1) wr]
  have r: "r = ?ret\<lparr>deletions := is_add_set D' removed, insertions := I'\<rparr>"
    unfolding assms(3) calculate_shared(1)[OF s] e by (simp add: Let_def)
  have sets: "deletions r = is_add_set D' removed" "insertions r = I'" "modifications r = ?M" "columns r = []"
    "move_mapping r = []" by (simp_all add: r new_builder_def)
  show mv: "moves r = []" "move_mapping r = []" by (simp_all add: r new_builder_def)
  show "cb_ok r" using add(1) wf(2) M(1)
    by (simp add: cb_ok_def sets_ok_def sets moves_ok_def all_moves_def mv)
  show "indices (deletions r) \<subseteq> {..<length prev}" "indices (insertions r) \<subseteq> {..<length nxt}"
    using sub sh(5,6) unfolding sets add(2) by auto
  show "remaining prev (indices (deletions r)) = remaining nxt (indices (insertions r))"
    using eq unfolding sets add(2) .
  show "indices (modifications r) \<supseteq> {j. j < length nxt \<and> j \<notin> indices (insertions r) \<and> did (nxt ! j)}"
    "indices (modifications r) \<subseteq> {j. j < length nxt \<and> did (nxt ! j)}"
    using sh(4) more unfolding sets M(2) by auto
qed

section \<open>The unsorted calculation\<close>

lemma moves_unsorted_ok:
  assumes "crv_wf removed" and "crv_wf (insertions cs)"
    and "moves_unsorted rows expected cand removed cs = (removed', cs')"
  shows "\<exists>ms I. subseq ms rows \<and> crv_wf removed' \<and> crv_wf I \<and>
    cs' = cs\<lparr>moves := moves cs @ map (\<lambda>r. (prev_tv_index r, tv_index r)) ms, insertions := I\<rparr> \<and>
    indices removed' = indices removed \<union> prev_tv_index ` set ms \<and>
    indices I = indices (insertions cs) \<union> tv_index ` set ms"
  using assms
proof (induction rows arbitrary: expected removed cs)
  case Nil
  then show ?case by (intro exI[of _ "[]"] exI[of _ "insertions cs"]) simp
next
  case (Cons row rows)
  let ?P = "\<lambda>row rows removed cs. \<exists>ms I. subseq ms rows \<and> crv_wf removed' \<and> crv_wf I \<and>
    cs' = cs\<lparr>moves := moves cs @ map (\<lambda>r. (prev_tv_index r, tv_index r)) ms, insertions := I\<rparr> \<and>
    indices removed' = indices removed \<union> prev_tv_index ` set ms \<and>
    indices I = indices (insertions cs) \<union> tv_index ` set ms"
  have skip: ?case if "moves_unsorted rows expected' cand removed cs = (removed', cs')" for expected'
    using Cons.IH[OF Cons.prems(1,2) that] by (blast intro: list_emb_Cons)
  let ?c = "tv_index row - is_count (insertions cs) 0 (tv_index row) + is_count removed 0 (prev_tv_index row)"
  show ?case
  proof (cases "shifted_tv_index row = expected \<or> \<not> is_contains cand (row_index row) \<or> shifted_tv_index row = ?c")
    case True
    then obtain expected' where "moves_unsorted rows expected' cand removed cs = (removed', cs')"
      using Cons.prems(3) by (fastforce simp: Let_def split: if_splits)
    then show ?thesis by (rule skip)
  next
    case False
    let ?cs = "cs\<lparr>moves := moves cs @ [(prev_tv_index row, tv_index row)],
      insertions := is_add (insertions cs) (tv_index row)\<rparr>"
    have e: "moves_unsorted rows expected cand (is_add removed (prev_tv_index row)) ?cs = (removed', cs')"
      using False Cons.prems(3) by (simp add: Let_def)
    note a = is_add_ok[OF Cons.prems(1), of "prev_tv_index row"] is_add_ok[OF Cons.prems(2), of "tv_index row"]
    have wf: "crv_wf (is_add removed (prev_tv_index row))" "crv_wf (insertions ?cs)" using a by simp_all
    obtain ms I where r: "subseq ms rows" "crv_wf removed'" "crv_wf I"
      "cs' = ?cs\<lparr>moves := moves ?cs @ map (\<lambda>r. (prev_tv_index r, tv_index r)) ms, insertions := I\<rparr>"
      "indices removed' = indices (is_add removed (prev_tv_index row)) \<union> prev_tv_index ` set ms"
      "indices I = indices (insertions ?cs) \<union> tv_index ` set ms"
      using Cons.IH[OF wf e] by blast
    show ?thesis
      by (rule exI[of _ "row # ms"], rule exI[of _ I]) (use r a in simp)
  qed
qed

lemma image_mset_positions:
  "mset (remaining xs D) = image_mset (nth xs) (mset_set ({..<length xs} - D))"
proof -
  have "mset (filter (\<lambda>i. i \<notin> D) [0..<length xs]) = mset_set ({..<length xs} - D)"
    by (subst mset_set_set[symmetric]) (auto intro!: arg_cong[of _ _ mset_set])
  then show ?thesis by (simp add: remaining_def)
qed

lemma paired_positions:
  assumes "paired prev nxt rows" and "U \<subseteq> set rows"
  shows "image_mset (nth prev) (mset_set (prev_tv_index ` U)) = image_mset (nth nxt) (mset_set (tv_index ` U))"
proof -
  have inj: "inj_on prev_tv_index U" "inj_on tv_index U"
    using assms by (auto simp: paired_def distinct_map intro: inj_on_subset)
  have "image_mset (nth prev) (mset_set (prev_tv_index ` U)) = image_mset (\<lambda>r. prev ! prev_tv_index r) (mset_set U)"
    by (simp add: image_mset_mset_set[OF inj(1), symmetric] multiset.map_comp comp_def)
  also have "\<dots> = image_mset (\<lambda>r. nxt ! tv_index r) (mset_set U)"
    using assms finite_subset[OF assms(2)] by (intro image_mset_cong) (auto simp: paired_def)
  also have "\<dots> = image_mset (nth nxt) (mset_set (tv_index ` U))"
    by (simp add: image_mset_mset_set[OF inj(2), symmetric] multiset.map_comp comp_def)
  finally show ?thesis .
qed

lemma calculate_unsorted_ok:
  assumes "length prev \<le> npos" and "r = calculate prev nxt did (Some cand)"
  shows "cb_ok r"
    and "indices (deletions r) \<subseteq> {..<length prev}" and "indices (insertions r) \<subseteq> {..<length nxt}"
    and "\<forall>(f, t)\<in>set (moves r). prev ! f = nxt ! t"
    and "mset (remaining prev (indices (deletions r))) = mset (remaining nxt (indices (insertions r)))"
proof -
  obtain rows removed D I where s: "shared_rows prev nxt = (rows, removed, D, I)"
    by (cases "shared_rows prev nxt")
  note sh = shared_rows_ok[OF s assms(1)]
  let ?M = "foldl is_add [] (map tv_index (filter (\<lambda>row. did (row_index row)) rows))"
  let ?ret = "(new_builder [] [] [] [])\<lparr>deletions := D, insertions := I, modifications := ?M\<rparr>"
  have p: "paired prev nxt rows" using sh(1) by simp
  obtain removed' r1 where e: "calculate_moves_unsorted rows removed cand ?ret = (removed', r1)"
    by (cases "calculate_moves_unsorted rows removed cand ?ret")
  have wf: "crv_wf removed" "crv_wf D" "crv_wf (insertions ?ret)" using sh(2) by simp_all
  obtain ms I' where m: "subseq ms rows" "crv_wf removed'" "crv_wf I'"
    and r1: "r1 = ?ret\<lparr>moves := moves ?ret @ map (\<lambda>r. (prev_tv_index r, tv_index r)) ms, insertions := I'\<rparr>"
    and rem: "indices removed' = indices removed \<union> prev_tv_index ` set ms"
    and ins: "indices I' = indices (insertions ?ret) \<union> tv_index ` set ms"
    using moves_unsorted_ok[OF wf(1,3) e[unfolded calculate_moves_unsorted_def]] by blast
  have r: "r = ?ret\<lparr>moves := map (\<lambda>r. (prev_tv_index r, tv_index r)) ms, insertions := I',
      deletions := is_add_set D removed'\<rparr>"
    unfolding assms(2) calculate_shared(2)[OF s] e r1 by (simp add: Let_def new_builder_def)
  note add = is_add_set_ok[OF wf(2) m(2)]
  have sets: "deletions r = is_add_set D removed'" "insertions r = I'" "modifications r = ?M" "columns r = []"
    "move_mapping r = []" "moves r = map (\<lambda>r. (prev_tv_index r, tv_index r)) ms"
    by (simp_all add: r new_builder_def)
  have del: "indices (deletions r) = (indices D \<union> indices removed) \<union> prev_tv_index ` set ms"
    and ins': "indices (insertions r) = indices I \<union> tv_index ` set ms"
    unfolding sets add(2) rem ins by auto
  have msub: "set ms \<subseteq> set rows" using m(1) by (auto dest: list_emb_set)
  have dist: "distinct (map prev_tv_index ms)" "distinct (map tv_index ms)"
    using p m(1) by (auto simp: paired_def subseq_conv_nths nths_map[symmetric] distinct_nthsI)
  show "cb_ok r" using m(3) add(1) modified_rows(1)[OF p, of did] del ins' dist
    unfolding cb_ok_def sets_ok_def moves_ok_def all_moves_def sets by (auto simp: comp_def)
  show "indices (deletions r) \<subseteq> {..<length prev}" "indices (insertions r) \<subseteq> {..<length nxt}"
    unfolding del ins' using sh(5,6) p msub by (auto simp: paired_def)
  show "\<forall>(f, t)\<in>set (moves r). prev ! f = nxt ! t"
    using p msub by (auto simp: sets paired_def subset_iff)
  have inj: "inj_on prev_tv_index (set rows)" "inj_on tv_index (set rows)"
    using p by (simp_all add: paired_def distinct_map)
  have "{..<length prev} - indices (deletions r) = prev_tv_index ` (set rows - set ms)"
    unfolding del Diff_Un[of _ "indices D \<union> indices removed"] inj_on_image_set_diff[OF inj(1) Diff_subset msub]
    using sh(3) by blast
  moreover have "{..<length nxt} - indices (insertions r) = tv_index ` (set rows - set ms)"
    unfolding ins' Diff_Un[of _ "indices I"] inj_on_image_set_diff[OF inj(2) Diff_subset msub]
    using sh(4) by blast
  ultimately show "mset (remaining prev (indices (deletions r))) = mset (remaining nxt (indices (insertions r)))"
    unfolding image_mset_positions using paired_positions[OF p, of "set rows - set ms"] by simp
qed

end
