(* ===== verification/ChangeCalcSpec.thy ===== *)
theory ChangeCalcSpec imports ChangeCalcRows begin

text \<open>
  What a calculated change set promises: replaying it on the old row list gives the new one, a
  position of the old list is mapped to a position with the same row, and the modification marks
  are those of the changed rows.
\<close>

section \<open>Replaying\<close>





section \<open>Properties\<close>




text \<open>C5: For a query without a sort, every move the calculation records leads from a position of
  the old list to a position of the new list with the same row, the builder's invariant and
  \<open>verify\<close> hold, and the rows that are neither deleted nor inserted are the same in both lists.\<close>

theorem calculate_moves_same_row:
  assumes "length prev_rows \<le> npos"
  shows "cb_ok (calculate prev_rows next_rows row_did_change (Some candidates)) \<and>
    cb_verify (calculate prev_rows next_rows row_did_change (Some candidates)) \<and>
    (\<forall>m\<in>set (moves (calculate prev_rows next_rows row_did_change (Some candidates))).
      prev_rows ! fst m = next_rows ! snd m) \<and>
    mset (remaining prev_rows (indices (deletions (calculate prev_rows next_rows row_did_change (Some candidates))))) =
    mset (remaining next_rows (indices (insertions (calculate prev_rows next_rows row_did_change (Some candidates)))))"
  using calculate_unsorted_ok[OF assms refl, of next_rows row_did_change candidates] verify_of_ok by fastforce

theorem calculate_moves_same_row_witness:
  "cb_verify (calculate [4, 7, 5] [7, 5, 4] (\<lambda>_. True) (Some []))"
  using calculate_moves_same_row[of "[4, 7, 5]" "[7, 5, 4]" "\<lambda>_. True" "[]"] by (simp add: npos_def)

text \<open>C4: The search for a matching block returns a block of equal rows inside the searched
  windows, and no common block of the windows is longer.\<close>

theorem find_longest_match_longest:
  assumes "begin1 \<le> end1" "end1 \<le> length a" and "begin2 \<le> end2" "end2 \<le> length rows"
    and "b = sort_key (\<lambda>r. (lcs_row_index r, lcs_tv_index r))
      (map (\<lambda>i. \<lparr>lcs_row_index = row_index (rows ! i), lcs_tv_index = i\<rparr>) [0..<length rows])"
    and "m = find_longest_match modified a b begin1 end1 begin2 end2"
  shows "block_ok (map lcs_row_index a) (map row_index rows) begin1 end1 begin2 end2 m \<and>
    (\<forall>p q l. begin1 \<le> p \<and> p + l \<le> end1 \<and> begin2 \<le> q \<and> q + l \<le> end2 \<and>
      common_block (map lcs_row_index a) (map row_index rows) p q l \<longrightarrow> l \<le> m_size m)"
proof -
  have rb: "rows_sorted b (map row_index rows)" unfolding assms(5) by (rule rows_sorted_b)
  have e: "end2 \<le> length (map row_index rows)" using assms(4) by simp
  note f = find_longest_ok[OF assms(1-3) e rb assms(6)]
  show ?thesis using f by blast
qed

theorem find_longest_match_longest_witness:
  "m_size (find_longest_match [] [\<lparr>lcs_row_index = 4, lcs_tv_index = 0\<rparr>, \<lparr>lcs_row_index = 7, lcs_tv_index = 1\<rparr>]
    (sort_key (\<lambda>r. (lcs_row_index r, lcs_tv_index r))
      (map (\<lambda>i. \<lparr>lcs_row_index = row_index (collect_new [5, 4, 7] ! i), lcs_tv_index = i\<rparr>)
        [0..<length (collect_new [5, 4, 7])])) 0 2 0 3) = 2"
  (is "m_size ?m = 2")
proof -
  have r: "map row_index (collect_new [5, 4, 7]) = [5, 4, 7]" "length (collect_new [5, 4, 7]) = 3"
    by (simp_all add: collect_new_def upt_rec)
  note l = find_longest_match_longest[OF _ _ _ _ refl refl, of 0 2
    "[\<lparr>lcs_row_index = 4, lcs_tv_index = 0\<rparr>, \<lparr>lcs_row_index = 7, lcs_tv_index = 1\<rparr>]" 0 3 "collect_new [5, 4, 7]" "[]"]
  have b: "common_block [4, 7] [5, 4, 7] 0 1 2"
    by (simp add: common_block_def less_Suc_eq numeral_2_eq_2)
  have "block_ok [4, 7] [5, 4, 7] 0 2 0 3 ?m" using l r by simp
  moreover have "2 \<le> m_size ?m"
  proof -
    from l r have "\<forall>p q l. p + l \<le> 2 \<and> q + l \<le> 3 \<and> common_block [4, 7] [5, 4, 7] p q l \<longrightarrow> l \<le> m_size ?m"
      by simp
    from this[THEN spec[of _ 0], THEN spec[of _ 1], THEN spec[of _ 2]] b show ?thesis by simp
  qed
  ultimately show ?thesis by (simp add: block_ok_def)
qed


end
