(* ===== verification/SyncError.thy ===== *)
theory SyncError imports Main begin

text \<open>
  The errors a sync session receives (\<open>ProtocolError\<close>, \<open>Client::Error\<close> and
  \<open>SyncError\<close>).  The enumerations carry the numeric values of the protocol; an error code
  is a category with an integer, which need not be a declared value.
\<close>

section \<open>Protocol errors\<close>

datatype protocol_error =
  connection_closed | other_error | unknown_message | bad_syntax | limits_exceeded
| wrong_protocol_version | bad_session_ident | reuse_of_session_ident | bound_in_other_session
| bad_message_order | bad_decompression | bad_changeset_header_syntax | bad_changeset_size
| bad_changesets
| session_closed | other_session_error | token_expired | bad_authentication | illegal_realm_path
| no_such_realm | permission_denied | bad_server_file_ident | bad_client_file_ident
| bad_server_version | bad_client_version | diverging_histories | bad_changeset | disabled_session
| partial_sync_disabled | unsupported_session_feature | bad_origin_file_ident | bad_client_file
| server_file_deleted | client_file_blacklisted | user_blacklisted | transact_before_upload

definition protocol_errors :: "(int \<times> protocol_error) list" where
  "protocol_errors =
     [(100, connection_closed), (101, other_error), (102, unknown_message), (103, bad_syntax),
      (104, limits_exceeded), (105, wrong_protocol_version), (106, bad_session_ident),
      (107, reuse_of_session_ident), (108, bound_in_other_session), (109, bad_message_order),
      (110, bad_decompression), (111, bad_changeset_header_syntax), (112, bad_changeset_size),
      (113, bad_changesets),
      (200, session_closed), (201, other_session_error), (202, token_expired),
      (203, bad_authentication), (204, illegal_realm_path), (205, no_such_realm),
      (206, permission_denied), (207, bad_server_file_ident), (208, bad_client_file_ident),
      (209, bad_server_version), (210, bad_client_version), (211, diverging_histories),
      (212, bad_changeset), (213, disabled_session), (214, partial_sync_disabled),
      (215, unsupported_session_feature), (216, bad_origin_file_ident), (217, bad_client_file),
      (218, server_file_deleted), (219, client_file_blacklisted), (220, user_blacklisted),
      (221, transact_before_upload)]"

definition protocol_code :: "protocol_error \<Rightarrow> int" where
  "protocol_code e = (case map_of (map prod.swap protocol_errors) e of Some c \<Rightarrow> c | None \<Rightarrow> 0)"

definition protocol_error_of :: "int \<Rightarrow> protocol_error option" where
  "protocol_error_of c = map_of protocol_errors c"

definition is_session_level_error :: "int \<Rightarrow> bool" where
  "is_session_level_error c \<longleftrightarrow> 200 \<le> c \<and> c \<le> 299"

lemma protocol_code_roundtrip [simp]: "protocol_error_of (protocol_code e) = Some e"
  by (cases e) (simp_all add: protocol_error_of_def protocol_code_def protocol_errors_def)

lemma protocol_code_inj: "protocol_code e = protocol_code f \<longleftrightarrow> e = f"
  by (metis option.inject protocol_code_roundtrip)

text \<open>The enumeration is ordered by its values, as the range test above uses it.\<close>

instantiation protocol_error :: linorder
begin

definition less_eq_protocol_error :: "protocol_error \<Rightarrow> protocol_error \<Rightarrow> bool" where
  "e \<le> f \<longleftrightarrow> protocol_code e \<le> protocol_code f"

definition less_protocol_error :: "protocol_error \<Rightarrow> protocol_error \<Rightarrow> bool" where
  "e < f \<longleftrightarrow> protocol_code e < protocol_code f"

instance
  by standard (auto simp: less_eq_protocol_error_def less_protocol_error_def protocol_code_inj[symmetric])

end

lemma session_level_order: "is_session_level_error (protocol_code e) \<longleftrightarrow> session_closed \<le> e"
  by (cases e) (simp_all add: is_session_level_error_def less_eq_protocol_error_def protocol_code_def
    protocol_errors_def)

section \<open>Client errors\<close>

datatype client_error =
  connection_closed | unknown_message | bad_syntax | limits_exceeded | bad_session_ident
| bad_message_order | bad_client_file_ident | bad_progress | bad_changeset_header_syntax
| bad_changeset_size | bad_origin_file_ident | bad_server_version | bad_changeset
| bad_request_ident | bad_error_code | bad_compression | bad_client_version
| ssl_server_cert_rejected | pong_timeout | bad_client_file_ident_salt | bad_file_ident
| connect_timeout | bad_timestamp | bad_protocol_from_server | client_too_old_for_server
| client_too_new_for_server | protocol_mismatch | bad_state_message | missing_protocol_feature
| bad_serial_transact_status | bad_object_id_substitutions | http_tunnel_failed

definition client_errors :: "client_error list" where
  "client_errors =
     [client_error.connection_closed, client_error.unknown_message, client_error.bad_syntax,
      client_error.limits_exceeded, client_error.bad_session_ident, client_error.bad_message_order,
      client_error.bad_client_file_ident, bad_progress, client_error.bad_changeset_header_syntax,
      client_error.bad_changeset_size, client_error.bad_origin_file_ident,
      client_error.bad_server_version, client_error.bad_changeset, bad_request_ident,
      bad_error_code, bad_compression, client_error.bad_client_version, ssl_server_cert_rejected,
      pong_timeout, bad_client_file_ident_salt, bad_file_ident, connect_timeout, bad_timestamp,
      bad_protocol_from_server, client_too_old_for_server, client_too_new_for_server,
      protocol_mismatch, bad_state_message, missing_protocol_feature, bad_serial_transact_status,
      bad_object_id_substitutions, http_tunnel_failed]"

text \<open>The values run from 100 in the order of the declaration.\<close>

definition client_error_of :: "int \<Rightarrow> client_error option" where
  "client_error_of c =
     (if 100 \<le> c \<and> c < 100 + int (length client_errors) then Some (client_errors ! nat (c - 100)) else None)"

section \<open>Sync errors\<close>

datatype error_code = Protocol_code int | Client_code int | Foreign_code string int

record sync_error =
  error_code :: error_code
  message :: string
  is_fatal :: bool
  user_info :: "(string \<times> string) list"
  is_unrecognized_by_client :: bool

definition sync_error_new :: "error_code \<Rightarrow> string \<Rightarrow> bool \<Rightarrow> sync_error" where
  "sync_error_new code msg fatal =
     \<lparr>error_code = code, message = msg, is_fatal = fatal, user_info = [], is_unrecognized_by_client = False\<rparr>"

definition is_client_error :: "sync_error \<Rightarrow> bool" where
  "is_client_error e \<longleftrightarrow> (case error_code e of Client_code _ \<Rightarrow> True | _ \<Rightarrow> False)"

definition is_connection_level_protocol_error :: "sync_error \<Rightarrow> bool" where
  "is_connection_level_protocol_error e \<longleftrightarrow>
     (case error_code e of Protocol_code c \<Rightarrow> \<not> is_session_level_error c | _ \<Rightarrow> False)"

definition is_session_level_protocol_error :: "sync_error \<Rightarrow> bool" where
  "is_session_level_protocol_error e \<longleftrightarrow>
     (case error_code e of Protocol_code c \<Rightarrow> is_session_level_error c | _ \<Rightarrow> False)"

definition is_client_reset_requested :: "sync_error \<Rightarrow> bool" where
  "is_client_reset_requested e \<longleftrightarrow>
     (case error_code e of
        Protocol_code c \<Rightarrow>
          c = protocol_code protocol_error.bad_server_file_ident \<or>
          c = protocol_code protocol_error.bad_client_file_ident \<or>
          c = protocol_code protocol_error.bad_server_version \<or>
          c = protocol_code diverging_histories
      | _ \<Rightarrow> False)"

lemma client_reset_session_level: "is_client_reset_requested e \<Longrightarrow> is_session_level_protocol_error e"
  by (auto simp: is_client_reset_requested_def is_session_level_protocol_error_def is_session_level_error_def
    protocol_code_def protocol_errors_def split: error_code.splits)

lemma error_levels:
  "is_client_error e \<Longrightarrow> \<not> is_connection_level_protocol_error e \<and> \<not> is_session_level_protocol_error e"
  by (auto simp: is_client_error_def is_connection_level_protocol_error_def
    is_session_level_protocol_error_def split: error_code.splits)

end
