(* ===== verification/SyncProgress.thy ===== *)
theory SyncProgress imports Main begin

text \<open>
  \<open>SyncProgressNotifier\<close>: registered callbacks are told how many bytes have been transferred.
  A streaming notifier always reports the current totals; the others report against the total at
  the time of their registration and expire once it is reached.  A callback is a number; running
  one yields the triple of the callback, the transferred and the transferrable bytes.  The 64 bit
  counters are only compared, never added.
\<close>

section \<open>State\<close>

datatype direction = Upload | Download

record progress =
  uploadable :: nat
  downloadable :: nat
  uploaded :: nat
  downloaded :: nat
  snapshot_version :: nat

record notifier_package =
  notifier :: nat
  captured_transferrable :: "nat option"
  package_version :: nat
  is_streaming :: bool
  is_download :: bool

record progress_notifier =
  progress_token :: nat
  local_transaction_version :: nat
  current_progress :: "progress option"
  packages :: "(nat \<times> notifier_package) list"

type_synonym invocation = "nat \<times> nat \<times> nat"

definition progress_notifier_new :: progress_notifier where
  "progress_notifier_new =
     \<lparr>progress_token = 1, local_transaction_version = 0, current_progress = None, packages = []\<rparr>"

section \<open>Operations\<close>

definition opt_list :: "'a option \<Rightarrow> 'a list" where
  "opt_list v = (case v of Some x \<Rightarrow> [x] | None \<Rightarrow> [])"

lemma opt_list_simps [simp]: "opt_list None = []" "opt_list (Some x) = [x]"
  by (simp_all add: opt_list_def)

text \<open>The invocation, whether the package is expired, and the package with its captured total.\<close>

definition create_invocation ::
  "progress \<Rightarrow> notifier_package \<Rightarrow> invocation option \<times> bool \<times> notifier_package" where
  "create_invocation cur pkg =
     (let transferred = (if is_download pkg then downloaded cur else uploaded cur);
          run = (\<lambda>pkg transferrable.
            (Some (notifier pkg, transferred, transferrable),
             \<not> is_streaming pkg \<and> transferrable \<le> transferred, pkg))
      in if is_streaming pkg
         then run pkg (if is_download pkg then downloadable cur else uploadable cur)
         else
           (case captured_transferrable pkg of
              Some t \<Rightarrow> run pkg t
            | None \<Rightarrow>
                if is_download pkg
                then run (pkg\<lparr>captured_transferrable := Some (downloadable cur)\<rparr>) (downloadable cur)
                else if snapshot_version cur < package_version pkg then (None, False, pkg)
                else run (pkg\<lparr>captured_transferrable := Some (uploadable cur)\<rparr>) (uploadable cur)))"

definition register_callback ::
  "nat \<Rightarrow> direction \<Rightarrow> bool \<Rightarrow> progress_notifier \<Rightarrow> nat \<times> invocation list \<times> progress_notifier" where
  "register_callback cb dir streaming n =
     (let token = progress_token n;
          n1 = n\<lparr>progress_token := token + 1\<rparr>;
          pkg = \<lparr>notifier = cb, captured_transferrable = None,
                 package_version = local_transaction_version n, is_streaming = streaming,
                 is_download = (dir = Download)\<rparr>
      in case current_progress n of
           None \<Rightarrow> (token, [], n1\<lparr>packages := packages n1 @ [(token, pkg)]\<rparr>)
         | Some cur \<Rightarrow>
             let (call, expired, pkg') = create_invocation cur pkg
             in if expired then (0, opt_list call, n1)
                else (token, opt_list call, n1\<lparr>packages := packages n1 @ [(token, pkg')]\<rparr>))"

definition unregister_callback :: "nat \<Rightarrow> progress_notifier \<Rightarrow> progress_notifier" where
  "unregister_callback token n = n\<lparr>packages := filter (\<lambda>p. fst p \<noteq> token) (packages n)\<rparr>"

fun run_packages ::
  "progress \<Rightarrow> (nat \<times> notifier_package) list \<Rightarrow> invocation list \<times> (nat \<times> notifier_package) list" where
  "run_packages cur [] = ([], [])"
| "run_packages cur ((token, pkg) # ps) =
     (let (call, expired, pkg') = create_invocation cur pkg;
          (invs, ps') = run_packages cur ps
      in (opt_list call @ invs, if expired then ps' else (token, pkg') # ps'))"

definition update ::
  "nat \<Rightarrow> nat \<Rightarrow> nat \<Rightarrow> nat \<Rightarrow> nat \<Rightarrow> nat \<Rightarrow> progress_notifier \<Rightarrow> invocation list \<times> progress_notifier" where
  "update down downable up upable download_version snapshot n =
     (if download_version = 0 then ([], n)
      else
        let cur = \<lparr>uploadable = upable, downloadable = downable, uploaded = up, downloaded = down,
                   snapshot_version = snapshot\<rparr>;
            (invs, ps) = run_packages cur (packages n)
        in (invs, n\<lparr>current_progress := Some cur, packages := ps\<rparr>))"

definition set_local_version :: "nat \<Rightarrow> progress_notifier \<Rightarrow> progress_notifier" where
  "set_local_version v n = n\<lparr>local_transaction_version := v\<rparr>"

section \<open>Tokens\<close>

definition tokens_ok :: "progress_notifier \<Rightarrow> bool" where
  "tokens_ok n \<longleftrightarrow> 0 < progress_token n \<and> distinct (map fst (packages n)) \<and>
     (\<forall>t\<in>fst ` set (packages n). 0 < t \<and> t < progress_token n)"

lemma create_invocation_keeps:
  "create_invocation cur pkg = (call, e, pkg') \<Longrightarrow>
     notifier pkg' = notifier pkg \<and> is_streaming pkg' = is_streaming pkg \<and> is_download pkg' = is_download pkg \<and>
     package_version pkg' = package_version pkg \<and>
     (captured_transferrable pkg \<noteq> None \<longrightarrow> captured_transferrable pkg' = captured_transferrable pkg)"
  by (auto simp: create_invocation_def Let_def split: if_splits option.splits)

lemma streaming_never_expires:
  "create_invocation cur pkg = (call, e, pkg') \<Longrightarrow> is_streaming pkg \<Longrightarrow> \<not> e \<and> call \<noteq> None \<and> pkg' = pkg"
  by (auto simp: create_invocation_def Let_def split: if_splits)

lemma run_packages_eq:
  "run_packages cur ps =
     (concat (map (\<lambda>p. opt_list (fst (create_invocation cur (snd p)))) ps),
      map (\<lambda>p. (fst p, snd (snd (create_invocation cur (snd p)))))
        (filter (\<lambda>p. \<not> fst (snd (create_invocation cur (snd p)))) ps))"
  by (induction ps) (auto split: prod.splits)

lemma run_packages_tokens:
  "map fst (snd (run_packages cur ps)) = map fst (filter (\<lambda>p. \<not> fst (snd (create_invocation cur (snd p)))) ps)"
  by (simp add: run_packages_eq comp_def)

lemma update_tokens: "tokens_ok n \<Longrightarrow> tokens_ok (snd (update a b c d v s n))"
proof -
  assume ok: "tokens_ok n"
  let ?cur = "\<lparr>uploadable = d, downloadable = b, uploaded = c, downloaded = a, snapshot_version = s\<rparr>"
  note t = run_packages_tokens[of ?cur "packages n"]
  have "distinct (map fst (snd (run_packages ?cur (packages n))))"
    unfolding t using ok by (simp add: tokens_ok_def distinct_map_filter)
  moreover have "fst ` set (snd (run_packages ?cur (packages n))) \<subseteq> fst ` set (packages n)"
    using arg_cong[OF t, of set] by auto
  moreover have "snd (update a b c d v s n) = (if v = 0 then n else
      n\<lparr>current_progress := Some ?cur, packages := snd (run_packages ?cur (packages n))\<rparr>)"
    by (simp add: update_def Let_def split: prod.split)
  moreover have "\<forall>t\<in>fst ` set (snd (run_packages ?cur (packages n))). 0 < t \<and> t < progress_token n"
    using ok calculation(2) unfolding tokens_ok_def by blast
  ultimately show ?thesis using ok by (simp add: tokens_ok_def)
qed

lemma register_tokens:
  assumes "tokens_ok n" and "register_callback cb dir streaming n = (t, invs, n')"
  shows "tokens_ok n' \<and> t \<notin> fst ` set (packages n) \<and> (t = 0 \<or> t \<in> fst ` set (packages n'))"
proof -
  have 0: "fst p < Suc (progress_token n)" if "p \<in> set (packages n)" for p
    using assms(1) that by (fastforce simp: tokens_ok_def)
  have 1: "progress_token n \<notin> fst ` set (packages n)" "0 \<notin> fst ` set (packages n)"
    using assms(1) by (auto simp: tokens_ok_def)
  show ?thesis using assms 0 1
    by (auto simp: register_callback_def Let_def tokens_ok_def image_iff split: option.splits prod.splits if_splits)
qed

lemma unregister_tokens: "tokens_ok n \<Longrightarrow> tokens_ok (unregister_callback t n)"
  by (auto simp: unregister_callback_def tokens_ok_def distinct_map_filter)

section \<open>One package by itself\<close>

text \<open>
  The reports of a single package over a sequence of progress values: what a callback is told
  does not depend on the other packages.
\<close>

fun package_reports :: "notifier_package \<Rightarrow> progress list \<Rightarrow> invocation list" where
  "package_reports pkg [] = []"
| "package_reports pkg (cur # curs) =
     (let (call, expired, pkg') = create_invocation cur pkg
      in opt_list call @ (if expired then [] else package_reports pkg' curs))"

fun run_all :: "progress list \<Rightarrow> (nat \<times> notifier_package) list \<Rightarrow> invocation list" where
  "run_all [] ps = []"
| "run_all (cur # curs) ps = (let (invs, ps') = run_packages cur ps in invs @ run_all curs ps')"

lemma run_all_Cons [simp]:
  "run_all (cur # curs) ps = fst (run_packages cur ps) @ run_all curs (snd (run_packages cur ps))"
  by (simp add: case_prod_beta)

declare run_all.simps(2) [simp del]

definition calls_of :: "nat \<Rightarrow> invocation list \<Rightarrow> invocation list" where
  "calls_of cb invs = filter (\<lambda>i. fst i = cb) invs"

lemma invocation_callback: "i \<in> set (opt_list (fst (create_invocation cur pkg))) \<Longrightarrow> fst i = notifier pkg"
  by (auto simp: create_invocation_def Let_def split: if_splits option.splits)

lemma next_package_callback [simp]: "notifier (snd (snd (create_invocation cur pkg))) = notifier pkg"
  using create_invocation_keeps by (metis prod.collapse)

lemma filter_concat_key:
  assumes "\<And>p i. i \<in> set (f p) \<Longrightarrow> fst i = g p"
  shows "k \<notin> g ` set ps \<Longrightarrow> filter (\<lambda>i. fst i = k) (concat (map f ps)) = []"
    and "distinct (map g ps) \<Longrightarrow> p \<in> set ps \<Longrightarrow> filter (\<lambda>i. fst i = g p) (concat (map f ps)) = f p"
proof -
  have none: "filter (\<lambda>i. fst i = k) (concat (map f qs)) = []" if "k \<notin> g ` set qs" for k qs
    using that assms by (fastforce simp: filter_empty_conv)
  show "k \<notin> g ` set ps \<Longrightarrow> filter (\<lambda>i. fst i = k) (concat (map f ps)) = []" by (rule none)
  show "distinct (map g ps) \<Longrightarrow> p \<in> set ps \<Longrightarrow> filter (\<lambda>i. fst i = g p) (concat (map f ps)) = f p"
  proof (induction ps)
    case (Cons q ps)
    show ?case
    proof (cases "p = q")
      case True
      have "filter (\<lambda>i. fst i = g q) (f q) = f q" using assms by (auto simp: filter_id_conv)
      with True Cons.prems none[of "g q" ps] show ?thesis by simp
    next
      case False
      then have "g q \<noteq> g p" using Cons.prems by auto
      then have "filter (\<lambda>i. fst i = g p) (f q) = []" using assms by (auto simp: filter_empty_conv)
      with False Cons show ?thesis by simp
    qed
  qed simp
qed

lemma run_packages_single:
  assumes "distinct (map (\<lambda>p. notifier (snd p)) ps)" and "(t, pkg) \<in> set ps"
    and "create_invocation cur pkg = (call, e, pkg')"
  shows "calls_of (notifier pkg) (fst (run_packages cur ps)) = opt_list call"
    and "distinct (map (\<lambda>p. notifier (snd p)) (snd (run_packages cur ps)))"
    and "\<not> e \<Longrightarrow> (t, pkg') \<in> set (snd (run_packages cur ps))"
    and "e \<Longrightarrow> notifier pkg \<notin> (\<lambda>p. notifier (snd p)) ` set (snd (run_packages cur ps))"
proof -
  let ?f = "\<lambda>p. opt_list (fst (create_invocation cur (snd p)))"
  have key: "\<And>p i. i \<in> set (?f p) \<Longrightarrow> fst i = notifier (snd p)" by (rule invocation_callback)
  from filter_concat_key(2)[of ?f, OF key assms(1,2)] assms(3)
  show "calls_of (notifier pkg) (fst (run_packages cur ps)) = opt_list call"
    by (simp add: calls_of_def run_packages_eq)
  show "distinct (map (\<lambda>p. notifier (snd p)) (snd (run_packages cur ps)))"
    using assms(1) by (simp add: run_packages_eq comp_def distinct_map_filter)
  show "\<not> e \<Longrightarrow> (t, pkg') \<in> set (snd (run_packages cur ps))"
    using assms(2,3) by (force simp: run_packages_eq image_iff)
  show "e \<Longrightarrow> notifier pkg \<notin> (\<lambda>p. notifier (snd p)) ` set (snd (run_packages cur ps))"
  proof
    assume e: "e" and "notifier pkg \<in> (\<lambda>p. notifier (snd p)) ` set (snd (run_packages cur ps))"
    then obtain q where q: "q \<in> set ps" "\<not> fst (snd (create_invocation cur (snd q)))" "notifier (snd q) = notifier pkg"
      by (auto simp: run_packages_eq)
    have "inj_on (\<lambda>p. notifier (snd p)) (set ps)" using assms(1) by (simp add: distinct_map)
    from inj_onD[OF this _ q(1) assms(2)] q(3) have "q = (t, pkg)" by simp
    with q(2) e assms(3) show False by simp
  qed
qed

lemma run_all_none:
  "cb \<notin> (\<lambda>p. notifier (snd p)) ` set ps \<Longrightarrow> calls_of cb (run_all curs ps) = []"
proof (induction curs arbitrary: ps)
  case (Cons cur curs)
  let ?f = "\<lambda>p. opt_list (fst (create_invocation cur (snd p)))"
  have key: "\<And>p i. i \<in> set (?f p) \<Longrightarrow> fst i = notifier (snd p)" by (rule invocation_callback)
  have "calls_of cb (fst (run_packages cur ps)) = []"
    using filter_concat_key(1)[of ?f, OF key Cons.prems] by (simp add: calls_of_def run_packages_eq)
  moreover have "cb \<notin> (\<lambda>p. notifier (snd p)) ` set (snd (run_packages cur ps))"
    using Cons.prems by (fastforce simp: run_packages_eq image_iff)
  ultimately show ?case using Cons.IH by (simp add: calls_of_def)
qed (simp add: calls_of_def)

lemma run_all_single:
  "distinct (map (\<lambda>p. notifier (snd p)) ps) \<Longrightarrow> (t, pkg) \<in> set ps \<Longrightarrow>
     calls_of (notifier pkg) (run_all curs ps) = package_reports pkg curs"
proof (induction curs arbitrary: ps pkg)
  case (Cons cur curs)
  obtain call e pkg' where c: "create_invocation cur pkg = (call, e, pkg')" by (cases "create_invocation cur pkg")
  note s = run_packages_single[OF Cons.prems c]
  have "calls_of (notifier pkg) (run_all curs (snd (run_packages cur ps))) = (if e then [] else package_reports pkg' curs)"
  proof (cases e)
    case False
    have "notifier pkg' = notifier pkg" using create_invocation_keeps[OF c] by simp
    with Cons.IH[OF s(2) s(3)[OF False]] False show ?thesis by simp
  qed (use run_all_none s(4) in simp)
  with s(1) c show ?case by (simp add: calls_of_def)
qed (simp add: calls_of_def)

text \<open>The reports of a notifier that has captured its amount.\<close>

fun captured_reports :: "nat \<Rightarrow> bool \<Rightarrow> nat \<Rightarrow> progress list \<Rightarrow> invocation list" where
  "captured_reports cb down amount [] = []"
| "captured_reports cb down amount (cur # curs) =
     (let done_bytes = (if down then downloaded cur else uploaded cur)
      in (cb, done_bytes, amount) # (if amount \<le> done_bytes then [] else captured_reports cb down amount curs))"

lemma reports_captured:
  "\<not> is_streaming pkg \<Longrightarrow> captured_transferrable pkg = Some amount \<Longrightarrow>
     package_reports pkg curs = captured_reports (notifier pkg) (is_download pkg) amount curs"
  by (induction curs) (auto simp: create_invocation_def Let_def)

lemma reports_download:
  "\<not> is_streaming pkg \<Longrightarrow> captured_transferrable pkg = None \<Longrightarrow> is_download pkg \<Longrightarrow>
     package_reports pkg (cur # curs) = captured_reports (notifier pkg) True (downloadable cur) (cur # curs)"
  by (simp add: create_invocation_def Let_def reports_captured)

lemma reports_upload:
  "\<not> is_streaming pkg \<Longrightarrow> captured_transferrable pkg = None \<Longrightarrow> \<not> is_download pkg \<Longrightarrow>
     package_reports pkg curs =
       (case dropWhile (\<lambda>cur. snapshot_version cur < package_version pkg) curs of
          [] \<Rightarrow> []
        | cur # rest \<Rightarrow> captured_reports (notifier pkg) False (uploadable cur) (cur # rest))"
  by (induction curs) (auto simp: create_invocation_def Let_def reports_captured)

lemma reports_streaming:
  "is_streaming pkg \<Longrightarrow>
     package_reports pkg curs =
       map (\<lambda>cur. if is_download pkg then (notifier pkg, downloaded cur, downloadable cur)
                  else (notifier pkg, uploaded cur, uploadable cur)) curs"
  by (induction curs) (auto simp: create_invocation_def Let_def)

section \<open>A sequence of updates\<close>

text \<open>The invocations a sequence of progress messages causes.\<close>

fun deliver :: "progress list \<Rightarrow> progress_notifier \<Rightarrow> invocation list" where
  "deliver [] n = []"
| "deliver (cur # curs) n =
     (let (invs, n') = update (downloaded cur) (downloadable cur) (uploaded cur) (uploadable cur) 1
            (snapshot_version cur) n
      in invs @ deliver curs n')"

lemma deliver_run_all: "deliver curs n = run_all curs (packages n)"
proof (induction curs arbitrary: n)
  case (Cons cur curs)
  have c: "\<lparr>uploadable = uploadable cur, downloadable = downloadable cur, uploaded = uploaded cur,
      downloaded = downloaded cur, snapshot_version = snapshot_version cur\<rparr> = cur" by simp
  show ?case using Cons.IH by (simp add: update_def Let_def c case_prod_beta)
qed simp

end
