(* ===== verification/SyncConnection.thy ===== *)
theory SyncConnection imports Prelude "HOL-Library.Sublist" begin

text \<open>
  \<open>ConnectionChangeNotifier\<close>: a list of callbacks with an index that stays valid while the
  callbacks add and remove callbacks.  The index and the count are \<open>size_t\<close> values that
  start at \<open>npos\<close> and wrap around.  What a callback does to the notifier while it runs is
  the parameter \<open>beh\<close>; a callback is a number.  The loop reads \<open>m_callbacks\<close> without
  a bounds check, so an index past the end is an error of its own.
\<close>

section \<open>State\<close>

record connection_notifier =
  callbacks :: "(nat \<times> nat) list"
  callback_index :: nat
  callback_count :: nat
  next_token :: nat

datatype callback_action = Add_callback nat | Remove_callback nat

datatype notify_error = Out_of_range

definition connection_notifier_new :: connection_notifier where
  "connection_notifier_new = \<lparr>callbacks = [], callback_index = npos, callback_count = npos, next_token = 0\<rparr>"

definition up :: "nat \<Rightarrow> nat" where
  "up i = (if i = npos then 0 else i + 1)"

definition down :: "nat \<Rightarrow> nat" where
  "down i = (if i = 0 then npos else i - 1)"

section \<open>Operations\<close>

definition add_callback :: "nat \<Rightarrow> connection_notifier \<Rightarrow> nat \<times> connection_notifier" where
  "add_callback f n =
     (next_token n, n\<lparr>next_token := next_token n + 1, callbacks := callbacks n @ [(f, next_token n)]\<rparr>)"

definition remove_callback :: "nat \<Rightarrow> connection_notifier \<Rightarrow> connection_notifier" where
  "remove_callback token n =
     (let idx = length (takeWhile (\<lambda>c. snd c \<noteq> token) (callbacks n))
      in if idx = length (callbacks n) then n
         else n\<lparr>callback_index := (if callback_index n \<noteq> npos \<and> idx \<le> callback_index n
                                    then down (callback_index n) else callback_index n),
                callback_count := down (callback_count n),
                callbacks := take idx (callbacks n) @ drop (idx + 1) (callbacks n)\<rparr>)"

fun run_action :: "callback_action \<Rightarrow> connection_notifier \<Rightarrow> connection_notifier" where
  "run_action (Add_callback f) n = snd (add_callback f n)"
| "run_action (Remove_callback token) n = remove_callback token n"

partial_function (option) invoke_loop ::
  "(nat \<Rightarrow> callback_action list) \<Rightarrow> nat list \<Rightarrow> connection_notifier \<Rightarrow>
     (notify_error + nat list \<times> connection_notifier) option" where
  "invoke_loop beh called n =
     (let n1 = n\<lparr>callback_index := up (callback_index n)\<rparr>
      in if callback_index n1 < callback_count n1
         then
           (if callback_index n1 < length (callbacks n1)
            then
              let f = fst (callbacks n1 ! callback_index n1)
              in invoke_loop beh (called @ [f]) (fold run_action (beh f) n1)
            else Some (Inl Out_of_range))
         else Some (Inr (called, n1\<lparr>callback_index := npos\<rparr>)))"

definition invoke_callbacks ::
  "(nat \<Rightarrow> callback_action list) \<Rightarrow> connection_notifier \<Rightarrow>
     (notify_error + nat list \<times> connection_notifier) option" where
  "invoke_callbacks beh n = invoke_loop beh [] (n\<lparr>callback_count := length (callbacks n)\<rparr>)"

section \<open>The intended behaviour\<close>

text \<open>
  Each callback that was registered when the notification began is run once, in order, unless it
  is removed before its turn.
\<close>

definition removed_by :: "callback_action list \<Rightarrow> nat set" where
  "removed_by acts = {t. Remove_callback t \<in> set acts}"

function run_queue :: "(nat \<Rightarrow> callback_action list) \<Rightarrow> (nat \<times> nat) list \<Rightarrow> nat list" where
  "run_queue beh [] = []"
| "run_queue beh (c # cs) =
     fst c # run_queue beh (filter (\<lambda>d. snd d \<notin> removed_by (beh (fst c))) cs)"
  by pat_completeness auto
termination
  by (relation "measure (\<lambda>(beh, cs). length cs)") (auto simp: le_imp_less_Suc)

definition callbacks_ok :: "connection_notifier \<Rightarrow> bool" where
  "callbacks_ok n \<longleftrightarrow> distinct (map snd (callbacks n)) \<and> (\<forall>c\<in>set (callbacks n). snd c < next_token n) \<and>
     length (callbacks n) < npos"

text \<open>
  The state inside the loop: \<open>passed\<close> callbacks have had their turn, \<open>queue\<close> callbacks wait,
  \<open>fresh\<close> ones were added since the notification began.
\<close>

definition looping :: "nat \<Rightarrow> (nat \<times> nat) list \<Rightarrow> (nat \<times> nat) list \<Rightarrow> (nat \<times> nat) list \<Rightarrow> connection_notifier \<Rightarrow> bool" where
  "looping bound passed queue fresh n \<longleftrightarrow>
     callbacks n = passed @ queue @ fresh \<and> callback_index n = down (length passed) \<and>
     callback_count n = length (passed @ queue) \<and> length (passed @ queue) < npos \<and>
     distinct (map snd (passed @ queue @ fresh)) \<and> bound \<le> next_token n \<and>
     (\<forall>c\<in>set (passed @ queue). snd c < bound) \<and> (\<forall>c\<in>set fresh. bound \<le> snd c \<and> snd c < next_token n)"

lemma npos_pos [simp]: "0 < npos"
  by (simp add: npos_def)

lemma up_down [simp]: "up (down i) = i" if "i \<le> npos"
  using that by (auto simp: up_def down_def)

lemma take_while_at:
  assumes "xs = ys @ x # zs" and "\<not> P x" and "\<forall>y\<in>set ys. P y"
  shows "takeWhile P xs = ys"
  using assms by (simp add: takeWhile_tail takeWhile_eq_all_conv)

lemma remove_absent: "token \<notin> snd ` set (callbacks n) \<Longrightarrow> remove_callback token n = n"
proof -
  assume "token \<notin> snd ` set (callbacks n)"
  then have t: "takeWhile (\<lambda>c. snd c \<noteq> token) (callbacks n) = callbacks n" by (auto simp: takeWhile_eq_all_conv)
  show ?thesis unfolding remove_callback_def t by simp
qed

lemma remove_present:
  assumes "callbacks n = xs @ (f, token) # ys" and "token \<notin> snd ` set xs"
  shows "remove_callback token n =
    n\<lparr>callback_index := (if callback_index n \<noteq> npos \<and> length xs \<le> callback_index n
        then down (callback_index n) else callback_index n),
      callback_count := down (callback_count n), callbacks := xs @ ys\<rparr>"
proof -
  have "takeWhile (\<lambda>c. snd c \<noteq> token) (callbacks n) = xs"
    by (rule take_while_at[OF assms(1)]) (use assms(2) in auto)
  then show ?thesis by (simp add: remove_callback_def assms(1) Let_def)
qed

lemma filter_one: "distinct (map snd (xs @ (f, token) # ys)) \<Longrightarrow>
    filter (\<lambda>c. snd c \<noteq> token) (xs @ (f, token) # ys) = xs @ ys"
proof -
  assume d: "distinct (map snd (xs @ (f, token) # ys))"
  have "filter (\<lambda>c. snd c \<noteq> token) xs = xs" "filter (\<lambda>c. snd c \<noteq> token) ys = ys"
    by (rule filter_True, use d in force)+
  then show ?thesis by simp
qed

lemma remove_looping:
  assumes "looping bound passed queue fresh n" and "token < bound"
  shows "looping bound (filter (\<lambda>c. snd c \<noteq> token) passed) (filter (\<lambda>c. snd c \<noteq> token) queue) fresh
    (remove_callback token n)"
proof -
  have l: "callbacks n = passed @ queue @ fresh" "callback_index n = down (length passed)"
    "callback_count n = length (passed @ queue)" "length (passed @ queue) < npos"
    "distinct (map snd (passed @ queue @ fresh))" "\<forall>c\<in>set fresh. bound \<le> snd c"
    using assms(1) by (simp_all add: looping_def)
  have nf: "token \<notin> snd ` set fresh" using l(6) assms(2) by auto
  consider (passed) "token \<in> snd ` set passed" | (queue) "token \<in> snd ` set queue"
    | (none) "token \<notin> snd ` set passed" "token \<notin> snd ` set queue" by blast
  then show ?thesis
  proof cases
    case passed
    then obtain xs f ys where p: "passed = xs @ (f, token) # ys"
      by (metis imageE prod.collapse split_list)
    have ids: "token \<notin> snd ` set queue" "token \<notin> snd ` set xs" using l(5) by (auto simp: p)
    have "filter (\<lambda>c. snd c \<noteq> token) queue = queue" using ids(1) by (auto simp: filter_id_conv)
    moreover have "filter (\<lambda>c. snd c \<noteq> token) passed = xs @ ys" unfolding p
      by (rule filter_one[where f = f]) (use l(5) p in \<open>simp add: Int_Un_distrib Int_Un_distrib2\<close>)
    moreover have "remove_callback token n = n\<lparr>callback_index := down (callback_index n),
        callback_count := down (callback_count n), callbacks := xs @ ys @ queue @ fresh\<rparr>"
      using remove_present[of n xs f token "ys @ queue @ fresh"] l(1,2,4) ids(2)
      by (simp add: p down_def)
    ultimately show ?thesis using assms(1) unfolding looping_def p
      by (simp add: down_def)
  next
    case queue
    then obtain xs f ys where q: "queue = xs @ (f, token) # ys"
      by (metis imageE prod.collapse split_list)
    have ids: "token \<notin> snd ` set passed" "token \<notin> snd ` set (passed @ xs)" using l(5) by (auto simp: q)
    have "filter (\<lambda>c. snd c \<noteq> token) passed = passed" using ids(1) by (auto simp: filter_id_conv)
    moreover have "filter (\<lambda>c. snd c \<noteq> token) queue = xs @ ys" unfolding q
      by (rule filter_one[where f = f]) (use l(5) q in \<open>simp add: Int_Un_distrib Int_Un_distrib2\<close>)
    moreover have "remove_callback token n = n\<lparr>callback_index := callback_index n,
        callback_count := down (callback_count n), callbacks := passed @ xs @ ys @ fresh\<rparr>"
    proof -
      have "\<not> (callback_index n \<noteq> npos \<and> length (passed @ xs) \<le> callback_index n)"
        using l(2) by (cases passed) (auto simp: down_def)
      moreover have "callbacks n = (passed @ xs) @ (f, token) # ys @ fresh" by (simp add: l(1) q)
      ultimately show ?thesis using remove_present[of n "passed @ xs" f token "ys @ fresh"] ids(2)
        by (simp only: if_False simp_thms) simp
    qed
    ultimately show ?thesis using assms(1) unfolding looping_def q
      by (simp add: down_def)
  next
    case none
    then have "filter (\<lambda>c. snd c \<noteq> token) passed = passed" "filter (\<lambda>c. snd c \<noteq> token) queue = queue"
      by (auto simp: filter_id_conv)
    moreover have "remove_callback token n = n"
      by (rule remove_absent) (use none nf l(1) in auto)
    ultimately show ?thesis using assms(1) by simp
  qed
qed

lemma add_looping:
  assumes "looping bound passed queue fresh n"
  shows "looping bound passed queue (fresh @ [(f, next_token n)]) (snd (add_callback f n))"
proof -
  have l: "bound \<le> next_token n" "\<forall>c\<in>set (passed @ queue). snd c < bound" "\<forall>c\<in>set fresh. snd c < next_token n"
    using assms by (simp_all add: looping_def)
  have "snd c < next_token n" if "c \<in> set (passed @ queue @ fresh)" for c
    using that l by (auto intro: less_le_trans)
  then have "next_token n \<notin> snd ` set (passed @ queue @ fresh)" by (metis imageE less_irrefl)
  with assms l show ?thesis by (auto simp: looping_def add_callback_def)
qed

lemma actions_looping:
  "looping bound passed queue fresh n \<Longrightarrow> removed_by acts \<subseteq> {..<bound} \<Longrightarrow>
     \<exists>passed' fresh'. looping bound passed' (filter (\<lambda>c. snd c \<notin> removed_by acts) queue) fresh' (fold run_action acts n)"
proof (induction acts arbitrary: passed queue fresh n)
  case Nil
  then show ?case by (auto simp: removed_by_def)
next
  case (Cons a acts)
  show ?case
  proof (cases a)
    case (Add_callback f)
    have "removed_by (a # acts) = removed_by acts" by (simp add: removed_by_def Add_callback)
    with Cons.IH[OF add_looping[OF Cons.prems(1), of f]] Cons.prems(2) show ?thesis by (simp add: Add_callback)
  next
    case (Remove_callback token)
    have r: "removed_by (a # acts) = insert token (removed_by acts)" by (auto simp: removed_by_def Remove_callback)
    have t: "token < bound" "removed_by acts \<subseteq> {..<bound}" using Cons.prems(2) unfolding r by auto
    have "filter (\<lambda>c. snd c \<notin> removed_by (a # acts)) queue =
        filter (\<lambda>c. snd c \<notin> removed_by acts) (filter (\<lambda>c. snd c \<noteq> token) queue)"
      unfolding r by (auto intro: filter_cong)
    with Cons.IH[OF remove_looping[OF Cons.prems(1) t(1)] t(2)] show ?thesis
      by (simp add: Remove_callback)
  qed
qed

lemma invoke_loop_ok:
  "(\<And>f. removed_by (beh f) \<subseteq> {..<bound}) \<Longrightarrow> looping bound passed queue fresh n \<Longrightarrow>
    \<exists>n'. invoke_loop beh called n = Some (Inr (called @ run_queue beh queue, n')) \<and> callback_index n' = npos \<and>
      distinct (map snd (callbacks n')) \<and> (\<forall>c\<in>set (callbacks n'). snd c < next_token n')"
proof (induction beh queue arbitrary: passed fresh n called rule: run_queue.induct)
  case (1 beh)
  have "up (callback_index n) = callback_count n" using 1(2) by (simp add: looping_def)
  then have "invoke_loop beh called n = Some (Inr (called, n\<lparr>callback_index := npos\<rparr>))"
    by (subst invoke_loop.simps) (simp add: Let_def)
  then show ?case using 1(2) by (fastforce simp: looping_def)
next
  case (2 beh c cs)
  have l: "callbacks n = passed @ (c # cs) @ fresh" "up (callback_index n) = length passed"
    "callback_count n = length passed + 1 + length cs" using 2(3) by (simp_all add: looping_def)
  let ?n1 = "n\<lparr>callback_index := length passed\<rparr>"
  let ?q = "filter (\<lambda>d. snd d \<notin> removed_by (beh (fst c))) cs"
  have "looping bound (passed @ [c]) cs fresh ?n1" using 2(3) by (simp add: looping_def down_def)
  from actions_looping[OF this 2(2)] obtain passed' fresh' where
    a: "looping bound passed' ?q fresh' (fold run_action (beh (fst c)) ?n1)" by blast
  have "invoke_loop beh called n = invoke_loop beh (called @ [fst c]) (fold run_action (beh (fst c)) ?n1)"
    using l by (subst invoke_loop.simps) (simp add: Let_def nth_append)
  with 2(1)[OF 2(2) a, of "called @ [fst c]"] show ?case by simp
qed

lemma invoke_callbacks_ok:
  assumes "callbacks_ok n" and "callback_index n = npos" and "\<And>f. removed_by (beh f) \<subseteq> {..<next_token n}"
  shows "\<exists>n'. invoke_callbacks beh n = Some (Inr (run_queue beh (callbacks n), n')) \<and> callback_index n' = npos \<and>
      distinct (map snd (callbacks n')) \<and> (\<forall>c\<in>set (callbacks n'). snd c < next_token n')"
proof -
  have "looping (next_token n) [] (callbacks n) [] (n\<lparr>callback_count := length (callbacks n)\<rparr>)"
    using assms(1,2) by (simp add: looping_def callbacks_ok_def down_def)
  from invoke_loop_ok[OF assms(3) this, where called = "[]"] show ?thesis by (simp add: invoke_callbacks_def)
qed

text \<open>Nothing that is left alone is skipped, and nothing runs twice.\<close>

lemma run_queue_plain:
  "(\<And>c. c \<in> set cs \<Longrightarrow> removed_by (beh (fst c)) \<inter> snd ` set cs = {}) \<Longrightarrow> run_queue beh cs = map fst cs"
proof (induction beh cs rule: run_queue.induct)
  case (2 beh c cs)
  have "\<forall>d\<in>set cs. snd d \<notin> removed_by (beh (fst c))" using 2(2)[of c] by fastforce
  then have f: "filter (\<lambda>d. snd d \<notin> removed_by (beh (fst c))) cs = cs" by (simp add: filter_id_conv)
  have "run_queue beh cs = map fst cs"
    using 2(1) 2(2) unfolding f by (metis (no_types, lifting) disjoint_iff image_insert insertCI list.simps(15))
  then show ?case using f by simp
qed simp

lemma run_queue_subseq: "subseq (run_queue beh cs) (map fst cs)"
proof (induction beh cs rule: run_queue.induct)
  case (2 beh c cs)
  have "subseq (map fst (filter (\<lambda>d. snd d \<notin> removed_by (beh (fst c))) cs)) (map fst cs)"
    by (rule subseq_map) (rule subseq_filter_left)
  with 2 show ?case by (auto intro: subseq_order.order_trans)
qed simp

end
