(* ===== verification/SyncSession.thy ===== *)
theory SyncSession imports SyncError SyncProgress "HOL-Library.AList" begin

text \<open>
  The state machine of \<open>SyncSession\<close>.  A critical section of the session's mutex, together
  with the notifications it sends after releasing it, is one step.  What the session does to the
  outside is recorded in \<open>log\<close>: requests to the binding, calls of the underlying
  \<open>sync::Session\<close>, completion callbacks.  A call through the \<open>m_session\<close> pointer
  or of an empty optional is the effect \<open>Null_dereference\<close>.  Callbacks are numbers.
\<close>

section \<open>Configuration\<close>

datatype stop_policy = Immediately | LiveIndefinitely | AfterChangesUploaded

datatype client_resync_mode = Recover | DiscardLocal | Manual

record sync_config =
  user :: "string option"
  reference_realm_url :: string
  stop_policy :: stop_policy
  has_error_handler :: bool
  transformer :: "nat option"
  realm_encryption_key :: "string option"
  client_validate_ssl :: bool
  ssl_trust_certificate_path :: "string option"
  ssl_verify_callback :: "nat option"
  proxy_config :: "string option"
  is_partial :: bool
  custom_partial_sync_identifier :: "string option"
  authorization_header_name :: "string option"
  custom_http_headers :: "(string \<times> string) list"
  url_prefix :: "string option"
  client_resync_mode :: client_resync_mode

text \<open>The identifier of a partially synced Realm comes from the client's uuid and a hash: a parameter.\<close>

definition realm_url :: "string \<Rightarrow> sync_config \<Rightarrow> string" where
  "realm_url partial_identifier c =
     (if \<not> is_partial c then reference_realm_url c
      else
        let url = reference_realm_url c;
            base = (if url \<noteq> [] \<and> last url = CHR ''/'' then butlast url else url)
        in case custom_partial_sync_identifier c of
             Some i \<Rightarrow> base @ ''/__partial/'' @ i
           | None \<Rightarrow> base @ ''/__partial/'' @ (case user c of Some u \<Rightarrow> u | None \<Rightarrow> '''') @ ''/'' @ partial_identifier)"

record session_config =
  changeset_cooker :: "nat option"
  encryption_key :: "string option"
  verify_servers_ssl_certificate :: bool
  session_certificate_path :: "string option"
  session_verify_callback :: "nat option"
  session_proxy :: "string option"
  multiplex_ident :: string
  authorization_header :: string
  http_headers :: "(string \<times> string) list"
  session_url_prefix :: string
  client_reset :: "(string \<times> bool) option"

text \<open>The defaults of the two optional fields are the ones \<open>Session::Config\<close> declares.\<close>

definition default_header :: string where "default_header = ''Authorization''"
definition default_prefix :: string where "default_prefix = ''/realm-sync''"

section \<open>State\<close>

datatype public_state = WaitingForAccessToken | Active | Dying | Inactive

datatype connection_state = Disconnected | Connecting | Connected

datatype wait_result = Completed | Operation_aborted | Failed int

text \<open>
  A completion handler handed to a \<open>sync::Session\<close> (its number first).  The client runs it
  once, at any time, and also when the session is torn down.
\<close>

datatype waiter = Completion_waiter nat direction nat | Death_waiter nat nat

datatype file_action = BackUpThenDeleteRealm | DeleteRealm

datatype effect =
  Token_requested
| Unregistered
| Callback_invoked nat wait_result
| Connection_changed connection_state connection_state
| Session_made session_config
| Session_bound string string
| Session_refreshed string
| Reconnect_delay_cancelled
| Server_overridden string int
| Commit_notified int
| Progress_reported invocation
| User_invalidated string
| File_action_recorded string string string file_action string
| Error_reported sync_error
| Null_dereference

record session =
  state :: public_state
  connection_state :: connection_state
  death_count :: nat
  config :: sync_config
  force_client_resync :: bool
  realm_path :: string
  partial_identifier :: string
  download_callbacks :: "nat list"
  upload_callbacks :: "nat list"
  client_resync_counter :: nat
  server_override :: "(string \<times> int) option"
  native :: "nat option"
  has_been_bound :: bool
  deferred_commit :: "int option"
  deferred_close :: bool
  server_url :: "string option"
  multiplex_identity :: string
  progress_state :: progress_notifier
  reference_count :: nat
  pending_drops :: nat
  sessions_made :: nat
  waiters :: "waiter list"
  log :: "effect list"

definition session_new :: "string \<Rightarrow> string \<Rightarrow> sync_config \<Rightarrow> bool \<Rightarrow> bool \<Rightarrow> session" where
  "session_new path partial cfg resync bound =
     \<lparr>state = Inactive, connection_state = Disconnected, death_count = 0, config = cfg,
      force_client_resync = resync, realm_path = path, partial_identifier = partial,
      download_callbacks = [], upload_callbacks = [], client_resync_counter = 0,
      server_override = None, native = None, has_been_bound = bound, deferred_commit = None,
      deferred_close = False, server_url = None, multiplex_identity = '''',
      progress_state = progress_notifier_new, reference_count = 0, pending_drops = 0,
      sessions_made = 0, waiters = [], log = []\<rparr>"

definition emit :: "effect list \<Rightarrow> session \<Rightarrow> session" where
  "emit es s = s\<lparr>log := log s @ es\<rparr>"

definition call_session :: "effect list \<Rightarrow> session \<Rightarrow> session" where
  "call_session es s = emit (if native s = None then [Null_dereference] else es) s"

section \<open>The underlying session\<close>

definition session_config_of :: "session \<Rightarrow> session_config" where
  "session_config_of s =
     (let c = config s
      in \<lparr>changeset_cooker = transformer c, encryption_key = realm_encryption_key c,
          verify_servers_ssl_certificate = client_validate_ssl c,
          session_certificate_path = ssl_trust_certificate_path c,
          session_verify_callback = ssl_verify_callback c, session_proxy = proxy_config c,
          multiplex_ident = multiplex_identity s,
          authorization_header = (case authorization_header_name c of Some h \<Rightarrow> h | None \<Rightarrow> default_header),
          http_headers = custom_http_headers c,
          session_url_prefix = (case url_prefix c of Some p \<Rightarrow> p | None \<Rightarrow> default_prefix),
          client_reset =
            (if force_client_resync s
             then Some (realm_path s @ ''.resync'', client_resync_mode c = Recover) else None)\<rparr>)"

definition create_sync_session :: "session \<Rightarrow> session" where
  "create_sync_session s =
     (if native s \<noteq> None then s
      else emit [Session_made (session_config_of s)]
        (s\<lparr>native := Some (sessions_made s), sessions_made := sessions_made s + 1, has_been_bound := False\<rparr>))"

definition add_completion_callback :: "direction \<Rightarrow> session \<Rightarrow> session" where
  "add_completion_callback dir s =
     (case native s of
        None \<Rightarrow> emit [Null_dereference] s
      | Some n \<Rightarrow> s\<lparr>waiters := waiters s @ [Completion_waiter n dir (client_resync_counter s)]\<rparr>)"

definition unregister :: "session \<Rightarrow> session" where
  "unregister s = emit [Unregistered] s"

definition cancelled :: "nat list \<Rightarrow> effect list" where
  "cancelled cbs = map (\<lambda>cb. Callback_invoked cb Operation_aborted) cbs"

definition cancel_pending_waits :: "session \<Rightarrow> session" where
  "cancel_pending_waits s =
     emit (cancelled (download_callbacks s) @ cancelled (upload_callbacks s))
       (s\<lparr>download_callbacks := [], upload_callbacks := []\<rparr>)"

section \<open>Entering a state\<close>

definition enter_waiting :: "session \<Rightarrow> session" where
  "enter_waiting s = s\<lparr>state := WaitingForAccessToken, deferred_close := False\<rparr>"

definition enter_active :: "session \<Rightarrow> session" where
  "enter_active s =
     (let s1 = s\<lparr>state := Active\<rparr>;
          s2 = (if upload_callbacks s1 \<noteq> [] then add_completion_callback Upload s1 else s1)
      in if download_callbacks s2 \<noteq> [] then add_completion_callback Download s2 else s2)"

definition enter_inactive :: "session \<Rightarrow> session" where
  "enter_inactive s =
     (let old = connection_state s;
          downs = download_callbacks s;
          ups = upload_callbacks s;
          s1 = s\<lparr>state := Inactive, connection_state := Disconnected, download_callbacks := [],
                 upload_callbacks := [], native := None\<rparr>;
          s2 = unregister s1;
          s3 = (if old \<noteq> Disconnected then emit [Connection_changed old (connection_state s2)] s2 else s2)
      in emit (cancelled downs @ cancelled ups) s3)"

definition enter_dying :: "session \<Rightarrow> session" where
  "enter_dying s =
     (let s1 = s\<lparr>state := Dying\<rparr>
      in case native s1 of
           None \<Rightarrow> enter_inactive s1
         | Some n \<Rightarrow>
             s1\<lparr>death_count := death_count s1 + 1,
                waiters := waiters s1 @ [Death_waiter n (death_count s1 + 1)]\<rparr>)"

definition advance_state :: "public_state \<Rightarrow> session \<Rightarrow> session" where
  "advance_state st s =
     (case st of
        WaitingForAccessToken \<Rightarrow> enter_waiting s
      | Active \<Rightarrow> enter_active s
      | Dying \<Rightarrow> enter_dying s
      | Inactive \<Rightarrow> enter_inactive s)"

section \<open>The operations of the states\<close>

text \<open>
  One definition per method a state overrides, and the dispatch through the current state; a
  state that does not override a method inherits the empty one.
\<close>

definition waiting_close :: "session \<Rightarrow> session" where
  "waiting_close s =
     (case stop_policy (config s) of
        Immediately \<Rightarrow> advance_state Inactive s
      | _ \<Rightarrow> s\<lparr>deferred_close := True\<rparr>)"

definition active_close :: "session \<Rightarrow> session" where
  "active_close s =
     (case stop_policy (config s) of
        Immediately \<Rightarrow> advance_state Inactive s
      | LiveIndefinitely \<Rightarrow> s
      | AfterChangesUploaded \<Rightarrow> advance_state Dying s)"

definition inactive_close :: "session \<Rightarrow> session" where
  "inactive_close s = unregister s"

definition state_close :: "session \<Rightarrow> session" where
  "state_close s =
     (case state s of
        WaitingForAccessToken \<Rightarrow> waiting_close s
      | Active \<Rightarrow> active_close s
      | Dying \<Rightarrow> s
      | Inactive \<Rightarrow> inactive_close s)"

definition bind_or_refresh :: "string \<Rightarrow> session \<Rightarrow> session" where
  "bind_or_refresh token s =
     (if has_been_bound s then call_session [Session_refreshed token, Reconnect_delay_cancelled] s
      else
        (case server_url s of
           None \<Rightarrow> emit [Null_dereference] s
         | Some url \<Rightarrow> call_session [Session_bound url token] s)\<lparr>has_been_bound := True\<rparr>)"

definition waiting_refresh :: "string \<Rightarrow> string option \<Rightarrow> session \<Rightarrow> session" where
  "waiting_refresh token url s =
     (let s1 = create_sync_session s;
          s2 = (if server_url s1 = None then s1\<lparr>server_url := url\<rparr> else s1);
          s3 = bind_or_refresh token s2;
          s4 = (case server_override s3 of
                  Some (address, port) \<Rightarrow> call_session [Server_overridden address port] s3
                | None \<Rightarrow> s3);
          s5 = (case deferred_commit s4 of
                  Some version \<Rightarrow> (call_session [Commit_notified version] s4)\<lparr>deferred_commit := None\<rparr>
                | None \<Rightarrow> s4);
          s6 = advance_state Active s5
      in if deferred_close s6 then state_close s6 else s6)"

definition active_refresh :: "string \<Rightarrow> session \<Rightarrow> session" where
  "active_refresh token s = call_session [Session_refreshed token, Reconnect_delay_cancelled] s"

definition state_refresh :: "string \<Rightarrow> string option \<Rightarrow> session \<Rightarrow> session" where
  "state_refresh token url s =
     (case state s of
        WaitingForAccessToken \<Rightarrow> waiting_refresh token url s
      | Active \<Rightarrow> active_refresh token s
      | _ \<Rightarrow> s)"

definition active_token_expired :: "session \<Rightarrow> session" where
  "active_token_expired s = emit [Token_requested] (advance_state WaitingForAccessToken s)"

definition state_token_expired :: "session \<Rightarrow> session" where
  "state_token_expired s = (if state s = Active then active_token_expired s else s)"

definition waiting_commit :: "int \<Rightarrow> session \<Rightarrow> session" where
  "waiting_commit version s = s\<lparr>deferred_commit := Some version\<rparr>"

definition active_commit :: "int \<Rightarrow> session \<Rightarrow> session" where
  "active_commit version s = call_session [Commit_notified version] s"

definition state_commit :: "int \<Rightarrow> session \<Rightarrow> session" where
  "state_commit version s =
     (case state s of
        WaitingForAccessToken \<Rightarrow> waiting_commit version s
      | Active \<Rightarrow> active_commit version s
      | _ \<Rightarrow> s)"

text \<open>The second component is whether the binding is asked for a token.\<close>

definition waiting_revive :: "session \<Rightarrow> session \<times> bool" where
  "waiting_revive s = (s\<lparr>deferred_close := False\<rparr>, False)"

definition dying_revive :: "session \<Rightarrow> session \<times> bool" where
  "dying_revive s = (advance_state Active s, False)"

definition inactive_revive :: "session \<Rightarrow> session \<times> bool" where
  "inactive_revive s = (advance_state WaitingForAccessToken s, True)"

definition state_revive :: "session \<Rightarrow> session \<times> bool" where
  "state_revive s =
     (case state s of
        WaitingForAccessToken \<Rightarrow> waiting_revive s
      | Active \<Rightarrow> (s, False)
      | Dying \<Rightarrow> dying_revive s
      | Inactive \<Rightarrow> inactive_revive s)"

definition waiting_reconnect :: "session \<Rightarrow> session" where
  "waiting_reconnect s = emit [Token_requested] s"

definition active_reconnect :: "session \<Rightarrow> session" where
  "active_reconnect s = call_session [Reconnect_delay_cancelled] s"

definition state_reconnect :: "session \<Rightarrow> session" where
  "state_reconnect s =
     (case state s of
        WaitingForAccessToken \<Rightarrow> waiting_reconnect s
      | Active \<Rightarrow> active_reconnect s
      | _ \<Rightarrow> s)"

definition waiting_log_out :: "session \<Rightarrow> session" where
  "waiting_log_out s = advance_state Inactive s"

definition active_log_out :: "session \<Rightarrow> session" where
  "active_log_out s = advance_state Inactive s"

definition dying_log_out :: "session \<Rightarrow> session" where
  "dying_log_out s = advance_state Inactive s"

definition state_log_out :: "session \<Rightarrow> session" where
  "state_log_out s =
     (case state s of
        WaitingForAccessToken \<Rightarrow> waiting_log_out s
      | Active \<Rightarrow> active_log_out s
      | Dying \<Rightarrow> dying_log_out s
      | Inactive \<Rightarrow> s)"

text \<open>The second component is whether the error has been fully handled.\<close>

definition dying_handle_error :: "sync_error \<Rightarrow> session \<Rightarrow> session \<times> bool" where
  "dying_handle_error e s = (if is_fatal e then advance_state Inactive s else s, True)"

definition state_handle_error :: "sync_error \<Rightarrow> session \<Rightarrow> session \<times> bool" where
  "state_handle_error e s = (if state s = Dying then dying_handle_error e s else (s, False))"

definition active_wait :: "direction \<Rightarrow> session \<Rightarrow> session" where
  "active_wait dir s = add_completion_callback dir s"

definition dying_wait :: "direction \<Rightarrow> session \<Rightarrow> session" where
  "dying_wait dir s = add_completion_callback dir s"

definition state_wait :: "direction \<Rightarrow> session \<Rightarrow> session" where
  "state_wait dir s =
     (case state s of
        Active \<Rightarrow> active_wait dir s
      | Dying \<Rightarrow> dying_wait dir s
      | _ \<Rightarrow> s)"

definition waiting_override :: "string \<Rightarrow> int \<Rightarrow> session \<Rightarrow> session" where
  "waiting_override address port s = s\<lparr>server_override := Some (address, port)\<rparr>"

definition active_override :: "string \<Rightarrow> int \<Rightarrow> session \<Rightarrow> session" where
  "active_override address port s =
     call_session [Server_overridden address port] (s\<lparr>server_override := Some (address, port)\<rparr>)"

definition dying_override :: "string \<Rightarrow> int \<Rightarrow> session \<Rightarrow> session" where
  "dying_override address port s =
     call_session [Server_overridden address port] (s\<lparr>server_override := Some (address, port)\<rparr>)"

definition inactive_override :: "string \<Rightarrow> int \<Rightarrow> session \<Rightarrow> session" where
  "inactive_override address port s = s\<lparr>server_override := Some (address, port)\<rparr>"

definition state_override :: "string \<Rightarrow> int \<Rightarrow> session \<Rightarrow> session" where
  "state_override address port s =
     (case state s of
        WaitingForAccessToken \<Rightarrow> waiting_override address port s
      | Active \<Rightarrow> active_override address port s
      | Dying \<Rightarrow> dying_override address port s
      | Inactive \<Rightarrow> inactive_override address port s)"

lemmas close_defs = state_close_def waiting_close_def active_close_def inactive_close_def
lemmas refresh_defs = state_refresh_def active_refresh_def
lemmas token_expired_defs = state_token_expired_def active_token_expired_def
lemmas commit_defs = state_commit_def waiting_commit_def active_commit_def
lemmas revive_defs = state_revive_def waiting_revive_def dying_revive_def inactive_revive_def
lemmas reconnect_defs = state_reconnect_def waiting_reconnect_def active_reconnect_def
lemmas state_error_defs = state_handle_error_def dying_handle_error_def

lemma log_out_defs: "state_log_out s = (if state s = Inactive then s else advance_state Inactive s)"
  by (simp add: state_log_out_def waiting_log_out_def active_log_out_def dying_log_out_def
    split: public_state.split)

lemma wait_defs:
  "state_wait dir s = (if state s = Active \<or> state s = Dying then add_completion_callback dir s else s)"
  by (simp add: state_wait_def active_wait_def dying_wait_def split: public_state.split)

lemma override_defs:
  "state_override address port s =
     (let s1 = s\<lparr>server_override := Some (address, port)\<rparr>
      in if state s = Active \<or> state s = Dying
         then call_session [Server_overridden address port] s1 else s1)"
  by (simp add: state_override_def waiting_override_def active_override_def dying_override_def
    inactive_override_def Let_def split: public_state.split)

end
