(* ===== verification/SyncSessionSteps.thy ===== *)
theory SyncSessionSteps imports SyncSession begin

text \<open>
  The public methods of \<open>SyncSession\<close>, the error handler, and the steps of a session: the
  calls of the binding and of the sync manager, and what the sync client does on its own (running
  completion handlers, reporting connection changes, errors and progress).
\<close>

section \<open>The public methods\<close>

definition revive_if_needed :: "session \<Rightarrow> session" where
  "revive_if_needed s =
     (let (s1, ask) = state_revive s in if ask then emit [Token_requested] s1 else s1)"

definition refresh_access_token :: "string \<Rightarrow> string option \<Rightarrow> session \<Rightarrow> session" where
  "refresh_access_token token url s =
     (if server_url s = None \<and> url = None then s else state_refresh token url s)"

definition nonsync_transact_notify :: "int \<Rightarrow> session \<Rightarrow> session" where
  "nonsync_transact_notify version s =
     state_commit version (s\<lparr>progress_state := set_local_version (nat version) (progress_state s)\<rparr>)"

definition wait_for_completion :: "direction \<Rightarrow> nat \<Rightarrow> session \<Rightarrow> session" where
  "wait_for_completion dir cb s =
     (case dir of
        Upload \<Rightarrow>
          let s1 = (if upload_callbacks s = [] then state_wait Upload s else s)
          in s1\<lparr>upload_callbacks := upload_callbacks s1 @ [cb]\<rparr>
      | Download \<Rightarrow>
          let s1 = (if download_callbacks s = [] then state_wait Download s else s)
          in s1\<lparr>download_callbacks := download_callbacks s1 @ [cb]\<rparr>)"

definition register_progress :: "nat \<Rightarrow> direction \<Rightarrow> bool \<Rightarrow> session \<Rightarrow> nat \<times> session" where
  "register_progress cb dir streaming s =
     (let (token, calls, p) = register_callback cb dir streaming (progress_state s)
      in (token, emit (map Progress_reported calls) (s\<lparr>progress_state := p\<rparr>)))"

definition unregister_progress :: "nat \<Rightarrow> session \<Rightarrow> session" where
  "unregister_progress token s = s\<lparr>progress_state := unregister_callback token (progress_state s)\<rparr>"

definition handle_progress_update :: "nat \<Rightarrow> nat \<Rightarrow> nat \<Rightarrow> nat \<Rightarrow> nat \<Rightarrow> nat \<Rightarrow> session \<Rightarrow> session" where
  "handle_progress_update down downable up upable version snapshot s =
     (let (calls, p) = update down downable up upable version snapshot (progress_state s)
      in emit (map Progress_reported calls) (s\<lparr>progress_state := p\<rparr>))"

definition set_multiplex_identifier :: "string \<Rightarrow> session \<Rightarrow> session" where
  "set_multiplex_identifier i s = s\<lparr>multiplex_identity := i\<rparr>"

definition set_url_prefix :: "string \<Rightarrow> session \<Rightarrow> session" where
  "set_url_prefix p s = s\<lparr>config := (config s)\<lparr>url_prefix := Some p\<rparr>\<rparr>"

text \<open>
  With no other thread in between, the loop switches to \<open>Inactive\<close> at most once and then
  finds the session there.
\<close>

definition update_configuration :: "sync_config \<Rightarrow> session \<Rightarrow> session" where
  "update_configuration cfg s =
     (let s1 = (if state s \<noteq> Inactive then advance_state Inactive s else s)
      in revive_if_needed (s1\<lparr>config := cfg\<rparr>))"

section \<open>External references\<close>

text \<open>
  \<open>reference_count\<close> counts the pointers to the current reference object.  Its destructor runs
  when the last one goes and takes the mutex later: until then the drop is pending, and a new
  reference may have been handed out.
\<close>

definition external_reference :: "session \<Rightarrow> session" where
  "external_reference s = s\<lparr>reference_count := reference_count s + 1\<rparr>"

definition existing_external_reference :: "session \<Rightarrow> bool \<times> session" where
  "existing_external_reference s =
     (if 0 < reference_count s then (True, s\<lparr>reference_count := reference_count s + 1\<rparr>) else (False, s))"

definition release_reference :: "session \<Rightarrow> session" where
  "release_reference s =
     (let s1 = s\<lparr>reference_count := reference_count s - 1\<rparr>
      in if reference_count s1 = 0 then s1\<lparr>pending_drops := pending_drops s1 + 1\<rparr> else s1)"

definition did_drop_external_reference :: "session \<Rightarrow> session" where
  "did_drop_external_reference s =
     (let s1 = s\<lparr>pending_drops := pending_drops s - 1\<rparr>
      in if 0 < reference_count s1 then s1 else state_close s1)"

section \<open>Errors\<close>

datatype next_state = Next_none | Next_inactive | Next_error

datatype disposition =
  Ignored | Reported | Token_expired | Authentication_failed | File_deleted bool | Unrecognized

text \<open>A value the enumeration does not declare passes the switch without effect.\<close>

fun protocol_disposition :: "protocol_error option \<Rightarrow> disposition" where
  "protocol_disposition (Some protocol_error.connection_closed) = Ignored"
| "protocol_disposition (Some other_error) = Ignored"
| "protocol_disposition (Some session_closed) = Ignored"
| "protocol_disposition (Some other_session_error) = Ignored"
| "protocol_disposition (Some disabled_session) = Ignored"
| "protocol_disposition (Some token_expired) = Token_expired"
| "protocol_disposition (Some bad_authentication) = Authentication_failed"
| "protocol_disposition (Some permission_denied) = File_deleted False"
| "protocol_disposition (Some bad_client_file) = File_deleted True"
| "protocol_disposition (Some protocol_error.bad_client_file_ident) = File_deleted True"
| "protocol_disposition (Some protocol_error.bad_origin_file_ident) = File_deleted True"
| "protocol_disposition (Some bad_server_file_ident) = File_deleted True"
| "protocol_disposition (Some protocol_error.bad_server_version) = File_deleted True"
| "protocol_disposition (Some client_file_blacklisted) = File_deleted True"
| "protocol_disposition (Some diverging_histories) = File_deleted True"
| "protocol_disposition (Some server_file_deleted) = File_deleted True"
| "protocol_disposition (Some user_blacklisted) = File_deleted True"
| "protocol_disposition _ = Reported"

fun client_disposition :: "client_error option \<Rightarrow> disposition" where
  "client_disposition (Some client_error.connection_closed) = Ignored"
| "client_disposition (Some pong_timeout) = Ignored"
| "client_disposition _ = Reported"

fun error_disposition :: "error_code \<Rightarrow> disposition" where
  "error_disposition (Protocol_code c) = protocol_disposition (protocol_error_of c)"
| "error_disposition (Client_code c) = client_disposition (client_error_of c)"
| "error_disposition (Foreign_code _ _) = Unrecognized"

definition original_path_key :: string where "original_path_key = ''ORIGINAL_FILE_PATH''"
definition recovery_path_key :: string where "recovery_path_key = ''RECOVERY_FILE_PATH''"

text \<open>The unused file name the recovery path is reserved under is a parameter.\<close>

definition mark_for_deletion :: "string \<Rightarrow> bool \<Rightarrow> sync_error \<Rightarrow> session \<Rightarrow> sync_error \<times> session" where
  "mark_for_deletion recovery should_backup e s =
     (let e1 = e\<lparr>user_info := AList.update original_path_key (realm_path s) (user_info e)\<rparr>;
          e2 = (if should_backup then e1\<lparr>user_info := AList.update recovery_path_key recovery (user_info e1)\<rparr> else e1)
      in (e2, emit [File_action_recorded (realm_path s) (realm_url (partial_identifier s) (config s))
                      (case user (config s) of Some u \<Rightarrow> u | None \<Rightarrow> '''')
                      (if should_backup then BackUpThenDeleteRealm else DeleteRealm)
                      (if should_backup then recovery else '''')] s))"

definition client_resync :: "session \<Rightarrow> session" where
  "client_resync s =
     (let downs = download_callbacks s;
          ups = upload_callbacks s;
          s1 = s\<lparr>force_client_resync := True, client_resync_counter := client_resync_counter s + 1,
                 download_callbacks := [], upload_callbacks := []\<rparr>;
          s2 = advance_state Inactive s1
      in revive_if_needed (s2\<lparr>download_callbacks := downs, upload_callbacks := ups\<rparr>))"

definition finish_error :: "next_state \<Rightarrow> sync_error \<Rightarrow> session \<Rightarrow> session" where
  "finish_error next e s =
     (let s1 = (case next of
                  Next_none \<Rightarrow> s
                | Next_inactive \<Rightarrow> advance_state Inactive s
                | Next_error \<Rightarrow> cancel_pending_waits s)
      in if has_error_handler (config s1) then emit [Error_reported e] s1 else s1)"

definition report_error :: "string \<Rightarrow> sync_error \<Rightarrow> session \<Rightarrow> session" where
  "report_error recovery e s =
     (let next = (if is_fatal e then Next_error else Next_none)
      in case error_disposition (error_code e) of
           Ignored \<Rightarrow> s
         | Token_expired \<Rightarrow> state_token_expired s
         | Authentication_failed \<Rightarrow>
             let s1 = cancel_pending_waits s;
                 s2 = (case user (config s) of Some u \<Rightarrow> emit [User_invalidated u] s1 | None \<Rightarrow> s1)
             in finish_error Next_none e s2
         | File_deleted backup \<Rightarrow>
             let (e1, s1) = mark_for_deletion recovery backup e s in finish_error Next_inactive e1 s1
         | Reported \<Rightarrow> finish_error next e s
         | Unrecognized \<Rightarrow> finish_error next (e\<lparr>is_unrecognized_by_client := True\<rparr>) s)"

definition handle_error :: "string \<Rightarrow> sync_error \<Rightarrow> session \<Rightarrow> session" where
  "handle_error recovery e s =
     (let (s1, handled) = state_handle_error e s
      in if handled then s1
         else if is_client_reset_requested e \<and> client_resync_mode (config s1) \<noteq> Manual
         then client_resync s1
         else report_error recovery e s1)"

section \<open>The sync client\<close>

definition fire_completion :: "direction \<Rightarrow> nat \<Rightarrow> wait_result \<Rightarrow> session \<Rightarrow> session" where
  "fire_completion dir counter result s =
     (if counter \<noteq> client_resync_counter s then s
      else
        (case dir of
           Download \<Rightarrow>
             emit (map (\<lambda>cb. Callback_invoked cb result) (download_callbacks s))
               (s\<lparr>download_callbacks := []\<rparr>)
         | Upload \<Rightarrow>
             emit (map (\<lambda>cb. Callback_invoked cb result) (upload_callbacks s))
               (s\<lparr>upload_callbacks := []\<rparr>)))"

definition fire_death :: "nat \<Rightarrow> session \<Rightarrow> session" where
  "fire_death deaths s =
     (if state s = Dying \<and> death_count s = deaths then advance_state Inactive s else s)"

definition fire_waiter :: "waiter \<Rightarrow> wait_result \<Rightarrow> session \<Rightarrow> session" where
  "fire_waiter w result s =
     (let s1 = s\<lparr>waiters := remove1 w (waiters s)\<rparr>
      in case w of
           Completion_waiter n dir counter \<Rightarrow> fire_completion dir counter result s1
         | Death_waiter n deaths \<Rightarrow> fire_death deaths s1)"

lemmas fire_defs = fire_waiter_def fire_completion_def fire_death_def

definition connection_changed :: "connection_state \<Rightarrow> sync_error option \<Rightarrow> string \<Rightarrow> session \<Rightarrow> session" where
  "connection_changed new e recovery s =
     (let s1 = emit [Connection_changed (connection_state s) new] (s\<lparr>connection_state := new\<rparr>)
      in case e of None \<Rightarrow> s1 | Some e \<Rightarrow> handle_error recovery e s1)"

section \<open>Steps\<close>

datatype event =
  Refresh string "string option"
| Revive
| Reconnect
| Log_out
| Close
| Commit int
| Wait direction nat
| Override string int
| Configure sync_config
| Set_multiplex string
| Set_prefix string
| Register_progress nat direction bool
| Unregister_progress nat
| Take_reference
| Take_existing
| Release_reference
| Reference_dropped
| Waiter_fired waiter wait_result
| Connection connection_state "sync_error option" string
| Progress nat nat nat nat nat nat

text \<open>When the event can occur, and what it does.\<close>

fun enabled :: "session \<Rightarrow> event \<Rightarrow> bool" where
  "enabled s (Waiter_fired w result) = (w \<in> set (waiters s))"
| "enabled s Release_reference = (0 < reference_count s)"
| "enabled s Reference_dropped = (0 < pending_drops s)"
| "enabled s _ = True"

fun perform :: "event \<Rightarrow> session \<Rightarrow> session" where
  "perform (Refresh token url) s = refresh_access_token token url s"
| "perform Revive s = revive_if_needed s"
| "perform Reconnect s = state_reconnect s"
| "perform Log_out s = state_log_out s"
| "perform Close s = state_close s"
| "perform (Commit version) s = nonsync_transact_notify version s"
| "perform (Wait dir cb) s = wait_for_completion dir cb s"
| "perform (Override address port) s = state_override address port s"
| "perform (Configure cfg) s = update_configuration cfg s"
| "perform (Set_multiplex i) s = set_multiplex_identifier i s"
| "perform (Set_prefix p) s = set_url_prefix p s"
| "perform (Register_progress cb dir streaming) s = snd (register_progress cb dir streaming s)"
| "perform (Unregister_progress token) s = unregister_progress token s"
| "perform Take_reference s = external_reference s"
| "perform Take_existing s = snd (existing_external_reference s)"
| "perform Release_reference s = release_reference s"
| "perform Reference_dropped s = did_drop_external_reference s"
| "perform (Waiter_fired w result) s = fire_waiter w result s"
| "perform (Connection new e recovery) s = connection_changed new e recovery s"
| "perform (Progress a b c d v n) s = handle_progress_update a b c d v n s"

inductive step :: "session \<Rightarrow> event \<Rightarrow> session \<Rightarrow> bool" where
  step: "enabled s e \<Longrightarrow> step s e (perform e s)"

inductive_cases step_elim [elim!]: "step s e s'"
inductive_simps step_iff: "step s e s'"

inductive run :: "session \<Rightarrow> event list \<Rightarrow> session \<Rightarrow> bool" where
  run_start: "run s [] s"
| run_step: "run s es s' \<Longrightarrow> step s' e s'' \<Longrightarrow> run s (es @ [e]) s''"

inductive_cases run_Nil [elim!]: "run s [] s'"

code_pred (modes: i \<Rightarrow> i \<Rightarrow> o \<Rightarrow> bool) step .

text \<open>A run as a function, where every event is enabled.\<close>

fun execute :: "event list \<Rightarrow> session \<Rightarrow> session option" where
  "execute [] s = Some s"
| "execute (e # es) s = (if enabled s e then execute es (perform e s) else None)"

lemma execute_append: "execute (es @ fs) s = Option.bind (execute es s) (execute fs)"
  by (induction es arbitrary: s) auto

lemma execute_run: "execute es s = Some s' \<longleftrightarrow> run s es s'"
proof
  assume "execute es s = Some s'"
  then show "run s es s'"
  proof (induction es arbitrary: s' rule: rev_induct)
    case (snoc e es)
    then obtain s1 where s1: "execute es s = Some s1" "enabled s1 e" "s' = perform e s1"
      by (auto simp: execute_append split: bind_splits if_splits)
    then show ?case using run_step[OF snoc.IH[OF s1(1)] step[OF s1(2)]] by simp
  qed (auto intro: run_start)
next
  assume "run s es s'"
  then show "execute es s = Some s'"
    by (induction rule: run.induct) (auto simp: execute_append)
qed

end
