(* ===== verification/SyncSessionLaws.thy ===== *)
theory SyncSessionLaws imports SyncSessionSteps "HOL-Library.Multiset" begin

text \<open>
  The invariant of a session, preserved by every step: in the connected states there is an
  underlying session that has been bound, waiting callbacks have a completion handler of that
  session, and no null pointer or empty optional is ever used.
\<close>

section \<open>Simplification\<close>

lemma emit_simps [simp]:
  "state (emit es s) = state s" "connection_state (emit es s) = connection_state s"
  "death_count (emit es s) = death_count s" "config (emit es s) = config s"
  "force_client_resync (emit es s) = force_client_resync s" "realm_path (emit es s) = realm_path s"
  "download_callbacks (emit es s) = download_callbacks s" "upload_callbacks (emit es s) = upload_callbacks s"
  "client_resync_counter (emit es s) = client_resync_counter s" "server_override (emit es s) = server_override s"
  "native (emit es s) = native s" "has_been_bound (emit es s) = has_been_bound s"
  "deferred_commit (emit es s) = deferred_commit s" "deferred_close (emit es s) = deferred_close s"
  "server_url (emit es s) = server_url s" "progress_state (emit es s) = progress_state s"
  "reference_count (emit es s) = reference_count s" "pending_drops (emit es s) = pending_drops s"
  "sessions_made (emit es s) = sessions_made s" "waiters (emit es s) = waiters s"
  "log (emit es s) = log s @ es"
  by (simp_all add: emit_def)

lemma call_session_emit: "native s \<noteq> None \<Longrightarrow> call_session es s = emit es s"
  by (auto simp: call_session_def)

fun pending :: "direction \<Rightarrow> session \<Rightarrow> nat list" where
  "pending Upload s = upload_callbacks s"
| "pending Download s = download_callbacks s"

section \<open>The invariant\<close>

fun waiter_current :: "session \<Rightarrow> waiter \<Rightarrow> bool" where
  "waiter_current s (Completion_waiter n dir counter) = (counter \<le> client_resync_counter s)"
| "waiter_current s (Death_waiter n deaths) = (deaths \<le> death_count s)"

definition attended :: "session \<Rightarrow> bool" where
  "attended s \<longleftrightarrow>
     (\<forall>dir. pending dir s \<noteq> [] \<longrightarrow>
       (\<exists>n. native s = Some n \<and> Completion_waiter n dir (client_resync_counter s) \<in> set (waiters s)))"

definition bound :: "session \<Rightarrow> bool" where
  "bound s \<longleftrightarrow> native s \<noteq> None \<and> has_been_bound s \<and> server_url s \<noteq> None"

definition calm :: "session \<Rightarrow> bool" where
  "calm s \<longleftrightarrow> Null_dereference \<notin> set (log s) \<and> (\<forall>w\<in>set (waiters s). waiter_current s w)"

definition session_ok :: "session \<Rightarrow> bool" where
  "session_ok s \<longleftrightarrow> calm s \<and>
     (case state s of
        Inactive \<Rightarrow> native s = None
      | WaitingForAccessToken \<Rightarrow> native s \<noteq> None \<longrightarrow> bound s
      | _ \<Rightarrow> bound s \<and> attended s)"

lemma session_ok_calm: "session_ok s \<Longrightarrow> calm s"
  by (simp add: session_ok_def)

lemma session_ok_connected: "session_ok s \<Longrightarrow> state s = Active \<or> state s = Dying \<Longrightarrow> bound s \<and> attended s"
  by (auto simp: session_ok_def)

lemma all_directions: "(\<forall>d. P d) \<longleftrightarrow> P Upload \<and> P Download"
  by (metis direction.exhaust)

lemma attended_def2: "attended s \<longleftrightarrow>
    (upload_callbacks s \<noteq> [] \<longrightarrow> (\<exists>n. native s = Some n \<and> Completion_waiter n Upload (client_resync_counter s) \<in> set (waiters s))) \<and>
    (download_callbacks s \<noteq> [] \<longrightarrow> (\<exists>n. native s = Some n \<and> Completion_waiter n Download (client_resync_counter s) \<in> set (waiters s)))"
  by (simp add: attended_def all_directions)

lemma waiter_current_cong:
  "client_resync_counter s = client_resync_counter s' \<Longrightarrow> death_count s = death_count s' \<Longrightarrow>
     waiter_current s w = waiter_current s' w"
  by (cases w) simp_all

lemma calm_cong:
  "log s = log s' \<Longrightarrow> waiters s = waiters s' \<Longrightarrow> client_resync_counter s = client_resync_counter s' \<Longrightarrow>
     death_count s = death_count s' \<Longrightarrow> calm s = calm s'"
  by (simp add: calm_def waiter_current_cong[of s s'])

lemma calm_emit [simp]: "calm (emit es s) \<longleftrightarrow> calm s \<and> Null_dereference \<notin> set es"
proof -
  have "waiter_current (emit es s) = waiter_current s" by (rule ext, rule waiter_current_cong) simp_all
  then show ?thesis by (auto simp: calm_def)
qed

lemma parts_emit [simp]: "bound (emit es s) = bound s" "attended (emit es s) = attended s"
  by (simp_all add: bound_def attended_def2)

lemma session_ok_emit [simp]: "session_ok (emit es s) \<longleftrightarrow> session_ok s \<and> Null_dereference \<notin> set es"
  by (auto simp: session_ok_def split: public_state.splits)

lemma cancelled_no_null [simp]: "Null_dereference \<notin> set (cancelled cbs)"
  by (auto simp: cancelled_def)

lemma calm_add_waiter:
  "calm (s\<lparr>waiters := waiters s @ [w]\<rparr>) \<longleftrightarrow> calm s \<and> waiter_current s w"
proof -
  have "waiter_current (s\<lparr>waiters := ws\<rparr>) v = waiter_current s v" for ws v by (rule waiter_current_cong) simp_all
  then show ?thesis by (auto simp: calm_def)
qed

section \<open>Entering a state\<close>

lemma enter_inactive_ok: "calm s \<Longrightarrow> session_ok (enter_inactive s)"
  using calm_cong[of "s\<lparr>state := Inactive, connection_state := Disconnected, download_callbacks := [],
    upload_callbacks := [], native := None\<rparr>" s]
  by (simp add: enter_inactive_def Let_def session_ok_def unregister_def)

lemma enter_inactive_parts [simp]:
  "state (enter_inactive s) = Inactive" "native (enter_inactive s) = None"
  "download_callbacks (enter_inactive s) = []" "upload_callbacks (enter_inactive s) = []"
  "waiters (enter_inactive s) = waiters s" "client_resync_counter (enter_inactive s) = client_resync_counter s"
  "death_count (enter_inactive s) = death_count s" "config (enter_inactive s) = config s"
  by (simp_all add: enter_inactive_def Let_def unregister_def)

lemma enter_waiting_ok: "calm s \<Longrightarrow> native s = None \<or> bound s \<Longrightarrow> session_ok (enter_waiting s)"
  using calm_cong[of "enter_waiting s" s] by (auto simp: enter_waiting_def session_ok_def bound_def)

text \<open>Adding a completion handler when there is something to wait for.\<close>

lemma add_completion_ok:
  assumes "calm s" "native s = Some n" and "s' = (if b then add_completion_callback dir s else s)"
  shows "calm s'" and "native s' = Some n" and "bound s' = bound s" and "state s' = state s"
    and "pending d s' = pending d s" and "client_resync_counter s' = client_resync_counter s"
    and "deferred_close s' = deferred_close s" and "set (waiters s) \<subseteq> set (waiters s')"
    and "b \<Longrightarrow> Completion_waiter n dir (client_resync_counter s) \<in> set (waiters s')"
proof -
  show "calm s'" using assms calm_add_waiter[of s "Completion_waiter n dir (client_resync_counter s)"]
    by (simp add: add_completion_callback_def)
  show "pending d s' = pending d s" using assms(2,3) by (cases d) (simp_all add: add_completion_callback_def)
qed (use assms(2,3) in \<open>auto simp: add_completion_callback_def bound_def\<close>)

lemma enter_active_ok:
  assumes "calm s" "bound s"
  shows "session_ok (enter_active s) \<and> state (enter_active s) = Active \<and> deferred_close (enter_active s) = deferred_close s"
proof -
  let ?s1 = "s\<lparr>state := Active\<rparr>"
  obtain n where n: "native ?s1 = Some n" using assms(2) by (auto simp: bound_def)
  have c1: "calm ?s1" "bound ?s1" using assms calm_cong[of ?s1 s] by (simp_all add: bound_def)
  define s2 where "s2 = (if upload_callbacks ?s1 \<noteq> [] then add_completion_callback Upload ?s1 else ?s1)"
  note u = add_completion_ok[OF c1(1) n s2_def]
  define s3 where "s3 = (if download_callbacks s2 \<noteq> [] then add_completion_callback Download s2 else s2)"
  note d = add_completion_ok[OF u(1,2) s3_def]
  have p: "upload_callbacks s3 = upload_callbacks s2" "download_callbacks s3 = download_callbacks s2"
    "upload_callbacks s2 = upload_callbacks ?s1"
    using d(5)[of Upload] d(5)[of Download] u(5)[of Upload] by simp_all
  have "attended s3" unfolding attended_def2 p d(6) d(2) u(6)
    using d(8,9) u(9) u(6) by (auto simp: p(3))
  moreover have "calm s3" "bound s3" "state s3 = Active" "deferred_close s3 = deferred_close s"
    using d(1,3,4,7) u(3,4,7) c1(2) by simp_all
  moreover have "enter_active s = s3" by (simp only: enter_active_def Let_def s2_def s3_def)
  ultimately show ?thesis by (simp add: session_ok_def)
qed

lemma enter_dying_ok:
  assumes "calm s" "bound s" "attended s"
  shows "session_ok (enter_dying s)"
proof -
  obtain n where n: "native s = Some n" using assms(2) by (auto simp: bound_def)
  let ?s1 = "s\<lparr>state := Dying, death_count := death_count s + 1\<rparr>"
  have "waiter_current ?s1 w" if "waiter_current s w" for w using that by (cases w) auto
  then have "calm ?s1" using assms(1) by (auto simp: calm_def)
  then have "calm (?s1\<lparr>waiters := waiters ?s1 @ [Death_waiter n (death_count s + 1)]\<rparr>)"
    by (simp only: calm_add_waiter) simp
  then show ?thesis using n assms(2,3)
    by (simp add: enter_dying_def session_ok_def bound_def attended_def2)
qed

lemmas enter_ok = enter_inactive_ok enter_waiting_ok enter_active_ok enter_dying_ok

section \<open>The operations of the states\<close>

lemma state_close_ok: "session_ok s \<Longrightarrow> session_ok (state_close s)"
proof -
  assume ok: "session_ok s"
  have "session_ok (s\<lparr>deferred_close := True\<rparr>)"
    using ok calm_cong[of "s\<lparr>deferred_close := True\<rparr>" s]
    by (auto simp: session_ok_def bound_def attended_def2 split: public_state.splits)
  with ok show ?thesis
    by (auto simp: close_defs advance_state_def unregister_def session_ok_calm
      enter_inactive_ok dest: session_ok_connected intro!: enter_dying_ok
      split: public_state.split stop_policy.split)
qed

lemma create_sync_session_parts:
  assumes "calm s" and "native s = None \<or> bound s"
  shows "calm (create_sync_session s)" and "native (create_sync_session s) \<noteq> None"
    and "has_been_bound (create_sync_session s) \<Longrightarrow> bound s"
    and "server_url (create_sync_session s) = server_url s"
    and "state (create_sync_session s) = state s"
    and "deferred_close (create_sync_session s) = deferred_close s"
  using assms calm_cong[of "s\<lparr>native := Some (sessions_made s), sessions_made := sessions_made s + 1,
      has_been_bound := False\<rparr>" s]
  by (auto simp: create_sync_session_def bound_def)

lemma waiting_refresh_ok:
  assumes "session_ok s" and "state s = WaitingForAccessToken" and "server_url s \<noteq> None \<or> url \<noteq> None"
  shows "session_ok (waiting_refresh token url s)"
    and "\<not> deferred_close s \<Longrightarrow> state (waiting_refresh token url s) = Active"
proof -
  have c: "calm s" "native s = None \<or> bound s" using assms(1,2) by (auto simp: session_ok_def)
  note c1 = create_sync_session_parts[OF c]
  define s1 where "s1 = create_sync_session s"
  define s2 where "s2 = (if server_url s1 = None then s1\<lparr>server_url := url\<rparr> else s1)"
  have s2: "calm s2" "native s2 \<noteq> None" "server_url s2 \<noteq> None" "deferred_close s2 = deferred_close s"
    using c1 assms(3) calm_cong[of "s1\<lparr>server_url := url\<rparr>" s1] by (auto simp: s2_def s1_def)
  define s3 where "s3 = bind_or_refresh token s2"
  have s3: "calm s3 \<and> bound s3 \<and> deferred_close s3 = deferred_close s"
  proof (cases "has_been_bound s2")
    case True
    with s2 show ?thesis by (auto simp: s3_def bind_or_refresh_def bound_def call_session_emit)
  next
    case False
    obtain u where u: "server_url s2 = Some u" using s2(3) by auto
    have "s3 = (emit [Session_bound u token] s2)\<lparr>has_been_bound := True\<rparr>"
      using False u s2(2) by (simp add: s3_def bind_or_refresh_def call_session_emit)
    with s2 calm_cong[of s3 "emit [Session_bound u token] s2"] show ?thesis by (simp add: bound_def)
  qed
  define s4 where "s4 = (case server_override s3 of
      Some (address, port) \<Rightarrow> call_session [Server_overridden address port] s3 | None \<Rightarrow> s3)"
  have s4: "calm s4 \<and> bound s4 \<and> deferred_close s4 = deferred_close s"
    using s3 by (auto simp: s4_def bound_def call_session_emit split: option.splits)
  define s5 where "s5 = (case deferred_commit s4 of
      Some version \<Rightarrow> (call_session [Commit_notified version] s4)\<lparr>deferred_commit := None\<rparr> | None \<Rightarrow> s4)"
  have s5: "calm s5 \<and> bound s5 \<and> deferred_close s5 = deferred_close s"
  proof (cases "deferred_commit s4")
    case (Some version)
    have "s5 = (emit [Commit_notified version] s4)\<lparr>deferred_commit := None\<rparr>"
      using Some s4 by (simp add: s5_def bound_def call_session_emit)
    with s4 calm_cong[of s5 "emit [Commit_notified version] s4"] show ?thesis by (simp add: bound_def)
  qed (use s4 in \<open>simp add: s5_def\<close>)
  note a = enter_active_ok[of s5]
  have r: "waiting_refresh token url s =
      (if deferred_close (enter_active s5) then state_close (enter_active s5) else enter_active s5)"
    by (simp only: waiting_refresh_def Let_def advance_state_def public_state.case
      s5_def s4_def s3_def s2_def s1_def)
  show "session_ok (waiting_refresh token url s)" unfolding r using a s5 state_close_ok by simp
  show "\<not> deferred_close s \<Longrightarrow> state (waiting_refresh token url s) = Active" unfolding r using a s5 by simp
qed

lemma refresh_access_token_ok: "session_ok s \<Longrightarrow> session_ok (refresh_access_token token url s)"
  using waiting_refresh_ok(1)[of s url token] session_ok_connected[of s]
  by (auto simp: refresh_access_token_def refresh_defs bound_def call_session_emit split: public_state.split)

lemma state_token_expired_ok: "session_ok s \<Longrightarrow> session_ok (state_token_expired s)"
  by (simp add: token_expired_defs advance_state_def enter_waiting_ok session_ok_calm session_ok_connected)

lemma state_commit_ok: "session_ok s \<Longrightarrow> session_ok (state_commit version s)"
  using calm_cong[of "s\<lparr>deferred_commit := Some version\<rparr>" s] session_ok_connected[of s]
  by (auto simp: commit_defs bound_def call_session_emit session_ok_def split: public_state.split)

lemma state_revive_ok: "session_ok s \<Longrightarrow> session_ok (fst (state_revive s))"
  using calm_cong[of "s\<lparr>deferred_close := False\<rparr>" s] session_ok_connected[of s]
  by (auto simp: revive_defs advance_state_def session_ok_calm enter_active_ok
    intro!: enter_waiting_ok split: public_state.split) (auto simp: session_ok_def bound_def)

lemma revive_if_needed_ok: "session_ok s \<Longrightarrow> session_ok (revive_if_needed s)"
  using state_revive_ok[of s] by (auto simp: revive_if_needed_def split: prod.split)

lemma state_reconnect_ok: "session_ok s \<Longrightarrow> session_ok (state_reconnect s)"
  using session_ok_connected[of s]
  by (auto simp: reconnect_defs bound_def call_session_emit split: public_state.split)

lemma state_log_out_ok: "session_ok s \<Longrightarrow> session_ok (state_log_out s)"
  by (simp add: log_out_defs advance_state_def enter_inactive_ok session_ok_calm)

lemma state_handle_error_ok: "session_ok s \<Longrightarrow> session_ok (fst (state_handle_error e s))"
  by (simp add: state_error_defs advance_state_def enter_inactive_ok session_ok_calm)

lemma state_override_ok: "session_ok s \<Longrightarrow> session_ok (state_override address port s)"
proof -
  assume ok: "session_ok s"
  let ?s = "s\<lparr>server_override := Some (address, port)\<rparr>"
  have "session_ok ?s" using ok calm_cong[of ?s s]
    by (auto simp: session_ok_def bound_def attended_def2 split: public_state.splits)
  with session_ok_connected[OF ok] show ?thesis
    by (auto simp: override_defs bound_def call_session_emit Let_def)
qed

lemma wait_for_completion_ok: "session_ok s \<Longrightarrow> session_ok (wait_for_completion dir cb s)"
proof -
  assume ok: "session_ok s"
  define s1 where "s1 = (if pending dir s = [] then state_wait dir s else s)"
  have w: "wait_for_completion dir cb s =
      (case dir of Upload \<Rightarrow> s1\<lparr>upload_callbacks := upload_callbacks s1 @ [cb]\<rparr>
       | Download \<Rightarrow> s1\<lparr>download_callbacks := download_callbacks s1 @ [cb]\<rparr>)"
    by (cases dir) (simp_all add: wait_for_completion_def s1_def Let_def)
  show ?thesis
  proof (cases "state s = Active \<or> state s = Dying")
    case True
    then have b: "bound s" "attended s" using session_ok_connected[OF ok] by simp_all
    then obtain n where n: "native s = Some n" by (auto simp: bound_def)
    have "s1 = (if pending dir s = [] then add_completion_callback dir s else s)"
      using True by (simp add: s1_def wait_defs)
    note a = add_completion_ok[OF session_ok_calm[OF ok] n this]
    have s1: "calm s1" "bound s1" "native s1 = Some n" "state s1 = state s"
      "client_resync_counter s1 = client_resync_counter s" "set (waiters s) \<subseteq> set (waiters s1)"
      using a b by simp_all
    have att: "Completion_waiter n dir (client_resync_counter s) \<in> set (waiters s1)"
      using a(8,9) b(2) n unfolding attended_def by (metis option.inject subsetD)
    have "attended s1" using b(2) n s1(3,5,6) a(5) unfolding attended_def by (simp add: subset_iff)
    then show ?thesis using s1 att True calm_cong[of "wait_for_completion dir cb s" s1]
      unfolding w by (cases dir) (auto simp: session_ok_def bound_def attended_def2 split: public_state.splits)
  next
    case False
    then have "s1 = s" by (simp add: s1_def wait_defs)
    then show ?thesis using ok False calm_cong[of "wait_for_completion dir cb s" s]
      unfolding w by (cases dir) (auto simp: session_ok_def bound_def split: public_state.splits)
  qed
qed

section \<open>Errors, waiters and references\<close>

lemma cancel_pending_waits_ok: "session_ok s \<Longrightarrow> session_ok (cancel_pending_waits s)"
  using calm_cong[of "s\<lparr>download_callbacks := [], upload_callbacks := []\<rparr>" s]
  by (auto simp: cancel_pending_waits_def session_ok_def bound_def attended_def2 split: public_state.splits)

lemma finish_error_ok: "session_ok s \<Longrightarrow> session_ok (finish_error next e s)"
  by (cases "next") (simp_all add: finish_error_def Let_def cancel_pending_waits_ok advance_state_def
    enter_inactive_ok session_ok_calm)

lemma mark_for_deletion_ok:
  "session_ok s \<Longrightarrow> mark_for_deletion recovery b e s = (e', s') \<Longrightarrow> session_ok s'"
  by (auto simp: mark_for_deletion_def Let_def)

lemma report_error_ok: "session_ok s \<Longrightarrow> session_ok (report_error recovery e s)"
  by (auto simp: report_error_def Let_def finish_error_ok state_token_expired_ok cancel_pending_waits_ok
    dest: mark_for_deletion_ok split: disposition.split option.split prod.split)

lemma inactive_with_callbacks:
  assumes "calm s"
  shows "session_ok ((enter_inactive s)\<lparr>download_callbacks := ds, upload_callbacks := us\<rparr>)"
proof -
  let ?t = "(enter_inactive s)\<lparr>download_callbacks := ds, upload_callbacks := us\<rparr>"
  have "calm ?t = calm (enter_inactive s)" by (rule calm_cong) simp_all
  then show ?thesis using session_ok_calm[OF enter_inactive_ok[OF assms]] by (simp add: session_ok_def)
qed

lemma client_resync_ok: "session_ok s \<Longrightarrow> session_ok (client_resync s)"
proof -
  assume ok: "session_ok s"
  let ?s1 = "s\<lparr>force_client_resync := True, client_resync_counter := client_resync_counter s + 1,
    download_callbacks := [], upload_callbacks := []\<rparr>"
  have "waiter_current ?s1 w" if "waiter_current s w" for w using that by (cases w) auto
  then have "calm ?s1" using session_ok_calm[OF ok] by (auto simp: calm_def)
  from revive_if_needed_ok[OF inactive_with_callbacks[OF this]] show ?thesis
    by (simp add: client_resync_def advance_state_def Let_def)
qed

lemma handle_error_ok: "session_ok s \<Longrightarrow> session_ok (handle_error recovery e s)"
  using state_handle_error_ok[of s e]
  by (auto simp: handle_error_def Let_def client_resync_ok report_error_ok split: prod.split)

lemma fire_waiter_ok: "session_ok s \<Longrightarrow> session_ok (fire_waiter w result s)"
proof -
  assume ok: "session_ok s"
  let ?s1 = "s\<lparr>waiters := remove1 w (waiters s)\<rparr>"
  have "waiter_current ?s1 = waiter_current s" by (rule ext, rule waiter_current_cong) simp_all
  then have c: "calm ?s1" using session_ok_calm[OF ok] set_remove1_subset[of w "waiters s"] by (auto simp: calm_def)
  have b: "bound ?s1 = bound s" by (simp add: bound_def)
  show ?thesis
  proof (cases w)
    case (Death_waiter n deaths)
    have "attended ?s1 = attended s" by (simp add: attended_def2 Death_waiter)
    then have "session_ok ?s1" using ok c b by (auto simp: session_ok_def split: public_state.splits)
    then show ?thesis using c by (simp add: fire_defs Let_def Death_waiter advance_state_def enter_inactive_ok)
  next
    case (Completion_waiter n dir counter)
    show ?thesis
    proof (cases "counter = client_resync_counter s")
      case False
      have "attended ?s1 = attended s" using False by (auto simp: attended_def2 Completion_waiter)
      then have "session_ok ?s1" using ok c b by (auto simp: session_ok_def split: public_state.splits)
      then show ?thesis using False by (simp add: fire_defs Let_def Completion_waiter)
    next
      case True
      have d: "calm (?s1\<lparr>download_callbacks := []\<rparr>)" "calm (?s1\<lparr>upload_callbacks := []\<rparr>)"
        using c calm_cong[of "?s1\<lparr>download_callbacks := []\<rparr>" ?s1] calm_cong[of "?s1\<lparr>upload_callbacks := []\<rparr>" ?s1]
        by simp_all
      have "attended s \<Longrightarrow> dir = Download \<Longrightarrow> attended (?s1\<lparr>download_callbacks := []\<rparr>)"
        "attended s \<Longrightarrow> dir = Upload \<Longrightarrow> attended (?s1\<lparr>upload_callbacks := []\<rparr>)"
        by (auto simp: attended_def2 Completion_waiter)
      with ok d have "dir = Download \<Longrightarrow> session_ok (?s1\<lparr>download_callbacks := []\<rparr>)"
        "dir = Upload \<Longrightarrow> session_ok (?s1\<lparr>upload_callbacks := []\<rparr>)"
        by (auto simp: session_ok_def bound_def split: public_state.splits)
      then show ?thesis using True by (cases dir) (auto simp: fire_defs Let_def Completion_waiter)
    qed
  qed
qed

lemma session_ok_cong:
  assumes "state s' = state s" "native s' = native s" "has_been_bound s' = has_been_bound s"
    "server_url s' = server_url s" "log s' = log s" "waiters s' = waiters s"
    "client_resync_counter s' = client_resync_counter s" "death_count s' = death_count s"
    "download_callbacks s' = download_callbacks s" "upload_callbacks s' = upload_callbacks s"
  shows "session_ok s' = session_ok s"
proof -
  have "calm s' = calm s" by (rule calm_cong) (simp_all add: assms)
  moreover have "bound s' = bound s" "attended s' = attended s" by (simp_all add: bound_def attended_def2 assms)
  ultimately show ?thesis by (simp add: session_ok_def assms split: public_state.split)
qed

lemma quiet_ok:
  assumes "session_ok s"
  shows "session_ok (s\<lparr>progress_state := p\<rparr>)" "session_ok (s\<lparr>multiplex_identity := i\<rparr>)"
    "session_ok (s\<lparr>config := c\<rparr>)" "session_ok (s\<lparr>reference_count := r\<rparr>)" "session_ok (s\<lparr>pending_drops := d\<rparr>)"
    "session_ok (s\<lparr>connection_state := k\<rparr>)" "session_ok (s\<lparr>reference_count := r, pending_drops := d\<rparr>)"
  by (rule session_ok_cong[THEN iffD2, OF _ _ _ _ _ _ _ _ _ _ assms]; simp)+

lemma update_configuration_ok: "session_ok s \<Longrightarrow> session_ok (update_configuration cfg s)"
proof -
  assume ok: "session_ok s"
  define s1 where "s1 = (if state s \<noteq> Inactive then advance_state Inactive s else s)"
  have "session_ok s1" using ok by (simp add: s1_def advance_state_def enter_inactive_ok session_ok_calm)
  moreover have "session_ok (s1\<lparr>config := cfg\<rparr>) = session_ok s1" by (rule session_ok_cong) simp_all
  ultimately show ?thesis using revive_if_needed_ok by (simp add: update_configuration_def s1_def[symmetric] Let_def)
qed

lemma did_drop_ok: "session_ok s \<Longrightarrow> session_ok (did_drop_external_reference s)"
proof -
  assume ok: "session_ok s"
  have "session_ok (s\<lparr>pending_drops := pending_drops s - 1\<rparr>)"
    using ok by (rule quiet_ok)
  then show ?thesis using state_close_ok by (simp add: did_drop_external_reference_def Let_def)
qed

section \<open>Every step\<close>

lemma perform_ok:
  assumes "session_ok s"
  shows "session_ok (perform e s)"
proof (cases e)
  case (Commit v)
  then show ?thesis using assms by (simp add: nonsync_transact_notify_def state_commit_ok quiet_ok)
next
  case (Register_progress cb dir b)
  then show ?thesis using assms by (auto simp: register_progress_def quiet_ok split: prod.split)
next
  case (Progress a b c d v n)
  then show ?thesis using assms by (auto simp: handle_progress_update_def quiet_ok split: prod.split)
next
  case (Connection new e recovery)
  then show ?thesis using assms by (auto simp: connection_changed_def Let_def quiet_ok handle_error_ok split: option.split)
next
  case Take_existing
  then show ?thesis using assms by (simp add: existing_external_reference_def quiet_ok)
qed (use assms in \<open>simp_all add: refresh_access_token_ok revive_if_needed_ok state_reconnect_ok
  state_log_out_ok state_close_ok wait_for_completion_ok state_override_ok update_configuration_ok
  set_multiplex_identifier_def set_url_prefix_def unregister_progress_def external_reference_def
  release_reference_def Let_def did_drop_ok fire_waiter_ok quiet_ok\<close>)

lemma session_new_ok: "session_ok (session_new path partial cfg resync b)"
  by (simp add: session_new_def session_ok_def calm_def)

lemma run_ok: "run s es s' \<Longrightarrow> session_ok s \<Longrightarrow> session_ok s'"
  by (induction rule: run.induct) (auto simp: perform_ok)

end
