(* ===== verification/SyncSessionCallbacks.thy ===== *)
theory SyncSessionCallbacks imports SyncSessionLaws begin

text \<open>
  The account of the completion callbacks: every callback a caller registers is either still
  pending or has been run exactly once.  Also the facts about revived and resynchronised sessions
  that the handlers of earlier phases cannot disturb.
\<close>

section \<open>The account\<close>

definition answer :: "effect \<Rightarrow> nat list" where
  "answer f = (case f of Callback_invoked cb r \<Rightarrow> [cb] | _ \<Rightarrow> [])"

definition answered :: "effect list \<Rightarrow> nat list" where
  "answered fs = concat (map answer fs)"

definition asked :: "event list \<Rightarrow> nat list" where
  "asked es = concat (map (\<lambda>e. case e of Wait dir cb \<Rightarrow> [cb] | _ \<Rightarrow> []) es)"

definition account :: "session \<Rightarrow> nat multiset" where
  "account s = mset (answered (log s)) + mset (upload_callbacks s) + mset (download_callbacks s)"

lemma answer_simps [simp]:
  "answer (Callback_invoked cb r) = [cb]" "answer Token_requested = []" "answer Unregistered = []"
  "answer (Connection_changed a b) = []" "answer (Session_made c) = []" "answer (Session_bound u t) = []"
  "answer (Session_refreshed t) = []" "answer Reconnect_delay_cancelled = []"
  "answer (Server_overridden x y) = []" "answer (Commit_notified v) = []" "answer (Progress_reported i) = []"
  "answer (User_invalidated u) = []" "answer (File_action_recorded p q u fa t) = []"
  "answer (Error_reported e) = []" "answer Null_dereference = []"
  by (simp_all add: answer_def)

lemma answered_simps [simp]:
  "answered [] = []" "answered (f # fs) = answer f @ answered fs" "answered (fs @ gs) = answered fs @ answered gs"
  by (simp_all add: answered_def)

lemma answered_cancelled [simp]: "answered (cancelled cbs) = cbs"
  by (induction cbs) (simp_all add: cancelled_def)

lemma answered_map [simp]: "answered (map (\<lambda>cb. Callback_invoked cb r) cbs) = cbs"
  "answered (map Progress_reported calls) = []"
  by (induction cbs, simp_all) (induction calls, simp_all)

lemma account_emit [simp]: "account (emit fs s) = account s + mset (answered fs)"
  by (simp add: account_def)

lemma account_call [simp]: "answered fs = [] \<Longrightarrow> account (call_session fs s) = account s"
  by (simp add: call_session_def)

lemma account_cong:
  "log s = log s' \<Longrightarrow> upload_callbacks s = upload_callbacks s' \<Longrightarrow> download_callbacks s = download_callbacks s' \<Longrightarrow>
     account s = account s'"
  by (simp add: account_def)

lemma account_quiet [simp]:
  "account (s\<lparr>state := a\<rparr>) = account s" "account (s\<lparr>deferred_close := b\<rparr>) = account s"
  "account (s\<lparr>waiters := c\<rparr>) = account s" "account (s\<lparr>death_count := d\<rparr>) = account s"
  "account (s\<lparr>server_url := e\<rparr>) = account s" "account (s\<lparr>has_been_bound := b\<rparr>) = account s"
  "account (s\<lparr>deferred_commit := f\<rparr>) = account s" "account (s\<lparr>native := g\<rparr>) = account s"
  "account (s\<lparr>server_override := h\<rparr>) = account s" "account (s\<lparr>progress_state := i\<rparr>) = account s"
  "account (s\<lparr>multiplex_identity := j\<rparr>) = account s" "account (s\<lparr>config := k\<rparr>) = account s"
  "account (s\<lparr>reference_count := d\<rparr>) = account s" "account (s\<lparr>pending_drops := d\<rparr>) = account s"
  "account (s\<lparr>connection_state := l\<rparr>) = account s" "account (s\<lparr>sessions_made := d\<rparr>) = account s"
  by (simp_all add: account_def)

lemma account_add_completion [simp]: "account (add_completion_callback dir s) = account s"
  by (simp add: add_completion_callback_def split: option.split)

lemma account_enter_waiting [simp]: "account (enter_waiting s) = account s"
  by (rule account_cong) (simp_all add: enter_waiting_def)

lemma account_enter_active [simp]: "account (enter_active s) = account s"
  by (simp add: enter_active_def Let_def)

lemma account_enter_inactive [simp]: "account (enter_inactive s) = account s"
  by (simp add: enter_inactive_def Let_def unregister_def account_def)

lemma account_enter_dying [simp]: "account (enter_dying s) = account s"
  by (simp add: enter_dying_def Let_def split: option.split)

lemma account_advance [simp]: "account (advance_state st s) = account s"
  by (cases st) (simp_all add: advance_state_def)

lemma account_cancel [simp]: "account (cancel_pending_waits s) = account s"
  by (simp add: cancel_pending_waits_def account_def)

section \<open>Every step keeps the account\<close>

lemma account_close [simp]: "account (state_close s) = account s"
  by (simp add: close_defs unregister_def split: public_state.split stop_policy.split)

lemma account_create [simp]: "account (create_sync_session s) = account s"
  by (simp add: create_sync_session_def)

lemma account_bind [simp]: "account (bind_or_refresh token s) = account s"
  by (simp add: bind_or_refresh_def split: option.split)

lemma account_refresh [simp]: "account (refresh_access_token token url s) = account s"
  by (simp add: refresh_access_token_def refresh_defs waiting_refresh_def Let_def
    split: public_state.split option.split prod.split)

lemma account_revive [simp]: "account (revive_if_needed s) = account s"
  by (simp add: revive_if_needed_def revive_defs split: public_state.split)

lemma account_token_expired [simp]: "account (state_token_expired s) = account s"
  by (simp add: token_expired_defs)

lemma account_finish [simp]: "account (finish_error next e s) = account s"
  by (cases "next") (simp_all add: finish_error_def Let_def)

lemma account_mark: "mark_for_deletion recovery b e s = (e', s') \<Longrightarrow> account s' = account s"
  by (auto simp: mark_for_deletion_def Let_def)

lemma account_report [simp]: "account (report_error recovery e s) = account s"
  by (auto simp: report_error_def Let_def dest: account_mark split: disposition.split option.split prod.split)

lemma account_resync [simp]: "account (client_resync s) = account s"
proof -
  let ?s1 = "s\<lparr>force_client_resync := True, client_resync_counter := client_resync_counter s + 1,
    download_callbacks := [], upload_callbacks := []\<rparr>"
  have "account (enter_inactive ?s1) = account ?s1" by simp
  then have "answered (log (enter_inactive ?s1)) = answered (log s) \<or>
      mset (answered (log (enter_inactive ?s1))) = mset (answered (log s))"
    by (simp add: account_def)
  then show ?thesis by (auto simp: client_resync_def Let_def advance_state_def) (auto simp: account_def)
qed

lemma account_error [simp]: "account (handle_error recovery e s) = account s"
  by (simp add: handle_error_def state_error_defs)

lemma account_fire [simp]: "account (fire_waiter w result s) = account s"
proof -
  have "account (emit (map (\<lambda>cb. Callback_invoked cb result) (download_callbacks s))
      (s\<lparr>waiters := ws, download_callbacks := []\<rparr>)) = account s"
    "account (emit (map (\<lambda>cb. Callback_invoked cb result) (upload_callbacks s))
      (s\<lparr>waiters := ws, upload_callbacks := []\<rparr>)) = account s" for ws
    by (simp_all only: account_emit answered_map) (simp_all add: account_def)
  then show ?thesis
    by (auto simp: fire_defs Let_def split: waiter.split direction.split)
qed

lemma account_wait [simp]: "account (wait_for_completion dir cb s) = account s + {#cb#}"
proof -
  have "account (state_wait dir s) = account s" by (simp add: wait_defs)
  moreover have "account (t\<lparr>upload_callbacks := upload_callbacks t @ [cb]\<rparr>) = account t + {#cb#}"
    "account (t\<lparr>download_callbacks := download_callbacks t @ [cb]\<rparr>) = account t + {#cb#}" for t
    by (simp_all add: account_def)
  ultimately show ?thesis by (cases dir) (simp_all add: wait_for_completion_def Let_def)
qed

lemma account_perform: "account (perform e s) = account s + mset (asked [e])"
  by (cases e) (simp_all add: asked_def nonsync_transact_notify_def commit_defs register_progress_def
    handle_progress_update_def connection_changed_def update_configuration_def Let_def reconnect_defs
    log_out_defs override_defs set_multiplex_identifier_def set_url_prefix_def
    unregister_progress_def external_reference_def existing_external_reference_def release_reference_def
    did_drop_external_reference_def split: public_state.split prod.split option.split)

lemma account_run: "run s es s' \<Longrightarrow> account s' = account s + mset (asked es)"
  by (induction rule: run.induct) (auto simp: account_perform asked_def)

lemma account_new [simp]: "account (session_new path partial cfg resync b) = {#}"
  by (simp add: account_def session_new_def)

lemma account_run_new: "run (session_new path partial cfg resync b) es s \<Longrightarrow> account s = mset (asked es)"
  using account_run by force

section \<open>Handlers of earlier phases\<close>

lemma waiters_current: "session_ok s \<Longrightarrow> w \<in> set (waiters s) \<Longrightarrow> waiter_current s w"
  by (simp add: session_ok_def calm_def)

lemma revive_inactive_parts:
  "state s = Inactive \<Longrightarrow> state (revive_if_needed s) = WaitingForAccessToken \<and>
     upload_callbacks (revive_if_needed s) = upload_callbacks s \<and>
     download_callbacks (revive_if_needed s) = download_callbacks s \<and>
     waiters (revive_if_needed s) = waiters s \<and>
     client_resync_counter (revive_if_needed s) = client_resync_counter s \<and>
     answered (log (revive_if_needed s)) = answered (log s)"
  by (simp add: revive_if_needed_def revive_defs advance_state_def enter_waiting_def)

lemma enter_inactive_log: "download_callbacks s = [] \<Longrightarrow> upload_callbacks s = [] \<Longrightarrow>
    answered (log (enter_inactive s)) = answered (log s)"
  by (simp add: enter_inactive_def Let_def unregister_def)

lemma client_resync_parts:
  "state (client_resync s) = WaitingForAccessToken \<and>
     upload_callbacks (client_resync s) = upload_callbacks s \<and>
     download_callbacks (client_resync s) = download_callbacks s \<and>
     waiters (client_resync s) = waiters s \<and>
     client_resync_counter (client_resync s) = client_resync_counter s + 1 \<and>
     answered (log (client_resync s)) = answered (log s)"
  by (simp add: client_resync_def advance_state_def Let_def revive_inactive_parts enter_inactive_log)

lemma stale_completion:
  assumes "counter \<noteq> client_resync_counter s"
  shows "log (fire_waiter (Completion_waiter n dir counter) result s) = log s"
    and "pending d (fire_waiter (Completion_waiter n dir counter) result s) = pending d s"
  using assms by (cases d; simp add: fire_defs Let_def)+

lemma stale_death:
  "state s \<noteq> Dying \<or> death_count s \<noteq> deaths \<Longrightarrow>
     state (fire_waiter (Death_waiter n deaths) result s) = state s"
  by (auto simp: fire_defs Let_def)

section \<open>State changes\<close>

lemma state_add_completion [simp]: "state (add_completion_callback dir s) = state s"
  by (simp add: add_completion_callback_def split: option.split)

lemma state_call [simp]: "state (call_session fs s) = state s" "config (call_session fs s) = config s"
  by (simp_all add: call_session_def)

lemma config_add_completion [simp]: "config (add_completion_callback dir s) = config s"
  by (simp add: add_completion_callback_def split: option.split)

lemma state_enter [simp]:
  "state (enter_active s) = Active" "state (enter_waiting s) = WaitingForAccessToken"
  "config (enter_active s) = config s" "config (enter_waiting s) = config s"
  by (simp_all add: enter_active_def enter_waiting_def Let_def)

lemma state_enter_dying: "state (enter_dying s) = (if native s = None then Inactive else Dying)"
  by (auto simp: enter_dying_def Let_def split: option.split)

lemma state_of_close:
  "state (state_close s) \<noteq> state s \<Longrightarrow>
     state (state_close s) = Inactive \<and> state s \<noteq> Inactive \<or>
     state (state_close s) = Dying \<and> state s = Active \<and> stop_policy (config s) = AfterChangesUploaded"
  by (auto simp: close_defs advance_state_def unregister_def state_enter_dying
    split: public_state.splits stop_policy.splits if_splits)

lemma state_create [simp]: "state (create_sync_session s) = state s" "config (create_sync_session s) = config s"
  by (simp_all add: create_sync_session_def)

lemma state_bind [simp]: "state (bind_or_refresh token s) = state s" "config (bind_or_refresh token s) = config s"
  by (simp_all add: bind_or_refresh_def split: option.split)

lemma state_of_waiting_refresh:
  "state (waiting_refresh token url s) = Active \<or> state (waiting_refresh token url s) = Inactive \<or>
     state (waiting_refresh token url s) = Dying \<and> stop_policy (config s) = AfterChangesUploaded"
proof -
  have c: "config (call_session fs t) = config t" for fs t by simp
  obtain t where t: "state t = Active" "config t = config s"
    "waiting_refresh token url s = (if deferred_close t then state_close t else t)"
    by (rule that) (simp_all add: waiting_refresh_def Let_def advance_state_def split: option.split)
  then show ?thesis using state_of_close[of t] by (cases "state (state_close t) = Active") auto
qed

lemma state_finish: "state (finish_error next e s) = (if next = Next_inactive then Inactive else state s)"
  by (cases "next") (simp_all add: finish_error_def Let_def advance_state_def cancel_pending_waits_def)

lemma state_of_error:
  "state (handle_error recovery e s) = state s \<or> state (handle_error recovery e s) = Inactive \<or>
     state (handle_error recovery e s) = WaitingForAccessToken \<and> state s \<noteq> Dying"
  by (auto simp: handle_error_def state_error_defs client_resync_parts report_error_def Let_def
    advance_state_def state_finish token_expired_defs mark_for_deletion_def cancel_pending_waits_def
    split: disposition.split option.split)

lemma state_of_fire: "state (fire_waiter w result s) = state s \<or> state (fire_waiter w result s) = Inactive \<and> state s = Dying"
  by (auto simp: fire_defs Let_def advance_state_def split: waiter.split direction.split)

end
