(* ===== verification/SyncSpec.thy ===== *)
theory SyncSpec imports SyncSessionCallbacks SyncConnection begin

text \<open>
  The properties of the sync session, its progress notifier and its connection notifier.  A
  reachable session is one a \<open>run\<close> leads to from the state of the constructor.
\<close>

section \<open>A sample session\<close>

definition plain_config :: sync_config where
  "plain_config =
     \<lparr>user = Some ''u'', reference_realm_url = ''realms://host/r'', stop_policy = AfterChangesUploaded,
      has_error_handler = True, transformer = None, realm_encryption_key = None,
      client_validate_ssl = True, ssl_trust_certificate_path = None, ssl_verify_callback = None,
      proxy_config = None, is_partial = False, custom_partial_sync_identifier = None,
      authorization_header_name = None, custom_http_headers = [], url_prefix = None,
      client_resync_mode = Recover\<rparr>"

abbreviation start :: session where
  "start \<equiv> session_new ''/r'' ''p'' plain_config False False"

lemmas session_eval = session_new_def plain_config_def revive_if_needed_def revive_defs
  refresh_access_token_def refresh_defs waiting_refresh_def create_sync_session_def
  session_config_of_def bind_or_refresh_def call_session_def emit_def advance_state_def
  enter_waiting_def enter_active_def enter_inactive_def enter_dying_def unregister_def cancelled_def
  close_defs wait_for_completion_def wait_defs add_completion_callback_def
  log_out_defs fire_defs Let_def

section \<open>The session\<close>

text \<open>Whatever the binding and the sync client do, in any order, a session never uses a missing
  underlying session or an empty optional; while it is active or dying it has an underlying
  session that was bound, and its pending completion callbacks have a completion handler of that
  very session that will run them.\<close>

theorem session_never_null:
  assumes "run (session_new path partial cfg resync b) es s"
  shows "Null_dereference \<notin> set (log s) \<and>
    (state s = Active \<or> state s = Dying \<longrightarrow> bound s \<and> attended s) \<and>
    (state s = Inactive \<longrightarrow> native s = None)"
  using run_ok[OF assms session_new_ok] session_ok_connected[of s]
  by (auto simp: session_ok_def calm_def split: public_state.splits)

text \<open>The run the witnesses use: connect, wait, close, and revive before the upload completes.\<close>

definition revived_events :: "event list" where
  "revived_events = [Revive, Refresh ''t'' (Some ''url''), Wait Upload 1, Close, Revive]"

lemma revived_run: "\<exists>s. run start revived_events s \<and> state s = Active \<and> upload_callbacks s = [1] \<and>
    Death_waiter 0 1 \<in> set (waiters s) \<and> stop_policy (config s) = AfterChangesUploaded"
proof -
  have "\<exists>s. execute revived_events start = Some s \<and> state s = Active \<and> upload_callbacks s = [1] \<and>
    Death_waiter 0 1 \<in> set (waiters s) \<and> stop_policy (config s) = AfterChangesUploaded"
    by (simp add: revived_events_def session_eval)
  then show ?thesis by (simp add: execute_run)
qed

theorem session_never_null_witness:
  "\<exists>s. run start revived_events s \<and> state s = Active \<and> upload_callbacks s = [1] \<and> bound s \<and> attended s \<and>
    Null_dereference \<notin> set (log s)"
  using revived_run session_never_null by blast



text \<open>Logging out a connected or waiting session makes it inactive and leaves no callback behind:
  every callback registered so far has been run.\<close>

theorem log_out_answers_all:
  assumes "run (session_new path partial cfg resync b) es s" and "state s \<noteq> Inactive"
  shows "state (state_log_out s) = Inactive \<and> mset (answered (log (state_log_out s))) = mset (asked es)"
proof -
  have "run (session_new path partial cfg resync b) (es @ [Log_out]) (state_log_out s)"
    using run_step[OF assms(1) step[of s Log_out]] by simp
  from account_run_new[OF this] assms(2) show ?thesis
    by (simp add: account_def log_out_defs advance_state_def asked_def)
qed

theorem log_out_answers_all_witness:
  "\<exists>s. run start revived_events s \<and> mset (answered (log (state_log_out s))) = {#1#}"
proof -
  obtain s where s: "run start revived_events s" "state s = Active" using revived_run by blast
  have "mset (asked revived_events) = {#1#}" by (simp add: asked_def revived_events_def)
  with log_out_answers_all[OF s(1)] s show ?thesis by auto
qed

text \<open>C22: Every reachable session can be brought back: reviving it and handing it a token with a
  server url makes it active.\<close>

theorem session_can_be_revived:
  assumes "run (session_new path partial cfg resync b) es s"
  shows "state (refresh_access_token token (Some url) (revive_if_needed s)) = Active"
proof -
  have ok: "session_ok (revive_if_needed s)" using run_ok[OF assms session_new_ok] by (rule revive_if_needed_ok)
  have r: "state (revive_if_needed s) = Active \<or>
      state (revive_if_needed s) = WaitingForAccessToken \<and> \<not> deferred_close (revive_if_needed s)"
    by (cases "state s") (simp_all add: revive_if_needed_def revive_defs advance_state_def enter_waiting_def)
  show ?thesis
    using r waiting_refresh_ok(2)[OF ok, of "Some url" token]
    by (auto simp: refresh_access_token_def refresh_defs)
qed

theorem session_can_be_revived_witness:
  "\<exists>s. run start [] s \<and> state s = Inactive \<and>
    state (refresh_access_token ''t'' (Some ''url'') (revive_if_needed s)) = Active"
proof -
  have "run start [] start" by (rule run_start)
  moreover have "state start = Inactive" by (simp add: session_new_def)
  moreover have "state (refresh_access_token ''t'' (Some ''url'') (revive_if_needed start)) = Active"
    by (rule session_can_be_revived[OF run_start])
  ultimately show ?thesis by (intro exI conjI)
qed



text \<open>C21: Reviving a dying session is final: the upload completion handlers of earlier dying phases
  never close it, neither while it is active nor when it is dying anew.\<close>

theorem revived_session_survives:
  assumes "run (session_new path partial cfg resync b) es s" and "state s = Active"
    and "Death_waiter n deaths \<in> set (waiters s)"
    and "stop_policy (config s) = AfterChangesUploaded"
  shows "state (fire_waiter (Death_waiter n deaths) result s) = Active \<and>
    state (state_close s) = Dying \<and>
    state (fire_waiter (Death_waiter n deaths) result (state_close s)) = Dying"
proof -
  have ok: "session_ok s" by (rule run_ok[OF assms(1) session_new_ok])
  have le: "deaths \<le> death_count s" using waiters_current[OF ok assms(3)] by simp
  obtain k where k: "native s = Some k" using session_ok_connected[OF ok] assms(2) by (auto simp: bound_def)
  have d: "state (state_close s) = Dying" "death_count (state_close s) = death_count s + 1"
    using assms(2,4) k by (simp_all add: close_defs advance_state_def enter_dying_def)
  show ?thesis using stale_death[of s deaths n result] stale_death[of "state_close s" deaths n result] assms(2) d le
    by auto
qed

theorem revived_session_survives_witness:
  "\<exists>s. run start revived_events s \<and> state (fire_waiter (Death_waiter 0 1) Completed (state_close s)) = Dying"
  using revived_run revived_session_survives by blast

text \<open>The states are entered for the documented reasons: an inactive session can only start to
  wait for a token; a session becomes active only by a token while it waits or by being revived
  while it dies; and it starts dying only under the policy that waits for the uploads.\<close>

theorem state_changes:
  assumes "step s e s'" and "state s' \<noteq> state s"
  shows "(state s = Inactive \<longrightarrow> state s' = WaitingForAccessToken) \<and>
    (state s' = Active \<longrightarrow> (state s = WaitingForAccessToken \<and> (\<exists>token url. e = Refresh token url)) \<or>
      (state s = Dying \<and> e = Revive)) \<and>
    (state s' = Dying \<longrightarrow> stop_policy (config s) = AfterChangesUploaded \<and> state s \<noteq> Inactive)"
proof (cases e)
  case (Refresh token url)
  then show ?thesis using assms state_of_waiting_refresh[of token url s]
    by (auto simp: refresh_access_token_def refresh_defs split: public_state.splits if_splits)
next
  case Revive
  then show ?thesis using assms
    by (auto simp: revive_if_needed_def revive_defs advance_state_def split: public_state.splits)
next
  case Close
  then show ?thesis using assms state_of_close[of s] by auto
next
  case Reference_dropped
  then show ?thesis using assms state_of_close[of "s\<lparr>pending_drops := pending_drops s - 1\<rparr>"]
    by (auto simp: did_drop_external_reference_def Let_def split: if_splits)
next
  case (Waiter_fired w result)
  then show ?thesis using assms state_of_fire[of w result s] by auto
next
  case (Connection new er recovery)
  let ?t = "emit [Connection_changed (connection_state s) new] (s\<lparr>connection_state := new\<rparr>)"
  have "state s' = state s \<or> state s' = Inactive \<or> state s' = WaitingForAccessToken"
  proof (cases er)
    case (Some x)
    with assms(1) Connection state_of_error[of recovery x ?t] show ?thesis
      by (auto simp: connection_changed_def Let_def)
  qed (use assms(1) Connection in \<open>auto simp: connection_changed_def\<close>)
  with assms(2) show ?thesis by (cases "state s") auto
next
  case (Configure cfg)
  then show ?thesis using assms
    by (auto simp: update_configuration_def revive_if_needed_def revive_defs advance_state_def Let_def
      split: public_state.splits if_splits)
next
  case (Wait dir cb)
  then show ?thesis using assms
    by (cases dir) (auto simp: wait_for_completion_def wait_defs Let_def split: if_splits)
qed (use assms in \<open>auto simp: reconnect_defs log_out_defs advance_state_def nonsync_transact_notify_def
  commit_defs override_defs set_multiplex_identifier_def set_url_prefix_def register_progress_def
  unregister_progress_def external_reference_def existing_external_reference_def release_reference_def
  handle_progress_update_def Let_def split: public_state.splits prod.splits if_splits\<close>)

theorem state_changes_witness:
  "\<exists>s s'. step s Revive s' \<and> state s = Inactive \<and> state s' = WaitingForAccessToken"
proof -
  have s: "step start Revive (perform Revive start)" by (rule step) simp
  have i: "state start = Inactive" "state (perform Revive start) \<noteq> state start" by (simp_all add: session_eval)
  then have "state (perform Revive start) = WaitingForAccessToken" using state_changes[OF s] by simp
  with s i(1) show ?thesis by (intro exI conjI)
qed

text \<open>The completion handlers of a session that was torn down by a log-out are not told apart from
  those of its successor: when the old handler is run late with the error of the tear-down, the
  callback that waits for the new, connected session is run with that error although the new
  session still owes it a completion.\<close>

theorem old_waiter_cancels_new_callback:
  "\<exists>s. run start [Revive, Refresh ''t'' (Some ''url''), Wait Download 7, Log_out, Revive,
      Refresh ''t'' None, Wait Download 8, Waiter_fired (Completion_waiter 0 Download 0) Operation_aborted] s \<and>
    state s = Active \<and> native s = Some 1 \<and>
    Callback_invoked 8 Operation_aborted \<in> set (log s) \<and>
    Completion_waiter 1 Download 0 \<in> set (waiters s)"
proof -
  have "\<exists>s. execute [Revive, Refresh ''t'' (Some ''url''), Wait Download 7, Log_out, Revive,
      Refresh ''t'' None, Wait Download 8, Waiter_fired (Completion_waiter 0 Download 0) Operation_aborted] start = Some s \<and>
    state s = Active \<and> native s = Some 1 \<and>
    Callback_invoked 8 Operation_aborted \<in> set (log s) \<and>
    Completion_waiter 1 Download 0 \<in> set (waiters s)"
    by (simp add: session_eval)
  then show ?thesis by (simp only: execute_run)
qed

section \<open>Progress notifiers\<close>

text \<open>C34: What a progress notifier is told over any sequence of progress messages depends on it alone: a
  streaming one gets every message with the current total; another one reports against the total
  of the first usable message (for uploads the first that has caught up with the local version it
  was registered at), until that total is reached, and then never again.\<close>

theorem progress_reports:
  assumes "distinct (map (\<lambda>p. notifier (snd p)) (packages n))" and "(token, pkg) \<in> set (packages n)"
  shows "calls_of (notifier pkg) (deliver curs n) =
    (if is_streaming pkg then
       map (\<lambda>cur. if is_download pkg then (notifier pkg, downloaded cur, downloadable cur)
                  else (notifier pkg, uploaded cur, uploadable cur)) curs
     else case captured_transferrable pkg of
       Some amount \<Rightarrow> captured_reports (notifier pkg) (is_download pkg) amount curs
     | None \<Rightarrow>
         (case (if is_download pkg then curs
                else dropWhile (\<lambda>cur. snapshot_version cur < package_version pkg) curs) of
            [] \<Rightarrow> []
          | cur # rest \<Rightarrow> captured_reports (notifier pkg) (is_download pkg)
              (if is_download pkg then downloadable cur else uploadable cur) (cur # rest)))"
proof -
  have single: "calls_of (notifier pkg) (deliver curs n) = package_reports pkg curs"
    unfolding deliver_run_all by (rule run_all_single[OF assms])
  note simps = reports_streaming reports_captured
  consider (stream) "is_streaming pkg" | (captured) amount where "\<not> is_streaming pkg" "captured_transferrable pkg = Some amount"
    | (download) "\<not> is_streaming pkg" "captured_transferrable pkg = None" "is_download pkg"
    | (upload) "\<not> is_streaming pkg" "captured_transferrable pkg = None" "\<not> is_download pkg"
    by (cases "captured_transferrable pkg") auto
  then show ?thesis
  proof cases
    case download
    then show ?thesis unfolding single using reports_download[OF download]
      by (cases curs) (simp_all add: simps del: captured_reports.simps package_reports.simps(2))
  next
    case upload
    then show ?thesis unfolding single by (simp add: simps reports_upload cong: list.case_cong)
  qed (simp_all add: single simps)
qed

theorem progress_reports_witness:
  "calls_of 7 (deliver
     [\<lparr>uploadable = 0, downloadable = 10, uploaded = 0, downloaded = 4, snapshot_version = 1\<rparr>,
      \<lparr>uploadable = 0, downloadable = 20, uploaded = 0, downloaded = 12, snapshot_version = 1\<rparr>,
      \<lparr>uploadable = 0, downloadable = 20, uploaded = 0, downloaded = 20, snapshot_version = 1\<rparr>]
     (snd (snd (register_callback 7 Download False progress_notifier_new)))) = [(7, 4, 10), (7, 12, 10)]"
proof -
  let ?pkg = "\<lparr>notifier = 7, captured_transferrable = None, package_version = 0, is_streaming = False, is_download = True\<rparr>"
  let ?n = "snd (snd (register_callback 7 Download False progress_notifier_new))"
  have "packages ?n = [(1, ?pkg)]" by (simp add: register_callback_def progress_notifier_new_def)
  then show ?thesis using progress_reports[of ?n 1 ?pkg] by (simp del: deliver.simps)
qed

section \<open>Connection notifiers\<close>





text \<open>A callback that removes one it has itself added makes the notifier lose count: the next
  callback is skipped, and with two such removals the loop reads past the end of the list.\<close>

theorem connection_callbacks_lose_count:
  "(\<exists>n'. invoke_callbacks (\<lambda>f. if f = 5 then [Add_callback 8, Remove_callback 2] else [])
      \<lparr>callbacks = [(5, 0), (6, 1)], callback_index = npos, callback_count = npos, next_token = 2\<rparr> =
      Some (Inr ([5], n')) \<and> callbacks n' = [(5, 0), (6, 1)]) \<and>
    invoke_callbacks (\<lambda>f. if f = 5 then [Add_callback 8, Add_callback 9, Remove_callback 1, Remove_callback 2] else [])
      \<lparr>callbacks = [(5, 0)], callback_index = npos, callback_count = npos, next_token = 1\<rparr> =
      Some (Inl Out_of_range)"
proof -
  have n: "(npos = Suc k) = (k = 2 ^ 64 - 2)" for k by (auto simp: npos_def)
  show ?thesis
    by (intro conjI)
      (simp_all add: invoke_callbacks_def invoke_loop.simps up_def down_def remove_callback_def add_callback_def
        npos_def Let_def)
qed

end
