(* ===== verification/SchemaProperty.thy ===== *)
theory SchemaProperty imports Prelude "HOL-Library.Word" begin

text \<open>
  Properties of an object schema (\<open>property.hpp\<close>).  A property type is an unsigned char whose
  two top bits are flags; comparing two types with the code's \<open>==\<close> ignores the flags, and
  reading a type without its flags, whether it is an array and whether it is nullable are the
  three independent parts of it.
\<close>

unbundle bit_operations_syntax

section \<open>Property types\<close>

type_synonym property_type = "8 word"

definition pt_Int :: property_type where "pt_Int = 0"
definition pt_Bool :: property_type where "pt_Bool = 1"
definition pt_String :: property_type where "pt_String = 2"
definition pt_Data :: property_type where "pt_Data = 3"
definition pt_Date :: property_type where "pt_Date = 4"
definition pt_Float :: property_type where "pt_Float = 5"
definition pt_Double :: property_type where "pt_Double = 6"
definition pt_Object :: property_type where "pt_Object = 7"
definition pt_LinkingObjects :: property_type where "pt_LinkingObjects = 8"
definition pt_Any :: property_type where "pt_Any = 9"

definition pt_Required :: property_type where "pt_Required = 0"
definition pt_Nullable :: property_type where "pt_Nullable = 64"
definition pt_Array :: property_type where "pt_Array = 128"
definition pt_Flags :: property_type where "pt_Flags = pt_Nullable OR pt_Array"

lemmas pt_defs = pt_Int_def pt_Bool_def pt_String_def pt_Data_def pt_Date_def pt_Float_def
  pt_Double_def pt_Object_def pt_LinkingObjects_def pt_Any_def pt_Required_def pt_Nullable_def
  pt_Array_def pt_Flags_def

definition base_type :: "property_type \<Rightarrow> property_type" where
  "base_type t = t AND NOT pt_Flags"

definition same_type :: "property_type \<Rightarrow> property_type \<Rightarrow> bool" where
  "same_type a b \<longleftrightarrow> base_type a = base_type b"

definition is_array :: "property_type \<Rightarrow> bool" where
  "is_array t \<longleftrightarrow> t AND pt_Array = pt_Array"

definition is_nullable :: "property_type \<Rightarrow> bool" where
  "is_nullable t \<longleftrightarrow> t AND pt_Nullable = pt_Nullable"

lemma bit_pt_Nullable: "bit pt_Nullable n \<longleftrightarrow> n = 6"
proof -
  have *: "pt_Nullable = 2 ^ 6" by (simp add: pt_defs)
  show ?thesis unfolding * bit_exp_iff by auto
qed

lemma bit_pt_Array: "bit pt_Array n \<longleftrightarrow> n = 7"
proof -
  have *: "pt_Array = 2 ^ 7" by (simp add: pt_defs)
  show ?thesis unfolding * bit_exp_iff by auto
qed

lemma bit_pt_Flags: "bit pt_Flags n \<longleftrightarrow> n = 6 \<or> n = 7"
  by (simp add: pt_Flags_def bit_or_iff bit_pt_Nullable bit_pt_Array)

lemmas flag_bits = bit_pt_Nullable bit_pt_Array bit_pt_Flags bit_and_iff bit_or_iff bit_not_iff

lemma property_type_eqI: "(\<And>n. n < 8 \<Longrightarrow> bit t n \<longleftrightarrow> bit u n) \<Longrightarrow> t = (u :: property_type)"
  by (rule bit_word_eqI) simp

lemma bit_of_type: "bit (t :: property_type) n \<Longrightarrow> n < 8"
  using bit_imp_le_length[of t n] by simp

lemma flag_test:
  assumes "\<And>n. bit (f :: property_type) n \<longleftrightarrow> n = k"
  shows "t AND f = f \<longleftrightarrow> bit t k"
proof
  assume "t AND f = f"
  then have "bit (t AND f) k = bit f k" by simp
  then show "bit t k" by (simp add: bit_and_iff assms)
next
  assume "bit t k"
  then show "t AND f = f" by (intro property_type_eqI) (auto simp: bit_and_iff assms)
qed

lemma is_array_bit: "is_array t \<longleftrightarrow> bit t 7"
  unfolding is_array_def by (rule flag_test, rule bit_pt_Array)

lemma is_nullable_bit: "is_nullable t \<longleftrightarrow> bit t 6"
  unfolding is_nullable_def by (rule flag_test, rule bit_pt_Nullable)

lemma base_type_bit: "bit (base_type t) n \<longleftrightarrow> bit t n \<and> n \<noteq> 6 \<and> n \<noteq> 7"
  unfolding base_type_def by (auto simp: flag_bits dest: bit_of_type)

lemmas type_bits = is_array_bit is_nullable_bit base_type_bit

text \<open>The three parts of a type are independent and determine it.\<close>

lemma property_type_parts:
  "t = u \<longleftrightarrow> same_type t u \<and> (is_array t \<longleftrightarrow> is_array u) \<and> (is_nullable t \<longleftrightarrow> is_nullable u)"
proof
  assume r: "same_type t u \<and> (is_array t \<longleftrightarrow> is_array u) \<and> (is_nullable t \<longleftrightarrow> is_nullable u)"
  have "bit t n \<longleftrightarrow> bit u n" for n
    using r base_type_bit[of t n] base_type_bit[of u n]
    by (cases "n = 6 \<or> n = 7") (auto simp: same_type_def is_array_bit is_nullable_bit)
  then show "t = u" by (intro property_type_eqI) simp
qed (simp add: same_type_def)

lemma set_flags [simp]:
  "is_nullable (t OR pt_Nullable)" "is_array (t OR pt_Array)"
  "is_array (t OR pt_Nullable) = is_array t" "is_nullable (t OR pt_Array) = is_nullable t"
  by (auto simp: is_array_bit is_nullable_bit flag_bits)

lemma base_type_flagged [simp]:
  "base_type (t OR pt_Nullable) = base_type t" "base_type (t OR pt_Array) = base_type t"
  "base_type (t AND NOT pt_Nullable) = base_type t" "base_type (base_type t) = base_type t"
  by (rule property_type_eqI, auto simp: base_type_bit flag_bits)+

lemma clear_flags [simp]:
  "\<not> is_nullable (t AND NOT pt_Nullable)" "is_array (t AND NOT pt_Nullable) = is_array t"
  "\<not> is_array (base_type t)" "\<not> is_nullable (base_type t)"
  by (auto simp: type_bits flag_bits)

section \<open>Names of types\<close>

definition string_for_property_type :: "property_type \<Rightarrow> string" where
  "string_for_property_type t =
     (if is_array t then (if same_type t pt_LinkingObjects then ''linking objects'' else ''array'')
      else
        let b = base_type t
        in if b = pt_String then ''string''
           else if b = pt_Int then ''int''
           else if b = pt_Bool then ''bool''
           else if b = pt_Date then ''date''
           else if b = pt_Data then ''data''
           else if b = pt_Double then ''double''
           else if b = pt_Float then ''float''
           else if b = pt_Object then ''object''
           else if b = pt_Any then ''any''
           else ''linking objects'')"

section \<open>Properties\<close>

text \<open>The column of a property that has none yet is \<open>size_t(-1)\<close>.\<close>

record property =
  prop_name :: string
  prop_public_name :: string
  prop_type :: property_type
  prop_object_type :: string
  prop_link_origin :: string
  prop_is_primary :: bool
  prop_is_indexed :: bool
  prop_column :: nat

definition property_new :: "string \<Rightarrow> property_type \<Rightarrow> bool \<Rightarrow> bool \<Rightarrow> string \<Rightarrow> property" where
  "property_new n t primary indexed public =
     \<lparr>prop_name = n, prop_public_name = public, prop_type = t, prop_object_type = [],
      prop_link_origin = [], prop_is_primary = primary, prop_is_indexed = indexed,
      prop_column = npos\<rparr>"

definition link_property_new :: "string \<Rightarrow> property_type \<Rightarrow> string \<Rightarrow> string \<Rightarrow> string \<Rightarrow> property" where
  "link_property_new n t object_type origin public =
     \<lparr>prop_name = n, prop_public_name = public, prop_type = t, prop_object_type = object_type,
      prop_link_origin = origin, prop_is_primary = False, prop_is_indexed = False,
      prop_column = npos\<rparr>"

definition requires_index :: "property \<Rightarrow> bool" where
  "requires_index p \<longleftrightarrow> prop_is_primary p \<or> prop_is_indexed p"

definition type_is_indexable :: "property \<Rightarrow> bool" where
  "type_is_indexable p \<longleftrightarrow>
     same_type (prop_type p) pt_Int \<or> same_type (prop_type p) pt_Bool \<or>
     same_type (prop_type p) pt_Date \<or> same_type (prop_type p) pt_String"

definition type_is_nullable :: "property \<Rightarrow> bool" where
  "type_is_nullable p \<longleftrightarrow>
     \<not> (is_array (prop_type p) \<and> same_type (prop_type p) pt_Object) \<and>
     \<not> same_type (prop_type p) pt_LinkingObjects"

definition type_string :: "property \<Rightarrow> string" where
  "type_string p =
     (let t = prop_type p
      in if is_array t then
           (if same_type t pt_Object then ''array<'' @ prop_object_type p @ ''>''
            else if same_type t pt_LinkingObjects then ''linking objects<'' @ prop_object_type p @ ''>''
            else ''array<'' @ string_for_property_type (base_type t) @ ''>'')
         else if base_type t = pt_Object then ''<'' @ prop_object_type p @ ''>''
         else if base_type t = pt_LinkingObjects then ''linking objects<'' @ prop_object_type p @ ''>''
         else string_for_property_type (base_type t))"

text \<open>The equality of the code ignores the column and the public name.\<close>

definition property_eq :: "property \<Rightarrow> property \<Rightarrow> bool" where
  "property_eq p q \<longleftrightarrow>
     prop_type p = prop_type q \<and> prop_is_primary p = prop_is_primary q \<and>
     requires_index p = requires_index q \<and> prop_name p = prop_name q \<and>
     prop_object_type p = prop_object_type q \<and> prop_link_origin p = prop_link_origin q"

lemma property_eq_refl [simp]: "property_eq p p"
  by (simp add: property_eq_def)

lemma property_eq_sym: "property_eq p q \<longleftrightarrow> property_eq q p"
  by (auto simp: property_eq_def)

end
