(* ===== verification/StdAlgorithms.thy ===== *)
theory StdAlgorithms imports Prelude "HOL-Library.List_Lexorder" "HOL-Library.Multiset" begin

text \<open>
  The standard algorithms the schema code calls, with the code their specification leaves no
  freedom for: \<open>adjacent_find\<close>, the binary search \<open>lower_bound\<close> (also on a list that is not
  partitioned, where its result depends on the steps of the search), \<open>set_intersection\<close> and
  the swapping \<open>partition\<close> of bidirectional iterators.  Bytes are compared in two ways: a
  \<open>std::string\<close> compares unsigned bytes, a \<open>StringData\<close> compares values of type \<open>char\<close>,
  which is signed on the platforms the program is built for.
\<close>

section \<open>Names as strings of bytes\<close>

definition signed_char :: "char \<Rightarrow> int" where
  "signed_char c = (if (of_char c :: int) < 128 then of_char c else of_char c - 256)"

definition unsigned_bytes :: "string \<Rightarrow> int list" where
  "unsigned_bytes s = map of_char s"

definition signed_bytes :: "string \<Rightarrow> int list" where
  "signed_bytes s = map signed_char s"

definition ascii :: "string \<Rightarrow> bool" where
  "ascii s \<longleftrightarrow> (\<forall>c\<in>set s. (of_char c :: int) < 128)"

lemma signed_ascii: "ascii s \<Longrightarrow> signed_bytes s = unsigned_bytes s"
  by (simp add: ascii_def signed_bytes_def unsigned_bytes_def signed_char_def)

lemma of_char_bounds: "0 \<le> (of_char c :: int)" "(of_char c :: int) < 256"
proof -
  have "(of_char c :: int) = of_char c mod 256" by simp
  then show "0 \<le> (of_char c :: int)" "(of_char c :: int) < 256"
    by (metis pos_mod_sign zero_less_numeral, metis pos_mod_bound zero_less_numeral)
qed

lemma inj_signed_char: "inj signed_char"
proof (rule injI)
  fix c d
  assume "signed_char c = signed_char d"
  then have "(of_char c :: int) = of_char d"
    unfolding signed_char_def using of_char_bounds[of c] of_char_bounds[of d] by arith
  then show "c = d" by simp
qed

lemma inj_bytes: "inj unsigned_bytes" "inj signed_bytes"
  using inj_of_char[where 'a = int] inj_signed_char
  by (simp_all add: unsigned_bytes_def[abs_def] signed_bytes_def[abs_def] inj_map)

lemma bytes_eq [simp]:
  "unsigned_bytes a = unsigned_bytes b \<longleftrightarrow> a = b" "signed_bytes a = signed_bytes b \<longleftrightarrow> a = b"
  using inj_bytes by (auto dest: injD)

section \<open>Adjacent elements\<close>

text \<open>The list from the first element that equals its successor, empty for \<open>end\<close>.\<close>

fun adjacent_find :: "('a \<Rightarrow> 'a \<Rightarrow> bool) \<Rightarrow> 'a list \<Rightarrow> 'a list" where
  "adjacent_find eq (x # y # xs) = (if eq x y then x # y # xs else adjacent_find eq (y # xs))"
| "adjacent_find eq xs = []"

lemma adjacent_find_Nil: "adjacent_find eq xs = [] \<longleftrightarrow> successively (\<lambda>x y. \<not> eq x y) xs"
  by (induction eq xs rule: adjacent_find.induct) auto

lemma adjacent_find_length: "length (adjacent_find eq xs) \<le> length xs"
  by (induction eq xs rule: adjacent_find.induct) auto

lemma adjacent_find_shorter: "adjacent_find eq xs = y # ys \<Longrightarrow> length ys < length xs"
  using adjacent_find_length[of eq xs] by simp

lemma sorted_no_adjacent:
  assumes "sorted (map f xs)"
  shows "successively (\<lambda>x y. f x \<noteq> f y) xs \<longleftrightarrow> distinct (map f xs)"
proof -
  have "successively (\<lambda>x y. f x \<noteq> f y) xs \<longleftrightarrow> successively (<) (map f xs)"
    using assms
    by (induction xs rule: induct_list012) (auto simp: less_le)
  also have "\<dots> \<longleftrightarrow> sorted_wrt (<) (map f xs)"
    by (simp add: successively_conv_sorted_wrt)
  finally show ?thesis using assms by (simp add: strict_sorted_iff)
qed

section \<open>Binary search\<close>

function lower_bound_loop :: "('a \<Rightarrow> bool) \<Rightarrow> 'a list \<Rightarrow> nat \<Rightarrow> nat \<Rightarrow> nat" where
  "lower_bound_loop lt xs first len =
     (if len = 0 then first
      else let half = len div 2; mid = first + half
           in if lt (xs ! mid) then lower_bound_loop lt xs (mid + 1) (len - half - 1)
              else lower_bound_loop lt xs first half)"
  by auto
termination by (relation "measure (\<lambda>(lt, xs, first, len). len)") auto

declare lower_bound_loop.simps [simp del]

definition lower_bound :: "('a \<Rightarrow> bool) \<Rightarrow> 'a list \<Rightarrow> nat" where
  "lower_bound lt xs = lower_bound_loop lt xs 0 (length xs)"

lemma lower_bound_loop_le: "lower_bound_loop lt xs first len \<le> first + len"
proof (induction lt xs first len rule: lower_bound_loop.induct)
  case (1 lt xs first len)
  show ?case
  proof (cases "len = 0")
    case False
    have half: "len div 2 < len" "first + len div 2 + 1 + (len - len div 2 - 1) = first + len"
      using False by auto
    show ?thesis
      using "1.IH"(1)[OF False refl refl] "1.IH"(2)[OF False refl refl] half
      by (subst lower_bound_loop.simps) (auto simp: Let_def)
  qed (simp add: lower_bound_loop.simps)
qed

lemma lower_bound_le: "lower_bound lt xs \<le> length xs"
  using lower_bound_loop_le[of lt xs 0 "length xs"] by (simp add: lower_bound_def)

lemma lower_bound_loop_partitioned:
  assumes "first + len \<le> length xs" and "\<forall>i<first. lt (xs ! i)"
    and "\<forall>i. first + len \<le> i \<and> i < length xs \<longrightarrow> \<not> lt (xs ! i)"
    and "\<forall>i j. i < j \<and> j < length xs \<and> lt (xs ! j) \<longrightarrow> lt (xs ! i)"
  shows "lower_bound_loop lt xs first len = length (takeWhile lt xs)"
  using assms
proof (induction lt xs first len rule: lower_bound_loop.induct)
  case (1 lt xs first len)
  show ?case
  proof (cases "len = 0")
    case True
    have "takeWhile lt xs = take first xs"
      using 1(3-5) True by (intro takeWhile_eq_take_P_nth) auto
    then show ?thesis using True 1(3) by (simp add: lower_bound_loop.simps)
  next
    case False
    define half mid where d: "half = len div 2" "mid = first + half"
    have mid: "mid < length xs" "mid < first + len" using 1(3) False d by auto
    show ?thesis
    proof (cases "lt (xs ! mid)")
      case True
      have "lower_bound_loop lt xs (mid + 1) (len - half - 1) = length (takeWhile lt xs)"
      proof (rule 1(1)[OF False d])
        show "\<forall>i<mid + 1. lt (xs ! i)"
        proof (intro allI impI)
          fix i assume "i < mid + 1"
          then consider "i = mid" | "i < mid" by linarith
          then show "lt (xs ! i)" using True mid 1(6) by cases blast+
        qed
        show "\<forall>i. mid + 1 + (len - half - 1) \<le> i \<and> i < length xs \<longrightarrow> \<not> lt (xs ! i)"
          using 1(5) mid d by simp
      qed (use True mid d 1(3,6) in auto)
      then show ?thesis using False True d by (subst lower_bound_loop.simps) (simp add: Let_def)
    next
      case no: False
      have "\<not> lt (xs ! i)" if "mid \<le> i" "i < length xs" for i
        using that no 1(6) by (cases "i = mid") (auto simp: le_less)
      then have "lower_bound_loop lt xs first half = length (takeWhile lt xs)"
        using 1(2)[OF False d no] 1(3,4,6) mid d by simp
      then show ?thesis using False no d by (subst lower_bound_loop.simps) (simp add: Let_def)
    qed
  qed
qed

lemma lower_bound_partitioned:
  assumes "\<forall>i j. i < j \<and> j < length xs \<and> lt (xs ! j) \<longrightarrow> lt (xs ! i)"
  shows "lower_bound lt xs = length (takeWhile lt xs)"
  unfolding lower_bound_def by (rule lower_bound_loop_partitioned) (use assms in auto)

section \<open>Common elements of sorted lists\<close>

fun set_intersection :: "('a \<Rightarrow> 'a \<Rightarrow> bool) \<Rightarrow> 'a list \<Rightarrow> 'a list \<Rightarrow> 'a list" where
  "set_intersection lt (x # xs) (y # ys) =
     (if lt x y then set_intersection lt xs (y # ys)
      else if lt y x then set_intersection lt (x # xs) ys
      else x # set_intersection lt xs ys)"
| "set_intersection lt xs ys = []"

lemma set_set_intersection:
  fixes f :: "'a \<Rightarrow> 'b :: linorder"
  assumes "sorted (map f xs)" "sorted (map f ys)" "inj f"
  shows "set (set_intersection (\<lambda>x y. f x < f y) xs ys) = set xs \<inter> set ys"
  using assms(1,2)
proof (induction "\<lambda>x y. f x < f y" xs ys rule: set_intersection.induct)
  case (1 x xs y ys)
  consider "f x < f y" | "f y < f x" | "x = y" using injD[OF \<open>inj f\<close>, of x y] by force
  then show ?case
  proof cases
    case 3
    then show ?thesis using 1 by auto
  qed (use 1 in \<open>auto simp: not_le[symmetric]\<close>)
qed auto

section \<open>Partition\<close>

text \<open>
  The first element that fails the test is exchanged with the last one that passes it, until
  they meet; the result with the failing elements at the end.
\<close>

function std_partition :: "('a \<Rightarrow> bool) \<Rightarrow> 'a list \<Rightarrow> 'a list" where
  "std_partition P xs =
     (case dropWhile P xs of
        [] \<Rightarrow> xs
      | y # r \<Rightarrow>
          (case dropWhile (\<lambda>z. \<not> P z) (rev r) of
             [] \<Rightarrow> xs
           | z # m \<Rightarrow> takeWhile P xs @ z # std_partition P (rev m) @
                       y # rev (takeWhile (\<lambda>z. \<not> P z) (rev r))))"
  by auto
termination
proof (relation "measure (\<lambda>(P, xs). length xs)", simp)
  fix P :: "'a \<Rightarrow> bool" and xs y r z m
  assume a: "dropWhile P xs = y # r" "dropWhile (\<lambda>z. \<not> P z) (rev r) = z # m"
  have "length m < length r" using length_dropWhile_le[of "\<lambda>z. \<not> P z" "rev r"] a(2) by simp
  moreover have "length r < length xs" using length_dropWhile_le[of P xs] a(1) by simp
  ultimately show "((P, rev m), P, xs) \<in> measure (\<lambda>(P, xs). length xs)" by simp
qed

declare std_partition.simps [simp del]

lemma std_partition_split:
  "mset (std_partition P xs) = mset xs \<and>
   (\<exists>a b. std_partition P xs = a @ b \<and> (\<forall>x\<in>set a. P x) \<and> (\<forall>x\<in>set b. \<not> P x))"
proof (induction P xs rule: std_partition.induct)
  case (1 P xs)
  have xs: "xs = takeWhile P xs @ dropWhile P xs" by simp
  have P: "\<forall>x\<in>set (takeWhile P xs). P x" by (auto dest: set_takeWhileD)
  show ?case
  proof (cases "dropWhile P xs")
    case Nil
    then have "\<forall>x\<in>set xs. P x" by simp
    moreover from Nil have "std_partition P xs = xs" by (subst std_partition.simps) (simp only: list.case)
    ultimately have "std_partition P xs = xs" "\<forall>x\<in>set xs. P x" by simp_all
    then show ?thesis by (intro conjI exI[of _ xs] exI[of _ "[]"]) simp_all
  next
    case (Cons y r)
    have y: "\<not> P y" using Cons by (simp add: dropWhile_eq_Cons_conv)
    have r: "r = rev (dropWhile (\<lambda>z. \<not> P z) (rev r)) @ rev (takeWhile (\<lambda>z. \<not> P z) (rev r))"
      by (metis rev_append rev_rev_ident takeWhile_dropWhile_id)
    have N: "\<forall>x\<in>set (rev (takeWhile (\<lambda>z. \<not> P z) (rev r))). \<not> P x" by (auto dest: set_takeWhileD)
    show ?thesis
    proof (cases "dropWhile (\<lambda>z. \<not> P z) (rev r)")
      case Nil
      then have "\<forall>x\<in>set r. \<not> P x" by simp
      moreover have "std_partition P xs = xs"
        by (subst std_partition.simps) (simp only: list.case Cons Nil)
      moreover have "xs = takeWhile P xs @ y # r" using xs Cons by simp
      ultimately show ?thesis using P y
        by (metis set_ConsD)
    next
      case z: (Cons z m)
      then have "P z" by (simp add: dropWhile_eq_Cons_conv)
      from 1[OF Cons z] obtain a b where ab: "mset (std_partition P (rev m)) = mset m"
        "std_partition P (rev m) = a @ b" "\<forall>x\<in>set a. P x" "\<forall>x\<in>set b. \<not> P x"
        by auto
      have eq: "std_partition P xs = takeWhile P xs @ z # (a @ b) @
          y # rev (takeWhile (\<lambda>z. \<not> P z) (rev r))"
        using Cons z ab(2) by (subst std_partition.simps) simp
      have "mset xs = mset (takeWhile P xs @ y # rev m @ z # rev (takeWhile (\<lambda>z. \<not> P z) (rev r)))"
        using xs Cons r z by (metis append.assoc append_Cons append_Nil rev.simps(2))
      then have "mset (std_partition P xs) = mset xs"
        using eq ab(1,2) by simp
      moreover have "\<exists>a' b'. std_partition P xs = a' @ b' \<and> (\<forall>x\<in>set a'. P x) \<and> (\<forall>x\<in>set b'. \<not> P x)"
        using eq ab(3,4) P N y \<open>P z\<close>
        by (intro exI[of _ "takeWhile P xs @ z # a"]
            exI[of _ "b @ y # rev (takeWhile (\<lambda>z. \<not> P z) (rev r))"]) auto
      ultimately show ?thesis by simp
    qed
  qed
qed

lemma mset_std_partition [simp]: "mset (std_partition P xs) = mset xs"
  using std_partition_split[of P xs] by blast

lemma set_std_partition [simp]: "set (std_partition P xs) = set xs"
  by (metis mset_std_partition set_mset_mset)

lemma std_partition_parts:
  assumes "k = length (filter P xs)"
  shows "std_partition P xs = take k (std_partition P xs) @ drop k (std_partition P xs)"
    and "\<forall>x\<in>set (take k (std_partition P xs)). P x"
    and "\<forall>x\<in>set (drop k (std_partition P xs)). \<not> P x"
proof -
  obtain a b where ab: "std_partition P xs = a @ b" "\<forall>x\<in>set a. P x" "\<forall>x\<in>set b. \<not> P x"
    using std_partition_split[of P xs] by blast
  have "mset (filter P (a @ b)) = mset (filter P xs)"
    by (metis ab(1) mset_filter mset_std_partition)
  then have "length a = k"
    using ab(2,3) assms by (metis append.right_neutral filter_False filter_True filter_append size_mset)
  with ab show "\<forall>x\<in>set (take k (std_partition P xs)). P x"
    "\<forall>x\<in>set (drop k (std_partition P xs)). \<not> P x" by auto
qed simp

end
