(* ===== verification/CoreTypes.thy ===== *)
theory CoreTypes imports Prelude begin

text \<open>
  The types of the database core that its clients see: the column types and link types with
  the numbers that files and transaction logs store for them (\<open>data_type.hpp\<close>), and the
  null strings of \<open>string_data.hpp\<close>.
\<close>

section \<open>Column types\<close>

datatype data_type =
    type_Int | type_Bool | type_Float | type_Double | type_String | type_Binary | type_OldDateTime
  | type_Timestamp | type_Table | type_Mixed | type_Link | type_LinkList

primrec data_type_code :: "data_type \<Rightarrow> nat" where
  "data_type_code type_Int = 0"
| "data_type_code type_Bool = 1"
| "data_type_code type_Float = 9"
| "data_type_code type_Double = 10"
| "data_type_code type_String = 2"
| "data_type_code type_Binary = 4"
| "data_type_code type_OldDateTime = 7"
| "data_type_code type_Timestamp = 8"
| "data_type_code type_Table = 5"
| "data_type_code type_Mixed = 6"
| "data_type_code type_Link = 12"
| "data_type_code type_LinkList = 13"

text \<open>A cast from a number to the enumeration, followed by a \<open>switch\<close> over its values.\<close>

definition data_types :: "data_type list" where
  "data_types =
     [type_Int, type_Bool, type_Float, type_Double, type_String, type_Binary, type_OldDateTime,
      type_Timestamp, type_Table, type_Mixed, type_Link, type_LinkList]"

definition data_type_of :: "int \<Rightarrow> data_type option" where
  "data_type_of c = find (\<lambda>t. int (data_type_code t) = c) data_types"

lemma data_type_of_code [simp]: "data_type_of (int (data_type_code t)) = Some t"
  by (cases t) (simp_all add: data_type_of_def data_types_def)

lemma data_type_of_code' [simp]:
  "int (data_type_code t) = c \<Longrightarrow> data_type_of c = Some t"
  using data_type_of_code [of t] by simp

section \<open>Link types\<close>

datatype link_type = link_Strong | link_Weak

primrec link_type_code :: "link_type \<Rightarrow> nat" where
  "link_type_code link_Strong = 0"
| "link_type_code link_Weak = 1"

definition link_type_of :: "int \<Rightarrow> link_type option" where
  "link_type_of c = find (\<lambda>t. int (link_type_code t) = c) [link_Strong, link_Weak]"

lemma link_type_of_code [simp]: "link_type_of (int (link_type_code t)) = Some t"
  by (cases t) (simp_all add: link_type_of_def)

end
