(* ===== verification/ObjectSchema.thy ===== *)
theory ObjectSchema imports CoreTypes SchemaProperty StdAlgorithms begin

text \<open>
  One class of a schema (\<open>object_schema.cpp\<close>): its properties, the lookups, and the
  validation that collects one exception per violated rule.  A schema is the list of its classes;
  looking a class up is the binary search of \<open>schema.cpp\<close>.  Pointers to properties are
  modelled by the property they point to, null pointers by \<open>None\<close>.  Names come from
  \<open>std::string\<close>s, so the null string of \<open>StringData\<close> does not occur.
\<close>

section \<open>Classes\<close>

record object_schema =
  os_name :: string
  os_persisted :: "property list"
  os_computed :: "property list"
  os_primary_key :: string

type_synonym schema = "object_schema list"

definition object_schema_new :: "string \<Rightarrow> property list \<Rightarrow> property list \<Rightarrow> object_schema" where
  "object_schema_new n persisted computed =
     \<lparr>os_name = n, os_persisted = persisted, os_computed = computed,
      os_primary_key = (case find prop_is_primary persisted of Some p \<Rightarrow> prop_name p | None \<Rightarrow> [])\<rparr>"

definition property_for_name :: "object_schema \<Rightarrow> string \<Rightarrow> property option" where
  "property_for_name os n =
     (case find (\<lambda>p. prop_name p = n) (os_persisted os) of
        Some p \<Rightarrow> Some p
      | None \<Rightarrow> find (\<lambda>p. prop_name p = n) (os_computed os))"

definition property_for_public_name :: "object_schema \<Rightarrow> string \<Rightarrow> property option" where
  "property_for_public_name os n =
     (case find (\<lambda>p. prop_public_name p = n \<or> prop_public_name p = [] \<and> prop_name p = n)
             (os_persisted os) of
        Some p \<Rightarrow> Some p
      | None \<Rightarrow>
          find (\<lambda>p. (if prop_public_name p = [] then prop_name p else prop_public_name p) = n)
            (os_computed os))"

definition primary_key_property :: "object_schema \<Rightarrow> property option" where
  "primary_key_property os = property_for_name os (os_primary_key os)"

definition property_is_computed :: "object_schema \<Rightarrow> property \<Rightarrow> bool" where
  "property_is_computed os p \<longleftrightarrow> (\<exists>q\<in>set (os_computed os). property_eq q p)"

fun update_first :: "('a \<Rightarrow> bool) \<Rightarrow> ('a \<Rightarrow> 'a) \<Rightarrow> 'a list \<Rightarrow> 'a list" where
  "update_first P f [] = []"
| "update_first P f (x # xs) = (if P x then f x # xs else x # update_first P f xs)"

text \<open>The property that \<open>property_for_name\<close> points to is changed in place.\<close>

definition update_property :: "object_schema \<Rightarrow> string \<Rightarrow> (property \<Rightarrow> property) \<Rightarrow> object_schema" where
  "update_property os n f =
     (case find (\<lambda>p. prop_name p = n) (os_persisted os) of
        Some _ \<Rightarrow> os\<lparr>os_persisted := update_first (\<lambda>p. prop_name p = n) f (os_persisted os)\<rparr>
      | None \<Rightarrow> os\<lparr>os_computed := update_first (\<lambda>p. prop_name p = n) f (os_computed os)\<rparr>)"

definition set_primary_key_property :: "object_schema \<Rightarrow> object_schema" where
  "set_primary_key_property os =
     (if os_primary_key os = [] then os
      else update_property os (os_primary_key os) (\<lambda>p. p\<lparr>prop_is_primary := True\<rparr>))"

definition object_schema_eq :: "object_schema \<Rightarrow> object_schema \<Rightarrow> bool" where
  "object_schema_eq a b \<longleftrightarrow>
     os_name a = os_name b \<and> os_primary_key a = os_primary_key b \<and>
     list_all2 property_eq (os_persisted a) (os_persisted b) \<and>
     list_all2 property_eq (os_computed a) (os_computed b)"

section \<open>Looking up a class\<close>

text \<open>The search compares the name of a class with the wanted one as \<open>StringData\<close>.\<close>

definition schema_find :: "schema \<Rightarrow> string \<Rightarrow> object_schema option" where
  "schema_find s n =
     (let i = lower_bound (\<lambda>os. signed_bytes (os_name os) < signed_bytes n) s
      in if i \<noteq> length s \<and> os_name (s ! i) \<noteq> n then None
         else if i = length s then None else Some (s ! i))"

section \<open>Validation\<close>

text \<open>One constructor per message, with the values the message is built from.\<close>

datatype schema_error =
    Linking_Not_Array string string
  | Not_Nullable string string string
  | Object_Must_Be_Nullable string string
  | Not_A_Primary_Key string string string
  | Two_Primary_Keys string string string
  | Not_Indexable string string string
  | Origin_Not_Allowed string string string
  | Origin_Missing string string string
  | Object_Type_Not_Allowed string string string
  | Unknown_Object_Type string string string string
  | Origin_Unknown string string string string
  | Origin_Not_A_Link string string string string
  | Origin_Links_Elsewhere string string string string string
  | Alias_Twice string string
  | Name_Twice string string
  | Alias_Conflict string string string
  | Primary_Key_Missing string string
  | Type_Twice string

definition linking_errors :: "string \<Rightarrow> property \<Rightarrow> schema_error list" where
  "linking_errors n p =
     (if same_type (prop_type p) pt_LinkingObjects \<and> \<not> is_array (prop_type p)
      then [Linking_Not_Array n (prop_name p)] else [])"

definition nullable_errors :: "string \<Rightarrow> property \<Rightarrow> schema_error list" where
  "nullable_errors n p =
     (let t = prop_type p
      in if is_nullable t \<and> \<not> type_is_nullable p
         then [Not_Nullable n (prop_name p) (string_for_property_type t)]
         else if same_type t pt_Object \<and> \<not> is_nullable t \<and> \<not> is_array t
         then [Object_Must_Be_Nullable n (prop_name p)] else [])"

definition primary_errors :: "string \<Rightarrow> property \<Rightarrow> property option \<Rightarrow> schema_error list" where
  "primary_errors n p primary =
     (if prop_is_primary p then
        (if \<not> same_type (prop_type p) pt_Int \<and> \<not> same_type (prop_type p) pt_String
         then [Not_A_Primary_Key n (prop_name p) (string_for_property_type (prop_type p))] else []) @
        (case primary of Some q \<Rightarrow> [Two_Primary_Keys (prop_name p) (prop_name q) n] | None \<Rightarrow> [])
      else [])"

definition index_errors :: "string \<Rightarrow> property \<Rightarrow> schema_error list" where
  "index_errors n p =
     (if prop_is_indexed p \<and> \<not> type_is_indexable p
      then [Not_Indexable n (prop_name p) (string_for_property_type (prop_type p))] else [])"

definition origin_errors :: "string \<Rightarrow> property \<Rightarrow> schema_error list" where
  "origin_errors n p =
     (let t = prop_type p
      in if \<not> same_type t pt_LinkingObjects \<and> prop_link_origin p \<noteq> []
         then [Origin_Not_Allowed n (prop_name p) (string_for_property_type t)]
         else if same_type t pt_LinkingObjects \<and> prop_link_origin p = []
         then [Origin_Missing n (prop_name p) (string_for_property_type t)] else [])"

definition link_errors :: "schema \<Rightarrow> string \<Rightarrow> property \<Rightarrow> schema_error list" where
  "link_errors s n p =
     (let t = prop_type p
      in if \<not> same_type t pt_Object \<and> \<not> same_type t pt_LinkingObjects then
           (if prop_object_type p \<noteq> [] then [Object_Type_Not_Allowed n (prop_name p) (type_string p)]
            else [])
         else case schema_find s (prop_object_type p) of
             None \<Rightarrow> [Unknown_Object_Type n (prop_name p) (string_for_property_type t) (prop_object_type p)]
           | Some os \<Rightarrow>
               if \<not> same_type t pt_LinkingObjects then []
               else case property_for_name os (prop_link_origin p) of
                   None \<Rightarrow> [Origin_Unknown (prop_object_type p) (prop_link_origin p) n (prop_name p)]
                 | Some q \<Rightarrow>
                     if \<not> same_type (prop_type q) pt_Object
                     then [Origin_Not_A_Link (prop_object_type p) (prop_link_origin p) n (prop_name p)]
                     else if prop_object_type q \<noteq> n
                     then [Origin_Links_Elsewhere (prop_object_type p) (prop_link_origin p) n
                             (prop_name p) (prop_object_type q)]
                     else [])"

text \<open>The exceptions one property adds, and the primary property seen so far.\<close>

definition validate_property ::
    "schema \<Rightarrow> string \<Rightarrow> property \<Rightarrow> property option \<Rightarrow> schema_error list \<times> property option" where
  "validate_property s n p primary =
     (linking_errors n p @ nullable_errors n p @ primary_errors n p primary @ index_errors n p @
      origin_errors n p @ link_errors s n p,
      if prop_is_primary p then Some p else primary)"

fun validate_properties ::
    "schema \<Rightarrow> string \<Rightarrow> property list \<Rightarrow> property option \<Rightarrow> schema_error list \<times> property option" where
  "validate_properties s n [] primary = ([], primary)"
| "validate_properties s n (p # ps) primary =
     (let (es, primary1) = validate_property s n p primary;
          (fs, primary2) = validate_properties s n ps primary1
      in (es @ fs, primary2))"

text \<open>The lambda \<open>for_each_duplicate\<close>: of each pair of equal neighbours the first.\<close>

function duplicates :: "'a list \<Rightarrow> 'a list" where
  "duplicates xs = (case adjacent_find (=) xs of [] \<Rightarrow> [] | x # r \<Rightarrow> x # duplicates (drop 1 r))"
  by auto
termination
  by (relation "measure length") (auto dest!: adjacent_find_shorter)

declare duplicates.simps [simp del]

definition object_schema_validate :: "schema \<Rightarrow> object_schema \<Rightarrow> schema_error list" where
  "object_schema_validate s os =
     (let ps = os_persisted os @ os_computed os;
          public = sort_key signed_bytes
            (map prop_public_name (filter (\<lambda>p. prop_public_name p \<noteq> []) ps));
          internal = sort_key signed_bytes (map prop_name ps);
          (es, primary) = validate_properties s (os_name os) ps None
      in map (\<lambda>n. Alias_Twice n (os_name os)) (duplicates public) @
         map (\<lambda>n. Name_Twice n (os_name os)) (duplicates internal) @
         map (\<lambda>n. Alias_Conflict (os_name os) (prop_name (the (property_for_public_name os n))) n)
           (set_intersection (\<lambda>a b. signed_bytes a < signed_bytes b) public internal) @
         es @
         (if os_primary_key os \<noteq> [] \<and> primary = None \<and> primary_key_property os = None
          then [Primary_Key_Missing (os_name os) (os_primary_key os)] else []))"

section \<open>The type of a column\<close>

text \<open>
  Tables, groups and descriptors are objects of the database core.  The schema code only reads
  them here: a column is what the accessors return for it, for a subtable with the columns of
  its descriptor.
\<close>

datatype core_column =
  Core_Column (col_name: string) (col_type: data_type) (col_nullable: bool) (col_indexed: bool)
    (col_target: string) (col_sub: "core_column list")

text \<open>\<open>None\<close> stands for the unreachable default case and for a subtable without columns.\<close>

fun from_core_type :: "core_column \<Rightarrow> property_type option" where
  "from_core_type (Core_Column n t null idx target sub) =
     (let optional = (if null then pt_Nullable else pt_Required)
      in case t of
           type_Int \<Rightarrow> Some (pt_Int OR optional)
         | type_Float \<Rightarrow> Some (pt_Float OR optional)
         | type_Double \<Rightarrow> Some (pt_Double OR optional)
         | type_Bool \<Rightarrow> Some (pt_Bool OR optional)
         | type_String \<Rightarrow> Some (pt_String OR optional)
         | type_Binary \<Rightarrow> Some (pt_Data OR optional)
         | type_Timestamp \<Rightarrow> Some (pt_Date OR optional)
         | type_Mixed \<Rightarrow> Some (pt_Any OR optional)
         | type_Link \<Rightarrow> Some (pt_Object OR pt_Nullable)
         | type_LinkList \<Rightarrow> Some (pt_Object OR pt_Array)
         | type_Table \<Rightarrow>
             (case sub of [] \<Rightarrow> None | c # _ \<Rightarrow> map_option (\<lambda>u. u OR pt_Array) (from_core_type c))
         | type_OldDateTime \<Rightarrow> None)"

end
