(* ===== verification/Schema.thy ===== *)
theory Schema imports ObjectSchema begin

text \<open>
  Schemas (\<open>schema.cpp\<close>): a list of classes sorted by name, its validation, and the comparison
  with another schema that lists the changes leading from the one to the other.  A change holds
  the classes and properties its pointers point to.
\<close>

section \<open>Construction and validation\<close>

definition schema_new :: "object_schema list \<Rightarrow> schema" where
  "schema_new types = sort_key (\<lambda>os. unsigned_bytes (os_name os)) types"

text \<open>Of each pair of neighbours with the same name the first; the search goes on at the second.\<close>

function duplicate_types :: "schema \<Rightarrow> object_schema list" where
  "duplicate_types s =
     (case adjacent_find (\<lambda>a b. os_name a = os_name b) s of [] \<Rightarrow> [] | x # r \<Rightarrow> x # duplicate_types r)"
  by auto
termination
  by (relation "measure length") (auto dest!: adjacent_find_shorter)

declare duplicate_types.simps [simp del]

definition schema_validate :: "schema \<Rightarrow> schema_error list + unit" where
  "schema_validate s =
     (let es = map (\<lambda>os. Type_Twice (os_name os)) (duplicate_types s) @
               concat (map (object_schema_validate s) s)
      in if es \<noteq> [] then Inl es else Inr ())"

section \<open>Changes\<close>

datatype schema_change =
    AddTable object_schema
  | RemoveTable object_schema
  | AddInitialProperties object_schema
  | AddProperty object_schema property
  | RemoveProperty object_schema property
  | ChangePropertyType object_schema property property
  | MakePropertyNullable object_schema property
  | MakePropertyRequired object_schema property
  | AddIndex object_schema property
  | RemoveIndex object_schema property
  | ChangePrimaryKey object_schema "property option"

fun is_not_remove_property :: "schema_change \<Rightarrow> bool" where
  "is_not_remove_property (RemoveProperty os p) = False"
| "is_not_remove_property c = True"

text \<open>Only asked of a \<open>RemoveProperty\<close>; the other branch is unreachable.\<close>

fun removed_column :: "schema_change \<Rightarrow> nat" where
  "removed_column (RemoveProperty os p) = prop_column p"
| "removed_column c = 0"

section \<open>Comparing two classes\<close>

definition compare_property :: "object_schema \<Rightarrow> object_schema \<Rightarrow> property \<Rightarrow> schema_change list" where
  "compare_property existing target cur =
     (case property_for_name target (prop_name cur) of
        None \<Rightarrow> [RemoveProperty existing cur]
      | Some tp \<Rightarrow>
          if property_is_computed target tp then [RemoveProperty existing cur]
          else if \<not> same_type (prop_type cur) (prop_type tp) \<or>
            prop_object_type cur \<noteq> prop_object_type tp \<or>
            is_array (prop_type cur) \<noteq> is_array (prop_type tp)
          then [ChangePropertyType existing cur tp]
          else
            (if is_nullable (prop_type cur) \<noteq> is_nullable (prop_type tp)
             then if is_nullable (prop_type cur) then [MakePropertyRequired existing cur]
                  else [MakePropertyNullable existing cur]
             else []) @
            (if requires_index tp
             then if \<not> prop_is_indexed cur then [AddIndex existing cur] else []
             else if requires_index cur then [RemoveIndex existing cur] else []))"

text \<open>
  The whole vector of changes, not only those of this class, is partitioned, and its removals
  sorted.  \<open>std::sort\<close> leaves the order of removals with the same column open; here it is the
  order they have.
\<close>

definition compare_objects ::
    "object_schema \<Rightarrow> object_schema \<Rightarrow> schema_change list \<Rightarrow> schema_change list" where
  "compare_objects existing target changes =
     (let cs = changes @ concat (map (compare_property existing target) (os_persisted existing)) @
            (if os_primary_key existing \<noteq> os_primary_key target
             then [ChangePrimaryKey existing (primary_key_property target)] else []) @
            map (AddProperty existing)
              (filter (\<lambda>p. property_for_name existing (prop_name p) = None) (os_persisted target));
          zs = std_partition is_not_remove_property cs;
          k = length (filter is_not_remove_property cs)
      in take k zs @ sort_key (\<lambda>c. - int (removed_column c)) (drop k zs))"

section \<open>Comparing two schemas\<close>

fun zip_matching ::
    "schema \<Rightarrow> schema \<Rightarrow> (object_schema option \<times> object_schema option) list" where
  "zip_matching (x # xs) (y # ys) =
     (if os_name x = os_name y then (Some x, Some y) # zip_matching xs ys
      else if unsigned_bytes (os_name x) < unsigned_bytes (os_name y)
      then (Some x, None) # zip_matching xs (y # ys)
      else (None, Some y) # zip_matching (x # xs) ys)"
| "zip_matching xs [] = map (\<lambda>x. (Some x, None)) xs"
| "zip_matching [] ys = map (\<lambda>y. (None, Some y)) ys"

definition add_missing_table ::
    "bool \<Rightarrow> object_schema option \<times> object_schema option \<Rightarrow> schema_change list" where
  "add_missing_table include_table_removals te =
     (case te of
        (Some target, None) \<Rightarrow> [AddTable target]
      | (None, Some existing) \<Rightarrow> if include_table_removals then [RemoveTable existing] else []
      | _ \<Rightarrow> [])"

definition modify_columns ::
    "object_schema option \<times> object_schema option \<Rightarrow> schema_change list \<Rightarrow> schema_change list" where
  "modify_columns te changes =
     (case te of
        (Some target, Some existing) \<Rightarrow> compare_objects existing target changes
      | (Some target, None) \<Rightarrow> changes @ [AddInitialProperties target]
      | _ \<Rightarrow> changes)"

definition schema_compare :: "schema \<Rightarrow> schema \<Rightarrow> bool \<Rightarrow> schema_change list" where
  "schema_compare existing target include_table_removals =
     (let pairs = zip_matching target existing
      in fold modify_columns pairs (concat (map (add_missing_table include_table_removals) pairs)))"

section \<open>Copying the columns\<close>

definition copy_columns :: "object_schema \<Rightarrow> object_schema \<Rightarrow> object_schema" where
  "copy_columns existing other =
     fold (\<lambda>p os. update_property os (prop_name p) (\<lambda>q. q\<lparr>prop_column := prop_column p\<rparr>))
       (os_persisted other) existing"

definition copy_table_columns_from :: "schema \<Rightarrow> schema \<Rightarrow> schema" where
  "copy_table_columns_from s other =
     concat (map (\<lambda>pair.
       (case pair of
          (Some existing, Some other) \<Rightarrow> [copy_columns existing other]
        | (Some existing, None) \<Rightarrow> [existing]
        | _ \<Rightarrow> [])) (zip_matching s other))"

end
