(* ===== verification/SchemaStore.thy ===== *)
theory SchemaStore imports Schema begin

text \<open>
  The object store (\<open>object_store.cpp\<close>): what a list of schema changes means.  The verifiers
  decide whether a list of changes is allowed in a mode, the appliers carry it out.  Tables
  belong to the database core, which is not part of the sources, so an applier is modelled by the
  sequence of calls it makes on the core; nothing is assumed about their effect here.
\<close>

section \<open>Explaining and verifying changes\<close>

datatype change_error =
    Class_Added string
  | Class_Removed string
  | Property_Added string string
  | Property_Removed string string
  | Property_Changed string string string string
  | Property_Made_Optional string string
  | Property_Made_Required string string
  | Primary_Key_Changed string string string
  | Primary_Key_Added string
  | Primary_Key_Removed string
  | Property_Made_Indexed string string
  | Property_Made_Unindexed string string

fun explain :: "schema_change \<Rightarrow> change_error list" where
  "explain (AddTable os) = [Class_Added (os_name os)]"
| "explain (RemoveTable os) = []"
| "explain (AddInitialProperties os) = []"
| "explain (AddProperty os p) = [Property_Added (os_name os) (prop_name p)]"
| "explain (RemoveProperty os p) = [Property_Removed (os_name os) (prop_name p)]"
| "explain (ChangePropertyType os p q) =
     [Property_Changed (os_name os) (prop_name q) (type_string p) (type_string q)]"
| "explain (MakePropertyNullable os p) = [Property_Made_Optional (os_name os) (prop_name p)]"
| "explain (MakePropertyRequired os p) = [Property_Made_Required (os_name os) (prop_name p)]"
| "explain (ChangePrimaryKey os po) =
     (case po of
        Some p \<Rightarrow>
          if os_primary_key os \<noteq> []
          then [Primary_Key_Changed (os_name os) (os_primary_key os) (prop_name p)]
          else [Primary_Key_Added (os_name os)]
      | None \<Rightarrow> [Primary_Key_Removed (os_name os)])"
| "explain (AddIndex os p) = [Property_Made_Indexed (os_name os) (prop_name p)]"
| "explain (RemoveIndex os p) = [Property_Made_Unindexed (os_name os) (prop_name p)]"

definition verify_no_errors ::
    "(schema_change \<Rightarrow> change_error list) \<Rightarrow> schema_change list \<Rightarrow> change_error list + unit" where
  "verify_no_errors verifier changes =
     (let es = concat (map verifier changes) in if es \<noteq> [] then Inl es else Inr ())"

fun change_needs_migration :: "schema_change \<Rightarrow> bool" where
  "change_needs_migration (AddIndex os p) = False"
| "change_needs_migration (AddInitialProperties os) = False"
| "change_needs_migration (AddProperty os p) = True"
| "change_needs_migration (AddTable os) = False"
| "change_needs_migration (RemoveTable os) = False"
| "change_needs_migration (ChangePrimaryKey os po) = True"
| "change_needs_migration (ChangePropertyType os p q) = True"
| "change_needs_migration (MakePropertyNullable os p) = True"
| "change_needs_migration (MakePropertyRequired os p) = True"
| "change_needs_migration (RemoveIndex os p) = False"
| "change_needs_migration (RemoveProperty os p) = True"

definition needs_migration :: "schema_change list \<Rightarrow> bool" where
  "needs_migration changes \<longleftrightarrow> list_ex change_needs_migration changes"

definition verify_no_changes_required :: "schema_change list \<Rightarrow> change_error list + unit" where
  "verify_no_changes_required changes = verify_no_errors explain changes"

fun migration_verifier :: "schema_change \<Rightarrow> change_error list" where
  "migration_verifier (AddTable os) = []"
| "migration_verifier (AddInitialProperties os) = []"
| "migration_verifier (AddIndex os p) = []"
| "migration_verifier (RemoveIndex os p) = []"
| "migration_verifier c = explain c"

definition verify_no_migration_required :: "schema_change list \<Rightarrow> change_error list + unit" where
  "verify_no_migration_required changes = verify_no_errors migration_verifier changes"

fun additive_verifier :: "schema_change \<Rightarrow> change_error list" where
  "additive_verifier (AddTable os) = []"
| "additive_verifier (AddInitialProperties os) = []"
| "additive_verifier (AddProperty os p) = []"
| "additive_verifier (RemoveProperty os p) = []"
| "additive_verifier (AddIndex os p) = []"
| "additive_verifier (RemoveIndex os p) = []"
| "additive_verifier c = explain c"

fun is_other_change :: "schema_change \<Rightarrow> bool" where
  "is_other_change (AddTable os) = True"
| "is_other_change (AddInitialProperties os) = True"
| "is_other_change (AddProperty os p) = True"
| "is_other_change c = False"

fun is_index_change :: "schema_change \<Rightarrow> bool" where
  "is_index_change (AddIndex os p) = True"
| "is_index_change (RemoveIndex os p) = True"
| "is_index_change c = False"

definition verify_valid_additive_changes ::
    "schema_change list \<Rightarrow> bool \<Rightarrow> change_error list + bool" where
  "verify_valid_additive_changes changes update_indexes =
     (case verify_no_errors additive_verifier changes of
        Inl es \<Rightarrow> Inl es
      | Inr _ \<Rightarrow> Inr (list_ex is_other_change changes \<or> list_ex is_index_change changes \<and> update_indexes))"

fun external_verifier :: "schema_change \<Rightarrow> change_error list" where
  "external_verifier (AddTable os) = []"
| "external_verifier (AddInitialProperties os) = []"
| "external_verifier (AddProperty os p) = []"
| "external_verifier (AddIndex os p) = []"
| "external_verifier (RemoveIndex os p) = []"
| "external_verifier (RemoveTable os) = [Class_Removed (os_name os)]"
| "external_verifier c = explain c"

definition verify_valid_external_changes :: "schema_change list \<Rightarrow> change_error list + unit" where
  "verify_valid_external_changes changes = verify_no_errors external_verifier changes"

fun readonly_verifier :: "schema_change \<Rightarrow> change_error list" where
  "readonly_verifier (AddTable os) = []"
| "readonly_verifier (AddInitialProperties os) = []"
| "readonly_verifier (RemoveProperty os p) = []"
| "readonly_verifier (AddIndex os p) = []"
| "readonly_verifier (RemoveIndex os p) = []"
| "readonly_verifier c = explain c"

definition verify_compatible_for_immutable_and_readonly ::
    "schema_change list \<Rightarrow> change_error list + unit" where
  "verify_compatible_for_immutable_and_readonly changes = verify_no_errors readonly_verifier changes"

section \<open>Calls on the core\<close>

text \<open>
  A column is named by its class and its index; \<open>Appended\<close> is the index of a column that was
  inserted at the index \<open>get_column_count()\<close> had before.
\<close>

datatype column_ref = At nat | Appended

datatype core_call =
    Create_Table string
  | Create_Table_With_Primary_Key string data_type string bool
  | Set_Primary_Key string string
  | Check_Primary_Key_Unique string string
  | Insert_Column string column_ref data_type string bool
  | Insert_Column_Link string column_ref data_type string string
  | Add_Sub_Column string column_ref data_type string bool
  | Add_Search_Index string column_ref
  | Remove_Search_Index string column_ref
  | Remove_Column string column_ref
  | Rename_Column string column_ref string
  | Copy_Values string data_type nat nat

datatype store_error =
    Assertion_Failed
  | Null_Dereference
  | Renamed_Property_Missing string string

type_synonym calls = "store_error + core_call list"

fun and_then :: "calls \<Rightarrow> calls \<Rightarrow> calls" where
  "and_then (Inl e) r = Inl e"
| "and_then (Inr cs) (Inl e) = Inl e"
| "and_then (Inr cs) (Inr ds) = Inr (cs @ ds)"

definition all_calls :: "('a \<Rightarrow> calls) \<Rightarrow> 'a list \<Rightarrow> calls" where
  "all_calls f xs = foldr (\<lambda>x r. and_then (f x) r) xs (Inr [])"

definition array_column_name :: string where
  "array_column_name = ''!ARRAY_VALUE''"

definition to_core_type :: "property_type \<Rightarrow> data_type option" where
  "to_core_type t =
     (let b = base_type t
      in if b = pt_Int then Some type_Int
         else if b = pt_Bool then Some type_Bool
         else if b = pt_Float then Some type_Float
         else if b = pt_Double then Some type_Double
         else if b = pt_String then Some type_String
         else if b = pt_Date then Some type_Timestamp
         else if b = pt_Data then Some type_Binary
         else None)"

definition table_name_for_object_type :: "string \<Rightarrow> string" where
  "table_name_for_object_type n = ''class_'' @ n"

definition object_type_for_table_name :: "string \<Rightarrow> string" where
  "object_type_for_table_name n = (if take 6 n = ''class_'' then drop 6 n else [])"

definition store_insert_column :: "string \<Rightarrow> property \<Rightarrow> column_ref \<Rightarrow> calls" where
  "store_insert_column c p col =
     (let t = prop_type p
      in if same_type t pt_LinkingObjects then Inl Assertion_Failed
         else if same_type t pt_Object then
           Inr [Insert_Column_Link c col (if is_array t then type_LinkList else type_Link)
                  (prop_name p) (table_name_for_object_type (prop_object_type p))]
         else case to_core_type t of
             None \<Rightarrow> Inl Assertion_Failed
           | Some ct \<Rightarrow>
               if is_array t then
                 Inr [Insert_Column c col type_Table (prop_name p) False,
                      Add_Sub_Column c col ct array_column_name (is_nullable t)]
               else
                 Inr (Insert_Column c col ct (prop_name p) (is_nullable t) #
                      (if requires_index p then [Add_Search_Index c col] else [])))"

definition add_column :: "string \<Rightarrow> property \<Rightarrow> calls" where
  "add_column c p = store_insert_column c p Appended"

definition replace_column :: "string \<Rightarrow> property \<Rightarrow> property \<Rightarrow> calls" where
  "replace_column c old_property new_property =
     and_then (store_insert_column c new_property (At (prop_column old_property)))
       (Inr [Remove_Column c (At (prop_column old_property + 1))])"

definition create_table :: "object_schema \<Rightarrow> calls" where
  "create_table os =
     (case primary_key_property os of
        Some pk \<Rightarrow>
          (case to_core_type (prop_type pk) of
             None \<Rightarrow> Inl Assertion_Failed
           | Some ct \<Rightarrow>
               Inr [Create_Table_With_Primary_Key (os_name os) ct (prop_name pk)
                      (is_nullable (prop_type pk))])
      | None \<Rightarrow> Inr [Create_Table (os_name os)])"

definition add_initial_columns :: "object_schema \<Rightarrow> calls" where
  "add_initial_columns os =
     all_calls (\<lambda>p. if prop_is_primary p then Inr [] else add_column (os_name os) p) (os_persisted os)"

definition copy_property_values :: "string \<Rightarrow> property \<Rightarrow> core_call list" where
  "copy_property_values c p =
     (case to_core_type (prop_type p) of
        Some ct \<Rightarrow> [Copy_Values c ct (prop_column p + 1) (prop_column p)]
      | None \<Rightarrow> [])"

definition make_property_optional :: "string \<Rightarrow> property \<Rightarrow> calls" where
  "make_property_optional c p =
     (let p = p\<lparr>prop_type := prop_type p OR pt_Nullable\<rparr>
      in and_then (store_insert_column c p (At (prop_column p)))
           (Inr (copy_property_values c p @ [Remove_Column c (At (prop_column p + 1))])))"

definition make_property_required :: "string \<Rightarrow> property \<Rightarrow> calls" where
  "make_property_required c p =
     (let p = p\<lparr>prop_type := prop_type p AND NOT pt_Nullable\<rparr>
      in and_then (store_insert_column c p (At (prop_column p)))
           (Inr [Remove_Column c (At (prop_column p + 1))]))"

section \<open>Applying changes\<close>

definition add_index :: "object_schema \<Rightarrow> property \<Rightarrow> calls" where
  "add_index os p = Inr [Add_Search_Index (os_name os) (At (prop_column p))]"

definition remove_index :: "object_schema \<Rightarrow> property \<Rightarrow> calls" where
  "remove_index os p = Inr [Remove_Search_Index (os_name os) (At (prop_column p))]"

definition set_primary_key :: "object_schema \<Rightarrow> property option \<Rightarrow> calls" where
  "set_primary_key os po =
     Inr [Set_Primary_Key (os_name os) (case po of Some p \<Rightarrow> prop_name p | None \<Rightarrow> [])]"

text \<open>
  Changes that need no migration are applied as they come; the others are only explained, and
  the exception is thrown after all changes were visited.
\<close>

fun non_migration_applier :: "schema_change \<Rightarrow> calls" where
  "non_migration_applier (AddTable os) = create_table os"
| "non_migration_applier (AddInitialProperties os) = add_initial_columns os"
| "non_migration_applier (AddIndex os p) = add_index os p"
| "non_migration_applier (RemoveIndex os p) = remove_index os p"
| "non_migration_applier c = Inr []"

definition apply_non_migration_changes ::
    "schema_change list \<Rightarrow> calls \<times> (change_error list + unit)" where
  "apply_non_migration_changes changes =
     (all_calls non_migration_applier changes, verify_no_errors migration_verifier changes)"

fun initial_applier :: "schema_change \<Rightarrow> calls" where
  "initial_applier (AddTable os) = create_table os"
| "initial_applier (RemoveTable os) = Inr []"
| "initial_applier (AddInitialProperties os) = add_initial_columns os"
| "initial_applier (AddProperty os p) = add_column (os_name os) p"
| "initial_applier (RemoveProperty os p) = Inr [Remove_Column (os_name os) (At (prop_column p))]"
| "initial_applier (MakePropertyNullable os p) = make_property_optional (os_name os) p"
| "initial_applier (MakePropertyRequired os p) = make_property_required (os_name os) p"
| "initial_applier (ChangePrimaryKey os po) = set_primary_key os po"
| "initial_applier (AddIndex os p) = add_index os p"
| "initial_applier (RemoveIndex os p) = remove_index os p"
| "initial_applier (ChangePropertyType os p q) = replace_column (os_name os) p q"

definition create_initial_tables :: "schema_change list \<Rightarrow> calls" where
  "create_initial_tables changes = all_calls initial_applier changes"

fun additive_applier :: "bool \<Rightarrow> schema_change \<Rightarrow> calls" where
  "additive_applier update_indexes (AddTable os) = create_table os"
| "additive_applier update_indexes (RemoveTable os) = Inr []"
| "additive_applier update_indexes (AddInitialProperties os) = add_initial_columns os"
| "additive_applier update_indexes (AddProperty os p) = add_column (os_name os) p"
| "additive_applier update_indexes (AddIndex os p) = (if update_indexes then add_index os p else Inr [])"
| "additive_applier update_indexes (RemoveIndex os p) =
     (if update_indexes then remove_index os p else Inr [])"
| "additive_applier update_indexes (RemoveProperty os p) = Inr []"
| "additive_applier update_indexes (ChangePrimaryKey os po) = Inr []"
| "additive_applier update_indexes (ChangePropertyType os p q) = Inr []"
| "additive_applier update_indexes (MakePropertyNullable os p) = Inr []"
| "additive_applier update_indexes (MakePropertyRequired os p) = Inr []"

definition apply_additive_changes :: "schema_change list \<Rightarrow> bool \<Rightarrow> calls" where
  "apply_additive_changes changes update_indexes = all_calls (additive_applier update_indexes) changes"

fun pre_migration_applier :: "schema_change \<Rightarrow> calls" where
  "pre_migration_applier (AddTable os) = create_table os"
| "pre_migration_applier (RemoveTable os) = Inr []"
| "pre_migration_applier (AddInitialProperties os) = add_initial_columns os"
| "pre_migration_applier (AddProperty os p) = add_column (os_name os) p"
| "pre_migration_applier (RemoveProperty os p) = Inr []"
| "pre_migration_applier (ChangePropertyType os p q) = replace_column (os_name os) p q"
| "pre_migration_applier (MakePropertyNullable os p) = make_property_optional (os_name os) p"
| "pre_migration_applier (MakePropertyRequired os p) = make_property_required (os_name os) p"
| "pre_migration_applier (ChangePrimaryKey os po) = set_primary_key os po"
| "pre_migration_applier (AddIndex os p) = add_index os p"
| "pre_migration_applier (RemoveIndex os p) = remove_index os p"

definition apply_pre_migration_changes :: "schema_change list \<Rightarrow> calls" where
  "apply_pre_migration_changes changes = all_calls pre_migration_applier changes"

definition remove_property :: "schema \<Rightarrow> object_schema \<Rightarrow> property \<Rightarrow> calls" where
  "remove_property initial_schema os p =
     (if initial_schema = [] then Inr [Remove_Column (os_name os) (At (prop_column p))]
      else case schema_find initial_schema (os_name os) of
          None \<Rightarrow> Inl Null_Dereference
        | Some initial \<Rightarrow>
            if property_for_name initial (prop_name p) = None
            then Inl (Renamed_Property_Missing (os_name os) (prop_name p))
            else Inr [Remove_Column (os_name os) (At (prop_column p))])"

fun post_migration_applier :: "schema \<Rightarrow> bool \<Rightarrow> schema_change \<Rightarrow> calls" where
  "post_migration_applier s reread (RemoveProperty os p) = remove_property s os p"
| "post_migration_applier s reread (ChangePrimaryKey os po) =
     (case po of Some p \<Rightarrow> Inr [Check_Primary_Key_Unique (os_name os) (prop_name p)] | None \<Rightarrow> Inr [])"
| "post_migration_applier s reread (AddTable os) = create_table os"
| "post_migration_applier s reread (AddInitialProperties os) =
     (if reread then add_initial_columns os else Inr [])"
| "post_migration_applier s reread (AddIndex os p) = add_index os p"
| "post_migration_applier s reread (RemoveIndex os p) = remove_index os p"
| "post_migration_applier s reread c = Inr []"

definition apply_post_migration_changes :: "schema_change list \<Rightarrow> schema \<Rightarrow> bool \<Rightarrow> calls" where
  "apply_post_migration_changes changes initial_schema did_reread_schema =
     all_calls (post_migration_applier initial_schema did_reread_schema) changes"

section \<open>The tables of the database\<close>

text \<open>
  Reading a schema from tables and renaming a property (\<open>object_store.cpp\<close>,
  \<open>object_schema.cpp\<close>).  A table is what the accessors return: its name and its columns.
\<close>

section \<open>Reading tables\<close>

definition object_id_column_name :: string where
  "object_id_column_name = ''!OID''"

definition default_property :: property where
  "default_property = property_new [] pt_Int False False []"

text \<open>
  \<open>None\<close> for columns that are no property, and for the column type \<open>from_core_type\<close> cannot
  reach.
\<close>

definition property_for_column_index :: "core_column list \<Rightarrow> nat \<Rightarrow> property option" where
  "property_for_column_index cols i =
     (let c = cols ! i
      in if col_name c = object_id_column_name then None
         else if col_type c = type_Table \<and>
           (length (col_sub c) \<noteq> 1 \<or> col_name (col_sub c ! 0) \<noteq> array_column_name) then None
         else case from_core_type c of
             None \<Rightarrow> None
           | Some t \<Rightarrow>
               Some (default_property
                 \<lparr>prop_name := col_name c, prop_type := t, prop_is_indexed := col_indexed c,
                  prop_column := i,
                  prop_object_type :=
                    if same_type t pt_Object then object_type_for_table_name (col_target c) else []\<rparr>))"

definition object_schema_from_table :: "string \<Rightarrow> core_column list \<Rightarrow> string \<Rightarrow> object_schema" where
  "object_schema_from_table n cols pk =
     set_primary_key_property
       \<lparr>os_name = n,
        os_persisted = List.map_filter (property_for_column_index cols) [0..<length cols],
        os_computed = [], os_primary_key = pk\<rparr>"

text \<open>The tables of a group in their order, and the primary key noted for a class.\<close>

definition schema_from_group ::
    "(string \<times> core_column list) list \<Rightarrow> (string \<Rightarrow> string) \<Rightarrow> schema" where
  "schema_from_group tables primary_key =
     schema_new
       (map (\<lambda>(n, cols). object_schema_from_table (object_type_for_table_name n) cols
               (primary_key (object_type_for_table_name n)))
         (filter (\<lambda>(n, cols). object_type_for_table_name n \<noteq> []) tables))"

text \<open>The accessor \<open>get_column_index\<close> answers \<open>npos\<close> for a name the table does not have.\<close>

definition get_column_index :: "core_column list \<Rightarrow> string \<Rightarrow> nat" where
  "get_column_index cols n =
     (let i = length (takeWhile (\<lambda>c. col_name c \<noteq> n) cols) in if i < length cols then i else npos)"

definition set_schema_columns :: "(string \<Rightarrow> core_column list option) \<Rightarrow> schema \<Rightarrow> schema" where
  "set_schema_columns table s =
     map (\<lambda>os. case table (table_name_for_object_type (os_name os)) of
         None \<Rightarrow> os
       | Some cols \<Rightarrow>
           os\<lparr>os_persisted :=
                map (\<lambda>p. p\<lparr>prop_column := get_column_index cols (prop_name p)\<rparr>) (os_persisted os)\<rparr>) s"

section \<open>Renaming a property\<close>

datatype rename_error =
    Type_Does_Not_Exist string
  | Type_Has_Been_Removed string
  | Source_Still_Exists string string string
  | Property_Does_Not_Exist string string
  | Type_Would_Change string string string string string
  | Would_Become_Required string string string
  | Rename_Failed store_error

text \<open>The calls on the core, and the classes of the target schema with their new columns.\<close>

definition shift_removed_column :: "nat \<Rightarrow> nat \<Rightarrow> property \<Rightarrow> property" where
  "shift_removed_column removed old_column p =
     (if prop_column p = removed then p\<lparr>prop_column := old_column\<rparr>
      else if prop_column p > removed then p\<lparr>prop_column := prop_column p - 1\<rparr>
      else p)"

definition update_class :: "string \<Rightarrow> (object_schema \<Rightarrow> object_schema) \<Rightarrow> schema \<Rightarrow> schema" where
  "update_class n f s =
     (let i = lower_bound (\<lambda>os. signed_bytes (os_name os) < signed_bytes n) s in s[i := f (s ! i)])"

definition rename_property ::
    "(string \<Rightarrow> core_column list option) \<Rightarrow> (string \<Rightarrow> string) \<Rightarrow> schema \<Rightarrow> string \<Rightarrow> string \<Rightarrow> string \<Rightarrow>
     rename_error + core_call list \<times> schema" where
  "rename_property table primary_key target_schema c old_name new_name =
     (case table (table_name_for_object_type c) of
        None \<Rightarrow> Inl (Type_Does_Not_Exist c)
      | Some cols \<Rightarrow>
     (case schema_find target_schema c of
        None \<Rightarrow> Inl (Type_Has_Been_Removed c)
      | Some target \<Rightarrow>
     if property_for_name target old_name \<noteq> None then Inl (Source_Still_Exists c old_name new_name)
     else let os = object_schema_from_table c cols (primary_key c)
     in case property_for_name os old_name of
        None \<Rightarrow> Inl (Property_Does_Not_Exist c old_name)
      | Some op \<Rightarrow>
     (case property_for_name os new_name of
        None \<Rightarrow> Inr ([Rename_Column c (At (prop_column op)) new_name], target_schema)
      | Some np \<Rightarrow>
     if \<not> same_type (prop_type op) (prop_type np) \<or> prop_object_type op \<noteq> prop_object_type np
     then Inl (Type_Would_Change c old_name new_name (type_string op) (type_string np))
     else if is_nullable (prop_type op) \<and> \<not> is_nullable (prop_type np)
     then Inl (Would_Become_Required c old_name new_name)
     else
       let column_to_remove = prop_column np;
           calls = [Rename_Column c (At (prop_column op)) new_name, Remove_Column c (At column_to_remove)];
           s = update_class c (\<lambda>os. os\<lparr>os_persisted :=
                 map (shift_removed_column column_to_remove (prop_column op)) (os_persisted os)\<rparr>)
               target_schema
       in if is_nullable (prop_type np) \<and> \<not> is_nullable (prop_type op) then
            (case make_property_optional c (np\<lparr>prop_column := prop_column op\<rparr>) of
               Inl e \<Rightarrow> Inl (Rename_Failed e)
             | Inr cs \<Rightarrow> Inr (calls @ cs, s))
          else Inr (calls, s))))"

end
