(* ===== verification/SchemaLaws.thy ===== *)
theory SchemaLaws imports SchemaStore begin

text \<open>
  The rules a valid schema obeys, stated without the order in which the code checks them, and
  the lemmas that validation finds exactly the violations.
\<close>

section \<open>Well-formed schemas\<close>

definition os_properties :: "object_schema \<Rightarrow> property list" where
  "os_properties os = os_persisted os @ os_computed os"

definition link_wf :: "schema \<Rightarrow> string \<Rightarrow> property \<Rightarrow> bool" where
  "link_wf s n p \<longleftrightarrow>
     (if base_type (prop_type p) = pt_Object then
        prop_link_origin p = [] \<and> is_array (prop_type p) \<noteq> is_nullable (prop_type p) \<and>
        (\<exists>os\<in>set s. os_name os = prop_object_type p)
      else if base_type (prop_type p) = pt_LinkingObjects then
        prop_link_origin p \<noteq> [] \<and> is_array (prop_type p) \<and> \<not> is_nullable (prop_type p) \<and>
        (\<exists>os\<in>set s. os_name os = prop_object_type p \<and>
           (\<exists>q\<in>set (os_properties os). prop_name q = prop_link_origin p \<and>
              base_type (prop_type q) = pt_Object \<and> prop_object_type q = n))
      else prop_link_origin p = [] \<and> prop_object_type p = [])"

definition property_wf :: "schema \<Rightarrow> string \<Rightarrow> property \<Rightarrow> bool" where
  "property_wf s n p \<longleftrightarrow>
     (prop_is_primary p \<longrightarrow> base_type (prop_type p) \<in> {pt_Int, pt_String}) \<and>
     (prop_is_indexed p \<longrightarrow> base_type (prop_type p) \<in> {pt_Int, pt_Bool, pt_Date, pt_String}) \<and>
     link_wf s n p"

definition public_names :: "object_schema \<Rightarrow> string list" where
  "public_names os = map prop_public_name (filter (\<lambda>p. prop_public_name p \<noteq> []) (os_properties os))"

definition class_wf :: "schema \<Rightarrow> object_schema \<Rightarrow> bool" where
  "class_wf s os \<longleftrightarrow>
     distinct (map prop_name (os_properties os)) \<and> distinct (public_names os) \<and>
     set (public_names os) \<inter> prop_name ` set (os_properties os) = {} \<and>
     (\<forall>p\<in>set (os_properties os). property_wf s (os_name os) p) \<and>
     length (filter prop_is_primary (os_properties os)) \<le> 1 \<and>
     (os_primary_key os = [] \<or>
      (\<exists>p\<in>set (os_properties os). prop_is_primary p \<or> prop_name p = os_primary_key os))"

definition schema_wf :: "object_schema list \<Rightarrow> bool" where
  "schema_wf s \<longleftrightarrow> distinct (map os_name s) \<and> (\<forall>os\<in>set s. class_wf s os)"

text \<open>The order of a schema; every schema the code makes has it.\<close>

definition schema_sorted :: "schema \<Rightarrow> bool" where
  "schema_sorted s \<longleftrightarrow> sorted (map (\<lambda>os. unsigned_bytes (os_name os)) s)"

definition schema_ascii :: "schema \<Rightarrow> bool" where
  "schema_ascii s \<longleftrightarrow> (\<forall>os\<in>set s. ascii (os_name os))"

lemma schema_new_sorted [simp]: "schema_sorted (schema_new types)"
  by (simp add: schema_sorted_def schema_new_def)

lemma schema_new_set [simp]: "set (schema_new types) = set types" "mset (schema_new types) = mset types"
  by (simp_all add: schema_new_def)

lemma base_types [simp]:
  "base_type pt_Int = pt_Int" "base_type pt_Bool = pt_Bool" "base_type pt_String = pt_String"
  "base_type pt_Data = pt_Data" "base_type pt_Date = pt_Date" "base_type pt_Float = pt_Float"
  "base_type pt_Double = pt_Double" "base_type pt_Object = pt_Object"
  "base_type pt_LinkingObjects = pt_LinkingObjects" "base_type pt_Any = pt_Any"
  by (simp_all add: base_type_def pt_defs)

lemma links_differ [simp]: "pt_LinkingObjects \<noteq> pt_Object" "pt_Object \<noteq> pt_LinkingObjects"
  by (simp_all add: pt_defs)

section \<open>Lookups\<close>

lemma find_first_of_key:
  assumes "distinct (map f xs)"
  shows "find (\<lambda>x. f x = k) xs = Some x \<longleftrightarrow> x \<in> set xs \<and> f x = k"
  using assms by (induction xs) (auto simp: image_iff)

lemma find_None_key: "find (\<lambda>x. f x = k) xs = None \<longleftrightarrow> k \<notin> f ` set xs"
  by (auto simp: find_None_iff)

lemma property_for_name_find: "property_for_name os n = find (\<lambda>p. prop_name p = n) (os_properties os)"
proof -
  have "find P (xs @ ys) = (case find P xs of Some x \<Rightarrow> Some x | None \<Rightarrow> find P ys)"
    for P and xs ys :: "property list" by (induction xs) auto
  then show ?thesis by (simp add: property_for_name_def os_properties_def)
qed

lemma property_for_name_Some:
  "distinct (map prop_name (os_properties os)) \<Longrightarrow>
   property_for_name os n = Some p \<longleftrightarrow> p \<in> set (os_properties os) \<and> prop_name p = n"
  by (simp add: property_for_name_find find_first_of_key)

lemma property_for_name_None:
  "property_for_name os n = None \<longleftrightarrow> n \<notin> prop_name ` set (os_properties os)"
  by (simp add: property_for_name_find find_None_key)

lemma sorted_signed:
  assumes "schema_sorted s" "schema_ascii s"
  shows "sorted (map (\<lambda>os. signed_bytes (os_name os)) s)"
proof -
  have "map (\<lambda>os. signed_bytes (os_name os)) s = map (\<lambda>os. unsigned_bytes (os_name os)) s"
    using assms(2) by (auto simp: schema_ascii_def signed_ascii)
  then show ?thesis using assms(1) unfolding schema_sorted_def by (simp only:)
qed

lemma find_takeWhile:
  fixes f :: "'a \<Rightarrow> 'b :: linorder"
  assumes "sorted (map f xs)"
  shows "find (\<lambda>x. f x = k) xs =
    (let i = length (takeWhile (\<lambda>x. f x < k) xs)
     in if i = length xs then None else if f (xs ! i) = k then Some (xs ! i) else None)"
  using assms
proof (induction xs)
  case (Cons x xs)
  show ?case
  proof (cases "f x < k")
    case True
    then have "f x \<noteq> k" by simp
    then show ?thesis using Cons True by (simp add: Let_def)
  next
    case False
    have "find (\<lambda>y. f y = k) xs = None" if "k < f x"
      using Cons.prems that by (fastforce simp: find_None_iff)
    with False show ?thesis by (auto simp: Let_def not_less)
  qed
qed simp

lemma schema_find_first:
  assumes "schema_sorted s" "schema_ascii s"
  shows "schema_find s n = find (\<lambda>os. os_name os = n) s"
proof -
  define f where "f = (\<lambda>os :: object_schema. signed_bytes (os_name os))"
  have srt: "sorted (map f s)" using sorted_signed[OF assms] by (simp add: f_def)
  have "\<forall>i j. i < j \<and> j < length s \<and> f (s ! j) < signed_bytes n \<longrightarrow> f (s ! i) < signed_bytes n"
    using srt by (auto simp: sorted_iff_nth_mono_less intro: le_less_trans)
  from lower_bound_partitioned[where lt = "\<lambda>os. f os < signed_bytes n", OF this]
  have lb: "lower_bound (\<lambda>os. f os < signed_bytes n) s = length (takeWhile (\<lambda>os. f os < signed_bytes n) s)" .
  have "find (\<lambda>os. os_name os = n) s = find (\<lambda>os. f os = signed_bytes n) s" by (simp add: f_def)
  then show ?thesis
    using find_takeWhile[OF srt, of "signed_bytes n"] lb
    by (auto simp: schema_find_def Let_def f_def)
qed

section \<open>Duplicate names\<close>

lemma duplicates_Nil: "duplicates (sort_key signed_bytes xs) = [] \<longleftrightarrow> distinct xs"
proof -
  have "duplicates ys = [] \<longleftrightarrow> adjacent_find (=) ys = []" for ys :: "string list"
    by (subst duplicates.simps) (auto split: list.splits)
  moreover have "successively (\<lambda>x y. x \<noteq> y) (sort_key signed_bytes xs) \<longleftrightarrow>
      distinct (map signed_bytes (sort_key signed_bytes xs))"
    using sorted_no_adjacent[of signed_bytes "sort_key signed_bytes xs"] by simp
  moreover have "distinct (map signed_bytes (sort_key signed_bytes xs)) \<longleftrightarrow> distinct (sort_key signed_bytes xs)"
    using inj_bytes(2) by (simp add: distinct_map inj_on_def)
  ultimately show ?thesis by (simp add: adjacent_find_Nil)
qed

lemma duplicate_types_Nil: "schema_sorted s \<Longrightarrow> duplicate_types s = [] \<longleftrightarrow> distinct (map os_name s)"
proof -
  assume "schema_sorted s"
  then have "successively (\<lambda>x y. os_name x \<noteq> os_name y) s \<longleftrightarrow>
      distinct (map (\<lambda>os. unsigned_bytes (os_name os)) s)"
    using sorted_no_adjacent[of "\<lambda>os. unsigned_bytes (os_name os)" s]
    by (simp add: schema_sorted_def)
  moreover have "distinct (map (\<lambda>os. unsigned_bytes (os_name os)) s) \<longleftrightarrow> distinct (map os_name s)"
    by (simp add: distinct_map inj_on_def)
  moreover have "duplicate_types s = [] \<longleftrightarrow> adjacent_find (\<lambda>a b. os_name a = os_name b) s = []"
    by (subst duplicate_types.simps) (auto split: list.splits)
  ultimately show ?thesis by (simp add: adjacent_find_Nil)
qed

section \<open>Validation of one property\<close>

lemmas property_errors_defs = linking_errors_def nullable_errors_def index_errors_def
  origin_errors_def type_is_nullable_def type_is_indexable_def same_type_def Let_def

lemma link_errors_Nil:
  assumes s: "schema_sorted s" "schema_ascii s" "distinct (map os_name s)"
    and names: "\<forall>os\<in>set s. distinct (map prop_name (os_properties os))"
  shows "linking_errors n p @ nullable_errors n p @ origin_errors n p @ link_errors s n p = [] \<longleftrightarrow>
    link_wf s n p"
proof -
  have find: "schema_find s m = Some os \<longleftrightarrow> os \<in> set s \<and> os_name os = m" for m os
    using find_first_of_key[OF s(3)] by (simp add: schema_find_first[OF s(1,2)])
  have none: "schema_find s m = None \<longleftrightarrow> (\<forall>os\<in>set s. os_name os \<noteq> m)" for m
    by (auto simp: schema_find_first[OF s(1,2)] find_None_iff)
  consider "base_type (prop_type p) = pt_Object" | "base_type (prop_type p) = pt_LinkingObjects"
    | "base_type (prop_type p) \<noteq> pt_Object" "base_type (prop_type p) \<noteq> pt_LinkingObjects" by blast
  then show ?thesis
  proof cases
    case 1
    then show ?thesis
      by (auto simp: property_errors_defs link_errors_def link_wf_def find none split: option.splits)
  next
    case 2
    have origin: "(\<exists>q\<in>set (os_properties os). prop_name q = prop_link_origin p \<and>
        base_type (prop_type q) = pt_Object \<and> prop_object_type q = n) \<longleftrightarrow>
      (\<exists>q. property_for_name os (prop_link_origin p) = Some q \<and>
        base_type (prop_type q) = pt_Object \<and> prop_object_type q = n)" if "os \<in> set s" for os
      using names that by (auto simp: property_for_name_Some)
    show ?thesis
    proof (cases "schema_find s (prop_object_type p)")
      case None
      then have "\<forall>os\<in>set s. os_name os \<noteq> prop_object_type p" by (simp only: none)
      then show ?thesis using 2 None by (auto simp: property_errors_defs link_errors_def link_wf_def)
    next
      case (Some os)
      then have os: "os \<in> set s" "os_name os = prop_object_type p" by (simp_all add: find)
      have "(\<exists>os\<in>set s. os_name os = prop_object_type p \<and> Q os) \<longleftrightarrow> Q os" for Q
        using os s(3) by (auto simp: distinct_map inj_on_def)
      then show ?thesis using 2 Some os(1)
        by (auto simp: property_errors_defs link_errors_def link_wf_def origin split: option.splits)
    qed
  next
    case 3
    then show ?thesis
      by (auto simp: property_errors_defs link_errors_def link_wf_def)
  qed
qed

lemma validate_property_Nil:
  assumes "schema_sorted s" "schema_ascii s" "distinct (map os_name s)"
    and "\<forall>os\<in>set s. distinct (map prop_name (os_properties os))"
  shows "fst (validate_property s n p primary) = [] \<longleftrightarrow>
    property_wf s n p \<and> (prop_is_primary p \<longrightarrow> primary = None)"
proof -
  have "index_errors n p = [] \<longleftrightarrow>
      (prop_is_indexed p \<longrightarrow> base_type (prop_type p) \<in> {pt_Int, pt_Bool, pt_Date, pt_String})"
    by (simp add: property_errors_defs)
  moreover have "primary_errors n p primary = [] \<longleftrightarrow>
      (prop_is_primary p \<longrightarrow> base_type (prop_type p) \<in> {pt_Int, pt_String} \<and> primary = None)"
    by (simp add: primary_errors_def same_type_def split: option.splits)
  ultimately show ?thesis
    using link_errors_Nil[OF assms, of n p] by (auto simp: validate_property_def property_wf_def)
qed

lemma validate_properties_Cons:
  "fst (validate_properties s n (p # ps) primary) =
     fst (validate_property s n p primary) @
     fst (validate_properties s n ps (if prop_is_primary p then Some p else primary))"
  "snd (validate_properties s n (p # ps) primary) =
     snd (validate_properties s n ps (if prop_is_primary p then Some p else primary))"
  by (simp_all add: validate_property_def Let_def split: prod.splits)

lemma validate_properties_primary:
  "snd (validate_properties s n ps primary) = None \<longleftrightarrow> primary = None \<and> (\<forall>p\<in>set ps. \<not> prop_is_primary p)"
  by (induction ps arbitrary: primary)
    (auto simp: validate_properties_Cons simp del: validate_properties.simps(2))

lemma validate_properties_Nil:
  assumes "schema_sorted s" "schema_ascii s" "distinct (map os_name s)"
    and "\<forall>os\<in>set s. distinct (map prop_name (os_properties os))"
  shows "fst (validate_properties s n ps primary) = [] \<longleftrightarrow>
    (\<forall>p\<in>set ps. property_wf s n p) \<and>
    length (filter prop_is_primary ps) + (if primary = None then 0 else 1) \<le> 1"
proof (induction ps arbitrary: primary)
  case (Cons p ps)
  show ?case
    using validate_property_Nil[OF assms, of n p primary]
      Cons.IH[of "if prop_is_primary p then Some p else primary"]
    by (auto simp: validate_properties_Cons(1) simp del: validate_properties.simps(2))
qed (simp split: if_splits)

section \<open>Validation of a class and of a schema\<close>

lemma conflicts_Nil:
  "set_intersection (\<lambda>a b. signed_bytes a < signed_bytes b) (sort_key signed_bytes xs)
     (sort_key signed_bytes ys) = [] \<longleftrightarrow> set xs \<inter> set ys = {}"
proof -
  have "set (set_intersection (\<lambda>a b. signed_bytes a < signed_bytes b) (sort_key signed_bytes xs)
     (sort_key signed_bytes ys)) = set xs \<inter> set ys"
    using set_set_intersection[of signed_bytes "sort_key signed_bytes xs" "sort_key signed_bytes ys"]
    by (simp add: inj_bytes)
  then show ?thesis by (metis set_empty)
qed

text \<open>The property named in an alias conflict exists, so its pointer is never null.\<close>

lemma alias_conflict_not_null:
  assumes "n \<in> set (public_names os)"
  shows "property_for_public_name os n \<noteq> None"
proof
  assume none: "property_for_public_name os n = None"
  obtain p where p: "p \<in> set (os_properties os)" "prop_public_name p \<noteq> []" "n = prop_public_name p"
    using assms by (auto simp: public_names_def)
  show False
    using none p
    by (auto simp: property_for_public_name_def os_properties_def find_None_iff split: option.splits)
qed

lemma object_schema_validate_Nil:
  assumes "schema_sorted s" "schema_ascii s" "distinct (map os_name s)"
    and "\<forall>os\<in>set s. distinct (map prop_name (os_properties os))"
  shows "object_schema_validate s os = [] \<longleftrightarrow> class_wf s os"
proof -
  define ps where "ps = os_properties os"
  obtain es pr where v: "validate_properties s (os_name os) ps None = (es, pr)" by fastforce
  have es: "es = [] \<longleftrightarrow> (\<forall>p\<in>set ps. property_wf s (os_name os) p) \<and> length (filter prop_is_primary ps) \<le> 1"
    using validate_properties_Nil[OF assms, of "os_name os" ps None] v by simp
  have pr: "pr = None \<longleftrightarrow> (\<forall>p\<in>set ps. \<not> prop_is_primary p)"
    using validate_properties_primary[of s "os_name os" ps None] v by simp
  have pk: "primary_key_property os = None \<longleftrightarrow> (\<forall>p\<in>set ps. prop_name p \<noteq> os_primary_key os)"
    by (auto simp: primary_key_property_def property_for_name_None ps_def image_iff)
  have ps': "os_persisted os @ os_computed os = ps" by (simp add: ps_def os_properties_def)
  show ?thesis
    unfolding object_schema_validate_def class_wf_def Let_def ps' v
    by (simp add: duplicates_Nil conflicts_Nil public_names_def ps_def[symmetric] es pr pk) auto
qed

lemma object_schema_validate_names:
  assumes "object_schema_validate s os = []"
  shows "distinct (map prop_name (os_properties os))"
proof -
  have "duplicates (sort_key signed_bytes (map prop_name (os_properties os))) = []"
    using assms by (simp add: object_schema_validate_def os_properties_def Let_def split: prod.splits)
  then show ?thesis by (simp only: duplicates_Nil)
qed

lemma schema_validate_ok:
  assumes "schema_sorted s" "schema_ascii s"
  shows "schema_validate s = Inr () \<longleftrightarrow> schema_wf s"
proof -
  have "schema_validate s = Inr () \<longleftrightarrow>
      distinct (map os_name s) \<and> (\<forall>os\<in>set s. object_schema_validate s os = [])"
    using duplicate_types_Nil[OF assms(1)] by (auto simp: schema_validate_def Let_def)
  also have "\<dots> \<longleftrightarrow> schema_wf s"
    using object_schema_validate_Nil[OF assms] object_schema_validate_names[of s]
    by (auto simp: schema_wf_def class_wf_def)
  finally show ?thesis .
qed

lemma schema_wf_mset: "mset s = mset t \<Longrightarrow> schema_wf s \<longleftrightarrow> schema_wf t"
proof -
  assume m: "mset s = mset t"
  then have "set s = set t" "mset (map os_name s) = mset (map os_name t)"
    by (metis set_mset_mset, simp)
  moreover from this have "link_wf s = link_wf t" by (simp add: link_wf_def fun_eq_iff)
  then have "class_wf s = class_wf t"
    by (simp add: class_wf_def property_wf_def fun_eq_iff)
  ultimately have "distinct (map os_name s) \<longleftrightarrow> distinct (map os_name t)" "class_wf s = class_wf t"
    by (blast dest: mset_eq_imp_distinct_iff)+
  then show ?thesis using \<open>set s = set t\<close> by (simp add: schema_wf_def)
qed

end
