(* ===== verification/SchemaCompareLaws.thy ===== *)
theory SchemaCompareLaws imports SchemaLaws begin

text \<open>
  What comparing two schemas finds: the classes paired by name, the empty list exactly when the
  schemas agree, and the removals of columns in an order in which they do not disturb each other.
\<close>

section \<open>Pairing classes by name\<close>

abbreviation class_key :: "object_schema \<Rightarrow> int list" where
  "class_key os \<equiv> unsigned_bytes (os_name os)"

definition schema_ok :: "schema \<Rightarrow> bool" where
  "schema_ok s \<longleftrightarrow> sorted_wrt (\<lambda>a b. class_key a < class_key b) s"

lemma schema_ok_iff: "schema_ok s \<longleftrightarrow> schema_sorted s \<and> distinct (map os_name s)"
proof -
  have "distinct (map os_name s) \<longleftrightarrow> distinct (map class_key s)"
    by (simp add: distinct_map inj_on_def)
  then show ?thesis
    using strict_sorted_iff[of "map class_key s"]
    by (simp add: schema_ok_def schema_sorted_def sorted_wrt_map)
qed

lemma schema_ok_Cons:
  "schema_ok (x # xs) \<longleftrightarrow> (\<forall>y\<in>set xs. class_key x < class_key y) \<and> schema_ok xs"
  by (simp add: schema_ok_def)

lemma schema_ok_unique:
  "schema_ok s \<Longrightarrow> x \<in> set s \<Longrightarrow> y \<in> set s \<Longrightarrow> os_name x = os_name y \<Longrightarrow> x = y"
  by (auto simp: schema_ok_iff distinct_map inj_on_def)

lemma zip_matching_members:
  "(Some x, Some y) \<in> set (zip_matching a b) \<Longrightarrow> x \<in> set a \<and> y \<in> set b \<and> os_name x = os_name y"
  "(Some x, None) \<in> set (zip_matching a b) \<Longrightarrow> x \<in> set a"
  "(None, Some y) \<in> set (zip_matching a b) \<Longrightarrow> y \<in> set b"
  by (induction a b rule: zip_matching.induct) (auto split: if_splits)

lemma zip_matching_total:
  "x \<in> set a \<Longrightarrow> \<exists>e. (Some x, e) \<in> set (zip_matching a b)"
  "y \<in> set b \<Longrightarrow> \<exists>e. (e, Some y) \<in> set (zip_matching a b)"
  "(None, None) \<notin> set (zip_matching a b)"
  by (induction a b rule: zip_matching.induct) (auto split: if_splits)

lemma zip_matching_missing:
  assumes "schema_ok a" "schema_ok b"
  shows "((Some x, None) \<in> set (zip_matching a b) \<longrightarrow> os_name x \<notin> os_name ` set b) \<and>
    ((None, Some y) \<in> set (zip_matching a b) \<longrightarrow> os_name y \<notin> os_name ` set a)"
  using assms
proof (induction a b rule: zip_matching.induct)
  case (1 u us v vs)
  have less: "os_name p \<noteq> os_name q" "os_name q \<noteq> os_name p" if "class_key p < class_key q" for p q
    using that by auto
  have us: "\<forall>p\<in>set us. class_key u < class_key p" "schema_ok us"
    and vs: "\<forall>q\<in>set vs. class_key v < class_key q" "schema_ok vs"
    using "1.prems" by (simp_all add: schema_ok_Cons)
  consider (eq) "os_name u = os_name v" | (lt) "os_name u \<noteq> os_name v" "class_key u < class_key v"
    | (gt) "os_name u \<noteq> os_name v" "class_key v < class_key u"
    by (metis bytes_eq(1) linorder_less_linear)
  then show ?case
  proof cases
    case eq
    have "os_name x \<noteq> os_name v" if "(Some x, None) \<in> set (zip_matching us vs)"
      using zip_matching_members(2)[OF that] us eq less by metis
    moreover have "os_name y \<noteq> os_name u" if "(None, Some y) \<in> set (zip_matching us vs)"
      using zip_matching_members(3)[OF that] vs eq less by metis
    ultimately show ?thesis using "1.IH"(1) eq us vs by simp
  next
    case lt
    then have u: "class_key u < class_key q" if "q \<in> set (v # vs)" for q
      using that vs(1) by (auto intro: less_trans)
    have "os_name y \<noteq> os_name u" if "(None, Some y) \<in> set (zip_matching us (v # vs))"
      using zip_matching_members(3)[OF that] u less by blast
    moreover have "os_name u \<notin> os_name ` set (v # vs)" using u less by blast
    ultimately show ?thesis using "1.IH"(2) lt us "1.prems"(2) by auto
  next
    case gt
    then have v: "class_key v < class_key p" if "p \<in> set (u # us)" for p
      using that us(1) by (auto intro: less_trans)
    have "os_name x \<noteq> os_name v" if "(Some x, None) \<in> set (zip_matching (u # us) vs)"
      using zip_matching_members(2)[OF that] v less by blast
    moreover have "os_name v \<notin> os_name ` set (u # us)" using v less by blast
    ultimately show ?thesis using "1.IH"(3) gt vs "1.prems"(1) by (auto dest: less_asym)
  qed
qed auto

lemma zip_matching_pairs:
  assumes "schema_ok a" "schema_ok b"
  shows "(Some x, Some y) \<in> set (zip_matching a b) \<longleftrightarrow> x \<in> set a \<and> y \<in> set b \<and> os_name x = os_name y"
    and "(Some x, None) \<in> set (zip_matching a b) \<longleftrightarrow> x \<in> set a \<and> os_name x \<notin> os_name ` set b"
    and "(None, Some y) \<in> set (zip_matching a b) \<longleftrightarrow> y \<in> set b \<and> os_name y \<notin> os_name ` set a"
proof -
  note members = zip_matching_members[where a = a and b = b]
  have missing: "(Some x, None) \<in> set (zip_matching a b) \<Longrightarrow> os_name x \<notin> os_name ` set b"
    "(None, Some y) \<in> set (zip_matching a b) \<Longrightarrow> os_name y \<notin> os_name ` set a" for x y
    using zip_matching_missing[OF assms] by blast+
  show pair: "(Some x, Some y) \<in> set (zip_matching a b) \<longleftrightarrow> x \<in> set a \<and> y \<in> set b \<and> os_name x = os_name y"
  proof
    assume r: "x \<in> set a \<and> y \<in> set b \<and> os_name x = os_name y"
    then obtain o1 where o1: "(Some x, o1) \<in> set (zip_matching a b)" using zip_matching_total(1) by blast
    show "(Some x, Some y) \<in> set (zip_matching a b)"
    proof (cases o1)
      case None
      then show ?thesis using o1 missing(1) r by (metis imageI)
    next
      case (Some y1)
      then have "y1 = y" using o1 members(1) r schema_ok_unique[OF assms(2)] by metis
      then show ?thesis using o1 Some by simp
    qed
  qed (rule members(1))
  show "(Some x, None) \<in> set (zip_matching a b) \<longleftrightarrow> x \<in> set a \<and> os_name x \<notin> os_name ` set b"
  proof
    assume r: "x \<in> set a \<and> os_name x \<notin> os_name ` set b"
    then obtain o1 where "(Some x, o1) \<in> set (zip_matching a b)" using zip_matching_total(1) by blast
    then show "(Some x, None) \<in> set (zip_matching a b)" using r members(1)
      by (cases o1) auto
  qed (auto dest: members(2) missing(1))
  show "(None, Some y) \<in> set (zip_matching a b) \<longleftrightarrow> y \<in> set b \<and> os_name y \<notin> os_name ` set a"
  proof
    assume r: "y \<in> set b \<and> os_name y \<notin> os_name ` set a"
    then obtain o1 where "(o1, Some y) \<in> set (zip_matching a b)" using zip_matching_total(2) by blast
    then show "(None, Some y) \<in> set (zip_matching a b)" using r members(1)
      by (cases o1) (auto dest!: members(1), metis imageI)
  qed (auto dest: members(3) missing(2))
qed

section \<open>The changes of one class\<close>

definition class_changes :: "object_schema \<Rightarrow> object_schema \<Rightarrow> schema_change list" where
  "class_changes existing target =
     concat (map (compare_property existing target) (os_persisted existing)) @
     (if os_primary_key existing \<noteq> os_primary_key target
      then [ChangePrimaryKey existing (primary_key_property target)] else []) @
     map (AddProperty existing)
       (filter (\<lambda>p. property_for_name existing (prop_name p) = None) (os_persisted target))"

definition property_agrees :: "object_schema \<Rightarrow> property \<Rightarrow> bool" where
  "property_agrees target p \<longleftrightarrow>
     (\<exists>q. property_for_name target (prop_name p) = Some q \<and> \<not> property_is_computed target q \<and>
        prop_type p = prop_type q \<and> prop_object_type p = prop_object_type q \<and>
        (if requires_index q then prop_is_indexed p else \<not> requires_index p))"

definition class_agrees :: "object_schema \<Rightarrow> object_schema \<Rightarrow> bool" where
  "class_agrees existing target \<longleftrightarrow>
     (\<forall>p\<in>set (os_persisted existing). property_agrees target p) \<and>
     os_primary_key existing = os_primary_key target \<and>
     prop_name ` set (os_persisted target) \<subseteq> prop_name ` set (os_properties existing)"

text \<open>Every class of the target exists and agrees; further existing classes do not matter.\<close>

definition schema_agrees :: "schema \<Rightarrow> schema \<Rightarrow> bool" where
  "schema_agrees existing target \<longleftrightarrow>
     (\<forall>t\<in>set target. \<exists>e\<in>set existing. os_name e = os_name t \<and> class_agrees e t)"

lemma compare_property_Nil: "compare_property e t p = [] \<longleftrightarrow> property_agrees t p"
  by (auto simp: compare_property_def property_agrees_def property_type_parts[of "prop_type p"]
      split: option.splits)

lemma class_changes_Nil: "class_changes e t = [] \<longleftrightarrow> class_agrees e t"
  by (auto simp: class_changes_def class_agrees_def compare_property_Nil property_for_name_None
      filter_empty_conv)

lemma compare_objects_alt:
  "compare_objects e t cs =
     (let zs = std_partition is_not_remove_property (cs @ class_changes e t);
          k = length (filter is_not_remove_property (cs @ class_changes e t))
      in take k zs @ sort_key (\<lambda>c. - int (removed_column c)) (drop k zs))"
  by (simp add: compare_objects_def class_changes_def)

lemma mset_compare_objects: "mset (compare_objects e t cs) = mset cs + mset (class_changes e t)"
proof -
  have "mset (take k zs) + mset (drop k zs) = mset zs" for k and zs :: "schema_change list"
    by (metis append_take_drop_id mset_append)
  then show ?thesis by (simp add: compare_objects_alt Let_def)
qed

definition pair_changes :: "object_schema option \<times> object_schema option \<Rightarrow> schema_change list" where
  "pair_changes te =
     (case te of
        (Some t, Some e) \<Rightarrow> class_changes e t
      | (Some t, None) \<Rightarrow> [AddInitialProperties t]
      | _ \<Rightarrow> [])"

lemma mset_fold_modify_columns:
  "mset (fold modify_columns pairs cs) = mset cs + mset (concat (map pair_changes pairs))"
  by (induction pairs arbitrary: cs)
    (auto simp: modify_columns_def pair_changes_def mset_compare_objects split: option.splits)

lemma mset_schema_compare:
  "mset (schema_compare s t r) =
     mset (concat (map (add_missing_table r) (zip_matching t s))) +
     mset (concat (map pair_changes (zip_matching t s)))"
  by (simp add: schema_compare_def Let_def mset_fold_modify_columns)

lemma set_schema_compare:
  "set (schema_compare s t r) =
     (\<Union>te\<in>set (zip_matching t s). set (add_missing_table r te) \<union> set (pair_changes te))"
proof -
  have "set (schema_compare s t r) = set (concat (map (add_missing_table r) (zip_matching t s)) @
      concat (map pair_changes (zip_matching t s)))"
    using mset_schema_compare[of s t r] by (metis mset_append set_mset_mset)
  then show ?thesis by auto
qed

lemma ball_pairs:
  "(\<forall>te\<in>set (zip_matching t s). P te) \<longleftrightarrow>
     (\<forall>x y. (Some x, Some y) \<in> set (zip_matching t s) \<longrightarrow> P (Some x, Some y)) \<and>
     (\<forall>x. (Some x, None) \<in> set (zip_matching t s) \<longrightarrow> P (Some x, None)) \<and>
     (\<forall>y. (None, Some y) \<in> set (zip_matching t s) \<longrightarrow> P (None, Some y))"
  (is "?L \<longleftrightarrow> ?R")
proof
  assume R: ?R
  show ?L
  proof
    fix te assume te: "te \<in> set (zip_matching t s)"
    obtain a b where ab: "te = (a, b)" by fastforce
    show "P te"
      by (cases a; cases b) (use R te ab zip_matching_total(3)[of t s] in auto)
  qed
qed blast

lemma schema_compare_Nil:
  assumes "schema_ok s" "schema_ok t"
  shows "schema_compare s t False = [] \<longleftrightarrow> schema_agrees s t"
proof -
  have "schema_compare s t False = [] \<longleftrightarrow>
      (\<forall>te\<in>set (zip_matching t s). add_missing_table False te = [] \<and> pair_changes te = [])"
    using set_schema_compare[of s t False] by (auto simp flip: set_empty)
  also have "\<dots> \<longleftrightarrow> (\<forall>x\<in>set t. os_name x \<in> os_name ` set s) \<and>
      (\<forall>x\<in>set t. \<forall>e\<in>set s. os_name x = os_name e \<longrightarrow> class_agrees e x)"
    unfolding ball_pairs zip_matching_pairs[OF assms(2,1)]
    by (auto simp: add_missing_table_def pair_changes_def class_changes_Nil)
  also have "\<dots> \<longleftrightarrow> schema_agrees s t"
  proof -
    have *: "os_name x \<in> os_name ` set s \<and> (\<forall>e\<in>set s. os_name x = os_name e \<longrightarrow> class_agrees e x) \<longleftrightarrow>
        (\<exists>e\<in>set s. os_name e = os_name x \<and> class_agrees e x)" for x
      using schema_ok_unique[OF assms(1)] by (auto simp: image_iff eq_commute[of "os_name x"]) metis+
    show ?thesis unfolding schema_agrees_def by (simp only: ball_conj_distrib flip: *)
  qed
  finally show ?thesis .
qed

section \<open>Changes that need a migration\<close>

text \<open>Agreement of two classes but for their indexes.\<close>

definition class_data_agrees :: "object_schema \<Rightarrow> object_schema \<Rightarrow> bool" where
  "class_data_agrees existing target \<longleftrightarrow>
     (\<forall>p\<in>set (os_persisted existing). \<exists>q. property_for_name target (prop_name p) = Some q \<and>
        \<not> property_is_computed target q \<and> prop_type p = prop_type q \<and>
        prop_object_type p = prop_object_type q) \<and>
     os_primary_key existing = os_primary_key target \<and>
     prop_name ` set (os_persisted target) \<subseteq> prop_name ` set (os_properties existing)"

lemma compare_property_migration:
  "list_ex change_needs_migration (compare_property e t p) \<longleftrightarrow>
     \<not> (\<exists>q. property_for_name t (prop_name p) = Some q \<and> \<not> property_is_computed t q \<and>
        prop_type p = prop_type q \<and> prop_object_type p = prop_object_type q)"
  by (auto simp: compare_property_def property_type_parts[of "prop_type p"] split: option.splits)

lemma class_changes_migration:
  "list_ex change_needs_migration (class_changes e t) \<longleftrightarrow> \<not> class_data_agrees e t"
proof -
  have "list_ex change_needs_migration (class_changes e t) \<longleftrightarrow>
      (\<exists>p\<in>set (os_persisted e). list_ex change_needs_migration (compare_property e t p)) \<or>
      os_primary_key e \<noteq> os_primary_key t \<or>
      (\<exists>p\<in>set (os_persisted t). property_for_name e (prop_name p) = None)"
    by (simp add: class_changes_def list_ex_iff bex_Un) blast
  then show ?thesis
    by (auto simp: compare_property_migration class_data_agrees_def property_for_name_None)
qed

lemma needs_migration_compare:
  assumes "schema_ok s" "schema_ok t"
  shows "needs_migration (schema_compare s t r) \<longleftrightarrow>
    (\<exists>e\<in>set s. \<exists>c\<in>set t. os_name e = os_name c \<and> \<not> class_data_agrees e c)"
proof -
  define migrates where "migrates = (\<lambda>te. list_ex change_needs_migration (pair_changes te))"
  have added: "\<not> change_needs_migration c" if "c \<in> set (add_missing_table r te)" for c te
    using that by (cases te; cases "fst te"; cases "snd te") (auto simp: add_missing_table_def split: if_splits)
  have "\<not> needs_migration (schema_compare s t r) \<longleftrightarrow>
      (\<forall>te\<in>set (zip_matching t s). \<not> migrates te)"
    using added by (auto simp: needs_migration_def list_ex_iff set_schema_compare migrates_def)
  also have "\<dots> \<longleftrightarrow> (\<forall>e\<in>set s. \<forall>c\<in>set t. os_name e = os_name c \<longrightarrow> class_data_agrees e c)"
    unfolding ball_pairs zip_matching_pairs[OF assms(2,1)]
    by (auto simp: migrates_def pair_changes_def class_changes_migration)
  finally show ?thesis by auto
qed

text \<open>The verifier for schemas of the same version complains exactly then.\<close>

lemma verify_no_migration_iff:
  "verify_no_migration_required cs = Inr () \<longleftrightarrow> \<not> needs_migration cs"
proof -
  have "migration_verifier c = [] \<longleftrightarrow> \<not> change_needs_migration c" for c
    by (cases c) (auto split: option.splits)
  then show ?thesis
    by (auto simp: verify_no_migration_required_def verify_no_errors_def needs_migration_def
        list_ex_iff Let_def)
qed

lemma class_changes_explained: "c \<in> set (class_changes e t) \<Longrightarrow> explain c \<noteq> []"
proof -
  have "\<forall>c\<in>set (compare_property e t p). explain c \<noteq> []" for p
    by (auto simp: compare_property_def split: option.split)
  moreover have "explain (ChangePrimaryKey e po) \<noteq> []" for po
    by (cases po) simp_all
  ultimately show "c \<in> set (class_changes e t) \<Longrightarrow> explain c \<noteq> []"
    by (auto simp: class_changes_def split: if_splits)
qed

text \<open>A new class is always announced by \<open>AddTable\<close>, so no list of changes is silent.\<close>

lemma explained_changes:
  "schema_compare s t False = [] \<longleftrightarrow> (\<forall>c\<in>set (schema_compare s t False). explain c = [])"
proof
  assume silent: "\<forall>c\<in>set (schema_compare s t False). explain c = []"
  have "add_missing_table False te = [] \<and> pair_changes te = []" if te: "te \<in> set (zip_matching t s)" for te
  proof -
    have c: "explain c = []" if "c \<in> set (add_missing_table False te) \<union> set (pair_changes te)" for c
    proof -
      have "c \<in> set (schema_compare s t False)" unfolding set_schema_compare using that te by blast
      then show ?thesis using silent by blast
    qed
    have e: "explain c \<noteq> []" if "c \<in> set (class_changes e x)" for c e x
      using that by (rule class_changes_explained)
    obtain x y where te': "te = (x, y)" by fastforce
    show ?thesis
    proof (cases x)
      case None
      then show ?thesis using te' by (cases y) (simp_all add: add_missing_table_def pair_changes_def)
    next
      case (Some z)
      then show ?thesis
      proof (cases y)
        case None
        then have "explain (AddTable z) = []" using c[of "AddTable z"] te' Some by (simp add: add_missing_table_def)
        then show ?thesis by simp
      next
        case (Some w)
        then have "pair_changes te = class_changes w z"
          using te' \<open>x = Some z\<close> by (simp add: pair_changes_def)
        then have "c \<notin> set (class_changes w z)" for c using c[of c] e[of c w z] by auto
        then have "class_changes w z = []" by (meson last_in_set)
        then show ?thesis using Some te' \<open>x = Some z\<close>
          by (simp add: add_missing_table_def pair_changes_def)
      qed
    qed
  qed
  then show "schema_compare s t False = []"
    using set_schema_compare[of s t False] by (auto simp flip: set_empty)
qed simp

end
