(* ===== verification/SchemaRemovalLaws.thy ===== *)
theory SchemaRemovalLaws imports SchemaCompareLaws begin

text \<open>
  Removing a column shifts the columns behind it.  The removals of a class come in descending
  order of their columns, so that after a migration exactly the columns of the removed properties
  are gone.
\<close>

section \<open>Removing columns\<close>

definition remove_nth :: "nat \<Rightarrow> 'a list \<Rightarrow> 'a list" where
  "remove_nth i xs = take i xs @ drop (Suc i) xs"

text \<open>The columns of a class that a sequence of calls removes.\<close>

definition removals :: "string \<Rightarrow> core_call list \<Rightarrow> nat list" where
  "removals n calls =
     concat (map (\<lambda>c. case c of Remove_Column m (At i) \<Rightarrow> if m = n then [i] else [] | _ \<Rightarrow> []) calls)"

definition property_removed :: "object_schema \<Rightarrow> property \<Rightarrow> bool" where
  "property_removed target p \<longleftrightarrow>
     (case property_for_name target (prop_name p) of None \<Rightarrow> True | Some q \<Rightarrow> property_is_computed target q)"

lemma remove_nth_nths: "remove_nth i xs = nths xs (- {i})"
proof (cases "i < length xs")
  case True
  have "nths xs (- {i}) = nths (take i xs @ drop i xs) (- {i})" by simp
  also have "\<dots> = take i xs @ nths (drop i xs) {j. j + i \<noteq> i}"
    using True by (simp only: nths_append) (auto intro: nths_all simp: Collect_neg_eq)
  also have "nths (drop i xs) {j. j + i \<noteq> i} = drop (Suc i) xs"
    using True by (simp add: Cons_nth_drop_Suc[symmetric] nths_Cons nths_all)
  finally show ?thesis by (simp add: remove_nth_def)
next
  case False
  then have "nths xs (- {i}) = xs" by (intro nths_all) auto
  with False show ?thesis by (simp add: remove_nth_def)
qed

lemma nths_remove_nth:
  assumes "\<forall>j\<in>J. j < i"
  shows "nths (remove_nth i xs) (- J) = nths xs (- insert i J)"
proof (cases "i < length xs")
  case True
  have "nths (drop (Suc i) xs) {j. j + i \<in> - J} = drop (Suc i) xs"
    using assms by (intro nths_all) auto
  then have "nths (remove_nth i xs) (- J) = nths (take i xs) (- J) @ drop (Suc i) xs"
    using True by (simp add: remove_nth_def nths_append)
  also have "nths (take i xs) (- J) = nths (take i xs) (- insert i J)"
    unfolding nths_def by (intro arg_cong[where f = "map fst"] filter_cong) (auto dest!: set_zip_rightD)
  also have "drop (Suc i) xs = nths (drop i xs) {j. j + i \<in> - insert i J}"
  proof -
    have "nths (drop (Suc i) xs) {j. Suc j + i \<in> - insert i J} = drop (Suc i) xs"
      using assms by (intro nths_all) auto
    then show ?thesis using True by (simp add: Cons_nth_drop_Suc[symmetric] nths_Cons)
  qed
  also have "nths (take i xs) (- insert i J) @ nths (drop i xs) {j. j + i \<in> - insert i J} =
      nths (take i xs @ drop i xs) (- insert i J)"
    using True by (simp only: nths_append length_take min.absorb2 less_imp_le)
  finally show ?thesis by simp
next
  case False
  have "nths xs (- insert i J) = nths xs (- J)"
    unfolding nths_def by (intro arg_cong[where f = "map fst"] filter_cong)
      (use False in \<open>auto dest!: set_zip_rightD\<close>)
  with False show ?thesis by (simp add: remove_nth_def)
qed

lemma remove_columns:
  assumes "sorted_wrt (>) is"
  shows "fold remove_nth is xs = nths xs (- set is)"
  using assms
proof (induction "is" arbitrary: xs)
  case Nil
  show ?case by (simp add: nths_all)
next
  case (Cons i "is")
  then show ?case by (simp add: nths_remove_nth)
qed

section \<open>The order of the removals\<close>

abbreviation is_removal :: "schema_change \<Rightarrow> bool" where
  "is_removal c \<equiv> \<not> is_not_remove_property c"

definition removals_descend :: "schema_change list \<Rightarrow> bool" where
  "removals_descend cs \<longleftrightarrow> sorted (map (\<lambda>c. - int (removed_column c)) (filter is_removal cs))"

lemma compare_objects_descend: "removals_descend (compare_objects e t cs)"
proof -
  define xs where "xs = cs @ class_changes e t"
  define k where "k = length (filter is_not_remove_property xs)"
  define zs where "zs = std_partition is_not_remove_property xs"
  have eq: "compare_objects e t cs = take k zs @ sort_key (\<lambda>c. - int (removed_column c)) (drop k zs)"
    unfolding compare_objects_alt xs_def k_def zs_def Let_def ..
  have "filter is_removal (take k zs) = []"
    using std_partition_parts(2)[OF k_def] by (simp add: zs_def filter_empty_conv)
  moreover have "filter is_removal (sort_key (\<lambda>c. - int (removed_column c)) (drop k zs)) =
      sort_key (\<lambda>c. - int (removed_column c)) (drop k zs)"
    using std_partition_parts(3)[OF k_def] by (intro filter_True) (simp add: zs_def)
  ultimately show ?thesis by (simp add: removals_descend_def eq)
qed

lemma descend_add: "removals_descend cs \<Longrightarrow> removals_descend (cs @ [AddInitialProperties os])"
  by (simp add: removals_descend_def)

lemma fold_modify_columns_descend:
  "removals_descend cs \<Longrightarrow> removals_descend (fold modify_columns pairs cs)"
proof (induction pairs arbitrary: cs)
  case (Cons te pairs)
  have "removals_descend (modify_columns te cs)"
    using Cons.prems
    by (cases te; cases "fst te"; cases "snd te")
      (simp_all add: modify_columns_def descend_add compare_objects_descend)
  then show ?case using Cons.IH by simp
qed simp

lemma concat_map_Nil [simp]: "concat (map (\<lambda>x. []) xs) = []"
  by (induction xs) auto

lemma schema_compare_descend: "removals_descend (schema_compare s t r)"
proof -
  have "filter is_removal (add_missing_table r te) = []" for te
    by (cases te; cases "fst te"; cases "snd te") (simp_all add: add_missing_table_def)
  then have "removals_descend (concat (map (add_missing_table r) pairs))" for pairs
    by (simp add: removals_descend_def filter_concat comp_def)
  then show ?thesis by (simp add: schema_compare_def Let_def fold_modify_columns_descend)
qed

section \<open>The removals of one class\<close>

fun removal_of :: "string \<Rightarrow> schema_change \<Rightarrow> bool" where
  "removal_of n (RemoveProperty os p) = (os_name os = n)"
| "removal_of n c = False"

lemma zip_matching_second: "List.map_filter snd (zip_matching a b) = b"
  by (induction a b rule: zip_matching.induct)
    (simp_all add: map_filter_def comp_def)

lemma class_changes_removals:
  "filter (removal_of n) (class_changes e t) =
     (if os_name e = n then map (RemoveProperty e) (filter (property_removed t) (os_persisted e)) else [])"
proof -
  have "filter (removal_of n) (compare_property e t p) =
      (if os_name e = n \<and> property_removed t p then [RemoveProperty e p] else [])" for p
    by (auto simp: compare_property_def property_removed_def split: option.splits)
  moreover have "concat (map (\<lambda>p. if os_name e = n \<and> P p then [RemoveProperty e p] else []) ps) =
      (if os_name e = n then map (RemoveProperty e) (filter P ps) else [])" for P ps
    by (induction ps) auto
  ultimately show ?thesis
    by (simp add: class_changes_def filter_concat comp_def filter_map)
qed

lemma schema_compare_removals:
  assumes "schema_ok s" "schema_ok t" "e \<in> set s" "c \<in> set t" "os_name c = os_name e"
  shows "mset (filter (removal_of (os_name e)) (schema_compare s t r)) =
    mset (map (RemoveProperty e) (filter (property_removed c) (os_persisted e)))"
proof -
  define pairs where "pairs = zip_matching t s"
  have "(Some c, Some e) \<in> set pairs" using assms by (simp add: pairs_def zip_matching_pairs)
  then obtain l q where split: "pairs = l @ (Some c, Some e) # q" by (meson split_list)
  have "distinct (List.map_filter snd pairs)"
    using assms(1) by (simp add: pairs_def zip_matching_second schema_ok_iff distinct_map)
  then have once: "(x, Some e) \<notin> set (l @ q)" for x
    unfolding split by (fastforce simp: map_filter_def image_iff)
  have other: "filter (removal_of (os_name e)) (pair_changes te) = []" if "te \<in> set (l @ q)" for te
  proof -
    obtain x y where te: "te = (x, y)" by fastforce
    have "te \<in> set (zip_matching t s)" using that split by (auto simp: pairs_def)
    moreover have "z = e" if "y = Some z" "os_name z = os_name e" "z \<in> set s" for z
      using that schema_ok_unique[OF assms(1) _ assms(3)] by blast
    ultimately show ?thesis
      using that once[of x] te zip_matching_members[where a = t and b = s]
      by (cases x; cases y) (auto simp: pair_changes_def class_changes_removals)
  qed
  have added: "filter (removal_of n) (add_missing_table r te) = []" for n te
    by (cases te; cases "fst te"; cases "snd te") (simp_all add: add_missing_table_def)
  have "mset (filter (removal_of (os_name e)) (schema_compare s t r)) =
      mset (filter (removal_of (os_name e))
        (concat (map (add_missing_table r) pairs) @ concat (map pair_changes pairs)))"
    by (simp only: mset_filter mset_schema_compare mset_append pairs_def)
  also have "\<dots> = mset (filter (removal_of (os_name e)) (pair_changes (Some c, Some e)))"
    using other unfolding split by (simp add: added filter_concat comp_def cong: map_cong)
  finally show ?thesis by (simp add: pair_changes_def class_changes_removals)
qed

section \<open>From changes to calls\<close>

fun removed_columns :: "string \<Rightarrow> schema_change \<Rightarrow> nat list" where
  "removed_columns n (RemoveProperty os p) = (if os_name os = n then [prop_column p] else [])"
| "removed_columns n c = []"

lemma removals_simps [simp]:
  "removals n [] = []" "removals n (xs @ ys) = removals n xs @ removals n ys"
  by (simp_all add: removals_def)

lemma all_calls_simps [simp]:
  "all_calls f [] = Inr []" "all_calls f (x # xs) = and_then (f x) (all_calls f xs)"
  by (simp_all add: all_calls_def)

lemma and_then_Inr: "and_then r q = Inr zs \<longleftrightarrow> (\<exists>xs ys. r = Inr xs \<and> q = Inr ys \<and> zs = xs @ ys)"
  by (cases "(r, q)" rule: and_then.cases) auto

lemma all_calls_removals:
  assumes "\<And>x cs. x \<in> set xs \<Longrightarrow> f x = Inr cs \<Longrightarrow> removals n cs = g x"
  shows "all_calls f xs = Inr cs \<Longrightarrow> removals n cs = concat (map g xs)"
  using assms by (induction xs arbitrary: cs) (auto simp: and_then_Inr)

text \<open>Inserting columns and creating tables removes nothing.\<close>

lemma insert_column_removals: "store_insert_column c p col = Inr cs \<Longrightarrow> removals n cs = []"
  by (auto simp: store_insert_column_def removals_def Let_def split: if_splits option.splits)

lemma create_table_removals: "create_table os = Inr cs \<Longrightarrow> removals n cs = []"
  by (auto simp: create_table_def removals_def split: option.splits)

lemma add_initial_columns_removals: "add_initial_columns os = Inr cs \<Longrightarrow> removals n cs = []"
proof -
  assume a: "add_initial_columns os = Inr cs"
  have "removals n cs = concat (map (\<lambda>_. []) (os_persisted os))"
    by (rule all_calls_removals[OF _ a[unfolded add_initial_columns_def]])
      (auto simp: add_column_def insert_column_removals split: if_splits)
  then show ?thesis by simp
qed

lemma post_migration_removals:
  "post_migration_applier s reread c = Inr cs \<Longrightarrow> removals n cs = removed_columns n c"
  by (cases c)
    (auto simp: remove_property_def add_index_def remove_index_def removals_def[of _ "[_]"]
      create_table_removals add_initial_columns_removals split: if_splits option.splits)

lemma removed_columns_filter:
  "concat (map (removed_columns n) cs) = map removed_column (filter (removal_of n) cs)"
proof (induction cs)
  case (Cons c cs)
  then show ?case by (cases c) auto
qed simp

lemma removal_of_is_removal: "removal_of n c \<Longrightarrow> is_removal c"
  by (cases c) auto

lemma post_migration_columns:
  assumes "schema_ok existing" "schema_ok target"
    and "e \<in> set existing" "t \<in> set target" "os_name t = os_name e"
    and "distinct (map prop_column (os_persisted e))"
    and calls: "apply_post_migration_changes (schema_compare existing target r) s reread = Inr calls"
  shows "sorted_wrt (>) (removals (os_name e) calls)"
    and "set (removals (os_name e) calls) =
      prop_column ` {p \<in> set (os_persisted e). property_removed t p}"
proof -
  define cs where "cs = schema_compare existing target r"
  have eq: "removals (os_name e) calls = map removed_column (filter (removal_of (os_name e)) cs)"
    using all_calls_removals[OF post_migration_removals calls[unfolded apply_post_migration_changes_def]]
    by (simp add: cs_def removed_columns_filter)
  have m: "mset (filter (removal_of (os_name e)) cs) =
      mset (map (RemoveProperty e) (filter (property_removed t) (os_persisted e)))"
    unfolding cs_def by (rule schema_compare_removals[OF assms(1-5)])
  have "mset (removals (os_name e) calls) =
      image_mset removed_column (mset (filter (removal_of (os_name e)) cs))"
    by (simp add: eq)
  also have "\<dots> = mset (map prop_column (filter (property_removed t) (os_persisted e)))"
    unfolding m by (simp add: image_mset.compositionality comp_def)
  finally have cols: "mset (removals (os_name e) calls) =
      mset (map prop_column (filter (property_removed t) (os_persisted e)))" .
  then have "distinct (removals (os_name e) calls)"
    using assms(6) by (metis distinct_map_filter mset_eq_imp_distinct_iff)
  moreover have "sorted (map (\<lambda>c. - int (removed_column c)) (filter (removal_of (os_name e)) cs))"
  proof -
    have "filter (removal_of (os_name e)) cs = filter (removal_of (os_name e)) (filter is_removal cs)"
      by (auto intro!: filter_cong dest: removal_of_is_removal)
    then show ?thesis
      using schema_compare_descend[of existing target r]
      by (simp add: removals_descend_def cs_def sorted_filter del: filter_filter)
  qed
  then have "sorted (map (\<lambda>i. - int i) (removals (os_name e) calls))"
    by (simp add: eq comp_def)
  ultimately show "sorted_wrt (>) (removals (os_name e) calls)"
    using strict_sorted_iff[of "map (\<lambda>i. - int i) (removals (os_name e) calls)"]
    by (simp add: distinct_map inj_on_def sorted_wrt_map)
  show "set (removals (os_name e) calls) =
      prop_column ` {p \<in> set (os_persisted e). property_removed t p}"
    using arg_cong[OF cols, of set_mset] by simp
qed

end
