(* ===== verification/SchemaRenameLaws.thy ===== *)
theory SchemaRenameLaws imports SchemaRemovalLaws begin

text \<open>
  Columns of a table: reading back an inserted column, and what renaming a property does to the
  columns noted in the target schema.
\<close>

section \<open>Positions of columns\<close>

lemma get_column_index_nth:
  assumes "distinct (map col_name cols)" "i < length cols"
  shows "get_column_index cols (col_name (cols ! i)) = i"
proof -
  have "takeWhile (\<lambda>c. col_name c \<noteq> col_name (cols ! i)) cols = take i cols"
    using assms by (intro takeWhile_eq_take_P_nth) (auto simp: distinct_conv_nth)
  then show ?thesis using assms(2) by (simp add: get_column_index_def)
qed

lemma length_remove_nth: "i < length xs \<Longrightarrow> length (remove_nth i xs) = length xs - 1"
  by (simp add: remove_nth_def)

lemma nth_remove_nth:
  assumes "r < length xs" "j < length xs - 1"
  shows "remove_nth r xs ! j = (if j < r then xs ! j else xs ! Suc j)"
  using assms by (auto simp: remove_nth_def nth_append)

lemma map_remove_nth: "map f (remove_nth i xs) = remove_nth i (map f xs)"
  by (simp add: remove_nth_def take_map drop_map)

lemma distinct_remove_nth: "distinct xs \<Longrightarrow> distinct (remove_nth i xs)"
  unfolding remove_nth_nths by (rule distinct_nthsI)

lemma set_remove_nth: "set (remove_nth i xs) \<subseteq> set xs"
  by (auto simp: remove_nth_def dest: in_set_takeD in_set_dropD)

section \<open>Reading a class from a table\<close>

lemma property_for_column_index_Some:
  "property_for_column_index cols i = Some p \<Longrightarrow> prop_column p = i \<and> prop_name p = col_name (cols ! i)"
  by (auto simp: property_for_column_index_def Let_def split: if_splits option.splits)

lemma update_first_set: "x \<in> set (update_first P f xs) \<Longrightarrow> x \<in> set xs \<or> (\<exists>y\<in>set xs. x = f y)"
  by (induction xs) (auto split: if_splits)

lemma object_schema_from_table_property:
  assumes "property_for_name (object_schema_from_table c cols pk) n = Some p"
  shows "prop_column p < length cols" "col_name (cols ! prop_column p) = n"
proof -
  let ?os = "object_schema_from_table c cols pk"
  have p: "p \<in> set (os_properties ?os)" "prop_name p = n"
    using assms by (auto simp: property_for_name_find find_Some_iff)
  have "os_properties ?os = update_first (\<lambda>p. prop_name p = pk) (\<lambda>p. p\<lparr>prop_is_primary := True\<rparr>)
        (List.map_filter (property_for_column_index cols) [0..<length cols]) \<or>
      os_properties ?os = List.map_filter (property_for_column_index cols) [0..<length cols]"
    by (auto simp: object_schema_from_table_def set_primary_key_property_def update_property_def
        os_properties_def split: option.splits)
  then obtain q where q: "q \<in> set (List.map_filter (property_for_column_index cols) [0..<length cols])"
    "prop_column p = prop_column q" "prop_name p = prop_name q"
    using p(1) by (auto dest!: update_first_set)
  then obtain i where "i < length cols" "property_for_column_index cols i = Some q"
    by (auto simp: map_filter_def)
  then have "prop_column q < length cols \<and> col_name (cols ! prop_column q) = prop_name q"
    by (auto dest: property_for_column_index_Some)
  then show "prop_column p < length cols" "col_name (cols ! prop_column p) = n"
    using q p(2) by simp_all
qed

section \<open>Updating a class in place\<close>

lemma lower_bound_loop_map:
  assumes "first + len \<le> length xs"
  shows "lower_bound_loop (\<lambda>x. P (g x)) xs first len = lower_bound_loop P (map g xs) first len"
  using assms
proof (induction "\<lambda>x. P (g x)" xs first len rule: lower_bound_loop.induct)
  case (1 xs first len)
  then show ?case
    by (subst (1 2) lower_bound_loop.simps) (simp add: Let_def)
qed

lemma lower_bound_names:
  "lower_bound (\<lambda>os. signed_bytes (os_name os) < signed_bytes n) s =
   lower_bound (\<lambda>m. signed_bytes m < signed_bytes n) (map os_name s)"
  unfolding lower_bound_def
  using lower_bound_loop_map[where P = "\<lambda>m. signed_bytes m < signed_bytes n" and g = os_name and
      first = 0 and len = "length s" and xs = s] by simp

lemma schema_find_update_class:
  assumes "schema_find s n = Some os" "os_name (f os) = os_name os"
  shows "schema_find (update_class n f s) n = Some (f os)"
proof -
  define i where "i = lower_bound (\<lambda>os. signed_bytes (os_name os) < signed_bytes n) s"
  have i: "i \<noteq> length s" "os = s ! i" "os_name (s ! i) = n"
    using assms(1) by (auto simp: schema_find_def i_def[symmetric] Let_def split: if_splits)
  have names: "map os_name (s[i := f (s ! i)]) = map os_name s"
    using assms(2) i(2) by (metis list_update_id map_update)
  have "lower_bound (\<lambda>os. signed_bytes (os_name os) < signed_bytes n) (s[i := f (s ! i)]) = i"
    by (simp only: lower_bound_names names) (simp only: i_def lower_bound_names)
  moreover have "i < length s"
    using i(1) lower_bound_le[of "\<lambda>os. signed_bytes (os_name os) < signed_bytes n" s]
    by (simp add: i_def le_neq_implies_less)
  ultimately show ?thesis
    using i assms(2)
    by (auto simp: schema_find_def update_class_def i_def[symmetric] Let_def)
qed

section \<open>Positions after a rename\<close>

lemma remove_nth_update:
  assumes "i < length xs" "r < length xs" "i \<noteq> r"
  shows "remove_nth r (xs[i := x]) = (remove_nth r xs)[(if i < r then i else i - 1) := x]"
  using assms by (intro nth_equalityI) (auto simp: length_remove_nth nth_remove_nth nth_list_update)

lemma rename_positions:
  fixes cols :: "core_column list"
  assumes dist: "distinct (map col_name cols)" and i: "i < length cols" and r: "r < length cols"
    and "i \<noteq> r" and d: "col_name (cols ! r) = col_name d"
  defines "cols' \<equiv> remove_nth r (cols[i := d])"
  shows "get_column_index cols' (col_name d) = (if i < r then i else i - 1)"
    and "\<And>j. j < length cols \<Longrightarrow> j \<noteq> i \<Longrightarrow> j \<noteq> r \<Longrightarrow>
      get_column_index cols' (col_name (cols ! j)) = (if r < j then j - 1 else j)"
proof -
  define k where "k = (if i < r then i else i - 1)"
  have k: "k < length cols - 1" using i r \<open>i \<noteq> r\<close> by (auto simp: k_def)
  have cols': "cols' = (remove_nth r cols)[k := d]"
    unfolding cols'_def k_def by (rule remove_nth_update) fact+
  have len: "length cols' = length cols - 1" using r by (simp add: cols' length_remove_nth)
  have new: "col_name d \<notin> set (remove_nth r (map col_name cols))"
    unfolding remove_nth_nths using nth_eq_iff_index_eq[OF dist] r d
    by (auto simp: set_nths)
  have "map col_name cols' = (remove_nth r (map col_name cols))[k := col_name d]"
    by (simp add: cols' map_update map_remove_nth)
  then have dist': "distinct (map col_name cols')"
    using new dist by (simp add: distinct_list_update distinct_remove_nth in_mono)
  have "cols' ! k = d" using k r by (simp add: cols' length_remove_nth)
  then show "get_column_index cols' (col_name d) = (if i < r then i else i - 1)"
    using get_column_index_nth[OF dist', of k] k len by (simp add: k_def)
  show "get_column_index cols' (col_name (cols ! j)) = (if r < j then j - 1 else j)"
    if j: "j < length cols" "j \<noteq> i" "j \<noteq> r" for j
  proof -
    define m where "m = (if r < j then j - 1 else j)"
    have m: "m < length cols - 1" "m \<noteq> k" using j i r \<open>i \<noteq> r\<close> by (auto simp: m_def k_def)
    then have "cols' ! m = cols ! j"
      using r j by (simp add: cols' nth_remove_nth) (auto simp: m_def)
    then show ?thesis using get_column_index_nth[OF dist', of m] m len by (simp add: m_def)
  qed
qed

section \<open>Inserted columns\<close>

text \<open>The column that the accessors return after the calls that insert one column.\<close>

fun inserted_column :: "core_call list \<Rightarrow> core_column option" where
  "inserted_column [Insert_Column c r t n null] = Some (Core_Column n t null False [] [])"
| "inserted_column [Insert_Column c r t n null, Add_Search_Index c1 r1] =
     Some (Core_Column n t null True [] [])"
| "inserted_column [Insert_Column c r t n null, Add_Sub_Column c1 r1 t1 n1 null1] =
     Some (Core_Column n t null False [] [Core_Column n1 t1 null1 False [] []])"
| "inserted_column [Insert_Column_Link c r t n target] = Some (Core_Column n t False False target [])"
| "inserted_column _ = None"

lemma type_from_parts:
  "(base_type t OR (if is_nullable t then pt_Nullable else pt_Required)) OR
     (if is_array t then pt_Array else 0) = t"
  unfolding property_type_parts
  by (simp add: same_type_def pt_Required_def)

lemma not_array_from_parts:
  "\<not> is_array t \<Longrightarrow> base_type t OR (if is_nullable t then pt_Nullable else pt_Required) = t"
  using type_from_parts[of t] by simp

lemma array_from_parts:
  "is_array t \<Longrightarrow> (base_type t OR (if is_nullable t then pt_Nullable else pt_Required)) OR pt_Array = t"
  using type_from_parts[of t] by simp

lemma to_core_type_plain: "to_core_type t = Some ct \<Longrightarrow> ct \<notin> {type_Table, type_Link, type_LinkList, type_Mixed}"
  by (auto simp: to_core_type_def Let_def split: if_splits)

lemma from_to_core_type:
  "to_core_type t = Some ct \<Longrightarrow>
   from_core_type (Core_Column n ct null idx target sub) =
     Some (base_type t OR (if null then pt_Nullable else pt_Required))"
  by (auto simp: to_core_type_def Let_def split: if_splits)

lemma object_type_of_table_name [simp]:
  "object_type_for_table_name (table_name_for_object_type n) = n"
  by (simp add: object_type_for_table_name_def table_name_for_object_type_def)

lemma object_type_from_parts:
  assumes "base_type t = pt_Object" "is_array t \<noteq> is_nullable t"
  shows "t = (if is_array t then pt_Object OR pt_Array else pt_Object OR pt_Nullable)"
  using type_from_parts[of t] assms by (auto simp: pt_Required_def)

lemma property_of_inserted_column:
  assumes wf: "property_wf s n p" and name: "prop_name p \<noteq> object_id_column_name"
    and index: "requires_index p \<longrightarrow> \<not> is_array (prop_type p)"
    and calls: "store_insert_column c p ref = Inr calls" "inserted_column calls = Some (columns ! i)"
  shows "property_for_column_index columns i =
    Some (p\<lparr>prop_public_name := [], prop_is_primary := False, prop_is_indexed := requires_index p,
            prop_column := i\<rparr>)"
proof -
  let ?t = "prop_type p"
  have nolinks: "base_type ?t \<noteq> pt_LinkingObjects"
    using calls(1) by (auto simp: store_insert_column_def same_type_def Let_def)
  then have origin: "prop_link_origin p = []"
    using wf by (auto simp: property_wf_def link_wf_def split: if_splits)
  show ?thesis
  proof (cases "base_type ?t = pt_Object")
    case True
    have flags: "is_array ?t \<noteq> is_nullable ?t" using wf True by (simp add: property_wf_def link_wf_def)
    have "\<not> requires_index p"
      using wf True by (auto simp: property_wf_def requires_index_def pt_defs)
    moreover have "columns ! i = Core_Column (prop_name p) (if is_array ?t then type_LinkList else type_Link)
        False False (table_name_for_object_type (prop_object_type p)) []"
      using calls True by (auto simp: store_insert_column_def same_type_def Let_def)
    ultimately show ?thesis
      using object_type_from_parts[OF True flags] True name origin
      by (cases "is_array ?t")
        (simp_all add: property_for_column_index_def default_property_def property_new_def same_type_def)
  next
    case False
    then have target: "prop_object_type p = []"
      using wf nolinks by (simp add: property_wf_def link_wf_def)
    from calls(1) False nolinks obtain ct where ct: "to_core_type ?t = Some ct"
      by (auto simp: store_insert_column_def same_type_def Let_def split: option.splits)
    have plain: "ct \<noteq> type_Table" using to_core_type_plain[OF ct] by simp
    show ?thesis
    proof (cases "is_array ?t")
      case True
      then have "columns ! i = Core_Column (prop_name p) type_Table False False [] 
          [Core_Column array_column_name ct (is_nullable ?t) False [] []]"
        using calls ct False nolinks by (auto simp: store_insert_column_def same_type_def Let_def)
      then show ?thesis
        using array_from_parts[OF True] from_to_core_type[OF ct] index True name origin target False
        by (simp add: property_for_column_index_def default_property_def property_new_def same_type_def)
    next
      case no: False
      then have "columns ! i = Core_Column (prop_name p) ct (is_nullable ?t) (requires_index p) [] []"
        using calls ct False nolinks by (auto simp: store_insert_column_def same_type_def Let_def split: if_splits)
      then show ?thesis
        using not_array_from_parts[OF no] from_to_core_type[OF ct] plain name origin target False
        by (simp add: property_for_column_index_def default_property_def property_new_def same_type_def)
    qed
  qed
qed

section \<open>The columns after a rename\<close>

lemma rename_property_schema:
  assumes table: "table (table_name_for_object_type c) = Some columns"
    and rename: "rename_property table pk s c old_name new_name = Inr (calls, s')"
    and op: "property_for_name (object_schema_from_table c columns (pk c)) old_name = Some op"
    and np: "property_for_name (object_schema_from_table c columns (pk c)) new_name = Some np"
    and target: "schema_find s c = Some target"
  shows "property_for_name target old_name = None"
    and "schema_find s' c = Some (target\<lparr>os_persisted :=
      map (shift_removed_column (prop_column np) (prop_column op)) (os_persisted target)\<rparr>)"
proof -
  show "property_for_name target old_name = None"
    using assms by (auto simp: rename_property_def Let_def split: if_splits)
  have "s' = update_class c (\<lambda>os. os\<lparr>os_persisted :=
      map (shift_removed_column (prop_column np) (prop_column op)) (os_persisted os)\<rparr>) s"
    using assms by (auto simp: rename_property_def Let_def split: if_splits sum.splits)
  then show "schema_find s' c = Some (target\<lparr>os_persisted :=
      map (shift_removed_column (prop_column np) (prop_column op)) (os_persisted target)\<rparr>)"
    using schema_find_update_class[OF target, of "\<lambda>os. os\<lparr>os_persisted :=
      map (shift_removed_column (prop_column np) (prop_column op)) (os_persisted os)\<rparr>"] by simp
qed

lemma rename_columns:
  assumes "table (table_name_for_object_type c) = Some columns"
    and dist: "distinct (map col_name columns)"
    and "rename_property table pk s c old_name new_name = Inr (calls, s')"
    and op: "property_for_name (object_schema_from_table c columns (pk c)) old_name = Some op"
    and np: "property_for_name (object_schema_from_table c columns (pk c)) new_name = Some np"
    and "schema_find s c = Some target"
    and cols: "\<forall>p\<in>set (os_persisted target). prop_name p \<in> col_name ` set columns \<and>
      prop_column p = get_column_index columns (prop_name p)"
    and new: "new_name \<in> prop_name ` set (os_persisted target)" and d: "col_name d = new_name"
  shows "(\<forall>p\<in>set (os_persisted (the (schema_find s' c))).
       prop_column p =
         get_column_index (remove_nth (prop_column np) (columns[prop_column op := d])) (prop_name p)) \<longleftrightarrow>
    prop_column op < prop_column np"
proof -
  note facts = rename_property_schema[OF assms(1,3) op np assms(6)]
  define i r where "i = prop_column op" and "r = prop_column np"
  define index where "index = get_column_index (remove_nth r (columns[i := d]))"
  have i: "i < length columns" "col_name (columns ! i) = old_name"
    and r: "r < length columns" "col_name (columns ! r) = new_name"
    using object_schema_from_table_property[OF op] object_schema_from_table_property[OF np]
    by (simp_all add: i_def r_def)
  have no_old: "prop_name p \<noteq> old_name" if "p \<in> set (os_persisted target)" for p
    using that facts(1) by (auto simp: property_for_name_None os_properties_def)
  then have "old_name \<noteq> new_name" using new by blast
  then have ir: "i \<noteq> r" using i r by blast
  note pos = rename_positions[OF dist i(1) r(1) ir, of d, folded index_def]
  have others: "prop_column (shift_removed_column r i p) = index (prop_name p)"
    if p: "p \<in> set (os_persisted target)" "prop_name p \<noteq> new_name" for p
  proof -
    obtain j where j: "j < length columns" "col_name (columns ! j) = prop_name p"
      using cols p(1) by (metis imageE in_set_conv_nth)
    then have "prop_column p = j" using cols p(1) get_column_index_nth[OF dist j(1)] by simp
    moreover have "j \<noteq> i" "j \<noteq> r" using j i r p no_old[OF p(1)] by auto
    ultimately show ?thesis using pos(2)[of j] j r d by (simp add: shift_removed_column_def)
  qed
  have renamed: "prop_column (shift_removed_column r i p) = i"
    if p: "p \<in> set (os_persisted target)" "prop_name p = new_name" for p
  proof -
    have "prop_column p = r" using cols p get_column_index_nth[OF dist r(1)] r by simp
    then show ?thesis by (simp add: shift_removed_column_def)
  qed
  have name: "prop_name (shift_removed_column r i p) = prop_name p" for p
    by (simp add: shift_removed_column_def)
  have idx: "index new_name = (if i < r then i else i - 1)" using pos(1) r d by simp
  have "(\<forall>p\<in>set (os_persisted target). prop_column (shift_removed_column r i p) = index (prop_name p)) \<longleftrightarrow>
      i = (if i < r then i else i - 1)"
    using others renamed new idx by (auto simp del: One_nat_def) (metis, metis)
  also have "\<dots> \<longleftrightarrow> i < r" using ir by auto
  finally show ?thesis by (simp add: facts(2) name[unfolded i_def r_def] i_def r_def index_def)
qed

end
