(* ===== verification/SchemaSpec.thy ===== *)
theory SchemaSpec imports SchemaRenameLaws begin

text \<open>
  The properties of schemas: validation accepts exactly the well-formed ones, comparing finds
  nothing exactly when the schemas agree, columns are removed without touching others, columns
  read back as the property they were made from; and where classes are missed and columns
  confused.
\<close>

section \<open>Validation\<close>

text \<open>C38: For classes with ASCII names validating the sorted schema raises no exception exactly
  when the schema is well-formed: names of classes and properties are unique, aliases unique and
  no property names, links lead to existing classes, linking objects have an array type and an
  existing origin that links back, every class has at most one primary property of type int or
  string, indexes are on indexable types and a named primary key exists.\<close>

theorem validate_accepts_wf:
  assumes "\<forall>os\<in>set types. ascii (os_name os)"
  shows "schema_validate (schema_new types) = Inr () \<longleftrightarrow> schema_wf types"
proof -
  have "schema_validate (schema_new types) = Inr () \<longleftrightarrow> schema_wf (schema_new types)"
    using assms by (intro schema_validate_ok) (simp_all add: schema_ascii_def)
  also have "\<dots> \<longleftrightarrow> schema_wf types" by (rule schema_wf_mset) simp
  finally show ?thesis .
qed

text \<open>Two classes that link to each other, in the order the schema does not keep.\<close>

definition dog_class :: object_schema where
  "dog_class = object_schema_new ''dog''
     [property_new ''name'' pt_String True False [],
      link_property_new ''owner'' (pt_Object OR pt_Nullable) ''Person'' [] []] []"

definition person_class :: object_schema where
  "person_class = object_schema_new ''Person''
     [property_new ''age'' (pt_Int OR pt_Nullable) False True ''years'']
     [link_property_new ''dogs'' (pt_LinkingObjects OR pt_Array) ''dog'' ''owner'' []]"

lemmas example_defs = dog_class_def person_class_def object_schema_new_def property_new_def
  link_property_new_def

lemma validate_accepts_wf_witness:
  "schema_validate (schema_new [dog_class, person_class]) = Inr ()"
  by (subst validate_accepts_wf)
    (auto simp: example_defs ascii_def schema_wf_def class_wf_def os_properties_def public_names_def
      property_wf_def link_wf_def pt_defs base_type_def is_array_def is_nullable_def)

text \<open>Schemas are sorted by unsigned bytes but searched by signed ones: of two classes, one of
  them with a name outside ASCII, the search misses the other, and validation rejects a
  well-formed schema because a link to the missed class looks unknown.\<close>

definition etoile_class :: object_schema where
  "etoile_class = object_schema_new [CHR 0xC3, CHR 0xA9]
     [link_property_new ''next'' (pt_Object OR pt_Nullable) ''z'' [] []] []"

definition z_class :: object_schema where
  "z_class = object_schema_new ''z'' [] []"

theorem find_misses_class:
  "schema_wf [etoile_class, z_class] \<and>
   schema_validate (schema_new [etoile_class, z_class]) =
     Inl [Unknown_Object_Type (os_name etoile_class) ''next'' ''object'' ''z'']"
proof
  show "schema_wf [etoile_class, z_class]"
    by (auto simp: example_defs etoile_class_def z_class_def schema_wf_def class_wf_def
        os_properties_def public_names_def property_wf_def link_wf_def pt_defs base_type_def
        is_array_def is_nullable_def)
  have new: "schema_new [etoile_class, z_class] = [z_class, etoile_class]"
    by (simp add: schema_new_def example_defs etoile_class_def z_class_def unsigned_bytes_def)
  have "schema_find [z_class, etoile_class] ''z'' = None"
    by (simp add: schema_find_def lower_bound_def lower_bound_loop.simps etoile_class_def z_class_def
        example_defs signed_bytes_def signed_char_def)
  then have link: "object_schema_validate [z_class, etoile_class] etoile_class =
      [Unknown_Object_Type (os_name etoile_class) ''next'' ''object'' ''z'']"
    by (simp add: object_schema_validate_def etoile_class_def example_defs duplicates.simps
        property_errors_defs validate_property_def primary_errors_def link_errors_def
        is_array_def is_nullable_def pt_defs base_type_def string_for_property_type_def)
  have "object_schema_validate [z_class, etoile_class] z_class = []"
    by (simp add: object_schema_validate_def z_class_def example_defs duplicates.simps)
  moreover have "duplicate_types [z_class, etoile_class] = []"
    by (simp add: duplicate_types.simps z_class_def etoile_class_def example_defs)
  ultimately show "schema_validate (schema_new [etoile_class, z_class]) =
      Inl [Unknown_Object_Type (os_name etoile_class) ''next'' ''object'' ''z'']"
    by (simp add: schema_validate_def new link)
qed

section \<open>Comparing\<close>

text \<open>C39: For sorted schemas without duplicate classes, the check that no changes are required
  passes exactly when every class of the target exists, with the same primary key, no new
  property, and every existing property still persisted with the same type, optionality, target
  and index.\<close>

theorem no_changes_iff_agrees:
  assumes "schema_ok existing" and "schema_ok target"
  shows "verify_no_changes_required (schema_compare existing target False) = Inr () \<longleftrightarrow>
    schema_agrees existing target"
proof -
  have "verify_no_changes_required cs = Inr () \<longleftrightarrow> (\<forall>c\<in>set cs. explain c = [])" for cs
    by (simp add: verify_no_changes_required_def verify_no_errors_def Let_def)
  also have "(\<forall>c\<in>set (schema_compare existing target False). explain c = []) \<longleftrightarrow>
      schema_compare existing target False = []"
    using explained_changes by blast
  finally show ?thesis using schema_compare_Nil[OF assms] by simp
qed

lemma no_changes_iff_agrees_witness:
  "verify_no_changes_required (schema_compare [z_class, etoile_class] [z_class] False) = Inr ()"
  by (subst no_changes_iff_agrees)
    (simp_all add: schema_ok_def schema_agrees_def class_agrees_def z_class_def etoile_class_def
      example_defs unsigned_bytes_def)

text \<open>For sorted schemas without duplicate classes a migration is needed exactly when some
  class that exists in both differs in its primary key or in its properties, where an index does
  not count as a difference.\<close>

theorem needs_migration_iff_differs:
  assumes "schema_ok existing" and "schema_ok target"
  shows "needs_migration (schema_compare existing target include_removals) \<longleftrightarrow>
    (\<exists>e\<in>set existing. \<exists>t\<in>set target. os_name e = os_name t \<and> \<not> class_data_agrees e t)"
  using assms by (rule needs_migration_compare)

lemma needs_migration_iff_differs_witness:
  "needs_migration (schema_compare [dog_class] [dog_class\<lparr>os_primary_key := []\<rparr>] False)"
  by (subst needs_migration_iff_differs)
    (simp_all add: schema_ok_def class_data_agrees_def dog_class_def example_defs)

section \<open>Removing columns\<close>

text \<open>The calls of the phase after a migration remove from the table of a class exactly the
  columns of the properties the target no longer persists; all other columns stay, in their
  order.\<close>

theorem post_migration_removes_columns:
  assumes "schema_ok existing" and "schema_ok target"
    and "e \<in> set existing" and "t \<in> set target" and "os_name t = os_name e"
    and "distinct (map prop_column (os_persisted e))"
    and "apply_post_migration_changes (schema_compare existing target include_removals) initial reread =
      Inr calls"
  shows "fold remove_nth (removals (os_name e) calls) columns =
    nths columns {i. \<forall>p\<in>set (os_persisted e). prop_column p = i \<longrightarrow> \<not> property_removed t p}"
proof -
  have "fold remove_nth (removals (os_name e) calls) columns =
      nths columns (- set (removals (os_name e) calls))"
    by (rule remove_columns) (rule post_migration_columns(1)[OF assms])
  also have "- set (removals (os_name e) calls) =
      {i. \<forall>p\<in>set (os_persisted e). prop_column p = i \<longrightarrow> \<not> property_removed t p}"
    using post_migration_columns(2)[OF assms] by auto
  finally show ?thesis .
qed

text \<open>A class with four columns of which the target keeps the second and the fourth.\<close>

definition wide_class :: object_schema where
  "wide_class = object_schema_new ''w''
     (map (\<lambda>(n, i). (property_new n pt_Int False False [])\<lparr>prop_column := i\<rparr>)
        [(''a'', 0), (''b'', 1), (''c'', 2), (''d'', 3)]) []"

definition narrow_class :: object_schema where
  "narrow_class = wide_class
     \<lparr>os_persisted := map (\<lambda>n. property_new n pt_Int False False []) [''b'', ''d'']\<rparr>"

lemma wide_calls:
  "apply_post_migration_changes (schema_compare [wide_class] [narrow_class] False) [] False =
     Inr [Remove_Column ''w'' (At 2), Remove_Column ''w'' (At 0)]"
  by (simp add: wide_class_def narrow_class_def example_defs schema_compare_def add_missing_table_def
      modify_columns_def compare_objects_def compare_property_def property_for_name_def
      property_is_computed_def requires_index_def same_type_def std_partition.simps
      apply_post_migration_changes_def remove_property_def)

lemma post_migration_removes_columns_witness:
  "\<exists>calls. apply_post_migration_changes (schema_compare [wide_class] [narrow_class] False) [] False =
      Inr calls \<and> fold remove_nth (removals (os_name wide_class) calls) ''abcd'' = ''bd''"
proof (intro exI conjI, rule wide_calls)
  have "fold remove_nth (removals (os_name wide_class)
        [Remove_Column ''w'' (At 2), Remove_Column ''w'' (At 0)]) ''abcd'' =
      nths ''abcd'' {i. \<forall>p\<in>set (os_persisted wide_class). prop_column p = i \<longrightarrow>
        \<not> property_removed narrow_class p}"
    by (rule post_migration_removes_columns[OF _ _ _ _ _ _ wide_calls])
      (simp_all add: schema_ok_def wide_class_def narrow_class_def example_defs)
  also have "\<dots> = ''bd''"
    by (simp add: wide_class_def narrow_class_def example_defs property_removed_def
        property_for_name_def property_is_computed_def nths_Cons)
  finally show "fold remove_nth (removals (os_name wide_class)
        [Remove_Column ''w'' (At 2), Remove_Column ''w'' (At 0)]) ''abcd'' = ''bd''" .
qed

section \<open>Columns and properties\<close>

text \<open>A valid property survives being stored: the column that the calls of
  \<open>insert_column\<close> make, read back from the table, is a property with the same name, type and
  target, indexed when the property asked for an index.  Array properties must not ask for one,
  which validation does not check.\<close>

theorem insert_column_roundtrip:
  assumes "property_wf s n p" and "prop_name p \<noteq> object_id_column_name"
    and "requires_index p \<longrightarrow> \<not> is_array (prop_type p)"
    and "store_insert_column c p ref = Inr calls" and "inserted_column calls = Some (columns ! i)"
  shows "property_for_column_index columns i =
    Some (p\<lparr>prop_public_name := [], prop_is_primary := False, prop_is_indexed := requires_index p,
            prop_column := i\<rparr>)"
  using assms by (rule property_of_inserted_column)

lemma insert_column_roundtrip_witness:
  "property_for_column_index
     [Core_Column ''age'' type_Int True True [] []] 0 =
   Some ((property_new ''age'' (pt_Int OR pt_Nullable) False True [])\<lparr>prop_column := 0\<rparr>)"
proof -
  let ?p = "property_new ''age'' (pt_Int OR pt_Nullable) False True ''years''"
  have "property_for_column_index [Core_Column ''age'' type_Int True True [] []] 0 =
      Some (?p\<lparr>prop_public_name := [], prop_is_primary := False, prop_is_indexed := requires_index ?p,
            prop_column := 0\<rparr>)"
    by (rule insert_column_roundtrip[where s = "[]" and n = "[]" and c = "[]" and ref = Appended and
          calls = "[Insert_Column [] Appended type_Int ''age'' True, Add_Search_Index [] Appended]"])
      (simp_all add: property_wf_def link_wf_def property_new_def object_id_column_name_def
        store_insert_column_def requires_index_def same_type_def to_core_type_def base_type_def
        is_array_def is_nullable_def pt_defs)
  then show ?thesis by (simp add: property_new_def requires_index_def)
qed

text \<open>Validation accepts an index on an array, but inserting the column makes none.\<close>

lemma array_index_forgotten:
  "property_wf s n (property_new ''xs'' (pt_Int OR pt_Array) False True []) \<and>
   store_insert_column c (property_new ''xs'' (pt_Int OR pt_Array) False True []) Appended =
     Inr [Insert_Column c Appended type_Table ''xs'' False,
          Add_Sub_Column c Appended type_Int array_column_name False]"
  by (simp add: property_wf_def link_wf_def property_new_def store_insert_column_def same_type_def
      to_core_type_def base_type_def is_array_def is_nullable_def pt_defs)

section \<open>Renaming a property\<close>

text \<open>C40: When a property is renamed to an existing one, whose column is removed, the columns
  noted in the target schema are those of the new table exactly when the removed column lies
  behind the renamed one; otherwise the renamed property keeps a column that is one too high.\<close>

theorem rename_columns_right_iff:
  assumes "table (table_name_for_object_type c) = Some columns"
    and "distinct (map col_name columns)"
    and "rename_property table pk s c old_name new_name = Inr (calls, s')"
    and "property_for_name (object_schema_from_table c columns (pk c)) old_name = Some op"
    and "property_for_name (object_schema_from_table c columns (pk c)) new_name = Some np"
    and "schema_find s c = Some target"
    and "\<forall>p\<in>set (os_persisted target). prop_name p \<in> col_name ` set columns \<and>
      prop_column p = get_column_index columns (prop_name p)"
    and "new_name \<in> prop_name ` set (os_persisted target)" and "col_name d = new_name"
  shows "(\<forall>p\<in>set (os_persisted (the (schema_find s' c))).
       prop_column p =
         get_column_index (remove_nth (prop_column np) (columns[prop_column op := d])) (prop_name p)) \<longleftrightarrow>
    prop_column op < prop_column np"
  using assms by (rule rename_columns)

text \<open>A table whose column \<open>new\<close> comes before \<open>old\<close>.\<close>

definition renamed_class :: object_schema where
  "renamed_class = object_schema_new ''A''
     [(property_new ''new'' pt_Int False False [])\<lparr>prop_column := 0\<rparr>] []"

definition renamed_table :: "string \<Rightarrow> core_column list option" where
  "renamed_table n =
     (if n = ''class_A'' then Some (map (\<lambda>m. Core_Column m type_Int False False [] []) [''new'', ''old''])
      else None)"

lemma renamed_result:
  "\<exists>calls s'. rename_property renamed_table (\<lambda>_. []) [renamed_class] ''A'' ''old'' ''new'' = Inr (calls, s')"
  by (simp add: rename_property_def renamed_table_def renamed_class_def example_defs
      table_name_for_object_type_def schema_find_def lower_bound_def lower_bound_loop.simps
      property_for_name_def object_schema_from_table_def set_primary_key_property_def
      property_for_column_index_def default_property_def object_id_column_name_def map_filter_def
      same_type_def signed_bytes_def pt_defs base_type_def is_nullable_def Let_def)

lemma rename_columns_right_iff_witness:
  "\<exists>calls s'. rename_property renamed_table (\<lambda>_. []) [renamed_class] ''A'' ''old'' ''new'' =
       Inr (calls, s') \<and>
     \<not> (\<forall>p\<in>set (os_persisted (the (schema_find s' ''A''))).
       prop_column p = get_column_index [Core_Column ''new'' type_Int False False [] []] (prop_name p))"
proof -
  let ?columns = "[Core_Column ''new'' type_Int False False [] [], Core_Column ''old'' type_Int False False [] []]"
  let ?d = "Core_Column ''new'' type_Int False False [] []"
  let ?p = "\<lambda>n i. (property_new n pt_Int False False [])\<lparr>prop_column := i\<rparr>"
  obtain calls s' where r: "rename_property renamed_table (\<lambda>_. []) [renamed_class] ''A'' ''old'' ''new'' =
      Inr (calls, s')"
    using renamed_result by blast
  have read: "os_persisted (object_schema_from_table ''A'' ?columns []) = [?p ''new'' 0, ?p ''old'' 1]"
    by (simp add: object_schema_from_table_def set_primary_key_property_def map_filter_def
        property_for_column_index_def default_property_def property_new_def object_id_column_name_def
        same_type_def pt_defs base_type_def Let_def)
  have "(\<forall>p\<in>set (os_persisted (the (schema_find s' ''A''))).
       prop_column p = get_column_index (remove_nth (prop_column (?p ''new'' 0))
         (?columns[prop_column (?p ''old'' 1) := ?d])) (prop_name p)) \<longleftrightarrow>
      prop_column (?p ''old'' 1) < prop_column (?p ''new'' 0)"
    by (rule rename_columns_right_iff[OF _ _ r, where target = renamed_class])
      (simp_all add: renamed_table_def table_name_for_object_type_def property_for_name_def read
        renamed_class_def example_defs schema_find_def lower_bound_def lower_bound_loop.simps
        signed_bytes_def get_column_index_def)
  then show ?thesis using r by (simp add: remove_nth_def)
qed

end
