(* ===== verification/SafeInt.thy ===== *)
theory SafeInt imports Prelude "HOL-Library.Word" begin

unbundle bit_operations_syntax

text \<open>
  Checked integer arithmetic (\<open>util/safe_int_ops.hpp\<close>).  A C++ integer type is its signedness
  and its number of value bits, as \<open>numeric_limits<>\<close> gives them; a value is the integer it
  stands for.  The operations are written with the unsigned type \<open>common_unsigned\<close> that the
  templates choose (\<open>FastestUnsigned\<close>: \<open>unsigned\<close>, or \<open>unsigned long\<close> when more than 32 bits
  are needed), arithmetic in an unsigned type being reduced modulo its width.  An operation that
  detects an overflow returns \<open>None\<close> and otherwise the new value of its first argument.
\<close>

section \<open>Integer types\<close>

record int_type =
  is_signed :: bool
  digits :: nat

definition int_max :: "int_type \<Rightarrow> int" where
  "int_max T = 2 ^ digits T - 1"

definition int_min :: "int_type \<Rightarrow> int" where
  "int_min T = (if is_signed T then - (2 ^ digits T) else 0)"

definition in_range :: "int_type \<Rightarrow> int \<Rightarrow> bool" where
  "in_range T v \<longleftrightarrow> int_min T \<le> v \<and> v \<le> int_max T"

text \<open>The integer types of the platform have at most 64 bits, the sign included.\<close>

definition type_ok :: "int_type \<Rightarrow> bool" where
  "type_ok T \<longleftrightarrow> (if is_signed T then digits T \<le> 63 else digits T \<le> 64)"

abbreviation Signed :: "nat \<Rightarrow> int_type" where
  "Signed d \<equiv> \<lparr>is_signed = True, digits = d\<rparr>"

abbreviation Unsigned :: "nat \<Rightarrow> int_type" where
  "Unsigned d \<equiv> \<lparr>is_signed = False, digits = d\<rparr>"

text \<open>
  \<open>cast_to_unsigned\<close>: reduction modulo the width, which for \<open>bool\<close> (one digit) keeps the lowest
  bit only.
\<close>

definition is_negative :: "int \<Rightarrow> bool" where
  "is_negative v \<longleftrightarrow> v < 0"

definition cast_to_unsigned :: "nat \<Rightarrow> int \<Rightarrow> int" where
  "cast_to_unsigned d v = v mod 2 ^ d"

definition fastest_unsigned :: "nat \<Rightarrow> nat" where
  "fastest_unsigned bits = (if bits \<le> 32 then 32 else 64)"

definition needed_bits :: "int_type \<Rightarrow> nat" where
  "needed_bits T = (if is_signed T then digits T + 1 else digits T)"

definition common_unsigned :: "int_type \<Rightarrow> int_type \<Rightarrow> nat" where
  "common_unsigned L R = fastest_unsigned
     (if is_signed L = is_signed R
      then (if digits R \<le> digits L then digits L else digits R)
      else (if needed_bits R \<le> needed_bits L then needed_bits L else needed_bits R))"

definition from_twos_compl :: "int_type \<Rightarrow> nat \<Rightarrow> int \<Rightarrow> int" where
  "from_twos_compl To c twos_compl =
     (let sign_bit = 2 ^ (c - 1) in
      if \<not> is_signed To \<or> twos_compl AND sign_bit = 0 then twos_compl
      else - 1 - ((2 ^ c - 1) - twos_compl))"

section \<open>Operations\<close>

definition safe_equal :: "int_type \<Rightarrow> int_type \<Rightarrow> int \<Rightarrow> int \<Rightarrow> bool" where
  "safe_equal L R l r =
     (let c = common_unsigned L R in
      if \<not> is_signed L \<and> \<not> is_signed R then l mod 2 ^ c = r mod 2 ^ c
      else if \<not> is_signed L then
        (if digits L > digits R then r \<ge> 0 \<and> l = cast_to_unsigned (digits L) r else l = r)
      else if \<not> is_signed R then
        (if digits L < digits R then l \<ge> 0 \<and> cast_to_unsigned (digits R) l = r else l = r)
      else l = r)"

definition safe_less :: "int_type \<Rightarrow> int_type \<Rightarrow> int \<Rightarrow> int \<Rightarrow> bool" where
  "safe_less L R l r =
     (let c = common_unsigned L R in
      if \<not> is_signed L \<and> \<not> is_signed R then l mod 2 ^ c < r mod 2 ^ c
      else if \<not> is_signed L then
        (if digits L > digits R then r \<ge> 0 \<and> l < cast_to_unsigned (digits L) r else l < r)
      else if \<not> is_signed R then
        (if digits L < digits R then l < 0 \<or> cast_to_unsigned (digits R) l < r else l < r)
      else l < r)"

text \<open>
  In \<open>add\<close> for two unsigned types the sum is formed in the wider of the two promoted types
  before it is cast back.
\<close>

definition safe_add :: "int_type \<Rightarrow> int_type \<Rightarrow> int \<Rightarrow> int \<Rightarrow> int option" where
  "safe_add L R l r =
     (let c = common_unsigned L R in
      if \<not> is_signed L \<and> \<not> is_signed R then
        (let l2 = cast_to_unsigned (digits L) ((l + r) mod 2 ^ c) in
         if l2 mod 2 ^ c < r mod 2 ^ c then None else Some l2)
      else if \<not> is_signed L then
        (let l2 = (l + r mod 2 ^ c) mod 2 ^ c in
         if (if digits L < c then l2 > int_max L mod 2 ^ c else (l2 < l mod 2 ^ c) = (r \<ge> 0))
         then None else Some (cast_to_unsigned (digits L) l2))
      else if \<not> is_signed R then
        (let max_add = (int_max L mod 2 ^ c - l mod 2 ^ c) mod 2 ^ c in
         if r mod 2 ^ c > max_add then None
         else Some (from_twos_compl L c ((l mod 2 ^ c + r) mod 2 ^ c)))
      else if (if r < 0 then l < int_min L - r else l > int_max L - r) then None
      else Some (l + r))"

definition safe_sub :: "int_type \<Rightarrow> int_type \<Rightarrow> int \<Rightarrow> int \<Rightarrow> int option" where
  "safe_sub L R l r =
     (let c = common_unsigned L R in
      if \<not> is_signed L \<and> \<not> is_signed R then
        (let l2 = (l mod 2 ^ c - r mod 2 ^ c) mod 2 ^ c in
         if l2 > l mod 2 ^ c then None else Some (cast_to_unsigned (digits L) l2))
      else if \<not> is_signed L then
        (let l2 = (l - r mod 2 ^ c) mod 2 ^ c in
         if (if digits L < c then l2 > int_max L mod 2 ^ c else (l2 > l mod 2 ^ c) = (r \<ge> 0))
         then None else Some (cast_to_unsigned (digits L) l2))
      else if \<not> is_signed R then
        (let max_sub = (l mod 2 ^ c - int_min L mod 2 ^ c) mod 2 ^ c in
         if r mod 2 ^ c > max_sub then None
         else Some (from_twos_compl L c ((l mod 2 ^ c - r) mod 2 ^ c)))
      else if (if r < 0 then l > int_max L + r else l < int_min L + r) then None
      else Some (l - r))"

definition int_less_than :: "int_type \<Rightarrow> int_type \<Rightarrow> int \<Rightarrow> int \<Rightarrow> bool" where
  "int_less_than A B a b = safe_less A B a b"

definition int_greater_than_or_equal :: "int_type \<Rightarrow> int_type \<Rightarrow> int \<Rightarrow> int \<Rightarrow> bool" where
  "int_greater_than_or_equal A B a b = (\<not> safe_less A B a b)"

definition int_less_than_or_equal :: "int_type \<Rightarrow> int_type \<Rightarrow> int \<Rightarrow> int \<Rightarrow> bool" where
  "int_less_than_or_equal A B a b = (\<not> safe_less B A b a)"

definition int_greater_than :: "int_type \<Rightarrow> int_type \<Rightarrow> int \<Rightarrow> int \<Rightarrow> bool" where
  "int_greater_than A B a b = safe_less B A b a"

text \<open>
  The product and the shift are defined for non-negative arguments only.  The quotient in the
  product is computed in the promoted type of both operands; being between 0 and the largest
  value of the first operand's type, it compares as a value of that type.
\<close>

definition safe_mul :: "int_type \<Rightarrow> int_type \<Rightarrow> int \<Rightarrow> int \<Rightarrow> int option" where
  "safe_mul L R l r =
     (if int_less_than L L (int_max L div r) l then None else Some (l * r))"

definition safe_shl :: "int_type \<Rightarrow> int \<Rightarrow> nat \<Rightarrow> int option" where
  "safe_shl T l i = (if drop_bit i (int_max T) < l then None else Some (push_bit i l))"

definition cast_has_overflow :: "int_type \<Rightarrow> int_type \<Rightarrow> int \<Rightarrow> bool" where
  "cast_has_overflow From To v \<longleftrightarrow>
     int_less_than From To v (int_min To) \<or> int_less_than To From (int_max To) v"

definition cast_with_overflow_detect :: "int_type \<Rightarrow> int_type \<Rightarrow> int \<Rightarrow> int option" where
  "cast_with_overflow_detect From To v = (if cast_has_overflow From To v then None else Some v)"

section \<open>Laws\<close>

lemma fastest_unsigned_ge: "n \<le> 64 \<Longrightarrow> n \<le> fastest_unsigned n"
  by (simp add: fastest_unsigned_def)

lemma common_unsigned_ge:
  assumes "type_ok L" "type_ok R"
  shows "digits L \<le> common_unsigned L R" "digits R \<le> common_unsigned L R"
    "is_signed L \<noteq> is_signed R \<Longrightarrow> needed_bits L \<le> common_unsigned L R"
    "is_signed L \<noteq> is_signed R \<Longrightarrow> needed_bits R \<le> common_unsigned L R"
  using assms
  by (auto simp: common_unsigned_def fastest_unsigned_def type_ok_def needed_bits_def
      split: if_splits)

lemma pow_le: "a \<le> b \<Longrightarrow> (2::int) ^ a \<le> 2 ^ b"
  by (rule power_increasing) simp_all

lemma pow_Suc_le: "a + 1 \<le> b \<Longrightarrow> 2 * (2::int) ^ a \<le> 2 ^ b"
  using pow_le [of "Suc a" b] by simp

lemma mod_wrap:
  assumes "(0::int) < m"
  shows "0 \<le> x \<Longrightarrow> x < m \<Longrightarrow> x mod m = x"
    "- m \<le> x \<Longrightarrow> x < 0 \<Longrightarrow> x mod m = x + m"
    "m \<le> x \<Longrightarrow> x < 2 * m \<Longrightarrow> x mod m = x - m"
proof -
  show "0 \<le> x \<Longrightarrow> x < m \<Longrightarrow> x mod m = x" by simp
  show "x mod m = x + m" if "- m \<le> x" "x < 0"
  proof -
    have "(x + m) mod m = x + m" by (rule mod_pos_pos_trivial) (use that in simp_all)
    then show ?thesis by simp
  qed
  show "x mod m = x - m" if "m \<le> x" "x < 2 * m"
  proof -
    have "(x - m) mod m = x - m" by (rule mod_pos_pos_trivial) (use that in simp_all)
    then show ?thesis by simp
  qed
qed

lemma in_range_unsigned: "\<not> is_signed T \<Longrightarrow> in_range T v \<longleftrightarrow> 0 \<le> v \<and> v < 2 ^ digits T"
  by (auto simp: in_range_def int_min_def int_max_def)

lemma in_range_signed:
  "is_signed T \<Longrightarrow> in_range T v \<longleftrightarrow> - (2 ^ digits T) \<le> v \<and> v < 2 ^ digits T"
  by (auto simp: in_range_def int_min_def int_max_def)

lemma and_sign_bit:
  assumes "0 \<le> t" "t < 2 ^ c" "0 < c"
  shows "t AND 2 ^ (c - 1) = 0 \<longleftrightarrow> t < (2::int) ^ (c - 1)"
proof -
  obtain n where c: "c = Suc n" using assms(3) by (cases c) auto
  have "t AND 2 ^ n = 0 \<longleftrightarrow> \<not> bit t n"
    by (simp add: and_exp_eq_0_iff_not_bit)
  also have "\<dots> \<longleftrightarrow> even (t div 2 ^ n)" by (simp add: bit_iff_odd)
  also have "\<dots> \<longleftrightarrow> t < 2 ^ n"
  proof (cases "t < 2 ^ n")
    case False
    have "t div 2 ^ n = 1"
      using False assms(2) c by (simp add: div_pos_geq [of "2 ^ n" t] div_pos_pos_trivial)
    then show ?thesis using False by simp
  qed (use assms(1) in simp)
  finally show ?thesis by (simp add: c)
qed

text \<open>
  Two's complement: casting a value of the signed type to a wider unsigned type and back.
\<close>

lemma from_twos_compl_signed:
  assumes "is_signed T" "in_range T v" "digits T < c"
  shows "from_twos_compl T c (v mod 2 ^ c) = v"
proof -
  have p: "2 * (2::int) ^ digits T \<le> 2 ^ c" using pow_Suc_le [of "digits T" c] assms(3) by simp
  have c: "(2::int) ^ c = 2 * 2 ^ (c - 1)" using assms(3) by (cases c) simp_all
  have r: "- (2 ^ digits T) \<le> v" "v < 2 ^ digits T" using assms(1,2) by (simp_all add: in_range_signed)
  have b: "v mod 2 ^ c AND 2 ^ (c - 1) = 0 \<longleftrightarrow> v mod 2 ^ c < 2 ^ (c - 1)"
    by (rule and_sign_bit) (use assms(3) in simp_all)
  show ?thesis
  proof (cases "v < 0")
    case True
    have "v mod 2 ^ c = v + 2 ^ c" by (rule mod_wrap) (use True r p in simp_all)
    moreover have "\<not> v + 2 ^ c < 2 ^ (c - 1)" using p r c by linarith
    ultimately show ?thesis using b by (simp add: from_twos_compl_def assms(1) Let_def)
  next
    case False
    have "v mod 2 ^ c = v" by (rule mod_wrap) (use False r p in simp_all)
    moreover have "v < 2 ^ (c - 1)" using p r c by linarith
    ultimately show ?thesis using b by (simp add: from_twos_compl_def assms(1) Let_def)
  qed
qed

lemma in_range_mod:
  assumes "in_range T v" "0 \<le> v" "digits T \<le> c"
  shows "v mod 2 ^ c = v"
proof -
  have "v < 2 ^ digits T" using assms(1) by (simp add: in_range_def int_max_def)
  then have "v < 2 ^ c" using pow_le [OF assms(3)] by linarith
  then show ?thesis using assms(2) by simp
qed

lemma in_range_unsigned_mod:
  "\<not> is_signed T \<Longrightarrow> in_range T v \<Longrightarrow> digits T \<le> c \<Longrightarrow> v mod 2 ^ c = v"
  by (rule in_range_mod) (simp_all add: in_range_unsigned)

subsection \<open>Comparisons are exact\<close>

lemma safe_compare:
  assumes "type_ok L" "type_ok R" "in_range L l" "in_range R r"
  shows safe_less_iff: "safe_less L R l r \<longleftrightarrow> l < r"
    and safe_equal_iff: "safe_equal L R l r \<longleftrightarrow> l = r"
proof -
  let ?c = "common_unsigned L R"
  have l: "l mod 2 ^ ?c = l" if "\<not> is_signed L"
    using that assms(3) common_unsigned_ge(1) [OF assms(1,2)] by (rule in_range_unsigned_mod)
  have r: "r mod 2 ^ ?c = r" if "\<not> is_signed R"
    using that assms(4) common_unsigned_ge(2) [OF assms(1,2)] by (rule in_range_unsigned_mod)
  have lr: "l mod 2 ^ digits R = l" if "0 \<le> l" "digits L < digits R"
    by (rule in_range_mod [OF assms(3)]) (use that in simp_all)
  have rl: "r mod 2 ^ digits L = r" if "0 \<le> r" "digits R < digits L"
    by (rule in_range_mod [OF assms(4)]) (use that in simp_all)
  show "safe_less L R l r \<longleftrightarrow> l < r"
    using l r lr rl assms(3,4)
    by (cases "is_signed L"; cases "is_signed R"; cases "0 \<le> l")
      (auto simp: safe_less_def Let_def cast_to_unsigned_def in_range_unsigned)
  show "safe_equal L R l r \<longleftrightarrow> l = r"
    using l r lr rl assms(3,4)
    by (cases "is_signed L"; cases "is_signed R"; cases "0 \<le> l")
      (auto simp: safe_equal_def Let_def cast_to_unsigned_def in_range_unsigned)
qed

subsection \<open>Addition and subtraction detect exactly the overflows\<close>

lemma safe_add_unsigned:
  assumes "type_ok L" "type_ok R" "in_range L l" "in_range R r" "\<not> is_signed L" "\<not> is_signed R"
  shows "safe_add L R l r = (if in_range L (l + r) then Some (l + r) else None)"
proof -
  let ?c = "common_unsigned L R" and ?l2 = "(l + r) mod 2 ^ digits L"
  have r: "r mod 2 ^ ?c = r"
    using assms(6,4) common_unsigned_ge(2) [OF assms(1,2)] by (rule in_range_unsigned_mod)
  have dvd: "(2::int) ^ digits L dvd 2 ^ ?c"
    by (rule le_imp_power_dvd) (rule common_unsigned_ge(1) [OF assms(1,2)])
  have l2: "(l + r) mod 2 ^ ?c mod 2 ^ digits L = ?l2" using dvd by (rule mod_mod_cancel)
  have le: "?l2 < 2 ^ digits L" "0 \<le> ?l2" by simp_all
  have l2c: "?l2 mod 2 ^ ?c = ?l2"
    by (rule in_range_unsigned_mod [OF assms(5)])
      (simp_all add: in_range_unsigned assms(5) common_unsigned_ge(1) [OF assms(1,2)])
  have e: "safe_add L R l r = (if ?l2 < r then None else Some ?l2)"
    by (simp add: safe_add_def assms(5,6) Let_def cast_to_unsigned_def l2 l2c r)
  have lr: "0 \<le> l" "l < 2 ^ digits L" "0 \<le> r" using assms(3-6) by (simp_all add: in_range_unsigned)
  show ?thesis
  proof (cases "l + r < 2 ^ digits L")
    case True
    then show ?thesis using lr by (simp add: e in_range_unsigned assms(5))
  next
    case False
    have "?l2 < r"
    proof (cases "r < 2 ^ digits L")
      case True
      have "?l2 = l + r - 2 ^ digits L" by (rule mod_wrap(3)) (use False True lr in simp_all)
      then show ?thesis using lr by simp
    next
      case False
      then show ?thesis using le by linarith
    qed
    then show ?thesis using False by (simp add: e in_range_unsigned assms(5))
  qed
qed

lemma safe_sub_unsigned:
  assumes "type_ok L" "type_ok R" "in_range L l" "in_range R r" "\<not> is_signed L" "\<not> is_signed R"
  shows "safe_sub L R l r = (if in_range L (l - r) then Some (l - r) else None)"
proof -
  let ?c = "common_unsigned L R"
  have l: "l mod 2 ^ ?c = l" and r: "r mod 2 ^ ?c = r"
    by (rule in_range_unsigned_mod; use assms common_unsigned_ge(1,2) [OF assms(1,2)] in simp)+
  have lr: "0 \<le> l" "l < 2 ^ digits L" "0 \<le> r" using assms(3-6) by (simp_all add: in_range_unsigned)
  have rc: "r < 2 ^ ?c" using r pos_mod_bound [of "2 ^ ?c" r] by simp
  have e: "safe_sub L R l r = (if (l - r) mod 2 ^ ?c > l then None
    else Some ((l - r) mod 2 ^ ?c mod 2 ^ digits L))"
    by (simp add: safe_sub_def assms(5,6) Let_def cast_to_unsigned_def l r)
  show ?thesis
  proof (cases "r \<le> l")
    case True
    have "(l - r) mod 2 ^ ?c = l - r"
      by (rule in_range_unsigned_mod [OF assms(5)])
        (use True lr common_unsigned_ge(1) [OF assms(1,2)] assms(5) in \<open>simp_all add: in_range_unsigned\<close>)
    then show ?thesis using True lr by (simp add: e in_range_unsigned assms(5))
  next
    case False
    have "(l - r) mod 2 ^ ?c = l - r + 2 ^ ?c" by (rule mod_wrap(2)) (use False rc lr in simp_all)
    then show ?thesis using False lr rc by (simp add: e in_range_unsigned assms(5))
  qed
qed

text \<open>
  An unsigned variable and a signed argument: the sum \<open>x\<close> is known to lie within one width of
  the range of the variable, and the overflow test reads it off the reduced sum.
\<close>

lemma unsigned_signed_bounds:
  assumes "type_ok L" "type_ok R" "in_range L l" "in_range R r" "\<not> is_signed L" "is_signed R"
  shows "0 \<le> l" "l < 2 ^ digits L" "l mod 2 ^ common_unsigned L R = l"
    "int_max L mod 2 ^ common_unsigned L R = int_max L"
    "2 * \<bar>r\<bar> \<le> 2 ^ common_unsigned L R"
    "digits L \<noteq> common_unsigned L R \<Longrightarrow> 2 * (2::int) ^ digits L \<le> 2 ^ common_unsigned L R"
proof -
  show lr: "0 \<le> l" "l < 2 ^ digits L" using assms(3,5) by (simp_all add: in_range_unsigned)
  show "l mod 2 ^ common_unsigned L R = l"
    using assms(5,3) common_unsigned_ge(1) [OF assms(1,2)] by (rule in_range_unsigned_mod)
  show "int_max L mod 2 ^ common_unsigned L R = int_max L"
    by (rule in_range_unsigned_mod [OF assms(5)])
      (simp_all add: in_range_unsigned int_max_def assms(5) common_unsigned_ge(1) [OF assms(1,2)])
  have "digits R + 1 \<le> common_unsigned L R"
    using common_unsigned_ge(4) [OF assms(1,2)] assms(5,6) by (simp add: needed_bits_def)
  then have "2 * (2::int) ^ digits R \<le> 2 ^ common_unsigned L R" by (rule pow_Suc_le)
  then show "2 * \<bar>r\<bar> \<le> 2 ^ common_unsigned L R" using assms(4,6) by (simp only: in_range_signed) linarith
  show "2 * (2::int) ^ digits L \<le> 2 ^ common_unsigned L R" if "digits L \<noteq> common_unsigned L R"
    by (rule pow_Suc_le) (use that common_unsigned_ge(1) [OF assms(1,2)] in simp)
qed

lemma unsigned_signed_wide:
  assumes "digits L < c" "\<not> is_signed L" "2 * (2::int) ^ digits L \<le> 2 ^ c"
    "- (2 ^ c) \<le> 2 * x" "x < 2 ^ c"
  shows "x mod 2 ^ c > int_max L \<longleftrightarrow> \<not> in_range L x"
    "in_range L x \<Longrightarrow> x mod 2 ^ c mod 2 ^ digits L = x"
proof -
  have neg: "x mod 2 ^ c = x + 2 ^ c" if "x < 0" by (rule mod_wrap(2)) (use that assms in simp_all)
  have pos: "x mod 2 ^ c = x" if "0 \<le> x" by (rule mod_wrap(1)) (use that assms in simp_all)
  have p: "(0::int) < 2 ^ digits L" by simp
  show "x mod 2 ^ c > int_max L \<longleftrightarrow> \<not> in_range L x"
    using neg pos assms(3,4) p by (cases "x < 0") (auto simp: int_max_def in_range_unsigned assms(2))
  show "in_range L x \<Longrightarrow> x mod 2 ^ c mod 2 ^ digits L = x"
    using pos by (simp add: in_range_unsigned assms(2))
qed

lemma unsigned_signed_full:
  assumes "0 \<le> l" "l < 2 ^ c" "2 * \<bar>y\<bar> \<le> (2::int) ^ c"
  shows "(l + y) mod 2 ^ c =
    (if l + y < 0 then l + y + 2 ^ c else if l + y < 2 ^ c then l + y else l + y - 2 ^ c)"
  using mod_wrap [of "2 ^ c" "l + y"] assms by auto

lemma safe_add_unsigned_signed:
  assumes "type_ok L" "type_ok R" "in_range L l" "in_range R r" "\<not> is_signed L" "is_signed R"
  shows "safe_add L R l r = (if in_range L (l + r) then Some (l + r) else None)"
proof -
  let ?c = "common_unsigned L R"
  note b = unsigned_signed_bounds [OF assms]
  have s: "(l + r mod 2 ^ ?c) mod 2 ^ ?c = (l + r) mod 2 ^ ?c" by (simp add: mod_simps)
  show ?thesis
  proof (cases "digits L < ?c")
    case True
    have x: "- (2 ^ ?c) \<le> 2 * (l + r)" "l + r < 2 ^ ?c" using b(1,2,5) b(6) True by auto
    show ?thesis using unsigned_signed_wide [OF True assms(5) _ x] b(6) True
      by (simp add: safe_add_def assms(5,6) Let_def cast_to_unsigned_def s b(4))
  next
    case False
    then have d: "digits L = ?c" using common_unsigned_ge(1) [OF assms(1,2)] by simp
    have "l < 2 ^ ?c" using b(2) d by simp
    note m = unsigned_signed_full [OF b(1) this b(5)]
    show ?thesis using b(1,2,5) d
      by (simp add: safe_add_def assms(5,6) Let_def cast_to_unsigned_def s b(3) in_range_unsigned m)
        auto
  qed
qed

lemma safe_sub_unsigned_signed:
  assumes "type_ok L" "type_ok R" "in_range L l" "in_range R r" "\<not> is_signed L" "is_signed R"
  shows "safe_sub L R l r = (if in_range L (l - r) then Some (l - r) else None)"
proof -
  let ?c = "common_unsigned L R"
  note b = unsigned_signed_bounds [OF assms]
  have s: "(l - r mod 2 ^ ?c) mod 2 ^ ?c = (l - r) mod 2 ^ ?c" by (simp add: mod_simps)
  have y: "2 * \<bar>- r\<bar> \<le> 2 ^ ?c" using b(5) by simp
  show ?thesis
  proof (cases "digits L < ?c")
    case True
    have x: "- (2 ^ ?c) \<le> 2 * (l - r)" "l - r < 2 ^ ?c" using b(1,2,5) b(6) True by auto
    show ?thesis using unsigned_signed_wide [OF True assms(5) _ x] b(6) True
      by (simp add: safe_sub_def assms(5,6) Let_def cast_to_unsigned_def s b(4))
  next
    case False
    then have d: "digits L = ?c" using common_unsigned_ge(1) [OF assms(1,2)] by simp
    have "l < 2 ^ ?c" using b(2) d by simp
    note m = unsigned_signed_full [OF b(1) this y, simplified]
    show ?thesis using b(1,2,5) d
      by (simp add: safe_sub_def assms(5,6) Let_def cast_to_unsigned_def s b(3) in_range_unsigned m)
        auto
  qed
qed

text \<open>A signed variable and an unsigned argument.\<close>

lemma signed_unsigned_bounds:
  assumes "type_ok L" "type_ok R" "in_range L l" "in_range R r" "is_signed L" "\<not> is_signed R"
  shows "digits L < common_unsigned L R" "r mod 2 ^ common_unsigned L R = r" "0 \<le> r"
    "(int_max L mod 2 ^ common_unsigned L R - l mod 2 ^ common_unsigned L R)
       mod 2 ^ common_unsigned L R = int_max L - l"
    "(l mod 2 ^ common_unsigned L R - int_min L mod 2 ^ common_unsigned L R)
       mod 2 ^ common_unsigned L R = l - int_min L"
proof -
  let ?c = "common_unsigned L R"
  show d: "digits L < ?c"
    using common_unsigned_ge(3) [OF assms(1,2)] assms(5,6) by (simp add: needed_bits_def)
  then have p: "2 * (2::int) ^ digits L \<le> 2 ^ ?c" using pow_Suc_le [of "digits L" ?c] by simp
  show "r mod 2 ^ ?c = r"
    using assms(6,4) common_unsigned_ge(2) [OF assms(1,2)] by (rule in_range_unsigned_mod)
  show "0 \<le> r" using assms(4,6) by (simp add: in_range_unsigned)
  have l: "- (2 ^ digits L) \<le> l" "l < 2 ^ digits L" using assms(3,5) by (simp_all add: in_range_signed)
  have "0 \<le> int_max L - l" "int_max L - l < 2 ^ ?c" "0 \<le> l - int_min L" "l - int_min L < 2 ^ ?c"
    unfolding int_max_def int_min_def if_P [OF assms(5)] using l p by linarith+
  then have "(int_max L - l) mod 2 ^ ?c = int_max L - l" "(l - int_min L) mod 2 ^ ?c = l - int_min L"
    by (simp_all add: mod_pos_pos_trivial)
  then show "(int_max L mod 2 ^ ?c - l mod 2 ^ ?c) mod 2 ^ ?c = int_max L - l"
    "(l mod 2 ^ ?c - int_min L mod 2 ^ ?c) mod 2 ^ ?c = l - int_min L"
    by (simp_all add: mod_simps)
qed

lemma safe_add_signed_unsigned:
  assumes "type_ok L" "type_ok R" "in_range L l" "in_range R r" "is_signed L" "\<not> is_signed R"
  shows "safe_add L R l r = (if in_range L (l + r) then Some (l + r) else None)"
proof -
  let ?c = "common_unsigned L R"
  note b = signed_unsigned_bounds [OF assms]
  have s: "(l mod 2 ^ ?c + r) mod 2 ^ ?c = (l + r) mod 2 ^ ?c" by (simp add: mod_simps)
  have i: "in_range L (l + r) \<longleftrightarrow> \<not> r > int_max L - l"
    using assms(3) b(3) by (auto simp: in_range_def)
  then show ?thesis
    using from_twos_compl_signed [OF assms(5) _ b(1), of "l + r"]
    by (simp add: safe_add_def assms(5,6) Let_def b(2,4) s)
qed

lemma safe_sub_signed_unsigned:
  assumes "type_ok L" "type_ok R" "in_range L l" "in_range R r" "is_signed L" "\<not> is_signed R"
  shows "safe_sub L R l r = (if in_range L (l - r) then Some (l - r) else None)"
proof -
  let ?c = "common_unsigned L R"
  note b = signed_unsigned_bounds [OF assms]
  have s: "(l mod 2 ^ ?c - r) mod 2 ^ ?c = (l - r) mod 2 ^ ?c" by (simp add: mod_simps)
  have i: "in_range L (l - r) \<longleftrightarrow> \<not> r > l - int_min L"
    using assms(3) b(3) by (auto simp: in_range_def)
  then show ?thesis
    using from_twos_compl_signed [OF assms(5) _ b(1), of "l - r"]
    by (simp add: safe_sub_def assms(5,6) Let_def b(2,5) s)
qed

lemma safe_add_sub_signed:
  assumes "in_range L l" "is_signed L" "is_signed R"
  shows "safe_add L R l r = (if in_range L (l + r) then Some (l + r) else None)"
    "safe_sub L R l r = (if in_range L (l - r) then Some (l - r) else None)"
  using assms by (auto simp: safe_add_def safe_sub_def in_range_def)

lemma safe_add_exact:
  assumes "type_ok L" "type_ok R" "in_range L l" "in_range R r"
  shows "safe_add L R l r = (if in_range L (l + r) then Some (l + r) else None)"
  using safe_add_unsigned safe_add_unsigned_signed safe_add_signed_unsigned safe_add_sub_signed(1)
    assms by metis

lemma safe_sub_exact:
  assumes "type_ok L" "type_ok R" "in_range L l" "in_range R r"
  shows "safe_sub L R l r = (if in_range L (l - r) then Some (l - r) else None)"
  using safe_sub_unsigned safe_sub_unsigned_signed safe_sub_signed_unsigned safe_add_sub_signed(2)
    assms by metis

subsection \<open>Products, shifts and casts\<close>

lemma int_min_le [simp]: "int_min T \<le> 0" and int_max_ge [simp]: "0 \<le> int_max T"
  by (simp_all add: int_min_def int_max_def)

lemma in_range_between: "in_range T v \<Longrightarrow> 0 \<le> w \<Longrightarrow> w \<le> v \<Longrightarrow> in_range T w"
  using int_min_le [of T] unfolding in_range_def by linarith

lemma in_range_max [simp]: "in_range T (int_max T)" and in_range_min [simp]: "in_range T (int_min T)"
  using order_trans [OF int_min_le int_max_ge] by (simp_all add: in_range_def)

lemma in_range_nonneg: "0 \<le> v \<Longrightarrow> in_range T v \<longleftrightarrow> v \<le> int_max T"
  using int_min_le [of T] unfolding in_range_def by linarith

lemma int_div_less_iff: "0 < r \<Longrightarrow> m div r < l \<longleftrightarrow> m < l * (r::int)"
proof
  assume r: "0 < r"
  have m: "m = m div r * r + m mod r" "0 \<le> m mod r" "m mod r < r" using r by simp_all
  show "m < l * r" if "m div r < l"
  proof -
    have "(m div r + 1) * r \<le> l * r" by (rule mult_right_mono) (use that r in simp_all)
    then have "m div r * r + r \<le> l * r" by (simp add: distrib_right)
    then show ?thesis using m by linarith
  qed
  show "m div r < l" if "m < l * r"
  proof (rule ccontr)
    assume "\<not> m div r < l"
    then have "l * r \<le> m div r * r" by (intro mult_right_mono) (use r in simp_all)
    then show False using m that by linarith
  qed
qed

lemma safe_mul_exact:
  assumes "type_ok L" "in_range L l" "0 \<le> l" "0 < r"
  shows "safe_mul L R l r = (if in_range L (l * r) then Some (l * r) else None)"
proof -
  have "\<not> int_max L * r < int_max L" using mult_left_mono [of 1 r "int_max L"] assms(4) by simp
  then have "int_max L div r \<le> int_max L"
    using int_div_less_iff [OF assms(4), of "int_max L" "int_max L + 1"] assms(4) int_max_ge [of L]
    by (simp add: distrib_right)
  then have q: "in_range L (int_max L div r)"
    using in_range_max by (rule in_range_between [rotated 2])
      (use assms(4) in \<open>simp add: pos_imp_zdiv_nonneg_iff\<close>)
  show ?thesis
    using safe_less_iff [OF assms(1,1) q assms(2)] int_div_less_iff [OF assms(4)] assms(3,4)
    by (simp add: safe_mul_def int_less_than_def in_range_nonneg not_less)
qed

lemma safe_shl_exact:
  assumes "0 \<le> l"
  shows "safe_shl T l i = (if in_range T (l * 2 ^ i) then Some (l * 2 ^ i) else None)"
  using int_div_less_iff [of "2 ^ i" "int_max T" l] assms
  by (simp add: safe_shl_def drop_bit_eq_div push_bit_eq_mult in_range_nonneg not_less)

lemma cast_has_overflow_exact:
  assumes "type_ok From" "type_ok To" "in_range From v"
  shows "cast_with_overflow_detect From To v = (if in_range To v then Some v else None)"
  using safe_less_iff [OF assms(1,2,3) in_range_min] safe_less_iff [OF assms(2,1) in_range_max assms(3)]
  by (auto simp: cast_with_overflow_detect_def cast_has_overflow_def int_less_than_def in_range_def)

end
