(* ===== verification/LogInt.thy ===== *)
theory LogInt imports SafeInt begin

unbundle bit_operations_syntax

text \<open>
  The integer encoding of the transaction log (\<open>encode_int\<close> and \<open>read_int\<close> of
  \<open>transact_log.hpp\<close>): seven bits a byte, least significant first, the eighth bit set in all
  bytes but the last, the sign in the seventh bit of the last byte.  Both functions are templates
  over an integer type.  A log is a list of bytes, a byte a number below 256; reading returns
  what is left of the log, and \<open>None\<close> for the exception \<open>BadTransactLog\<close>.
\<close>

type_synonym bytes = "nat list"

abbreviation T_int :: int_type where "T_int \<equiv> Signed 31"
abbreviation T_int32 :: int_type where "T_int32 \<equiv> Signed 31"
abbreviation T_int64 :: int_type where "T_int64 \<equiv> Signed 63"
abbreviation T_size :: int_type where "T_size \<equiv> Unsigned 64"
abbreviation T_char :: int_type where "T_char \<equiv> Signed 7"

definition max_int_bytes :: "nat \<Rightarrow> nat" where
  "max_int_bytes d = (1 + d + 6) div 7"

section \<open>Encoding\<close>

text \<open>The loop over at most \<open>max_bytes\<close> bytes: the bytes it writes and what is left of the value.\<close>

fun encode_groups :: "nat \<Rightarrow> nat \<Rightarrow> bytes \<times> nat" where
  "encode_groups 0 v = ([], v)"
| "encode_groups (Suc n) v =
     (if drop_bit 6 v = 0 then ([], v)
      else let (bs, w) = encode_groups n (drop_bit 7 v) in ((push_bit 7 1 OR (v AND 127)) # bs, w))"

definition encode_int :: "int_type \<Rightarrow> int \<Rightarrow> bytes" where
  "encode_int T value =
     (let negative = is_negative value;
          value = (if negative then - (value + 1) else value);
          (bs, w) = encode_groups (max_int_bytes (digits T)) (nat value)
      in bs @ [(if negative then push_bit 6 1 OR w else w) mod 256])"

section \<open>Decoding\<close>

text \<open>
  The loop of \<open>read_int\<close>, which runs for the bytes \<open>i\<close>, \<open>i + 1\<close>, \<dots> and returns the last
  byte read and the value.  The shift of a byte that is not the last stays within the type, which
  has more than \<open>7 (i + 1)\<close> bits then; the one of the last byte is checked.
\<close>

fun read_groups :: "int_type \<Rightarrow> nat \<Rightarrow> int \<Rightarrow> bytes \<Rightarrow> (nat \<times> int \<times> bytes) option" where
  "read_groups T i value [] = None"
| "read_groups T i value (part # rest) =
     (if 255 < part then None
      else if part AND 128 = 0 then
        (case safe_shl T (int (part AND 63)) (i * 7) of
           None \<Rightarrow> None
         | Some p \<Rightarrow> Some (part, value OR p, rest))
      else if i = max_int_bytes (digits T) - 1 then None
      else read_groups T (Suc i) (value OR push_bit (i * 7) (int (part AND 127))) rest)"

definition negate :: "int_type \<Rightarrow> int \<Rightarrow> int" where
  "negate T v = (if is_signed T then - v else cast_to_unsigned (digits T) (- v))"

definition read_int :: "int_type \<Rightarrow> bytes \<Rightarrow> (int \<times> bytes) option" where
  "read_int T bs =
     (case read_groups T 0 0 bs of
        None \<Rightarrow> None
      | Some (part, value, rest) \<Rightarrow>
          if part AND 64 \<noteq> 0 then
            (case safe_sub T T_int (negate T value) 1 of
               None \<Rightarrow> None
             | Some v \<Rightarrow> Some (v, rest))
          else Some (value, rest))"

section \<open>Bit operations as arithmetic\<close>

lemma or_add_int:
  assumes "0 \<le> a" "a < 2 ^ k"
  shows "a OR push_bit k x = a + x * (2::int) ^ k"
proof -
  have a: "take_bit k a = a" using assms by (simp add: take_bit_int_eq_self_iff)
  have "a AND push_bit k x = 0"
    by (rule bit_eqI, subst a [symmetric]) (auto simp: bit_and_iff bit_take_bit_iff bit_push_bit_iff)
  then have "a + push_bit k x = a OR push_bit k x" by (rule disjunctive_add_eq_or)
  then show ?thesis by (simp add: push_bit_eq_mult)
qed

lemma or_add_nat:
  assumes "a < 2 ^ k"
  shows "push_bit k x OR a = a + x * (2::nat) ^ k"
proof -
  have a: "take_bit k a = a" using assms by (simp add: take_bit_nat_eq_self_iff)
  have "a AND push_bit k x = 0"
    by (rule bit_eqI, subst a [symmetric]) (auto simp: bit_and_iff bit_take_bit_iff bit_push_bit_iff)
  then have "a + push_bit k x = a OR push_bit k x" by (rule disjunctive_add_eq_or)
  then show ?thesis by (simp add: push_bit_eq_mult or.commute)
qed

lemma and_mask_nat: "(v::nat) AND 127 = v mod 128" "(v::nat) AND 63 = v mod 64"
  using take_bit_eq_mask [of 7 v] take_bit_eq_mask [of 6 v]
  by (simp_all add: take_bit_eq_mod mask_eq_exp_minus_1)

lemma and_bit_nat:
  "(v::nat) AND 128 = 0 \<longleftrightarrow> even (v div 128)" "(v::nat) AND 64 = 0 \<longleftrightarrow> even (v div 64)"
  using and_exp_eq_0_iff_not_bit [of v 7] and_exp_eq_0_iff_not_bit [of v 6]
  by (simp_all add: bit_iff_odd)

lemma continuation_byte:
  "128 OR (v AND 127) = 128 + v mod (128::nat)"
  using or_add_nat [of "v mod 128" 7 1] by (simp add: and_mask_nat)

lemma sign_byte: "w < 64 \<Longrightarrow> 64 OR w = (64::nat) + w"
  using or_add_nat [of w 6 1] by simp

section \<open>What the loops compute\<close>

lemma encode_groups_simps:
  "v < 64 \<Longrightarrow> encode_groups n v = ([], v)"
  "\<not> v < 64 \<Longrightarrow> encode_groups (Suc n) v =
     ((128 + v mod 128) # fst (encode_groups n (v div 128)), snd (encode_groups n (v div 128)))"
   apply (cases n; simp add: drop_bit_eq_div)
  apply (simp add: drop_bit_eq_div continuation_byte case_prod_beta Let_def div_eq_0_iff)
  done

declare encode_groups.simps [simp del]

lemma encode_groups_0: "encode_groups 0 v = ([], v)"
  by (simp add: encode_groups.simps)

lemma encode_groups_last: "v < 64 * 128 ^ n \<Longrightarrow> snd (encode_groups n v) < 64"
proof (induction n arbitrary: v)
  case (Suc n)
  then show ?case
    by (cases "v < 64") (simp_all add: encode_groups_simps less_mult_imp_div_less mult.assoc)
qed (simp add: encode_groups_0)

lemma encode_groups_length: "length (fst (encode_groups n v)) \<le> n"
proof (induction n arbitrary: v)
  case (Suc n)
  then show ?case by (cases "v < 64") (simp_all add: encode_groups_simps)
qed (simp add: encode_groups_0)

lemma encode_groups_bytes: "\<forall>b\<in>set (fst (encode_groups n v)). b < 256"
proof (induction n arbitrary: v)
  case (Suc n)
  have "128 + v mod 128 < 256" using mod_less_divisor [of 128 v] by simp
  then show ?case using Suc by (cases "v < 64") (simp_all add: encode_groups_simps)
qed (simp add: encode_groups_0)

text \<open>The last byte, with or without the sign.\<close>

lemma last_byte:
  assumes "w < (64::nat)" "b = w \<or> b = 64 + w"
  shows "b < 128" "b AND 128 = 0" "b AND 63 = w" "b AND 64 \<noteq> 0 \<longleftrightarrow> b = 64 + w"
  using assms div_add_self1 [of 64 w] by (auto simp: and_bit_nat and_mask_nat)

lemma read_last:
  assumes "w < 64" "b = w \<or> b = 64 + w" "0 \<le> acc" "acc < 2 ^ (7 * i)" "7 * i \<le> digits T"
  shows "read_groups T i acc (b # rest) =
    (if acc + int w * 2 ^ (7 * i) < 2 ^ digits T then Some (b, acc + int w * 2 ^ (7 * i), rest)
     else None)"
proof -
  note l = last_byte [OF assms(1,2)]
  have d: "(2::int) ^ digits T = 2 ^ (digits T - 7 * i) * 2 ^ (7 * i)"
    using assms(5) by (simp flip: power_add)
  have "in_range T (int w * 2 ^ (7 * i)) \<longleftrightarrow> int w * 2 ^ (7 * i) < 2 ^ digits T"
    by (auto simp: in_range_nonneg int_max_def)
  also have "\<dots> \<longleftrightarrow> acc + int w * 2 ^ (7 * i) < 2 ^ digits T"
  proof
    assume "int w * 2 ^ (7 * i) < 2 ^ digits T"
    then have "int w < 2 ^ (digits T - 7 * i)" unfolding d by (rule mult_right_less_imp_less) simp
    then have "int w + 1 \<le> 2 ^ (digits T - 7 * i)" by linarith
    then have "(int w + 1) * 2 ^ (7 * i) \<le> 2 ^ digits T"
      unfolding d by (rule mult_right_mono) simp
    then show "acc + int w * 2 ^ (7 * i) < 2 ^ digits T" using assms(4) by (simp add: distrib_right)
  qed (use assms(3) in simp)
  finally have r: "in_range T (int w * 2 ^ (7 * i)) \<longleftrightarrow> acc + int w * 2 ^ (7 * i) < 2 ^ digits T" .
  have "acc OR int w * 2 ^ (7 * i) = acc + int w * 2 ^ (7 * i)"
    using or_add_int [OF assms(3,4), of "int w"] by (simp add: push_bit_eq_mult)
  then show ?thesis using l r by (simp add: safe_shl_exact mult.commute [of i])
qed

lemma max_int_bytes_bounds:
  "7 * max_int_bytes d \<ge> d + 1" "7 * (max_int_bytes d - 1) \<le> d" "0 < max_int_bytes d"
  by (simp_all add: max_int_bytes_def)

lemma read_encoded_groups:
  assumes "v < 64 * 128 ^ n" "0 \<le> acc" "acc < 2 ^ (7 * i)" "i < max_int_bytes (digits T)"
    "b = snd (encode_groups n v) \<or> b = 64 + snd (encode_groups n v)"
  shows "read_groups T i acc (fst (encode_groups n v) @ b # rest) =
    (if acc + int v * 2 ^ (7 * i) < 2 ^ digits T then Some (b, acc + int v * 2 ^ (7 * i), rest)
     else None)"
  using assms
proof (induction n arbitrary: v acc i)
  case 0
  have "7 * i \<le> digits T" using max_int_bytes_bounds(2) [of "digits T"] 0(4) by linarith
  then show ?case using 0 read_last by (simp add: encode_groups_0 del: read_groups.simps)
next
  case (Suc n)
  have i: "7 * i \<le> digits T" using max_int_bytes_bounds(2) [of "digits T"] Suc.prems(4) by linarith
  show ?case
  proof (cases "v < 64")
    case True
    then show ?thesis using Suc.prems i read_last by (simp add: encode_groups_simps(1) del: read_groups.simps)
  next
    case False
    let ?w = "v div 128" and ?acc = "acc + int (v mod 128) * 2 ^ (7 * i)"
    have m: "v mod 128 < 128" by simp
    have b: "\<not> 255 < 128 + v mod 128" "128 + v mod 128 AND 128 \<noteq> 0"
      "int ((128 + v mod 128) AND 127) = int (v mod 128)"
      using m by (simp_all add: and_bit_nat and_mask_nat div_add1_eq)
    have vw: "int v = int (v mod 128) + 128 * int ?w"
      by (simp add: zmod_int zdiv_int)
    have p: "(2::int) ^ (7 * Suc i) = 128 * 2 ^ (7 * i)" by (simp add: power_add)
    have o: "acc OR push_bit (i * 7) (int (v mod 128)) = ?acc"
      using or_add_int [OF Suc.prems(2,3)] by (simp add: mult.commute [of i])
    have "(int (v mod 128) + 1) * 2 ^ (7 * i) \<le> 128 * (2::int) ^ (7 * i)"
      by (intro mult_right_mono) (use m in simp_all)
    then have "int (v mod 128) * 2 ^ (7 * i) + 2 ^ (7 * i) \<le> 128 * (2::int) ^ (7 * i)"
      by (simp add: distrib_right)
    then have acc: "0 \<le> ?acc" "?acc < 2 ^ (7 * Suc i)"
      using Suc.prems(2,3) unfolding p by (simp, linarith)
    have total: "?acc + int ?w * 2 ^ (7 * Suc i) = acc + int v * 2 ^ (7 * i)"
      unfolding p vw by (simp add: algebra_simps)
    show ?thesis
    proof (cases "i = max_int_bytes (digits T) - 1")
      case True
      have "digits T \<le> 7 * i + 6" using max_int_bytes_bounds(1,3) [of "digits T"] True by linarith
      then have "(2::int) ^ digits T \<le> 2 ^ (7 * i + 6)" by (rule pow_le)
      also have "\<dots> \<le> int v * 2 ^ (7 * i)" using False by (simp add: power_add)
      finally show ?thesis using b True False Suc.prems(2)
        by (simp add: encode_groups_simps(2))
    next
      case notlast: False
      have "read_groups T (Suc i) ?acc (fst (encode_groups n ?w) @ b # rest) =
        (if ?acc + int ?w * 2 ^ (7 * Suc i) < 2 ^ digits T
         then Some (b, ?acc + int ?w * 2 ^ (7 * Suc i), rest) else None)"
        by (rule Suc.IH)
          (use Suc.prems acc notlast False in
            \<open>simp_all add: encode_groups_simps(2) less_mult_imp_div_less mult.assoc\<close>)
      then show ?thesis using b o notlast False total
        by (simp add: encode_groups_simps(2))
    qed
  qed
qed

declare read_groups.simps [simp del]

section \<open>Decoding what was encoded\<close>

text \<open>
  The magnitude that is written for a value, and the value that decoding yields for a destination
  type: a negative value read as an unsigned one is reduced modulo the width, \<open>-1\<close> excepted.
\<close>

definition magnitude :: "int \<Rightarrow> nat" where
  "magnitude v = nat (if v < 0 then - (v + 1) else v)"

definition decoded :: "int_type \<Rightarrow> int \<Rightarrow> int option" where
  "decoded T v =
     (if in_range T v then Some v
      else if \<not> is_signed T \<and> - (2 ^ digits T) \<le> v \<and> v < - 1 then Some (v + 2 ^ digits T)
      else None)"

lemma pow128: "(128::nat) ^ n = 2 ^ (7 * n)"
  by (simp add: power_mult)

lemma encode_bound:
  assumes "in_range S v" "type_ok S"
  shows "magnitude v < 64 * 128 ^ max_int_bytes (digits S)"
proof -
  have "int (magnitude v) < 2 ^ digits S"
    using assms by (auto simp: magnitude_def in_range_def int_max_def int_min_def split: if_splits)
  then have "magnitude v < 2 ^ digits S" using of_nat_less_iff [of "magnitude v" "2 ^ digits S"] by simp
  also have "\<dots> \<le> 2 ^ (7 * max_int_bytes (digits S))"
    by (rule power_increasing) (use max_int_bytes_bounds(1) [of "digits S"] in simp_all)
  also have "\<dots> \<le> 64 * 128 ^ max_int_bytes (digits S)" by (simp add: pow128)
  finally show ?thesis .
qed

lemma encode_int_eq:
  assumes "in_range S v" "type_ok S"
  defines "g \<equiv> encode_groups (max_int_bytes (digits S)) (magnitude v)"
  shows "encode_int S v = fst g @ [if v < 0 then 64 + snd g else snd g]"
proof -
  have "snd g < 64" unfolding g_def by (rule encode_groups_last) (rule encode_bound [OF assms(1,2)])
  then show ?thesis
    by (cases "v < 0")
      (simp_all add: encode_int_def is_negative_def Let_def case_prod_beta sign_byte g_def magnitude_def)
qed

lemma encode_int_bytes: "\<forall>b\<in>set (encode_int S v). b < 256"
  using encode_groups_bytes by (simp add: encode_int_def Let_def case_prod_beta)

lemma encode_int_length: "length (encode_int S v) \<le> Suc (max_int_bytes (digits S))"
  using encode_groups_length by (simp add: encode_int_def Let_def case_prod_beta)

lemma encode_int_nonempty [simp]: "encode_int S v \<noteq> []"
  by (simp add: encode_int_def Let_def case_prod_beta)

theorem read_encode_int:
  assumes "type_ok S" "in_range S v" "type_ok T" "0 < digits T"
  shows "read_int T (encode_int S v @ rest) = map_option (\<lambda>w. (w, rest)) (decoded T v)"
proof -
  define m where "m = magnitude v"
  define g where "g = encode_groups (max_int_bytes (digits S)) m"
  define b where "b = (if v < 0 then 64 + snd g else snd g)"
  have g: "m < 64 * 128 ^ max_int_bytes (digits S)" "snd g < 64"
    unfolding g_def m_def by (rule encode_bound [OF assms(2,1)], rule encode_groups_last,
        rule encode_bound [OF assms(2,1)])
  have e: "encode_int S v = fst g @ [b]"
    unfolding g_def b_def m_def by (rule encode_int_eq [OF assms(2,1)])
  have groups: "read_groups T 0 0 (fst g @ b # rest) =
      (if int m < 2 ^ digits T then Some (b, int m, rest) else None)"
    using read_encoded_groups [of m "max_int_bytes (digits S)" 0 0 T b rest] g(1)
      max_int_bytes_bounds(3) by (auto simp: g_def b_def)
  have bit: "b AND 64 \<noteq> 0 \<longleftrightarrow> v < 0"
    using last_byte(4) [OF g(2), of b] by (auto simp: b_def)
  have r: "read_int T (encode_int S v @ rest) =
      (if int m < 2 ^ digits T then
         (if v < 0 then map_option (\<lambda>w. (w, rest)) (safe_sub T T_int (negate T (int m)) 1)
          else Some (int m, rest))
       else None)"
    using groups bit by (simp add: read_int_def e map_option_case del: not_gr_zero)
  have one: "in_range T_int 1" "type_ok T_int"
    by (simp_all add: in_range_def int_min_def int_max_def type_ok_def)
  show ?thesis
  proof (cases "v < 0")
    case False
    then have "v = int m" by (simp add: m_def magnitude_def)
    then show ?thesis using False unfolding r by (simp add: decoded_def in_range_nonneg int_max_def)
  next
    case True
    then have m: "v = - int m - 1" by (simp add: m_def magnitude_def)
    have n: "negate T (int m) = (if is_signed T then - int m else if m = 0 then 0 else 2 ^ digits T - int m)"
      if "int m < 2 ^ digits T"
      using that mod_wrap(2) [of "2 ^ digits T" "- int m"]
      by (simp add: negate_def cast_to_unsigned_def)
    have neg: "- int m < 2 ^ digits T" by (rule le_less_trans [of _ 0]) simp_all
    have "in_range T (negate T (int m))" if "int m < 2 ^ digits T"
      using n that neg by (cases "is_signed T") (auto simp: in_range_signed in_range_unsigned)
    note s = safe_sub_exact [OF assms(3) one(2) this one(1)]
    have "is_signed T \<Longrightarrow> ?thesis"
      using n s True unfolding r by (simp add: m decoded_def in_range_signed neg)
    moreover have "\<not> is_signed T \<Longrightarrow> ?thesis"
      using n s True unfolding r by (auto simp: m decoded_def in_range_unsigned)
    ultimately show ?thesis by blast
  qed
qed

lemma encode_groups_short: "v < 64 * 128 ^ k \<Longrightarrow> length (fst (encode_groups n v)) \<le> k"
proof (induction n arbitrary: v k)
  case (Suc n)
  show ?case
  proof (cases "v < 64")
    case False
    then obtain j where k: "k = Suc j" using Suc.prems by (cases k) simp_all
    have "v div 128 < 64 * 128 ^ j" using Suc.prems k by (simp add: less_mult_imp_div_less mult.assoc)
    then show ?thesis using Suc.IH False k by (simp add: encode_groups_simps)
  qed (simp add: encode_groups_simps)
qed (simp add: encode_groups_0)

lemma encode_int_fits:
  assumes "in_range S v" "type_ok S"
  shows "length (encode_int S v) \<le> max_int_bytes (digits S)"
proof -
  have "int (magnitude v) < 2 ^ digits S"
    using assms by (auto simp: magnitude_def in_range_def int_max_def int_min_def split: if_splits)
  then have "magnitude v < 2 ^ digits S" using of_nat_less_iff [of "magnitude v" "2 ^ digits S"] by simp
  also have "\<dots> \<le> 2 ^ (6 + 7 * (max_int_bytes (digits S) - 1))"
    by (rule power_increasing) (use max_int_bytes_bounds(1,3) [of "digits S"] in simp_all)
  also have "\<dots> = 64 * 128 ^ (max_int_bytes (digits S) - 1)" by (simp add: pow128 power_add)
  finally have "length (fst (encode_groups n (magnitude v))) \<le> max_int_bytes (digits S) - 1" for n
    by (rule encode_groups_short)
  then have "length (encode_int S v) \<le> Suc (max_int_bytes (digits S) - 1)"
    by (simp add: encode_int_eq [OF assms])
  then show ?thesis using max_int_bytes_bounds(3) [of "digits S"] by simp
qed

corollary read_encode_int_in_range:
  "type_ok S \<Longrightarrow> in_range S v \<Longrightarrow> type_ok T \<Longrightarrow> 0 < digits T \<Longrightarrow> in_range T v \<Longrightarrow>
   read_int T (encode_int S v @ rest) = Some (v, rest)"
  by (simp add: read_encode_int decoded_def)

end
