(* ===== verification/LogCalls.thy ===== *)
theory LogCalls imports CoreTypes LogInt begin

text \<open>
  The vocabulary of the transaction log (\<open>transact_log.hpp\<close>): the instruction codes and the
  methods that an instruction handler has.  A handler call is a value of the type \<open>call\<close>, with
  one constructor for each method of \<open>NullInstructionObserver\<close> and its arguments in their order;
  a path of \<open>select_table\<close> is the list of its column and row pairs, a floating point number its
  4 or 8 bytes, \<open>StringData\<close> and \<open>BinaryData\<close> are byte lists and \<open>None\<close> where they may be null.
\<close>

section \<open>Instructions\<close>

datatype instruction =
    instr_InsertGroupLevelTable | instr_EraseGroupLevelTable | instr_RenameGroupLevelTable
  | instr_MoveGroupLevelTable | instr_SelectTable | instr_Set | instr_SetUnique | instr_SetDefault
  | instr_AddInteger | instr_NullifyLink | instr_InsertSubstring | instr_EraseFromString
  | instr_InsertEmptyRows | instr_EraseRows | instr_SwapRows | instr_MoveRow | instr_MergeRows
  | instr_ClearTable | instr_OptimizeTable | instr_SelectDescriptor | instr_InsertColumn
  | instr_InsertLinkColumn | instr_InsertNullableColumn | instr_EraseColumn | instr_EraseLinkColumn
  | instr_RenameColumn | instr_MoveColumn | instr_AddSearchIndex | instr_RemoveSearchIndex
  | instr_SetLinkType | instr_SelectLinkList | instr_LinkListSet | instr_LinkListInsert
  | instr_LinkListMove | instr_LinkListSwap | instr_LinkListErase | instr_LinkListNullify
  | instr_LinkListClear | instr_LinkListSetAll | instr_AddRowWithKey

definition instructions :: "instruction list" where
  "instructions =
     [instr_InsertGroupLevelTable, instr_EraseGroupLevelTable, instr_RenameGroupLevelTable,
      instr_MoveGroupLevelTable, instr_SelectTable, instr_Set, instr_SetUnique, instr_SetDefault,
      instr_AddInteger, instr_NullifyLink, instr_InsertSubstring, instr_EraseFromString,
      instr_InsertEmptyRows, instr_EraseRows, instr_SwapRows, instr_MoveRow, instr_MergeRows,
      instr_ClearTable, instr_OptimizeTable, instr_SelectDescriptor, instr_InsertColumn,
      instr_InsertLinkColumn, instr_InsertNullableColumn, instr_EraseColumn, instr_EraseLinkColumn,
      instr_RenameColumn, instr_MoveColumn, instr_AddSearchIndex, instr_RemoveSearchIndex,
      instr_SetLinkType, instr_SelectLinkList, instr_LinkListSet, instr_LinkListInsert,
      instr_LinkListMove, instr_LinkListSwap, instr_LinkListErase, instr_LinkListNullify,
      instr_LinkListClear, instr_LinkListSetAll, instr_AddRowWithKey]"

primrec instr_code :: "instruction \<Rightarrow> nat" where
  "instr_code instr_InsertGroupLevelTable = 1"
| "instr_code instr_EraseGroupLevelTable = 2"
| "instr_code instr_RenameGroupLevelTable = 3"
| "instr_code instr_MoveGroupLevelTable = 4"
| "instr_code instr_SelectTable = 5"
| "instr_code instr_Set = 6"
| "instr_code instr_SetUnique = 7"
| "instr_code instr_SetDefault = 8"
| "instr_code instr_AddInteger = 9"
| "instr_code instr_NullifyLink = 10"
| "instr_code instr_InsertSubstring = 11"
| "instr_code instr_EraseFromString = 12"
| "instr_code instr_InsertEmptyRows = 13"
| "instr_code instr_EraseRows = 14"
| "instr_code instr_SwapRows = 15"
| "instr_code instr_MoveRow = 16"
| "instr_code instr_MergeRows = 17"
| "instr_code instr_ClearTable = 18"
| "instr_code instr_OptimizeTable = 19"
| "instr_code instr_SelectDescriptor = 20"
| "instr_code instr_InsertColumn = 21"
| "instr_code instr_InsertLinkColumn = 22"
| "instr_code instr_InsertNullableColumn = 23"
| "instr_code instr_EraseColumn = 24"
| "instr_code instr_EraseLinkColumn = 25"
| "instr_code instr_RenameColumn = 26"
| "instr_code instr_MoveColumn = 27"
| "instr_code instr_AddSearchIndex = 28"
| "instr_code instr_RemoveSearchIndex = 29"
| "instr_code instr_SetLinkType = 30"
| "instr_code instr_SelectLinkList = 31"
| "instr_code instr_LinkListSet = 32"
| "instr_code instr_LinkListInsert = 33"
| "instr_code instr_LinkListMove = 34"
| "instr_code instr_LinkListSwap = 35"
| "instr_code instr_LinkListErase = 36"
| "instr_code instr_LinkListNullify = 37"
| "instr_code instr_LinkListClear = 38"
| "instr_code instr_LinkListSetAll = 39"
| "instr_code instr_AddRowWithKey = 40"

definition instr_of :: "nat \<Rightarrow> instruction option" where
  "instr_of c = find (\<lambda>i. instr_code i = c) instructions"

lemma instr_of_code [simp]: "instr_of (instr_code i) = Some i"
  by (cases i) (simp_all add: instr_of_def instructions_def)

section \<open>Handler calls\<close>

datatype mixed =
    Mixed_Int int | Mixed_Bool bool | Mixed_Float bytes | Mixed_Double bytes
  | Mixed_OldDateTime int | Mixed_Timestamp int int | Mixed_String bytes | Mixed_Binary bytes
  | Mixed_Table

datatype (plugins only: code) call =
    Select_table nat "(nat \<times> nat) list"
  | Select_descriptor "nat list"
  | Select_link_list nat nat nat
  | Insert_group_level_table nat nat bytes
  | Erase_group_level_table nat nat
  | Rename_group_level_table nat bytes
  | Insert_empty_rows nat nat nat bool
  | Add_row_with_key nat nat nat int
  | Erase_rows nat nat nat bool
  | Swap_rows nat nat
  | Move_row nat nat
  | Merge_rows nat nat
  | Clear_table nat
  | Set_int nat nat int instruction nat
  | Add_int nat nat int
  | Set_bool nat nat bool instruction
  | Set_float nat nat bytes instruction
  | Set_double nat nat bytes instruction
  | Set_string nat nat "bytes option" instruction nat
  | Set_binary nat nat "bytes option" instruction
  | Set_olddatetime nat nat int instruction
  | Set_timestamp nat nat int int instruction
  | Set_table nat nat instruction
  | Set_mixed nat nat mixed instruction
  | Set_link nat nat nat nat instruction
  | Set_null nat nat instruction nat
  | Nullify_link nat nat nat
  | Insert_substring nat nat nat bytes
  | Erase_substring nat nat nat nat
  | Optimize_table
  | Insert_link_column nat data_type bytes nat nat
  | Insert_column nat data_type bytes bool
  | Erase_link_column nat nat nat
  | Erase_column nat
  | Rename_column nat bytes
  | Add_search_index nat
  | Remove_search_index nat
  | Set_link_type nat link_type
  | Link_list_set nat nat nat
  | Link_list_insert nat nat nat
  | Link_list_move nat nat
  | Link_list_swap nat nat
  | Link_list_erase nat nat
  | Link_list_nullify nat nat
  | Link_list_clear nat

text \<open>
  A handler turns its state and a call into its next state; \<open>None\<close> is a method that returns
  \<open>false\<close> or throws, either of which ends the parse with an exception.
  \<open>NullInstructionObserver\<close> accepts every call.
\<close>

type_synonym 's handler = "'s \<Rightarrow> call \<Rightarrow> 's option"

definition null_handler :: "'s handler" where
  "null_handler s c = Some s"

fun run_calls :: "'s handler \<Rightarrow> 's \<Rightarrow> call list \<Rightarrow> 's option" where
  "run_calls h s [] = Some s"
| "run_calls h s (c # cs) = (case h s c of None \<Rightarrow> None | Some s' \<Rightarrow> run_calls h s' cs)"

lemma run_calls_append:
  "run_calls h s (cs @ ds) = (case run_calls h s cs of None \<Rightarrow> None | Some s' \<Rightarrow> run_calls h s' ds)"
  by (induction cs arbitrary: s) (auto split: option.splits)

end
