(* ===== verification/LogEncode.thy ===== *)
theory LogEncode imports LogCalls begin

text \<open>
  \<open>TransactLogEncoder\<close>: the bytes that each method appends to the log.  The arguments of
  \<open>append_simple_instr\<close> are fields, each with the overload of \<open>encode\<close> and \<open>max_size\<close> that its
  type selects.  The three \<open>select\<close> methods are compiled elsewhere and are the parameter
  \<open>sel\<close> of the encoder.
\<close>

section \<open>Fields\<close>

datatype field =
    F_int int_type int
  | F_char nat
  | F_bool bool
  | F_float bytes
  | F_string bytes
  | F_ints "int list"

abbreviation F_size :: "nat \<Rightarrow> field" where
  "F_size n \<equiv> F_int T_size (int n)"

abbreviation F_instr :: "instruction \<Rightarrow> field" where
  "F_instr i \<equiv> F_char (instr_code i)"

abbreviation F_type :: "data_type \<Rightarrow> field" where
  "F_type t \<equiv> F_char (data_type_code t)"

definition max_enc_bytes_per_num :: nat where
  "max_enc_bytes_per_num = 10"

definition max_numbers_per_chunk :: nat where
  "max_numbers_per_chunk = 8"

text \<open>A list of integers is written in chunks, with a reservation of space for each.\<close>

function int_chunks :: "int list \<Rightarrow> int list list" where
  "int_chunks vs =
     (if length vs > max_numbers_per_chunk
      then take max_numbers_per_chunk vs # int_chunks (drop max_numbers_per_chunk vs)
      else [vs])"
  by auto
termination by (relation "measure length") (auto simp: max_numbers_per_chunk_def)

declare int_chunks.simps [simp del]

definition encode_ints :: "int list \<Rightarrow> bytes" where
  "encode_ints vs = concat (map (encode_int T_int64) vs)"

primrec encode_field :: "field \<Rightarrow> bytes" where
  "encode_field (F_int T v) = encode_int T v"
| "encode_field (F_char c) = [c]"
| "encode_field (F_bool b) = [if b then 1 else 0]"
| "encode_field (F_float bs) = bs"
| "encode_field (F_string s) = encode_int T_size (int (length s)) @ s"
| "encode_field (F_ints vs) = concat (map encode_ints (int_chunks vs))"

primrec max_field_size :: "field \<Rightarrow> nat" where
  "max_field_size (F_int T v) = max_enc_bytes_per_num"
| "max_field_size (F_char c) = 1"
| "max_field_size (F_bool b) = 1"
| "max_field_size (F_float bs) = max_enc_bytes_per_num"
| "max_field_size (F_string s) = max_enc_bytes_per_num + length s"
| "max_field_size (F_ints vs) = max_enc_bytes_per_num * max_numbers_per_chunk"

definition append_simple_instr :: "field list \<Rightarrow> bytes" where
  "append_simple_instr fs = concat (map encode_field fs)"

text \<open>
  The buffer space that \<open>append_simple_instr\<close> reserves, and what it writes there: the sum of the
  largest sizes of all fields, and for an integer list a further reservation for each chunk after
  the first.
\<close>

definition reservations :: "field list \<Rightarrow> (nat \<times> bytes) list" where
  "reservations fs =
     (case rev fs of
        F_ints vs # _ \<Rightarrow>
          (sum_list (map max_field_size fs),
           concat (map encode_field (butlast fs)) @ encode_ints (hd (int_chunks vs))) #
          map (\<lambda>c. (max_enc_bytes_per_num * max_numbers_per_chunk, encode_ints c)) (tl (int_chunks vs))
      | _ \<Rightarrow> [(sum_list (map max_field_size fs), append_simple_instr fs)])"

section \<open>Methods\<close>

definition set_null_sentinel :: int where
  "set_null_sentinel = -1"

primrec append_mixed_instr :: "instruction \<Rightarrow> mixed \<Rightarrow> field list \<Rightarrow> bytes" where
  "append_mixed_instr i (Mixed_Int v) fs =
     append_simple_instr (F_instr i # fs @ [F_type type_Int, F_int T_int64 v])"
| "append_mixed_instr i (Mixed_Bool b) fs =
     append_simple_instr (F_instr i # fs @ [F_type type_Bool, F_bool b])"
| "append_mixed_instr i (Mixed_Float bs) fs =
     append_simple_instr (F_instr i # fs @ [F_type type_Float, F_float bs])"
| "append_mixed_instr i (Mixed_Double bs) fs =
     append_simple_instr (F_instr i # fs @ [F_type type_Double, F_float bs])"
| "append_mixed_instr i (Mixed_OldDateTime v) fs =
     append_simple_instr (F_instr i # fs @ [F_type type_OldDateTime, F_int T_int64 v])"
| "append_mixed_instr i (Mixed_String s) fs =
     append_simple_instr (F_instr i # fs @ [F_type type_String, F_string s])"
| "append_mixed_instr i (Mixed_Binary s) fs =
     append_simple_instr (F_instr i # fs @ [F_type type_Binary, F_string s])"
| "append_mixed_instr i (Mixed_Timestamp sec nsec) fs =
     append_simple_instr (F_instr i # fs @
       [F_type type_Timestamp, F_int T_int64 sec, F_int T_int32 nsec])"
| "append_mixed_instr i Mixed_Table fs =
     append_simple_instr (F_instr i # fs @ [F_type type_Table])"

definition encode_set_null :: "nat \<Rightarrow> nat \<Rightarrow> instruction \<Rightarrow> nat \<Rightarrow> bytes" where
  "encode_set_null col row variant prior =
     (if variant = instr_SetUnique
      then append_simple_instr
        [F_instr variant, F_int T_int set_null_sentinel, F_size col, F_size row, F_size prior]
      else append_simple_instr [F_instr variant, F_int T_int set_null_sentinel, F_size col, F_size row])"

definition encode_link_list_set_all :: "int list \<Rightarrow> bytes" where
  "encode_link_list_set_all vs =
     append_simple_instr [F_instr instr_LinkListSetAll, F_size (length vs), F_ints vs]"

primrec encode_call :: "(call \<Rightarrow> bytes) \<Rightarrow> call \<Rightarrow> bytes" where
  "encode_call sel (Select_table t path) = sel (Select_table t path)"
| "encode_call sel (Select_descriptor path) = sel (Select_descriptor path)"
| "encode_call sel (Select_link_list col row t) = sel (Select_link_list col row t)"
| "encode_call sel (Insert_group_level_table t prior name) =
     append_simple_instr [F_instr instr_InsertGroupLevelTable, F_size t, F_size prior, F_string name]"
| "encode_call sel (Erase_group_level_table t prior) =
     append_simple_instr [F_instr instr_EraseGroupLevelTable, F_size t, F_size prior]"
| "encode_call sel (Rename_group_level_table t name) =
     append_simple_instr [F_instr instr_RenameGroupLevelTable, F_size t, F_string name]"
| "encode_call sel (Insert_column col ty name nullable) =
     append_simple_instr
       [F_instr (if nullable then instr_InsertNullableColumn else instr_InsertColumn),
        F_size col, F_type ty, F_string name]"
| "encode_call sel (Insert_link_column col ty name target backlink) =
     append_simple_instr
       [F_instr instr_InsertLinkColumn, F_size col, F_type ty, F_size target, F_size backlink,
        F_string name]"
| "encode_call sel (Erase_column col) = append_simple_instr [F_instr instr_EraseColumn, F_size col]"
| "encode_call sel (Erase_link_column col target backlink) =
     append_simple_instr [F_instr instr_EraseLinkColumn, F_size col, F_size target, F_size backlink]"
| "encode_call sel (Rename_column col name) =
     append_simple_instr [F_instr instr_RenameColumn, F_size col, F_string name]"
| "encode_call sel (Set_int col row v variant prior) =
     (if variant = instr_SetUnique
      then append_simple_instr
        [F_instr variant, F_type type_Int, F_size col, F_size row, F_size prior, F_int T_int64 v]
      else append_simple_instr
        [F_instr variant, F_type type_Int, F_size col, F_size row, F_int T_int64 v])"
| "encode_call sel (Add_int col row v) =
     append_simple_instr [F_instr instr_AddInteger, F_size col, F_size row, F_int T_int64 v]"
| "encode_call sel (Set_bool col row b variant) =
     append_simple_instr [F_instr variant, F_type type_Bool, F_size col, F_size row, F_bool b]"
| "encode_call sel (Set_float col row bs variant) =
     append_simple_instr [F_instr variant, F_type type_Float, F_size col, F_size row, F_float bs]"
| "encode_call sel (Set_double col row bs variant) =
     append_simple_instr [F_instr instr_Set, F_type type_Double, F_size col, F_size row, F_float bs]"
| "encode_call sel (Set_string col row s variant prior) =
     (case s of
        None \<Rightarrow> encode_set_null col row variant prior
      | Some s \<Rightarrow>
          if variant = instr_SetUnique
          then append_simple_instr
            [F_instr variant, F_type type_String, F_size col, F_size row, F_size prior, F_string s]
          else append_simple_instr
            [F_instr variant, F_type type_String, F_size col, F_size row, F_string s])"
| "encode_call sel (Set_binary col row s variant) =
     (case s of
        None \<Rightarrow> encode_set_null col row variant 0
      | Some s \<Rightarrow>
          append_simple_instr
            [F_instr variant, F_type type_Binary, F_size col, F_size row, F_string s])"
| "encode_call sel (Set_olddatetime col row v variant) =
     append_simple_instr
       [F_instr variant, F_type type_OldDateTime, F_size col, F_size row, F_int T_int64 v]"
| "encode_call sel (Set_timestamp col row sec nsec variant) =
     append_simple_instr
       [F_instr variant, F_type type_Timestamp, F_size col, F_size row, F_int T_int64 sec,
        F_int T_int32 nsec]"
| "encode_call sel (Set_table col row variant) =
     append_simple_instr [F_instr variant, F_type type_Table, F_size col, F_size row]"
| "encode_call sel (Set_mixed col row v variant) =
     append_mixed_instr variant v [F_type type_Mixed, F_size col, F_size row]"
| "encode_call sel (Set_link col row v target variant) =
     append_simple_instr
       [F_instr variant, F_type type_Link, F_size col, F_size row, F_size ((1 + v) mod 2 ^ 64),
        F_size target]"
| "encode_call sel (Set_null col row variant prior) = encode_set_null col row variant prior"
| "encode_call sel (Nullify_link col row target) =
     append_simple_instr [F_instr instr_NullifyLink, F_size col, F_size row, F_size target]"
| "encode_call sel (Insert_substring col row p s) =
     append_simple_instr [F_instr instr_InsertSubstring, F_size col, F_size row, F_size p, F_string s]"
| "encode_call sel (Erase_substring col row p n) =
     append_simple_instr [F_instr instr_EraseFromString, F_size col, F_size row, F_size p, F_size n]"
| "encode_call sel (Insert_empty_rows row n prior unordered) =
     append_simple_instr
       [F_instr instr_InsertEmptyRows, F_size row, F_size n, F_size prior, F_bool unordered]"
| "encode_call sel (Add_row_with_key row prior key_col key) =
     append_simple_instr
       [F_instr instr_AddRowWithKey, F_size row, F_size prior, F_size key_col, F_int T_int64 key]"
| "encode_call sel (Erase_rows row n prior unordered) =
     append_simple_instr
       [F_instr instr_EraseRows, F_size row, F_size n, F_size prior, F_bool unordered]"
| "encode_call sel (Swap_rows a b) = append_simple_instr [F_instr instr_SwapRows, F_size a, F_size b]"
| "encode_call sel (Move_row a b) = append_simple_instr [F_instr instr_MoveRow, F_size a, F_size b]"
| "encode_call sel (Merge_rows a b) = append_simple_instr [F_instr instr_MergeRows, F_size a, F_size b]"
| "encode_call sel (Add_search_index col) =
     append_simple_instr [F_instr instr_AddSearchIndex, F_size col]"
| "encode_call sel (Remove_search_index col) =
     append_simple_instr [F_instr instr_RemoveSearchIndex, F_size col]"
| "encode_call sel (Set_link_type col lt) =
     append_simple_instr
       [F_instr instr_SetLinkType, F_size col, F_int T_int (int (link_type_code lt))]"
| "encode_call sel (Clear_table old_size) =
     append_simple_instr [F_instr instr_ClearTable, F_size old_size]"
| "encode_call sel Optimize_table = append_simple_instr [F_instr instr_OptimizeTable]"
| "encode_call sel (Link_list_set i v prior) =
     append_simple_instr [F_instr instr_LinkListSet, F_size i, F_size v, F_size prior]"
| "encode_call sel (Link_list_nullify i prior) =
     append_simple_instr [F_instr instr_LinkListNullify, F_size i, F_size prior]"
| "encode_call sel (Link_list_insert i v prior) =
     append_simple_instr [F_instr instr_LinkListInsert, F_size i, F_size v, F_size prior]"
| "encode_call sel (Link_list_move a b) =
     append_simple_instr [F_instr instr_LinkListMove, F_size a, F_size b]"
| "encode_call sel (Link_list_swap a b) =
     append_simple_instr [F_instr instr_LinkListSwap, F_size a, F_size b]"
| "encode_call sel (Link_list_erase i prior) =
     append_simple_instr [F_instr instr_LinkListErase, F_size i, F_size prior]"
| "encode_call sel (Link_list_clear old_size) =
     append_simple_instr [F_instr instr_LinkListClear, F_size old_size]"

end
