(* ===== verification/LogParse.thy ===== *)
theory LogParse imports LogCalls "HOL-Library.Monad_Syntax" begin

text \<open>
  \<open>TransactLogParser\<close>: reading the log and calling a handler for each instruction.  The readers
  take the log and return a value with the rest of the log, or \<open>None\<close> for \<open>BadTransactLog\<close>.
  \<open>read_instr\<close> is \<open>parse_one\<close> without the handler: it decodes one instruction to the calls that
  \<open>parse_one\<close> makes for it (one, or for \<open>LinkListSetAll\<close> one for each value), and
  \<open>parse_one\<close> makes these calls; as any failure ends the parse with an exception, the calls of
  \<open>LinkListSetAll\<close> may follow the reading of all its values.
\<close>

section \<open>Input blocks\<close>

text \<open>
  The input is a sequence of blocks, of which \<open>m_input_begin .. m_input_end\<close> is the unread part
  of the current one.  \<open>next_block\<close> of the input streams reports the end at the first empty block.
\<close>

type_synonym block_input = "bytes \<times> bytes list"

fun next_input_buffer :: "block_input \<Rightarrow> block_input option" where
  "next_input_buffer (cur, []) = None"
| "next_input_buffer (cur, b # bs) = (if b = [] then None else Some (b, bs))"

fun has_next :: "block_input \<Rightarrow> bool" where
  "has_next (cur, bs) \<longleftrightarrow> cur \<noteq> [] \<or> next_input_buffer (cur, bs) \<noteq> None"

fun block_read_char :: "block_input \<Rightarrow> (nat \<times> block_input) option" where
  "block_read_char (c # cur, bs) = Some (c, (cur, bs))"
| "block_read_char ([], bs) =
     (case next_input_buffer ([], bs) of
        Some (c # cur, bs') \<Rightarrow> Some (c, (cur, bs'))
      | _ \<Rightarrow> None)"

text \<open>The loop of \<open>read_bytes\<close> goes over the blocks; it returns what it has copied.\<close>

fun block_read_bytes :: "nat \<Rightarrow> bytes \<Rightarrow> bytes list \<Rightarrow> (bytes \<times> block_input) option" where
  "block_read_bytes n cur [] =
     (if n \<le> length cur then Some (take n cur, (drop n cur, [])) else None)"
| "block_read_bytes n cur (b # bs) =
     (if n \<le> length cur then Some (take n cur, (drop n cur, b # bs))
      else if b = [] then None
      else case block_read_bytes (n - length cur) b bs of
             None \<Rightarrow> None
           | Some (data, inp) \<Rightarrow> Some (cur @ data, inp))"

text \<open>The bytes that are still to come.\<close>

fun unread :: "block_input \<Rightarrow> bytes" where
  "unread (cur, bs) = cur @ concat (takeWhile (\<lambda>b. b \<noteq> []) bs)"

section \<open>Readers\<close>

definition max_string_size :: nat where
  "max_string_size = 0xFFFFF8 - 8 - 1"

definition read_char :: "bytes \<Rightarrow> (nat \<times> bytes) option" where
  "read_char bs = (case bs of [] \<Rightarrow> None | c # rest \<Rightarrow> Some (c, rest))"

definition read_bytes :: "nat \<Rightarrow> bytes \<Rightarrow> (bytes \<times> bytes) option" where
  "read_bytes n bs = (if n \<le> length bs then Some (take n bs, drop n bs) else None)"

definition read_size :: "bytes \<Rightarrow> (nat \<times> bytes) option" where
  "read_size bs = do { (v, bs) \<leftarrow> read_int T_size bs; Some (nat v, bs) }"

definition read_bool :: "bytes \<Rightarrow> (bool \<times> bytes) option" where
  "read_bool bs = do { (v, bs) \<leftarrow> read_int T_char bs; Some (v \<noteq> 0, bs) }"

definition read_float :: "bytes \<Rightarrow> (bytes \<times> bytes) option" where
  "read_float bs = read_bytes 4 bs"

definition read_double :: "bytes \<Rightarrow> (bytes \<times> bytes) option" where
  "read_double bs = read_bytes 8 bs"

definition read_string :: "bytes \<Rightarrow> (bytes \<times> bytes) option" where
  "read_string bs = do {
     (n, bs) \<leftarrow> read_size bs;
     if n > max_string_size then None else read_bytes n bs }"

definition read_binary :: "bytes \<Rightarrow> (bytes \<times> bytes) option" where
  "read_binary bs = do { (n, bs) \<leftarrow> read_size bs; read_bytes n bs }"

definition read_timestamp :: "bytes \<Rightarrow> ((int \<times> int) \<times> bytes) option" where
  "read_timestamp bs = do {
     (seconds, bs) \<leftarrow> read_int T_int64 bs;
     (nanoseconds, bs) \<leftarrow> read_int T_int32 bs;
     Some ((seconds, nanoseconds), bs) }"

definition read_mixed :: "bytes \<Rightarrow> (mixed \<times> bytes) option" where
  "read_mixed bs = do {
     (type, bs) \<leftarrow> read_int T_int bs;
     case data_type_of type of
       None \<Rightarrow> None
     | Some ty \<Rightarrow>
         (case ty of
            type_Int \<Rightarrow> do { (v, bs) \<leftarrow> read_int T_int64 bs; Some (Mixed_Int v, bs) }
          | type_Bool \<Rightarrow> do { (v, bs) \<leftarrow> read_bool bs; Some (Mixed_Bool v, bs) }
          | type_Float \<Rightarrow> do { (v, bs) \<leftarrow> read_float bs; Some (Mixed_Float v, bs) }
          | type_Double \<Rightarrow> do { (v, bs) \<leftarrow> read_double bs; Some (Mixed_Double v, bs) }
          | type_OldDateTime \<Rightarrow> do { (v, bs) \<leftarrow> read_int T_int64 bs; Some (Mixed_OldDateTime v, bs) }
          | type_Timestamp \<Rightarrow>
              do { (v, bs) \<leftarrow> read_timestamp bs; Some (Mixed_Timestamp (fst v) (snd v), bs) }
          | type_String \<Rightarrow> do { (v, bs) \<leftarrow> read_string bs; Some (Mixed_String v, bs) }
          | type_Binary \<Rightarrow> do { (v, bs) \<leftarrow> read_binary bs; Some (Mixed_Binary v, bs) }
          | type_Table \<Rightarrow> Some (Mixed_Table, bs)
          | _ \<Rightarrow> None) }"

fun read_sizes :: "nat \<Rightarrow> bytes \<Rightarrow> (nat list \<times> bytes) option" where
  "read_sizes 0 bs = Some ([], bs)"
| "read_sizes (Suc n) bs = do {
     (v, bs) \<leftarrow> read_size bs; (vs, bs) \<leftarrow> read_sizes n bs; Some (v # vs, bs) }"

fun read_pairs :: "nat \<Rightarrow> bytes \<Rightarrow> ((nat \<times> nat) list \<times> bytes) option" where
  "read_pairs 0 bs = Some ([], bs)"
| "read_pairs (Suc n) bs = do {
     (col, bs) \<leftarrow> read_size bs; (row, bs) \<leftarrow> read_size bs;
     (vs, bs) \<leftarrow> read_pairs n bs; Some ((col, row) # vs, bs) }"

section \<open>One instruction\<close>

definition max_levels :: int where
  "max_levels = 1024"

text \<open>The calls of \<open>LinkListSetAll\<close> for the values \<open>i\<close>, \<open>i + 1\<close>, \<dots>\<close>

fun read_link_list_set_all :: "nat \<Rightarrow> nat \<Rightarrow> nat \<Rightarrow> bytes \<Rightarrow> (call list \<times> bytes) option" where
  "read_link_list_set_all num i 0 bs = Some ([], bs)"
| "read_link_list_set_all num i (Suc n) bs = do {
     (link, bs) \<leftarrow> read_size bs;
     (cs, bs) \<leftarrow> read_link_list_set_all num (Suc i) n bs;
     Some (Link_list_set i link num # cs, bs) }"

text \<open>The call for a value of a given type, behind type, column, row and old row count.\<close>

definition read_set_value ::
    "data_type \<Rightarrow> nat \<Rightarrow> nat \<Rightarrow> instruction \<Rightarrow> nat \<Rightarrow> bytes \<Rightarrow> (call \<times> bytes) option" where
  "read_set_value ty col row i prior bs =
     (case ty of
        type_Int \<Rightarrow> do { (v, bs) \<leftarrow> read_int T_int64 bs; Some (Set_int col row v i prior, bs) }
      | type_Bool \<Rightarrow> do { (v, bs) \<leftarrow> read_bool bs; Some (Set_bool col row v i, bs) }
      | type_Float \<Rightarrow> do { (v, bs) \<leftarrow> read_float bs; Some (Set_float col row v i, bs) }
      | type_Double \<Rightarrow> do { (v, bs) \<leftarrow> read_double bs; Some (Set_double col row v i, bs) }
      | type_String \<Rightarrow>
          do { (v, bs) \<leftarrow> read_string bs; Some (Set_string col row (Some v) i prior, bs) }
      | type_Binary \<Rightarrow> do { (v, bs) \<leftarrow> read_binary bs; Some (Set_binary col row (Some v) i, bs) }
      | type_OldDateTime \<Rightarrow>
          do { (v, bs) \<leftarrow> read_int T_int64 bs; Some (Set_olddatetime col row v i, bs) }
      | type_Timestamp \<Rightarrow> do {
          (sec, bs) \<leftarrow> read_int T_int64 bs; (nsec, bs) \<leftarrow> read_int T_int32 bs;
          Some (Set_timestamp col row sec nsec i, bs) }
      | type_Table \<Rightarrow> Some (Set_table col row i, bs)
      | type_Mixed \<Rightarrow> do { (v, bs) \<leftarrow> read_mixed bs; Some (Set_mixed col row v i, bs) }
      | type_Link \<Rightarrow> do {
          (v, bs) \<leftarrow> read_size bs; (target, bs) \<leftarrow> read_size bs;
          Some (Set_link col row (nat ((int v - 1) mod 2 ^ 64)) target i, bs) }
      | type_LinkList \<Rightarrow> None)"

definition read_set :: "instruction \<Rightarrow> bytes \<Rightarrow> (call \<times> bytes) option" where
  "read_set i bs = do {
     (type, bs) \<leftarrow> read_int T_int bs;
     (col, bs) \<leftarrow> read_size bs;
     (row, bs) \<leftarrow> read_size bs;
     (prior, bs) \<leftarrow> (if i = instr_SetUnique then read_size bs else Some (0, bs));
     if type = -1 then Some (Set_null col row i prior, bs)
     else case data_type_of type of
            None \<Rightarrow> None
          | Some ty \<Rightarrow> read_set_value ty col row i prior bs }"

definition read_insert_column :: "instruction \<Rightarrow> bytes \<Rightarrow> (call \<times> bytes) option" where
  "read_insert_column i bs = do {
     (col, bs) \<leftarrow> read_size bs;
     (type, bs) \<leftarrow> read_int T_int bs;
     case data_type_of type of
       None \<Rightarrow> None
     | Some ty \<Rightarrow>
         if ty = type_Link \<or> ty = type_LinkList then None
         else do {
           (name, bs) \<leftarrow> read_string bs;
           let nullable = (i = instr_InsertNullableColumn);
           if nullable \<and> ty = type_Mixed then None
           else Some (Insert_column col ty name nullable, bs) } }"

definition read_insert_link_column :: "bytes \<Rightarrow> (call \<times> bytes) option" where
  "read_insert_link_column bs = do {
     (col, bs) \<leftarrow> read_size bs;
     (type, bs) \<leftarrow> read_int T_int bs;
     case data_type_of type of
       None \<Rightarrow> None
     | Some ty \<Rightarrow>
         if ty \<noteq> type_Link \<and> ty \<noteq> type_LinkList then None
         else do {
           (target, bs) \<leftarrow> read_size bs;
           (backlink, bs) \<leftarrow> read_size bs;
           (name, bs) \<leftarrow> read_string bs;
           Some (Insert_link_column col ty name target backlink, bs) } }"

definition read_select_table :: "bytes \<Rightarrow> (call \<times> bytes) option" where
  "read_select_table bs = do {
     (levels, bs) \<leftarrow> read_int T_int bs;
     if levels < 0 \<or> levels > max_levels then None
     else do {
       (t, bs) \<leftarrow> read_size bs;
       (path, bs) \<leftarrow> read_pairs (nat levels) bs;
       Some (Select_table t path, bs) } }"

definition read_select_descriptor :: "bytes \<Rightarrow> (call \<times> bytes) option" where
  "read_select_descriptor bs = do {
     (levels, bs) \<leftarrow> read_int T_int bs;
     if levels < 0 \<or> levels > max_levels then None
     else do {
       (path, bs) \<leftarrow> read_sizes (nat levels) bs;
       Some (Select_descriptor path, bs) } }"

definition read_set_link_type :: "bytes \<Rightarrow> (call \<times> bytes) option" where
  "read_set_link_type bs = do {
     (col, bs) \<leftarrow> read_size bs;
     (type, bs) \<leftarrow> read_int T_int bs;
     case link_type_of type of
       None \<Rightarrow> None
     | Some lt \<Rightarrow> Some (Set_link_type col lt, bs) }"

text \<open>The instructions that make exactly one call, in two parts.\<close>

definition read_other_call :: "instruction \<Rightarrow> bytes \<Rightarrow> (call \<times> bytes) option" where
  "read_other_call i bs =
     (case i of
        instr_LinkListNullify \<Rightarrow> do {
          (i, bs) \<leftarrow> read_size bs; (prior, bs) \<leftarrow> read_size bs; Some (Link_list_nullify i prior, bs) }
      | instr_LinkListClear \<Rightarrow> do { (n, bs) \<leftarrow> read_size bs; Some (Link_list_clear n, bs) }
      | instr_SelectLinkList \<Rightarrow> do {
          (col, bs) \<leftarrow> read_size bs; (row, bs) \<leftarrow> read_size bs; (target, bs) \<leftarrow> read_size bs;
          Some (Select_link_list col row target, bs) }
      | instr_MoveColumn \<Rightarrow> None
      | instr_AddSearchIndex \<Rightarrow> do { (col, bs) \<leftarrow> read_size bs; Some (Add_search_index col, bs) }
      | instr_RemoveSearchIndex \<Rightarrow> do { (col, bs) \<leftarrow> read_size bs; Some (Remove_search_index col, bs) }
      | instr_SetLinkType \<Rightarrow> read_set_link_type bs
      | instr_InsertColumn \<Rightarrow> read_insert_column i bs
      | instr_InsertNullableColumn \<Rightarrow> read_insert_column i bs
      | instr_InsertLinkColumn \<Rightarrow> read_insert_link_column bs
      | instr_EraseColumn \<Rightarrow> do { (col, bs) \<leftarrow> read_size bs; Some (Erase_column col, bs) }
      | instr_EraseLinkColumn \<Rightarrow> do {
          (col, bs) \<leftarrow> read_size bs; (target, bs) \<leftarrow> read_size bs; (backlink, bs) \<leftarrow> read_size bs;
          Some (Erase_link_column col target backlink, bs) }
      | instr_RenameColumn \<Rightarrow> do {
          (col, bs) \<leftarrow> read_size bs; (name, bs) \<leftarrow> read_string bs; Some (Rename_column col name, bs) }
      | instr_SelectDescriptor \<Rightarrow> read_select_descriptor bs
      | instr_InsertGroupLevelTable \<Rightarrow> do {
          (t, bs) \<leftarrow> read_size bs; (n, bs) \<leftarrow> read_size bs; (name, bs) \<leftarrow> read_string bs;
          Some (Insert_group_level_table t n name, bs) }
      | instr_EraseGroupLevelTable \<Rightarrow> do {
          (t, bs) \<leftarrow> read_size bs; (n, bs) \<leftarrow> read_size bs; Some (Erase_group_level_table t n, bs) }
      | instr_RenameGroupLevelTable \<Rightarrow> do {
          (t, bs) \<leftarrow> read_size bs; (name, bs) \<leftarrow> read_string bs;
          Some (Rename_group_level_table t name, bs) }
      | instr_MoveGroupLevelTable \<Rightarrow> None
      | instr_OptimizeTable \<Rightarrow> Some (Optimize_table, bs)
      | _ \<Rightarrow> None)"

definition read_call :: "instruction \<Rightarrow> bytes \<Rightarrow> (call \<times> bytes) option" where
  "read_call i bs =
     (case i of
        instr_SetDefault \<Rightarrow> read_set i bs
      | instr_SetUnique \<Rightarrow> read_set i bs
      | instr_Set \<Rightarrow> read_set i bs
      | instr_AddInteger \<Rightarrow> do {
          (col, bs) \<leftarrow> read_size bs; (row, bs) \<leftarrow> read_size bs; (v, bs) \<leftarrow> read_int T_int64 bs;
          Some (Add_int col row v, bs) }
      | instr_NullifyLink \<Rightarrow> do {
          (col, bs) \<leftarrow> read_size bs; (row, bs) \<leftarrow> read_size bs; (target, bs) \<leftarrow> read_size bs;
          Some (Nullify_link col row target, bs) }
      | instr_InsertSubstring \<Rightarrow> do {
          (col, bs) \<leftarrow> read_size bs; (row, bs) \<leftarrow> read_size bs; (p, bs) \<leftarrow> read_size bs;
          (s, bs) \<leftarrow> read_string bs;
          Some (Insert_substring col row p s, bs) }
      | instr_EraseFromString \<Rightarrow> do {
          (col, bs) \<leftarrow> read_size bs; (row, bs) \<leftarrow> read_size bs; (p, bs) \<leftarrow> read_size bs;
          (n, bs) \<leftarrow> read_size bs;
          Some (Erase_substring col row p n, bs) }
      | instr_InsertEmptyRows \<Rightarrow> do {
          (row, bs) \<leftarrow> read_size bs; (n, bs) \<leftarrow> read_size bs; (prior, bs) \<leftarrow> read_size bs;
          (unordered, bs) \<leftarrow> read_bool bs;
          Some (Insert_empty_rows row n prior unordered, bs) }
      | instr_AddRowWithKey \<Rightarrow> do {
          (row, bs) \<leftarrow> read_size bs; (prior, bs) \<leftarrow> read_size bs; (key_col, bs) \<leftarrow> read_size bs;
          (key, bs) \<leftarrow> read_int T_int64 bs;
          Some (Add_row_with_key row prior key_col key, bs) }
      | instr_EraseRows \<Rightarrow> do {
          (row, bs) \<leftarrow> read_size bs; (n, bs) \<leftarrow> read_size bs; (prior, bs) \<leftarrow> read_size bs;
          (unordered, bs) \<leftarrow> read_bool bs;
          Some (Erase_rows row n prior unordered, bs) }
      | instr_SwapRows \<Rightarrow> do {
          (a, bs) \<leftarrow> read_size bs; (b, bs) \<leftarrow> read_size bs; Some (Swap_rows a b, bs) }
      | instr_MoveRow \<Rightarrow> do {
          (a, bs) \<leftarrow> read_size bs; (b, bs) \<leftarrow> read_size bs; Some (Move_row a b, bs) }
      | instr_MergeRows \<Rightarrow> do {
          (a, bs) \<leftarrow> read_size bs; (b, bs) \<leftarrow> read_size bs; Some (Merge_rows a b, bs) }
      | instr_SelectTable \<Rightarrow> read_select_table bs
      | instr_ClearTable \<Rightarrow> do { (n, bs) \<leftarrow> read_size bs; Some (Clear_table n, bs) }
      | instr_LinkListSet \<Rightarrow> do {
          (i, bs) \<leftarrow> read_size bs; (v, bs) \<leftarrow> read_size bs; (prior, bs) \<leftarrow> read_size bs;
          Some (Link_list_set i v prior, bs) }
      | instr_LinkListSetAll \<Rightarrow> None
      | instr_LinkListInsert \<Rightarrow> do {
          (i, bs) \<leftarrow> read_size bs; (v, bs) \<leftarrow> read_size bs; (prior, bs) \<leftarrow> read_size bs;
          Some (Link_list_insert i v prior, bs) }
      | instr_LinkListMove \<Rightarrow> do {
          (a, bs) \<leftarrow> read_size bs; (b, bs) \<leftarrow> read_size bs; Some (Link_list_move a b, bs) }
      | instr_LinkListSwap \<Rightarrow> do {
          (a, bs) \<leftarrow> read_size bs; (b, bs) \<leftarrow> read_size bs; Some (Link_list_swap a b, bs) }
      | instr_LinkListErase \<Rightarrow> do {
          (i, bs) \<leftarrow> read_size bs; (prior, bs) \<leftarrow> read_size bs; Some (Link_list_erase i prior, bs) }
      | _ \<Rightarrow> read_other_call i bs)"

definition read_instr :: "bytes \<Rightarrow> (call list \<times> bytes) option" where
  "read_instr bs = do {
     (c, bs) \<leftarrow> read_char bs;
     case instr_of c of
       None \<Rightarrow> None
     | Some i \<Rightarrow>
         if i = instr_LinkListSetAll then do {
           (n, bs) \<leftarrow> read_size bs; read_link_list_set_all n 0 n bs }
         else do { (c, bs) \<leftarrow> read_call i bs; Some ([c], bs) } }"

definition parse_one :: "'s handler \<Rightarrow> 's \<Rightarrow> bytes \<Rightarrow> ('s \<times> bytes) option" where
  "parse_one h s bs = do {
     (cs, bs) \<leftarrow> read_instr bs;
     s \<leftarrow> run_calls h s cs;
     Some (s, bs) }"

section \<open>Readers consume the log\<close>

definition shrinks :: "bytes \<Rightarrow> ('a \<times> bytes) option \<Rightarrow> bool" where
  "shrinks bs m \<longleftrightarrow> (\<forall>v rest. m = Some (v, rest) \<longrightarrow> length rest \<le> length bs)"

named_theorems shrinks_rules "readers leave at most what they were given"

lemma shrinks_None [shrinks_rules]: "shrinks bs None"
  and shrinks_Some [shrinks_rules]: "shrinks bs (Some (v, bs))"
  by (simp_all add: shrinks_def)

lemma shrinks_if [shrinks_rules]:
  "\<lbrakk>c \<Longrightarrow> shrinks bs m; \<not> c \<Longrightarrow> shrinks bs n\<rbrakk> \<Longrightarrow> shrinks bs (if c then m else n)"
  by simp

lemma shrinks_option [shrinks_rules]:
  "\<lbrakk>m = None \<Longrightarrow> shrinks bs n; \<And>x. m = Some x \<Longrightarrow> shrinks bs (f x)\<rbrakk> \<Longrightarrow>
   shrinks bs (case m of None \<Rightarrow> n | Some x \<Rightarrow> f x)"
  by (cases m) simp_all

lemma shrinks_bind [shrinks_rules]:
  assumes "shrinks bs m" "\<And>v rest. shrinks rest (f v rest)"
  shows "shrinks bs (m \<bind> (\<lambda>(v, rest). f v rest))"
  using assms by (fastforce simp: shrinks_def Option.bind_eq_Some_conv)

lemma read_groups_length:
  "read_groups T i v bs = Some (part, w, rest) \<Longrightarrow> length rest < length bs"
  by (induction T i v bs rule: read_groups.induct)
    (auto simp: read_groups.simps split: if_splits option.splits)

lemma shrinks_read_int [shrinks_rules]: "shrinks bs (read_int T bs)"
  using read_groups_length
  by (fastforce simp: shrinks_def read_int_def less_imp_le split: option.splits if_splits)

lemma shrinks_read_bytes [shrinks_rules]: "shrinks bs (read_bytes n bs)"
  by (simp add: shrinks_def read_bytes_def)

lemma shrinks_readers [shrinks_rules]:
  "shrinks bs (read_size bs)" "shrinks bs (read_bool bs)" "shrinks bs (read_float bs)"
  "shrinks bs (read_double bs)"
  unfolding read_size_def read_bool_def read_float_def read_double_def
  by (intro shrinks_rules)+

lemma shrinks_read_data [shrinks_rules]:
  "shrinks bs (read_string bs)" "shrinks bs (read_binary bs)" "shrinks bs (read_timestamp bs)"
  unfolding read_string_def read_binary_def read_timestamp_def
  by (intro shrinks_rules)+

lemma shrinks_read_mixed [shrinks_rules]: "shrinks bs (read_mixed bs)"
  unfolding read_mixed_def
  apply (rule shrinks_bind, rule shrinks_read_int)
  apply (rule shrinks_option, rule shrinks_None)
  subgoal for v rest ty by (cases ty) (simp_all, (intro shrinks_rules)+)
  done

lemma shrinks_read_lists [shrinks_rules]:
  "shrinks bs (read_sizes n bs)" "shrinks bs (read_pairs n bs)"
  "shrinks bs (read_link_list_set_all num i n bs)"
proof -
  show "shrinks bs (read_sizes n bs)"
    by (induction n arbitrary: bs) (simp_all add: shrinks_rules)
  show "shrinks bs (read_pairs n bs)"
    by (induction n arbitrary: bs) (simp_all add: shrinks_rules)
  show "shrinks bs (read_link_list_set_all num i n bs)"
    by (induction n arbitrary: bs i) (simp_all add: shrinks_rules)
qed

lemma shrinks_read_set_value [shrinks_rules]: "shrinks bs (read_set_value ty col row i prior bs)"
  unfolding read_set_value_def by (cases ty) (simp_all, (intro shrinks_rules)+)

lemma shrinks_read_set [shrinks_rules]: "shrinks bs (read_set i bs)"
  unfolding read_set_def by (cases "i = instr_SetUnique") (simp_all, (intro shrinks_rules)+)

lemma shrinks_read_columns [shrinks_rules]:
  "shrinks bs (read_insert_column i bs)" "shrinks bs (read_insert_link_column bs)"
  "shrinks bs (read_select_table bs)" "shrinks bs (read_select_descriptor bs)"
  "shrinks bs (read_set_link_type bs)"
  unfolding read_insert_column_def read_insert_link_column_def read_select_table_def
    read_select_descriptor_def read_set_link_type_def Let_def
  by (intro shrinks_rules)+

lemma shrinks_read_call [shrinks_rules]: "shrinks bs (read_call i bs)"
  unfolding read_call_def read_other_call_def by (cases i) (simp_all, (intro shrinks_rules)+)

lemma read_instr_consumes:
  assumes "read_instr bs = Some (cs, rest)"
  shows "length rest < length bs"
proof (cases bs)
  case Nil
  then show ?thesis using assms by (simp add: read_instr_def read_char_def)
next
  case (Cons c bs')
  have "shrinks bs' (case instr_of c of None \<Rightarrow> None
    | Some i \<Rightarrow> if i = instr_LinkListSetAll
        then read_size bs' \<bind> (\<lambda>(n, bs). read_link_list_set_all n 0 n bs)
        else read_call i bs' \<bind> (\<lambda>(c, bs). Some ([c], bs)))"
    by (intro shrinks_rules)
  then show ?thesis using assms
    by (simp add: read_instr_def read_char_def Cons shrinks_def)
qed

section \<open>The whole log\<close>

text \<open>The calls that a log makes, and the parse with a handler.\<close>

lemma parse_one_consumes:
  "parse_one h s bs = Some (s', rest) \<Longrightarrow> length rest < length bs"
  using read_instr_consumes by (auto simp: parse_one_def Option.bind_eq_Some_conv)

function parse :: "'s handler \<Rightarrow> 's \<Rightarrow> bytes \<Rightarrow> 's option" where
  "parse h s bs =
     (if bs = [] then Some s
      else case parse_one h s bs of
             None \<Rightarrow> None
           | Some (s', rest) \<Rightarrow> parse h s' rest)"
  by auto
termination
  by (relation "measure (\<lambda>(h, s, bs). length bs)") (auto dest: parse_one_consumes)

declare parse.simps [simp del]

function read_log :: "bytes \<Rightarrow> call list option" where
  "read_log bs =
     (if bs = [] then Some []
      else case read_instr bs of
             None \<Rightarrow> None
           | Some (cs, rest) \<Rightarrow> map_option (\<lambda>ds. cs @ ds) (read_log rest))"
  by auto
termination
  by (relation "measure length") (auto dest: read_instr_consumes)

declare read_log.simps [simp del]

lemma parse_Nil [simp]: "parse h s [] = Some s"
  by (simp add: parse.simps)

lemma read_log_Nil [simp]: "read_log [] = Some []"
  by (simp add: read_log.simps)

text \<open>A parse is the run of the calls that the log decodes to.\<close>

lemma parse_run:
  "read_log bs = Some cs \<Longrightarrow> parse h s bs = run_calls h s cs"
proof (induction bs arbitrary: cs s rule: read_log.induct)
  case (1 bs)
  show ?case
  proof (cases "bs = []")
    case True
    then show ?thesis using 1(2) by simp
  next
    case False
    obtain c rest ds where r: "read_instr bs = Some (c, rest)" "read_log rest = Some ds" "cs = c @ ds"
      using 1(2) False by (subst (asm) read_log.simps) (auto split: option.splits)
    show ?thesis using False r 1(1) [OF False r(1)]
      by (subst parse.simps)
        (simp add: parse_one_def run_calls_append split: option.split)
  qed
qed

lemma parse_bad_log: "read_log bs = None \<Longrightarrow> parse h s bs = None"
proof (induction bs arbitrary: s rule: read_log.induct)
  case (1 bs)
  have ne: "bs \<noteq> []" using 1(2) by auto
  show ?case
  proof (cases "read_instr bs")
    case None
    then show ?thesis using ne by (subst parse.simps) (simp add: parse_one_def)
  next
    case (Some r)
    obtain c rest where r: "r = (c, rest)" by (cases r)
    have "read_log rest = None" using 1(2) ne Some r by (subst (asm) read_log.simps) simp
    then show ?thesis using ne Some r 1(1) [OF ne Some [unfolded r] refl]
      by (subst parse.simps) (cases "run_calls h s c"; simp add: parse_one_def)
  qed
qed

lemma parse_eq:
  "parse h s bs = (case read_log bs of None \<Rightarrow> None | Some cs \<Rightarrow> run_calls h s cs)"
  by (cases "read_log bs") (simp_all add: parse_run parse_bad_log)

lemma read_log_append:
  assumes "read_instr (b @ bs) = Some (cs, bs)" "b \<noteq> []"
  shows "read_log (b @ bs) = map_option (\<lambda>ds. cs @ ds) (read_log bs)"
  using assms by (subst read_log.simps) simp

section \<open>Blocks\<close>

text \<open>Reading from blocks is reading from the bytes they hold.\<close>

lemma has_next_unread: "has_next inp \<longleftrightarrow> unread inp \<noteq> []"
  by (cases inp; cases "snd inp") auto

lemma block_read_char_unread:
  "map_option (\<lambda>(c, inp). (c, unread inp)) (block_read_char inp) = read_char (unread inp)"
proof (induction inp rule: block_read_char.induct)
  case (2 bs)
  then show ?case by (cases bs) (auto simp: read_char_def split: list.splits)
qed (simp add: read_char_def)

lemma block_read_bytes_unread:
  "map_option (\<lambda>(d, inp). (d, unread inp)) (block_read_bytes n cur bs) =
   read_bytes n (unread (cur, bs))"
proof (induction n cur bs rule: block_read_bytes.induct)
  case (2 n cur b bs)
  show ?case
  proof (cases "n \<le> length cur \<or> b = []")
    case True
    then show ?thesis by (auto simp: read_bytes_def)
  next
    case False
    then show ?thesis using 2
      by (cases "block_read_bytes (n - length cur) b bs")
        (auto simp: read_bytes_def split: if_splits)
  qed
qed (simp add: read_bytes_def)

text \<open>The parse of an input stream, given as its blocks.\<close>

definition parse_stream :: "'s handler \<Rightarrow> 's \<Rightarrow> bytes list \<Rightarrow> 's option" where
  "parse_stream h s blocks = parse h s (unread ([], blocks))"

end
