(* ===== verification/LogRoundTrip.thy ===== *)
theory LogRoundTrip imports LogEncode LogParse begin

text \<open>
  What the parser makes of an encoded log.  \<open>call_ok\<close> collects what the encoder relies on: sizes
  and integers of their width, strings below the size limit, the instruction variants it asserts.
  \<open>delivered\<close> is the call that the handler receives for an encoded one; it differs where the
  encoder drops an argument (the old row count of a \<open>Set\<close> that is not unique), maps a null string
  to \<open>set_null\<close>, or ignores the variant (\<open>set_double\<close>).
\<close>

section \<open>Calls that can be encoded\<close>

definition size_ok :: "nat \<Rightarrow> bool" where
  "size_ok n \<longleftrightarrow> n < 2 ^ 64"

definition string_ok :: "bytes \<Rightarrow> bool" where
  "string_ok s \<longleftrightarrow> length s \<le> max_string_size"

primrec mixed_ok :: "mixed \<Rightarrow> bool" where
  "mixed_ok (Mixed_Int v) \<longleftrightarrow> in_range T_int64 v"
| "mixed_ok (Mixed_Bool b) \<longleftrightarrow> True"
| "mixed_ok (Mixed_Float bs) \<longleftrightarrow> length bs = 4"
| "mixed_ok (Mixed_Double bs) \<longleftrightarrow> length bs = 8"
| "mixed_ok (Mixed_OldDateTime v) \<longleftrightarrow> in_range T_int64 v"
| "mixed_ok (Mixed_Timestamp sec nsec) \<longleftrightarrow> in_range T_int64 sec \<and> in_range T_int32 nsec"
| "mixed_ok (Mixed_String s) \<longleftrightarrow> string_ok s"
| "mixed_ok (Mixed_Binary s) \<longleftrightarrow> size_ok (length s)"
| "mixed_ok Mixed_Table \<longleftrightarrow> True"

definition variant_ok :: "instruction \<Rightarrow> bool" where
  "variant_ok i \<longleftrightarrow> i = instr_Set \<or> i = instr_SetDefault"

definition unique_variant_ok :: "instruction \<Rightarrow> bool" where
  "unique_variant_ok i \<longleftrightarrow> variant_ok i \<or> i = instr_SetUnique"

definition link_data_type :: "data_type \<Rightarrow> bool" where
  "link_data_type t \<longleftrightarrow> t = type_Link \<or> t = type_LinkList"

primrec call_ok :: "call \<Rightarrow> bool" where
  "call_ok (Select_table t path) \<longleftrightarrow>
     size_ok t \<and> length path \<le> 1024 \<and> (\<forall>p\<in>set path. size_ok (fst p) \<and> size_ok (snd p))"
| "call_ok (Select_descriptor path) \<longleftrightarrow> length path \<le> 1024 \<and> (\<forall>c\<in>set path. size_ok c)"
| "call_ok (Select_link_list col row t) \<longleftrightarrow> size_ok col \<and> size_ok row \<and> size_ok t"
| "call_ok (Insert_group_level_table t n name) \<longleftrightarrow> size_ok t \<and> size_ok n \<and> string_ok name"
| "call_ok (Erase_group_level_table t n) \<longleftrightarrow> size_ok t \<and> size_ok n"
| "call_ok (Rename_group_level_table t name) \<longleftrightarrow> size_ok t \<and> string_ok name"
| "call_ok (Insert_empty_rows row n prior u) \<longleftrightarrow> size_ok row \<and> size_ok n \<and> size_ok prior"
| "call_ok (Add_row_with_key row prior col key) \<longleftrightarrow>
     size_ok row \<and> size_ok prior \<and> size_ok col \<and> in_range T_int64 key"
| "call_ok (Erase_rows row n prior u) \<longleftrightarrow> size_ok row \<and> size_ok n \<and> size_ok prior"
| "call_ok (Swap_rows a b) \<longleftrightarrow> size_ok a \<and> size_ok b"
| "call_ok (Move_row a b) \<longleftrightarrow> size_ok a \<and> size_ok b"
| "call_ok (Merge_rows a b) \<longleftrightarrow> size_ok a \<and> size_ok b"
| "call_ok (Clear_table n) \<longleftrightarrow> size_ok n"
| "call_ok (Set_int col row v i prior) \<longleftrightarrow>
     size_ok col \<and> size_ok row \<and> in_range T_int64 v \<and> unique_variant_ok i \<and> size_ok prior"
| "call_ok (Add_int col row v) \<longleftrightarrow> size_ok col \<and> size_ok row \<and> in_range T_int64 v"
| "call_ok (Set_bool col row b i) \<longleftrightarrow> size_ok col \<and> size_ok row \<and> variant_ok i"
| "call_ok (Set_float col row bs i) \<longleftrightarrow> size_ok col \<and> size_ok row \<and> length bs = 4 \<and> variant_ok i"
| "call_ok (Set_double col row bs i) \<longleftrightarrow> size_ok col \<and> size_ok row \<and> length bs = 8 \<and> variant_ok i"
| "call_ok (Set_string col row s i prior) \<longleftrightarrow>
     size_ok col \<and> size_ok row \<and> (\<forall>x\<in>set_option s. string_ok x) \<and> unique_variant_ok i \<and> size_ok prior"
| "call_ok (Set_binary col row s i) \<longleftrightarrow>
     size_ok col \<and> size_ok row \<and> (\<forall>x\<in>set_option s. size_ok (length x)) \<and> variant_ok i"
| "call_ok (Set_olddatetime col row v i) \<longleftrightarrow>
     size_ok col \<and> size_ok row \<and> in_range T_int64 v \<and> variant_ok i"
| "call_ok (Set_timestamp col row sec nsec i) \<longleftrightarrow>
     size_ok col \<and> size_ok row \<and> in_range T_int64 sec \<and> in_range T_int32 nsec \<and> variant_ok i"
| "call_ok (Set_table col row i) \<longleftrightarrow> size_ok col \<and> size_ok row \<and> variant_ok i"
| "call_ok (Set_mixed col row v i) \<longleftrightarrow> size_ok col \<and> size_ok row \<and> mixed_ok v \<and> variant_ok i"
| "call_ok (Set_link col row v t i) \<longleftrightarrow>
     size_ok col \<and> size_ok row \<and> size_ok v \<and> size_ok t \<and> variant_ok i"
| "call_ok (Set_null col row i prior) \<longleftrightarrow>
     size_ok col \<and> size_ok row \<and> unique_variant_ok i \<and> size_ok prior"
| "call_ok (Nullify_link col row t) \<longleftrightarrow> size_ok col \<and> size_ok row \<and> size_ok t"
| "call_ok (Insert_substring col row p s) \<longleftrightarrow> size_ok col \<and> size_ok row \<and> size_ok p \<and> string_ok s"
| "call_ok (Erase_substring col row p n) \<longleftrightarrow> size_ok col \<and> size_ok row \<and> size_ok p \<and> size_ok n"
| "call_ok Optimize_table \<longleftrightarrow> True"
| "call_ok (Insert_link_column col ty name t b) \<longleftrightarrow>
     size_ok col \<and> link_data_type ty \<and> string_ok name \<and> size_ok t \<and> size_ok b"
| "call_ok (Insert_column col ty name nullable) \<longleftrightarrow>
     size_ok col \<and> \<not> link_data_type ty \<and> string_ok name \<and> \<not> (nullable \<and> ty = type_Mixed)"
| "call_ok (Erase_link_column col t b) \<longleftrightarrow> size_ok col \<and> size_ok t \<and> size_ok b"
| "call_ok (Erase_column col) \<longleftrightarrow> size_ok col"
| "call_ok (Rename_column col name) \<longleftrightarrow> size_ok col \<and> string_ok name"
| "call_ok (Add_search_index col) \<longleftrightarrow> size_ok col"
| "call_ok (Remove_search_index col) \<longleftrightarrow> size_ok col"
| "call_ok (Set_link_type col lt) \<longleftrightarrow> size_ok col"
| "call_ok (Link_list_set i v prior) \<longleftrightarrow> size_ok i \<and> size_ok v \<and> size_ok prior"
| "call_ok (Link_list_insert i v prior) \<longleftrightarrow> size_ok i \<and> size_ok v \<and> size_ok prior"
| "call_ok (Link_list_move a b) \<longleftrightarrow> size_ok a \<and> size_ok b"
| "call_ok (Link_list_swap a b) \<longleftrightarrow> size_ok a \<and> size_ok b"
| "call_ok (Link_list_erase i prior) \<longleftrightarrow> size_ok i \<and> size_ok prior"
| "call_ok (Link_list_nullify i prior) \<longleftrightarrow> size_ok i \<and> size_ok prior"
| "call_ok (Link_list_clear n) \<longleftrightarrow> size_ok n"

definition prior_rows :: "instruction \<Rightarrow> nat \<Rightarrow> nat" where
  "prior_rows i prior = (if i = instr_SetUnique then prior else 0)"

fun delivered :: "call \<Rightarrow> call" where
  "delivered (Set_int col row v i prior) = Set_int col row v i (prior_rows i prior)"
| "delivered (Set_string col row None i prior) = Set_null col row i (prior_rows i prior)"
| "delivered (Set_string col row (Some s) i prior) = Set_string col row (Some s) i (prior_rows i prior)"
| "delivered (Set_binary col row None i) = Set_null col row i 0"
| "delivered (Set_double col row bs i) = Set_double col row bs instr_Set"
| "delivered (Set_null col row i prior) = Set_null col row i (prior_rows i prior)"
| "delivered c = c"

fun is_select :: "call \<Rightarrow> bool" where
  "is_select (Select_table _ _) = True"
| "is_select (Select_descriptor _) = True"
| "is_select (Select_link_list _ _ _) = True"
| "is_select _ = False"

text \<open>
  What is relied on of the \<open>select\<close> methods, which are compiled elsewhere: they write one
  instruction that the parser reads back.
\<close>

definition select_encoder :: "(call \<Rightarrow> bytes) \<Rightarrow> bool" where
  "select_encoder sel \<longleftrightarrow>
     (\<forall>c rest. is_select c \<longrightarrow> call_ok c \<longrightarrow>
        sel c \<noteq> [] \<and> read_instr (sel c @ rest) = Some ([c], rest))"

text \<open>An encoder of this kind, written in the format the parser reads.\<close>

primrec select_format :: "call \<Rightarrow> bytes" where
  "select_format (Select_table t path) =
     append_simple_instr ([F_instr instr_SelectTable, F_int T_int (int (length path)), F_size t] @
       concat (map (\<lambda>p. [F_size (fst p), F_size (snd p)]) path))"
| "select_format (Select_descriptor path) =
     append_simple_instr ([F_instr instr_SelectDescriptor, F_int T_int (int (length path))] @
       map F_size path)"
| "select_format (Select_link_list col row t) =
     append_simple_instr [F_instr instr_SelectLinkList, F_size col, F_size row, F_size t]"

section \<open>Reading back one field\<close>

named_theorems log_fields "readers applied to encoded fields"

lemma size_in_range: "size_ok n \<Longrightarrow> in_range T_size (int n)"
  using of_nat_less_iff [of n "2 ^ 64", where 'a = int]
  by (simp add: size_ok_def in_range_def int_min_def int_max_def)

lemma types_ok [simp]: "type_ok T_size" "type_ok T_int64" "type_ok T_int" "type_ok T_char"
  by (simp_all add: type_ok_def)

lemma read_size_encode [log_fields]:
  "size_ok n \<Longrightarrow> read_size (encode_int T_size (int n) @ rest) = Some (n, rest)"
  by (simp add: read_size_def read_encode_int_in_range size_in_range)

lemma read_int_encode [log_fields]:
  "in_range T_int64 v \<Longrightarrow> read_int T_int64 (encode_int T_int64 v @ rest) = Some (v, rest)"
  "in_range T_int v \<Longrightarrow> read_int T_int (encode_int T_int v @ rest) = Some (v, rest)"
  by (simp_all add: read_encode_int_in_range)

lemma read_small_int:
  assumes "c < 64" "type_ok T" "6 \<le> digits T"
  shows "read_int T (c # rest) = Some (int c, rest)"
proof -
  have "(64::int) \<le> 2 ^ digits T" using pow_le [OF assms(3)] by simp
  moreover have "int c < 64" using assms(1) by simp
  ultimately have "int c < 2 ^ digits T" by linarith
  then have r: "read_groups T 0 0 (c # rest) = Some (c, int c, rest)"
    using read_last [of c c 0 0 T rest] assms(1) by simp
  have "c AND 64 = 0" using last_byte(4) [of c c] assms(1) by simp
  then show ?thesis by (simp add: read_int_def r)
qed

lemma data_type_code_less: "data_type_code t < 64"
  by (cases t) simp_all

lemma read_data_type [log_fields]:
  "read_int T_int (data_type_code t # rest) = Some (int (data_type_code t), rest)"
  by (rule read_small_int) (simp_all add: data_type_code_less type_ok_def)

lemma read_bool_encode [log_fields]:
  "read_bool (1 # rest) = Some (True, rest)" "read_bool (Suc 0 # rest) = Some (True, rest)"
  "read_bool (0 # rest) = Some (False, rest)"
  by (simp_all add: read_bool_def read_small_int)

lemma read_bool_if [log_fields]: "read_bool ((if b then 1 else 0) # rest) = Some (b, rest)"
  "read_bool ((if b then Suc 0 else 0) # rest) = Some (b, rest)"
  by (cases b; simp add: log_fields)+

lemma read_bytes_append [log_fields]: "n = length s \<Longrightarrow> read_bytes n (s @ rest) = Some (s, rest)"
  by (simp add: read_bytes_def)

lemma read_floats [log_fields]:
  "length s = 4 \<Longrightarrow> read_float (s @ rest) = Some (s, rest)"
  "length s = 8 \<Longrightarrow> read_double (s @ rest) = Some (s, rest)"
  by (simp_all add: read_float_def read_double_def log_fields)

lemma string_size_ok: "string_ok s \<Longrightarrow> size_ok (length s)"
  by (simp add: string_ok_def size_ok_def max_string_size_def)

lemma read_string_encode [log_fields]:
  "string_ok s \<Longrightarrow> read_string (encode_int T_size (int (length s)) @ s @ rest) = Some (s, rest)"
  by (simp add: read_string_def read_size_encode string_size_ok read_bytes_append)
    (simp add: string_ok_def)

lemma read_binary_encode [log_fields]:
  "size_ok (length s) \<Longrightarrow> read_binary (encode_int T_size (int (length s)) @ s @ rest) = Some (s, rest)"
  by (simp add: read_binary_def read_size_encode read_bytes_append)

lemma sentinel [log_fields]:
  "read_int T_int (encode_int T_int set_null_sentinel @ rest) = Some (-1, rest)"
  by (simp add: set_null_sentinel_def read_encode_int_in_range in_range_def int_min_def int_max_def)

lemma data_type_not_sentinel [simp]: "int (data_type_code t) \<noteq> -1"
  by simp

lemma link_type_in_range: "in_range T_int (int (link_type_code t))"
  by (cases t) (simp_all add: in_range_def int_min_def int_max_def)

lemma link_successor [simp]:
  assumes "size_ok v"
  shows "nat ((int ((1 + v) mod 2 ^ 64) - 1) mod 2 ^ 64) = v" "size_ok ((1 + v) mod 2 ^ 64)"
proof -
  have "(int ((1 + v) mod 2 ^ 64) - 1) mod 2 ^ 64 = (1 + int v - 1) mod 2 ^ 64"
    by (simp only: zmod_int of_nat_add of_nat_1 of_nat_power of_nat_numeral mod_diff_left_eq)
  also have "\<dots> = int v"
    using assms of_nat_less_iff [of v "2 ^ 64", where 'a = int] by (simp add: size_ok_def)
  finally show "nat ((int ((1 + v) mod 2 ^ 64) - 1) mod 2 ^ 64) = v" by simp
  show "size_ok ((1 + v) mod 2 ^ 64)" by (simp add: size_ok_def)
qed

lemma read_instr_code:
  "i \<noteq> instr_LinkListSetAll \<Longrightarrow>
   read_instr (instr_code i # bs) = (read_call i bs \<bind> (\<lambda>(c, rest). Some ([c], rest)))"
  by (simp add: read_instr_def read_char_def)

lemmas set_simps = append_simple_instr_def read_instr_code read_call_def read_other_call_def read_set_def read_set_value_def
  log_fields

section \<open>Reading back one instruction\<close>

lemma variant_cases: "variant_ok i \<Longrightarrow> i = instr_Set \<or> i = instr_SetDefault"
  by (simp add: variant_ok_def)

lemma unique_variant_cases:
  "unique_variant_ok i \<Longrightarrow> i = instr_Set \<or> i = instr_SetDefault \<or> i = instr_SetUnique"
  by (auto simp: unique_variant_ok_def variant_ok_def)

text \<open>The head of a \<open>Set\<close> instruction: type, column, row and, for the unique variant, row count.\<close>

lemma read_set_typed:
  assumes "size_ok col" "size_ok row" "variant_ok i"
  shows "read_instr (instr_code i # data_type_code ty # encode_int T_size (int col) @
      encode_int T_size (int row) @ bs) =
    (read_set_value ty col row i 0 bs \<bind> (\<lambda>(c, rest). Some ([c], rest)))"
  using assms variant_cases [OF assms(3)]
  by (elim disjE)
    (simp_all add: read_instr_code read_call_def read_other_call_def read_set_def log_fields del: instr_code.simps)

lemma read_set_unique:
  assumes "size_ok col" "size_ok row" "size_ok prior"
  shows "read_instr (instr_code instr_SetUnique # data_type_code ty # encode_int T_size (int col) @
      encode_int T_size (int row) @ encode_int T_size (int prior) @ bs) =
    (read_set_value ty col row instr_SetUnique prior bs \<bind> (\<lambda>(c, rest). Some ([c], rest)))"
  using assms by (simp add: read_instr_code read_call_def read_other_call_def read_set_def log_fields del: instr_code.simps)

lemma read_set_null_encode:
  assumes "size_ok col" "size_ok row" "size_ok prior" "unique_variant_ok i"
  shows "read_instr (encode_set_null col row i prior @ rest) =
    Some ([Set_null col row i (prior_rows i prior)], rest)"
  using unique_variant_cases [OF assms(4)] assms(1-3)
  by (elim disjE)
    (simp_all add: encode_set_null_def append_simple_instr_def read_instr_code read_call_def read_other_call_def read_set_def
      log_fields prior_rows_def del: instr_code.simps)

lemma read_mixed_encode:
  assumes "mixed_ok v" "size_ok col" "size_ok row" "variant_ok i"
  shows "read_instr (append_mixed_instr i v [F_type type_Mixed, F_size col, F_size row] @ rest) =
     Some ([Set_mixed col row v i], rest)"
  using assms
  by (cases v)
    (simp_all add: append_simple_instr_def read_set_typed read_set_value_def read_mixed_def
      read_timestamp_def log_fields del: instr_code.simps data_type_code.simps)

lemma read_set_string_encode:
  assumes "size_ok col" "size_ok row" "size_ok prior" "\<forall>x\<in>set_option s. string_ok x" "unique_variant_ok i"
  shows "read_instr (encode_call sel (Set_string col row s i prior) @ rest) =
    Some ([delivered (Set_string col row s i prior)], rest)"
proof (cases s)
  case None
  then show ?thesis using assms by (simp add: read_set_null_encode)
next
  case (Some x)
  show ?thesis
  proof (cases "i = instr_SetUnique")
    case True
    then show ?thesis using assms Some
      by (simp add: append_simple_instr_def read_set_unique read_set_value_def log_fields prior_rows_def
          del: instr_code.simps data_type_code.simps)
  next
    case False
    then have "variant_ok i" using assms(5) by (simp add: unique_variant_ok_def)
    then show ?thesis using assms Some False
      by (simp add: append_simple_instr_def read_set_typed read_set_value_def log_fields prior_rows_def
          del: instr_code.simps data_type_code.simps)
  qed
qed

lemma read_set_int_encode:
  assumes "size_ok col" "size_ok row" "size_ok prior" "in_range T_int64 v" "unique_variant_ok i"
  shows "read_instr (encode_call sel (Set_int col row v i prior) @ rest) =
    Some ([delivered (Set_int col row v i prior)], rest)"
proof (cases "i = instr_SetUnique")
  case True
  then show ?thesis using assms
    by (simp add: append_simple_instr_def read_set_unique read_set_value_def log_fields prior_rows_def
        del: instr_code.simps data_type_code.simps)
next
  case False
  then have "variant_ok i" using assms(5) by (simp add: unique_variant_ok_def)
  then show ?thesis using assms False
    by (simp add: append_simple_instr_def read_set_typed read_set_value_def log_fields prior_rows_def
        del: instr_code.simps data_type_code.simps)
qed

lemma read_set_link_encode:
  assumes "size_ok col" "size_ok row" "size_ok v" "size_ok t" "variant_ok i"
  shows "read_instr (encode_call sel (Set_link col row v t i) @ rest) =
    Some ([Set_link col row v t i], rest)"
proof -
  let ?w = "(1 + v) mod 2 ^ 64"
  have w: "size_ok ?w" "nat ((int ?w - 1) mod 2 ^ 64) = v" using assms(3) by (rule link_successor)+
  have "read_set_value type_Link col row i 0
      (encode_int T_size (int ?w) @ encode_int T_size (int t) @ rest) =
    Some (Set_link col row v t i, rest)"
    unfolding read_set_value_def
    by (simp only: data_type.case log_fields w assms bind.bind_lunit prod.case)
  then show ?thesis
    using read_set_typed [OF assms(1,2,5), of type_Link]
    by (simp add: append_simple_instr_def del: instr_code.simps data_type_code.simps)
qed

lemma read_set_null_arg_encode:
  assumes "size_ok col" "size_ok row" "\<forall>x\<in>set_option s. size_ok (length x)" "variant_ok i"
  shows "read_instr (encode_call sel (Set_binary col row s i) @ rest) =
    Some ([delivered (Set_binary col row s i)], rest)"
proof (cases s)
  case None
  have "size_ok 0" by (simp add: size_ok_def)
  then show ?thesis using assms None read_set_null_encode [of col row 0 i]
    by (simp add: unique_variant_ok_def prior_rows_def)
next
  case (Some x)
  then show ?thesis using assms
    by (simp add: append_simple_instr_def read_set_typed read_set_value_def log_fields
        del: instr_code.simps data_type_code.simps)
qed

lemma data_type_switch:
  "data_type_of (int (data_type_code t)) = Some t"
  by simp

theorem read_encode_call:
  assumes "call_ok c" "\<not> is_select c"
  shows "read_instr (encode_call sel c @ rest) = Some ([delivered c], rest)"
proof (cases c)
  case (Set_int col row v i prior)
  then show ?thesis using assms by (simp only: read_set_int_encode call_ok.simps)
next
  case (Set_string col row s i prior)
  have "size_ok col" "size_ok row" "size_ok prior" "\<forall>x\<in>set_option s. string_ok x" "unique_variant_ok i"
    using assms Set_string by simp_all
  then show ?thesis unfolding Set_string by (rule read_set_string_encode)
next
  case (Set_binary col row s i)
  have "size_ok col" "size_ok row" "\<forall>x\<in>set_option s. size_ok (length x)" "variant_ok i"
    using assms Set_binary by simp_all
  then show ?thesis unfolding Set_binary by (rule read_set_null_arg_encode)
next
  case (Set_link col row v t i)
  then show ?thesis using assms by (simp only: read_set_link_encode call_ok.simps delivered.simps)
next
  case (Set_null col row i prior)
  then show ?thesis using assms by (simp add: read_set_null_encode)
next
  case (Set_mixed col row v i)
  then show ?thesis using assms read_mixed_encode by simp
next
  case (Set_double col row bs i)
  then show ?thesis using assms read_set_typed [of col row instr_Set type_Double]
    by (simp add: append_simple_instr_def read_set_value_def log_fields variant_ok_def
        del: instr_code.simps data_type_code.simps)
next
  case (Insert_column col ty name nullable)
  then show ?thesis using assms
    by (cases nullable)
      (auto simp: append_simple_instr_def read_instr_code read_call_def read_other_call_def read_insert_column_def
        link_data_type_def log_fields simp del: instr_code.simps data_type_code.simps)
qed (use assms in \<open>simp_all add: append_simple_instr_def read_set_typed read_set_value_def
    read_instr_code read_call_def read_other_call_def log_fields read_insert_link_column_def read_set_link_type_def
    link_data_type_def link_type_in_range
    del: instr_code.simps data_type_code.simps link_type_code.simps\<close>)

section \<open>Reading back a log\<close>

text \<open>The instructions of a log: a call of the encoder, or a whole list of links at once.\<close>

datatype logged = Logged call | Logged_set_all "int list"

primrec encode_logged :: "(call \<Rightarrow> bytes) \<Rightarrow> logged \<Rightarrow> bytes" where
  "encode_logged sel (Logged c) = encode_call sel c"
| "encode_logged sel (Logged_set_all vs) = encode_link_list_set_all vs"

primrec logged_ok :: "logged \<Rightarrow> bool" where
  "logged_ok (Logged c) \<longleftrightarrow> call_ok c"
| "logged_ok (Logged_set_all vs) \<longleftrightarrow>
     size_ok (length vs) \<and> (\<forall>v\<in>set vs. 0 \<le> v \<and> v < 2 ^ 63)"

text \<open>The handler calls for one instruction.\<close>

definition set_all_calls :: "nat \<Rightarrow> nat \<Rightarrow> int list \<Rightarrow> call list" where
  "set_all_calls n i vs = map (\<lambda>(j, v). Link_list_set j (nat v) n) (zip [i..<i + length vs] vs)"

primrec delivered_calls :: "logged \<Rightarrow> call list" where
  "delivered_calls (Logged c) = [delivered c]"
| "delivered_calls (Logged_set_all vs) = set_all_calls (length vs) 0 vs"

lemma concat_int_chunks: "concat (int_chunks vs) = vs"
proof (induction vs rule: int_chunks.induct)
  case (1 vs)
  then show ?case by (subst int_chunks.simps) simp
qed

lemma encode_int_chunks:
  "concat (map encode_ints (int_chunks vs)) = concat (map (encode_int T_int64) vs)"
proof -
  have "concat (map encode_ints vss) = concat (map (encode_int T_int64) (concat vss))" for vss
    by (induction vss) (simp_all add: encode_ints_def)
  then show ?thesis by (simp add: concat_int_chunks)
qed

lemma read_size_of_int64:
  assumes "0 \<le> v" "v < 2 ^ 63"
  shows "read_size (encode_int T_int64 v @ rest) = Some (nat v, rest)"
  using read_encode_int_in_range [of T_int64 v T_size rest] assms
  by (simp add: read_size_def in_range_def int_min_def int_max_def)

lemma set_all_calls_simps [simp]:
  "set_all_calls n i [] = []"
  "set_all_calls n i (v # vs) = Link_list_set i (nat v) n # set_all_calls n (Suc i) vs"
  by (simp_all add: set_all_calls_def upt_conv_Cons del: upt_Suc)

lemma read_set_all_encode:
  assumes "\<forall>v\<in>set vs. 0 \<le> v \<and> v < 2 ^ 63"
  shows "read_link_list_set_all n i (length vs) (concat (map (encode_int T_int64) vs) @ rest) =
    Some (set_all_calls n i vs, rest)"
  using assms by (induction vs arbitrary: i) (simp_all add: read_size_of_int64)

lemma read_encode_logged:
  assumes "logged_ok l" "select_encoder sel"
  shows "read_instr (encode_logged sel l @ rest) = Some (delivered_calls l, rest)"
proof (cases l)
  case (Logged c)
  show ?thesis
  proof (cases "is_select c")
    case True
    then have "encode_call sel c = sel c" "delivered c = c" by (cases c; simp)+
    then show ?thesis using assms Logged True by (simp add: select_encoder_def)
  next
    case False
    then show ?thesis using assms Logged read_encode_call by simp
  qed
next
  case (Logged_set_all vs)
  then show ?thesis using assms(1)
    by (simp add: encode_link_list_set_all_def append_simple_instr_def read_instr_def read_char_def
        encode_int_chunks read_set_all_encode log_fields instr_of_code [of instr_LinkListSetAll, simplified])
qed

lemma append_simple_nonempty: "append_simple_instr (F_char c # fs) \<noteq> []"
  by (simp add: append_simple_instr_def)

lemma encode_set_null_nonempty: "encode_set_null col row i prior \<noteq> []"
  by (simp add: encode_set_null_def append_simple_nonempty)

lemma append_mixed_nonempty: "append_mixed_instr i v fs \<noteq> []"
  by (cases v) (simp_all add: append_simple_nonempty)

lemma encode_call_nonempty:
  assumes "call_ok c" "select_encoder sel"
  shows "encode_call sel c \<noteq> []"
  by (cases c) (use assms in \<open>auto simp: append_simple_nonempty encode_set_null_nonempty
    append_mixed_nonempty select_encoder_def split: option.split\<close>)

lemma encode_logged_nonempty:
  assumes "logged_ok l" "select_encoder sel"
  shows "encode_logged sel l \<noteq> []"
  using encode_call_nonempty assms
  by (cases l) (simp_all add: encode_link_list_set_all_def append_simple_nonempty)

theorem read_log_encode:
  assumes "\<forall>l\<in>set ls. logged_ok l" "select_encoder sel"
  shows "read_log (concat (map (encode_logged sel) ls)) = Some (concat (map delivered_calls ls))"
  using assms(1)
proof (induction ls)
  case (Cons l ls)
  then show ?case
    using read_log_append [OF read_encode_logged encode_logged_nonempty] assms(2) by simp
qed simp

text \<open>The encoder written in the parser's format is one of the kind that is relied on.\<close>

lemma read_pairs_encode:
  assumes "\<forall>p\<in>set ps. size_ok (fst p) \<and> size_ok (snd p)"
  shows "read_pairs (length ps)
      (concat (map encode_field (concat (map (\<lambda>p. [F_size (fst p), F_size (snd p)]) ps))) @ rest) =
    Some (ps, rest)"
  using assms by (induction ps) (simp_all add: log_fields)

lemma read_sizes_encode:
  assumes "\<forall>c\<in>set cs. size_ok c"
  shows "read_sizes (length cs) (concat (map encode_field (map F_size cs)) @ rest) = Some (cs, rest)"
  using assms by (induction cs) (simp_all add: log_fields)

lemma levels_in_range: "n \<le> 1024 \<Longrightarrow> in_range T_int (int n)"
  by (simp add: in_range_def int_min_def int_max_def)

lemma select_format_encoder: "select_encoder select_format"
  unfolding select_encoder_def
proof (intro allI impI conjI)
  fix c rest
  assume c: "is_select c" "call_ok c"
  show "select_format c \<noteq> []" by (cases c) (use c in \<open>simp_all add: append_simple_instr_def\<close>)
  show "read_instr (select_format c @ rest) = Some ([c], rest)"
  proof (cases c)
    case (Select_table t path)
    then show ?thesis using c read_pairs_encode [of path rest]
      by (simp add: append_simple_instr_def read_instr_code read_call_def read_other_call_def read_select_table_def
          log_fields levels_in_range max_levels_def del: instr_code.simps)
  next
    case (Select_descriptor path)
    then show ?thesis using c read_sizes_encode [of path rest]
      by (simp add: append_simple_instr_def read_instr_code read_call_def read_other_call_def read_select_descriptor_def
          log_fields levels_in_range max_levels_def del: instr_code.simps)
  next
    case (Select_link_list col row t)
    then show ?thesis using c
      by (simp add: append_simple_instr_def read_instr_code read_call_def read_other_call_def log_fields
          del: instr_code.simps)
  qed (use c in simp_all)
qed

section \<open>The reservation of buffer space\<close>

text \<open>
  \<open>append_simple_instr\<close> reserves \<open>max_field_size\<close> for each of its fields before it writes; an
  integer list reserves again for each of its chunks but the first.
\<close>

primrec field_ok :: "field \<Rightarrow> bool" where
  "field_ok (F_int T v) \<longleftrightarrow> in_range T v \<and> type_ok T"
| "field_ok (F_char c) \<longleftrightarrow> True"
| "field_ok (F_bool b) \<longleftrightarrow> True"
| "field_ok (F_float bs) \<longleftrightarrow> length bs \<le> 8"
| "field_ok (F_string s) \<longleftrightarrow> size_ok (length s)"
| "field_ok (F_ints vs) \<longleftrightarrow> (\<forall>v\<in>set vs. in_range T_int64 v)"

lemma encode_int_max:
  assumes "in_range T v" "type_ok T"
  shows "length (encode_int T v) \<le> max_enc_bytes_per_num"
proof -
  have "digits T \<le> 64" using assms(2) by (simp add: type_ok_def split: if_splits)
  then have "max_int_bytes (digits T) \<le> 10" by (simp add: max_int_bytes_def)
  then show ?thesis using encode_int_fits [OF assms] by (simp add: max_enc_bytes_per_num_def)
qed

lemma encode_ints_max:
  assumes "\<forall>v\<in>set vs. in_range T_int64 v" "length vs \<le> max_numbers_per_chunk"
  shows "length (encode_ints vs) \<le> max_enc_bytes_per_num * max_numbers_per_chunk"
proof -
  have "length (encode_ints vs) \<le> max_enc_bytes_per_num * length vs"
    using assms(1) by (induction vs) (auto simp: encode_ints_def dest: encode_int_max [of T_int64, simplified])
  also have "\<dots> \<le> max_enc_bytes_per_num * max_numbers_per_chunk" using assms(2) by (rule mult_le_mono2)
  finally show ?thesis .
qed

lemma int_chunks_short: "c \<in> set (int_chunks vs) \<Longrightarrow> length c \<le> max_numbers_per_chunk"
proof (induction vs rule: int_chunks.induct)
  case (1 vs)
  then show ?case by (subst (asm) (2) int_chunks.simps) (auto split: if_splits)
qed

lemma int_chunks_set: "c \<in> set (int_chunks vs) \<Longrightarrow> set c \<subseteq> set vs"
  using concat_int_chunks [of vs] by (metis UN_upper set_concat)

definition ints_last :: "field list \<Rightarrow> bool" where
  "ints_last fs \<longleftrightarrow> (\<forall>f\<in>set (butlast fs). \<forall>vs. f \<noteq> F_ints vs)"

lemma encode_field_max:
  "field_ok f \<Longrightarrow> (\<And>vs. f \<noteq> F_ints vs) \<Longrightarrow> length (encode_field f) \<le> max_field_size f"
  by (cases f) (auto simp: encode_int_max size_in_range, simp_all add: max_enc_bytes_per_num_def)

lemma encode_fields_max:
  assumes "\<forall>f\<in>set fs. field_ok f \<and> (\<forall>vs. f \<noteq> F_ints vs)"
  shows "length (concat (map encode_field fs)) \<le> sum_list (map max_field_size fs)"
  using assms
proof (induction fs)
  case (Cons f fs)
  then show ?case using encode_field_max [of f] by (simp add: add_mono)
qed simp

lemma int_chunks_nonempty: "int_chunks vs \<noteq> []"
  by (subst int_chunks.simps) simp

lemma reservations_write:
  "concat (map snd (reservations fs)) = append_simple_instr fs"
proof (cases fs rule: rev_cases)
  case (snoc gs f)
  have c: "encode_ints (hd cs) @ concat (map (snd \<circ> (\<lambda>c. (k, encode_ints c))) (tl cs)) =
      concat (map encode_ints cs)" if "cs \<noteq> []" for k :: nat and cs
    using that by (cases cs) (simp_all add: comp_def)
  show ?thesis using c [OF int_chunks_nonempty]
    by (cases f) (simp_all add: snoc reservations_def append_simple_instr_def)
qed (simp add: reservations_def append_simple_instr_def)

lemma reservations_fit:
  assumes "\<forall>f\<in>set fs. field_ok f" "ints_last fs" "(n, bs) \<in> set (reservations fs)"
  shows "length bs \<le> n"
proof (cases fs rule: rev_cases)
  case Nil
  then show ?thesis using assms(3) by (simp add: reservations_def append_simple_instr_def)
next
  case (snoc gs f)
  have gs: "\<forall>f\<in>set gs. field_ok f \<and> (\<forall>vs. f \<noteq> F_ints vs)"
    using assms(1,2) snoc by (simp add: ints_last_def)
  show ?thesis
  proof (cases "\<exists>vs. f = F_ints vs")
    case True
    then obtain vs where f: "f = F_ints vs" by blast
    have v: "\<forall>v\<in>set vs. in_range T_int64 v" using assms(1) snoc f by simp
    have chunk: "length (encode_ints c) \<le> max_enc_bytes_per_num * max_numbers_per_chunk"
      if "c \<in> set (int_chunks vs)" for c
      by (rule encode_ints_max) (use v int_chunks_set [OF that] int_chunks_short [OF that] in auto)
    have "(n, bs) = (sum_list (map max_field_size fs),
        concat (map encode_field gs) @ encode_ints (hd (int_chunks vs))) \<or>
      (\<exists>c\<in>set (tl (int_chunks vs)). (n, bs) = (max_enc_bytes_per_num * max_numbers_per_chunk, encode_ints c))"
      using assms(3) by (auto simp: reservations_def snoc f)
    then show ?thesis
    proof (elim disjE bexE)
      assume "(n, bs) = (sum_list (map max_field_size fs),
        concat (map encode_field gs) @ encode_ints (hd (int_chunks vs)))"
      then show ?thesis
        using encode_fields_max [OF gs] chunk [OF hd_in_set [OF int_chunks_nonempty]]
        by (simp add: snoc f add_mono)
    next
      fix c
      assume "c \<in> set (tl (int_chunks vs))"
        "(n, bs) = (max_enc_bytes_per_num * max_numbers_per_chunk, encode_ints c)"
      then show ?thesis using chunk list.set_sel(2) [OF int_chunks_nonempty] by auto
    qed
  next
    case False
    then have all: "\<forall>f\<in>set fs. field_ok f \<and> (\<forall>vs. f \<noteq> F_ints vs)"
      using gs assms(1) snoc by auto
    have "(n, bs) = (sum_list (map max_field_size fs), append_simple_instr fs)"
      using assms(3) False by (cases f) (auto simp: reservations_def snoc)
    then show ?thesis using encode_fields_max [OF all] by (simp add: append_simple_instr_def)
  qed
qed

end
