(* ===== verification/LogReverse.thy ===== *)
theory LogReverse imports LogEncode LogParse begin

text \<open>
  \<open>TransactReverser\<close> and \<open>ReversedNoCopyInputStream\<close>: a handler that writes, for each call, the
  instructions that undo it to a buffer, and remembers where each instruction starts and ends; the
  stream then presents the instructions in reverse order, one block each.  A \<open>select\<close>
  instruction is held back until the next one of its kind, so that in the reversed order it comes
  before the instructions that need it.  Sizes are computed as \<open>size_t\<close>.
\<close>

section \<open>The handler\<close>

type_synonym instr_range = "nat \<times> nat"

record reverser =
  rv_buffer :: bytes
  rv_instructions :: "instr_range list"
  rv_start :: nat
  rv_pending_ts :: instr_range
  rv_pending_ds :: instr_range
  rv_pending_lv :: instr_range

definition reverser_new :: reverser where
  "reverser_new =
     \<lparr>rv_buffer = [], rv_instructions = [], rv_start = 0,
      rv_pending_ts = (0, 0), rv_pending_ds = (0, 0), rv_pending_lv = (0, 0)\<rparr>"

definition get_inst :: "reverser \<Rightarrow> instr_range \<times> reverser" where
  "get_inst r = ((rv_start r, length (rv_buffer r)), r\<lparr>rv_start := length (rv_buffer r)\<rparr>)"

definition append_range :: "instr_range \<Rightarrow> reverser \<Rightarrow> reverser" where
  "append_range i r = r\<lparr>rv_instructions := rv_instructions r @ [i]\<rparr>"

definition append_instruction :: "reverser \<Rightarrow> reverser" where
  "append_instruction r = (let (i, r) = get_inst r in append_range i r)"

definition sync_linkview :: "reverser \<Rightarrow> reverser" where
  "sync_linkview r =
     (if fst (rv_pending_lv r) \<noteq> snd (rv_pending_lv r)
      then (append_range (rv_pending_lv r) r)\<lparr>rv_pending_lv := (0, 0)\<rparr> else r)"

definition sync_descriptor :: "reverser \<Rightarrow> reverser" where
  "sync_descriptor r =
     (let r = sync_linkview r in
      if fst (rv_pending_ds r) \<noteq> snd (rv_pending_ds r)
      then (append_range (rv_pending_ds r) r)\<lparr>rv_pending_ds := (0, 0)\<rparr> else r)"

definition sync_table :: "reverser \<Rightarrow> reverser" where
  "sync_table r =
     (let r = sync_descriptor r in
      if fst (rv_pending_ts r) \<noteq> snd (rv_pending_ts r)
      then (append_range (rv_pending_ts r) r)\<lparr>rv_pending_ts := (0, 0)\<rparr> else r)"

definition emit :: "(call \<Rightarrow> bytes) \<Rightarrow> call \<Rightarrow> reverser \<Rightarrow> reverser" where
  "emit sel c r = r\<lparr>rv_buffer := rv_buffer r @ encode_call sel c\<rparr>"

definition emit_instruction :: "(call \<Rightarrow> bytes) \<Rightarrow> call \<Rightarrow> reverser \<Rightarrow> reverser" where
  "emit_instruction sel c r = append_instruction (emit sel c r)"

definition size_add :: "nat \<Rightarrow> nat \<Rightarrow> nat" where
  "size_add a b = (a + b) mod 2 ^ 64"

definition size_sub :: "nat \<Rightarrow> nat \<Rightarrow> nat" where
  "size_sub a b = nat ((int a - int b) mod 2 ^ 64)"

text \<open>The loop of \<open>link_list_clear\<close>, from \<open>i\<close> down to 1.\<close>

fun reverse_link_list_clear :: "(call \<Rightarrow> bytes) \<Rightarrow> nat \<Rightarrow> nat \<Rightarrow> reverser \<Rightarrow> reverser" where
  "reverse_link_list_clear sel old_size 0 r = r"
| "reverse_link_list_clear sel old_size (Suc i) r =
     reverse_link_list_clear sel old_size i
       (emit_instruction sel (Link_list_insert i 0 (size_sub old_size (Suc i))) r)"

primrec reverse_call :: "(call \<Rightarrow> bytes) \<Rightarrow> reverser \<Rightarrow> call \<Rightarrow> reverser" where
  "reverse_call sel r (Select_table t path) =
     (let r = emit sel (Select_table t path) (sync_table r); (i, r) = get_inst r
      in r\<lparr>rv_pending_ts := i\<rparr>)"
| "reverse_call sel r (Select_descriptor path) =
     (let r = emit sel (Select_descriptor path) (sync_descriptor r); (i, r) = get_inst r
      in r\<lparr>rv_pending_ds := i\<rparr>)"
| "reverse_call sel r (Select_link_list col row t) =
     (let r = emit sel (Select_link_list col row t) (sync_linkview r); (i, r) = get_inst r
      in r\<lparr>rv_pending_lv := i\<rparr>)"
| "reverse_call sel r (Insert_group_level_table t n name) =
     emit_instruction sel (Erase_group_level_table t (size_add n 1)) (sync_table r)"
| "reverse_call sel r (Erase_group_level_table t n) =
     emit_instruction sel (Insert_group_level_table t (size_sub n 1) []) (sync_table r)"
| "reverse_call sel r (Rename_group_level_table t name) = sync_table r"
| "reverse_call sel r Optimize_table = r"
| "reverse_call sel r (Insert_empty_rows row n prior unordered) =
     emit_instruction sel (Erase_rows row n (size_add prior n) unordered) r"
| "reverse_call sel r (Add_row_with_key row prior key_col key) =
     emit_instruction sel (Erase_rows row 1 (size_add prior 1) True) r"
| "reverse_call sel r (Erase_rows row n prior unordered) =
     emit_instruction sel (Insert_empty_rows row n (size_sub prior n) unordered) r"
| "reverse_call sel r (Swap_rows a b) = emit_instruction sel (Swap_rows a b) r"
| "reverse_call sel r (Move_row a b) = emit_instruction sel (Move_row b a) r"
| "reverse_call sel r (Merge_rows a b) =
     emit_instruction sel (Merge_rows b b) (emit_instruction sel (Merge_rows a a) r)"
| "reverse_call sel r (Set_int col row v variant prior) =
     emit_instruction sel (Set_int col row v variant prior) r"
| "reverse_call sel r (Add_int col row v) = emit_instruction sel (Add_int col row (- v)) r"
| "reverse_call sel r (Set_bool col row v variant) = emit_instruction sel (Set_bool col row v variant) r"
| "reverse_call sel r (Set_float col row v variant) = emit_instruction sel (Set_float col row v variant) r"
| "reverse_call sel r (Set_double col row v variant) = emit_instruction sel (Set_double col row v variant) r"
| "reverse_call sel r (Set_string col row v variant prior) =
     emit_instruction sel (Set_string col row v variant prior) r"
| "reverse_call sel r (Set_binary col row v variant) = emit_instruction sel (Set_binary col row v variant) r"
| "reverse_call sel r (Set_olddatetime col row v variant) =
     emit_instruction sel (Set_olddatetime col row v variant) r"
| "reverse_call sel r (Set_timestamp col row sec nsec variant) =
     emit_instruction sel (Set_timestamp col row sec nsec variant) r"
| "reverse_call sel r (Set_table col row variant) = emit_instruction sel (Set_table col row variant) r"
| "reverse_call sel r (Set_mixed col row v variant) = emit_instruction sel (Set_mixed col row v variant) r"
| "reverse_call sel r (Set_null col row variant prior) =
     emit_instruction sel (Set_null col row variant prior) r"
| "reverse_call sel r (Set_link col row v target variant) =
     emit_instruction sel (Set_link col row v target variant) r"
| "reverse_call sel r (Insert_substring col row p s) = r"
| "reverse_call sel r (Erase_substring col row p n) = r"
| "reverse_call sel r (Clear_table old_size) =
     emit_instruction sel (Insert_empty_rows 0 old_size 0 False) r"
| "reverse_call sel r (Add_search_index col) = r"
| "reverse_call sel r (Remove_search_index col) = r"
| "reverse_call sel r (Set_link_type col lt) = r"
| "reverse_call sel r (Insert_link_column col ty name target backlink) =
     emit_instruction sel (Erase_link_column col target backlink) r"
| "reverse_call sel r (Erase_link_column col target backlink) =
     emit_instruction sel (Insert_link_column col type_Link [] target backlink) r"
| "reverse_call sel r (Insert_column col ty name nullable) = emit_instruction sel (Erase_column col) r"
| "reverse_call sel r (Erase_column col) =
     emit_instruction sel (Insert_column col type_Int [] False) r"
| "reverse_call sel r (Rename_column col name) = r"
| "reverse_call sel r (Link_list_set row v prior) = emit_instruction sel (Link_list_set row v prior) r"
| "reverse_call sel r (Link_list_insert i v prior) =
     emit_instruction sel (Link_list_erase i (size_add prior 1)) r"
| "reverse_call sel r (Link_list_move a b) = emit_instruction sel (Link_list_move a b) r"
| "reverse_call sel r (Link_list_swap a b) = emit_instruction sel (Link_list_swap a b) r"
| "reverse_call sel r (Link_list_erase i prior) =
     emit_instruction sel (Link_list_insert i 0 (size_sub prior 1)) r"
| "reverse_call sel r (Link_list_clear old_size) = reverse_link_list_clear sel old_size old_size r"
| "reverse_call sel r (Nullify_link col row target) =
     emit_instruction sel (Set_link col row 0 target instr_Set) r"
| "reverse_call sel r (Link_list_nullify i prior) =
     emit_instruction sel (Link_list_insert i 0 (size_sub prior 1)) r"

definition reverser_handler :: "(call \<Rightarrow> bytes) \<Rightarrow> reverser handler" where
  "reverser_handler sel r c = Some (reverse_call sel r c)"

section \<open>The reversed stream\<close>

definition buffer_slice :: "bytes \<Rightarrow> instr_range \<Rightarrow> bytes" where
  "buffer_slice buf i = take (snd i - fst i) (drop (fst i) buf)"

definition reversed_blocks :: "reverser \<Rightarrow> bytes list" where
  "reversed_blocks r =
     (let r = sync_table r in map (buffer_slice (rv_buffer r)) (rev (rv_instructions r)))"

end
