(* ===== verification/LogReverseLaws.thy ===== *)
theory LogReverseLaws imports LogReverse LogRoundTrip begin

text \<open>
  The reverser against a specification on calls.  The abstract reverser keeps the inverse calls it
  has emitted and the pending \<open>select\<close> calls instead of bytes and positions; the stream then parses
  to the emitted calls, last first.  The specification is what the selection laws are proved on:
  in the reversed log each inverse call runs under the selection that its original ran under.
\<close>

section \<open>Specification\<close>

fun inverse_calls :: "call \<Rightarrow> call list" where
  "inverse_calls (Insert_group_level_table t n name) = [Erase_group_level_table t (size_add n 1)]"
| "inverse_calls (Erase_group_level_table t n) = [Insert_group_level_table t (size_sub n 1) []]"
| "inverse_calls (Insert_empty_rows row n prior u) = [Erase_rows row n (size_add prior n) u]"
| "inverse_calls (Add_row_with_key row prior col key) = [Erase_rows row 1 (size_add prior 1) True]"
| "inverse_calls (Erase_rows row n prior u) = [Insert_empty_rows row n (size_sub prior n) u]"
| "inverse_calls (Move_row a b) = [Move_row b a]"
| "inverse_calls (Merge_rows a b) = [Merge_rows a a, Merge_rows b b]"
| "inverse_calls (Add_int col row v) = [Add_int col row (- v)]"
| "inverse_calls (Clear_table n) = [Insert_empty_rows 0 n 0 False]"
| "inverse_calls (Insert_link_column col ty name t b) = [Erase_link_column col t b]"
| "inverse_calls (Erase_link_column col t b) = [Insert_link_column col type_Link [] t b]"
| "inverse_calls (Insert_column col ty name nullable) = [Erase_column col]"
| "inverse_calls (Erase_column col) = [Insert_column col type_Int [] False]"
| "inverse_calls (Link_list_insert i v prior) = [Link_list_erase i (size_add prior 1)]"
| "inverse_calls (Link_list_erase i prior) = [Link_list_insert i 0 (size_sub prior 1)]"
| "inverse_calls (Link_list_nullify i prior) = [Link_list_insert i 0 (size_sub prior 1)]"
| "inverse_calls (Link_list_clear n) =
     map (\<lambda>i. Link_list_insert i 0 (size_sub n (Suc i))) (rev [0..<n])"
| "inverse_calls (Nullify_link col row t) = [Set_link col row 0 t instr_Set]"
| "inverse_calls (Rename_group_level_table t name) = []"
| "inverse_calls Optimize_table = []"
| "inverse_calls (Insert_substring col row p s) = []"
| "inverse_calls (Erase_substring col row p n) = []"
| "inverse_calls (Add_search_index col) = []"
| "inverse_calls (Remove_search_index col) = []"
| "inverse_calls (Set_link_type col lt) = []"
| "inverse_calls (Rename_column col name) = []"
| "inverse_calls c = [c]"

text \<open>The calls that need no selection and change the numbering of the tables.\<close>

fun is_group_call :: "call \<Rightarrow> bool" where
  "is_group_call (Insert_group_level_table _ _ _) = True"
| "is_group_call (Erase_group_level_table _ _) = True"
| "is_group_call (Rename_group_level_table _ _) = True"
| "is_group_call _ = False"

record abs_reverser =
  ar_out :: "call list"
  ar_ts :: "call option"
  ar_ds :: "call option"
  ar_lv :: "call option"

definition opt_list :: "'a option \<Rightarrow> 'a list" where
  "opt_list x = (case x of None \<Rightarrow> [] | Some y \<Rightarrow> [y])"

lemma pending_list_simps [simp]: "opt_list None = []" "opt_list (Some x) = [x]"
  by (simp_all add: opt_list_def)

definition abs_new :: abs_reverser where
  "abs_new = \<lparr>ar_out = [], ar_ts = None, ar_ds = None, ar_lv = None\<rparr>"

definition abs_sync_linkview :: "abs_reverser \<Rightarrow> abs_reverser" where
  "abs_sync_linkview a = a\<lparr>ar_out := ar_out a @ opt_list (ar_lv a), ar_lv := None\<rparr>"

definition abs_sync_descriptor :: "abs_reverser \<Rightarrow> abs_reverser" where
  "abs_sync_descriptor a =
     (let a = abs_sync_linkview a in a\<lparr>ar_out := ar_out a @ opt_list (ar_ds a), ar_ds := None\<rparr>)"

definition abs_sync_table :: "abs_reverser \<Rightarrow> abs_reverser" where
  "abs_sync_table a =
     (let a = abs_sync_descriptor a in a\<lparr>ar_out := ar_out a @ opt_list (ar_ts a), ar_ts := None\<rparr>)"

definition abs_reverse :: "abs_reverser \<Rightarrow> call \<Rightarrow> abs_reverser" where
  "abs_reverse a c =
     (case c of
        Select_table _ _ \<Rightarrow> (abs_sync_table a)\<lparr>ar_ts := Some c\<rparr>
      | Select_descriptor _ \<Rightarrow> (abs_sync_descriptor a)\<lparr>ar_ds := Some c\<rparr>
      | Select_link_list _ _ _ \<Rightarrow> (abs_sync_linkview a)\<lparr>ar_lv := Some c\<rparr>
      | _ \<Rightarrow>
          (let a = (if is_group_call c then abs_sync_table a else a)
           in a\<lparr>ar_out := ar_out a @ inverse_calls c\<rparr>))"

definition reversed_calls :: "call list \<Rightarrow> call list" where
  "reversed_calls cs = rev (ar_out (abs_sync_table (foldl abs_reverse abs_new cs)))"

section \<open>Refinement\<close>

text \<open>
  The inverse calls can be encoded; negating the smallest 64 bit integer overflows, so it is
  excluded.
\<close>

definition reversible :: "call \<Rightarrow> bool" where
  "reversible c \<longleftrightarrow> call_ok c \<and> (\<forall>col row. c \<noteq> Add_int col row (- (2 ^ 63)))"

lemma size_arith_ok [simp]: "size_ok (size_add a b)" "size_ok (size_sub a b)"
  by (simp_all add: size_ok_def size_add_def size_sub_def nat_less_iff)

lemma size_small [simp]: "size_ok 0" "size_ok 1"
  by (simp_all add: size_ok_def)

lemma size_ok_less: "size_ok n \<Longrightarrow> i < n \<Longrightarrow> size_ok i"
  by (simp add: size_ok_def)

lemma inverse_calls_ok:
  assumes "reversible c" "d \<in> set (inverse_calls c)"
  shows "call_ok d"
proof (cases c)
  case (Add_int col row v)
  then have "v \<noteq> - (2 ^ 63)" "in_range T_int64 v" "size_ok col" "size_ok row"
    using assms(1) by (auto simp: reversible_def)
  then show ?thesis using assms(2) Add_int by (simp add: in_range_def int_min_def int_max_def)
next
  case (Link_list_clear n)
  then show ?thesis using assms by (auto simp: reversible_def intro: size_ok_less)
qed (use assms in \<open>auto simp: reversible_def variant_ok_def link_data_type_def string_ok_def
    simp flip: One_nat_def\<close>)

definition range_ok :: "reverser \<Rightarrow> instr_range \<Rightarrow> bool" where
  "range_ok r i \<longleftrightarrow> fst i \<le> snd i \<and> snd i \<le> length (rv_buffer r)"

text \<open>A range that holds a pending instruction, or the empty range.\<close>

definition pending_rel :: "(call \<Rightarrow> bytes) \<Rightarrow> reverser \<Rightarrow> instr_range \<Rightarrow> call option \<Rightarrow> bool" where
  "pending_rel sel r i c \<longleftrightarrow> range_ok r i \<and>
     (case c of None \<Rightarrow> fst i = snd i
      | Some d \<Rightarrow> call_ok d \<and> is_select d \<and> buffer_slice (rv_buffer r) i = encode_call sel d)"

definition reverser_rel :: "(call \<Rightarrow> bytes) \<Rightarrow> reverser \<Rightarrow> abs_reverser \<Rightarrow> bool" where
  "reverser_rel sel r a \<longleftrightarrow>
     rv_start r = length (rv_buffer r) \<and>
     (\<forall>i\<in>set (rv_instructions r). range_ok r i) \<and>
     (\<forall>c\<in>set (ar_out a). call_ok c) \<and>
     map (buffer_slice (rv_buffer r)) (rv_instructions r) = map (encode_call sel) (ar_out a) \<and>
     pending_rel sel r (rv_pending_ts r) (ar_ts a) \<and>
     pending_rel sel r (rv_pending_ds r) (ar_ds a) \<and>
     pending_rel sel r (rv_pending_lv r) (ar_lv a)"

lemma slice_append: "snd i \<le> length buf \<Longrightarrow> fst i \<le> snd i \<Longrightarrow> buffer_slice (buf @ x) i = buffer_slice buf i"
  by (simp add: buffer_slice_def)

lemma slice_end: "buffer_slice (buf @ x) (length buf, length buf + length x) = x"
  by (simp add: buffer_slice_def)

lemma pending_rel_buffer:
  assumes "pending_rel sel r i c" "rv_buffer r' = rv_buffer r @ x"
  shows "pending_rel sel r' i c"
  using assms by (auto simp: pending_rel_def range_ok_def slice_append split: option.splits)

lemma pending_nonempty:
  assumes "pending_rel sel r i (Some d)" "select_encoder sel"
  shows "fst i \<noteq> snd i"
proof -
  have "encode_call sel d \<noteq> []"
    using assms encode_call_nonempty by (simp add: pending_rel_def)
  then show ?thesis using assms(1) by (auto simp: pending_rel_def buffer_slice_def)
qed

lemma pending_cases:
  assumes "pending_rel sel r i c" "select_encoder sel"
  shows "(fst i \<noteq> snd i) = (c \<noteq> None)"
  using assms pending_nonempty by (cases c) (auto simp: pending_rel_def)

lemma pending_none [simp]: "pending_rel sel r (0, 0) None"
  by (simp add: pending_rel_def range_ok_def)

lemma pending_rel_same_buffer:
  "rv_buffer r' = rv_buffer r \<Longrightarrow> pending_rel sel r' i c = pending_rel sel r i c"
  by (simp only: pending_rel_def range_ok_def)

lemma abs_update_same:
  "ar_ts a = None \<Longrightarrow> a\<lparr>ar_ts := None\<rparr> = a" "ar_ds a = None \<Longrightarrow> a\<lparr>ar_ds := None\<rparr> = a"
  "ar_lv a = None \<Longrightarrow> a\<lparr>ar_lv := None\<rparr> = a"
  by (cases a; simp)+

lemma range_ok_same_buffer: "rv_buffer r' = rv_buffer r \<Longrightarrow> range_ok r' i = range_ok r i"
  by (simp add: range_ok_def)

lemma append_range_rel:
  assumes "reverser_rel sel r a" "pending_rel sel r i (Some d)"
  shows "reverser_rel sel (append_range i r) (a\<lparr>ar_out := ar_out a @ [d]\<rparr>)"
proof -
  have b: "rv_buffer (append_range i r) = rv_buffer r" by (simp add: append_range_def)
  show ?thesis
    using assms unfolding reverser_rel_def
    by (auto simp: pending_rel_same_buffer [OF b] range_ok_same_buffer [OF b])
      (auto simp: append_range_def pending_rel_def)
qed

lemma reset_pending_rel:
  assumes "reverser_rel sel r a"
  shows "reverser_rel sel (r\<lparr>rv_pending_lv := (0, 0)\<rparr>) (a\<lparr>ar_lv := None\<rparr>)"
    "reverser_rel sel (r\<lparr>rv_pending_ds := (0, 0)\<rparr>) (a\<lparr>ar_ds := None\<rparr>)"
    "reverser_rel sel (r\<lparr>rv_pending_ts := (0, 0)\<rparr>) (a\<lparr>ar_ts := None\<rparr>)"
  using assms unfolding reverser_rel_def
  by (simp_all add: range_ok_def pending_rel_same_buffer [of "r\<lparr>rv_pending_lv := (0, 0)\<rparr>" r]
      pending_rel_same_buffer [of "r\<lparr>rv_pending_ds := (0, 0)\<rparr>" r]
      pending_rel_same_buffer [of "r\<lparr>rv_pending_ts := (0, 0)\<rparr>" r])

lemma sync_linkview_rel:
  assumes "reverser_rel sel r a" "select_encoder sel"
  shows "reverser_rel sel (sync_linkview r) (abs_sync_linkview a)"
proof -
  have p: "pending_rel sel r (rv_pending_lv r) (ar_lv a)" using assms(1) by (simp add: reverser_rel_def)
  note e = pending_cases [OF p assms(2)]
  show ?thesis
  proof (cases "ar_lv a")
    case None
    then show ?thesis using e assms(1) by (simp add: sync_linkview_def abs_sync_linkview_def abs_update_same)
  next
    case (Some d)
    have "reverser_rel sel (append_range (rv_pending_lv r) r) (a\<lparr>ar_out := ar_out a @ [d]\<rparr>)"
      using assms(1) p Some by (intro append_range_rel) simp_all
    from reset_pending_rel(1) [OF this] show ?thesis using e Some
      by (simp add: sync_linkview_def abs_sync_linkview_def)
  qed
qed

lemma sync_descriptor_rel:
  assumes "reverser_rel sel r a" "select_encoder sel"
  shows "reverser_rel sel (sync_descriptor r) (abs_sync_descriptor a)"
proof -
  define r1 where "r1 = sync_linkview r"
  define a1 where "a1 = abs_sync_linkview a"
  have rel: "reverser_rel sel r1 a1" unfolding r1_def a1_def by (rule sync_linkview_rel [OF assms])
  then have p: "pending_rel sel r1 (rv_pending_ds r1) (ar_ds a1)" by (simp add: reverser_rel_def)
  note e = pending_cases [OF p assms(2)]
  show ?thesis
  proof (cases "ar_ds a1")
    case None
    then show ?thesis using e rel
      by (simp add: sync_descriptor_def abs_sync_descriptor_def r1_def [symmetric] a1_def [symmetric] abs_update_same)
  next
    case (Some d)
    have "reverser_rel sel (append_range (rv_pending_ds r1) r1) (a1\<lparr>ar_out := ar_out a1 @ [d]\<rparr>)"
      using rel p Some by (intro append_range_rel) simp_all
    from reset_pending_rel(2) [OF this] show ?thesis using e Some
      by (simp add: sync_descriptor_def abs_sync_descriptor_def r1_def [symmetric] a1_def [symmetric])
  qed
qed

lemma sync_table_rel:
  assumes "reverser_rel sel r a" "select_encoder sel"
  shows "reverser_rel sel (sync_table r) (abs_sync_table a)"
proof -
  define r1 where "r1 = sync_descriptor r"
  define a1 where "a1 = abs_sync_descriptor a"
  have rel: "reverser_rel sel r1 a1" unfolding r1_def a1_def by (rule sync_descriptor_rel [OF assms])
  then have p: "pending_rel sel r1 (rv_pending_ts r1) (ar_ts a1)" by (simp add: reverser_rel_def)
  note e = pending_cases [OF p assms(2)]
  show ?thesis
  proof (cases "ar_ts a1")
    case None
    then show ?thesis using e rel
      by (simp add: sync_table_def abs_sync_table_def r1_def [symmetric] a1_def [symmetric] abs_update_same)
  next
    case (Some d)
    have "reverser_rel sel (append_range (rv_pending_ts r1) r1) (a1\<lparr>ar_out := ar_out a1 @ [d]\<rparr>)"
      using rel p Some by (intro append_range_rel) simp_all
    from reset_pending_rel(3) [OF this] show ?thesis using e Some
      by (simp add: sync_table_def abs_sync_table_def r1_def [symmetric] a1_def [symmetric])
  qed
qed

text \<open>Emitting an instruction: its range is the part of the buffer that was added.\<close>

lemma emit_get_inst:
  assumes "reverser_rel sel r a"
  shows "get_inst (emit sel c r) =
    ((length (rv_buffer r), length (rv_buffer r) + length (encode_call sel c)),
     r\<lparr>rv_buffer := rv_buffer r @ encode_call sel c,
       rv_start := length (rv_buffer r) + length (encode_call sel c)\<rparr>)"
  using assms by (simp add: get_inst_def emit_def reverser_rel_def)

lemma emitted_rel:
  assumes "reverser_rel sel r a"
  shows "reverser_rel sel (r\<lparr>rv_buffer := rv_buffer r @ x, rv_start := length (rv_buffer r) + length x\<rparr>) a"
proof -
  let ?r = "r\<lparr>rv_buffer := rv_buffer r @ x, rv_start := length (rv_buffer r) + length x\<rparr>"
  have "pending_rel sel ?r i c" if "pending_rel sel r i c" for i c
    by (rule pending_rel_buffer [OF that]) simp
  moreover have "range_ok ?r i \<and> buffer_slice (rv_buffer ?r) i = buffer_slice (rv_buffer r) i" if "range_ok r i" for i
    using that by (auto simp: range_ok_def slice_append)
  moreover have "map (buffer_slice (rv_buffer ?r)) (rv_instructions r) =
      map (buffer_slice (rv_buffer r)) (rv_instructions r)"
    using calculation(2) assms unfolding reverser_rel_def by (intro map_cong refl) blast
  ultimately show ?thesis using assms unfolding reverser_rel_def by simp
qed

lemma emit_instruction_rel:
  assumes "reverser_rel sel r a" "call_ok c"
  shows "reverser_rel sel (emit_instruction sel c r) (a\<lparr>ar_out := ar_out a @ [c]\<rparr>)"
proof -
  let ?x = "encode_call sel c" and ?n = "length (rv_buffer r)"
  let ?r = "r\<lparr>rv_buffer := rv_buffer r @ ?x, rv_start := ?n + length ?x\<rparr>"
  have e: "emit_instruction sel c r = append_range (?n, ?n + length ?x) ?r"
    by (simp add: emit_instruction_def append_instruction_def emit_get_inst [OF assms(1)] case_prod_beta)
  have r: "reverser_rel sel ?r a" by (rule emitted_rel [OF assms(1)])
  have b: "rv_buffer (append_range i ?r) = rv_buffer ?r" for i by (simp add: append_range_def)
  have sl: "range_ok ?r (?n, ?n + length ?x)"
    "buffer_slice (rv_buffer ?r) (?n, ?n + length ?x) = encode_call sel c"
    by (simp_all add: range_ok_def slice_end)
  show ?thesis
    unfolding e reverser_rel_def pending_rel_same_buffer [OF b] range_ok_same_buffer [OF b] b
    using r assms(2) sl unfolding reverser_rel_def by (auto simp: append_range_def)
qed

lemma emit_clear_rel:
  assumes "reverser_rel sel r a" "n \<le> m" "size_ok m"
  shows "reverser_rel sel (reverse_link_list_clear sel m n r)
    (a\<lparr>ar_out := ar_out a @ map (\<lambda>i. Link_list_insert i 0 (size_sub m (Suc i))) (rev [0..<n])\<rparr>)"
  using assms
proof (induction n arbitrary: r a)
  case (Suc n)
  have "call_ok (Link_list_insert n 0 (size_sub m (Suc n)))"
    using Suc.prems size_ok_less [of m n] by simp
  note e = emit_instruction_rel [OF Suc.prems(1) this]
  show ?case using Suc.IH [OF e] Suc.prems by simp
qed simp

definition reversible_log :: "call list \<Rightarrow> bool" where
  "reversible_log cs \<longleftrightarrow> (\<forall>c\<in>set cs. reversible c)"

lemma abs_reverse_other:
  "\<not> is_select c \<Longrightarrow> \<not> is_group_call c \<Longrightarrow>
   abs_reverse a c = a\<lparr>ar_out := ar_out a @ inverse_calls c\<rparr>"
  by (cases c) (simp_all add: abs_reverse_def)

lemma pending_select_rel:
  assumes "reverser_rel sel r a" "call_ok c" "is_select c"
  defines "r' \<equiv> snd (get_inst (emit sel c r))" and "i \<equiv> fst (get_inst (emit sel c r))"
  shows "reverser_rel sel (r'\<lparr>rv_pending_ts := i\<rparr>) (a\<lparr>ar_ts := Some c\<rparr>)"
    "reverser_rel sel (r'\<lparr>rv_pending_ds := i\<rparr>) (a\<lparr>ar_ds := Some c\<rparr>)"
    "reverser_rel sel (r'\<lparr>rv_pending_lv := i\<rparr>) (a\<lparr>ar_lv := Some c\<rparr>)"
proof -
  let ?x = "encode_call sel c" and ?n = "length (rv_buffer r)"
  have r': "r' = r\<lparr>rv_buffer := rv_buffer r @ ?x, rv_start := ?n + length ?x\<rparr>"
    and i: "i = (?n, ?n + length ?x)"
    unfolding r'_def i_def emit_get_inst [OF assms(1)] by simp_all
  have rel: "reverser_rel sel r' a" unfolding r' by (rule emitted_rel [OF assms(1)])
  have p: "pending_rel sel r' i (Some c)"
    using assms(2,3) by (simp add: pending_rel_def range_ok_def r' i slice_end)
  show "reverser_rel sel (r'\<lparr>rv_pending_ts := i\<rparr>) (a\<lparr>ar_ts := Some c\<rparr>)"
    "reverser_rel sel (r'\<lparr>rv_pending_ds := i\<rparr>) (a\<lparr>ar_ds := Some c\<rparr>)"
    "reverser_rel sel (r'\<lparr>rv_pending_lv := i\<rparr>) (a\<lparr>ar_lv := Some c\<rparr>)"
    using rel p unfolding reverser_rel_def
    by (simp_all add: range_ok_def pending_rel_same_buffer [of "r'\<lparr>rv_pending_lv := i\<rparr>" r']
        pending_rel_same_buffer [of "r'\<lparr>rv_pending_ds := i\<rparr>" r']
        pending_rel_same_buffer [of "r'\<lparr>rv_pending_ts := i\<rparr>" r'])
qed

lemma emit_inverse_rel:
  assumes "reverser_rel sel r a" "reversible c"
    "\<And>n. c \<noteq> Link_list_clear n" "\<not> is_select c" "\<not> is_group_call c"
  shows "reverser_rel sel (reverse_call sel r c) (a\<lparr>ar_out := ar_out a @ inverse_calls c\<rparr>)"
proof -
  have e: "reverse_call sel r c = foldl (\<lambda>r d. emit_instruction sel d r) r (inverse_calls c)"
    by (cases c) (use assms(3-5) in simp_all)
  have "reverser_rel sel (foldl (\<lambda>r d. emit_instruction sel d r) r ds) (a\<lparr>ar_out := ar_out a @ ds\<rparr>)"
    if "\<forall>d\<in>set ds. call_ok d" for ds
    using that
  proof (induction ds rule: rev_induct)
    case Nil
    then show ?case using assms(1) by simp
  next
    case (snoc d ds)
    then have "reverser_rel sel (foldl (\<lambda>r d. emit_instruction sel d r) r ds) (a\<lparr>ar_out := ar_out a @ ds\<rparr>)"
      by simp
    from emit_instruction_rel [OF this, of d] show ?case using snoc.prems by simp
  qed
  then show ?thesis unfolding e using inverse_calls_ok [OF assms(2)] by blast
qed

lemma reverse_call_rel:
  assumes "reverser_rel sel r a" "reversible c" "select_encoder sel"
  shows "reverser_rel sel (reverse_call sel r c) (abs_reverse a c)"
proof -
  have ok: "call_ok c" using assms(2) by (simp add: reversible_def)
  note sync = sync_linkview_rel [OF assms(1,3)] sync_descriptor_rel [OF assms(1,3)]
    sync_table_rel [OF assms(1,3)]
  show ?thesis
  proof (cases "is_select c")
    case True
    then show ?thesis
      using pending_select_rel(1) [OF sync(3) ok True] pending_select_rel(2) [OF sync(2) ok True]
        pending_select_rel(3) [OF sync(1) ok True]
      by (cases c) (simp_all add: abs_reverse_def Let_def case_prod_beta)
  next
    case select: False
    show ?thesis
    proof (cases "is_group_call c")
      case True
      have "call_ok d" if "d \<in> set (inverse_calls c)" for d
        using inverse_calls_ok [OF assms(2)] that .
      then show ?thesis using True sync(3) emit_instruction_rel [OF sync(3)]
        by (cases c) (simp_all add: abs_reverse_def Let_def)
    next
      case False
      show ?thesis
      proof (cases "\<exists>n. c = Link_list_clear n")
        case True
        then obtain n where c: "c = Link_list_clear n" by blast
        have "size_ok n" using ok c by simp
        from emit_clear_rel [OF assms(1) le_refl this] show ?thesis
          by (simp add: c abs_reverse_def)
      next
        case clear: False
        then show ?thesis
          using emit_inverse_rel [OF assms(1,2) _ select False] abs_reverse_other [OF select False]
          by simp
      qed
    qed
  qed
qed

lemma reverser_new_rel: "reverser_rel sel reverser_new abs_new"
  by (simp add: reverser_rel_def reverser_new_def abs_new_def)

lemma reverse_calls_rel:
  assumes "reversible_log cs" "select_encoder sel"
  shows "reverser_rel sel (foldl (reverse_call sel) reverser_new cs) (foldl abs_reverse abs_new cs)"
  using assms(1)
proof (induction cs rule: rev_induct)
  case Nil
  then show ?case by (simp add: reverser_new_rel)
next
  case (snoc c cs)
  then show ?case
    using reverse_call_rel [of sel "foldl (reverse_call sel) reverser_new cs" "foldl abs_reverse abs_new cs" c]
      assms(2) by (simp add: reversible_log_def)
qed

lemma read_log_calls:
  assumes "\<forall>c\<in>set cs. call_ok c" "select_encoder sel"
  shows "read_log (concat (map (encode_call sel) cs)) = Some (map delivered cs)"
  using read_log_encode [of "map Logged cs" sel] assms by (simp add: comp_def)

theorem reversed_blocks_read:
  assumes "reversible_log cs" "select_encoder sel"
  shows "read_log (unread ([], reversed_blocks (foldl (reverse_call sel) reverser_new cs))) =
    Some (map delivered (reversed_calls cs))"
proof -
  let ?r = "sync_table (foldl (reverse_call sel) reverser_new cs)"
  let ?a = "abs_sync_table (foldl abs_reverse abs_new cs)"
  have rel: "reverser_rel sel ?r ?a" by (rule sync_table_rel [OF reverse_calls_rel [OF assms] assms(2)])
  then have ok: "\<forall>c\<in>set (ar_out ?a). call_ok c"
    and m: "map (buffer_slice (rv_buffer ?r)) (rv_instructions ?r) = map (encode_call sel) (ar_out ?a)"
    by (simp_all add: reverser_rel_def)
  have b: "reversed_blocks (foldl (reverse_call sel) reverser_new cs) =
      map (encode_call sel) (rev (ar_out ?a))"
    using m by (simp add: reversed_blocks_def Let_def flip: rev_map)
  have ne: "takeWhile (\<lambda>b. b \<noteq> []) (map (encode_call sel) (rev (ar_out ?a))) =
      map (encode_call sel) (rev (ar_out ?a))"
    using ok encode_call_nonempty [OF _ assms(2)] by (auto simp: takeWhile_eq_all_conv)
  show ?thesis unfolding b unread.simps ne reversed_calls_def append_Nil
    by (rule read_log_calls) (use ok assms(2) in simp_all)
qed

lemma run_reverser: "run_calls (reverser_handler sel) r cs = Some (foldl (reverse_call sel) r cs)"
  by (induction cs arbitrary: r) (simp_all add: reverser_handler_def)

end
