(* ===== verification/LogSelection.thy ===== *)
theory LogSelection imports LogReverseLaws begin

text \<open>
  Selections in the reversed log: every inverse call runs under the table, the descriptor and the
  link list that the call it undoes ran under.
\<close>

section \<open>Selections\<close>

text \<open>
  The selection a call runs under is what the last \<open>select\<close> calls before it have chosen.
  Selecting a table unselects the rest, selecting a descriptor unselects the link list, and the
  group level calls unselect everything, as in \<open>TransactLogConvenientEncoder\<close>.  A call needs a
  table, and a descriptor or a link list of it where the comments of \<open>NullInstructionObserver\<close> say
  so; \<open>set_link_type\<close> is taken to need the table only, which is all that its method in
  \<open>TransactLogConvenientEncoder\<close> selects.
\<close>

type_synonym selection = "call option \<times> call option \<times> call option"

fun select_step :: "selection \<Rightarrow> call \<Rightarrow> selection" where
  "select_step (t, d, l) c =
     (case c of
        Select_table _ _ \<Rightarrow> (Some c, None, None)
      | Select_descriptor _ \<Rightarrow> (t, Some c, None)
      | Select_link_list _ _ _ \<Rightarrow> (t, d, Some c)
      | _ \<Rightarrow> if is_group_call c then (None, None, None) else (t, d, l))"

fun is_descriptor_call :: "call \<Rightarrow> bool" where
  "is_descriptor_call (Insert_link_column _ _ _ _ _) = True"
| "is_descriptor_call (Insert_column _ _ _ _) = True"
| "is_descriptor_call (Erase_link_column _ _ _) = True"
| "is_descriptor_call (Erase_column _) = True"
| "is_descriptor_call (Rename_column _ _) = True"
| "is_descriptor_call (Add_search_index _) = True"
| "is_descriptor_call (Remove_search_index _) = True"
| "is_descriptor_call _ = False"

fun is_list_call :: "call \<Rightarrow> bool" where
  "is_list_call (Link_list_set _ _ _) = True"
| "is_list_call (Link_list_insert _ _ _) = True"
| "is_list_call (Link_list_move _ _) = True"
| "is_list_call (Link_list_swap _ _) = True"
| "is_list_call (Link_list_erase _ _) = True"
| "is_list_call (Link_list_nullify _ _) = True"
| "is_list_call (Link_list_clear _) = True"
| "is_list_call _ = False"

text \<open>The part of the selection that a call needs; \<open>None\<close> where something is missing.\<close>

definition needed :: "selection \<Rightarrow> call \<Rightarrow> call list option" where
  "needed s c =
     (case s of (t, d, l) \<Rightarrow>
        if is_group_call c then Some []
        else case t of
          None \<Rightarrow> None
        | Some t' \<Rightarrow>
            if is_descriptor_call c then map_option (\<lambda>d'. [t', d']) d
            else if is_list_call c then map_option (\<lambda>l'. [t', l']) l
            else Some [t'])"

fun with_selection :: "selection \<Rightarrow> call list \<Rightarrow> (call list option \<times> call) list" where
  "with_selection s [] = []"
| "with_selection s (c # cs) =
     (if is_select c then with_selection (select_step s c) cs
      else (needed s c, c) # with_selection (select_step s c) cs)"

text \<open>A log in which every call, and every selection within a table, has what it needs.\<close>

fun well_selected :: "selection \<Rightarrow> call list \<Rightarrow> bool" where
  "well_selected s [] \<longleftrightarrow> True"
| "well_selected s (c # cs) \<longleftrightarrow>
     (case c of Select_table _ _ \<Rightarrow> True | _ \<Rightarrow> needed s c \<noteq> None) \<and> well_selected (select_step s c) cs"

abbreviation no_selection :: selection where
  "no_selection \<equiv> (None, None, None)"

abbreviation selection_after :: "selection \<Rightarrow> call list \<Rightarrow> selection" where
  "selection_after s cs \<equiv> foldl select_step s cs"

text \<open>The inverses of the calls of a log with the selections of the calls, last call first.\<close>

definition undo_with_selection :: "(call list option \<times> call) list \<Rightarrow> (call list option \<times> call) list" where
  "undo_with_selection xs = rev (concat (map (\<lambda>(n, c). map (Pair n) (inverse_calls c)) xs))"

section \<open>Lemmas\<close>

lemma undo_simps [simp]:
  "undo_with_selection [] = []"
  "undo_with_selection (xs @ [(n, c)]) = map (Pair n) (rev (inverse_calls c)) @ undo_with_selection xs"
  by (simp_all add: undo_with_selection_def rev_map)

lemma with_selection_append:
  "with_selection s (xs @ ys) = with_selection s xs @ with_selection (selection_after s xs) ys"
  by (induction xs arbitrary: s) simp_all

lemma well_selected_append:
  "well_selected s (xs @ ys) \<longleftrightarrow> well_selected s xs \<and> well_selected (selection_after s xs) ys"
  by (induction xs arbitrary: s) simp_all

text \<open>An inverse call is of the same kind as its original.\<close>

lemma inverse_kind:
  assumes "d \<in> set (inverse_calls c)" "\<not> is_select c"
  shows "\<not> is_select d" "is_group_call d = is_group_call c"
    "is_descriptor_call d = is_descriptor_call c" "is_list_call d = is_list_call c"
  by (cases c; use assms in auto)+

lemma needed_inverse:
  assumes "d \<in> set (inverse_calls c)" "\<not> is_select c"
  shows "needed s d = needed s c"
  by (cases s) (simp only: needed_def prod.case inverse_kind [OF assms])

lemma select_step_other:
  "\<not> is_select c \<Longrightarrow> select_step s c = (if is_group_call c then no_selection else s)"
  by (cases s; cases c) simp_all

lemma with_selection_inverse:
  assumes "\<not> is_select c" "\<not> is_group_call c" "set ds \<subseteq> set (inverse_calls c)"
  shows "with_selection s (ds @ ys) = map (Pair (needed s c)) ds @ with_selection s ys"
  using assms(3)
proof (induction ds)
  case (Cons d ds)
  then have d: "d \<in> set (inverse_calls c)" by simp
  then show ?case
    using Cons inverse_kind [OF d assms(1)] needed_inverse [OF d assms(1)] assms(2)
    by (simp add: select_step_other)
qed simp

text \<open>
  What is kept of the abstract reverser: its pending calls are the selection, and the calls it has
  emitted, read backwards, run under the right selections, whatever is selected in place of what is
  not selected.
\<close>

definition reads_as :: "abs_reverser \<Rightarrow> (call list option \<times> call) list \<Rightarrow> bool" where
  "reads_as a xs \<longleftrightarrow>
     (\<forall>t d l. (ar_ts a \<noteq> None \<longrightarrow> t = ar_ts a) \<longrightarrow> (ar_ds a \<noteq> None \<longrightarrow> d = ar_ds a) \<longrightarrow>
        (ar_lv a \<noteq> None \<longrightarrow> l = ar_lv a) \<longrightarrow> with_selection (t, d, l) (rev (ar_out a)) = xs)"

fun is_select_table :: "call \<Rightarrow> bool" where
  "is_select_table (Select_table _ _) = True" | "is_select_table _ = False"

fun is_select_descriptor :: "call \<Rightarrow> bool" where
  "is_select_descriptor (Select_descriptor _) = True" | "is_select_descriptor _ = False"

fun is_select_link_list :: "call \<Rightarrow> bool" where
  "is_select_link_list (Select_link_list _ _ _) = True" | "is_select_link_list _ = False"

definition selection_inv :: "abs_reverser \<Rightarrow> selection \<Rightarrow> (call list option \<times> call) list \<Rightarrow> bool" where
  "selection_inv a s xs \<longleftrightarrow>
     s = (ar_ts a, ar_ds a, ar_lv a) \<and>
     (\<forall>c. ar_ts a = Some c \<longrightarrow> is_select_table c) \<and>
     (\<forall>c. ar_ds a = Some c \<longrightarrow> is_select_descriptor c) \<and>
     (\<forall>c. ar_lv a = Some c \<longrightarrow> is_select_link_list c) \<and>
     (ar_ts a = None \<longrightarrow> ar_ds a = None \<and> ar_lv a = None) \<and>
     reads_as a xs"

lemma select_kinds:
  "is_select_table c \<Longrightarrow> \<exists>t path. c = Select_table t path"
  "is_select_descriptor c \<Longrightarrow> \<exists>path. c = Select_descriptor path"
  "is_select_link_list c \<Longrightarrow> \<exists>col row t. c = Select_link_list col row t"
  by (cases c; simp)+

lemma selects:
  "is_select_table c \<Longrightarrow> with_selection (t, d, l) (c # cs) = with_selection (Some c, None, None) cs"
  "is_select_descriptor c \<Longrightarrow> with_selection (t, d, l) (c # cs) = with_selection (t, Some c, None) cs"
  "is_select_link_list c \<Longrightarrow> with_selection (t, d, l) (c # cs) = with_selection (t, d, Some c) cs"
  using select_kinds [of c] by auto

text \<open>After a sync the stream starts with the pending calls and reads as before.\<close>

lemma sync_linkview_reads:
  assumes "selection_inv a s xs"
  shows "(ar_ts a \<noteq> None \<longrightarrow> t = ar_ts a) \<Longrightarrow> (ar_ds a \<noteq> None \<longrightarrow> d = ar_ds a) \<Longrightarrow>
    with_selection (t, d, l) (rev (ar_out (abs_sync_linkview a))) = xs"
  using assms
  by (cases "ar_lv a")
    (auto simp: selection_inv_def reads_as_def abs_sync_linkview_def selects
      simp del: with_selection.simps(2))

lemma sync_descriptor_reads:
  assumes "selection_inv a s xs"
  shows "(ar_ts a \<noteq> None \<longrightarrow> t = ar_ts a) \<Longrightarrow>
    with_selection (t, d, l) (rev (ar_out (abs_sync_descriptor a))) = xs"
proof -
  assume t: "ar_ts a \<noteq> None \<longrightarrow> t = ar_ts a"
  have e: "rev (ar_out (abs_sync_descriptor a)) = opt_list (ar_ds a) @ rev (ar_out (abs_sync_linkview a))"
    by (cases "ar_ds a") (simp_all add: abs_sync_descriptor_def abs_sync_linkview_def Let_def)
  show ?thesis
    unfolding e using sync_linkview_reads [OF assms t] assms
    by (cases "ar_ds a") (auto simp: selection_inv_def selects simp del: with_selection.simps(2))
qed

lemma sync_table_reads:
  assumes "selection_inv a s xs"
  shows "with_selection s' (rev (ar_out (abs_sync_table a))) = xs"
proof -
  have e: "rev (ar_out (abs_sync_table a)) = opt_list (ar_ts a) @ rev (ar_out (abs_sync_descriptor a))"
    by (cases "ar_ts a")
      (simp_all add: abs_sync_table_def abs_sync_descriptor_def abs_sync_linkview_def Let_def)
  obtain t d l where s': "s' = (t, d, l)" by (cases s') auto
  show ?thesis
    unfolding e s' using sync_descriptor_reads [OF assms] assms
    by (cases "ar_ts a") (auto simp: selection_inv_def selects simp del: with_selection.simps(2))
qed

lemma abs_sync_pending:
  "ar_ts (abs_sync_linkview a) = ar_ts a" "ar_ds (abs_sync_linkview a) = ar_ds a"
  "ar_ts (abs_sync_descriptor a) = ar_ts a" "ar_lv (abs_sync_descriptor a) = None"
  "ar_ts (abs_sync_table a) = None" "ar_ds (abs_sync_table a) = None" "ar_lv (abs_sync_table a) = None"
  by (simp_all add: abs_sync_table_def abs_sync_descriptor_def abs_sync_linkview_def Let_def)

lemma selection_inv_step:
  assumes "selection_inv a s xs" "is_select_table c \<or> needed s c \<noteq> None"
  shows "selection_inv (abs_reverse a c) (select_step s c)
    (if is_select c then xs else map (Pair (needed s c)) (rev (inverse_calls c)) @ xs)"
proof -
  have s: "s = (ar_ts a, ar_ds a, ar_lv a)" using assms(1) by (simp add: selection_inv_def)
  consider "is_select_table c" | "is_select_descriptor c" | "is_select_link_list c"
    | "is_group_call c" "\<not> is_select c" | "\<not> is_group_call c" "\<not> is_select c"
    by (cases c) auto
  then show ?thesis
  proof cases
    case 1
    then show ?thesis
      using sync_table_reads [OF assms(1)]
      by (cases c) (simp_all add: s abs_reverse_def selection_inv_def reads_as_def abs_sync_pending)
  next
    case 2
    have "ar_ts a \<noteq> None" using 2 assms(2) by (cases c) (auto simp: needed_def s split: option.splits)
    then show ?thesis
      using 2 sync_descriptor_reads [OF assms(1)] assms(1)
      by (cases c) (auto simp: s abs_reverse_def selection_inv_def reads_as_def abs_sync_pending)
  next
    case 3
    have "ar_ts a \<noteq> None" using 3 assms(2) by (cases c) (auto simp: needed_def s split: option.splits)
    then show ?thesis
      using 3 sync_linkview_reads [OF assms(1)] assms(1)
      by (cases c) (auto simp: s abs_reverse_def selection_inv_def reads_as_def abs_sync_pending)
  next
    case 4
    have n: "needed s c = Some []" using 4 by (cases s) (simp add: needed_def)
    show ?thesis
      using 4 sync_table_reads [OF assms(1)] n
      by (cases c) (simp_all add: s abs_reverse_def selection_inv_def reads_as_def abs_sync_pending
          needed_def Let_def)
  next
    case 5
    have t: "ar_ts a \<noteq> None" and
      d: "is_descriptor_call c \<Longrightarrow> ar_ds a \<noteq> None" and l: "is_list_call c \<Longrightarrow> ar_lv a \<noteq> None"
      using 5 assms(2) by (cases c; auto simp: needed_def s split: option.splits if_splits)+
    have n: "needed (t', d', l') c = needed s c"
      if "t' = ar_ts a" "ar_ds a \<noteq> None \<longrightarrow> d' = ar_ds a" "ar_lv a \<noteq> None \<longrightarrow> l' = ar_lv a" for t' d' l'
      using that t d l 5 by (auto simp: needed_def s split: option.splits)
    have r: "with_selection (t', d', l') (rev (inverse_calls c) @ rev (ar_out a)) =
        map (Pair (needed s c)) (rev (inverse_calls c)) @ xs"
      if "t' = ar_ts a" "ar_ds a \<noteq> None \<longrightarrow> d' = ar_ds a" "ar_lv a \<noteq> None \<longrightarrow> l' = ar_lv a" for t' d' l'
      using with_selection_inverse [OF 5(2,1), of "rev (inverse_calls c)" "(t', d', l')"]
        n [OF that] that assms(1) by (simp add: selection_inv_def reads_as_def)
    show ?thesis
      using assms(1) 5 t r unfolding abs_reverse_other [OF 5(2,1)] select_step_other [OF 5(2)]
      by (auto simp: selection_inv_def reads_as_def)
  qed
qed

lemma selection_inv_log:
  assumes "well_selected no_selection cs"
  shows "selection_inv (foldl abs_reverse abs_new cs) (selection_after no_selection cs)
    (undo_with_selection (with_selection no_selection cs))"
  using assms
proof (induction cs rule: rev_induct)
  case Nil
  then show ?case by (simp add: selection_inv_def reads_as_def abs_new_def)
next
  case (snoc c cs)
  let ?s = "selection_after no_selection cs"
  have "is_select_table c \<or> needed ?s c \<noteq> None"
    using snoc.prems by (cases c) (simp_all add: well_selected_append)
  moreover have "selection_inv (foldl abs_reverse abs_new cs) ?s
      (undo_with_selection (with_selection no_selection cs))"
    using snoc by (simp add: well_selected_append)
  ultimately show ?case
    using selection_inv_step by (cases "is_select c") (fastforce simp: with_selection_append)+
qed

theorem reversed_selections:
  assumes "well_selected no_selection cs"
  shows "with_selection no_selection (reversed_calls cs) =
    undo_with_selection (with_selection no_selection cs)"
  using sync_table_reads [OF selection_inv_log [OF assms]] by (simp add: reversed_calls_def)

end
