(* ===== verification/LogTypes.thy ===== *)
theory LogTypes imports LogRoundTrip begin

text \<open>
  What a handler can rely on, whatever bytes the parser is given: every call it receives satisfies
  the conditions that the encoder states for its arguments, except that the parser accepts the
  unique variant of a \<open>Set\<close> for values of any type.
\<close>

section \<open>Integers\<close>

lemma read_groups_range:
  assumes "0 \<le> acc" "acc < 2 ^ (7 * i)" "i < max_int_bytes (digits T)"
    and "read_groups T i acc bs = Some (part, v, rest)"
  shows "0 \<le> v \<and> v < 2 ^ digits T"
  using assms
proof (induction T i acc bs rule: read_groups.induct)
  case (2 T i acc b bs)
  have i: "7 * i \<le> digits T" using max_int_bytes_bounds(2) [of "digits T"] 2(4) by linarith
  consider (last) "\<not> 255 < b" "b AND 128 = 0"
    | (more) "\<not> 255 < b" "b AND 128 \<noteq> 0" "i \<noteq> max_int_bytes (digits T) - 1"
    using 2(5) by (cases "255 < b"; cases "b AND 128 = 0"; cases "i = max_int_bytes (digits T) - 1")
      (auto simp: read_groups.simps)
  then show ?case
  proof cases
    case last
    define w where "w = b AND 63"
    have w: "w < 64" by (simp add: w_def and_mask_nat)
    have e: "even (b div 128)" and b: "b < 256" using last by (simp_all add: and_bit_nat)
    have "b div 128 < 2" using b by (simp add: less_mult_imp_div_less)
    then have "b div 128 = 0" using e by (cases "b div 128 = 1") simp_all
    then have "b < 128" by (simp add: div_eq_0_iff)
    then have "b = w \<or> b = 64 + w" by (auto simp: w_def and_mask_nat mod_if)
    from read_last [OF w this 2(2,3) i, of bs] 2(2,5) show ?thesis by (auto split: if_splits)
  next
    case more
    let ?acc = "acc OR push_bit (i * 7) (int (b AND 127))"
    define m where "m = b mod 128"
    have m: "m < 128" by (simp add: m_def)
    have acc: "?acc = acc + int m * 2 ^ (7 * i)"
      using or_add_int [OF 2(2,3), of "int (b AND 127)"] by (simp add: m_def and_mask_nat mult.commute [of i])
    have "(int m + 1) * 2 ^ (7 * i) \<le> 128 * (2::int) ^ (7 * i)" by (rule mult_right_mono) (use m in simp_all)
    then have "int m * 2 ^ (7 * i) + 2 ^ (7 * i) \<le> (2::int) ^ (7 * Suc i)" by (simp add: distrib_right power_add)
    then have "0 \<le> ?acc" "?acc < 2 ^ (7 * Suc i)" using 2(2,3) unfolding acc by (simp, linarith)
    then show ?thesis using 2(1) [OF more(1,2) more(3)] 2(4,5) more by (auto simp: read_groups.simps(2))
  qed
qed (simp add: read_groups.simps)

lemma read_int_range:
  assumes "read_int T bs = Some (v, rest)" "type_ok T" "0 < digits T"
  shows "in_range T v"
proof -
  obtain part w r where g: "read_groups T 0 0 bs = Some (part, w, r)"
    using assms(1) by (auto simp: read_int_def split: option.splits)
  have w: "0 \<le> w" "w < 2 ^ digits T"
    using read_groups_range [OF _ _ max_int_bytes_bounds(3) g] by simp_all
  have "in_range T (negate T w)"
    using w by (auto simp: negate_def in_range_def int_min_def int_max_def cast_to_unsigned_def)
  moreover have "in_range T_int 1" "type_ok T_int" by (simp_all add: in_range_def int_min_def int_max_def type_ok_def)
  ultimately have "safe_sub T T_int (negate T w) 1 = Some x \<Longrightarrow> in_range T x" for x
    using safe_sub_exact [of T T_int "negate T w" 1] assms(2) by (auto split: if_splits)
  then show ?thesis using assms(1) g w
    by (auto simp: read_int_def in_range_def int_min_def int_max_def split: if_splits option.splits)
qed

section \<open>Readers\<close>

definition returns :: "('a \<Rightarrow> bool) \<Rightarrow> ('a \<times> bytes) option \<Rightarrow> bool" where
  "returns P m \<longleftrightarrow> (\<forall>v rest. m = Some (v, rest) \<longrightarrow> P v)"

named_theorems returns_rules "what the readers return"

lemma returns_None [returns_rules]: "returns P None"
  and returns_Some [returns_rules]: "P v \<Longrightarrow> returns P (Some (v, bs))"
  by (simp_all add: returns_def)

lemma returns_if [returns_rules]:
  "\<lbrakk>c \<Longrightarrow> returns P m; \<not> c \<Longrightarrow> returns P n\<rbrakk> \<Longrightarrow> returns P (if c then m else n)"
  by simp

lemma returns_option [returns_rules]:
  "\<lbrakk>m = None \<Longrightarrow> returns P n; \<And>x. m = Some x \<Longrightarrow> returns P (f x)\<rbrakk> \<Longrightarrow>
   returns P (case m of None \<Rightarrow> n | Some x \<Rightarrow> f x)"
  by (cases m) simp_all

lemma returns_bind [returns_rules]:
  assumes "returns P m" "\<And>v rest. P v \<Longrightarrow> returns Q (f v rest)"
  shows "returns Q (m \<bind> (\<lambda>(v, rest). f v rest))"
  using assms by (fastforce simp: returns_def Option.bind_eq_Some_conv)

lemma returns_read_int [returns_rules]:
  "returns (in_range T_int) (read_int T_int bs)" "returns (in_range T_int64) (read_int T_int64 bs)"
  "returns (in_range T_char) (read_int T_char bs)" "returns (in_range T_size) (read_int T_size bs)"
  using read_int_range by (simp_all add: returns_def type_ok_def)

lemma returns_read_size [returns_rules]: "returns size_ok (read_size bs)"
  unfolding read_size_def
  by (rule returns_bind, rule returns_rules, rule returns_rules)
    (simp add: size_ok_def in_range_def int_max_def int_min_def nat_less_iff)

lemma returns_read_bool [returns_rules]: "returns (\<lambda>_. True) (read_bool bs)"
  by (simp add: returns_def)

lemma returns_read_bytes [returns_rules]: "returns (\<lambda>s. length s = n) (read_bytes n bs)"
  by (auto simp: returns_def read_bytes_def)

lemma returns_read_floats [returns_rules]:
  "returns (\<lambda>s. length s = 4) (read_float bs)" "returns (\<lambda>s. length s = 8) (read_double bs)"
  unfolding read_float_def read_double_def by (rule returns_rules)+

lemma returns_read_string [returns_rules]: "returns string_ok (read_string bs)"
  by (auto simp: returns_def read_string_def read_bytes_def string_ok_def Option.bind_eq_Some_conv split: if_splits)

lemma returns_read_binary [returns_rules]: "returns (\<lambda>s. size_ok (length s)) (read_binary bs)"
  using returns_read_size
  by (fastforce simp: returns_def read_binary_def read_bytes_def Option.bind_eq_Some_conv split: if_splits)

lemma returns_read_timestamp [returns_rules]:
  "returns (\<lambda>t. in_range T_int64 (fst t) \<and> in_range T_int32 (snd t)) (read_timestamp bs)"
  unfolding read_timestamp_def
  by (rule returns_bind, rule returns_rules, rule returns_bind, rule returns_rules, rule returns_rules) simp

lemma returns_read_mixed [returns_rules]: "returns mixed_ok (read_mixed bs)"
  unfolding read_mixed_def
  apply (rule returns_bind, rule returns_read_int(1))
  apply (rule returns_option, rule returns_None)
  subgoal for v rest ty
    by (cases ty) (simp_all add: returns_rules,
        (rule returns_bind, rule returns_rules, rule returns_rules, simp)+)
  done

lemma returns_read_lists [returns_rules]:
  "returns (\<lambda>vs. length vs = n \<and> (\<forall>v\<in>set vs. size_ok v)) (read_sizes n bs)"
  "returns (\<lambda>ps. length ps = n \<and> (\<forall>p\<in>set ps. size_ok (fst p) \<and> size_ok (snd p))) (read_pairs n bs)"
proof -
  show "returns (\<lambda>vs. length vs = n \<and> (\<forall>v\<in>set vs. size_ok v)) (read_sizes n bs)"
  proof (induction n arbitrary: bs)
    case (Suc n)
    show ?case
      by (simp, rule returns_bind, rule returns_read_size, rule returns_bind, rule Suc.IH, rule returns_rules) simp
  qed (simp add: returns_rules)
  show "returns (\<lambda>ps. length ps = n \<and> (\<forall>p\<in>set ps. size_ok (fst p) \<and> size_ok (snd p))) (read_pairs n bs)"
  proof (induction n arbitrary: bs)
    case (Suc n)
    show ?case
      by (simp, rule returns_bind, rule returns_read_size, rule returns_bind, rule returns_read_size,
          rule returns_bind, rule Suc.IH, rule returns_rules) simp
  qed (simp add: returns_rules)
qed

lemma returns_link_list_set_all:
  "size_ok num \<Longrightarrow> i + n \<le> num \<Longrightarrow>
     returns (\<lambda>cs. \<forall>c\<in>set cs. call_ok c) (read_link_list_set_all num i n bs)"
proof (induction n arbitrary: i bs)
  case (Suc n)
  have i: "size_ok i" using Suc.prems by (simp add: size_ok_def)
  show ?case
    by (simp, rule returns_bind, rule returns_read_size, rule returns_bind, rule Suc.IH)
      (use Suc.prems i in \<open>simp_all add: returns_rules\<close>)
qed (simp add: returns_rules)

section \<open>Calls\<close>

text \<open>The call with a \<open>Set\<close> in place of the unique variant where only the parser allows it.\<close>

definition plain_set :: "instruction \<Rightarrow> instruction" where
  "plain_set i = (if i = instr_SetUnique then instr_Set else i)"

fun without_unique :: "call \<Rightarrow> call" where
  "without_unique (Set_bool col row v i) = Set_bool col row v (plain_set i)"
| "without_unique (Set_float col row v i) = Set_float col row v (plain_set i)"
| "without_unique (Set_double col row v i) = Set_double col row v (plain_set i)"
| "without_unique (Set_binary col row v i) = Set_binary col row v (plain_set i)"
| "without_unique (Set_olddatetime col row v i) = Set_olddatetime col row v (plain_set i)"
| "without_unique (Set_timestamp col row s n i) = Set_timestamp col row s n (plain_set i)"
| "without_unique (Set_table col row i) = Set_table col row (plain_set i)"
| "without_unique (Set_mixed col row v i) = Set_mixed col row v (plain_set i)"
| "without_unique (Set_link col row v t i) = Set_link col row v t (plain_set i)"
| "without_unique c = c"

definition call_typed :: "call \<Rightarrow> bool" where
  "call_typed c \<longleftrightarrow> call_ok (without_unique c)"

lemma plain_variant: "unique_variant_ok i \<Longrightarrow> variant_ok (plain_set i)"
  by (auto simp: unique_variant_ok_def variant_ok_def plain_set_def)

lemma link_value_ok: "size_ok (nat ((int v - 1) mod 2 ^ 64))"
  by (simp add: size_ok_def nat_less_iff)

lemma returns_set_value:
  assumes "size_ok col" "size_ok row" "size_ok prior" "unique_variant_ok i"
  shows "returns call_typed (read_set_value ty col row i prior bs)"
proof -
  note v = assms plain_variant [OF assms(4)] link_value_ok [simplified]
  show ?thesis
    unfolding read_set_value_def
    by (cases ty) (simp_all add: returns_rules call_typed_def v,
      ((rule returns_bind, rule returns_rules)+, rule returns_rules, simp add: call_typed_def v)+)
qed

lemma returns_set:
  assumes "unique_variant_ok i"
  shows "returns call_typed (read_set i bs)"
proof -
  have z: "size_ok 0" by (simp add: size_ok_def)
  have p: "returns size_ok (if c then read_size bs else Some (0, bs))" for c bs
    using z by (auto intro: returns_rules)
  show ?thesis
    unfolding read_set_def
    by (rule returns_bind, rule returns_rules, rule returns_bind, rule returns_rules, rule returns_bind,
        rule returns_rules, rule returns_bind, rule p, rule returns_if, rule returns_rules)
      (use assms in \<open>auto simp: call_typed_def intro!: returns_option returns_rules(1) returns_set_value\<close>)
qed

lemma returns_insert_column: "returns call_typed (read_insert_column i bs)"
  unfolding read_insert_column_def Let_def
  by (rule returns_bind, rule returns_rules, rule returns_bind, rule returns_rules, rule returns_option,
      rule returns_rules, rule returns_if, rule returns_rules, rule returns_bind, rule returns_rules,
      rule returns_if, rule returns_rules, rule returns_rules)
    (simp add: call_typed_def link_data_type_def)

lemma returns_insert_link_column: "returns call_typed (read_insert_link_column bs)"
  unfolding read_insert_link_column_def
  by (rule returns_bind, rule returns_rules, rule returns_bind, rule returns_rules, rule returns_option,
      rule returns_rules, rule returns_if, rule returns_rules, (rule returns_bind, rule returns_rules)+,
      rule returns_rules)
    (auto simp: call_typed_def link_data_type_def)

lemma returns_select:
  "returns call_typed (read_select_table bs)" "returns call_typed (read_select_descriptor bs)"
proof -
  show "returns call_typed (read_select_table bs)"
    unfolding read_select_table_def
    by (rule returns_bind, rule returns_rules, rule returns_if, rule returns_rules, rule returns_bind,
        rule returns_rules, rule returns_bind, rule returns_read_lists(2), rule returns_rules)
      (auto simp: call_typed_def max_levels_def)
  show "returns call_typed (read_select_descriptor bs)"
    unfolding read_select_descriptor_def
    by (rule returns_bind, rule returns_rules, rule returns_if, rule returns_rules, rule returns_bind,
        rule returns_read_lists(1), rule returns_rules)
      (auto simp: call_typed_def max_levels_def)
qed

lemma returns_set_link_type: "returns call_typed (read_set_link_type bs)"
  unfolding read_set_link_type_def
  by (rule returns_bind, rule returns_rules, rule returns_bind, rule returns_rules, rule returns_option,
      rule returns_rules, rule returns_rules)
    (simp add: call_typed_def)

lemma returns_read_call: "returns call_typed (read_call i bs)"
  unfolding read_call_def read_other_call_def
  by (cases i)
    (simp_all add: returns_rules returns_select returns_set_link_type returns_insert_column
      returns_insert_link_column returns_set unique_variant_ok_def variant_ok_def call_typed_def,
      ((rule returns_bind, rule returns_rules)+, rule returns_rules, simp add: call_typed_def)+)

lemma without_unique_id: "call_ok c \<Longrightarrow> call_typed c"
  by (cases c) (auto simp: call_typed_def plain_set_def variant_ok_def)

lemma returns_read_instr: "returns (\<lambda>cs. \<forall>c\<in>set cs. call_typed c) (read_instr bs)"
proof -
  have all: "returns (\<lambda>cs. \<forall>c\<in>set cs. call_typed c) (read_link_list_set_all n 0 n bs)" if "size_ok n" for n bs
    using returns_link_list_set_all [OF that, of 0 n bs] without_unique_id by (auto simp: returns_def)
  have char: "returns (\<lambda>_. True) (read_char bs)" by (simp add: returns_def)
  show ?thesis
    unfolding read_instr_def
    by (rule returns_bind, rule char, rule returns_option, rule returns_None, rule returns_if,
        rule returns_bind, rule returns_read_size, erule all, rule returns_bind, rule returns_read_call,
        rule returns_rules) simp
qed

lemma read_log_typed:
  "read_log bs = Some cs \<Longrightarrow> \<forall>c\<in>set cs. call_typed c"
proof (induction bs arbitrary: cs rule: read_log.induct)
  case (1 bs)
  show ?case
  proof (cases "bs = []")
    case True
    then show ?thesis using 1(2) by simp
  next
    case False
    then obtain ds rest es where d: "read_instr bs = Some (ds, rest)" "read_log rest = Some es" "cs = ds @ es"
      using 1(2) by (subst (asm) read_log.simps) (auto split: option.splits)
    moreover have "\<forall>c\<in>set ds. call_typed c" using returns_read_instr [of bs] d(1) by (simp add: returns_def)
    moreover have "\<forall>c\<in>set es. call_typed c" using 1(1) [OF False d(1) refl d(2)] .
    ultimately show ?thesis by auto
  qed
qed

end
