(* ===== verification/LogConvenient.thy ===== *)
theory LogConvenient imports LogSelection begin

text \<open>
  \<open>TransactLogConvenientEncoder\<close>: the methods that the tables, descriptors and link lists call.
  Each selects its target, unless a cache says that it is selected already, and passes a call to
  \<open>TransactLogEncoder\<close>.  Accessors are pointers, here numbers; what a method reads from its accessor
  (its size, the target of a link column) comes with the operation.  \<open>do_select_table\<close>,
  \<open>do_select_desc\<close> and \<open>do_select_link_list\<close> are compiled elsewhere: they are the parameter \<open>sel\<close>,
  and \<open>selector_ok\<close> states what is relied on.
\<close>

section \<open>State\<close>

record conv_encoder =
  m_selected_table :: "nat option"
  m_selected_spec :: "nat option"
  m_selected_link_list :: "nat option"
  m_written :: "logged list"

text \<open>
  The paths of the accessors: the selecting call of each, the root table of a descriptor and the
  origin table of a list.
\<close>

record paths =
  table_path :: "nat \<Rightarrow> call"
  desc_root :: "nat \<Rightarrow> nat"
  desc_path :: "nat \<Rightarrow> call"
  list_origin :: "nat \<Rightarrow> nat"
  list_path :: "nat \<Rightarrow> call"

record selector =
  do_select_table :: "paths \<Rightarrow> nat \<Rightarrow> conv_encoder \<Rightarrow> conv_encoder"
  do_select_desc :: "paths \<Rightarrow> nat \<Rightarrow> conv_encoder \<Rightarrow> conv_encoder"
  do_select_link_list :: "paths \<Rightarrow> nat \<Rightarrow> conv_encoder \<Rightarrow> conv_encoder"

section \<open>Selecting\<close>

definition unselect_all :: "conv_encoder \<Rightarrow> conv_encoder" where
  "unselect_all e =
     e\<lparr>m_selected_table := None, m_selected_spec := None, m_selected_link_list := None\<rparr>"

definition conv_select_table :: "selector \<Rightarrow> paths \<Rightarrow> nat \<Rightarrow> conv_encoder \<Rightarrow> conv_encoder" where
  "conv_select_table sel p t e =
     (let e = (if m_selected_table e \<noteq> Some t then do_select_table sel p t e else e)
      in e\<lparr>m_selected_spec := None, m_selected_link_list := None\<rparr>)"

definition conv_select_desc :: "selector \<Rightarrow> paths \<Rightarrow> nat \<Rightarrow> conv_encoder \<Rightarrow> conv_encoder" where
  "conv_select_desc sel p d e =
     (let e = (if m_selected_spec e \<noteq> Some d then do_select_desc sel p d e else e)
      in e\<lparr>m_selected_link_list := None\<rparr>)"

definition conv_select_link_list :: "selector \<Rightarrow> paths \<Rightarrow> nat \<Rightarrow> conv_encoder \<Rightarrow> conv_encoder" where
  "conv_select_link_list sel p l e =
     (let e = (if m_selected_link_list e \<noteq> Some l then do_select_link_list sel p l e else e)
      in e\<lparr>m_selected_spec := None\<rparr>)"

section \<open>The methods\<close>

text \<open>
  The call that a method of a table passes on, for its arguments: \<open>size\<close> is \<open>t->size()\<close> and
  \<open>target\<close> the target table of a link column.  Arguments of the call that the method does not have
  are ignored.  \<open>None\<close> is a method that writes nothing.
\<close>

definition unique_prior :: "nat \<Rightarrow> instruction \<Rightarrow> nat" where
  "unique_prior n variant = (if variant = instr_SetUnique then n else 0)"

fun table_method :: "nat \<Rightarrow> (nat \<Rightarrow> nat) \<Rightarrow> call \<Rightarrow> call option" where
  "table_method n target (Set_int col row v i _) = Some (Set_int col row v i (unique_prior n i))"
| "table_method n target (Set_string col row v i _) = Some (Set_string col row v i (unique_prior n i))"
| "table_method n target (Set_null col row i _) = Some (Set_null col row i (unique_prior n i))"
| "table_method n target (Set_link col row v _ i) = Some (Set_link col row v (target col) i)"
| "table_method n target (Nullify_link col row _) = Some (Nullify_link col row (target col))"
| "table_method n target (Insert_substring col row pos s) =
     (if length s > 0 then Some (Insert_substring col row pos s) else None)"
| "table_method n target (Erase_substring col row pos len) =
     (if len > 0 then Some (Erase_substring col row pos len) else None)"
| "table_method n target (Insert_empty_rows row k prior _) = Some (Insert_empty_rows row k prior False)"
| "table_method n target c = Some c"

text \<open>\<open>link\<close> is the target table of a link column and its backlink column.\<close>

fun desc_method :: "(nat \<times> nat) option \<Rightarrow> call \<Rightarrow> call" where
  "desc_method (Some (t, b)) (Insert_column col ty name _) = Insert_link_column col ty name t b"
| "desc_method (Some (t, b)) (Erase_column col) = Erase_link_column col t b"
| "desc_method link c = c"

text \<open>\<open>n\<close> is \<open>list.size()\<close>: an insertion is logged after the fact, an erased entry before it.\<close>

fun list_method :: "nat \<Rightarrow> call \<Rightarrow> call" where
  "list_method n (Link_list_set i v _) = Link_list_set i v n"
| "list_method n (Link_list_insert i v _) = Link_list_insert i v (size_sub n 1)"
| "list_method n (Link_list_erase i _) = Link_list_erase i n"
| "list_method n (Link_list_nullify i _) = Link_list_nullify i n"
| "list_method n c = c"

datatype conv_op =
    Group_op call
  | Table_op nat nat "nat \<Rightarrow> nat" call
  | Desc_op nat "(nat \<times> nat) option" call
  | List_op nat nat call
  | Set_link_list_op nat "int list"
  | Table_destroyed nat
  | Spec_destroyed nat
  | List_destroyed nat
  | Reset_caches

definition write_logged :: "logged \<Rightarrow> conv_encoder \<Rightarrow> conv_encoder" where
  "write_logged l e = e\<lparr>m_written := m_written e @ [l]\<rparr>"

fun conv_step :: "selector \<Rightarrow> paths \<Rightarrow> conv_op \<Rightarrow> conv_encoder \<Rightarrow> conv_encoder" where
  "conv_step sel p (Group_op c) e = write_logged (Logged c) (unselect_all e)"
| "conv_step sel p (Table_op t n target c) e =
     (case table_method n target c of
        None \<Rightarrow> e
      | Some c \<Rightarrow> write_logged (Logged c) (conv_select_table sel p t e))"
| "conv_step sel p (Desc_op d link c) e =
     write_logged (Logged (desc_method link c)) (conv_select_desc sel p d e)"
| "conv_step sel p (List_op l n c) e =
     write_logged (Logged (list_method n c)) (conv_select_link_list sel p l e)"
| "conv_step sel p (Set_link_list_op l vs) e =
     write_logged (Logged_set_all vs) (conv_select_link_list sel p l e)"
| "conv_step sel p (Table_destroyed t) e =
     (if m_selected_table e = Some t then e\<lparr>m_selected_table := None\<rparr> else e)"
| "conv_step sel p (Spec_destroyed d) e =
     (if m_selected_spec e = Some d then e\<lparr>m_selected_spec := None\<rparr> else e)"
| "conv_step sel p (List_destroyed l) e =
     (if m_selected_link_list e = Some l then e\<lparr>m_selected_link_list := None\<rparr> else e)"
| "conv_step sel p Reset_caches e = unselect_all e"

definition conv_new :: conv_encoder where
  "conv_new = \<lparr>m_selected_table = None, m_selected_spec = None, m_selected_link_list = None, m_written = []\<rparr>"

fun conv_run :: "selector \<Rightarrow> (paths \<times> conv_op) list \<Rightarrow> conv_encoder \<Rightarrow> conv_encoder" where
  "conv_run sel [] e = e"
| "conv_run sel ((p, c) # cs) e = conv_run sel cs (conv_step sel p c e)"

section \<open>What is relied on\<close>

abbreviation written_calls :: "conv_encoder \<Rightarrow> call list" where
  "written_calls e \<equiv> concat (map delivered_calls (m_written e))"

definition selected_now :: "conv_encoder \<Rightarrow> selection" where
  "selected_now e = selection_after no_selection (written_calls e)"

text \<open>
  A selecting function appends \<open>select\<close> instructions only.  \<open>do_select_table\<close> selects the table;
  the others select, unless it is cached as selected, the table that the descriptor or the list
  belongs to, then the descriptor or the list; each updates the caches of what it has selected.
\<close>

definition only_selects :: "conv_encoder \<Rightarrow> conv_encoder \<Rightarrow> bool" where
  "only_selects e e' \<longleftrightarrow> (\<exists>ls. m_written e' = m_written e @ ls \<and> (\<forall>l\<in>set ls. \<exists>c. l = Logged c \<and> is_select c))"

definition table_current :: "paths \<Rightarrow> nat \<Rightarrow> conv_encoder \<Rightarrow> bool" where
  "table_current p t e \<longleftrightarrow> (m_selected_table e = Some t \<longrightarrow> fst (selected_now e) = Some (table_path p t))"

definition paths_ok :: "paths \<Rightarrow> bool" where
  "paths_ok p \<longleftrightarrow> (\<forall>t. is_select_table (table_path p t)) \<and> (\<forall>d. is_select_descriptor (desc_path p d)) \<and>
     (\<forall>l. is_select_link_list (list_path p l))"

definition selector_ok :: "selector \<Rightarrow> bool" where
  "selector_ok sel \<longleftrightarrow>
     (\<forall>p t e. paths_ok p \<longrightarrow> (let e' = do_select_table sel p t e in
        only_selects e e' \<and> m_selected_table e' = Some t \<and> fst (selected_now e') = Some (table_path p t))) \<and>
     (\<forall>p d e. paths_ok p \<longrightarrow> (let e' = do_select_desc sel p d e in
        only_selects e e' \<and> m_selected_spec e' = Some d \<and> m_selected_table e' = Some (desc_root p d) \<and>
        (table_current p (desc_root p d) e \<longrightarrow>
           fst (selected_now e') = Some (table_path p (desc_root p d)) \<and>
           fst (snd (selected_now e')) = Some (desc_path p d)))) \<and>
     (\<forall>p l e. paths_ok p \<longrightarrow> (let e' = do_select_link_list sel p l e in
        only_selects e e' \<and> m_selected_link_list e' = Some l \<and> m_selected_table e' = Some (list_origin p l) \<and>
        (table_current p (list_origin p l) e \<longrightarrow>
           fst (selected_now e') = Some (table_path p (list_origin p l)) \<and>
           snd (snd (selected_now e')) = Some (list_path p l))))"

section \<open>The selection that each operation is to run under\<close>

datatype target = Table_target nat | Desc_target nat | List_target nat

fun op_target :: "conv_op \<Rightarrow> target option" where
  "op_target (Table_op t n target c) = map_option (\<lambda>_. Table_target t) (table_method n target c)"
| "op_target (Desc_op d _ _) = Some (Desc_target d)"
| "op_target (List_op l _ _) = Some (List_target l)"
| "op_target (Set_link_list_op l _) = Some (List_target l)"
| "op_target _ = None"

fun path_of :: "paths \<Rightarrow> target \<Rightarrow> call list" where
  "path_of p (Table_target t) = [table_path p t]"
| "path_of p (Desc_target d) = [table_path p (desc_root p d), desc_path p d]"
| "path_of p (List_target l) = [table_path p (list_origin p l), list_path p l]"

fun target_table :: "paths \<Rightarrow> target \<Rightarrow> nat" where
  "target_table p (Table_target t) = t"
| "target_table p (Desc_target d) = desc_root p d"
| "target_table p (List_target l) = list_origin p l"

fun op_calls :: "conv_op \<Rightarrow> call list" where
  "op_calls (Group_op c) = [delivered c]"
| "op_calls (Table_op t n target c) =
     (case table_method n target c of None \<Rightarrow> [] | Some c \<Rightarrow> [delivered c])"
| "op_calls (Desc_op d link c) = [delivered (desc_method link c)]"
| "op_calls (List_op l n c) = [delivered (list_method n c)]"
| "op_calls (Set_link_list_op l vs) = delivered_calls (Logged_set_all vs)"
| "op_calls _ = []"

definition op_selected :: "paths \<times> conv_op \<Rightarrow> (call list option \<times> call) list" where
  "op_selected x =
     map (Pair (Some (case op_target (snd x) of None \<Rightarrow> [] | Some y \<Rightarrow> path_of (fst x) y))) (op_calls (snd x))"

text \<open>Methods are called for the kind of accessor they belong to.\<close>

fun op_ok :: "conv_op \<Rightarrow> bool" where
  "op_ok (Group_op c) \<longleftrightarrow> is_group_call c"
| "op_ok (Table_op t n target c) \<longleftrightarrow>
     \<not> is_group_call c \<and> \<not> is_descriptor_call c \<and> \<not> is_list_call c \<and> \<not> is_select c"
| "op_ok (Desc_op d link c) \<longleftrightarrow> is_descriptor_call c"
| "op_ok (List_op l n c) \<longleftrightarrow> is_list_call c"
| "op_ok _ \<longleftrightarrow> True"

text \<open>
  An operation leaves the path of its own target in place until the next operation that selects;
  the paths of all other accessors may change in between.
\<close>

definition same_path :: "paths \<Rightarrow> paths \<Rightarrow> target \<Rightarrow> bool" where
  "same_path p q x \<longleftrightarrow> path_of q x = path_of p x \<and> target_table q x = target_table p x"

fun unselects :: "conv_op \<Rightarrow> bool" where
  "unselects (Group_op _) = True" | "unselects Reset_caches = True" | "unselects _ = False"

fun paths_kept :: "(paths \<times> target) option \<Rightarrow> (paths \<times> conv_op) list \<Rightarrow> bool" where
  "paths_kept prev [] \<longleftrightarrow> True"
| "paths_kept prev ((p, c) # cs) \<longleftrightarrow>
     (case op_target c of
        None \<Rightarrow> paths_kept (if unselects c then None else prev) cs
      | Some x \<Rightarrow>
          (case prev of None \<Rightarrow> True | Some (q, y) \<Rightarrow> same_path q p y) \<and> paths_kept (Some (p, x)) cs)"

section \<open>Lemmas\<close>

lemma with_selection_selects: "\<forall>c\<in>set cs. is_select c \<Longrightarrow> with_selection s cs = []"
  by (induction cs arbitrary: s) simp_all

lemma delivered_select: "is_select c \<Longrightarrow> delivered c = c"
  by (cases c) simp_all

lemma delivered_kind:
  "is_select (delivered c) = is_select c" "is_group_call (delivered c) = is_group_call c"
  "is_descriptor_call (delivered c) = is_descriptor_call c" "is_list_call (delivered c) = is_list_call c"
  by (cases c rule: delivered.cases; simp)+

lemma method_kind:
  "table_method n target c = Some d \<Longrightarrow> is_select d = is_select c \<and> is_group_call d = is_group_call c \<and>
     is_descriptor_call d = is_descriptor_call c \<and> is_list_call d = is_list_call c"
  "is_descriptor_call c \<Longrightarrow> is_descriptor_call (desc_method link c)"
  "is_list_call c \<Longrightarrow> is_list_call (list_method n c)"
    apply (cases "(n, target, c)" rule: table_method.cases; auto split: if_splits)
   apply (cases "(link, c)" rule: desc_method.cases; simp)
  apply (cases "(n, c)" rule: list_method.cases; simp)
  done

lemma call_kinds:
  "is_descriptor_call c \<Longrightarrow> \<not> is_select c \<and> \<not> is_group_call c"
  "is_list_call c \<Longrightarrow> \<not> is_select c \<and> \<not> is_group_call c \<and> \<not> is_descriptor_call c"
  "is_group_call c \<Longrightarrow> \<not> is_select c"
  by (cases c; simp)+

text \<open>What has been written so far, each call with its selection.\<close>

definition tagged :: "conv_encoder \<Rightarrow> (call list option \<times> call) list" where
  "tagged e = with_selection no_selection (written_calls e)"

lemma only_selects_tagged:
  assumes "only_selects e e'"
  shows "tagged e' = tagged e"
proof -
  obtain ls where ls: "m_written e' = m_written e @ ls" "\<forall>l\<in>set ls. \<exists>c. l = Logged c \<and> is_select c"
    using assms by (auto simp: only_selects_def)
  have "\<forall>c\<in>set (concat (map delivered_calls ls)). is_select c"
    using ls(2) delivered_select by fastforce
  then show ?thesis by (simp add: tagged_def ls(1) with_selection_append with_selection_selects)
qed

lemma tagged_caches [simp]:
  "tagged (e\<lparr>m_selected_table := a\<rparr>) = tagged e" "tagged (e\<lparr>m_selected_spec := a\<rparr>) = tagged e"
  "tagged (e\<lparr>m_selected_link_list := a\<rparr>) = tagged e" "tagged (unselect_all e) = tagged e"
  "selected_now (e\<lparr>m_selected_table := a\<rparr>) = selected_now e"
  "selected_now (e\<lparr>m_selected_spec := a\<rparr>) = selected_now e"
  "selected_now (e\<lparr>m_selected_link_list := a\<rparr>) = selected_now e"
  by (simp_all add: tagged_def selected_now_def unselect_all_def)

lemma selection_after_plain:
  "\<forall>c\<in>set cs. \<not> is_select c \<and> \<not> is_group_call c \<Longrightarrow> selection_after s cs = s"
  by (induction cs arbitrary: s) (simp_all add: select_step_other)

lemma with_selection_plain:
  assumes "\<forall>c\<in>set cs. \<not> is_select c \<and> \<not> is_group_call c \<and> needed s c = m"
  shows "with_selection s cs = map (Pair m) cs"
  using assms by (induction cs) (simp_all add: select_step_other)

text \<open>Calls that neither select nor unselect, written under a selection.\<close>

lemma write_plain:
  assumes "\<forall>c\<in>set (delivered_calls l). \<not> is_select c \<and> \<not> is_group_call c \<and> needed (selected_now e) c = m"
  shows "tagged (write_logged l e) = tagged e @ map (Pair m) (delivered_calls l)"
    "selected_now (write_logged l e) = selected_now e"
  using assms
  by (simp_all add: tagged_def selected_now_def write_logged_def with_selection_append with_selection_plain
      selection_after_plain)

section \<open>The caches\<close>

definition cache_inv :: "(paths \<times> target) option \<Rightarrow> conv_encoder \<Rightarrow> bool" where
  "cache_inv prev e \<longleftrightarrow>
     (case prev of
        None \<Rightarrow> m_selected_table e = None \<and> m_selected_spec e = None \<and> m_selected_link_list e = None
      | Some (p, x) \<Rightarrow>
          (\<forall>t. m_selected_table e = Some t \<longrightarrow> t = target_table p x \<and> fst (selected_now e) = Some (hd (path_of p x))) \<and>
          (\<forall>d. m_selected_spec e = Some d \<longrightarrow> x = Desc_target d \<and>
             fst (selected_now e) = Some (hd (path_of p x)) \<and> fst (snd (selected_now e)) = Some (desc_path p d)) \<and>
          (\<forall>l. m_selected_link_list e = Some l \<longrightarrow> x = List_target l \<and>
             fst (selected_now e) = Some (hd (path_of p x)) \<and> snd (snd (selected_now e)) = Some (list_path p l)))"

lemma hd_path: "hd (path_of p x) = table_path p (target_table p x)"
  by (cases x) simp_all

lemma cache_table_current:
  assumes "cache_inv prev e" "case prev of None \<Rightarrow> True | Some (q, y) \<Rightarrow> same_path q p y"
  shows "table_current p t e"
  using assms by (auto simp: cache_inv_def table_current_def same_path_def hd_path split: option.splits prod.splits)
    (metis hd_path)

lemma select_table_step:
  assumes "selector_ok sel" "paths_ok p" "cache_inv prev e"
    and "case prev of None \<Rightarrow> True | Some (q, y) \<Rightarrow> same_path q p y"
    and e': "e' = conv_select_table sel p t e"
  shows "tagged e' = tagged e" "fst (selected_now e') = Some (table_path p t)"
    "cache_inv (Some (p, Table_target t)) e'"
proof -
  let ?d = "do_select_table sel p t e"
  have d: "only_selects e ?d" "m_selected_table ?d = Some t" "fst (selected_now ?d) = Some (table_path p t)"
    using assms(1,2) by (auto simp: selector_ok_def Let_def)
  have c: "table_current p t e" by (rule cache_table_current [OF assms(3,4)])
  show "tagged e' = tagged e" "fst (selected_now e') = Some (table_path p t)"
    using d(3) c only_selects_tagged [OF d(1)] by (auto simp: e' conv_select_table_def Let_def table_current_def)
  moreover have "m_selected_table e' = Some t" "m_selected_spec e' = None" "m_selected_link_list e' = None"
    using d(2) by (auto simp: e' conv_select_table_def Let_def)
  ultimately show "cache_inv (Some (p, Table_target t)) e'" by (simp add: cache_inv_def)
qed

lemma select_desc_step:
  assumes "selector_ok sel" "paths_ok p" "cache_inv prev e"
    and "case prev of None \<Rightarrow> True | Some (q, y) \<Rightarrow> same_path q p y"
    and e': "e' = conv_select_desc sel p d e"
  shows "tagged e' = tagged e" "fst (selected_now e') = Some (table_path p (desc_root p d))"
    "fst (snd (selected_now e')) = Some (desc_path p d)" "cache_inv (Some (p, Desc_target d)) e'"
proof -
  have "tagged e' = tagged e \<and> fst (selected_now e') = Some (table_path p (desc_root p d)) \<and>
    fst (snd (selected_now e')) = Some (desc_path p d) \<and> m_selected_link_list e' = None \<and>
    m_selected_spec e' = Some d \<and> (\<forall>t. m_selected_table e' = Some t \<longrightarrow> t = desc_root p d)"
  proof (cases "m_selected_spec e = Some d")
    case True
    then obtain q where q: "prev = Some (q, Desc_target d)" using assms(3) by (auto simp: cache_inv_def split: option.splits)
    then have "same_path q p (Desc_target d)" using assms(4) by simp
    then show ?thesis using True assms(3) q by (auto simp: e' conv_select_desc_def cache_inv_def same_path_def)
  next
    case False
    let ?d = "do_select_desc sel p d e"
    have "table_current p (desc_root p d) e" by (rule cache_table_current [OF assms(3,4)])
    then have "only_selects e ?d" "m_selected_spec ?d = Some d" "m_selected_table ?d = Some (desc_root p d)"
      "fst (selected_now ?d) = Some (table_path p (desc_root p d))" "fst (snd (selected_now ?d)) = Some (desc_path p d)"
      using assms(1,2) by (auto simp: selector_ok_def Let_def)
    then show ?thesis using False only_selects_tagged by (simp add: e' conv_select_desc_def)
  qed
  then show "tagged e' = tagged e" "fst (selected_now e') = Some (table_path p (desc_root p d))"
    "fst (snd (selected_now e')) = Some (desc_path p d)" "cache_inv (Some (p, Desc_target d)) e'"
    by (simp_all add: cache_inv_def)
qed

lemma select_link_list_step:
  assumes "selector_ok sel" "paths_ok p" "cache_inv prev e"
    and "case prev of None \<Rightarrow> True | Some (q, y) \<Rightarrow> same_path q p y"
    and e': "e' = conv_select_link_list sel p l e"
  shows "tagged e' = tagged e" "fst (selected_now e') = Some (table_path p (list_origin p l))"
    "snd (snd (selected_now e')) = Some (list_path p l)" "cache_inv (Some (p, List_target l)) e'"
proof -
  have "tagged e' = tagged e \<and> fst (selected_now e') = Some (table_path p (list_origin p l)) \<and>
    snd (snd (selected_now e')) = Some (list_path p l) \<and> m_selected_spec e' = None \<and>
    m_selected_link_list e' = Some l \<and> (\<forall>t. m_selected_table e' = Some t \<longrightarrow> t = list_origin p l)"
  proof (cases "m_selected_link_list e = Some l")
    case True
    then obtain q where q: "prev = Some (q, List_target l)" using assms(3) by (auto simp: cache_inv_def split: option.splits)
    then have "same_path q p (List_target l)" using assms(4) by simp
    then show ?thesis using True assms(3) q by (auto simp: e' conv_select_link_list_def cache_inv_def same_path_def)
  next
    case False
    let ?d = "do_select_link_list sel p l e"
    have "table_current p (list_origin p l) e" by (rule cache_table_current [OF assms(3,4)])
    then have "only_selects e ?d" "m_selected_link_list ?d = Some l" "m_selected_table ?d = Some (list_origin p l)"
      "fst (selected_now ?d) = Some (table_path p (list_origin p l))" "snd (snd (selected_now ?d)) = Some (list_path p l)"
      using assms(1,2) by (auto simp: selector_ok_def Let_def)
    then show ?thesis using False only_selects_tagged by (simp add: e' conv_select_link_list_def)
  qed
  then show "tagged e' = tagged e" "fst (selected_now e') = Some (table_path p (list_origin p l))"
    "snd (snd (selected_now e')) = Some (list_path p l)" "cache_inv (Some (p, List_target l)) e'"
    by (simp_all add: cache_inv_def)
qed

section \<open>Operations\<close>

lemma cache_inv_write:
  "selected_now (write_logged l e) = selected_now e \<Longrightarrow> cache_inv prev (write_logged l e) = cache_inv prev e"
  by (simp add: cache_inv_def write_logged_def split: option.split)

lemma needed_kinds:
  "\<not> is_group_call c \<Longrightarrow> \<not> is_descriptor_call c \<Longrightarrow> \<not> is_list_call c \<Longrightarrow> fst s = Some t \<Longrightarrow> needed s c = Some [t]"
  "is_descriptor_call c \<Longrightarrow> fst s = Some t \<Longrightarrow> fst (snd s) = Some d \<Longrightarrow> needed s c = Some [t, d]"
  "is_list_call c \<Longrightarrow> fst s = Some t \<Longrightarrow> snd (snd s) = Some l \<Longrightarrow> needed s c = Some [t, l]"
  using call_kinds by (auto simp: needed_def split: prod.split)

lemma set_all_list_calls: "c \<in> set (delivered_calls (Logged_set_all vs)) \<Longrightarrow> is_list_call c"
  by (auto simp: set_all_calls_def)

lemma targeted_step:
  assumes "selector_ok sel" "paths_ok p" "cache_inv prev e" "op_ok c" "op_target c = Some x"
    and "case prev of None \<Rightarrow> True | Some (q, y) \<Rightarrow> same_path q p y"
  shows "tagged (conv_step sel p c e) = tagged e @ op_selected (p, c) \<and>
    cache_inv (Some (p, x)) (conv_step sel p c e)"
proof (cases c)
  case (Table_op t n target d)
  then obtain d' where d': "table_method n target d = Some d'" "x = Table_target t" using assms(5) by auto
  let ?e = "conv_select_table sel p t e"
  note s = select_table_step [OF assms(1-3,6) refl, of t]
  have "\<not> is_select d' \<and> \<not> is_group_call d' \<and> \<not> is_descriptor_call d' \<and> \<not> is_list_call d'"
    using method_kind(1) [OF d'(1)] assms(4) Table_op by simp
  then have "\<forall>c\<in>set (delivered_calls (Logged d')). \<not> is_select c \<and> \<not> is_group_call c \<and>
      needed (selected_now ?e) c = Some [table_path p t]"
    using needed_kinds(1) [OF _ _ _ s(2)] by (simp add: delivered_kind)
  note w = write_plain [OF this]
  show ?thesis using w s cache_inv_write [OF w(2)] d' Table_op by (simp add: op_selected_def)
next
  case (Desc_op d link k)
  let ?e = "conv_select_desc sel p d e" and ?k = "delivered (desc_method link k)"
  note s = select_desc_step [OF assms(1-3,6) refl, of d]
  have "is_descriptor_call ?k" using method_kind(2) assms(4) Desc_op by (simp add: delivered_kind)
  then have "\<forall>c\<in>set (delivered_calls (Logged (desc_method link k))). \<not> is_select c \<and> \<not> is_group_call c \<and>
      needed (selected_now ?e) c = Some [table_path p (desc_root p d), desc_path p d]"
    using needed_kinds(2) [OF _ s(2,3)] call_kinds(1) by simp
  note w = write_plain [OF this]
  show ?thesis using w s cache_inv_write [OF w(2)] assms(5) Desc_op by (auto simp: op_selected_def)
next
  case (List_op l n k)
  let ?e = "conv_select_link_list sel p l e" and ?k = "delivered (list_method n k)"
  note s = select_link_list_step [OF assms(1-3,6) refl, of l]
  have "is_list_call ?k" using method_kind(3) assms(4) List_op by (simp add: delivered_kind)
  then have "\<forall>c\<in>set (delivered_calls (Logged (list_method n k))). \<not> is_select c \<and> \<not> is_group_call c \<and>
      needed (selected_now ?e) c = Some [table_path p (list_origin p l), list_path p l]"
    using needed_kinds(3) [OF _ s(2,3)] call_kinds(2) by simp
  note w = write_plain [OF this]
  show ?thesis using w s cache_inv_write [OF w(2)] assms(5) List_op by (auto simp: op_selected_def)
next
  case (Set_link_list_op l vs)
  let ?e = "conv_select_link_list sel p l e"
  note s = select_link_list_step [OF assms(1-3,6) refl, of l]
  have "\<forall>c\<in>set (delivered_calls (Logged_set_all vs)). \<not> is_select c \<and> \<not> is_group_call c \<and>
      needed (selected_now ?e) c = Some [table_path p (list_origin p l), list_path p l]"
    using needed_kinds(3) [OF set_all_list_calls s(2,3)] call_kinds(2) set_all_list_calls by blast
  note w = write_plain [OF this]
  show ?thesis using w s cache_inv_write [OF w(2)] assms(5) Set_link_list_op by (auto simp: op_selected_def)
qed (use assms(5) in simp_all)

lemma untargeted_step:
  assumes "cache_inv prev e" "op_ok c" "op_target c = None"
  shows "tagged (conv_step sel p c e) = tagged e @ op_selected (p, c) \<and>
    cache_inv (if unselects c then None else prev) (conv_step sel p c e)"
proof (cases c)
  case (Group_op d)
  then have "is_group_call (delivered d)" "\<not> is_select (delivered d)"
    using assms(2) call_kinds(3) by (simp_all add: delivered_kind)
  then show ?thesis using Group_op
    by (simp add: tagged_def write_logged_def unselect_all_def with_selection_append op_selected_def cache_inv_def
        needed_def split: prod.split)
next
  case Reset_caches
  then show ?thesis by (simp add: op_selected_def cache_inv_def) (simp add: unselect_all_def)
qed (use assms in \<open>auto simp: op_selected_def cache_inv_def split: option.splits\<close>)

theorem conv_run_selected:
  assumes "selector_ok sel" "\<forall>(p, c)\<in>set ops. paths_ok p \<and> op_ok c" "paths_kept prev ops" "cache_inv prev e"
  shows "tagged (conv_run sel ops e) = tagged e @ concat (map op_selected ops)"
  using assms(2-4)
proof (induction ops arbitrary: prev e)
  case (Cons x ops)
  obtain p c where x: "x = (p, c)" by (cases x)
  have ok: "paths_ok p" "op_ok c" "\<forall>(p, c)\<in>set ops. paths_ok p \<and> op_ok c" using Cons.prems(1) x by auto
  show ?case
  proof (cases "op_target c")
    case None
    then have "paths_kept (if unselects c then None else prev) ops" using Cons.prems(2) x by simp
    then show ?thesis using Cons.IH [OF ok(3)] untargeted_step [OF Cons.prems(3) ok(2) None] x by simp
  next
    case (Some y)
    then have k: "case prev of None \<Rightarrow> True | Some (q, y) \<Rightarrow> same_path q p y" "paths_kept (Some (p, y)) ops"
      using Cons.prems(2) x by auto
    then show ?thesis
      using Cons.IH [OF ok(3) k(2)] targeted_step [OF assms(1) ok(1) Cons.prems(3) ok(2) Some k(1)] x by simp
  qed
qed simp

end
