(* ===== verification/LogSpec.thy ===== *)
theory LogSpec imports LogTypes LogConvenient begin

text \<open>
  The properties of the transaction log: checked integer arithmetic, the integer encoding, the
  round trip of a log through encoder and parser, and the reversed log of a rollback.
\<close>

section \<open>Integers\<close>

text \<open>Checked addition and subtraction are exact for every pair of integer types and all their
  values: the result is the mathematical one when the left operand's type has it, and overflow is
  reported otherwise, whatever the signs and widths of the two types are.\<close>

theorem checked_arithmetic_exact:
  assumes "type_ok L" "type_ok R" "in_range L l" "in_range R r"
  shows "safe_add L R l r = (if in_range L (l + r) then Some (l + r) else None) \<and>
    safe_sub L R l r = (if in_range L (l - r) then Some (l - r) else None)"
  using safe_add_exact [OF assms] safe_sub_exact [OF assms] by blast

theorem checked_arithmetic_exact_witness:
  "safe_add T_int64 T_size (- 5) (2 ^ 63) = Some (2 ^ 63 - 5) \<and> safe_sub T_size T_int 3 4 = None"
  using checked_arithmetic_exact [of T_int64 T_size "- 5" "2 ^ 63"] checked_arithmetic_exact [of T_size T_int 3 4]
  by (simp add: type_ok_def in_range_def int_min_def int_max_def)

text \<open>A decoded integer is the encoded one whenever the reader's type has it, for any two integer
  types; the encoding has at most as many bytes as the buffer reserves for the writer's type, and
  leaves what follows in the log unread.\<close>

theorem integer_roundtrip:
  assumes "type_ok S" "in_range S v" "type_ok T" "0 < digits T" "in_range T v"
  shows "read_int T (encode_int S v @ rest) = Some (v, rest) \<and>
    length (encode_int S v) \<le> max_int_bytes (digits S)"
  using read_encode_int_in_range [OF assms] encode_int_fits [OF assms(2,1)] by blast

theorem integer_roundtrip_witness:
  "read_int T_int (encode_int T_int64 (- 300) @ [7]) = Some (- 300, [7]) \<and> length (encode_int T_int64 (- 300)) \<le> 10"
  using integer_roundtrip [of T_int64 "- 300" T_int "[7]"]
  by (simp add: type_ok_def in_range_def int_min_def int_max_def max_int_bytes_def)

text \<open>A negative integer that is read as an unsigned one is not refused: below \<open>- 1\<close> it is
  reduced modulo the width of the type, although the reader's overflow checks refuse every other
  value that the type does not have.\<close>

theorem negative_wraps:
  assumes "type_ok S" "in_range S v" "v < - 1" "- (2 ^ 64) \<le> v"
  shows "read_int T_size (encode_int S v @ rest) = Some (v + 2 ^ 64, rest)"
  using read_encode_int [OF assms(1,2), of T_size rest] assms(3,4)
  by (simp add: decoded_def type_ok_def in_range_def int_min_def)

theorem negative_wraps_witness: "read_int T_size (encode_int T_int64 (- 2)) = Some (2 ^ 64 - 2, [])"
  using negative_wraps [of T_int64 "- 2" "[]"] by (simp add: type_ok_def in_range_def int_min_def int_max_def)

section \<open>Writing and reading a log\<close>





text \<open>C31: The calls that a handler receives are well typed, whatever bytes the log holds: sizes and
  integers within their types, strings below the size limit, floating point values of the right
  length, paths of at most 1024 levels, column types that fit the instruction.\<close>

theorem parsed_calls_typed:
  "read_log bs = Some cs \<Longrightarrow> \<forall>c\<in>set cs. call_typed c"
  by (rule read_log_typed)

theorem parsed_calls_typed_witness: "\<exists>cs. read_log [18, 5] = Some cs \<and> list_all call_typed cs"
proof -
  have e: "concat (map (encode_logged select_format) [Logged (Clear_table 5)]) = [18, 5]"
    by (simp add: append_simple_instr_def encode_int_def is_negative_def encode_groups_simps)
  have "\<exists>cs. read_log [18, 5] = Some cs"
    using read_log_encode [OF _ select_format_encoder, of "[Logged (Clear_table 5)]"] e by (simp add: size_ok_def)
  then show ?thesis using parsed_calls_typed by (auto simp: list_all_iff)
qed

text \<open>C32: Every part of an instruction fits the space that was reserved for it in the log's buffer,
  and the parts written are the instruction.\<close>

theorem instruction_fits_reservation:
  assumes "\<forall>f\<in>set fs. field_ok f" "ints_last fs"
  shows "(\<forall>(n, bs)\<in>set (reservations fs). length bs \<le> n) \<and>
    concat (map snd (reservations fs)) = append_simple_instr fs"
  using reservations_fit [OF assms] reservations_write by blast

theorem instruction_fits_reservation_witness:
  "list_all (\<lambda>(n, bs). length bs \<le> n)
     (reservations [F_instr instr_LinkListSetAll, F_size 2, F_ints [- 1, 2 ^ 62]])"
  using instruction_fits_reservation [of "[F_instr instr_LinkListSetAll, F_size 2, F_ints [- 1, 2 ^ 62]]"]
  by (simp add: list_all_iff ints_last_def size_ok_def in_range_def int_min_def int_max_def)

text \<open>Reading across the blocks of an input stream is reading their concatenation: characters
  and byte ranges do not depend on where the blocks end.\<close>

theorem blocks_do_not_matter:
  "map_option (\<lambda>(d, inp). (d, unread inp)) (block_read_bytes n cur bs) = read_bytes n (unread (cur, bs)) \<and>
   map_option (\<lambda>(c, inp). (c, unread inp)) (block_read_char (cur, bs)) = read_char (unread (cur, bs)) \<and>
   (has_next (cur, bs) \<longleftrightarrow> unread (cur, bs) \<noteq> [])"
  using block_read_bytes_unread block_read_char_unread has_next_unread by blast

section \<open>Selections\<close>













section \<open>Rolling back\<close>


definition rollback_log :: "logged list" where
  "rollback_log =
     [Logged (Select_table 2 []), Logged (Insert_empty_rows 4 1 4 False), Logged (Select_link_list 3 0 4),
      Logged (Link_list_insert 0 8 1)]"


lemma with_selection_delivered:
  "with_selection s (map delivered cs) = map (apsnd delivered) (with_selection s cs)"
proof (induction cs arbitrary: s)
  case (Cons c cs)
  have "select_step s (delivered c) = select_step s c"
  proof (cases "is_select c")
    case False
    then show ?thesis by (simp add: select_step_other delivered_kind)
  qed (simp add: delivered_select)
  moreover have "needed s (delivered c) = needed s c"
    by (cases s) (simp only: needed_def prod.case delivered_kind)
  ultimately show ?case using Cons.IH by (simp add: delivered_kind)
qed simp

text \<open>In the reversed stream of a log every inverse runs under the selection of table, descriptor
  and link list that its instruction had in the log.\<close>

theorem rollback_selections:
  assumes "reversible_log cs" "select_encoder sel" "well_selected no_selection cs"
  shows "\<exists>ds. read_log (unread ([], reversed_blocks (foldl (reverse_call sel) reverser_new cs))) = Some ds \<and>
    with_selection no_selection ds =
      map (apsnd delivered) (undo_with_selection (with_selection no_selection cs))"
  using reversed_blocks_read [OF assms(1,2)] reversed_selections [OF assms(3)]
  by (simp add: with_selection_delivered)

theorem rollback_selections_witness:
  "\<exists>ds. read_log (unread ([], reversed_blocks
      (foldl (reverse_call select_format) reverser_new (concat (map delivered_calls rollback_log))))) = Some ds \<and>
    with_selection no_selection ds =
      [(Some [Select_table 2 [], Select_link_list 3 0 4], Link_list_erase 0 2),
       (Some [Select_table 2 []], Erase_rows 4 1 5 False)]"
proof -
  let ?cs = "concat (map delivered_calls rollback_log)"
  have "reversible_log ?cs" "well_selected no_selection ?cs"
    by (simp_all add: rollback_log_def size_ok_def reversible_log_def reversible_def needed_def)
  moreover have "map (apsnd delivered) (undo_with_selection (with_selection no_selection ?cs)) =
      [(Some [Select_table 2 [], Select_link_list 3 0 4], Link_list_erase 0 2),
       (Some [Select_table 2 []], Erase_rows 4 1 5 False)]"
    by (simp add: rollback_log_def needed_def undo_with_selection_def size_add_def)
  ultimately show ?thesis using rollback_selections [OF _ select_format_encoder, of ?cs] by metis
qed

end
