(* ===== verification/LogObserver.thy ===== *)
theory LogObserver imports ChangeBuilder LogCalls begin

text \<open>
  The object store's handlers of the transaction log (\<open>impl/transact_log_handler.cpp\<close>): the
  validator, which rejects schema changes that an open Realm does not support, and the observer,
  which translates the instructions to the change sets of the watched tables and lists.

  The change set of a list belongs to a notifier and is referred to by a pointer; here lists hold
  an identifier, and the observer state holds the change sets by identifier.  The pointers
  \<open>m_active_table\<close>, \<open>m_active_list\<close> and \<open>m_active_descriptor\<close> are references: to the entry of a
  table in \<open>tables\<close>, or to the change set of a list.  A growing \<open>tables\<close> vector moves its entries,
  which leaves such a pointer dangling until the next selection; every selection sets it again.
\<close>

section \<open>State\<close>

record list_info =
  li_table :: nat
  li_row :: nat
  li_col :: nat
  li_changes :: nat

record change_info =
  modifications_needed :: "bool list"
  moves_needed :: "bool list"
  lists :: "list_info list"
  tables :: "change_builder list"
  column_indices :: "nat list list"
  table_indices :: "nat list"
  track_all :: bool
  schema_changed :: bool

datatype builder_ref = Of_table nat | Of_list nat

record observer =
  info :: change_info
  builders :: "nat \<Rightarrow> change_builder"
  current_table :: nat
  active_list :: "builder_ref option"
  active_table :: "builder_ref option"
  active_descriptor :: "builder_ref option"
  need_move_info :: bool
  is_top_level_table :: bool

definition observer_new :: "change_info \<Rightarrow> (nat \<Rightarrow> change_builder) \<Rightarrow> observer" where
  "observer_new ci bs =
     \<lparr>info = ci, builders = bs, current_table = 0, active_list = None, active_table = None,
      active_descriptor = None, need_move_info = False, is_top_level_table = True\<rparr>"

text \<open>A value-initialised \<open>CollectionChangeBuilder\<close>.\<close>

definition empty_builder :: change_builder where
  "empty_builder = new_builder [] [] [] []"

text \<open>Calling a method of the change set behind a pointer that is not null.\<close>

definition set_info :: "(change_info \<Rightarrow> change_info) \<Rightarrow> observer \<Rightarrow> observer" where
  "set_info f ob = ob\<lparr>info := f (info ob)\<rparr>"

fun update_builder :: "builder_ref option \<Rightarrow> (change_builder \<Rightarrow> change_builder) \<Rightarrow> observer \<Rightarrow> observer" where
  "update_builder None f ob = ob"
| "update_builder (Some (Of_table t)) f ob =
     set_info (\<lambda>ci. ci\<lparr>tables := (tables ci)[t := f (tables ci ! t)]\<rparr>) ob"
| "update_builder (Some (Of_list k)) f ob = ob\<lparr>builders := (builders ob)(k := f (builders ob k))\<rparr>"

definition update_lists :: "(list_info \<Rightarrow> list_info) \<Rightarrow> observer \<Rightarrow> observer" where
  "update_lists f = set_info (\<lambda>ci. ci\<lparr>lists := map f (lists ci)\<rparr>)"

section \<open>Validation\<close>

text \<open>The methods of \<open>TransactLogValidationMixin\<close> that throw \<open>UnsupportedSchemaChange\<close>.\<close>

fun schema_error :: "call \<Rightarrow> bool" where
  "schema_error (Erase_group_level_table _ _) = True"
| "schema_error (Rename_group_level_table _ _) = True"
| "schema_error (Erase_column _) = True"
| "schema_error (Erase_link_column _ _ _) = True"
| "schema_error (Rename_column _ _) = True"
| "schema_error _ = False"

text \<open>\<open>TransactLogValidator\<close>: the state is \<open>m_current_table\<close>.\<close>

definition validator :: "nat handler" where
  "validator cur c =
     (if schema_error c then None
      else case c of Select_table t _ \<Rightarrow> Some t | _ \<Rightarrow> Some cur)"

section \<open>Containers\<close>

definition std_resize :: "'a \<Rightarrow> nat \<Rightarrow> 'a list \<Rightarrow> 'a list" where
  "std_resize d n xs = take n xs @ replicate (n - length xs) d"

definition rotate_at :: "'a \<Rightarrow> nat \<Rightarrow> nat \<Rightarrow> 'a list \<Rightarrow> 'a list" where
  "rotate_at d from_ndx to_ndx xs =
     (if from_ndx \<ge> length xs \<and> to_ndx \<ge> length xs then xs
      else
        let ys = (if from_ndx \<ge> length xs \<or> to_ndx \<ge> length xs
                  then std_resize d (max from_ndx to_ndx + 1) xs else xs)
        in if from_ndx < to_ndx then std_rotate from_ndx (from_ndx + 1) (to_ndx + 1) ys
           else std_rotate to_ndx from_ndx (from_ndx + 1) ys)"

definition insert_empty_at :: "'a \<Rightarrow> nat \<Rightarrow> 'a list \<Rightarrow> 'a list" where
  "insert_empty_at d i xs = (if i < length xs then take i xs @ d # drop i xs else xs)"

definition adjust_for_move :: "nat \<Rightarrow> nat \<Rightarrow> nat \<Rightarrow> nat" where
  "adjust_for_move from_ndx to_ndx value =
     (if value = from_ndx then to_ndx
      else if value > from_ndx \<and> value \<le> to_ndx then value - 1
      else if value < from_ndx \<and> value \<ge> to_ndx then value + 1
      else value)"

definition expand_to :: "nat \<Rightarrow> nat list \<Rightarrow> nat list" where
  "expand_to i cols =
     (let old_size = length cols in
      if old_size > i then cols
      else
        let new_size = max (old_size * 2) (i + 1);
            start = (if old_size = 0 then 0 else (cols ! (old_size - 1) + 1) mod 2 ^ 64)
        in cols @ map (\<lambda>k. (start + k) mod 2 ^ 64) [0..<new_size - old_size])"

definition adjust_ge :: "nat \<Rightarrow> nat list \<Rightarrow> nat list" where
  "adjust_ge i values = map (\<lambda>v. if v \<ge> i then v + 1 else v) values"

section \<open>The observer\<close>

text \<open>The search goes backwards: with several source versions the last list is the right one.\<close>

definition find_list :: "change_info \<Rightarrow> nat \<Rightarrow> nat \<Rightarrow> nat \<Rightarrow> builder_ref option" where
  "find_list ci tbl col row =
     map_option (\<lambda>l. Of_list (li_changes l))
       (find (\<lambda>l. li_table l = tbl \<and> li_row l = row \<and> li_col l = col) (rev (lists ci)))"

definition mark_dirty :: "nat \<Rightarrow> nat \<Rightarrow> observer \<Rightarrow> observer" where
  "mark_dirty row col ob = update_builder (active_table ob) (modify row col) ob"

text \<open>The setters ignore \<open>SetDefault\<close> and \<open>SetUnique\<close>.\<close>

definition mark_set :: "nat \<Rightarrow> nat \<Rightarrow> instruction \<Rightarrow> observer \<Rightarrow> observer" where
  "mark_set col row i ob = (if i = instr_Set then mark_dirty row col ob else ob)"

definition observer_parse_complete :: "observer \<Rightarrow> observer" where
  "observer_parse_complete ob =
     (let ob1 = set_info (\<lambda>ci. ci\<lparr>tables := map parse_complete (tables ci)\<rparr>) ob
      in foldl (\<lambda>ob l. update_builder (Some (Of_list (li_changes l))) clean_up_stale_moves ob)
           ob1 (lists (info ob1)))"

definition select_descriptor :: "nat list \<Rightarrow> observer \<Rightarrow> observer" where
  "select_descriptor path ob =
     (if path = [] then ob\<lparr>active_descriptor := active_table ob\<rparr>
      else ob\<lparr>active_descriptor := None\<rparr>)"

definition table_needed :: "bool list \<Rightarrow> change_info \<Rightarrow> nat \<Rightarrow> bool" where
  "table_needed needed ci t \<longleftrightarrow> track_all ci \<or> t < length needed \<and> needed ! t"

definition grow_tables :: "nat \<Rightarrow> change_info \<Rightarrow> change_info" where
  "grow_tables t ci =
     (if length (tables ci) \<le> t
      then ci\<lparr>tables := std_resize empty_builder (max (length (tables ci) * 2) (t + 1)) (tables ci)\<rparr>
      else ci)"

definition select_table :: "nat \<Rightarrow> (nat \<times> nat) list \<Rightarrow> observer \<Rightarrow> observer" where
  "select_table t path ob =
     (let ob1 = ob\<lparr>current_table := t, active_table := None, is_top_level_table := True\<rparr>
      in if length path > 1 then ob1\<lparr>is_top_level_table := False\<rparr>
         else if \<not> table_needed (modifications_needed (info ob1)) (info ob1) t then ob1
         else
           let ob2 = ob1\<lparr>need_move_info := table_needed (moves_needed (info ob1)) (info ob1) t\<rparr>;
               ob3 = (set_info (grow_tables t) ob2)\<lparr>active_table := Some (Of_table t)\<rparr>
           in case path of
                [] \<Rightarrow> ob3
              | (col, row) # _ \<Rightarrow>
                  let ob4 = (mark_dirty row col ob3)\<lparr>active_table := None, is_top_level_table := False\<rparr>
                  in case find_list (info ob4) t col row of
                       None \<Rightarrow> ob4
                     | Some r \<Rightarrow> ob4\<lparr>active_table := Some r, need_move_info := True\<rparr>)"

definition select_link_list :: "nat \<Rightarrow> nat \<Rightarrow> observer \<Rightarrow> observer" where
  "select_link_list col row ob =
     (let ob1 = mark_dirty row col ob
      in ob1\<lparr>active_list := find_list (info ob1) (current_table ob1) col row\<rparr>)"

definition link_list_set :: "nat \<Rightarrow> observer \<Rightarrow> observer" where
  "link_list_set i ob = update_builder (active_list ob) (modify i npos) ob"

definition link_list_insert :: "nat \<Rightarrow> observer \<Rightarrow> observer" where
  "link_list_insert i ob = update_builder (active_list ob) (cb_insert i 1 True) ob"

definition link_list_erase :: "nat \<Rightarrow> observer \<Rightarrow> observer" where
  "link_list_erase i ob = update_builder (active_list ob) (cb_erase i) ob"

definition link_list_swap :: "nat \<Rightarrow> nat \<Rightarrow> observer \<Rightarrow> observer" where
  "link_list_swap a b ob = link_list_set b (link_list_set a ob)"

definition link_list_clear :: "nat \<Rightarrow> observer \<Rightarrow> observer" where
  "link_list_clear old_size ob = update_builder (active_list ob) (cb_clear old_size) ob"

definition link_list_move :: "nat \<Rightarrow> nat \<Rightarrow> observer \<Rightarrow> observer" where
  "link_list_move a b ob = update_builder (active_list ob) (cb_move a b) ob"

definition insert_empty_rows :: "nat \<Rightarrow> nat \<Rightarrow> observer \<Rightarrow> observer" where
  "insert_empty_rows row n ob =
     (let ob1 = update_builder (active_table ob) (cb_insert row n (need_move_info ob)) ob
      in if \<not> is_top_level_table ob1 then ob1
         else update_lists (\<lambda>l. if li_table l = current_table ob1 \<and> li_row l \<ge> row
                                then l\<lparr>li_row := li_row l + n\<rparr> else l) ob1)"

text \<open>
  The loop of \<open>erase_rows\<close> over the lists.  A removed list is replaced by the last one, and the
  loop goes on with the next index.
\<close>

function erase_row_lists :: "nat \<Rightarrow> nat \<Rightarrow> nat \<Rightarrow> nat \<Rightarrow> list_info list \<Rightarrow> list_info list" where
  "erase_row_lists t row last_row i ls =
     (if i < length ls then
        let l = ls ! i in
        if li_table l \<noteq> t then erase_row_lists t row last_row (Suc i) ls
        else if li_row l = row then
          erase_row_lists t row last_row (Suc i)
            (butlast (if i + 1 < length ls then ls[i := last ls] else ls))
        else erase_row_lists t row last_row (Suc i)
               (if li_row l = last_row then ls[i := l\<lparr>li_row := row\<rparr>] else ls)
      else ls)"
  by auto
termination
  by (relation "measure (\<lambda>(t, row, last_row, i, ls). length ls - i)") auto

declare erase_row_lists.simps [simp del]

definition erase_rows :: "nat \<Rightarrow> nat \<Rightarrow> bool \<Rightarrow> observer \<Rightarrow> observer" where
  "erase_rows row prior unordered ob =
     (if \<not> unordered then update_builder (active_table ob) (cb_erase row) ob
      else
        let last_row = prior - 1;
            ob1 = update_builder (active_table ob) (move_over row last_row (need_move_info ob)) ob
        in if \<not> is_top_level_table ob1 then ob1
           else set_info (\<lambda>ci. ci\<lparr>lists :=
                  erase_row_lists (current_table ob1) row last_row 0 (lists ci)\<rparr>) ob1)"

definition observe_swap_rows :: "nat \<Rightarrow> nat \<Rightarrow> observer \<Rightarrow> observer" where
  "observe_swap_rows a b ob =
     (if \<not> is_top_level_table ob then
        update_builder (active_table ob)
          (\<lambda>c. let c1 = cb_move a b c in if a + 1 \<noteq> b then cb_move (b - 1) a c1 else c1) ob
      else
        let ob1 = update_builder (active_table ob) (cb_swap a b (need_move_info ob)) ob
        in update_lists (\<lambda>l. if li_table l = current_table ob1
                             then (if li_row l = a then l\<lparr>li_row := b\<rparr>
                                   else if li_row l = b then l\<lparr>li_row := a\<rparr> else l)
                             else l) ob1)"

definition move_row :: "nat \<Rightarrow> nat \<Rightarrow> observer \<Rightarrow> observer" where
  "move_row a b ob = update_builder (active_table ob) (cb_move a b) ob"

definition merge_rows :: "nat \<Rightarrow> nat \<Rightarrow> observer \<Rightarrow> observer" where
  "merge_rows a b ob =
     (let ob1 = update_builder (active_table ob) (subsume a b (need_move_info ob)) ob
      in if \<not> is_top_level_table ob1 then ob1
         else update_lists (\<lambda>l. if li_table l = current_table ob1 \<and> li_row l = a
                                then l\<lparr>li_row := b\<rparr> else l) ob1)"

definition clear_table :: "observer \<Rightarrow> observer" where
  "clear_table ob =
     (let ob1 = update_builder (active_table ob) (cb_clear npos) ob
      in if \<not> is_top_level_table ob1 then ob1
         else set_info (\<lambda>ci. ci\<lparr>lists := filter (\<lambda>l. li_table l \<noteq> current_table ob1) (lists ci)\<rparr>) ob1)"

definition at_current :: "nat \<Rightarrow> (nat list \<Rightarrow> nat list) \<Rightarrow> nat list list \<Rightarrow> nat list list" where
  "at_current t f css =
     (let css1 = (if length css \<le> t then std_resize [] (t + 1) css else css)
      in css1[t := f (css1 ! t)])"

definition track_inserted_column :: "nat \<Rightarrow> nat list \<Rightarrow> nat list" where
  "track_inserted_column i cols = (insert_empty_at 0 i (expand_to i cols))[i := npos]"

definition observe_insert_column :: "nat \<Rightarrow> observer \<Rightarrow> observer" where
  "observe_insert_column i ob =
     (let ob1 = set_info (\<lambda>ci. ci\<lparr>schema_changed := True\<rparr>) ob;
          ob2 = update_builder (active_descriptor ob1) (insert_column i) ob1
      in if active_descriptor ob2 \<noteq> active_table ob2 \<or> \<not> is_top_level_table ob2 then ob2
         else
           let ob3 = update_lists (\<lambda>l. if li_table l = current_table ob2 \<and> li_col l \<ge> i
                                       then l\<lparr>li_col := li_col l + 1\<rparr> else l) ob2
           in set_info (\<lambda>ci. ci\<lparr>column_indices :=
                at_current (current_table ob3) (track_inserted_column i) (column_indices ci)\<rparr>) ob3)"

definition prepare_table_indices :: "change_info \<Rightarrow> change_info" where
  "prepare_table_indices ci =
     (if table_indices ci = [] \<and> modifications_needed ci \<noteq> []
      then ci\<lparr>table_indices := [0..<length (modifications_needed ci)]\<rparr> else ci)"

definition insert_group_level_table :: "nat \<Rightarrow> observer \<Rightarrow> observer" where
  "insert_group_level_table i ob =
     (let ob1 = set_info (\<lambda>ci. ci\<lparr>schema_changed := True\<rparr>) ob;
          ob2 = update_lists (\<lambda>l. if li_table l \<ge> i then l\<lparr>li_table := li_table l + 1\<rparr> else l) ob1
      in set_info (\<lambda>ci.
           let ci1 = prepare_table_indices ci
           in ci1\<lparr>table_indices := adjust_ge i (table_indices ci1),
                  tables := insert_empty_at empty_builder i (tables ci1),
                  moves_needed := insert_empty_at False i (moves_needed ci1),
                  modifications_needed := insert_empty_at False i (modifications_needed ci1)\<rparr>) ob2)"

text \<open>The two methods that no instruction of the parser calls any more.\<close>

definition observe_move_column :: "nat \<Rightarrow> nat \<Rightarrow> observer \<Rightarrow> observer" where
  "observe_move_column a b ob =
     (let ob1 = set_info (\<lambda>ci. ci\<lparr>schema_changed := True\<rparr>) ob;
          ob2 = update_builder (active_descriptor ob1) (move_column a b) ob1
      in if active_descriptor ob2 \<noteq> active_table ob2 \<or> \<not> is_top_level_table ob2 then ob2
         else
           let ob3 = update_lists (\<lambda>l. if li_table l = current_table ob2
                                       then l\<lparr>li_col := adjust_for_move a b (li_col l)\<rparr> else l) ob2
           in set_info (\<lambda>ci. ci\<lparr>column_indices :=
                at_current (current_table ob3) (\<lambda>cols. rotate_at 0 a b (expand_to (max a b + 1) cols))
                  (column_indices ci)\<rparr>) ob3)"

definition move_group_level_table :: "nat \<Rightarrow> nat \<Rightarrow> observer \<Rightarrow> observer" where
  "move_group_level_table a b ob =
     (let ob1 = set_info (\<lambda>ci. ci\<lparr>schema_changed := True\<rparr>) ob;
          ob2 = update_lists (\<lambda>l. l\<lparr>li_table := adjust_for_move a b (li_table l)\<rparr>) ob1
      in set_info (\<lambda>ci.
           let ci1 = prepare_table_indices ci
           in ci1\<lparr>table_indices := map (adjust_for_move a b) (table_indices ci1),
                  tables := rotate_at empty_builder a b (tables ci1),
                  modifications_needed := rotate_at False a b (modifications_needed ci1),
                  moves_needed := rotate_at False a b (moves_needed ci1)\<rparr>) ob2)"

text \<open>
  The handler.  The assertions that rows are swapped in increasing order and that no row of a
  watched top level table is moved are conditions on logs, stated where they are needed.
\<close>

definition observe :: "observer handler" where
  "observe ob c =
     (if schema_error c then None
      else Some (case c of
        Select_table t path \<Rightarrow> select_table t path ob
      | Select_descriptor path \<Rightarrow> select_descriptor path ob
      | Select_link_list col row _ \<Rightarrow> select_link_list col row ob
      | Insert_group_level_table t _ _ \<Rightarrow> insert_group_level_table t ob
      | Insert_empty_rows row n _ _ \<Rightarrow> insert_empty_rows row n ob
      | Add_row_with_key row _ _ _ \<Rightarrow> insert_empty_rows row 1 ob
      | Erase_rows row _ prior unordered \<Rightarrow> erase_rows row prior unordered ob
      | Swap_rows a b \<Rightarrow> observe_swap_rows a b ob
      | Move_row a b \<Rightarrow> move_row a b ob
      | Merge_rows a b \<Rightarrow> merge_rows a b ob
      | Clear_table _ \<Rightarrow> clear_table ob
      | Set_int col row _ i _ \<Rightarrow> mark_set col row i ob
      | Set_bool col row _ i \<Rightarrow> mark_set col row i ob
      | Set_float col row _ i \<Rightarrow> mark_set col row i ob
      | Set_double col row _ i \<Rightarrow> mark_set col row i ob
      | Set_string col row _ i _ \<Rightarrow> mark_set col row i ob
      | Set_binary col row _ i \<Rightarrow> mark_set col row i ob
      | Set_olddatetime col row _ i \<Rightarrow> mark_set col row i ob
      | Set_timestamp col row _ _ i \<Rightarrow> mark_set col row i ob
      | Set_table col row i \<Rightarrow> mark_set col row i ob
      | Set_mixed col row _ i \<Rightarrow> mark_set col row i ob
      | Set_link col row _ _ i \<Rightarrow> mark_set col row i ob
      | Set_null col row i _ \<Rightarrow> mark_set col row i ob
      | Add_int col row _ \<Rightarrow> mark_dirty row col ob
      | Nullify_link col row _ \<Rightarrow> mark_dirty row col ob
      | Insert_substring col row _ _ \<Rightarrow> mark_dirty row col ob
      | Erase_substring col row _ _ \<Rightarrow> mark_dirty row col ob
      | Insert_column i _ _ _ \<Rightarrow> observe_insert_column i ob
      | Insert_link_column i _ _ _ _ \<Rightarrow> observe_insert_column i ob
      | Link_list_set i _ _ \<Rightarrow> link_list_set i ob
      | Link_list_insert i _ _ \<Rightarrow> link_list_insert i ob
      | Link_list_erase i _ \<Rightarrow> link_list_erase i ob
      | Link_list_nullify i _ \<Rightarrow> link_list_erase i ob
      | Link_list_swap a b \<Rightarrow> link_list_swap a b ob
      | Link_list_clear n \<Rightarrow> link_list_clear n ob
      | Link_list_move a b \<Rightarrow> link_list_move a b ob
      | _ \<Rightarrow> ob))"

end
