(* ===== verification/ObserverTables.thy ===== *)
theory ObserverTables imports LogObserver ChangeMoveOver begin

text \<open>
  The change set of one watched table.  The specification keeps the table's rows as a list that
  holds, for each row, its index before the transaction, or \<open>None\<close> for a new row; the row
  instructions append, replace by the last, exchange or drop rows.  \<open>table_inv\<close> relates the change
  set to this list, and the operations of the change set preserve it.
\<close>

section \<open>Deletions and insertions of an unordered table\<close>

text \<open>
  Rows of an unordered table stay where they are unless they are moved explicitly: among the old
  positions, the deleted ones are those that hold another row now or are past the end.
\<close>

definition fixed_rows :: "nat \<Rightarrow> nat \<Rightarrow> nat set \<Rightarrow> nat set \<Rightarrow> bool" where
  "fixed_rows old n D I \<longleftrightarrow>
     (\<forall>k<old. k \<in> D \<longleftrightarrow> k \<in> I \<or> n \<le> k) \<and> I \<subseteq> {..<n} \<and> {old..<n} \<subseteq> I"

lemma rank_same_below: "D \<inter> {..<x} = I \<inter> {..<x} \<Longrightarrow> rank D x = rank I x"
  by (simp add: rank_def)

lemma fixed_below:
  assumes "fixed_rows old n D I" "x < n" "x < old"
  shows "D \<inter> {..<x} = I \<inter> {..<x}"
  using assms by (auto simp: fixed_rows_def)

lemma fixed_free:
  assumes "fixed_rows old n D I" "x < n" "x \<notin> I"
  shows "x < old" "x \<notin> D" "D \<inter> {..<x} = I \<inter> {..<x}"
proof -
  have "x \<in> {old..<n} \<longrightarrow> x \<in> I" using assms(1) unfolding fixed_rows_def by blast
  then show "x < old" using assms(2,3) by (cases "x < old") simp_all
  then show "x \<notin> D" "D \<inter> {..<x} = I \<inter> {..<x}"
    using assms fixed_below by (auto simp: fixed_rows_def)
qed

lemma add_shifted_fixed:
  assumes "crv_wf Dm" "crv_wf Im" "x \<notin> indices Dm" "x \<notin> indices Im"
    "indices Dm \<inter> {..<x} = indices Im \<inter> {..<x}"
  shows "\<exists>D'. is_add_shifted Dm (is_unshift Im x) = (D', x) \<and> crv_wf D' \<and>
    indices D' = insert x (indices Dm)"
proof -
  obtain D' s where e: "is_add_shifted Dm (is_unshift Im x) = (D', s)" by fastforce
  note a = is_add_shifted_ok [OF assms(1) e]
  have "rank (indices Dm) s = rank (indices Dm) x"
    using a(2) is_shift_ok(2) [OF assms(1)] is_unshift_ok [OF assms(2)] rank_same_below [OF assms(5)]
    by simp
  moreover have "s \<notin> indices Dm" using a(2) is_shift_ok(1) [OF assms(1)] by simp
  ultimately have "s = x" using assms(3) rank_inj by blast
  then show ?thesis using e a by simp
qed

lemma fixed_rows_insert:
  assumes "fixed_rows old n D I"
  shows "fixed_rows old (n + m) D (open_gap n m I \<union> {n..<n + m})"
proof -
  have "open_gap n m I = I" using assms by (force simp: open_gap_def fixed_rows_def)
  then show ?thesis using assms by (auto simp: fixed_rows_def)
qed

lemma fixed_rows_clear: "fixed_rows old 0 {..<npos} {}" if "old \<le> npos"
  using that by (auto simp: fixed_rows_def)

lemma fixed_rows_swap:
  assumes "fixed_rows old n D I" "a < n" "b < n"
  shows "fixed_rows old n (D \<union> ({a, b} - I)) (I \<union> {a, b})"
  using assms by (auto simp: fixed_rows_def)

lemma fixed_rows_over:
  assumes "fixed_rows old (Suc l) D I" "row \<le> l"
  shows "row < l \<Longrightarrow> fixed_rows old l (D \<union> ({row, l} - I)) ((I - {l}) \<union> {row})"
    "fixed_rows old l (if l \<in> I then D else insert l D) (I - {l})"
proof -
  have "k = l" if "l \<le> k" "\<not> Suc l \<le> k" for k using that by simp
  then show "row < l \<Longrightarrow> fixed_rows old l (D \<union> ({row, l} - I)) ((I - {l}) \<union> {row})"
    "fixed_rows old l (if l \<in> I then D else insert l D) (I - {l})"
    using assms by (auto simp: fixed_rows_def less_Suc_eq not_le)
qed

section \<open>How the operations change the two sets\<close>

definition free_fixed :: "change_builder \<Rightarrow> nat \<Rightarrow> bool" where
  "free_fixed b x \<longleftrightarrow> x \<notin> indices (insertions b) \<longrightarrow>
     x \<notin> indices (deletions b) \<and>
     indices (deletions b) \<inter> {..<x} = indices (insertions b) \<inter> {..<x}"

lemma add_swap_move_all:
  assumes "sets_ok b" "free_fixed b x"
  shows "indices (deletions (add_swap_move x dst b)) =
      indices (deletions b) \<union> ({x} - indices (insertions b)) \<and>
    indices (insertions (add_swap_move x dst b)) = insert x (indices (insertions b)) \<and>
    sets_ok (add_swap_move x dst b)"
proof (cases "x \<in> indices (insertions b)")
  case True
  then show ?thesis using assms(1) sets_ok_parts [OF assms(1)]
    by (simp add: add_swap_move_def is_contains_ok insert_absorb)
next
  case False
  note w = sets_ok_parts [OF assms(1)]
  obtain D' where "is_add_shifted (deletions b) (is_unshift (insertions b) x) = (D', x)"
    "crv_wf D'" "indices D' = insert x (indices (deletions b))"
    using add_shifted_fixed [OF w, of x] assms(2) False unfolding free_fixed_def by blast
  then show ?thesis using False assms(1) w is_add_ok [OF w(2)]
    by (simp add: add_swap_move_def is_contains_ok sets_ok_def insert_Diff_if)
qed

lemmas add_swap_move_sets =
  add_swap_move_all [THEN conjunct1] add_swap_move_all [THEN conjunct2, THEN conjunct1]
  add_swap_move_all [THEN conjunct2, THEN conjunct2]

lemma fixed_free_fixed:
  "fixed_rows old n (indices (deletions b)) (indices (insertions b)) \<Longrightarrow> x < n \<Longrightarrow> free_fixed b x"
  using fixed_free by (auto simp: free_fixed_def)

lemma for_each_col_sets_ok:
  "sets_ok b \<Longrightarrow> (\<And>c. crv_wf c \<Longrightarrow> crv_wf (f c)) \<Longrightarrow> sets_ok (for_each_col f b)"
  by (auto simp: sets_ok_def for_each_col_def)

text \<open>Both rows of a swap count as deleted and inserted, whichever of the four branches is taken.\<close>

lemma swap_two_sets:
  assumes "sets_ok b" "fixed_rows old n (indices (deletions b)) (indices (insertions b))"
    "x < y" "y < n"
  defines "r \<equiv> add_swap_move x y (add_swap_move y x b)"
  shows "indices (deletions r) = indices (deletions b) \<union> ({x, y} - indices (insertions b))"
    "indices (insertions r) = indices (insertions b) \<union> {x, y}"
proof -
  let ?b1 = "add_swap_move y x b"
  have f: "free_fixed b y" "free_fixed b x"
    using assms(2-4) fixed_free_fixed [of old n b y] fixed_free_fixed [of old n b x] by simp_all
  note a = add_swap_move_sets [OF assms(1) f(1), where dst = x]
  have "(D \<union> ({y} - I)) \<inter> {..<x} = insert y I \<inter> {..<x}" if "D \<inter> {..<x} = I \<inter> {..<x}" for D I :: "nat set"
    using that assms(3) by (simp add: Int_Un_distrib2 insert_Diff_if)
  then have "free_fixed ?b1 x"
    using f(2) assms(3) unfolding free_fixed_def a(1,2) by simp
  note c = add_swap_move_sets [OF a(3) this, where dst = y]
  show "indices (deletions r) = indices (deletions b) \<union> ({x, y} - indices (insertions b))"
    "indices (insertions r) = indices (insertions b) \<union> {x, y}"
    unfolding r_def c(1,2) a(1,2) using assms(3) by auto
qed

lemma cb_swap_sets:
  assumes "cb_ok b" "fixed_rows old n (indices (deletions b)) (indices (insertions b))"
    "x < y" "y < n"
  shows "fixed_rows old n (indices (deletions (cb_swap x y True b))) (indices (insertions (cb_swap x y True b)))"
proof -
  let ?b1 = "for_each_col (swap_col x y) b" and ?r = "cb_swap x y True b"
  let ?D = "indices (deletions b)" and ?I = "indices (insertions b)"
  have s: "sets_ok b" using assms(1) by (simp add: cb_ok_def)
  have s1: "sets_ok ?b1"
    by (rule for_each_col_sets_ok [OF s]) (simp add: swap_col_ok less_imp_neq [OF assms(3)])
  have f1: "fixed_rows old n (indices (deletions ?b1)) (indices (insertions ?b1))" using assms(2) by simp
  have mem: "z \<in> ?I" if "map_of (move_mapping b) z = Some i" for z i
    using mapping_sets [OF assms(1) that] by blast
  have s2: "sets_ok (?b1\<lparr>move_mapping := mm\<rparr>)" for mm using s1 by (simp add: sets_ok_def)
  have free: "free_fixed (?b1\<lparr>move_mapping := mm\<rparr>) z" if "z < n" for mm z
    using fixed_free_fixed [OF assms(2) that] by (simp add: free_fixed_def)
  have one: "indices (deletions (add_swap_move z dst (?b1\<lparr>move_mapping := mm\<rparr>))) = ?D \<union> ({z} - ?I)"
    "indices (insertions (add_swap_move z dst (?b1\<lparr>move_mapping := mm\<rparr>))) = insert z ?I"
    if "z < n" for z dst mm
    using add_swap_move_sets(1,2) [OF s2 free [OF that]] by simp_all
  have lt: "\<not> y < x" "x < n" using assms(3,4) by simp_all
  have sets: "indices (deletions ?r) = ?D \<union> ({x, y} - ?I) \<and> indices (insertions ?r) = ?I \<union> {x, y}"
  proof (cases "map_of (move_mapping b) x"; cases "map_of (move_mapping b) y")
    assume m: "map_of (move_mapping b) x = None" "map_of (move_mapping b) y = None"
    then show ?thesis using swap_two_sets [OF s1 f1 assms(3,4)] lt by (simp add: cb_swap_def Let_def)
  next
    fix j assume m: "map_of (move_mapping b) x = None" "map_of (move_mapping b) y = Some j"
    then show ?thesis using mem [OF m(2)] lt one [OF lt(2)]
      by (simp add: cb_swap_def Let_def update_move_def insert_absorb insert_commute insert_Diff_if)
  next
    fix i assume m: "map_of (move_mapping b) x = Some i" "map_of (move_mapping b) y = None"
    then show ?thesis using mem [OF m(1)] lt one [OF assms(4)]
      by (simp add: cb_swap_def Let_def update_move_def insert_absorb insert_commute insert_Diff_if)
  next
    fix i j assume m: "map_of (move_mapping b) x = Some i" "map_of (move_mapping b) y = Some j"
    then show ?thesis using lt mem [OF m(1)] mem [OF m(2)]
      by (simp add: cb_swap_def Let_def insert_absorb)
  qed
  then show ?thesis using fixed_rows_swap [OF assms(2), of x y] assms(3,4) by simp
qed

lemma over_rows_sets:
  assumes "cb_ok b" "fixed_rows old (Suc l) (indices (deletions b)) (indices (insertions b))" "row < l"
  shows "fixed_rows old l (indices (deletions (over_rows row l b))) (indices (insertions (over_rows row l b)))"
proof -
  let ?r = "over_rows row l b"
  let ?D = "indices (deletions b)" and ?I = "indices (insertions b)"
  have s: "sets_ok b" using assms(1) by (simp add: cb_ok_def)
  note w = sets_ok_parts [OF s]
  have le: "?I \<subseteq> {..l}" using assms(2) by (auto simp: fixed_rows_def)
  have li: "(insertions b \<noteq> [] \<and> last_end (insertions b) = l + 1) = (l \<in> ?I)"
    by (rule last_end_member [OF w(2) le])
  define D3 where "D3 = (if l \<in> ?I then deletions b
    else fst (is_add_shifted (deletions b) (is_unshift (insertions b) l)))"
  define I3 where "I3 = (if l \<in> ?I then is_remove (insertions b) l 1 else insertions b)"
  have dr: "deletions ?r = (if row \<in> ?I then D3 else fst (is_add_shifted D3 (is_unshift I3 row)))"
    and ir: "insertions ?r = (if row \<in> ?I then I3 else is_add I3 row)"
    unfolding over_rows_def li D3_def I3_def
    by (auto simp: Let_def is_contains_ok w(2) split: option.splits prod.splits)
  have l: "free_fixed b l" and row: "free_fixed b row"
    using assms(3) by (auto intro: fixed_free_fixed [OF assms(2)])
  have D3: "crv_wf D3 \<and> indices D3 = ?D \<union> ({l} - ?I)"
  proof (cases "l \<in> ?I")
    case False
    then obtain D' where "is_add_shifted (deletions b) (is_unshift (insertions b) l) = (D', l)"
      "crv_wf D'" "indices D' = insert l ?D"
      using add_shifted_fixed [OF w, of l] l unfolding free_fixed_def by blast
    then show ?thesis using False by (simp add: D3_def insert_Diff_if)
  qed (simp add: D3_def w insert_Diff_if)
  have I3: "crv_wf I3" "indices I3 = ?I - {l}"
    using w is_remove_ok [OF w(2), of 1 l] by (simp_all add: I3_def)
  have "indices (deletions ?r) = ?D \<union> ({row, l} - ?I)"
  proof (cases "row \<in> ?I")
    case False
    have e: "(D \<union> ({l} - I)) \<inter> {..<row} = (I - {l}) \<inter> {..<row}" if "D \<inter> {..<row} = I \<inter> {..<row}"
      for D I :: "nat set"
    proof -
      have "(D \<union> ({l} - I)) \<inter> {..<row} = D \<inter> {..<row}" "(I - {l}) \<inter> {..<row} = I \<inter> {..<row}"
        using assms(3) by auto
      then show ?thesis using that by simp
    qed
    have r: "row \<notin> ?D" "?D \<inter> {..<row} = ?I \<inter> {..<row}" using row False unfolding free_fixed_def by blast+
    have "row \<notin> indices D3" "row \<notin> indices I3" "indices D3 \<inter> {..<row} = indices I3 \<inter> {..<row}"
      using e [OF r(2)] r(1) False assms(3) by (simp_all add: D3 I3)
    from add_shifted_fixed [OF D3 [THEN conjunct1] I3(1) this] show ?thesis
      using dr False D3 by (auto simp: insert_Diff_if)
  next
    case True
    then show ?thesis using dr D3 by (simp add: insert_Diff_if)
  qed
  moreover have "indices (insertions ?r) = ?I - {l} \<union> {row}"
    using ir I3 is_add_ok [OF I3(1), of row] assms(3) by (simp add: insert_absorb)
  ultimately show ?thesis using fixed_rows_over(1) [OF assms(2) _ assms(3)] assms(3) by simp
qed

lemma move_over_sets:
  assumes "cb_ok b" "fixed_rows old (Suc l) (indices (deletions b)) (indices (insertions b))" "row \<le> l"
    "\<forall>c\<in>set (modifications b # columns b). indices c \<subseteq> {..l}" "l < npos"
  shows "fixed_rows old l (indices (deletions (move_over row l True b)))
    (indices (insertions (move_over row l True b)))"
proof (cases "row = l")
  case False
  let ?b1 = "for_each_col (move_over_col row l) b"
  have s: "sets_ok b" using assms(1) by (simp add: cb_ok_def)
  have "sets_ok ?b1"
    by (rule for_each_col_ok(1) [OF s]) (rule move_over_col_ok [OF False], use assms(4) in auto)
  then have "cb_ok ?b1" using for_each_col_rows(1) [OF assms(1)] by blast
  then show ?thesis using over_rows_sets [of ?b1 old l row] assms(2,3) False by (simp add: move_over_eq)
next
  case True
  let ?D = "indices (deletions b)" and ?I = "indices (insertions b)"
  have s: "sets_ok b" using assms(1) by (simp add: cb_ok_def)
  note w = sets_ok_parts [OF s]
  obtain I u where e: "is_erase_or_unshift (insertions b) l = (I, u)" by fastforce
  note k = is_erase_or_unshift_ok [OF w(2) e]
  have le: "?I \<subseteq> {..l}" using assms(2) by (auto simp: fixed_rows_def)
  have I: "indices I = ?I - {l}" using k(2) le by (auto simp: close_gap_def)
  have D: "indices (if u \<noteq> npos then fst (is_add_shifted (deletions b) u) else deletions b) =
      (if l \<in> ?I then ?D else insert l ?D)"
  proof (cases "l \<in> ?I")
    case False
    have "rank ?I l \<le> l" by (simp add: rank_def)
    then have u: "u \<noteq> npos" "u = is_unshift (insertions b) l"
      using k(3) False assms(5) is_unshift_ok [OF w(2)] by simp_all
    have "free_fixed b l" using fixed_free_fixed [OF assms(2)] by simp
    then obtain D' where "is_add_shifted (deletions b) (is_unshift (insertions b) l) = (D', l)"
      "indices D' = insert l ?D"
      using add_shifted_fixed [OF w, of l] False unfolding free_fixed_def by blast
    then show ?thesis using u False by simp
  qed (use k(3) in simp)
  show ?thesis using fixed_rows_over(2) [OF assms(2,3)] I D True e by (simp add: move_over_eq)
qed

end
