(* ===== verification/ObserverRows.thy ===== *)
theory ObserverRows imports ObserverTables begin

text \<open>
  The abstract view of a watched table: for each row its index before the transaction,
  \<open>None\<close> for a new row, and whether it was modified.  \<open>table_inv\<close> relates the change set to
  these rows, and every operation that the observer applies to the change set preserves it.
\<close>

section \<open>Rows\<close>

type_synonym table_row = "nat option \<times> bool"

definition unchanged_rows :: "nat \<Rightarrow> table_row list" where
  "unchanged_rows n = map (\<lambda>i. (Some i, False)) [0..<n]"

definition append_rows :: "nat \<Rightarrow> table_row list \<Rightarrow> table_row list" where
  "append_rows n rows = rows @ replicate n (None, False)"

definition replace_by_last :: "nat \<Rightarrow> table_row list \<Rightarrow> table_row list" where
  "replace_by_last row rows = butlast (rows[row := last rows])"

definition exchange_rows :: "nat \<Rightarrow> nat \<Rightarrow> table_row list \<Rightarrow> table_row list" where
  "exchange_rows a b rows = rows[a := rows ! b, b := rows ! a]"

definition touch_row :: "nat \<Rightarrow> table_row list \<Rightarrow> table_row list" where
  "touch_row row rows = rows[row := (fst (rows ! row), True)]"

definition rows_map :: "table_row list \<Rightarrow> (nat \<times> nat) set" where
  "rows_map rows = {(i, j). j < length rows \<and> fst (rows ! j) = Some i}"

definition rows_marked :: "table_row list \<Rightarrow> nat set" where
  "rows_marked rows = {j. j < length rows \<and> snd (rows ! j)}"

definition table_inv :: "nat \<Rightarrow> table_row list \<Rightarrow> change_builder \<Rightarrow> bool" where
  "table_inv old rows b \<longleftrightarrow>
     cb_ok b \<and> moves b = [] \<and> track_columns b \<and> length rows \<le> npos \<and> old \<le> npos \<and>
     fixed_rows old (length rows) (indices (deletions b)) (indices (insertions b)) \<and>
     (\<forall>c\<in>set (columns b). indices c \<subseteq> {..<length rows}) \<and>
     indices (modifications b) = rows_marked rows \<and>
     row_map b \<inter> UNIV \<times> {..<length rows} = rows_map rows"

lemma table_inv_start:
  assumes "old \<le> npos"
  shows "table_inv old (unchanged_rows old) empty_builder"
  using assms
  by (auto simp: table_inv_def unchanged_rows_def empty_builder_def new_builder_def cb_ok_def sets_ok_def
      moves_ok_def all_moves_def row_map_def fixed_rows_def rows_marked_def rows_map_def)

section \<open>Steps\<close>

text \<open>
  A step between positions carries rows to rows: each new row comes from one old row, or from
  none, and then it is a new row.
\<close>

definition step_ok :: "(nat \<times> nat) set \<Rightarrow> table_row list \<Rightarrow> table_row list \<Rightarrow> bool" where
  "step_ok step rows rows' \<longleftrightarrow>
     (\<forall>k<length rows'.
        (\<exists>j<length rows. (\<forall>j'. (j', k) \<in> step \<longleftrightarrow> j' = j) \<and> rows' ! k = rows ! j) \<or>
        (\<forall>j. (j, k) \<notin> step) \<and> rows' ! k = (None, False)) \<and>
     (\<forall>j<length rows. \<forall>k. (j, k) \<in> step \<longrightarrow> k < length rows')"

lemma step_okI:
  assumes "\<And>k. k < length rows' \<Longrightarrow> case from_row k of
      Some j \<Rightarrow> j < length rows \<and> (\<forall>j'. (j', k) \<in> step \<longleftrightarrow> j' = j) \<and> rows' ! k = rows ! j
    | None \<Rightarrow> (\<forall>j. (j, k) \<notin> step) \<and> rows' ! k = (None, False)"
    and "\<And>j k. j < length rows \<Longrightarrow> (j, k) \<in> step \<Longrightarrow> k < length rows'"
  shows "step_ok step rows rows'"
  unfolding step_ok_def
proof (intro conjI allI impI)
  fix k
  assume "k < length rows'"
  from assms(1) [OF this]
  show "(\<exists>j<length rows. (\<forall>j'. (j', k) \<in> step \<longleftrightarrow> j' = j) \<and> rows' ! k = rows ! j) \<or>
      (\<forall>j. (j, k) \<notin> step) \<and> rows' ! k = (None, False)"
    by (cases "from_row k") auto
qed (use assms(2) in blast)

lemma step_ok_rows_map:
  assumes "step_ok step rows rows'" "R \<inter> UNIV \<times> {..<length rows} = rows_map rows"
  shows "(R O step) \<inter> UNIV \<times> {..<length rows'} = rows_map rows'"
proof -
  have R: "(i, j) \<in> R \<longleftrightarrow> fst (rows ! j) = Some i" if "j < length rows" for i j
  proof -
    have "(i, j) \<in> R \<longleftrightarrow> (i, j) \<in> R \<inter> UNIV \<times> {..<length rows}" using that by simp
    then show ?thesis unfolding assms(2) using that by (simp add: rows_map_def)
  qed
  have "(i, k) \<in> R O step \<longleftrightarrow> fst (rows' ! k) = Some i" if "k < length rows'" for i k
  proof -
    have "(\<exists>j<length rows. (\<forall>j'. (j', k) \<in> step \<longleftrightarrow> j' = j) \<and> rows' ! k = rows ! j) \<or>
        (\<forall>j. (j, k) \<notin> step) \<and> rows' ! k = (None, False)"
      using assms(1) that by (simp add: step_ok_def)
    then consider j where "j < length rows" "\<forall>j'. (j', k) \<in> step \<longleftrightarrow> j' = j" "rows' ! k = rows ! j"
      | "\<forall>j. (j, k) \<notin> step" "rows' ! k = (None, False)"
      by (elim disjE exE conjE) blast+
    then show ?thesis
    proof cases
      case 1
      then show ?thesis using R [of j i] by auto
    qed auto
  qed
  then show ?thesis by (auto simp: rows_map_def)
qed

lemma step_ok_marked:
  assumes "step_ok step rows rows'"
  shows "step `` rows_marked rows = rows_marked rows'"
proof (intro set_eqI iffI)
  fix k
  assume "k \<in> step `` rows_marked rows"
  then obtain j where j: "j < length rows" "snd (rows ! j)" "(j, k) \<in> step"
    by (auto simp: rows_marked_def)
  then have k: "k < length rows'" using assms by (auto simp: step_ok_def)
  then show "k \<in> rows_marked rows'" using assms j by (fastforce simp: step_ok_def rows_marked_def)
next
  fix k
  assume "k \<in> rows_marked rows'"
  then show "k \<in> step `` rows_marked rows" using assms by (fastforce simp: step_ok_def rows_marked_def)
qed

lemma carried_columns:
  assumes "carried step b b'" "track_columns b" "c' \<in> set (columns b')"
  obtains c where "c \<in> set (columns b)" "indices c' = step `` indices c"
proof -
  have "map indices (columns b') = map (Image step) (map indices (columns b))"
    using assms(1,2) by (simp add: marks_def)
  then have "indices c' \<in> set (map (Image step) (map indices (columns b)))" using assms(3) by (metis imageI set_map)
  then show thesis using that by auto
qed

lemma table_inv_step:
  assumes "table_inv old rows b" "step_ok step rows rows'"
    and "cb_ok b'" "moves b' = []" "track_columns b'" "length rows' \<le> npos"
    and "fixed_rows old (length rows') (indices (deletions b')) (indices (insertions b'))"
    and "row_map b' \<inter> UNIV \<times> {..<length rows'} = (row_map b O step) \<inter> UNIV \<times> {..<length rows'}"
    and "carried step b b'"
  shows "table_inv old rows' b'"
proof -
  have t: "track_columns b" "indices (modifications b) = rows_marked rows" "old \<le> npos"
    "row_map b \<inter> UNIV \<times> {..<length rows} = rows_map rows"
    using assms(1) by (simp_all add: table_inv_def)
  have "indices c \<subseteq> {..<length rows'}" if c: "c \<in> set (columns b')" for c
  proof -
    obtain c0 where "c0 \<in> set (columns b)" "indices c = step `` indices c0"
      using carried_columns [OF assms(9) t(1) c] .
    moreover have "\<forall>c\<in>set (columns b). indices c \<subseteq> {..<length rows}" using assms(1) by (simp add: table_inv_def)
    moreover have "k < length rows'" if "j < length rows" "(j, k) \<in> step" for j k
      using assms(2) that by (simp add: step_ok_def)
    ultimately show ?thesis by blast
  qed
  moreover have "indices (modifications b') = rows_marked rows'"
    using assms(9) t step_ok_marked [OF assms(2)] by (simp add: marks_def)
  ultimately show ?thesis
    using assms(3-8) t(3) step_ok_rows_map [OF assms(2) t(4)] by (simp add: table_inv_def)
qed

section \<open>Operations\<close>

lemma track_columns_ops [simp]:
  "track_columns (cb_insert i n True b) = track_columns b"
  "track_columns (cb_clear n b) = track_columns b"
  "track_columns (modify row col b) = track_columns b"
  by (simp_all add: cb_insert_def cb_clear_def modify_def for_each_col_def Let_def)

lemma add_swap_move_track [simp]: "track_columns (add_swap_move x y b) = track_columns b"
  by (simp add: add_swap_move_def split: prod.split)

lemma cb_swap_track [simp]: "track_columns (cb_swap x y True b) = track_columns b"
proof -
  have "track_columns (swap_rows x y b) = track_columns b" for x y b
    by (simp add: swap_rows_def update_move_def split: option.split)
  then show ?thesis by (simp add: cb_swap_eq)
qed

lemma move_over_track [simp]: "track_columns (move_over row l True b) = track_columns b"
  by (simp add: move_over_eq over_rows_def Let_def split: option.splits prod.splits)

lemma table_inv_insert:
  assumes "table_inv old rows b" "length rows + n \<le> npos" "0 < n"
  shows "table_inv old (append_rows n rows) (cb_insert (length rows) n True b)"
proof -
  have b: "cb_ok b" "moves b = []" "track_columns b"
    "fixed_rows old (length rows) (indices (deletions b)) (indices (insertions b))"
    using assms(1) by (simp_all add: table_inv_def)
  let ?r = "cb_insert (length rows) n True b"
  note k = cb_insert_ok [OF b(1) assms(3), of "length rows"]
  have wf: "crv_wf (insertions b)" using b(1) by (simp add: cb_ok_def sets_ok_def)
  have st: "step_ok (insert_step (length rows) n) rows (append_rows n rows)"
    by (rule step_okI [where from_row = "\<lambda>k. if k < length rows then Some k else None"])
      (auto simp: insert_step_def append_rows_def nth_append split: if_splits)
  have r: "moves ?r = []" "deletions ?r = deletions b"
    "insertions ?r = is_insert_at (insertions b) (length rows) n"
    using b(2) by (simp_all add: cb_insert_def Let_def for_each_col_def)
  have "fixed_rows old (length rows + n) (indices (deletions ?r)) (indices (insertions ?r))"
    using fixed_rows_insert [OF b(4)] r is_insert_at_ok [OF wf] by simp
  then show ?thesis
    using table_inv_step [OF assms(1) st k(1) r(1)] k b(3) assms(2) by (simp add: append_rows_def)
qed

lemma table_inv_swap:
  assumes "table_inv old rows b" "x < y" "y < length rows"
  shows "table_inv old (exchange_rows x y rows) (cb_swap x y True b)"
proof -
  have b: "cb_ok b" "moves b = []" "track_columns b" "length rows \<le> npos"
    "fixed_rows old (length rows) (indices (deletions b)) (indices (insertions b))"
    using assms(1) by (simp_all add: table_inv_def)
  note k = cb_swap_ok [OF b(1,2) less_imp_neq [OF assms(2)]]
  have "step_ok (swap_step x y) rows (exchange_rows x y rows)"
    using assms(2,3)
    by (intro step_okI [where from_row = "\<lambda>k. Some (if k = x then y else if k = y then x else k)"])
      (auto simp: swap_step_def exchange_rows_def nth_list_update split: if_splits)
  then show ?thesis
    using table_inv_step [OF assms(1) _ k(1,4)] k b cb_swap_sets [OF b(1,5) assms(2,3)]
    by (simp add: exchange_rows_def)
qed

lemma table_inv_over:
  assumes "table_inv old rows b" "row < length rows"
  shows "table_inv old (replace_by_last row rows) (move_over row (length rows - 1) True b)"
proof -
  obtain l where l: "length rows = Suc l" using assms(2) by (cases rows) auto
  have b: "cb_ok b" "moves b = []" "track_columns b" "length rows \<le> npos"
    "fixed_rows old (Suc l) (indices (deletions b)) (indices (insertions b))"
    "\<forall>c\<in>set (columns b). indices c \<subseteq> {..l}" "indices (modifications b) \<subseteq> {..l}"
    using assms(1) l by (auto simp: table_inv_def rows_marked_def lessThan_Suc_atMost)
  have w: "within_table l b" using b(5-7) by (auto simp: within_table_def fixed_rows_def)
  have le: "row \<le> l" "l < npos" using assms(2) l b(4) by simp_all
  note k = move_over_ok [OF b(1,2) w le]
  have len: "length (replace_by_last row rows) = l" using l by (simp add: replace_by_last_def)
  have nth: "replace_by_last row rows ! k = (if k = row then rows ! l else rows ! k)" if "k < l" for k
  proof -
    have "rows \<noteq> []" using l by auto
    then have "last rows = rows ! l" using l by (simp add: last_conv_nth)
    then show ?thesis using that l by (simp add: replace_by_last_def nth_butlast nth_list_update)
  qed
  have "step_ok (over_step row l) rows (replace_by_last row rows)"
    using l le by (intro step_okI [where from_row = "\<lambda>k. Some (if k = row then l else k)"])
      (auto simp: over_step_def len nth split: if_splits)
  moreover have "fixed_rows old l (indices (deletions (move_over row l True b)))
      (indices (insertions (move_over row l True b)))"
    using move_over_sets [OF b(1,5) le(1) _ le(2)] b(6,7) by simp
  ultimately show ?thesis
    using table_inv_step [OF assms(1) _ k(1,4)] k(2,3) b(3) le l len by (simp flip: k(2))
qed

lemma table_inv_clear:
  assumes "table_inv old rows b"
  shows "table_inv old [] (cb_clear npos b)"
  using assms fixed_rows_clear [of old] is_set_ok [of npos]
  by (simp add: table_inv_def cb_clear_def cb_ok_def sets_ok_def moves_ok_def all_moves_def rows_marked_def
      rows_map_def)

lemma table_inv_marks:
  assumes "table_inv old rows b" "length rows' = length rows"
    and "\<forall>j<length rows. fst (rows' ! j) = fst (rows ! j)"
    and "deletions b' = deletions b" "insertions b' = insertions b" "moves b' = moves b"
    and "move_mapping b' = move_mapping b" "track_columns b' = track_columns b"
    and "crv_wf (modifications b')" "indices (modifications b') = rows_marked rows'"
    and "\<forall>c\<in>set (columns b'). crv_wf c \<and> indices c \<subseteq> {..<length rows}"
  shows "table_inv old rows' b'"
proof -
  have "rows_map rows' = rows_map rows" using assms(2,3) by (auto simp: rows_map_def)
  moreover have "all_moves b' = all_moves b" using assms(6,7) by (simp add: all_moves_def)
  then have "row_map b' = row_map b" "cb_ok b'"
    using assms(1,4,5,9,11) by (simp_all add: table_inv_def row_map_def cb_ok_def sets_ok_def)
  ultimately show ?thesis using assms by (simp add: table_inv_def)
qed

lemma table_inv_modify:
  assumes "table_inv old rows b" "row < length rows"
  shows "table_inv old (touch_row row rows) (modify row col b)"
proof -
  have b: "crv_wf (modifications b)" "\<forall>c\<in>set (columns b). crv_wf c \<and> indices c \<subseteq> {..<length rows}"
    "indices (modifications b) = rows_marked rows"
    using assms(1) by (auto simp: table_inv_def cb_ok_def sets_ok_def)
  have marked: "rows_marked (touch_row row rows) = insert row (rows_marked rows)"
    using assms(2) by (auto simp: rows_marked_def touch_row_def nth_list_update)
  have mods: "modifications (modify row col b) = is_add (modifications b) row"
    by (simp add: modify_def Let_def)
  define cs where "cs = (if length (columns b) \<le> col then resize (col + 1) (columns b) else columns b)"
  have "set cs \<subseteq> insert [] (set (columns b))"
    by (auto simp: cs_def resize_def dest: in_set_takeD)
  then have cs: "\<forall>c\<in>set cs. crv_wf c \<and> indices c \<subseteq> {..<length rows}" using b(2) by fastforce
  have "col < length cs" by (simp add: cs_def resize_def)
  then have "cs ! col \<in> set cs" by simp
  then have "crv_wf (is_add (cs ! col) row) \<and> indices (is_add (cs ! col) row) \<subseteq> {..<length rows}"
    using cs assms(2) is_add_ok by auto
  then have "\<forall>c\<in>set (cs[col := is_add (cs ! col) row]). crv_wf c \<and> indices c \<subseteq> {..<length rows}"
    using cs set_update_subset_insert [of cs col] by fastforce
  moreover have "columns (modify row col b) = columns b \<or>
      columns (modify row col b) = cs[col := is_add (cs ! col) row]"
    by (simp add: modify_def cs_def Let_def)
  ultimately have "\<forall>c\<in>set (columns (modify row col b)). crv_wf c \<and> indices c \<subseteq> {..<length rows}"
    using b(2) by auto
  moreover have "deletions (modify row col b) = deletions b" "insertions (modify row col b) = insertions b"
    "moves (modify row col b) = moves b" "move_mapping (modify row col b) = move_mapping b"
    by (simp_all add: modify_def Let_def)
  moreover have "\<forall>j<length rows. fst (touch_row row rows ! j) = fst (rows ! j)" "length (touch_row row rows) = length rows"
    using assms(2) by (auto simp: touch_row_def nth_list_update)
  ultimately show ?thesis
    using table_inv_marks [OF assms(1)] is_add_ok [OF b(1), of row] b(3) marked mods by simp
qed

lemma table_inv_insert_column:
  assumes "table_inv old rows b"
  shows "table_inv old rows (insert_column i b)"
proof -
  have "set (columns (insert_column i b)) \<subseteq> insert [] (set (columns b))"
    by (auto simp: insert_column_def dest: in_set_takeD in_set_dropD)
  moreover have b: "\<forall>c\<in>set (columns b). crv_wf c \<and> indices c \<subseteq> {..<length rows}" "crv_wf (modifications b)"
    "indices (modifications b) = rows_marked rows"
    using assms by (auto simp: table_inv_def cb_ok_def sets_ok_def)
  ultimately have "\<forall>c\<in>set (columns (insert_column i b)). crv_wf c \<and> indices c \<subseteq> {..<length rows}"
    by fastforce
  with b show ?thesis
    by (intro table_inv_marks [OF assms]) (simp_all add: insert_column_def)
qed

section \<open>The end of the parse\<close>

lemma parse_moves_marks [simp]:
  "modifications (parse_moves ps b) = modifications b" "columns (parse_moves ps b) = columns b"
  by (induction ps b rule: parse_moves.induct) simp_all

lemma table_inv_complete:
  assumes "table_inv old rows b" "\<forall>r\<in>set rows. \<forall>i. fst r = Some i \<longrightarrow> i < old"
  shows "cb_ok (parse_complete b) \<and> move_mapping (parse_complete b) = [] \<and>
    sorted (map fst (moves (parse_complete b))) \<and>
    row_map (parse_complete b) \<inter> UNIV \<times> {..<length rows} = rows_map rows \<and>
    indices (modifications (parse_complete b)) = rows_marked rows"
proof -
  have b: "cb_ok b" "fixed_rows old (length rows) (indices (deletions b)) (indices (insertions b))"
    "row_map b \<inter> UNIV \<times> {..<length rows} = rows_map rows" "indices (modifications b) = rows_marked rows"
    using assms(1) by (simp_all add: table_inv_def)
  have "rank (indices (deletions b)) k = rank (indices (insertions b)) k"
    if k: "(k, k) \<in> set (move_mapping b)" for k
  proof -
    have "k \<in> indices (insertions b)"
      using b(1) k by (auto simp: cb_ok_def moves_ok_def all_moves_def)
    then have n: "k < length rows" using b(2) by (auto simp: fixed_rows_def)
    have "(k, k) \<in> row_map b" using k by (force simp: row_map_def all_moves_def)
    then have "(k, k) \<in> rows_map rows" unfolding b(3) [symmetric] using n by simp
    then have "fst (rows ! k) = Some k" by (simp add: rows_map_def)
    then have "k < old" using assms(2) n by auto
    then show ?thesis using fixed_below [OF b(2) n] rank_same_below by blast
  qed
  then have "\<forall>k. (k, k) \<in> set (move_mapping b) \<longrightarrow>
      rank (indices (deletions b)) k = rank (indices (insertions b)) k" by blast
  note c = parse_complete_ok [OF b(1) this]
  have "modifications (parse_complete b) = modifications b" by (simp add: parse_complete_def Let_def)
  then show ?thesis using c b(3,4) by simp
qed

end
