(* ===== verification/ObserverWatch.thy ===== *)
theory ObserverWatch imports ObserverRows LogRoundTrip begin

text \<open>
  What the observer reports of a watched top level table.  \<open>table_call\<close> is the effect that an
  instruction has on the rows of table \<open>t\<close> and on whether \<open>t\<close> is the selected table; it is
  defined for the instructions that a transaction writes for such a table: rows are added at the
  end, erased by moving the last row over them, swapped, cleared and modified, and other tables,
  subtables and lists change in any way.  The lemmas show that the observer implements it.
\<close>

section \<open>The specification\<close>

text \<open>The row and column of the cell that a call modifies.\<close>

fun set_cell :: "instruction \<Rightarrow> nat \<Rightarrow> nat \<Rightarrow> (nat \<times> nat) option" where
  "set_cell i col row = (if i = instr_Set then Some (row, col) else None)"

fun marked_cell :: "call \<Rightarrow> (nat \<times> nat) option" where
  "marked_cell (Select_link_list col row _) = Some (row, col)"
| "marked_cell (Set_int col row _ i _) = set_cell i col row"
| "marked_cell (Set_bool col row _ i) = set_cell i col row"
| "marked_cell (Set_float col row _ i) = set_cell i col row"
| "marked_cell (Set_double col row _ i) = set_cell i col row"
| "marked_cell (Set_string col row _ i _) = set_cell i col row"
| "marked_cell (Set_binary col row _ i) = set_cell i col row"
| "marked_cell (Set_olddatetime col row _ i) = set_cell i col row"
| "marked_cell (Set_timestamp col row _ _ i) = set_cell i col row"
| "marked_cell (Set_table col row i) = set_cell i col row"
| "marked_cell (Set_mixed col row _ i) = set_cell i col row"
| "marked_cell (Set_link col row _ _ i) = set_cell i col row"
| "marked_cell (Set_null col row i _) = set_cell i col row"
| "marked_cell (Add_int col row _) = Some (row, col)"
| "marked_cell (Nullify_link col row _) = Some (row, col)"
| "marked_cell (Insert_substring col row _ _) = Some (row, col)"
| "marked_cell (Erase_substring col row _ _) = Some (row, col)"
| "marked_cell _ = None"

text \<open>The calls that add, remove or reorder the rows of the selected table.\<close>

fun row_call :: "call \<Rightarrow> table_row list \<Rightarrow> table_row list option" where
  "row_call (Insert_empty_rows row n _ _) rows =
     (if row = length rows \<and> 0 < n \<and> length rows + n \<le> npos then Some (append_rows n rows) else None)"
| "row_call (Add_row_with_key row _ _ _) rows =
     (if row = length rows \<and> length rows + 1 \<le> npos then Some (append_rows 1 rows) else None)"
| "row_call (Erase_rows row _ prior unordered) rows =
     (if row < length rows \<and> prior = length rows \<and> unordered then Some (replace_by_last row rows) else None)"
| "row_call (Swap_rows a b) rows =
     (if a < b \<and> b < length rows then Some (exchange_rows a b rows) else None)"
| "row_call (Move_row _ _) rows = None"
| "row_call (Merge_rows _ _) rows = None"
| "row_call (Clear_table _) rows = Some []"
| "row_call c rows =
     (case marked_cell c of
        None \<Rightarrow> Some rows
      | Some (row, _) \<Rightarrow> if row < length rows then Some (touch_row row rows) else None)"

fun select_call :: "nat \<Rightarrow> (nat \<times> nat) list \<Rightarrow> bool \<Rightarrow> table_row list \<Rightarrow> (bool \<times> table_row list) option" where
  "select_call t path is_t rows =
     (if \<not> is_t then Some (False, rows)
      else case path of
        [] \<Rightarrow> Some (True, rows)
      | [(_, row)] \<Rightarrow> if row < length rows then Some (False, touch_row row rows) else None
      | _ \<Rightarrow> Some (False, rows))"

definition table_call :: "nat \<Rightarrow> bool \<times> table_row list \<Rightarrow> call \<Rightarrow> (bool \<times> table_row list) option" where
  "table_call t v c =
     (if schema_error c then None
      else case c of
        Select_table t' path \<Rightarrow> select_call t path (t' = t) (snd v)
      | Insert_group_level_table _ _ _ \<Rightarrow> None
      | _ \<Rightarrow> if fst v then map_option (Pair True) (row_call c (snd v)) else Some v)"

section \<open>The observer implements it\<close>

definition table_builder :: "nat \<Rightarrow> observer \<Rightarrow> change_builder" where
  "table_builder t ob =
     (if t < length (tables (info ob)) then tables (info ob) ! t else empty_builder)"

definition watching :: "nat \<Rightarrow> observer \<Rightarrow> bool" where
  "watching t ob \<longleftrightarrow>
     table_needed (modifications_needed (info ob)) (info ob) t \<and>
     table_needed (moves_needed (info ob)) (info ob) t"

definition selection :: "nat \<Rightarrow> bool \<Rightarrow> observer \<Rightarrow> bool" where
  "selection t sel ob \<longleftrightarrow>
     (\<forall>x. active_list ob \<noteq> Some (Of_table x)) \<and>
     (if sel then active_table ob = Some (Of_table t) \<and> need_move_info ob \<and> is_top_level_table ob \<and>
        t < length (tables (info ob))
      else active_table ob \<noteq> Some (Of_table t))"

definition watch_rel :: "nat \<Rightarrow> nat \<Rightarrow> bool \<times> table_row list \<Rightarrow> observer \<Rightarrow> bool" where
  "watch_rel t old v ob \<longleftrightarrow>
     watching t ob \<and> selection t (fst v) ob \<and> table_inv old (snd v) (table_builder t ob) \<and>
     (\<forall>r\<in>set (snd v). \<forall>i. fst r = Some i \<longrightarrow> i < old)"

lemma update_builder_state [simp]:
  "active_table (update_builder r f ob) = active_table ob"
  "active_list (update_builder r f ob) = active_list ob"
  "active_descriptor (update_builder r f ob) = active_descriptor ob"
  "need_move_info (update_builder r f ob) = need_move_info ob"
  "is_top_level_table (update_builder r f ob) = is_top_level_table ob"
  "current_table (update_builder r f ob) = current_table ob"
  "lists (info (update_builder r f ob)) = lists (info ob)"
  "length (tables (info (update_builder r f ob))) = length (tables (info ob))"
  "watching t (update_builder r f ob) = watching t ob"
  by (cases "(r, f, ob)" rule: update_builder.cases; simp add: set_info_def watching_def table_needed_def)+

lemma table_builder_update [simp]:
  "table_builder t (update_builder r f ob) =
     (if r = Some (Of_table t) \<and> t < length (tables (info ob)) then f (table_builder t ob)
      else table_builder t ob)"
  by (cases "(r, f, ob)" rule: update_builder.cases) (simp_all add: set_info_def table_builder_def)

declare update_builder.simps [simp del]

lemma update_lists_state [simp]:
  "watching t (update_lists g ob) = watching t ob"
  "selection t sel (update_lists g ob) = selection t sel ob"
  "table_builder t (update_lists g ob) = table_builder t ob"
  "active_table (update_lists g ob) = active_table ob"
  by (simp_all add: update_lists_def set_info_def watching_def selection_def table_builder_def table_needed_def)

lemma selection_update [simp]: "selection t sel (update_builder r f ob) = selection t sel ob"
  by (simp add: selection_def)

lemma set_lists_state [simp]:
  "watching t (set_info (\<lambda>ci. ci\<lparr>lists := g ci\<rparr>) ob) = watching t ob"
  "selection t sel (set_info (\<lambda>ci. ci\<lparr>lists := g ci\<rparr>) ob) = selection t sel ob"
  "table_builder t (set_info (\<lambda>ci. ci\<lparr>lists := g ci\<rparr>) ob) = table_builder t ob"
  by (simp_all add: set_info_def watching_def selection_def table_builder_def table_needed_def)

text \<open>The operations on rows, first for another table, then for the selected one.\<close>

lemma not_selected:
  "selection t False ob \<Longrightarrow> active_table ob \<noteq> Some (Of_table t)"
  by (simp add: selection_def)

lemma selected:
  "selection t True ob \<Longrightarrow> active_table ob = Some (Of_table t) \<and> need_move_info ob \<and> is_top_level_table ob \<and>
     t < length (tables (info ob))"
  by (simp add: selection_def)

lemma row_ops_state [simp]:
  "watching t (insert_empty_rows row n ob) = watching t ob"
  "selection t sel (insert_empty_rows row n ob) = selection t sel ob"
  "watching t (erase_rows row prior un ob) = watching t ob"
  "selection t sel (erase_rows row prior un ob) = selection t sel ob"
  "watching t (observe_swap_rows a b ob) = watching t ob"
  "selection t sel (observe_swap_rows a b ob) = selection t sel ob"
  "watching t (move_row a b ob) = watching t ob"
  "selection t sel (move_row a b ob) = selection t sel ob"
  "watching t (merge_rows a b ob) = watching t ob"
  "selection t sel (merge_rows a b ob) = selection t sel ob"
  "watching t (clear_table ob) = watching t ob"
  "selection t sel (clear_table ob) = selection t sel ob"
  by (simp_all add: insert_empty_rows_def erase_rows_def observe_swap_rows_def move_row_def merge_rows_def
      clear_table_def Let_def)

lemma row_ops_other:
  assumes "active_table ob \<noteq> Some (Of_table t)"
  shows "table_builder t (insert_empty_rows row n ob) = table_builder t ob"
    "table_builder t (erase_rows row prior un ob) = table_builder t ob"
    "table_builder t (observe_swap_rows a b ob) = table_builder t ob"
    "table_builder t (move_row a b ob) = table_builder t ob"
    "table_builder t (merge_rows a b ob) = table_builder t ob"
    "table_builder t (clear_table ob) = table_builder t ob"
  using assms
  by (simp_all add: insert_empty_rows_def erase_rows_def observe_swap_rows_def move_row_def merge_rows_def
      clear_table_def Let_def)

lemma row_ops_selected:
  assumes "selection t True ob"
  shows "table_builder t (insert_empty_rows row n ob) = cb_insert row n True (table_builder t ob)"
    "table_builder t (erase_rows row prior True ob) = move_over row (prior - 1) True (table_builder t ob)"
    "table_builder t (observe_swap_rows a b ob) = cb_swap a b True (table_builder t ob)"
    "table_builder t (clear_table ob) = cb_clear npos (table_builder t ob)"
  using selected [OF assms]
  by (simp_all add: insert_empty_rows_def erase_rows_def observe_swap_rows_def clear_table_def Let_def)

lemma mark_dirty_state [simp]:
  "watching t (mark_dirty row col ob) = watching t ob"
  "selection t sel (mark_dirty row col ob) = selection t sel ob"
  "active_table (mark_dirty row col ob) = active_table ob"
  "length (tables (info (mark_dirty row col ob))) = length (tables (info ob))"
  by (simp_all add: mark_dirty_def)

lemma mark_dirty_builder:
  "active_table ob \<noteq> Some (Of_table t) \<Longrightarrow> table_builder t (mark_dirty row col ob) = table_builder t ob"
  "selection t True ob \<Longrightarrow> table_builder t (mark_dirty row col ob) = modify row col (table_builder t ob)"
  by (simp_all add: mark_dirty_def selection_def)

section \<open>One call\<close>

text \<open>The calls that mark a cell, apart from the selection of a link list.\<close>

lemma observe_marked:
  assumes "marked_cell c = Some (row, col)" "\<And>k. c \<noteq> Select_link_list col row k"
  shows "observe ob c = Some (mark_dirty row col ob)"
  using assms by (cases c) (auto simp: observe_def mark_set_def split: if_splits)

lemma touch_row_origins:
  "row < length rows \<Longrightarrow> (\<forall>r\<in>set rows. \<forall>i. fst r = Some i \<longrightarrow> i < old) \<Longrightarrow>
     (\<forall>r\<in>set (touch_row row rows). \<forall>i. fst r = Some i \<longrightarrow> i < old)"
  using set_update_subset_insert [of rows row "(fst (rows ! row), True)"] nth_mem [of row rows]
  unfolding touch_row_def by fastforce

lemma watch_rel_mark:
  assumes "watch_rel t old (True, rows) ob" "row < length rows"
  shows "watch_rel t old (True, touch_row row rows) (mark_dirty row col ob)"
  using assms touch_row_origins [of row rows old] table_inv_modify [of old rows _ row col]
  by (simp add: watch_rel_def mark_dirty_builder)

lemma watch_rel_mark_other:
  "watch_rel t old (False, rows) ob \<Longrightarrow> watch_rel t old (False, rows) (mark_dirty row col ob)"
  by (simp add: watch_rel_def mark_dirty_builder not_selected)

lemma watching_update [simp]:
  "watching t (ob\<lparr>active_table := a\<rparr>) = watching t ob"
  "watching t (ob\<lparr>current_table := k\<rparr>) = watching t ob"
  "watching t (ob\<lparr>need_move_info := m\<rparr>) = watching t ob"
  "watching t (ob\<lparr>is_top_level_table := m\<rparr>) = watching t ob"
  "watching t (ob\<lparr>active_list := a\<rparr>) = watching t ob"
  "watching t (ob\<lparr>active_descriptor := a\<rparr>) = watching t ob"
  "table_builder t (ob\<lparr>active_list := a\<rparr>) = table_builder t ob"
  "table_builder t (ob\<lparr>active_descriptor := a\<rparr>) = table_builder t ob"
  "table_builder t (ob\<lparr>active_table := a\<rparr>) = table_builder t ob"
  "table_builder t (ob\<lparr>current_table := k\<rparr>) = table_builder t ob"
  "table_builder t (ob\<lparr>need_move_info := m\<rparr>) = table_builder t ob"
  "table_builder t (ob\<lparr>is_top_level_table := m\<rparr>) = table_builder t ob"
  by (simp_all add: watching_def table_builder_def)

lemma find_list_list: "find_list ci t col row \<noteq> Some (Of_table x)"
  by (auto simp: find_list_def)

lemma watch_rel_active_list:
  assumes "watch_rel t old v ob"
  shows "watch_rel t old v (ob\<lparr>active_list := find_list (info ob) x col row\<rparr>)"
  using assms by (simp add: watch_rel_def selection_def find_list_list)

text \<open>What selecting a table leaves in place.\<close>

lemma grow_tables_builder:
  "table_builder t (set_info (grow_tables x) ob) = table_builder t ob"
  by (auto simp: table_builder_def set_info_def grow_tables_def std_resize_def nth_append)

lemma grow_tables_length: "t < length (tables (grow_tables t ci))"
  by (simp add: grow_tables_def std_resize_def less_max_iff_disj)

lemma grow_tables_watching [simp]: "watching t (set_info (grow_tables x) ob) = watching t ob"
  by (simp add: watching_def set_info_def grow_tables_def table_needed_def)

definition selecting :: "nat \<Rightarrow> observer \<Rightarrow> observer" where
  "selecting x ob =
     (let ob1 = ob\<lparr>current_table := x, active_table := None, is_top_level_table := True\<rparr>
      in (set_info (grow_tables x) (ob1\<lparr>need_move_info := table_needed (moves_needed (info ob1)) (info ob1) x\<rparr>))
           \<lparr>active_table := Some (Of_table x)\<rparr>)"

lemma selecting_rel:
  assumes "watch_rel t old v ob"
  shows "watch_rel t old (x = t, snd v) (selecting x ob)"
proof -
  have "watching t (selecting x ob)" "table_builder t (selecting x ob) = table_builder t ob"
    using assms by (simp_all add: watch_rel_def selecting_def Let_def grow_tables_builder)
  moreover have "selection t (x = t) (selecting x ob)"
    using assms grow_tables_length
    by (auto simp: watch_rel_def selection_def selecting_def Let_def watching_def set_info_def)
  ultimately show ?thesis using assms by (simp add: watch_rel_def)
qed

lemma watch_rel_drop:
  assumes "watch_rel t old v ob" "a \<noteq> Some (Of_table t)"
  shows "watch_rel t old (False, snd v) (ob\<lparr>active_table := a, is_top_level_table := x, need_move_info := m\<rparr>)"
  using assms by (auto simp: watch_rel_def selection_def split: if_splits)

lemma select_table_rel:
  assumes "watch_rel t old v ob" "select_call x path (x = t) (snd v) = Some v'"
  shows "watch_rel t old v' (select_table x path ob)"
proof (cases "length path > 1")
  case True
  then obtain p q ps where p: "path = p # q # ps" by (cases path rule: remdups_adj.cases) auto
  have "v' = (False, snd v)" using assms(2) by (cases p) (simp add: p split: if_splits)
  then show ?thesis
    using watch_rel_drop [OF assms(1), of None] assms(1) by (simp add: p select_table_def Let_def watch_rel_def selection_def)
next
  case False
  show ?thesis
  proof (cases "table_needed (modifications_needed (info ob)) (info ob) x")
    case needed: False
    then have "x \<noteq> t" using assms(1) by (auto simp: watch_rel_def watching_def)
    then show ?thesis using assms needed False
      by (auto simp: select_table_def Let_def watch_rel_def selection_def)
  next
    case needed: True
    note rel = selecting_rel [OF assms(1), of x]
    show ?thesis
    proof (cases path)
      case Nil
      then show ?thesis using rel assms(2) needed False
        by (auto simp: select_table_def selecting_def Let_def split: if_splits)
    next
      case (Cons p ps)
      obtain col row where p: "p = (col, row)" "ps = []" using Cons False by (cases p; cases ps) auto
      define ob1 where "ob1 = mark_dirty row col (selecting x ob)"
      define ob2 where "ob2 = ob1\<lparr>active_table := None, is_top_level_table := False\<rparr>"
      have sel: "select_table x path ob = (case find_list (info ob2) x col row of
          None \<Rightarrow> ob2 | Some r \<Rightarrow> ob2\<lparr>active_table := Some r, need_move_info := True\<rparr>)"
        using Cons p needed by (simp add: select_table_def selecting_def ob1_def ob2_def Let_def split: option.split)
      have "\<exists>u. watch_rel t old (u, snd v') ob1 \<and> v' = (False, snd v')"
      proof (cases "x = t")
        case True
        then have "row < length (snd v)" "v' = (False, touch_row row (snd v))"
          using assms(2) Cons p by (auto split: if_splits)
        then show ?thesis using watch_rel_mark [of t old "snd v" "selecting x ob" row col] rel True
          by (auto simp: ob1_def)
      next
        case False
        then show ?thesis using watch_rel_mark_other [of t old "snd v" "selecting x ob" row col] rel assms(2)
          by (auto simp: ob1_def)
      qed
      then obtain u where u: "watch_rel t old (u, snd v') ob1" "v' = (False, snd v')" by blast
      then have 2: "watch_rel t old v' ob2" and 3: "r \<noteq> Some (Of_table t) \<Longrightarrow>
          watch_rel t old v' (ob2\<lparr>active_table := r, need_move_info := True\<rparr>)" for r
        by (cases v'; auto simp: watch_rel_def selection_def ob2_def split: if_splits)+
      show ?thesis unfolding sel
        using 2 3 find_list_list [of "info ob2" x col row t] by (auto split: option.split)
    qed
  qed
qed

text \<open>The calls that change neither the rows nor a cell of a table.\<close>

lemma link_ops_rel:
  assumes "watch_rel t old v ob"
  shows "watch_rel t old v (update_builder (active_list ob) f ob)"
proof -
  have "active_list ob \<noteq> Some (Of_table t)" using assms by (simp add: watch_rel_def selection_def)
  then show ?thesis using assms by (simp add: watch_rel_def)
qed

lemma link_swap_rel: "watch_rel t old v ob \<Longrightarrow> watch_rel t old v (link_list_swap a b ob)"
  using link_ops_rel [of t old v "link_list_set a ob"] link_ops_rel [of t old v ob]
  by (simp add: link_list_swap_def link_list_set_def)

lemma set_info_rel:
  "watch_rel t old v (set_info (\<lambda>ci. ci\<lparr>schema_changed := f ci\<rparr>) ob) = watch_rel t old v ob"
  "watch_rel t old v (set_info (\<lambda>ci. ci\<lparr>lists := g ci\<rparr>) ob) = watch_rel t old v ob"
  "watch_rel t old v (set_info (\<lambda>ci. ci\<lparr>column_indices := h ci\<rparr>) ob) = watch_rel t old v ob"
  by (simp_all add: watch_rel_def watching_def selection_def table_builder_def table_needed_def set_info_def)

lemma insert_column_rel:
  assumes "watch_rel t old v ob"
  shows "watch_rel t old v (observe_insert_column i ob)"
proof -
  let ?ob1 = "set_info (\<lambda>ci. ci\<lparr>schema_changed := True\<rparr>) ob"
  let ?ob2 = "update_builder (active_descriptor ?ob1) (insert_column i) ?ob1"
  have 1: "watch_rel t old v ?ob1" using assms by (simp add: set_info_rel)
  then have "watch_rel t old v ?ob2"
    using table_inv_insert_column by (simp add: watch_rel_def)
  then show ?thesis
    unfolding observe_insert_column_def Let_def by (auto simp: set_info_rel update_lists_def)
qed

lemma descriptor_rel:
  "watch_rel t old v ob \<Longrightarrow> watch_rel t old v (select_descriptor path ob)"
  by (simp add: select_descriptor_def watch_rel_def selection_def)

section \<open>Row calls\<close>

lemma appended_origins:
  "(\<forall>r\<in>set rows. \<forall>i. fst r = Some i \<longrightarrow> i < old) \<Longrightarrow>
     \<forall>r\<in>set (append_rows n rows). \<forall>i. fst r = Some i \<longrightarrow> i < old"
  by (auto simp: append_rows_def)

lemma replaced_origins:
  assumes "\<forall>r\<in>set rows. \<forall>i. fst r = Some i \<longrightarrow> i < old" "row < length rows"
  shows "\<forall>r\<in>set (replace_by_last row rows). \<forall>i. fst r = Some i \<longrightarrow> i < old"
proof -
  have "set (replace_by_last row rows) \<subseteq> insert (last rows) (set rows)"
    unfolding replace_by_last_def using in_set_butlastD set_update_subset_insert by fastforce
  moreover have "last rows \<in> set rows" using assms(2) by (intro last_in_set) auto
  ultimately show ?thesis using assms(1) by blast
qed

lemma exchanged_origins:
  assumes "\<forall>r\<in>set rows. \<forall>i. fst r = Some i \<longrightarrow> i < old" "a < length rows" "b < length rows"
  shows "\<forall>r\<in>set (exchange_rows a b rows). \<forall>i. fst r = Some i \<longrightarrow> i < old"
proof -
  have "set (exchange_rows a b rows) \<subseteq> set rows"
    using assms(2,3) by (auto simp: exchange_rows_def set_conv_nth nth_list_update split: if_splits)
  then show ?thesis using assms(1) by blast
qed

lemma insert_rows_rel:
  assumes "watch_rel t old (True, rows) ob" "length rows + n \<le> npos" "0 < n"
  shows "watch_rel t old (True, append_rows n rows) (insert_empty_rows (length rows) n ob)"
  using assms table_inv_insert [of old rows _ n] appended_origins [of rows old n]
  by (simp add: watch_rel_def row_ops_selected)

lemma erase_rows_rel:
  assumes "watch_rel t old (True, rows) ob" "row < length rows"
  shows "watch_rel t old (True, replace_by_last row rows) (erase_rows row (length rows) True ob)"
  using assms table_inv_over [of old rows _ row] replaced_origins [of rows old row]
  by (simp add: watch_rel_def row_ops_selected)

lemma swap_rows_rel:
  assumes "watch_rel t old (True, rows) ob" "a < b" "b < length rows"
  shows "watch_rel t old (True, exchange_rows a b rows) (observe_swap_rows a b ob)"
  using assms table_inv_swap [of old rows _ a b] exchanged_origins [of rows old a b]
  by (simp add: watch_rel_def row_ops_selected)

lemma clear_rel:
  assumes "watch_rel t old (True, rows) ob"
  shows "watch_rel t old (True, []) (clear_table ob)"
  using assms table_inv_clear [of old rows] by (simp add: watch_rel_def row_ops_selected)

lemma row_ops_other_rel:
  assumes "watch_rel t old (False, rows) ob"
  shows "watch_rel t old (False, rows) (insert_empty_rows row n ob)"
    "watch_rel t old (False, rows) (erase_rows row prior un ob)"
    "watch_rel t old (False, rows) (observe_swap_rows a b ob)"
    "watch_rel t old (False, rows) (move_row a b ob)"
    "watch_rel t old (False, rows) (merge_rows a b ob)"
    "watch_rel t old (False, rows) (clear_table ob)"
  using assms row_ops_other not_selected by (simp_all add: watch_rel_def)

lemmas rel_intros = insert_rows_rel erase_rows_rel swap_rows_rel clear_rel row_ops_other_rel
  insert_column_rel descriptor_rel link_ops_rel link_swap_rel watch_rel_mark watch_rel_mark_other select_table_rel

lemma select_link_list_rel:
  assumes "watch_rel t old v ob" "if fst v then row < length (snd v) \<and> v' = (True, touch_row row (snd v)) else v' = v"
  shows "watch_rel t old v' (select_link_list col row ob)"
proof -
  have "watch_rel t old v' (mark_dirty row col ob)"
    using assms watch_rel_mark [of t old "snd v" ob row col] watch_rel_mark_other [of t old "snd v" ob row col]
    by (cases v) (auto split: if_splits)
  then show ?thesis by (simp add: select_link_list_def Let_def watch_rel_active_list)
qed

text \<open>A call that only marks a cell, in the specification.\<close>

lemma marked_table_call:
  assumes "marked_cell c = Some (row, col)"
  shows "table_call t v c = (if fst v then
      if row < length (snd v) then Some (True, touch_row row (snd v)) else None else Some v)"
  using assms by (cases c) (auto simp: table_call_def split: if_splits)

lemma observe_rel:
  assumes "watch_rel t old v ob" "table_call t v c = Some v'"
  shows "\<exists>ob'. observe ob c = Some ob' \<and> watch_rel t old v' ob'"
proof (cases "marked_cell c")
  case (Some m)
  obtain row col where m: "m = (row, col)" by (cases m)
  have v': "if fst v then row < length (snd v) \<and> v' = (True, touch_row row (snd v)) else v' = v"
    using marked_table_call [OF Some [unfolded m], of t v] assms(2) by (auto split: if_splits)
  show ?thesis
  proof (cases "\<exists>k. c = Select_link_list col row k")
    case True
    then show ?thesis using select_link_list_rel [OF assms(1) v'] by (auto simp: observe_def)
  next
    case False
    then have "observe ob c = Some (mark_dirty row col ob)"
      using observe_marked [OF Some [unfolded m]] by blast
    moreover have "watch_rel t old v' (mark_dirty row col ob)"
      using assms(1) v' watch_rel_mark [of t old "snd v" ob row col] watch_rel_mark_other [of t old "snd v" ob row col]
      by (cases v) (auto split: if_splits)
    ultimately show ?thesis by blast
  qed
next
  case None
  obtain sel rows where v: "v = (sel, rows)" by (cases v)
  show ?thesis
    by (cases c; cases sel)
      (use assms None in \<open>auto simp: v observe_def table_call_def link_list_set_def link_list_insert_def
        link_list_erase_def link_list_clear_def link_list_move_def mark_set_def
        split: if_splits intro!: rel_intros\<close>)
qed

section \<open>A log\<close>

fun table_calls :: "nat \<Rightarrow> bool \<times> table_row list \<Rightarrow> call list \<Rightarrow> (bool \<times> table_row list) option" where
  "table_calls t v [] = Some v"
| "table_calls t v (c # cs) =
     (case table_call t v c of None \<Rightarrow> None | Some v' \<Rightarrow> table_calls t v' cs)"

lemma observe_calls_rel:
  "watch_rel t old v ob \<Longrightarrow> table_calls t v cs = Some v' \<Longrightarrow>
     \<exists>ob'. run_calls observe ob cs = Some ob' \<and> watch_rel t old v' ob'"
proof (induction cs arbitrary: v ob)
  case (Cons c cs)
  obtain w where w: "table_call t v c = Some w" "table_calls t w cs = Some v'"
    using Cons.prems(2) by (auto split: option.splits)
  obtain ob1 where "observe ob c = Some ob1" "watch_rel t old w ob1"
    using observe_rel [OF Cons.prems(1) w(1)] by blast
  then show ?case using Cons.IH w(2) by fastforce
qed simp

lemma watch_rel_start:
  assumes "table_needed (modifications_needed ci) ci t" "table_needed (moves_needed ci) ci t"
    and "tables ci = []" "old \<le> npos"
  shows "watch_rel t old (False, unchanged_rows old) (observer_new ci bs)"
  using assms table_inv_start [OF assms(4)]
  by (auto simp: watch_rel_def watching_def selection_def table_builder_def observer_new_def unchanged_rows_def)

lemma complete_tables:
  "tables (info (observer_parse_complete ob)) = map parse_complete (tables (info ob))"
proof -
  have "tables (info (foldl (\<lambda>ob l. update_builder (Some (Of_list (k l))) f ob) ob ls)) = tables (info ob)"
    for k f ob and ls :: "list_info list"
    by (induction ls arbitrary: ob) (simp_all add: update_builder.simps)
  then show ?thesis by (simp add: observer_parse_complete_def set_info_def Let_def)
qed

lemma table_builder_complete:
  "table_builder t (observer_parse_complete ob) = parse_complete (table_builder t ob)"
  by (simp add: table_builder_def complete_tables parse_complete_def empty_builder_def new_builder_def)

lemma run_watched:
  assumes "table_needed (modifications_needed ci) ci t" "table_needed (moves_needed ci) ci t"
    and "tables ci = []" "old \<le> npos"
    and "table_calls t (False, unchanged_rows old) cs = Some (sel, rows)"
  obtains ob where "run_calls observe (observer_new ci bs) cs = Some ob"
    "table_inv old rows (table_builder t ob)" "\<forall>r\<in>set rows. \<forall>i. fst r = Some i \<longrightarrow> i < old"
proof -
  obtain ob where "run_calls observe (observer_new ci bs) cs = Some ob" "watch_rel t old (sel, rows) ob"
    using observe_calls_rel [OF watch_rel_start [OF assms(1-4)] assms(5)] by blast
  then show thesis using that by (simp add: watch_rel_def)
qed

end
