(* ===== verification/ObserverLists.thy ===== *)
theory ObserverLists imports ObserverWatch begin

text \<open>
  What the observer reports of a watched link list: \<open>list_call\<close> is the effect of the link list
  instructions on the entries of the list, each with its index before the transaction, and the
  change set of the list maps the entries as they moved.  The last section is about the loop of
  \<open>erase_rows\<close> over the watched lists.
\<close>

section \<open>The specification\<close>

definition insert_entry :: "nat \<Rightarrow> table_row \<Rightarrow> table_row list \<Rightarrow> table_row list" where
  "insert_entry i x rows = take i rows @ x # drop i rows"

definition remove_entry :: "nat \<Rightarrow> table_row list \<Rightarrow> table_row list" where
  "remove_entry i rows = take i rows @ drop (Suc i) rows"

fun list_call :: "table_row list \<Rightarrow> call \<Rightarrow> table_row list option" where
  "list_call rows (Link_list_set i _ _) = (if i < length rows then Some (touch_row i rows) else None)"
| "list_call rows (Link_list_insert i _ _) =
     (if i \<le> length rows \<and> length rows < npos then Some (insert_entry i (None, False) rows) else None)"
| "list_call rows (Link_list_erase i _) = (if i < length rows then Some (remove_entry i rows) else None)"
| "list_call rows (Link_list_nullify i _) = (if i < length rows then Some (remove_entry i rows) else None)"
| "list_call rows (Link_list_move a b) =
     (if a < length rows \<and> b < length rows then Some (insert_entry b (rows ! a) (remove_entry a rows)) else None)"
| "list_call rows (Link_list_swap a b) =
     (if a < length rows \<and> b < length rows then Some (touch_row b (touch_row a rows)) else None)"
| "list_call rows (Link_list_clear n) = (if n = length rows \<and> n < npos then Some [] else None)"
| "list_call rows _ = None"

fun list_calls :: "table_row list \<Rightarrow> call list \<Rightarrow> table_row list option" where
  "list_calls rows [] = Some rows"
| "list_calls rows (c # cs) = (case list_call rows c of None \<Rightarrow> None | Some rows' \<Rightarrow> list_calls rows' cs)"

section \<open>The change set of a list\<close>

definition list_inv :: "table_row list \<Rightarrow> change_builder \<Rightarrow> bool" where
  "list_inv rows b \<longleftrightarrow>
     cb_ok b \<and> move_mapping b = [] \<and> track_columns b \<and> length rows \<le> npos \<and>
     indices (modifications b) = rows_marked rows \<and>
     row_map b \<inter> UNIV \<times> {..<length rows} = rows_map rows"

lemma list_inv_start: "n \<le> npos \<Longrightarrow> list_inv (unchanged_rows n) empty_builder"
  using table_inv_start [of n] by (simp add: table_inv_def list_inv_def empty_builder_def new_builder_def)

lemma list_inv_step:
  assumes "list_inv rows b" "step_ok step rows rows'" "cb_ok b'" "move_mapping b' = []" "track_columns b'"
    and "length rows' \<le> npos" "row_map b' = row_map b O step" "carried step b b'"
  shows "list_inv rows' b'"
proof -
  have b: "track_columns b" "indices (modifications b) = rows_marked rows"
    "row_map b \<inter> UNIV \<times> {..<length rows} = rows_map rows"
    using assms(1) by (simp_all add: list_inv_def)
  have "indices (modifications b') = rows_marked rows'"
    using assms(8) b step_ok_marked [OF assms(2)] by (simp add: marks_def)
  then show ?thesis using assms(3-7) step_ok_rows_map [OF assms(2) b(3)] by (simp add: list_inv_def)
qed

lemma insert_entry_step:
  "i \<le> length rows \<Longrightarrow> step_ok (insert_step i 1) rows (insert_entry i (None, False) rows)"
  by (rule step_okI [where from_row = "\<lambda>k. if k < i then Some k else if k = i then None else Some (k - 1)"])
    (auto simp: insert_step_def insert_entry_def nth_append nth_Cons' min_def split: if_splits)

lemma remove_entry_step:
  "i < length rows \<Longrightarrow> step_ok (erase_step i) rows (remove_entry i rows)"
  by (rule step_okI [where from_row = "\<lambda>k. if k < i then Some k else Some (k + 1)"])
    (auto simp: erase_step_def remove_entry_def nth_append min_def split: if_splits)

lemma nth_move_entry:
  assumes "a < length rows" "b < length rows" "k < length rows"
  shows "insert_entry b (rows ! a) (remove_entry a rows) ! k =
    rows ! (if k = b then a else if a \<le> k \<and> k < b then k + 1 else if b < k \<and> k \<le> a then k - 1 else k)"
  using assms by (auto simp: insert_entry_def remove_entry_def nth_append nth_Cons' min_def)

lemma move_entry_step:
  assumes "a < length rows" "b < length rows"
  shows "step_ok (move_step a b) rows (insert_entry b (rows ! a) (remove_entry a rows))"
proof (rule step_okI [where from_row = "\<lambda>k. Some (if k = b then a
    else if a \<le> k \<and> k < b then k + 1 else if b < k \<and> k \<le> a then k - 1 else k)"], goal_cases)
  case (1 k)
  have len: "length (insert_entry b (rows ! a) (remove_entry a rows)) = length rows"
    using assms by (simp add: insert_entry_def remove_entry_def)
  have "(j', k) \<in> move_step a b \<longleftrightarrow> j' = (if k = b then a
      else if a \<le> k \<and> k < b then k + 1 else if b < k \<and> k \<le> a then k - 1 else k)" for j'
    by (auto simp: move_step_def)
  then show ?case using 1 assms nth_move_entry [OF assms] by (auto simp: len)
next
  case (2 j k)
  then show ?case using assms by (auto simp: insert_entry_def remove_entry_def move_step_def split: if_splits)
qed

lemma for_each_col_track [simp]: "track_columns (for_each_col f b) = track_columns b"
  by (simp add: for_each_col_def)

lemma track_columns_list_ops [simp]:
  "track_columns (cb_erase i b) = track_columns b" "track_columns (cb_move x y b) = track_columns b"
  "track_columns (clean_up_stale_moves b) = track_columns b"
  by (simp_all add: cb_erase_def cb_move_def clean_up_stale_moves_def Let_def split: prod.split)

lemma list_inv_insert:
  assumes "list_inv rows b" "i \<le> length rows" "length rows < npos"
  shows "list_inv (insert_entry i (None, False) rows) (cb_insert i 1 True b)"
proof -
  have b: "cb_ok b" "move_mapping b = []" "track_columns b" using assms(1) by (simp_all add: list_inv_def)
  note k = cb_insert_ok [OF b(1), of 1 i]
  have "move_mapping (cb_insert i 1 True b) = []" using b(2) by (simp add: cb_insert_def Let_def for_each_col_def)
  then show ?thesis
    using list_inv_step [OF assms(1) insert_entry_step [OF assms(2)]] k b(3) assms(3)
    by (simp add: insert_entry_def)
qed

lemma list_inv_erase:
  assumes "list_inv rows b" "i < length rows"
  shows "list_inv (remove_entry i rows) (cb_erase i b)"
proof -
  have b: "cb_ok b" "move_mapping b = []" "track_columns b" "i < npos"
    using assms by (simp_all add: list_inv_def)
  have len: "length (remove_entry i rows) \<le> npos"
    using assms by (auto simp: remove_entry_def list_inv_def)
  note k = cb_erase_ok [OF b(1,2,4)]
  show ?thesis
    by (rule list_inv_step [OF assms(1) remove_entry_step [OF assms(2)]]) (use k b len in simp_all)
qed

lemma list_inv_move:
  assumes "list_inv rows b" "x < length rows" "y < length rows"
  shows "list_inv (insert_entry y (rows ! x) (remove_entry x rows)) (cb_move x y b)"
proof -
  have b: "cb_ok b" "move_mapping b = []" "track_columns b" "x < npos" "length rows \<le> npos"
    using assms by (simp_all add: list_inv_def)
  have len: "length (insert_entry y (rows ! x) (remove_entry x rows)) = length rows"
    using assms(2,3) by (simp add: insert_entry_def remove_entry_def)
  note k = cb_move_ok [OF b(1,2,4)]
  show ?thesis
    by (rule list_inv_step [OF assms(1) move_entry_step [OF assms(2,3)]]) (use k b len in simp_all)
qed

lemma list_inv_modify:
  assumes "list_inv rows b" "i < length rows"
  shows "list_inv (touch_row i rows) (modify i npos b)"
proof -
  have b: "cb_ok b" "indices (modifications b) = rows_marked rows" using assms(1) by (simp_all add: list_inv_def)
  have wf: "crv_wf (modifications b)" using b(1) unfolding cb_ok_def sets_ok_def by blast
  have m: "modify i npos b = b\<lparr>modifications := is_add (modifications b) i\<rparr>" by (simp add: modify_def)
  have "rows_marked (touch_row i rows) = insert i (rows_marked rows)"
    "rows_map (touch_row i rows) = rows_map rows" "length (touch_row i rows) = length rows"
    using assms(2) by (auto simp: rows_marked_def rows_map_def touch_row_def nth_list_update)
  moreover have "all_moves (modify i npos b) = all_moves b" by (simp add: m all_moves_def)
  then have "cb_ok (modify i npos b)" "row_map (modify i npos b) = row_map b"
    using b(1) is_add_ok [OF wf] by (simp_all add: m cb_ok_def sets_ok_def row_map_def)
  ultimately show ?thesis using assms(1) is_add_ok [OF wf] b(2) by (simp add: list_inv_def) (simp add: m)
qed

lemma list_inv_clear:
  assumes "list_inv rows b" "n < npos"
  shows "list_inv [] (cb_clear n b)"
proof -
  have "cb_ok (cb_clear n b)" using assms cb_clear_ok(1) [of b n] by (simp add: list_inv_def)
  then show ?thesis using assms(1)
    by (simp add: list_inv_def rows_marked_def rows_map_def) (simp add: cb_clear_def Let_def)
qed

lemma list_inv_clean_up:
  "list_inv rows b \<Longrightarrow> list_inv rows (clean_up_stale_moves b)"
  using clean_up_stale_moves_ok [of b] by (simp add: list_inv_def)

section \<open>The observer\<close>

lemma list_call_inv:
  assumes "active_list ob = Some (Of_list k)" "list_inv rows (builders ob k)"
    and "list_call rows c = Some rows'"
  shows "\<exists>ob'. observe ob c = Some ob' \<and> active_list ob' = Some (Of_list k) \<and>
    list_inv rows' (builders ob' k)"
proof -
  have len: "length (touch_row i rows) = length rows" for i by (simp add: touch_row_def)
  show ?thesis
    by (rule list_call.cases [of "(rows, c)"])
      (use assms in \<open>auto simp: observe_def link_list_set_def link_list_insert_def link_list_erase_def
        link_list_swap_def link_list_clear_def link_list_move_def update_builder.simps len
        intro!: list_inv_insert list_inv_erase list_inv_move list_inv_modify list_inv_clear
        list_inv_insert [simplified]
        split: if_splits\<close>)
qed

lemma list_calls_inv:
  assumes "active_list ob = Some (Of_list k)" "list_inv rows (builders ob k)"
    and "list_calls rows cs = Some rows'"
  shows "\<exists>ob'. run_calls observe ob cs = Some ob' \<and> list_inv rows' (builders ob' k)"
  using assms
proof (induction cs arbitrary: ob rows)
  case (Cons c cs)
  obtain rows1 where r: "list_call rows c = Some rows1" "list_calls rows1 cs = Some rows'"
    using Cons.prems(3) by (auto split: option.splits)
  obtain ob1 where "observe ob c = Some ob1" "active_list ob1 = Some (Of_list k)" "list_inv rows1 (builders ob1 k)"
    using list_call_inv [OF Cons.prems(1,2) r(1)] by blast
  then show ?case using Cons.IH r(2) by fastforce
qed auto

lemma complete_lists_inv:
  assumes "list_inv rows (builders ob k)"
  shows "list_inv rows (builders (observer_parse_complete ob) k)"
proof -
  have "list_inv rows (builders ob1 k) \<Longrightarrow>
    list_inv rows (builders (foldl (\<lambda>ob l. update_builder (Some (Of_list (li_changes l))) clean_up_stale_moves ob)
      ob1 ls) k)" for ob1 and ls :: "list_info list"
  proof (induction ls arbitrary: ob1)
    case (Cons l ls)
    have "list_inv rows (builders (update_builder (Some (Of_list (li_changes l))) clean_up_stale_moves ob1) k)"
      using Cons.prems list_inv_clean_up [of rows "builders ob1 k"]
      by (cases "k = li_changes l") (simp_all add: update_builder.simps)
    then show ?case using Cons.IH by simp
  qed simp
  moreover have "builders (set_info f ob) = builders ob" for f by (simp add: set_info_def)
  ultimately show ?thesis using assms by (simp add: observer_parse_complete_def Let_def)
qed

lemma select_table_lists:
  "builders (select_table t [] ob) = builders ob" "lists (info (select_table t [] ob)) = lists (info ob)"
  "current_table (select_table t [] ob) = t"
  "active_table (select_table t [] ob) \<noteq> Some (Of_list k)"
  by (simp_all add: select_table_def Let_def set_info_def grow_tables_def)

lemma find_list_lists: "lists ci = lists ci' \<Longrightarrow> find_list ci = find_list ci'"
  by (intro ext) (simp add: find_list_def)

lemma mark_dirty_lists:
  assumes "\<And>k. active_table ob \<noteq> Some (Of_list k)"
  shows "builders (mark_dirty row col ob) = builders ob"
  using assms by (cases "(active_table ob, modify row col, ob)" rule: update_builder.cases)
    (simp_all add: mark_dirty_def update_builder.simps set_info_def)

lemma select_list_run:
  assumes "find_list ci t col row = Some (Of_list k)"
  obtains ob where "run_calls observe (observer_new ci bs) [Select_table t [], Select_link_list col row x] = Some ob"
    "active_list ob = Some (Of_list k)" "builders ob = bs"
proof -
  let ?ob1 = "select_table t [] (observer_new ci bs)"
  let ?ob = "select_link_list col row ?ob1"
  have "lists (info (mark_dirty row col ?ob1)) = lists ci" "current_table (mark_dirty row col ?ob1) = t"
    by (simp_all add: mark_dirty_def select_table_lists observer_new_def)
  then have "active_list ?ob = Some (Of_list k)"
    using assms find_list_lists by (metis (no_types, lifting) observer.select_convs(4) observer.surjective
      observer.update_convs(4) select_link_list_def)
  moreover have "builders ?ob = bs"
    by (simp add: select_link_list_def Let_def mark_dirty_lists select_table_lists observer_new_def)
  moreover have "run_calls observe (observer_new ci bs) [Select_table t [], Select_link_list col row x] = Some ?ob"
    by (simp add: observe_def)
  ultimately show thesis using that by blast
qed

section \<open>The lists of an erased row\<close>

text \<open>
  What \<open>erase_rows\<close> means to do with the watched lists when the last row of table \<open>t\<close> is moved
  over \<open>row\<close>: drop the lists of the erased row, and let the lists of the last row follow it.
\<close>

definition follow_row :: "nat \<Rightarrow> nat \<Rightarrow> nat \<Rightarrow> list_info \<Rightarrow> list_info" where
  "follow_row t row last_row l =
     (if li_table l = t \<and> li_row l = last_row then l\<lparr>li_row := row\<rparr> else l)"

definition on_row :: "nat \<Rightarrow> nat \<Rightarrow> list_info \<Rightarrow> bool" where
  "on_row t row l \<longleftrightarrow> li_table l = t \<and> li_row l = row"

lemma erase_row_lists_follow:
  assumes "\<forall>k. i \<le> k \<and> k < length ls \<longrightarrow> \<not> on_row t row (ls ! k)"
  shows "erase_row_lists t row last_row i ls = take i ls @ map (follow_row t row last_row) (drop i ls)"
  using assms
proof (induction "length ls - i" arbitrary: i ls)
  case 0
  then show ?case by (subst erase_row_lists.simps) simp
next
  case (Suc n)
  then have i: "i < length ls" by simp
  define l where "l = ls ! i"
  have no: "\<not> on_row t row l" using Suc.prems i by (simp add: l_def)
  define ls1 where "ls1 = ls[i := follow_row t row last_row l]"
  have "erase_row_lists t row last_row i ls = erase_row_lists t row last_row (Suc i) ls1"
    using i no by (subst erase_row_lists.simps) (auto simp: Let_def ls1_def l_def follow_row_def on_row_def)
  moreover have "erase_row_lists t row last_row (Suc i) ls1 =
      take (Suc i) ls1 @ map (follow_row t row last_row) (drop (Suc i) ls1)"
    by (rule Suc.hyps(1)) (use Suc.prems Suc.hyps(2) in \<open>auto simp: ls1_def\<close>)
  moreover have "take (Suc i) ls1 = take i ls @ [follow_row t row last_row l]" "drop (Suc i) ls1 = drop (Suc i) ls"
    using i by (simp_all add: ls1_def take_Suc_conv_app_nth)
  moreover have "drop i ls = l # drop (Suc i) ls" using i by (simp add: l_def Cons_nth_drop_Suc)
  ultimately show ?case by simp
qed

end
