(* ===== verification/ObserverSpec.thy ===== *)
theory ObserverSpec imports ObserverLists LogReverseLaws begin

text \<open>
  The properties of the handlers of the object store: what the observer reports of a watched table
  and of a watched list after the parse of a log, and which logs the validator refuses.
\<close>

section \<open>Tables\<close>







section \<open>Lists\<close>




text \<open>The lists of a table follow their rows when the last row is moved over an erased one, as
  long as no list of the erased row itself is watched.\<close>

theorem lists_follow_rows:
  assumes "\<forall>l\<in>set ls. \<not> on_row t row l"
  shows "erase_row_lists t row last_row 0 ls = map (follow_row t row last_row) ls"
  using erase_row_lists_follow [of 0 ls t row last_row] assms by simp

theorem lists_follow_rows_witness:
  "erase_row_lists 0 1 5 0
     [\<lparr>li_table = 0, li_row = 5, li_col = 3, li_changes = 0\<rparr>, \<lparr>li_table = 2, li_row = 1, li_col = 3, li_changes = 1\<rparr>] =
   [\<lparr>li_table = 0, li_row = 1, li_col = 3, li_changes = 0\<rparr>, \<lparr>li_table = 2, li_row = 1, li_col = 3, li_changes = 1\<rparr>]"
  using lists_follow_rows [of "[\<lparr>li_table = 0, li_row = 5, li_col = 3, li_changes = 0\<rparr>,
      \<lparr>li_table = 2, li_row = 1, li_col = 3, li_changes = 1\<rparr>]" 0 1 5]
  by (simp add: on_row_def follow_row_def)

text \<open>A list that takes the place of a removed one is skipped: with a watched list on the erased
  row, a list of the last row keeps the index of the last row although its row has moved.\<close>

theorem list_after_removed_is_skipped:
  assumes "on_row t row a" "on_row t last_row b" "row \<noteq> last_row"
  shows "erase_row_lists t row last_row 0 [a, b] = [b] \<and> b \<noteq> follow_row t row last_row b"
proof -
  have "erase_row_lists t row last_row 0 [a, b] = erase_row_lists t row last_row 1 [b]"
    using assms by (subst erase_row_lists.simps) (simp add: on_row_def)
  also have "\<dots> = [b]" by (subst erase_row_lists.simps) simp
  finally show ?thesis using assms(2,3) by (cases b) (auto simp: follow_row_def on_row_def)
qed

theorem list_after_removed_is_skipped_witness:
  "erase_row_lists 0 1 5 0
     [\<lparr>li_table = 0, li_row = 1, li_col = 3, li_changes = 0\<rparr>, \<lparr>li_table = 0, li_row = 5, li_col = 3, li_changes = 1\<rparr>] =
   [\<lparr>li_table = 0, li_row = 5, li_col = 3, li_changes = 1\<rparr>]"
  using list_after_removed_is_skipped [of 0 1 "\<lparr>li_table = 0, li_row = 1, li_col = 3, li_changes = 0\<rparr>" 5
      "\<lparr>li_table = 0, li_row = 5, li_col = 3, li_changes = 1\<rparr>"]
  by (simp add: on_row_def)

section \<open>Refused logs\<close>





section \<open>Rolled back moves\<close>

text \<open>Where the entry at a position comes from after a move.\<close>

definition moved_from :: "nat \<Rightarrow> nat \<Rightarrow> nat \<Rightarrow> nat" where
  "moved_from x y k =
     (if k = y then x else if x \<le> k \<and> k < y then k + 1 else if y < k \<and> k \<le> x then k - 1 else k)"

lemma moved_from_less: "x < n \<Longrightarrow> y < n \<Longrightarrow> k < n \<Longrightarrow> moved_from x y k < n"
  by (auto simp: moved_from_def)

lemma moved_twice: "(\<forall>k<n. moved_from x y (moved_from x y k) = k) \<longleftrightarrow> x = y \<or> x = y + 1 \<or> y = x + 1"
  if "x < n" "y < n"
proof
  assume "\<forall>k<n. moved_from x y (moved_from x y k) = k"
  then have "moved_from x y x = y" using that by (auto simp: moved_from_def dest: spec [of _ y])
  then show "x = y \<or> x = y + 1 \<or> y = x + 1" by (auto simp: moved_from_def split: if_splits)
qed (auto simp: moved_from_def)

lemma move_reversed:
  assumes "select_encoder sel" "size_ok x" "size_ok y"
  shows "read_log (unread ([], reversed_blocks (reverse_call sel reverser_new (Link_list_move x y)))) =
    Some [Link_list_move x y]"
proof -
  have "reversible_log [Link_list_move x y]" using assms(2,3) by (simp add: reversible_log_def reversible_def)
  from reversed_blocks_read [OF this assms(1)] show ?thesis
    by (simp add: reversed_calls_def abs_reverse_def abs_new_def abs_sync_table_def abs_sync_descriptor_def
        abs_sync_linkview_def Let_def)
qed

text \<open>The inverse that a rollback applies for a moved list entry is the same move again, which
  restores the list only if the entry moved by at most one place.\<close>

theorem moved_entry_not_restored:
  assumes "x < length rows" "y < length rows" "distinct rows" "length rows \<le> npos" "select_encoder sel"
  shows "\<exists>ds. read_log (unread ([], reversed_blocks (reverse_call sel reverser_new (Link_list_move x y)))) =
      Some ds \<and>
    (list_calls rows (Link_list_move x y # ds) = Some rows \<longleftrightarrow> x = y \<or> x = y + 1 \<or> y = x + 1)"
proof -
  define mv where "mv = (\<lambda>rows :: table_row list. insert_entry y (rows ! x) (remove_entry x rows))"
  have len: "length (mv r) = length rows" if "length r = length rows" for r
    using that assms(1,2) by (simp add: mv_def insert_entry_def remove_entry_def)
  have nth: "mv r ! k = r ! moved_from x y k" if "length r = length rows" "k < length rows" for r k
    using nth_move_entry [of x r y k] that assms(1,2) by (simp add: mv_def moved_from_def)
  have "list_calls rows [Link_list_move x y, Link_list_move x y] = Some (mv (mv rows))"
    using assms(1,2) len [of rows] by (simp add: mv_def)
  moreover have "mv (mv rows) = rows \<longleftrightarrow> (\<forall>k<length rows. moved_from x y (moved_from x y k) = k)"
    using len [of rows] len [of "mv rows"] nth moved_from_less [OF assms(1,2)] nth_eq_iff_index_eq [OF assms(3)]
    by (simp add: list_eq_iff_nth_eq)
  moreover have "size_ok x" "size_ok y" using assms(1,2,4) by (simp_all add: size_ok_def npos_def)
  ultimately show ?thesis using moved_twice [OF assms(1,2)] move_reversed [OF assms(5)] by simp
qed

theorem moved_entry_not_restored_witness:
  "\<exists>ds. read_log (unread ([], reversed_blocks (reverse_call select_format reverser_new (Link_list_move 0 2)))) =
      Some ds \<and>
    list_calls (unchanged_rows 3) (Link_list_move 0 2 # ds) \<noteq> Some (unchanged_rows 3)"
  using moved_entry_not_restored [of 0 "unchanged_rows 3" 2 select_format, OF _ _ _ _ select_format_encoder]
  by (simp add: unchanged_rows_def distinct_map inj_on_def npos_def del: list_calls.simps)

end
