(* ===== verification/ArrayDirect.thy ===== *)
theory ArrayDirect imports CoreTypes "HOL-Library.Word" begin

text \<open>
  Direct access to the packed elements of an array leaf (\<open>array_direct.hpp\<close>).  The memory behind
  the \<open>char*\<close> is a map from byte offsets to bytes; multi byte elements are little endian, as on the
  platforms the library is built for.  Elements of 1, 2 and 4 bits are unsigned, wider ones two's
  complement.  Every access is characterised by the bits it reads or writes: bit \<open>k\<close> of the payload is
  \<open>mem_bit m k\<close>, and element \<open>i\<close> of width \<open>w\<close> occupies the bits from \<open>w * i\<close> on.
\<close>

unbundle bit_operations_syntax

section \<open>Memory\<close>

type_synonym mem = "nat \<Rightarrow> 8 word"

primrec load_bytes :: "nat \<Rightarrow> mem \<Rightarrow> nat \<Rightarrow> int" where
  "load_bytes 0 m p = 0"
| "load_bytes (Suc n) m p = uint (m p) OR push_bit 8 (load_bytes n m (Suc p))"

primrec store_bytes :: "nat \<Rightarrow> mem \<Rightarrow> nat \<Rightarrow> int \<Rightarrow> mem" where
  "store_bytes 0 m p v = m"
| "store_bytes (Suc n) m p v = store_bytes n (m(p := word_of_int v)) (Suc p) (drop_bit 8 v)"

definition to_int64 :: "int \<Rightarrow> int" where
  "to_int64 v = signed_take_bit 63 v"

definition to_size :: "int \<Rightarrow> nat" where
  "to_size v = nat (v mod 2 ^ 64)"

section \<open>Reading and writing elements\<close>

definition set_direct :: "nat \<Rightarrow> mem \<Rightarrow> nat \<Rightarrow> int \<Rightarrow> mem" where
  "set_direct width m ndx value =
     (if width = 0 then m
      else if width = 1 then
        (let byte_ndx = ndx div 8; bit_ndx = ndx mod 8
         in m(byte_ndx := word_of_int ((uint (m byte_ndx) AND NOT (push_bit bit_ndx 1)) OR push_bit bit_ndx (value AND 1))))
      else if width = 2 then
        (let byte_ndx = ndx div 4; bit_ndx = ndx mod 4 * 2
         in m(byte_ndx := word_of_int ((uint (m byte_ndx) AND NOT (push_bit bit_ndx 3)) OR push_bit bit_ndx (value AND 3))))
      else if width = 4 then
        (let byte_ndx = ndx div 2; bit_ndx = ndx mod 2 * 4
         in m(byte_ndx := word_of_int ((uint (m byte_ndx) AND NOT (push_bit bit_ndx 15)) OR push_bit bit_ndx (value AND 15))))
      else if width = 8 then m(ndx := word_of_int value)
      else if width = 16 then store_bytes 2 m (ndx * 2) value
      else if width = 32 then store_bytes 4 m (ndx * 4) value
      else if width = 64 then store_bytes 8 m (ndx * 8) value
      else m)"

text \<open>The code stops at \<open>i = end\<close>; its callers keep \<open>i\<close> up to \<open>end\<close>, and beyond it the loop would leave the
  memory of the leaf.\<close>

function fill_direct :: "nat \<Rightarrow> mem \<Rightarrow> nat \<Rightarrow> nat \<Rightarrow> int \<Rightarrow> mem" where
  "fill_direct width m i end value =
     (if i < end then fill_direct width (set_direct width m i value) (Suc i) end value else m)"
  by pat_completeness auto
termination by (relation "measure (\<lambda>(w, m, i, end, v). end - i)") auto

definition get_direct :: "nat \<Rightarrow> mem \<Rightarrow> nat \<Rightarrow> int" where
  "get_direct w m ndx =
     (if w = 0 then 0
      else if w = 1 then drop_bit (ndx AND 7) (sint (m (drop_bit 3 ndx))) AND 1
      else if w = 2 then drop_bit (push_bit 1 (ndx AND 3)) (sint (m (drop_bit 2 ndx))) AND 3
      else if w = 4 then drop_bit (push_bit 2 (ndx AND 1)) (sint (m (drop_bit 1 ndx))) AND 15
      else if w = 8 then sint (m ndx)
      else if w = 16 then sint (word_of_int (load_bytes 2 m (ndx * 2)) :: 16 word)
      else if w = 32 then sint (word_of_int (load_bytes 4 m (ndx * 4)) :: 32 word)
      else if w = 64 then sint (word_of_int (load_bytes 8 m (ndx * 8)) :: 64 word)
      else - 1)"

text \<open>The overloads with the width as an argument dispatch over the widths, anything else is width 0.\<close>

definition widths :: "nat list" where
  "widths = [16, 32, 0, 1, 2, 4, 8, 64]"

definition tempex :: "nat \<Rightarrow> nat" where
  "tempex wid = (if wid \<in> set widths then wid else 0)"

definition get_direct_width :: "mem \<Rightarrow> nat \<Rightarrow> nat \<Rightarrow> int" where
  "get_direct_width m width ndx = get_direct (tempex width) m ndx"

definition get_two :: "nat \<Rightarrow> mem \<Rightarrow> nat \<Rightarrow> int \<times> int" where
  "get_two width m ndx =
     (to_int64 (int (to_size (get_direct width m ndx))), to_int64 (int (to_size (get_direct width m (ndx + 1)))))"

definition get_two_width :: "mem \<Rightarrow> nat \<Rightarrow> nat \<Rightarrow> int \<times> int" where
  "get_two_width m width ndx = get_two (tempex width) m ndx"

definition to_ref :: "int \<Rightarrow> nat" where
  "to_ref v = to_size v"

definition from_ref :: "nat \<Rightarrow> int" where
  "from_ref r = to_int64 (int r)"

definition get_three :: "nat \<Rightarrow> mem \<Rightarrow> nat \<Rightarrow> nat \<times> nat \<times> nat" where
  "get_three width m ndx =
     (to_ref (get_direct width m ndx), to_ref (get_direct width m (ndx + 1)), to_ref (get_direct width m (ndx + 2)))"

definition get_three_width :: "mem \<Rightarrow> nat \<Rightarrow> nat \<Rightarrow> nat \<times> nat \<times> nat" where
  "get_three_width m width ndx = get_three (tempex width) m ndx"

section \<open>Binary search\<close>

text \<open>One probe of the search, for \<open>lower_bound\<close> (\<open>below v = (v < value)\<close>) and \<open>upper_bound\<close>
  (\<open>below v = (value >= v)\<close>): the new size and the new low end.  The loop for long ranges runs three
  probes a turn.\<close>

definition probe :: "(int \<Rightarrow> bool) \<Rightarrow> nat \<Rightarrow> mem \<Rightarrow> nat \<times> nat \<Rightarrow> nat \<times> nat" where
  "probe below width m s =
     (let sz = fst s; low = snd s; half = sz div 2; other_half = sz - half;
          other_low = low + other_half; v = get_direct width m (low + half)
      in (half, if below v then other_low else low))"

lemma fst_probe [simp]: "fst (probe below width m s) = fst s div 2"
  by (simp add: probe_def Let_def)

function probes_unrolled :: "(int \<Rightarrow> bool) \<Rightarrow> nat \<Rightarrow> mem \<Rightarrow> nat \<times> nat \<Rightarrow> nat \<times> nat" where
  "probes_unrolled below width m s =
     (if 8 \<le> fst s
      then probes_unrolled below width m (probe below width m (probe below width m (probe below width m s)))
      else s)"
  by pat_completeness auto
termination by (relation "measure (\<lambda>(b, w, m, s). fst s)") auto

function probes :: "(int \<Rightarrow> bool) \<Rightarrow> nat \<Rightarrow> mem \<Rightarrow> nat \<times> nat \<Rightarrow> nat \<times> nat" where
  "probes below width m s = (if 0 < fst s then probes below width m (probe below width m s) else s)"
  by pat_completeness auto
termination by (relation "measure (\<lambda>(b, w, m, s). fst s)") auto

declare fill_direct.simps [simp del] probes_unrolled.simps [simp del] probes.simps [simp del]

definition lower_bound :: "nat \<Rightarrow> mem \<Rightarrow> nat \<Rightarrow> int \<Rightarrow> nat" where
  "lower_bound width m sz value =
     snd (probes (\<lambda>v. v < value) width m (probes_unrolled (\<lambda>v. v < value) width m (sz, 0)))"

definition upper_bound :: "nat \<Rightarrow> mem \<Rightarrow> nat \<Rightarrow> int \<Rightarrow> nat" where
  "upper_bound width m sz value =
     snd (probes (\<lambda>v. v \<le> value) width m (probes_unrolled (\<lambda>v. v \<le> value) width m (sz, 0)))"

section \<open>Elements as bits\<close>

definition mem_bit :: "mem \<Rightarrow> nat \<Rightarrow> bool" where
  "mem_bit m k = bit (m (k div 8)) (k mod 8)"

text \<open>The value of a field of \<open>w\<close> bits, and the range of values an element of width \<open>w\<close> can hold.\<close>

definition decode :: "nat \<Rightarrow> int \<Rightarrow> int" where
  "decode w x = (if w = 0 then 0 else if w < 8 then take_bit w x else signed_take_bit (w - 1) x)"

definition fits :: "nat \<Rightarrow> int \<Rightarrow> bool" where
  "fits w v \<longleftrightarrow> decode w v = v"

definition packed :: "nat \<Rightarrow> bool" where
  "packed w \<longleftrightarrow> w \<in> {1, 2, 4, 8, 16, 32, 64}"

end
