(* ===== verification/ArrayDirectLaws.thy ===== *)
theory ArrayDirectLaws imports ArrayDirect begin

text \<open>
  What the direct accesses do: an element is the field of its bits, a write changes the bits of its
  element only, and the binary searches find the boundary in a sorted leaf.
\<close>

named_theorems mem_simps "bits of memory, of loads and of stores"

lemma bit_load_bytes [mem_simps]: "bit (load_bytes n m p) j \<longleftrightarrow> j < 8 * n \<and> mem_bit m (8 * p + j)"
proof (induction n arbitrary: p j)
  case (Suc n)
  show ?case
  proof (cases "j < 8")
    case True
    then have "(8 * p + j) div 8 = p" "(8 * p + j) mod 8 = j" by auto
    then show ?thesis using True by (simp add: bit_simps mem_bit_def bit_uint_iff)
  next
    case False
    have "\<not> bit (uint (m p)) j" using False by (simp add: bit_uint_iff bit_word.rep_eq [symmetric])
    moreover have "8 * Suc p + (j - 8) = 8 * p + j" using False by simp
    ultimately show ?thesis using False Suc.IH [of "Suc p" "j - 8"] by (auto simp: bit_simps)
  qed
qed simp

lemma low_bits: "i AND 7 = i mod 8" "i AND 3 = i mod 4" "i AND 1 = i mod 2" for i :: nat
  using take_bit_eq_mask [of 3 i] take_bit_eq_mask [of 2 i] take_bit_eq_mask [of 1 i]
  by (simp_all add: take_bit_eq_mod mask_eq_exp_minus_1)

lemma bit_small_field:
  "k + n \<le> 8 \<Longrightarrow> bit (drop_bit k (sint b) AND mask n) j \<longleftrightarrow> j < n \<and> bit b (k + j)" for b :: "8 word"
  by (auto simp: bit_simps bit_mask_iff bit_sint_iff)

lemma small_masks: "mask 1 = (1 :: int)" "mask 2 = (3 :: int)" "mask 4 = (15 :: int)"
  by (simp_all add: mask_eq_exp_minus_1)

lemma field_in_byte: "k + j < 8 \<Longrightarrow> mem_bit m (8 * p + k + j) \<longleftrightarrow> bit (m p) (k + j)"
proof -
  assume "k + j < 8"
  then have "(8 * p + k + j) div 8 = p" "(8 * p + k + j) mod 8 = k + j" by (simp_all add: add.assoc)
  then show ?thesis by (simp add: mem_bit_def)
qed

lemma bit_wide_field:
  assumes "LENGTH('a) = 8 * n" "0 < n"
  shows "bit (sint (word_of_int (load_bytes n m p) :: 'a::len word)) j \<longleftrightarrow> mem_bit m (8 * p + min (8 * n - 1) j)"
proof (cases "j < 8 * n")
  case True
  then show ?thesis using assms by (simp add: bit_sint_iff bit_simps mem_simps)
next
  case False
  then have "min (8 * n - 1) j = 8 * n - 1" by simp
  with False show ?thesis using assms by (auto simp: bit_sint_iff bit_simps mem_simps)
qed

lemma get_direct_bit:
  assumes "packed w"
  shows "bit (get_direct w m i) j \<longleftrightarrow>
    (if w < 8 then j < w \<and> mem_bit m (w * i + j) else mem_bit m (w * i + min (w - 1) j))"
proof -
  have field: "bit (drop_bit k (sint (m p)) AND mask n) j \<longleftrightarrow> j < n \<and> mem_bit m (n * i + j)"
    if "k + n \<le> 8" "n * i = 8 * p + k" for k n p
    using that field_in_byte [of k j m p] by (auto simp: bit_small_field add.assoc)
  consider "w = 1" | "w = 2" | "w = 4" | "w = 8" | "w = 16" | "w = 32" | "w = 64"
    using assms by (auto simp: packed_def)
  then show ?thesis
  proof cases
    case 1
    have "i mod 8 + 1 \<le> 8" "1 * i = 8 * (i div 8) + i mod 8" by simp_all
    from field [OF this] 1 show ?thesis
      by (simp add: get_direct_def low_bits drop_bit_eq_div small_masks)
  next
    case 2
    have "2 * (i mod 4) + 2 \<le> 8" "2 * i = 8 * (i div 4) + 2 * (i mod 4)" by presburger+
    from field [OF this] 2 show ?thesis
      by (simp add: get_direct_def low_bits drop_bit_eq_div push_bit_eq_mult small_masks mult.commute)
  next
    case 3
    have "4 * (i mod 2) + 4 \<le> 8" "4 * i = 8 * (i div 2) + 4 * (i mod 2)" by presburger+
    from field [OF this] 3 show ?thesis
      by (simp add: get_direct_def low_bits drop_bit_eq_div push_bit_eq_mult small_masks mult.commute)
  next
    case 4
    have "(8 * i + min 7 j) div 8 = i" "(8 * i + min 7 j) mod 8 = min 7 j" by (auto simp: min_def)
    moreover have "bit (sint (m i)) j \<longleftrightarrow> bit (m i) (min 7 j)"
      by (cases "j < 8") (auto simp: bit_sint_iff bit_simps min_def not_less_eq_eq dest: le_antisym bit_imp_le_length)
    ultimately show ?thesis using 4 by (simp add: get_direct_def mem_bit_def)
  next
    case 5
    show ?thesis using bit_wide_field [where 'a = 16, of 2 m "i * 2" j] 5 by (simp add: get_direct_def ac_simps)
  next
    case 6
    show ?thesis using bit_wide_field [where 'a = 32, of 4 m "i * 4" j] 6 by (simp add: get_direct_def ac_simps)
  next
    case 7
    show ?thesis using bit_wide_field [where 'a = 64, of 8 m "i * 8" j] 7 by (simp add: get_direct_def ac_simps)
  qed
qed

section \<open>Writes\<close>

lemma mem_bit_update [mem_simps]: "mem_bit (m(p := b)) k \<longleftrightarrow> (if k div 8 = p then bit b (k mod 8) else mem_bit m k)"
  by (simp add: mem_bit_def)

lemma mem_bit_store [mem_simps]:
  "mem_bit (store_bytes n m p v) k \<longleftrightarrow>
     (if 8 * p \<le> k \<and> k < 8 * (p + n) then bit v (k - 8 * p) else mem_bit m k)"
proof (induction n arbitrary: m p v)
  case (Suc n)
  consider "8 * Suc p \<le> k" | "k < 8 * p" | "8 * p \<le> k" "k < 8 * Suc p" by linarith
  then show ?case
  proof cases
    case 1
    then have "k div 8 \<noteq> p" "8 + (k - 8 * Suc p) = k - 8 * p" by auto
    then show ?thesis using 1 by (auto simp: Suc.IH mem_simps bit_simps)
  next
    case 2
    then have "k div 8 \<noteq> p" by auto
    then show ?thesis using 2 by (simp add: Suc.IH mem_simps)
  next
    case 3
    then have p: "k div 8 = p" by auto
    moreover have "k mod 8 = k - 8 * p" by (simp add: p [symmetric] minus_mult_div_eq_mod)
    moreover have "k - 8 * p < 8" using 3 by (simp add: less_diff_conv2)
    ultimately show ?thesis using 3 by (simp add: Suc.IH mem_simps bit_simps)
  qed
qed auto

lemma bit_replaced_field:
  assumes "k + n \<le> 8" "j < 8"
  shows "bit (word_of_int ((uint b AND NOT (push_bit k (mask n))) OR push_bit k (v AND mask n)) :: 8 word) j \<longleftrightarrow>
    (if k \<le> j \<and> j < k + n then bit v (j - k) else bit b j)"
  using assms by (auto simp: bit_simps bit_mask_iff bit_uint_iff)

lemma set_direct_bit:
  assumes "packed w"
  shows "mem_bit (set_direct w m i v) x \<longleftrightarrow> (if x div w = i then bit v (x mod w) else mem_bit m x)"
proof -
  have small: "mem_bit (m(p := word_of_int ((uint (m p) AND NOT (push_bit k (mask n))) OR push_bit k (v AND mask n)))) x \<longleftrightarrow>
      (if n * i \<le> x \<and> x < n * i + n then bit v (x - n * i) else mem_bit m x)"
    if "k + n \<le> 8" "n * i = 8 * p + k" for k n p
  proof (cases "x div 8 = p")
    case True
    then have x: "8 * p + x mod 8 = x" by (metis mult_div_mod_eq)
    then have "n * i \<le> x \<longleftrightarrow> k \<le> x mod 8" "x < n * i + n \<longleftrightarrow> x mod 8 < k + n" "x - n * i = x mod 8 - k"
      using that by linarith+
    then show ?thesis using bit_replaced_field [OF that(1), of "x mod 8" "m p" v] True
      by (simp add: mem_simps) (simp add: mem_bit_def)
  next
    case False
    then have "\<not> (n * i \<le> x \<and> x < n * i + n)" using that by auto
    with False show ?thesis by (auto simp: mem_simps)
  qed
  have place: "x div w = i \<longleftrightarrow> w * i \<le> x \<and> x < w * i + w" "x div w = i \<Longrightarrow> x mod w = x - w * i" if "0 < w"
    using that by (auto simp: div_nat_eqI minus_mult_div_eq_mod mult.commute dividend_less_div_times)
      (metis dividend_less_times_div mult.commute mult_Suc_right add.commute)
  consider "w = 1" | "w = 2" | "w = 4" | "w = 8" | "w = 16" | "w = 32" | "w = 64" using assms by (auto simp: packed_def)
  then show ?thesis
  proof cases
    case 1
    have "i mod 8 + 1 \<le> 8" "1 * i = 8 * (i div 8) + i mod 8" by presburger+
    moreover have "set_direct w m i v =
        m(i div 8 := word_of_int ((uint (m (i div 8)) AND NOT (push_bit (i mod 8) (mask 1))) OR push_bit (i mod 8) (v AND mask 1)))"
      using 1 unfolding set_direct_def Let_def small_masks by simp
    ultimately show ?thesis using small [of "i mod 8" 1 "i div 8"] place 1 by (simp only:) auto
  next
    case 2
    have "i mod 4 * 2 + 2 \<le> 8" "2 * i = 8 * (i div 4) + i mod 4 * 2" by presburger+
    moreover have "set_direct w m i v =
        m(i div 4 := word_of_int ((uint (m (i div 4)) AND NOT (push_bit (i mod 4 * 2) (mask 2))) OR push_bit (i mod 4 * 2) (v AND mask 2)))"
      using 2 unfolding set_direct_def Let_def small_masks by simp
    ultimately show ?thesis using small [of "i mod 4 * 2" 2 "i div 4"] place 2 by (simp only:) auto
  next
    case 3
    have "i mod 2 * 4 + 4 \<le> 8" "4 * i = 8 * (i div 2) + i mod 2 * 4" by presburger+
    moreover have "set_direct w m i v =
        m(i div 2 := word_of_int ((uint (m (i div 2)) AND NOT (push_bit (i mod 2 * 4) (mask 4))) OR push_bit (i mod 2 * 4) (v AND mask 4)))"
      using 3 unfolding set_direct_def Let_def small_masks by simp
    ultimately show ?thesis using small [of "i mod 2 * 4" 4 "i div 2"] place 3 by (simp only:) auto
  next
    case 4
    then show ?thesis by (simp add: set_direct_def mem_simps bit_simps)
  qed (use place in \<open>simp_all add: set_direct_def mem_simps mult.commute\<close>)
qed

lemma packed_pos: "packed w \<Longrightarrow> 0 < w"
  by (auto simp: packed_def)

lemma packed_small: "packed w \<Longrightarrow> w < 8 \<Longrightarrow> w \<in> {1, 2, 4}"
  by (auto simp: packed_def)

lemma bit_decode:
  "packed w \<Longrightarrow> bit (decode w x) j \<longleftrightarrow> (if w < 8 then j < w \<and> bit x j else bit x (min (w - 1) j))"
  using packed_pos [of w] by (simp add: decode_def bit_take_bit_iff bit_signed_take_bit_iff)

text \<open>Reading after writing, with the value cut to the width.\<close>

lemma get_set_direct:
  assumes "packed w \<or> w = 0"
  shows "get_direct w (set_direct w m i v) j = (if j = i then decode w v else get_direct w m j)"
proof (cases "w = 0")
  case True
  then show ?thesis by (simp add: get_direct_def decode_def)
next
  case False
  with assms have w: "packed w" by simp
  have d: "(w * j + k) div w = j" "(w * j + k) mod w = k" if "k < w" for k using that by simp_all
  show ?thesis
    by (rule bit_eqI)
      (use packed_pos [OF w] in \<open>auto simp: get_direct_bit [OF w] bit_decode [OF w] set_direct_bit [OF w] d min_def\<close>)
qed

lemma fits_decode [simp]: "packed w \<or> w = 0 \<Longrightarrow> fits w (decode w v)"
  using packed_pos [of w] by (auto simp: fits_def decode_def)

lemma fits_get_direct:
  assumes "packed w \<or> w = 0"
  shows "fits w (get_direct w m i)"
proof (cases "w = 0")
  case True
  then show ?thesis by (simp add: fits_def get_direct_def decode_def)
next
  case False
  with assms have w: "packed w" by simp
  show ?thesis unfolding fits_def
    by (rule bit_eqI) (simp add: bit_decode [OF w] get_direct_bit [OF w] min_def)
qed

lemma fits_iff:
  "packed w \<Longrightarrow> fits w v \<longleftrightarrow> (if w < 8 then 0 \<le> v \<and> v < 2 ^ w else - (2 ^ (w - 1)) \<le> v \<and> v < 2 ^ (w - 1))"
  using packed_pos [of w]
  by (auto simp: fits_def decode_def take_bit_int_eq_self_iff signed_take_bit_int_eq_self_iff)

lemma get_fill_direct:
  assumes "packed w \<or> w = 0"
  shows "get_direct w (fill_direct w m i n v) j = (if i \<le> j \<and> j < n then decode w v else get_direct w m j)"
  using assms
  by (induction w m i n v rule: fill_direct.induct) (subst fill_direct.simps, auto simp: get_set_direct)

section \<open>Binary search\<close>

text \<open>The invariant of the search: everything before the range is below the value, nothing behind it is.\<close>

definition brackets :: "(int \<Rightarrow> bool) \<Rightarrow> nat \<Rightarrow> mem \<Rightarrow> nat \<Rightarrow> nat \<times> nat \<Rightarrow> bool" where
  "brackets below w m n s \<longleftrightarrow> snd s + fst s \<le> n \<and> (\<forall>i. i < snd s \<longrightarrow> below (get_direct w m i)) \<and>
     (\<forall>i. snd s + fst s \<le> i \<longrightarrow> i < n \<longrightarrow> \<not> below (get_direct w m i))"

definition parted :: "(int \<Rightarrow> bool) \<Rightarrow> nat \<Rightarrow> mem \<Rightarrow> nat \<Rightarrow> bool" where
  "parted below w m n \<longleftrightarrow> (\<forall>i j. i \<le> j \<longrightarrow> j < n \<longrightarrow> below (get_direct w m j) \<longrightarrow> below (get_direct w m i))"

lemma brackets_probe:
  assumes p: "parted below w m n" and b: "brackets below w m n s" and pos: "0 < fst s"
  shows "brackets below w m n (probe below w m s)"
proof -
  obtain sz low where s: "s = (sz, low)" by (cases s)
  have mid: "low + sz div 2 < n" using b pos s by (auto simp: brackets_def)
  show ?thesis
  proof (cases "below (get_direct w m (low + sz div 2))")
    case True
    have "below (get_direct w m i)" if "i < low + (sz - sz div 2)" for i
    proof -
      have "i \<le> low + sz div 2" using that by linarith
      then show ?thesis using p True mid unfolding parted_def by blast
    qed
    then show ?thesis using True b s by (auto simp: probe_def Let_def brackets_def)
  next
    case False
    have "\<not> below (get_direct w m i)" if "low + sz div 2 \<le> i" "i < n" for i
      using p False that unfolding parted_def by blast
    then show ?thesis using False b s by (auto simp: probe_def Let_def brackets_def)
  qed
qed

lemma brackets_probes:
  "parted below w m n \<Longrightarrow> brackets below w m n s \<Longrightarrow>
   brackets below w m n (probes below w m s) \<and> fst (probes below w m s) = 0"
  by (induction below w m s rule: probes.induct) (subst (1 2) probes.simps, simp add: brackets_probe)

text \<open>Three probes a turn or one, the search makes the same probes.\<close>

lemma probes_unrolled_same: "probes below w m (probes_unrolled below w m s) = probes below w m s"
proof (induction below w m s rule: probes_unrolled.induct)
  case (1 below w m s)
  show ?case
  proof (cases "8 \<le> fst s")
    case True
    have "probes below w m s = probes below w m (probe below w m (probe below w m (probe below w m s)))"
      using True by (subst probes.simps, subst probes.simps, subst probes.simps) simp
    with 1 [OF True] True show ?thesis by (simp add: probes_unrolled.simps [of below w m s])
  qed (simp add: probes_unrolled.simps)
qed

definition elements :: "nat \<Rightarrow> mem \<Rightarrow> nat \<Rightarrow> int list" where
  "elements w m n = map (get_direct w m) [0..<n]"

lemma elements_simps [simp]:
  "length (elements w m n) = n" "i < n \<Longrightarrow> elements w m n ! i = get_direct w m i"
  by (simp_all add: elements_def)

lemma sorted_elements: "sorted (elements w m n) \<longleftrightarrow> (\<forall>i j. i \<le> j \<longrightarrow> j < n \<longrightarrow> get_direct w m i \<le> get_direct w m j)"
  by (auto simp: sorted_iff_nth_mono)

lemma probes_parted:
  assumes "parted below w m n"
  shows "snd (probes below w m (probes_unrolled below w m (n, 0))) = length (takeWhile below (elements w m n))"
proof -
  define k where "k = snd (probes below w m (n, 0))"
  have "brackets below w m n (n, 0)" by (simp add: brackets_def)
  from brackets_probes [OF assms this]
  have k: "k \<le> n" "\<forall>i. i < k \<longrightarrow> below (get_direct w m i)" "\<forall>i. k \<le> i \<longrightarrow> i < n \<longrightarrow> \<not> below (get_direct w m i)"
    by (auto simp: brackets_def k_def)
  have "takeWhile below (elements w m n) = take k (elements w m n)"
    by (rule takeWhile_eq_take_P_nth) (use k in auto)
  then show ?thesis using k(1) by (simp add: probes_unrolled_same k_def)
qed

lemma lower_bound_elements:
  "sorted (elements w m n) \<Longrightarrow> lower_bound w m n v = length (takeWhile (\<lambda>x. x < v) (elements w m n))"
  unfolding lower_bound_def
  by (rule probes_parted) (auto simp: parted_def sorted_elements intro: le_less_trans)

lemma upper_bound_elements:
  "sorted (elements w m n) \<Longrightarrow> upper_bound w m n v = length (takeWhile (\<lambda>x. x \<le> v) (elements w m n))"
  unfolding upper_bound_def
  by (rule probes_parted) (auto simp: parted_def sorted_elements intro: order_trans)

text \<open>The references of the file format: multiples of 8 that keep their bits as an integer and back.\<close>

lemma to_ref_from_ref: "r < 2 ^ 64 \<Longrightarrow> to_ref (from_ref r) = r"
proof -
  assume r: "r < 2 ^ 64"
  have "take_bit 64 (signed_take_bit 63 (int r)) = take_bit 64 (int r)"
    by (rule take_bit_signed_take_bit) simp
  also have "\<dots> = int r" using r by (simp add: take_bit_int_eq_self)
  finally show ?thesis by (simp add: to_ref_def from_ref_def to_size_def to_int64_def take_bit_int_def)
qed

end
