(* ===== verification/ArrayHeader.thy ===== *)
theory ArrayHeader imports ArrayDirectLaws begin

text \<open>
  The header of an array node (\<open>array.hpp\<close>): eight bytes in front of the payload that hold the flags,
  the way the width counts, the width, the size and the capacity.  A failed assertion, which the
  configuration of the library keeps in release builds, ends the program; the operations that have one return an option.  Also the
  tagged references that leaf elements hold.
\<close>

section \<open>Reading the header\<close>

definition max_array_size :: nat where
  "max_array_size = 0xffffff"

definition header_size :: nat where
  "header_size = 8"

definition get_is_inner_bptree_node_from_header :: "mem \<Rightarrow> bool" where
  "get_is_inner_bptree_node_from_header h \<longleftrightarrow> uint (h 4) AND 0x80 \<noteq> 0"

definition get_hasrefs_from_header :: "mem \<Rightarrow> bool" where
  "get_hasrefs_from_header h \<longleftrightarrow> uint (h 4) AND 0x40 \<noteq> 0"

definition get_context_flag_from_header :: "mem \<Rightarrow> bool" where
  "get_context_flag_from_header h \<longleftrightarrow> uint (h 4) AND 0x20 \<noteq> 0"

definition get_wtype_from_header :: "mem \<Rightarrow> nat" where
  "get_wtype_from_header h = nat (drop_bit 3 (uint (h 4) AND 0x18))"

definition get_width_from_header :: "mem \<Rightarrow> nat" where
  "get_width_from_header h = drop_bit 1 (push_bit (nat (uint (h 4) AND 0x07)) 1)"

definition get_size_from_header :: "mem \<Rightarrow> nat" where
  "get_size_from_header h = push_bit 16 (unat (h 5)) + push_bit 8 (unat (h 6)) + unat (h 7)"

definition get_capacity_from_header :: "mem \<Rightarrow> nat" where
  "get_capacity_from_header h = push_bit 19 (unat (h 0)) + push_bit 11 (unat (h 1)) + push_bit 3 (unat (h 2))"

datatype array_type = type_Normal | type_InnerBptreeNode | type_HasRefs

definition get_type_from_header :: "mem \<Rightarrow> array_type" where
  "get_type_from_header h =
     (if get_is_inner_bptree_node_from_header h then type_InnerBptreeNode
      else if get_hasrefs_from_header h then type_HasRefs else type_Normal)"

section \<open>Writing the header\<close>

definition set_header_is_inner_bptree_node :: "bool \<Rightarrow> mem \<Rightarrow> mem" where
  "set_header_is_inner_bptree_node value h =
     h(4 := word_of_int ((uint (h 4) AND NOT 0x80) OR push_bit 7 (of_bool value)))"

definition set_header_hasrefs :: "bool \<Rightarrow> mem \<Rightarrow> mem" where
  "set_header_hasrefs value h =
     h(4 := word_of_int ((uint (h 4) AND NOT 0x40) OR push_bit 6 (of_bool value)))"

definition set_header_context_flag :: "bool \<Rightarrow> mem \<Rightarrow> mem" where
  "set_header_context_flag value h =
     h(4 := word_of_int ((uint (h 4) AND NOT 0x20) OR push_bit 5 (of_bool value)))"

definition wtype_Bits :: nat where "wtype_Bits = 0"
definition wtype_Multiply :: nat where "wtype_Multiply = 1"
definition wtype_Ignore :: nat where "wtype_Ignore = 2"

definition set_header_wtype :: "nat \<Rightarrow> mem \<Rightarrow> mem" where
  "set_header_wtype value h =
     h(4 := word_of_int ((uint (h 4) AND NOT 0x18) OR push_bit 3 (int value)))"

fun width_bits :: "nat \<Rightarrow> nat" where
  "width_bits value = (if value = 0 then 0 else Suc (width_bits (value div 2)))"

declare width_bits.simps [simp del]

definition set_header_width :: "nat \<Rightarrow> mem \<Rightarrow> mem option" where
  "set_header_width value h =
     (if width_bits value < 8
      then Some (h(4 := word_of_int ((uint (h 4) AND NOT 0x7) OR int (width_bits value))))
      else None)"

definition set_header_size :: "nat \<Rightarrow> mem \<Rightarrow> mem option" where
  "set_header_size value h =
     (if value \<le> max_array_size
      then Some (h(5 := of_nat (drop_bit 16 value AND 0xFF), 6 := of_nat (drop_bit 8 value AND 0xFF),
                   7 := of_nat (value AND 0xFF)))
      else None)"

definition set_header_capacity :: "nat \<Rightarrow> mem \<Rightarrow> mem option" where
  "set_header_capacity value h =
     (if value \<le> push_bit 3 0xffffff
      then Some (h(0 := of_nat (drop_bit 19 value AND 0xFF), 1 := of_nat (drop_bit 11 value AND 0xFF),
                   2 := of_nat (drop_bit 3 value AND 0xFF)))
      else None)"

definition init_header ::
  "mem \<Rightarrow> bool \<Rightarrow> bool \<Rightarrow> bool \<Rightarrow> nat \<Rightarrow> nat \<Rightarrow> nat \<Rightarrow> nat \<Rightarrow> mem option" where
  "init_header h is_inner has_refs context_flag wtype width sz capacity =
     (let h0 = (\<lambda>i. if i < header_size then 0 else h i);
          h1 = set_header_wtype wtype
                 (set_header_context_flag context_flag
                   (set_header_hasrefs has_refs (set_header_is_inner_bptree_node is_inner h0)))
      in Option.bind (set_header_width width h1)
           (\<lambda>h2. Option.bind (set_header_size sz h2) (set_header_capacity capacity)))"

section \<open>The size of a node\<close>

definition calc_byte_size :: "nat \<Rightarrow> nat \<Rightarrow> nat \<Rightarrow> nat option" where
  "calc_byte_size wtype sz width =
     map_option (\<lambda>num_bytes. (num_bytes + 7) div 8 * 8 + header_size)
       (if wtype = wtype_Bits then (if sz < 0x1000000 then Some (drop_bit 3 (sz * width + 7)) else None)
        else if wtype = wtype_Multiply then Some (sz * width)
        else if wtype = wtype_Ignore then Some sz
        else Some 0)"

definition get_byte_size_from_header :: "mem \<Rightarrow> nat option" where
  "get_byte_size_from_header h =
     calc_byte_size (get_wtype_from_header h) (get_size_from_header h) (get_width_from_header h)"

definition get_max_byte_size :: "nat \<Rightarrow> nat" where
  "get_max_byte_size num_elems = header_size + num_elems * 8"

section \<open>References and tagged integers\<close>

definition is_ref :: "int \<Rightarrow> bool" where
  "is_ref v \<longleftrightarrow> v AND 1 = 0"

definition is_tagged :: "int \<Rightarrow> bool" where
  "is_tagged v \<longleftrightarrow> \<not> is_ref v"

definition get_as_int :: "int \<Rightarrow> nat" where
  "get_as_int v = drop_bit 1 (to_size v)"

definition make_tagged :: "nat \<Rightarrow> int option" where
  "make_tagged i = (if i < 2 ^ 63 then Some (to_int64 (int (push_bit 1 i OR 1))) else None)"

section \<open>The fields are independent\<close>

named_theorems header_simps "fields of a header after a write"

lemma flag_bit [header_simps]:
  "get_is_inner_bptree_node_from_header h \<longleftrightarrow> bit (h 4) 7"
  "get_hasrefs_from_header h \<longleftrightarrow> bit (h 4) 6"
  "get_context_flag_from_header h \<longleftrightarrow> bit (h 4) 5"
proof -
  have "uint (h 4) AND 2 ^ n \<noteq> 0 \<longleftrightarrow> bit (h 4) n" if "n < 8" for n
    using that by (simp add: and_exp_eq_0_iff_not_bit bit_uint_iff)
  from this [of 7] this [of 6] this [of 5] show
    "get_is_inner_bptree_node_from_header h \<longleftrightarrow> bit (h 4) 7"
    "get_hasrefs_from_header h \<longleftrightarrow> bit (h 4) 6"
    "get_context_flag_from_header h \<longleftrightarrow> bit (h 4) 5"
    by (simp_all add: get_is_inner_bptree_node_from_header_def get_hasrefs_from_header_def
        get_context_flag_from_header_def)
qed

lemma header_field: "uint b AND 0x18 = push_bit 3 (take_bit 2 (drop_bit 3 (uint b)))" "uint b AND 7 = take_bit 3 (uint b)"
  for b :: "8 word"
proof -
  have m: "0x18 = push_bit 3 (mask 2 :: int)" "7 = (mask 3 :: int)" by (simp_all add: mask_eq_exp_minus_1)
  show "uint b AND 0x18 = push_bit 3 (take_bit 2 (drop_bit 3 (uint b)))" "uint b AND 7 = take_bit 3 (uint b)"
    unfolding m by (rule bit_eqI, auto simp: bit_simps bit_mask_iff)+
qed

lemma take_bit_2_bits: "take_bit 2 x = of_bool (bit x 0) + 2 * of_bool (bit x 1)" for x :: int
  by (simp add: take_bit_Suc bit_0 bit_Suc mod_2_eq_odd numeral_2_eq_2)

lemma take_bit_3_bits: "take_bit 3 x = of_bool (bit x 0) + 2 * of_bool (bit x 1) + 4 * of_bool (bit x 2)" for x :: int
  by (simp add: take_bit_Suc bit_0 bit_Suc mod_2_eq_odd numeral_2_eq_2 numeral_3_eq_3)

lemma wtype_bits [header_simps]:
  "get_wtype_from_header h = of_bool (bit (h 4) 3) + 2 * of_bool (bit (h 4) 4)"
  by (simp add: get_wtype_from_header_def header_field take_bit_2_bits bit_simps bit_uint_iff nat_add_distrib)

lemma width_exponent [header_simps]:
  "get_width_from_header h =
     drop_bit 1 (push_bit (of_bool (bit (h 4) 0) + 2 * of_bool (bit (h 4) 1) + 4 * of_bool (bit (h 4) 2)) 1)"
  by (simp add: get_width_from_header_def header_field take_bit_3_bits bit_uint_iff nat_add_distrib)

lemma bit_below: "bit v n \<Longrightarrow> v < 2 ^ k \<Longrightarrow> n < k" for v :: nat
proof (rule ccontr)
  assume b: "bit v n" and v: "v < 2 ^ k" and "\<not> n < k"
  then have "(2 :: nat) ^ k \<le> 2 ^ n" by (simp add: power_increasing)
  with v have "v div 2 ^ n = 0" by (intro div_less) linarith
  with b show False by (simp add: bit_iff_odd)
qed

lemma bit_put_flag:
  "n < 8 \<Longrightarrow> j < 8 \<Longrightarrow> bit (word_of_int ((uint b AND NOT (2 ^ n)) OR push_bit n (of_bool v)) :: 8 word) j \<longleftrightarrow>
     (if j = n then v else bit b j)"
  by (auto simp: bit_simps bit_uint_iff)

lemma set_header_flags [header_simps]:
  "j < 8 \<Longrightarrow> bit (set_header_is_inner_bptree_node v h 4) j \<longleftrightarrow> (if j = 7 then v else bit (h 4) j)"
  "j < 8 \<Longrightarrow> bit (set_header_hasrefs v h 4) j \<longleftrightarrow> (if j = 6 then v else bit (h 4) j)"
  "j < 8 \<Longrightarrow> bit (set_header_context_flag v h 4) j \<longleftrightarrow> (if j = 5 then v else bit (h 4) j)"
  using bit_put_flag [of 7 j "h 4" v] bit_put_flag [of 6 j "h 4" v] bit_put_flag [of 5 j "h 4" v]
  by (simp_all add: set_header_is_inner_bptree_node_def set_header_hasrefs_def set_header_context_flag_def)

lemma set_wtype [header_simps]:
  assumes "j < 8" "value < 4"
  shows "bit (set_header_wtype value h 4) j \<longleftrightarrow> (if j \<in> {3, 4} then bit value (j - 3) else bit (h 4) j)"
proof -
  have m: "0x18 = push_bit 3 (mask 2 :: int)" by (simp add: mask_eq_exp_minus_1)
  have b: "bit value n \<Longrightarrow> n < 2" for n
    using bit_below [of "value" n 2] assms(2) by simp
  show ?thesis using assms(1) unfolding set_header_wtype_def m
    by (auto simp: bit_simps bit_mask_iff bit_uint_iff dest: b)
qed

lemma set_width [header_simps]:
  assumes "set_header_width value h = Some h'" "j < 8"
  shows "bit (h' 4) j \<longleftrightarrow> (if j < 3 then bit (width_bits value) j else bit (h 4) j)"
proof -
  have m: "7 = (mask 3 :: int)" by (simp add: mask_eq_exp_minus_1)
  have w: "width_bits value < 8" "h' = h(4 := word_of_int ((uint (h 4) AND NOT 7) OR int (width_bits value)))"
    using assms(1) by (auto simp: set_header_width_def split: if_splits)
  have "bit (width_bits value) n \<Longrightarrow> n < 3" for n
    using bit_below [of "width_bits value" n 3] w(1) by simp
  then show ?thesis using assms(2) unfolding w(2) m
    by (auto simp: bit_simps bit_mask_iff bit_uint_iff)
qed

lemma width_bits_exp: "width_bits (2 ^ k) = Suc k"
  by (induction k) (simp_all add: width_bits.simps)

lemma nat_of_bits:
  "v < 4 \<Longrightarrow> of_bool (bit v 0) + 2 * of_bool (bit v 1) = (v :: nat)"
  "v < 8 \<Longrightarrow> of_bool (bit v 0) + 2 * of_bool (bit v 1) + 4 * of_bool (bit v 2) = (v :: nat)"
proof -
  have "int v = int (of_bool (bit v 0) + 2 * of_bool (bit v 1))" if "v < 4"
    using that take_bit_2_bits [of "int v"] by (simp add: take_bit_int_eq_self bit_of_nat_iff_bit)
  then show "v < 4 \<Longrightarrow> of_bool (bit v 0) + 2 * of_bool (bit v 1) = v" by (metis of_nat_eq_iff)
  have "int v = int (of_bool (bit v 0) + 2 * of_bool (bit v 1) + 4 * of_bool (bit v 2))" if "v < 8"
    using that take_bit_3_bits [of "int v"] by (simp add: take_bit_int_eq_self bit_of_nat_iff_bit)
  then show "v < 8 \<Longrightarrow> of_bool (bit v 0) + 2 * of_bool (bit v 1) + 4 * of_bool (bit v 2) = v" by (metis of_nat_eq_iff)
qed

lemma three_bytes:
  assumes "n < 2 ^ 24"
  shows "65536 * (n div 65536 mod 256) + 256 * (n div 256 mod 256) + n mod 256 = (n :: nat)"
proof -
  have "256 * (n div 65536) + n div 256 mod 256 = n div 256"
    using mult_div_mod_eq [of 256 "n div 256"] by (simp add: div_mult2_eq [symmetric])
  moreover have "n div 65536 mod 256 = n div 65536" using assms by (simp add: less_mult_imp_div_less)
  moreover have "256 * (n div 256) + n mod 256 = n" by simp
  ultimately show ?thesis by linarith
qed

lemma byte_of_nat: "unat (of_nat (x AND 255) :: 8 word) = x mod 256" for x :: nat
  using take_bit_eq_mask [of 8 x] by (simp add: mask_eq_exp_minus_1 take_bit_eq_mod unat_of_nat)

lemma get_set_header_size: "set_header_size n h = Some h' \<Longrightarrow> get_size_from_header h' = n"
  using three_bytes [of n]
  by (auto simp: set_header_size_def get_size_from_header_def max_array_size_def byte_of_nat drop_bit_eq_div
      push_bit_eq_mult mult.commute split: if_splits)

lemma get_set_header_capacity: "set_header_capacity c h = Some h' \<Longrightarrow> get_capacity_from_header h' = c div 8 * 8"
proof -
  assume s: "set_header_capacity c h = Some h'"
  then have "c div 8 < 2 ^ 24" by (auto simp: set_header_capacity_def push_bit_eq_mult split: if_splits)
  note less = this
  have d: "c div 8 div 65536 = c div 524288" "c div 8 div 256 = c div 2048" by (simp_all add: div_mult2_eq [symmetric])
  from three_bytes [OF less]
  have "65536 * (c div 524288 mod 256) + 256 * (c div 2048 mod 256) + c div 8 mod 256 = c div 8"
    by (simp only: d)
  then have "524288 * (c div 524288 mod 256) + 2048 * (c div 2048 mod 256) + 8 * (c div 8 mod 256) = c div 8 * 8"
    by linarith
  with s show ?thesis
    by (auto simp: set_header_capacity_def get_capacity_from_header_def byte_of_nat drop_bit_eq_div
      push_bit_eq_mult mult.commute split: if_splits)
qed

lemma size_bytes_only:
  "set_header_size n h = Some h' \<Longrightarrow> i \<notin> {5, 6, 7} \<Longrightarrow> h' i = h i"
  "set_header_capacity c h = Some h' \<Longrightarrow> i \<notin> {0, 1, 2} \<Longrightarrow> h' i = h i"
  "set_header_width w h = Some h' \<Longrightarrow> i \<noteq> 4 \<Longrightarrow> h' i = h i"
  by (auto simp: set_header_size_def set_header_capacity_def set_header_width_def split: if_splits)

text \<open>A header that was initialised reads back: the flags, the way the width counts, the width when it is
  zero or a power of two, the size, and the capacity rounded down to a multiple of 8.\<close>

lemma init_header_fields:
  assumes "init_header h is_inner has_refs flag wtype width sz capacity = Some h'" "wtype < 4"
  shows "get_is_inner_bptree_node_from_header h' = is_inner" "get_hasrefs_from_header h' = has_refs"
    "get_context_flag_from_header h' = flag" "get_wtype_from_header h' = wtype"
    "get_width_from_header h' = drop_bit 1 (push_bit (width_bits width) 1)"
    "get_size_from_header h' = sz" "get_capacity_from_header h' = capacity div 8 * 8"
    "\<And>i. header_size \<le> i \<Longrightarrow> h' i = h i"
proof -
  define h0 :: mem where "h0 = (\<lambda>i. if i < header_size then 0 else h i)"
  define h1 where "h1 = set_header_wtype wtype (set_header_context_flag flag
    (set_header_hasrefs has_refs (set_header_is_inner_bptree_node is_inner h0)))"
  obtain h2 h3 where h2: "set_header_width width h1 = Some h2" and h3: "set_header_size sz h2 = Some h3"
    and h': "set_header_capacity capacity h3 = Some h'"
    using assms(1) by (auto simp: init_header_def Let_def h0_def [symmetric] h1_def [symmetric] bind_eq_Some_conv)
  have four: "h' 4 = h2 4" using size_bytes_only(2) [OF h'] size_bytes_only(1) [OF h3] by simp
  have w8: "width_bits width < 2 ^ 3" using h2 by (simp add: set_header_width_def split: if_splits)
  note bits = four set_width [OF h2] h1_def assms(2) header_simps
  show "get_is_inner_bptree_node_from_header h' = is_inner" "get_hasrefs_from_header h' = has_refs"
    "get_context_flag_from_header h' = flag"
    by (simp_all add: bits)
  show "get_wtype_from_header h' = wtype"
    using nat_of_bits(1) [of wtype] assms(2) by (simp add: bits)
  show "get_width_from_header h' = drop_bit 1 (push_bit (width_bits width) 1)"
    using nat_of_bits(2) [of "width_bits width"] w8 by (simp add: bits)
  show "get_size_from_header h' = sz"
    using get_set_header_size [OF h3] size_bytes_only(2) [OF h'] by (simp add: get_size_from_header_def)
  show "get_capacity_from_header h' = capacity div 8 * 8" by (rule get_set_header_capacity [OF h'])
  show "h' i = h i" if "header_size \<le> i" for i
    using that size_bytes_only(2) [OF h'] size_bytes_only(1) [OF h3] size_bytes_only(3) [OF h2]
    by (simp add: header_size_def h1_def set_header_wtype_def set_header_context_flag_def set_header_hasrefs_def
        set_header_is_inner_bptree_node_def h0_def)
qed

lemma packed_power: "packed w \<Longrightarrow> \<exists>k\<le>6. w = 2 ^ k"
  by (auto simp: packed_def intro: exI [of _ 0] exI [of _ 1] exI [of _ 2] exI [of _ 3] exI [of _ 4] exI [of _ 5] exI [of _ 6])

lemma width_code: "packed w \<or> w = 0 \<Longrightarrow> width_bits w < 8 \<and> drop_bit 1 (push_bit (width_bits w) 1) = w"
  using packed_power [of w]
  by (auto simp: width_bits_exp push_bit_eq_mult drop_bit_eq_div) (simp_all add: width_bits.simps)

lemma init_header_defined:
  "packed w \<or> w = 0 \<Longrightarrow> sz \<le> max_array_size \<Longrightarrow> capacity \<le> push_bit 3 0xffffff \<Longrightarrow>
   \<exists>h'. init_header h is_inner has_refs flag wtype w sz capacity = Some h'"
  using width_code [of w]
  by (simp add: init_header_def Let_def set_header_width_def set_header_size_def set_header_capacity_def)

section \<open>Sizes and tagged integers\<close>

text \<open>The space of a node holds its payload and is a multiple of 8, and no node needs more than the maximum.\<close>

lemma calc_byte_size_bits:
  assumes "calc_byte_size wtype_Bits sz w = Some n"
  shows "sz * w \<le> 8 * (n - header_size)" "8 dvd n" "header_size \<le> n"
  using assms by (auto simp: calc_byte_size_def header_size_def drop_bit_eq_div split: if_splits)

lemma calc_byte_size_max:
  assumes "packed w \<or> w = 0" "calc_byte_size wtype_Bits sz w = Some n"
  shows "n \<le> get_max_byte_size sz"
proof -
  have "sz * w \<le> 64 * sz" using assms(1) by (auto simp: packed_def)
  moreover have "n = ((sz * w + 7) div 8 + 7) div 8 * 8 + 8"
    using assms(2) by (auto simp: calc_byte_size_def header_size_def drop_bit_eq_div split: if_splits)
  moreover have "((sz * w + 7) div 8 + 7) div 8 \<le> ((64 * sz + 7) div 8 + 7) div 8"
    using calculation(1) by (intro div_le_mono add_right_mono) simp
  moreover have "((64 * sz + 7) div 8 + 7) div 8 = sz" by simp
  ultimately show ?thesis by (simp add: get_max_byte_size_def header_size_def)
qed

lemma tagged_roundtrip:
  assumes "make_tagged i = Some v"
  shows "is_tagged v" "get_as_int v = i"
proof -
  have i: "i < 2 ^ 63" and v: "v = to_int64 (int (push_bit 1 i OR 1))"
    using assms by (auto simp: make_tagged_def split: if_splits)
  have "odd v" by (simp add: v to_int64_def bit_simps flip: bit_0)
  then show "is_tagged v" by (simp add: is_tagged_def is_ref_def and_one_eq odd_iff_mod_2_eq_one)
  have "push_bit 1 i OR 1 = 2 * i + 1" by (simp add: push_bit_eq_mult or_one_eq del: One_nat_def)
  moreover have "take_bit 64 v = int (push_bit 1 i OR 1)"
    using i calculation by (simp add: v to_int64_def take_bit_signed_take_bit take_bit_int_eq_self)
  ultimately show "get_as_int v = i" by (simp add: get_as_int_def to_size_def take_bit_int_def drop_bit_eq_div)
qed

end
