(* ===== verification/ArrayQuery.thy ===== *)
theory ArrayQuery imports ArrayDirect begin

text \<open>
  What a search over an array leaf looks for and what it does with a match: the conditions of
  \<open>query_conditions.hpp\<close> that leaves are searched with, and the accumulator \<open>QueryState<int64_t>\<close> of
  \<open>array.hpp\<close>.  The functions the headers only declare are the fields of \<open>array_ext\<close>: the population
  count, the index of the lowest set bit, rounding up, appending to a result column, and the sums and
  extremes of a part of a leaf.  \<open>overlong_shift\<close> is what a shift by the full width of 64 bits leaves,
  which C++ does not define.
\<close>

section \<open>Code outside the headers\<close>

record 'col array_ext =
  popcount64 :: "64 word \<Rightarrow> int"
  first_set_bit64 :: "64 word \<Rightarrow> nat"
  round_up :: "nat \<Rightarrow> nat \<Rightarrow> nat"
  add_to_column :: "'col \<Rightarrow> nat \<Rightarrow> 'col"
  leaf_sum :: "(nat \<Rightarrow> int) \<Rightarrow> nat \<Rightarrow> nat \<Rightarrow> int"
  leaf_maximum :: "(nat \<Rightarrow> int) \<Rightarrow> nat \<Rightarrow> nat \<Rightarrow> int \<times> nat"
  leaf_minimum :: "(nat \<Rightarrow> int) \<Rightarrow> nat \<Rightarrow> nat \<Rightarrow> int \<times> nat"
  overlong_shift :: "64 word \<Rightarrow> 64 word"

definition set_bits :: "64 word \<Rightarrow> nat list" where
  "set_bits v = filter (bit v) [0..<64]"

definition ext_ok :: "'col array_ext \<Rightarrow> bool" where
  "ext_ok e \<longleftrightarrow>
     (\<forall>v. popcount64 e v = int (length (set_bits v))) \<and>
     (\<forall>v. v \<noteq> 0 \<longrightarrow> first_set_bit64 e v = hd (set_bits v)) \<and>
     (\<forall>p align. 0 < align \<longrightarrow> round_up e p align = (p + align - 1) div align * align)"

section \<open>Conditions\<close>

datatype condition = Equal | NotEqual | Greater | Less

text \<open>The call operator with its null flags, and what the bounds of a leaf say about all its elements, one
  case per condition class (\<open>Equal\<close>, \<open>NotEqual\<close>, \<open>Greater\<close>, \<open>Less\<close>).\<close>

definition cond_nulls :: "condition \<Rightarrow> int \<Rightarrow> int \<Rightarrow> bool \<Rightarrow> bool \<Rightarrow> bool" where
  "cond_nulls c v1 v2 v1null v2null =
     (case c of
        Equal \<Rightarrow> (v1null \<and> v2null) \<or> (\<not> v1null \<and> \<not> v2null \<and> v1 = v2)
      | NotEqual \<Rightarrow> if \<not> v1null \<and> \<not> v2null then v1 \<noteq> v2 else if v1null \<and> v2null then False else True
      | Greater \<Rightarrow> if v1null \<or> v2null then False else v1 > v2
      | Less \<Rightarrow> if v1null \<or> v2null then False else v1 < v2)"

definition cond_holds :: "condition \<Rightarrow> int \<Rightarrow> int \<Rightarrow> bool" where
  "cond_holds c v1 v2 = cond_nulls c v1 v2 False False"

definition can_match :: "condition \<Rightarrow> int \<Rightarrow> int \<Rightarrow> int \<Rightarrow> bool" where
  "can_match c v lbound ubound =
     (case c of
        Equal \<Rightarrow> lbound \<le> v \<and> v \<le> ubound
      | NotEqual \<Rightarrow> \<not> (v = 0 \<and> ubound = 0 \<and> lbound = 0)
      | Greater \<Rightarrow> ubound > v
      | Less \<Rightarrow> lbound < v)"

definition will_match :: "condition \<Rightarrow> int \<Rightarrow> int \<Rightarrow> int \<Rightarrow> bool" where
  "will_match c v lbound ubound =
     (case c of
        Equal \<Rightarrow> v = 0 \<and> ubound = 0 \<and> lbound = 0
      | NotEqual \<Rightarrow> v > ubound \<or> v < lbound
      | Greater \<Rightarrow> lbound > v
      | Less \<Rightarrow> ubound < v)"

lemma cond_holds_simps [simp]:
  "cond_holds Equal v1 v2 \<longleftrightarrow> v1 = v2" "cond_holds NotEqual v1 v2 \<longleftrightarrow> v1 \<noteq> v2"
  "cond_holds Greater v1 v2 \<longleftrightarrow> v1 > v2" "cond_holds Less v1 v2 \<longleftrightarrow> v1 < v2"
  by (simp_all add: cond_holds_def cond_nulls_def)

text \<open>\<open>can_match\<close> never rejects a leaf with a match, \<open>will_match\<close> never accepts one with a mismatch.\<close>

lemma can_match_sound: "lb \<le> x \<Longrightarrow> x \<le> ub \<Longrightarrow> cond_holds c x v \<Longrightarrow> can_match c v lb ub"
  by (cases c) (auto simp: can_match_def)

lemma will_match_sound: "lb \<le> x \<Longrightarrow> x \<le> ub \<Longrightarrow> will_match c v lb ub \<Longrightarrow> cond_holds c x v"
  by (cases c) (auto simp: will_match_def)

section \<open>The accumulator\<close>

datatype action =
    act_ReturnFirst | act_Sum | act_Max | act_Min | act_Count | act_FindAll | act_CallIdx | act_CallbackIdx
  | act_CallbackVal | act_CallbackNone | act_CallbackBoth | act_Average

text \<open>\<open>m_state\<close> holds a pointer to the result column for \<open>act_FindAll\<close>; the column is a field of its own here.\<close>

record 'col query_state =
  m_state :: int
  m_match_count :: nat
  m_limit :: nat
  m_minmax_index :: nat
  m_column :: 'col

definition init_state :: "action \<Rightarrow> 'col \<Rightarrow> nat \<Rightarrow> int \<Rightarrow> 'col query_state" where
  "init_state action akku limit uninitialised =
     \<lparr>m_state =
        (case action of
           act_Max \<Rightarrow> - 0x7fffffffffffffff - 1
         | act_Min \<Rightarrow> 0x7fffffffffffffff
         | act_ReturnFirst \<Rightarrow> to_int64 (int npos)
         | act_Sum \<Rightarrow> 0
         | act_Count \<Rightarrow> 0
         | _ \<Rightarrow> uninitialised),
      m_match_count = 0, m_limit = limit, m_minmax_index = npos, m_column = akku\<rparr>"

text \<open>The limit is compared after the step.\<close>

definition below_limit :: "'col query_state \<Rightarrow> bool \<times> 'col query_state" where
  "below_limit s = (m_limit s > m_match_count s, s)"

definition match_pattern ::
  "'col array_ext \<Rightarrow> action \<Rightarrow> nat \<Rightarrow> 64 word \<Rightarrow> 'col query_state \<Rightarrow> bool \<times> 'col query_state" where
  "match_pattern e action index indexpattern s =
     (if action = act_Count then
        if m_match_count s + 64 \<ge> m_limit s then (False, s)
        else
          (let st = to_int64 (m_state s + popcount64 e indexpattern)
           in (True, s\<lparr>m_state := st, m_match_count := to_size st\<rparr>))
      else (False, s))"

definition match_value ::
  "'col array_ext \<Rightarrow> action \<Rightarrow> nat \<Rightarrow> int \<Rightarrow> 'col query_state \<Rightarrow> bool \<times> 'col query_state" where
  "match_value e action index v s0 =
     (let s = s0\<lparr>m_match_count := m_match_count s0 + 1\<rparr>
      in case action of
           act_Max \<Rightarrow> below_limit (if v > m_state s then s\<lparr>m_state := v, m_minmax_index := index\<rparr> else s)
         | act_Min \<Rightarrow> below_limit (if v < m_state s then s\<lparr>m_state := v, m_minmax_index := index\<rparr> else s)
         | act_Sum \<Rightarrow> below_limit (s\<lparr>m_state := to_int64 (m_state s + v)\<rparr>)
         | act_Count \<Rightarrow>
             (let st = to_int64 (m_state s + 1)
              in below_limit (s\<lparr>m_state := st, m_match_count := to_size st\<rparr>))
         | act_FindAll \<Rightarrow> below_limit (s\<lparr>m_column := add_to_column e (m_column s) index\<rparr>)
         | act_ReturnFirst \<Rightarrow> (False, s\<lparr>m_state := to_int64 (int index)\<rparr>)
         | _ \<Rightarrow> below_limit s)"

definition match_optional ::
  "'col array_ext \<Rightarrow> action \<Rightarrow> nat \<Rightarrow> int option \<Rightarrow> 'col query_state \<Rightarrow> bool \<times> 'col query_state" where
  "match_optional e action index v s =
     (case v of
        Some x \<Rightarrow> match_value e action index x s
      | None \<Rightarrow>
          if action = act_Count then
            (let st = to_int64 (m_state s + 1)
             in below_limit (s\<lparr>m_state := st, m_match_count := to_size st\<rparr>))
          else if action = act_FindAll then below_limit (s\<lparr>m_column := add_to_column e (m_column s) index\<rparr>)
          else if action = act_ReturnFirst then
            (False, s\<lparr>m_match_count := m_match_count s + 1, m_state := to_int64 (int index)\<rparr>)
          else below_limit s)"

section \<open>Visitors\<close>

text \<open>The search is a template over the action and the callback.  A visitor is one instance: what happens
  for a single match, and for a whole chunk of them at once.\<close>

record 's visitor =
  v_action :: "nat \<Rightarrow> int option \<Rightarrow> 's \<Rightarrow> bool \<times> 's"
  v_pattern :: "nat \<Rightarrow> 64 word \<Rightarrow> 's \<Rightarrow> bool \<times> 's"

definition find_action ::
  "'col array_ext \<Rightarrow> action \<Rightarrow> (nat \<Rightarrow> 'cb \<Rightarrow> bool \<times> 'cb) \<Rightarrow> nat \<Rightarrow> int option \<Rightarrow> 'col query_state \<times> 'cb \<Rightarrow>
   bool \<times> 'col query_state \<times> 'cb" where
  "find_action e action callback index v s =
     (if action = act_CallbackIdx then (let r = callback index (snd s) in (fst r, fst s, snd r))
      else (let r = match_optional e action index v (fst s) in (fst r, snd r, snd s)))"

definition find_action_pattern ::
  "'col array_ext \<Rightarrow> action \<Rightarrow> nat \<Rightarrow> 64 word \<Rightarrow> 'col query_state \<times> 'cb \<Rightarrow> bool \<times> 'col query_state \<times> 'cb" where
  "find_action_pattern e action index pattern s =
     (if action = act_CallbackIdx then (False, s)
      else (let r = match_pattern e action index pattern (fst s) in (fst r, snd r, snd s)))"

definition visitor_of ::
  "'col array_ext \<Rightarrow> action \<Rightarrow> (nat \<Rightarrow> 'cb \<Rightarrow> bool \<times> 'cb) \<Rightarrow> ('col query_state \<times> 'cb) visitor" where
  "visitor_of e action callback =
     \<lparr>v_action = find_action e action callback, v_pattern = find_action_pattern e action\<rparr>"

section \<open>The bit tricks on a chunk\<close>

text \<open>
  The bit tricks of the leaf search (\<open>array.hpp\<close>): a chunk of 64 bits holds \<open>64 / width\<close> elements, and
  one word operation looks at all of them.  The template parameter \<open>width\<close> is an argument.
\<close>

definition no0 :: "nat \<Rightarrow> nat" where
  "no0 v = (if v = 0 then 1 else v)"

definition value_mask :: "nat \<Rightarrow> 64 word" where
  "value_mask width = (if width = 64 then NOT 0 else push_bit width 1 - 1)"

text \<open>\<open>~0ULL / m * x\<close>: with the mask \<open>m\<close> of one element, \<open>x\<close> in every element of the chunk.\<close>

definition spread :: "64 word \<Rightarrow> 64 word \<Rightarrow> 64 word" where
  "spread m x = NOT 0 div (if m = 0 then 1 else m) * x"

definition lower_bits :: "nat \<Rightarrow> 64 word" where
  "lower_bits width =
     (if width = 1 then 0xFFFFFFFFFFFFFFFF
      else if width = 2 then 0x5555555555555555
      else if width = 4 then 0x1111111111111111
      else if width = 8 then 0x0101010101010101
      else if width = 16 then 0x0001000100010001
      else if width = 32 then 0x0000000100000001
      else if width = 64 then 0x0000000000000001
      else - 1)"

definition test_zero :: "nat \<Rightarrow> 64 word \<Rightarrow> bool" where
  "test_zero width v =
     (let lower = lower_bits width; upper = push_bit (if width = 0 then 0 else width - 1) (lower_bits width * 1)
      in (v - lower) AND NOT v AND upper \<noteq> 0)"

text \<open>The shifts and masks of \<open>cascade\<close>, one step each.\<close>

definition cascade_steps :: "nat \<Rightarrow> (nat \<times> 64 word) list" where
  "cascade_steps width =
     (if width = 2 then [(1, spread 0x3 0x1)]
      else if width = 4 then [(1, spread 0xF 0x7), (2, spread 0xF 0x3)]
      else if width = 8 then [(1, spread 0xFF 0x7F), (2, spread 0xFF 0x3F), (4, spread 0xFF 0x0F)]
      else if width = 16 then
        [(1, spread 0xFFFF 0x7FFF), (2, spread 0xFFFF 0x3FFF), (4, spread 0xFFFF 0x0FFF), (8, spread 0xFFFF 0x00FF)]
      else if width = 32 then
        [(1, spread 0xFFFFFFFF 0x7FFFFFFF), (2, spread 0xFFFFFFFF 0x3FFFFFFF), (4, spread 0xFFFFFFFF 0x0FFFFFFF),
         (8, spread 0xFFFFFFFF 0x00FFFFFF), (16, spread 0xFFFFFFFF 0x0000FFFF)]
      else [])"

definition cascade_fold :: "(nat \<times> 64 word) list \<Rightarrow> 64 word \<Rightarrow> 64 word" where
  "cascade_fold steps a = foldl (\<lambda>a (k, c). a OR (drop_bit k a AND c)) a steps"

definition cascade_low :: "nat \<Rightarrow> 64 word" where
  "cascade_low width =
     (if width = 2 then 0x5555555555555555
      else if width = 4 then spread 0xF 0x1
      else if width = 8 then spread 0xFF 0x1
      else if width = 16 then spread 0xFFFF 0x1
      else spread 0xFFFFFFFF 0x1)"

definition cascade :: "nat \<Rightarrow> bool \<Rightarrow> 64 word \<Rightarrow> 64 word" where
  "cascade width zero a =
     (if width = 1 then (if zero then NOT a else a)
      else if width \<in> {2, 4, 8, 16, 32} then
        (let a2 = cascade_fold (cascade_steps width) a AND cascade_low width
         in if zero then a2 XOR cascade_low width else a2)
      else if width = 64 then (if (a = 0) = zero then 1 else 0)
      else - 1)"

text \<open>The element of a chunk from a given position on; \<open>None\<close> is the failed assertion of \<open>find_zero\<close>.\<close>

function find_zero_from :: "bool \<Rightarrow> nat \<Rightarrow> 64 word \<Rightarrow> nat \<Rightarrow> nat option" where
  "find_zero_from eq width v start =
     (if eq = (drop_bit (width * start) v AND value_mask width \<noteq> 0)
      then if start \<le> 64 then find_zero_from eq width v (start + 1) else None
      else Some start)"
  by pat_completeness auto
termination by (relation "measure (\<lambda>(eq, w, v, start). 66 - start)") auto

declare find_zero_from.simps [simp del]

definition find_zero_start :: "bool \<Rightarrow> nat \<Rightarrow> 64 word \<Rightarrow> nat" where
  "find_zero_start eq width v =
     (if width \<le> 8 then
        (if (if eq then \<not> test_zero width (v OR 0xffffffff00000000) else v AND 0x00000000ffffffff = 0)
         then 64 div no0 width div 2 +
           (if width \<le> 4 \<and>
               (if eq then \<not> test_zero width (v OR 0xffff000000000000) else v AND 0x0000ffffffffffff = 0)
            then 64 div no0 width div 4 else 0)
         else
           (if width \<le> 4 \<and>
               (if eq then \<not> test_zero width (v OR 0xffffffffffff0000) else v AND 0x000000000000ffff = 0)
            then 64 div no0 width div 4 else 0))
      else 0)"

definition find_zero :: "bool \<Rightarrow> nat \<Rightarrow> 64 word \<Rightarrow> nat option" where
  "find_zero eq width v =
     (if eq = (v AND value_mask width = 0) then Some 0
      else find_zero_from eq width v (find_zero_start eq width v))"

definition find_gtlt_magic :: "bool \<Rightarrow> nat \<Rightarrow> int \<Rightarrow> 64 word" where
  "find_gtlt_magic gt width v =
     (let mask1 = value_mask width; mask2 = drop_bit 1 mask1
      in if gt then spread mask1 (mask2 - word_of_int v) else spread mask1 (word_of_int v))"

text \<open>The bits of \<open>find_gtlt_fast\<close>: the top bit of every element it takes for a match.\<close>

definition gtlt_bits :: "bool \<Rightarrow> nat \<Rightarrow> 64 word \<Rightarrow> 64 word \<Rightarrow> 64 word" where
  "gtlt_bits gt width chunk magic =
     (let mask1 = value_mask width; mask2 = drop_bit 1 mask1
      in if gt then ((chunk + magic) OR chunk) AND spread mask1 (mask2 + 1)
         else (chunk - magic) AND NOT chunk AND spread mask1 (mask2 + 1))"

text \<open>The element in the low bits of a chunk, as \<open>find_gtlt\<close> casts it.  For width 64 the code casts the
  value it compares with.\<close>

definition gtlt_cast :: "nat \<Rightarrow> int \<Rightarrow> 64 word \<Rightarrow> int" where
  "gtlt_cast width v chunk =
     (if width = 1 then sint (chunk AND 0x1)
      else if width = 2 then sint (chunk AND 0x3)
      else if width = 4 then sint (chunk AND 0xf)
      else if width = 8 then sint (ucast chunk :: 8 word)
      else if width = 16 then sint (ucast chunk :: 16 word)
      else if width = 32 then sint (ucast chunk :: 32 word)
      else v)"

end
