(* ===== verification/ArrayFind.thy ===== *)
theory ArrayFind imports ArrayQuery begin

text \<open>
  The search over an array leaf (\<open>Array::find\<close> and what it calls in \<open>array.hpp\<close>).  A search returns
  whether the caller should go on with the next leaf, and the visitor's state; \<open>None\<close> is a failed
  assertion, which the configuration of the library keeps in release builds.  Loops over a chunk shift it as the code does.
\<close>

record leaf =
  m_data :: mem
  m_size :: nat
  m_width :: nat
  m_lbound :: int
  m_ubound :: int

abbreviation leaf_get :: "nat \<Rightarrow> leaf \<Rightarrow> nat \<Rightarrow> int" where
  "leaf_get w a \<equiv> get_direct w (m_data a)"

text \<open>Rows are \<open>size_t\<close> values, and the sum of an index and the base index wraps.\<close>

definition row_index :: "nat \<Rightarrow> nat \<Rightarrow> nat" where
  "row_index i base = (i + base) mod 2 ^ 64"

type_synonym 's outcome = "(bool \<times> 's) option"

definition unless_stopped :: "'s outcome \<Rightarrow> ('s \<Rightarrow> 's outcome) \<Rightarrow> 's outcome" where
  "unless_stopped r k = (case r of None \<Rightarrow> None | Some (go, s) \<Rightarrow> if go then k s else Some (False, s))"

definition act :: "'s visitor \<Rightarrow> nat \<Rightarrow> nat \<Rightarrow> int \<Rightarrow> 's \<Rightarrow> 's outcome" where
  "act vis base i v s = Some (v_action vis (row_index i base) (Some v) s)"

text \<open>The loops that look at one element after another.\<close>

function scan :: "'s visitor \<Rightarrow> nat \<Rightarrow> (nat \<Rightarrow> int) \<Rightarrow> (int \<Rightarrow> bool) \<Rightarrow> nat \<Rightarrow> nat \<Rightarrow> 's \<Rightarrow> 's outcome" where
  "scan vis base get test i end s =
     (if i < end then
        unless_stopped (if test (get i) then act vis base i (get i) s else Some (True, s))
          (scan vis base get test (i + 1) end)
      else Some (True, s))"
  by pat_completeness auto
termination by (relation "measure (\<lambda>(vis, base, get, test, i, end, s). end - i)") auto

declare scan.simps [simp del]

section \<open>Equality\<close>

definition shift_right :: "'col array_ext \<Rightarrow> 64 word \<Rightarrow> nat \<Rightarrow> 64 word" where
  "shift_right e v n = (if n < 64 then drop_bit n v else overlong_shift e v)"

lemma within_chunk: "i < 64 div no0 width \<Longrightarrow> i < 64"
  by (rule less_le_trans [OF _ div_le_dividend])

text \<open>One chunk: \<open>v2\<close> is what is left of the chunk, \<open>a\<close> the position of its first element.\<close>

function equality_chunk ::
  "'col array_ext \<Rightarrow> 's visitor \<Rightarrow> nat \<Rightarrow> (nat \<Rightarrow> int) \<Rightarrow> bool \<Rightarrow> nat \<Rightarrow> nat \<Rightarrow> 64 word \<Rightarrow> nat \<Rightarrow> 's \<Rightarrow> 's outcome" where
  "equality_chunk e vis base get eq width start v2 a s =
     (if (if eq then test_zero width v2 else v2 \<noteq> 0) then
        (let r = v_pattern vis (row_index start base) (cascade width eq v2) s; s1 = snd r
         in if fst r then Some (True, s1)
            else
              case find_zero eq width v2 of
                None \<Rightarrow> None
              | Some t \<Rightarrow>
                  if a + t \<ge> 64 div no0 width then Some (True, s1)
                  else
                    unless_stopped (act vis base (a + t + start) (get (start + (a + t))) s1)
                      (equality_chunk e vis base get eq width start (shift_right e v2 ((t + 1) * width)) (a + t + 1)))
      else Some (True, s))"
  by pat_completeness auto
termination
  by (relation "measure (\<lambda>(e, vis, base, get, eq, width, start, v2, a, s). 64 - a)")
    (auto dest!: within_chunk simp: not_le)

declare equality_chunk.simps [simp del]

function equality_chunks ::
  "'col array_ext \<Rightarrow> 's visitor \<Rightarrow> nat \<Rightarrow> leaf \<Rightarrow> bool \<Rightarrow> nat \<Rightarrow> 64 word \<Rightarrow> nat \<Rightarrow> nat \<Rightarrow> 's \<Rightarrow> (nat \<times> bool \<times> 's) option" where
  "equality_chunks e vis base arr eq width valuemask p e_end s =
     (if p + 8 < e_end then
        (let chunk = word_of_int (load_bytes 8 (m_data arr) p); start = p div 8 * 8 * 8 div no0 width
         in case equality_chunk e vis base (leaf_get width arr) eq width start (chunk XOR valuemask) 0 s of
              None \<Rightarrow> None
            | Some (go, s1) \<Rightarrow>
                if go then equality_chunks e vis base arr eq width valuemask (p + 8) e_end s1
                else Some (p, False, s1))
      else Some (p, True, s))"
  by pat_completeness auto
termination by (relation "measure (\<lambda>(e, vis, base, arr, eq, width, vm, p, e_end, s). e_end - p)") auto

declare equality_chunks.simps [simp del]

definition compare_equality ::
  "'col array_ext \<Rightarrow> 's visitor \<Rightarrow> leaf \<Rightarrow> bool \<Rightarrow> nat \<Rightarrow> int \<Rightarrow> nat \<Rightarrow> nat \<Rightarrow> nat \<Rightarrow> 's \<Rightarrow> 's outcome" where
  "compare_equality e vis arr eq width v start end base s =
     (let get = leaf_get width arr; test = (\<lambda>x. if eq then x = v else x \<noteq> v);
          ee = min (round_up e start (64 div no0 width)) end
      in unless_stopped (scan vis base get test start ee s)
           (\<lambda>s1. let start1 = max start ee
              in if start1 \<ge> end then Some (True, s1)
                 else if width \<noteq> 32 \<and> width \<noteq> 64 then
                   (case equality_chunks e vis base arr eq width
                           (spread (value_mask width) (word_of_int v AND value_mask width))
                           (start1 * width div 8) (end * width div 8) s1 of
                      None \<Rightarrow> None
                    | Some (p, go, s2) \<Rightarrow>
                        if go then scan vis base get test (p div 8 * 8 * 8 div no0 width) end s2
                        else Some (False, s2))
                 else scan vis base get test start1 end s1))"

section \<open>Greater and less\<close>

lemma shorter_word: "m \<noteq> 0 \<Longrightarrow> 0 < k \<Longrightarrow> unat (drop_bit k m) < unat m" for m :: "64 word"
  by (subst unat_drop_bit_eq, subst drop_bit_eq_div, rule div_less_dividend) (simp_all add: unat_gt_0 one_less_power del: One_nat_def)

text \<open>One chunk whose elements have a clear top bit; \<open>m\<close> has the top bits of the matches that are left and
  \<open>p\<close> is the position of its first element.  The code is not instantiated for width 0, where its loop
  would not end.\<close>

function gtlt_fast ::
  "'col array_ext \<Rightarrow> 's visitor \<Rightarrow> nat \<Rightarrow> nat \<Rightarrow> 64 word \<Rightarrow> 64 word \<Rightarrow> nat \<Rightarrow> 's \<Rightarrow> 's outcome" where
  "gtlt_fast e vis base width chunk m p s =
     (if m = 0 \<or> width = 0 then Some (True, s)
      else
        (let r = v_pattern vis base (drop_bit (no0 width - 1) m) s; s1 = snd r
         in if fst r then Some (True, s1)
            else
              (let t = first_set_bit64 e m div no0 width; p1 = p + t
               in unless_stopped
                    (act vis base p1 (uint (drop_bit (p1 * width) chunk AND value_mask width)) s1)
                    (gtlt_fast e vis base width chunk
                       (if (t + 1) * width = 64 then 0 else drop_bit ((t + 1) * width) m) (p1 + 1)))))"
  by pat_completeness auto
termination
  by (relation "measure (\<lambda>(e, vis, base, width, chunk, m, p, s). unat m)") (auto intro!: shorter_word simp: unat_gt_0)

definition find_gtlt_fast ::
  "'col array_ext \<Rightarrow> 's visitor \<Rightarrow> bool \<Rightarrow> nat \<Rightarrow> 64 word \<Rightarrow> 64 word \<Rightarrow> nat \<Rightarrow> 's \<Rightarrow> 's outcome" where
  "find_gtlt_fast e vis gt width chunk magic base s =
     gtlt_fast e vis base width chunk (gtlt_bits gt width chunk magic) 0 s"

function gtlt_chunk ::
  "'s visitor \<Rightarrow> nat \<Rightarrow> bool \<Rightarrow> nat \<Rightarrow> int \<Rightarrow> 64 word \<Rightarrow> nat \<Rightarrow> 's \<Rightarrow> 's outcome" where
  "gtlt_chunk vis base gt width v chunk t s =
     (if t < 64 div width then
        (let x = gtlt_cast width v chunk
         in unless_stopped (if (if gt then x > v else x < v) then act vis base t x s else Some (True, s))
              (gtlt_chunk vis base gt width v (drop_bit width chunk) (t + 1)))
      else Some (True, s))"
  by pat_completeness auto
termination by (relation "measure (\<lambda>(vis, base, gt, w, v, c, t, s). 64 div w - t)") auto

declare gtlt_fast.simps [simp del] gtlt_chunk.simps [simp del]

definition find_gtlt :: "'s visitor \<Rightarrow> bool \<Rightarrow> nat \<Rightarrow> int \<Rightarrow> 64 word \<Rightarrow> nat \<Rightarrow> 's \<Rightarrow> 's outcome" where
  "find_gtlt vis gt width v chunk base s = gtlt_chunk vis base gt width v chunk 0 s"

text \<open>The chunks of a relation: \<open>fast\<close> says that the value allows the bit trick.\<close>

function relation_chunks ::
  "'col array_ext \<Rightarrow> 's visitor \<Rightarrow> nat \<Rightarrow> leaf \<Rightarrow> bool \<Rightarrow> nat \<Rightarrow> int \<Rightarrow> bool \<Rightarrow> nat \<Rightarrow> nat \<Rightarrow> 's \<Rightarrow> (nat \<times> bool \<times> 's) option" where
  "relation_chunks e vis base arr gt width v fast p e_end s =
     (if p + 8 < e_end then
        (let chunk = word_of_int (load_bytes 8 (m_data arr) p);
             upper = push_bit (no0 width - 1) (lower_bits width) AND chunk;
             base1 = row_index (p div 8 * 8 * 8 div no0 width) base
         in case (if fast \<and> upper = 0 then find_gtlt_fast e vis gt width chunk (find_gtlt_magic gt width v) base1 s
                  else find_gtlt vis gt width v chunk base1 s) of
              None \<Rightarrow> None
            | Some (go, s1) \<Rightarrow>
                if go then relation_chunks e vis base arr gt width v fast (p + 8) e_end s1
                else Some (p, False, s1))
      else Some (p, True, s))"
  by pat_completeness auto
termination by (relation "measure (\<lambda>(e, vis, base, arr, gt, width, v, fast, p, e_end, s). e_end - p)") auto

declare relation_chunks.simps [simp del]

definition gtlt_fast_ok :: "bool \<Rightarrow> nat \<Rightarrow> int \<Rightarrow> bool" where
  "gtlt_fast_ok gt width v \<longleftrightarrow>
     v \<noteq> sint (find_gtlt_magic gt width v AND value_mask width) \<and> v \<ge> 0 \<and> width \<ge> 2 \<and>
     v \<le> sint (drop_bit 1 (value_mask width) - (if gt then 1 else 0))"

definition compare_relation ::
  "'col array_ext \<Rightarrow> 's visitor \<Rightarrow> leaf \<Rightarrow> bool \<Rightarrow> nat \<Rightarrow> int \<Rightarrow> nat \<Rightarrow> nat \<Rightarrow> nat \<Rightarrow> 's \<Rightarrow> 's outcome" where
  "compare_relation e vis arr gt width v start end base s =
     (if \<not> (start \<le> m_size arr \<and> (end \<le> m_size arr \<or> end = npos) \<and> start \<le> end) then None
      else
        (let get = leaf_get width arr; test = (\<lambda>x. if gt then x > v else x < v);
             ee = min (round_up e start (64 div no0 width)) end
         in unless_stopped (scan vis base get test start ee s)
              (\<lambda>s1. let start1 = max start ee
                 in if start1 \<ge> end then Some (True, s1)
                    else if width \<in> {1, 2, 4, 8, 16} then
                      (case relation_chunks e vis base arr gt width v (gtlt_fast_ok gt width v)
                              (start1 * width div 8) (end * width div 8) s1 of
                         None \<Rightarrow> None
                       | Some (p, go, s2) \<Rightarrow>
                           if go then scan vis base get test (p div 8 * 8 * 8 div no0 width) end s2
                           else Some (False, s2))
                    else scan vis base get test start1 end s1)))"

section \<open>The search\<close>

definition compare ::
  "'col array_ext \<Rightarrow> 's visitor \<Rightarrow> leaf \<Rightarrow> condition \<Rightarrow> nat \<Rightarrow> int \<Rightarrow> nat \<Rightarrow> nat \<Rightarrow> nat \<Rightarrow> 's \<Rightarrow> 's outcome" where
  "compare e vis arr c width v start end base s =
     (case c of
        Equal \<Rightarrow> compare_equality e vis arr True width v start end base s
      | NotEqual \<Rightarrow> compare_equality e vis arr False width v start end base s
      | Greater \<Rightarrow> compare_relation e vis arr True width v start end base s
      | Less \<Rightarrow> compare_relation e vis arr False width v start end base s)"

text \<open>The first items are looked at one by one before anything else is set up.\<close>

primrec first_items ::
  "nat \<Rightarrow> 's visitor \<Rightarrow> leaf \<Rightarrow> condition \<Rightarrow> nat \<Rightarrow> int \<Rightarrow> nat \<Rightarrow> nat \<Rightarrow> nat \<Rightarrow> 's \<Rightarrow> 's outcome" where
  "first_items 0 vis arr c w v end base i s = Some (True, s)"
| "first_items (Suc k) vis arr c w v end base i s =
     unless_stopped
       (if m_size arr > i \<and> cond_holds c (leaf_get w arr i) v \<and> i < end then act vis base i (leaf_get w arr i) s
        else Some (True, s))
       (first_items k vis arr c w v end base (i + 1))"

text \<open>When the bounds of the leaf say that everything matches.\<close>

definition all_match ::
  "'col array_ext \<Rightarrow> action \<Rightarrow> (nat \<Rightarrow> 'cb \<Rightarrow> bool \<times> 'cb) \<Rightarrow> leaf \<Rightarrow> nat \<Rightarrow> nat \<Rightarrow> nat \<Rightarrow> nat \<Rightarrow>
   'col query_state \<times> 'cb \<Rightarrow> ('col query_state \<times> 'cb) outcome" where
  "all_match e action callback arr w start end base s =
     (let get = leaf_get w arr;
          process = to_size (int (m_limit (fst s)) - int (m_match_count (fst s)));
          end2 = (if action = act_CallbackIdx then end else if end - start > process then start + process else end)
      in if action \<in> {act_Sum, act_Max, act_Min} then
           (let r = (if action = act_Sum then (leaf_sum e get start end2, 0)
                     else if action = act_Max then leaf_maximum e get start end2
                     else leaf_minimum e get start end2);
                s1 = snd (find_action e action callback (row_index (snd r) base) (Some (fst r)) s)
            in Some (True, (fst s1)\<lparr>m_match_count :=
                 to_size (int (m_match_count (fst s1)) + int end2 - int start - 1)\<rparr>, snd s1))
         else if action = act_Count then
           Some (True, (fst s)\<lparr>m_state := to_int64 (m_state (fst s) + int (end2 - start))\<rparr>, snd s)
         else scan (visitor_of e action callback) base get (\<lambda>_. True) start end2 s)"

definition find_rest ::
  "'col array_ext \<Rightarrow> action \<Rightarrow> (nat \<Rightarrow> 'cb \<Rightarrow> bool \<times> 'cb) \<Rightarrow> leaf \<Rightarrow> condition \<Rightarrow> nat \<Rightarrow> int \<Rightarrow> nat \<Rightarrow> nat \<Rightarrow> nat \<Rightarrow>
   'col query_state \<times> 'cb \<Rightarrow> ('col query_state \<times> 'cb) outcome" where
  "find_rest e action callback arr c w v start end base s =
     (if \<not> (m_size arr > start \<and> start < end) then Some (True, s)
      else
        (let end1 = (if end = npos then m_size arr else end)
         in if \<not> can_match c v (m_lbound arr) (m_ubound arr) then Some (True, s)
            else if will_match c v (m_lbound arr) (m_ubound arr)
            then all_match e action callback arr w start end1 base s
            else if m_width arr = 0 then None
            else compare e (visitor_of e action callback) arr c w v start end1 base s))"

definition find_from ::
  "'col array_ext \<Rightarrow> action \<Rightarrow> (nat \<Rightarrow> 'cb \<Rightarrow> bool \<times> 'cb) \<Rightarrow> leaf \<Rightarrow> condition \<Rightarrow> nat \<Rightarrow> int \<Rightarrow> nat \<Rightarrow> nat \<Rightarrow> nat \<Rightarrow>
   'col query_state \<times> 'cb \<Rightarrow> ('col query_state \<times> 'cb) outcome" where
  "find_from e action callback arr c w v start end base s =
     (if 0 < start then
        unless_stopped (first_items 4 (visitor_of e action callback) arr c w v end base start s)
          (find_rest e action callback arr c w v (start + 4) end base)
      else find_rest e action callback arr c w v start end base s)"

function find_nullable ::
  "'s visitor \<Rightarrow> leaf \<Rightarrow> condition \<Rightarrow> nat \<Rightarrow> int \<Rightarrow> bool \<Rightarrow> int \<Rightarrow> nat \<Rightarrow> nat \<Rightarrow> nat \<Rightarrow> 's \<Rightarrow> 's outcome" where
  "find_nullable vis arr c w v find_null null_value i end base s =
     (if i < end then
        (let x = leaf_get w arr (i + 1); is_null = (x = null_value)
         in unless_stopped
              (if cond_nulls c x v is_null find_null
               then Some (v_action vis (row_index i base) (if is_null then None else Some x) s)
               else Some (True, s))
              (find_nullable vis arr c w v find_null null_value (i + 1) end base))
      else Some (True, s))"
  by pat_completeness auto
termination by (relation "measure (\<lambda>(vis, arr, c, w, v, fn, nv, i, end, base, s). end - i)") auto

declare find_nullable.simps [simp del]

definition find_optimized ::
  "'col array_ext \<Rightarrow> action \<Rightarrow> (nat \<Rightarrow> 'cb \<Rightarrow> bool \<times> 'cb) \<Rightarrow> leaf \<Rightarrow> condition \<Rightarrow> nat \<Rightarrow> int \<Rightarrow> nat \<Rightarrow> nat \<Rightarrow> nat \<Rightarrow>
   bool \<Rightarrow> bool \<Rightarrow> 'col query_state \<times> 'cb \<Rightarrow> ('col query_state \<times> 'cb) outcome" where
  "find_optimized e action callback arr c w v start end base nullable_array find_null s =
     (if find_null \<and> \<not> nullable_array then None
      else
        (let end1 = (if end = npos then (if nullable_array then to_size (int (m_size arr) - 1) else m_size arr) else end);
             null_value = leaf_get (m_width arr) arr 0
         in if nullable_array then
              if c = Equal then
                (if \<not> find_null \<and> v = null_value then Some (True, s)
                 else find_from e action callback arr c w (if find_null then null_value else v) (start + 1) (end1 + 1)
                        (to_size (int base - 1)) s)
              else find_nullable (visitor_of e action callback) arr c w v find_null null_value start end1 base s
            else find_from e action callback arr c w v start end1 base s))"

definition find_leaf ::
  "'col array_ext \<Rightarrow> action \<Rightarrow> (nat \<Rightarrow> 'cb \<Rightarrow> bool \<times> 'cb) \<Rightarrow> leaf \<Rightarrow> condition \<Rightarrow> int \<Rightarrow> nat \<Rightarrow> nat \<Rightarrow> nat \<Rightarrow>
   bool \<Rightarrow> bool \<Rightarrow> 'col query_state \<times> 'cb \<Rightarrow> ('col query_state \<times> 'cb) outcome" where
  "find_leaf e action callback arr c v start end base nullable_array find_null s =
     find_optimized e action callback arr c (tempex (m_width arr)) v start end base nullable_array find_null s"

definition find_first :: "unit array_ext \<Rightarrow> leaf \<Rightarrow> condition \<Rightarrow> int \<Rightarrow> nat \<Rightarrow> nat \<Rightarrow> nat option" where
  "find_first e arr c v start end =
     (if \<not> (start \<le> m_size arr \<and> (end \<le> m_size arr \<or> end = npos) \<and> start \<le> end) then None
      else
        map_option (\<lambda>r. to_size (m_state (fst (snd r))))
          (find_leaf e act_ReturnFirst (\<lambda>_ cb. (True, cb)) arr c v start end 0 False False
             (init_state act_ReturnFirst () 1 0, ())))"

section \<open>Comparing two leaves\<close>

function compare_loop ::
  "'s visitor \<Rightarrow> nat \<Rightarrow> (nat \<Rightarrow> int) \<Rightarrow> (nat \<Rightarrow> int) \<Rightarrow> condition \<Rightarrow> nat \<Rightarrow> nat \<Rightarrow> 's \<Rightarrow> 's outcome" where
  "compare_loop vis base get foreign_get c i end s =
     (if i < end then
        unless_stopped (if cond_holds c (get i) (foreign_get i) then act vis base i (get i) s else Some (True, s))
          (compare_loop vis base get foreign_get c (i + 1) end)
      else Some (True, s))"
  by pat_completeness auto
termination by (relation "measure (\<lambda>(vis, base, g, f, c, i, end, s). end - i)") auto

declare compare_loop.simps [simp del]

definition compare_leafs_4 ::
  "'s visitor \<Rightarrow> leaf \<Rightarrow> leaf \<Rightarrow> condition \<Rightarrow> nat \<Rightarrow> nat \<Rightarrow> nat \<Rightarrow> nat \<Rightarrow> nat \<Rightarrow> 's \<Rightarrow> 's outcome" where
  "compare_leafs_4 vis arr foreign c width foreign_width start end base s =
     (if width = 0 \<and> foreign_width = 0 then
        if cond_holds c 0 0 then scan vis base (\<lambda>_. 0) (\<lambda>_. True) start end s else Some (True, s)
      else compare_loop vis base (leaf_get width arr) (leaf_get foreign_width foreign) c start end s)"

definition compare_item :: "'s visitor \<Rightarrow> leaf \<Rightarrow> leaf \<Rightarrow> condition \<Rightarrow> nat \<Rightarrow> nat \<Rightarrow> 's \<Rightarrow> 's outcome" where
  "compare_item vis arr foreign c base i s =
     (let v = leaf_get (m_width arr) arr i
      in if cond_holds c v (leaf_get (m_width foreign) foreign i) then act vis base i v s else Some (True, s))"

definition compare_leafs ::
  "'s visitor \<Rightarrow> leaf \<Rightarrow> leaf \<Rightarrow> condition \<Rightarrow> nat \<Rightarrow> nat \<Rightarrow> nat \<Rightarrow> 's \<Rightarrow> 's outcome" where
  "compare_leafs vis arr foreign c start end base s =
     (let item = compare_item vis arr foreign c base;
          rest = (\<lambda>i. compare_leafs_4 vis arr foreign c (tempex (m_width arr)) (tempex (m_width foreign)) i end base)
      in if \<not> start \<le> end then None
         else if start = end then Some (True, s)
         else
           unless_stopped (item start s)
             (\<lambda>s1. let i = start + 1
                in if i + 3 < end then
                     unless_stopped (item i s1) (\<lambda>s2. unless_stopped (item (i + 1) s2)
                       (\<lambda>s3. unless_stopped (item (i + 2) s3) (rest (i + 3))))
                   else if i = end then Some (True, s1)
                   else rest i s1))"

end
