(* ===== verification/ArrayChunkLaws.thy ===== *)
theory ArrayChunkLaws imports ArrayQuery begin

text \<open>
  The elements of a chunk as numbers: \<open>lane w z t\<close> is the \<open>t\<close>-th group of \<open>w\<close> bits of \<open>z\<close>.
  Additions without a carry and subtractions without a borrow work on each lane separately; that is what
  makes one word operation look at all elements of a chunk.
\<close>

definition lane :: "nat \<Rightarrow> int \<Rightarrow> nat \<Rightarrow> int" where
  "lane w z t = z div 2 ^ (w * t) mod 2 ^ w"

lemma lane_bounds [simp]: "0 \<le> lane w z t" "lane w z t < 2 ^ w"
  by (simp_all add: lane_def)

lemma bit_lane: "bit (lane w z t) j \<longleftrightarrow> j < w \<and> bit z (w * t + j)"
  by (simp add: lane_def flip: take_bit_eq_mod drop_bit_eq_div) (simp add: bit_take_bit_iff bit_drop_bit_eq)

lemma lane_eqI: "(\<And>j. j < w \<Longrightarrow> bit x (w * t + j) \<longleftrightarrow> bit y (w * u + j)) \<Longrightarrow> lane w x t = lane w y u"
  by (rule bit_eqI) (auto simp: bit_lane)

text \<open>The lanes below a position make up the low part of a number.\<close>

lemma low_Suc: "z mod 2 ^ (w * Suc t) = z mod 2 ^ (w * t) + 2 ^ (w * t) * lane w z t" for z :: int
proof -
  have "(2 :: int) ^ (w * Suc t) = 2 ^ (w * t) * 2 ^ w" by (simp add: power_add)
  then show ?thesis by (simp add: lane_def zmod_zmult2_eq)
qed

lemma low_mono:
  "(\<And>i. i < t \<Longrightarrow> lane w y i \<le> lane w x i) \<Longrightarrow> y mod 2 ^ (w * t) \<le> x mod 2 ^ (w * t)"
proof (induction t)
  case (Suc t)
  then have "y mod 2 ^ (w * t) \<le> x mod 2 ^ (w * t)" "lane w y t \<le> lane w x t" by auto
  then show ?case unfolding low_Suc by (intro add_mono mult_left_mono) simp_all
qed simp

lemma low_add:
  "(\<And>i. i < t \<Longrightarrow> lane w x i + lane w y i < 2 ^ w) \<Longrightarrow>
   x mod 2 ^ (w * t) + y mod 2 ^ (w * t) < 2 ^ (w * t)"
proof (induction t)
  case (Suc t)
  then have "x mod 2 ^ (w * t) + y mod 2 ^ (w * t) < 2 ^ (w * t)" by simp
  moreover have "lane w x t + lane w y t < 2 ^ w" by (rule Suc.prems) simp
  then have le: "lane w x t + lane w y t + 1 \<le> 2 ^ w" by simp
  moreover from le have "2 ^ (w * t) * (lane w x t + lane w y t + 1) \<le> 2 ^ (w * t) * 2 ^ w"
    by (intro mult_left_mono) simp_all
  ultimately show ?case unfolding low_Suc by (simp add: power_add algebra_simps)
qed simp

lemma lane_diff:
  assumes "\<And>i. i < t \<Longrightarrow> lane w y i \<le> lane w x i"
  shows "lane w (x - y) t = (lane w x t - lane w y t) mod 2 ^ w"
proof -
  let ?B = "2 ^ (w * t) :: int"
  have le: "y mod ?B \<le> x mod ?B" by (rule low_mono) (rule assms)
  have "x - y = (x mod ?B - y mod ?B) + ?B * (x div ?B - y div ?B)"
    by (simp add: algebra_simps)
  moreover have "x mod ?B - y mod ?B < ?B"
  proof -
    have "x mod ?B < ?B" "0 \<le> y mod ?B" by simp_all
    then show ?thesis by linarith
  qed
  ultimately have "(x - y) div ?B = x div ?B - y div ?B"
    using le by (simp add: div_pos_pos_trivial)
  then show ?thesis by (simp add: lane_def mod_diff_eq)
qed

lemma lane_add:
  assumes "\<And>i. i < t \<Longrightarrow> lane w x i + lane w y i < 2 ^ w"
  shows "lane w (x + y) t = (lane w x t + lane w y t) mod 2 ^ w"
proof -
  let ?B = "2 ^ (w * t) :: int"
  have lt: "x mod ?B + y mod ?B < ?B" by (rule low_add) (rule assms)
  have "x + y = (x mod ?B + y mod ?B) + ?B * (x div ?B + y div ?B)"
    by (simp add: algebra_simps)
  then have "(x + y) div ?B = x div ?B + y div ?B"
    using lt by (simp add: div_pos_pos_trivial)
  then show ?thesis by (simp add: lane_def mod_add_eq)
qed

lemma lane_mod: "w * (t + 1) \<le> k \<Longrightarrow> lane w (z mod 2 ^ k) t = lane w z t"
  by (rule lane_eqI) (auto simp: bit_take_bit_iff simp flip: take_bit_eq_mod)

text \<open>A number with the same value in every lane.\<close>

primrec repeated :: "nat \<Rightarrow> nat \<Rightarrow> int" where
  "repeated w 0 = 0"
| "repeated w (Suc n) = 1 + 2 ^ w * repeated w n"

lemma repeated_nonneg: "0 \<le> repeated w n"
  by (induction n) simp_all

lemma lane_repeated:
  assumes "0 \<le> x" "x < 2 ^ w"
  shows "t < n \<Longrightarrow> lane w (repeated w n * x) t = x"
proof (induction n arbitrary: t)
  case (Suc n)
  have e: "repeated w (Suc n) * x = x + 2 ^ w * (repeated w n * x)" by (simp add: algebra_simps)
  show ?case
  proof (cases t)
    case 0
    then show ?thesis using assms unfolding e by (simp add: lane_def)
  next
    case (Suc u)
    have "(x + 2 ^ w * (repeated w n * x)) div 2 ^ w = repeated w n * x" using assms by simp
    then have "lane w (repeated w (Suc n) * x) t = lane w (repeated w n * x) u"
      unfolding e by (simp add: lane_def Suc power_add zdiv_zmult2_eq)
    with Suc.IH [of u] Suc.prems Suc show ?thesis by simp
  qed
qed simp

section \<open>Chunks\<close>

abbreviation wlane :: "nat \<Rightarrow> 64 word \<Rightarrow> nat \<Rightarrow> int" where
  "wlane w c t \<equiv> lane w (uint c) t"

definition chunked :: "nat \<Rightarrow> bool" where
  "chunked w \<longleftrightarrow> w \<in> {1, 2, 4, 8, 16}"

lemma chunked_lanes: "chunked w \<Longrightarrow> w * (64 div w) = 64 \<and> 0 < w"
  by (auto simp: chunked_def)

lemma lane_index: "chunked w \<Longrightarrow> n < 64 \<Longrightarrow> n div w < 64 div w"
  using chunked_lanes [of w] by (metis less_mult_imp_div_less mult.commute)

lemma lane_inside: "chunked w \<Longrightarrow> t < 64 div w \<Longrightarrow> w * (t + 1) \<le> 64"
  using chunked_lanes [of w] by (metis Suc_eq_plus1 Suc_leI mult_le_mono2)

lemma wlane_diff:
  assumes "chunked w" "t < 64 div w" "\<And>i. i < t \<Longrightarrow> wlane w y i \<le> wlane w x i"
  shows "wlane w (x - y) t = (wlane w x t - wlane w y t) mod 2 ^ w"
proof -
  have "wlane w (x - y) t = lane w (uint x - uint y) t"
    unfolding uint_word_ariths by (rule lane_mod) (use lane_inside [OF assms(1,2)] in simp)
  then show ?thesis using lane_diff [of t w "uint y" "uint x"] assms(3) by simp
qed

lemma wlane_add:
  assumes "chunked w" "t < 64 div w" "\<And>i. i < t \<Longrightarrow> wlane w x i + wlane w y i < 2 ^ w"
  shows "wlane w (x + y) t = (wlane w x t + wlane w y t) mod 2 ^ w"
proof -
  have "wlane w (x + y) t = lane w (uint x + uint y) t"
    unfolding uint_word_ariths by (rule lane_mod) (use lane_inside [OF assms(1,2)] in simp)
  then show ?thesis using lane_add [of t w "uint x" "uint y"] assms(3) by simp
qed

lemma bit_wlane: "bit (wlane w c t) j \<longleftrightarrow> j < w \<and> bit c (w * t + j)"
  by (auto simp: bit_lane bit_uint_iff dest: bit_imp_le_length)

lemma quotient_of_half: "0 \<le> x \<Longrightarrow> x < 2 * B \<Longrightarrow> 0 < B \<Longrightarrow> x div B \<in> {0, 1}" for x B :: int
proof -
  assume x: "0 \<le> x" "x < 2 * B" "0 < B"
  have "x div B \<le> 1"
  proof (rule ccontr)
    assume "\<not> x div B \<le> 1"
    then have "B * 2 \<le> B * (x div B)" using x(3) by (intro mult_left_mono) simp_all
    moreover have "B * (x div B) \<le> x" using x(3) by (simp add: minus_mod_eq_mult_div [symmetric])
    ultimately show False using x(2) by linarith
  qed
  moreover have "0 \<le> x div B" using x by (simp add: pos_imp_zdiv_nonneg_iff)
  ultimately show ?thesis by auto
qed

lemma wlane_top:
  assumes "0 < w"
  shows "bit c (w * t + (w - 1)) \<longleftrightarrow> 2 ^ (w - 1) \<le> wlane w c t"
proof -
  have "bit (wlane w c t) (w - 1) \<longleftrightarrow> odd (wlane w c t div 2 ^ (w - 1))" by (simp add: bit_iff_odd)
  moreover have "wlane w c t div 2 ^ (w - 1) \<in> {0, 1}"
    using assms by (intro quotient_of_half) (simp_all flip: power_Suc)
  moreover have "wlane w c t div 2 ^ (w - 1) = 0 \<longleftrightarrow> wlane w c t < 2 ^ (w - 1)"
    using lane_bounds(1) [of w "uint c" t] zero_less_power [of "2 :: int" "w - 1"]
    by (simp add: zdiv_eq_0_iff del: lane_bounds zero_less_power) linarith
  ultimately show ?thesis using assms by (auto simp: bit_wlane)
qed

section \<open>What a chunk tells about its elements\<close>

text \<open>
  What the bit tricks find out about the elements of a chunk.
\<close>

section \<open>Constants\<close>

lemma repeated_closed: "(2 ^ w - 1) * repeated w n = 2 ^ (w * n) - 1"
proof (induction n)
  case (Suc n)
  have "(2 ^ w - 1) * repeated w (Suc n) = (2 ^ w - 1) + 2 ^ w * ((2 ^ w - 1) * repeated w n)"
    by (simp add: algebra_simps)
  then show ?case unfolding Suc.IH by (simp add: power_add algebra_simps)
qed simp

lemma lower_bits_repeated: "chunked w \<Longrightarrow> uint (lower_bits w) = repeated w (64 div w)"
  using repeated_closed [of w "64 div w"] by (auto simp: chunked_def lower_bits_def)

lemma value_mask_chunked: "chunked w \<Longrightarrow> value_mask w = mask w"
  by (auto simp: chunked_def value_mask_def push_bit_eq_mult mask_eq_exp_minus_1)

lemma spread_chunked: "chunked w \<Longrightarrow> spread (mask w) x = lower_bits w * x"
proof (cases "w = 1")
  case True
  have "lower_bits 1 = - 1" by (simp add: lower_bits_def)
  then show ?thesis by (simp add: True spread_def mask_eq_exp_minus_1 del: One_nat_def)
next
  case False
  then show "chunked w \<Longrightarrow> spread (mask w) x = lower_bits w * x"
    by (auto simp: chunked_def lower_bits_def spread_def mask_eq_exp_minus_1)
qed

lemma nonzero_bit: "x \<noteq> 0 \<longleftrightarrow> (\<exists>n. bit x n)" for x :: "64 word"
  by (metis bit_0_eq bit_eqI bot_apply bot_bool_def)

lemma top_position:
  assumes "chunked w" "n mod w = w - 1"
  shows "w * (n div w) + (w - 1) = n"
  using assms(2) mult_div_mod_eq [of w n] by simp

lemma wlane_spread:
  assumes "chunked w" "t < 64 div w" "uint x < 2 ^ w"
  shows "wlane w (lower_bits w * x) t = uint x"
proof -
  have "wlane w (lower_bits w * x) t = lane w (repeated w (64 div w) * uint x) t"
    unfolding uint_word_ariths lower_bits_repeated [OF assms(1)]
    by (rule lane_mod) (use lane_inside [OF assms(1,2)] in simp)
  then show ?thesis using lane_repeated [OF _ assms(3) assms(2)] by simp
qed

lemma wlane_lower: "chunked w \<Longrightarrow> t < 64 div w \<Longrightarrow> wlane w (lower_bits w) t = 1"
  using wlane_spread [of w t 1] by (auto simp: chunked_def)

lemma bit_upper:
  assumes "chunked w"
  shows "bit (push_bit (w - 1) (lower_bits w)) n \<longleftrightarrow> n < 64 \<and> n mod w = w - 1"
proof -
  have low: "bit (lower_bits w) n \<longleftrightarrow> n < 64 \<and> n mod w = 0" for n
  proof (cases "n < 64")
    case True
    have w: "w * (n div w) + n mod w = n" "n mod w < w" "n div w < 64 div w"
      using lane_index [OF assms True] chunked_lanes [OF assms] by simp_all
    have "bit (lower_bits w) n \<longleftrightarrow> bit (wlane w (lower_bits w) (n div w)) (n mod w)"
      using w by (simp add: bit_wlane)
    then show ?thesis using True by (simp add: wlane_lower [OF assms w(3)] bit_1_iff)
  qed (auto dest: bit_imp_le_length)
  have "w - 1 \<le> n \<and> (n - (w - 1)) mod w = 0 \<longleftrightarrow> n mod w = w - 1"
    using assms by (auto simp: chunked_def) presburger+
  then show ?thesis by (auto simp: bit_push_bit_iff low)
qed

lemma at_tops:
  assumes "chunked w"
  shows "(\<exists>n. P n \<and> n < 64 \<and> n mod w = w - 1) \<longleftrightarrow> (\<exists>t < 64 div w. P (w * t + (w - 1)))"
proof
  assume "\<exists>n. P n \<and> n < 64 \<and> n mod w = w - 1"
  then obtain n where n: "P n" "n < 64" "n mod w = w - 1" by blast
  moreover have "n div w < 64 div w" by (rule lane_index [OF assms n(2)])
  ultimately show "\<exists>t < 64 div w. P (w * t + (w - 1))" using top_position [OF assms n(3)] by metis
next
  assume "\<exists>t < 64 div w. P (w * t + (w - 1))"
  then obtain t where t: "t < 64 div w" "P (w * t + (w - 1))" by blast
  have "w * (t + 1) \<le> 64" "0 < w" using lane_inside [OF assms t(1)] chunked_lanes [OF assms] by auto
  moreover have "(w * t + (w - 1)) mod w = (w - 1) mod w" by (rule mod_mult_self4)
  ultimately have "w * t + (w - 1) < 64" "(w * t + (w - 1)) mod w = w - 1" by simp_all
  with t(2) show "\<exists>n. P n \<and> n < 64 \<and> n mod w = w - 1" by blast
qed

section \<open>Zero elements\<close>

lemma test_zero_iff:
  assumes w: "chunked w"
  shows "test_zero w v \<longleftrightarrow> (\<exists>t < 64 div w. wlane w v t = 0)"
proof -
  let ?L = "lower_bits w" and ?U = "push_bit (w - 1) (lower_bits w)"
  have pos: "0 < w" and L: "w * (64 div w) = 64" using chunked_lanes [OF w] by auto
  have "test_zero w v \<longleftrightarrow> (\<exists>n. bit ((v - ?L) AND NOT v AND ?U) n)"
    using pos unfolding test_zero_def Let_def nonzero_bit by simp
  also have "\<dots> \<longleftrightarrow> (\<exists>t < 64 div w. 2 ^ (w - 1) \<le> wlane w (v - ?L) t \<and> wlane w v t < 2 ^ (w - 1))"
  proof -
    have "(\<exists>n. bit ((v - ?L) AND NOT v AND ?U) n) \<longleftrightarrow>
        (\<exists>n. bit (v - ?L) n \<and> \<not> bit v n \<and> n < 64 \<and> n mod w = w - 1)"
      by (simp only: bit_and_iff bit_not_iff bit_upper [OF w]) (auto dest: bit_imp_le_length)
    also have "\<dots> \<longleftrightarrow> (\<exists>t < 64 div w. bit (v - ?L) (w * t + (w - 1)) \<and> \<not> bit v (w * t + (w - 1)))"
      using at_tops [OF w, of "\<lambda>n. bit (v - ?L) n \<and> \<not> bit v n"] by blast
    finally show ?thesis unfolding wlane_top [OF pos] by (simp add: not_le)
  qed
  also have "\<dots> \<longleftrightarrow> (\<exists>t < 64 div w. wlane w v t = 0)"
  proof
    assume "\<exists>t < 64 div w. 2 ^ (w - 1) \<le> wlane w (v - ?L) t \<and> wlane w v t < 2 ^ (w - 1)"
    then obtain t where t: "t < 64 div w" "2 ^ (w - 1) \<le> wlane w (v - ?L) t" "wlane w v t < 2 ^ (w - 1)" by blast
    show "\<exists>t < 64 div w. wlane w v t = 0"
    proof (rule ccontr)
      assume none: "\<not> (\<exists>t < 64 div w. wlane w v t = 0)"
      have one: "1 \<le> wlane w v i" if "i < 64 div w" for i
        using none that lane_bounds(1) [of w "uint v" i] by (metis int_one_le_iff_zero_less order_le_less)
      have "wlane w (v - ?L) t = (wlane w v t - 1) mod 2 ^ w"
        using wlane_diff [OF w t(1), of ?L v] one t(1) by (simp add: wlane_lower [OF w])
      also have "\<dots> = wlane w v t - 1" using one [OF t(1)] lane_bounds(2) [of w "uint v" t]
        by (intro mod_pos_pos_trivial) linarith+
      finally show False using t by simp
    qed
  next
    assume "\<exists>t < 64 div w. wlane w v t = 0"
    then obtain t where t: "t < 64 div w" "wlane w v t = 0" and first: "\<And>i. i < t \<Longrightarrow> \<not> (i < 64 div w \<and> wlane w v i = 0)"
      using exists_least_iff [of "\<lambda>t. t < 64 div w \<and> wlane w v t = 0"] by blast
    have "1 \<le> wlane w v i" if "i < t" for i
      using first [OF that] that t lane_bounds(1) [of w "uint v" i] by (metis int_one_le_iff_zero_less order_le_less order_less_trans)
    then have "wlane w (v - ?L) t = (0 - 1) mod 2 ^ w"
      using wlane_diff [OF w t(1), of ?L v] t by (simp add: wlane_lower [OF w])
    also have "\<dots> = 2 ^ w - 1" using pos by (simp add: zmod_minus1)
    also have "\<dots> \<ge> 2 ^ (w - 1)" using power_increasing [of "w - 1" w "2 :: int"] pos
      by (cases w) simp_all
    finally show "\<exists>t < 64 div w. 2 ^ (w - 1) \<le> wlane w (v - ?L) t \<and> wlane w v t < 2 ^ (w - 1)"
      using t by (intro exI [of _ t]) simp
  qed
  finally show ?thesis .
qed

lemma masked_lane:
  assumes "chunked w"
  shows "uint (drop_bit (w * i) v AND value_mask w) = wlane w v i"
  by (rule bit_eqI)
    (auto simp: value_mask_chunked [OF assms] bit_wlane bit_uint_iff bit_and_iff bit_drop_bit_eq bit_mask_iff
      dest: bit_imp_le_length)

lemma masked_lane_0:
  assumes "chunked w"
  shows "drop_bit (w * i) v AND value_mask w = 0 \<longleftrightarrow> wlane w v i = 0"
  using masked_lane [OF assms, of i v] by (metis uint_0_iff)

lemma find_zero_from_first:
  assumes "chunked w" "(wlane w v t = 0) = eq" "t \<le> 64"
  shows "start \<le> t \<Longrightarrow> (\<And>i. start \<le> i \<Longrightarrow> i < t \<Longrightarrow> (wlane w v i = 0) \<noteq> eq) \<Longrightarrow>
    find_zero_from eq w v start = Some t"
proof (induction "t - start" arbitrary: start)
  case 0
  then have "start = t" by simp
  then show ?case using assms(2) masked_lane_0 [OF assms(1)] by (subst find_zero_from.simps) auto
next
  case (Suc n)
  then have "start < t" "(wlane w v start = 0) \<noteq> eq" by auto
  moreover have "find_zero_from eq w v (start + 1) = Some t" using Suc by auto
  ultimately show ?case using assms(3) masked_lane_0 [OF assms(1)] by (subst find_zero_from.simps) auto
qed

text \<open>The tests that let the search start in the second half or in another quarter.\<close>

lemma no_match_low:
  assumes w: "chunked w" and b: "w * k \<le> b" "b \<le> 64" and i: "i < k"
    and none: "if eq then \<not> test_zero w (v OR NOT (mask b)) else v AND mask b = 0"
  shows "(wlane w v i = 0) \<noteq> eq"
proof -
  have "w * (i + 1) \<le> w * k" using i by (intro mult_le_mono2) simp
  then have le: "w * (i + 1) \<le> b" using b(1) by simp
  then have "w * i + w \<le> 64" using b(2) by simp
  then have "i < 64 div w" using chunked_lanes [OF w]
    by (metis Suc_le_lessD add_gr_0 le_antisym less_or_eq_imp_le mult_Suc_right mult_le_cancel1 not_less_eq_eq add.commute)
  show ?thesis
  proof (cases eq)
    case True
    have "wlane w (v OR NOT (mask b)) i = wlane w v i"
      using le b(2) by (intro lane_eqI) (auto simp: bit_simps bit_uint_iff bit_mask_iff)
    then show ?thesis using none True \<open>i < 64 div w\<close> by (auto simp: test_zero_iff [OF w])
  next
    case False
    have "wlane w v i = wlane w (v AND mask b) i"
      using le b(2) by (intro lane_eqI) (auto simp: bit_simps bit_uint_iff bit_mask_iff)
    then show ?thesis using none False by (simp add: lane_def)
  qed
qed

lemma half_masks:
  "(0xffffffff00000000 :: 64 word) = NOT (mask 32)" "(0xffff000000000000 :: 64 word) = NOT (mask 48)"
  "(0xffffffffffff0000 :: 64 word) = NOT (mask 16)" "(0x00000000ffffffff :: 64 word) = mask 32"
  "(0x0000ffffffffffff :: 64 word) = mask 48" "(0x000000000000ffff :: 64 word) = mask 16"
  by (simp_all add: mask_eq_exp_minus_1)

lemma find_zero_start_low:
  assumes w: "chunked w" and i: "i < find_zero_start eq w v"
  shows "(wlane w v i = 0) \<noteq> eq"
proof -
  define T where "T b \<longleftrightarrow> (if eq then \<not> test_zero w (v OR NOT (mask b)) else v AND mask b = 0)" for b :: nat
  have skip: ?thesis if "T b" "i < k" "w * k \<le> b" "b \<le> 64" for b k
    using no_match_low [OF w that(3,4,2), of eq v] that(1) by (simp add: T_def)
  have "find_zero_start eq w v =
      (if w \<le> 8 then
         if T 32 then 64 div w div 2 + (if w \<le> 4 \<and> T 48 then 64 div w div 4 else 0)
         else (if w \<le> 4 \<and> T 16 then 64 div w div 4 else 0)
       else 0)"
    using chunked_lanes [OF w] unfolding find_zero_start_def T_def half_masks by (simp add: no0_def)
  with i consider "T 48" "w \<le> 4" "i < 64 div w div 2 + 64 div w div 4" | "T 32" "i < 64 div w div 2"
    | "T 16" "w \<le> 4" "i < 64 div w div 4"
    by (auto split: if_splits)
  then show ?thesis
  proof cases
    case 1
    then show ?thesis by (rule_tac skip [of 48 "64 div w div 2 + 64 div w div 4"]) (use w in \<open>auto simp: chunked_def\<close>)
  next
    case 2
    then show ?thesis by (rule_tac skip [of 32 "64 div w div 2"]) (use w in \<open>auto simp: chunked_def\<close>)
  next
    case 3
    then show ?thesis by (rule_tac skip [of 16 "64 div w div 4"]) (use w in \<open>auto simp: chunked_def\<close>)
  qed
qed

lemma find_zero_first:
  assumes w: "chunked w" and t: "t < 64 div w" "(wlane w v t = 0) = eq"
    and first: "\<And>i. i < t \<Longrightarrow> (wlane w v i = 0) \<noteq> eq"
  shows "find_zero eq w v = Some t"
proof (cases "(wlane w v 0 = 0) = eq")
  case True
  then have "t = 0" using first [of 0] by auto
  with True show ?thesis using masked_lane_0 [OF w, of 0 v] by (auto simp: find_zero_def)
next
  case False
  have "find_zero_start eq w v \<le> t" using find_zero_start_low [OF w, of t eq v] t(2) by (meson not_le)
  moreover have "t \<le> 64" using t(1) by (meson div_le_dividend less_imp_le less_le_trans)
  ultimately have "find_zero_from eq w v (find_zero_start eq w v) = Some t"
    using find_zero_from_first [OF w t(2)] first by blast
  then show ?thesis using False masked_lane_0 [OF w, of 0 v] by (auto simp: find_zero_def)
qed

section \<open>Cascades\<close>

lemma bit_spread:
  assumes w: "chunked w" and x: "uint x < 2 ^ w"
  shows "bit (lower_bits w * x) n \<longleftrightarrow> n < 64 \<and> bit x (n mod w)"
proof (cases "n < 64")
  case True
  have "n div w < 64 div w" using lane_index [OF w True] .
  from wlane_spread [OF w this x] have "bit (wlane w (lower_bits w * x) (n div w)) (n mod w) \<longleftrightarrow> bit (uint x) (n mod w)"
    by simp
  then show ?thesis using True chunked_lanes [OF w] by (simp add: bit_wlane bit_uint_iff) (auto dest: bit_imp_le_length)
qed (auto dest: bit_imp_le_length)

lemma uint_mask_less: "uint (mask n :: 64 word) < 2 ^ n"
proof -
  have "uint (mask n :: 64 word) = mask (min 64 n)"
    by (rule bit_eqI) (auto simp: bit_uint_iff bit_mask_iff)
  also have "\<dots> < 2 ^ min 64 n" by (simp add: mask_eq_exp_minus_1)
  also have "\<dots> \<le> 2 ^ n" by (simp add: power_increasing)
  finally show ?thesis .
qed

lemma cascade_step:
  assumes w: "chunked w" and k: "0 < k" "k \<le> w"
    and a: "\<And>n. n < 64 \<Longrightarrow> n mod w + k \<le> w \<Longrightarrow> bit a n \<longleftrightarrow> (\<exists>j<k. bit v (n + j))"
    and n: "n < 64" "n mod w + 2 * k \<le> w"
  shows "bit (a OR (drop_bit k a AND lower_bits w * mask (w - k))) n \<longleftrightarrow> (\<exists>j<2 * k. bit v (n + j))"
proof -
  have m: "uint (mask (w - k) :: 64 word) < 2 ^ w" by (rule less_le_trans [OF uint_mask_less]) (simp add: power_increasing)
  have nk: "(n + k) mod w = n mod w + k"
    using n(2) k mod_add_left_eq [of n w k] by simp
  have "n div w < 64 div w" by (rule lane_index [OF w n(1)])
  then have "w * (n div w) + w \<le> 64" using lane_inside [OF w, of "n div w"] by simp
  moreover have "w * (n div w) + n mod w = n" by simp
  ultimately have nk': "n + k < 64" using n(2) k by linarith
  have "bit (a OR (drop_bit k a AND lower_bits w * mask (w - k))) n \<longleftrightarrow> bit a n \<or> bit a (n + k)"
    using n k le_less_trans [OF mod_less_eq_dividend n(1), of w] by (auto simp: bit_simps bit_spread [OF w m] bit_mask_iff add.commute)
  also have "\<dots> \<longleftrightarrow> (\<exists>j<k. bit v (n + j)) \<or> (\<exists>j<k. bit v (n + k + j))"
    using a [of n] a [of "n + k"] n nk nk' by simp
  also have "\<dots> \<longleftrightarrow> (\<exists>j<2 * k. bit v (n + j))"
  proof -
    have "j < 2 * k \<longleftrightarrow> j < k \<or> (\<exists>i<k. j = k + i)" for j by (cases "j < k") (auto intro: exI [of _ "j - k"])
    then show ?thesis by (auto simp: add.assoc)
  qed
  finally show ?thesis .
qed

lemma cascade_fold_bits:
  assumes w: "chunked w" and n: "n < 64" "n mod w = 0"
  shows "bit (cascade_fold (cascade_steps w) v) n \<longleftrightarrow> (\<exists>j<w. bit v (n + j))"
proof -
  note step = cascade_step [OF w]
  have s0: "bit v n \<longleftrightarrow> (\<exists>j<1. bit v (n + j))" for n by simp
  have spread: "spread 0x3 0x1 = lower_bits 2 * mask (2 - 1)"
    "spread 0xF 0x7 = lower_bits 4 * mask (4 - 1)" "spread 0xF 0x3 = lower_bits 4 * mask (4 - 2)"
    "spread 0xFF 0x7F = lower_bits 8 * mask (8 - 1)" "spread 0xFF 0x3F = lower_bits 8 * mask (8 - 2)"
    "spread 0xFF 0x0F = lower_bits 8 * mask (8 - 4)"
    "spread 0xFFFF 0x7FFF = lower_bits 16 * mask (16 - 1)" "spread 0xFFFF 0x3FFF = lower_bits 16 * mask (16 - 2)"
    "spread 0xFFFF 0x0FFF = lower_bits 16 * mask (16 - 4)" "spread 0xFFFF 0x00FF = lower_bits 16 * mask (16 - 8)"
    by (simp_all add: spread_def lower_bits_def mask_eq_exp_minus_1)
  consider "w = 1" | "w = 2" | "w = 4" | "w = 8" | "w = 16" using w by (auto simp: chunked_def)
  then show ?thesis
  proof cases
    case 1
    then show ?thesis by (simp add: cascade_steps_def cascade_fold_def)
  next
    case 2
    show ?thesis using step [OF _ _ s0, of n] n unfolding 2 by (simp add: cascade_steps_def cascade_fold_def spread)
  next
    case 3
    show ?thesis using step [OF _ _ step [OF _ _ s0], of n] n unfolding 3
      by (simp add: cascade_steps_def cascade_fold_def spread)
  next
    case 4
    show ?thesis using step [OF _ _ step [OF _ _ step [OF _ _ s0]], of n] n unfolding 4
      by (simp add: cascade_steps_def cascade_fold_def spread)
  next
    case 5
    show ?thesis using step [OF _ _ step [OF _ _ step [OF _ _ step [OF _ _ s0]]], of n] n unfolding 5
      by (simp add: cascade_steps_def cascade_fold_def spread)
  qed
qed

lemma lane_zero_bits: "wlane w v t = 0 \<longleftrightarrow> (\<forall>j<w. \<not> bit v (w * t + j))"
  by (metis bit_0_eq bit_eqI bit_wlane bot_apply bot_bool_def)

lemma cascade_bits:
  assumes w: "chunked w"
  shows "bit (cascade w zero v) n \<longleftrightarrow> n < 64 \<and> n mod w = 0 \<and> (wlane w v (n div w) = 0) = zero"
proof (cases "n < 64")
  case n: True
  have low: "cascade_low w = lower_bits w" if "w \<noteq> 1"
    using w that by (auto simp: chunked_def cascade_low_def lower_bits_def spread_def)
  have one: "bit (lower_bits w) n \<longleftrightarrow> n mod w = 0"
    using bit_spread [OF w, of 1 n] w n by (auto simp: bit_1_iff chunked_def)
  have pos: "w * (n div w) = n" if "n mod w = 0" using that by auto
  show ?thesis
  proof (cases "w = 1")
    case True
    then have "bit (cascade w zero v) n \<longleftrightarrow> bit v n \<noteq> zero" using n by (simp add: cascade_def bit_not_iff)
    moreover have "wlane w v n = 0 \<longleftrightarrow> \<not> bit v n" using lane_zero_bits [of w v n] True by simp
    ultimately show ?thesis using True n by auto
  next
    case False
    have "bit (cascade w zero v) n \<longleftrightarrow> n mod w = 0 \<and> (bit (cascade_fold (cascade_steps w) v) n \<noteq> zero)"
    proof -
      have "w \<in> {2, 4, 8, 16, 32}" using w False by (auto simp: chunked_def)
      then have "cascade w zero v = (let a = cascade_fold (cascade_steps w) v AND lower_bits w
          in if zero then a XOR lower_bits w else a)"
        using False by (simp add: cascade_def low Let_def)
      then show ?thesis using n by (auto simp: Let_def bit_and_iff bit_xor_iff one)
    qed
    moreover have "n mod w = 0 \<Longrightarrow> bit (cascade_fold (cascade_steps w) v) n \<longleftrightarrow> wlane w v (n div w) \<noteq> 0"
      using cascade_fold_bits [OF w n] lane_zero_bits [of w v "n div w"] pos by simp
    ultimately show ?thesis using n by auto
  qed
qed (auto dest: bit_imp_le_length)

text \<open>The number of bits of a pattern is the number of matching elements.\<close>

lemma pattern_count:
  assumes w: "chunked w" and k: "k < w"
    and bits: "\<And>n. bit m n \<longleftrightarrow> n < 64 \<and> n mod w = k \<and> P (n div w)"
  shows "length (set_bits m) = length (filter P [0..<64 div w])"
proof -
  have pos: "0 < w" using chunked_lanes [OF w] by simp
  have "length (set_bits m) = card {n. bit m n}"
  proof -
    have "distinct (set_bits m)" by (simp add: set_bits_def)
    moreover have "{n. bit m n} = set (set_bits m)" by (auto simp: set_bits_def dest: bit_imp_le_length)
    ultimately show ?thesis by (simp only: distinct_card)
  qed
  also have "{n. bit m n} = (\<lambda>t. w * t + k) ` {t. t < 64 div w \<and> P t}"
  proof (intro set_eqI iffI)
    fix n assume "n \<in> {n. bit m n}"
    then have n: "n < 64" "n mod w = k" "P (n div w)" using bits by auto
    then have "n div w < 64 div w" using lane_index [OF w] by blast
    with n show "n \<in> (\<lambda>t. w * t + k) ` {t. t < 64 div w \<and> P t}"
      by (intro image_eqI [of _ _ "n div w"]) auto
  next
    fix n assume "n \<in> (\<lambda>t. w * t + k) ` {t. t < 64 div w \<and> P t}"
    then obtain t where t: "t < 64 div w" "P t" "n = w * t + k" by auto
    have "w * t + w \<le> 64" using lane_inside [OF w t(1)] by simp
    then show "n \<in> {n. bit m n}" using t k by (simp add: bits)
  qed
  also have "card \<dots> = card {t. t < 64 div w \<and> P t}"
    using pos by (intro card_image) (auto simp: inj_on_def)
  also have "{t. t < 64 div w \<and> P t} = set (filter P [0..<64 div w])" by auto
  also have "card \<dots> = length (filter P [0..<64 div w])" by (intro distinct_card) simp
  finally show ?thesis .
qed

lemma cascade_count:
  "chunked w \<Longrightarrow> length (set_bits (cascade w zero v)) = length (filter (\<lambda>t. (wlane w v t = 0) = zero) [0..<64 div w])"
  by (rule pattern_count [of w 0]) (simp_all add: chunked_lanes cascade_bits)

section \<open>Greater elements\<close>

text \<open>For elements with a clear top bit the trick for \<open>Greater\<close> marks exactly the matches.\<close>

lemma gtlt_bits_greater:
  assumes w: "chunked w" "2 \<le> w" and v: "0 \<le> v" "v < 2 ^ (w - 1) - 1"
    and clear: "\<And>t. t < 64 div w \<Longrightarrow> wlane w c t < 2 ^ (w - 1)"
  shows "bit (gtlt_bits True w c (find_gtlt_magic True w v)) n \<longleftrightarrow>
    n < 64 \<and> n mod w = w - 1 \<and> v < wlane w c (n div w)"
proof -
  define mg :: "64 word" where "mg = drop_bit 1 (mask w) - word_of_int v"
  have half: "2 ^ w = 2 * (2 :: int) ^ (w - 1)" using w(2) by (simp flip: power_Suc)
  have mg: "uint mg = 2 ^ (w - 1) - 1 - v"
  proof -
    have m: "drop_bit 1 (mask w) = (mask (w - 1) :: 64 word)"
      using w by (intro bit_eqI) (auto simp: bit_drop_bit_eq bit_mask_iff chunked_def)
    have le: "2 ^ (w - 1) \<le> (2 :: int) ^ 15" using w by (intro power_increasing) (auto simp: chunked_def)
    have "mg = word_of_int (2 ^ (w - 1) - 1 - v)" by (simp only: mg_def m) (simp add: mask_eq_exp_minus_1)
    then have "uint mg = (2 ^ (w - 1) - 1 - v) mod 2 ^ LENGTH(64)" by (simp only: uint_word_of_int)
    also have "\<dots> = 2 ^ (w - 1) - 1 - v" using v le by (intro mod_pos_pos_trivial) simp_all
    finally show ?thesis .
  qed
  have magic: "find_gtlt_magic True w v = lower_bits w * mg"
    by (simp add: find_gtlt_magic_def Let_def value_mask_chunked [OF w(1)] spread_chunked [OF w(1)] mg_def)
  have top: "spread (mask w) (drop_bit 1 (mask w) + 1) = push_bit (w - 1) (lower_bits w)"
  proof -
    have "drop_bit 1 (mask w) + 1 = (2 ^ (w - 1) :: 64 word)" using w by (auto simp: chunked_def mask_eq_exp_minus_1)
    then show ?thesis by (simp add: spread_chunked [OF w(1)] push_bit_eq_mult)
  qed
  have sum: "wlane w (c + lower_bits w * mg) t = wlane w c t + uint mg" if "t < 64 div w" for t
  proof -
    have small: "wlane w c i + wlane w (lower_bits w * mg) i < 2 ^ w" if "i \<le> t" for i
      using clear [of i] wlane_spread [OF w(1), of i mg] that \<open>t < 64 div w\<close> v by (simp add: mg half)
    have "wlane w (c + lower_bits w * mg) t = (wlane w c t + wlane w (lower_bits w * mg) t) mod 2 ^ w"
      by (rule wlane_add [OF w(1) that]) (simp add: small)
    also have "\<dots> = wlane w c t + wlane w (lower_bits w * mg) t"
      using small [of t] by (intro mod_pos_pos_trivial) simp_all
    also have "wlane w (lower_bits w * mg) t = uint mg"
      using wlane_spread [OF w(1) that] v by (simp add: mg half)
    finally show ?thesis .
  qed
  have bits: "bit (gtlt_bits True w c (find_gtlt_magic True w v)) n \<longleftrightarrow>
      (bit (c + lower_bits w * mg) n \<or> bit c n) \<and> n < 64 \<and> n mod w = w - 1"
    by (simp only: gtlt_bits_def Let_def magic value_mask_chunked [OF w(1)] top if_True bit_and_iff bit_or_iff
        bit_upper [OF w(1)])
  show ?thesis
  proof (cases "n < 64 \<and> n mod w = w - 1")
    case True
    define t where "t = n div w"
    have t: "t < 64 div w" "n = w * t + (w - 1)"
      using True lane_index [OF w(1)] top_position [OF w(1), of n] by (auto simp: t_def)
    have "bit (gtlt_bits True w c (find_gtlt_magic True w v)) n \<longleftrightarrow> bit (c + lower_bits w * mg) n \<or> bit c n"
      using True by (simp add: bits)
    also have "\<dots> \<longleftrightarrow> 2 ^ (w - 1) \<le> wlane w (c + lower_bits w * mg) t \<or> 2 ^ (w - 1) \<le> wlane w c t"
      unfolding t(2) using w(2) by (simp only: wlane_top)
    also have "\<dots> \<longleftrightarrow> v < wlane w c t"
      using clear [OF t(1)] by (auto simp: sum [OF t(1)] mg)
    finally show ?thesis using True by (simp add: t_def)
  next
    case False
    then show ?thesis
      by (auto simp: bits)
  qed
qed

end
