(* ===== verification/ArrayVisit.thy ===== *)
theory ArrayVisit imports ArrayFind ArrayChunkLaws ArrayDirectLaws begin

text \<open>
  The search against its specification: a search hands the visitor the matching elements one after the
  other, in the order of the leaf, until the visitor stops it.  The laws a visitor must obey are the
  assumptions of the locale \<open>visitor_laws\<close>: taking a whole chunk is the same as taking its matches one
  by one, and a visitor that has refused a chunk refuses every later one of the same search.
\<close>

section \<open>Visiting the matches\<close>

primrec visit :: "'s visitor \<Rightarrow> (nat \<times> int) list \<Rightarrow> 's \<Rightarrow> bool \<times> 's" where
  "visit vis [] s = (True, s)"
| "visit vis (x # xs) s =
     (let r = v_action vis (fst x) (Some (snd x)) s in if fst r then visit vis xs (snd r) else r)"

definition matches :: "nat \<Rightarrow> (nat \<Rightarrow> int) \<Rightarrow> (int \<Rightarrow> bool) \<Rightarrow> nat \<Rightarrow> nat \<Rightarrow> (nat \<times> int) list" where
  "matches base get test i j = map (\<lambda>k. (row_index k base, get k)) (filter (\<lambda>k. test (get k)) [i..<j])"

lemma matches_empty [simp]: "j \<le> i \<Longrightarrow> matches base get test i j = []"
  by (simp add: matches_def)

lemma matches_rec:
  "i < j \<Longrightarrow> matches base get test i j =
     (if test (get i) then [(row_index i base, get i)] else []) @ matches base get test (i + 1) j"
  by (simp add: matches_def upt_conv_Cons)

lemma matches_append:
  "i \<le> k \<Longrightarrow> k \<le> j \<Longrightarrow> matches base get test i j = matches base get test i k @ matches base get test k j"
  using upt_add_eq_append [of i k "j - k"] by (simp add: matches_def)

lemma matches_none: "(\<And>k. i \<le> k \<Longrightarrow> k < j \<Longrightarrow> \<not> test (get k)) \<Longrightarrow> matches base get test i j = []"
  by (simp add: matches_def filter_empty_conv)

lemma matches_cong:
  assumes "\<And>k. i \<le> k \<Longrightarrow> k < j \<Longrightarrow> get k = get' k \<and> test (get k) = test' (get' k)"
  shows "matches base get test i j = matches base get' test' i j"
proof -
  have "filter (\<lambda>k. test (get k)) [i..<j] = filter (\<lambda>k. test' (get' k)) [i..<j]"
    by (intro filter_cong refl) (metis assms atLeastLessThan_iff set_upt)
  then show ?thesis using assms by (auto simp: matches_def)
qed

lemma matches_length:
  "length (matches base get test start (start + n)) = length (filter (\<lambda>t. test (get (start + t))) [0..<n])"
proof -
  have "[start..<start + n] = map (\<lambda>t. start + t) [0..<n]"
    using map_add_upt [of start n] by (simp add: add.commute)
  then show ?thesis by (simp add: matches_def filter_map comp_def)
qed

lemma visit_append:
  "visit vis (xs @ ys) s = (let r = visit vis xs s in if fst r then visit vis ys (snd r) else r)"
  by (induction xs arbitrary: s) (simp_all add: Let_def)

lemma unless_stopped_visit [simp]:
  "unless_stopped (Some (visit vis xs s)) (\<lambda>s. Some (visit vis ys s)) = Some (visit vis (xs @ ys) s)"
  by (cases "visit vis xs s") (auto simp: unless_stopped_def visit_append Let_def)

lemma unless_stopped_True [simp]: "unless_stopped (Some (True, s)) k = k s"
  by (simp add: unless_stopped_def)

lemma act_visit: "act vis base i v s = Some (visit vis [(row_index i base, v)] s)"
  by (cases "v_action vis (row_index i base) (Some v) s") (simp add: act_def Let_def)

lemma scan_visit: "scan vis base get test i j s = Some (visit vis (matches base get test i j) s)"
proof (induction vis base get test i j s rule: scan.induct)
  case (1 vis base get test i j s)
  show ?case
  proof (cases "i < j")
    case True
    have "(\<lambda>s. scan vis base get test (i + 1) j s) = (\<lambda>s. Some (visit vis (matches base get test (i + 1) j) s))"
      using 1 True by blast
    then have IH: "scan vis base get test (i + 1) j = (\<lambda>s. Some (visit vis (matches base get test (i + 1) j) s))"
      by simp
    show ?thesis
      by (subst scan.simps, subst IH, subst matches_rec [OF True])
        (simp add: True act_visit del: visit.simps append.simps, simp)
  qed (simp add: scan.simps)
qed

section \<open>What a visitor promises\<close>

locale visitor_laws =
  fixes vis :: "'s visitor" and good :: "'s \<Rightarrow> bool"
  assumes step: "good s \<Longrightarrow> v_action vis i (Some x) s = (True, s') \<Longrightarrow> good s'"
    and refuse: "\<not> fst (v_pattern vis i p s) \<Longrightarrow> snd (v_pattern vis i p s) = s"
    and take: "good s \<Longrightarrow> fst (v_pattern vis i p s) \<Longrightarrow> length xs = length (set_bits p) \<Longrightarrow>
      visit vis xs s = (True, snd (v_pattern vis i p s))"
    and later: "good s \<Longrightarrow> \<not> fst (v_pattern vis i p s) \<Longrightarrow> v_action vis j (Some x) s = (True, s') \<Longrightarrow>
      \<not> fst (v_pattern vis k q s')"
begin

lemma visit_inv: "good s \<Longrightarrow> visit vis xs s = (True, s') \<Longrightarrow> good s'"
proof (induction xs arbitrary: s)
  case (Cons x xs)
  obtain go s1 where r: "v_action vis (fst x) (Some (snd x)) s = (go, s1)" by fastforce
  with Cons.prems have "go" "visit vis xs s1 = (True, s')" by (auto simp: Let_def split: if_splits)
  moreover from this have "good s1" using step [OF Cons.prems(1), of "fst x" "snd x" s1] r by simp
  ultimately show ?case using Cons.IH by blast
qed simp

end

lemma visit_chunks:
  assumes "\<And>s. good s \<Longrightarrow> f s = Some (visit vis xs s)" "\<And>s. good s \<Longrightarrow> g s = Some (visit vis ys s)"
    "visitor_laws vis good" "good s"
  shows "unless_stopped (f s) g = Some (visit vis (xs @ ys) s)"
  using assms(1) [OF assms(4)] visitor_laws.visit_inv [OF assms(3,4), of xs] assms(2)
  by (cases "visit vis xs s") (auto simp: unless_stopped_def visit_append)

section \<open>The elements in a chunk\<close>

text \<open>\<open>holds w get start c\<close>: the chunk \<open>c\<close> holds the elements from \<open>start\<close> on.\<close>

definition holds :: "nat \<Rightarrow> (nat \<Rightarrow> int) \<Rightarrow> nat \<Rightarrow> 64 word \<Rightarrow> bool" where
  "holds w get start c \<longleftrightarrow> (\<forall>t < 64 div w. get (start + t) = decode w (wlane w c t))"

lemma holds_load:
  assumes w: "chunked w" and p: "8 * p = w * start"
  shows "holds w (get_direct w m) start (word_of_int (load_bytes 8 m p))"
proof -
  have pk: "packed w" using w by (auto simp: chunked_def packed_def)
  have "get_direct w m (start + t) = decode w (wlane w (word_of_int (load_bytes 8 m p)) t)" if "t < 64 div w" for t
  proof (rule bit_eqI)
    fix j
    have "w * t + w \<le> 64" using lane_inside [OF w that] by simp
    then have lt: "w * t + i < 64" if "i < w" for i using that by simp
    have at: "8 * p + (w * t + i) = w * (start + t) + i" for i using p by (simp add: algebra_simps)
    show "bit (get_direct w m (start + t)) j \<longleftrightarrow> bit (decode w (wlane w (word_of_int (load_bytes 8 m p)) t)) j"
    proof (cases "w < 8")
      case True
      then show ?thesis using lt [of j]
        by (auto simp: get_direct_bit [OF pk] bit_decode [OF pk] bit_wlane bit_word_of_int_iff mem_simps at)
    next
      case False
      have "min (w - 1) j < w" using packed_pos [OF pk] by simp
      then show ?thesis using False lt
        by (simp add: get_direct_bit [OF pk] bit_decode [OF pk] bit_wlane bit_word_of_int_iff mem_simps at)
    qed
  qed
  then show ?thesis by (simp add: holds_def)
qed

end
