(* ===== verification/ArrayFindLaws.thy ===== *)
theory ArrayFindLaws imports ArrayVisit begin

text \<open>
  The searches for equal, greater and smaller elements visit exactly the matches of their range, in
  order, and none of their assertions fails.
\<close>

section \<open>Chunks and their elements\<close>

lemma wlane_drop: "wlane w (drop_bit (w * a) v) t = wlane w v (a + t)"
  by (rule lane_eqI) (auto simp: bit_uint_iff bit_drop_bit_eq algebra_simps dest: bit_imp_le_length)

lemma wlane_beyond: "chunked w \<Longrightarrow> 64 div w \<le> t \<Longrightarrow> wlane w v t = 0"
proof -
  assume w: "chunked w" and t: "64 div w \<le> t"
  have "w * (64 div w) \<le> w * t" using t by (rule mult_le_mono2)
  then have "64 \<le> w * t" using chunked_lanes [OF w] by simp
  then show ?thesis by (auto simp: lane_zero_bits dest: bit_imp_le_length)
qed

text \<open>A chunk has an element that is zero, or not, exactly when the loop condition says so.\<close>

lemma some_lane:
  assumes w: "chunked w"
  shows "(if eq then test_zero w v else v \<noteq> 0) \<longleftrightarrow> (\<exists>t < 64 div w. (wlane w v t = 0) = eq)"
proof (cases eq)
  case False
  have "v = 0" if "\<And>t. t < 64 div w \<Longrightarrow> wlane w v t = 0"
  proof (rule ccontr)
    assume "v \<noteq> 0"
    then obtain n where n: "bit v n" using nonzero_bit by blast
    then have "n < 64" using bit_imp_le_length [OF n] by simp
    then have "n div w < 64 div w" by (rule lane_index [OF w])
    from that [OF this] have "\<not> bit v (w * (n div w) + n mod w)" 
      using chunked_lanes [OF w] unfolding lane_zero_bits by (metis mod_less_divisor)
    then show False using n by simp
  qed
  moreover have "wlane w 0 t = 0" for t by (simp add: lane_def)
  ultimately show ?thesis using False by auto
qed (simp add: test_zero_iff [OF w])

lemma row_index_assoc: "row_index i (row_index j base) = row_index (i + j) base"
  by (simp add: row_index_def mod_add_right_eq add.assoc)

lemma first_index: "\<exists>t<n. P t \<Longrightarrow> \<exists>t<n. P t \<and> (\<forall>i<t. \<not> P i)" for n :: nat
proof -
  assume "\<exists>t<n. P t"
  then obtain t where "t < n" "P t" by blast
  then show ?thesis by (intro exI [of _ "LEAST t. P t"]) (meson LeastI Least_le le_less_trans not_less_Least)
qed

lemma hd_filter_upt: "P k \<Longrightarrow> k < n \<Longrightarrow> (\<And>i. i < k \<Longrightarrow> \<not> P i) \<Longrightarrow> hd (filter P [0..<n]) = k"
proof -
  assume k: "P k" "k < n" "\<And>i. i < k \<Longrightarrow> \<not> P i"
  have "[0..<n] = [0..<k] @ k # [Suc k..<n]"
    using k(2) by (metis upt_conv_Cons upt_add_eq_append le0 le_add_diff_inverse less_imp_le_nat plus_nat.add_0)
  moreover have "filter P [0..<k] = []" using k(3) by simp
  ultimately show ?thesis using k(1) by simp
qed

lemma shifted_top:
  assumes "chunked w"
  shows "(w - Suc 0 + n) mod w = w - Suc 0 \<longleftrightarrow> n mod w = 0" "n mod w = 0 \<Longrightarrow> (w - Suc 0 + n) div w = n div w"
  using assms by (auto simp: chunked_def) presburger+

context visitor_laws
begin

lemma equality_chunk_visit:
  assumes w: "chunked w" and test: "\<And>t. t < 64 div w \<Longrightarrow> test (get (start + t)) \<longleftrightarrow> (wlane w v t = 0) = eq"
  shows "a \<le> 64 div w \<Longrightarrow> (a < 64 div w \<Longrightarrow> v2 = drop_bit (w * a) v) \<Longrightarrow> good s \<Longrightarrow>
    a = 0 \<or> (\<forall>i p. \<not> fst (v_pattern vis i p s)) \<Longrightarrow>
    equality_chunk e vis base get eq w start v2 a s =
      Some (visit vis (matches base get test (start + a) (start + 64 div w)) s)"
proof (induction "64 div w - a" arbitrary: a v2 s rule: less_induct)
  case less
  let ?L = "64 div w"
  have no0: "no0 w = w" using chunked_lanes [OF w] by (simp add: no0_def)
  have lanes: "wlane w v2 t = wlane w v (a + t)" if "a < ?L" for t
    using less.prems(2) [OF that] wlane_drop by simp
  have tests: "test (get (start + a + t)) \<longleftrightarrow> (wlane w v2 t = 0) = eq" if "a + t < ?L" for t
    using test [OF that] lanes [of t] that by (simp add: add.assoc)
  have none: "matches base get test (start + a) (start + a + n) = []"
    if "\<And>t. t < n \<Longrightarrow> (wlane w v2 t = 0) \<noteq> eq" "a + n \<le> ?L" for n
  proof (rule matches_none)
    fix k assume "start + a \<le> k" "k < start + a + n"
    then obtain t where "k = start + a + t" "t < n" by (metis add_less_cancel_left le_Suc_ex)
    then show "\<not> test (get k)" using that tests [of t] by simp
  qed
  show ?case
  proof (cases "\<exists>t < ?L. (wlane w v2 t = 0) = eq")
    case False
    then have "matches base get test (start + a) (start + a + (?L - a)) = []"
      using less.prems(1) by (intro none) auto
    moreover have C: "(if eq then test_zero w v2 else v2 \<noteq> 0) = False" using False some_lane [OF w] by blast
    have "equality_chunk e vis base get eq w start v2 a s = Some (True, s)"
      by (subst equality_chunk.simps) (simp only: C if_False)
    ultimately show ?thesis using less.prems(1) by simp
  next
    case True
    then have C: "if eq then test_zero w v2 else v2 \<noteq> 0" using some_lane [OF w] by blast
    obtain t where t: "t < ?L" "(wlane w v2 t = 0) = eq" and first: "\<And>i. i < t \<Longrightarrow> (wlane w v2 i = 0) \<noteq> eq"
      using first_index [OF True] by blast
    have fz: "find_zero eq w v2 = Some t" by (rule find_zero_first [OF w t first])
    define r where "r = v_pattern vis (row_index start base) (cascade w eq v2) s"
    show ?thesis
    proof (cases "fst r")
      case True
      then have a: "a = 0" using less.prems(4) by (auto simp: r_def)
      have "length (matches base get test (start + a) (start + ?L)) = length (filter (\<lambda>t. test (get (start + t))) [0..<?L])"
        by (simp add: a matches_length)
      also have "filter (\<lambda>t. test (get (start + t))) [0..<?L] = filter (\<lambda>t. (wlane w v2 t = 0) = eq) [0..<?L]"
        by (rule filter_cong) (use tests a in auto)
      also have "length \<dots> = length (set_bits (cascade w eq v2))" by (simp add: cascade_count [OF w])
      finally have "visit vis (matches base get test (start + a) (start + ?L)) s = (True, snd r)"
        using take [OF less.prems(3), of "row_index start base"] True by (simp add: r_def)
      then show ?thesis using C True by (subst equality_chunk.simps) (simp add: r_def [symmetric] Let_def)
    next
      case False
      then have s1: "snd r = s" using refuse by (simp add: r_def)
      show ?thesis
      proof (cases "?L \<le> a + t")
        case True
        have "matches base get test (start + a) (start + a + (?L - a)) = []"
          using first True less.prems(1) by (intro none) auto
        then show ?thesis using C False True s1 fz less.prems(1)
          by (subst equality_chunk.simps) (simp add: r_def [symmetric] Let_def no0)
      next
        case inside: False
        define rest where "rest = equality_chunk e vis base get eq w start (shift_right e v2 ((t + 1) * w)) (a + t + 1)"
        have split: "matches base get test (start + a) (start + ?L) =
            [(row_index (start + a + t) base, get (start + a + t))] @ matches base get test (start + (a + t + 1)) (start + ?L)"
          using matches_append [of "start + a" "start + a + t" "start + ?L" base get test] none [of t] first inside
            matches_rec [of "start + a + t" "start + ?L" base get test] tests [of t] t(2)
          by (simp add: add.assoc)
        have IH: "rest s' = Some (visit vis (matches base get test (start + (a + t + 1)) (start + ?L)) s')"
          if act: "v_action vis (row_index (start + a + t) base) (Some (get (start + a + t))) s = (True, s')" for s'
          unfolding rest_def
        proof (rule less.hyps)
          show "64 div w - (a + t + 1) < 64 div w - a" "a + t + 1 \<le> 64 div w" using inside by auto
          show "good s'" by (rule step [OF less.prems(3) act])
          show "a + t + 1 = 0 \<or> (\<forall>i p. \<not> fst (v_pattern vis i p s'))"
            using later [OF less.prems(3) _ act] False by (auto simp: r_def)
          show "shift_right e v2 ((t + 1) * w) = drop_bit (w * (a + t + 1)) v" if "a + t + 1 < 64 div w"
          proof -
            have "w * (t + 1) < 64"
              using that chunked_lanes [OF w] lane_inside [OF w that] by (simp add: algebra_simps)
            then show ?thesis using less.prems(2) inside by (simp add: shift_right_def algebra_simps)
          qed
        qed
        have "equality_chunk e vis base get eq w start v2 a s =
            unless_stopped (act vis base (a + t + start) (get (start + (a + t))) s) rest"
          using C False inside s1 fz by (subst equality_chunk.simps) (simp add: r_def [symmetric] Let_def no0 rest_def)
        also have "\<dots> = Some (visit vis (matches base get test (start + a) (start + ?L)) s)"
          unfolding split visit_append
          using IH by (cases "v_action vis (row_index (start + a + t) base) (Some (get (start + a + t))) s")
            (auto simp: act_def unless_stopped_def ac_simps)
        finally show ?thesis .
      qed
    qed
  qed
qed

lemma gtlt_fast_visit:
  assumes w: "chunked w" and e: "ext_ok e"
    and bits: "\<And>n. bit m0 n \<longleftrightarrow> n < 64 \<and> n mod w = w - 1 \<and> test (get (start + n div w))"
    and elem: "\<And>t. t < 64 div w \<Longrightarrow> uint (drop_bit (t * w) c AND value_mask w) = get (start + t)"
  shows "p \<le> 64 div w \<Longrightarrow> m = (if p < 64 div w then drop_bit (w * p) m0 else 0) \<Longrightarrow> good s \<Longrightarrow>
    p = 0 \<or> (\<forall>i q. \<not> fst (v_pattern vis i q s)) \<Longrightarrow>
    gtlt_fast e vis (row_index start base) w c m p s =
      Some (visit vis (matches base get test (start + p) (start + 64 div w)) s)"
proof (induction "64 div w - p" arbitrary: p m s rule: less_induct)
  case less
  let ?L = "64 div w"
  have pos: "0 < w" and no0: "no0 w = w" and L: "w * ?L = 64" using chunked_lanes [OF w] by (simp_all add: no0_def)
  have mbits: "bit m n \<longleftrightarrow> p < ?L \<and> n < 64 \<and> n mod w = w - 1 \<and> p + n div w < ?L \<and> test (get (start + p + n div w))" for n
  proof (cases "p < ?L")
    case True
    have split: "(w * p + n) mod w = n mod w" "(w * p + n) div w = p + n div w" using pos by simp_all
    have less: "w * p + n < 64 \<longleftrightarrow> p + n div w < ?L" for n
    proof
      assume "w * p + n < 64"
      from lane_index [OF w this] show "p + n div w < ?L" using pos by simp
    next
      assume "p + n div w < ?L"
      then have "w * (p + n div w) + w \<le> 64" using lane_inside [OF w, of "p + n div w"] by simp
      moreover have "w * (n div w) + n mod w = n" "n mod w < w" using pos by simp_all
      moreover have "w * (p + n div w) = w * p + w * (n div w)" by (rule add_mult_distrib2)
      ultimately show "w * p + n < 64" by linarith
    qed
    have "bit m n \<longleftrightarrow> bit m0 (w * p + n)" using less.prems(2) True by (simp add: bit_drop_bit_eq)
    moreover have "\<dots> \<longleftrightarrow> p + n div w < ?L \<and> n mod w = w - 1 \<and> test (get (start + (p + n div w)))"
      by (simp only: bits less split)
    moreover have "p + n div w < ?L \<Longrightarrow> n < 64" using less [of n] by linarith
    ultimately show ?thesis using True unfolding add.assoc by blast
  qed (simp add: less.prems(2))
  have none: "matches base get test (start + p) (start + p + n) = []"
    if "\<And>t. t < n \<Longrightarrow> \<not> test (get (start + p + t))" for n
  proof (rule matches_none)
    fix k assume "start + p \<le> k" "k < start + p + n"
    then obtain t where "k = start + p + t" "t < n" by (metis add_less_cancel_left le_Suc_ex)
    then show "\<not> test (get k)" using that [of t] by simp
  qed
  show ?case
  proof (cases "\<exists>t < ?L - p. test (get (start + p + t))")
    case False
    have "m = 0"
    proof (rule ccontr)
      assume "m \<noteq> 0"
      then obtain n where "bit m n" using nonzero_bit by blast
      then show False using False mbits [of n] by (auto simp: less_diff_conv add.commute)
    qed
    moreover have "matches base get test (start + p) (start + p + (?L - p)) = []" using False by (intro none) auto
    ultimately show ?thesis using less.prems(1) by (subst gtlt_fast.simps) simp
  next
    case True
    then obtain t where t: "t < ?L - p" "test (get (start + p + t))" and first: "\<And>i. i < t \<Longrightarrow> \<not> test (get (start + p + i))"
      using first_index [OF True] by blast
    have bt: "bit m (w * t + (w - 1))"
    proof -
      have "t < ?L" using t(1) by linarith
      from lane_inside [OF w this] have "w * t + w \<le> 64" by simp
      moreover have "(w * t + (w - 1)) mod w = (w - 1) mod w" by (rule mod_mult_self4)
      moreover have "(w * t + (w - 1)) div w = t" by (rule div_nat_eqI) (use pos in simp_all)
      moreover have "p < ?L" "p + t < ?L" using t(1) by linarith+
      ultimately show ?thesis using t(2) pos unfolding mbits by simp
    qed
    then have m: "m \<noteq> 0" by auto
    have fsb: "first_set_bit64 e m div w = t"
    proof -
      have "hd (set_bits m) = w * t + (w - 1)" unfolding set_bits_def
      proof (rule hd_filter_upt [of "bit m", OF bt])
        show "w * t + (w - 1) < 64" using bit_imp_le_length [OF bt] by simp
        fix i assume i: "i < w * t + (w - 1)"
        show "\<not> bit m i"
        proof
          assume b: "bit m i"
          then have im: "i mod w = w - 1" "test (get (start + p + i div w))" unfolding mbits by auto
          have "i div w < t"
          proof (rule ccontr)
            assume "\<not> i div w < t"
            then have "w * t \<le> w * (i div w)" by (intro mult_le_mono2) simp
            then show False using i top_position [OF w im(1)] by linarith
          qed
          with first im(2) show False by blast
        qed
      qed
      moreover have "first_set_bit64 e m = hd (set_bits m)" using e m by (simp add: ext_ok_def)
      moreover have "(w * t + (w - 1)) div w = t" by (rule div_nat_eqI) (use pos in simp_all)
      ultimately show ?thesis by (simp only:)
    qed
    define r where "r = v_pattern vis (row_index start base) (drop_bit (w - 1) m) s"
    define rest where "rest = gtlt_fast e vis (row_index start base) w c
      (if (t + 1) * w = 64 then 0 else drop_bit ((t + 1) * w) m) (p + t + 1)"
    have neg: "(m = 0 \<or> w = 0) = False" using m pos by simp
    have unfold: "gtlt_fast e vis (row_index start base) w c m p s =
        (if fst r then Some (True, snd r)
         else unless_stopped (act vis (row_index start base) (p + t) (uint (drop_bit ((p + t) * w) c AND value_mask w)) (snd r)) rest)"
      by (subst gtlt_fast.simps) (simp only: Let_def neg if_False no0 fsb r_def rest_def)
    show ?thesis
    proof (cases "fst r")
      case True
      then have a: "p = 0" using less.prems(4) by (auto simp: r_def)
      have "length (set_bits (drop_bit (w - 1) m)) = length (filter (\<lambda>t. test (get (start + t))) [0..<?L])"
      proof (rule pattern_count [OF w pos])
        fix n
        have "n div w < ?L \<and> w - 1 + n < 64" if "n < 64" "n mod w = 0"
        proof -
          have "n div w < ?L" by (rule lane_index [OF w that(1)])
          moreover from lane_inside [OF w this] have "w * (n div w) + w \<le> 64" by simp
          ultimately show ?thesis using that(2) pos mult_div_mod_eq [of w n] by linarith
        qed
        moreover have "0 < ?L" using L by (metis mult_0_right zero_neq_numeral not_gr_zero)
        ultimately show "bit (drop_bit (w - 1) m) n \<longleftrightarrow> n < 64 \<and> n mod w = 0 \<and> test (get (start + n div w))"
          by (simp add: bit_drop_bit_eq mbits a shifted_top [OF w] cong: conj_cong) auto
      qed
      then have "visit vis (matches base get test (start + p) (start + ?L)) s = (True, snd r)"
        using take [OF less.prems(3), of "row_index start base"] True by (simp add: r_def no0 a matches_length)
      then show ?thesis using True by (simp add: unfold)
    next
      case False
      then have s1: "snd r = s" using refuse by (simp add: r_def)
      have split: "matches base get test (start + p) (start + ?L) =
          [(row_index (start + p + t) base, get (start + p + t))] @ matches base get test (start + (p + t + 1)) (start + ?L)"
        using matches_append [of "start + p" "start + p + t" "start + ?L" base get test] none [of t] first t
          matches_rec [of "start + p + t" "start + ?L" base get test]
        by (simp add: add.assoc)
      have IH: "rest s' = Some (visit vis (matches base get test (start + (p + t + 1)) (start + ?L)) s')"
        if act: "v_action vis (row_index (start + p + t) base) (Some (get (start + p + t))) s = (True, s')" for s'
        unfolding rest_def
      proof (rule less.hyps)
        show "64 div w - (p + t + 1) < 64 div w - p" "p + t + 1 \<le> 64 div w" using t by auto
        show "good s'" by (rule step [OF less.prems(3) act])
        show "p + t + 1 = 0 \<or> (\<forall>i p. \<not> fst (v_pattern vis i p s'))"
          using later [OF less.prems(3) _ act] False by (auto simp: r_def)
        show "(if (t + 1) * w = 64 then 0 else drop_bit ((t + 1) * w) m) =
            (if p + t + 1 < 64 div w then drop_bit (w * (p + t + 1)) m0 else 0)"
        proof (cases "(t + 1) * w = 64")
          case True
          then have "t + 1 = ?L" using pos by (metis nonzero_mult_div_cancel_right not_gr_zero)
          then show ?thesis using True by simp
        next
          case False
          have "m = drop_bit (w * p) m0" using less.prems(2) t(1) by (cases "p < ?L") auto
          then have "drop_bit ((t + 1) * w) m = drop_bit (w * (p + t + 1)) m0" by (simp add: algebra_simps)
          moreover have "drop_bit (w * (p + t + 1)) m0 = 0" if "\<not> p + t + 1 < ?L"
          proof -
            have "p + t + 1 = ?L" using that t(1) by simp
            then show ?thesis using L by (simp only:) (rule bit_eqI, simp add: bit_drop_bit_eq)
          qed
          ultimately show ?thesis using False by simp
        qed
      qed
      have val: "uint (drop_bit ((p + t) * w) c AND value_mask w) = get (start + p + t)"
        using elem [of "p + t"] t by (simp add: add.assoc)
      have "gtlt_fast e vis (row_index start base) w c m p s =
          unless_stopped (act vis (row_index start base) (p + t) (get (start + p + t)) s) rest"
        using False s1 by (simp add: unfold val)
      also have "\<dots> = Some (visit vis (matches base get test (start + p) (start + ?L)) s)"
        unfolding split visit_append
        using IH by (cases "v_action vis (row_index (start + p + t) base) (Some (get (start + p + t))) s")
          (auto simp: act_def unless_stopped_def row_index_assoc ac_simps)
      finally show ?thesis .
    qed
  qed
qed

end

end
