(* ===== verification/ArrayCompareLaws.thy ===== *)
theory ArrayCompareLaws imports ArrayFindLaws begin

text \<open>
  From chunks to ranges: the two comparison loops and the whole search visit the matches of their range.
\<close>

lemma lane_take: "decode w (wlane w c t) = (if w < 8 then wlane w c t else signed_take_bit (w - 1) (wlane w c t))" if "0 < w"
  using that by (simp add: decode_def take_bit_int_eq_self)

lemma gtlt_cast_lane:
  assumes w: "chunked w"
  shows "gtlt_cast w v (drop_bit (w * t) c) = decode w (wlane w c t)"
proof -
  have pk: "packed w" using w by (auto simp: chunked_def packed_def)
  have small: "sint (x AND mask n) = uint (x AND mask n)" if "n < 64" for x :: "64 word" and n
    using that by (intro bit_eqI) (auto simp: bit_sint_iff bit_uint_iff bit_simps bit_mask_iff)
  have m: "(1 :: 64 word) = mask 1" "(3 :: 64 word) = mask 2" "(15 :: 64 word) = mask 4"
    by (simp_all add: mask_eq_exp_minus_1)
  have s: "sint (x AND 1) = uint (x AND mask 1)" "sint (x AND 3) = uint (x AND mask 2)"
    "sint (x AND 15) = uint (x AND mask 4)" for x :: "64 word"
    using small [of 1 x] small [of 2 x] small [of 4 x] by (simp_all only: m)
  consider "w = 1" | "w = 2" | "w = 4" | "w = 8" | "w = 16" using w by (auto simp: chunked_def)
  then show ?thesis
  proof cases
    case 1
    then show ?thesis
      by (intro bit_eqI) (use pk in \<open>auto simp: gtlt_cast_def s bit_decode bit_wlane bit_simps bit_mask_iff bit_uint_iff
          dest: bit_imp_le_length simp del: One_nat_def\<close>)
  next
    case 2
    then show ?thesis
      by (intro bit_eqI) (use pk in \<open>auto simp: gtlt_cast_def s bit_decode bit_wlane bit_simps bit_mask_iff bit_uint_iff
          dest: bit_imp_le_length\<close>)
  next
    case 3
    then show ?thesis
      by (intro bit_eqI) (use pk in \<open>auto simp: gtlt_cast_def s bit_decode bit_wlane bit_simps bit_mask_iff bit_uint_iff
          dest: bit_imp_le_length\<close>)
  next
    case 4
    have "bit (sint (ucast (drop_bit (8 * t) c) :: 8 word)) j \<longleftrightarrow> bit c (8 * t + min 7 j)" for j
      by (cases "j < 8") (auto simp: bit_sint_iff bit_ucast_iff bit_drop_bit_eq min_absorb1 min_absorb2)
    then show ?thesis using 4 pk
      by (intro bit_eqI) (auto simp: gtlt_cast_def bit_decode bit_wlane)
  next
    case 5
    have "bit (sint (ucast (drop_bit (16 * t) c) :: 16 word)) j \<longleftrightarrow> bit c (16 * t + min 15 j)" for j
      by (cases "j < 16") (auto simp: bit_sint_iff bit_ucast_iff bit_drop_bit_eq min_absorb1 min_absorb2)
    then show ?thesis using 5 pk
      by (intro bit_eqI) (auto simp: gtlt_cast_def bit_decode bit_wlane)
  qed
qed

definition rel_test :: "bool \<Rightarrow> int \<Rightarrow> int \<Rightarrow> bool" where
  "rel_test gt v x = (if gt then x > v else x < v)"

lemma gtlt_chunk_visit:
  assumes w: "chunked w" and h: "holds w get start c"
  shows "t \<le> 64 div w \<Longrightarrow>
    gtlt_chunk vis (row_index start base) gt w v (drop_bit (w * t) c) t s =
      Some (visit vis (matches base get (rel_test gt v) (start + t) (start + 64 div w)) s)"
proof (induction "64 div w - t" arbitrary: t s)
  case 0
  then show ?case by (subst gtlt_chunk.simps) simp
next
  case (Suc n)
  let ?test = "rel_test gt v"
  let ?rest = "gtlt_chunk vis (row_index start base) gt w v (drop_bit w (drop_bit (w * t) c)) (t + 1)"
  have t: "t < 64 div w" using Suc by linarith
  have x: "gtlt_cast w v (drop_bit (w * t) c) = get (start + t)"
    using h t by (simp add: holds_def gtlt_cast_lane [OF w])
  have rest: "?rest = (\<lambda>s. Some (visit vis (matches base get ?test (start + t + 1) (start + 64 div w)) s))"
    by (rule ext) (use Suc.hyps(1) [of "t + 1"] Suc.hyps(2) t in \<open>simp add: algebra_simps\<close>)
  have "gtlt_chunk vis (row_index start base) gt w v (drop_bit (w * t) c) t s =
      unless_stopped (if ?test (get (start + t)) then act vis base (start + t) (get (start + t)) s else Some (True, s)) ?rest"
    using t by (subst gtlt_chunk.simps) (simp add: Let_def x act_def rel_test_def row_index_assoc add.commute del: drop_bit_drop_bit)
  also have "\<dots> = Some (visit vis (matches base get ?test (start + t) (start + 64 div w)) s)"
    unfolding rest using matches_rec [of "start + t" "start + 64 div w" base get ?test] t
    by (simp only: act_visit) (simp add: act_visit del: visit.simps)
  finally show ?case .
qed

lemma find_gtlt_visit:
  assumes "chunked w" "holds w get start c"
  shows "find_gtlt vis gt w v c (row_index start base) s =
    Some (visit vis (matches base get (rel_test gt v) start (start + 64 div w)) s)"
  using gtlt_chunk_visit [OF assms, of 0] by (simp add: find_gtlt_def)

section \<open>When the bit trick is used\<close>

text \<open>The condition of the fast path never holds for \<open>Less\<close>, whose trick can be wrong after a borrow.\<close>

lemma half_mask:
  assumes "chunked w"
  shows "sint (drop_bit 1 (value_mask w)) = 2 ^ (w - 1) - 1" "2 \<le> w \<Longrightarrow> sint (drop_bit 1 (value_mask w) - 1) = 2 ^ (w - 1) - 2"
  using assms by (auto simp: chunked_def value_mask_def push_bit_eq_mult)

lemma less_never_fast:
  assumes w: "chunked w"
  shows "\<not> gtlt_fast_ok False w v"
proof
  assume ok: "gtlt_fast_ok False w v"
  then have v: "0 \<le> v" "v < 2 ^ (w - 1)" using half_mask(1) [OF w] by (simp_all add: gtlt_fast_ok_def)
  have le: "2 ^ (w - 1) \<le> (2 :: int) ^ 15" using w by (intro power_increasing) (auto simp: chunked_def)
  have half: "(2 :: int) ^ (w - 1) \<le> 2 ^ w" by (intro power_increasing) simp_all
  have u: "uint (word_of_int v :: 64 word) = v" using v le by (simp add: uint_word_of_int)
  have "uint (find_gtlt_magic False w v AND value_mask w) = wlane w (find_gtlt_magic False w v) 0"
    using masked_lane [OF w, of 0] by simp
  also have "\<dots> = v"
    using wlane_spread [OF w, of 0 "word_of_int v"] chunked_lanes [OF w] v half u
    by (cases "64 div w = 0") (auto simp: find_gtlt_magic_def Let_def value_mask_chunked [OF w] spread_chunked [OF w])
  finally have x: "uint (find_gtlt_magic False w v AND value_mask w) = v" .
  have "sint (find_gtlt_magic False w v AND value_mask w) = v"
    using x v le by (simp add: sint_uint signed_take_bit_int_eq_self)
  then show False using ok by (simp add: gtlt_fast_ok_def)
qed

lemma greater_fast:
  assumes w: "chunked w" and ok: "gtlt_fast_ok True w v"
  shows "2 \<le> w" "0 \<le> v" "v < 2 ^ (w - 1) - 1"
  using ok half_mask(2) [OF w] by (auto simp: gtlt_fast_ok_def)

lemma clear_tops:
  assumes w: "chunked w" and clear: "push_bit (no0 w - 1) (lower_bits w) AND c = 0" and t: "t < 64 div w"
  shows "wlane w c t < 2 ^ (w - 1)"
proof -
  have pos: "0 < w" "no0 w = w" using chunked_lanes [OF w] by (simp_all add: no0_def)
  have "w * t + w \<le> 64" using lane_inside [OF w t] by simp
  moreover have "(w * t + (w - 1)) mod w = (w - 1) mod w" by (rule mod_mult_self4)
  ultimately have "bit (push_bit (w - 1) (lower_bits w)) (w * t + (w - 1))" using pos bit_upper [OF w] by simp
  moreover have "\<not> bit (push_bit (w - 1) (lower_bits w) AND c) (w * t + (w - 1))" using clear pos by simp
  ultimately have "\<not> bit c (w * t + (w - 1))" by (simp add: bit_and_iff)
  then show ?thesis using wlane_top [OF pos(1), of c t] by simp
qed

context visitor_laws
begin

lemma find_gtlt_fast_visit:
  assumes w: "chunked w" and e: "ext_ok e" and h: "holds w get start c" and ok: "gtlt_fast_ok gt w v"
    and clear: "push_bit (no0 w - 1) (lower_bits w) AND c = 0" and s: "good s"
  shows "find_gtlt_fast e vis gt w c (find_gtlt_magic gt w v) (row_index start base) s =
    Some (visit vis (matches base get (rel_test gt v) start (start + 64 div w)) s)"
proof (cases gt)
  case False
  then show ?thesis using ok less_never_fast [OF w] by simp
next
  case True
  then have "gtlt_fast_ok True w v" using ok by simp
  note v = greater_fast [OF w this]
  note low = clear_tops [OF w clear]
  have pos: "0 < 64 div w" using w by (auto simp: chunked_def)
  have elem: "get (start + t) = wlane w c t" if "t < 64 div w" for t
  proof -
    have "- (2 ^ (w - 1)) \<le> wlane w c t" by (rule order_trans [of _ 0]) simp_all
    then have "decode w (wlane w c t) = wlane w c t"
      using v(1) low [OF that] by (simp add: lane_take signed_take_bit_int_eq_self)
    then show ?thesis using h that by (simp add: holds_def)
  qed
  have val: "uint (drop_bit (t * w) c AND value_mask w) = get (start + t)" if "t < 64 div w" for t
    using elem [OF that] masked_lane [OF w, of t c] by (simp add: mult.commute)
  have bits: "bit (gtlt_bits True w c (find_gtlt_magic True w v)) n \<longleftrightarrow>
      n < 64 \<and> n mod w = w - 1 \<and> rel_test True v (get (start + n div w))" for n
    using gtlt_bits_greater [OF w v low, of n] elem [OF lane_index [OF w, of n]]
    by (cases "n < 64") (simp_all add: rel_test_def)
  have "gtlt_fast e vis (row_index start base) w c (gtlt_bits True w c (find_gtlt_magic True w v)) 0 s =
      Some (visit vis (matches base get (rel_test True v) (start + 0) (start + 64 div w)) s)"
    by (rule gtlt_fast_visit [OF w e bits val]) (use s pos in simp_all)
  then show ?thesis by (simp add: find_gtlt_fast_def True)
qed

section \<open>Ranges\<close>

text \<open>The loops over chunks of both comparisons, followed by the loop over the rest of the range.\<close>

lemma chunk_loop:
  assumes w: "chunked w" and ee: "ee = j * w div 8"
    and F: "\<And>p s. F p s =
      (if p + 8 < ee then
         case chunk p s of
           None \<Rightarrow> None
         | Some (go, s1) \<Rightarrow> if go then F (p + 8) s1 else Some (p, False, s1)
       else Some (p, True, s))"
    and chunk: "\<And>p i s. 8 * p = w * i \<Longrightarrow> 8 dvd p \<Longrightarrow> good s \<Longrightarrow>
      chunk p s = Some (visit vis (matches base get test i (i + 64 div w)) s)"
  shows "8 * p = w * i \<Longrightarrow> 8 dvd p \<Longrightarrow> i \<le> j \<Longrightarrow> good s \<Longrightarrow>
    (case F p s of
       None \<Rightarrow> None
     | Some (p, go, s2) \<Rightarrow> if go then scan vis base get test (p div 8 * 8 * 8 div no0 w) j s2 else Some (False, s2)) =
    Some (visit vis (matches base get test i j) s)"
proof (induction "ee - p" arbitrary: p i s rule: less_induct)
  case less
  have pos: "0 < w" and L: "w * (64 div w) = 64" using chunked_lanes [OF w] by simp_all
  have unit_index: "p div 8 * 8 * 8 div no0 w = i"
    using less.prems(1,2) pos by (simp add: no0_def) (metis mult.commute nonzero_mult_div_cancel_left not_gr_zero)
  show ?case
  proof (cases "p + 8 < ee")
    case False
    then have "F p s = Some (p, True, s)" by (subst F) simp
    then show ?thesis by (simp only: option.case prod.case if_True unit_index scan_visit)
  next
    case True
    let ?xs = "matches base get test i (i + 64 div w)"
    have next_chunk: "8 * (p + 8) = w * (i + 64 div w)" using less.prems(1) L by (simp add: add_mult_distrib2)
    have "8 * (p + 8) \<le> 8 * (j * w div 8)" using True ee by simp
    also have "\<dots> \<le> j * w" by simp
    finally have le: "i + 64 div w \<le> j" using next_chunk pos by (metis mult.commute mult_le_cancel1)
    have split: "matches base get test i j = ?xs @ matches base get test (i + 64 div w) j"
      using le by (intro matches_append) simp_all
    obtain go s1 where r: "visit vis ?xs s = (go, s1)" by fastforce
    have c: "chunk p s = Some (go, s1)" using chunk [OF less.prems(1,2,4)] r by simp
    show ?thesis
    proof (cases go)
      case False
      then show ?thesis using True by (subst F) (simp add: c r split visit_append)
    next
      case go: True
      then have "good s1" using visit_inv [OF less.prems(4)] r by simp
      moreover have "ee - (p + 8) < ee - p" "8 dvd p + 8" using True less.prems(2) by auto
      ultimately have IH: "(case F (p + 8) s1 of
          None \<Rightarrow> None
        | Some (p, go, s2) \<Rightarrow> if go then scan vis base get test (p div 8 * 8 * 8 div no0 w) j s2 else Some (False, s2)) =
        Some (visit vis (matches base get test (i + 64 div w) j) s1)"
        using less.hyps [OF _ next_chunk _ le] by blast
      have "F p s = F (p + 8) s1" using True go by (subst F) (simp add: c)
      then show ?thesis using IH go by (simp add: split visit_append r)
    qed
  qed
qed

text \<open>A comparison first scans up to the next chunk.\<close>

lemma aligned_search:
  assumes n: "0 < n" and e: "ext_ok e" and i: "i \<le> j" and s: "good s"
    and rest: "\<And>k s. k < j \<Longrightarrow> n dvd k \<Longrightarrow> good s \<Longrightarrow> rest k s = Some (visit vis (matches base get test k j) s)"
  shows "(let ee = min (round_up e i n) j
    in unless_stopped (scan vis base get test i ee s)
         (\<lambda>s1. let i1 = max i ee in if i1 \<ge> j then Some (True, s1) else rest i1 s1)) =
    Some (visit vis (matches base get test i j) s)"
proof -
  define ru where "ru = round_up e i n"
  have ru: "ru = (i + n - 1) div n * n" using e n by (simp add: ru_def ext_ok_def)
  have up: "i \<le> ru"
  proof -
    have "i + n - 1 = (i + n - 1) div n * n + (i + n - 1) mod n" by simp
    moreover have "(i + n - 1) mod n \<le> n - 1" using n by (simp add: Suc_leI less_Suc_eq_le [symmetric])
    ultimately show ?thesis using n ru by linarith
  qed
  show ?thesis
  proof (cases "ru < j")
    case False
    then have m: "min ru j = j" "max i j = j" using i by simp_all
    show ?thesis using unless_stopped_visit [of vis "matches base get test i j" s "[]"]
      by (simp add: Let_def ru_def [symmetric] m scan_visit)
  next
    case True
    have m: "min ru j = ru" "max i ru = ru" using True up by simp_all
    have "unless_stopped (scan vis base get test i ru s) (rest ru) = Some (visit vis (matches base get test i ru @ matches base get test ru j) s)"
      by (rule visit_chunks [OF _ _ visitor_laws_axioms s]) (use rest True ru in \<open>auto simp: scan_visit\<close>)
    then show ?thesis using matches_append [of i ru j] up True by (simp add: Let_def ru_def [symmetric] m)
  qed
qed

text \<open>The chunk is compared with the value in every element; both fit the width.\<close>

lemma equality_lanes:
  assumes w: "chunked w" and v: "fits w v" and h: "holds w get start c" and t: "t < 64 div w"
  shows "(get (start + t) = v) \<longleftrightarrow>
    wlane w (c XOR spread (value_mask w) (word_of_int v AND value_mask w)) t = 0"
proof -
  have pk: "packed w" using w by (auto simp: chunked_def packed_def)
  let ?x = "word_of_int v AND value_mask w :: 64 word"
  have x: "uint ?x = take_bit w v"
    using w by (intro bit_eqI) (auto simp: value_mask_chunked [OF w] bit_uint_iff bit_and_iff bit_mask_iff
        bit_word_of_int_iff bit_take_bit_iff chunked_def)
  have "uint ?x < 2 ^ w" unfolding x by simp
  from wlane_spread [OF w t this] have spread: "wlane w (spread (value_mask w) ?x) t = take_bit w v"
    by (simp only: value_mask_chunked [OF w] spread_chunked [OF w] x [unfolded value_mask_chunked [OF w]])
  have "wlane w (c XOR spread (value_mask w) ?x) t = 0 \<longleftrightarrow> wlane w c t = take_bit w v"
  proof -
    have "wlane w (c XOR spread (value_mask w) ?x) t = wlane w c t XOR wlane w (spread (value_mask w) ?x) t"
      by (intro bit_eqI) (auto simp: bit_wlane bit_xor_iff)
    moreover have "x XOR y = 0 \<longleftrightarrow> x = y" for x y :: int by (auto simp: bit_eq_iff bit_xor_iff)
    ultimately show ?thesis by (simp only: spread)
  qed
  also have "\<dots> \<longleftrightarrow> decode w (wlane w c t) = v"
  proof
    assume "wlane w c t = take_bit w v"
    then have "decode w (wlane w c t) = decode w v"
      using packed_pos [OF pk] by (intro bit_eqI) (auto simp: bit_decode [OF pk] bit_take_bit_iff)
    then show "decode w (wlane w c t) = v" using v by (simp add: fits_def)
  next
    assume d: "decode w (wlane w c t) = v"
    show "wlane w c t = take_bit w v"
      unfolding d [symmetric] using packed_pos [OF pk]
      by (intro bit_eqI) (auto simp: bit_decode [OF pk] bit_take_bit_iff bit_wlane min_absorb2)
  qed
  finally show ?thesis using h t by (simp add: holds_def)
qed

definition eq_test :: "bool \<Rightarrow> int \<Rightarrow> int \<Rightarrow> bool" where
  "eq_test eq v x = (if eq then x = v else x \<noteq> v)"

lemma compare_equality_visit:
  assumes w: "packed w" and e: "ext_ok e" and v: "fits w v" and i: "i \<le> j" and s: "good s"
  shows "compare_equality e vis arr eq w v i j base s =
    Some (visit vis (matches base (leaf_get w arr) (eq_test eq v) i j) s)"
proof -
  have n: "0 < 64 div no0 w" using w by (auto simp: packed_def no0_def)
  let ?get = "leaf_get w arr" and ?mask = "spread (value_mask w) (word_of_int v AND value_mask w)"
  have rest: "(if w \<noteq> 32 \<and> w \<noteq> 64 then
        (case equality_chunks e vis base arr eq w ?mask (k * w div 8) (j * w div 8) s of
           None \<Rightarrow> None
         | Some (p, go, s2) \<Rightarrow>
             if go then scan vis base ?get (eq_test eq v) (p div 8 * 8 * 8 div no0 w) j s2 else Some (False, s2))
      else scan vis base ?get (eq_test eq v) k j s) =
    Some (visit vis (matches base ?get (eq_test eq v) k j) s)"
    if k: "k < j" "64 div no0 w dvd k" and s: "good s" for k s
  proof (cases "w \<noteq> 32 \<and> w \<noteq> 64")
    case False
    then show ?thesis by (simp only: if_False scan_visit)
  next
    case True
    then have c: "chunked w" using w by (auto simp: packed_def chunked_def)
    have no0: "no0 w = w" and L: "w * (64 div w) = 64" using chunked_lanes [OF c] by (simp_all add: no0_def)
    obtain q where q: "k = 64 div w * q" using k(2) no0 by (auto elim: dvdE)
    have kw: "w * k = 64 * q" using L unfolding q by (metis mult.assoc)
    then have p: "8 * (k * w div 8) = w * k" "8 dvd k * w div 8" by (simp_all add: mult.commute)
    have step: "equality_chunk e vis base ?get eq w (p div 8 * 8 * 8 div no0 w) (word_of_int (load_bytes 8 (m_data arr) p) XOR ?mask) 0 s =
        Some (visit vis (matches base ?get (eq_test eq v) i (i + 64 div w)) s)"
      if "8 * p = w * i" "8 dvd p" "good s" for p i s
    proof -
      have i: "p div 8 * 8 * 8 div no0 w = i"
        using that(1,2) chunked_lanes [OF c] by (simp add: no0) (metis mult.commute nonzero_mult_div_cancel_left not_gr_zero)
      have "equality_chunk e vis base ?get eq w i (word_of_int (load_bytes 8 (m_data arr) p) XOR ?mask) 0 s =
          Some (visit vis (matches base ?get (eq_test eq v) (i + 0) (i + 64 div w)) s)"
        by (rule equality_chunk_visit [OF c])
          (use equality_lanes [OF c v holds_load [OF c that(1)]] that in \<open>auto simp: eq_test_def\<close>)
      then show ?thesis unfolding i by simp
    qed
    have "(case equality_chunks e vis base arr eq w ?mask (k * w div 8) (j * w div 8) s of
           None \<Rightarrow> None
         | Some (p, go, s2) \<Rightarrow>
             if go then scan vis base ?get (eq_test eq v) (p div 8 * 8 * 8 div no0 w) j s2 else Some (False, s2)) =
        Some (visit vis (matches base ?get (eq_test eq v) k j) s)"
    proof (rule chunk_loop [OF c refl, where chunk = "\<lambda>p s. equality_chunk e vis base ?get eq w (p div 8 * 8 * 8 div no0 w)
          (word_of_int (load_bytes 8 (m_data arr) p) XOR ?mask) 0 s"
          and F = "\<lambda>p s. equality_chunks e vis base arr eq w ?mask p (j * w div 8) s"])
      show "equality_chunks e vis base arr eq w ?mask p (j * w div 8) s =
          (if p + 8 < j * w div 8 then
             case equality_chunk e vis base ?get eq w (p div 8 * 8 * 8 div no0 w)
               (word_of_int (load_bytes 8 (m_data arr) p) XOR ?mask) 0 s of
               None \<Rightarrow> None
             | Some (go, s1) \<Rightarrow>
                 if go then equality_chunks e vis base arr eq w ?mask (p + 8) (j * w div 8) s1 else Some (p, False, s1)
           else Some (p, True, s))" for p s
        by (subst equality_chunks.simps) (simp only: Let_def)
    qed (use step p k s in simp_all)
    then show ?thesis using True by (simp only: if_True simp_thms)
  qed
  have test: "eq_test eq v = (\<lambda>x. if eq then x = v else x \<noteq> v)" by (rule ext) (simp add: eq_test_def)
  show ?thesis
    unfolding compare_equality_def Let_def test
    by (rule aligned_search [OF n e i s rest, unfolded Let_def test])
qed

lemma compare_relation_visit:
  assumes w: "packed w" and e: "ext_ok e" and i: "i \<le> j" "j \<le> m_size arr" and s: "good s"
  shows "compare_relation e vis arr gt w v i j base s =
    Some (visit vis (matches base (leaf_get w arr) (rel_test gt v) i j) s)"
proof -
  have n: "0 < 64 div no0 w" using w by (auto simp: packed_def no0_def)
  let ?get = "leaf_get w arr" and ?fast = "gtlt_fast_ok gt w v"
  have rest: "(if w \<in> {1, 2, 4, 8, 16} then
        (case relation_chunks e vis base arr gt w v ?fast (k * w div 8) (j * w div 8) s of
           None \<Rightarrow> None
         | Some (p, go, s2) \<Rightarrow>
             if go then scan vis base ?get (rel_test gt v) (p div 8 * 8 * 8 div no0 w) j s2 else Some (False, s2))
      else scan vis base ?get (rel_test gt v) k j s) =
    Some (visit vis (matches base ?get (rel_test gt v) k j) s)"
    if k: "k < j" "64 div no0 w dvd k" and s: "good s" for k s
  proof (cases "w \<in> {1, 2, 4, 8, 16}")
    case False
    then show ?thesis by (simp only: if_False scan_visit)
  next
    case True
    then have c: "chunked w" by (simp add: chunked_def)
    have no0: "no0 w = w" and L: "w * (64 div w) = 64" using chunked_lanes [OF c] by (simp_all add: no0_def)
    obtain q where q: "k = 64 div w * q" using k(2) no0 by (auto elim: dvdE)
    have kw: "w * k = 64 * q" using L unfolding q by (metis mult.assoc)
    then have p: "8 * (k * w div 8) = w * k" "8 dvd k * w div 8" by (simp_all add: mult.commute)
    let ?chunk = "\<lambda>p s. let chunk = word_of_int (load_bytes 8 (m_data arr) p);
        upper = push_bit (no0 w - 1) (lower_bits w) AND chunk;
        base1 = row_index (p div 8 * 8 * 8 div no0 w) base
      in if ?fast \<and> upper = 0 then find_gtlt_fast e vis gt w chunk (find_gtlt_magic gt w v) base1 s
         else find_gtlt vis gt w v chunk base1 s"
    have step: "?chunk p s = Some (visit vis (matches base ?get (rel_test gt v) i (i + 64 div w)) s)"
      if "8 * p = w * i" "8 dvd p" "good s" for p i s
    proof -
      have i: "p div 8 * 8 * 8 div no0 w = i"
        using that(1,2) chunked_lanes [OF c] by (simp add: no0) (metis mult.commute nonzero_mult_div_cancel_left not_gr_zero)
      show ?thesis unfolding i Let_def
        by (simp add: find_gtlt_fast_visit [OF c e holds_load [OF c that(1)] _ _ that(3)]
            find_gtlt_visit [OF c holds_load [OF c that(1)]] del: One_nat_def)
    qed
    have "(case relation_chunks e vis base arr gt w v ?fast (k * w div 8) (j * w div 8) s of
           None \<Rightarrow> None
         | Some (p, go, s2) \<Rightarrow>
             if go then scan vis base ?get (rel_test gt v) (p div 8 * 8 * 8 div no0 w) j s2 else Some (False, s2)) =
        Some (visit vis (matches base ?get (rel_test gt v) k j) s)"
    proof (rule chunk_loop [OF c refl, where chunk = ?chunk
          and F = "\<lambda>p s. relation_chunks e vis base arr gt w v ?fast p (j * w div 8) s"])
      show "relation_chunks e vis base arr gt w v ?fast p (j * w div 8) s =
          (if p + 8 < j * w div 8 then
             case ?chunk p s of
               None \<Rightarrow> None
             | Some (go, s1) \<Rightarrow>
                 if go then relation_chunks e vis base arr gt w v ?fast (p + 8) (j * w div 8) s1
                 else Some (p, False, s1)
           else Some (p, True, s))" for p s
        by (subst relation_chunks.simps) (simp only: Let_def)
    qed (use step p k s in simp_all)
    then show ?thesis using True by (simp only: if_True)
  qed
  have test: "rel_test gt v = (\<lambda>x. if gt then x > v else x < v)" by (rule ext) (simp add: rel_test_def)
  have ok: "(\<not> (i \<le> m_size arr \<and> (j \<le> m_size arr \<or> j = npos) \<and> i \<le> j)) = False" using i by simp
  show ?thesis
    unfolding compare_relation_def ok if_False Let_def test
    by (rule aligned_search [OF n e i(1) s rest, unfolded Let_def test])
qed

lemma compare_visit:
  assumes "packed w" "ext_ok e" "fits w v \<or> c = Greater \<or> c = Less" "i \<le> j" "j \<le> m_size arr" "good s"
  shows "compare e vis arr c w v i j base s =
    Some (visit vis (matches base (leaf_get w arr) (\<lambda>x. cond_holds c x v) i j) s)"
proof -
  have tests: "eq_test True v = (\<lambda>x. cond_holds Equal x v)" "eq_test False v = (\<lambda>x. cond_holds NotEqual x v)"
    "rel_test True v = (\<lambda>x. cond_holds Greater x v)" "rel_test False v = (\<lambda>x. cond_holds Less x v)"
    by (auto simp: eq_test_def rel_test_def)
  show ?thesis
    using compare_equality_visit [OF assms(1,2) _ assms(4,6), of v] compare_relation_visit [OF assms(1,2,4,5,6)] assms(3)
    by (cases c) (auto simp: compare_def tests simp del: cond_holds_simps)
qed

end

end
