(* ===== verification/ArraySearchLaws.thy ===== *)
theory ArraySearchLaws imports ArrayCompareLaws begin

text \<open>
  The visitors of the code obey the laws, and the search over a leaf visits exactly the matches.
  The aggregates take a short cut when the bounds of the leaf say that all elements match; they are
  described by the accumulated value.
\<close>

section \<open>The visitors of the code\<close>

definition good_state :: "'col array_ext \<Rightarrow> action \<Rightarrow> 'col query_state \<times> 'cb \<Rightarrow> bool" where
  "good_state e action s \<longleftrightarrow> ext_ok e \<and> m_match_count (fst s) < m_limit (fst s) \<and> m_limit (fst s) < 2 ^ 64 \<and>
     (action = act_Count \<longrightarrow> m_state (fst s) = to_int64 (int (m_match_count (fst s))))"

lemma to_size_int64: "to_size (to_int64 (int n)) = n mod 2 ^ 64"
proof -
  have "take_bit 64 (signed_take_bit 63 (int n)) = take_bit 64 (int n)"
    by (rule take_bit_signed_take_bit) simp
  then show ?thesis by (simp add: to_size_def to_int64_def take_bit_int_def nat_mod_distrib)
qed

lemma to_int64_add: "to_int64 (to_int64 a + b) = to_int64 (a + b)"
proof -
  have "take_bit (Suc 63) (signed_take_bit 63 a) = take_bit (Suc 63) a"
    by (rule take_bit_signed_take_bit) simp
  then have "take_bit (Suc 63) (signed_take_bit 63 a + b) = take_bit (Suc 63) (a + b)"
    by (metis take_bit_add)
  then show ?thesis unfolding to_int64_def by (simp only: signed_take_bit_eq_iff_take_bit_eq)
qed

text \<open>One match of a count.\<close>

lemma count_step:
  assumes "m_state q = to_int64 (int n)" "m_match_count q = n" "n < m_limit q" "m_limit q < 2 ^ 64"
  shows "match_value e act_Count i x q =
    (n + 1 < m_limit q, q\<lparr>m_state := to_int64 (int (n + 1)), m_match_count := n + 1\<rparr>)"
proof -
  have "to_int64 (to_int64 (int n) + 1) = to_int64 (int (n + 1))" using to_int64_add [of "int n" 1] by (simp add: add.commute)
  moreover have "to_size (to_int64 (int (n + 1))) = n + 1" using assms(3,4) by (simp only: to_size_int64) simp
  ultimately show ?thesis using assms by (simp add: match_value_def below_limit_def Let_def)
qed

lemma visitor_simps:
  "v_action (visitor_of e action callback) = find_action e action callback"
  "v_pattern (visitor_of e action callback) = find_action_pattern e action"
  by (simp_all add: visitor_of_def)

lemma count_visit:
  "m_state q = to_int64 (int n) \<Longrightarrow> m_match_count q = n \<Longrightarrow> n + length xs < m_limit q \<Longrightarrow> m_limit q < 2 ^ 64 \<Longrightarrow>
   visit (visitor_of e act_Count callback) xs (q, cb) =
     (True, q\<lparr>m_state := to_int64 (int (n + length xs)), m_match_count := n + length xs\<rparr>, cb)"
proof (induction xs arbitrary: q n)
  case Nil
  then show ?case by simp
next
  case (Cons x xs)
  let ?q = "q\<lparr>m_state := to_int64 (int (n + 1)), m_match_count := n + 1\<rparr>"
  have "find_action e act_Count callback (fst x) (Some (snd x)) (q, cb) = (True, ?q, cb)"
    using count_step [of q n e "fst x" "snd x"] Cons.prems by (simp add: find_action_def match_optional_def Let_def)
  moreover have "visit (visitor_of e act_Count callback) xs (?q, cb) =
      (True, ?q\<lparr>m_state := to_int64 (int (n + 1 + length xs)), m_match_count := n + 1 + length xs\<rparr>, cb)"
    by (rule Cons.IH) (use Cons.prems in simp_all)
  ultimately show ?case by (simp add: visitor_simps)
qed

lemma set_bits_length: "length (set_bits p) \<le> 64"
  unfolding set_bits_def by (rule order_trans [OF length_filter_le]) simp

text \<open>After a match that did not stop the search the limit has not been reached.\<close>

lemma find_action_good:
  assumes s: "good_state e action s" and r: "find_action e action callback i (Some x) s = (True, s')"
  shows "good_state e action s'"
proof (cases "action = act_Count")
  case True
  obtain q cb where q: "s = (q, cb)" by (cases s)
  let ?n = "m_match_count q"
  have "match_value e act_Count i x q = (?n + 1 < m_limit q, q\<lparr>m_state := to_int64 (int (?n + 1)), m_match_count := ?n + 1\<rparr>)"
    by (rule count_step) (use s q True in \<open>auto simp: good_state_def\<close>)
  then show ?thesis using s r q True
    by (auto simp: good_state_def find_action_def match_optional_def Let_def)
next
  case False
  have lim: "m_limit (fst s') = m_limit (fst s)"
    using r by (cases s; cases action)
      (auto simp: find_action_def match_optional_def match_value_def below_limit_def Let_def split: if_splits)
  have "m_match_count (fst s') < m_limit (fst s')"
    using r s False by (cases s; cases action)
      (auto simp: good_state_def find_action_def match_optional_def match_value_def below_limit_def Let_def split: if_splits)
  then show ?thesis using s False lim by (simp add: good_state_def)
qed

interpretation leaf_search: visitor_laws "visitor_of e action callback" "good_state e action" for e action callback
proof
  fix s s' :: "'a query_state \<times> 'b" and i x
  assume "good_state e action s" "v_action (visitor_of e action callback) i (Some x) s = (True, s')"
  then show "good_state e action s'" unfolding visitor_simps by (rule find_action_good)
next
  fix s :: "'a query_state \<times> 'b" and i p
  assume "\<not> fst (v_pattern (visitor_of e action callback) i p s)"
  then show "snd (v_pattern (visitor_of e action callback) i p s) = s"
    unfolding visitor_simps
    by (cases s) (auto simp: find_action_pattern_def match_pattern_def Let_def split: if_splits)
next
  fix s :: "'a query_state \<times> 'b" and i p and xs :: "(nat \<times> int) list"
  assume s: "good_state e action s" and take: "fst (v_pattern (visitor_of e action callback) i p s)"
    and n: "length xs = length (set_bits p)"
  obtain q cb where q: "s = (q, cb)" by (cases s)
  have c: "action = act_Count" "m_match_count q + 64 < m_limit q"
    using take q unfolding visitor_simps by (auto simp: find_action_pattern_def match_pattern_def Let_def split: if_splits)
  let ?n = "m_match_count q"
  have st: "to_int64 (m_state q + popcount64 e p) = to_int64 (int (?n + length xs))"
    using s q c(1) n to_int64_add [of "int ?n" "int (length xs)"] by (simp add: good_state_def ext_ok_def)
  have sz: "to_size (to_int64 (int (?n + length xs))) = ?n + length xs"
    using s q c n set_bits_length [of p] by (simp only: to_size_int64) (auto simp: good_state_def)
  have "visit (visitor_of e act_Count callback) xs (q, cb) =
      (True, q\<lparr>m_state := to_int64 (int (?n + length xs)), m_match_count := ?n + length xs\<rparr>, cb)"
    by (rule count_visit) (use s q c n set_bits_length [of p] in \<open>auto simp: good_state_def\<close>)
  then show "visit (visitor_of e action callback) xs s = (True, snd (v_pattern (visitor_of e action callback) i p s))"
    using c q unfolding visitor_simps by (simp add: find_action_pattern_def match_pattern_def Let_def st sz del: of_nat_add)
next
  fix s s' :: "'a query_state \<times> 'b" and i p j x k r
  assume s: "good_state e action s" and no: "\<not> fst (v_pattern (visitor_of e action callback) i p s)"
    and a: "v_action (visitor_of e action callback) j (Some x) s = (True, s')"
  show "\<not> fst (v_pattern (visitor_of e action callback) k r s')"
  proof (cases "action = act_Count")
    case True
    obtain q cb where q: "s = (q, cb)" by (cases s)
    let ?n = "m_match_count q"
    have "match_value e act_Count j x q = (?n + 1 < m_limit q, q\<lparr>m_state := to_int64 (int (?n + 1)), m_match_count := ?n + 1\<rparr>)"
      by (rule count_step) (use s q True in \<open>auto simp: good_state_def\<close>)
    then show ?thesis using a no True q unfolding visitor_simps
      by (auto simp: find_action_def find_action_pattern_def match_optional_def match_pattern_def Let_def split: if_splits)
  next
    case False
    then show ?thesis unfolding visitor_simps by (simp add: find_action_pattern_def match_pattern_def Let_def)
  qed
qed

section \<open>The search\<close>

text \<open>A leaf of the library: a width of its format, bounds that are those of the width, and a size the
  header can hold.\<close>

definition leaf_ok :: "leaf \<Rightarrow> bool" where
  "leaf_ok arr \<longleftrightarrow> (packed (m_width arr) \<or> m_width arr = 0) \<and> m_size arr < npos \<and>
     (\<forall>v. fits (m_width arr) v \<longleftrightarrow> m_lbound arr \<le> v \<and> v \<le> m_ubound arr)"

abbreviation element :: "leaf \<Rightarrow> nat \<Rightarrow> int" where
  "element arr \<equiv> leaf_get (m_width arr) arr"

lemma element_bounds: "leaf_ok arr \<Longrightarrow> m_lbound arr \<le> element arr k \<and> element arr k \<le> m_ubound arr"
  using fits_get_direct [of "m_width arr" "m_data arr" k] by (simp add: leaf_ok_def)

lemma width_0_bounds: "leaf_ok arr \<Longrightarrow> m_width arr = 0 \<Longrightarrow> m_lbound arr = 0 \<and> m_ubound arr = 0"
proof -
  assume arr: "leaf_ok arr" "m_width arr = 0"
  then have "v = 0 \<longleftrightarrow> m_lbound arr \<le> v \<and> v \<le> m_ubound arr" for v
    by (auto simp: leaf_ok_def fits_def decode_def)
  then show ?thesis by (metis order_refl order_trans order_antisym)
qed

lemma tempex_width: "leaf_ok arr \<Longrightarrow> tempex (m_width arr) = m_width arr"
  by (auto simp: leaf_ok_def packed_def tempex_def widths_def)

lemma first_items_visit:
  "j \<le> m_size arr \<Longrightarrow> first_items k vis arr c w v j base i s =
     Some (visit vis (matches base (leaf_get w arr) (\<lambda>x. cond_holds c x v) i (min j (i + k))) s)"
proof (induction k arbitrary: i s)
  case (Suc k)
  let ?test = "\<lambda>x. cond_holds c x v"
  have IH: "first_items k vis arr c w v j base (i + 1) =
      (\<lambda>s. Some (visit vis (matches base (leaf_get w arr) ?test (i + 1) (min j (i + 1 + k))) s))"
    by (rule ext) (rule Suc.IH [OF Suc.prems])
  show ?case
  proof (cases "i < j")
    case True
    have "matches base (leaf_get w arr) ?test i (min j (i + Suc k)) =
        (if ?test (leaf_get w arr i) then [(row_index i base, leaf_get w arr i)] else []) @
        matches base (leaf_get w arr) ?test (i + 1) (min j (i + 1 + k))"
      using matches_rec [of i "min j (i + Suc k)"] True by simp
    then show ?thesis using True Suc.prems unfolding first_items.simps IH
      by (simp add: act_visit del: visit.simps cond_holds_simps)
  next
    case False
    then show ?thesis unfolding first_items.simps IH by simp
  qed
qed simp

text \<open>The limit only cuts off what the visitor would not have looked at.\<close>

lemma visit_limit:
  assumes a: "action \<in> {act_ReturnFirst, act_FindAll}" and s: "good_state e action s"
    and n: "m_limit (fst s) - m_match_count (fst s) \<le> length xs"
  shows "visit (visitor_of e action callback) (xs @ ys) s = visit (visitor_of e action callback) xs s"
  using s n
proof (induction xs arbitrary: s)
  case Nil
  then show ?case by (simp add: good_state_def)
next
  case (Cons x xs)
  obtain go s1 where r: "find_action e action callback (fst x) (Some (snd x)) s = (go, s1)" by (rule prod.exhaust)
  show ?case
  proof (cases go)
    case True
    have g: "good_state e action s1" using find_action_good [OF Cons.prems(1)] r True by simp
    have "m_limit (fst s1) = m_limit (fst s)" "m_match_count (fst s1) = m_match_count (fst s) + 1"
      using r a True by (cases s; auto simp: find_action_def match_optional_def match_value_def below_limit_def Let_def)+
    then have "m_limit (fst s1) - m_match_count (fst s1) \<le> length xs" using Cons.prems(2) by simp
    from Cons.IH [OF g this] show ?thesis using r True by (simp add: visitor_simps)
  qed (simp add: visitor_simps r)
qed

lemma all_match_visit:
  assumes a: "action \<in> {act_ReturnFirst, act_FindAll, act_CallbackIdx}" and s: "good_state e action s"
    and all: "\<And>k. i \<le> k \<Longrightarrow> k < j \<Longrightarrow> test (leaf_get w arr k)"
  shows "all_match e action callback arr w i j base s =
    Some (visit (visitor_of e action callback) (matches base (leaf_get w arr) test i j) s)"
proof -
  have m: "matches base (leaf_get w arr) (\<lambda>_. True) a b = matches base (leaf_get w arr) test a b" if "i \<le> a" "b \<le> j" for a b
    by (rule matches_cong) (use all that in auto)
  define process where "process = to_size (int (m_limit (fst s)) - int (m_match_count (fst s)))"
  have p: "process = m_limit (fst s) - m_match_count (fst s)"
  proof -
    have "(int (m_limit (fst s)) - int (m_match_count (fst s))) mod 2 ^ 64 = int (m_limit (fst s)) - int (m_match_count (fst s))"
      using s by (intro mod_pos_pos_trivial) (auto simp: good_state_def)
    then show ?thesis by (simp add: process_def to_size_def)
  qed
  show ?thesis
  proof (cases "action = act_CallbackIdx \<or> j - i \<le> process")
    case True
    then show ?thesis using a m [of i j] by (auto simp: all_match_def Let_def process_def [symmetric] scan_visit)
  next
    case False
    then have cut: "i + process \<le> j" by linarith
    have len: "length (matches base (leaf_get w arr) test i (i + process)) = process"
      unfolding matches_length using all cut by (simp add: filter_True)
    have "matches base (leaf_get w arr) test i j =
        matches base (leaf_get w arr) test i (i + process) @ matches base (leaf_get w arr) test (i + process) j"
      using cut by (intro matches_append) simp_all
    then have "visit (visitor_of e action callback) (matches base (leaf_get w arr) test i j) s =
        visit (visitor_of e action callback) (matches base (leaf_get w arr) test i (i + process)) s"
      using visit_limit [OF _ s] a False len p by simp
    then show ?thesis using a False m [of i "i + process"] cut
      by (auto simp: all_match_def Let_def process_def [symmetric] scan_visit)
  qed
qed

lemma find_rest_cases:
  assumes arr: "leaf_ok arr" and e: "ext_ok e" and j: "j \<le> m_size arr" and s: "good_state e action s"
  shows "find_rest e action callback arr c (m_width arr) v i j base s =
    (if i < j \<and> will_match c v (m_lbound arr) (m_ubound arr) \<and> can_match c v (m_lbound arr) (m_ubound arr)
     then all_match e action callback arr (m_width arr) i j base s
     else Some (visit (visitor_of e action callback) (matches base (element arr) (\<lambda>x. cond_holds c x v) i j) s))"
proof -
  let ?vis = "visitor_of e action callback" and ?m = "matches base (element arr) (\<lambda>x. cond_holds c x v)"
  have bounds: "m_lbound arr \<le> element arr k" "element arr k \<le> m_ubound arr" for k using element_bounds [OF arr] by auto
  have npos: "j \<noteq> npos" using arr j by (auto simp: leaf_ok_def)
  consider "j \<le> i" | "i < j" "\<not> can_match c v (m_lbound arr) (m_ubound arr)"
    | "i < j" "can_match c v (m_lbound arr) (m_ubound arr)" "will_match c v (m_lbound arr) (m_ubound arr)"
    | "i < j" "can_match c v (m_lbound arr) (m_ubound arr)" "\<not> will_match c v (m_lbound arr) (m_ubound arr)"
    by linarith
  then show ?thesis
  proof cases
    case 1
    then show ?thesis by (simp add: find_rest_def)
  next
    case 2
    have "?m i j = []" using can_match_sound [OF bounds] 2(2) by (intro matches_none) blast
    then show ?thesis using 2 by (simp add: find_rest_def Let_def)
  next
    case 3
    then show ?thesis using j npos by (simp add: find_rest_def Let_def)
  next
    case 4
    have w: "m_width arr \<noteq> 0"
    proof
      assume "m_width arr = 0"
      from width_0_bounds [OF arr this] show False using 4(2,3) by (cases c) (auto simp: can_match_def will_match_def)
    qed
    then have pk: "packed (m_width arr)" using arr by (simp add: leaf_ok_def)
    have "fits (m_width arr) v \<or> c = Greater \<or> c = Less"
      using 4 arr by (cases c) (auto simp: can_match_def will_match_def leaf_ok_def)
    from leaf_search.compare_visit [OF pk e this _ j s, of i] 4(1)
    have "compare e ?vis arr c (m_width arr) v i j base s = Some (visit ?vis (?m i j) s)" by simp
    then show ?thesis using 4 j w npos by (simp add: find_rest_def Let_def)
  qed
qed

lemma find_rest_visit:
  assumes "leaf_ok arr" "ext_ok e" "j \<le> m_size arr" "good_state e action s"
    and "action \<in> {act_ReturnFirst, act_FindAll, act_CallbackIdx} \<or> \<not> will_match c v (m_lbound arr) (m_ubound arr)"
  shows "find_rest e action callback arr c (m_width arr) v i j base s =
    Some (visit (visitor_of e action callback) (matches base (element arr) (\<lambda>x. cond_holds c x v) i j) s)"
proof (cases "will_match c v (m_lbound arr) (m_ubound arr)")
  case True
  have "cond_holds c (element arr k) v" for k
    using will_match_sound [OF _ _ True] element_bounds [OF assms(1)] by blast
  then have "all_match e action callback arr (m_width arr) i j base s =
      Some (visit (visitor_of e action callback) (matches base (element arr) (\<lambda>x. cond_holds c x v) i j) s)"
    using assms(5) True by (intro all_match_visit [OF _ assms(4)]) blast+
  then show ?thesis by (simp add: find_rest_cases [OF assms(1-4)])
qed (simp add: find_rest_cases [OF assms(1-4)])

lemma first_four: "i \<le> j \<Longrightarrow> matches base get test i j = matches base get test i (min j (i + 4)) @ matches base get test (i + 4) j"
  using matches_append [of i "i + 4" j base get test] by (cases "i + 4 \<le> j") simp_all

lemma find_from_visit:
  assumes arr: "leaf_ok arr" and e: "ext_ok e" and j: "i \<le> j" "j \<le> m_size arr" and s: "good_state e action s"
    and a: "action \<in> {act_ReturnFirst, act_FindAll, act_CallbackIdx} \<or> \<not> will_match c v (m_lbound arr) (m_ubound arr)"
  shows "find_from e action callback arr c (m_width arr) v i j base s =
    Some (visit (visitor_of e action callback) (matches base (element arr) (\<lambda>x. cond_holds c x v) i j) s)"
proof (cases "0 < i")
  case False
  then show ?thesis by (simp add: find_from_def find_rest_visit [OF arr e j(2) s a])
next
  case True
  then show ?thesis unfolding find_from_def first_four [OF j(1)]
    by (simp del: unless_stopped_visit, intro visit_chunks [OF first_items_visit [OF j(2)] _ leaf_search.visitor_laws_axioms s]
      find_rest_visit [OF arr e j(2) _ a])
qed

end
