(* ===== verification/ArrayLeafLaws.thy ===== *)
theory ArrayLeafLaws imports ArraySearchLaws begin

text \<open>
  The entry points of the leaf search: \<open>find\<close> over plain and nullable leaves, \<open>find_first\<close>, and the
  comparison of two leaves.
\<close>

section \<open>Plain leaves\<close>

definition range_end :: "leaf \<Rightarrow> nat \<Rightarrow> nat" where
  "range_end arr j = (if j = npos then m_size arr else j)"

lemma find_leaf_plain:
  assumes "leaf_ok arr"
  shows "find_leaf e action callback arr c v i j base False False s =
    find_from e action callback arr c (m_width arr) v i (range_end arr j) base s"
  by (simp add: find_leaf_def find_optimized_def tempex_width [OF assms] range_end_def Let_def)

lemma find_leaf_visit:
  assumes "leaf_ok arr" "ext_ok e" "i \<le> range_end arr j" "range_end arr j \<le> m_size arr" "good_state e action s"
    and "action \<in> {act_ReturnFirst, act_FindAll, act_CallbackIdx} \<or> \<not> will_match c v (m_lbound arr) (m_ubound arr)"
  shows "find_leaf e action callback arr c v i j base False False s =
    Some (visit (visitor_of e action callback)
      (matches base (element arr) (\<lambda>x. cond_holds c x v) i (range_end arr j)) s)"
  unfolding find_leaf_plain [OF assms(1)] by (rule find_from_visit [OF assms])

lemma visit_first:
  "visit (visitor_of e act_ReturnFirst callback) xs (q, cb) =
     (case xs of
        [] \<Rightarrow> (True, q, cb)
      | x # _ \<Rightarrow> (False, q\<lparr>m_match_count := m_match_count q + 1, m_state := to_int64 (int (fst x))\<rparr>, cb))"
  by (cases xs)
    (simp_all add: visitor_simps find_action_def match_optional_def match_value_def Let_def)

lemma find_first_visit:
  assumes arr: "leaf_ok arr" and e: "ext_ok e" and r: "i \<le> j" "j \<le> m_size arr \<or> j = npos" "i \<le> m_size arr"
  shows "find_first e arr c v i j =
    Some (case filter (\<lambda>k. cond_holds c (element arr k) v) [i..<range_end arr j] of [] \<Rightarrow> npos | k # _ \<Rightarrow> k)"
proof -
  let ?q = "init_state act_ReturnFirst () 1 0" and ?ks = "filter (\<lambda>k. cond_holds c (element arr k) v) [i..<range_end arr j]"
  have re: "i \<le> range_end arr j" "range_end arr j \<le> m_size arr" using r by (auto simp: range_end_def)
  have size: "m_size arr < 2 ^ 64" using arr by (simp add: leaf_ok_def npos_def)
  have g: "good_state e act_ReturnFirst (?q, ())" using e by (simp add: good_state_def init_state_def)
  have init: "to_size (m_state ?q) = npos"
    by (simp only: init_state_def query_state.simps action.case to_size_int64) (simp add: npos_def)
  have key: "k mod 2 ^ 64 = k" if "k \<in> set ?ks" for k using that re size by auto
  have "find_leaf e act_ReturnFirst (\<lambda>_ cb. (True, cb)) arr c v i j 0 False False (?q, ()) =
      Some (visit (visitor_of e act_ReturnFirst (\<lambda>_ cb. (True, cb)))
        (matches 0 (element arr) (\<lambda>x. cond_holds c x v) i (range_end arr j)) (?q, ()))"
    by (rule find_leaf_visit [OF arr e re g]) simp
  moreover have "(\<not> (i \<le> m_size arr \<and> (j \<le> m_size arr \<or> j = npos) \<and> i \<le> j)) = False" using r by simp
  ultimately have "find_first e arr c v i j =
      Some (to_size (m_state (fst (snd (visit (visitor_of e act_ReturnFirst (\<lambda>_ cb. (True, cb)))
        (matches 0 (element arr) (\<lambda>x. cond_holds c x v) i (range_end arr j)) (?q, ()))))))"
    by (simp add: find_first_def del: init_state_def)
  also have "\<dots> = Some (case ?ks of [] \<Rightarrow> npos | k # _ \<Rightarrow> k)"
    using init key [of "hd ?ks"]
    by (cases ?ks) (simp_all add: matches_def visit_first row_index_def to_size_int64 del: visit.simps)
  finally show ?thesis .
qed

section \<open>Nullable leaves\<close>

text \<open>A nullable leaf keeps the value that stands for null in its first element; row \<open>k\<close> is element \<open>k + 1\<close>.
  The visitor is handed no value for a null, except by the search for equal elements, which hands it the
  value that stands for null.\<close>

primrec visit_optional :: "'s visitor \<Rightarrow> (nat \<times> int option) list \<Rightarrow> 's \<Rightarrow> bool \<times> 's" where
  "visit_optional vis [] s = (True, s)"
| "visit_optional vis (x # xs) s =
     (let r = v_action vis (fst x) (snd x) s in if fst r then visit_optional vis xs (snd r) else r)"

definition nullable_rows :: "leaf \<Rightarrow> condition \<Rightarrow> int \<Rightarrow> bool \<Rightarrow> nat \<Rightarrow> nat \<Rightarrow> nat list" where
  "nullable_rows arr c v find_null i j =
     filter (\<lambda>k. cond_nulls c (element arr (k + 1)) v (element arr (k + 1) = element arr 0) find_null) [i..<j]"

definition nullable_value :: "leaf \<Rightarrow> condition \<Rightarrow> nat \<Rightarrow> int option" where
  "nullable_value arr c k =
     (if element arr (k + 1) = element arr 0 \<and> c \<noteq> Equal then None else Some (element arr (k + 1)))"

lemma visit_as_optional: "visit vis xs s = visit_optional vis (map (\<lambda>x. (fst x, Some (snd x))) xs) s"
  by (induction xs arbitrary: s) (simp_all add: Let_def)

lemma find_nullable_visit:
  "find_nullable vis arr c (m_width arr) v find_null (element arr 0) i j base s =
     Some (visit_optional vis
       (map (\<lambda>k. (row_index k base, if element arr (k + 1) = element arr 0 then None else Some (element arr (k + 1))))
         (nullable_rows arr c v find_null i j)) s)"
proof -
  define f where "f = (\<lambda>k. (row_index k base, if element arr (k + 1) = element arr 0 then None else Some (element arr (k + 1))))"
  define hit where "hit = (\<lambda>k. cond_nulls c (element arr (k + 1)) v (element arr (k + 1) = element arr 0) find_null)"
  have step: "find_nullable vis arr c (m_width arr) v find_null (element arr 0) i j base s =
      unless_stopped (if hit i then Some (v_action vis (fst (f i)) (snd (f i)) s) else Some (True, s))
        (find_nullable vis arr c (m_width arr) v find_null (element arr 0) (i + 1) j base)" if "i < j" for i s
    using that by (subst find_nullable.simps) (simp only: if_True Let_def f_def hit_def fst_conv snd_conv)
  have "find_nullable vis arr c (m_width arr) v find_null (element arr 0) i j base s =
      Some (visit_optional vis (map f (filter hit [i..<j])) s)"
  proof (induction "j - i" arbitrary: i s)
    case 0
    then show ?case by (subst find_nullable.simps) simp
  next
    case (Suc n)
    then have ij: "i < j" by simp
    have IH: "find_nullable vis arr c (m_width arr) v find_null (element arr 0) (i + 1) j base s =
        Some (visit_optional vis (map f (filter hit [i + 1..<j])) s)" for s
      using Suc.hyps(1) [of "i + 1" s] Suc.hyps(2) by simp
    show ?case unfolding step [OF ij] upt_conv_Cons [OF ij]
      by (cases "v_action vis (fst (f i)) (snd (f i)) s") (auto simp: unless_stopped_def IH [simplified] Let_def)
  qed
  then show ?thesis by (simp only: f_def hit_def nullable_rows_def)
qed

lemma row_index_shift: "row_index (k + 1) (to_size (int base - 1)) = row_index k base"
proof -
  have "int (k + 1 + to_size (int base - 1)) = int k + 1 + (int base - 1) mod 2 ^ 64" by (simp add: to_size_def)
  then have "int (k + 1 + to_size (int base - 1)) mod 2 ^ 64 = (int k + 1 + (int base - 1)) mod 2 ^ 64"
    by (simp only: mod_add_right_eq)
  also have "\<dots> = int (k + base) mod 2 ^ 64" by simp
  finally have "int ((k + 1 + to_size (int base - 1)) mod 2 ^ 64) = int ((k + base) mod 2 ^ 64)"
    by (simp only: of_nat_mod of_nat_power of_nat_numeral)
  then show ?thesis by (simp only: row_index_def of_nat_eq_iff)
qed

definition nullable_end :: "leaf \<Rightarrow> nat \<Rightarrow> nat" where
  "nullable_end arr j = (if j = npos then m_size arr - 1 else j)"

lemma shifted_matches:
  "map (\<lambda>x. (fst x, Some (snd x))) (matches (to_size (int base - 1)) get test (i + 1) (j + 1)) =
   map (\<lambda>k. (row_index k base, Some (get (k + 1)))) (filter (\<lambda>k. test (get (k + 1))) [i..<j])"
proof -
  have "[i + 1..<j + 1] = map (\<lambda>k. k + 1) [i..<j]" by (simp add: map_Suc_upt)
  then show ?thesis by (simp add: matches_def filter_map comp_def row_index_shift [simplified])
qed

lemma find_leaf_nullable:
  assumes arr: "leaf_ok arr" and e: "ext_ok e" and s: "good_state e action s"
    and size: "0 < m_size arr" and r: "i \<le> nullable_end arr j" "nullable_end arr j < m_size arr"
    and a: "action \<in> {act_ReturnFirst, act_FindAll, act_CallbackIdx} \<or> m_width arr \<noteq> 0"
  shows "find_leaf e action callback arr c v i j base True find_null s =
    Some (visit_optional (visitor_of e action callback)
      (map (\<lambda>k. (row_index k base, nullable_value arr c k)) (nullable_rows arr c v find_null i (nullable_end arr j))) s)"
proof -
  let ?j = "nullable_end arr j"
  have end1: "(if j = npos then to_size (int (m_size arr) - 1) else j) = ?j"
  proof -
    have "to_size (int (m_size arr) - 1) = m_size arr - 1"
      using size arr by (simp add: to_size_def leaf_ok_def npos_def nat_diff_distrib)
    then show ?thesis by (simp add: nullable_end_def)
  qed
  show ?thesis
  proof (cases "c = Equal")
    case False
    then have "nullable_value arr c = (\<lambda>k. if element arr (k + 1) = element arr 0 then None else Some (element arr (k + 1)))"
      by (simp add: nullable_value_def fun_eq_iff)
    with False end1 show ?thesis
      by (simp only: find_leaf_def find_optimized_def Let_def tempex_width [OF arr] find_nullable_visit if_True if_False simp_thms)
  next
    case True
    let ?v = "if find_null then element arr 0 else v"
    have w: "action \<in> {act_ReturnFirst, act_FindAll, act_CallbackIdx} \<or> \<not> will_match Equal ?v (m_lbound arr) (m_ubound arr)"
    proof (rule disjE [OF a])
      assume "m_width arr \<noteq> 0"
      then have "packed (m_width arr)" using arr by (simp add: leaf_ok_def)
      then have "fits (m_width arr) 1 \<or> fits (m_width arr) (- 1)" by (auto simp: packed_def fits_iff)
      then have "\<not> (m_lbound arr = 0 \<and> m_ubound arr = 0)" using arr by (auto simp: leaf_ok_def)
      then show ?thesis by (auto simp: will_match_def)
    qed simp
    have find: "find_from e action callback arr Equal (m_width arr) ?v (i + 1) (?j + 1) (to_size (int base - 1)) s =
        Some (visit_optional (visitor_of e action callback)
          (map (\<lambda>k. (row_index k base, Some (element arr (k + 1)))) (filter (\<lambda>k. element arr (k + 1) = ?v) [i..<?j])) s)"
      using find_from_visit [OF arr e _ _ s w, of "i + 1" "?j + 1"] r
      by (simp only: visit_as_optional shifted_matches cond_holds_simps)
    have opt: "find_leaf e action callback arr c v i j base True find_null s =
        (if \<not> find_null \<and> v = element arr 0 then Some (True, s)
         else find_from e action callback arr Equal (m_width arr) ?v (i + 1) (?j + 1) (to_size (int base - 1)) s)"
      by (simp only: find_leaf_def find_optimized_def Let_def tempex_width [OF arr] True if_True if_False simp_thms end1)
    have val: "nullable_value arr c = (\<lambda>k. Some (element arr (k + 1)))"
      using True by (simp add: nullable_value_def fun_eq_iff)
    show ?thesis
    proof (cases "\<not> find_null \<and> v = element arr 0")
      case stop: True
      then have "nullable_rows arr c v find_null i ?j = []"
        using True by (auto simp: nullable_rows_def cond_nulls_def filter_empty_conv)
      then show ?thesis unfolding opt using stop by simp
    next
      case go: False
      have "nullable_rows arr c v find_null i ?j = filter (\<lambda>k. element arr (k + 1) = ?v) [i..<?j]"
        unfolding nullable_rows_def by (rule filter_cong) (use True go in \<open>auto simp: cond_nulls_def\<close>)
      then show ?thesis using go by (simp only: opt if_False find val)
    qed
  qed
qed

section \<open>Two leaves\<close>

definition leaf_matches :: "leaf \<Rightarrow> leaf \<Rightarrow> condition \<Rightarrow> nat \<Rightarrow> nat \<Rightarrow> nat \<Rightarrow> (nat \<times> int) list" where
  "leaf_matches arr foreign c base i j =
     map (\<lambda>k. (row_index k base, element arr k)) (filter (\<lambda>k. cond_holds c (element arr k) (element foreign k)) [i..<j])"

lemma leaf_matches_rec:
  "i < j \<Longrightarrow> leaf_matches arr foreign c base i j =
     (if cond_holds c (element arr i) (element foreign i) then [(row_index i base, element arr i)] else []) @
     leaf_matches arr foreign c base (i + 1) j"
  by (simp add: leaf_matches_def upt_conv_Cons)

lemma compare_item_visit:
  "compare_item vis arr foreign c base i s =
     Some (visit vis (if cond_holds c (element arr i) (element foreign i) then [(row_index i base, element arr i)] else []) s)"
  by (simp add: compare_item_def Let_def act_visit del: visit.simps) simp

lemma compare_loop_visit:
  "compare_loop vis base (element arr) (element foreign) c i j s = Some (visit vis (leaf_matches arr foreign c base i j) s)"
proof (induction "j - i" arbitrary: i s)
  case 0
  then show ?case by (subst compare_loop.simps) (simp add: leaf_matches_def)
next
  case (Suc n)
  then have ij: "i < j" by simp
  have IH: "compare_loop vis base (element arr) (element foreign) c (i + 1) j =
      (\<lambda>s. Some (visit vis (leaf_matches arr foreign c base (i + 1) j) s))"
    by (rule ext) (use Suc.hyps(1) [of "i + 1"] Suc.hyps(2) in simp)
  have "compare_loop vis base (element arr) (element foreign) c i j s =
      unless_stopped (compare_item vis arr foreign c base i s) (compare_loop vis base (element arr) (element foreign) c (i + 1) j)"
    using ij by (subst compare_loop.simps) (simp add: compare_item_def Let_def)
  then show ?case unfolding compare_item_visit IH unless_stopped_visit leaf_matches_rec [OF ij] .
qed

lemma compare_leafs_4_visit:
  assumes "leaf_ok arr" "leaf_ok foreign"
  shows "compare_leafs_4 vis arr foreign c (tempex (m_width arr)) (tempex (m_width foreign)) i j base s =
    Some (visit vis (leaf_matches arr foreign c base i j) s)"
proof (cases "m_width arr = 0 \<and> m_width foreign = 0")
  case True
  then have "element arr = (\<lambda>_. 0)" "element foreign = (\<lambda>_. 0)" by (auto simp: get_direct_def)
  then show ?thesis using True
    by (simp add: compare_leafs_4_def tempex_def widths_def leaf_matches_def scan_visit matches_def)
next
  case False
  then show ?thesis
    by (simp only: compare_leafs_4_def tempex_width [OF assms(1)] tempex_width [OF assms(2)] if_False compare_loop_visit)
qed

lemma compare_leafs_visit:
  assumes ok: "leaf_ok arr" "leaf_ok foreign" and ij: "i \<le> j"
  shows "compare_leafs vis arr foreign c i j base s = Some (visit vis (leaf_matches arr foreign c base i j) s)"
proof -
  have rest: "compare_leafs_4 vis arr foreign c (tempex (m_width arr)) (tempex (m_width foreign)) k j base =
      (\<lambda>s. Some (visit vis (leaf_matches arr foreign c base k j) s))" for k
    by (rule ext) (rule compare_leafs_4_visit [OF ok])
  note rec = leaf_matches_rec [of _ j arr foreign c base]
  consider "i = j" | "i + 1 = j" | "i + 1 < j" "\<not> i + 1 + 3 < j" | "i + 1 + 3 < j" using ij by linarith
  then show ?thesis
  proof cases
    case 1
    then show ?thesis by (simp add: compare_leafs_def leaf_matches_def)
  next
    case 2
    then have "leaf_matches arr foreign c base (i + 1) j = []" by (simp add: leaf_matches_def)
    then show ?thesis using 2 rec [of i] unless_stopped_visit [of vis _ s "[]"]
      by (simp add: compare_leafs_def Let_def compare_item_visit del: unless_stopped_visit)
  next
    case 3
    then show ?thesis using rec [of i]
      by (simp add: compare_leafs_def Let_def compare_item_visit rest)
  next
    case 4
    have "leaf_matches arr foreign c base i j =
        (if cond_holds c (element arr i) (element foreign i) then [(row_index i base, element arr i)] else []) @
        (if cond_holds c (element arr (i + 1)) (element foreign (i + 1)) then [(row_index (i + 1) base, element arr (i + 1))] else []) @
        (if cond_holds c (element arr (i + 1 + 1)) (element foreign (i + 1 + 1)) then [(row_index (i + 1 + 1) base, element arr (i + 1 + 1))] else []) @
        (if cond_holds c (element arr (i + 1 + 2)) (element foreign (i + 1 + 2)) then [(row_index (i + 1 + 2) base, element arr (i + 1 + 2))] else []) @
        leaf_matches arr foreign c base (i + 1 + 3) j"
      using 4 rec [of i] rec [of "i + 1"] rec [of "i + 1 + 1"] rec [of "i + 1 + 2"] by (simp add: eval_nat_numeral)
    then show ?thesis using 4
      by (simp only: compare_leafs_def Let_def compare_item_visit rest unless_stopped_visit) simp
  qed
qed

end
