(* ===== verification/ArrayAccumulate.thy ===== *)
theory ArrayAccumulate imports ArrayLeafLaws begin

text \<open>
  What a search accumulates: the sum, the extremes or the number of the matches up to the limit, and for
  \<open>act_FindAll\<close> the rows of these matches.  The short cut for a leaf in which everything matches takes
  the sum or the extreme of a part of the leaf from a function the headers only declare.
\<close>

definition combine :: "action \<Rightarrow> int \<Rightarrow> int \<Rightarrow> int" where
  "combine action a v =
     (case action of
        act_Sum \<Rightarrow> to_int64 (a + v)
      | act_Max \<Rightarrow> max a v
      | act_Min \<Rightarrow> min a v
      | act_Count \<Rightarrow> to_int64 (a + 1)
      | _ \<Rightarrow> a)"

definition aggregates_ok :: "'col array_ext \<Rightarrow> bool" where
  "aggregates_ok e \<longleftrightarrow>
     (\<forall>get i j. i < j \<longrightarrow>
        leaf_sum e get i j = to_int64 (sum_list (map get [i..<j])) \<and>
        fst (leaf_maximum e get i j) = Max (get ` {i..<j}) \<and>
        fst (leaf_minimum e get i j) = Min (get ` {i..<j}))"

abbreviation (input) left :: "'col query_state \<times> 'cb \<Rightarrow> nat" where
  "left s \<equiv> m_limit (fst s) - m_match_count (fst s)"

text \<open>The accumulating actions: one match changes the state by \<open>combine\<close> and uses up one of the limit.\<close>

abbreviation accumulates :: "action \<Rightarrow> bool" where
  "accumulates action \<equiv> action \<in> {act_Sum, act_Max, act_Min, act_Count}"

lemma accumulate_step:
  assumes a: "accumulates action" and s: "good_state e action s"
    and r: "find_action e action callback i (Some x) s = (go, s1)"
  shows "go \<longleftrightarrow> m_match_count (fst s) + 1 < m_limit (fst s)" "m_match_count (fst s1) = m_match_count (fst s) + 1"
    "m_limit (fst s1) = m_limit (fst s)" "m_state (fst s1) = combine action (m_state (fst s)) x" "snd s1 = snd s"
proof -
  obtain q cb where q: "s = (q, cb)" by (cases s)
  have c: "match_value e act_Count i x q =
      (m_match_count q + 1 < m_limit q,
       q\<lparr>m_state := to_int64 (m_state q + 1), m_match_count := m_match_count q + 1\<rparr>)" if "action = act_Count"
  proof -
    have "m_state q = to_int64 (int (m_match_count q))" using s q that by (simp add: good_state_def)
    then show ?thesis
      using count_step [of q "m_match_count q" e i x] s q to_int64_add [of "int (m_match_count q)" 1]
      by (simp add: good_state_def add.commute)
  qed
  show "go \<longleftrightarrow> m_match_count (fst s) + 1 < m_limit (fst s)" "m_match_count (fst s1) = m_match_count (fst s) + 1"
    "m_limit (fst s1) = m_limit (fst s)" "m_state (fst s1) = combine action (m_state (fst s)) x" "snd s1 = snd s"
    using a r q c
    by (auto simp: find_action_def match_optional_def match_value_def below_limit_def combine_def Let_def
        split: if_splits)
qed

lemma visit_state:
  assumes "accumulates action" "good_state e action s"
  shows "m_state (fst (snd (visit (visitor_of e action callback) xs s))) =
    foldl (combine action) (m_state (fst s)) (map snd (take (left s) xs))"
  using assms(2)
proof (induction xs arbitrary: s)
  case (Cons x xs)
  obtain go s1 where r: "find_action e action callback (fst x) (Some (snd x)) s = (go, s1)" by (rule prod.exhaust)
  note st = accumulate_step [OF assms(1) Cons.prems r]
  have lim: "left s = Suc (left s1)" using Cons.prems st(2,3) by (auto simp: good_state_def)
  show ?case
  proof (cases go)
    case True
    have "good_state e action s1" using find_action_good [OF Cons.prems] r True by simp
    then show ?thesis using True r Cons.IH lim st(4) by (simp add: visitor_simps)
  next
    case False
    then have "left s1 = 0" using st(1,2,3) by simp
    then show ?thesis using False r lim st(4) by (simp add: visitor_simps)
  qed
qed simp

text \<open>The accumulated value of a whole list.\<close>

lemma foldl_sum: "xs \<noteq> [] \<Longrightarrow> foldl (combine act_Sum) a xs = to_int64 (a + sum_list xs)"
proof (induction xs arbitrary: a)
  case (Cons x xs)
  then show ?case by (cases "xs = []") (simp_all add: combine_def to_int64_add add.assoc)
qed simp

lemma foldl_count: "xs \<noteq> [] \<Longrightarrow> foldl (combine act_Count) a xs = to_int64 (a + int (length xs))"
proof (induction xs arbitrary: a)
  case (Cons x xs)
  then show ?case by (cases "xs = []") (simp_all add: combine_def to_int64_add add.assoc)
qed simp

lemma foldl_extreme:
  "xs \<noteq> [] \<Longrightarrow> foldl (combine act_Max) a xs = max a (Max (set xs))"
  "xs \<noteq> [] \<Longrightarrow> foldl (combine act_Min) a xs = min a (Min (set xs))"
proof (induction xs arbitrary: a)
  case (Cons x xs)
  { case 1 then show ?case using Cons.IH(1) by (cases "xs = []") (simp_all add: combine_def max.assoc) }
  { case 2 then show ?case using Cons.IH(2) by (cases "xs = []") (simp_all add: combine_def min.assoc) }
qed simp_all

lemma all_match_state:
  assumes a: "accumulates action" and s: "good_state e action s" and g: "aggregates_ok e" and ij: "i < j"
  shows "\<exists>r. all_match e action callback arr w i j base s = Some r \<and>
    m_state (fst (snd r)) = foldl (combine action) (m_state (fst s)) (map (leaf_get w arr) (take (left s) [i..<j]))"
proof -
  obtain q cb where q: "s = (q, cb)" by (cases s)
  define n where "n = m_limit q - m_match_count q"
  have "(int (m_limit q) - int (m_match_count q)) mod 2 ^ 64 = int n"
    using s q by (intro trans [OF mod_pos_pos_trivial]) (auto simp: good_state_def n_def)
  then have p: "to_size (int (m_limit q) - int (m_match_count q)) = n" by (simp add: to_size_def)
  define k where "k = (if n < j - i then i + n else j)"
  have "0 < n" using s q by (simp add: good_state_def n_def)
  then have ik: "i < k" using ij by (simp add: k_def)
  have range: "take n [i..<j] = [i..<k]" using ij by (simp add: k_def)
  let ?xs = "map (leaf_get w arr) [i..<k]"
  have ne: "?xs \<noteq> []" using ik by simp
  have ext: "leaf_sum e (leaf_get w arr) i k = to_int64 (sum_list ?xs)"
    "fst (leaf_maximum e (leaf_get w arr) i k) = Max (set ?xs)" "fst (leaf_minimum e (leaf_get w arr) i k) = Min (set ?xs)"
    using g ik by (simp_all add: aggregates_ok_def)
  have wrap: "to_int64 (x + to_int64 y) = to_int64 (x + y)" for x y
    using to_int64_add [of y x] by (simp add: add.commute)
  have fold: "foldl (combine action) (m_state q) ?xs =
      (case action of
         act_Sum \<Rightarrow> to_int64 (m_state q + leaf_sum e (leaf_get w arr) i k)
       | act_Max \<Rightarrow> max (m_state q) (fst (leaf_maximum e (leaf_get w arr) i k))
       | act_Min \<Rightarrow> min (m_state q) (fst (leaf_minimum e (leaf_get w arr) i k))
       | _ \<Rightarrow> to_int64 (m_state q + int (k - i)))"
    using a foldl_sum [OF ne, of "m_state q"] foldl_extreme [OF ne, of "m_state q"] foldl_count [OF ne, of "m_state q"]
    by (auto simp: ext wrap)
  show ?thesis using a ij unfolding q fst_conv n_def [symmetric] range fold
    by (auto simp: all_match_def Let_def p k_def [symmetric] find_action_def match_optional_def match_value_def below_limit_def)
qed

lemma find_from_state:
  assumes arr: "leaf_ok arr" and e: "ext_ok e" "aggregates_ok e" and a: "accumulates action"
    and j: "i \<le> j" "j \<le> m_size arr" and s: "good_state e action s"
  shows "\<exists>r. find_from e action callback arr c (m_width arr) v i j base s = Some r \<and>
    m_state (fst (snd r)) =
      m_state (fst (snd (visit (visitor_of e action callback) (matches base (element arr) (\<lambda>x. cond_holds c x v) i j) s)))"
proof -
  let ?vis = "visitor_of e action callback" and ?m = "matches base (element arr) (\<lambda>x. cond_holds c x v)"
  have rest: "\<exists>r. find_rest e action callback arr c (m_width arr) v k j base s = Some r \<and>
      m_state (fst (snd r)) = m_state (fst (snd (visit ?vis (?m k j) s)))" if s: "good_state e action s" for k s
  proof (cases "k < j \<and> will_match c v (m_lbound arr) (m_ubound arr) \<and> can_match c v (m_lbound arr) (m_ubound arr)")
    case True
    have "cond_holds c (element arr k) v" for k
      using will_match_sound [of _ _ _ c v] element_bounds [OF arr] True by blast
    then have "map snd (take n (?m k j)) = map (element arr) (take n [k..<j])" for n
      by (simp add: matches_def take_map)
    with all_match_state [OF a s e(2), of k j callback arr "m_width arr" base] True show ?thesis
      by (simp only: find_rest_cases [OF arr e(1) j(2) s] visit_state [OF a s] if_True simp_thms)
  next
    case False
    then have "find_rest e action callback arr c (m_width arr) v k j base s = Some (visit ?vis (?m k j) s)"
      by (simp only: find_rest_cases [OF arr e(1) j(2) s] if_False simp_thms)
    then show ?thesis by blast
  qed
  show ?thesis
  proof (cases "0 < i")
    case False
    then show ?thesis using rest [OF s] by (simp add: find_from_def)
  next
    case True
    obtain go s1 where r: "visit ?vis (?m i (min j (i + 4))) s = (go, s1)" by (rule prod.exhaust)
    have "good_state e action s1" if go
      by (rule leaf_search.visit_inv [OF s]) (use r that in simp)
    then show ?thesis using True rest [of s1 "i + 4"] r unfolding first_four [OF j(1)]
      by (cases go) (simp_all add: find_from_def first_items_visit [OF j(2)] unless_stopped_def visit_append)
  qed
qed

section \<open>All matches\<close>

lemma visit_find_all:
  assumes "m_match_count q < m_limit q"
  shows "m_column (fst (snd (visit (visitor_of e act_FindAll callback) xs (q, cb)))) =
    foldl (add_to_column e) (m_column q) (map fst (take (m_limit q - m_match_count q) xs))"
  using assms
proof (induction xs arbitrary: q)
  case (Cons x xs)
  let ?q = "q\<lparr>m_match_count := m_match_count q + 1, m_column := add_to_column e (m_column q) (fst x)\<rparr>"
  have st: "find_action e act_FindAll callback (fst x) (Some (snd x)) (q, cb) = (m_match_count q + 1 < m_limit q, ?q, cb)"
    by (simp add: find_action_def match_optional_def match_value_def below_limit_def Let_def)
  have lim: "m_limit q - m_match_count q = Suc (m_limit ?q - m_match_count ?q)" using Cons.prems by simp
  show ?case
  proof (cases "m_match_count q + 1 < m_limit q")
    case True
    then show ?thesis using Cons.IH [of ?q] lim by (simp add: visitor_simps st)
  next
    case False
    then have "m_limit ?q - m_match_count ?q = 0" by simp
    then show ?thesis using False lim by (simp add: visitor_simps st)
  qed
qed simp

lemma visit_keeps_callback:
  "action \<noteq> act_CallbackIdx \<Longrightarrow> snd (snd (visit (visitor_of e action callback) xs s)) = snd s"
proof (induction xs arbitrary: s)
  case (Cons x xs)
  moreover have "snd (snd (find_action e action callback (fst x) (Some (snd x)) s)) = snd s"
    using Cons.prems by (simp add: find_action_def Let_def)
  ultimately show ?case by (simp add: visitor_simps Let_def)
qed simp

end
