(* ===== verification/ArraySpec.thy ===== *)
theory ArraySpec imports ArrayAccumulate ArrayHeader begin

text \<open>
  The properties of array leaves: direct access to packed elements, binary search, the node header, and
  the search over a leaf with its accumulator.  The witnesses run on small leaves of 8 bits an element.
\<close>

section \<open>Concrete leaves\<close>

definition sample_ext :: "nat list array_ext" where
  "sample_ext =
     \<lparr>popcount64 = \<lambda>v. int (length (set_bits v)),
      first_set_bit64 = \<lambda>v. hd (set_bits v),
      round_up = \<lambda>p align. (p + align - 1) div align * align,
      add_to_column = \<lambda>col i. col @ [i],
      leaf_sum = \<lambda>get i j. to_int64 (sum_list (map get [i..<j])),
      leaf_maximum = \<lambda>get i j. (Max (get ` {i..<j}), 0),
      leaf_minimum = \<lambda>get i j. (Min (get ` {i..<j}), 0),
      overlong_shift = \<lambda>v. v\<rparr>"

definition sample_first_ext :: "unit array_ext" where
  "sample_first_ext =
     \<lparr>popcount64 = \<lambda>v. int (length (set_bits v)),
      first_set_bit64 = \<lambda>v. hd (set_bits v),
      round_up = \<lambda>p align. (p + align - 1) div align * align,
      add_to_column = \<lambda>col i. col,
      leaf_sum = \<lambda>get i j. to_int64 (sum_list (map get [i..<j])),
      leaf_maximum = \<lambda>get i j. (Max (get ` {i..<j}), 0),
      leaf_minimum = \<lambda>get i j. (Min (get ` {i..<j}), 0),
      overlong_shift = \<lambda>v. v\<rparr>"

lemma sample_ext_ok: "ext_ok sample_ext" "aggregates_ok sample_ext" "ext_ok sample_first_ext"
  by (simp_all add: ext_ok_def aggregates_ok_def sample_ext_def sample_first_ext_def)

text \<open>Twelve elements; the value 7 occurs at 2, 5 and 11.\<close>

definition sample_bytes :: "8 word list" where
  "sample_bytes = [7, 3, 7, 1, 9, 7, 4, 250, 2, 6, 8, 7]"

definition byte_leaf :: "8 word list \<Rightarrow> leaf" where
  "byte_leaf bs =
     \<lparr>m_data = \<lambda>i. if i < length bs then bs ! i else 0, m_size = length bs, m_width = 8,
      m_lbound = - 128, m_ubound = 127\<rparr>"

abbreviation sample_leaf :: leaf where
  "sample_leaf \<equiv> byte_leaf sample_bytes"

lemma byte_leaf_ok: "length bs < npos \<Longrightarrow> leaf_ok (byte_leaf bs)"
  by (auto simp: leaf_ok_def byte_leaf_def packed_def fits_iff)

lemma sample_leaf_ok: "leaf_ok sample_leaf"
  by (rule byte_leaf_ok) (simp add: sample_bytes_def npos_def)

lemma byte_leaf_size [simp]: "m_size (byte_leaf bs) = length bs" "m_width (byte_leaf bs) = 8"
  by (simp_all add: byte_leaf_def)

lemma byte_leaf_element: "k < length bs \<Longrightarrow> leaf_get 8 (byte_leaf bs) k = sint (bs ! k)"
  by (simp add: byte_leaf_def get_direct_def)

lemma byte_leaf_elements: "map (leaf_get 8 (byte_leaf bs)) [0..<length bs] = map sint bs"
  by (rule nth_equalityI) (simp_all add: byte_leaf_element)

lemma sample_elements:
  "leaf_get 8 sample_leaf 0 = 7" "leaf_get 8 sample_leaf 1 = 3" "leaf_get 8 sample_leaf (Suc 0) = 3"
  "leaf_get 8 sample_leaf (Suc (Suc 0)) = 7" "leaf_get 8 sample_leaf 2 = 7"
  "leaf_get 8 sample_leaf 3 = 1" "leaf_get 8 sample_leaf 4 = 9" "leaf_get 8 sample_leaf 5 = 7" "leaf_get 8 sample_leaf 6 = 4"
  "leaf_get 8 sample_leaf 7 = - 6" "leaf_get 8 sample_leaf 8 = 2" "leaf_get 8 sample_leaf 9 = 6"
  "leaf_get 8 sample_leaf 10 = 8" "leaf_get 8 sample_leaf 11 = 7"
  by (simp_all add: byte_leaf_element sample_bytes_def)

lemma sample_length: "length sample_bytes = 12"
  by (simp add: sample_bytes_def)

lemma sample_range:
  "[0..<12] = [0, 1, 2, 3, 4, 5, 6, 7, 8, 9, 10, 11 :: nat]" "[1..<12] = [1, 2, 3, 4, 5, 6, 7, 8, 9, 10, 11 :: nat]"
  "[2..<12] = [2, 3, 4, 5, 6, 7, 8, 9, 10, 11 :: nat]" "[0..<11] = [0, 1, 2, 3, 4, 5, 6, 7, 8, 9, 10 :: nat]"
  "[0..<6] = [0, 1, 2, 3, 4, 5 :: nat]"
  by (simp_all add: upt_rec)

definition no_callback :: "nat \<Rightarrow> unit \<Rightarrow> bool \<times> unit" where
  "no_callback i cb = (True, cb)"

section \<open>Packed elements\<close>

lemma element_int64: "packed w \<or> w = 0 \<Longrightarrow> to_int64 (int (to_size (get_direct w m i))) = get_direct w m i"
proof -
  assume w: "packed w \<or> w = 0"
  have "signed_take_bit 63 (get_direct w m i) = get_direct w m i"
  proof (cases "w = 0")
    case False
    with w have p: "packed w" by simp
    then have "fits w (get_direct w m i)" by (intro fits_get_direct) simp
    moreover have "(2 :: int) ^ (w - 1) \<le> 2 ^ 63" using p by (intro power_increasing) (auto simp: packed_def)
    moreover have "(2 :: int) ^ w \<le> 2 ^ 63" if "w < 8" using that by (intro power_increasing) simp_all
    ultimately have "- (2 ^ 63) \<le> get_direct w m i" "get_direct w m i < 2 ^ 63"
      using fits_iff [OF p, of "get_direct w m i"] by (simp_all split: if_splits)
    then show ?thesis by (simp add: signed_take_bit_int_eq_self)
  qed (simp add: get_direct_def)
  moreover have "int (to_size (get_direct w m i)) = take_bit 64 (get_direct w m i)"
    by (simp add: to_size_def take_bit_eq_mod)
  ultimately show ?thesis by (simp add: to_int64_def signed_take_bit_take_bit)
qed

text \<open>C25: Writing an element of a leaf and filling a range of it change exactly these elements: reading any
  element afterwards gives the written value cut to the width of the leaf (the low bits for widths below 8,
  two's complement otherwise) where it was written, and the old value elsewhere, also when neighbours share
  a byte.  Reading two neighbours at once and reading with the width as an argument give the same values.\<close>

theorem elements_roundtrip:
  assumes "packed w \<or> w = 0"
  shows "get_direct w (set_direct w m i v) j = (if j = i then decode w v else get_direct w m j) \<and>
    get_direct w (fill_direct w m i n v) j = (if i \<le> j \<and> j < n then decode w v else get_direct w m j) \<and>
    get_two_width m w i = (get_direct w m i, get_direct w m (i + 1)) \<and>
    get_direct_width m w i = get_direct w m i"
proof -
  have "tempex w = w" using assms by (auto simp: tempex_def widths_def packed_def)
  then show ?thesis
    using assms by (simp add: get_set_direct get_fill_direct get_two_width_def get_two_def get_direct_width_def element_int64)
qed

theorem elements_roundtrip_witness:
  "get_direct 4 (set_direct 4 (\<lambda>_. 0) 3 9) 3 = 9 \<and> get_direct 4 (set_direct 4 (\<lambda>_. 0) 3 9) 2 = 0"
  using elements_roundtrip [of 4 "\<lambda>_. 0" 3 9 3] elements_roundtrip [of 4 "\<lambda>_. 0" 3 9 2]
  by (simp add: packed_def decode_def get_direct_def take_bit_eq_mod)

text \<open>C26: The binary searches over a sorted leaf, with three probes a turn for long ranges, return what a
  scan from the front would: the lower bound is the number of elements below the value, the upper bound the
  number of elements up to it.\<close>

theorem binary_search_is_scan:
  assumes "sorted (map (get_direct w m) [0..<n])"
  shows "lower_bound w m n v = length (takeWhile (\<lambda>x. x < v) (map (get_direct w m) [0..<n])) \<and>
    upper_bound w m n v = length (takeWhile (\<lambda>x. x \<le> v) (map (get_direct w m) [0..<n]))"
  using lower_bound_elements [of w m n v] upper_bound_elements [of w m n v] assms by (simp add: elements_def)

theorem binary_search_is_scan_witness:
  "lower_bound 8 (m_data (byte_leaf [1, 3, 3, 3, 5, 8, 8, 9, 9])) 9 8 = 5 \<and>
   upper_bound 8 (m_data (byte_leaf [1, 3, 3, 3, 5, 8, 8, 9, 9])) 9 8 = 7"
proof -
  let ?bs = "[1, 3, 3, 3, 5, 8, 8, 9, 9] :: 8 word list"
  have len: "length ?bs = 9" by simp
  have "map (leaf_get 8 (byte_leaf ?bs)) [0..<9] = map sint ?bs" using byte_leaf_elements [of ?bs] unfolding len .
  then show ?thesis using binary_search_is_scan [of 8 "m_data (byte_leaf ?bs)" 9 8] by simp
qed

section \<open>Node headers\<close>

text \<open>C27: A header that was initialised reads back every field: the flags and the type they stand for, the
  way the width counts, the width, the size and, for a capacity that is a multiple of 8, the capacity.
  Initialising succeeds for every width of the format, every size up to the maximum and every capacity the
  three bytes can hold, and it leaves the payload alone.\<close>

theorem header_roundtrip:
  assumes "packed w \<or> w = 0" "wtype < 4" "sz \<le> max_array_size" "capacity \<le> 8 * 0xffffff" "8 dvd capacity"
  shows "\<exists>h'. init_header h is_inner has_refs flag wtype w sz capacity = Some h' \<and>
    get_type_from_header h' =
      (if is_inner then type_InnerBptreeNode else if has_refs then type_HasRefs else type_Normal) \<and>
    get_context_flag_from_header h' = flag \<and> get_wtype_from_header h' = wtype \<and>
    get_width_from_header h' = w \<and> get_size_from_header h' = sz \<and> get_capacity_from_header h' = capacity \<and>
    (\<forall>i. h' (header_size + i) = h (header_size + i))"
proof -
  obtain h' where h': "init_header h is_inner has_refs flag wtype w sz capacity = Some h'"
    using init_header_defined [OF assms(1,3), of capacity h is_inner has_refs flag wtype] assms(4)
    by (auto simp: push_bit_eq_mult)
  show ?thesis
    using init_header_fields [OF h' assms(2)] width_code [OF assms(1)] assms(5) h'
    by (simp add: get_type_from_header_def)
qed

theorem header_roundtrip_witness:
  "\<exists>h'. init_header (\<lambda>_. 0) False True False 0 16 1000 2048 = Some h' \<and>
    get_type_from_header h' = type_HasRefs \<and> get_width_from_header h' = 16 \<and> get_size_from_header h' = 1000 \<and>
    get_capacity_from_header h' = 2048"
  using header_roundtrip [of 16 0 1000 2048 "\<lambda>_. 0" False True False]
  by (auto simp: packed_def max_array_size_def)

text \<open>C28: The byte size of a node is a multiple of 8 that has room for the header and for all its elements,
  it never exceeds the maximum that is computed for their number alone, and the size computed from an
  initialised header is the size computed from the values it was initialised with.\<close>

theorem node_size_bounds:
  assumes "packed w \<or> w = 0" "sz \<le> max_array_size" "capacity \<le> 8 * 0xffffff"
  shows "\<exists>n. calc_byte_size wtype_Bits sz w = Some n \<and> 8 dvd n \<and>
    header_size * 8 + sz * w \<le> n * 8 \<and> n \<le> get_max_byte_size sz \<and>
    Option.bind (init_header h is_inner has_refs flag wtype_Bits w sz capacity) get_byte_size_from_header = Some n"
proof -
  obtain h' where h': "init_header h is_inner has_refs flag wtype_Bits w sz capacity = Some h'"
    using init_header_defined [OF assms(1,2), of capacity h is_inner has_refs flag wtype_Bits] assms(3)
    by (auto simp: push_bit_eq_mult)
  have w4: "wtype_Bits < 4" by (simp add: wtype_Bits_def)
  have sz: "sz < 0x1000000" using assms(2) by (simp add: max_array_size_def)
  then obtain n where n: "calc_byte_size wtype_Bits sz w = Some n" by (auto simp: calc_byte_size_def)
  have "get_byte_size_from_header h' = Some n"
    using init_header_fields [OF h' w4] width_code [OF assms(1)] n by (simp add: get_byte_size_from_header_def)
  then show ?thesis
    using calc_byte_size_bits [OF n] calc_byte_size_max [OF assms(1) n] n h' by auto
qed

theorem node_size_bounds_witness:
  "calc_byte_size wtype_Bits 5 4 = Some 16"
  using node_size_bounds [of 4 5 64 "\<lambda>_. 0" False False False]
  by (simp add: packed_def max_array_size_def) (simp add: calc_byte_size_def header_size_def drop_bit_eq_div)

section \<open>Searching a leaf\<close>

text \<open>C9: A search over a leaf hands its visitor exactly the matching elements of the range, in the order of
  the leaf and with their rows, until the visitor stops it, whatever bit tricks the width and the value
  allow; it reports whether the visitor wants to go on with the next leaf.  This is the contract of
  \<open>act_ReturnFirst\<close>, of \<open>act_FindAll\<close> and of a callback that is called with the rows.\<close>

theorem search_visits_matches:
  assumes "leaf_ok arr" "ext_ok e" "i \<le> range_end arr j" "range_end arr j \<le> m_size arr" "good_state e action s"
    and "action \<in> {act_ReturnFirst, act_FindAll, act_CallbackIdx}"
  shows "find_leaf e action callback arr c v i j base False False s =
    Some (visit (visitor_of e action callback)
      (map (\<lambda>k. (row_index k base, element arr k)) (filter (\<lambda>k. cond_holds c (element arr k) v) [i..<range_end arr j])) s)"
  by (rule find_leaf_visit [OF assms(1-5) disjI1 [OF assms(6)], unfolded matches_def])

theorem search_visits_matches_witness:
  "find_leaf sample_ext act_CallbackIdx (\<lambda>i seen. (length seen < 1, seen @ [i])) sample_leaf Equal 7 1 npos 100 False False
     (init_state act_CallbackIdx [] 9 0, []) =
   Some (False, init_state act_CallbackIdx [] 9 0, [102, 105])"
proof -
  have "filter (\<lambda>k. element sample_leaf k = 7) [1..<12] = [2, 5, 11]"
    by (simp add: sample_elements sample_range del: One_nat_def)
  then show ?thesis
    using search_visits_matches [OF sample_leaf_ok sample_ext_ok(1), of 1 npos act_CallbackIdx
        "(init_state act_CallbackIdx [] 9 0, [])" "\<lambda>i seen. (length seen < 1, seen @ [i])" Equal 7 100]
    by (simp add: range_end_def sample_length good_state_def sample_ext_ok init_state_def visitor_of_def find_action_def
        row_index_def Let_def)
qed

text \<open>Finding all matches appends the rows of the first matches, as many as the limit leaves room for, to
  the result column, in ascending order and nothing else.\<close>

theorem search_finds_all:
  assumes "leaf_ok arr" "ext_ok e" "i \<le> range_end arr j" "range_end arr j \<le> m_size arr"
    and "m_match_count q < m_limit q" "m_limit q < 2 ^ 64"
  shows "\<exists>go q'. find_leaf e act_FindAll callback arr c v i j base False False (q, cb) = Some (go, q', cb) \<and>
    m_column q' = foldl (add_to_column e) (m_column q)
      (map (\<lambda>k. row_index k base)
        (take (m_limit q - m_match_count q) (filter (\<lambda>k. cond_holds c (element arr k) v) [i..<range_end arr j])))"
proof -
  let ?vis = "visitor_of e act_FindAll callback" and ?m = "matches base (element arr) (\<lambda>x. cond_holds c x v) i (range_end arr j)"
  have "good_state e act_FindAll (q, cb)" using assms by (simp add: good_state_def)
  then have "find_leaf e act_FindAll callback arr c v i j base False False (q, cb) = Some (visit ?vis ?m (q, cb))"
    using find_leaf_visit [OF assms(1-4), of act_FindAll "(q, cb)"] by simp
  moreover have "snd (snd (visit ?vis ?m (q, cb))) = cb"
    using visit_keeps_callback [of act_FindAll e callback ?m "(q, cb)"] by simp
  moreover note visit_find_all [OF assms(5), of e callback ?m cb]
  ultimately show ?thesis
    by (cases "visit ?vis ?m (q, cb)") (auto simp: matches_def take_map comp_def)
qed

theorem search_finds_all_witness:
  "\<exists>go q'. find_leaf sample_ext act_FindAll no_callback sample_leaf Greater 6 0 npos 0 False False
     (init_state act_FindAll [] 4 0, ()) = Some (go, q', ()) \<and> m_column q' = [0, 2, 4, 5]"
proof -
  have "filter (\<lambda>k. 6 < element sample_leaf k) [0..<12] = [0, 2, 4, 5, 10, 11]"
    by (simp add: sample_elements sample_range del: One_nat_def)
  then show ?thesis
    using search_finds_all [OF sample_leaf_ok sample_ext_ok(1), of 0 npos "init_state act_FindAll [] 4 0" no_callback Greater 6 0 "()"]
    by (simp add: range_end_def sample_length init_state_def row_index_def) (simp add: sample_ext_def)
qed

text \<open>C10: The sum, the maximum, the minimum and the number of the matches are accumulated over the first
  matches of the range, as many as the limit leaves room for; the sum and the count wrap in 64 bits.  The
  short cut for a leaf in which everything matches, which asks for the sum or the extreme of a part of the
  leaf, gives the same.\<close>

theorem search_accumulates:
  assumes "leaf_ok arr" "ext_ok e" "aggregates_ok e" "i \<le> range_end arr j" "range_end arr j \<le> m_size arr"
    and "good_state e action s" "action \<in> {act_Sum, act_Max, act_Min, act_Count}"
  shows "\<exists>go s'. find_leaf e action callback arr c v i j base False False s = Some (go, s') \<and>
    m_state (fst s') = foldl (combine action) (m_state (fst s))
      (take (m_limit (fst s) - m_match_count (fst s))
        (filter (\<lambda>x. cond_holds c x v) (map (element arr) [i..<range_end arr j])))"
proof -
  let ?m = "matches base (element arr) (\<lambda>x. cond_holds c x v) i (range_end arr j)"
  have "map snd (take n ?m) = take n (filter (\<lambda>x. cond_holds c x v) (map (element arr) [i..<range_end arr j]))" for n
    by (simp add: matches_def filter_map take_map comp_def)
  moreover obtain r where "find_from e action callback arr c (m_width arr) v i (range_end arr j) base s = Some r"
    "m_state (fst (snd r)) = m_state (fst (snd (visit (visitor_of e action callback) ?m s)))"
    using find_from_state [OF assms(1-3,7,4-6)] by blast
  ultimately show ?thesis using visit_state [OF assms(7,6), of callback ?m]
    by (cases r) (simp add: find_leaf_plain [OF assms(1)])
qed

theorem search_accumulates_witness:
  "\<exists>go s'. find_leaf sample_ext act_Sum no_callback sample_leaf Less 5 0 npos 0 False False
     (init_state act_Sum [] 3 0, ()) = Some (go, s') \<and> m_state (fst s') = 8"
proof -
  have "filter (\<lambda>x. x < 5) (map (element sample_leaf) [0..<12]) = [3, 1, 4, - 6, 2]"
    by (simp add: sample_elements sample_range del: One_nat_def)
  then show ?thesis
    using search_accumulates [OF sample_leaf_ok sample_ext_ok(1,2), of 0 npos act_Sum "(init_state act_Sum [] 3 0, ())" no_callback Less 5 0]
    by (simp add: range_end_def sample_length good_state_def sample_ext_ok init_state_def combine_def to_int64_def
        signed_take_bit_int_eq_self)
qed

text \<open>Finding the first match returns the first matching index of the range, or the value for not found.\<close>

theorem first_match_found:
  assumes "leaf_ok arr" "ext_ok e" "i \<le> j" "j \<le> m_size arr \<or> j = npos" "i \<le> m_size arr"
  shows "find_first e arr c v i j =
    Some (case filter (\<lambda>k. cond_holds c (element arr k) v) [i..<range_end arr j] of [] \<Rightarrow> npos | k # _ \<Rightarrow> k)"
  by (rule find_first_visit [OF assms])

theorem first_match_found_witness:
  "find_first sample_first_ext sample_leaf NotEqual 7 2 npos = Some 3"
proof -
  have "filter (\<lambda>k. element sample_leaf k \<noteq> 7) [2..<12] = [3, 4, 6, 7, 8, 9, 10]"
    by (simp add: sample_elements sample_range del: One_nat_def)
  then show ?thesis
    using first_match_found [OF sample_leaf_ok sample_ext_ok(3), of 2 npos NotEqual 7]
    by (simp add: range_end_def sample_length npos_def)
qed



text \<open>C24: Comparing two leaves, of any two widths, visits exactly the rows of the range in which the elements
  of the two leaves are related, in order, until the visitor stops it.\<close>

theorem compare_leafs_visits:
  assumes "leaf_ok arr" "leaf_ok foreign" "i \<le> j"
  shows "compare_leafs vis arr foreign c i j base s =
    Some (visit vis (map (\<lambda>k. (row_index k base, element arr k))
      (filter (\<lambda>k. cond_holds c (element arr k) (element foreign k)) [i..<j])) s)"
  using compare_leafs_visit [OF assms] by (simp add: leaf_matches_def)

theorem compare_leafs_visits_witness:
  "compare_leafs (visitor_of sample_ext act_FindAll no_callback) (byte_leaf [1, 5, 3, 8, 2, 6]) (byte_leaf [2, 5, 1, 9, 2, 7])
     Less 0 6 0 (init_state act_FindAll [] 9 0, ()) =
   Some (True, (init_state act_FindAll [] 9 0)\<lparr>m_match_count := 3, m_column := [0, 3, 5]\<rparr>, ())"
proof -
  have ok: "leaf_ok (byte_leaf [1, 5, 3, 8, 2, 6])" "leaf_ok (byte_leaf [2, 5, 1, 9, 2, 7])"
    by (simp_all add: byte_leaf_ok npos_def)
  show ?thesis
    using compare_leafs_visits [OF ok, of 0 6 "visitor_of sample_ext act_FindAll no_callback" Less 0 "(init_state act_FindAll [] 9 0, ())"]
    by (simp add: sample_range byte_leaf_element visitor_of_def find_action_def match_optional_def match_value_def
        below_limit_def init_state_def row_index_def Let_def sample_ext_def)
qed

section \<open>Where the accumulator is off\<close>

definition zero_leaf :: "nat \<Rightarrow> leaf" where
  "zero_leaf n = \<lparr>m_data = \<lambda>_. 0, m_size = n, m_width = 0, m_lbound = 0, m_ubound = 0\<rparr>"

text \<open>The limit of a count is not kept across leaves in which everything matches: the short cut adds to
  the count but not to the number of matches that is compared with the limit, so that after two such leaves
  a count limited to 2 is 4, and the search still asks for more.\<close>

theorem count_passes_limit:
  "find_leaf sample_ext act_Count no_callback (zero_leaf 3) Equal 0 0 npos 0 False False (init_state act_Count [] 2 0, ()) =
     Some (True, (init_state act_Count [] 2 0)\<lparr>m_state := 2\<rparr>, ()) \<and>
   find_leaf sample_ext act_Count no_callback (zero_leaf 3) Equal 0 0 npos 3 False False
       ((init_state act_Count [] 2 0)\<lparr>m_state := 2\<rparr>, ()) =
     Some (True, (init_state act_Count [] 2 0)\<lparr>m_state := 4\<rparr>, ())"
  by (simp add: find_leaf_def find_optimized_def find_from_def find_rest_def all_match_def zero_leaf_def init_state_def
      can_match_def will_match_def to_size_def to_int64_def signed_take_bit_int_eq_self Let_def)

text \<open>Nulls do change a sum when the search is for nulls: it hands the visitor the value that stands for
  null.  And a search for values unequal to a given one adds its null rows to the result column without
  counting them, so that they do not count against the limit.\<close>

theorem nulls_change_results:
  "find_leaf sample_ext act_Sum no_callback (byte_leaf [7, 3, 7, 7]) Equal 0 0 npos 0 True True (init_state act_Sum [] 9 0, ()) =
     Some (True, (init_state act_Sum [] 9 0)\<lparr>m_state := 14, m_match_count := 2\<rparr>, ()) \<and>
   find_leaf sample_ext act_FindAll no_callback (byte_leaf [7, 7, 7, 7]) NotEqual 3 0 npos 0 True False
       (init_state act_FindAll [] 1 0, ()) =
     Some (True, (init_state act_FindAll [] 1 0)\<lparr>m_column := [0, 1, 2]\<rparr>, ())"
proof
  have ok: "leaf_ok (byte_leaf [7, 3, 7, 7])" "leaf_ok (byte_leaf [7, 7, 7, 7])" by (simp_all add: byte_leaf_ok npos_def)
  have elem: "leaf_get 8 (byte_leaf [7, 3, 7, 7]) 0 = 7" "leaf_get 8 (byte_leaf [7, 3, 7, 7]) (Suc 0) = 3"
    "leaf_get 8 (byte_leaf [7, 3, 7, 7]) 2 = 7" "leaf_get 8 (byte_leaf [7, 3, 7, 7]) (Suc (Suc 0)) = 7"
    "leaf_get 8 (byte_leaf [7, 3, 7, 7]) 3 = 7" "leaf_get 8 (byte_leaf [7, 7, 7, 7]) 0 = 7"
    "leaf_get 8 (byte_leaf [7, 7, 7, 7]) (Suc 0) = 7" "leaf_get 8 (byte_leaf [7, 7, 7, 7]) 2 = 7"
    "leaf_get 8 (byte_leaf [7, 7, 7, 7]) (Suc (Suc 0)) = 7" "leaf_get 8 (byte_leaf [7, 7, 7, 7]) 3 = 7"
    by (simp_all add: byte_leaf_element)
  have range: "[0..<3] = [0, 1, 2 :: nat]" by (simp add: upt_rec)
  have rows: "nullable_rows (byte_leaf [7, 3, 7, 7]) Equal 0 True 0 3 = [1, 2]"
    "nullable_rows (byte_leaf [7, 7, 7, 7]) NotEqual 3 False 0 3 = [0, 1, 2]"
    by (simp_all add: nullable_rows_def cond_nulls_def elem range)
  have ends: "nullable_end (byte_leaf [7, 3, 7, 7]) npos = 3" "nullable_end (byte_leaf [7, 7, 7, 7]) npos = 3"
    by (simp_all add: nullable_end_def)
  note eval = ends good_state_def sample_ext_ok init_state_def visitor_of_def find_action_def match_optional_def
    match_value_def below_limit_def nullable_value_def elem row_index_def Let_def to_int64_def signed_take_bit_int_eq_self
  show "find_leaf sample_ext act_Sum no_callback (byte_leaf [7, 3, 7, 7]) Equal 0 0 npos 0 True True (init_state act_Sum [] 9 0, ()) =
     Some (True, (init_state act_Sum [] 9 0)\<lparr>m_state := 14, m_match_count := 2\<rparr>, ())"
    using find_leaf_nullable [OF ok(1) sample_ext_ok(1), of act_Sum "(init_state act_Sum [] 9 0, ())" 0 npos no_callback Equal 0 0 True]
    by (simp add: rows eval)
  show "find_leaf sample_ext act_FindAll no_callback (byte_leaf [7, 7, 7, 7]) NotEqual 3 0 npos 0 True False
       (init_state act_FindAll [] 1 0, ()) =
     Some (True, (init_state act_FindAll [] 1 0)\<lparr>m_column := [0, 1, 2]\<rparr>, ())"
    using find_leaf_nullable [OF ok(2) sample_ext_ok(1), of act_FindAll "(init_state act_FindAll [] 1 0, ())" 0 npos no_callback NotEqual 3 0 False]
    by (simp add: rows eval) (simp add: sample_ext_def)
qed

text \<open>The bit trick for \<open>Less\<close> is never reached (\<open>less_never_fast\<close>), and it must not be: it takes the 5 behind a
  0 for less than 5, because the subtraction borrows.\<close>

lemma less_trick_marks_equal:
  "\<not> gtlt_fast_ok False 8 5 \<and> gtlt_cast 8 5 (drop_bit 8 0x500) = 5 \<and>
   bit (gtlt_bits False 8 0x500 (find_gtlt_magic False 8 5)) 15"
proof -
  have "\<not> gtlt_fast_ok False 8 5" by (rule less_never_fast) (simp add: chunked_def)
  moreover have "gtlt_cast 8 5 (drop_bit 8 0x500) = 5" by (simp add: gtlt_cast_def drop_bit_eq_div)
  moreover have "bit (gtlt_bits False 8 0x500 (find_gtlt_magic False 8 5)) 15"
    by (simp add: gtlt_bits_def find_gtlt_magic_def value_mask_def spread_def Let_def)
  ultimately show ?thesis by blast
qed

end
