(* ===== verification/CircularBuffer.thy ===== *)
theory CircularBuffer imports CoreTypes ArrayDirect begin

text \<open>
  The circular buffer of \<open>util/circular_buffer.hpp\<close>.  The allocated memory is a map from slots to objects;
  \<open>None\<close> is raw memory, in which no object lives.  Constructing an object fills its slot, destroying it
  empties the slot, and reading or destroying an object that does not live is the error \<open>Dead_object\<close>,
  for behaviour that C++ leaves undefined.  The other errors are the exceptions and the assertions.  The
  exceptions of constructors of the elements and of the allocation are not modelled.
\<close>

datatype cbuf_error = Overflow_error | Out_of_range | Assertion_failed | Dead_object

record 'a circular_buffer =
  cbuf_memory :: "nat \<Rightarrow> 'a option"
  cbuf_begin :: nat
  cbuf_size :: nat
  cbuf_allocated_size :: nat

abbreviation cbuf_bind :: "cbuf_error + 'a \<Rightarrow> ('a \<Rightarrow> cbuf_error + 'b) \<Rightarrow> cbuf_error + 'b" where
  "cbuf_bind r f \<equiv> (case r of Inl e \<Rightarrow> Inl e | Inr x \<Rightarrow> f x)"

abbreviation cbuf_assert :: "bool \<Rightarrow> cbuf_error + 'b \<Rightarrow> cbuf_error + 'b" where
  "cbuf_assert c r \<equiv> (if c then r else Inl Assertion_failed)"

definition cbuf_new :: "'a circular_buffer" where
  "cbuf_new = \<lparr>cbuf_memory = \<lambda>_. None, cbuf_begin = 0, cbuf_size = 0, cbuf_allocated_size = 0\<rparr>"

section \<open>Slots\<close>

definition circular_inc :: "'a circular_buffer \<Rightarrow> nat \<Rightarrow> nat" where
  "circular_inc b index = (let index_2 = index + 1 in if index_2 < cbuf_allocated_size b then index_2 else 0)"

definition circular_dec :: "'a circular_buffer \<Rightarrow> nat \<Rightarrow> nat" where
  "circular_dec b index = (if index > 0 then index - 1 else cbuf_allocated_size b - 1)"

definition cbuf_wrap :: "'a circular_buffer \<Rightarrow> nat \<Rightarrow> nat" where
  "cbuf_wrap b index =
     (let top = cbuf_allocated_size b - cbuf_begin b in if index < top then cbuf_begin b + index else index - top)"

definition cbuf_unwrap :: "'a circular_buffer \<Rightarrow> nat \<Rightarrow> nat" where
  "cbuf_unwrap b index =
     (if index \<ge> cbuf_begin b then index - cbuf_begin b else cbuf_allocated_size b - (cbuf_begin b - index))"

section \<open>Destroying and moving elements\<close>

text \<open>The loop of \<open>destroy\<close>: \<open>i\<close> counts from the offset to the size, \<open>j\<close> walks over the slots from the first.\<close>

function cbuf_destroy_from ::
  "'a circular_buffer \<Rightarrow> nat \<Rightarrow> nat \<Rightarrow> (nat \<Rightarrow> 'a option) \<Rightarrow> cbuf_error + (nat \<Rightarrow> 'a option)" where
  "cbuf_destroy_from b i j mem =
     (if i < cbuf_size b then
        (case mem j of
           None \<Rightarrow> Inl Dead_object
         | Some _ \<Rightarrow> cbuf_destroy_from b (i + 1) (circular_inc b j) (mem(j := None)))
      else Inr mem)"
  by pat_completeness auto
termination by (relation "measure (\<lambda>(b, i, j, mem). cbuf_size b - i)") auto

definition cbuf_destroy :: "nat \<Rightarrow> 'a circular_buffer \<Rightarrow> cbuf_error + 'a circular_buffer" where
  "cbuf_destroy offset b =
     cbuf_bind (cbuf_destroy_from b offset (cbuf_begin b) (cbuf_memory b)) (\<lambda>mem. Inr (b\<lparr>cbuf_memory := mem\<rparr>))"

function cbuf_move_from ::
  "'a circular_buffer \<Rightarrow> nat \<Rightarrow> nat \<Rightarrow> (nat \<Rightarrow> 'a option) \<Rightarrow> cbuf_error + (nat \<Rightarrow> 'a option)" where
  "cbuf_move_from b i j new =
     (if i < cbuf_size b then
        (case cbuf_memory b j of
           None \<Rightarrow> Inl Dead_object
         | Some x \<Rightarrow> cbuf_move_from b (i + 1) (circular_inc b j) (new(i := Some x)))
      else Inr new)"
  by pat_completeness auto
termination by (relation "measure (\<lambda>(b, i, j, new). cbuf_size b - i)") auto

declare cbuf_destroy_from.simps [simp del] cbuf_move_from.simps [simp del]

definition cbuf_realloc :: "nat \<Rightarrow> 'a circular_buffer \<Rightarrow> cbuf_error + 'a circular_buffer" where
  "cbuf_realloc new_allocated_size b =
     cbuf_assert (new_allocated_size > 1) (cbuf_assert (new_allocated_size > cbuf_size b)
       (cbuf_bind (cbuf_move_from b 0 (cbuf_begin b) (\<lambda>_. None))
         (\<lambda>new. cbuf_bind (cbuf_destroy_from b 0 (cbuf_begin b) (cbuf_memory b))
           (\<lambda>_. Inr (b\<lparr>cbuf_memory := new, cbuf_begin := 0, cbuf_allocated_size := new_allocated_size\<rparr>)))))"

section \<open>Capacity\<close>

definition cbuf_reserve :: "nat \<Rightarrow> 'a circular_buffer \<Rightarrow> cbuf_error + 'a circular_buffer" where
  "cbuf_reserve capacity b =
     (if capacity = 0 then Inr b
      else if capacity + 1 \<ge> 2 ^ 64 then Inl Overflow_error
      else
        (let min_allocated_size = capacity + 1
         in if min_allocated_size \<le> cbuf_allocated_size b then Inr b
            else
              (let doubled = (if cbuf_allocated_size b * 2 \<ge> 2 ^ 64 then 2 ^ 64 - 1 else cbuf_allocated_size b * 2)
               in cbuf_realloc (if doubled < min_allocated_size then min_allocated_size else doubled) b)))"

definition cbuf_shrink_to_fit :: "'a circular_buffer \<Rightarrow> cbuf_error + 'a circular_buffer" where
  "cbuf_shrink_to_fit b =
     (if cbuf_size b > 0 then
        (let new_allocated_size = cbuf_size b + 1
         in if new_allocated_size < cbuf_allocated_size b then cbuf_realloc new_allocated_size b else Inr b)
      else Inr (b\<lparr>cbuf_memory := \<lambda>_. None, cbuf_begin := 0, cbuf_allocated_size := 0\<rparr>))"

definition cbuf_capacity :: "'a circular_buffer \<Rightarrow> nat" where
  "cbuf_capacity b = (if cbuf_allocated_size b > 0 then cbuf_allocated_size b - 1 else 0)"

section \<open>Element access\<close>

definition cbuf_read_slot :: "'a circular_buffer \<Rightarrow> nat \<Rightarrow> cbuf_error + 'a" where
  "cbuf_read_slot b j = (case cbuf_memory b j of None \<Rightarrow> Inl Dead_object | Some x \<Rightarrow> Inr x)"

definition cbuf_index :: "'a circular_buffer \<Rightarrow> nat \<Rightarrow> cbuf_error + 'a" where
  "cbuf_index b i = cbuf_assert (i < cbuf_size b) (cbuf_read_slot b (cbuf_wrap b i))"

definition cbuf_at :: "'a circular_buffer \<Rightarrow> nat \<Rightarrow> cbuf_error + 'a" where
  "cbuf_at b i = (if i < cbuf_size b then cbuf_index b i else Inl Out_of_range)"

definition cbuf_front :: "'a circular_buffer \<Rightarrow> cbuf_error + 'a" where
  "cbuf_front b = cbuf_index b 0"

definition cbuf_back :: "'a circular_buffer \<Rightarrow> cbuf_error + 'a" where
  "cbuf_back b = cbuf_index b (to_size (int (cbuf_size b) - 1))"

section \<open>Insertion and removal\<close>

definition cbuf_emplace_front :: "'a \<Rightarrow> 'a circular_buffer \<Rightarrow> cbuf_error + 'a circular_buffer" where
  "cbuf_emplace_front x b =
     (let new_size = to_size (int (cbuf_size b) + 1)
      in cbuf_bind (cbuf_reserve new_size b)
           (\<lambda>b. cbuf_assert (cbuf_allocated_size b > 0)
             (let i = circular_dec b (cbuf_begin b)
              in Inr (b\<lparr>cbuf_memory := (cbuf_memory b)(i := Some x), cbuf_begin := i, cbuf_size := new_size\<rparr>))))"

definition cbuf_emplace_back :: "'a \<Rightarrow> 'a circular_buffer \<Rightarrow> cbuf_error + 'a circular_buffer" where
  "cbuf_emplace_back x b =
     (let new_size = to_size (int (cbuf_size b) + 1)
      in cbuf_bind (cbuf_reserve new_size b)
           (\<lambda>b. cbuf_assert (cbuf_allocated_size b > 0)
             (let i = cbuf_wrap b (cbuf_size b)
              in Inr (b\<lparr>cbuf_memory := (cbuf_memory b)(i := Some x), cbuf_size := new_size\<rparr>))))"

definition cbuf_pop_front :: "'a circular_buffer \<Rightarrow> cbuf_error + 'a circular_buffer" where
  "cbuf_pop_front b =
     cbuf_assert (cbuf_size b > 0)
       (cbuf_bind (cbuf_read_slot b (cbuf_begin b))
         (\<lambda>_. Inr (b\<lparr>cbuf_memory := (cbuf_memory b)(cbuf_begin b := None), cbuf_begin := circular_inc b (cbuf_begin b),
                     cbuf_size := cbuf_size b - 1\<rparr>)))"

definition cbuf_pop_back :: "'a circular_buffer \<Rightarrow> cbuf_error + 'a circular_buffer" where
  "cbuf_pop_back b =
     cbuf_assert (cbuf_size b > 0)
       (let new_size = cbuf_size b - 1; i = cbuf_wrap b new_size
        in cbuf_bind (cbuf_read_slot b i)
             (\<lambda>_. Inr (b\<lparr>cbuf_memory := (cbuf_memory b)(i := None), cbuf_size := new_size\<rparr>)))"

definition cbuf_clear :: "'a circular_buffer \<Rightarrow> cbuf_error + 'a circular_buffer" where
  "cbuf_clear b = cbuf_bind (cbuf_destroy 0 b) (\<lambda>b. Inr (b\<lparr>cbuf_begin := 0, cbuf_size := 0\<rparr>))"

function cbuf_construct_until :: "nat \<Rightarrow> 'a \<Rightarrow> nat \<Rightarrow> 'a circular_buffer \<Rightarrow> 'a circular_buffer" where
  "cbuf_construct_until n x i b =
     (let b1 = b\<lparr>cbuf_memory := (cbuf_memory b)(i := Some x), cbuf_size := cbuf_size b + 1\<rparr>; i1 = circular_inc b i
      in if cbuf_size b1 < n then cbuf_construct_until n x i1 b1 else b1)"
  by pat_completeness auto
termination by (relation "measure (\<lambda>(n, x, i, b). n - cbuf_size b)") auto

declare cbuf_construct_until.simps [simp del]

text \<open>With a value, or with the value of the default constructor.\<close>

definition cbuf_resize :: "nat \<Rightarrow> 'a \<Rightarrow> 'a circular_buffer \<Rightarrow> cbuf_error + 'a circular_buffer" where
  "cbuf_resize n x b =
     (if n \<le> cbuf_size b then cbuf_bind (cbuf_destroy n b) (\<lambda>b. Inr (b\<lparr>cbuf_size := n\<rparr>))
      else cbuf_bind (cbuf_reserve n b) (\<lambda>b. Inr (cbuf_construct_until n x (cbuf_wrap b (cbuf_size b)) b)))"

section \<open>Copies\<close>

text \<open>Copying a range with forward iterators, whose length is known, and with input iterators.\<close>

primrec cbuf_construct_all :: "'a list \<Rightarrow> 'a circular_buffer \<Rightarrow> 'a circular_buffer" where
  "cbuf_construct_all [] b = b"
| "cbuf_construct_all (x # xs) b =
     cbuf_construct_all xs (b\<lparr>cbuf_memory := (cbuf_memory b)(cbuf_size b := Some x), cbuf_size := cbuf_size b + 1\<rparr>)"

definition cbuf_copy_forward :: "'a list \<Rightarrow> 'a circular_buffer \<Rightarrow> cbuf_error + 'a circular_buffer" where
  "cbuf_copy_forward xs b =
     cbuf_assert (cbuf_begin b = 0) (cbuf_assert (cbuf_size b = 0)
       (cbuf_bind (cbuf_reserve (length xs) b) (\<lambda>b. Inr (cbuf_construct_all xs b))))"

primrec cbuf_copy_input :: "'a list \<Rightarrow> 'a circular_buffer \<Rightarrow> cbuf_error + 'a circular_buffer" where
  "cbuf_copy_input [] b = Inr b"
| "cbuf_copy_input (x # xs) b = cbuf_bind (cbuf_emplace_back x b) (cbuf_copy_input xs)"

definition cbuf_assign_list :: "'a list \<Rightarrow> 'a circular_buffer \<Rightarrow> cbuf_error + 'a circular_buffer" where
  "cbuf_assign_list xs b = cbuf_bind (cbuf_clear b) (cbuf_copy_forward xs)"

definition cbuf_assign_value :: "nat \<Rightarrow> 'a \<Rightarrow> 'a circular_buffer \<Rightarrow> cbuf_error + 'a circular_buffer" where
  "cbuf_assign_value count x b = cbuf_bind (cbuf_clear b) (cbuf_resize count x)"

definition cbuf_assign_input :: "'a list \<Rightarrow> 'a circular_buffer \<Rightarrow> cbuf_error + 'a circular_buffer" where
  "cbuf_assign_input xs b = cbuf_bind (cbuf_clear b) (cbuf_copy_input xs)"

section \<open>Iterators\<close>

text \<open>An iterator is the slot it points to.\<close>

definition iter_begin :: "'a circular_buffer \<Rightarrow> nat" where
  "iter_begin b = cbuf_begin b"

definition iter_end :: "'a circular_buffer \<Rightarrow> nat" where
  "iter_end b = cbuf_wrap b (cbuf_size b)"

definition iter_add :: "'a circular_buffer \<Rightarrow> nat \<Rightarrow> int \<Rightarrow> nat" where
  "iter_add b index v = cbuf_wrap b (to_size (int (cbuf_unwrap b index) + v))"

definition iter_sub :: "'a circular_buffer \<Rightarrow> nat \<Rightarrow> int \<Rightarrow> nat" where
  "iter_sub b index v = cbuf_wrap b (to_size (int (cbuf_unwrap b index) - v))"

definition iter_diff :: "'a circular_buffer \<Rightarrow> nat \<Rightarrow> nat \<Rightarrow> int" where
  "iter_diff b i1 i2 = to_int64 (int (cbuf_unwrap b i1) - int (cbuf_unwrap b i2))"

definition iter_less :: "'a circular_buffer \<Rightarrow> nat \<Rightarrow> nat \<Rightarrow> bool" where
  "iter_less b i1 i2 \<longleftrightarrow> cbuf_unwrap b i1 < cbuf_unwrap b i2"

text \<open>The range an algorithm of the standard library sees between two iterators.\<close>

partial_function (option) cbuf_walk :: "'a circular_buffer \<Rightarrow> nat \<Rightarrow> (cbuf_error + 'a list) option" where
  "cbuf_walk b it =
     (if it = iter_end b then Some (Inr [])
      else
        (case cbuf_read_slot b it of
           Inl e \<Rightarrow> Some (Inl e)
         | Inr x \<Rightarrow>
             Option.bind (cbuf_walk b (circular_inc b it))
               (\<lambda>r. Some (cbuf_bind r (\<lambda>xs. Inr (x # xs))))))"

definition cbuf_range :: "'a circular_buffer \<Rightarrow> (cbuf_error + 'a list) option" where
  "cbuf_range b = cbuf_walk b (iter_begin b)"

definition cbuf_equal :: "'a circular_buffer \<Rightarrow> 'a circular_buffer \<Rightarrow> (cbuf_error + bool) option" where
  "cbuf_equal a b =
     Option.bind (cbuf_range a) (\<lambda>r. Option.bind (cbuf_range b)
       (\<lambda>s. Some (cbuf_bind r (\<lambda>xs. cbuf_bind s (\<lambda>ys. Inr (xs = ys))))))"

fun lexicographical_compare :: "('a \<Rightarrow> 'a \<Rightarrow> bool) \<Rightarrow> 'a list \<Rightarrow> 'a list \<Rightarrow> bool" where
  "lexicographical_compare lt xs [] = False"
| "lexicographical_compare lt [] (y # ys) = True"
| "lexicographical_compare lt (x # xs) (y # ys) =
     (if lt x y then True else if lt y x then False else lexicographical_compare lt xs ys)"

definition cbuf_less ::
  "('a \<Rightarrow> 'a \<Rightarrow> bool) \<Rightarrow> 'a circular_buffer \<Rightarrow> 'a circular_buffer \<Rightarrow> (cbuf_error + bool) option" where
  "cbuf_less lt a b =
     Option.bind (cbuf_range a) (\<lambda>r. Option.bind (cbuf_range b)
       (\<lambda>s. Some (cbuf_bind r (\<lambda>xs. cbuf_bind s (\<lambda>ys. Inr (lexicographical_compare lt xs ys))))))"

section \<open>Copying and moving buffers\<close>

text \<open>The copy assignment clears the target first, also when source and target are the same buffer.\<close>

definition cbuf_copy_construct :: "'a circular_buffer \<Rightarrow> (cbuf_error + 'a circular_buffer) option" where
  "cbuf_copy_construct a = Option.bind (cbuf_range a) (\<lambda>r. Some (cbuf_bind r (\<lambda>xs. cbuf_copy_forward xs cbuf_new)))"

definition cbuf_copy_assign :: "'a circular_buffer \<Rightarrow> 'a circular_buffer \<Rightarrow> (cbuf_error + 'a circular_buffer) option" where
  "cbuf_copy_assign a b =
     (case cbuf_clear b of
        Inl e \<Rightarrow> Some (Inl e)
      | Inr b \<Rightarrow> Option.bind (cbuf_range a) (\<lambda>r. Some (cbuf_bind r (\<lambda>xs. cbuf_copy_forward xs b))))"

definition cbuf_self_assign :: "'a circular_buffer \<Rightarrow> (cbuf_error + 'a circular_buffer) option" where
  "cbuf_self_assign b =
     (case cbuf_clear b of
        Inl e \<Rightarrow> Some (Inl e)
      | Inr b \<Rightarrow> Option.bind (cbuf_range b) (\<lambda>r. Some (cbuf_bind r (\<lambda>xs. cbuf_copy_forward xs b))))"

text \<open>Moving returns the target and what is left of the source.\<close>

definition cbuf_move_construct :: "'a circular_buffer \<Rightarrow> 'a circular_buffer \<times> 'a circular_buffer" where
  "cbuf_move_construct a = (a, cbuf_new)"

definition cbuf_move_assign ::
  "'a circular_buffer \<Rightarrow> 'a circular_buffer \<Rightarrow> cbuf_error + 'a circular_buffer \<times> 'a circular_buffer" where
  "cbuf_move_assign a b = cbuf_bind (cbuf_destroy 0 b) (\<lambda>_. Inr (a, cbuf_new))"

definition cbuf_swap :: "'a circular_buffer \<times> 'a circular_buffer \<Rightarrow> 'a circular_buffer \<times> 'a circular_buffer" where
  "cbuf_swap p = (snd p, fst p)"

end
