(* ===== verification/CircularBufferLaws.thy ===== *)
theory CircularBufferLaws imports CircularBuffer begin

text \<open>
  The circular buffer is a list: \<open>cbuf_repr b xs\<close> says that the slots from the first on hold the elements
  of \<open>xs\<close> and that the other slots are raw.  Every operation keeps the relation and does to the list
  what its name says.
\<close>

section \<open>Representation\<close>

definition cbuf_repr :: "'a circular_buffer \<Rightarrow> 'a list \<Rightarrow> bool" where
  "cbuf_repr b xs \<longleftrightarrow>
     cbuf_allocated_size b < 2 ^ 64 \<and> length xs = cbuf_size b \<and>
     (if cbuf_allocated_size b = 0 then cbuf_begin b = 0 \<and> cbuf_size b = 0
      else cbuf_begin b < cbuf_allocated_size b \<and> cbuf_size b < cbuf_allocated_size b) \<and>
     (\<forall>i < cbuf_allocated_size b. cbuf_memory b (cbuf_wrap b i) = (if i < length xs then Some (xs ! i) else None)) \<and>
     (\<forall>j \<ge> cbuf_allocated_size b. cbuf_memory b j = None)"

abbreviation rooted :: "'a circular_buffer \<Rightarrow> bool" where
  "rooted b \<equiv> cbuf_begin b < cbuf_allocated_size b"

lemma cbuf_reprD:
  assumes "cbuf_repr b xs"
  shows "cbuf_size b = length xs" "cbuf_allocated_size b < 2 ^ 64" "xs \<noteq> [] \<Longrightarrow> rooted b"
    "0 < cbuf_allocated_size b \<Longrightarrow> rooted b \<and> length xs < cbuf_allocated_size b"
    "i < length xs \<Longrightarrow> cbuf_memory b (cbuf_wrap b i) = Some (xs ! i)"
    "length xs \<le> i \<Longrightarrow> i < cbuf_allocated_size b \<Longrightarrow> cbuf_memory b (cbuf_wrap b i) = None"
  using assms by (auto simp: cbuf_repr_def split: if_splits)

lemma cbuf_repr_new: "cbuf_repr cbuf_new []"
  by (simp add: cbuf_repr_def cbuf_new_def)

text \<open>Logical positions and slots.\<close>

lemma wrap_less: "rooted b \<Longrightarrow> i < cbuf_allocated_size b \<Longrightarrow> cbuf_wrap b i < cbuf_allocated_size b"
  by (auto simp: cbuf_wrap_def Let_def)

lemma unwrap_less: "rooted b \<Longrightarrow> j < cbuf_allocated_size b \<Longrightarrow> cbuf_unwrap b j < cbuf_allocated_size b"
  by (auto simp: cbuf_unwrap_def)

lemma unwrap_wrap [simp]: "rooted b \<Longrightarrow> i < cbuf_allocated_size b \<Longrightarrow> cbuf_unwrap b (cbuf_wrap b i) = i"
  by (auto simp: cbuf_unwrap_def cbuf_wrap_def Let_def)

lemma wrap_unwrap [simp]: "rooted b \<Longrightarrow> j < cbuf_allocated_size b \<Longrightarrow> cbuf_wrap b (cbuf_unwrap b j) = j"
  by (auto simp: cbuf_unwrap_def cbuf_wrap_def Let_def)

lemma wrap_eq: "rooted b \<Longrightarrow> i < cbuf_allocated_size b \<Longrightarrow> k < cbuf_allocated_size b \<Longrightarrow> cbuf_wrap b i = cbuf_wrap b k \<longleftrightarrow> i = k"
  by (metis unwrap_wrap)

lemma wrap_0: "rooted b \<Longrightarrow> cbuf_wrap b 0 = cbuf_begin b"
  by (simp add: cbuf_wrap_def Let_def)

lemma inc_wrap: "rooted b \<Longrightarrow> i + 1 < cbuf_allocated_size b \<Longrightarrow> circular_inc b (cbuf_wrap b i) = cbuf_wrap b (i + 1)"
  by (auto simp: circular_inc_def cbuf_wrap_def Let_def)

lemma dec_wrap: "rooted b \<Longrightarrow> 0 < i \<Longrightarrow> i < cbuf_allocated_size b \<Longrightarrow> circular_dec b (cbuf_wrap b i) = cbuf_wrap b (i - 1)"
  by (auto simp: circular_dec_def cbuf_wrap_def Let_def)

lemma wrap_update [simp]:
  "cbuf_wrap (b\<lparr>cbuf_memory := m\<rparr>) = cbuf_wrap b" "cbuf_wrap (b\<lparr>cbuf_size := n\<rparr>) = cbuf_wrap b"
  by (simp_all add: cbuf_wrap_def fun_eq_iff Let_def)

text \<open>Every slot of the memory is the slot of a logical position.\<close>

lemma cbuf_repr_intro:
  assumes "cbuf_allocated_size b < 2 ^ 64" "length xs = cbuf_size b" "rooted b" "cbuf_size b < cbuf_allocated_size b"
    and "\<And>i. i < cbuf_allocated_size b \<Longrightarrow> cbuf_memory b (cbuf_wrap b i) = (if i < length xs then Some (xs ! i) else None)"
    and "\<And>j. cbuf_allocated_size b \<le> j \<Longrightarrow> cbuf_memory b j = None"
  shows "cbuf_repr b xs"
  using assms by (auto simp: cbuf_repr_def)

section \<open>Destroying and moving\<close>

lemma destroy_from_slots:
  assumes "rooted b" "i \<le> cbuf_size b" "k + (cbuf_size b - i) < cbuf_allocated_size b"
    and "\<And>t. k \<le> t \<Longrightarrow> t < k + (cbuf_size b - i) \<Longrightarrow> mem (cbuf_wrap b t) \<noteq> None"
  shows "\<exists>mem'. cbuf_destroy_from b i (cbuf_wrap b k) mem = Inr mem' \<and>
    (\<forall>t < cbuf_allocated_size b. mem' (cbuf_wrap b t) = (if k \<le> t \<and> t < k + (cbuf_size b - i) then None else mem (cbuf_wrap b t))) \<and>
    (\<forall>j \<ge> cbuf_allocated_size b. mem' j = mem j)"
  using assms
proof (induction "cbuf_size b - i" arbitrary: i k mem)
  case 0
  then show ?case by (subst cbuf_destroy_from.simps) auto
next
  case (Suc n)
  let ?mem = "mem(cbuf_wrap b k := None)"
  have i: "i < cbuf_size b" using Suc.hyps(2) by simp
  have k: "k + 1 < cbuf_allocated_size b" "k < cbuf_allocated_size b" using Suc.prems(3) i by simp_all
  have "mem (cbuf_wrap b k) \<noteq> None" by (rule Suc.prems(4)) (use i in simp_all)
  then obtain x where x: "mem (cbuf_wrap b k) = Some x" by blast
  have "\<exists>mem'. cbuf_destroy_from b (i + 1) (cbuf_wrap b (k + 1)) ?mem = Inr mem' \<and>
      (\<forall>t < cbuf_allocated_size b. mem' (cbuf_wrap b t) =
        (if k + 1 \<le> t \<and> t < k + 1 + (cbuf_size b - (i + 1)) then None else ?mem (cbuf_wrap b t))) \<and>
      (\<forall>j \<ge> cbuf_allocated_size b. mem' j = ?mem j)"
  proof (rule Suc.hyps(1))
    show "n = cbuf_size b - (i + 1)" using Suc.hyps(2) by simp
    show "k + 1 + (cbuf_size b - (i + 1)) < cbuf_allocated_size b" using Suc.prems(3) i by simp
    show "?mem (cbuf_wrap b t) \<noteq> None" if "k + 1 \<le> t" "t < k + 1 + (cbuf_size b - (i + 1))" for t
      using that Suc.prems(1,3) Suc.prems(4) [of t] i k by (auto simp: wrap_eq)
  qed (use Suc.prems(1) i in simp_all)
  then obtain mem' where m: "cbuf_destroy_from b (i + 1) (cbuf_wrap b (k + 1)) ?mem = Inr mem'"
    "\<And>t. t < cbuf_allocated_size b \<Longrightarrow> mem' (cbuf_wrap b t) =
      (if k + 1 \<le> t \<and> t < k + 1 + (cbuf_size b - (i + 1)) then None else ?mem (cbuf_wrap b t))"
    "\<And>j. j \<ge> cbuf_allocated_size b \<Longrightarrow> mem' j = ?mem j" by blast
  have "cbuf_destroy_from b i (cbuf_wrap b k) mem = Inr mem'"
    using i x m(1) inc_wrap [OF Suc.prems(1) k(1)] by (subst cbuf_destroy_from.simps) simp
  moreover have "mem' (cbuf_wrap b t) = (if k \<le> t \<and> t < k + (cbuf_size b - i) then None else mem (cbuf_wrap b t))"
    if "t < cbuf_allocated_size b" for t
    using m(2) [OF that] that k i Suc.prems(1) by (auto simp: wrap_eq)
  moreover have "mem' j = mem j" if "j \<ge> cbuf_allocated_size b" for j
    using m(3) [OF that] that wrap_less [OF Suc.prems(1) k(2)] by auto
  ultimately show ?case by blast
qed

text \<open>Destroying with an offset empties as many slots as lie behind the offset, but from the front.\<close>

lemma destroy_slots:
  assumes r: "cbuf_repr b xs" and n: "n \<le> length xs"
  shows "\<exists>mem'. cbuf_destroy n b = Inr (b\<lparr>cbuf_memory := mem'\<rparr>) \<and>
    (\<forall>t < cbuf_allocated_size b. mem' (cbuf_wrap b t) =
       (if length xs - n \<le> t \<and> t < length xs then Some (xs ! t) else None)) \<and>
    (\<forall>j \<ge> cbuf_allocated_size b. mem' j = None)"
proof (cases "cbuf_allocated_size b = 0")
  case True
  then have "cbuf_size b = 0" "\<forall>j. cbuf_memory b j = None" using r by (auto simp: cbuf_repr_def)
  moreover from this have "cbuf_destroy n b = Inr (b\<lparr>cbuf_memory := cbuf_memory b\<rparr>)"
    unfolding cbuf_destroy_def by (subst cbuf_destroy_from.simps) simp
  ultimately show ?thesis using True by (intro exI [of _ "cbuf_memory b"]) simp
next
  case False
  then have b: "rooted b" "length xs < cbuf_allocated_size b" using cbuf_reprD(4) [OF r] by auto
  have sz: "cbuf_size b = length xs" by (rule cbuf_reprD(1) [OF r])
  have "\<exists>mem'. cbuf_destroy_from b n (cbuf_wrap b 0) (cbuf_memory b) = Inr mem' \<and>
      (\<forall>t < cbuf_allocated_size b. mem' (cbuf_wrap b t) =
        (if 0 \<le> t \<and> t < 0 + (cbuf_size b - n) then None else cbuf_memory b (cbuf_wrap b t))) \<and>
      (\<forall>j \<ge> cbuf_allocated_size b. mem' j = cbuf_memory b j)"
    by (rule destroy_from_slots) (use b n sz cbuf_reprD(5) [OF r] in auto)
  then obtain mem' where m: "cbuf_destroy_from b n (cbuf_wrap b 0) (cbuf_memory b) = Inr mem'"
    "\<And>t. t < cbuf_allocated_size b \<Longrightarrow> mem' (cbuf_wrap b t) = (if t < cbuf_size b - n then None else cbuf_memory b (cbuf_wrap b t))"
    "\<And>j. j \<ge> cbuf_allocated_size b \<Longrightarrow> mem' j = cbuf_memory b j" by auto
  have "cbuf_memory b j = None" if "j \<ge> cbuf_allocated_size b" for j using r that by (simp add: cbuf_repr_def)
  then show ?thesis using m cbuf_reprD(5,6) [OF r] sz n wrap_0 [OF b(1)]
    by (intro exI [of _ mem']) (auto simp: cbuf_destroy_def)
qed

lemma move_from_elements:
  assumes r: "cbuf_repr b xs" and i: "i \<le> length xs" and b: "rooted b"
  shows "cbuf_move_from b i (cbuf_wrap b i) new = Inr (\<lambda>k. if i \<le> k \<and> k < length xs then Some (xs ! k) else new k)"
  using i
proof (induction "length xs - i" arbitrary: i new)
  case 0
  then have "i = length xs" by simp
  then show ?case using cbuf_reprD(1) [OF r] by (subst cbuf_move_from.simps) (auto simp: fun_eq_iff)
next
  case (Suc n)
  then have il: "i < length xs" by simp
  have "i + 1 < cbuf_allocated_size b" using il b cbuf_reprD(4) [OF r] by simp
  note inc = inc_wrap [OF b this]
  have "cbuf_move_from b i (cbuf_wrap b i) new = cbuf_move_from b (i + 1) (cbuf_wrap b (i + 1)) (new(i := Some (xs ! i)))"
    using il cbuf_reprD(1,5) [OF r] inc by (subst cbuf_move_from.simps) simp
  also have "\<dots> = Inr (\<lambda>k. if i + 1 \<le> k \<and> k < length xs then Some (xs ! k) else (new(i := Some (xs ! i))) k)"
    by (rule Suc.hyps(1)) (use Suc.hyps(2) il in simp_all)
  also have "\<dots> = Inr (\<lambda>k. if i \<le> k \<and> k < length xs then Some (xs ! k) else new k)"
    using il by (auto simp: fun_eq_iff)
  finally show ?case .
qed

lemma realloc_repr:
  assumes r: "cbuf_repr b xs" and n: "length xs < n" "1 < n" "n < 2 ^ 64"
  shows "\<exists>b'. cbuf_realloc n b = Inr b' \<and> cbuf_repr b' xs \<and> cbuf_allocated_size b' = n \<and> cbuf_begin b' = 0"
proof -
  let ?new = "\<lambda>k. if k < length xs then Some (xs ! k) else None"
  let ?b = "b\<lparr>cbuf_memory := ?new, cbuf_begin := 0, cbuf_allocated_size := n\<rparr>"
  have sz: "cbuf_size b = length xs" by (rule cbuf_reprD(1) [OF r])
  have move: "cbuf_move_from b 0 (cbuf_begin b) (\<lambda>_. None) = Inr ?new"
  proof (cases "xs = []")
    case True
    then show ?thesis using sz by (subst cbuf_move_from.simps) auto
  next
    case False
    then have b: "rooted b" by (rule cbuf_reprD(3) [OF r])
    have "cbuf_move_from b 0 (cbuf_wrap b 0) (\<lambda>_. None) = Inr (\<lambda>k. if 0 \<le> k \<and> k < length xs then Some (xs ! k) else None)"
      by (rule move_from_elements [OF r _ b]) simp
    then show ?thesis by (simp only: wrap_0 [OF b] le0 simp_thms)
  qed
  obtain mem' where "cbuf_destroy 0 b = Inr (b\<lparr>cbuf_memory := mem'\<rparr>)" using destroy_slots [OF r, of 0] by auto
  then obtain mem where "cbuf_destroy_from b 0 (cbuf_begin b) (cbuf_memory b) = Inr mem"
    by (auto simp: cbuf_destroy_def split: sum.splits)
  then have "cbuf_realloc n b = Inr ?b" using n move sz by (simp add: cbuf_realloc_def)
  moreover have "cbuf_repr ?b xs" using n sz by (intro cbuf_repr_intro) (simp_all add: cbuf_wrap_def Let_def)
  ultimately show ?thesis by (intro exI [of _ ?b]) simp
qed

section \<open>Capacity\<close>

lemma reserve_repr:
  assumes r: "cbuf_repr b xs" and n: "length xs \<le> n" "n + 1 < 2 ^ 64"
  shows "\<exists>b'. cbuf_reserve n b = Inr b' \<and> cbuf_repr b' xs \<and> (n \<le> cbuf_capacity b \<longrightarrow> b' = b) \<and>
    n \<le> cbuf_capacity b' \<and> (0 < n \<longrightarrow> n < cbuf_allocated_size b')"
proof (cases "n = 0 \<or> n + 1 \<le> cbuf_allocated_size b")
  case True
  then show ?thesis using r n by (auto simp: cbuf_reserve_def cbuf_capacity_def)
next
  case False
  define d where "d = (if cbuf_allocated_size b * 2 \<ge> 2 ^ 64 then 2 ^ 64 - 1 else cbuf_allocated_size b * 2)"
  define m where "m = (if d < n + 1 then n + 1 else d)"
  have d: "d < 2 ^ 64" by (simp add: d_def)
  then have m: "n + 1 \<le> m" "m < 2 ^ 64" using n(2) by (simp_all add: m_def)
  have "length xs < m" "1 < m" using m(1) n(1) False by linarith+
  from realloc_repr [OF r this m(2)] obtain b' where
    b': "cbuf_realloc m b = Inr b'" "cbuf_repr b' xs" "cbuf_allocated_size b' = m" by blast
  have "n \<noteq> 0" "\<not> n + 1 \<ge> 2 ^ 64" "\<not> n + 1 \<le> cbuf_allocated_size b" using False n(2) by auto
  then have "cbuf_reserve n b = cbuf_realloc m b"
    by (simp only: cbuf_reserve_def Let_def if_False d_def m_def)
  then show ?thesis using b' m(1) False by (auto simp: cbuf_capacity_def)
qed

lemma shrink_repr: "cbuf_repr b xs \<Longrightarrow> \<exists>b'. cbuf_shrink_to_fit b = Inr b' \<and> cbuf_repr b' xs \<and> cbuf_capacity b' = length xs"
proof (cases "xs = []")
  case True
  assume r: "cbuf_repr b xs"
  then show ?thesis using True cbuf_reprD(1) [OF r]
    by (auto simp: cbuf_shrink_to_fit_def cbuf_repr_def cbuf_capacity_def)
next
  case False
  assume r: "cbuf_repr b xs"
  have b: "length xs < cbuf_allocated_size b" "cbuf_allocated_size b < 2 ^ 64"
    using cbuf_reprD(2,3,4) [OF r] False by auto
  show ?thesis
  proof (cases "length xs + 1 < cbuf_allocated_size b")
    case True
    then have "\<exists>b'. cbuf_realloc (length xs + 1) b = Inr b' \<and> cbuf_repr b' xs \<and> cbuf_allocated_size b' = length xs + 1 \<and> cbuf_begin b' = 0"
      using False b by (intro realloc_repr [OF r]) auto
    then show ?thesis using True False cbuf_reprD(1) [OF r] by (auto simp: cbuf_shrink_to_fit_def cbuf_capacity_def)
  next
    case no: False
    then show ?thesis using False b r cbuf_reprD(1) [OF r] by (auto simp: cbuf_shrink_to_fit_def cbuf_capacity_def)
  qed
qed

section \<open>Elements\<close>

lemma index_repr: "cbuf_repr b xs \<Longrightarrow> cbuf_index b i = (if i < length xs then Inr (xs ! i) else Inl Assertion_failed)"
  using cbuf_reprD(1,5) [of b xs] by (auto simp: cbuf_index_def cbuf_read_slot_def)

lemma emplace_back_repr:
  assumes r: "cbuf_repr b xs" and n: "length xs + 2 < 2 ^ 64"
  shows "\<exists>b'. cbuf_emplace_back x b = Inr b' \<and> cbuf_repr b' (xs @ [x]) \<and>
    (length xs < cbuf_capacity b \<longrightarrow> cbuf_begin b' = cbuf_begin b \<and> cbuf_allocated_size b' = cbuf_allocated_size b)"
proof -
  have size: "to_size (int (cbuf_size b) + 1) = length xs + 1"
    using n cbuf_reprD(1) [OF r] by (simp add: to_size_def nat_add_distrib)
  obtain b1 where b1: "cbuf_reserve (length xs + 1) b = Inr b1" "cbuf_repr b1 xs" "length xs + 1 < cbuf_allocated_size b1"
    "length xs + 1 \<le> cbuf_capacity b \<Longrightarrow> b1 = b"
    using reserve_repr [OF r, of "length xs + 1"] n by auto
  have b: "rooted b1" "length xs < cbuf_allocated_size b1" "cbuf_size b1 = length xs"
    using b1(3) cbuf_reprD(1,4) [OF b1(2)] by auto
  let ?b = "b1\<lparr>cbuf_memory := (cbuf_memory b1)(cbuf_wrap b1 (length xs) := Some x), cbuf_size := length xs + 1\<rparr>"
  have "cbuf_repr ?b (xs @ [x])"
  proof (rule cbuf_repr_intro)
    fix i assume i: "i < cbuf_allocated_size ?b"
    then show "cbuf_memory ?b (cbuf_wrap ?b i) = (if i < length (xs @ [x]) then Some ((xs @ [x]) ! i) else None)"
      using b cbuf_reprD(5,6) [OF b1(2), of i] wrap_eq [OF b(1), of i "length xs"] by (auto simp: nth_append)
  next
    fix j assume "cbuf_allocated_size ?b \<le> j"
    then show "cbuf_memory ?b j = None" using b1(2) wrap_less [OF b(1,2)] by (auto simp: cbuf_repr_def)
  qed (use b1(3) b cbuf_reprD(2) [OF b1(2)] in simp_all)
  moreover have "cbuf_emplace_back x b = Inr ?b" using b1(1,3) b(3) unfolding cbuf_emplace_back_def Let_def size by simp
  ultimately show ?thesis using b1(4) by (intro exI [of _ ?b]) simp
qed

lemma emplace_front_repr:
  assumes r: "cbuf_repr b xs" and n: "length xs + 2 < 2 ^ 64"
  shows "\<exists>b'. cbuf_emplace_front x b = Inr b' \<and> cbuf_repr b' (x # xs) \<and>
    (length xs < cbuf_capacity b \<longrightarrow> cbuf_allocated_size b' = cbuf_allocated_size b \<and>
      (\<forall>i \<le> length xs. cbuf_wrap b' (i + 1) = cbuf_wrap b i))"
proof -
  have size: "to_size (int (cbuf_size b) + 1) = length xs + 1"
    using n cbuf_reprD(1) [OF r] by (simp add: to_size_def nat_add_distrib)
  obtain b1 where b1: "cbuf_reserve (length xs + 1) b = Inr b1" "cbuf_repr b1 xs" "length xs + 1 < cbuf_allocated_size b1"
    "length xs + 1 \<le> cbuf_capacity b \<Longrightarrow> b1 = b"
    using reserve_repr [OF r, of "length xs + 1"] n by auto
  define A where "A = cbuf_allocated_size b1"
  have b: "rooted b1" "length xs + 1 < A" "cbuf_size b1 = length xs" "cbuf_begin b1 < A"
    using b1(3) cbuf_reprD(1,4) [OF b1(2)] by (auto simp: A_def)
  let ?i = "circular_dec b1 (cbuf_begin b1)"
  let ?b = "b1\<lparr>cbuf_memory := (cbuf_memory b1)(?i := Some x), cbuf_begin := ?i, cbuf_size := length xs + 1\<rparr>"
  have root: "?i < A" using b by (auto simp: circular_dec_def A_def)
  have first: "?i = cbuf_wrap b1 (A - 1)" and shift: "\<And>i. i + 1 < A \<Longrightarrow> cbuf_wrap ?b (i + 1) = cbuf_wrap b1 i"
    and zero: "cbuf_wrap ?b 0 = ?i"
    using b by (auto simp: circular_dec_def cbuf_wrap_def Let_def A_def)
  have "cbuf_repr ?b (x # xs)"
  proof (rule cbuf_repr_intro)
    fix i assume i: "i < cbuf_allocated_size ?b"
    show "cbuf_memory ?b (cbuf_wrap ?b i) = (if i < length (x # xs) then Some ((x # xs) ! i) else None)"
    proof (cases i)
      case (Suc k)
      then have k: "k + 1 < A" using i by (simp add: A_def)
      have "cbuf_wrap b1 k \<noteq> ?i" using k wrap_eq [OF b(1), of k "A - 1"] by (simp add: first A_def)
      then show ?thesis using Suc k shift [OF k] cbuf_reprD(5,6) [OF b1(2), of k] by (auto simp: A_def)
    next
      case 0
      then show ?thesis using zero by simp
    qed
  next
    fix j assume "cbuf_allocated_size ?b \<le> j"
    then show "cbuf_memory ?b j = None" using b1(2) root by (auto simp: cbuf_repr_def A_def)
  qed (use b root cbuf_reprD(2) [OF b1(2)] in \<open>simp_all add: A_def\<close>)
  moreover have "cbuf_emplace_front x b = Inr ?b" using b1(1,3) unfolding cbuf_emplace_front_def Let_def size by simp
  moreover have "cbuf_wrap ?b (i + 1) = cbuf_wrap b i" if "length xs < cbuf_capacity b" "i \<le> length xs" for i
    using shift [of i] that b(2) b1(4) by simp
  ultimately show ?thesis using b1(4) by (intro exI [of _ ?b]) simp
qed

lemma pop_back_repr:
  assumes r: "cbuf_repr b xs"
  shows "cbuf_pop_back b = Inl Assertion_failed \<and> xs = [] \<or>
    (\<exists>b'. cbuf_pop_back b = Inr b' \<and> xs \<noteq> [] \<and> cbuf_repr b' (butlast xs) \<and> cbuf_begin b' = cbuf_begin b \<and>
      cbuf_allocated_size b' = cbuf_allocated_size b)"
proof (cases "xs = []")
  case True
  then show ?thesis using cbuf_reprD(1) [OF r] by (simp add: cbuf_pop_back_def)
next
  case False
  have b: "rooted b" "length xs < cbuf_allocated_size b" "cbuf_size b = length xs"
    using cbuf_reprD(1,3,4) [OF r] False by auto
  let ?n = "length xs - 1"
  let ?b = "b\<lparr>cbuf_memory := (cbuf_memory b)(cbuf_wrap b ?n := None), cbuf_size := ?n\<rparr>"
  have n: "?n < length xs" using False by simp
  have "cbuf_repr ?b (butlast xs)"
  proof (rule cbuf_repr_intro)
    fix i assume "i < cbuf_allocated_size ?b"
    then show "cbuf_memory ?b (cbuf_wrap ?b i) = (if i < length (butlast xs) then Some (butlast xs ! i) else None)"
      using b n cbuf_reprD(5,6) [OF r, of i] wrap_eq [OF b(1), of i ?n] by (auto simp: nth_butlast)
  next
    fix j assume "cbuf_allocated_size ?b \<le> j"
    then show "cbuf_memory ?b j = None" using r by (auto simp: cbuf_repr_def)
  qed (use b cbuf_reprD(2) [OF r] in auto)
  moreover have "cbuf_pop_back b = Inr ?b"
    using False b(3) cbuf_reprD(5) [OF r n] by (simp add: cbuf_pop_back_def Let_def cbuf_read_slot_def)
  ultimately show ?thesis using False by auto
qed

lemma pop_front_repr:
  assumes r: "cbuf_repr b xs"
  shows "cbuf_pop_front b = Inl Assertion_failed \<and> xs = [] \<or>
    (\<exists>b'. cbuf_pop_front b = Inr b' \<and> xs \<noteq> [] \<and> cbuf_repr b' (tl xs) \<and> cbuf_allocated_size b' = cbuf_allocated_size b \<and>
      (\<forall>i < length xs. cbuf_wrap b' i = cbuf_wrap b (i + 1)))"
proof (cases xs)
  case Nil
  then show ?thesis using cbuf_reprD(1) [OF r] by (simp add: cbuf_pop_front_def)
next
  case (Cons x ys)
  define A where "A = cbuf_allocated_size b"
  have b: "rooted b" "length xs < A" "cbuf_size b = length xs"
    using cbuf_reprD(1,3,4) [OF r] Cons by (auto simp: A_def)
  let ?i = "circular_inc b (cbuf_begin b)"
  let ?b = "b\<lparr>cbuf_memory := (cbuf_memory b)(cbuf_begin b := None), cbuf_begin := ?i, cbuf_size := cbuf_size b - 1\<rparr>"
  have root: "?i < A" using b by (auto simp: circular_inc_def A_def Let_def)
  have shift: "\<And>i. i + 1 < A \<Longrightarrow> cbuf_wrap ?b i = cbuf_wrap b (i + 1)" and last: "cbuf_wrap ?b (A - 1) = cbuf_begin b"
    using b by (auto simp: circular_inc_def cbuf_wrap_def Let_def A_def)
  have "cbuf_repr ?b ys"
  proof (rule cbuf_repr_intro)
    fix i assume i: "i < cbuf_allocated_size ?b"
    show "cbuf_memory ?b (cbuf_wrap ?b i) = (if i < length ys then Some (ys ! i) else None)"
    proof (cases "i + 1 < A")
      case True
      have "cbuf_wrap b (i + 1) \<noteq> cbuf_begin b" using True wrap_eq [OF b(1), of "i + 1" 0] wrap_0 [OF b(1)] by (simp add: A_def)
      then show ?thesis using True shift [OF True] cbuf_reprD(5,6) [OF r, of "i + 1"] Cons by (auto simp: A_def)
    next
      case False
      then have "i = A - 1" using i by (simp add: A_def)
      then show ?thesis using last b(2) Cons by simp
    qed
  next
    fix j assume "cbuf_allocated_size ?b \<le> j"
    then show "cbuf_memory ?b j = None" using r by (auto simp: cbuf_repr_def)
  qed (use b root Cons cbuf_reprD(2) [OF r] in \<open>simp_all add: A_def\<close>)
  moreover have "cbuf_pop_front b = Inr ?b"
    using Cons b(3) cbuf_reprD(5) [OF r, of 0] wrap_0 [OF b(1)] by (simp add: cbuf_pop_front_def cbuf_read_slot_def)
  moreover have "cbuf_wrap ?b i = cbuf_wrap b (i + 1)" if "i < length xs" for i using shift [of i] that b(2) by simp
  ultimately show ?thesis using Cons by (intro disjI2 exI [of _ ?b]) simp
qed

lemma clear_repr:
  assumes r: "cbuf_repr b xs"
  shows "\<exists>b'. cbuf_clear b = Inr b' \<and> cbuf_repr b' [] \<and> cbuf_allocated_size b' = cbuf_allocated_size b \<and> cbuf_begin b' = 0"
proof -
  obtain mem where m: "cbuf_destroy 0 b = Inr (b\<lparr>cbuf_memory := mem\<rparr>)"
    "\<And>t. t < cbuf_allocated_size b \<Longrightarrow> mem (cbuf_wrap b t) = None" "\<And>j. j \<ge> cbuf_allocated_size b \<Longrightarrow> mem j = None"
    using destroy_slots [OF r, of 0] by auto
  have none: "mem j = None" for j
  proof (cases "j < cbuf_allocated_size b")
    case True
    then have b: "rooted b" using cbuf_reprD(4) [OF r] by auto
    show ?thesis using m(2) [OF unwrap_less [OF b True]] wrap_unwrap [OF b True] by simp
  qed (simp add: m(3))
  let ?b = "b\<lparr>cbuf_memory := mem, cbuf_begin := 0, cbuf_size := 0\<rparr>"
  have "cbuf_clear b = Inr ?b" using m(1) by (simp add: cbuf_clear_def)
  moreover have "cbuf_repr ?b []" using cbuf_reprD(2) [OF r] none by (simp add: cbuf_repr_def)
  ultimately show ?thesis by auto
qed

lemma construct_until_repr:
  assumes "cbuf_repr b xs" "length xs < n" "n < cbuf_allocated_size b"
  shows "cbuf_repr (cbuf_construct_until n x (cbuf_wrap b (cbuf_size b)) b) (xs @ replicate (n - length xs) x)"
  using assms
proof (induction "n - length xs" arbitrary: b xs)
  case (Suc k)
  have b: "rooted b" "length xs + 1 < cbuf_allocated_size b" "cbuf_size b = length xs"
    using cbuf_reprD(1,4) [OF Suc.prems(1)] Suc.prems(2,3) by auto
  let ?b = "b\<lparr>cbuf_memory := (cbuf_memory b)(cbuf_wrap b (cbuf_size b) := Some x), cbuf_size := cbuf_size b + 1\<rparr>"
  have r: "cbuf_repr ?b (xs @ [x])"
  proof (rule cbuf_repr_intro)
    fix i assume i: "i < cbuf_allocated_size ?b"
    then show "cbuf_memory ?b (cbuf_wrap ?b i) = (if i < length (xs @ [x]) then Some ((xs @ [x]) ! i) else None)"
      using b cbuf_reprD(5,6) [OF Suc.prems(1), of i] wrap_eq [OF b(1), of i "length xs"] by (auto simp: nth_append)
  next
    fix j assume "cbuf_allocated_size ?b \<le> j"
    then show "cbuf_memory ?b j = None" using Suc.prems(1) wrap_less [OF b(1), of "length xs"] b(2,3) by (auto simp: cbuf_repr_def)
  qed (use b cbuf_reprD(2) [OF Suc.prems(1)] in simp_all)
  have inc: "circular_inc b (cbuf_wrap b (length xs)) = cbuf_wrap b (Suc (length xs))"
    using inc_wrap [OF b(1), of "length xs"] b(2) by simp
  have split: "replicate (n - length xs) x = x # replicate (n - length (xs @ [x])) x"
    using Suc.prems(2) by (simp flip: replicate_Suc add: Suc_diff_Suc)
  show ?case
  proof (cases "length xs + 1 < n")
    case True
    then have "cbuf_construct_until n x (cbuf_wrap b (cbuf_size b)) b = cbuf_construct_until n x (cbuf_wrap ?b (cbuf_size ?b)) ?b"
      using b(3) by (subst cbuf_construct_until.simps) (simp add: Let_def inc)
    moreover have "cbuf_repr (cbuf_construct_until n x (cbuf_wrap ?b (cbuf_size ?b)) ?b) ((xs @ [x]) @ replicate (n - length (xs @ [x])) x)"
      by (rule Suc.hyps(1) [OF _ r]) (use Suc.hyps(2) Suc.prems(3) True in simp_all)
    ultimately show ?thesis by (simp only: split append_assoc append_Cons append_Nil)
  next
    case False
    then have "cbuf_construct_until n x (cbuf_wrap b (cbuf_size b)) b = ?b"
      using b(3) by (subst cbuf_construct_until.simps) (simp add: Let_def)
    moreover have "n - length xs = 1" using False Suc.prems(2) by simp
    ultimately show ?thesis using r by simp
  qed
qed simp

lemma resize_grow_repr:
  assumes r: "cbuf_repr b xs" and n: "length xs < n" "n + 1 < 2 ^ 64"
  shows "\<exists>b'. cbuf_resize n x b = Inr b' \<and> cbuf_repr b' (xs @ replicate (n - length xs) x)"
proof -
  obtain b1 where b1: "cbuf_reserve n b = Inr b1" "cbuf_repr b1 xs" "n < cbuf_allocated_size b1"
    using reserve_repr [OF r, of n] n by auto
  have "cbuf_resize n x b = Inr (cbuf_construct_until n x (cbuf_wrap b1 (cbuf_size b1)) b1)"
    using n(1) b1(1) cbuf_reprD(1) [OF r] by (simp add: cbuf_resize_def)
  then show ?thesis using construct_until_repr [OF b1(2) n(1) b1(3), of x] by blast
qed

lemma construct_all_repr:
  "cbuf_repr b ys \<Longrightarrow> cbuf_begin b = 0 \<Longrightarrow> length ys + length xs < cbuf_allocated_size b \<Longrightarrow>
   cbuf_repr (cbuf_construct_all xs b) (ys @ xs)"
proof (induction xs arbitrary: b ys)
  case (Cons x xs)
  have b: "rooted b" "length ys < cbuf_allocated_size b" "cbuf_size b = length ys"
    using cbuf_reprD(1,4) [OF Cons.prems(1)] Cons.prems(3) by auto
  let ?b = "b\<lparr>cbuf_memory := (cbuf_memory b)(cbuf_size b := Some x), cbuf_size := cbuf_size b + 1\<rparr>"
  have wrap: "cbuf_wrap b i = i" if "i < cbuf_allocated_size b" for i using that Cons.prems(2) by (simp add: cbuf_wrap_def Let_def)
  have "cbuf_repr ?b (ys @ [x])"
  proof (rule cbuf_repr_intro)
    fix i assume i: "i < cbuf_allocated_size ?b"
    then show "cbuf_memory ?b (cbuf_wrap ?b i) = (if i < length (ys @ [x]) then Some ((ys @ [x]) ! i) else None)"
      using b wrap [of i] cbuf_reprD(5,6) [OF Cons.prems(1), of i] by (auto simp: nth_append)
  next
    fix j assume "cbuf_allocated_size ?b \<le> j"
    then show "cbuf_memory ?b j = None" using Cons.prems(1) b(2,3) by (auto simp: cbuf_repr_def)
  qed (use b Cons.prems(3) cbuf_reprD(2) [OF Cons.prems(1)] in simp_all)
  from Cons.IH [OF this] Cons.prems(2,3) show ?case by simp
qed simp

lemma copy_forward_repr:
  assumes r: "cbuf_repr b []" and b: "cbuf_begin b = 0" and n: "length xs + 1 < 2 ^ 64"
  shows "\<exists>b'. cbuf_copy_forward xs b = Inr b' \<and> cbuf_repr b' xs"
proof -
  obtain b1 where b1: "cbuf_reserve (length xs) b = Inr b1" "cbuf_repr b1 []" "0 < length xs \<Longrightarrow> length xs < cbuf_allocated_size b1"
    using reserve_repr [OF r, of "length xs"] n by auto
  have z: "cbuf_begin b1 = 0"
  proof (cases "b1 = b")
    case False
    with b1(1) obtain m where "cbuf_realloc m b = Inr b1" by (auto simp: cbuf_reserve_def Let_def split: if_splits)
    then show ?thesis by (auto simp: cbuf_realloc_def split: if_splits sum.splits)
  qed (simp add: b)
  have "cbuf_repr (cbuf_construct_all xs b1) xs"
  proof (cases "xs = []")
    case False
    then show ?thesis using construct_all_repr [OF b1(2) z, of xs] b1(3) by simp
  qed (use b1(2) in simp)
  then show ?thesis using b1(1) b cbuf_reprD(1) [OF r] by (simp add: cbuf_copy_forward_def)
qed

lemma copy_input_repr:
  "cbuf_repr b ys \<Longrightarrow> length ys + length xs + 1 < 2 ^ 64 \<Longrightarrow>
   \<exists>b'. cbuf_copy_input xs b = Inr b' \<and> cbuf_repr b' (ys @ xs)"
proof (induction xs arbitrary: b ys)
  case (Cons x xs)
  obtain b1 where "cbuf_emplace_back x b = Inr b1" "cbuf_repr b1 (ys @ [x])"
    using emplace_back_repr [OF Cons.prems(1), of x] Cons.prems(2) by auto
  then show ?case using Cons.IH [of b1 "ys @ [x]"] Cons.prems(2) by simp
qed simp

section \<open>Iterators\<close>

text \<open>Position \<open>k\<close> of the list is the slot \<open>cbuf_wrap b k\<close>; the end is the slot behind the last element.\<close>

lemma iterators:
  assumes r: "cbuf_repr b xs" and k: "k \<le> length xs"
  shows "iter_add b (iter_begin b) (int k) = cbuf_wrap b k" "iter_end b = cbuf_wrap b (length xs)"
    "cbuf_wrap b k = iter_end b \<longleftrightarrow> k = length xs"
proof -
  show e: "iter_end b = cbuf_wrap b (length xs)" using cbuf_reprD(1) [OF r] by (simp add: iter_end_def)
  have lim: "k < 2 ^ 64" using k r by (auto simp: cbuf_repr_def split: if_splits)
  then have "to_size (int k) = k" by (simp add: to_size_def)
  then show "iter_add b (iter_begin b) (int k) = cbuf_wrap b k" by (simp add: iter_add_def iter_begin_def cbuf_unwrap_def)
  show "cbuf_wrap b k = iter_end b \<longleftrightarrow> k = length xs"
  proof (cases "xs = []")
    case False
    then have "rooted b" "length xs < cbuf_allocated_size b" using cbuf_reprD(3,4) [OF r] by auto
    then show ?thesis using k by (simp add: e wrap_eq)
  qed (use k e in simp)
qed

lemma walk_repr:
  assumes r: "cbuf_repr b xs"
  shows "k \<le> length xs \<Longrightarrow> cbuf_walk b (cbuf_wrap b k) = Some (Inr (drop k xs))"
proof (induction "length xs - k" arbitrary: k)
  case 0
  then show ?case using iterators(3) [OF r, of k] by (subst cbuf_walk.simps) simp
next
  case (Suc n)
  then have k: "k < length xs" "xs \<noteq> []" by auto
  then have b: "rooted b" "k + 1 < cbuf_allocated_size b" using cbuf_reprD(3,4) [OF r] by auto
  have "cbuf_walk b (cbuf_wrap b k) =
      Option.bind (cbuf_walk b (cbuf_wrap b (k + 1))) (\<lambda>s. Some (cbuf_bind s (\<lambda>ys. Inr (xs ! k # ys))))"
    using k iterators(3) [OF r, of k] inc_wrap [OF b] cbuf_reprD(5) [OF r k(1)]
    by (subst cbuf_walk.simps) (simp add: cbuf_read_slot_def)
  also have "cbuf_walk b (cbuf_wrap b (k + 1)) = Some (Inr (drop (k + 1) xs))"
    by (rule Suc.hyps(1)) (use Suc.hyps(2) k in simp_all)
  finally show ?case using k by (simp add: Cons_nth_drop_Suc)
qed

lemma range_repr: "cbuf_repr b xs \<Longrightarrow> cbuf_range b = Some (Inr xs)"
proof (cases "rooted b")
  case True
  assume "cbuf_repr b xs"
  from walk_repr [OF this, of 0] show ?thesis by (simp add: cbuf_range_def iter_begin_def wrap_0 [OF True])
next
  case False
  assume r: "cbuf_repr b xs"
  then have "xs = []" "cbuf_begin b = 0" using False by (auto simp: cbuf_repr_def split: if_splits)
  then show ?thesis using cbuf_reprD(1) [OF r] False
    by (simp add: cbuf_range_def iter_begin_def cbuf_walk.simps iter_end_def cbuf_wrap_def Let_def)
qed

lemma slots_arith:
  assumes r: "cbuf_repr b xs" and i: "i \<le> length xs" "j \<le> length xs"
  shows "iter_add b (cbuf_wrap b i) (int j - int i) = cbuf_wrap b j" "iter_sub b (cbuf_wrap b i) (int i - int j) = cbuf_wrap b j"
    "length xs < 2 ^ 63 \<Longrightarrow> iter_diff b (cbuf_wrap b j) (cbuf_wrap b i) = int j - int i"
    "iter_less b (cbuf_wrap b i) (cbuf_wrap b j) \<longleftrightarrow> i < j" "cbuf_wrap b i = cbuf_wrap b j \<longleftrightarrow> i = j"
    "i < length xs \<Longrightarrow> circular_inc b (cbuf_wrap b i) = cbuf_wrap b (i + 1)"
    "i < length xs \<Longrightarrow> circular_dec b (cbuf_wrap b (i + 1)) = cbuf_wrap b i"
proof -
  have uw: "cbuf_unwrap b (cbuf_wrap b k) = k" if "k \<le> length xs" for k
  proof (cases "cbuf_allocated_size b = 0")
    case True
    then show ?thesis using that r by (auto simp: cbuf_repr_def cbuf_unwrap_def cbuf_wrap_def)
  next
    case False
    then show ?thesis using that cbuf_reprD(4) [OF r] by auto
  qed
  have lim: "length xs < 2 ^ 64" using r by (auto simp: cbuf_repr_def split: if_splits)
  then have sz: "to_size (int k) = k" if "k \<le> length xs" for k using that by (simp add: to_size_def)
  show "iter_add b (cbuf_wrap b i) (int j - int i) = cbuf_wrap b j" "iter_sub b (cbuf_wrap b i) (int i - int j) = cbuf_wrap b j"
    using uw [OF i(1)] sz [OF i(2)] by (simp_all add: iter_add_def iter_sub_def)
  show "iter_diff b (cbuf_wrap b j) (cbuf_wrap b i) = int j - int i" if "length xs < 2 ^ 63"
    using uw [OF i(1)] uw [OF i(2)] i that
    by (simp add: iter_diff_def to_int64_def signed_take_bit_int_eq_self)
  show "iter_less b (cbuf_wrap b i) (cbuf_wrap b j) \<longleftrightarrow> i < j" using uw [OF i(1)] uw [OF i(2)] by (simp add: iter_less_def)
  show "cbuf_wrap b i = cbuf_wrap b j \<longleftrightarrow> i = j" using uw [OF i(1)] uw [OF i(2)] by metis
  have root: "rooted b \<and> length xs < cbuf_allocated_size b" if "i < length xs"
    using that cbuf_reprD(3) [OF r] cbuf_reprD(4) [OF r] by (cases xs) auto
  show "circular_inc b (cbuf_wrap b i) = cbuf_wrap b (i + 1)" if "i < length xs"
    using root [OF that] that by (intro inc_wrap) auto
  show "circular_dec b (cbuf_wrap b (i + 1)) = cbuf_wrap b i" if "i < length xs"
    using root [OF that] that dec_wrap [of b "i + 1"] by auto
qed

section \<open>Whole buffers\<close>

lemma copies_repr:
  assumes a: "cbuf_repr a xs" and b: "cbuf_repr b ys" and n: "length xs + 1 < 2 ^ 64"
  shows "\<exists>c. cbuf_copy_construct a = Some (Inr c) \<and> cbuf_repr c xs" "\<exists>c. cbuf_copy_assign a b = Some (Inr c) \<and> cbuf_repr c xs"
    "cbuf_move_assign a b = Inr (a, cbuf_new)"
proof -
  show "\<exists>c. cbuf_copy_construct a = Some (Inr c) \<and> cbuf_repr c xs"
    using copy_forward_repr [OF cbuf_repr_new _ n] by (auto simp: cbuf_copy_construct_def range_repr [OF a] cbuf_new_def)
  obtain b' where b': "cbuf_clear b = Inr b'" "cbuf_repr b' []" "cbuf_begin b' = 0" using clear_repr [OF b] by blast
  from copy_forward_repr [OF b'(2,3) n] show "\<exists>c. cbuf_copy_assign a b = Some (Inr c) \<and> cbuf_repr c xs"
    by (auto simp: cbuf_copy_assign_def range_repr [OF a] b'(1))
  show "cbuf_move_assign a b = Inr (a, cbuf_new)" using destroy_slots [OF b, of 0] by (auto simp: cbuf_move_assign_def)
qed

lemma compare_repr:
  assumes a: "cbuf_repr a xs" and b: "cbuf_repr b ys"
  shows "cbuf_equal a b = Some (Inr (xs = ys))" "cbuf_less lt a b = Some (Inr (lexicographical_compare lt xs ys))"
  by (simp_all add: cbuf_equal_def cbuf_less_def range_repr [OF a] range_repr [OF b])

text \<open>A buffer that is assigned to itself loses its elements.\<close>

lemma self_assign_empties: "cbuf_repr b xs \<Longrightarrow> \<exists>c. cbuf_self_assign b = Some (Inr c) \<and> cbuf_repr c []"
proof -
  assume b: "cbuf_repr b xs"
  obtain b' where b': "cbuf_clear b = Inr b'" "cbuf_repr b' []" "cbuf_begin b' = 0" using clear_repr [OF b] by blast
  from copy_forward_repr [OF b'(2,3), of "[]"] show ?thesis
    by (auto simp: cbuf_self_assign_def range_repr [OF b'(2)] b'(1))
qed

section \<open>Sequences of operations\<close>

datatype 'a cbuf_op =
    Push_front 'a | Push_back 'a | Pop_front | Pop_back | Clear | Reserve nat | Shrink_to_fit
  | Resize nat 'a | Assign "'a list"

definition cbuf_step :: "'a cbuf_op \<Rightarrow> 'a circular_buffer \<Rightarrow> cbuf_error + 'a circular_buffer" where
  "cbuf_step op =
     (case op of
        Push_front x \<Rightarrow> cbuf_emplace_front x
      | Push_back x \<Rightarrow> cbuf_emplace_back x
      | Pop_front \<Rightarrow> cbuf_pop_front
      | Pop_back \<Rightarrow> cbuf_pop_back
      | Clear \<Rightarrow> cbuf_clear
      | Reserve n \<Rightarrow> cbuf_reserve n
      | Shrink_to_fit \<Rightarrow> cbuf_shrink_to_fit
      | Resize n x \<Rightarrow> cbuf_resize n x
      | Assign xs \<Rightarrow> cbuf_assign_list xs)"

text \<open>The same operations on a list; \<open>limited n\<close> is the capacity check.\<close>

definition limited :: "nat \<Rightarrow> 'a list \<Rightarrow> cbuf_error + 'a list" where
  "limited n xs = (if n + 1 < 2 ^ 64 then Inr xs else Inl Overflow_error)"

definition list_step :: "'a cbuf_op \<Rightarrow> 'a list \<Rightarrow> cbuf_error + 'a list" where
  "list_step op xs =
     (case op of
        Push_front x \<Rightarrow> limited (length xs + 1) (x # xs)
      | Push_back x \<Rightarrow> limited (length xs + 1) (xs @ [x])
      | Pop_front \<Rightarrow> cbuf_assert (xs \<noteq> []) (Inr (tl xs))
      | Pop_back \<Rightarrow> cbuf_assert (xs \<noteq> []) (Inr (butlast xs))
      | Clear \<Rightarrow> Inr []
      | Reserve n \<Rightarrow> limited n xs
      | Shrink_to_fit \<Rightarrow> Inr xs
      | Resize n x \<Rightarrow> if n \<le> length xs then Inr (take n xs) else limited n (xs @ replicate (n - length xs) x)
      | Assign ys \<Rightarrow> limited (length ys) ys)"

text \<open>The operations that keep the contract: \<open>resize\<close> must not shorten the list, except to nothing, and
  space is reserved for all elements at least.\<close>

definition cbuf_op_ok :: "'a cbuf_op \<Rightarrow> 'a list \<Rightarrow> bool" where
  "cbuf_op_ok op xs \<longleftrightarrow>
     (case op of
        Reserve n \<Rightarrow> length xs \<le> n
      | Resize n x \<Rightarrow> n = 0 \<or> length xs \<le> n
      | _ \<Rightarrow> True)"

fun run_ops :: "('op \<Rightarrow> 's \<Rightarrow> cbuf_error + 's) \<Rightarrow> 'op list \<Rightarrow> 's \<Rightarrow> cbuf_error + 's" where
  "run_ops step [] s = Inr s"
| "run_ops step (op # ops) s = cbuf_bind (step op s) (run_ops step ops)"

fun ops_ok :: "'a cbuf_op list \<Rightarrow> 'a list \<Rightarrow> bool" where
  "ops_ok [] xs = True"
| "ops_ok (op # ops) xs = (cbuf_op_ok op xs \<and> (case list_step op xs of Inl e \<Rightarrow> True | Inr ys \<Rightarrow> ops_ok ops ys))"

lemma reserve_overflow: "2 ^ 64 \<le> n + 1 \<Longrightarrow> cbuf_reserve n b = Inl Overflow_error"
  by (auto simp: cbuf_reserve_def)

abbreviation agree :: "cbuf_error + 'a circular_buffer \<Rightarrow> cbuf_error + 'a list \<Rightarrow> bool" where
  "agree r q \<equiv> (case q of Inl e \<Rightarrow> r = Inl e | Inr xs \<Rightarrow> \<exists>b. r = Inr b \<and> cbuf_repr b xs)"

lemma step_agrees:
  assumes r: "cbuf_repr b xs" and ok: "cbuf_op_ok op xs"
  shows "agree (cbuf_step op b) (list_step op xs)"
proof -
  have size: "to_size (int (cbuf_size b) + 1) = length xs + 1" if "\<not> length xs + 2 < 2 ^ 64" "length xs + 1 < 2 ^ 64"
    using that cbuf_reprD(1) [OF r] by (simp add: to_size_def nat_add_distrib)
  have full: "length xs + 1 < 2 ^ 64"
  proof (cases "cbuf_allocated_size b = 0")
    case True
    then show ?thesis using r by (simp add: cbuf_repr_def)
  next
    case False
    then show ?thesis using cbuf_reprD(2,4) [OF r] by auto
  qed
  show ?thesis
  proof (cases op)
    case (Push_front x)
    then show ?thesis using emplace_front_repr [OF r, of x] reserve_overflow [of "length xs + 1" b] size full
      by (cases "length xs + 2 < 2 ^ 64") (auto simp: cbuf_step_def list_step_def limited_def cbuf_emplace_front_def Let_def)
  next
    case (Push_back x)
    then show ?thesis using emplace_back_repr [OF r, of x] reserve_overflow [of "length xs + 1" b] size full
      by (cases "length xs + 2 < 2 ^ 64") (auto simp: cbuf_step_def list_step_def limited_def cbuf_emplace_back_def Let_def)
  next
    case Pop_front
    then show ?thesis using pop_front_repr [OF r] by (auto simp: cbuf_step_def list_step_def)
  next
    case Pop_back
    then show ?thesis using pop_back_repr [OF r] by (auto simp: cbuf_step_def list_step_def)
  next
    case Clear
    then show ?thesis using clear_repr [OF r] by (auto simp: cbuf_step_def list_step_def)
  next
    case (Reserve n)
    then show ?thesis using reserve_repr [OF r, of n] reserve_overflow [of n b] ok
      by (cases "n + 1 < 2 ^ 64") (auto simp: cbuf_step_def list_step_def limited_def cbuf_op_ok_def)
  next
    case Shrink_to_fit
    then show ?thesis using shrink_repr [OF r] by (auto simp: cbuf_step_def list_step_def)
  next
    case (Resize n x)
    consider "length xs < n" "n + 1 < 2 ^ 64" | "length xs < n" "\<not> n + 1 < 2 ^ 64" | "n = length xs" | "n = 0" "xs \<noteq> []"
      using ok Resize by (fastforce simp: cbuf_op_ok_def)
    then show ?thesis
    proof cases
      case 1
      then show ?thesis using resize_grow_repr [OF r, of n x] Resize by (auto simp: cbuf_step_def list_step_def limited_def)
    next
      case 2
      then show ?thesis using Resize cbuf_reprD(1) [OF r] reserve_overflow [of n b]
        by (simp add: cbuf_step_def list_step_def limited_def cbuf_resize_def)
    next
      case 3
      have "cbuf_destroy n b = Inr b" using 3 cbuf_reprD(1) [OF r] by (simp add: cbuf_destroy_def cbuf_destroy_from.simps)
      moreover have "cbuf_repr (b\<lparr>cbuf_size := length xs\<rparr>) xs" using r unfolding cbuf_reprD(1) [OF r, symmetric] by simp
      ultimately show ?thesis using Resize 3 r cbuf_reprD(1) [OF r] by (simp add: cbuf_step_def list_step_def cbuf_resize_def)
    next
      case 4
      obtain b' where "cbuf_clear b = Inr b'" using clear_repr [OF r] by blast
      then obtain c where c: "cbuf_destroy 0 b = Inr c" by (auto split: sum.splits simp: cbuf_clear_def)
      from destroy_slots [OF r, of 0] obtain mem where m: "cbuf_destroy 0 b = Inr (b\<lparr>cbuf_memory := mem\<rparr>)"
        "\<And>t. t < cbuf_allocated_size b \<Longrightarrow> mem (cbuf_wrap b t) = None" "\<And>j. j \<ge> cbuf_allocated_size b \<Longrightarrow> mem j = None" by auto
      have "rooted b \<and> 0 < cbuf_allocated_size b" using cbuf_reprD(3) [OF r] 4 by auto
      then have "cbuf_repr (b\<lparr>cbuf_memory := mem, cbuf_size := 0\<rparr>) []"
        using m(2,3) cbuf_reprD(2) [OF r] by (intro cbuf_repr_intro) auto
      then show ?thesis using Resize 4 m(1) by (simp add: cbuf_step_def list_step_def cbuf_resize_def)
    qed
  next
    case (Assign ys)
    obtain b' where b': "cbuf_clear b = Inr b'" "cbuf_repr b' []" "cbuf_begin b' = 0" using clear_repr [OF r] by blast
    show ?thesis using Assign b' copy_forward_repr [OF b'(2,3), of ys] reserve_overflow [of "length ys" b'] cbuf_reprD(1) [OF b'(2)]
      by (cases "length ys + 1 < 2 ^ 64")
        (auto simp: cbuf_step_def list_step_def limited_def cbuf_assign_list_def cbuf_copy_forward_def)
  qed
qed

lemma run_agrees: "cbuf_repr b xs \<Longrightarrow> ops_ok ops xs \<Longrightarrow> agree (run_ops cbuf_step ops b) (run_ops list_step ops xs)"
proof (induction ops arbitrary: b xs)
  case (Cons op ops)
  then have a: "agree (cbuf_step op b) (list_step op xs)" by (intro step_agrees) simp_all
  show ?case
  proof (cases "list_step op xs")
    case (Inr ys)
    then obtain b1 where b1: "cbuf_step op b = Inr b1" "cbuf_repr b1 ys" using a by auto
    then have e: "run_ops cbuf_step (op # ops) b = run_ops cbuf_step ops b1" "run_ops list_step (op # ops) xs = run_ops list_step ops ys"
      using Inr by simp_all
    show ?thesis unfolding e by (rule Cons.IH [OF b1(2)]) (use Cons.prems(2) Inr in simp)
  qed (use a in simp)
qed simp

end
