(* ===== verification/Utf8.thy ===== *)
theory Utf8 imports Main "HOL-Library.Word" begin

text \<open>
  Transcoding between UTF-8 and UTF-16 (\<open>util/utf8.hpp\<close>).  The input is the list of the characters from
  \<open>in_begin\<close> to \<open>in_end\<close>, the output buffer its number of free places.  A function returns its result, the
  input that is left, which is where \<open>in_begin\<close> points afterwards, and the output it has written.  A step of
  a loop either stops with a result or takes some characters and writes others.
\<close>

unbundle bit_operations_syntax

datatype 'c step = Stop bool | Emit nat "'c list"

abbreviation chr16 :: "nat \<Rightarrow> 16 word" where "chr16 v \<equiv> of_nat v"
abbreviation chr8 :: "nat \<Rightarrow> 8 word" where "chr8 v \<equiv> of_nat v"

section \<open>From UTF-8\<close>

definition utf16_step :: "8 word list \<Rightarrow> nat \<Rightarrow> 16 word step" where
  "utf16_step bs room =
     (if bs = [] then Stop True
      else if room = 0 then Stop True
      else
        (let v1 = unat (bs ! 0); v2 = unat (bs ! 1); v3 = unat (bs ! 2); v4 = unat (bs ! 3)
         in if v1 < 0x80 then Emit 1 [chr16 v1]
            else if v1 < 0xC0 then Stop False
            else if v1 < 0xE0 then
              if length bs < 2 then Stop False
              else if v2 AND 0xC0 \<noteq> 0x80 then Stop False
              else
                (let v = push_bit 6 (v1 AND 0x1F) OR push_bit 0 (v2 AND 0x3F)
                 in if v < 0x80 then Stop False else Emit 2 [chr16 v])
            else if v1 < 0xF0 then
              if length bs < 3 then Stop False
              else if v2 AND 0xC0 \<noteq> 0x80 \<or> v3 AND 0xC0 \<noteq> 0x80 then Stop False
              else
                (let v = push_bit 12 (v1 AND 0x0F) OR push_bit 6 (v2 AND 0x3F) OR push_bit 0 (v3 AND 0x3F)
                 in if v < 0x800 then Stop False
                    else if 0xD800 \<le> v \<and> v < 0xE000 then Stop False
                    else Emit 3 [chr16 v])
            else if room = 1 then Stop True
            else if v1 < 0xF8 then
              if length bs < 4 then Stop False
              else if v2 AND 0xC0 \<noteq> 0x80 \<or> v3 AND 0xC0 \<noteq> 0x80 \<or> v4 AND 0xC0 \<noteq> 0x80 then Stop False
              else
                (let v = push_bit 18 (v1 AND 0x07) OR push_bit 12 (v2 AND 0x3F) OR push_bit 6 (v3 AND 0x3F) OR
                         push_bit 0 (v4 AND 0x3F)
                 in if v < 0x10000 then Stop False
                    else if 0x110000 \<le> v then Stop False
                    else
                      (let u = v - 0x10000
                       in Emit 4 [chr16 (0xD800 + u div 0x400), chr16 (0xDC00 + u mod 0x400)]))
            else Stop False))"

lemma utf16_step_takes: "utf16_step bs room = Emit n out \<Longrightarrow> 0 < n \<and> bs \<noteq> []"
  by (auto simp: utf16_step_def Let_def split: if_splits)

function to_utf16 :: "8 word list \<Rightarrow> nat \<Rightarrow> bool \<times> 8 word list \<times> 16 word list" where
  "to_utf16 bs room =
     (case utf16_step bs room of
        Stop ok \<Rightarrow> (ok, bs, [])
      | Emit n out \<Rightarrow>
          (case to_utf16 (drop n bs) (room - length out) of (ok, rest, more) \<Rightarrow> (ok, rest, out @ more)))"
  by pat_completeness auto
termination by (relation "measure (\<lambda>(bs, room). length bs)") (auto dest: utf16_step_takes)

text \<open>How many UTF-16 elements a string needs.\<close>

definition utf16_size_step :: "8 word list \<Rightarrow> (nat \<times> nat) option" where
  "utf16_size_step bs =
     (if bs = [] then None
      else
        (let v1 = unat (bs ! 0)
         in if v1 < 0x80 then Some (1, 1)
            else if v1 < 0xC0 then None
            else if v1 < 0xE0 then if length bs < 2 then None else Some (2, 1)
            else if v1 < 0xF0 then if length bs < 3 then None else Some (3, 1)
            else if v1 < 0xF8 then if length bs < 4 then None else Some (4, 2)
            else None))"

lemma utf16_size_step_takes: "utf16_size_step bs = Some (n, k) \<Longrightarrow> 0 < n \<and> bs \<noteq> []"
  by (auto simp: utf16_size_step_def Let_def split: if_splits)

function find_utf16_buf_size :: "8 word list \<Rightarrow> nat \<Rightarrow> 8 word list \<times> nat" where
  "find_utf16_buf_size bs num_out =
     (case utf16_size_step bs of
        None \<Rightarrow> (bs, num_out)
      | Some (n, k) \<Rightarrow> find_utf16_buf_size (drop n bs) (num_out + k))"
  by pat_completeness auto
termination by (relation "measure (\<lambda>(bs, n). length bs)") (auto dest: utf16_size_step_takes)

section \<open>From UTF-16\<close>

definition utf8_step :: "16 word list \<Rightarrow> nat \<Rightarrow> 8 word step" where
  "utf8_step cs room =
     (if cs = [] then Stop True
      else
        (let v1 = unat (cs ! 0); v2 = unat (cs ! 1)
         in if v1 < 0x80 then if room = 0 then Stop True else Emit 1 [chr8 v1]
            else if v1 < 0x800 then
              if room < 2 then Stop True else Emit 1 [chr8 (0xC0 + v1 div 0x40), chr8 (0x80 + v1 mod 0x40)]
            else if v1 < 0xD800 \<or> 0xE000 \<le> v1 then
              if room < 3 then Stop True
              else Emit 1 [chr8 (0xE0 + v1 div 0x1000), chr8 (0x80 + v1 div 0x40 mod 0x40), chr8 (0x80 + v1 mod 0x40)]
            else if room < 4 then Stop True
            else if 0xDC00 \<le> v1 then Stop False
            else if length cs = 1 then Stop False
            else if v2 < 0xDC00 \<or> 0xE000 \<le> v2 then Stop False
            else
              (let v = 0x10000 + ((v1 - 0xD800) * 0x400 + (v2 - 0xDC00))
               in Emit 2 [chr8 (0xF0 + v div 0x40000), chr8 (0x80 + v div 0x1000 mod 0x40),
                          chr8 (0x80 + v div 0x40 mod 0x40), chr8 (0x80 + v mod 0x40)])))"

lemma utf8_step_takes: "utf8_step cs room = Emit n out \<Longrightarrow> 0 < n \<and> cs \<noteq> []"
  by (auto simp: utf8_step_def Let_def split: if_splits)

function to_utf8 :: "16 word list \<Rightarrow> nat \<Rightarrow> bool \<times> 16 word list \<times> 8 word list" where
  "to_utf8 cs room =
     (case utf8_step cs room of
        Stop ok \<Rightarrow> (ok, cs, [])
      | Emit n out \<Rightarrow>
          (case to_utf8 (drop n cs) (room - length out) of (ok, rest, more) \<Rightarrow> (ok, rest, out @ more)))"
  by pat_completeness auto
termination by (relation "measure (\<lambda>(cs, room). length cs)") (auto dest: utf8_step_takes)

text \<open>The size stops before it would overflow.\<close>

definition utf8_size_step :: "16 word list \<Rightarrow> nat \<Rightarrow> (nat \<times> nat) option" where
  "utf8_size_step cs num_out =
     (if cs = [] then None
      else
        (let v = unat (cs ! 0); add = (\<lambda>n k. if num_out + k \<ge> 2 ^ 64 then None else Some (n, k))
         in if v < 0x80 then add 1 1
            else if v < 0x800 then add 1 2
            else if v < 0xD800 \<or> 0xE000 \<le> v then add 1 3
            else if length cs = 1 then None
            else add 2 4))"

lemma utf8_size_step_takes: "utf8_size_step cs m = Some (n, k) \<Longrightarrow> 0 < n \<and> cs \<noteq> []"
  by (auto simp: utf8_size_step_def Let_def split: if_splits)

function find_utf8_buf_size :: "16 word list \<Rightarrow> nat \<Rightarrow> 16 word list \<times> nat" where
  "find_utf8_buf_size cs num_out =
     (case utf8_size_step cs num_out of
        None \<Rightarrow> (cs, num_out)
      | Some (n, k) \<Rightarrow> find_utf8_buf_size (drop n cs) (num_out + k))"
  by pat_completeness auto
termination by (relation "measure (\<lambda>(cs, n). length cs)") (auto dest: utf8_size_step_takes)

declare to_utf16.simps [simp del] find_utf16_buf_size.simps [simp del] to_utf8.simps [simp del]
  find_utf8_buf_size.simps [simp del]

section \<open>Code points\<close>

text \<open>The Unicode scalar values and their two encodings.\<close>

definition scalar :: "nat \<Rightarrow> bool" where
  "scalar c \<longleftrightarrow> c < 0xD800 \<or> 0xE000 \<le> c \<and> c < 0x110000"

definition enc8 :: "nat \<Rightarrow> 8 word list" where
  "enc8 c =
     (if c < 0x80 then [chr8 c]
      else if c < 0x800 then [chr8 (0xC0 + c div 0x40), chr8 (0x80 + c mod 0x40)]
      else if c < 0x10000 then
        [chr8 (0xE0 + c div 0x1000), chr8 (0x80 + c div 0x40 mod 0x40), chr8 (0x80 + c mod 0x40)]
      else [chr8 (0xF0 + c div 0x40000), chr8 (0x80 + c div 0x1000 mod 0x40), chr8 (0x80 + c div 0x40 mod 0x40),
            chr8 (0x80 + c mod 0x40)])"

definition enc16 :: "nat \<Rightarrow> 16 word list" where
  "enc16 c =
     (if c < 0x10000 then [chr16 c]
      else [chr16 (0xD800 + (c - 0x10000) div 0x400), chr16 (0xDC00 + (c - 0x10000) mod 0x400)])"

section \<open>What transcoding does\<close>

text \<open>
  Transcoding takes and writes whole code points: a step takes the encoding of a scalar value in the one
  form and writes its encoding in the other, and stops in front of anything else.
\<close>

section \<open>Bits of a byte\<close>

lemma low_bits_nat:
  "v AND 0x1F = v mod 32" "v AND 0x3F = v mod 64" "v AND 0x0F = v mod 16" "v AND 0x07 = v mod 8" for v :: nat
  using take_bit_eq_mask [of 5 v] take_bit_eq_mask [of 6 v] take_bit_eq_mask [of 4 v] take_bit_eq_mask [of 3 v]
  by (simp_all add: mask_eq_exp_minus_1 take_bit_eq_mod)

lemma high_bits: "v < 256 \<Longrightarrow> v AND 0xC0 = v div 64 * 64" for v :: nat
proof -
  assume v: "v < 256"
  have m: "0xC0 = push_bit 6 (mask 2 :: nat)" by (simp add: mask_eq_exp_minus_1 push_bit_eq_mult)
  have "v AND 0xC0 = push_bit 6 (take_bit 2 (drop_bit 6 v))"
    unfolding m by (rule bit_eqI) (auto simp: bit_simps)
  also have "\<dots> = v div 64 mod 4 * 64" by (simp add: push_bit_eq_mult take_bit_eq_mod drop_bit_eq_div)
  also have "v div 64 mod 4 = v div 64" using v by (intro mod_less) (simp add: less_mult_imp_div_less)
  finally show ?thesis .
qed

lemma continuation: "v < 256 \<Longrightarrow> v AND 0xC0 \<noteq> 0x80 \<longleftrightarrow> \<not> (128 \<le> v \<and> v < 192)" for v :: nat
proof -
  assume v: "v < 256"
  define q r where "q = v div 64" and "r = v mod 64"
  have "v = 64 * q + r" "r < 64" by (simp_all add: q_def r_def)
  then have "q * 64 = 128 \<longleftrightarrow> 128 \<le> v \<and> v < 192" by arith
  then show ?thesis by (simp add: high_bits [OF v] q_def)
qed

lemma or_shifted: "b < 2 ^ n \<Longrightarrow> push_bit n a OR b = 2 ^ n * a + b" for a b :: nat
proof -
  assume "b < 2 ^ n"
  then have "take_bit n b = b" by (simp add: take_bit_nat_eq_self)
  then have low: "k < n" if "bit b k" for k using that by (metis bit_take_bit_iff)
  have "push_bit n a AND b = 0" by (intro bit_eqI) (auto simp: bit_simps dest: low)
  then show ?thesis using disjunctive_add_eq_or [of "push_bit n a" b] by (simp add: push_bit_eq_mult mult.commute)
qed

lemma byte_limit: "unat (b :: 8 word) < 256"
  by (rule less_le_trans [OF unsigned_less]) simp

section \<open>Code points\<close>

lemma scalar_limit: "scalar c \<Longrightarrow> c < 0x110000"
  by (auto simp: scalar_def)

text \<open>The bytes of an encoding, and back: two, three and four bytes.\<close>

lemma two_bytes: "push_bit 6 (v1 AND 0x1F) OR push_bit 0 (v2 AND 0x3F) = 64 * (v1 mod 32) + v2 mod 64" for v1 v2 :: nat
  unfolding low_bits_nat push_bit_0_id id_apply by (subst or_shifted) simp_all

lemma three_bytes_value:
  "push_bit 12 (v1 AND 0x0F) OR push_bit 6 (v2 AND 0x3F) OR push_bit 0 (v3 AND 0x3F) =
   4096 * (v1 mod 16) + 64 * (v2 mod 64) + v3 mod 64" for v1 v2 v3 :: nat
proof -
  have e: "push_bit 6 (v2 mod 64) OR v3 mod 64 = 64 * (v2 mod 64) + v3 mod 64" by (subst or_shifted) simp_all
  have "v2 mod 64 < 64" "v3 mod 64 < 64" by simp_all
  then have "64 * (v2 mod 64) + v3 mod 64 < 2 ^ 12" unfolding power_numeral by simp
  from or_shifted [OF this, of "v1 mod 16"] show ?thesis unfolding low_bits_nat push_bit_0_id id_apply or.assoc e by simp
qed

lemma four_bytes_value:
  "push_bit 18 (v1 AND 0x07) OR push_bit 12 (v2 AND 0x3F) OR push_bit 6 (v3 AND 0x3F) OR push_bit 0 (v4 AND 0x3F) =
   262144 * (v1 mod 8) + 4096 * (v2 mod 64) + 64 * (v3 mod 64) + v4 mod 64" for v1 v2 v3 v4 :: nat
proof -
  have e: "push_bit 6 (v3 mod 64) OR v4 mod 64 = 64 * (v3 mod 64) + v4 mod 64" by (subst or_shifted) simp_all
  have l: "v2 mod 64 < 64" "v3 mod 64 < 64" "v4 mod 64 < 64" by simp_all
  then have "64 * (v3 mod 64) + v4 mod 64 < 2 ^ 12" unfolding power_numeral by simp
  from or_shifted [OF this, of "v2 mod 64"]
  have f: "push_bit 12 (v2 mod 64) OR (64 * (v3 mod 64) + v4 mod 64) = 4096 * (v2 mod 64) + (64 * (v3 mod 64) + v4 mod 64)"
    by simp
  have "4096 * (v2 mod 64) + (64 * (v3 mod 64) + v4 mod 64) < 2 ^ 18" using l unfolding power_numeral by simp
  from or_shifted [OF this, of "v1 mod 8"] show ?thesis unfolding low_bits_nat push_bit_0_id id_apply or.assoc e f by simp
qed

text \<open>The step without bit operations.\<close>

lemma utf16_step_eq:
  "utf16_step bs room =
     (if bs = [] then Stop True
      else if room = 0 then Stop True
      else
        (let v1 = unat (bs ! 0); v2 = unat (bs ! 1); v3 = unat (bs ! 2); v4 = unat (bs ! 3);
             cont = (\<lambda>v. 128 \<le> v \<and> v < 192)
         in if v1 < 0x80 then Emit 1 [chr16 v1]
            else if v1 < 0xC0 then Stop False
            else if v1 < 0xE0 then
              if length bs < 2 \<or> \<not> cont v2 then Stop False
              else
                (let v = 64 * (v1 mod 32) + v2 mod 64
                 in if v < 0x80 then Stop False else Emit 2 [chr16 v])
            else if v1 < 0xF0 then
              if length bs < 3 \<or> \<not> cont v2 \<or> \<not> cont v3 then Stop False
              else
                (let v = 4096 * (v1 mod 16) + 64 * (v2 mod 64) + v3 mod 64
                 in if v < 0x800 \<or> 0xD800 \<le> v \<and> v < 0xE000 then Stop False else Emit 3 [chr16 v])
            else if room = 1 then Stop True
            else if v1 < 0xF8 then
              if length bs < 4 \<or> \<not> cont v2 \<or> \<not> cont v3 \<or> \<not> cont v4 then Stop False
              else
                (let v = 262144 * (v1 mod 8) + 4096 * (v2 mod 64) + 64 * (v3 mod 64) + v4 mod 64
                 in if v < 0x10000 \<or> 0x110000 \<le> v then Stop False
                    else Emit 4 [chr16 (0xD800 + (v - 0x10000) div 0x400), chr16 (0xDC00 + (v - 0x10000) mod 0x400)])
            else Stop False))"
  unfolding utf16_step_def two_bytes three_bytes_value four_bytes_value continuation [OF byte_limit] Let_def
  by (simp only: if_distrib de_Morgan_disj not_not cong: if_cong) simp

lemma unat_chr8: "v < 256 \<Longrightarrow> unat (chr8 v) = v"
  by (simp add: unat_of_nat)

lemma chr8_unat: "v = unat b \<Longrightarrow> chr8 v = b"
  by simp

lemma upper_digits:
  fixes c :: nat
  shows "c < 0x800 \<Longrightarrow> c div 0x40 < 32" "c < 0x10000 \<Longrightarrow> c div 0x1000 < 16" "c < 0x110000 \<Longrightarrow> c div 0x40000 < 5"
    "c div 0x40 mod 0x40 < 64" "c mod 0x40 < 64" "c div 0x1000 mod 0x40 < 64"
  by (simp_all add: less_mult_imp_div_less)

lemma digits:
  fixes c :: nat
  shows "64 * (c div 0x40) + c mod 0x40 = c" "4096 * (c div 0x1000) + 64 * (c div 0x40 mod 0x40) + c mod 0x40 = c"
    "262144 * (c div 0x40000) + 4096 * (c div 0x1000 mod 0x40) + 64 * (c div 0x40 mod 0x40) + c mod 0x40 = c"
proof -
  have a: "64 * (c div 64) + c mod 64 = c" by simp
  have b: "64 * (c div 64 div 64) + c div 64 mod 64 = c div 64" by simp
  have d: "64 * (c div 64 div 64 div 64) + c div 64 div 64 mod 64 = c div 64 div 64" by simp
  have e: "c div 64 div 64 = c div 0x1000" "c div 0x1000 div 64 = c div 0x40000" by (simp_all add: div_mult2_eq [symmetric])
  show "64 * (c div 0x40) + c mod 0x40 = c" by (rule a)
  show "4096 * (c div 0x1000) + 64 * (c div 0x40 mod 0x40) + c mod 0x40 = c" using a b unfolding e by linarith
  show "262144 * (c div 0x40000) + 4096 * (c div 0x1000 mod 0x40) + 64 * (c div 0x40 mod 0x40) + c mod 0x40 = c"
    using a b d unfolding e by linarith
qed

lemma lead_mod: "x < 32 \<Longrightarrow> (0xC0 + x) mod 32 = x" "x < 16 \<Longrightarrow> (0xE0 + x) mod 16 = x" "x < 8 \<Longrightarrow> (0xF0 + x) mod 8 = x"
  "x < 64 \<Longrightarrow> (0x80 + x) mod 64 = x" for x :: nat
proof -
  show "x < 32 \<Longrightarrow> (0xC0 + x) mod 32 = x" using mod_mult_self3 [of 6 32 x] by simp
  show "x < 16 \<Longrightarrow> (0xE0 + x) mod 16 = x" using mod_mult_self3 [of 14 16 x] by simp
  show "x < 8 \<Longrightarrow> (0xF0 + x) mod 8 = x" using mod_mult_self3 [of 30 8 x] by simp
  show "x < 64 \<Longrightarrow> (0x80 + x) mod 64 = x" using mod_mult_self3 [of 2 64 x] by simp
qed

lemma utf16_step_enc:
  assumes c: "scalar c" and room: "length (enc16 c) \<le> room"
  shows "utf16_step (enc8 c @ rest) room = Emit (length (enc8 c)) (enc16 c)"
proof -
  note d = upper_digits [of c] digits [of c]
  consider "c < 0x80" | "0x80 \<le> c" "c < 0x800" | "0x800 \<le> c" "c < 0x10000" | "0x10000 \<le> c" "c < 0x110000"
    using scalar_limit [OF c] by linarith
  then show ?thesis
  proof cases
    case 1
    then have "unat (chr8 c) = c" by (intro unat_chr8) simp
    then show ?thesis using 1 room unfolding utf16_step_eq by (simp add: enc8_def enc16_def)
  next
    case 2
    define x y where "x = c div 0x40" and "y = c mod 0x40"
    have xy: "x < 32" "y < 64" "64 * x + y = c" using 2 d by (auto simp: x_def y_def)
    have u: "unat (chr8 (0xC0 + x)) = 0xC0 + x" "unat (chr8 (0x80 + y)) = 0x80 + y"
      using xy by (intro unat_chr8, simp)+
    have enc: "enc8 c = [chr8 (0xC0 + x), chr8 (0x80 + y)]" "enc16 c = [chr16 c]"
      using 2 by (simp_all add: enc8_def enc16_def x_def y_def)
    have b: "(enc8 c @ rest) ! 0 = chr8 (0xC0 + x)" "(enc8 c @ rest) ! 1 = chr8 (0x80 + y)" by (simp_all add: enc)
    show ?thesis unfolding utf16_step_eq b u Let_def lead_mod(1) [OF xy(1)] lead_mod(4) [OF xy(2)]
      using xy 2 room by (simp add: enc)
  next
    case 3
    define x y z where "x = c div 0x1000" and "y = c div 0x40 mod 0x40" and "z = c mod 0x40"
    have xy: "x < 16" "y < 64" "z < 64" "4096 * x + 64 * y + z = c" using 3 d by (auto simp: x_def y_def z_def)
    have u: "unat (chr8 (0xE0 + x)) = 0xE0 + x" "unat (chr8 (0x80 + y)) = 0x80 + y" "unat (chr8 (0x80 + z)) = 0x80 + z"
      using xy by (intro unat_chr8, simp)+
    have enc: "enc8 c = [chr8 (0xE0 + x), chr8 (0x80 + y), chr8 (0x80 + z)]" "enc16 c = [chr16 c]"
      using 3 by (simp_all add: enc8_def enc16_def x_def y_def z_def)
    have b: "(enc8 c @ rest) ! 0 = chr8 (0xE0 + x)" "(enc8 c @ rest) ! 1 = chr8 (0x80 + y)"
      "(enc8 c @ rest) ! 2 = chr8 (0x80 + z)" by (simp_all add: enc)
    show ?thesis
      unfolding utf16_step_eq b u Let_def lead_mod(2) [OF xy(1)] lead_mod(4) [OF xy(2)] lead_mod(4) [OF xy(3)] xy(4)
      using xy 3 c room by (auto simp: enc scalar_def)
  next
    case 4
    define x y z w where "x = c div 0x40000" and "y = c div 0x1000 mod 0x40" and "z = c div 0x40 mod 0x40" and "w = c mod 0x40"
    have xy: "x < 5" "y < 64" "z < 64" "w < 64" "262144 * x + 4096 * y + 64 * z + w = c"
      using 4 d by (auto simp: x_def y_def z_def w_def)
    then have x8: "x < 8" by simp
    have u: "unat (chr8 (0xF0 + x)) = 0xF0 + x" "unat (chr8 (0x80 + y)) = 0x80 + y" "unat (chr8 (0x80 + z)) = 0x80 + z"
      "unat (chr8 (0x80 + w)) = 0x80 + w"
      using xy by (intro unat_chr8, simp)+
    have enc: "enc8 c = [chr8 (0xF0 + x), chr8 (0x80 + y), chr8 (0x80 + z), chr8 (0x80 + w)]"
      "enc16 c = [chr16 (0xD800 + (c - 0x10000) div 0x400), chr16 (0xDC00 + (c - 0x10000) mod 0x400)]"
      using 4 by (simp_all add: enc8_def enc16_def x_def y_def z_def w_def)
    have b: "(enc8 c @ rest) ! 0 = chr8 (0xF0 + x)" "(enc8 c @ rest) ! 1 = chr8 (0x80 + y)"
      "(enc8 c @ rest) ! 2 = chr8 (0x80 + z)" "(enc8 c @ rest) ! 3 = chr8 (0x80 + w)" by (simp_all add: enc)
    show ?thesis
      unfolding utf16_step_eq b u Let_def lead_mod(3) [OF x8] lead_mod(4) [OF xy(2)] lead_mod(4) [OF xy(3)] lead_mod(4) [OF xy(4)] xy(5)
      using xy 4 room by (simp add: enc)
  qed
qed

text \<open>What a step takes is an encoding.\<close>

lemma take_front:
  "1 \<le> length xs \<Longrightarrow> take 1 xs = [xs ! 0]" "2 \<le> length xs \<Longrightarrow> take 2 xs = [xs ! 0, xs ! 1]"
  "3 \<le> length xs \<Longrightarrow> take 3 xs = [xs ! 0, xs ! 1, xs ! 2]"
  "4 \<le> length xs \<Longrightarrow> take 4 xs = [xs ! 0, xs ! 1, xs ! 2, xs ! 3]"
  by (auto simp: Suc_le_length_iff numeral_eq_Suc)

lemma undigits:
  fixes x y z w :: nat
  shows "y < 64 \<Longrightarrow> (64 * x + y) div 64 = x \<and> (64 * x + y) mod 64 = y"
    "y < 64 \<Longrightarrow> z < 64 \<Longrightarrow> (4096 * x + 64 * y + z) div 4096 = x \<and> (4096 * x + 64 * y + z) div 64 mod 64 = y \<and>
       (4096 * x + 64 * y + z) mod 64 = z"
    "y < 64 \<Longrightarrow> z < 64 \<Longrightarrow> w < 64 \<Longrightarrow> (262144 * x + 4096 * y + 64 * z + w) div 262144 = x \<and>
       (262144 * x + 4096 * y + 64 * z + w) div 4096 mod 64 = y \<and> (262144 * x + 4096 * y + 64 * z + w) div 64 mod 64 = z \<and>
       (262144 * x + 4096 * y + 64 * z + w) mod 64 = w"
proof -
  have one: "(64 * x + y) div 64 = x \<and> (64 * x + y) mod 64 = y" if "y < 64" for x y :: nat using that by simp
  have e: "c div 4096 = c div 64 div 64" "c div 262144 = c div 64 div 64 div 64" for c :: nat
    by (simp_all add: div_mult2_eq [symmetric])
  show "y < 64 \<Longrightarrow> (64 * x + y) div 64 = x \<and> (64 * x + y) mod 64 = y" by (rule one)
  have f: "4096 * x + 64 * y + z = 64 * (64 * x + y) + z" by simp
  show "y < 64 \<Longrightarrow> z < 64 \<Longrightarrow> (4096 * x + 64 * y + z) div 4096 = x \<and> (4096 * x + 64 * y + z) div 64 mod 64 = y \<and>
       (4096 * x + 64 * y + z) mod 64 = z"
    unfolding e f using one [of z "64 * x + y"] one [of y x] by simp
  have g: "262144 * x + 4096 * y + 64 * z + w = 64 * (64 * (64 * x + y) + z) + w" by simp
  show "y < 64 \<Longrightarrow> z < 64 \<Longrightarrow> w < 64 \<Longrightarrow> (262144 * x + 4096 * y + 64 * z + w) div 262144 = x \<and>
       (262144 * x + 4096 * y + 64 * z + w) div 4096 mod 64 = y \<and> (262144 * x + 4096 * y + 64 * z + w) div 64 mod 64 = z \<and>
       (262144 * x + 4096 * y + 64 * z + w) mod 64 = w"
    unfolding e g using one [of w "64 * (64 * x + y) + z"] one [of z "64 * x + y"] one [of y x] by simp
qed

lemma lead_offset:
  "192 \<le> v \<Longrightarrow> v < 224 \<Longrightarrow> v mod 32 = v - 192" "224 \<le> v \<Longrightarrow> v < 240 \<Longrightarrow> v mod 16 = v - 224"
  "240 \<le> v \<Longrightarrow> v < 248 \<Longrightarrow> v mod 8 = v - 240" "128 \<le> v \<Longrightarrow> v < 192 \<Longrightarrow> v mod 64 = v - 128" for v :: nat
  using lead_mod(1) [of "v - 192"] lead_mod(2) [of "v - 224"] lead_mod(3) [of "v - 240"] lead_mod(4) [of "v - 128"] by simp_all

lemma emit_two:
  assumes "192 \<le> unat b1" "unat b1 < 224" "128 \<le> unat b2" "unat b2 < 192" "128 \<le> v"
    and v: "v = 64 * (unat b1 mod 32) + unat b2 mod 64"
  shows "scalar v \<and> enc8 v = [b1, b2] \<and> enc16 v = [chr16 v]"
proof -
  define x y where "x = unat b1 - 192" and "y = unat b2 - 128"
  have xy: "x < 32" "y < 64" "192 + x = unat b1" "128 + y = unat b2" using assms(1-4) by (auto simp: x_def y_def)
  have v: "v = 64 * x + y" using v assms(1-4) by (simp add: lead_offset x_def y_def)
  have c: "chr8 (192 + v div 64) = b1" "chr8 (128 + v mod 64) = b2"
    using undigits(1) [OF xy(2), of x] xy by (simp_all add: v)
  have "v < 2048" using v xy by linarith
  then show ?thesis using assms(5) c by (simp add: scalar_def enc8_def enc16_def)
qed

lemma emit_three:
  assumes "224 \<le> unat b1" "unat b1 < 240" "128 \<le> unat b2" "unat b2 < 192" "128 \<le> unat b3" "unat b3 < 192"
    and "2048 \<le> v" "\<not> (0xD800 \<le> v \<and> v < 0xE000)" and v: "v = 4096 * (unat b1 mod 16) + 64 * (unat b2 mod 64) + unat b3 mod 64"
  shows "scalar v \<and> enc8 v = [b1, b2, b3] \<and> enc16 v = [chr16 v]"
proof -
  define x y z where "x = unat b1 - 224" and "y = unat b2 - 128" and "z = unat b3 - 128"
  have xy: "x < 16" "y < 64" "z < 64" "224 + x = unat b1" "128 + y = unat b2" "128 + z = unat b3"
    using assms(1-6) by (auto simp: x_def y_def z_def)
  have v: "v = 4096 * x + 64 * y + z" using v assms(1-6) by (simp add: lead_offset x_def y_def z_def)
  have c: "chr8 (224 + v div 4096) = b1" "chr8 (128 + v div 64 mod 64) = b2" "chr8 (128 + v mod 64) = b3"
    using undigits(2) [OF xy(2,3), of x] xy by (simp_all add: v)
  have "v < 65536" using v xy by linarith
  then show ?thesis using assms(7,8) c by (auto simp: scalar_def enc8_def enc16_def)
qed

lemma emit_four:
  assumes "240 \<le> unat b1" "unat b1 < 248" "128 \<le> unat b2" "unat b2 < 192" "128 \<le> unat b3" "unat b3 < 192"
    "128 \<le> unat b4" "unat b4 < 192"
    and "0x10000 \<le> v" "v < 0x110000"
    and v: "v = 262144 * (unat b1 mod 8) + 4096 * (unat b2 mod 64) + 64 * (unat b3 mod 64) + unat b4 mod 64"
  shows "scalar v \<and> enc8 v = [b1, b2, b3, b4] \<and>
    enc16 v = [chr16 (0xD800 + (v - 0x10000) div 0x400), chr16 (0xDC00 + (v - 0x10000) mod 0x400)]"
proof -
  define x y z w where "x = unat b1 - 240" and "y = unat b2 - 128" and "z = unat b3 - 128" and "w = unat b4 - 128"
  have xy: "x < 8" "y < 64" "z < 64" "w < 64" "240 + x = unat b1" "128 + y = unat b2" "128 + z = unat b3" "128 + w = unat b4"
    using assms(1-8) by (auto simp: x_def y_def z_def w_def)
  have v: "v = 262144 * x + 4096 * y + 64 * z + w" using v assms(1-8) by (simp add: lead_offset x_def y_def z_def w_def)
  have c: "chr8 (240 + v div 262144) = b1" "chr8 (128 + v div 4096 mod 64) = b2" "chr8 (128 + v div 64 mod 64) = b3"
    "chr8 (128 + v mod 64) = b4"
    using undigits(3) [OF xy(2,3,4), of x] xy by (simp_all add: v)
  show ?thesis using assms(9,10) c by (auto simp: scalar_def enc8_def enc16_def)
qed

lemma utf16_step_nothing: "bs = [] \<or> room = 0 \<Longrightarrow> utf16_step bs room = Stop True"
  by (auto simp: utf16_step_def)

lemma utf16_step_emits:
  assumes s: "utf16_step bs room = Emit n out"
  shows "\<exists>c. scalar c \<and> take n bs = enc8 c \<and> n = length (enc8 c) \<and> n \<le> length bs \<and> out = enc16 c \<and> length out \<le> room"
proof -
  let ?v1 = "unat (bs ! 0)" and ?v2 = "unat (bs ! 1)" and ?v3 = "unat (bs ! 2)" and ?v4 = "unat (bs ! 3)"
  let ?two = "64 * (?v1 mod 32) + ?v2 mod 64" and ?three = "4096 * (?v1 mod 16) + 64 * (?v2 mod 64) + ?v3 mod 64"
  let ?four = "262144 * (?v1 mod 8) + 4096 * (?v2 mod 64) + 64 * (?v3 mod 64) + ?v4 mod 64"
  from s have b: "bs \<noteq> []" "room \<noteq> 0" using utf16_step_nothing [of bs room] by auto
  then have len: "1 \<le> length bs" by (cases bs) simp_all
  consider (one) "?v1 < 0x80" | (bad) "0x80 \<le> ?v1" "?v1 < 0xC0" | (two) "0xC0 \<le> ?v1" "?v1 < 0xE0"
    | (three) "0xE0 \<le> ?v1" "?v1 < 0xF0" | (four) "0xF0 \<le> ?v1" by linarith
  then show ?thesis
  proof cases
    case one
    then have "n = 1" "out = [chr16 ?v1]" using s b unfolding utf16_step_eq by (simp_all add: Let_def)
    moreover have "scalar ?v1" "enc8 ?v1 = [bs ! 0]" "enc16 ?v1 = [chr16 ?v1]"
      using one by (simp_all add: scalar_def enc8_def enc16_def)
    ultimately show ?thesis using b len take_front(1) [OF len] by (intro exI [of _ ?v1]) simp
  next
    case bad
    then show ?thesis using s b unfolding utf16_step_eq by (simp add: Let_def)
  next
    case two
    then have r: "2 \<le> length bs" "128 \<le> ?v2" "?v2 < 192" "128 \<le> ?two" "n = 2" "out = [chr16 ?two]"
      using s b unfolding utf16_step_eq by (auto simp: Let_def split: if_splits)
    from emit_two [OF two r(2-4) refl] show ?thesis
      using r take_front(2) [OF r(1)] b by (intro exI [of _ ?two]) simp
  next
    case three
    then have r: "3 \<le> length bs" "128 \<le> ?v2" "?v2 < 192" "128 \<le> ?v3" "?v3 < 192" "2048 \<le> ?three"
      "\<not> (0xD800 \<le> ?three \<and> ?three < 0xE000)" "n = 3" "out = [chr16 ?three]"
      using s b unfolding utf16_step_eq by (auto simp: Let_def split: if_splits)
    from emit_three [OF three r(2-7) refl] show ?thesis
      using r take_front(3) [OF r(1)] b by (intro exI [of _ ?three]) simp
  next
    case four
    then have r: "4 \<le> length bs" "?v1 < 248" "128 \<le> ?v2" "?v2 < 192" "128 \<le> ?v3" "?v3 < 192" "128 \<le> ?v4" "?v4 < 192"
      "0x10000 \<le> ?four" "?four < 0x110000" "n = 4" "room \<noteq> 1"
      "out = [chr16 (0xD800 + (?four - 0x10000) div 0x400), chr16 (0xDC00 + (?four - 0x10000) mod 0x400)]"
      using s b unfolding utf16_step_eq by (auto simp: Let_def split: if_splits)
    from emit_four [OF four r(2-10) refl] show ?thesis
      using r take_front(4) [OF r(1)] b by (intro exI [of _ ?four]) simp
  qed
qed

lemma concat_drop: "take n bs = xs \<Longrightarrow> xs @ drop n bs = bs"
  by auto

lemma utf16_stop_false: "utf16_step bs room = Stop False \<Longrightarrow> scalar c \<Longrightarrow> bs \<noteq> enc8 c @ rest"
proof
  assume s: "utf16_step bs room = Stop False" and c: "scalar c" and bs: "bs = enc8 c @ rest"
  show False
  proof (cases "length (enc16 c) \<le> room")
    case True
    then show False using utf16_step_enc [OF c, of room rest] s bs by simp
  next
    case False
    have ne: "bs \<noteq> []" by (simp add: bs enc8_def)
    have "room \<noteq> 0" using s utf16_step_nothing [of bs room] by auto
    with False have r: "room = 1" "0x10000 \<le> c" by (auto simp: enc16_def split: if_splits)
    have x: "c div 0x40000 < 5" using scalar_limit [OF c] upper_digits(3) by blast
    have b: "bs ! 0 = chr8 (0xF0 + c div 0x40000)" using r(2) by (simp add: bs enc8_def)
    have "unat (bs ! 0) = 0xF0 + c div 0x40000" unfolding b by (rule unat_chr8) (use x in simp)
    then show False using s ne r(1) unfolding utf16_step_eq by (simp add: Let_def)
  qed
qed

lemma utf16_stop_true: "utf16_step bs room = Stop True \<Longrightarrow> bs = [] \<or> room = 0 \<or> room = 1 \<and> 0xF0 \<le> unat (bs ! 0)"
  unfolding utf16_step_eq by (auto simp: Let_def split: if_splits)

text \<open>The loop.\<close>

lemma to_utf16_takes:
  "to_utf16 bs room = (ok, rest, out) \<Longrightarrow>
   \<exists>cs. (\<forall>c \<in> set cs. scalar c) \<and> bs = concat (map enc8 cs) @ rest \<and> out = concat (map enc16 cs) \<and> length out \<le> room \<and>
     (if ok then rest = [] \<or> length out = room \<or> length out + 1 = room \<and> 0xF0 \<le> unat (rest ! 0)
      else \<forall>c more. scalar c \<longrightarrow> rest \<noteq> enc8 c @ more)"
proof (induction bs room arbitrary: rest out rule: to_utf16.induct)
  case (1 bs room)
  show ?case
  proof (cases "utf16_step bs room")
    case (Stop r)
    then have e: "ok = r" "rest = bs" "out = []" using 1(2) by (simp_all add: to_utf16.simps)
    show ?thesis
    proof (cases r)
      case True
      then show ?thesis using e utf16_stop_true [of bs room] Stop by (intro exI [of _ "[]"]) auto
    next
      case False
      then show ?thesis using e utf16_stop_false [of bs room] Stop by (intro exI [of _ "[]"]) auto
    qed
  next
    case (Emit n o1)
    obtain c where c: "scalar c" "take n bs = enc8 c" "o1 = enc16 c" "length o1 \<le> room"
      using utf16_step_emits [OF Emit] by blast
    obtain o2 where o2: "to_utf16 (drop n bs) (room - length o1) = (ok, rest, o2)" "out = o1 @ o2"
      using 1(2) Emit by (auto simp: to_utf16.simps [of bs room] split: prod.splits)
    obtain cs where cs: "\<forall>c \<in> set cs. scalar c" "drop n bs = concat (map enc8 cs) @ rest" "o2 = concat (map enc16 cs)"
      "length o2 \<le> room - length o1"
      "if ok then rest = [] \<or> length o2 = room - length o1 \<or> length o2 + 1 = room - length o1 \<and> 0xF0 \<le> unat (rest ! 0)
       else \<forall>c more. scalar c \<longrightarrow> rest \<noteq> enc8 c @ more"
      using 1(1) [OF Emit o2(1)] by blast
    have "bs = concat (map enc8 (c # cs)) @ rest" using concat_drop [OF c(2)] cs(2) by simp
    then show ?thesis using c cs o2(2)
      by (intro exI [of _ "c # cs"]) (auto split: if_splits)
  qed
qed

lemma to_utf16_enc:
  "\<forall>c \<in> set cs. scalar c \<Longrightarrow> length (concat (map enc16 cs)) \<le> room \<Longrightarrow>
   to_utf16 (concat (map enc8 cs)) room = (True, [], concat (map enc16 cs))"
proof (induction cs arbitrary: room)
  case Nil
  then show ?case by (simp add: to_utf16.simps utf16_step_def)
next
  case (Cons c cs)
  have "utf16_step (concat (map enc8 (c # cs))) room = Emit (length (enc8 c)) (enc16 c)"
    using utf16_step_enc [of c room "concat (map enc8 cs)"] Cons.prems by simp
  then show ?case using Cons.IH [of "room - length (enc16 c)"] Cons.prems by (subst to_utf16.simps) simp
qed

section \<open>From UTF-16\<close>

lemma unat_chr16: "v < 65536 \<Longrightarrow> unat (chr16 v) = v"
  by (simp add: unat_of_nat)

lemma unit_limit: "unat (u :: 16 word) < 65536"
  by (rule less_le_trans [OF unsigned_less]) simp

text \<open>The two halves of a surrogate pair.\<close>

lemma halves:
  fixes c :: nat
  assumes "0x10000 \<le> c" "c < 0x110000"
  shows "0xD800 \<le> 0xD800 + (c - 0x10000) div 0x400" "0xD800 + (c - 0x10000) div 0x400 < 0xDC00"
    "0xDC00 \<le> 0xDC00 + (c - 0x10000) mod 0x400" "0xDC00 + (c - 0x10000) mod 0x400 < 0xE000"
    "0x10000 + ((0xD800 + (c - 0x10000) div 0x400 - 0xD800) * 0x400 + (0xDC00 + (c - 0x10000) mod 0x400 - 0xDC00)) = c"
proof -
  define x y where "x = (c - 0x10000) div 0x400" and "y = (c - 0x10000) mod 0x400"
  have "x < 0x400" "y < 0x400" using assms by (simp_all add: less_mult_imp_div_less x_def y_def)
  moreover have "x * 0x400 + y = c - 0x10000" by (simp add: x_def y_def)
  ultimately show "0xD800 \<le> 0xD800 + (c - 0x10000) div 0x400" "0xD800 + (c - 0x10000) div 0x400 < 0xDC00"
    "0xDC00 \<le> 0xDC00 + (c - 0x10000) mod 0x400" "0xDC00 + (c - 0x10000) mod 0x400 < 0xE000"
    "0x10000 + ((0xD800 + (c - 0x10000) div 0x400 - 0xD800) * 0x400 + (0xDC00 + (c - 0x10000) mod 0x400 - 0xDC00)) = c"
    unfolding x_def [symmetric] y_def [symmetric] using assms(1) by simp_all
qed

lemma halves_inverse:
  fixes a b :: nat
  assumes "0xD800 \<le> a" "a < 0xDC00" "0xDC00 \<le> b" "b < 0xE000"
  defines "v \<equiv> 0x10000 + ((a - 0xD800) * 0x400 + (b - 0xDC00))"
  shows "0x10000 \<le> v" "v < 0x110000" "0xD800 + (v - 0x10000) div 0x400 = a" "0xDC00 + (v - 0x10000) mod 0x400 = b"
proof -
  define x y where "x = a - 0xD800" and "y = b - 0xDC00"
  have xy: "x < 0x400" "y < 0x400" "0xD800 + x = a" "0xDC00 + y = b" using assms(1-4) by (auto simp: x_def y_def)
  have v: "v - 0x10000 = x * 0x400 + y" by (simp add: v_def x_def y_def)
  show "0x10000 \<le> v" by (simp add: v_def)
  show "v < 0x110000" unfolding v_def x_def [symmetric] y_def [symmetric] using xy by linarith
  have "(x * 0x400 + y) div 0x400 = x" "(x * 0x400 + y) mod 0x400 = y" using xy(2) by simp_all
  then show "0xD800 + (v - 0x10000) div 0x400 = a" "0xDC00 + (v - 0x10000) mod 0x400 = b" unfolding v using xy by simp_all
qed

lemma utf8_step_enc:
  assumes c: "scalar c" and room: "length (enc8 c) \<le> room"
  shows "utf8_step (enc16 c @ rest) room = Emit (length (enc16 c)) (enc8 c)"
proof (cases "c < 0x10000")
  case True
  have u: "unat (chr16 c) = c" by (rule unat_chr16) (use True in simp)
  have e: "enc16 c = [chr16 c]" using True by (simp add: enc16_def)
  have b: "(enc16 c @ rest) ! 0 = chr16 c" by (simp add: e)
  consider "c < 0x80" "room \<noteq> 0" | "0x80 \<le> c" "c < 0x800" "\<not> room < 2" | "0x800 \<le> c" "\<not> room < 3"
    using room True by (fastforce simp: enc8_def split: if_splits)
  then show ?thesis
    by cases (use c True in \<open>auto simp: utf8_step_def b u Let_def e enc8_def scalar_def\<close>)
next
  case False
  have lim: "0x10000 \<le> c" "c < 0x110000" using False scalar_limit [OF c] by auto
  note h = halves [OF lim]
  have u: "unat (chr16 (0xD800 + (c - 0x10000) div 0x400)) = 0xD800 + (c - 0x10000) div 0x400"
    "unat (chr16 (0xDC00 + (c - 0x10000) mod 0x400)) = 0xDC00 + (c - 0x10000) mod 0x400"
    using h(2,4) by (intro unat_chr16, linarith)+
  have e: "enc16 c = [chr16 (0xD800 + (c - 0x10000) div 0x400), chr16 (0xDC00 + (c - 0x10000) mod 0x400)]"
    using False by (simp add: enc16_def)
  have b: "(enc16 c @ rest) ! 0 = chr16 (0xD800 + (c - 0x10000) div 0x400)"
    "(enc16 c @ rest) ! 1 = chr16 (0xDC00 + (c - 0x10000) mod 0x400)" by (simp_all add: e)
  have ne: "enc16 c @ rest \<noteq> []" "length (enc16 c @ rest) \<noteq> 1" "length (enc16 c) = 2" by (simp_all add: e)
  have e8: "length (enc8 c) = 4" "enc8 c = [chr8 (0xF0 + c div 0x40000), chr8 (0x80 + c div 0x1000 mod 0x40),
      chr8 (0x80 + c div 0x40 mod 0x40), chr8 (0x80 + c mod 0x40)]" using lim by (simp_all add: enc8_def)
  have r: "\<not> room < 4" using room e8 by simp
  show ?thesis unfolding utf8_step_def b u Let_def h(5) using h(1-4) ne r
    by (simp only: if_False if_True e8 ne not_le not_less simp_thms) simp
qed

lemma utf8_step_emits:
  assumes s: "utf8_step cs room = Emit n out"
  shows "\<exists>c. scalar c \<and> take n cs = enc16 c \<and> n = length (enc16 c) \<and> n \<le> length cs \<and> out = enc8 c \<and> length out \<le> room"
proof -
  let ?v1 = "unat (cs ! 0)" and ?v2 = "unat (cs ! 1)"
  let ?v = "0x10000 + ((?v1 - 0xD800) * 0x400 + (?v2 - 0xDC00))"
  have b: "cs \<noteq> []" using s by (auto simp: utf8_step_def)
  then have len: "1 \<le> length cs" by (cases cs) simp_all
  show ?thesis
  proof (cases "?v1 < 0xD800 \<or> 0xE000 \<le> ?v1")
    case True
    then have "n = 1" "out = enc8 ?v1" "length out \<le> room"
      using s b unit_limit [of "cs ! 0"] by (auto simp: utf8_step_def Let_def enc8_def split: if_splits)
    moreover have "scalar ?v1" "enc16 ?v1 = [cs ! 0]" using True unit_limit [of "cs ! 0"]
      by (auto simp: scalar_def enc16_def)
    ultimately show ?thesis using take_front(1) [OF len] len by (intro exI [of _ ?v1]) simp
  next
    case False
    then have r: "\<not> room < 4" "?v1 < 0xDC00" "length cs \<noteq> 1" "0xDC00 \<le> ?v2" "?v2 < 0xE000" "n = 2"
      "out = [chr8 (0xF0 + ?v div 0x40000), chr8 (0x80 + ?v div 0x1000 mod 0x40), chr8 (0x80 + ?v div 0x40 mod 0x40),
              chr8 (0x80 + ?v mod 0x40)]"
      using s b by (auto simp: utf8_step_def Let_def split: if_splits)
    have lo: "0xD800 \<le> ?v1" using False by simp
    note h = halves_inverse [OF lo r(2,4,5)]
    have two: "2 \<le> length cs" using r(3) len by simp
    have "\<not> ?v < 0x10000" using h(1) by linarith
    then have "enc16 ?v = [chr16 (0xD800 + (?v - 0x10000) div 0x400), chr16 (0xDC00 + (?v - 0x10000) mod 0x400)]"
      by (simp only: enc16_def if_False)
    also have "\<dots> = take 2 cs" unfolding h(3,4) take_front(2) [OF two] by simp
    finally have "take 2 cs = enc16 ?v" by simp
    moreover have "scalar ?v" using h(1,2) by (simp add: scalar_def)
    moreover have "out = enc8 ?v" unfolding r(7) using h(1) by (simp add: enc8_def)
    moreover have "length (enc16 ?v) = 2" using h(1) by (simp add: enc16_def)
    moreover have "length out \<le> room" using r(1,7) by simp
    ultimately show ?thesis using r(6) two by (intro exI [of _ ?v]) simp
  qed
qed

lemma utf8_stop_false: "utf8_step cs room = Stop False \<Longrightarrow> scalar c \<Longrightarrow> cs \<noteq> enc16 c @ rest"
proof
  assume s: "utf8_step cs room = Stop False" and c: "scalar c" and cs: "cs = enc16 c @ rest"
  show False
  proof (cases "length (enc8 c) \<le> room")
    case True
    then show False using utf8_step_enc [OF c, of room rest] s cs by simp
  next
    case False
    have "cs \<noteq> []" by (simp add: cs enc16_def)
    then have v: "0xD800 \<le> unat (cs ! 0)" "unat (cs ! 0) < 0xE000" "4 \<le> room"
      using s by (auto simp: utf8_step_def Let_def split: if_splits)
    have "c < 0x10000" using v(3) False by (auto simp: enc8_def split: if_splits)
    then have "unat (cs ! 0) = c" by (simp add: cs enc16_def unat_chr16)
    then show False using v c \<open>c < 0x10000\<close> by (auto simp: scalar_def)
  qed
qed

lemma utf8_stop_true: "utf8_step cs room = Stop True \<Longrightarrow> cs = [] \<or> room < 4"
  by (auto simp: utf8_step_def Let_def split: if_splits)

lemma to_utf8_takes:
  "to_utf8 us room = (ok, rest, out) \<Longrightarrow>
   \<exists>cs. (\<forall>c \<in> set cs. scalar c) \<and> us = concat (map enc16 cs) @ rest \<and> out = concat (map enc8 cs) \<and> length out \<le> room \<and>
     (if ok then rest = [] \<or> room < length out + 4 else \<forall>c more. scalar c \<longrightarrow> rest \<noteq> enc16 c @ more)"
proof (induction us room arbitrary: rest out rule: to_utf8.induct)
  case (1 us room)
  show ?case
  proof (cases "utf8_step us room")
    case (Stop r)
    then have e: "ok = r" "rest = us" "out = []" using 1(2) by (simp_all add: to_utf8.simps)
    show ?thesis
    proof (cases r)
      case True
      then show ?thesis using e utf8_stop_true [of us room] Stop by (intro exI [of _ "[]"]) auto
    next
      case False
      then show ?thesis using e utf8_stop_false [of us room] Stop by (intro exI [of _ "[]"]) auto
    qed
  next
    case (Emit n o1)
    obtain c where c: "scalar c" "take n us = enc16 c" "o1 = enc8 c" "length o1 \<le> room"
      using utf8_step_emits [OF Emit] by blast
    obtain o2 where o2: "to_utf8 (drop n us) (room - length o1) = (ok, rest, o2)" "out = o1 @ o2"
      using 1(2) Emit by (auto simp: to_utf8.simps [of us room] split: prod.splits)
    obtain cs where cs: "\<forall>c \<in> set cs. scalar c" "drop n us = concat (map enc16 cs) @ rest" "o2 = concat (map enc8 cs)"
      "length o2 \<le> room - length o1"
      "if ok then rest = [] \<or> room - length o1 < length o2 + 4 else \<forall>c more. scalar c \<longrightarrow> rest \<noteq> enc16 c @ more"
      using 1(1) [OF Emit o2(1)] by blast
    have "us = concat (map enc16 (c # cs)) @ rest" using concat_drop [OF c(2)] cs(2) by simp
    then show ?thesis using c cs o2(2)
      by (intro exI [of _ "c # cs"]) (auto split: if_splits)
  qed
qed

lemma to_utf8_enc:
  "\<forall>c \<in> set cs. scalar c \<Longrightarrow> length (concat (map enc8 cs)) \<le> room \<Longrightarrow>
   to_utf8 (concat (map enc16 cs)) room = (True, [], concat (map enc8 cs))"
proof (induction cs arbitrary: room)
  case Nil
  then show ?case by (simp add: to_utf8.simps utf8_step_def)
next
  case (Cons c cs)
  have "utf8_step (concat (map enc16 (c # cs))) room = Emit (length (enc16 c)) (enc8 c)"
    using utf8_step_enc [of c room "concat (map enc16 cs)"] Cons.prems by simp
  then show ?case using Cons.IH [of "room - length (enc8 c)"] Cons.prems by (subst to_utf8.simps) simp
qed

section \<open>Sizes\<close>

lemma utf16_size_step_enc:
  assumes c: "scalar c"
  shows "utf16_size_step (enc8 c @ rest) = Some (length (enc8 c), length (enc16 c))"
proof -
  note d = upper_digits [of c]
  have lead: "unat (chr8 v) = v" if "v < 256" for v by (rule unat_chr8 [OF that])
  consider "c < 0x80" | "0x80 \<le> c" "c < 0x800" | "0x800 \<le> c" "c < 0x10000" | "0x10000 \<le> c" "c < 0x110000"
    using scalar_limit [OF c] by linarith
  then show ?thesis
  proof cases
    case 1
    then have b: "(enc8 c @ rest) ! 0 = chr8 c" by (simp add: enc8_def)
    show ?thesis unfolding utf16_size_step_def b using 1 lead [of c] by (simp add: enc8_def enc16_def)
  next
    case 2
    then have b: "(enc8 c @ rest) ! 0 = chr8 (0xC0 + c div 0x40)" and x: "c div 0x40 < 32"
      using d by (simp_all add: enc8_def)
    have u: "unat (chr8 (0xC0 + c div 0x40)) = 0xC0 + c div 0x40" by (rule lead) (use x in simp)
    show ?thesis unfolding utf16_size_step_def b u Let_def using 2 x by (simp add: enc8_def enc16_def)
  next
    case 3
    then have b: "(enc8 c @ rest) ! 0 = chr8 (0xE0 + c div 0x1000)" and x: "c div 0x1000 < 16"
      using d by (simp_all add: enc8_def)
    have u: "unat (chr8 (0xE0 + c div 0x1000)) = 0xE0 + c div 0x1000" by (rule lead) (use x in simp)
    show ?thesis unfolding utf16_size_step_def b u Let_def using 3 x by (simp add: enc8_def enc16_def)
  next
    case 4
    then have b: "(enc8 c @ rest) ! 0 = chr8 (0xF0 + c div 0x40000)" and x: "c div 0x40000 < 5"
      using d by (simp_all add: enc8_def)
    have u: "unat (chr8 (0xF0 + c div 0x40000)) = 0xF0 + c div 0x40000" by (rule lead) (use x in simp)
    show ?thesis unfolding utf16_size_step_def b u Let_def using 4 x by (simp add: enc8_def enc16_def)
  qed
qed

lemma find_utf16_buf_size_enc:
  "\<forall>c \<in> set cs. scalar c \<Longrightarrow>
   find_utf16_buf_size (concat (map enc8 cs)) m = ([], m + length (concat (map enc16 cs)))"
proof (induction cs arbitrary: m)
  case Nil
  then show ?case by (simp add: find_utf16_buf_size.simps utf16_size_step_def)
next
  case (Cons c cs)
  have "utf16_size_step (concat (map enc8 (c # cs))) = Some (length (enc8 c), length (enc16 c))"
    using utf16_size_step_enc [of c "concat (map enc8 cs)"] Cons.prems by simp
  then show ?case using Cons by (subst find_utf16_buf_size.simps) simp
qed

lemma utf8_size_step_enc:
  assumes c: "scalar c" and m: "m + length (enc8 c) < 2 ^ 64"
  shows "utf8_size_step (enc16 c @ rest) m = Some (length (enc16 c), length (enc8 c))"
proof (cases "c < 0x10000")
  case True
  have u: "unat (chr16 c) = c" by (rule unat_chr16) (use True in simp)
  have b: "(enc16 c @ rest) ! 0 = chr16 c" "enc16 c = [chr16 c]" using True by (simp_all add: enc16_def)
  consider "c < 0x80" | "0x80 \<le> c" "c < 0x800" | "0x800 \<le> c" by linarith
  then show ?thesis unfolding utf8_size_step_def b(1) u Let_def
    by cases (use c m True b(2) in \<open>auto simp: enc8_def scalar_def\<close>)
next
  case False
  have lim: "0x10000 \<le> c" "c < 0x110000" using False scalar_limit [OF c] by auto
  note h = halves [OF lim]
  have u: "unat (chr16 (0xD800 + (c - 0x10000) div 0x400)) = 0xD800 + (c - 0x10000) div 0x400"
    by (rule unat_chr16) (use h(2) in linarith)
  have b: "(enc16 c @ rest) ! 0 = chr16 (0xD800 + (c - 0x10000) div 0x400)" using False by (simp add: enc16_def)
  have e: "length (enc16 c) = 2" "length (enc8 c) = 4" using lim by (simp_all add: enc16_def enc8_def)
  then have "enc16 c @ rest \<noteq> []" "length (enc16 c @ rest) \<noteq> 1" by auto
  then show ?thesis unfolding utf8_size_step_def b u Let_def e using h(1,2) m e
    by (simp only: if_False if_True not_le not_less simp_thms) simp
qed

lemma find_utf8_buf_size_enc:
  "\<forall>c \<in> set cs. scalar c \<Longrightarrow> m + length (concat (map enc8 cs)) < 2 ^ 64 \<Longrightarrow>
   find_utf8_buf_size (concat (map enc16 cs)) m = ([], m + length (concat (map enc8 cs)))"
proof (induction cs arbitrary: m)
  case Nil
  then show ?case by (simp add: find_utf8_buf_size.simps utf8_size_step_def)
next
  case (Cons c cs)
  have "utf8_size_step (concat (map enc16 (c # cs))) m = Some (length (enc16 c), length (enc8 c))"
    using utf8_size_step_enc [of c m "concat (map enc16 cs)"] Cons.prems by simp
  then show ?case using Cons by (subst find_utf8_buf_size.simps) simp
qed

end
