(* ===== verification/JsonParser.thy ===== *)
theory JsonParser imports Main begin

text \<open>
  The event based JSON parser of \<open>util/json_parser.hpp\<close>.  The input is the text from \<open>m_current\<close> to \<open>m_end\<close>.
  The callback gets each event and its own state, and may stop the parse with an error of its own.  The
  C library's \<open>strtod\<close> is a parameter: the value it reads at the front of a text and how many characters
  it takes, 0 when there is no number.  \<open>isspace\<close> and \<open>isalpha\<close> are those of the C locale.

  The member functions call each other, and two of them loop; \<open>json_parse\<close> is all of them, with the
  function that runs as its first argument.  It is a partial function: \<open>None\<close> is a parse that does not
  return, and the laws show that there is none.
\<close>

section \<open>Characters\<close>

abbreviation dquote :: char where "dquote \<equiv> CHR 0x22"
abbreviation escape :: char where "escape \<equiv> CHR 0x5C"

definition is_whitespace :: "char \<Rightarrow> bool" where
  "is_whitespace c \<longleftrightarrow> c \<in> {CHR '' '', CHR 0x09, CHR 0x0D, CHR 0x0A}"

definition c_isspace :: "char \<Rightarrow> bool" where
  "c_isspace c \<longleftrightarrow> c \<in> {CHR '' '', CHR 0x09, CHR 0x0A, CHR 0x0B, CHR 0x0C, CHR 0x0D}"

definition c_isalpha :: "char \<Rightarrow> bool" where
  "c_isalpha c \<longleftrightarrow> (let n = of_char c :: nat in 65 \<le> n \<and> n \<le> 90 \<or> 97 \<le> n \<and> n \<le> 122)"

definition skip_whitespace :: "string \<Rightarrow> string" where
  "skip_whitespace inp = dropWhile is_whitespace inp"

section \<open>Events and errors\<close>

text \<open>A string event carries its range of the input, quotes included.\<close>

datatype 'n json_event =
    Ev_number 'n | Ev_string string | Ev_boolean bool | Ev_null
  | Ev_array_begin | Ev_array_end | Ev_object_begin | Ev_object_end

datatype 'e json_error = Unexpected_token | Unexpected_end_of_stream | Callback_error 'e

type_synonym ('n, 'e, 's) json_callback = "'n json_event \<Rightarrow> 's \<Rightarrow> 'e option \<times> 's"

type_synonym ('e, 's) json_result = "'e json_error option \<times> string \<times> 's"

definition json_emit :: "('n, 'e, 's) json_callback \<Rightarrow> 'n json_event \<Rightarrow> string \<Rightarrow> 's \<Rightarrow> ('e, 's) json_result" where
  "json_emit f ev rest s = (case f ev s of (e, s1) \<Rightarrow> (map_option Callback_error e, rest, s1))"

definition expect_token :: "char \<Rightarrow> string \<Rightarrow> 'e json_error option \<times> string" where
  "expect_token c inp =
     (case skip_whitespace inp of
        [] \<Rightarrow> (Some Unexpected_end_of_stream, [])
      | x # xs \<Rightarrow> if x = c then (None, xs) else (Some Unexpected_token, x # xs))"

definition escaped_string_value :: "string \<Rightarrow> string option" where
  "escaped_string_value rg =
     (if length rg \<ge> 2 then Some (take (length rg - 2) (drop 1 rg)) else None)"

section \<open>Scalars\<close>

definition parse_number ::
  "(string \<Rightarrow> 'n \<times> nat) \<Rightarrow> ('n, 'e, 's) json_callback \<Rightarrow> string \<Rightarrow> 's \<Rightarrow> ('e, 's) json_result" where
  "parse_number strtod f inp s =
     (let bytes_to_copy = min (length inp) 63
      in if bytes_to_copy = 0 then (Some Unexpected_end_of_stream, inp, s)
         else if c_isspace (inp ! 0) then (Some Unexpected_token, inp, s)
         else if inp ! 0 \<in> {CHR ''N'', CHR ''I'', CHR ''p'', CHR ''P''} then (Some Unexpected_token, inp, s)
         else if inp ! 0 = CHR ''0'' \<and> bytes_to_copy > 2 \<and> (inp ! 1 = CHR ''x'' \<or> inp ! 1 = CHR ''X'')
         then (Some Unexpected_token, inp, s)
         else
           (case strtod (take bytes_to_copy inp) of
              (v, consumed) \<Rightarrow>
                if consumed = 0 then (Some Unexpected_token, inp, s)
                else json_emit f (Ev_number v) (drop consumed inp) s))"

text \<open>The loop that counts escapes steps forward, as the code does, from the position before the quote.\<close>

function count_num_escapes_backwards :: "string \<Rightarrow> nat \<Rightarrow> nat" where
  "count_num_escapes_backwards inp p =
     (if p > 0 \<and> p < length inp \<and> inp ! p = escape then 1 + count_num_escapes_backwards inp (p + 1) else 0)"
  by pat_completeness auto
termination by (relation "measure (\<lambda>(inp, p). length inp - p)") auto

declare count_num_escapes_backwards.simps [simp del]

definition find_dquote :: "string \<Rightarrow> nat \<Rightarrow> nat" where
  "find_dquote inp i = i + length (takeWhile (\<lambda>c. c \<noteq> dquote) (drop i inp))"

function inner_end :: "string \<Rightarrow> nat \<Rightarrow> nat option" where
  "inner_end inp i =
     (let j = find_dquote inp (i + 1)
      in if j \<ge> length inp then None
         else if count_num_escapes_backwards inp (j - 1) mod 2 = 1 then inner_end inp j
         else Some j)"
  by pat_completeness auto
termination by (relation "measure (\<lambda>(inp, i). length inp - i)") (auto simp: find_dquote_def)

declare inner_end.simps [simp del]

definition parse_string :: "('n, 'e, 's) json_callback \<Rightarrow> string \<Rightarrow> 's \<Rightarrow> ('e, 's) json_result" where
  "parse_string f inp s =
     (if inp = [] then (Some Unexpected_end_of_stream, inp, s)
      else if inp ! 0 = dquote then
        (case inner_end inp 0 of
           None \<Rightarrow> (Some Unexpected_end_of_stream, inp, s)
         | Some j \<Rightarrow> json_emit f (Ev_string (take (j + 1) inp)) (drop (j + 1) inp) s)
      else (Some Unexpected_token, inp, s))"

definition parse_boolean :: "('n, 'e, 's) json_callback \<Rightarrow> string \<Rightarrow> 's \<Rightarrow> ('e, 's) json_result" where
  "parse_boolean f inp s =
     (let rg = takeWhile c_isalpha inp
      in if rg = ''true'' then json_emit f (Ev_boolean True) (drop 4 inp) s
         else if rg = ''false'' then json_emit f (Ev_boolean False) (drop 5 inp) s
         else (Some Unexpected_token, inp, s))"

definition parse_null :: "('n, 'e, 's) json_callback \<Rightarrow> string \<Rightarrow> 's \<Rightarrow> ('e, 's) json_result" where
  "parse_null f inp s =
     (if takeWhile c_isalpha inp = ''null'' then json_emit f Ev_null (drop 4 inp) s
      else (Some Unexpected_token, inp, s))"

section \<open>The parser\<close>

text \<open>The member functions that call each other get the function they call as their argument \<open>p\<close>; its first
  argument says which: a value, or the loop of an object or of an array behind their first bracket.\<close>

datatype json_mode = Value | Object_loop | Array_loop

type_synonym ('e, 's) json_parsers = "json_mode \<Rightarrow> string \<Rightarrow> 's \<Rightarrow> ('e, 's) json_result option"

definition then_parse ::
  "('e, 's) json_result option \<Rightarrow> (string \<Rightarrow> 's \<Rightarrow> ('e, 's) json_result option) \<Rightarrow> ('e, 's) json_result option" where
  "then_parse r k =
     Option.bind r (\<lambda>x. case x of (Some e, rest, s) \<Rightarrow> Some (Some e, rest, s) | (None, rest, s) \<Rightarrow> k rest s)"

definition parse_pair ::
  "('n, 'e, 's) json_callback \<Rightarrow> ('e, 's) json_parsers \<Rightarrow> string \<Rightarrow> 's \<Rightarrow> ('e, 's) json_result option" where
  "parse_pair f p inp s =
     then_parse (Some (parse_string f (skip_whitespace inp) s))
       (\<lambda>rest s. case skip_whitespace rest of
          [] \<Rightarrow> p Value [] s
        | c # xs \<Rightarrow> if c = CHR '':'' then p Value xs s else Some (Some Unexpected_token, c # xs, s))"

text \<open>What follows a member or an element: the closing bracket, which is left for the next turn of the loop,
  or a comma.\<close>

definition next_item ::
  "char \<Rightarrow> (string \<Rightarrow> 's \<Rightarrow> ('e, 's) json_result option) \<Rightarrow> string \<Rightarrow> 's \<Rightarrow> ('e, 's) json_result option" where
  "next_item closing k inp s =
     (case skip_whitespace inp of
        [] \<Rightarrow> Some (Some Unexpected_end_of_stream, [], s)
      | c # xs \<Rightarrow>
          if c = closing then k (c # xs) s
          else if c = CHR '','' then k xs s
          else Some (Some Unexpected_token, c # xs, s))"

definition object_loop ::
  "('n, 'e, 's) json_callback \<Rightarrow> ('e, 's) json_parsers \<Rightarrow> string \<Rightarrow> 's \<Rightarrow> ('e, 's) json_result option" where
  "object_loop f p inp s =
     (case expect_token (CHR ''}'') inp of (ec, rest) \<Rightarrow>
        if ec = None then Some (json_emit f Ev_object_end rest s)
        else if ec \<noteq> Some Unexpected_token then Some (ec, rest, s)
        else then_parse (parse_pair f p rest s) (next_item (CHR ''}'') (p Object_loop)))"

definition array_loop ::
  "('n, 'e, 's) json_callback \<Rightarrow> ('e, 's) json_parsers \<Rightarrow> string \<Rightarrow> 's \<Rightarrow> ('e, 's) json_result option" where
  "array_loop f p inp s =
     (case expect_token (CHR '']'') inp of (ec, rest) \<Rightarrow>
        if ec = None then Some (json_emit f Ev_array_end rest s)
        else if ec \<noteq> Some Unexpected_token then Some (ec, rest, s)
        else then_parse (p Value rest s) (next_item (CHR '']'') (p Array_loop)))"

definition parse_object ::
  "('n, 'e, 's) json_callback \<Rightarrow> ('e, 's) json_parsers \<Rightarrow> string \<Rightarrow> 's \<Rightarrow> ('e, 's) json_result option" where
  "parse_object f p inp s =
     (case expect_token (CHR ''{'') inp of
        (Some e, rest) \<Rightarrow> Some (Some e, rest, s)
      | (None, rest) \<Rightarrow> then_parse (Some (json_emit f Ev_object_begin rest s)) (p Object_loop))"

definition parse_array ::
  "('n, 'e, 's) json_callback \<Rightarrow> ('e, 's) json_parsers \<Rightarrow> string \<Rightarrow> 's \<Rightarrow> ('e, 's) json_result option" where
  "parse_array f p inp s =
     (case expect_token (CHR ''['') inp of
        (Some e, rest) \<Rightarrow> Some (Some e, rest, s)
      | (None, rest) \<Rightarrow> then_parse (Some (json_emit f Ev_array_begin rest s)) (p Array_loop))"

definition parse_value ::
  "(string \<Rightarrow> 'n \<times> nat) \<Rightarrow> ('n, 'e, 's) json_callback \<Rightarrow> ('e, 's) json_parsers \<Rightarrow> string \<Rightarrow> 's \<Rightarrow>
   ('e, 's) json_result option" where
  "parse_value strtod f p inp s =
     (case skip_whitespace inp of
        [] \<Rightarrow> Some (Some Unexpected_end_of_stream, [], s)
      | c # xs \<Rightarrow>
          if c = CHR ''{'' then parse_object f p (c # xs) s
          else if c = CHR ''['' then parse_array f p (c # xs) s
          else if c = CHR ''t'' \<or> c = CHR ''f'' then Some (parse_boolean f (c # xs) s)
          else if c = CHR ''n'' then Some (parse_null f (c # xs) s)
          else if c = dquote then Some (parse_string f (c # xs) s)
          else Some (parse_number strtod f (c # xs) s))"

lemma then_parse_mono [partial_function_mono]:
  fixes r :: "_ \<Rightarrow> ('e, 's) json_result option"
  assumes "mono_option r" "\<And>rest s. mono_option (\<lambda>g. k rest s g)"
  shows "mono_option (\<lambda>g. then_parse (r g) (\<lambda>rest s. k rest s g))"
  unfolding then_parse_def
proof (rule bind_mono [OF assms(1)])
  fix x :: "('e, 's) json_result"
  obtain e rest t where x: "x = (e, rest, t)" by (cases x)
  show "mono_option (\<lambda>g. case x of (Some e, rest, s) \<Rightarrow> Some (Some e, rest, s) | (None, rest, s) \<Rightarrow> k rest s g)"
    unfolding x by (cases e) (simp_all add: assms(2) option.const_mono)
qed

lemma token_mono:
  assumes "mono_option n" "\<And>c xs. mono_option (\<lambda>g. k c xs g)"
  shows "mono_option (\<lambda>g. case inp of [] \<Rightarrow> n g | c # xs \<Rightarrow> k c xs g)"
  by (cases inp) (simp_all add: assms)

lemma parse_pair_mono:
  assumes "\<And>m rest s. mono_option (\<lambda>g. k m rest s g)"
  shows "mono_option (\<lambda>g. parse_pair f (\<lambda>m rest s. k m rest s g) inp s)"
  unfolding parse_pair_def by (intro then_parse_mono token_mono if_mono assms option.const_mono)

lemma next_item_mono:
  assumes "\<And>rest s. mono_option (\<lambda>g. k rest s g)"
  shows "mono_option (\<lambda>g. next_item closing (\<lambda>rest s. k rest s g) inp s)"
  by (cases "skip_whitespace inp") (simp_all add: next_item_def assms option.const_mono if_mono)

lemma loop_mono:
  fixes k :: "json_mode \<Rightarrow> string \<Rightarrow> 's \<Rightarrow> _ \<Rightarrow> ('e, 's) json_result option"
  assumes "\<And>m rest s. mono_option (\<lambda>g. k m rest s g)"
  shows "mono_option (\<lambda>g. object_loop f (\<lambda>m rest s. k m rest s g) inp s)"
    "mono_option (\<lambda>g. array_loop f (\<lambda>m rest s. k m rest s g) inp s)"
proof -
  obtain ec rest where e: "expect_token (CHR ''}'') inp = (ec :: 'e json_error option, rest)" by fastforce
  show "mono_option (\<lambda>g. object_loop f (\<lambda>m rest s. k m rest s g) inp s)"
    unfolding object_loop_def e prod.case
    by (intro if_mono then_parse_mono next_item_mono parse_pair_mono assms option.const_mono)
next
  obtain ec rest where e: "expect_token (CHR '']'') inp = (ec :: 'e json_error option, rest)" by fastforce
  show "mono_option (\<lambda>g. array_loop f (\<lambda>m rest s. k m rest s g) inp s)"
    unfolding array_loop_def e prod.case
    by (intro if_mono then_parse_mono next_item_mono assms option.const_mono)
qed

lemma begin_mono:
  fixes k :: "json_mode \<Rightarrow> string \<Rightarrow> 's \<Rightarrow> _ \<Rightarrow> ('e, 's) json_result option"
  assumes "\<And>m rest s. mono_option (\<lambda>g. k m rest s g)"
  shows "mono_option (\<lambda>g. parse_object f (\<lambda>m rest s. k m rest s g) inp s)"
    "mono_option (\<lambda>g. parse_array f (\<lambda>m rest s. k m rest s g) inp s)"
proof -
  have "mono_option (\<lambda>g. case (ec :: 'e json_error option) of None \<Rightarrow> n g | Some e \<Rightarrow> t e)"
    if "mono_option n" for n :: "_ \<Rightarrow> ('e, 's) json_result option" and ec t
    using that by (cases ec) (simp_all add: option.const_mono)
  note cases = this
  obtain ec rest where e: "expect_token (CHR ''{'') inp = (ec :: 'e json_error option, rest)" by fastforce
  show "mono_option (\<lambda>g. parse_object f (\<lambda>m rest s. k m rest s g) inp s)"
    unfolding parse_object_def e prod.case by (intro cases then_parse_mono assms option.const_mono)
  obtain ec rest where e: "expect_token (CHR ''['') inp = (ec :: 'e json_error option, rest)" by fastforce
  show "mono_option (\<lambda>g. parse_array f (\<lambda>m rest s. k m rest s g) inp s)"
    unfolding parse_array_def e prod.case by (intro cases then_parse_mono assms option.const_mono)
qed

lemma parse_value_mono [partial_function_mono]:
  assumes "\<And>m rest s. mono_option (\<lambda>g. k m rest s g)"
  shows "mono_option (\<lambda>g. parse_value strtod f (\<lambda>m rest s. k m rest s g) inp s)"
  unfolding parse_value_def by (intro token_mono if_mono begin_mono assms option.const_mono)

declare loop_mono [partial_function_mono]

partial_function (option) json_parse ::
  "(string \<Rightarrow> 'n \<times> nat) \<Rightarrow> ('n, 'e, 's) json_callback \<Rightarrow> json_mode \<Rightarrow> string \<Rightarrow> 's \<Rightarrow> ('e, 's) json_result option" where
  "json_parse strtod f mode inp s =
     (case mode of
        Value \<Rightarrow> parse_value strtod f (json_parse strtod f) inp s
      | Object_loop \<Rightarrow> object_loop f (json_parse strtod f) inp s
      | Array_loop \<Rightarrow> array_loop f (json_parse strtod f) inp s)"

text \<open>The public function.\<close>

definition json_parser ::
  "(string \<Rightarrow> 'n \<times> nat) \<Rightarrow> ('n, 'e, 's) json_callback \<Rightarrow> string \<Rightarrow> 's \<Rightarrow> ('e, 's) json_result option" where
  "json_parser strtod f inp s = json_parse strtod f Value inp s"

end
