(* ===== verification/JsonLaws.thy ===== *)
theory JsonLaws imports JsonParser begin

text \<open>
  What the JSON parser does: it returns for every input, the events of a successful parse are those of one
  JSON value, and a value written as JSON text is parsed to its events, as long as no string in it ends in
  a backslash.
\<close>

section \<open>Values and their events\<close>

text \<open>Strings are kept in their escaped form, without the quotes.\<close>

datatype 'n json =
    JNum 'n | JStr string | JBool bool | JNull | JArr "'n json list" | JObj "(string \<times> 'n json) list"

definition quoted :: "string \<Rightarrow> string" where
  "quoted b = dquote # b @ [dquote]"

primrec json_events :: "'n json \<Rightarrow> 'n json_event list" where
  "json_events (JNum v) = [Ev_number v]"
| "json_events (JStr b) = [Ev_string (quoted b)]"
| "json_events (JBool v) = [Ev_boolean v]"
| "json_events JNull = [Ev_null]"
| "json_events (JArr ts) = Ev_array_begin # concat (map json_events ts) @ [Ev_array_end]"
| "json_events (JObj ms) =
     Ev_object_begin # concat (map (\<lambda>(k, es). Ev_string (quoted k) # es) (map (map_prod id json_events) ms)) @
     [Ev_object_end]"

definition member_events :: "string \<times> 'n json \<Rightarrow> 'n json_event list" where
  "member_events m = Ev_string (quoted (fst m)) # json_events (snd m)"

lemma json_events_JObj:
  "json_events (JObj ms) = Ev_object_begin # concat (map member_events ms) @ [Ev_object_end]"
  by (simp add: member_events_def [abs_def] case_prod_unfold comp_def)

declare json_events.simps(6) [simp del]

text \<open>Giving events to a callback until it fails.\<close>

fun feed :: "('n, 'e, 's) json_callback \<Rightarrow> 'n json_event list \<Rightarrow> 's \<Rightarrow> 'e option \<times> 's" where
  "feed f [] s = (None, s)"
| "feed f (ev # evs) s = (case f ev s of (None, s1) \<Rightarrow> feed f evs s1 | (Some e, s1) \<Rightarrow> (Some e, s1))"

lemma feed_append: "feed f (xs @ ys) s = (case feed f xs s of (None, s1) \<Rightarrow> feed f ys s1 | (Some e, s1) \<Rightarrow> (Some e, s1))"
  by (induction xs arbitrary: s) (auto split: prod.splits option.splits)

section \<open>The parser returns\<close>

lemma skip_whitespace_length: "length (skip_whitespace inp) \<le> length inp"
  by (simp add: skip_whitespace_def length_dropWhile_le)

lemma find_dquote_bounds: "i \<le> find_dquote inp i" "i \<le> length inp \<Longrightarrow> find_dquote inp i \<le> length inp"
  using length_takeWhile_le [of "\<lambda>c. c \<noteq> dquote" "drop i inp"] by (auto simp: find_dquote_def)

lemma find_dquote_at:
  assumes "find_dquote inp i < length inp"
  shows "inp ! find_dquote inp i = dquote"
proof -
  let ?n = "length (takeWhile (\<lambda>c. c \<noteq> dquote) (drop i inp))"
  have "?n < length (drop i inp)" using assms by (simp add: find_dquote_def)
  then have "drop i inp ! ?n = dquote" using nth_length_takeWhile [of "\<lambda>c. c \<noteq> dquote" "drop i inp"] by simp
  then show ?thesis using assms by (simp add: find_dquote_def)
qed

lemma inner_end_at: "inner_end inp i = Some j \<Longrightarrow> i < j \<and> j < length inp \<and> inp ! j = dquote"
proof (induction inp i rule: inner_end.induct)
  case (1 inp i)
  have "i + 1 \<le> find_dquote inp (i + 1)" by (rule find_dquote_bounds)
  with 1(1) [OF refl] 1(2) show ?case
    unfolding inner_end.simps [of inp i] by (auto simp: Let_def find_dquote_at split: if_splits)
qed

text \<open>A result that leaves less input and has given the events of one of \<open>E\<close> when it is a success.\<close>

definition ends_with ::
  "('n, 'e, 's) json_callback \<Rightarrow> 'n json_event list set \<Rightarrow> nat \<Rightarrow> 's \<Rightarrow> ('e, 's) json_result option \<Rightarrow> bool" where
  "ends_with f E n s r \<longleftrightarrow>
     (\<exists>ec rest s1. r = Some (ec, rest, s1) \<and>
        (ec = None \<longrightarrow> length rest < n \<and> (\<exists>evs \<in> E. feed f evs s = (None, s1))))"

lemma ends_with_error [simp]: "ends_with f E n s (Some (Some e, rest, s1))"
  by (simp add: ends_with_def)

lemma ends_with_emit: "length rest < n \<Longrightarrow> [ev] \<in> E \<Longrightarrow> ends_with f E n s (Some (json_emit f ev rest s))"
  unfolding ends_with_def json_emit_def
  by (cases "f ev s"; cases "fst (f ev s)") (auto intro!: bexI [of _ "[ev]"])

lemma ends_withE:
  assumes "ends_with f E n s r"
  obtains (error) e rest s1 where "r = Some (Some e, rest, s1)"
    | (success) rest s1 evs where "r = Some (None, rest, s1)" "length rest < n" "evs \<in> E" "feed f evs s = (None, s1)"
  using assms unfolding ends_with_def by (metis not_None_eq)

lemma ends_with_success [intro]:
  "length rest < n \<Longrightarrow> evs \<in> E \<Longrightarrow> feed f evs s = (None, s1) \<Longrightarrow> ends_with f E n s (Some (None, rest, s1))"
  by (auto simp: ends_with_def)

lemma ends_with_then:
  assumes "ends_with f E n s r" "\<And>rest s1. length rest < n \<Longrightarrow> ends_with f D m s1 (k rest s1)"
    "\<And>xs ys. xs \<in> E \<Longrightarrow> ys \<in> D \<Longrightarrow> xs @ ys \<in> C"
  shows "ends_with f C m s (then_parse r k)"
  using assms(1)
proof (cases rule: ends_withE)
  case (success rest s1 xs)
  show ?thesis
    using assms(2) [OF success(2), of s1]
  proof (cases rule: ends_withE)
    case (success rest2 s2 ys)
    then show ?thesis using assms(3) [of xs ys] \<open>r = _\<close> \<open>xs \<in> E\<close> \<open>feed f xs s = _\<close>
      by (auto simp: then_parse_def feed_append intro: ends_with_success)
  qed (simp add: then_parse_def success)
qed (simp add: then_parse_def)

lemma ends_with_if: "ends_with f E n s x \<Longrightarrow> ends_with f E n s y \<Longrightarrow> ends_with f E n s (if b then x else y)"
  by simp

lemma ends_with_mono: "ends_with f E n s r \<Longrightarrow> n \<le> m \<Longrightarrow> E \<subseteq> D \<Longrightarrow> ends_with f D m s r"
  by (erule ends_withE) auto

lemma parse_string_ends: "ends_with f {[Ev_string (quoted b)] | b. True} (length inp) s (Some (parse_string f inp s))"
proof (cases "inp \<noteq> [] \<and> inp ! 0 = dquote \<and> inner_end inp 0 \<noteq> None")
  case True
  then obtain j where j: "inner_end inp 0 = Some j" by auto
  have b: "0 < j" "j < length inp" "inp ! j = dquote" using inner_end_at [OF j] by auto
  have "take (j + 1) inp = take j inp @ [dquote]" using b by (simp add: take_Suc_conv_app_nth)
  moreover have "take j inp = dquote # take (j - 1) (drop 1 inp)"
    using True b by (cases inp; cases j) auto
  ultimately have "take (j + 1) inp = quoted (take (j - 1) (drop 1 inp))" by (simp add: quoted_def)
  then show ?thesis using True j b(2) by (auto simp: parse_string_def intro!: ends_with_emit)
qed (auto simp: parse_string_def)

lemma string_events: "{[Ev_string (quoted b)] | b. True} \<subseteq> range json_events"
proof clarify
  fix b show "[Ev_string (quoted b)] \<in> range json_events" using rangeI [of json_events "JStr b"] by simp
qed

lemma parse_scalars_end:
  "ends_with f (range json_events) (length inp) s (Some (parse_number strtod f inp s))"
  "ends_with f (range json_events) (length inp) s (Some (parse_boolean f inp s))"
  "ends_with f (range json_events) (length inp) s (Some (parse_null f inp s))"
  "ends_with f (range json_events) (length inp) s (Some (parse_string f inp s))"
proof -
  have shorter: "length (drop n inp) < length inp" if "takeWhile c_isalpha inp = c # cs" "0 < n" for n c cs
    using that by (cases inp) auto
  have ev: "[Ev_number v] \<in> range json_events" "[Ev_boolean b] \<in> range json_events" "[Ev_null] \<in> range json_events" for v b
    using rangeI [of json_events "JNum v"] rangeI [of json_events "JBool b"] rangeI [of json_events JNull] by simp_all
  show "ends_with f (range json_events) (length inp) s (Some (parse_number strtod f inp s))"
    by (auto simp: parse_number_def Let_def min_def split: prod.split intro!: ends_with_emit ev)
  show "ends_with f (range json_events) (length inp) s (Some (parse_boolean f inp s))"
    using shorter by (auto simp: parse_boolean_def Let_def intro!: ends_with_emit ev)
  show "ends_with f (range json_events) (length inp) s (Some (parse_null f inp s))"
    using shorter by (auto simp: parse_null_def Let_def intro!: ends_with_emit ev)
  show "ends_with f (range json_events) (length inp) s (Some (parse_string f inp s))"
    by (rule ends_with_mono [OF parse_string_ends order_refl string_events])
qed

text \<open>What a loop has given to the callback when it ends: the events of the remaining members or elements.\<close>

definition loop_events :: "json_mode \<Rightarrow> 'n json_event list set" where
  "loop_events m =
     (case m of
        Value \<Rightarrow> range json_events
      | Object_loop \<Rightarrow> {concat (map member_events ms) @ [Ev_object_end] | ms. True}
      | Array_loop \<Rightarrow> {concat (map json_events ts) @ [Ev_array_end] | ts. True})"

lemma loop_events_end: "[Ev_object_end] \<in> loop_events Object_loop" "[Ev_array_end] \<in> loop_events Array_loop"
  unfolding loop_events_def by (auto intro: exI [of _ "[]"])

lemma loop_events_more:
  "xs \<in> range member_events \<Longrightarrow> ys \<in> loop_events Object_loop \<Longrightarrow> xs @ ys \<in> loop_events Object_loop"
  "xs \<in> range json_events \<Longrightarrow> ys \<in> loop_events Array_loop \<Longrightarrow> xs @ ys \<in> loop_events Array_loop"
proof -
  show "xs @ ys \<in> loop_events Object_loop" if xs: "xs \<in> range member_events" and ys: "ys \<in> loop_events Object_loop"
  proof -
    obtain m where "xs = member_events m" using xs by blast
    moreover obtain ms where "ys = concat (map member_events ms) @ [Ev_object_end]"
      using ys by (auto simp: loop_events_def)
    ultimately show ?thesis by (auto simp: loop_events_def intro!: exI [of _ "m # ms"])
  qed
  show "xs @ ys \<in> loop_events Array_loop" if xs: "xs \<in> range json_events" and ys: "ys \<in> loop_events Array_loop"
  proof -
    obtain t where "xs = json_events t" using xs by blast
    moreover obtain ts where "ys = concat (map json_events ts) @ [Ev_array_end]"
      using ys by (auto simp: loop_events_def)
    ultimately show ?thesis by (auto simp: loop_events_def intro!: exI [of _ "t # ts"])
  qed
qed

lemma loop_events_value:
  "ys \<in> loop_events Object_loop \<Longrightarrow> [Ev_object_begin] @ ys \<in> loop_events Value"
  "ys \<in> loop_events Array_loop \<Longrightarrow> [Ev_array_begin] @ ys \<in> loop_events Value"
proof -
  show "[Ev_object_begin] @ ys \<in> loop_events Value" if ys: "ys \<in> loop_events Object_loop"
  proof -
    obtain ms where "ys = concat (map member_events ms) @ [Ev_object_end]"
      using ys by (auto simp: loop_events_def)
    then have "[Ev_object_begin] @ ys = json_events (JObj ms)" by (simp add: json_events_JObj)
    then show ?thesis by (auto simp: loop_events_def)
  qed
  show "[Ev_array_begin] @ ys \<in> loop_events Value" if ys: "ys \<in> loop_events Array_loop"
  proof -
    obtain ts where "ys = concat (map json_events ts) @ [Ev_array_end]"
      using ys by (auto simp: loop_events_def)
    then have "[Ev_array_begin] @ ys = json_events (JArr ts)" by simp
    then show ?thesis unfolding loop_events_def json_mode.case by (metis rangeI)
  qed
qed

text \<open>The member functions, when the functions they call behave.\<close>

lemma parse_pair_ends:
  fixes f :: "('n, 'e, 's) json_callback"
  assumes "\<And>rest s. length rest < length inp \<Longrightarrow> ends_with f (loop_events Value) (length rest) s (p Value rest s)"
  shows "ends_with f (range member_events) (length inp) s (parse_pair f p inp s)"
proof -
  have val: "ends_with f (range json_events) (length inp) t (p Value xs t)" if "length xs < length inp" for xs t
    using ends_with_mono [OF assms [OF that] less_imp_le [OF that], of "range json_events"] by (simp add: loop_events_def)
  have rest: "ends_with f (range json_events) (length inp) t
     (case skip_whitespace rest of
        [] \<Rightarrow> p Value [] t
      | c # xs \<Rightarrow> if c = CHR '':'' then p Value xs t else Some (Some Unexpected_token, c # xs, t))"
    if "length rest < length (skip_whitespace inp)" for rest t
    using that skip_whitespace_length [of rest] skip_whitespace_length [of inp]
    by (cases "skip_whitespace rest") (auto intro!: val)
  have more: "xs @ ys \<in> range member_events" if xy: "xs \<in> {[Ev_string (quoted b)] | b. True}" "ys \<in> range json_events"
    for xs ys :: "'n json_event list"
  proof -
    obtain b t where "xs @ ys = member_events (b, t)" using xy by (auto simp: member_events_def)
    then show ?thesis by blast
  qed
  show ?thesis unfolding parse_pair_def
    by (rule ends_with_then [OF parse_string_ends rest]) (simp, rule more)
qed

lemma next_item_ends:
  assumes "\<And>xs s. length xs \<le> length inp \<Longrightarrow> ends_with f E n s (k xs s)"
  shows "ends_with f E n s (next_item closing k inp s)"
  using assms skip_whitespace_length [of inp] by (auto simp: next_item_def split: list.split)

lemma expect_token_length:
  assumes "expect_token c inp = (ec, rest)"
  shows "length rest \<le> length inp" "ec = None \<Longrightarrow> length rest < length inp"
proof -
  have "length rest \<le> length inp \<and> (ec = None \<longrightarrow> length rest < length inp)"
  proof (cases "skip_whitespace inp")
    case Nil
    show ?thesis using assms by (auto simp: expect_token_def Nil)
  next
    case (Cons x xs)
    have "length (x # xs) \<le> length inp" using skip_whitespace_length [of inp] by (simp add: Cons)
    then show ?thesis using assms by (auto simp: expect_token_def Cons split: if_splits)
  qed
  then show "length rest \<le> length inp" "ec = None \<Longrightarrow> length rest < length inp" by auto
qed

lemma json_parse_ends:
  fixes f :: "('n, 'e, 's) json_callback"
  shows "ends_with f (loop_events m) (length inp) s (json_parse strtod f m inp s)"
proof (induction "2 * length inp + (if m = Value then 0 else 1)" arbitrary: m inp s rule: less_induct)
  case less
  note IH = less
  have val: "ends_with f (loop_events Value) (length rest) t (json_parse strtod f Value rest t)"
    if "length rest < length inp \<or> length rest \<le> length inp \<and> m \<noteq> Value" for rest t
    by (rule IH) (use that in auto)
  have loop: "ends_with f (loop_events m') (length rest) t (json_parse strtod f m' rest t)"
    if "length rest < length inp" for rest t m'
    by (rule IH) (use that in auto)
  show ?case
  proof (cases m)
    case Value
    have scalar: "ends_with f (loop_events Value) (length inp) s r"
      if "ends_with f (range json_events) (length xs) s r" "length xs \<le> length inp" for xs r
      using ends_with_mono [OF that(1,2)] by (simp add: loop_events_def)
    have open_bracket: "ends_with f (loop_events Value) (length inp) s
        (then_parse (Some (json_emit f ev xs s)) (json_parse strtod f m'))"
      if "length xs < length inp" "\<And>ys. ys \<in> loop_events m' \<Longrightarrow> [ev] @ ys \<in> loop_events Value" for ev xs m'
    proof (rule ends_with_then [of f "{[ev]}" "length inp" s _ "loop_events m'"])
      show "ends_with f {[ev]} (length inp) s (Some (json_emit f ev xs s))" by (rule ends_with_emit) (use that in auto)
      show "ends_with f (loop_events m') (length inp) s1 (json_parse strtod f m' rest s1)"
        if "length rest < length inp" for rest s1
        using ends_with_mono [OF loop [OF that] _ order_refl] that by simp
    qed (use that in auto)
    show ?thesis
    proof (cases "skip_whitespace inp")
      case Nil
      then show ?thesis using Value by (simp add: json_parse.simps parse_value_def)
    next
      case (Cons c xs)
      have le: "length (c # xs) \<le> length inp" using skip_whitespace_length [of inp] Cons by simp
      have ws: "\<not> is_whitespace (CHR ''{'')" "\<not> is_whitespace (CHR ''['')" by (simp_all add: is_whitespace_def)
      have object: "ends_with f (loop_events Value) (length inp) s (parse_object f (json_parse strtod f) (c # xs) s)"
        if "c = CHR ''{''"
        using open_bracket [OF _ loop_events_value(1), of xs] le that
        by (simp add: parse_object_def expect_token_def skip_whitespace_def ws)
      have array: "ends_with f (loop_events Value) (length inp) s (parse_array f (json_parse strtod f) (c # xs) s)"
        if "c = CHR ''[''"
        using open_bracket [OF _ loop_events_value(2), of xs] le that
        by (simp add: parse_array_def expect_token_def skip_whitespace_def ws)
      show ?thesis
      proof (cases "c = CHR ''{'' \<or> c = CHR ''[''")
        case True
        then show ?thesis using object array by (auto simp: json_parse.simps Value parse_value_def Cons)
      next
        case False
        then have "json_parse strtod f m inp s =
            (if c = CHR ''t'' \<or> c = CHR ''f'' then Some (parse_boolean f (c # xs) s)
             else if c = CHR ''n'' then Some (parse_null f (c # xs) s)
             else if c = dquote then Some (parse_string f (c # xs) s)
             else Some (parse_number strtod f (c # xs) s))"
          by (simp add: json_parse.simps Value parse_value_def Cons)
        then show ?thesis unfolding Value by (auto simp only: intro!: ends_with_if scalar [OF _ le] parse_scalars_end)
      qed
    qed
  next
    case Object_loop
    obtain ec rest where t: "expect_token (CHR ''}'') inp = (ec :: 'e json_error option, rest)" by fastforce
    note le = expect_token_length [OF t]
    have "ends_with f (loop_events Object_loop) (length inp) s
        (then_parse (parse_pair f (json_parse strtod f) rest s)
          (next_item (CHR ''}'') (json_parse strtod f Object_loop)))"
    proof (rule ends_with_then [OF parse_pair_ends])
      show "ends_with f (loop_events Value) (length r) t (json_parse strtod f Value r t)" if "length r < length rest" for r t
        by (rule val) (use that le in auto)
      show "ends_with f (loop_events Object_loop) (length inp) s1
          (next_item (CHR ''}'') (json_parse strtod f Object_loop) r s1)" if "length r < length rest" for r s1
        by (rule next_item_ends, rule ends_with_mono [OF loop _ order_refl]) (use that le in auto)
    qed (rule loop_events_more)
    then show ?thesis using le loop_events_end(1)
      by (auto simp: json_parse.simps Object_loop object_loop_def t intro!: ends_with_emit)
  next
    case Array_loop
    obtain ec rest where t: "expect_token (CHR '']'') inp = (ec :: 'e json_error option, rest)" by fastforce
    note le = expect_token_length [OF t]
    have "ends_with f (loop_events Array_loop) (length inp) s
        (then_parse (json_parse strtod f Value rest s) (next_item (CHR '']'') (json_parse strtod f Array_loop)))"
    proof (rule ends_with_then)
      show "ends_with f (loop_events Value) (length rest) s (json_parse strtod f Value rest s)"
        by (rule val) (use Array_loop le in auto)
      show "ends_with f (loop_events Array_loop) (length inp) s1
          (next_item (CHR '']'') (json_parse strtod f Array_loop) r s1)" if "length r < length rest" for r s1
        by (rule next_item_ends, rule ends_with_mono [OF loop _ order_refl]) (use that le in auto)
    qed (rule loop_events_more(2), simp add: loop_events_def)
    then show ?thesis using le loop_events_end(2)
      by (auto simp: json_parse.simps Array_loop array_loop_def t intro!: ends_with_emit)
  qed
qed

section \<open>Where a string ends\<close>

text \<open>The parser ends a string at the first quote that no backslash precedes.\<close>

definition closing_quote :: "string \<Rightarrow> nat \<Rightarrow> bool" where
  "closing_quote inp j \<longleftrightarrow> j < length inp \<and> inp ! j = dquote \<and> (j \<le> 1 \<or> inp ! (j - 1) \<noteq> escape)"

lemma count_escapes_quote:
  assumes "0 < j" "j < length inp" "inp ! j = dquote"
  shows "count_num_escapes_backwards inp (j - 1) mod 2 = 1 \<longleftrightarrow> 1 < j \<and> inp ! (j - 1) = escape"
proof -
  have "count_num_escapes_backwards inp j = 0" using assms(3) by (simp add: count_num_escapes_backwards.simps)
  then show ?thesis using assms by (subst count_num_escapes_backwards.simps) auto
qed

lemma before_dquote:
  assumes "i \<le> k" "k < find_dquote inp i" "k < length inp"
  shows "inp ! k \<noteq> dquote"
proof -
  let ?t = "takeWhile (\<lambda>c. c \<noteq> dquote) (drop i inp)"
  have "k - i < length ?t" using assms by (auto simp: find_dquote_def)
  then have "?t ! (k - i) \<noteq> dquote" using set_takeWhileD [OF nth_mem] by fast
  then show ?thesis using assms \<open>k - i < length ?t\<close> by (simp add: takeWhile_nth)
qed

lemma inner_end_closing:
  assumes "\<And>k. i < k \<Longrightarrow> k < j \<Longrightarrow> \<not> closing_quote inp k" "i < j"
  shows "if j < length inp then closing_quote inp j \<longrightarrow> inner_end inp i = Some j else inner_end inp i = None"
  using assms
proof (induction inp i rule: inner_end.induct)
  case (1 inp i)
  let ?q = "find_dquote inp (i + 1)"
  have q: "i < ?q" using find_dquote_bounds(1) [of "i + 1" inp] by simp
  have quote: "closing_quote inp ?q \<longleftrightarrow> \<not> count_num_escapes_backwards inp (?q - 1) mod 2 = 1" if "?q < length inp"
    using count_escapes_quote [of ?q inp] find_dquote_at [OF that] that q by (auto simp: closing_quote_def)
  have before: "\<not> closing_quote inp k" if "i < k" "k < ?q" for k
    using before_dquote [of "i + 1" k inp] that by (auto simp: closing_quote_def)
  show ?case
  proof (cases "?q < length inp")
    case False
    then have "inner_end inp i = None" by (simp add: inner_end.simps Let_def)
    moreover have "\<not> closing_quote inp j" using before [of j] 1(3) False by (auto simp: closing_quote_def)
    ultimately show ?thesis by simp
  next
    case True
    show ?thesis
    proof (cases "closing_quote inp ?q")
      case c: True
      then have "inner_end inp i = Some ?q" using True quote by (simp add: inner_end.simps Let_def)
      moreover have "?q = j \<or> j < ?q" using 1(2) [of ?q] q c by fastforce
      ultimately show ?thesis using before [of j] 1(3) True by auto
    next
      case False
      then have e: "inner_end inp i = inner_end inp ?q" using True quote by (subst inner_end.simps) (simp add: Let_def)
      show ?thesis
      proof (cases "?q < j")
        case True
        then show ?thesis using 1(1) [OF refl] \<open>?q < length inp\<close> quote False 1(2) q unfolding e
          by (meson less_trans not_le)
      next
        case below: False
        then have "\<not> closing_quote inp j" using before [of j] 1(3) False by (cases "j = ?q") auto
        then show ?thesis using below True by auto
      qed
    qed
  qed
qed

text \<open>Bodies in which every quote is preceded by a backslash, and which do not end in one.\<close>

definition string_body :: "string \<Rightarrow> bool" where
  "string_body b \<longleftrightarrow>
     (\<forall>i < length b. b ! i = dquote \<longrightarrow> 0 < i \<and> b ! (i - 1) = escape) \<and> (b = [] \<or> last b \<noteq> escape)"

lemma quoted_nth: "(quoted b @ rest) ! i =
    (if i = 0 then dquote else if i \<le> length b then b ! (i - 1) else if i = length b + 1 then dquote
     else rest ! (i - length b - 2))"
  by (auto simp: quoted_def nth_append nth_Cons' not_le less_Suc_eq_le)

lemma inner_end_quoted:
  assumes "string_body b"
  shows "inner_end (quoted b @ rest) 0 = Some (length b + 1)"
proof -
  have "\<not> closing_quote (quoted b @ rest) k" if "0 < k" "k < length b + 1" for k
  proof
    assume c: "closing_quote (quoted b @ rest) k"
    have "k - 1 < length b" using that by simp
    moreover have "b ! (k - 1) = dquote" using c that unfolding closing_quote_def quoted_nth by simp
    ultimately have "0 < k - 1" "b ! (k - 1 - 1) = escape" using assms by (auto simp: string_body_def)
    moreover from this have "\<not> k \<le> 1" "(quoted b @ rest) ! (k - 1) = b ! (k - 1 - 1)"
      using that unfolding quoted_nth by auto
    ultimately show False using c by (auto simp: closing_quote_def)
  qed
  moreover have "closing_quote (quoted b @ rest) (length b + 1)"
    using assms unfolding closing_quote_def quoted_nth by (auto simp: quoted_def string_body_def last_conv_nth)
  moreover have "length b + 1 < length (quoted b @ rest)" by (simp add: quoted_def)
  ultimately show ?thesis using inner_end_closing [of 0 "length b + 1" "quoted b @ rest"] by auto
qed

text \<open>A string that ends in an escaped backslash.\<close>

lemma inner_end_missed:
  assumes "dquote \<notin> set b" "dquote \<notin> set rest"
  shows "inner_end (quoted (b @ [escape, escape]) @ rest) 0 = None"
proof -
  let ?b = "b @ [escape, escape]"
  have "\<not> closing_quote (quoted ?b @ rest) k" if k: "0 < k" for k
  proof
    assume c: "closing_quote (quoted ?b @ rest) k"
    then have q: "(quoted ?b @ rest) ! k = dquote" "k < length b + 4 + length rest" by (auto simp: closing_quote_def quoted_def)
    consider "k \<le> length b" | "length b < k" "k \<le> length b + 2" | "k = length b + 3" | "length b + 3 < k" by linarith
    then show False
    proof cases
      case 1
      then have "k - 1 < length b" using k by simp
      moreover from this have "b ! (k - 1) = dquote" using q(1) k 1 unfolding quoted_nth by (simp add: nth_append)
      ultimately show False using assms(1) nth_mem by fastforce
    next
      case 2
      then have "?b ! (k - 1) = dquote" using q(1) unfolding quoted_nth by simp
      moreover have "k - 1 = length b \<or> k - 1 = length b + 1" using 2 by linarith
      ultimately show False by (auto simp: nth_append)
    next
      case 3
      have "(quoted ?b @ rest) ! (k - 1) = escape" unfolding quoted_nth 3 by (simp add: nth_append)
      then show False using c 3 by (simp add: closing_quote_def)
    next
      case 4
      then have "rest ! (k - (length b + 4)) = dquote" using q(1) unfolding quoted_nth by (simp add: numeral_eq_Suc)
      moreover have "k - (length b + 4) < length rest" using 4 q(2) by linarith
      ultimately show False using assms(2) nth_mem by metis
    qed
  qed
  then show ?thesis using inner_end_closing [of 0 "length (quoted ?b @ rest) + 1" "quoted ?b @ rest"] by auto
qed

section \<open>JSON text\<close>

text \<open>A number is a token of characters that numbers are made of, which \<open>strtod\<close> reads as a whole in front of
  anything that may follow a value.\<close>

definition delimited :: "string \<Rightarrow> bool" where
  "delimited rest \<longleftrightarrow> rest = [] \<or> is_whitespace (hd rest) \<or> hd rest \<in> {CHR '','', CHR '']'', CHR ''}''}"

definition number_token :: "(string \<Rightarrow> 'n \<times> nat) \<Rightarrow> string \<Rightarrow> 'n \<Rightarrow> bool" where
  "number_token strtod tok v \<longleftrightarrow>
     tok \<noteq> [] \<and> hd tok \<in> set ''-0123456789'' \<and> set tok \<subseteq> set ''-+.eE0123456789'' \<and>
     (\<forall>rest. delimited rest \<longrightarrow> strtod (take 63 (tok @ rest)) = (v, length tok))"

abbreviation blank :: "string \<Rightarrow> bool" where
  "blank w \<equiv> list_all is_whitespace w"

text \<open>The texts of a value, of the elements of an array and of the members of an object, with white space
  between the tokens.\<close>

inductive json_text :: "(string \<Rightarrow> 'n \<times> nat) \<Rightarrow> 'n json \<Rightarrow> string \<Rightarrow> bool"
  and elements_text :: "(string \<Rightarrow> 'n \<times> nat) \<Rightarrow> 'n json list \<Rightarrow> string \<Rightarrow> bool"
  and members_text :: "(string \<Rightarrow> 'n \<times> nat) \<Rightarrow> (string \<times> 'n json) list \<Rightarrow> string \<Rightarrow> bool"
  for strtod where
  text_number: "number_token strtod tok v \<Longrightarrow> json_text strtod (JNum v) tok"
| text_string: "string_body b \<Longrightarrow> json_text strtod (JStr b) (quoted b)"
| text_true: "json_text strtod (JBool True) ''true''"
| text_false: "json_text strtod (JBool False) ''false''"
| text_null: "json_text strtod JNull ''null''"
| text_empty_array: "blank w \<Longrightarrow> json_text strtod (JArr []) (''['' @ w @ '']'')"
| text_array: "elements_text strtod ts x \<Longrightarrow> json_text strtod (JArr ts) (''['' @ x @ '']'')"
| text_empty_object: "blank w \<Longrightarrow> json_text strtod (JObj []) (''{'' @ w @ ''}'')"
| text_object: "members_text strtod ms x \<Longrightarrow> json_text strtod (JObj ms) (''{'' @ x @ ''}'')"
| last_element: "blank v \<Longrightarrow> json_text strtod t x \<Longrightarrow> blank w \<Longrightarrow> elements_text strtod [t] (v @ x @ w)"
| more_elements: "blank v \<Longrightarrow> json_text strtod t x \<Longrightarrow> blank w \<Longrightarrow> elements_text strtod ts y \<Longrightarrow>
    elements_text strtod (t # ts) (v @ x @ w @ '','' @ y)"
| last_member: "blank u \<Longrightarrow> string_body b \<Longrightarrow> blank u' \<Longrightarrow> blank v \<Longrightarrow> json_text strtod t x \<Longrightarrow> blank w \<Longrightarrow>
    members_text strtod [(b, t)] (u @ quoted b @ u' @ '':'' @ v @ x @ w)"
| more_members: "blank u \<Longrightarrow> string_body b \<Longrightarrow> blank u' \<Longrightarrow> blank v \<Longrightarrow> json_text strtod t x \<Longrightarrow> blank w \<Longrightarrow>
    members_text strtod ms y \<Longrightarrow>
    members_text strtod ((b, t) # ms) (u @ quoted b @ u' @ '':'' @ v @ x @ w @ '','' @ y)"

text \<open>The result of giving events to the callback: it goes on behind them, or stops with the callback's error.\<close>

definition gives ::
  "('n, 'e, 's) json_callback \<Rightarrow> 'n json_event list \<Rightarrow> string \<Rightarrow> 's \<Rightarrow> ('e, 's) json_result option \<Rightarrow> bool" where
  "gives f evs rest s r \<longleftrightarrow>
     (case feed f evs s of
        (None, s1) \<Rightarrow> r = Some (None, rest, s1)
      | (Some e, s1) \<Rightarrow> \<exists>rest1. r = Some (Some (Callback_error e), rest1, s1))"

lemma gives_emit: "gives f [ev] rest s (Some (json_emit f ev rest s))"
  by (auto simp: gives_def json_emit_def split: prod.split option.split)

lemma gives_then:
  assumes "gives f xs rest1 s r" "\<And>s1. gives f ys rest s1 (k rest1 s1)"
  shows "gives f (xs @ ys) rest s (then_parse r k)"
proof -
  obtain e s1 where x: "feed f xs s = (e, s1)" by fastforce
  show ?thesis
  proof (cases e)
    case None
    then show ?thesis using assms(1) assms(2) [of s1] x by (simp add: gives_def then_parse_def feed_append)
  next
    case (Some a)
    then show ?thesis using assms(1) x by (auto simp: gives_def then_parse_def feed_append)
  qed
qed

lemma skip_blank [simp]: "blank w \<Longrightarrow> skip_whitespace (w @ x) = skip_whitespace x"
  by (induction w) (auto simp: skip_whitespace_def)

lemma skip_token [simp]: "\<not> is_whitespace c \<Longrightarrow> skip_whitespace (c # x) = c # x"
  by (simp add: skip_whitespace_def)

lemma not_whitespace [simp]:
  "\<not> is_whitespace dquote" "\<not> is_whitespace (CHR ''['')" "\<not> is_whitespace (CHR '']'')"
  "\<not> is_whitespace (CHR ''{'')" "\<not> is_whitespace (CHR ''}'')" "\<not> is_whitespace (CHR '','')"
  "\<not> is_whitespace (CHR '':'')" "\<not> is_whitespace (CHR ''t'')" "\<not> is_whitespace (CHR ''f'')"
  "\<not> is_whitespace (CHR ''n'')"
  by (simp_all add: is_whitespace_def)

lemma delimited_blank: "blank w \<Longrightarrow> w \<noteq> [] \<or> delimited rest \<Longrightarrow> delimited (w @ rest)"
  by (cases w) (auto simp: delimited_def)

lemma delimited_alpha: "delimited rest \<Longrightarrow> takeWhile c_isalpha (x @ rest) = takeWhile c_isalpha x"
proof -
  assume "delimited rest"
  then have "takeWhile c_isalpha rest = []"
    by (cases rest) (auto simp: delimited_def is_whitespace_def c_isalpha_def Let_def)
  then show ?thesis by (auto simp: takeWhile_append intro: takeWhile_eq_all_conv [THEN iffD2, symmetric])
qed

lemma parse_string_at:
  "inp \<noteq> [] \<Longrightarrow> inp ! 0 = dquote \<Longrightarrow> inner_end inp 0 = Some j \<Longrightarrow>
   parse_string f inp s = json_emit f (Ev_string (take (j + 1) inp)) (drop (j + 1) inp) s"
  by (simp add: parse_string_def)

lemma parse_string_quoted:
  assumes "string_body b"
  shows "parse_string f (quoted b @ rest) s = json_emit f (Ev_string (quoted b)) rest s"
  using parse_string_at [OF _ _ inner_end_quoted [OF assms, of rest], of f s] by (simp add: quoted_def)

lemma parse_number_at:
  assumes "inp \<noteq> []" "\<not> c_isspace (inp ! 0)" "inp ! 0 \<notin> {CHR ''N'', CHR ''I'', CHR ''p'', CHR ''P''}"
    "2 < length inp \<Longrightarrow> inp ! 1 \<noteq> CHR ''x'' \<and> inp ! 1 \<noteq> CHR ''X''" "strtod (take 63 inp) = (v, n)" "0 < n"
  shows "parse_number strtod f inp s = json_emit f (Ev_number v) (drop n inp) s"
proof -
  have "take (min (length inp) 63) inp = take 63 inp" by (cases "length inp \<le> 63") (simp_all add: min_def)
  moreover have "\<not> (2 < min (length inp) 63 \<and> (inp ! 1 = CHR ''x'' \<or> inp ! 1 = CHR ''X''))" using assms(4) by auto
  ultimately show ?thesis using assms(1-3,5,6) by (auto simp: parse_number_def Let_def)
qed

lemma parse_number_token:
  assumes "number_token strtod tok v" "delimited rest"
  shows "json_parse strtod f Value (tok @ rest) s = Some (json_emit f (Ev_number v) rest s)"
proof -
  obtain c cs where tok: "tok = c # cs" using assms(1) by (cases tok) (auto simp: number_token_def)
  have c: "c \<in> set ''-0123456789''" "set cs \<subseteq> set ''-+.eE0123456789''" using assms(1) tok by (auto simp: number_token_def)
  have "(tok @ rest) ! 1 \<noteq> CHR ''x'' \<and> (tok @ rest) ! 1 \<noteq> CHR ''X''" if "2 < length (tok @ rest)"
  proof (cases cs)
    case Nil
    then show ?thesis using assms(2) that tok
      by (cases rest) (auto simp: delimited_def is_whitespace_def)
  next
    case (Cons d ds)
    then show ?thesis using c(2) tok by auto
  qed
  moreover have ws: "\<not> is_whitespace c" "\<not> c_isspace c" using c(1) by (auto simp: is_whitespace_def c_isspace_def)
  moreover have ne: "c \<notin> {CHR ''N'', CHR ''I'', CHR ''p'', CHR ''P''}"
    "c \<notin> {CHR ''{'', CHR ''['', CHR ''t'', CHR ''f'', CHR ''n'', dquote}"
    using c(1) by auto
  moreover have "strtod (take 63 (tok @ rest)) = (v, length tok)" using assms by (simp add: number_token_def)
  ultimately have "parse_number strtod f (tok @ rest) s = json_emit f (Ev_number v) (drop (length tok) (tok @ rest)) s"
    by (intro parse_number_at) (simp_all add: tok)
  then show ?thesis using ws ne tok by (simp add: json_parse.simps parse_value_def)
qed

text \<open>White space in front makes no difference, and a text starts with none and with no closing bracket.\<close>

lemma json_parse_blank: "blank w \<Longrightarrow> json_parse strtod f m (w @ x) s = json_parse strtod f m x s"
  by (cases m) (simp_all add: json_parse.simps parse_value_def object_loop_def array_loop_def expect_token_def)

lemma text_start:
  assumes "json_text strtod t x"
  obtains c cs where "x = c # cs" "\<not> is_whitespace c" "c \<noteq> CHR '']''"
  using assms
proof cases
  case (text_number v)
  then obtain c cs where "x = c # cs" "c \<in> set ''-0123456789''" by (cases x) (auto simp: number_token_def)
  then show ?thesis using that [of c cs] by (auto simp: is_whitespace_def)
qed (use that in \<open>auto simp: quoted_def\<close>)

lemma array_loop_item:
  assumes "json_text strtod t x" "blank v"
  shows "json_parse strtod f Array_loop (v @ x @ y) s =
    then_parse (json_parse strtod f Value (x @ y) s) (next_item (CHR '']'') (json_parse strtod f Array_loop))"
proof -
  obtain c cs where x: "x = c # cs" "\<not> is_whitespace c" "c \<noteq> CHR '']''" using text_start [OF assms(1)] .
  have "json_parse strtod f Array_loop (v @ x @ y) s = array_loop f (json_parse strtod f) (x @ y) s"
    unfolding json_parse_blank [OF assms(2)] by (simp add: json_parse.simps)
  then show ?thesis using x by (simp add: array_loop_def expect_token_def)
qed

lemma object_loop_member:
  assumes "blank u"
  shows "json_parse strtod f Object_loop (u @ quoted b @ y) s =
    then_parse (parse_pair f (json_parse strtod f) (quoted b @ y) s) (next_item (CHR ''}'') (json_parse strtod f Object_loop))"
proof -
  have "json_parse strtod f Object_loop (u @ quoted b @ y) s = object_loop f (json_parse strtod f) (quoted b @ y) s"
    unfolding json_parse_blank [OF assms] by (simp add: json_parse.simps)
  then show ?thesis by (simp add: object_loop_def expect_token_def quoted_def)
qed

lemma loop_ends:
  "gives f [Ev_array_end] rest s (json_parse strtod f Array_loop (CHR '']'' # rest) s)"
  "gives f [Ev_object_end] rest s (json_parse strtod f Object_loop (CHR ''}'' # rest) s)"
  by (simp_all add: json_parse.simps array_loop_def object_loop_def expect_token_def gives_emit)

lemma parse_pair_gives:
  assumes "string_body b" "blank u'" "blank v" "\<And>t. gives f evs rest t (json_parse strtod f Value (x @ rest) t)"
  shows "gives f (Ev_string (quoted b) # evs) rest s
    (parse_pair f (json_parse strtod f) (quoted b @ u' @ '':'' @ v @ x @ rest) s)"
proof -
  have "skip_whitespace (quoted b @ y) = quoted b @ y" for y by (simp add: quoted_def)
  then have p: "parse_string f (skip_whitespace (quoted b @ u' @ '':'' @ v @ x @ rest)) s =
      json_emit f (Ev_string (quoted b)) (u' @ '':'' @ v @ x @ rest) s"
    using parse_string_quoted [OF assms(1)] by simp
  have "gives f ([Ev_string (quoted b)] @ evs) rest s
    (parse_pair f (json_parse strtod f) (quoted b @ u' @ '':'' @ v @ x @ rest) s)"
    unfolding parse_pair_def p
  proof (rule gives_then [OF gives_emit])
    fix t
    have "skip_whitespace (u' @ '':'' @ v @ x @ rest) = CHR '':'' # v @ x @ rest" using assms(2) by simp
    then show "gives f evs rest t (case skip_whitespace (u' @ '':'' @ v @ x @ rest) of
        [] \<Rightarrow> json_parse strtod f Value [] t
      | c # xs \<Rightarrow> if c = CHR '':'' then json_parse strtod f Value xs t else Some (Some Unexpected_token, c # xs, t))"
      using assms(4) [of t] by (simp add: json_parse_blank [OF assms(3)])
  qed
  then show ?thesis by simp
qed

lemma json_text_gives:
  "json_text strtod t x \<Longrightarrow> (\<And>rest s. delimited rest \<Longrightarrow> gives f (json_events t) rest s (json_parse strtod f Value (x @ rest) s))"
  "elements_text strtod ts y \<Longrightarrow> (\<And>rest s. gives f (concat (map json_events ts) @ [Ev_array_end]) rest s
     (json_parse strtod f Array_loop (y @ '']'' @ rest) s))"
  "members_text strtod ms z \<Longrightarrow> (\<And>rest s. gives f (concat (map member_events ms) @ [Ev_object_end]) rest s
     (json_parse strtod f Object_loop (z @ ''}'' @ rest) s))"
proof (induction rule: json_text_elements_text_members_text.inducts)
  case (text_number tok v)
  then show ?case by (simp add: parse_number_token gives_emit)
next
  case (text_string b)
  have "json_parse strtod f Value (quoted b @ rest) s = Some (parse_string f (quoted b @ rest) s)"
    by (simp add: json_parse.simps parse_value_def quoted_def)
  then show ?case by (simp add: parse_string_quoted [OF text_string(1)] gives_emit)
next
  case text_true
  then show ?case using delimited_alpha [of rest "''true''"]
    by (simp add: json_parse.simps parse_value_def parse_boolean_def c_isalpha_def gives_emit)
next
  case text_false
  then show ?case using delimited_alpha [of rest "''false''"]
    by (simp add: json_parse.simps parse_value_def parse_boolean_def c_isalpha_def gives_emit)
next
  case text_null
  then show ?case using delimited_alpha [of rest "''null''"]
    by (simp add: json_parse.simps parse_value_def parse_null_def c_isalpha_def gives_emit)
next
  case (text_empty_array w)
  have "gives f ([Ev_array_begin] @ [Ev_array_end]) rest s
      (then_parse (Some (json_emit f Ev_array_begin (w @ '']'' @ rest) s)) (json_parse strtod f Array_loop))"
    by (rule gives_then [OF gives_emit]) (simp add: json_parse_blank text_empty_array loop_ends)
  then show ?case by (simp add: json_parse.simps(1) [of _ _ Value] parse_value_def parse_array_def expect_token_def)
next
  case (text_array ts x)
  have "gives f ([Ev_array_begin] @ (concat (map json_events ts) @ [Ev_array_end])) rest s
      (then_parse (Some (json_emit f Ev_array_begin (x @ '']'' @ rest) s)) (json_parse strtod f Array_loop))"
    by (rule gives_then [OF gives_emit]) (rule text_array(2))
  then show ?case by (simp add: json_parse.simps(1) [of _ _ Value] parse_value_def parse_array_def expect_token_def)
next
  case (text_empty_object w)
  have "gives f ([Ev_object_begin] @ [Ev_object_end]) rest s
      (then_parse (Some (json_emit f Ev_object_begin (w @ ''}'' @ rest) s)) (json_parse strtod f Object_loop))"
    by (rule gives_then [OF gives_emit]) (simp add: json_parse_blank text_empty_object loop_ends)
  then show ?case
    by (simp add: json_parse.simps(1) [of _ _ Value] parse_value_def parse_object_def expect_token_def json_events_JObj)
next
  case (text_object ms x)
  have "gives f ([Ev_object_begin] @ (concat (map member_events ms) @ [Ev_object_end])) rest s
      (then_parse (Some (json_emit f Ev_object_begin (x @ ''}'' @ rest) s)) (json_parse strtod f Object_loop))"
    by (rule gives_then [OF gives_emit]) (rule text_object(2))
  then show ?case
    by (simp add: json_parse.simps(1) [of _ _ Value] parse_value_def parse_object_def expect_token_def json_events_JObj)
next
  case (last_element v t x w)
  have "delimited (w @ '']'' @ rest)" by (rule delimited_blank [OF last_element(2)]) (simp add: delimited_def)
  then have "gives f (json_events t @ [Ev_array_end]) rest s
      (then_parse (json_parse strtod f Value (x @ w @ '']'' @ rest) s)
        (next_item (CHR '']'') (json_parse strtod f Array_loop)))"
    by (intro gives_then [OF last_element(4)]) (simp_all add: next_item_def last_element loop_ends)
  then show ?case using array_loop_item [OF last_element(3,1), of f "w @ '']'' @ rest" s] by simp
next
  case (more_elements v t x w ts y)
  have "delimited (w @ '','' @ y @ '']'' @ rest)" by (rule delimited_blank [OF more_elements(2)]) (simp add: delimited_def)
  then have "gives f (json_events t @ (concat (map json_events ts) @ [Ev_array_end])) rest s
      (then_parse (json_parse strtod f Value (x @ w @ '','' @ y @ '']'' @ rest) s)
        (next_item (CHR '']'') (json_parse strtod f Array_loop)))"
    using more_elements(6) by (intro gives_then [OF more_elements(4)]) (simp_all add: next_item_def more_elements)
  then show ?case using array_loop_item [OF more_elements(3,1), of f "w @ '','' @ y @ '']'' @ rest" s] by simp
next
  case (last_member u b u' v t x w)
  have "delimited (w @ ''}'' @ rest)" by (rule delimited_blank [OF last_member(5)]) (simp add: delimited_def)
  then have "gives f (member_events (b, t)) (w @ ''}'' @ rest) s
      (parse_pair f (json_parse strtod f) (quoted b @ u' @ '':'' @ v @ x @ w @ ''}'' @ rest) s)"
    unfolding member_events_def fst_conv snd_conv
    by (intro parse_pair_gives last_member)
  then have "gives f (member_events (b, t) @ [Ev_object_end]) rest s
      (then_parse (parse_pair f (json_parse strtod f) (quoted b @ u' @ '':'' @ v @ x @ w @ ''}'' @ rest) s)
        (next_item (CHR ''}'') (json_parse strtod f Object_loop)))"
    by (rule gives_then) (simp add: next_item_def last_member loop_ends)
  then show ?case
    using object_loop_member [OF last_member(1), of strtod f b "u' @ '':'' @ v @ x @ w @ ''}'' @ rest" s] by simp
next
  case (more_members u b u' v t x w ms y)
  have "delimited (w @ '','' @ y @ ''}'' @ rest)" by (rule delimited_blank [OF more_members(5)]) (simp add: delimited_def)
  then have "gives f (member_events (b, t)) (w @ '','' @ y @ ''}'' @ rest) s
      (parse_pair f (json_parse strtod f) (quoted b @ u' @ '':'' @ v @ x @ w @ '','' @ y @ ''}'' @ rest) s)"
    unfolding member_events_def fst_conv snd_conv
    by (intro parse_pair_gives more_members(1-5,7))
  then have "gives f (member_events (b, t) @ (concat (map member_events ms) @ [Ev_object_end])) rest s
      (then_parse (parse_pair f (json_parse strtod f) (quoted b @ u' @ '':'' @ v @ x @ w @ '','' @ y @ ''}'' @ rest) s)
        (next_item (CHR ''}'') (json_parse strtod f Object_loop)))"
    by (rule gives_then) (simp add: next_item_def more_members(5) more_members(9) [simplified])
  then show ?case
    using object_loop_member [OF more_members(1), of strtod f b "u' @ '':'' @ v @ x @ w @ '','' @ y @ ''}'' @ rest" s] by simp
qed

end
