(* ===== verification/UtilSpec.thy ===== *)
theory UtilSpec imports CircularBufferLaws Utf8 JsonLaws begin

text \<open>
  The properties of the utilities: the circular buffer is a list, its iterators stay valid as documented,
  and shortening it destroys the wrong elements; transcoding between UTF-8 and UTF-16 is lossless and strict.
\<close>

section \<open>The circular buffer\<close>



text \<open>C19: The documented guarantees for iterators: inserting at either end of a buffer with room moves nothing,
  an iterator to an element (or to the end) still points to the same element (or, after an insertion at the
  back, the end has become the new element); the same holds for the elements that stay after a removal at
  either end, and the capacity stays as it was.  The iterator to position \<open>i\<close> is the slot \<open>cbuf_wrap b i\<close>.\<close>

theorem iterators_stay_valid:
  assumes "cbuf_repr b xs" "xs \<noteq> []" "length xs < cbuf_capacity b"
  shows "\<exists>f k pf pb.
    cbuf_emplace_front x b = Inr f \<and> cbuf_repr f (x # xs) \<and> cbuf_capacity f = cbuf_capacity b \<and>
      (\<forall>i \<le> length xs. cbuf_wrap f (i + 1) = cbuf_wrap b i) \<and>
    cbuf_emplace_back x b = Inr k \<and> cbuf_repr k (xs @ [x]) \<and> cbuf_capacity k = cbuf_capacity b \<and>
      (\<forall>i \<le> length xs. cbuf_wrap k i = cbuf_wrap b i) \<and>
    cbuf_pop_front b = Inr pf \<and> cbuf_repr pf (tl xs) \<and> cbuf_capacity pf = cbuf_capacity b \<and>
      (\<forall>i < length xs. cbuf_wrap pf i = cbuf_wrap b (i + 1)) \<and>
    cbuf_pop_back b = Inr pb \<and> cbuf_repr pb (butlast xs) \<and> cbuf_capacity pb = cbuf_capacity b \<and>
      (\<forall>i < length xs. cbuf_wrap pb i = cbuf_wrap b i)"
proof -
  have n: "length xs + 2 < 2 ^ 64" using assms(3) cbuf_reprD(2) [OF assms(1)] by (simp add: cbuf_capacity_def split: if_splits)
  obtain f where f: "cbuf_emplace_front x b = Inr f" "cbuf_repr f (x # xs)" "cbuf_allocated_size f = cbuf_allocated_size b"
    "\<forall>i \<le> length xs. cbuf_wrap f (i + 1) = cbuf_wrap b i"
    using emplace_front_repr [OF assms(1) n, of x] assms(3) by auto
  obtain k where k: "cbuf_emplace_back x b = Inr k" "cbuf_repr k (xs @ [x])" "cbuf_allocated_size k = cbuf_allocated_size b"
    "cbuf_begin k = cbuf_begin b"
    using emplace_back_repr [OF assms(1) n, of x] assms(3) by auto
  obtain pf where pf: "cbuf_pop_front b = Inr pf" "cbuf_repr pf (tl xs)" "cbuf_allocated_size pf = cbuf_allocated_size b"
    "\<forall>i < length xs. cbuf_wrap pf i = cbuf_wrap b (i + 1)"
    using pop_front_repr [OF assms(1)] assms(2) by auto
  obtain pb where pb: "cbuf_pop_back b = Inr pb" "cbuf_repr pb (butlast xs)" "cbuf_allocated_size pb = cbuf_allocated_size b"
    "cbuf_begin pb = cbuf_begin b"
    using pop_back_repr [OF assms(1)] assms(2) by auto
  have "cbuf_wrap k = cbuf_wrap b" "cbuf_wrap pb = cbuf_wrap b" using k(3,4) pb(3,4) by (simp_all add: cbuf_wrap_def fun_eq_iff Let_def)
  then show ?thesis using f k pf pb
    by (intro exI [of _ f] exI [of _ k] exI [of _ pf] exI [of _ pb]) (simp add: cbuf_capacity_def)
qed

text \<open>A buffer with a value and room for more.\<close>

lemma roomy_buffer:
  fixes x :: 'a
  shows "\<exists>b. cbuf_repr b [x] \<and> 8 \<le> cbuf_capacity b"
proof -
  obtain b where b: "cbuf_reserve 8 (cbuf_new :: 'a circular_buffer) = Inr b" "cbuf_repr b []" "8 \<le> cbuf_capacity b"
    using reserve_repr [OF cbuf_repr_new, of 8] by auto
  obtain c where "cbuf_repr c [x]" "cbuf_allocated_size c = cbuf_allocated_size b"
    using emplace_back_repr [OF b(2), of x] b(3) by auto
  then show ?thesis using b(3) by (intro exI [of _ c]) (simp add: cbuf_capacity_def split: if_splits)
qed

theorem iterators_stay_valid_witness:
  "\<exists>b f. cbuf_repr b [5 :: nat] \<and> cbuf_emplace_front 3 b = Inr f \<and> cbuf_repr f [3, 5] \<and> cbuf_wrap f 1 = cbuf_wrap b 0"
proof -
  obtain b where b: "cbuf_repr b [5 :: nat]" "8 \<le> cbuf_capacity b" using roomy_buffer [of "5 :: nat"] by blast
  then obtain f where "cbuf_emplace_front 3 b = Inr f" "cbuf_repr f [3, 5]" "\<forall>i \<le> 1. cbuf_wrap f (i + 1) = cbuf_wrap b i"
    using iterators_stay_valid [of b "[5]" 3] by auto
  then show ?thesis using b(1) by fastforce
qed

text \<open>Iterators behave like positions: begin plus a position is the iterator to it, also across the end of the
  memory; the difference of two iterators, their order and their equality are those of the positions;
  incrementing and decrementing move by one.  Begin and end are equal only when the buffer is empty.\<close>

theorem iterators_are_positions:
  assumes "cbuf_repr b xs" "i \<le> length xs" "j \<le> length xs" "length xs < 2 ^ 63"
  shows "iter_add b (iter_begin b) (int i) = cbuf_wrap b i \<and>
    iter_add b (cbuf_wrap b i) (int j - int i) = cbuf_wrap b j \<and> iter_sub b (cbuf_wrap b i) (int i - int j) = cbuf_wrap b j \<and>
    iter_diff b (cbuf_wrap b j) (cbuf_wrap b i) = int j - int i \<and>
    (iter_less b (cbuf_wrap b i) (cbuf_wrap b j) \<longleftrightarrow> i < j) \<and> (cbuf_wrap b i = cbuf_wrap b j \<longleftrightarrow> i = j) \<and>
    iter_end b = cbuf_wrap b (length xs) \<and> (iter_begin b = iter_end b \<longleftrightarrow> xs = []) \<and>
    (i < length xs \<longrightarrow> cbuf_read_slot b (cbuf_wrap b i) = Inr (xs ! i) \<and>
      circular_inc b (cbuf_wrap b i) = cbuf_wrap b (i + 1) \<and> circular_dec b (cbuf_wrap b (i + 1)) = cbuf_wrap b i)"
proof -
  have "cbuf_read_slot b (cbuf_wrap b i) = Inr (xs ! i)" if "i < length xs"
    using cbuf_reprD(5) [OF assms(1) that] by (simp add: cbuf_read_slot_def)
  moreover have "iter_begin b = iter_end b \<longleftrightarrow> xs = []"
  proof -
    have "iter_begin b = cbuf_wrap b 0"
      using assms(1) by (auto simp: iter_begin_def cbuf_repr_def cbuf_wrap_def split: if_splits)
    then show ?thesis using iterators(3) [OF assms(1), of 0] by simp
  qed
  ultimately show ?thesis
    using slots_arith [OF assms(1-3)] assms(4) iterators(1) [OF assms(1,2)] iterators(2) [OF assms(1), of 0] by blast
qed

theorem iterators_are_positions_witness:
  "\<exists>b. cbuf_repr b [5 :: nat] \<and> iter_add b (iter_begin b) 1 = iter_end b \<and> iter_diff b (iter_end b) (iter_begin b) = 1"
proof -
  obtain b where b: "cbuf_repr b [5 :: nat]" using roomy_buffer [of "5 :: nat"] by blast
  have "iter_add b (iter_begin b) (int 1) = cbuf_wrap b 1" "iter_end b = cbuf_wrap b 1" "iter_begin b \<noteq> iter_end b"
    using iterators_are_positions [OF b, of 1 1] by simp_all
  moreover have "iter_add b (iter_begin b) (int 0) = cbuf_wrap b 0" "iter_diff b (cbuf_wrap b 1) (cbuf_wrap b 0) = 1"
    using iterators_are_positions [OF b, of 0 1] by simp_all
  moreover have "iter_begin b = cbuf_wrap b 0"
    using b by (auto simp: iter_begin_def cbuf_repr_def cbuf_wrap_def split: if_splits)
  ultimately show ?thesis using b by (intro exI [of _ b]) simp
qed

text \<open>C29: Shortening a buffer with \<open>resize\<close> destroys elements at the front, as many as it drops, instead of those
  at the back: the first element that is kept is dead, and the last element is never destroyed.\<close>

theorem shrinking_resize_destroys_front:
  assumes "cbuf_repr b xs" "0 < n" "n < length xs"
  shows "\<exists>b'. cbuf_resize n x b = Inr b' \<and> cbuf_size b' = n \<and> cbuf_at b' 0 = Inl Dead_object \<and>
    cbuf_memory b' (cbuf_wrap b' (length xs - 1)) = Some (last xs)"
proof -
  obtain mem where m: "cbuf_destroy n b = Inr (b\<lparr>cbuf_memory := mem\<rparr>)"
    "\<And>t. t < cbuf_allocated_size b \<Longrightarrow> mem (cbuf_wrap b t) =
       (if length xs - n \<le> t \<and> t < length xs then Some (xs ! t) else None)"
    using destroy_slots [OF assms(1), of n] assms(3) by auto
  have ne: "xs \<noteq> []" using assms(3) by auto
  then have room: "length xs < cbuf_allocated_size b" using cbuf_reprD(3,4) [OF assms(1)] by auto
  have "mem (cbuf_wrap b 0) = None" "mem (cbuf_wrap b (length xs - 1)) = Some (last xs)"
    using m(2) [of 0] m(2) [of "length xs - 1"] room assms(2,3) ne by (auto simp: last_conv_nth)
  moreover have "cbuf_resize n x b = Inr (b\<lparr>cbuf_memory := mem, cbuf_size := n\<rparr>)"
    using m(1) assms(3) cbuf_reprD(1) [OF assms(1)] by (simp add: cbuf_resize_def)
  ultimately show ?thesis using assms(2) by (simp add: cbuf_at_def cbuf_index_def cbuf_read_slot_def)
qed

theorem shrinking_resize_destroys_front_witness:
  "\<exists>b b'. cbuf_copy_forward [1, 2, 3 :: nat] cbuf_new = Inr b \<and> cbuf_resize 2 0 b = Inr b' \<and> cbuf_at b' 0 = Inl Dead_object"
proof -
  obtain b where b: "cbuf_copy_forward [1, 2, 3 :: nat] cbuf_new = Inr b" "cbuf_repr b [1, 2, 3]"
    using copy_forward_repr [OF cbuf_repr_new, of "[1, 2, 3 :: nat]"] by (auto simp: cbuf_new_def)
  then show ?thesis using shrinking_resize_destroys_front [OF b(2), of 2 0] by auto
qed

section \<open>Transcoding\<close>



text \<open>C17: Whatever the input, transcoding takes and writes whole scalar values and never more than the buffer
  holds.  It fails only in front of input that no scalar value encodes to, such as an overlong or a
  truncated sequence or half of a surrogate pair; it stops without failure at the end of the input or
  when what is left of the buffer may not hold the next value.\<close>

theorem transcoding_strict:
  assumes "to_utf16 bs room = (ok, rest, out)" "to_utf8 us room' = (ok', rest', out')"
  shows "(\<exists>cs. (\<forall>c \<in> set cs. scalar c) \<and> bs = concat (map enc8 cs) @ rest \<and> out = concat (map enc16 cs) \<and> length out \<le> room \<and>
      (if ok then rest = [] \<or> length out = room \<or> length out + 1 = room \<and> 0xF0 \<le> unat (rest ! 0)
       else \<forall>c more. scalar c \<longrightarrow> rest \<noteq> enc8 c @ more)) \<and>
    (\<exists>cs. (\<forall>c \<in> set cs. scalar c) \<and> us = concat (map enc16 cs) @ rest' \<and> out' = concat (map enc8 cs) \<and> length out' \<le> room' \<and>
      (if ok' then rest' = [] \<or> room' < length out' + 4
       else \<forall>c more. scalar c \<longrightarrow> rest' \<noteq> enc16 c @ more))"
  using to_utf16_takes [OF assms(1)] to_utf8_takes [OF assms(2)] by blast

theorem transcoding_strict_witness:
  "\<exists>cs. [0x41, 0xC0, 0x80] = concat (map enc8 cs) @ [0xC0, 0x80] \<and> [0x41] = concat (map enc16 cs)"
proof -
  have "to_utf16 [0x41, 0xC0, 0x80] 9 = (False, [0xC0, 0x80], [0x41])"
    by (simp add: to_utf16.simps utf16_step_eq)
  moreover have "to_utf8 [0xDC00] 9 = (False, [0xDC00], [])"
    by (simp add: to_utf8.simps utf8_step_def)
  ultimately show ?thesis using transcoding_strict by blast
qed

section \<open>JSON\<close>

text \<open>C16: Parsing returns for every input, whatever \<open>strtod\<close> and the callback do.  When it succeeds, it has taken
  a part of the input, and the callback has got exactly the events of one JSON value, in order: brackets
  match, and every member has a name and a value.\<close>

theorem json_parser_returns:
  "\<exists>ec rest s1. json_parser strtod f inp s = Some (ec, rest, s1) \<and>
     (ec = None \<longrightarrow> length rest < length inp \<and> (\<exists>t. feed f (json_events t) s = (None, s1)))"
  using json_parse_ends [of f Value inp s strtod]
  by (auto simp: json_parser_def ends_with_def loop_events_def)

text \<open>A number reader for the witnesses: natural numbers in decimal.\<close>

definition read_nat :: "string \<Rightarrow> nat \<times> nat" where
  "read_nat x =
     (let d = takeWhile (\<lambda>c. c \<in> set ''0123456789'') x
      in (foldl (\<lambda>n c. 10 * n + (of_char c - 48)) 0 d, length d))"

definition collect :: "(nat, unit, nat json_event list) json_callback" where
  "collect ev evs = (None, evs @ [ev])"

lemma feed_collect: "feed collect xs evs = (None, evs @ xs)"
  by (induction xs arbitrary: evs) (simp_all add: collect_def)

text \<open>A comma in front of a closing bracket is accepted.\<close>

lemma trailing_comma_accepted:
  "json_parser read_nat collect ''[null,]'' [] = Some (None, [], [Ev_array_begin, Ev_null, Ev_array_end])"
  by (simp add: json_parser_def json_parse.simps parse_value_def parse_array_def array_loop_def expect_token_def
      then_parse_def json_emit_def collect_def parse_null_def c_isalpha_def next_item_def)

theorem json_parser_returns_witness:
  "\<exists>t. json_events t = [Ev_array_begin, Ev_null, Ev_array_end :: nat json_event]"
proof -
  have "\<exists>t. feed collect (json_events t) [] = (None, [Ev_array_begin, Ev_null, Ev_array_end])"
    using json_parser_returns [of read_nat collect "''[null,]''" "[]"] by (simp add: trailing_comma_accepted)
  then show ?thesis by (simp add: feed_collect)
qed




text \<open>C30: A string that ends in an escaped backslash is not closed by its quote: the escapes in front of a quote
  are counted in the wrong direction, so only the last one is seen.  When no quote follows, the parse ends
  with an unexpected end of the stream although the text is valid JSON.\<close>

theorem escaped_backslash_missed:
  assumes "dquote \<notin> set b" "dquote \<notin> set rest" "blank w"
  shows "json_parser strtod f (w @ quoted (b @ [escape, escape]) @ rest) s =
    Some (Some Unexpected_end_of_stream, quoted (b @ [escape, escape]) @ rest, s)"
  using inner_end_missed [OF assms(1,2)] unfolding json_parser_def json_parse_blank [OF assms(3)]
  by (simp add: json_parse.simps parse_value_def parse_string_def quoted_def)

theorem escaped_backslash_missed_witness:
  "json_parser read_nat collect (quoted [CHR ''a'', escape, escape]) [] =
     Some (Some Unexpected_end_of_stream, quoted [CHR ''a'', escape, escape], [])"
  using escaped_backslash_missed [of "''a''" "[]" "[]" read_nat collect "[]"] by simp

end
