(* ===== verification/Spec2Isabelle.thy ===== *)
theory Spec2Isabelle imports Main Prelude ChunkedRanges IndexSetOps IndexSetLaws IndexSetRemove IndexSetBulk IndexSetBulkLaws IndexSetShiftedBy ChangeRel PositionSet ChangeBuilder ChangeBuilderLaws ChangeMerge ChangeRowLaws ChangeMoveOver IndexSetSpec ChangeSpec ChangeCalc ChangeCalcMatch ChangeCalcLaws ChangeCalcRows ChangeCalcSpec SyncError SyncProgress SyncConnection SyncSession SyncSessionSteps SyncSessionLaws SyncSessionCallbacks SyncSpec SchemaProperty StdAlgorithms ObjectSchema Schema SchemaStore SchemaLaws SchemaCompareLaws SchemaRemovalLaws SchemaRenameLaws SchemaSpec CoreTypes SafeInt LogInt LogCalls LogEncode LogParse LogRoundTrip LogReverse LogReverseLaws LogSelection LogTypes LogConvenient LogSpec LogObserver ObserverTables ObserverRows ObserverWatch ObserverLists ObserverSpec ArrayDirect ArrayDirectLaws ArrayHeader ArrayQuery ArrayFind ArrayChunkLaws ArrayVisit ArrayFindLaws ArrayCompareLaws ArraySearchLaws ArrayLeafLaws ArrayAccumulate ArraySpec CircularBuffer CircularBufferLaws Utf8 JsonParser JsonLaws UtilSpec begin

text \<open>
  A verification library for the Realm database that the application under \<open>src/Example\<close> links: the
  object store (\<open>Pods/Realm/Realm/ObjectStore/src\<close> with its headers in \<open>Pods/Realm/include\<close>) and the
  parts of the database core whose code is in the headers (\<open>Pods/Realm/include/core/realm\<close>).  The core
  proper is a precompiled library; what its headers only declare is a parameter of the model.

  The program.  A transaction on the core is recorded as a log of instructions.  The log is written by
  an encoder, parsed to drive handlers, and reversed to roll a transaction back.  Two handlers belong to
  the object store: a validator of schema changes, and an observer that turns the instructions into one
  change set per watched table and list.  A change set is a group of index sets and a list of moves; it
  is also calculated from the old and the new rows of a query, and change sets of successive transactions
  are merged.  Opening a file compares its schema with the wanted one and applies the changes.  A sync
  session uploads and downloads transactions and tells its callers.  The core keeps integers in array
  leaves, which queries search.

  Components and theories, in the order of the imports.

  \<^item> Index sets (\<open>index_set.cpp\<close>): \<open>ChunkedRanges\<close> holds the storage, chunks of half open ranges with cached
    bounds and counts, and its iterators; \<open>IndexSetOps\<close>, \<open>IndexSetRemove\<close>, \<open>IndexSetBulk\<close> and
    \<open>IndexSetShiftedBy\<close> the operations on an index, on a run and on a whole set.  The \<open>Laws\<close> theories show
    that each operation preserves \<open>crv_wf\<close>, the invariant the code's \<open>verify\<close> checks, and what it does to
    the set \<open>indices\<close> of positions.

  \<^item> Change sets (\<open>impl/collection_change_builder.cpp\<close>): \<open>ChangeBuilder\<close> has the state and all operations,
    \<open>ChangeCalc\<close> the calculation from two row lists.  \<open>PositionSet\<close> is the contract that a change set needs
    from its sets, a chain of locales interpreted on the index sets; \<open>ChangeRel\<close> is the algebra of the
    relation between old and new positions.  \<open>row_map\<close> is the meaning of a change set, and each operation
    composes it with the step it records (\<open>ChangeBuilderLaws\<close>, \<open>ChangeMerge\<close>, \<open>ChangeRowLaws\<close>,
    \<open>ChangeMoveOver\<close>).  \<open>ChangeCalcMatch\<close>, \<open>ChangeCalcLaws\<close> and \<open>ChangeCalcRows\<close> show
    that a calculated change set replays to the new rows.  Properties: \<open>IndexSetSpec\<close>, \<open>ChangeSpec\<close>,
    \<open>ChangeCalcSpec\<close>.

  \<^item> Sync (\<open>sync/sync_session.cpp\<close> with \<open>sync_config.hpp\<close> and the error codes of the protocol):
    \<open>SyncError\<close>, \<open>SyncProgress\<close> and \<open>SyncConnection\<close> are the error classes, the progress notifier and the
    list of connection callbacks; \<open>SyncSession\<close> has the four states and \<open>SyncSessionSteps\<close> the public
    methods, the error handler and the steps a client takes on its own, as an inductive step relation.  A
    critical section of the mutex is one step, and what the session does to the outside is recorded in a
    log of effects.  \<open>SyncSessionLaws\<close> proves the invariant of reachable sessions, \<open>SyncSessionCallbacks\<close>
    the account of the completion callbacks, \<open>SyncSpec\<close> the properties.

  \<^item> Schemas (\<open>property.hpp\<close>, \<open>object_schema.cpp\<close>, \<open>schema.cpp\<close>, \<open>object_store.cpp\<close>): \<open>SchemaProperty\<close>,
    \<open>ObjectSchema\<close> and \<open>Schema\<close> have properties, classes and the comparison of two schemas; \<open>SchemaStore\<close>
    the verifiers and appliers of schema changes, as the sequence of their calls on the core, and reading a
    schema from tables and renaming.  \<open>StdAlgorithms\<close> has the standard algorithms they call, step
    by step where the result depends on it.  The \<open>Laws\<close> theories relate validation to a declarative notion
    of a well-formed schema and comparison to agreement of the schemas.  Properties: \<open>SchemaSpec\<close>.

  \<^item> Transaction logs (\<open>impl/transact_log.hpp\<close>, \<open>util/safe_int_ops.hpp\<close>): \<open>SafeInt\<close> is the checked
    arithmetic of any pair of integer types, \<open>LogInt\<close> the encoding of integers, \<open>LogCalls\<close> the calls of a
    handler, \<open>LogEncode\<close> and \<open>LogParse\<close> encoder and parser, \<open>LogReverse\<close> the reverser and its stream,
    \<open>LogConvenient\<close> the encoder's caches of selected tables, descriptors and lists.  \<open>LogRoundTrip\<close> shows
    that a parsed log is the encoded one, \<open>LogReverseLaws\<close> and \<open>LogSelection\<close> that the reversed log holds
    the inverse calls under the right selections, \<open>LogTypes\<close> what a handler may rely on for any input.
    Properties: \<open>LogSpec\<close>.

  \<^item> Log handlers (\<open>impl/transact_log_handler.cpp\<close>): \<open>LogObserver\<close> has validator and observer.
    \<open>ObserverTables\<close>, \<open>ObserverRows\<close>, \<open>ObserverWatch\<close> and \<open>ObserverLists\<close> relate the change sets of watched
    tables and lists to the rows after the instructions.  Properties: \<open>ObserverSpec\<close>.

  \<^item> Array leaves (\<open>array_direct.hpp\<close>, \<open>array.hpp\<close>, \<open>query_conditions.hpp\<close>): \<open>ArrayDirect\<close> reads and writes
    packed elements and searches sorted ones, \<open>ArrayHeader\<close> is the header of a node with its sizes and the
    tagged integers, \<open>ArrayQuery\<close> the conditions, the accumulator \<open>QueryState\<close> and the bit tricks on
    64 bits, \<open>ArrayFind\<close> the search over a leaf and the comparison of two leaves.  \<open>ArrayChunkLaws\<close> shows
    what the tricks find out; \<open>ArrayVisit\<close> states the contract of a visitor as a locale
    and the search as visiting the matches; \<open>ArrayFindLaws\<close> and \<open>ArrayCompareLaws\<close> prove the loops inside it,
    \<open>ArraySearchLaws\<close> interprets it on the visitors of the code, \<open>ArrayLeafLaws\<close> and \<open>ArrayAccumulate\<close> cover
    nullable leaves and what is accumulated.  Properties: \<open>ArraySpec\<close>.

  \<^item> Utilities (\<open>util/circular_buffer.hpp\<close>, \<open>util/utf8.hpp\<close>, \<open>util/json_parser.hpp\<close>): \<open>CircularBuffer\<close> has
    the buffer with the life of each slot, and its iterators; \<open>CircularBufferLaws\<close> relates it to the list it
    holds (\<open>cbuf_repr\<close>).  \<open>Utf8\<close> has the transcoding and shows it to be that of scalar values.
    \<open>JsonParser\<close> has one definition for each member function of the parser; \<open>JsonLaws\<close> shows that it returns,
    that a success gives the events of one value, and that JSON text is parsed.  Properties: \<open>UtilSpec\<close>.

  Conventions.  Positions and sizes are \<open>size_t\<close> values and modelled by \<open>nat\<close>; \<open>npos\<close> is \<open>2 ^ 64 - 1\<close>.
  Where the code relies on wrap-around (the callback index, row indices, counts, the encoding of integers)
  the reduction modulo \<open>2 ^ 64\<close> is written out, and chunks of leaves are words of 64 bits.  Exceptions and
  failed assertions are values of option or sum types; a reached end of a file or a null pointer is one of
  them.  A class is a record, an enumeration a datatype with the values of the source where they are
  stored.  Every loop is a recursive function with a termination proof, except the JSON parser, the walk along
  the iterators of a circular buffer and the notification of callbacks, which are partial functions that the
  laws show to return; no fuel is used.  Unordered maps whose order can be observed are association lists.

  Parameters.  The select methods of the encoder and the state of its linked objects are arguments in
  \<open>LogConvenient\<close>; calls on tables are recorded in \<open>SchemaStore\<close>; what a user callback does is an argument of
  \<open>SyncConnection\<close>; \<open>array_ext\<close> collects what \<open>array.hpp\<close> declares without a body (the count and the first
  of the set bits, rounding up, appending to a column, the sum and the extremes of a leaf), with its
  documented behaviour as \<open>ext_ok\<close> and \<open>aggregates_ok\<close>, and the value of a shift by 64, for which nothing is
  assumed; \<open>strtod\<close> of the C library and the callback are arguments of the JSON parser.  The witnesses
  instantiate each of them.

  Not modelled.  The SSE branches of the leaf search, which are compiled for other processors than the
  phone's; B+-trees, columns, strings and the allocator, whose operations are mostly declared in headers
  and compiled elsewhere; tables, groups, query nodes and expressions over them; results, lists, objects,
  collection notifiers, the shared realm and its coordinator, whose behaviour is that of open files,
  threads and core tables; the sync manager's users and metadata, partial sync and permissions; sockets;
  the key value observation adapter; exceptions that constructors of buffer elements throw, and the other
  utilities, which wrap pointers, files and threads; the Objective-C bindings, RxFoundation and the demo application.
\<close>

end
